(* ===== verification/Kernel_Prelude.thy ===== *)
theory Kernel_Prelude
  imports Main "HOL-Library.Word" "HOL-Library.Monad_Syntax"
begin

unbundle bit_operations_syntax

text \<open>
  Shared vocabulary of the development: the C integer types of
  \<^verbatim>\<open>include/common/types.h\<close> as fixed-width words, the kernel locks and wait channels as
  small datatypes, the base state record that every component extends, and the generic
  lemmas on lists, options and function updates the component proofs rely on.

  Conventions. A function that may \<^verbatim>\<open>panic\<close> (or spin or dereference a null pointer, and
  so never returns) has an \<^typ>\<open>'a option\<close> result in which \<^term>\<open>None\<close> is "does not return".
  A C \<^verbatim>\<open>int\<close> result that carries an error number is an \<^typ>\<open>int\<close>, negative on error.
\<close>

section \<open>C integers\<close>

type_synonym u8 = "8 word"
type_synonym u16 = "16 word"
type_synonym u32 = "32 word"
type_synonym u64 = "64 word"

text \<open>Byte-addressed memory: addresses are unbounded naturals, cells are bytes.\<close>

type_synonym memory = "nat \<Rightarrow> u8"

section \<open>Error numbers of \<^verbatim>\<open>include/errno.h\<close>\<close>

abbreviation (input) EPERM :: int where "EPERM \<equiv> 1"
abbreviation (input) ENOENT :: int where "ENOENT \<equiv> 2"
abbreviation (input) ESRCH :: int where "ESRCH \<equiv> 3"
abbreviation (input) ECHILD :: int where "ECHILD \<equiv> 10"
abbreviation (input) ENOMEM :: int where "ENOMEM \<equiv> 12"
abbreviation (input) EACCES :: int where "EACCES \<equiv> 13"
abbreviation (input) EFAULT :: int where "EFAULT \<equiv> 14"
abbreviation (input) EINVAL :: int where "EINVAL \<equiv> 22"

section \<open>Named collections\<close>

named_theorems lock_simps "acquire, release and wakeup as state updates"
named_theorems frame_simps "fields an operation leaves alone"

section \<open>Generic lemmas\<close>

lemma bind_Some_iff [simp]:
  "(Option.bind x f = Some y) \<longleftrightarrow> (\<exists>z. x = Some z \<and> f z = Some y)"
  by (cases x) auto

lemma option_bind_None_left [simp]: "Option.bind None f = None"
  by simp

lemma fold_fun_upd_notin:
  "a \<notin> f ` set xs \<Longrightarrow> fold (\<lambda>i m. m(f i := g i)) xs m a = m a"
  by (induction xs arbitrary: m) auto

lemma takeWhile_all_neq:
  "(\<And>x. x \<in> set xs \<Longrightarrow> P x) \<Longrightarrow> takeWhile P xs = xs"
  by (simp add: takeWhile_eq_all_conv)

lemma nth_remove1_set:
  "distinct xs \<Longrightarrow> set (remove1 x xs) = set xs - {x}"
  by simp

lemma unat_of_nat_less: "n < 2 ^ LENGTH('a) \<Longrightarrow> unat (of_nat n :: 'a::len word) = n"
  by (simp add: unsigned_of_nat take_bit_nat_eq_self)

lemma unat_ucast_up: "LENGTH('a) \<le> LENGTH('b) \<Longrightarrow> unat (ucast (x :: 'a::len word) :: 'b::len word) = unat x"
proof -
  assume "LENGTH('a) \<le> LENGTH('b)"
  then have "(2::nat) ^ LENGTH('a) \<le> 2 ^ LENGTH('b)" by (rule power_increasing) simp
  moreover have "unat x < 2 ^ LENGTH('a)" by (rule unsigned_less)
  ultimately have "unat x < 2 ^ LENGTH('b)" by linarith
  then show ?thesis by (simp add: unsigned_ucast_eq take_bit_nat_eq_self)
qed

end
