(* ===== verification/Kernel_String.thy ===== *)
theory Kernel_String
  imports Kernel_Prelude
begin

text \<open>
  \<^verbatim>\<open>kernel/string.c\<close>: the byte and string routines every other part of the kernel calls,
  on a byte-addressed memory. A C loop that counts \<^verbatim>\<open>n\<close> down is a recursion on \<open>n\<close>.
  The lemmas say that \<^verbatim>\<open>memmove\<close> copies correctly when the ranges overlap, what
  \<^verbatim>\<open>strncmp\<close> decides, and that \<^verbatim>\<open>strncpy\<close> and \<^verbatim>\<open>safestrcpy\<close> stay inside the
  destination, the second always terminating it.
\<close>

section \<open>The routines\<close>

fun memset :: "memory \<Rightarrow> nat \<Rightarrow> u32 \<Rightarrow> nat \<Rightarrow> memory" where
  "memset m dst c n = fold (\<lambda>i m. m(dst + i := ucast c)) [0..<n] m"

fun memcmp :: "memory \<Rightarrow> nat \<Rightarrow> nat \<Rightarrow> nat \<Rightarrow> int" where
  "memcmp m s1 s2 0 = 0"
| "memcmp m s1 s2 (Suc n) =
     (if m s1 \<noteq> m s2 then uint (m s1) - uint (m s2) else memcmp m (s1 + 1) (s2 + 1) n)"

fun memmove_up :: "memory \<Rightarrow> nat \<Rightarrow> nat \<Rightarrow> nat \<Rightarrow> memory" where
  "memmove_up m d s 0 = m"
| "memmove_up m d s (Suc n) = memmove_up (m(d := m s)) (d + 1) (s + 1) n"

fun memmove_down :: "memory \<Rightarrow> nat \<Rightarrow> nat \<Rightarrow> nat \<Rightarrow> memory" where
  "memmove_down m d s 0 = m"
| "memmove_down m d s (Suc n) = memmove_down (m(d - 1 := m (s - 1))) (d - 1) (s - 1) n"

definition memmove :: "memory \<Rightarrow> nat \<Rightarrow> nat \<Rightarrow> nat \<Rightarrow> memory" where
  "memmove m dst src n =
     (if n = 0 then m
      else if src < dst \<and> src + n > dst then memmove_down m (dst + n) (src + n) n
      else memmove_up m dst src n)"

definition memcpy :: "memory \<Rightarrow> nat \<Rightarrow> nat \<Rightarrow> nat \<Rightarrow> memory" where
  "memcpy m dst src n = memmove m dst src n"

fun strncmp :: "memory \<Rightarrow> nat \<Rightarrow> nat \<Rightarrow> nat \<Rightarrow> int" where
  "strncmp m p q 0 = 0"
| "strncmp m p q (Suc n) =
     (if m p \<noteq> 0 \<and> m p = m q then strncmp m (p + 1) (q + 1) n
      else uint (m p) - uint (m q))"

fun strncpy_pad :: "memory \<Rightarrow> nat \<Rightarrow> nat \<Rightarrow> memory" where
  "strncpy_pad m s 0 = m"
| "strncpy_pad m s (Suc n) = strncpy_pad (m(s := 0)) (s + 1) n"

fun strncpy_copy :: "memory \<Rightarrow> nat \<Rightarrow> nat \<Rightarrow> nat \<Rightarrow> memory" where
  "strncpy_copy m s t 0 = m"
| "strncpy_copy m s t (Suc n) =
     (let c = m t; m' = m(s := c)
      in if c \<noteq> 0 then strncpy_copy m' (s + 1) (t + 1) n else strncpy_pad m' (s + 1) n)"

definition strncpy :: "memory \<Rightarrow> nat \<Rightarrow> nat \<Rightarrow> int \<Rightarrow> memory" where
  "strncpy m s t n = strncpy_copy m s t (nat n)"

fun safestrcpy_loop :: "memory \<Rightarrow> nat \<Rightarrow> nat \<Rightarrow> nat \<Rightarrow> memory" where
  "safestrcpy_loop m s t 0 = m(s := 0)"
| "safestrcpy_loop m s t (Suc n) =
     (let c = m t; m' = m(s := c)
      in if c \<noteq> 0 then safestrcpy_loop m' (s + 1) (t + 1) n else m'(s + 1 := 0))"

definition safestrcpy :: "memory \<Rightarrow> nat \<Rightarrow> nat \<Rightarrow> int \<Rightarrow> memory" where
  "safestrcpy m s t n = (if n \<le> 0 then m else safestrcpy_loop m s t (nat (n - 1)))"

partial_function (option) strlen_from :: "memory \<Rightarrow> nat \<Rightarrow> nat \<Rightarrow> nat option" where
  "strlen_from m s n = (if m (s + n) = 0 then Some n else strlen_from m s (n + 1))"

definition strlen :: "memory \<Rightarrow> nat \<Rightarrow> nat option" where
  "strlen m s = strlen_from m s 0"

section \<open>Correctness\<close>

lemma memset_eq: "memset m dst c n = (\<lambda>a. if dst \<le> a \<and> a < dst + n then ucast c else m a)"
proof (induction n)
  case 0
  then show ?case by (auto simp: fun_eq_iff)
next
  case (Suc n)
  have "memset m dst c (Suc n) = (memset m dst c n)(dst + n := ucast c)" by simp
  then show ?case unfolding Suc.IH by (auto simp: fun_eq_iff)
qed

lemma memmove_up_eq:
  "\<not> (s < d \<and> s + n > d) \<Longrightarrow>
   memmove_up m d s n = (\<lambda>a. if d \<le> a \<and> a < d + n then m (s + (a - d)) else m a)"
proof (induction n arbitrary: m d s)
  case 0
  then show ?case by (auto simp: fun_eq_iff)
next
  case (Suc n)
  define m' where "m' = m(d := m s)"
  have "\<not> (s + 1 < d + 1 \<and> s + 1 + n > d + 1)" using Suc.prems by linarith
  note IH = Suc.IH [OF this, of m']
  have "(if d + 1 \<le> a \<and> a < d + 1 + n then m' (s + 1 + (a - (d + 1))) else m' a)
        = (if d \<le> a \<and> a < d + Suc n then m (s + (a - d)) else m a)" for a
  proof (cases "d + 1 \<le> a \<and> a < d + 1 + n")
    case True
    then obtain k where k: "a = d + 1 + k" "k < n" by (metis add_less_cancel_left le_Suc_ex)
    then have "s + 1 + k \<noteq> d" using Suc.prems by linarith
    then show ?thesis using k by (simp add: m'_def)
  next
    case False
    then show ?thesis by (auto simp: m'_def)
  qed
  then show ?case using IH by (simp add: fun_eq_iff flip: m'_def)
qed

lemma memmove_down_eq:
  "s \<le> d \<Longrightarrow>
   memmove_down m (d + n) (s + n) n = (\<lambda>a. if d \<le> a \<and> a < d + n then m (s + (a - d)) else m a)"
proof (induction n arbitrary: m)
  case 0
  then show ?case by (auto simp: fun_eq_iff)
next
  case (Suc n)
  have "memmove_down m (d + Suc n) (s + Suc n) (Suc n)
        = memmove_down (m(d + n := m (s + n))) (d + n) (s + n) n" by simp
  then show ?case using Suc.IH [OF Suc.prems] Suc.prems by (auto simp: fun_eq_iff)
qed

lemma memmove_eq:
  "memmove m dst src n = (\<lambda>a. if dst \<le> a \<and> a < dst + n then m (src + (a - dst)) else m a)"
proof -
  consider "n = 0" | "n \<noteq> 0" "src < dst \<and> src + n > dst" | "n \<noteq> 0" "\<not> (src < dst \<and> src + n > dst)"
    by blast
  then show ?thesis
  proof cases
    case 1
    then show ?thesis by (auto simp: memmove_def fun_eq_iff)
  next
    case 2
    then show ?thesis using memmove_down_eq [of src dst m n] by (simp add: memmove_def)
  next
    case 3
    then have "memmove m dst src n = memmove_up m dst src n" by (auto simp: memmove_def)
    then show ?thesis using memmove_up_eq [OF 3(2)] by simp
  qed
qed

text \<open>What \<open>strncmp\<close> decides: equality of the two strings cut at \<open>n\<close> bytes or at the NUL.\<close>

definition cstr_n :: "memory \<Rightarrow> nat \<Rightarrow> nat \<Rightarrow> u8 list" where
  "cstr_n m p n = takeWhile (\<lambda>c. c \<noteq> 0) (map (\<lambda>i. m (p + i)) [0..<n])"

lemma cstr_n_Suc:
  "cstr_n m p (Suc n) = (if m p = 0 then [] else m p # cstr_n m (p + 1) n)"
proof -
  have "[0..<Suc n] = 0 # map Suc [0..<n]" by (simp add: map_Suc_upt upt_conv_Cons)
  then show ?thesis by (simp add: cstr_n_def comp_def)
qed

lemma cstr_n_0 [simp]: "cstr_n m p 0 = []"
  by (simp add: cstr_n_def)

lemma strncmp_0_iff: "strncmp m p q n = 0 \<longleftrightarrow> cstr_n m p n = cstr_n m q n"
  by (induction m p q n rule: strncmp.induct) (auto simp: cstr_n_Suc word_uint_eq_iff)

lemma strncpy_pad_eq:
  "strncpy_pad m s n = (\<lambda>a. if s \<le> a \<and> a < s + n then 0 else m a)"
proof (induction n arbitrary: m s)
  case 0
  then show ?case by (auto simp: fun_eq_iff)
next
  case (Suc n)
  show ?case by (subst strncpy_pad.simps, subst Suc.IH) (auto simp: fun_eq_iff)
qed

lemma strncpy_copy_outside:
  "a < s \<or> s + n \<le> a \<Longrightarrow> strncpy_copy m s t n a = m a"
proof (induction n arbitrary: m s t)
  case (Suc n)
  have ne: "a \<noteq> s" and out: "a < s + 1 \<or> s + 1 + n \<le> a" using Suc.prems by auto
  have "strncpy_copy (m(s := m t)) (s + 1) (t + 1) n a = (m(s := m t)) a" by (rule Suc.IH [OF out])
  then have "strncpy_copy (m(s := m t)) (s + 1) (t + 1) n a = m a" using ne by simp
  moreover have "strncpy_pad (m(s := m t)) (s + 1) n a = m a"
    unfolding strncpy_pad_eq using out ne by auto
  ultimately show ?case by (cases "m t = 0") (simp_all add: Let_def)
qed simp

text \<open>The source bytes are not overwritten while they are read.\<close>

definition disjoint_ranges :: "nat \<Rightarrow> nat \<Rightarrow> nat \<Rightarrow> bool" where
  "disjoint_ranges s t n \<longleftrightarrow> s + n \<le> t \<or> t + n \<le> s"

lemma disjoint_ranges_Suc: "disjoint_ranges s t (Suc n) \<Longrightarrow> disjoint_ranges (s + 1) (t + 1) n"
  by (auto simp: disjoint_ranges_def)

lemma cstr_n_cong:
  "(\<And>i. i < n \<Longrightarrow> m (p + i) = m' (p + i)) \<Longrightarrow> cstr_n m p n = cstr_n m' p n"
proof -
  assume "\<And>i. i < n \<Longrightarrow> m (p + i) = m' (p + i)"
  then have "map (\<lambda>i. m (p + i)) [0..<n] = map (\<lambda>i. m' (p + i)) [0..<n]" by simp
  then show ?thesis by (simp only: cstr_n_def)
qed

lemma cstr_n_len: "length (cstr_n m p n) \<le> n"
  unfolding cstr_n_def by (rule order_trans [OF length_takeWhile_le]) simp

lemma strncpy_copy_cstr:
  "disjoint_ranges s t n \<Longrightarrow>
   cstr_n (strncpy_copy m s t n) s n = cstr_n m t n \<and>
   (\<forall>i. length (cstr_n m t n) \<le> i \<and> i < n \<longrightarrow> strncpy_copy m s t n (s + i) = 0)"
proof (induction n arbitrary: m s t)
  case 0
  then show ?case by simp
next
  case (Suc n)
  define m' where "m' = m(s := m t)"
  note dj = disjoint_ranges_Suc [OF Suc.prems]
  have same: "cstr_n m' (t + 1) n = cstr_n m (t + 1) n"
    by (rule cstr_n_cong) (use Suc.prems in \<open>auto simp: disjoint_ranges_def m'_def\<close>)
  show ?case
  proof (cases "m t = 0")
    case True
    then show ?thesis by (auto simp: cstr_n_Suc strncpy_pad_eq Let_def)
  next
    case False
    have out: "strncpy_copy m' (s + 1) (t + 1) n s = m t"
      by (simp add: strncpy_copy_outside m'_def)
    have IH: "cstr_n (strncpy_copy m' (s + 1) (t + 1) n) (s + 1) n = cstr_n m (t + 1) n"
      and Z: "\<And>i. length (cstr_n m (t + 1) n) \<le> i \<Longrightarrow> i < n \<Longrightarrow>
                strncpy_copy m' (s + 1) (t + 1) n (s + 1 + i) = 0"
      using Suc.IH [OF dj, of m'] same by auto
    have "strncpy_copy m' (s + 1) (t + 1) n (s + i) = 0"
      if "Suc (length (cstr_n m (t + 1) n)) \<le> i" "i < Suc n" for i
      using Z [of "i - 1"] that by (cases i) auto
    then show ?thesis using False out IH by (simp add: cstr_n_Suc Let_def flip: m'_def)
  qed
qed

lemma safestrcpy_loop_outside:
  "a < s \<or> s + Suc n \<le> a \<Longrightarrow> safestrcpy_loop m s t n a = m a"
proof (induction n arbitrary: m s t)
  case (Suc n)
  have ne: "a \<noteq> s" "a \<noteq> s + 1" and out: "a < s + 1 \<or> s + 1 + Suc n \<le> a" using Suc.prems by linarith+
  have "safestrcpy_loop (m(s := m t)) (s + 1) (t + 1) n a = (m(s := m t)) a" by (rule Suc.IH [OF out])
  then show ?case using ne by (cases "m t = 0") (simp_all add: Let_def)
qed auto

lemma safestrcpy_loop_cstr:
  "disjoint_ranges s t (Suc n) \<Longrightarrow>
   cstr_n (safestrcpy_loop m s t n) s (Suc n) = cstr_n m t n \<and>
   safestrcpy_loop m s t n (s + length (cstr_n m t n)) = 0"
proof (induction n arbitrary: m s t)
  case 0
  then show ?case by (simp add: cstr_n_Suc)
next
  case (Suc n)
  define m' where "m' = m(s := m t)"
  note dj = disjoint_ranges_Suc [OF Suc.prems]
  have same: "cstr_n m' (t + 1) n = cstr_n m (t + 1) n"
    by (rule cstr_n_cong) (use Suc.prems in \<open>auto simp: disjoint_ranges_def m'_def\<close>)
  show ?case
  proof (cases "m t = 0")
    case True
    then show ?thesis by (simp add: cstr_n_Suc Let_def)
  next
    case False
    have out: "safestrcpy_loop m' (s + 1) (t + 1) n s = m t"
      by (simp add: safestrcpy_loop_outside m'_def)
    have step: "safestrcpy_loop m s t (Suc n) = safestrcpy_loop m' (s + 1) (t + 1) n"
      using False by (simp add: Let_def m'_def)
    have "cstr_n (safestrcpy_loop m' (s + 1) (t + 1) n) s (Suc (Suc n)) = m t # cstr_n m (t + 1) n"
      using Suc.IH [OF dj, of m'] same False out by (subst cstr_n_Suc) simp
    moreover have "cstr_n m t (Suc n) = m t # cstr_n m (t + 1) n"
      using False by (subst cstr_n_Suc) simp
    ultimately show ?thesis
      using Suc.IH [OF dj, of m'] same unfolding step by simp
  qed
qed

lemma strlen_from_first_nul:
  "m (s + k) = 0 \<Longrightarrow> (\<And>i. n \<le> i \<Longrightarrow> i < k \<Longrightarrow> m (s + i) \<noteq> 0) \<Longrightarrow> n \<le> k \<Longrightarrow>
   strlen_from m s n = Some k"
proof (induction "k - n" arbitrary: n)
  case 0
  then show ?case by (simp add: strlen_from.simps)
next
  case (Suc d)
  then have "m (s + n) \<noteq> 0" by simp
  with Suc show ?case by (subst strlen_from.simps) simp
qed

section \<open>Properties\<close>

text \<open>
  \<^verbatim>\<open>memmove\<close> copies the bytes the source range held before the call, whatever the overlap of
  the two ranges, and changes nothing outside the destination.
\<close>

theorem memmove_correct:
  "(\<forall>i < n. memmove m dst src n (dst + i) = m (src + i)) \<and>
   (\<forall>a. a < dst \<or> dst + n \<le> a \<longrightarrow> memmove m dst src n a = m a)"
  by (simp add: memmove_eq)

theorem memmove_correct_witness:
  "memmove (\<lambda>a. of_nat a) 2 0 4 5 = 3 \<and> memmove (\<lambda>a. of_nat a) 2 0 4 6 = (6 :: u8)"
proof -
  note t = memmove_correct [of 4 "\<lambda>a. of_nat a :: u8" 2 0]
  have "memmove (\<lambda>a. of_nat a) 2 0 4 (2 + 3) = (of_nat (0 + 3) :: u8)"
    by (rule t [THEN conjunct1, rule_format]) simp
  moreover have "memmove (\<lambda>a. of_nat a) 2 0 4 6 = (of_nat 6 :: u8)"
    by (rule t [THEN conjunct2, rule_format]) simp
  ultimately show ?thesis by simp
qed

text \<open>
  \<^verbatim>\<open>safestrcpy\<close> with a positive size leaves in the destination the source string cut to one
  byte less than the size, ends it with a NUL inside the buffer, and writes nothing outside it.
\<close>

theorem safestrcpy_correct:
  assumes "0 < n" "disjoint_ranges s t (nat n)"
  shows "cstr_n (safestrcpy m s t n) s (nat n) = cstr_n m t (nat n - 1) \<and>
    safestrcpy m s t n (s + length (cstr_n m t (nat n - 1))) = 0 \<and>
    (\<forall>a. a < s \<or> s + nat n \<le> a \<longrightarrow> safestrcpy m s t n a = m a)"
proof -
  obtain k where k: "nat n = Suc k" "nat (n - 1) = k" using assms(1) by (cases "nat n") auto
  show ?thesis
    using safestrcpy_loop_cstr [of s t k m] safestrcpy_loop_outside [of _ s k m t] assms k
    by (auto simp: safestrcpy_def)
qed

theorem safestrcpy_correct_witness:
  "let m = (\<lambda>a. if a = 100 then 65 else if a = 101 then 66 else 0) :: memory
   in cstr_n (safestrcpy m 0 100 8) 0 8 = cstr_n m 100 7 \<and> safestrcpy m 0 100 2 1 = 0"
proof -
  define m :: memory where "m = (\<lambda>a. if a = 100 then 65 else if a = 101 then 66 else 0)"
  have "cstr_n m 100 1 = [65]" by (simp add: cstr_n_def m_def)
  then have "safestrcpy m 0 100 2 1 = 0"
    using safestrcpy_correct [of 2 0 100 m] by (simp add: disjoint_ranges_def)
  moreover have "cstr_n (safestrcpy m 0 100 8) 0 8 = cstr_n m 100 7"
    using safestrcpy_correct [of 8 0 100 m] by (simp add: disjoint_ranges_def)
  ultimately show ?thesis by (simp add: m_def)
qed

end
