(* ===== verification/Klist.thy ===== *)
theory Klist
  imports Kernel_Prelude
begin

text \<open>
  \<^verbatim>\<open>include/list.h\<close>: circular doubly linked lists with a head node. Nodes are named by numbers; the
  two pointer fields are functions. \<open>linked N h xs\<close> says that the list headed by \<open>h\<close> holds the
  nodes \<open>xs\<close> in this order, in both directions; each operation is shown to act on that sequence.
\<close>

section \<open>Operations\<close>

record nodes =
  l_next :: "nat \<Rightarrow> nat"
  l_prev :: "nat \<Rightarrow> nat"

definition set_next :: "nat \<Rightarrow> nat \<Rightarrow> nodes \<Rightarrow> nodes" where
  "set_next a v N = N\<lparr>l_next := (l_next N)(a := v)\<rparr>"

definition set_prev :: "nat \<Rightarrow> nat \<Rightarrow> nodes \<Rightarrow> nodes" where
  "set_prev a v N = N\<lparr>l_prev := (l_prev N)(a := v)\<rparr>"

definition list_init :: "nat \<Rightarrow> nodes \<Rightarrow> nodes" where
  "list_init h N = set_next h h (set_prev h h N)"

definition list_empty :: "nat \<Rightarrow> nodes \<Rightarrow> bool" where
  "list_empty h N \<longleftrightarrow> l_next N h = h"

definition list_front :: "nat \<Rightarrow> nodes \<Rightarrow> nat" where
  "list_front h N = l_next N h"

definition list_back :: "nat \<Rightarrow> nodes \<Rightarrow> nat" where
  "list_back h N = l_prev N h"

definition list_insert :: "nat \<Rightarrow> nat \<Rightarrow> nat \<Rightarrow> nodes \<Rightarrow> nodes" where
  "list_insert item prv nxt N =
     (let N = set_prev nxt item N;
          N = set_next item nxt N;
          N = set_prev item prv N
      in set_next prv item N)"

definition list_push_front :: "nat \<Rightarrow> nat \<Rightarrow> nodes \<Rightarrow> nodes" where
  "list_push_front h item N = list_insert item h (l_next N h) N"

definition list_push_back :: "nat \<Rightarrow> nat \<Rightarrow> nodes \<Rightarrow> nodes" where
  "list_push_back h item N = list_insert item (l_prev N h) h N"

definition list_drop :: "nat \<Rightarrow> nodes \<Rightarrow> nodes" where
  "list_drop item N =
     (let N = set_prev (l_next N item) (l_prev N item) N
      in set_next (l_prev N item) (l_next N item) N)"

definition list_pop_front :: "nat \<Rightarrow> nodes \<Rightarrow> nodes" where
  "list_pop_front h N = list_drop (list_front h N) N"

definition list_pop_back :: "nat \<Rightarrow> nodes \<Rightarrow> nodes" where
  "list_pop_back h N = list_drop (list_back h N) N"

definition list_concat :: "nat \<Rightarrow> nat \<Rightarrow> nodes \<Rightarrow> nodes" where
  "list_concat h other N =
     (if list_empty other N then N
      else
        let N = set_prev (l_next N other) h N;
            N = set_next (l_prev N other) (l_next N h) N;
            N = set_prev (l_next N h) (l_prev N other) N;
            N = set_next h (l_next N other) N
        in list_init other N)"

text \<open>The loops; on a structure that is not a list they need not end (\<^term>\<open>None\<close>).\<close>

partial_function (option) list_search :: "nat \<Rightarrow> (nat \<Rightarrow> bool) \<Rightarrow> nodes \<Rightarrow> nat \<Rightarrow> nat option option" where
  "list_search h P N p = (if p = h then Some None else if P p then Some (Some p) else list_search h P N (l_next N p))"

partial_function (option) list_search_rev :: "nat \<Rightarrow> (nat \<Rightarrow> bool) \<Rightarrow> nodes \<Rightarrow> nat \<Rightarrow> nat option option" where
  "list_search_rev h P N p = (if p = h then Some None else if P p then Some (Some p) else list_search_rev h P N (l_prev N p))"

definition list_foreach_find :: "nat \<Rightarrow> (nat \<Rightarrow> bool) \<Rightarrow> nodes \<Rightarrow> nat option option" where
  "list_foreach_find h P N = list_search h P N (l_next N h)"

definition list_foreach_reverse_find :: "nat \<Rightarrow> (nat \<Rightarrow> bool) \<Rightarrow> nodes \<Rightarrow> nat option option" where
  "list_foreach_reverse_find h P N = list_search_rev h P N (l_prev N h)"

definition list_find :: "nat \<Rightarrow> nat \<Rightarrow> nodes \<Rightarrow> nat option option" where
  "list_find h item N = list_search h (\<lambda>p. p = item) N (l_next N h)"

partial_function (option) list_count :: "nat \<Rightarrow> nodes \<Rightarrow> nat \<Rightarrow> nat \<Rightarrow> nat option" where
  "list_count h N p c = (if p = h then Some c else list_count h N (l_next N p) (c + 1))"

definition list_length :: "nat \<Rightarrow> nodes \<Rightarrow> nat option" where
  "list_length h N = list_count h N (l_next N h) 0"

section \<open>The sequence a list holds\<close>

text \<open>\<open>fwd N a xs\<close>: from \<open>a\<close> the links lead through \<open>xs\<close>, and back.\<close>

primrec fwd :: "nodes \<Rightarrow> nat \<Rightarrow> nat list \<Rightarrow> bool" where
  "fwd N a [] = True"
| "fwd N a (x # xs) = (l_next N a = x \<and> l_prev N x = a \<and> fwd N x xs)"

definition linked :: "nodes \<Rightarrow> nat \<Rightarrow> nat list \<Rightarrow> bool" where
  "linked N h xs \<longleftrightarrow> fwd N h (xs @ [h]) \<and> distinct (h # xs)"

lemma fwd_append: "fwd N a (xs @ ys) \<longleftrightarrow> fwd N a xs \<and> fwd N (last (a # xs)) ys"
  by (induction xs arbitrary: a) auto

lemma fwd_cong:
  "(\<And>x. x \<in> set (butlast (a # xs)) \<Longrightarrow> l_next M x = l_next N x) \<Longrightarrow> (\<And>x. x \<in> set xs \<Longrightarrow> l_prev M x = l_prev N x) \<Longrightarrow>
   fwd M a xs = fwd N a xs"
proof (induction xs arbitrary: a)
  case (Cons x xs)
  then show ?case by (cases xs) auto
qed simp

lemma links [simp]:
  "l_next (set_next a v N) = (l_next N)(a := v)" "l_prev (set_next a v N) = l_prev N"
  "l_prev (set_prev a v N) = (l_prev N)(a := v)" "l_next (set_prev a v N) = l_next N"
  by (simp_all add: set_next_def set_prev_def)

lemma linked_ends:
  assumes "linked N h xs"
  shows "l_next N h = hd (xs @ [h])" "l_prev N h = last (h # xs)"
  using assms by (cases xs; auto simp: linked_def fwd_append)+

lemma linked_mid:
  assumes "linked N h (xs @ a # ys)"
  shows "l_prev N a = last (h # xs)" "l_next N a = hd (ys @ [h])"
  using assms by (cases ys; auto simp: linked_def fwd_append)+

lemma butlast_not_last: "distinct zs \<Longrightarrow> x \<in> set (butlast zs) \<Longrightarrow> x \<noteq> last zs"
  by (cases zs rule: rev_cases) auto

text \<open>Inserting between two neighbours.\<close>

lemma linked_insert:
  assumes l: "linked N h (xs @ ys)" and a: "a \<notin> set (h # xs @ ys)"
  shows "linked (list_insert a (last (h # xs)) (hd (ys @ [h])) N) h (xs @ a # ys)"
proof -
  let ?p = "last (h # xs)" and ?n = "hd (ys @ [h])"
  define M where "M = list_insert a ?p ?n N"
  have nx: "l_next M = (l_next N)(a := ?n, ?p := a)" and pv: "l_prev M = (l_prev N)(?n := a, a := ?p)"
    by (simp_all add: M_def list_insert_def Let_def)
  have d: "distinct (h # xs @ ys)" and f: "fwd N h xs" "fwd N ?p (ys @ [h])"
    using l by (auto simp: linked_def fwd_append)
  obtain n rest where nr: "ys @ [h] = n # rest" by (cases ys) auto
  have dn: "distinct (n # rest)" "set (n # rest) \<subseteq> insert h (set ys)" using d by (auto simp flip: nr)
  have p: "?p \<in> set (h # xs)" by (metis last_in_set list.distinct(1))
  then have pa: "?p \<noteq> a" using a by auto
  have na: "n \<noteq> a" "a \<notin> set rest" using dn(2) a by auto
  have "fwd M h xs = fwd N h xs"
  proof (rule fwd_cong)
    show "l_next M x = l_next N x" if "x \<in> set (butlast (h # xs))" for x
      using butlast_not_last [of "h # xs" x] that d a by (auto simp: nx dest: in_set_butlastD split: if_splits)
    show "l_prev M x = l_prev N x" if "x \<in> set xs" for x
      using that a d dn(2) nr by (auto simp: pv)
  qed
  moreover have "fwd M n rest = fwd N n rest"
  proof (rule fwd_cong)
    show "l_next M x = l_next N x" if "x \<in> set (butlast (n # rest))" for x
    proof -
      have "x \<in> set ys" using that unfolding nr [symmetric] by (simp add: butlast_append)
      then show ?thesis using a d p by (auto simp: nx)
    qed
    show "l_prev M x = l_prev N x" if "x \<in> set rest" for x
      using that dn na nr by (auto simp: pv)
  qed
  moreover have "l_next M ?p = a" "l_prev M a = ?p" "l_next M a = n" "l_prev M n = a"
    using pa na nr by (simp_all add: nx pv)
  moreover have "fwd N n rest" using f(2) unfolding nr by simp
  ultimately have "fwd M h (xs @ a # ys @ [h])"
    using f(1) unfolding nr fwd_append [of M h xs] fwd.simps by blast
  then show ?thesis using d a by (simp add: linked_def M_def)
qed

lemma linked_drop:
  assumes l: "linked N h (xs @ a # ys)"
  shows "linked (list_drop a N) h (xs @ ys)"
proof -
  let ?p = "last (h # xs)"
  define M where "M = list_drop a N"
  obtain n rest where nr: "ys @ [h] = n # rest" by (cases ys) auto
  have d: "distinct (h # xs @ a # ys)" and f: "fwd N h xs" "fwd N a (n # rest)"
    using l nr by (auto simp: linked_def fwd_append)
  have pa: "l_prev N a = ?p" "l_next N a = n" using linked_mid [OF l] nr by auto
  have dn: "distinct (n # rest)" "set (n # rest) \<subseteq> insert h (set ys)" using d by (auto simp flip: nr)
  have na: "n \<noteq> a" "a \<notin> set rest" using dn(2) d by auto
  have p: "?p \<in> set (h # xs)" by (metis last_in_set list.distinct(1))
  have nx: "l_next M = (l_next N)(?p := n)" and pv: "l_prev M = (l_prev N)(n := ?p)"
    using pa na by (simp_all add: M_def list_drop_def Let_def)
  have "fwd M h xs = fwd N h xs"
  proof (rule fwd_cong)
    show "l_next M x = l_next N x" if "x \<in> set (butlast (h # xs))" for x
      using butlast_not_last [of "h # xs" x] that d by (auto simp: nx split: if_splits)
    show "l_prev M x = l_prev N x" if "x \<in> set xs" for x
      using that d dn(2) by (auto simp: pv)
  qed
  moreover have "fwd M n rest = fwd N n rest"
  proof (rule fwd_cong)
    show "l_next M x = l_next N x" if "x \<in> set (butlast (n # rest))" for x
    proof -
      have "x \<in> set ys" using that unfolding nr [symmetric] by (simp add: butlast_append)
      then show ?thesis using d p by (auto simp: nx)
    qed
    show "l_prev M x = l_prev N x" if "x \<in> set rest" for x
      using that dn by (auto simp: pv)
  qed
  moreover have "l_next M ?p = n" "l_prev M n = ?p" by (simp_all add: nx pv)
  moreover have "fwd N n rest" using f(2) by simp
  ultimately have "fwd M h (xs @ ys @ [h])"
    using f(1) unfolding nr fwd_append [of M h xs] fwd.simps by blast
  then show ?thesis using d by (simp add: linked_def M_def)
qed

lemma linked_init: "linked (list_init h N) h []"
  by (simp add: linked_def list_init_def)

lemma linked_empty: "linked N h xs \<Longrightarrow> list_empty h N \<longleftrightarrow> xs = []"
  using linked_ends(1) [of N h xs] by (cases xs) (auto simp: list_empty_def linked_def)

lemma linked_push_back: "linked N h xs \<Longrightarrow> a \<notin> set (h # xs) \<Longrightarrow> linked (list_push_back h a N) h (xs @ [a])"
  using linked_insert [of N h xs "[]" a] linked_ends(2) [of N h xs] by (simp add: list_push_back_def)

lemma linked_push_front: "linked N h xs \<Longrightarrow> a \<notin> set (h # xs) \<Longrightarrow> linked (list_push_front h a N) h (a # xs)"
  using linked_insert [of N h "[]" xs a] linked_ends(1) [of N h xs] by (simp add: list_push_front_def)

lemma linked_remove: "linked N h xs \<Longrightarrow> a \<in> set xs \<Longrightarrow> linked (list_drop a N) h (remove1 a xs)"
proof -
  assume l: "linked N h xs" and "a \<in> set xs"
  then obtain ys zs where xs: "xs = ys @ a # zs" by (auto dest: split_list)
  then have "a \<notin> set ys" using l by (auto simp: linked_def)
  then show ?thesis using linked_drop [of N h ys a zs] l xs by (simp add: remove1_append)
qed

lemma linked_pop_front: "linked N h (x # xs) \<Longrightarrow> linked (list_pop_front h N) h xs"
  using linked_drop [of N h "[]" x xs] linked_ends(1) [of N h "x # xs"] by (simp add: list_pop_front_def list_front_def)

lemma linked_pop_back: "linked N h (xs @ [x]) \<Longrightarrow> linked (list_pop_back h N) h xs"
  using linked_drop [of N h xs x "[]"] linked_ends(2) [of N h "xs @ [x]"] by (simp add: list_pop_back_def list_back_def)

lemma linked_concat:
  assumes l: "linked N h xs" and m: "linked N other ys" and dj: "set (h # xs) \<inter> set (other # ys) = {}"
  shows "linked (list_concat h other N) h (ys @ xs)" "linked (list_concat h other N) other []"
proof -
  show "linked (list_concat h other N) other []"
  proof (cases "ys = []")
    case True
    then show ?thesis using m linked_empty [OF m] by (simp add: list_concat_def)
  next
    case False
    then show ?thesis using linked_empty [OF m] by (simp add: list_concat_def Let_def linked_init)
  qed
  show "linked (list_concat h other N) h (ys @ xs)"
  proof (cases ys)
    case Nil
    then show ?thesis using l linked_empty [OF m] by (simp add: list_concat_def)
  next
    case (Cons y zs)
    define M where "M = list_concat h other N"
    obtain n rest where nr: "xs @ [h] = n # rest" by (cases xs) auto
    let ?z = "last ys"
    have d: "distinct (h # xs)" "distinct (other # ys)" using l m by (simp_all add: linked_def)
    have e: "l_next N h = n" "l_next N other = y" "l_prev N other = ?z"
      using linked_ends [OF l] linked_ends [OF m] nr Cons by auto
    have f: "fwd N n rest" "fwd N y zs"
      using l m nr Cons by (auto simp: linked_def fwd_append)
    have z: "?z \<in> set ys" using Cons by simp
    have y: "y \<in> set ys" using Cons by simp
    have nin: "n \<in> set (h # xs)" using nr by (cases xs) auto
    have neq: "other \<noteq> y" "other \<noteq> ?z" "h \<noteq> ?z" "h \<noteq> other" "other \<noteq> n" "y \<noteq> n"
      using d z y dj nin by auto
    have nx: "l_next M = (l_next N)(?z := n, h := y, other := other)"
      and pv: "l_prev M = (l_prev N)(y := h, n := ?z, other := other)"
      using e neq linked_empty [OF m] Cons by (simp_all add: M_def list_concat_def list_init_def Let_def)
    have "fwd M y zs = fwd N y zs"
    proof (rule fwd_cong)
      show "l_next M x = l_next N x" if "x \<in> set (butlast (y # zs))" for x
      proof -
        have "x \<noteq> ?z" using butlast_not_last [of ys x] that d(2) Cons by simp
        moreover have "x \<in> set ys" using that Cons in_set_butlastD by fastforce
        ultimately show ?thesis using dj d(2) by (auto simp: nx)
      qed
      show "l_prev M x = l_prev N x" if "x \<in> set zs" for x
        using that d(2) dj nin Cons by (auto simp: pv)
    qed
    moreover have "fwd M n rest = fwd N n rest"
    proof (rule fwd_cong)
      show "l_next M x = l_next N x" if "x \<in> set (butlast (n # rest))" for x
      proof -
        have "x \<in> set xs" using that unfolding nr [symmetric] by (simp add: butlast_append)
        then show ?thesis using dj d z by (auto simp: nx)
      qed
      show "l_prev M x = l_prev N x" if "x \<in> set rest" for x
      proof -
        have "distinct (n # rest)" "set (n # rest) \<subseteq> set (h # xs)" using d(1) by (auto simp flip: nr)
        then show ?thesis using that dj y by (auto simp: pv)
      qed
    qed
    moreover have "l_next M h = y" "l_prev M y = h" "l_next M ?z = n" "l_prev M n = ?z"
      using neq by (simp_all add: nx pv)
    moreover have "last (y # zs) = ?z" using Cons by simp
    ultimately have "fwd M h ((y # zs) @ n # rest)"
      using f unfolding append_Cons fwd.simps fwd_append [of M y zs] by simp
    then have "fwd M h ((ys @ xs) @ [h])" using Cons nr by simp
    then show ?thesis using d dj by (auto simp: linked_def M_def)
  qed
qed

section \<open>The loops\<close>

text \<open>Forward and backward search visit the nodes in order.\<close>

lemma list_search_from:
  "fwd N a (xs @ [h]) \<Longrightarrow> h \<notin> set xs \<Longrightarrow> list_search h P N (hd (xs @ [h])) = Some (find P xs)"
proof (induction xs arbitrary: a)
  case Nil
  then show ?case by (subst list_search.simps) simp
next
  case (Cons x xs)
  have f: "fwd N x (xs @ [h])" using Cons.prems(1) by simp
  have "l_next N x = hd (xs @ [h])" using f by (cases xs) auto
  then show ?case using Cons.IH [OF f] Cons.prems(2) by (subst list_search.simps) auto
qed

lemma list_search_rev_from:
  "fwd N h xs \<Longrightarrow> h \<notin> set xs \<Longrightarrow> list_search_rev h P N (last (h # xs)) = Some (find P (rev xs))"
proof (induction xs rule: rev_induct)
  case Nil
  then show ?case by (subst list_search_rev.simps) simp
next
  case (snoc x xs)
  have f: "fwd N h xs" "l_prev N x = last (h # xs)" using snoc.prems(1) by (auto simp: fwd_append)
  then show ?case using snoc.IH [OF f(1)] snoc.prems(2) by (subst list_search_rev.simps) auto
qed

lemma foreach_find_eq: "linked N h xs \<Longrightarrow> list_foreach_find h P N = Some (find P xs)"
  using list_search_from [of N h xs h P] linked_ends(1) [of N h xs] by (simp add: list_foreach_find_def linked_def)

lemma foreach_reverse_find_eq: "linked N h xs \<Longrightarrow> list_foreach_reverse_find h P N = Some (find P (rev xs))"
  using list_search_rev_from [of N h xs P] linked_ends(2) [of N h xs]
  by (simp add: list_foreach_reverse_find_def linked_def fwd_append)

lemma list_find_eq: "linked N h xs \<Longrightarrow> list_find h a N = Some (if a \<in> set xs then Some a else None)"
proof -
  assume l: "linked N h xs"
  have "find (\<lambda>p. p = a) xs = (if a \<in> set xs then Some a else None)" by (induction xs) auto
  then show ?thesis using foreach_find_eq [OF l, of "\<lambda>p. p = a"] by (simp add: list_find_def list_foreach_find_def)
qed

lemma list_count_from:
  "fwd N a (xs @ [h]) \<Longrightarrow> h \<notin> set xs \<Longrightarrow> list_count h N (hd (xs @ [h])) c = Some (c + length xs)"
proof (induction xs arbitrary: a c)
  case Nil
  then show ?case by (subst list_count.simps) simp
next
  case (Cons x xs)
  have f: "fwd N x (xs @ [h])" using Cons.prems(1) by simp
  have "l_next N x = hd (xs @ [h])" using f by (cases xs) auto
  then show ?case using Cons.IH [OF f, of "c + 1"] Cons.prems(2) by (subst list_count.simps) auto
qed

lemma list_length_eq: "linked N h xs \<Longrightarrow> list_length h N = Some (length xs)"
  using list_count_from [of N h xs h 0] linked_ends(1) [of N h xs] by (simp add: list_length_def linked_def)

section \<open>Properties\<close>

text \<open>
  The list operations act on the sequence of nodes as their names say: on a well-formed list,
  inserting at either end, unlinking any node and popping either end leave a well-formed list with the
  corresponding sequence, in both directions, and joining two disjoint lists moves all nodes
  of the second in front of the first.
\<close>

theorem list_ops_correct:
  assumes "linked N h xs" "a \<notin> set (h # xs)" "b \<in> set xs" "linked N g ys" "set (h # xs) \<inter> set (g # ys) = {}"
  shows "linked (list_push_back h a N) h (xs @ [a]) \<and> linked (list_push_front h a N) h (a # xs) \<and>
    linked (list_drop b N) h (remove1 b xs) \<and> linked (list_pop_front h N) h (tl xs) \<and>
    linked (list_pop_back h N) h (butlast xs) \<and>
    linked (list_concat h g N) h (ys @ xs) \<and> linked (list_concat h g N) g []"
proof -
  obtain x zs where xs: "xs = x # zs" using assms(3) by (cases xs) auto
  then have pf: "linked (list_pop_front h N) h (tl xs)" using linked_pop_front [of N h x zs] assms(1) by simp
  have "xs \<noteq> []" using xs by simp
  then have "linked N h (butlast xs @ [last xs])" using assms(1) by simp
  then have "linked (list_pop_back h N) h (butlast xs)" by (rule linked_pop_back)
  then show ?thesis
    using pf linked_push_back [OF assms(1,2)] linked_push_front [OF assms(1,2)] linked_remove [OF assms(1,3)]
      linked_concat [OF assms(1,4,5)] by blast
qed

theorem list_ops_correct_witness:
  "linked (list_push_back 0 9 (list_push_back 0 1 (list_init 0 (list_init 5 \<lparr>l_next = id, l_prev = id\<rparr>)))) 0 [1, 9]"
proof -
  let ?N0 = "list_init 0 (list_init 5 \<lparr>l_next = id, l_prev = id\<rparr>)"
  have n: "linked (list_push_back 0 1 ?N0) 0 [1]" using linked_push_back [OF linked_init, of 1 0] by simp
  have g: "linked (list_push_back 0 1 ?N0) 5 []"
    by (simp add: linked_def list_push_back_def list_insert_def list_init_def Let_def)
  show ?thesis using list_ops_correct [OF n _ _ g, of 9 1] by simp
qed

end
