(* ===== verification/Kernel_Lock.thy ===== *)
theory Kernel_Lock
  imports Kernel_Prelude
begin

text \<open>
  Locks. The first part is the view every other component has of them: the set of spinlocks
  the running hart holds and the list of wait channels it has woken, in the base record
  \<open>kstate\<close> that the component states extend. The second part models
  \<^verbatim>\<open>kernel/spinlock.c\<close> itself (the lock words, the interrupt flag and the nesting
  count of \<^verbatim>\<open>push_off\<close> and \<^verbatim>\<open>pop_off\<close>) and shows that it implements that view; the third
  models \<^verbatim>\<open>kernel/sleeplock.c\<close>. The kernel is built for one hart
  (\<^verbatim>\<open>NCPU\<close> is 1 and \<^verbatim>\<open>cpuid\<close> returns 0).
\<close>

section \<open>The components' view\<close>

datatype lockid =
    L_buddy | L_pages_ref | L_slab | L_cache nat | L_bcache | L_sd | L_itable | L_ftable
  | L_inode nat | L_pipe nat | L_cons | L_proc nat | L_wait | L_pid | L_q | L_siglock
  | L_pr | L_clock | L_uart

datatype chan =
    Ch_buf nat | Ch_nread nat | Ch_nwrite nat | Ch_cons_r | Ch_proc nat | Ch_inode nat | Ch_jiffies | Ch_uart_r

record kstate =
  held :: "lockid set"
  woken :: "chan list"

definition k_acquire :: "lockid \<Rightarrow> 'a kstate_scheme \<Rightarrow> 'a kstate_scheme option" where
  "k_acquire l s = (if l \<in> held s then None else Some (s\<lparr>held := insert l (held s)\<rparr>))"

definition k_release :: "lockid \<Rightarrow> 'a kstate_scheme \<Rightarrow> 'a kstate_scheme option" where
  "k_release l s = (if l \<in> held s then Some (s\<lparr>held := held s - {l}\<rparr>) else None)"

definition k_wakeup :: "chan \<Rightarrow> 'a kstate_scheme \<Rightarrow> 'a kstate_scheme" where
  "k_wakeup c s = s\<lparr>woken := c # woken s\<rparr>"

lemma k_acquire_free [lock_simps]:
  "l \<notin> held s \<Longrightarrow> k_acquire l s = Some (s\<lparr>held := insert l (held s)\<rparr>)"
  by (simp add: k_acquire_def)

lemma k_acquire_held [lock_simps]: "l \<in> held s \<Longrightarrow> k_acquire l s = None"
  by (simp add: k_acquire_def)

lemma k_release_held [lock_simps]:
  "l \<in> held s \<Longrightarrow> k_release l s = Some (s\<lparr>held := held s - {l}\<rparr>)"
  by (simp add: k_release_def)

lemma k_release_free [lock_simps]: "l \<notin> held s \<Longrightarrow> k_release l s = None"
  by (simp add: k_release_def)

text \<open>Taking a free lock and giving it back leaves the set of held locks as it was.\<close>

lemma held_bracket [simp]: "l \<notin> H \<Longrightarrow> insert l H - {l} = H"
  by simp

section \<open>The contract of a spinlock\<close>

text \<open>
  What a client may rely on: a free lock is taken, a held lock is refused (the kernel panics
  rather than deadlock on itself), only a held lock can be released. The client's lemma is
  that a bracketed critical section whose body does not touch the lock returns and restores
  the set of held locks.
\<close>

locale lock_contract =
  fixes acq :: "'l \<Rightarrow> 's \<Rightarrow> 's option"
    and rel :: "'l \<Rightarrow> 's \<Rightarrow> 's option"
    and held_set :: "'s \<Rightarrow> 'l set"
    and ok :: "'s \<Rightarrow> bool"
  assumes acq_free: "ok s \<Longrightarrow> l \<notin> held_set s \<Longrightarrow>
      \<exists>s'. acq l s = Some s' \<and> ok s' \<and> held_set s' = insert l (held_set s)"
    and acq_busy: "ok s \<Longrightarrow> l \<in> held_set s \<Longrightarrow> acq l s = None"
    and rel_held: "ok s \<Longrightarrow> l \<in> held_set s \<Longrightarrow>
      \<exists>s'. rel l s = Some s' \<and> ok s' \<and> held_set s' = held_set s - {l}"
    and rel_free: "ok s \<Longrightarrow> l \<notin> held_set s \<Longrightarrow> rel l s = None"
begin

lemma bracket_returns:
  assumes "ok s" "l \<notin> held_set s"
    and body: "\<And>t. ok t \<Longrightarrow> held_set t = insert l (held_set s) \<Longrightarrow>
      \<exists>t'. body t = Some t' \<and> ok t' \<and> held_set t' = held_set t"
  shows "\<exists>s'. do { t \<leftarrow> acq l s; t' \<leftarrow> body t; rel l t' } = Some s' \<and> ok s' \<and> held_set s' = held_set s"
proof -
  obtain t where t: "acq l s = Some t" "ok t" "held_set t = insert l (held_set s)"
    using acq_free assms(1,2) by blast
  obtain t' where t': "body t = Some t'" "ok t'" "held_set t' = held_set t"
    using body [OF t(2,3)] by blast
  have "l \<in> held_set t'" using t t' by simp
  then obtain u where "rel l t' = Some u" "ok u" "held_set u = held_set t' - {l}"
    using rel_held t'(2) by blast
  then show ?thesis using t t' assms(2) by auto
qed

lemma acq_returns_iff: "ok s \<Longrightarrow> (acq l s \<noteq> None) = (l \<notin> held_set s)"
  using acq_free acq_busy by fastforce

lemma rel_returns_iff: "ok s \<Longrightarrow> (rel l s \<noteq> None) = (l \<in> held_set s)"
  using rel_held rel_free by fastforce

end

interpretation klock: lock_contract k_acquire k_release held "\<lambda>_. True"
  by unfold_locales (auto simp: lock_simps)

section \<open>\<^verbatim>\<open>kernel/spinlock.c\<close>\<close>

record spinlock =
  lk_locked :: bool
  lk_name :: string
  lk_cpu :: "nat option"

record cpu =
  noff :: int
  intena :: bool

text \<open>The hart: the interrupt enable bit, its \<^verbatim>\<open>struct cpu\<close>, and the lock words in memory.\<close>

record hart =
  intr :: bool
  hcpu :: cpu
  lockmem :: "lockid \<Rightarrow> spinlock"

definition cpuid :: nat where
  "cpuid = 0"

definition initlock :: "lockid \<Rightarrow> string \<Rightarrow> hart \<Rightarrow> hart" where
  "initlock l name h = h\<lparr>lockmem := (lockmem h)(l := \<lparr>lk_locked = False, lk_name = name, lk_cpu = None\<rparr>)\<rparr>"

definition push_off :: "hart \<Rightarrow> hart" where
  "push_off h =
     (let old = intr h;
          h = h\<lparr>intr := False\<rparr>;
          c = hcpu h;
          c = (if noff c = 0 then c\<lparr>intena := old\<rparr> else c)
      in h\<lparr>hcpu := c\<lparr>noff := noff c + 1\<rparr>\<rparr>)"

definition pop_off :: "hart \<Rightarrow> hart option" where
  "pop_off h =
     (if intr h then None
      else if noff (hcpu h) < 1 then None
      else let c = (hcpu h)\<lparr>noff := noff (hcpu h) - 1\<rparr>
           in Some (h\<lparr>hcpu := c, intr := (if noff c = 0 \<and> intena c then True else intr h)\<rparr>))"

definition holding :: "lockid \<Rightarrow> hart \<Rightarrow> bool" where
  "holding l h \<longleftrightarrow> lk_locked (lockmem h l) \<and> lk_cpu (lockmem h l) = Some cpuid"

text \<open>
  \<open>acquire\<close>: with the lock word set and another owner recorded, the test-and-set loop spins for
  ever (\<open>None\<close>), as a panic does.
\<close>

definition acquire :: "lockid \<Rightarrow> hart \<Rightarrow> hart option" where
  "acquire l h =
     (let h = push_off h
      in if holding l h then None
         else if lk_locked (lockmem h l) then None
         else Some (h\<lparr>lockmem := (lockmem h)(l := (lockmem h l)\<lparr>lk_locked := True, lk_cpu := Some cpuid\<rparr>)\<rparr>))"

definition release :: "lockid \<Rightarrow> hart \<Rightarrow> hart option" where
  "release l h =
     (if \<not> holding l h then None
      else pop_off (h\<lparr>lockmem := (lockmem h)(l := (lockmem h l)\<lparr>lk_cpu := None, lk_locked := False\<rparr>)\<rparr>))"

subsection \<open>The spinlock meets the contract\<close>

definition hart_held :: "hart \<Rightarrow> lockid set" where
  "hart_held h = {l. holding l h}"

text \<open>
  A consistent hart: a set lock word names this hart as owner and a clear one names nobody,
  the nesting count covers the held locks, and interrupts are off while the count is positive.
\<close>

definition hart_ok :: "hart \<Rightarrow> bool" where
  "hart_ok h \<longleftrightarrow>
     (\<forall>l. lk_locked (lockmem h l) = (lk_cpu (lockmem h l) = Some cpuid)) \<and>
     finite (hart_held h) \<and> int (card (hart_held h)) \<le> noff (hcpu h) \<and>
     (0 < noff (hcpu h) \<longrightarrow> \<not> intr h)"

lemma holding_upd:
  "holding k (h\<lparr>lockmem := (lockmem h)(l := x)\<rparr>) =
     (if k = l then lk_locked x \<and> lk_cpu x = Some cpuid else holding k h)"
  by (simp add: holding_def)

lemma hart_held_set: "hart_held (h\<lparr>lockmem := (lockmem h)(l := x)\<rparr>) =
     (if lk_locked x \<and> lk_cpu x = Some cpuid then insert l (hart_held h) else hart_held h - {l})"
  by (auto simp: hart_held_def holding_upd)

lemma push_off_simps [simp]:
  "intr (push_off h) = False"
  "lockmem (push_off h) = lockmem h"
  "noff (hcpu (push_off h)) = noff (hcpu h) + 1"
  "intena (hcpu (push_off h)) = (if noff (hcpu h) = 0 then intr h else intena (hcpu h))"
  "holding l (push_off h) = holding l h"
  "hart_held (push_off h) = hart_held h"
  by (simp_all add: push_off_def Let_def holding_def hart_held_def)

lemma acquire_eq:
  assumes "hart_ok h" "\<not> holding l h"
  shows "acquire l h = Some ((push_off h)\<lparr>lockmem := (lockmem h)(l := (lockmem h l)\<lparr>lk_locked := True, lk_cpu := Some cpuid\<rparr>)\<rparr>)"
  using assms by (auto simp: acquire_def Let_def holding_def hart_ok_def)

lemma release_eq:
  assumes "hart_ok h" "holding l h"
  shows "\<exists>h'. release l h = Some h' \<and>
     lockmem h' = (lockmem h)(l := (lockmem h l)\<lparr>lk_cpu := None, lk_locked := False\<rparr>) \<and>
     noff (hcpu h') = noff (hcpu h) - 1 \<and> intena (hcpu h') = intena (hcpu h) \<and>
     intr h' = (noff (hcpu h) = 1 \<and> intena (hcpu h))"
proof -
  have "0 < card (hart_held h)"
    using assms by (auto simp: hart_ok_def hart_held_def card_gt_0_iff)
  then have "0 < noff (hcpu h)" "\<not> intr h" using assms by (auto simp: hart_ok_def)
  then show ?thesis using assms(2) by (auto simp: release_def pop_off_def Let_def)
qed

lemma hart_held_cong: "lockmem h = lockmem g \<Longrightarrow> hart_held h = hart_held g"
  by (simp add: hart_held_def holding_def)

lemma acquire_ok:
  assumes ok: "hart_ok h" and l: "l \<notin> hart_held h"
  shows "\<exists>h'. acquire l h = Some h' \<and> hart_ok h' \<and> hart_held h' = insert l (hart_held h)"
proof -
  let ?h = "(push_off h)\<lparr>lockmem := (lockmem h)(l := (lockmem h l)\<lparr>lk_locked := True, lk_cpu := Some cpuid\<rparr>)\<rparr>"
  have nl: "\<not> holding l h" using l by (simp add: hart_held_def)
  have H: "hart_held ?h = insert l (hart_held h)"
    using hart_held_set [of "push_off h" l] by simp
  moreover have "hart_ok ?h"
    using ok l unfolding hart_ok_def H by (auto simp: card_insert_if)
  ultimately show ?thesis using acquire_eq [OF ok nl] by simp
qed

lemma release_ok:
  assumes ok: "hart_ok h" and l: "l \<in> hart_held h"
  shows "\<exists>h'. release l h = Some h' \<and> hart_ok h' \<and> hart_held h' = hart_held h - {l}"
proof -
  have "holding l h" using l by (simp add: hart_held_def)
  from release_eq [OF ok this] obtain h' where h': "release l h = Some h'"
    and mem: "lockmem h' = (lockmem h)(l := (lockmem h l)\<lparr>lk_cpu := None, lk_locked := False\<rparr>)"
    and c: "noff (hcpu h') = noff (hcpu h) - 1" and i: "intr h' = (noff (hcpu h) = 1 \<and> intena (hcpu h))"
    by blast
  have H: "hart_held h' = hart_held h - {l}"
    using hart_held_set [of h l] mem by (simp add: hart_held_def holding_def)
  have "0 < card (hart_held h)" using ok l by (auto simp: hart_ok_def card_gt_0_iff)
  then have "int (card (hart_held h - {l})) \<le> noff (hcpu h) - 1"
    using ok l by (simp add: hart_ok_def)
  then have "hart_ok h'" using ok unfolding hart_ok_def H c by (auto simp: mem i)
  then show ?thesis using h' H by blast
qed

interpretation spin: lock_contract acquire release hart_held hart_ok
proof unfold_locales
  fix h l
  show "hart_ok h \<Longrightarrow> l \<in> hart_held h \<Longrightarrow> acquire l h = None"
    by (simp add: acquire_def Let_def hart_held_def)
  show "hart_ok h \<Longrightarrow> l \<notin> hart_held h \<Longrightarrow> release l h = None"
    by (simp add: release_def hart_held_def)
qed (use acquire_ok release_ok in blast)+

subsection \<open>Nested critical sections\<close>

fun acquire_all :: "lockid list \<Rightarrow> hart \<Rightarrow> hart option" where
  "acquire_all [] h = Some h"
| "acquire_all (l # ls) h = do { h \<leftarrow> acquire l h; acquire_all ls h }"

fun release_all :: "lockid list \<Rightarrow> hart \<Rightarrow> hart option" where
  "release_all [] h = Some h"
| "release_all (l # ls) h = do { h \<leftarrow> release l h; release_all ls h }"

lemma acquire_all_ok:
  "hart_ok h \<Longrightarrow> distinct ls \<Longrightarrow> set ls \<inter> hart_held h = {} \<Longrightarrow>
   \<exists>h'. acquire_all ls h = Some h' \<and> hart_ok h' \<and> hart_held h' = set ls \<union> hart_held h \<and>
     noff (hcpu h') = noff (hcpu h) + int (length ls) \<and>
     (ls \<noteq> [] \<longrightarrow> intena (hcpu h') = (if noff (hcpu h) = 0 then intr h else intena (hcpu h)))"
proof (induction ls arbitrary: h)
  case Nil
  then show ?case by simp
next
  case (Cons l ls)
  then have l: "l \<notin> hart_held h" by auto
  then have nl: "\<not> holding l h" by (simp add: hart_held_def)
  obtain h1 where h1: "acquire l h = Some h1" "hart_ok h1" "hart_held h1 = insert l (hart_held h)"
    using acquire_ok [OF Cons.prems(1) l] by blast
  have c: "noff (hcpu h1) = noff (hcpu h) + 1"
    "intena (hcpu h1) = (if noff (hcpu h) = 0 then intr h else intena (hcpu h))"
    using h1(1) acquire_eq [OF Cons.prems(1) nl] by auto
  have n0: "0 \<le> noff (hcpu h)" using Cons.prems(1) by (auto simp: hart_ok_def)
  obtain h2 where "acquire_all ls h1 = Some h2" "hart_ok h2" "hart_held h2 = set ls \<union> hart_held h1"
    "noff (hcpu h2) = noff (hcpu h1) + int (length ls)"
    "ls \<noteq> [] \<longrightarrow> intena (hcpu h2) = (if noff (hcpu h1) = 0 then intr h1 else intena (hcpu h1))"
    using Cons.IH [OF h1(2)] Cons.prems h1(3) by auto
  then show ?case using h1 c n0 by (cases "ls = []") auto
qed

lemma release_all_ok:
  "hart_ok h \<Longrightarrow> distinct ls \<Longrightarrow> set ls \<subseteq> hart_held h \<Longrightarrow>
   \<exists>h'. release_all ls h = Some h' \<and> hart_ok h' \<and> hart_held h' = hart_held h - set ls \<and>
     noff (hcpu h') = noff (hcpu h) - int (length ls) \<and> intena (hcpu h') = intena (hcpu h) \<and>
     intr h' = (if ls = [] then intr h else noff (hcpu h) = int (length ls) \<and> intena (hcpu h))"
proof (induction ls arbitrary: h)
  case Nil
  then show ?case by simp
next
  case (Cons l ls)
  then have l: "l \<in> hart_held h" by auto
  then have hl: "holding l h" by (simp add: hart_held_def)
  obtain h1 where h1: "release l h = Some h1" "hart_ok h1" "hart_held h1 = hart_held h - {l}"
    using release_ok [OF Cons.prems(1) l] by blast
  have c: "noff (hcpu h1) = noff (hcpu h) - 1" "intena (hcpu h1) = intena (hcpu h)"
    "intr h1 = (noff (hcpu h) = 1 \<and> intena (hcpu h))"
    using h1(1) release_eq [OF Cons.prems(1) hl] by auto
  obtain h2 where h2: "release_all ls h1 = Some h2" "hart_ok h2" "hart_held h2 = hart_held h1 - set ls"
    "noff (hcpu h2) = noff (hcpu h1) - int (length ls)" "intena (hcpu h2) = intena (hcpu h1)"
    "intr h2 = (if ls = [] then intr h1 else noff (hcpu h1) = int (length ls) \<and> intena (hcpu h1))"
    using Cons.IH [OF h1(2)] Cons.prems h1(3) by auto
  have "release_all (l # ls) h = Some h2" using h1(1) h2(1) by simp
  moreover have "hart_held h2 = hart_held h - set (l # ls)" using h1(3) h2(3) by auto
  moreover have "noff (hcpu h2) = noff (hcpu h) - int (length (l # ls))" using c(1) h2(4) by simp
  moreover have "intr h2 = (noff (hcpu h) = int (length (l # ls)) \<and> intena (hcpu h))"
    using c h2(6) by (cases "ls = []") (simp_all, linarith)
  ultimately show ?case using h2(2,5) c(2) by (intro exI [of _ h2]) simp
qed

section \<open>\<^verbatim>\<open>kernel/sleeplock.c\<close>\<close>

text \<open>
  A sleep lock is a flag and the pid of its holder, guarded by a spinlock. A caller that finds
  it locked sleeps on the lock's channel; the model reports that as \<open>Sleeps\<close>.
\<close>

record sleeplock =
  sl_locked :: bool
  sl_pid :: int

datatype 'a blocking = Returns 'a | Sleeps chan

definition initsleeplock :: sleeplock where
  "initsleeplock = \<lparr>sl_locked = False, sl_pid = 0\<rparr>"

definition acquiresleep ::
    "lockid \<Rightarrow> chan \<Rightarrow> int \<Rightarrow> sleeplock \<Rightarrow> 'a kstate_scheme \<Rightarrow> (sleeplock \<times> 'a kstate_scheme) blocking option" where
  "acquiresleep lk ch pid sl s = do {
     s \<leftarrow> k_acquire lk s;
     if sl_locked sl then Some (Sleeps ch)
     else do {
       s \<leftarrow> k_release lk s;
       Some (Returns (sl\<lparr>sl_locked := True, sl_pid := pid\<rparr>, s))
     }
   }"

definition releasesleep ::
    "lockid \<Rightarrow> chan \<Rightarrow> sleeplock \<Rightarrow> 'a kstate_scheme \<Rightarrow> (sleeplock \<times> 'a kstate_scheme) option" where
  "releasesleep lk ch sl s = do {
     s \<leftarrow> k_acquire lk s;
     let s = k_wakeup ch s;
     s \<leftarrow> k_release lk s;
     Some (sl\<lparr>sl_locked := False, sl_pid := 0\<rparr>, s)
   }"

definition holdingsleep ::
    "lockid \<Rightarrow> int \<Rightarrow> sleeplock \<Rightarrow> 'a kstate_scheme \<Rightarrow> (bool \<times> 'a kstate_scheme) option" where
  "holdingsleep lk pid sl s = do {
     s \<leftarrow> k_acquire lk s;
     let r = (sl_locked sl \<and> sl_pid sl = pid);
     s \<leftarrow> k_release lk s;
     Some (r, s)
   }"

lemma acquiresleep_free:
  "lk \<notin> held s \<Longrightarrow> \<not> sl_locked sl \<Longrightarrow>
   acquiresleep lk ch pid sl s = Some (Returns (sl\<lparr>sl_locked := True, sl_pid := pid\<rparr>, s))"
  by (simp add: acquiresleep_def lock_simps)

lemma releasesleep_eq:
  "lk \<notin> held s \<Longrightarrow>
   releasesleep lk ch sl s = Some (sl\<lparr>sl_locked := False, sl_pid := 0\<rparr>, k_wakeup ch s)"
  by (simp add: releasesleep_def lock_simps k_wakeup_def Let_def)

lemma holdingsleep_eq:
  "lk \<notin> held s \<Longrightarrow> holdingsleep lk pid sl s = Some (sl_locked sl \<and> sl_pid sl = pid, s)"
  by (simp add: holdingsleep_def lock_simps Let_def)

section \<open>Properties\<close>

text \<open>
  Taking any distinct free spinlocks and releasing them in any order returns, leaves exactly the
  earlier locks held, restores the nesting count, and with it the interrupt enable bit; while they
  are held interrupts are off.
\<close>

theorem nested_locks_restore:
  assumes "hart_ok h" "distinct ls" "set ls \<inter> hart_held h = {}" "distinct rs" "set rs = set ls" "ls \<noteq> []"
    and "noff (hcpu h) = 0"
  shows "\<exists>h1 h2. acquire_all ls h = Some h1 \<and> \<not> intr h1 \<and> hart_held h1 = set ls \<union> hart_held h \<and>
    release_all rs h1 = Some h2 \<and> hart_ok h2 \<and> hart_held h2 = hart_held h \<and> noff (hcpu h2) = 0 \<and> intr h2 = intr h"
proof -
  obtain h1 where h1: "acquire_all ls h = Some h1" "hart_ok h1" "hart_held h1 = set ls \<union> hart_held h"
      "noff (hcpu h1) = int (length ls)" "intena (hcpu h1) = intr h"
    using acquire_all_ok [OF assms(1-3)] assms(6,7) by auto
  have len: "length rs = length ls" using assms(2,4,5) by (metis distinct_card)
  obtain h2 where "release_all rs h1 = Some h2" "hart_ok h2" "hart_held h2 = hart_held h1 - set rs"
      "noff (hcpu h2) = noff (hcpu h1) - int (length rs)"
      "intr h2 = (if rs = [] then intr h1 else noff (hcpu h1) = int (length rs) \<and> intena (hcpu h1))"
    using release_all_ok [OF h1(2) assms(4)] h1(3) assms(5) by auto
  moreover have "\<not> intr h1" using h1(2,4) assms(6) by (auto simp: hart_ok_def)
  ultimately show ?thesis using h1 len assms(3,5,6) by (intro exI [of _ h1] exI [of _ h2]) auto
qed

definition idle_hart :: hart where
  "idle_hart = \<lparr>intr = True, hcpu = \<lparr>noff = 0, intena = False\<rparr>,
     lockmem = (\<lambda>_. \<lparr>lk_locked = False, lk_name = [], lk_cpu = None\<rparr>)\<rparr>"

theorem nested_locks_restore_witness:
  "\<exists>h1 h2. acquire_all [L_buddy, L_slab] idle_hart = Some h1 \<and> \<not> intr h1 \<and>
     release_all [L_buddy, L_slab] h1 = Some h2 \<and> intr h2"
proof -
  have "hart_held idle_hart = {}" "hart_ok idle_hart" "noff (hcpu idle_hart) = 0" "intr idle_hart"
    by (simp_all add: hart_held_def hart_ok_def holding_def idle_hart_def)
  then show ?thesis using nested_locks_restore [of idle_hart "[L_buddy, L_slab]" "[L_buddy, L_slab]"] by auto
qed

text \<open>
  The spinlock refuses what would deadlock or corrupt it: acquiring a lock this hart holds and
  releasing one it does not hold never return, on every consistent hart.
\<close>

theorem spinlock_misuse_panics:
  assumes "hart_ok h"
  shows "(acquire l h = None \<longleftrightarrow> holding l h) \<and> (release l h = None \<longleftrightarrow> \<not> holding l h)"
  using spin.acq_returns_iff [OF assms, of l] spin.rel_returns_iff [OF assms, of l]
  by (auto simp: hart_held_def)

theorem spinlock_misuse_panics_witness: "release L_buddy idle_hart = None \<and> acquire L_buddy idle_hart \<noteq> None"
proof -
  have "hart_ok idle_hart" by (simp add: hart_held_def hart_ok_def holding_def idle_hart_def)
  then show ?thesis
    using spinlock_misuse_panics [of idle_hart L_buddy] by (simp add: holding_def idle_hart_def)
qed

end
