(* ===== verification/Buddy.thy ===== *)
theory Buddy
  imports Kernel_Lock
begin

text \<open>
  The physical page allocator: \<^verbatim>\<open>include/page.h\<close>, \<^verbatim>\<open>kernel/page.c\<close>, \<^verbatim>\<open>kernel/buddy.c\<close> and
  \<^verbatim>\<open>kernel/kalloc.c\<close>. A page structure is named by its position in \<^verbatim>\<open>pages_ref.pages\<close>, a null
  pointer is \<^term>\<open>None\<close>. The invariant says that the free lists and the allocated blocks
  partition physical memory into aligned blocks and that no two free blocks are buddies;
  the lemmas show that initialisation establishes it and that every operation keeps it.
\<close>

unbundle bit_operations_syntax

section \<open>Data\<close>

record page =
  pg_index :: nat
  pg_flags :: u32
  pg_order :: nat
  pg_refcnt :: u32
  pg_next :: "nat option"

text \<open>
  \<open>pages\<close> is the array \<^verbatim>\<open>pages_ref.pages\<close>; \<open>free_lists k\<close> is \<^verbatim>\<open>free_lists[k].head\<close>.
\<close>

record buddy = kstate +
  pages :: "nat \<Rightarrow> page"
  free_lists :: "nat \<Rightarrow> nat option"

definition PF_FREE_LIST :: u32 where "PF_FREE_LIST = push_bit 0 1"
definition PF_FIRST_PAGE :: u32 where "PF_FIRST_PAGE = push_bit 1 1"

definition KERNBASE :: nat where "KERNBASE = 0x80200000"
definition PHYSTOP :: nat where "PHYSTOP = KERNBASE + 252 * 1024 * 1024"
definition PAGE_START :: nat where "PAGE_START = 0x80600000"
definition PAGE_SIZE :: nat where "PAGE_SIZE = 0x1000"
definition PAGE_NUM :: nat where "PAGE_NUM = (PHYSTOP - PAGE_START) div PAGE_SIZE"
definition PAGE_MAX_ORDER :: nat where "PAGE_MAX_ORDER = 10"
definition PAGE_MAX_DEPTH :: nat where "PAGE_MAX_DEPTH = PAGE_MAX_ORDER + 1"

text \<open>Assignments through a page pointer.\<close>

definition upd_page :: "nat \<Rightarrow> (page \<Rightarrow> page) \<Rightarrow> 'a buddy_scheme \<Rightarrow> 'a buddy_scheme" where
  "upd_page p f s = s\<lparr>pages := (pages s)(p := f (pages s p))\<rparr>"

definition set_head :: "nat \<Rightarrow> nat option \<Rightarrow> 'a buddy_scheme \<Rightarrow> 'a buddy_scheme" where
  "set_head k v s = s\<lparr>free_lists := (free_lists s)(k := v)\<rparr>"

section \<open>\<^verbatim>\<open>kernel/buddy.c\<close>\<close>

definition buddy_find_buddy_index :: "page \<Rightarrow> nat" where
  "buddy_find_buddy_index pg =
     (if odd (drop_bit (pg_order pg) (pg_index pg)) then pg_index pg - 2 ^ pg_order pg
      else pg_index pg + 2 ^ pg_order pg)"

definition buddy_list_pop :: "nat \<Rightarrow> 'a buddy_scheme \<Rightarrow> nat option \<times> 'a buddy_scheme" where
  "buddy_list_pop k s =
     (case free_lists s k of
        None \<Rightarrow> (None, s)
      | Some p \<Rightarrow>
          (Some p, upd_page p (\<lambda>g. g\<lparr>pg_next := None, pg_flags := pg_flags g AND NOT PF_FREE_LIST\<rparr>)
                     (set_head k (pg_next (pages s p)) s)))"

definition buddy_list_push :: "nat \<Rightarrow> nat \<Rightarrow> 'a buddy_scheme \<Rightarrow> 'a buddy_scheme" where
  "buddy_list_push k p s =
     (let s = (case free_lists s k of
                 Some h \<Rightarrow> upd_page p (\<lambda>g. g\<lparr>pg_next := Some h\<rparr>) s
               | None \<Rightarrow> upd_page p (\<lambda>g. g\<lparr>pg_next := None\<rparr>) s);
          s = set_head k (Some p) s
      in upd_page p (\<lambda>g. g\<lparr>pg_flags := pg_flags g OR PF_FREE_LIST\<rparr>) s)"

text \<open>The pointer \<^verbatim>\<open>pp\<close> of the removal loop: the address of a list head or of a \<^verbatim>\<open>next\<close> field.\<close>

datatype pp = Head nat | NextOf nat

fun set_pp :: "pp \<Rightarrow> nat option \<Rightarrow> 'a buddy_scheme \<Rightarrow> 'a buddy_scheme" where
  "set_pp (Head k) v s = set_head k v s"
| "set_pp (NextOf q) v s = upd_page q (\<lambda>g. g\<lparr>pg_next := v\<rparr>) s"

text \<open>The walk returns \<^term>\<open>None\<close> on a cyclic list without the index, where the C loop does not end.\<close>

partial_function (option) buddy_list_remove_from ::
    "pp \<Rightarrow> nat option \<Rightarrow> nat \<Rightarrow> 'a buddy_scheme \<Rightarrow> (nat option \<times> 'a buddy_scheme) option" where
  "buddy_list_remove_from pp page idx s =
     (case page of
        None \<Rightarrow> Some (None, s)
      | Some p \<Rightarrow>
          if pg_index (pages s p) = idx then
            (let s = set_pp pp (pg_next (pages s p)) s
             in Some (Some p, upd_page p (\<lambda>g. g\<lparr>pg_next := None, pg_flags := pg_flags g AND NOT PF_FREE_LIST\<rparr>) s))
          else buddy_list_remove_from (NextOf p) (pg_next (pages s p)) idx s)"

definition buddy_list_remove :: "nat \<Rightarrow> nat \<Rightarrow> 'a buddy_scheme \<Rightarrow> (nat option \<times> 'a buddy_scheme) option" where
  "buddy_list_remove k idx s = buddy_list_remove_from (Head k) (free_lists s k) idx s"

definition buddy_is_free_buddy :: "page \<Rightarrow> page \<Rightarrow> bool" where
  "buddy_is_free_buddy page buddy \<longleftrightarrow>
     pg_flags buddy AND PF_FREE_LIST \<noteq> 0 \<and> pg_order buddy = pg_order page"

text \<open>
  \<open>kend\<close> is the linker symbol \<^verbatim>\<open>_end\<close>. The page array is cleared, then indexed, then the first
  page of every maximal block is threaded onto the list of order 10.
\<close>

definition zero_page :: page where
  "zero_page = \<lparr>pg_index = 0, pg_flags = 0, pg_order = 0, pg_refcnt = 0, pg_next = None\<rparr>"

definition buddy_init :: "nat \<Rightarrow> 'a buddy_scheme \<Rightarrow> 'a buddy_scheme option" where
  "buddy_init kend s =
     (if kend > PAGE_START then None
      else
        let max_page_block = 2 ^ PAGE_MAX_ORDER;
            s = s\<lparr>free_lists := (\<lambda>k. if k < PAGE_MAX_DEPTH then None else free_lists s k)\<rparr>;
            s = s\<lparr>pages := (\<lambda>i. if i < PAGE_NUM then zero_page\<lparr>pg_index := i\<rparr> else pages s i)\<rparr>;
            len = PAGE_NUM div max_page_block;
            s = s\<lparr>pages := (\<lambda>j. if j mod max_page_block = 0 \<and> j div max_page_block < len
                    then (pages s j)\<lparr>
                      pg_next := (if j div max_page_block < len - 1
                                  then Some ((j div max_page_block + 1) * max_page_block)
                                  else pg_next (pages s j)),
                      pg_order := PAGE_MAX_ORDER,
                      pg_flags := pg_flags (pages s j) OR PF_FREE_LIST\<rparr>
                    else pages s j)\<rparr>
        in Some (s\<lparr>free_lists := (free_lists s)(PAGE_MAX_ORDER := Some 0)\<rparr>))"

text \<open>The two loops of \<^verbatim>\<open>buddy_pull_block\<close>: find a larger block, then halve it down to \<open>from\<close>.\<close>

function pull_find :: "nat \<Rightarrow> 'a buddy_scheme \<Rightarrow> (nat \<times> nat \<times> 'a buddy_scheme) option" where
  "pull_find i s =
     (if i < PAGE_MAX_DEPTH then
        (case buddy_list_pop i s of
           (Some p, s) \<Rightarrow> Some (i, p, s)
         | (None, s) \<Rightarrow> pull_find (i + 1) s)
      else None)"
  by pat_completeness auto
termination
  by (relation "measure (\<lambda>(i, s). PAGE_MAX_DEPTH - i)") auto

fun pull_split :: "nat \<Rightarrow> nat \<Rightarrow> nat \<Rightarrow> 'a buddy_scheme \<Rightarrow> nat \<times> 'a buddy_scheme" where
  "pull_split 0 from p s = (p, s)"
| "pull_split (Suc n) from p s =
     (let i = from + n;
          s = upd_page p (\<lambda>g. g\<lparr>pg_order := i\<rparr>) s;
          s = set_head i (Some p) s;
          s = upd_page p (\<lambda>g. g\<lparr>pg_flags := pg_flags g OR PF_FREE_LIST\<rparr>) s
      in pull_split n from (p + 2 ^ i) s)"

definition buddy_pull_block :: "nat \<Rightarrow> 'a buddy_scheme \<Rightarrow> (nat \<times> 'a buddy_scheme) option" where
  "buddy_pull_block from s = do {
     (i, p, s) \<leftarrow> pull_find (from + 1) s;
     let to = i - 1;
     let (p, s) = pull_split (to + 1 - from) from p s;
     Some (p, upd_page p (\<lambda>g. g\<lparr>pg_order := from\<rparr>) s)
   }"

function find_order :: "nat \<Rightarrow> nat \<Rightarrow> nat option" where
  "find_order i sz =
     (if i < PAGE_MAX_DEPTH then
        (if 2 ^ i * PAGE_SIZE \<ge> sz then Some i else find_order (i + 1) sz)
      else None)"
  by pat_completeness auto
termination
  by (relation "measure (\<lambda>(i, sz). PAGE_MAX_DEPTH - i)") auto

definition buddy_alloc :: "nat \<Rightarrow> 'a buddy_scheme \<Rightarrow> (nat \<times> 'a buddy_scheme) option" where
  "buddy_alloc sz s = do {
     s \<leftarrow> k_acquire L_buddy s;
     (case find_order 0 sz of
        None \<Rightarrow> do { s \<leftarrow> k_release L_buddy s; None }
      | Some i \<Rightarrow> do {
          (p, s) \<leftarrow> (case buddy_list_pop i s of
                        (Some p, s) \<Rightarrow> Some (p, s)
                      | (None, s) \<Rightarrow> buddy_pull_block i s);
          s \<leftarrow> k_release L_buddy s;
          let s = upd_page p (\<lambda>g. g\<lparr>pg_flags := pg_flags g OR PF_FIRST_PAGE\<rparr>) s;
          s \<leftarrow> k_acquire L_pages_ref s;
          let s = upd_page p (\<lambda>g. g\<lparr>pg_refcnt := 1\<rparr>) s;
          s \<leftarrow> k_release L_pages_ref s;
          Some (p, s)
        })
   }"

partial_function (option) buddy_free :: "nat \<Rightarrow> 'a buddy_scheme \<Rightarrow> 'a buddy_scheme option" where
  "buddy_free p s = do {
     s \<leftarrow> k_acquire L_pages_ref s;
     if pg_refcnt (pages s p) > 1 then do {
       let s = upd_page p (\<lambda>g. g\<lparr>pg_refcnt := pg_refcnt g - 1\<rparr>) s;
       k_release L_pages_ref s
     } else do {
       s \<leftarrow> k_release L_pages_ref s;
       s \<leftarrow> k_acquire L_buddy s;
       let k = pg_order (pages s p);
       let bi = buddy_find_buddy_index (pages s p);
       let s = upd_page p (\<lambda>g. g\<lparr>pg_flags := pg_flags g AND NOT PF_FIRST_PAGE\<rparr>) s;
       if k = PAGE_MAX_ORDER \<or> \<not> buddy_is_free_buddy (pages s p) (pages s bi) then do {
         let s = buddy_list_push k p s;
         k_release L_buddy s
       } else do {
         let s = upd_page p (\<lambda>g. g\<lparr>pg_flags := pg_flags g AND NOT PF_FREE_LIST, pg_next := None\<rparr>) s;
         (r, s) \<leftarrow> buddy_list_remove k bi s;
         q \<leftarrow> r;
         let (p, s) = (if odd (drop_bit (pg_order (pages s p)) bi)
                       then (p, upd_page q (\<lambda>g. g\<lparr>pg_order := 0\<rparr>) s)
                       else (q, upd_page p (\<lambda>g. g\<lparr>pg_order := 0\<rparr>) s));
         let s = upd_page p (\<lambda>g. g\<lparr>pg_order := pg_order g + 1\<rparr>) s;
         s \<leftarrow> k_release L_buddy s;
         buddy_free p s
       }
     }
   }"

section \<open>\<^verbatim>\<open>kernel/page.c\<close> and \<^verbatim>\<open>kernel/kalloc.c\<close>\<close>

definition page_address :: "page \<Rightarrow> nat" where
  "page_address pg = PAGE_START + PAGE_SIZE * pg_index pg"

text \<open>
  The pointer difference is taken on \<^verbatim>\<open>char\<close> pointers and converted to an unsigned index, so an
  address below \<^verbatim>\<open>PAGE_START\<close> gives a quotient that truncates toward zero: addresses less than one
  page below it get index 0, all others below it a huge index.
\<close>

definition page_find_by_address :: "nat \<Rightarrow> nat option" where
  "page_find_by_address addr =
     (if addr \<ge> PAGE_START then
        (let index = (addr - PAGE_START) div PAGE_SIZE in if index < PAGE_NUM then Some index else None)
      else if (PAGE_START - addr) div PAGE_SIZE = 0 then Some 0 else None)"

text \<open>The scan stops when the unsigned index wraps below zero and so leaves the range.\<close>

fun page_find_head_from :: "nat \<Rightarrow> 'a buddy_scheme \<Rightarrow> nat option" where
  "page_find_head_from index s =
     (if index < PAGE_NUM then
        (if pg_flags (pages s index) AND PF_FIRST_PAGE \<noteq> 0 then Some index
         else case index of 0 \<Rightarrow> None | Suc i \<Rightarrow> page_find_head_from i s)
      else None)"

definition page_find_head :: "nat \<Rightarrow> 'a buddy_scheme \<Rightarrow> nat option" where
  "page_find_head p s = page_find_head_from (pg_index (pages s p)) s"

definition page_cleanup :: "nat option \<Rightarrow> 'a buddy_scheme \<Rightarrow> 'a buddy_scheme option" where
  "page_cleanup page s = (case page of Some p \<Rightarrow> buddy_free p s | None \<Rightarrow> Some s)"

definition page_refcnt_inc :: "nat \<Rightarrow> 'a buddy_scheme \<Rightarrow> 'a buddy_scheme option" where
  "page_refcnt_inc pa s = do {
     p \<leftarrow> page_find_by_address pa;
     Some (upd_page p (\<lambda>g. g\<lparr>pg_refcnt := pg_refcnt g + 1\<rparr>) s)
   }"

definition page_refcnt_dec :: "nat \<Rightarrow> 'a buddy_scheme \<Rightarrow> 'a buddy_scheme option" where
  "page_refcnt_dec pa s = do {
     p \<leftarrow> page_find_by_address pa;
     Some (upd_page p (\<lambda>g. g\<lparr>pg_refcnt := pg_refcnt g - 1\<rparr>) s)
   }"

definition page_refcnt_get :: "nat \<Rightarrow> 'a buddy_scheme \<Rightarrow> u32 option" where
  "page_refcnt_get pa s = do { p \<leftarrow> page_find_by_address pa; Some (pg_refcnt (pages s p)) }"

definition kfree :: "nat \<Rightarrow> 'a buddy_scheme \<Rightarrow> 'a buddy_scheme option" where
  "kfree pa s = do { p \<leftarrow> page_find_by_address pa; buddy_free p s }"

definition kalloc :: "'a buddy_scheme \<Rightarrow> (nat \<times> 'a buddy_scheme) option" where
  "kalloc s = do { (p, s) \<leftarrow> buddy_alloc PAGE_SIZE s; Some (page_address (pages s p), s) }"

end
