(* ===== verification/Buddy_Correct.thy ===== *)
theory Buddy_Correct
  imports Buddy
begin

text \<open>
  Correctness of the buddy allocator. Blocks are pairs of a first page and an order. The
  invariant \<open>binv s fl H\<close> has two ghost arguments: the contents \<open>fl\<close> of the free lists and the
  set \<open>H\<close> of blocks that are in the hands of a running operation. Each C statement that moves a
  block between the free lists, the hands and the allocated blocks is one lemma.
\<close>

unbundle bit_operations_syntax

section \<open>Block geometry\<close>

definition blk :: "nat \<times> nat \<Rightarrow> nat set" where
  "blk b = {fst b..<fst b + 2 ^ snd b}"

definition buddy_of :: "nat \<Rightarrow> nat \<Rightarrow> nat" where
  "buddy_of p k = (if odd (p div 2 ^ k) then p - 2 ^ k else p + 2 ^ k)"

lemma PAGE_NUM_eq: "PAGE_NUM = 62 * 2 ^ 10"
  by (simp add: PAGE_NUM_def PHYSTOP_def KERNBASE_def PAGE_START_def PAGE_SIZE_def)

lemma PAGE_NUM_dvd: "k \<le> 10 \<Longrightarrow> 2 ^ k dvd PAGE_NUM"
  by (simp add: PAGE_NUM_eq le_imp_power_dvd dvd_mult del: power_numeral)

lemma MAX_ORDER_simps [simp]: "PAGE_MAX_ORDER = 10" "PAGE_MAX_DEPTH = 11"
  by (simp_all add: PAGE_MAX_ORDER_def PAGE_MAX_DEPTH_def)

lemma dvd_odd_div:
  "2 ^ k dvd (p::nat) \<Longrightarrow> odd (p div 2 ^ k) \<longleftrightarrow> \<not> 2 ^ Suc k dvd p"
  by (auto elim!: dvdE)

lemma buddy_of_props:
  assumes "2 ^ k dvd p"
  shows "2 ^ k dvd buddy_of p k" "buddy_of p k \<noteq> p" "buddy_of (buddy_of p k) k = p"
    "odd (buddy_of p k div 2 ^ k) \<longleftrightarrow> even (p div 2 ^ k)"
    "even (p div 2 ^ k) \<Longrightarrow> 2 ^ Suc k dvd p \<and> buddy_of p k = p + 2 ^ k"
    "odd (p div 2 ^ k) \<Longrightarrow> 2 ^ Suc k dvd buddy_of p k \<and> p = buddy_of p k + 2 ^ k"
proof -
  obtain c where p: "p = 2 ^ k * c" using assms by blast
  have c: "p div 2 ^ k = c" by (simp add: p)
  have odd_form: "buddy_of p k = 2 ^ k * (c - 1)" "c \<ge> 1" if "odd c"
    using that by (cases c; simp add: buddy_of_def p)+
  have even_form: "buddy_of p k = 2 ^ k * (c + 1)" if "even c"
    using that by (simp add: buddy_of_def p)
  show "2 ^ k dvd buddy_of p k" using odd_form even_form by (cases "odd c") auto
  show "buddy_of p k \<noteq> p" using odd_form even_form by (cases "odd c") (auto simp: p)
  show "buddy_of (buddy_of p k) k = p"
    using odd_form even_form by (cases "odd c"; cases c) (auto simp: buddy_of_def p)
  show "odd (buddy_of p k div 2 ^ k) \<longleftrightarrow> even (p div 2 ^ k)"
    using odd_form even_form by (cases "odd c") (auto simp: c)
  show "even (p div 2 ^ k) \<Longrightarrow> 2 ^ Suc k dvd p \<and> buddy_of p k = p + 2 ^ k"
    using dvd_odd_div [OF assms] by (simp add: buddy_of_def)
  show "odd (p div 2 ^ k) \<Longrightarrow> 2 ^ Suc k dvd buddy_of p k \<and> p = buddy_of p k + 2 ^ k"
    using odd_form by (auto simp: c elim!: oddE) (simp add: p)
qed

lemma buddy_of_lt:
  assumes "2 ^ k dvd p" "p < PAGE_NUM" "k < 10"
  shows "buddy_of p k < PAGE_NUM"
proof (cases "odd (p div 2 ^ k)")
  case True
  then show ?thesis using assms by (simp add: buddy_of_def)
next
  case False
  then have d: "2 ^ Suc k dvd p" using buddy_of_props(5) [OF assms(1)] by simp
  moreover have "2 ^ Suc k dvd PAGE_NUM" using PAGE_NUM_dvd [of "Suc k"] assms(3) by simp
  ultimately have "2 ^ Suc k dvd PAGE_NUM - p" by (rule dvd_diff_nat [rotated])
  then have "2 ^ Suc k \<le> PAGE_NUM - p" using assms(2) by (intro dvd_imp_le) auto
  then have "p + 2 ^ Suc k \<le> PAGE_NUM" using assms(2) by linarith
  moreover have "(2::nat) ^ k < 2 ^ Suc k" by simp
  ultimately show ?thesis using False by (simp only: buddy_of_def if_False)
qed

definition buddy_partition :: "(nat \<times> nat) set \<Rightarrow> bool" where
  "buddy_partition B \<longleftrightarrow>
     (\<forall>(p, k) \<in> B. k \<le> 10 \<and> 2 ^ k dvd p \<and> p < PAGE_NUM) \<and>
     (\<forall>b \<in> B. \<forall>c \<in> B. b \<noteq> c \<longrightarrow> blk b \<inter> blk c = {}) \<and>
     (\<Union>b \<in> B. blk b) = {..<PAGE_NUM}"

lemma blk_halves:
  "blk (p, Suc k) = blk (p, k) \<union> blk (p + 2 ^ k, k)" "blk (p, k) \<inter> blk (p + 2 ^ k, k) = {}"
  by (auto simp: blk_def)

lemma blk_nonempty: "p \<in> blk (p, k)"
  by (simp add: blk_def)

lemma partition_unique:
  "buddy_partition B \<Longrightarrow> (p, k) \<in> B \<Longrightarrow> (p, j) \<in> B \<Longrightarrow> j = k"
  using blk_nonempty unfolding buddy_partition_def by (metis IntI empty_iff prod.inject)

lemma partition_split:
  assumes "buddy_partition (insert (p, Suc k) B)" "(p, Suc k) \<notin> B"
  shows "buddy_partition (insert (p, k) (insert (p + 2 ^ k, k) B))"
proof -
  have k: "Suc k \<le> 10" "2 ^ Suc k dvd p" "p < PAGE_NUM"
    and B: "\<forall>(p, k) \<in> B. k \<le> 10 \<and> 2 ^ k dvd p \<and> p < PAGE_NUM"
    and dj: "\<forall>c \<in> B. blk (p, Suc k) \<inter> blk c = {}" "\<forall>b \<in> B. \<forall>c \<in> B. b \<noteq> c \<longrightarrow> blk b \<inter> blk c = {}"
    and un: "blk (p, Suc k) \<union> (\<Union>b \<in> B. blk b) = {..<PAGE_NUM}"
    using assms unfolding buddy_partition_def by auto
  have d: "2 ^ k dvd p" using k(2) by (metis dvd_mult_left power_Suc2)
  have "p + 2 ^ k \<in> blk (p, Suc k)" by (simp add: blk_def)
  then have lt: "p + 2 ^ k < PAGE_NUM" using un by blast
  have "blk (p, k) \<inter> blk c = {}" "blk (p + 2 ^ k, k) \<inter> blk c = {}" if "c \<in> B" for c
    using dj(1) that by (auto simp: blk_halves)
  then show ?thesis
    using k d lt B dj(2) un blk_halves [of p k] unfolding buddy_partition_def
    by (auto simp: Int_commute)
qed

lemma partition_merge:
  assumes part: "buddy_partition (insert (p, k) (insert (p + 2 ^ k, k) B))"
    and k: "k < 10" "2 ^ Suc k dvd p" "(p, k) \<notin> B" "(p + 2 ^ k, k) \<notin> B"
  shows "buddy_partition (insert (p, Suc k) B)"
proof -
  have B: "\<forall>(p, k) \<in> B. k \<le> 10 \<and> 2 ^ k dvd p \<and> p < PAGE_NUM" and p: "p < PAGE_NUM"
    and un: "blk (p, k) \<union> blk (p + 2 ^ k, k) \<union> (\<Union>b \<in> B. blk b) = {..<PAGE_NUM}"
    and dj: "\<forall>b \<in> B. \<forall>c \<in> B. b \<noteq> c \<longrightarrow> blk b \<inter> blk c = {}"
    using part unfolding buddy_partition_def by auto
  have "blk (p, k) \<inter> blk c = {}" "blk (p + 2 ^ k, k) \<inter> blk c = {}" if "c \<in> B" for c
    using part that k(3,4) unfolding buddy_partition_def by auto
  then have "\<forall>c \<in> B. blk (p, Suc k) \<inter> blk c = {}"
    unfolding blk_halves(1) by (simp add: Int_Un_distrib2)
  then show ?thesis
    using k B p un dj unfolding buddy_partition_def by (auto simp: blk_halves(1) Int_commute)
qed

lemma partition_buddy_present:
  assumes "buddy_partition B" "(p, k) \<in> B" "k < 10" "(q, j) \<in> B" "buddy_of p k \<in> blk (q, j)" "k \<le> j"
  shows "(q, j) = (buddy_of p k, k)"
proof (rule ccontr)
  assume ne: "(q, j) \<noteq> (buddy_of p k, k)"
  have d: "2 ^ k dvd p" "2 ^ j dvd q" using assms unfolding buddy_partition_def by auto
  let ?b = "buddy_of p k"
  note bp = buddy_of_props [OF d(1)]
  have "k \<noteq> j"
  proof
    assume "k = j"
    have "q \<le> ?b" "?b < q + 2 ^ k" using assms(5) \<open>k = j\<close> by (auto simp: blk_def)
    moreover have "2 ^ k dvd ?b - q" using bp(1) d(2) \<open>k = j\<close> by (simp add: dvd_diff_nat)
    ultimately have "?b = q" using dvd_imp_le [of "2 ^ k" "?b - q"] by (cases "?b = q") auto
    then show False using ne \<open>k = j\<close> by simp
  qed
  then have kj: "Suc k \<le> j" using assms(6) by simp
  define m where "m = min p ?b"
  have m: "2 ^ Suc k dvd m" "p \<in> {m, m + 2 ^ k}" "?b \<in> {m, m + 2 ^ k}"
    using bp(5,6) by (cases "odd (p div 2 ^ k)"; auto simp: m_def min_def)+
  have "2 ^ Suc k dvd q" using kj d(2) by (metis dvd_trans le_imp_power_dvd)
  have rng: "q \<le> ?b" "?b < q + 2 ^ j" using assms(5) by (auto simp: blk_def)
  have pw: "(2::nat) ^ k < 2 ^ Suc k" by simp
  have qm: "q \<le> m"
  proof (rule ccontr)
    assume "\<not> q \<le> m"
    then have "0 < q - m" "q - m \<le> 2 ^ k" using rng(1) m(3) by auto
    moreover have "2 ^ Suc k dvd q - m" using \<open>2 ^ Suc k dvd q\<close> m(1) by (simp only: dvd_diff_nat)
    ultimately show False using dvd_imp_le [of "2 ^ Suc k" "q - m"] pw by linarith
  qed
  have "2 ^ Suc k dvd q + 2 ^ j - m"
    using \<open>2 ^ Suc k dvd q\<close> m(1) le_imp_power_dvd [OF kj, of "2::nat"] by (intro dvd_diff_nat dvd_add)
  moreover have pos: "0 < q + 2 ^ j - m" using rng(2) m(3) by auto
  ultimately have "2 ^ Suc k \<le> q + 2 ^ j - m" by (rule dvd_imp_le)
  then have "m + 2 ^ Suc k \<le> q + 2 ^ j" using pos by linarith
  moreover have "p \<le> m + 2 ^ k" using m(2) by auto
  ultimately have "p < q + 2 ^ j" using pw by linarith
  moreover have "q \<le> p" using qm m(2) by auto
  ultimately have "p \<in> blk (q, j)" by (simp add: blk_def)
  moreover have "(p, k) \<noteq> (q, j)" using kj by auto
  ultimately show False
    using assms(1,2,4) blk_nonempty [of p k] unfolding buddy_partition_def by blast
qed

section \<open>Flags\<close>

definition is_free :: "page \<Rightarrow> bool" where
  "is_free g \<longleftrightarrow> pg_flags g AND PF_FREE_LIST \<noteq> 0"

definition is_first :: "page \<Rightarrow> bool" where
  "is_first g \<longleftrightarrow> pg_flags g AND PF_FIRST_PAGE \<noteq> 0"

lemma is_free_bit: "is_free g = bit (pg_flags g) 0"
  unfolding is_free_def PF_FREE_LIST_def by (metis and_exp_eq_0_iff_not_bit push_bit_of_1)

lemma is_first_bit: "is_first g = bit (pg_flags g) (Suc 0)"
  unfolding is_first_def PF_FIRST_PAGE_def by (metis One_nat_def and_exp_eq_0_iff_not_bit push_bit_of_1)

lemma flag_simps:
  "bit (x AND NOT PF_FREE_LIST) 0 = False" "bit (x AND NOT PF_FREE_LIST) (Suc 0) = bit x (Suc 0)"
  "bit (x OR PF_FREE_LIST) 0 = True" "bit (x OR PF_FREE_LIST) (Suc 0) = bit x (Suc 0)"
  "bit (x AND NOT PF_FIRST_PAGE) 0 = bit x 0" "bit (x AND NOT PF_FIRST_PAGE) (Suc 0) = False"
  "bit (x OR PF_FIRST_PAGE) 0 = bit x 0" "bit (x OR PF_FIRST_PAGE) (Suc 0) = True"
  by (simp_all add: PF_FREE_LIST_def PF_FIRST_PAGE_def bit_simps)

lemmas flags = is_free_bit is_first_bit flag_simps

section \<open>The invariant\<close>

text \<open>\<open>chain P x xs\<close>: following \<^verbatim>\<open>next\<close> from \<open>x\<close> visits exactly \<open>xs\<close> and ends with a null pointer.\<close>

primrec chain :: "(nat \<Rightarrow> page) \<Rightarrow> nat option \<Rightarrow> nat list \<Rightarrow> bool" where
  "chain P x [] = (x = None)"
| "chain P x (a # as) = (x = Some a \<and> chain P (pg_next (P a)) as)"

lemma chain_None [simp]: "chain P None xs = (xs = [])"
  by (cases xs) auto

lemma chain_Some: "chain P (Some a) xs = (\<exists>as. xs = a # as \<and> chain P (pg_next (P a)) as)"
  by (cases xs) auto

lemma chain_upd_notin [simp]: "p \<notin> set xs \<Longrightarrow> chain (P(p := g)) x xs = chain P x xs"
  by (induction xs arbitrary: x) auto

lemma chain_upd_next: "pg_next g = pg_next (P p) \<Longrightarrow> chain (P(p := g)) x xs = chain P x xs"
  by (induction xs arbitrary: x) auto

definition heads :: "(nat \<Rightarrow> page) \<Rightarrow> (nat \<times> nat) set" where
  "heads P = {(p, pg_order (P p)) | p. p < PAGE_NUM \<and> (is_free (P p) \<or> is_first (P p))}"

text \<open>The blocks handed out to clients.\<close>

definition allocs :: "(nat \<Rightarrow> page) \<Rightarrow> (nat \<times> nat) set" where
  "allocs P = {(p, pg_order (P p)) | p. p < PAGE_NUM \<and> is_first (P p)}"

definition page_ok :: "page \<Rightarrow> nat \<Rightarrow> bool" where
  "page_ok g p \<longleftrightarrow> pg_index g = p \<and> \<not> (is_free g \<and> is_first g) \<and>
     (\<not> is_free g \<longrightarrow> pg_next g = None) \<and> (\<not> is_first g \<longrightarrow> pg_refcnt g \<le> 1)"

definition lists_ok :: "(nat \<Rightarrow> page) \<Rightarrow> (nat \<Rightarrow> nat option) \<Rightarrow> (nat \<Rightarrow> nat list) \<Rightarrow> bool" where
  "lists_ok P F fl \<longleftrightarrow> (\<forall>k \<le> 10. chain P (F k) (fl k) \<and> distinct (fl k) \<and>
     set (fl k) = {p. p < PAGE_NUM \<and> is_free (P p) \<and> pg_order (P p) = k})"

definition no_free_buddies :: "(nat \<Rightarrow> page) \<Rightarrow> bool" where
  "no_free_buddies P \<longleftrightarrow> (\<forall>p k. p < PAGE_NUM \<and> is_free (P p) \<and> pg_order (P p) = k \<and> k < 10 \<longrightarrow>
     \<not> (is_free (P (buddy_of p k)) \<and> pg_order (P (buddy_of p k)) = k))"

definition binv :: "(nat \<Rightarrow> page) \<Rightarrow> (nat \<Rightarrow> nat option) \<Rightarrow> (nat \<Rightarrow> nat list) \<Rightarrow> (nat \<times> nat) set \<Rightarrow> bool" where
  "binv P F fl H \<longleftrightarrow> lists_ok P F fl \<and> (\<forall>p < PAGE_NUM. page_ok (P p) p) \<and>
     (\<forall>(p, k) \<in> H. \<not> is_free (P p) \<and> \<not> is_first (P p)) \<and>
     buddy_partition (heads P \<union> H) \<and> no_free_buddies P"

definition buddy_inv :: "'a buddy_scheme \<Rightarrow> bool" where
  "buddy_inv s \<longleftrightarrow> (\<exists>fl. binv (pages s) (free_lists s) fl {})"

lemma lists_okD:
  assumes "lists_ok P F fl" "k \<le> 10"
  shows "chain P (F k) (fl k)" "distinct (fl k)"
    "p \<in> set (fl k) \<longleftrightarrow> p < PAGE_NUM \<and> is_free (P p) \<and> pg_order (P p) = k"
  using assms unfolding lists_ok_def by blast+

lemma mem_heads [simp]:
  "(p, k) \<in> heads P \<longleftrightarrow> p < PAGE_NUM \<and> (is_free (P p) \<or> is_first (P p)) \<and> pg_order (P p) = k"
  unfolding heads_def by blast

lemma mem_allocs [simp]:
  "(p, k) \<in> allocs P \<longleftrightarrow> p < PAGE_NUM \<and> is_first (P p) \<and> pg_order (P p) = k"
  unfolding allocs_def by blast

lemma block_set_eqI: "(\<And>p k. (p, k) \<in> A \<longleftrightarrow> (p, k) \<in> B) \<Longrightarrow> A = B" for A B :: "(nat \<times> nat) set"
  by auto

lemma heads_upd: "p < PAGE_NUM \<Longrightarrow> heads (P(p := g)) =
   {b \<in> heads P. fst b \<noteq> p} \<union> (if is_free g \<or> is_first g then {(p, pg_order g)} else {})"
  by (rule block_set_eqI) (auto split: if_splits)

lemma allocs_upd_notfirst: "\<not> is_first g \<Longrightarrow> \<not> is_first (P p) \<Longrightarrow> allocs (P(p := g)) = allocs P"
  by (rule block_set_eqI) simp

text \<open>A block in hand is not among the heads, and it is aligned.\<close>

lemma hand_facts:
  assumes "binv P F fl H" "(p, k) \<in> H"
  shows "p < PAGE_NUM" "k \<le> 10" "2 ^ k dvd p" "\<not> is_free (P p)" "\<not> is_first (P p)"
    "\<And>j. (p, j) \<notin> heads P" "pg_next (P p) = None" "pg_index (P p) = p" "pg_refcnt (P p) \<le> 1"
proof -
  have "(p, k) \<in> heads P \<union> H" using assms(2) by simp
  moreover have "buddy_partition (heads P \<union> H)" using assms(1) by (simp add: binv_def)
  ultimately show lt: "p < PAGE_NUM" "k \<le> 10" "2 ^ k dvd p"
    unfolding buddy_partition_def by blast+
  show nf: "\<not> is_free (P p)" "\<not> is_first (P p)" using assms unfolding binv_def by auto
  then show "\<And>j. (p, j) \<notin> heads P" by simp
  have "page_ok (P p) p" using assms(1) lt(1) by (simp add: binv_def)
  then show "pg_next (P p) = None" "pg_index (P p) = p" "pg_refcnt (P p) \<le> 1"
    using nf by (auto simp: page_ok_def)
qed

lemma free_facts:
  assumes "binv P F fl H" "p < PAGE_NUM" "is_free (P p)"
  shows "pg_order (P p) \<le> 10" "2 ^ pg_order (P p) dvd p" "p \<in> set (fl (pg_order (P p)))" "\<not> is_first (P p)"
    "(p, pg_order (P p)) \<in> heads P" "\<And>k. (p, k) \<notin> H"
proof -
  show h: "(p, pg_order (P p)) \<in> heads P" using assms(2,3) by simp
  with assms(1) show o: "pg_order (P p) \<le> 10" "2 ^ pg_order (P p) dvd p"
    unfolding binv_def buddy_partition_def by auto
  show "p \<in> set (fl (pg_order (P p)))" using assms o(1) unfolding binv_def lists_ok_def by auto
  show "\<not> is_first (P p)" using assms unfolding binv_def page_ok_def by auto
  show "\<And>k. (p, k) \<notin> H" using assms unfolding binv_def by auto
qed

section \<open>Taking a block off a list and putting one on\<close>

lemma chain_cong: "(\<And>q. q \<in> set xs \<Longrightarrow> P' q = P q) \<Longrightarrow> chain P' x xs = chain P x xs"
  by (induction xs arbitrary: x) auto

lemma lists_ok_off:
  assumes ok: "lists_ok P F fl" and k: "k \<le> 10" and p: "p \<in> set (fl k)"
    and same: "\<And>q. q \<noteq> p \<Longrightarrow> is_free (P' q) = is_free (P q) \<and> pg_order (P' q) = pg_order (P q)"
    and np: "\<not> is_free (P' p)"
    and out: "\<And>q. q \<notin> set (fl k) \<Longrightarrow> P' q = P q"
    and ch: "chain P' (F' k) (remove1 p (fl k))" and F': "\<And>j. j \<noteq> k \<Longrightarrow> F' j = F j"
  shows "lists_ok P' F' (fl(k := remove1 p (fl k)))"
  unfolding lists_ok_def
proof (intro allI impI)
  fix j :: nat
  assume j: "j \<le> 10"
  have S: "distinct (fl i)" "set (fl i) = {p. p < PAGE_NUM \<and> is_free (P p) \<and> pg_order (P p) = i}"
    "chain P (F i) (fl i)" if "i \<le> 10" for i
    using ok that by (auto simp: lists_ok_def)
  have diff: "q \<notin> set (fl k)" if "q \<in> set (fl j)" "j \<noteq> k" for q using that S [OF j] S [OF k] by auto
  show "chain P' (F' j) ((fl(k := remove1 p (fl k))) j) \<and> distinct ((fl(k := remove1 p (fl k))) j) \<and>
    set ((fl(k := remove1 p (fl k))) j) = {p. p < PAGE_NUM \<and> is_free (P' p) \<and> pg_order (P' p) = j}"
  proof (cases "j = k")
    case True
    have "q \<in> set (remove1 p (fl k)) \<longleftrightarrow> q < PAGE_NUM \<and> is_free (P' q) \<and> pg_order (P' q) = k" for q
      using S(1,2) [OF k] same [of q] np by (cases "q = p") auto
    then have "set (remove1 p (fl k)) = {q. q < PAGE_NUM \<and> is_free (P' q) \<and> pg_order (P' q) = k}"
      by blast
    then show ?thesis using True ch S(1) [OF k] by simp
  next
    case False
    have "chain P' (F' j) (fl j)"
      using S(3) [OF j] F' [OF False] chain_cong [of "fl j" P' P] out diff [OF _ False] by simp
    moreover have "q \<in> set (fl j) \<longleftrightarrow> q < PAGE_NUM \<and> is_free (P' q) \<and> pg_order (P' q) = j" for q
      using S(2) [OF j] S(2) [OF k] p same [of q] np False by (cases "q = p") auto
    ultimately show ?thesis using False S(1) [OF j] by (simp add: set_eq_iff)
  qed
qed

lemma lists_ok_on:
  assumes ok: "lists_ok P F fl" and k: "k \<le> 10" and p: "p < PAGE_NUM" "\<not> is_free (P p)"
    and g: "is_free g" "pg_order g = k" "pg_next g = F k"
  shows "lists_ok (P(p := g)) (F(k := Some p)) (fl(k := p # fl k))"
  unfolding lists_ok_def
proof (intro allI impI)
  fix j :: nat
  assume j: "j \<le> 10"
  have S: "distinct (fl i)" "set (fl i) = {p. p < PAGE_NUM \<and> is_free (P p) \<and> pg_order (P p) = i}"
    "chain P (F i) (fl i)" if "i \<le> 10" for i
    using ok that by (auto simp: lists_ok_def)
  have pn: "p \<notin> set (fl i)" if "i \<le> 10" for i using S(2) [OF that] p by auto
  show "chain (P(p := g)) ((F(k := Some p)) j) ((fl(k := p # fl k)) j) \<and> distinct ((fl(k := p # fl k)) j) \<and>
    set ((fl(k := p # fl k)) j) = {q. q < PAGE_NUM \<and> is_free ((P(p := g)) q) \<and> pg_order ((P(p := g)) q) = j}"
  proof -
    have "q \<in> set ((fl(k := p # fl k)) j) \<longleftrightarrow>
        q < PAGE_NUM \<and> is_free ((P(p := g)) q) \<and> pg_order ((P(p := g)) q) = j" for q
      using S(2) [OF j] pn [OF j] g p by (cases "q = p"; cases "j = k") auto
    moreover have "chain (P(p := g)) ((F(k := Some p)) j) ((fl(k := p # fl k)) j)"
      using S(3) [OF j] pn [OF j] g by (cases "j = k") auto
    moreover have "distinct ((fl(k := p # fl k)) j)"
      using S(1) [OF j] pn [OF j] by (cases "j = k") auto
    ultimately show ?thesis by (simp only: set_eq_iff mem_Collect_eq simp_thms)
  qed
qed

text \<open>An update that changes neither a free flag, nor the order or link of a free page.\<close>

lemma lists_ok_upd:
  assumes "lists_ok P F fl" "\<not> is_free (P p)" "\<not> is_free g"
  shows "lists_ok (P(p := g)) F fl"
proof -
  have n: "p \<notin> set (fl j)" if "j \<le> 10" for j using assms(2) lists_okD(3) [OF assms(1) that] by simp
  have "q < PAGE_NUM \<and> is_free ((P(p := g)) q) \<and> pg_order ((P(p := g)) q) = j \<longleftrightarrow> q \<in> set (fl j)"
    if "j \<le> 10" for q j
    using lists_okD(3) [OF assms(1) that] n [OF that] assms(3) by (cases "q = p") auto
  then show ?thesis using n lists_okD(1,2) [OF assms(1)] unfolding lists_ok_def by auto
qed

section \<open>The statements of the allocator\<close>

lemma binv_pop:
  assumes inv: "binv P F fl {}" and k: "k \<le> 10" and F: "F k = Some p"
    and g: "g = (P p)\<lparr>pg_next := None, pg_flags := pg_flags (P p) AND NOT PF_FREE_LIST\<rparr>"
  shows "binv (P(p := g)) (F(k := pg_next (P p))) (fl(k := remove1 p (fl k))) {(p, k)}"
    "allocs (P(p := g)) = allocs P" "pg_order (P p) = k" "p \<in> set (fl k)"
proof -
  have lo: "lists_ok P F fl" and pok: "\<And>q. q < PAGE_NUM \<Longrightarrow> page_ok (P q) q"
    and part: "buddy_partition (heads P)" and nfb: "no_free_buddies P"
    using inv by (auto simp: binv_def)
  obtain xs where xs: "fl k = p # xs" "chain P (pg_next (P p)) xs" "p \<notin> set xs"
    using lists_okD(1,2) [OF lo k] F by (auto simp: chain_Some)
  show pk: "p \<in> set (fl k)" using xs by simp
  then have p: "p < PAGE_NUM" "is_free (P p)" "\<not> is_first (P p)" and o: "pg_order (P p) = k"
    using lists_okD(3) [OF lo k, of p] pok [of p] by (auto simp: page_ok_def)
  show "pg_order (P p) = k" by (rule o)
  have gf: "\<not> is_free g" "\<not> is_first g" "pg_order g = k" "pg_next g = None" "pg_index g = p" "pg_refcnt g \<le> 1"
    using p o pok [OF p(1)] by (auto simp: g flags page_ok_def)
  have "lists_ok (P(p := g)) (F(k := pg_next (P p))) (fl(k := remove1 p (fl k)))"
    by (rule lists_ok_off [OF lo k pk]) (use xs gf in auto)
  moreover have "heads (P(p := g)) \<union> {(p, k)} = heads P"
    by (rule block_set_eqI) (use p o gf in auto)
  moreover have "no_free_buddies (P(p := g))"
    using nfb gf by (auto simp: no_free_buddies_def)
  moreover have "page_ok ((P(p := g)) q) q" if "q < PAGE_NUM" for q
    using pok [OF that] gf by (auto simp: page_ok_def)
  ultimately show "binv (P(p := g)) (F(k := pg_next (P p))) (fl(k := remove1 p (fl k))) {(p, k)}"
    using part gf by (simp add: binv_def)
  show "allocs (P(p := g)) = allocs P"
    using p gf by (simp add: allocs_upd_notfirst)
qed

lemma binv_push:
  assumes inv: "binv P F fl {(p, k)}" and o: "pg_order (P p) = k"
    and nb: "k < 10 \<Longrightarrow> \<not> (is_free (P (buddy_of p k)) \<and> pg_order (P (buddy_of p k)) = k)"
    and g: "g = (P p)\<lparr>pg_next := F k, pg_flags := pg_flags (P p) OR PF_FREE_LIST\<rparr>"
  shows "binv (P(p := g)) (F(k := Some p)) (fl(k := p # fl k)) {}" "allocs (P(p := g)) = allocs P"
proof -
  note h = hand_facts [OF inv singletonI]
  have gf: "is_free g" "\<not> is_first g" "pg_order g = k" "pg_next g = F k" "pg_index g = p" "pg_refcnt g \<le> 1"
    using h o by (auto simp: g flags)
  have lo: "lists_ok P F fl" and pok: "\<And>q. q < PAGE_NUM \<Longrightarrow> page_ok (P q) q"
    and part: "buddy_partition (heads P \<union> {(p, k)})" and nfb: "no_free_buddies P"
    using inv by (auto simp: binv_def)
  have "lists_ok (P(p := g)) (F(k := Some p)) (fl(k := p # fl k))"
    by (rule lists_ok_on [OF lo h(2) h(1) h(4)]) (use gf in auto)
  moreover have "heads (P(p := g)) = heads P \<union> {(p, k)}"
    using h gf by (auto simp: heads_upd)
  moreover have "page_ok ((P(p := g)) q) q" if "q < PAGE_NUM" for q
    using pok [OF that] gf by (auto simp: page_ok_def)
  moreover have "no_free_buddies (P(p := g))"
    unfolding no_free_buddies_def
  proof (intro allI impI notI, elim conjE)
    fix q j
    assume q: "q < PAGE_NUM" "is_free ((P(p := g)) q)" "pg_order ((P(p := g)) q) = j" "j < 10"
      and b: "is_free ((P(p := g)) (buddy_of q j))" "pg_order ((P(p := g)) (buddy_of q j)) = j"
    show False
    proof (cases "q = p")
      case True
      then have "j = k" using q gf by simp
      then show False using nb b q True buddy_of_props(2) [OF h(3)] by (auto simp: fun_upd_def split: if_splits)
    next
      case False
      have "2 ^ j dvd q" using free_facts(2) [OF inv q(1)] False q by simp
      show False
      proof (cases "buddy_of q j = p")
        case True
        then have "j = k" using b gf by simp
        moreover have "buddy_of p k = q" using buddy_of_props(3) [OF \<open>2 ^ j dvd q\<close>] True \<open>j = k\<close> by simp
        ultimately show False using nb q False by simp
      next
        case np: False
        then show False using nfb q b False by (auto simp: no_free_buddies_def)
      qed
    qed
  qed
  ultimately show "binv (P(p := g)) (F(k := Some p)) (fl(k := p # fl k)) {}"
    using part by (simp add: binv_def)
  show "allocs (P(p := g)) = allocs P"
    using h gf by (simp add: allocs_upd_notfirst)
qed

text \<open>Halving: the first half goes on the empty list of its order, the second stays in hand.\<close>

lemma binv_split:
  assumes inv: "binv P F fl {(p, Suc i)}" and e: "fl i = []"
    and g: "g = (P p)\<lparr>pg_order := i, pg_flags := pg_flags (P p) OR PF_FREE_LIST\<rparr>"
  shows "binv (P(p := g)) (F(i := Some p)) (fl(i := [p])) {(p + 2 ^ i, i)}"
    "allocs (P(p := g)) = allocs P"
proof -
  note h = hand_facts [OF inv singletonI]
  have i: "i \<le> 10" "i < 10" using h(2) by auto
  have lo: "lists_ok P F fl" and pok: "\<And>q. q < PAGE_NUM \<Longrightarrow> page_ok (P q) q"
    and part: "buddy_partition (insert (p, Suc i) (heads P))" and nfb: "no_free_buddies P"
    using inv by (auto simp: binv_def)
  have Fi: "F i = None" using lists_okD(1) [OF lo i(1)] e by simp
  have gf: "is_free g" "\<not> is_first g" "pg_order g = i" "pg_next g = F i" "pg_index g = p" "pg_refcnt g \<le> 1"
    using h Fi by (auto simp: g flags)
  have L: "lists_ok (P(p := g)) (F(i := Some p)) (fl(i := [p]))"
    using lists_ok_on [OF lo i(1) h(1,4) gf(1,3,4)] e by simp
  have hd: "heads (P(p := g)) = insert (p, i) (heads P)"
    using h gf by (auto simp: heads_upd)
  have part': "buddy_partition (insert (p, i) (insert (p + 2 ^ i, i) (heads P)))"
    by (rule partition_split [OF part]) (use h in auto)
  have P': "buddy_partition (heads (P(p := g)) \<union> {(p + 2 ^ i, i)})"
    using part' hd by (simp add: insert_commute)
  have second: "(p + 2 ^ i, j) \<notin> heads P" for j
  proof
    assume m: "(p + 2 ^ i, j) \<in> heads P"
    have "p + 2 ^ i \<in> blk (p, Suc i)" "p + 2 ^ i \<in> blk (p + 2 ^ i, j)" by (simp_all add: blk_def)
    moreover have "(p, Suc i) \<noteq> (p + 2 ^ i, j)" by simp
    ultimately show False using part m unfolding buddy_partition_def by blast
  qed
  have lt: "p + 2 ^ i < PAGE_NUM" using part' unfolding buddy_partition_def by auto
  have nf: "\<not> is_free (P (p + 2 ^ i))" "\<not> is_first (P (p + 2 ^ i))"
    using second [of "pg_order (P (p + 2 ^ i))"] lt by auto
  have d: "2 ^ i dvd p" "even (p div 2 ^ i)" using h(3) dvd_odd_div [of i p] by (metis dvd_mult_left power_Suc2)+
  have bd: "buddy_of p i = p + 2 ^ i" using d by (simp add: buddy_of_def)
  have nfb': "no_free_buddies (P(p := g))"
    unfolding no_free_buddies_def
  proof (intro allI impI notI, elim conjE)
    fix q j
    assume q: "q < PAGE_NUM" "is_free ((P(p := g)) q)" "pg_order ((P(p := g)) q) = j" "j < 10"
      and b: "is_free ((P(p := g)) (buddy_of q j))" "pg_order ((P(p := g)) (buddy_of q j)) = j"
    show False
    proof (cases "q = p")
      case True
      then show False using b q gf nf bd by auto
    next
      case False
      have dq: "2 ^ j dvd q" using free_facts(2) [OF inv q(1)] False q by simp
      show False
      proof (cases "buddy_of q j = p")
        case True
        then have "q = p + 2 ^ i" using buddy_of_props(3) [OF dq] b gf bd by simp
        then show False using q nf False by simp
      next
        case np: False
        then show False using nfb q b False by (auto simp: no_free_buddies_def)
      qed
    qed
  qed
  have "page_ok ((P(p := g)) q) q" if "q < PAGE_NUM" for q
    using pok [OF that] gf by (auto simp: page_ok_def)
  then show "binv (P(p := g)) (F(i := Some p)) (fl(i := [p])) {(p + 2 ^ i, i)}"
    using L P' nfb' nf by (simp add: binv_def)
  show "allocs (P(p := g)) = allocs P"
    using h gf by (simp add: allocs_upd_notfirst)
qed

lemma binv_hand_upd:
  assumes inv: "binv P F fl H" and p: "p < PAGE_NUM" "\<not> is_free (P p)" "\<not> is_first (P p)"
    and g: "\<not> is_free g" "\<not> is_first g" "pg_next g = None" "pg_index g = p" "pg_refcnt g \<le> 1"
  shows "binv (P(p := g)) F fl H" "allocs (P(p := g)) = allocs P"
proof -
  have "heads (P(p := g)) = heads P" by (rule block_set_eqI) (use p g in simp)
  moreover have "lists_ok (P(p := g)) F fl"
    by (rule lists_ok_upd) (use inv p g in \<open>auto simp: binv_def\<close>)
  moreover have "\<forall>(q, k) \<in> H. \<not> is_free ((P(p := g)) q) \<and> \<not> is_first ((P(p := g)) q)"
  proof (intro ballI, clarify)
    fix q k
    assume "(q, k) \<in> H"
    then have "\<not> is_free (P q) \<and> \<not> is_first (P q)" using inv by (auto simp: binv_def)
    then show "\<not> is_free ((P(p := g)) q) \<and> \<not> is_first ((P(p := g)) q)" using g by simp
  qed
  moreover have "no_free_buddies (P(p := g))" "\<forall>q < PAGE_NUM. page_ok ((P(p := g)) q) q"
    using inv g unfolding binv_def no_free_buddies_def page_ok_def by auto
  ultimately show "binv (P(p := g)) F fl H"
    using inv unfolding binv_def by (simp only: simp_thms)
  show "allocs (P(p := g)) = allocs P" using p g by (simp add: allocs_upd_notfirst)
qed

text \<open>Handing a block out and taking one back.\<close>

lemma binv_finish:
  assumes inv: "binv P F fl {(p, k)}" and o: "pg_order (P p) = k"
    and g: "g = (P p)\<lparr>pg_flags := pg_flags (P p) OR PF_FIRST_PAGE, pg_refcnt := 1\<rparr>"
  shows "binv (P(p := g)) F fl {}" "allocs (P(p := g)) = insert (p, k) (allocs P)"
proof -
  note h = hand_facts [OF inv singletonI]
  have gf: "\<not> is_free g" "is_first g" "pg_order g = k" "pg_next g = None" "pg_index g = p"
    using h o by (auto simp: g flags)
  have "heads (P(p := g)) = heads P \<union> {(p, k)}" by (rule block_set_eqI) (use h gf in auto)
  moreover have "lists_ok (P(p := g)) F fl"
    by (rule lists_ok_upd) (use inv h gf in \<open>auto simp: binv_def\<close>)
  ultimately show "binv (P(p := g)) F fl {}"
    using inv gf unfolding binv_def no_free_buddies_def page_ok_def by auto
  show "allocs (P(p := g)) = insert (p, k) (allocs P)" by (rule block_set_eqI) (use h gf in auto)
qed

lemma binv_unfirst:
  assumes inv: "binv P F fl {}" and p: "p < PAGE_NUM" "is_first (P p)" "pg_order (P p) = k"
    and r: "pg_refcnt (P p) \<le> 1"
    and g: "g = (P p)\<lparr>pg_flags := pg_flags (P p) AND NOT PF_FIRST_PAGE\<rparr>"
  shows "binv (P(p := g)) F fl {(p, k)}" "allocs (P(p := g)) = allocs P - {(p, k)}"
proof -
  have ok: "page_ok (P p) p" using inv p by (simp add: binv_def)
  have nf: "\<not> is_free (P p)" using ok p by (auto simp: page_ok_def)
  have gf: "\<not> is_free g" "\<not> is_first g" "pg_order g = k" "pg_next g = None" "pg_index g = p" "pg_refcnt g \<le> 1"
    using ok nf p r by (auto simp: g flags page_ok_def)
  have "heads (P(p := g)) \<union> {(p, k)} = heads P" by (rule block_set_eqI) (use p gf in auto)
  moreover have "lists_ok (P(p := g)) F fl"
    by (rule lists_ok_upd) (use inv nf gf in \<open>auto simp: binv_def\<close>)
  ultimately show "binv (P(p := g)) F fl {(p, k)}"
    using inv gf unfolding binv_def no_free_buddies_def page_ok_def by auto
  show "allocs (P(p := g)) = allocs P - {(p, k)}" by (rule block_set_eqI) (use p gf in auto)
qed

text \<open>Taking the buddy off its list.\<close>

lemma binv_remove:
  assumes inv: "binv P F fl {(p, k)}" and b: "b \<in> set (fl k)"
    and same: "\<And>q. q \<noteq> b \<Longrightarrow> is_free (P' q) = is_free (P q) \<and> is_first (P' q) = is_first (P q) \<and>
      pg_order (P' q) = pg_order (P q) \<and> pg_index (P' q) = pg_index (P q) \<and> pg_refcnt (P' q) = pg_refcnt (P q)"
    and b': "P' b = (P b)\<lparr>pg_next := None, pg_flags := pg_flags (P b) AND NOT PF_FREE_LIST\<rparr>"
    and out: "\<And>q. q \<notin> set (fl k) \<Longrightarrow> P' q = P q"
    and ch: "chain P' (F' k) (remove1 b (fl k))" and F': "\<And>j. j \<noteq> k \<Longrightarrow> F' j = F j"
  shows "binv P' F' (fl(k := remove1 b (fl k))) {(p, k), (b, k)}" "allocs P' = allocs P"
proof -
  note h = hand_facts [OF inv singletonI]
  have lo: "lists_ok P F fl" and pok: "\<And>q. q < PAGE_NUM \<Longrightarrow> page_ok (P q) q"
    and part: "buddy_partition (heads P \<union> {(p, k)})" and nfb: "no_free_buddies P"
    using inv by (auto simp: binv_def)
  have bb: "b < PAGE_NUM" "is_free (P b)" "pg_order (P b) = k" using lists_okD(3) [OF lo h(2)] b by auto
  have nfirst: "\<not> is_first (P b)" using free_facts(4) [OF inv bb(1,2)] .
  have b1: "\<not> is_free (P' b)" "\<not> is_first (P' b)" "pg_order (P' b) = k" "pg_next (P' b) = None"
    "pg_index (P' b) = b" "pg_refcnt (P' b) \<le> 1"
    using bb nfirst pok [OF bb(1)] unfolding b' by (auto simp: flags page_ok_def)
  have "lists_ok P' F' (fl(k := remove1 b (fl k)))"
    by (rule lists_ok_off [OF lo h(2) b]) (use same b1 out ch F' in auto)
  moreover have "page_ok (P' q) q" if q: "q < PAGE_NUM" for q
  proof (cases "q = b")
    case True
    then show ?thesis using b1 by (simp add: page_ok_def)
  next
    case False
    have "pg_next (P' q) = None" if "\<not> is_free (P q)"
      using that pok [OF q] out [of q] lists_okD(3) [OF lo h(2), of q] by (auto simp: page_ok_def)
    then show ?thesis using same [OF False] pok [OF q] by (simp add: page_ok_def)
  qed
  moreover have "heads P' \<union> {(p, k), (b, k)} = heads P \<union> {(p, k)}"
  proof (rule block_set_eqI)
    fix q j
    show "(q, j) \<in> heads P' \<union> {(p, k), (b, k)} \<longleftrightarrow> (q, j) \<in> heads P \<union> {(p, k)}"
      using same [of q] b1 bb by (cases "q = b") auto
  qed
  moreover have "no_free_buddies P'"
    unfolding no_free_buddies_def
  proof (intro allI impI notI, elim conjE)
    fix q j
    assume q: "q < PAGE_NUM" "is_free (P' q)" "pg_order (P' q) = j" "j < 10"
      and bd: "is_free (P' (buddy_of q j))" "pg_order (P' (buddy_of q j)) = j"
    then have "q \<noteq> b" "buddy_of q j \<noteq> b" using b1(1) by auto
    then show False using nfb q bd same by (auto simp: no_free_buddies_def)
  qed
  moreover have "p \<noteq> b" using bb h by auto
  ultimately show "binv P' F' (fl(k := remove1 b (fl k))) {(p, k), (b, k)}"
    using part b1 same h unfolding binv_def by simp
  show "allocs P' = allocs P"
  proof (rule block_set_eqI)
    fix q j
    show "(q, j) \<in> allocs P' \<longleftrightarrow> (q, j) \<in> allocs P"
      using same [of q] b1 nfirst by (cases "q = b") auto
  qed
qed

text \<open>Joining two buddies in hand.\<close>

lemma binv_merge:
  assumes inv: "binv P F fl {(m, k), (m + 2 ^ k, k)}" and k: "k < 10" and d: "2 ^ Suc k dvd m"
    and om: "pg_order (P m) = k"
    and P': "P' = P(m + 2 ^ k := (P (m + 2 ^ k))\<lparr>pg_order := 0\<rparr>, m := (P m)\<lparr>pg_order := Suc k\<rparr>)"
  shows "binv P' F fl {(m, Suc k)}" "allocs P' = allocs P" "pg_order (P' m) = Suc k"
proof -
  let ?M = "m + 2 ^ k"
  have hm: "(m, k) \<in> {(m, k), (?M, k)}" "(?M, k) \<in> {(m, k), (?M, k)}" by auto
  note h1 = hand_facts [OF inv hm(1)] and h2 = hand_facts [OF inv hm(2)]
  let ?P = "P(?M := (P ?M)\<lparr>pg_order := 0\<rparr>)"
  have b1: "binv ?P F fl {(m, k), (?M, k)}" "allocs ?P = allocs P"
    by (rule binv_hand_upd [OF inv h2(1,4,5)]; use h2 in \<open>simp add: flags\<close>)+
  have b2: "binv P' F fl {(m, k), (?M, k)}" "allocs P' = allocs ?P"
    unfolding P' by (rule binv_hand_upd [OF b1(1) h1(1)]; use h1 in \<open>simp add: flags\<close>)+
  have "heads P' \<union> {(m, k), (?M, k)} = insert (m, k) (insert (?M, k) (heads P'))" by auto
  then have "buddy_partition (insert (m, k) (insert (?M, k) (heads P')))"
    using b2(1) by (simp add: binv_def)
  then have "buddy_partition (insert (m, Suc k) (heads P'))"
    by (rule partition_merge [OF _ k d]) (use hand_facts(6) [OF b2(1)] in blast)+
  then show "binv P' F fl {(m, Suc k)}" using b2(1) unfolding binv_def by simp
  show "allocs P' = allocs P" using b1(2) b2(2) by simp
  show "pg_order (P' m) = Suc k" by (simp add: P')
qed

section \<open>Walking a free list\<close>

lemma chain_relink:
  "chain P x (as @ q # bs) \<Longrightarrow> q \<notin> set as \<Longrightarrow> q \<notin> set cs \<Longrightarrow> chain P y cs \<Longrightarrow>
   chain (P(q := (P q)\<lparr>pg_next := y\<rparr>)) x (as @ q # cs)"
  by (induction as arbitrary: x) auto

lemma chain_suffix: "chain P x (as @ q # bs) \<Longrightarrow> chain P (Some q) (q # bs)"
  by (induction as arbitrary: x) auto

lemma remove_walk:
  assumes "chain (pages s) (free_lists s k) (ys @ xs)" "distinct (ys @ xs)" "b \<in> set xs"
    and "\<forall>q \<in> set xs. pg_index (pages s q) = q"
    and "pp = (if ys = [] then Head k else NextOf (last ys))" "x = Some (hd xs)"
  shows "\<exists>P' F'. buddy_list_remove_from pp x b s = Some (Some b, s\<lparr>pages := P', free_lists := F'\<rparr>) \<and>
     chain P' (F' k) (remove1 b (ys @ xs)) \<and>
     P' b = (pages s b)\<lparr>pg_next := None, pg_flags := pg_flags (pages s b) AND NOT PF_FREE_LIST\<rparr> \<and>
     (\<forall>q. q \<noteq> b \<longrightarrow> (\<exists>n. P' q = (pages s q)\<lparr>pg_next := n\<rparr>)) \<and>
     (\<forall>q. q \<notin> set (ys @ xs) \<longrightarrow> P' q = pages s q) \<and> (\<forall>j. j \<noteq> k \<longrightarrow> F' j = free_lists s j)"
  using assms
proof (induction xs arbitrary: ys pp x)
  case Nil
  then show ?case by simp
next
  case (Cons q zs)
  let ?clr = "\<lambda>g. g\<lparr>pg_next := None, pg_flags := pg_flags g AND NOT PF_FREE_LIST\<rparr>"
  have cq: "chain (pages s) (pg_next (pages s q)) zs" using chain_suffix [OF Cons.prems(1)] by simp
  show ?case
  proof (cases "q = b")
    case False
    then have bz: "b \<in> set zs" using Cons.prems(3) by simp
    then have nx: "pg_next (pages s q) = Some (hd zs)" using cq by (cases zs) auto
    have "buddy_list_remove_from pp x b s = buddy_list_remove_from (NextOf q) (pg_next (pages s q)) b s"
      using False Cons.prems(4,6) by (subst buddy_list_remove_from.simps) simp
    moreover have "chain (pages s) (free_lists s k) ((ys @ [q]) @ zs)" using Cons.prems(1) by simp
    moreover note Cons.IH [of "ys @ [q]" "NextOf q" "Some (hd zs)"]
    ultimately show ?thesis using bz nx Cons.prems(2,4) by auto
  next
    case True
    have nq: "q \<notin> set zs" "q \<notin> set ys" using Cons.prems(2) by auto
    have step: "buddy_list_remove_from pp x b s =
        Some (Some b, upd_page b ?clr (set_pp pp (pg_next (pages s b)) s))"
      using True Cons.prems(4,6) by (subst buddy_list_remove_from.simps) (simp add: Let_def)
    show ?thesis
    proof (cases "ys = []")
      case e: True
      define P where "P = (pages s)(b := ?clr (pages s b))"
      define F where "F = (free_lists s)(k := pg_next (pages s b))"
      have "upd_page b ?clr (set_pp pp (pg_next (pages s b)) s) = s\<lparr>pages := P, free_lists := F\<rparr>"
        using Cons.prems(5) e by (simp add: upd_page_def set_head_def P_def F_def)
      moreover have "chain P (F k) (remove1 b (ys @ q # zs))" using e True cq nq by (simp add: P_def F_def)
      moreover have "\<exists>n. P r = (pages s r)\<lparr>pg_next := n\<rparr>" if "r \<noteq> b" for r
        using that by (auto simp: P_def intro: exI [of _ "pg_next (pages s r)"])
      moreover have "P b = ?clr (pages s b)" "\<And>r. r \<noteq> b \<Longrightarrow> P r = pages s r" "\<And>j. j \<noteq> k \<Longrightarrow> F j = free_lists s j"
        by (simp_all add: P_def F_def)
      ultimately show ?thesis using step True e by (intro exI [of _ P] exI [of _ F]) auto
    next
      case ne: False
      then obtain ws l where ys: "ys = ws @ [l]" by (cases ys rule: rev_cases) auto
      let ?L = "(pages s)(l := (pages s l)\<lparr>pg_next := pg_next (pages s b)\<rparr>)"
      define P where "P = ?L(b := ?clr (pages s b))"
      have lb: "l \<noteq> b" using nq ys True by auto
      have up: "upd_page b ?clr (set_pp pp (pg_next (pages s b)) s) = s\<lparr>pages := P, free_lists := free_lists s\<rparr>"
        using Cons.prems(5) ys lb by (simp add: upd_page_def P_def)
      have "chain ?L (free_lists s k) (ws @ l # zs)"
        by (rule chain_relink [where bs = "q # zs"])
          (use Cons.prems(1,2) ys cq True in auto)
      moreover have "b \<notin> set (ws @ l # zs)" using nq ys True by auto
      ultimately have "chain P (free_lists s k) (ws @ l # zs)" by (simp add: P_def)
      moreover have "remove1 b (ys @ q # zs) = ws @ l # zs"
        using ys True nq by (simp add: remove1_append)
      ultimately have c: "chain P (free_lists s k) (remove1 b (ys @ q # zs))" by simp
      have nxt: "\<exists>n. P r = (pages s r)\<lparr>pg_next := n\<rparr>" if "r \<noteq> b" for r
        using that by (cases "r = l") (auto simp: P_def intro: exI [of _ "pg_next (pages s r)"])
      have "P b = ?clr (pages s b)" "\<And>r. r \<noteq> b \<Longrightarrow> r \<noteq> l \<Longrightarrow> P r = pages s r" by (simp_all add: P_def)
      then show ?thesis using step up c nxt True ys
        by (intro exI [of _ P] exI [of _ "free_lists s"]) auto
    qed
  qed
qed

section \<open>Allocation\<close>

lemma buddy_upd_swap:
  "s\<lparr>free_lists := F, pages := P\<rparr> = s\<lparr>pages := P, free_lists := F\<rparr>"
  by simp

lemma pop_None: "free_lists s k = None \<Longrightarrow> buddy_list_pop k s = (None, s)"
  by (simp add: buddy_list_pop_def)

lemma pop_Some:
  "free_lists s k = Some p \<Longrightarrow> buddy_list_pop k s =
    (Some p, s\<lparr>pages := (pages s)(p := (pages s p)\<lparr>pg_next := None, pg_flags := pg_flags (pages s p) AND NOT PF_FREE_LIST\<rparr>),
               free_lists := (free_lists s)(k := pg_next (pages s p))\<rparr>)"
  by (simp add: buddy_list_pop_def upd_page_def set_head_def)

lemma pull_find_result:
  assumes inv: "binv (pages s) (free_lists s) fl {}"
  shows "(\<forall>j. i \<le> j \<and> j \<le> 10 \<longrightarrow> fl j = []) \<and> pull_find i s = None \<or>
    (\<exists>j p P F. i \<le> j \<and> j \<le> 10 \<and> (\<forall>l. i \<le> l \<and> l < j \<longrightarrow> fl l = []) \<and> p \<in> set (fl j) \<and>
      pull_find i s = Some (j, p, s\<lparr>pages := P, free_lists := F\<rparr>) \<and>
      binv P F (fl(j := remove1 p (fl j))) {(p, j)} \<and> allocs P = allocs (pages s))"
proof (induction "11 - i" arbitrary: i)
  case 0
  then show ?case by (intro disjI1) (subst pull_find.simps, auto)
next
  case (Suc d)
  then have i: "i \<le> 10" "i < 11" by auto
  show ?case
  proof (cases "free_lists s i")
    case None
    have e: "fl i = []" using inv i None lists_okD(1) [of "pages s" "free_lists s" fl i]
      by (auto simp: binv_def)
    have st: "pull_find i s = pull_find (i + 1) s"
      using i by (subst pull_find.simps) (simp add: pop_None [OF None])
    have up: "(\<forall>j. i \<le> j \<and> j \<le> m \<longrightarrow> fl j = []) \<longleftrightarrow> (\<forall>j. i + 1 \<le> j \<and> j \<le> m \<longrightarrow> fl j = [])" for m
      using e by (metis Suc_eq_plus1 le_antisym not_less_eq_eq Suc_leD)
    have up': "(\<forall>j. i \<le> j \<and> j < m \<longrightarrow> fl j = []) \<longleftrightarrow> (\<forall>j. i + 1 \<le> j \<and> j < m \<longrightarrow> fl j = [])" for m
      using e by (metis Suc_eq_plus1 le_antisym not_less_eq_eq Suc_leD)
    have IH: "(\<forall>j. i + 1 \<le> j \<and> j \<le> 10 \<longrightarrow> fl j = []) \<and> pull_find (i + 1) s = None \<or>
      (\<exists>j p P F. i + 1 \<le> j \<and> j \<le> 10 \<and> (\<forall>l. i + 1 \<le> l \<and> l < j \<longrightarrow> fl l = []) \<and> p \<in> set (fl j) \<and>
      pull_find (i + 1) s = Some (j, p, s\<lparr>pages := P, free_lists := F\<rparr>) \<and>
      binv P F (fl(j := remove1 p (fl j))) {(p, j)} \<and> allocs P = allocs (pages s))"
      by (rule Suc.hyps(1)) (use Suc.hyps(2) in simp)
    then show ?thesis unfolding st up up' by (meson add_leD1)
  next
    case (Some p)
    define g where "g = (pages s p)\<lparr>pg_next := None, pg_flags := pg_flags (pages s p) AND NOT PF_FREE_LIST\<rparr>"
    define P where "P = (pages s)(p := g)"
    define F where "F = (free_lists s)(i := pg_next (pages s p))"
    have st: "pull_find i s = Some (i, p, s\<lparr>pages := P, free_lists := F\<rparr>)"
      using i by (subst pull_find.simps) (simp add: pop_Some [OF Some] P_def F_def g_def)
    show ?thesis
      by (intro disjI2, rule exI [of _ i], rule exI [of _ p], rule exI [of _ P], rule exI [of _ F])
        (use binv_pop [OF inv i(1) Some g_def] i st in \<open>auto simp: P_def F_def simp del: pull_find.simps\<close>)
  qed
qed

lemma pull_split_result:
  assumes "binv (pages s) (free_lists s) fl {(p, from + n)}"
    "\<And>l. from \<le> l \<Longrightarrow> l < from + n \<Longrightarrow> fl l = []"
  shows "\<exists>p' P F fl'. pull_split n from p s = (p', s\<lparr>pages := P, free_lists := F\<rparr>) \<and>
     binv P F fl' {(p', from)} \<and> allocs P = allocs (pages s) \<and> blk (p', from) \<subseteq> blk (p, from + n)"
  using assms
proof (induction n arbitrary: p s fl)
  case 0
  then show ?case
    by (intro exI [of _ p] exI [of _ "pages s"] exI [of _ "free_lists s"] exI [of _ fl]) simp
next
  case (Suc n)
  let ?i = "from + n"
  define g where "g = (pages s p)\<lparr>pg_order := ?i, pg_flags := pg_flags (pages s p) OR PF_FREE_LIST\<rparr>"
  define P1 where "P1 = (pages s)(p := g)"
  define F1 where "F1 = (free_lists s)(?i := Some p)"
  define s1 where "s1 = s\<lparr>pages := P1, free_lists := F1\<rparr>"
  have inv: "binv (pages s) (free_lists s) fl {(p, Suc ?i)}" using Suc.prems(1) by simp
  have e: "fl ?i = []" using Suc.prems(2) by simp
  note sp = binv_split [OF inv e g_def]
  have st: "pull_split (Suc n) from p s = pull_split n from (p + 2 ^ ?i) s1"
    by (simp add: Let_def upd_page_def set_head_def s1_def P1_def F1_def g_def buddy_upd_swap)
  have "binv (pages s1) (free_lists s1) (fl(?i := [p])) {(p + 2 ^ ?i, ?i)}"
    using sp(1) by (simp add: s1_def P1_def F1_def)
  then have "\<exists>p' P F fl'. pull_split n from (p + 2 ^ ?i) s1 = (p', s1\<lparr>pages := P, free_lists := F\<rparr>) \<and>
     binv P F fl' {(p', from)} \<and> allocs P = allocs (pages s1) \<and> blk (p', from) \<subseteq> blk (p + 2 ^ ?i, ?i)"
    by (rule Suc.IH) (use Suc.prems(2) in auto)
  then obtain p' P F fl' where r: "pull_split n from (p + 2 ^ ?i) s1 = (p', s1\<lparr>pages := P, free_lists := F\<rparr>)"
    "binv P F fl' {(p', from)}" "allocs P = allocs (pages s1)" "blk (p', from) \<subseteq> blk (p + 2 ^ ?i, ?i)"
    by blast
  have "blk (p', from) \<subseteq> blk (p, from + Suc n)" using r(4) blk_halves(1) [of p ?i] by auto
  moreover have "allocs P = allocs (pages s)" using r(3) sp(2) by (simp add: s1_def P1_def)
  ultimately show ?case using r(1,2) st
    by (intro exI [of _ p'] exI [of _ P] exI [of _ F] exI [of _ fl']) (simp add: s1_def)
qed

text \<open>The order \<open>buddy_alloc\<close> picks: the least whose block is large enough.\<close>

lemma find_order_eq:
  "find_order i sz = (if \<exists>k. i \<le> k \<and> k \<le> 10 \<and> sz \<le> 2 ^ k * PAGE_SIZE
     then Some (LEAST k. i \<le> k \<and> sz \<le> 2 ^ k * PAGE_SIZE) else None)"
proof (induction "11 - i" arbitrary: i)
  case 0
  then show ?case by (subst find_order.simps) auto
next
  case (Suc d)
  then have i: "i < 11" by simp
  show ?case
  proof (cases "sz \<le> 2 ^ i * PAGE_SIZE")
    case True
    then have "(LEAST k. i \<le> k \<and> sz \<le> 2 ^ k * PAGE_SIZE) = i" by (intro Least_equality) auto
    moreover have "\<exists>k. i \<le> k \<and> k \<le> 10 \<and> sz \<le> 2 ^ k * PAGE_SIZE" using True i by auto
    ultimately show ?thesis using True i by (subst find_order.simps) simp
  next
    case False
    have eq: "(i \<le> k \<and> sz \<le> 2 ^ k * PAGE_SIZE) = (i + 1 \<le> k \<and> sz \<le> 2 ^ k * PAGE_SIZE)" for k
      using False by (metis Suc_eq_plus1 Suc_leD le_antisym not_less_eq_eq)
    have eq': "(i \<le> k \<and> k \<le> 10 \<and> sz \<le> 2 ^ k * PAGE_SIZE) = (i + 1 \<le> k \<and> k \<le> 10 \<and> sz \<le> 2 ^ k * PAGE_SIZE)" for k
      using eq by blast
    have "find_order i sz = find_order (i + 1) sz" using False i by (subst find_order.simps) simp
    moreover have "find_order (i + 1) sz = (if \<exists>k. i + 1 \<le> k \<and> k \<le> 10 \<and> sz \<le> 2 ^ k * PAGE_SIZE
     then Some (LEAST k. i + 1 \<le> k \<and> sz \<le> 2 ^ k * PAGE_SIZE) else None)"
      by (rule Suc.hyps(1)) (use Suc.hyps(2) in simp)
    ultimately show ?thesis unfolding eq eq' by simp
  qed
qed

definition free_from :: "nat \<Rightarrow> (nat \<Rightarrow> page) \<Rightarrow> bool" where
  "free_from k P \<longleftrightarrow> (\<exists>q < PAGE_NUM. is_free (P q) \<and> k \<le> pg_order (P q))"

lemma free_from_lists:
  assumes "binv P F fl {}"
  shows "free_from k P \<longleftrightarrow> (\<exists>j. k \<le> j \<and> j \<le> 10 \<and> fl j \<noteq> [])"
proof
  assume "free_from k P"
  then obtain q where q: "q < PAGE_NUM" "is_free (P q)" "k \<le> pg_order (P q)" by (auto simp: free_from_def)
  show "\<exists>j. k \<le> j \<and> j \<le> 10 \<and> fl j \<noteq> []"
    using free_facts(1,3) [OF assms q(1,2)] q(3) by (metis empty_iff empty_set)
next
  assume "\<exists>j. k \<le> j \<and> j \<le> 10 \<and> fl j \<noteq> []"
  then obtain j q where j: "k \<le> j" "j \<le> 10" "q \<in> set (fl j)" by (meson list.set_sel(1))
  have lo: "lists_ok P F fl" using assms by (simp add: binv_def)
  show "free_from k P" using lists_okD(3) [OF lo j(2)] j by (auto simp: free_from_def)
qed

lemma pull_block_result:
  assumes inv: "binv (pages s) (free_lists s) fl {}" and k: "k \<le> 10" and e: "fl k = []"
  shows "(\<not> free_from k (pages s) \<and> buddy_pull_block k s = None) \<or>
    (\<exists>p P F fl'. buddy_pull_block k s = Some (p, s\<lparr>pages := P, free_lists := F\<rparr>) \<and>
       binv P F fl' {(p, k)} \<and> pg_order (P p) = k \<and> allocs P = allocs (pages s) \<and> free_from k (pages s))"
proof -
  have nf: "\<not> free_from k (pages s)" if "\<forall>j. k + 1 \<le> j \<and> j \<le> 10 \<longrightarrow> fl j = []"
    using that e by (metis free_from_lists [OF inv] Suc_eq_plus1 le_antisym not_less_eq_eq)
  consider (a) "\<forall>j. k + 1 \<le> j \<and> j \<le> 10 \<longrightarrow> fl j = []" "pull_find (k + 1) s = None"
    | (b) j p P F where "k + 1 \<le> j" "j \<le> 10" "\<forall>l. k + 1 \<le> l \<and> l < j \<longrightarrow> fl l = []" "p \<in> set (fl j)"
      "pull_find (k + 1) s = Some (j, p, s\<lparr>pages := P, free_lists := F\<rparr>)"
      "binv P F (fl(j := remove1 p (fl j))) {(p, j)}" "allocs P = allocs (pages s)"
    using pull_find_result [OF inv, of "k + 1"] by (elim disjE exE conjE) metis+
  then show ?thesis
  proof cases
    case a
    then show ?thesis using nf by (simp add: buddy_pull_block_def del: pull_find.simps)
  next
    case b
    define s1 where "s1 = s\<lparr>pages := P, free_lists := F\<rparr>"
    have j: "k + (j - k) = j" "j - 1 + 1 - k = j - k" using b(1) by auto
    have el: "(fl(j := remove1 p (fl j))) l = []" if "k \<le> l" "l < k + (j - k)" for l
      using that b(3) e j(1) by (cases "l = k") auto
    have "binv (pages s1) (free_lists s1) (fl(j := remove1 p (fl j))) {(p, k + (j - k))}"
      using b(6) j(1) by (simp add: s1_def)
    from pull_split_result [OF this el] obtain p' P2 F2 fl2 where
      r: "pull_split (j - k) k p s1 = (p', s1\<lparr>pages := P2, free_lists := F2\<rparr>)"
      "binv P2 F2 fl2 {(p', k)}" "allocs P2 = allocs (pages s1)" by blast
    define P3 where "P3 = P2(p' := (P2 p')\<lparr>pg_order := k\<rparr>)"
    note h = hand_facts [OF r(2) singletonI]
    have b3: "binv P3 F2 fl2 {(p', k)}" "allocs P3 = allocs P2"
      unfolding P3_def by (rule binv_hand_upd [OF r(2) h(1,4,5)]; use h in \<open>simp add: flags\<close>)+
    have "buddy_pull_block k s = Some (p', s\<lparr>pages := P3, free_lists := F2\<rparr>)"
      using b(5) r(1) j(2)
      by (simp add: buddy_pull_block_def Let_def upd_page_def buddy_upd_swap P3_def s1_def del: pull_find.simps)
    moreover have "pg_order (P3 p') = k" by (simp add: P3_def)
    moreover have "allocs P3 = allocs (pages s)" using b3(2) r(3) b(7) by (simp add: s1_def)
    moreover have "free_from k (pages s)"
      using free_from_lists [OF inv] b(1,2,4) by (auto intro!: exI [of _ j])
    ultimately show ?thesis using b3(1) by blast
  qed
qed

lemma take_block_result:
  assumes inv: "binv (pages s) (free_lists s) fl {}" and k: "k \<le> 10"
  shows "(\<not> free_from k (pages s) \<and>
      (case buddy_list_pop k s of (Some p, s) \<Rightarrow> Some (p, s) | (None, s) \<Rightarrow> buddy_pull_block k s) = None) \<or>
    (\<exists>p P F fl'. (case buddy_list_pop k s of (Some p, s) \<Rightarrow> Some (p, s) | (None, s) \<Rightarrow> buddy_pull_block k s)
         = Some (p, s\<lparr>pages := P, free_lists := F\<rparr>) \<and>
       binv P F fl' {(p, k)} \<and> pg_order (P p) = k \<and> allocs P = allocs (pages s) \<and> free_from k (pages s))"
proof (cases "free_lists s k")
  case None
  have lo: "lists_ok (pages s) (free_lists s) fl" using inv by (simp add: binv_def)
  have "fl k = []" using lists_okD(1) [OF lo k] None by simp
  from pull_block_result [OF inv k this] show ?thesis by (simp add: pop_None [OF None])
next
  case (Some p)
  define g where "g = (pages s p)\<lparr>pg_next := None, pg_flags := pg_flags (pages s p) AND NOT PF_FREE_LIST\<rparr>"
  define P where "P = (pages s)(p := g)"
  define F where "F = (free_lists s)(k := pg_next (pages s p))"
  have pop: "buddy_list_pop k s = (Some p, s\<lparr>pages := P, free_lists := F\<rparr>)"
    by (simp add: pop_Some [OF Some] P_def F_def g_def)
  note bp = binv_pop [OF inv k Some g_def]
  have "pg_order (P p) = k" using bp(3) by (simp add: P_def g_def)
  moreover have "free_from k (pages s)"
    using free_from_lists [OF inv] k bp(4) by (auto intro!: exI [of _ k])
  ultimately show ?thesis using bp(1,2) unfolding P_def [symmetric] F_def [symmetric] pop by auto
qed

lemma allocs_subset_heads: "allocs P \<subseteq> heads P"
  by auto

text \<open>Taking a block leaves every reference count alone.\<close>

lemma pop_refcnt: "buddy_list_pop k s = (r, s') \<Longrightarrow> pg_refcnt (pages s' q) = pg_refcnt (pages s q)"
  by (auto simp: buddy_list_pop_def upd_page_def set_head_def split: option.splits)

lemma pull_find_refcnt: "pull_find i s = Some (j, p, s') \<Longrightarrow> pg_refcnt (pages s' q) = pg_refcnt (pages s q)"
proof (induction i s rule: pull_find.induct)
  case (1 i s)
  show ?case
  proof (cases "buddy_list_pop i s")
    case (Pair r t)
    then show ?thesis
      using 1 pop_refcnt [OF Pair, of q] by (subst (asm) (2) pull_find.simps) (auto split: if_splits option.splits)
  qed
qed

lemma pull_split_refcnt: "pull_split n from p s = (p', s') \<Longrightarrow> pg_refcnt (pages s' q) = pg_refcnt (pages s q)"
  by (induction n arbitrary: p s) (fastforce simp: upd_page_def set_head_def Let_def)+

lemma pull_block_refcnt:
  assumes "buddy_pull_block k s = Some (p, s')"
  shows "pg_refcnt (pages s' q) = pg_refcnt (pages s q)"
proof -
  obtain i p0 s0 where f: "pull_find (k + 1) s = Some (i, p0, s0)"
    using assms by (auto simp: buddy_pull_block_def simp del: pull_find.simps)
  obtain p1 s1 where sp: "pull_split (i - 1 + 1 - k) k p0 s0 = (p1, s1)" by fastforce
  show ?thesis
    using assms f sp pull_find_refcnt [OF f, of q] pull_split_refcnt [OF sp, of q]
    by (auto simp: buddy_pull_block_def upd_page_def Let_def simp del: pull_find.simps)
qed

lemma take_block_refcnt:
  assumes "(case buddy_list_pop k s of (Some p, s) \<Rightarrow> Some (p, s) | (None, s) \<Rightarrow> buddy_pull_block k s) = Some (p, s')"
  shows "pg_refcnt (pages s' q) = pg_refcnt (pages s q)"
  using assms pop_refcnt [of k s _ _ q] pull_block_refcnt [of k _ p s' q]
  by (auto split: prod.splits option.splits)

lemma buddy_alloc_None:
  assumes "L_buddy \<notin> held s" "find_order 0 sz = None"
  shows "buddy_alloc sz s = None"
  using assms by (simp add: buddy_alloc_def lock_simps del: find_order.simps)

text \<open>What an allocation of a block of order \<open>k\<close> does to the allocator.\<close>

definition alloc_post :: "nat \<Rightarrow> 'a buddy_scheme \<Rightarrow> nat \<Rightarrow> 'a buddy_scheme \<Rightarrow> bool" where
  "alloc_post k s p s' \<longleftrightarrow> buddy_inv s' \<and> s' = s\<lparr>pages := pages s', free_lists := free_lists s'\<rparr> \<and>
     allocs (pages s') = insert (p, k) (allocs (pages s)) \<and> (p, k) \<notin> allocs (pages s) \<and>
     (\<forall>b \<in> allocs (pages s). blk b \<inter> blk (p, k) = {}) \<and>
     p < PAGE_NUM \<and> pg_refcnt (pages s' p) = 1 \<and> pg_index (pages s' p) = p \<and>
     (\<forall>q. q \<noteq> p \<longrightarrow> pg_refcnt (pages s' q) = pg_refcnt (pages s q))"

lemma buddy_alloc_cases:
  assumes inv: "buddy_inv s" and l: "L_buddy \<notin> held s" "L_pages_ref \<notin> held s" and k: "find_order 0 sz = Some k"
  shows "if free_from k (pages s) then \<exists>p s'. buddy_alloc sz s = Some (p, s') \<and> alloc_post k s p s'
         else buddy_alloc sz s = None"
proof -
  obtain fl where fl: "binv (pages s) (free_lists s) fl {}" using inv by (auto simp: buddy_inv_def)
  have k10: "k \<le> 10"
    using k unfolding find_order_eq by (auto split: if_splits intro: Least_le order_trans)
  define s1 where "s1 = s\<lparr>held := insert L_buddy (held s)\<rparr>"
  have fl1: "binv (pages s1) (free_lists s1) fl {}" using fl by (simp add: s1_def)
  consider (none) "\<not> free_from k (pages s1)"
      "(case buddy_list_pop k s1 of (Some p, s) \<Rightarrow> Some (p, s) | (None, s) \<Rightarrow> buddy_pull_block k s) = None"
    | (some) p P F fl' where
      "(case buddy_list_pop k s1 of (Some p, s) \<Rightarrow> Some (p, s) | (None, s) \<Rightarrow> buddy_pull_block k s)
         = Some (p, s1\<lparr>pages := P, free_lists := F\<rparr>)"
      "binv P F fl' {(p, k)}" "pg_order (P p) = k" "allocs P = allocs (pages s1)" "free_from k (pages s1)"
    using take_block_result [OF fl1 k10] by (elim disjE exE conjE) metis+
  then show ?thesis
  proof cases
    case none
    then have "buddy_alloc sz s = None"
      using l k by (simp add: buddy_alloc_def lock_simps s1_def del: find_order.simps)
    then show ?thesis using none by (simp add: s1_def)
  next
    case some
    note h = hand_facts [OF some(2) singletonI]
    define g where "g = (P p)\<lparr>pg_flags := pg_flags (P p) OR PF_FIRST_PAGE, pg_refcnt := 1\<rparr>"
    define s' where "s' = s\<lparr>pages := P(p := g), free_lists := F\<rparr>"
    note fin = binv_finish [OF some(2,3) g_def]
    have free: "free_from k (pages s)" using some(5) by (simp add: s1_def)
    have "buddy_alloc sz s = Some (p, s')"
      using l k some(1)
      by (simp add: buddy_alloc_def lock_simps s1_def s'_def g_def upd_page_def Let_def buddy_upd_swap
          del: find_order.simps)
    moreover have "alloc_post k s p s'"
    proof -
      have eq: "allocs P = allocs (pages s)" using some(4) by (simp add: s1_def)
      have new: "(p, k) \<notin> allocs (pages s)" using h(5) unfolding eq [symmetric] by simp
      have al: "allocs (pages s') = insert (p, k) (allocs (pages s))"
        using fin(2) some(4) by (simp add: s'_def s1_def)
      have part: "buddy_partition (heads (pages s'))" using fin(1) by (simp add: binv_def s'_def)
      have "blk b \<inter> blk (p, k) = {}" if "b \<in> allocs (pages s)" for b
      proof -
        have "b \<noteq> (p, k)" using new that by auto
        moreover have "b \<in> heads (pages s')" "(p, k) \<in> heads (pages s')"
          using allocs_subset_heads [of "pages s'"] al that by auto
        ultimately show ?thesis using part unfolding buddy_partition_def by blast
      qed
      then show ?thesis
        using fin(1) new al h(1,8) take_block_refcnt [OF some(1)]
        by (auto simp: alloc_post_def buddy_inv_def s'_def g_def s1_def)
    qed
    ultimately show ?thesis using free by auto
  qed
qed

end
