(* ===== verification/Buddy_Free.thy ===== *)
theory Buddy_Free
  imports Buddy_Correct
begin

text \<open>
  Correctness of \<^verbatim>\<open>buddy_free\<close>, of the page look-ups of \<^verbatim>\<open>kernel/page.c\<close> and of \<^verbatim>\<open>buddy_init\<close>, and the
  contract of the page allocator as a locale.
\<close>

unbundle bit_operations_syntax

section \<open>Freeing a block that is in hand\<close>

lemma buddy_index_eq: "pg_index g = p \<Longrightarrow> pg_order g = k \<Longrightarrow> buddy_find_buddy_index g = buddy_of p k"
  by (simp add: buddy_find_buddy_index_def buddy_of_def drop_bit_eq_div)

text \<open>One round of the recursion, for a block whose reference count is at most one.\<close>

lemma buddy_free_push:
  assumes l: "L_buddy \<notin> held s" "L_pages_ref \<notin> held s"
    and p: "pg_refcnt (pages s p) \<le> 1" "pg_order (pages s p) = k" "pg_index (pages s p) = p" "buddy_of p k \<noteq> p"
    and nb: "k = 10 \<or> \<not> (is_free (pages s (buddy_of p k)) \<and> pg_order (pages s (buddy_of p k)) = k)"
  shows "buddy_free p s = Some (s\<lparr>
    pages := (pages s)(p := (pages s p)\<lparr>pg_next := free_lists s k,
       pg_flags := (pg_flags (pages s p) AND NOT PF_FIRST_PAGE) OR PF_FREE_LIST\<rparr>),
    free_lists := (free_lists s)(k := Some p)\<rparr>)"
  using l p nb
  by (subst buddy_free.simps)
    (auto simp: lock_simps upd_page_def set_head_def buddy_list_push_def Let_def buddy_index_eq
      buddy_is_free_buddy_def is_free_def buddy_upd_swap not_less split: option.splits)

lemma page_upd_swap: "g\<lparr>pg_flags := f, pg_next := n\<rparr> = g\<lparr>pg_next := n, pg_flags := f\<rparr>" for g :: page
  by simp

lemma buddy_free_round:
  assumes l: "L_buddy \<notin> held s" "L_pages_ref \<notin> held s"
    and p: "pg_refcnt (pages s p) \<le> 1" "pg_order (pages s p) = k" "pg_index (pages s p) = p" "b = buddy_of p k" "b \<noteq> p"
    and fb: "k < 10" "is_free (pages s b)" "pg_order (pages s b) = k"
    and P2: "P2 = (pages s)(p := (pages s p)\<lparr>pg_next := None,
       pg_flags := (pg_flags (pages s p) AND NOT PF_FIRST_PAGE) AND NOT PF_FREE_LIST\<rparr>)"
    and s2: "s2 = s\<lparr>held := insert L_buddy (held s), pages := P2\<rparr>"
    and rm: "buddy_list_remove_from (Head k) (free_lists s k) b s2 = Some (Some b, s2\<lparr>pages := P', free_lists := F'\<rparr>)"
    and o: "pg_order (P' p) = k"
    and m: "m = (if odd (b div 2 ^ k) then p else b)" "n = (if odd (b div 2 ^ k) then b else p)"
    and om: "pg_order (P' m) = k"
  shows "buddy_free p s = buddy_free m (s\<lparr>pages := P'(n := (P' n)\<lparr>pg_order := 0\<rparr>, m := (P' m)\<lparr>pg_order := Suc k\<rparr>),
    free_lists := F'\<rparr>)"
  using l p fb rm o m om
  by (subst buddy_free.simps, cases "odd (b div 2 ^ k)")
    (simp_all add: lock_simps upd_page_def Let_def buddy_index_eq buddy_is_free_buddy_def is_free_def not_less
      leD page_upd_swap buddy_upd_swap buddy_list_remove_def drop_bit_eq_div s2 P2)

lemma free_push_inv:
  assumes inv: "binv P F fl {(p, k)}" and o: "pg_order (P p) = k"
    and nb: "k = 10 \<or> \<not> (is_free (P (buddy_of p k)) \<and> pg_order (P (buddy_of p k)) = k)"
    and g: "g = (P p)\<lparr>pg_next := F k, pg_flags := (pg_flags (P p) AND NOT PF_FIRST_PAGE) OR PF_FREE_LIST\<rparr>"
  shows "\<exists>fl'. binv (P(p := g)) (F(k := Some p)) fl' {}" "allocs (P(p := g)) = allocs P"
proof -
  note h = hand_facts [OF inv singletonI]
  define g1 where "g1 = (P p)\<lparr>pg_flags := pg_flags (P p) AND NOT PF_FIRST_PAGE\<rparr>"
  have g1: "\<not> is_free g1" "\<not> is_first g1" "pg_next g1 = None" "pg_index g1 = p" "pg_refcnt g1 \<le> 1"
    using h(4,5,7,8,9) by (auto simp: g1_def flags)
  note u = binv_hand_upd [OF inv h(1,4,5) g1]
  have nb1: "\<not> (is_free ((P(p := g1)) (buddy_of p k)) \<and> pg_order ((P(p := g1)) (buddy_of p k)) = k)" if "k < 10"
    using nb that buddy_of_props(2) [OF h(3)] by auto
  have o1: "pg_order ((P(p := g1)) p) = k" using o by (simp add: g1_def)
  have gg: "g = ((P(p := g1)) p)\<lparr>pg_next := F k, pg_flags := pg_flags ((P(p := g1)) p) OR PF_FREE_LIST\<rparr>"
    by (simp add: g g1_def)
  note ps = binv_push [OF u(1) o1 nb1 gg]
  show "\<exists>fl'. binv (P(p := g)) (F(k := Some p)) fl' {}" using ps(1) unfolding fun_upd_upd by blast
  show "allocs (P(p := g)) = allocs P" using ps(2) u(2) unfolding fun_upd_upd by blast
qed

lemma free_merge_inv:
  assumes inv: "binv (pages s) (free_lists s) fl {(p, k)}" and o: "pg_order (pages s p) = k"
    and l: "L_buddy \<notin> held s" "L_pages_ref \<notin> held s"
    and b: "b = buddy_of p k" "k < 10" "is_free (pages s b)" "pg_order (pages s b) = k"
  shows "\<exists>m P F fl'. buddy_free p s = buddy_free m (s\<lparr>pages := P, free_lists := F\<rparr>) \<and>
    binv P F fl' {(m, Suc k)} \<and> pg_order (P m) = Suc k \<and> allocs P = allocs (pages s) \<and>
    (\<forall>q. pg_refcnt (P q) = pg_refcnt (pages s q))"
proof -
  note h = hand_facts [OF inv singletonI]
  note bo = buddy_of_props [OF h(3), folded b(1)]
  have blt: "b < PAGE_NUM" using buddy_of_lt [OF h(3,1) b(2)] b(1) by simp
  define g where "g = (pages s p)\<lparr>pg_next := None,
    pg_flags := (pg_flags (pages s p) AND NOT PF_FIRST_PAGE) AND NOT PF_FREE_LIST\<rparr>"
  define P2 where "P2 = (pages s)(p := g)"
  define s2 where "s2 = s\<lparr>held := insert L_buddy (held s), pages := P2\<rparr>"
  have g: "\<not> is_free g" "\<not> is_first g" "pg_next g = None" "pg_index g = p" "pg_refcnt g \<le> 1"
    using h(4,5,7,8,9) by (auto simp: g_def flags)
  note u = binv_hand_upd [OF inv h(1,4,5) g, folded P2_def]
  have lo: "lists_ok P2 (free_lists s) fl" and pok: "\<And>q. q < PAGE_NUM \<Longrightarrow> page_ok (P2 q) q"
    using u(1) by (auto simp: binv_def)
  note L = lists_okD [OF lo h(2)]
  have P2b: "P2 b = pages s b" using bo(2) by (simp add: P2_def)
  have bin: "b \<in> set (fl k)" using L(3) blt b P2b by simp
  have idx: "\<forall>q \<in> set (fl k). pg_index (pages s2 q) = q"
    using L(3) pok by (auto simp: s2_def page_ok_def)
  have hd: "free_lists s k = Some (hd (fl k))" using L(1) bin by (cases "fl k") auto
  have ch2: "chain (pages s2) (free_lists s2 k) ([] @ fl k)" using L(1) by (simp add: s2_def)
  obtain P' F' where rm: "buddy_list_remove_from (Head k) (free_lists s k) b s2 = Some (Some b, s2\<lparr>pages := P', free_lists := F'\<rparr>)"
     and r: "chain P' (F' k) (remove1 b (fl k))"
     "P' b = (P2 b)\<lparr>pg_next := None, pg_flags := pg_flags (P2 b) AND NOT PF_FREE_LIST\<rparr>"
     "\<forall>q. q \<noteq> b \<longrightarrow> (\<exists>n. P' q = (P2 q)\<lparr>pg_next := n\<rparr>)"
     "\<forall>q. q \<notin> set (fl k) \<longrightarrow> P' q = P2 q" "\<forall>j. j \<noteq> k \<longrightarrow> F' j = free_lists s j"
    using remove_walk [of s2 k "[]" "fl k" b "Head k" "free_lists s k", OF ch2] L(2) bin idx hd
    by (auto simp: s2_def)
  have same: "is_free (P' q) = is_free (P2 q) \<and> is_first (P' q) = is_first (P2 q) \<and>
      pg_order (P' q) = pg_order (P2 q) \<and> pg_index (P' q) = pg_index (P2 q) \<and> pg_refcnt (P' q) = pg_refcnt (P2 q)"
    if "q \<noteq> b" for q using r(3) that by (auto simp: is_free_def is_first_def dest!: spec [of _ q])
  have rm2: "binv P' F' (fl(k := remove1 b (fl k))) {(p, k), (b, k)}" "allocs P' = allocs P2"
    using binv_remove [OF u(1) bin, of P' F'] same r(1,2,4,5) by auto
  have ordp: "pg_order (P' p) = k" using same [of p] bo(2) o by (simp add: P2_def g_def)
  have ordb: "pg_order (P' b) = k" using r(2) b(4) P2b by simp
  define m where "m = (if odd (b div 2 ^ k) then p else b)"
  define n where "n = (if odd (b div 2 ^ k) then b else p)"
  have mn: "n = m + 2 ^ k" "2 ^ Suc k dvd m" "{(p, k), (b, k)} = {(m, k), (n, k)}"
    using bo(4,5,6) by (auto simp: m_def n_def)
  have om: "pg_order (P' m) = k" using ordp ordb by (simp add: m_def)
  define P'' where "P'' = P'(n := (P' n)\<lparr>pg_order := 0\<rparr>, m := (P' m)\<lparr>pg_order := Suc k\<rparr>)"
  have "buddy_free p s = buddy_free m (s\<lparr>pages := P'', free_lists := F'\<rparr>)"
    unfolding P''_def
    by (rule buddy_free_round [OF l h(9) o h(8) b(1) bo(2) b(2,3,4) P2_def [unfolded g_def] s2_def rm ordp m_def n_def om])
  moreover have "binv P'' F' (fl(k := remove1 b (fl k))) {(m, Suc k)}" "allocs P'' = allocs P'" "pg_order (P'' m) = Suc k"
    using binv_merge [of P' F' "fl(k := remove1 b (fl k))" m k P''] rm2(1) b(2) mn om
    by (auto simp: P''_def)
  moreover have "pg_refcnt (P'' q) = pg_refcnt (pages s q)" for q
    using same [of q] r(2) by (cases "q = b") (auto simp: P''_def P2_def g_def)
  ultimately show ?thesis using rm2(2) u(2) by blast
qed

lemma buddy_free_hand:
  assumes "binv (pages s) (free_lists s) fl {(p, k)}" "pg_order (pages s p) = k"
    and "L_buddy \<notin> held s" "L_pages_ref \<notin> held s"
  shows "\<exists>P F fl'. buddy_free p s = Some (s\<lparr>pages := P, free_lists := F\<rparr>) \<and> binv P F fl' {} \<and>
           allocs P = allocs (pages s) \<and> (\<forall>q. pg_refcnt (P q) = pg_refcnt (pages s q))"
  using assms
proof (induction "10 - k" arbitrary: k p s fl rule: less_induct)
  case less
  note h = hand_facts [OF less.prems(1) singletonI]
  show ?case
  proof (cases "k = 10 \<or> \<not> (is_free (pages s (buddy_of p k)) \<and> pg_order (pages s (buddy_of p k)) = k)")
    case True
    define P where "P = (pages s)(p := (pages s p)\<lparr>pg_next := free_lists s k,
      pg_flags := (pg_flags (pages s p) AND NOT PF_FIRST_PAGE) OR PF_FREE_LIST\<rparr>)"
    define F where "F = (free_lists s)(k := Some p)"
    have "buddy_free p s = Some (s\<lparr>pages := P, free_lists := F\<rparr>)"
      unfolding P_def F_def
      by (rule buddy_free_push [OF less.prems(3,4) h(9) less.prems(2) h(8) buddy_of_props(2) [OF h(3)] True])
    moreover have "pg_refcnt (P q) = pg_refcnt (pages s q)" for q by (simp add: P_def)
    ultimately show ?thesis using free_push_inv [OF less.prems(1,2) True refl, folded P_def F_def] by blast
  next
    case False
    then have k: "k < 10" using h(2) by simp
    obtain m P F fl' where s': "buddy_free p s = buddy_free m (s\<lparr>pages := P, free_lists := F\<rparr>)"
      "binv P F fl' {(m, Suc k)}" "pg_order (P m) = Suc k" "allocs P = allocs (pages s)" "\<forall>q. pg_refcnt (P q) = pg_refcnt (pages s q)"
      using free_merge_inv [OF less.prems refl k] False by blast
    show ?thesis
      using less.hyps [of "Suc k" "s\<lparr>pages := P, free_lists := F\<rparr>" fl' m] s' k less.prems(3,4) by auto
  qed
qed

section \<open>Freeing an allocated block\<close>

text \<open>What freeing the last reference to block \<open>b\<close> does.\<close>

definition free_post :: "nat \<times> nat \<Rightarrow> 'a buddy_scheme \<Rightarrow> 'a buddy_scheme \<Rightarrow> bool" where
  "free_post b s s' \<longleftrightarrow> buddy_inv s' \<and> s' = s\<lparr>pages := pages s', free_lists := free_lists s'\<rparr> \<and>
     allocs (pages s') = allocs (pages s) - {b} \<and> (\<forall>q. pg_refcnt (pages s' q) = pg_refcnt (pages s q))"

text \<open>Clearing \<^verbatim>\<open>PF_FIRST_PAGE\<close> twice is clearing it once, so a free may be seen to start in hand.\<close>

lemma buddy_free_unfirst:
  assumes "pg_refcnt (pages s p) \<le> 1" "buddy_of p (pg_order (pages s p)) \<noteq> p" "pg_index (pages s p) = p"
    and "L_buddy \<notin> held s" "L_pages_ref \<notin> held s"
  shows "buddy_free p (upd_page p (\<lambda>g. g\<lparr>pg_flags := pg_flags g AND NOT PF_FIRST_PAGE\<rparr>) s) = buddy_free p s"
proof -
  have idem: "(x AND NOT PF_FIRST_PAGE) AND NOT PF_FIRST_PAGE = x AND NOT PF_FIRST_PAGE" for x
    by (simp add: and.assoc)
  have e: "buddy_find_buddy_index (g\<lparr>pg_flags := x\<rparr>) = buddy_find_buddy_index g" for g x
    by (simp add: buddy_find_buddy_index_def)
  show ?thesis
    using assms
    by (subst (1 2) buddy_free.simps)
      (simp add: lock_simps upd_page_def Let_def leD idem e)
qed

lemma buddy_free_last:
  assumes inv: "buddy_inv s" and l: "L_buddy \<notin> held s" "L_pages_ref \<notin> held s"
    and a: "(p, k) \<in> allocs (pages s)" and r: "pg_refcnt (pages s p) \<le> 1"
  shows "\<exists>s'. buddy_free p s = Some s' \<and> free_post (p, k) s s'"
proof -
  obtain fl where fl: "binv (pages s) (free_lists s) fl {}" using inv by (auto simp: buddy_inv_def)
  have p: "p < PAGE_NUM" "is_first (pages s p)" "pg_order (pages s p) = k" using a by auto
  define s1 where "s1 = upd_page p (\<lambda>g. g\<lparr>pg_flags := pg_flags g AND NOT PF_FIRST_PAGE\<rparr>) s"
  note u = binv_unfirst [OF fl p r refl]
  have P1: "pages s1 = (pages s)(p := (pages s p)\<lparr>pg_flags := pg_flags (pages s p) AND NOT PF_FIRST_PAGE\<rparr>)"
    and rest: "free_lists s1 = free_lists s" "held s1 = held s" by (simp_all add: s1_def upd_page_def)
  have inv1: "binv (pages s1) (free_lists s1) fl {(p, k)}" "allocs (pages s1) = allocs (pages s) - {(p, k)}"
    using u P1 rest by simp_all
  have o1: "pg_order (pages s1 p) = k" using p by (simp add: P1)
  obtain P F fl' where f: "buddy_free p s1 = Some (s1\<lparr>pages := P, free_lists := F\<rparr>)" "binv P F fl' {}"
      "allocs P = allocs (pages s1)" "\<forall>q. pg_refcnt (P q) = pg_refcnt (pages s1 q)"
    using buddy_free_hand [OF inv1(1) o1] l rest by auto
  have "page_ok (pages s p) p" using fl p(1) by (simp add: binv_def)
  then have "buddy_free p s1 = buddy_free p s"
    unfolding s1_def using buddy_free_unfirst [OF r _ _ l] buddy_of_props(2) hand_facts(3) [OF inv1(1) singletonI] p
    by (simp add: page_ok_def)
  moreover have "free_post (p, k) s (s1\<lparr>pages := P, free_lists := F\<rparr>)"
    using f(2,3,4) inv1(2) by (auto simp: free_post_def buddy_inv_def s1_def upd_page_def)
  ultimately show ?thesis using f(1) by metis
qed

text \<open>With other references left, only the count changes.\<close>

lemma buddy_free_shared:
  assumes l: "L_pages_ref \<notin> held s" and r: "pg_refcnt (pages s p) > 1"
  shows "buddy_free p s = Some (upd_page p (\<lambda>g. g\<lparr>pg_refcnt := pg_refcnt g - 1\<rparr>) s)"
  using assms by (subst buddy_free.simps) (simp add: lock_simps upd_page_def Let_def)

lemma buddy_inv_refcnt:
  assumes inv: "buddy_inv s" and a: "is_first (pages s p)"
  shows "buddy_inv (upd_page p (\<lambda>g. g\<lparr>pg_refcnt := c\<rparr>) s)"
    "allocs (pages (upd_page p (\<lambda>g. g\<lparr>pg_refcnt := c\<rparr>) s)) = allocs (pages s)"
proof -
  let ?P = "(pages s)(p := (pages s p)\<lparr>pg_refcnt := c\<rparr>)"
  have f: "is_free (?P q) = is_free (pages s q)" "is_first (?P q) = is_first (pages s q)"
    "pg_order (?P q) = pg_order (pages s q)" for q by (auto simp: is_free_def is_first_def)
  have ch: "chain ?P x xs = chain (pages s) x xs" for x xs by (rule chain_upd_next) simp
  have ok: "page_ok (?P q) q = page_ok (pages s q) q" for q
    using f(1,2) [of q] a by (cases "q = p") (auto simp: page_ok_def)
  have "heads ?P = heads (pages s)" by (rule block_set_eqI) (simp only: mem_heads f)
  moreover have "lists_ok ?P (free_lists s) fl = lists_ok (pages s) (free_lists s) fl" for fl
    by (simp only: lists_ok_def f ch)
  moreover have "no_free_buddies ?P = no_free_buddies (pages s)" by (simp only: no_free_buddies_def f)
  ultimately show "buddy_inv (upd_page p (\<lambda>g. g\<lparr>pg_refcnt := c\<rparr>) s)"
    using inv ok by (simp add: buddy_inv_def binv_def upd_page_def del: fun_upd_apply)
  have "allocs ?P = allocs (pages s)" by (rule block_set_eqI) (simp only: mem_allocs f)
  then show "allocs (pages (upd_page p (\<lambda>g. g\<lparr>pg_refcnt := c\<rparr>) s)) = allocs (pages s)"
    by (simp add: upd_page_def)
qed

section \<open>Page look-ups\<close>

lemma page_find_address:
  "pg_index g < PAGE_NUM \<Longrightarrow> d < PAGE_SIZE \<Longrightarrow> page_find_by_address (page_address g + d) = Some (pg_index g)"
  by (simp add: page_find_by_address_def page_address_def Let_def PAGE_SIZE_def)

lemma partition_first_only:
  assumes "buddy_partition (heads P)" "(p, k) \<in> heads P" "q \<in> blk (p, k)" "is_first (P q) \<or> is_free (P q)"
  shows "q = p"
proof (rule ccontr)
  assume ne: "q \<noteq> p"
  have "q < PAGE_NUM" using assms(1-3) unfolding buddy_partition_def by blast
  then have "(q, pg_order (P q)) \<in> heads P" using assms(4) by auto
  moreover have "(q, pg_order (P q)) \<noteq> (p, k)" using ne by simp
  ultimately show False
    using assms(1-3) blk_nonempty [of q] unfolding buddy_partition_def by blast
qed

lemma find_head_from:
  assumes "\<forall>r. p < r \<and> r \<le> q \<longrightarrow> \<not> is_first (pages s r)" "is_first (pages s p)" "p \<le> q" "q < PAGE_NUM"
  shows "page_find_head_from q s = Some p"
  using assms
proof (induction q)
  case 0
  then show ?case by (simp add: is_first_def)
next
  case (Suc q)
  show ?case
  proof (cases "p = Suc q")
    case True
    then show ?thesis using Suc.prems by (simp add: is_first_def)
  next
    case False
    then have "page_find_head_from q s = Some p" using Suc by auto
    moreover have "\<not> is_first (pages s (Suc q))" using Suc.prems False by simp
    ultimately show ?thesis using Suc.prems by (simp add: is_first_def)
  qed
qed

lemma page_find_head_block:
  assumes inv: "buddy_inv s" and a: "(p, k) \<in> allocs (pages s)" and q: "q \<in> blk (p, k)"
  shows "page_find_head q s = Some p"
proof -
  have part: "buddy_partition (heads (pages s))" and pok: "\<And>r. r < PAGE_NUM \<Longrightarrow> page_ok (pages s r) r"
    using inv by (auto simp: buddy_inv_def binv_def)
  have h: "(p, k) \<in> heads (pages s)" using a by auto
  have lt: "q < PAGE_NUM" using part h q unfolding buddy_partition_def by blast
  have "\<not> is_first (pages s r)" if "p < r" "r \<le> q" for r
    using partition_first_only [OF part h, of r] that q by (auto simp: blk_def)
  then have "page_find_head_from q s = Some p"
    using find_head_from [of p q s] a q lt by (auto simp: blk_def simp del: page_find_head_from.simps)
  then show ?thesis using pok [OF lt] by (simp add: page_find_head_def page_ok_def del: page_find_head_from.simps)
qed

section \<open>Coalescing is complete\<close>

lemma all_free_max_order:
  assumes inv: "buddy_inv s" and e: "allocs (pages s) = {}" and h: "(p, k) \<in> heads (pages s)"
  shows "k = 10"
proof (rule ccontr)
  assume "k \<noteq> 10"
  have part: "buddy_partition (heads (pages s))" and nfb: "no_free_buddies (pages s)"
    using inv by (auto simp: buddy_inv_def binv_def)
  have nofirst: "\<not> is_first (pages s q)" if "q < PAGE_NUM" for q
    using e mem_allocs [of q "pg_order (pages s q)" "pages s"] that by auto
  have k10: "k < 10" using h part \<open>k \<noteq> 10\<close> unfolding buddy_partition_def by fastforce
  define m where "m = (LEAST k. \<exists>p. (p, k) \<in> heads (pages s))"
  obtain r where r: "(r, m) \<in> heads (pages s)"
    using LeastI_ex [of "\<lambda>k. \<exists>p. (p, k) \<in> heads (pages s)"] h unfolding m_def by blast
  have min: "m \<le> j" if "(q, j) \<in> heads (pages s)" for q j
    using that unfolding m_def by (intro Least_le) blast
  have m10: "m < 10" using min [OF h] k10 by simp
  have d: "2 ^ m dvd r" "r < PAGE_NUM" using part r unfolding buddy_partition_def by blast+
  have "buddy_of r m \<in> (\<Union>b \<in> heads (pages s). blk b)"
    using buddy_of_lt [OF d m10] part unfolding buddy_partition_def by blast
  then obtain q j where q: "(q, j) \<in> heads (pages s)" "buddy_of r m \<in> blk (q, j)" by fast
  have "(q, j) = (buddy_of r m, m)" using partition_buddy_present [OF part r m10 q min [OF q(1)]] .
  then have "is_free (pages s (buddy_of r m)) \<and> pg_order (pages s (buddy_of r m)) = m"
    using q(1) nofirst by auto
  moreover have "is_free (pages s r) \<and> pg_order (pages s r) = m" using r nofirst by auto
  ultimately show False using nfb d m10 unfolding no_free_buddies_def by blast
qed

section \<open>Initialisation\<close>

lemma init_chain:
  assumes "\<And>i. i < n \<Longrightarrow> pg_next (P (i * 1024)) = (if i < n - 1 then Some ((i + 1) * 1024) else None)" "i < n"
  shows "chain P (Some (i * 1024)) (map (\<lambda>i. i * 1024) [i..<n])"
  using assms(2)
proof (induction "n - i" arbitrary: i)
  case (Suc m)
  show ?case
  proof (cases "i < n - 1")
    case True
    then have "chain P (Some (Suc i * 1024)) (map (\<lambda>i. i * 1024) [Suc i..<n])"
      using Suc.hyps(1) [of "Suc i"] Suc.hyps(2) by auto
    then show ?thesis using True assms(1) [of i] by (simp add: upt_conv_Cons)
  next
    case False
    then have "n = Suc i" using Suc.prems by simp
    then show ?thesis using assms(1) [of i] by simp
  qed
qed simp

lemma init_heads_partition: "buddy_partition ((\<lambda>i. (i * 1024, 10)) ` {..<62})"
proof -
  have "blk (i * 1024, 10) \<inter> blk (j * 1024, 10) = {}" if "i \<noteq> j" for i j
    using that by (auto simp: blk_def)
  moreover have "(\<Union>i \<in> {..<62}. blk (i * 1024, 10)) = {..<PAGE_NUM}"
  proof (intro equalityI subsetI)
    fix x
    assume "x \<in> {..<PAGE_NUM}"
    then have "x div 1024 \<in> {..<62}" "x \<in> blk (x div 1024 * 1024, 10)"
      by (auto simp: PAGE_NUM_eq blk_def less_mult_imp_div_less)
    then show "x \<in> (\<Union>i \<in> {..<62}. blk (i * 1024, 10))" by blast
  qed (auto simp: PAGE_NUM_eq blk_def)
  ultimately show ?thesis unfolding buddy_partition_def by (auto simp: PAGE_NUM_eq)
qed

lemma buddy_init_inv:
  assumes k: "kend \<le> PAGE_START"
  shows "\<exists>s'. buddy_init kend s = Some s' \<and> buddy_inv s' \<and> allocs (pages s') = {} \<and>
    s' = s\<lparr>pages := pages s', free_lists := free_lists s'\<rparr>"
proof -
  obtain s' where s': "buddy_init kend s = Some s'" using k by (auto simp: buddy_init_def Let_def)
  have pg: "pages s' j = zero_page\<lparr>pg_index := j, pg_order := (if j mod 1024 = 0 then 10 else 0),
      pg_flags := (if j mod 1024 = 0 then PF_FREE_LIST else 0),
      pg_next := (if j mod 1024 = 0 \<and> j div 1024 < 61 then Some ((j div 1024 + 1) * 1024) else None)\<rparr>"
    if "j < PAGE_NUM" for j
    using s' k that by (auto simp: buddy_init_def Let_def PAGE_NUM_eq zero_page_def)
  have F: "free_lists s' k = (if k = 10 then Some 0 else None)" if "k \<le> 10" for k
    using s' k that by (auto simp: buddy_init_def Let_def)
  have fr: "is_free (pages s' j) \<longleftrightarrow> j mod 1024 = 0" "\<not> is_first (pages s' j)"
    "pg_order (pages s' j) = (if j mod 1024 = 0 then 10 else 0)" if "j < PAGE_NUM" for j
    using pg [OF that] by (auto simp: flags PF_FREE_LIST_def)
  define fl where "fl k = (if k = 10 then map (\<lambda>i. i * 1024) [0..<62] else [])" for k :: nat
  have multiple: "j mod 1024 = 0 \<and> j < PAGE_NUM \<longleftrightarrow> (\<exists>i<62. j = i * 1024)" for j
    by (auto simp: PAGE_NUM_eq)
  have "chain (pages s') (Some (0 * 1024)) (map (\<lambda>i. i * 1024) [0..<62])"
    by (rule init_chain) (auto simp: pg PAGE_NUM_eq)
  moreover have "x \<in> set (fl k) \<longleftrightarrow> x < PAGE_NUM \<and> is_free (pages s' x) \<and> pg_order (pages s' x) = k"
    if "k \<le> 10" for x k
    using multiple [of x] fr(1,3) [of x] by (cases "k = 10") (auto simp: fl_def image_iff)
  ultimately have "lists_ok (pages s') (free_lists s') fl"
    unfolding lists_ok_def by (intro allI impI conjI set_eqI) (auto simp: F fl_def distinct_map inj_on_def)
  moreover have "page_ok (pages s' p) p" if "p < PAGE_NUM" for p
    using fr(1,2) [OF that] pg [OF that] by (auto simp: page_ok_def zero_page_def)
  moreover have "heads (pages s') = (\<lambda>i. (i * 1024, 10)) ` {..<62}"
  proof (rule block_set_eqI)
    show "(p, k) \<in> heads (pages s') \<longleftrightarrow> (p, k) \<in> (\<lambda>i. (i * 1024, 10)) ` {..<62}" for p k
      using multiple [of p] fr [of p] by (auto simp: image_iff)
  qed
  moreover have "no_free_buddies (pages s')"
    by (auto simp: no_free_buddies_def fr)
  ultimately have "buddy_inv s'"
    using init_heads_partition by (auto simp: buddy_inv_def binv_def)
  moreover have "allocs (pages s') = {}" by (rule block_set_eqI) (auto simp: fr)
  moreover have "s' = s\<lparr>pages := pages s', free_lists := free_lists s'\<rparr>"
    using s' k by (auto simp: buddy_init_def Let_def)
  ultimately show ?thesis using s' by blast
qed

section \<open>The contract of an allocator\<close>

text \<open>
  What the clients of an allocator rely on: an allocation that returns hands out something that was
  not live, and freeing something live returns and makes it not live. The lemmas of the locale lift
  this to any number of calls.
\<close>

fun alloc_many :: "('s \<Rightarrow> ('p \<times> 's) option) \<Rightarrow> nat \<Rightarrow> 's \<Rightarrow> ('p list \<times> 's) option" where
  "alloc_many alloc 0 s = Some ([], s)"
| "alloc_many alloc (Suc n) s = do {
     (p, s) \<leftarrow> alloc s;
     (ps, s) \<leftarrow> alloc_many alloc n s;
     Some (p # ps, s)
   }"

fun free_many :: "('p \<Rightarrow> 's \<Rightarrow> 's option) \<Rightarrow> 'p list \<Rightarrow> 's \<Rightarrow> 's option" where
  "free_many free [] s = Some s"
| "free_many free (p # ps) s = do { s \<leftarrow> free p s; free_many free ps s }"

locale allocator =
  fixes inv :: "'s \<Rightarrow> bool" and live :: "'s \<Rightarrow> 'p set"
    and alloc :: "'s \<Rightarrow> ('p \<times> 's) option" and free :: "'p \<Rightarrow> 's \<Rightarrow> 's option"
  assumes alloc_fresh: "inv s \<Longrightarrow> alloc s = Some (p, s') \<Longrightarrow> inv s' \<and> p \<notin> live s \<and> live s' = insert p (live s)"
    and free_live: "inv s \<Longrightarrow> p \<in> live s \<Longrightarrow> \<exists>s'. free p s = Some s' \<and> inv s' \<and> live s' = live s - {p}"
begin

lemma alloc_many_fresh:
  "inv s \<Longrightarrow> alloc_many alloc n s = Some (ps, s') \<Longrightarrow>
   inv s' \<and> distinct ps \<and> length ps = n \<and> set ps \<inter> live s = {} \<and> live s' = set ps \<union> live s"
proof (induction n arbitrary: s ps)
  case (Suc n)
  obtain p t qs where 1: "alloc s = Some (p, t)" "alloc_many alloc n t = Some (qs, s')" "ps = p # qs"
    using Suc.prems(2) by auto
  have "inv t" "p \<notin> live s" "live t = insert p (live s)" using alloc_fresh [OF Suc.prems(1) 1(1)] by auto
  then show ?case using Suc.IH [OF _ 1(2)] 1(3) by auto
qed simp

lemma free_many_returns:
  "inv s \<Longrightarrow> distinct ps \<Longrightarrow> set ps \<subseteq> live s \<Longrightarrow>
   \<exists>s'. free_many free ps s = Some s' \<and> inv s' \<and> live s' = live s - set ps"
proof (induction ps arbitrary: s)
  case (Cons p ps)
  obtain t where t: "free p s = Some t" "inv t" "live t = live s - {p}"
    using free_live [OF Cons.prems(1), of p] Cons.prems(3) by auto
  then obtain s' where "free_many free ps t = Some s'" "inv s'" "live s' = live t - set ps"
    using Cons.IH [OF t(2)] Cons.prems(2,3) by auto
  then show ?case using t by auto
qed simp

text \<open>Everything a client allocated can be freed again, in any order, and nothing else is affected.\<close>

lemma alloc_free_roundtrip:
  assumes "inv s" "alloc_many alloc n s = Some (ps, s')" "distinct qs" "set qs = set ps"
  shows "\<exists>t. free_many free qs s' = Some t \<and> inv t \<and> live t = live s"
proof -
  note a = alloc_many_fresh [OF assms(1,2)]
  have "live s' - set qs = live s" using a assms(4) by auto
  then show ?thesis using free_many_returns [of s' qs] a assms(3,4) by auto
qed

end

definition page_inv :: "'a buddy_scheme \<Rightarrow> bool" where
  "page_inv s \<longleftrightarrow> buddy_inv s \<and> L_buddy \<notin> held s \<and> L_pages_ref \<notin> held s \<and>
     (\<forall>(p, k) \<in> allocs (pages s). pg_refcnt (pages s p) \<le> 1)"

definition live_pages :: "'a buddy_scheme \<Rightarrow> nat set" where
  "live_pages s = (\<lambda>p. PAGE_START + PAGE_SIZE * p) ` fst ` allocs (pages s)"

lemma inj_page_number: "inj (\<lambda>p. PAGE_START + PAGE_SIZE * p)"
  by (simp add: inj_def PAGE_SIZE_def)

lemma fst_allocs_remove:
  assumes "(p, k) \<in> allocs P"
  shows "fst ` (allocs P - {(p, k)}) = fst ` allocs P - {p}"
proof (intro equalityI subsetI)
  show "x \<in> fst ` allocs P - {p}" if "x \<in> fst ` (allocs P - {(p, k)})" for x
    using that assms by auto
  show "x \<in> fst ` (allocs P - {(p, k)})" if "x \<in> fst ` allocs P - {p}" for x
    using that by (auto intro!: image_eqI [of x fst "(x, pg_order (P x))"])
qed

lemma buddy_upd_held: "s' = s\<lparr>pages := P, free_lists := F\<rparr> \<Longrightarrow> held s' = held s"
  by simp

lemma alloc_post_new: "alloc_post k s p s' \<Longrightarrow> p \<notin> fst ` allocs (pages s)"
proof
  assume a: "alloc_post k s p s'" and "p \<in> fst ` allocs (pages s)"
  then obtain j where "(p, j) \<in> allocs (pages s)" by (auto simp del: mem_allocs)
  then have "blk (p, j) \<inter> blk (p, k) = {}" using a unfolding alloc_post_def by blast
  then show False using blk_nonempty by blast
qed

lemma kfree_address: "p < PAGE_NUM \<Longrightarrow> kfree (PAGE_START + PAGE_SIZE * p) s = buddy_free p s"
  using page_find_address [of "zero_page\<lparr>pg_index := p\<rparr>" 0] by (simp add: kfree_def page_address_def PAGE_SIZE_def)

lemma find_order_0_page: "find_order 0 PAGE_SIZE = Some 0"
  by (simp add: PAGE_SIZE_def)

interpretation kpage: allocator page_inv live_pages kalloc kfree
proof
  fix s :: "'a buddy_scheme" and a s'
  assume inv: "page_inv s" and al: "kalloc s = Some (a, s')"
  obtain p where p: "buddy_alloc PAGE_SIZE s = Some (p, s')" "a = page_address (pages s' p)"
    using al by (auto simp: kalloc_def)
  have "alloc_post 0 s p s'"
    using buddy_alloc_cases [OF _ _ _ find_order_0_page, of s] inv p by (auto simp: page_inv_def split: if_splits)
  note ap = this [unfolded alloc_post_def] and new = alloc_post_new [OF this]
  have hs: "held s' = held s" using ap buddy_upd_held by blast
  have "a = PAGE_START + PAGE_SIZE * p" using ap p(2) by (simp only: page_address_def)
  moreover have "pg_refcnt (pages s' q) \<le> 1" if "(q, j) \<in> allocs (pages s')" for q j
  proof (cases "q = p")
    case True
    then show ?thesis using ap by (simp only: order_refl)
  next
    case False
    have "(q, j) \<in> allocs (pages s)" using that ap False by blast
    then have "pg_refcnt (pages s q) \<le> 1" using inv unfolding page_inv_def by blast
    moreover have "pg_refcnt (pages s' q) = pg_refcnt (pages s q)" using ap False by blast
    ultimately show ?thesis by (simp only:)
  qed
  then have "page_inv s'" using inv ap hs unfolding page_inv_def by blast
  moreover have "live_pages s' = insert (PAGE_START + PAGE_SIZE * p) (live_pages s)"
    using ap by (auto simp only: live_pages_def image_insert fst_conv)
  moreover have "PAGE_START + PAGE_SIZE * p \<notin> live_pages s"
    unfolding live_pages_def using new inj_image_mem_iff [OF inj_page_number] by blast
  ultimately show "page_inv s' \<and> a \<notin> live_pages s \<and> live_pages s' = insert a (live_pages s)" by simp
next
  fix s :: "'a buddy_scheme" and a
  assume inv: "page_inv s" and a: "a \<in> live_pages s"
  then obtain p k where p: "(p, k) \<in> allocs (pages s)" "a = PAGE_START + PAGE_SIZE * p"
    by (auto simp: live_pages_def simp del: mem_allocs)
  have "pg_refcnt (pages s p) \<le> 1" using inv p(1) unfolding page_inv_def by blast
  then obtain s' where s': "buddy_free p s = Some s'" "free_post (p, k) s s'"
    using buddy_free_last [of s p k] inv p(1) unfolding page_inv_def by blast
  note fp = s'(2) [unfolded free_post_def]
  have "kfree a s = Some s'" using s'(1) p kfree_address [of p s] by simp
  moreover have "page_inv s'"
  proof -
    have "held s' = held s" using fp buddy_upd_held by blast
    moreover have "pg_refcnt (pages s' q) \<le> 1" if "(q, j) \<in> allocs (pages s')" for q j
    proof -
      have "(q, j) \<in> allocs (pages s)" using fp that by blast
      then have "pg_refcnt (pages s q) \<le> 1" using inv unfolding page_inv_def by blast
      moreover have "pg_refcnt (pages s' q) = pg_refcnt (pages s q)" using fp by blast
      ultimately show ?thesis by (simp only:)
    qed
    ultimately show ?thesis using inv fp unfolding page_inv_def by auto
  qed
  moreover have "live_pages s' = live_pages s - {a}"
  proof -
    have "fst ` allocs (pages s') = fst ` allocs (pages s) - {p}" using fp fst_allocs_remove [OF p(1)] by metis
    then show ?thesis
      using p(2) image_set_diff [OF inj_page_number, of "fst ` allocs (pages s)" "{p}"]
      by (simp only: live_pages_def image_insert image_empty)
  qed
  ultimately show "\<exists>s'. kfree a s = Some s' \<and> page_inv s' \<and> live_pages s' = live_pages s - {a}" by blast
qed

section \<open>Properties of the page allocator\<close>

text \<open>The allocator as it is after boot, for the concrete instances below.\<close>

definition cold :: buddy where
  "cold = \<lparr>held = {}, woken = [], pages = (\<lambda>_. zero_page), free_lists = (\<lambda>_. None)\<rparr>"

definition booted :: buddy where
  "booted = the (buddy_init 0x80400000 cold)"

lemma booted_props:
  "buddy_init 0x80400000 cold = Some booted" "buddy_inv booted" "allocs (pages booted) = {}" "held booted = {}"
  "is_free (pages booted 0)" "pg_order (pages booted 0) = 10"
proof -
  have "(0x80400000::nat) \<le> PAGE_START" by (simp add: PAGE_START_def)
  from buddy_init_inv [OF this, of cold] obtain s where s: "buddy_init 0x80400000 cold = Some s" "buddy_inv s"
    "allocs (pages s) = {}" "s = cold\<lparr>pages := pages s, free_lists := free_lists s\<rparr>" by blast
  have b: "booted = s" using s(1) by (simp add: booted_def)
  show "buddy_init 0x80400000 cold = Some booted" "buddy_inv booted" "allocs (pages booted) = {}"
    using s(1-3) b by simp_all
  show "held booted = {}" using buddy_upd_held [OF s(4)] b by (simp add: cold_def)
  show "is_free (pages booted 0)" "pg_order (pages booted 0) = 10"
    by (simp_all add: booted_def buddy_init_def PAGE_START_def PAGE_NUM_eq is_free_def PF_FREE_LIST_def zero_page_def
        Let_def)
qed

lemma find_order_free:
  "(\<exists>q < PAGE_NUM. is_free (P q) \<and> pg_order (P q) \<le> 10 \<and> sz \<le> 2 ^ pg_order (P q) * PAGE_SIZE) \<longleftrightarrow>
   (\<exists>k. find_order 0 sz = Some k \<and> (\<exists>q < PAGE_NUM. is_free (P q) \<and> pg_order (P q) \<le> 10 \<and> k \<le> pg_order (P q)))"
proof -
  have mono: "sz \<le> 2 ^ j * PAGE_SIZE" if "sz \<le> 2 ^ k * PAGE_SIZE" "k \<le> j" for k j
  proof -
    have "(2::nat) ^ k \<le> 2 ^ j" using that(2) by (rule power_increasing) simp
    then show ?thesis using that(1) by (meson le_trans mult_le_mono1)
  qed
  have "sz \<le> 2 ^ (LEAST k. sz \<le> 2 ^ k * PAGE_SIZE) * PAGE_SIZE" if "sz \<le> 2 ^ k * PAGE_SIZE" for k
    using that by (rule LeastI)
  then show ?thesis
    unfolding find_order_eq by (auto intro: mono Least_le split: if_splits)
qed

lemma find_order_SomeD:
  assumes "find_order 0 sz = Some k"
  shows "k \<le> 10" "sz \<le> 2 ^ k * PAGE_SIZE" "\<forall>j < k. 2 ^ j * PAGE_SIZE < sz"
proof -
  obtain j where j: "j \<le> 10" "sz \<le> 2 ^ j * PAGE_SIZE" "k = (LEAST k. sz \<le> 2 ^ k * PAGE_SIZE)"
    using assms unfolding find_order_eq by (auto split: if_splits)
  show "k \<le> 10" using j Least_le [of "\<lambda>k. sz \<le> 2 ^ k * PAGE_SIZE" j] by simp
  show "sz \<le> 2 ^ k * PAGE_SIZE" unfolding j(3) using j(2) by (rule LeastI)
  show "\<forall>j < k. 2 ^ j * PAGE_SIZE < sz" unfolding j(3) using not_less_Least not_le by blast
qed

lemma buddy_alloc_spec:
  assumes "buddy_inv s" "L_buddy \<notin> held s" "L_pages_ref \<notin> held s"
  shows "if \<exists>q < PAGE_NUM. is_free (pages s q) \<and> sz \<le> 2 ^ pg_order (pages s q) * PAGE_SIZE
         then \<exists>p k s'. buddy_alloc sz s = Some (p, s') \<and> alloc_post k s p s' \<and>
                sz \<le> 2 ^ k * PAGE_SIZE \<and> (\<forall>j < k. 2 ^ j * PAGE_SIZE < sz)
         else buddy_alloc sz s = None"
proof -
  obtain fl where fl: "binv (pages s) (free_lists s) fl {}" using assms(1) by (auto simp: buddy_inv_def)
  have o: "pg_order (pages s q) \<le> 10" if "q < PAGE_NUM" "is_free (pages s q)" for q
    using free_facts(1) [OF fl that] .
  have iff: "(\<exists>q < PAGE_NUM. is_free (pages s q) \<and> sz \<le> 2 ^ pg_order (pages s q) * PAGE_SIZE) \<longleftrightarrow>
      (\<exists>k. find_order 0 sz = Some k \<and> free_from k (pages s))"
    using find_order_free [of "pages s" sz] o unfolding free_from_def by blast
  show ?thesis
  proof (cases "find_order 0 sz")
    case None
    then show ?thesis using iff buddy_alloc_None [OF assms(2)] by simp
  next
    case (Some k)
    note fo = find_order_SomeD [OF Some] and cs = buddy_alloc_cases [OF assms Some]
    show ?thesis
    proof (cases "free_from k (pages s)")
      case True
      then have "\<exists>q < PAGE_NUM. is_free (pages s q) \<and> sz \<le> 2 ^ pg_order (pages s q) * PAGE_SIZE" using iff Some by blast
      then show ?thesis using cs fo True unfolding if_P [OF True] by (subst if_P) blast+
    next
      case False
      then show ?thesis using cs iff Some by (simp del: find_order.simps)
    qed
  qed
qed

text \<open>
  C1: On a consistent allocator with its locks free, \<^verbatim>\<open>buddy_alloc\<close> returns a block exactly when some
  free block is large enough, and panics otherwise. The block has the least order that holds the
  size, is disjoint from every block handed out before, its first page has reference count 1, the
  other counts are unchanged, and the allocator stays consistent.
\<close>

theorem buddy_alloc_correct:
  assumes "buddy_inv s" "L_buddy \<notin> held s" "L_pages_ref \<notin> held s"
  shows "if \<exists>q < PAGE_NUM. is_free (pages s q) \<and> sz \<le> 2 ^ pg_order (pages s q) * PAGE_SIZE
         then \<exists>p k s'. buddy_alloc sz s = Some (p, s') \<and> alloc_post k s p s' \<and>
                sz \<le> 2 ^ k * PAGE_SIZE \<and> (\<forall>j < k. 2 ^ j * PAGE_SIZE < sz)
         else buddy_alloc sz s = None"
  using buddy_alloc_spec [OF assms] .

theorem buddy_alloc_correct_witness:
  "\<exists>p k s'. buddy_alloc 5000 booted = Some (p, s') \<and> alloc_post k booted p s' \<and> 5000 \<le> 2 ^ k * PAGE_SIZE"
proof -
  have "\<exists>q < PAGE_NUM. is_free (pages booted q) \<and> 5000 \<le> 2 ^ pg_order (pages booted q) * PAGE_SIZE"
    using booted_props(5,6) by (intro exI [of _ 0]) (simp add: PAGE_NUM_eq PAGE_SIZE_def)
  then show ?thesis using buddy_alloc_correct [of booted 5000] booted_props(2,4) by auto
qed

lemma booted_alloc_5000:
  "\<exists>p s. buddy_alloc 5000 booted = Some (p, s) \<and> alloc_post 1 booted p s \<and> held s = {}"
proof -
  have fo: "find_order 0 5000 = Some 1" by (simp add: PAGE_SIZE_def)
  have "free_from 1 (pages booted)"
    using booted_props(5,6) by (auto simp: free_from_def PAGE_NUM_eq intro!: exI [of _ 0])
  then obtain p s where s: "buddy_alloc 5000 booted = Some (p, s)" "alloc_post 1 booted p s"
    using buddy_alloc_cases [OF booted_props(2) _ _ fo] booted_props(4) by auto
  moreover have "held s = {}" using s(2) buddy_upd_held booted_props(4) unfolding alloc_post_def by metis
  ultimately show ?thesis by blast
qed

text \<open>
  C2: Freeing a block that was handed out always returns. With other references left only its count
  drops by one; freeing the last reference takes exactly that block off the allocated ones, merges it
  with its buddies as far as possible and keeps the allocator consistent.
\<close>

theorem buddy_free_correct:
  assumes "buddy_inv s" "L_buddy \<notin> held s" "L_pages_ref \<notin> held s" "(p, k) \<in> allocs (pages s)"
  shows "\<exists>s'. buddy_free p s = Some s' \<and>
    (if pg_refcnt (pages s p) \<le> 1 then free_post (p, k) s s'
     else buddy_inv s' \<and> allocs (pages s') = allocs (pages s) \<and> pg_refcnt (pages s' p) = pg_refcnt (pages s p) - 1)"
proof (cases "pg_refcnt (pages s p) \<le> 1")
  case True
  then show ?thesis using buddy_free_last [OF assms] by simp
next
  case False
  have "is_first (pages s p)" using assms(4) by simp
  note r = buddy_inv_refcnt [OF assms(1) this, of "pg_refcnt (pages s p) - 1"]
  have "buddy_free p s = Some (upd_page p (\<lambda>g. g\<lparr>pg_refcnt := pg_refcnt (pages s p) - 1\<rparr>) s)"
    using buddy_free_shared [OF assms(3), of p] False by (simp add: upd_page_def)
  then show ?thesis using r False by (simp add: upd_page_def)
qed

theorem buddy_free_correct_witness:
  "\<exists>p k s s'. buddy_alloc 5000 booted = Some (p, s) \<and> buddy_free p s = Some s' \<and> free_post (p, k) s s'"
proof -
  obtain p s where s: "buddy_alloc 5000 booted = Some (p, s)" "alloc_post 1 booted p s" "held s = {}"
    using booted_alloc_5000 by blast
  have a: "(p, 1) \<in> allocs (pages s)" "buddy_inv s" "pg_refcnt (pages s p) \<le> 1"
    using s(2) by (auto simp: alloc_post_def simp del: mem_allocs)
  then obtain s' where "buddy_free p s = Some s'" "free_post (p, 1) s s'"
    using buddy_free_correct [OF a(2) _ _ a(1)] s(3) by auto
  then show ?thesis using s(1) by blast
qed

text \<open>
  C27: Initialisation returns when the kernel image ends below the page area, and leaves a consistent
  allocator in which nothing is allocated and every block has the largest order.
\<close>

theorem buddy_init_correct:
  assumes "kend \<le> PAGE_START"
  shows "\<exists>s'. buddy_init kend s = Some s' \<and> buddy_inv s' \<and> allocs (pages s') = {} \<and>
    (\<forall>(p, k) \<in> heads (pages s'). k = PAGE_MAX_ORDER)"
  using buddy_init_inv [OF assms, of s] all_free_max_order by fastforce

theorem buddy_init_correct_witness:
  "\<exists>s'. buddy_init 0x80400000 cold = Some s' \<and> buddy_inv s' \<and> allocs (pages s') = {}"
  using buddy_init_correct [of "0x80400000" cold] by (auto simp: PAGE_START_def)

text \<open>
  Coalescing is complete: whatever the order of the calls was, once every block has been freed
  the free memory consists of blocks of the largest order only.
\<close>

theorem buddy_coalesce_complete:
  assumes "buddy_inv s" "allocs (pages s) = {}" "p < PAGE_NUM" "is_free (pages s p)"
  shows "pg_order (pages s p) = PAGE_MAX_ORDER"
  using all_free_max_order [OF assms(1,2), of p "pg_order (pages s p)"] assms(3,4) by simp

theorem buddy_coalesce_complete_witness: "pg_order (pages booted 0) = PAGE_MAX_ORDER"
  by (rule buddy_coalesce_complete) (use booted_props in \<open>simp_all add: PAGE_NUM_eq\<close>)

text \<open>
  C26: Any number of pages from \<^verbatim>\<open>kalloc\<close> are pairwise distinct and distinct from the pages handed
  out before, and they can be given back with \<^verbatim>\<open>kfree\<close> in any order, after which exactly the
  earlier pages are live again.
\<close>

theorem kalloc_kfree_roundtrip:
  assumes "page_inv s" "alloc_many kalloc n s = Some (ps, s')" "distinct qs" "set qs = set ps"
  shows "distinct ps \<and> length ps = n \<and> set ps \<inter> live_pages s = {} \<and>
    (\<exists>t. free_many kfree qs s' = Some t \<and> page_inv t \<and> live_pages t = live_pages s)"
  using kpage.alloc_many_fresh [OF assms(1,2)] kpage.alloc_free_roundtrip [OF assms] by simp

lemma booted_page_inv: "page_inv booted"
  using booted_props by (simp add: page_inv_def)

theorem kalloc_kfree_roundtrip_witness:
  "\<exists>a s t. alloc_many kalloc 1 booted = Some ([a], s) \<and> free_many kfree [a] s = Some t \<and> live_pages t = live_pages booted"
proof -
  have "free_from 0 (pages booted)"
    using booted_props(5) by (auto simp: free_from_def PAGE_NUM_eq intro!: exI [of _ 0])
  then obtain p s where s: "buddy_alloc PAGE_SIZE booted = Some (p, s)"
    using buddy_alloc_cases [OF booted_props(2) _ _ find_order_0_page] booted_props(4) by auto
  then have "alloc_many kalloc 1 booted = Some ([page_address (pages s p)], s)"
    by (simp add: kalloc_def)
  with kalloc_kfree_roundtrip [OF booted_page_inv this, of "[page_address (pages s p)]"] show ?thesis by auto
qed

text \<open>
  The page structure of an address inside a page is that page, and the first page of the block a
  page belongs to is found from any page of the block.
\<close>

theorem page_lookup_correct:
  assumes "buddy_inv s" "(p, k) \<in> allocs (pages s)" "q \<in> blk (p, k)" "d < PAGE_SIZE"
  shows "page_find_by_address (page_address (pages s q) + d) = Some q \<and> page_find_head q s = Some p"
proof -
  have "(p, k) \<in> heads (pages s)" using assms(2) by auto
  then have "q < PAGE_NUM" using assms(1,3) unfolding buddy_inv_def binv_def buddy_partition_def by blast
  moreover from this have "pg_index (pages s q) = q" using assms(1) by (auto simp: buddy_inv_def binv_def page_ok_def)
  ultimately show ?thesis
    using page_find_address [of "pages s q" d] page_find_head_block [OF assms(1-3)] assms(4) by simp
qed

theorem page_lookup_correct_witness:
  "\<exists>p s. buddy_alloc 5000 booted = Some (p, s) \<and> page_find_head (p + 1) s = Some p"
proof -
  obtain p s where s: "buddy_alloc 5000 booted = Some (p, s)" "alloc_post 1 booted p s"
    using booted_alloc_5000 by blast
  then have "(p, 1) \<in> allocs (pages s)" "buddy_inv s" by (auto simp: alloc_post_def simp del: mem_allocs)
  moreover have "p + 1 \<in> blk (p, 1)" by (simp add: blk_def)
  ultimately have "page_find_head (p + 1) s = Some p"
    using page_lookup_correct [of s p 1 "p + 1" 0] by (simp add: PAGE_SIZE_def)
  then show ?thesis using s(1) by blast
qed

end
