(* ===== verification/Slab.thy ===== *)
theory Slab
  imports Buddy_Free
begin

text \<open>
  The slab allocator, \<^verbatim>\<open>kernel/slab.c\<close>. Slab headers and caches are named by their addresses, a null
  pointer is \<^term>\<open>None\<close>; the cursor \<^verbatim>\<open>header->free\<close> is the index of the array element it points to.
\<close>

unbundle bit_operations_syntax

section \<open>Data\<close>

record slab_header =
  sh_next :: "nat option"
  sh_free :: nat
  sh_object :: nat
  sh_list :: "nat \<Rightarrow> u32"

record slab_cache =
  sc_name :: string
  sc_next :: "nat option"
  sc_slab_size :: u32
  sc_object_size :: u32
  sc_alignment :: u32
  slabs_full :: "nat option"
  slabs_partial :: "nat option"

record slab = buddy +
  slabs :: "nat \<Rightarrow> slab_header"
  caches :: "nat \<Rightarrow> slab_cache"
  slab_size_limits :: "nat \<Rightarrow> u32"
  free_cache_head :: "nat option"

definition MAX_SLAB_NAME :: nat where "MAX_SLAB_NAME = 32"
definition SLAB_FREE_END :: u32 where "SLAB_FREE_END = - 1"
definition sizeof_slab_header :: nat where "sizeof_slab_header = 24"
definition SLAB_HEADER_SIZE :: nat where "SLAB_HEADER_SIZE = sizeof_slab_header + 4"
definition sizeof_slab_cache :: nat where "sizeof_slab_cache = 96"

definition upd_slab :: "nat \<Rightarrow> (slab_header \<Rightarrow> slab_header) \<Rightarrow> 'a slab_scheme \<Rightarrow> 'a slab_scheme" where
  "upd_slab h f s = s\<lparr>slabs := (slabs s)(h := f (slabs s h))\<rparr>"

definition upd_cache :: "nat \<Rightarrow> (slab_cache \<Rightarrow> slab_cache) \<Rightarrow> 'a slab_scheme \<Rightarrow> 'a slab_scheme" where
  "upd_cache c f s = s\<lparr>caches := (caches s)(c := f (caches s c))\<rparr>"

section \<open>Operations\<close>

text \<open>\<^verbatim>\<open>SLAB_HEADER_SIZE\<close> is a \<^verbatim>\<open>size_t\<close>, so the quotient is taken on 64 bits and then truncated.\<close>

definition slab_max_object_num :: "slab_cache \<Rightarrow> u32" where
  "slab_max_object_num c =
     ucast ((ucast (sc_slab_size c) - of_nat SLAB_HEADER_SIZE - ucast (sc_alignment c) :: u64)
            div (ucast (sc_object_size c) + 4))"

text \<open>The mask \<^verbatim>\<open>~(alignment - 1)\<close> is computed on 32 bits and then zero-extended.\<close>

definition align_object :: "u32 \<Rightarrow> nat \<Rightarrow> nat" where
  "align_object al a = unat ((of_nat a + ucast (al - 1) :: u64) AND ucast (NOT (al - 1)))"

definition slab_new :: "slab_cache \<Rightarrow> 'a slab_scheme \<Rightarrow> (nat \<times> 'a slab_scheme) option" where
  "slab_new c s = do {
     let n = unat (slab_max_object_num c);
     (p, s) \<leftarrow> buddy_alloc (unat (sc_slab_size c)) s;
     let h = page_address (pages s p);
     let object = h + sizeof_slab_header + 4 * (n + 1);
     let object = (if sc_alignment c \<noteq> 0 then align_object (sc_alignment c) object else object);
     let lst = (\<lambda>i. if i < n then of_nat (i + 1) else if i = n then SLAB_FREE_END else sh_list (slabs s h) i);
     Some (h, upd_slab h (\<lambda>_. \<lparr>sh_next = None, sh_free = 0, sh_object = object, sh_list = lst\<rparr>) s)
   }"

definition zero_cache :: slab_cache where
  "zero_cache = \<lparr>sc_name = [], sc_next = None, sc_slab_size = 0, sc_object_size = 0, sc_alignment = 0,
     slabs_full = None, slabs_partial = None\<rparr>"

text \<open>A fresh page becomes an array of free cache structures, linked in address order.\<close>

definition carve_caches :: "nat \<Rightarrow> (nat \<Rightarrow> slab_cache) \<Rightarrow> nat \<Rightarrow> slab_cache" where
  "carve_caches a cs =
     fold (\<lambda>i cs. cs(a + sizeof_slab_cache * i := zero_cache\<lparr>sc_next :=
             (if i < PAGE_SIZE div sizeof_slab_cache - 1 then Some (a + sizeof_slab_cache * (i + 1)) else None)\<rparr>))
       [0..<PAGE_SIZE div sizeof_slab_cache] cs"

definition slab_cache_new :: "'a slab_scheme \<Rightarrow> (nat \<times> 'a slab_scheme) option" where
  "slab_cache_new s = do {
     s \<leftarrow> (case free_cache_head s of
             Some _ \<Rightarrow> Some s
           | None \<Rightarrow> do {
               (p, s) \<leftarrow> buddy_alloc PAGE_SIZE s;
               let a = page_address (pages s p);
               Some (s\<lparr>caches := carve_caches a (caches s), free_cache_head := Some a\<rparr>)
             });
     c \<leftarrow> free_cache_head s;
     let s = s\<lparr>free_cache_head := sc_next (caches s c)\<rparr>;
     Some (c, upd_cache c (\<lambda>x. x\<lparr>sc_next := None\<rparr>) s)
   }"

definition slab_cache_delete :: "nat \<Rightarrow> 'a slab_scheme \<Rightarrow> 'a slab_scheme" where
  "slab_cache_delete c s =
     (let s = upd_cache c (\<lambda>_. zero_cache) s;
          s = upd_cache c (\<lambda>x. x\<lparr>sc_next := free_cache_head s\<rparr>) s
      in s\<lparr>free_cache_head := Some c\<rparr>)"

definition slab_size_limit :: "nat \<Rightarrow> u32" where
  "slab_size_limit i = of_nat ((PAGE_SIZE * 2 ^ i) div 9) - of_nat (SLAB_HEADER_SIZE div 8 + 1) - 4"

definition slab_cache_init :: "'a slab_scheme \<Rightarrow> 'a slab_scheme" where
  "slab_cache_init s = s\<lparr>
     slab_size_limits := (\<lambda>i. if i < PAGE_MAX_DEPTH then slab_size_limit i else slab_size_limits s i),
     free_cache_head := None\<rparr>"

text \<open>The effect of \<^verbatim>\<open>safestrcpy(dst, src, n)\<close> on the string a character array holds.\<close>

definition safestrcpy_str :: "string \<Rightarrow> string \<Rightarrow> nat \<Rightarrow> string" where
  "safestrcpy_str old src n = (if n = 0 then old else take (n - 1) src)"

fun find_slab_size :: "nat \<Rightarrow> u32 \<Rightarrow> (nat \<Rightarrow> u32) \<Rightarrow> u32 option" where
  "find_slab_size 0 osz lim = None"
| "find_slab_size (Suc n) osz lim =
     (let i = PAGE_MAX_DEPTH - Suc n
      in if osz \<le> lim i then Some (of_nat (PAGE_SIZE * 2 ^ i)) else find_slab_size n osz lim)"

definition slab_cache_create ::
    "string \<Rightarrow> u32 \<Rightarrow> u32 \<Rightarrow> 'a slab_scheme \<Rightarrow> (nat option \<times> 'a slab_scheme) option" where
  "slab_cache_create name sz alignment s =
     (if sz = 0 then Some (None, s)
      else if length name \<ge> MAX_SLAB_NAME then Some (None, s)
      else do {
        s \<leftarrow> k_acquire L_slab s;
        (c, s) \<leftarrow> slab_cache_new s;
        s \<leftarrow> k_release L_slab s;
        let s = upd_cache c (\<lambda>x. x\<lparr>sc_name := safestrcpy_str (sc_name x) name (length name)\<rparr>) s;
        let align = (if alignment \<noteq> 0 then alignment else 4);
        let s = upd_cache c (\<lambda>x. x\<lparr>sc_object_size := (sz + align - 1) AND NOT (align - 1),
                                    sc_alignment := alignment\<rparr>) s;
        let s = (case find_slab_size PAGE_MAX_DEPTH (sc_object_size (caches s c)) (slab_size_limits s) of
                   Some v \<Rightarrow> upd_cache c (\<lambda>x. x\<lparr>sc_slab_size := v\<rparr>) s
                 | None \<Rightarrow> s);
        if sc_slab_size (caches s c) = 0 then Some (None, s) else Some (Some c, s)
      })"

text \<open>The two loops of \<^verbatim>\<open>slab_cache_destroy\<close>; the next header is read before the slab is freed.\<close>

partial_function (option) free_slabs :: "nat option \<Rightarrow> 'a slab_scheme \<Rightarrow> 'a slab_scheme option" where
  "free_slabs header s =
     (case header of
        None \<Rightarrow> Some s
      | Some h \<Rightarrow> do {
          let next_header = sh_next (slabs s h);
          p \<leftarrow> page_find_by_address h;
          s \<leftarrow> buddy_free p s;
          free_slabs next_header s
        })"

definition slab_cache_destroy :: "nat \<Rightarrow> 'a slab_scheme \<Rightarrow> 'a slab_scheme option" where
  "slab_cache_destroy c s = do {
     s \<leftarrow> k_acquire L_slab s;
     s \<leftarrow> free_slabs (slabs_full (caches s c)) s;
     s \<leftarrow> free_slabs (slabs_partial (caches s c)) s;
     let s = slab_cache_delete c s;
     k_release L_slab s
   }"

text \<open>
  Steps 4 and 5 of \<^verbatim>\<open>slab_cache_alloc\<close>: unlink the first free object of the slab, and move the slab to
  the full list when that was the last one.
\<close>

definition slab_take :: "nat \<Rightarrow> nat \<Rightarrow> 'a slab_scheme \<Rightarrow> nat \<times> 'a slab_scheme" where
  "slab_take c h s =
     (let index = sh_free (slabs s h);
          next_index = unat (sh_list (slabs s h) index);
          s = upd_slab h (\<lambda>x. x\<lparr>sh_list := (sh_list x)(index := SLAB_FREE_END)\<rparr>) s;
          s = upd_slab h (\<lambda>x. x\<lparr>sh_free := next_index\<rparr>) s;
          s = (if sh_list (slabs s h) (sh_free (slabs s h)) = SLAB_FREE_END then
                 (let s = upd_cache c (\<lambda>x. x\<lparr>slabs_partial := sh_next (slabs s h)\<rparr>) s;
                      s = (case slabs_full (caches s c) of
                             Some f \<Rightarrow> upd_slab h (\<lambda>x. x\<lparr>sh_next := Some f\<rparr>) s
                           | None \<Rightarrow> upd_slab h (\<lambda>x. x\<lparr>sh_next := None\<rparr>) s)
                  in upd_cache c (\<lambda>x. x\<lparr>slabs_full := Some h\<rparr>) s)
               else s)
      in (index, s))"

definition slab_cache_alloc :: "nat \<Rightarrow> 'a slab_scheme \<Rightarrow> (nat \<times> 'a slab_scheme) option" where
  "slab_cache_alloc c s = do {
     s \<leftarrow> k_acquire (L_cache c) s;
     (h, s) \<leftarrow> (case slabs_partial (caches s c) of
                  Some h \<Rightarrow> Some (h, s)
                | None \<Rightarrow> do {
                    (h, s) \<leftarrow> slab_new (caches s c) s;
                    Some (h, upd_cache c (\<lambda>x. x\<lparr>slabs_partial := Some h\<rparr>) s)
                  });
     let (index, s) = slab_take c h s;
     s \<leftarrow> k_release (L_cache c) s;
     Some (sh_object (slabs s h) + unat (sc_object_size (caches s c) * of_nat index), s)
   }"

text \<open>The pointer \<^verbatim>\<open>hp\<close>: the address of \<^verbatim>\<open>cache->slabs_full\<close> or of a header's \<^verbatim>\<open>next\<close> field.\<close>

datatype hp = FullOf nat | HeaderNext nat

fun set_hp :: "hp \<Rightarrow> nat option \<Rightarrow> 'a slab_scheme \<Rightarrow> 'a slab_scheme" where
  "set_hp (FullOf c) v s = upd_cache c (\<lambda>x. x\<lparr>slabs_full := v\<rparr>) s"
| "set_hp (HeaderNext h) v s = upd_slab h (\<lambda>x. x\<lparr>sh_next := v\<rparr>) s"

partial_function (option) slab_move :: "nat \<Rightarrow> nat \<Rightarrow> hp \<Rightarrow> nat option \<Rightarrow> 'a slab_scheme \<Rightarrow> 'a slab_scheme option" where
  "slab_move c header hp h s =
     (case h of
        None \<Rightarrow> None
      | Some x \<Rightarrow>
          if x = header then do {
            let s = set_hp hp (sh_next (slabs s x)) s;
            let s = upd_slab x (\<lambda>y. y\<lparr>sh_next := slabs_partial (caches s c)\<rparr>) s;
            let s = upd_cache c (\<lambda>y. y\<lparr>slabs_partial := Some x\<rparr>) s;
            k_release L_slab s
          } else slab_move c header (HeaderNext x) (sh_next (slabs s x)) s)"

text \<open>The quotient of a pointer difference truncates toward zero.\<close>

definition object_index :: "nat \<Rightarrow> nat \<Rightarrow> u32 \<Rightarrow> u32" where
  "object_index obj base osz =
     (if obj \<ge> base then of_nat ((obj - base) div unat osz) else - of_nat ((base - obj) div unat osz))"

definition slab_cache_free :: "nat \<Rightarrow> nat \<Rightarrow> 'a slab_scheme \<Rightarrow> 'a slab_scheme option" where
  "slab_cache_free c obj s = do {
     q \<leftarrow> page_find_by_address obj;
     p \<leftarrow> page_find_head q s;
     let h = page_address (pages s p);
     s \<leftarrow> k_acquire (L_cache c) s;
     let index = unat (object_index obj (sh_object (slabs s h)) (sc_object_size (caches s c)));
     let next_index = sh_free (slabs s h);
     let s = upd_slab h (\<lambda>x. x\<lparr>sh_list := (sh_list x)(index := of_nat next_index)\<rparr>) s;
     let s = upd_slab h (\<lambda>x. x\<lparr>sh_free := index\<rparr>) s;
     if sh_list (slabs s h) next_index = SLAB_FREE_END
     then slab_move c h (FullOf c) (slabs_full (caches s c)) s
     else k_release (L_cache c) s
   }"

end
