(* ===== verification/Slab_Correct.thy ===== *)
theory Slab_Correct
  imports Slab
begin

text \<open>
  Correctness of the slab allocator: the layout of a slab keeps header, free list and objects apart
  and inside the block; the free list of every slab holds exactly the objects that are not live; an
  allocation hands out an object that was not live, and freeing makes it available again.
\<close>

unbundle bit_operations_syntax

section \<open>Layout\<close>

text \<open>The parameters \<^verbatim>\<open>slab_cache_create\<close> leaves in a cache it returns.\<close>

definition cache_wf :: "slab_cache \<Rightarrow> bool" where
  "cache_wf c \<longleftrightarrow> (sc_alignment c = 0 \<or> (\<exists>j < 12. sc_alignment c = 2 ^ j)) \<and>
     (\<exists>k \<le> 10. sc_slab_size c = of_nat (PAGE_SIZE * 2 ^ k)) \<and> 0 < sc_object_size c \<and>
     unat (sc_object_size c) + 8 \<le> unat (sc_slab_size c) div 9 \<and> sc_alignment c \<le> sc_object_size c"

lemma align_object_eq:
  assumes j: "j < 32" and a: "a + 2 ^ j < 2 ^ 32"
  shows "align_object (2 ^ j) a = (a + (2 ^ j - 1)) div 2 ^ j * 2 ^ j"
proof -
  define x :: u64 where "x = of_nat (a + (2 ^ j - 1))"
  have al: "(2 ^ j :: u32) - 1 = mask j" by (simp add: mask_eq_exp_minus_1)
  have um: "(of_nat a + ucast (mask j :: u32) :: u64) = x"
  proof -
    have "(ucast (mask j :: u32) :: u64) = mask j"
      using j by (intro bit_word_eqI) (auto simp: bit_simps)
    also have "\<dots> = of_nat (2 ^ j - 1)" by (simp add: mask_eq_exp_minus_1 of_nat_diff)
    finally show ?thesis by (simp only: x_def of_nat_add)
  qed
  have lt: "a + (2 ^ j - 1) < 2 ^ 32" using a by linarith
  then have ux: "unat x = a + (2 ^ j - 1)"
    unfolding x_def by (subst unat_of_nat_less) simp_all
  have hi: "\<not> bit x i" if "32 \<le> i" for i
  proof -
    have "(2::nat) ^ 32 \<le> 2 ^ i" using that by (rule power_increasing) simp
    then have "unat x < 2 ^ i" using ux lt by linarith
    then have "\<not> bit (unat x) i" by (simp add: bit_iff_odd)
    then show ?thesis by (simp add: bit_unsigned_iff)
  qed
  have "x AND ucast (NOT (mask j :: u32)) = push_bit j (drop_bit j x)"
    using hi by (intro bit_word_eqI) (auto simp: bit_simps simp flip: not_le)
  then have "align_object (2 ^ j) a = unat (push_bit j (drop_bit j x))"
    unfolding align_object_def al um by simp
  also have "\<dots> = (unat x div 2 ^ j) * 2 ^ j"
  proof -
    have "unat (push_bit j (drop_bit j x)) = take_bit 64 (push_bit j (unat (drop_bit j x)))"
      by (simp add: unsigned_push_bit_eq)
    also have "unat (drop_bit j x) = unat x div 2 ^ j" by (simp only: unat_drop_bit_eq drop_bit_eq_div [of _ "unat x"])
    also have "take_bit 64 (push_bit j (unat x div 2 ^ j)) = unat x div 2 ^ j * 2 ^ j"
    proof -
      have "unat x div 2 ^ j * 2 ^ j \<le> unat x" by simp
      also have "\<dots> < 2 ^ 64" using ux lt by simp
      finally show ?thesis by (simp add: take_bit_nat_eq_self push_bit_eq_mult)
    qed
    finally show ?thesis .
  qed
  finally show ?thesis using ux by simp
qed

lemma aligned_range:
  assumes "0 < (d::nat)"
  shows "a \<le> (a + (d - 1)) div d * d" "(a + (d - 1)) div d * d \<le> a + (d - 1)" "d dvd (a + (d - 1)) div d * d"
proof -
  show "(a + (d - 1)) div d * d \<le> a + (d - 1)" by simp
  have "(a + (d - 1)) mod d < d" using assms by simp
  moreover have "(a + (d - 1)) div d * d + (a + (d - 1)) mod d = a + (d - 1)" by simp
  ultimately show "a \<le> (a + (d - 1)) div d * d" using assms by linarith
qed simp

text \<open>The number of objects leaves room for the header, the free list and the alignment gap.\<close>

lemma unat_power_lower_12: "j < 12 \<Longrightarrow> unat (2 ^ j :: u32) = 2 ^ j"
proof -
  assume j: "j < 12"
  have "(2::nat) ^ j \<le> 2 ^ 11" using j by (intro power_increasing) auto
  then have "unat (of_nat (2 ^ j) :: u32) = 2 ^ j" by (intro unat_of_nat_less) simp
  then show ?thesis by simp
qed

lemma cache_wf_sizes:
  assumes "cache_wf c"
  shows "SLAB_HEADER_SIZE + unat (sc_alignment c) \<le> unat (sc_slab_size c)" "unat (sc_slab_size c) \<le> 2 ^ 22"
    "0 < unat (sc_object_size c)" "unat (sc_object_size c) + 8 \<le> unat (sc_slab_size c) div 9"
    "unat (sc_alignment c) \<le> 2 ^ 11" "unat (sc_alignment c) \<le> unat (sc_object_size c)"
proof -
  obtain k where k: "k \<le> 10" "sc_slab_size c = of_nat (PAGE_SIZE * 2 ^ k)" using assms by (auto simp: cache_wf_def)
  have "(2::nat) ^ k \<le> 2 ^ 10" using k(1) by (rule power_increasing) simp
  moreover have sz: "unat (sc_slab_size c) = 4096 * 2 ^ k"
    unfolding k(2) using \<open>2 ^ k \<le> 2 ^ 10\<close> by (subst unat_of_nat_less) (simp_all add: PAGE_SIZE_def)
  ultimately show le: "unat (sc_slab_size c) \<le> 2 ^ 22" by simp
  show al: "unat (sc_alignment c) \<le> 2 ^ 11"
  proof (cases "sc_alignment c = 0")
    case False
    then obtain j where j: "j < 12" "sc_alignment c = 2 ^ j" using assms by (auto simp: cache_wf_def)
    have p: "(2::nat) ^ j \<le> 2 ^ 11" using j(1) by (intro power_increasing) auto
    then show ?thesis using j by (simp add: unat_power_lower_12)
  qed simp
  have "(1::nat) \<le> 2 ^ k" by simp
  then have "4096 \<le> unat (sc_slab_size c)" using sz by linarith
  then show "SLAB_HEADER_SIZE + unat (sc_alignment c) \<le> unat (sc_slab_size c)"
    using al by (simp add: SLAB_HEADER_SIZE_def sizeof_slab_header_def)
  show "0 < unat (sc_object_size c)" using assms by (simp add: cache_wf_def word_less_nat_alt)
  show "unat (sc_object_size c) + 8 \<le> unat (sc_slab_size c) div 9"
    "unat (sc_alignment c) \<le> unat (sc_object_size c)" using assms by (simp_all add: cache_wf_def word_le_nat_alt)
qed

lemma slab_max_object_num_eq:
  assumes "cache_wf c"
  shows "unat (slab_max_object_num c) =
    (unat (sc_slab_size c) - SLAB_HEADER_SIZE - unat (sc_alignment c)) div (unat (sc_object_size c) + 4)"
    (is "_ = ?n")
proof -
  note w = cache_wf_sizes [OF assms]
  have u: "unat (ucast (sc_slab_size c) - of_nat SLAB_HEADER_SIZE - ucast (sc_alignment c) :: u64) =
     unat (sc_slab_size c) - SLAB_HEADER_SIZE - unat (sc_alignment c)"
  proof -
    have "(ucast (sc_slab_size c) - of_nat SLAB_HEADER_SIZE - ucast (sc_alignment c) :: u64) =
       of_nat (unat (sc_slab_size c) - SLAB_HEADER_SIZE - unat (sc_alignment c))"
      using w(1) by (simp add: of_nat_diff)
    moreover have "unat (sc_slab_size c) < 2 ^ 64" using w(2) by simp
    ultimately show ?thesis by (simp add: unat_of_nat_less del: of_nat_diff)
  qed
  have "(ucast (sc_object_size c) + 4 :: u64) = of_nat (unat (sc_object_size c) + 4)" by simp
  moreover have "unat (sc_object_size c) + 4 < 2 ^ 64" using w(2,4) by simp
  ultimately have v: "unat (ucast (sc_object_size c) + 4 :: u64) = unat (sc_object_size c) + 4"
    by (simp add: unat_of_nat_less del: of_nat_add)
  have q: "unat ((ucast (sc_slab_size c) - of_nat SLAB_HEADER_SIZE - ucast (sc_alignment c) :: u64)
            div (ucast (sc_object_size c) + 4)) = ?n"
    by (simp only: unat_div_distrib u v)
  have "?n \<le> unat (sc_slab_size c)" by (meson diff_le_self div_le_dividend le_trans)
  then have "?n < 2 ^ 32" using w(2) by simp
  then show ?thesis
    unfolding slab_max_object_num_def by (simp add: unsigned_ucast_eq q take_bit_nat_eq_self)
qed

definition slab_object_base :: "slab_cache \<Rightarrow> nat \<Rightarrow> nat" where
  "slab_object_base c h =
     (let object = h + sizeof_slab_header + 4 * (unat (slab_max_object_num c) + 1)
      in if sc_alignment c \<noteq> 0 then align_object (sc_alignment c) object else object)"

lemma slab_layout_fits:
  assumes wf: "cache_wf c" and h: "h + unat (sc_slab_size c) < 2 ^ 32"
  defines "n \<equiv> unat (slab_max_object_num c)"
  shows "h + sizeof_slab_header + 4 * (n + 1) \<le> slab_object_base c h"
    "slab_object_base c h + unat (sc_object_size c) * n \<le> h + unat (sc_slab_size c)"
proof -
  note w = cache_wf_sizes [OF wf]
  let ?o = "h + sizeof_slab_header + 4 * (n + 1)"
  have n: "n = (unat (sc_slab_size c) - SLAB_HEADER_SIZE - unat (sc_alignment c)) div (unat (sc_object_size c) + 4)"
    unfolding n_def by (rule slab_max_object_num_eq [OF wf])
  then have room: "n * (unat (sc_object_size c) + 4) \<le> unat (sc_slab_size c) - SLAB_HEADER_SIZE - unat (sc_alignment c)"
    by simp
  have o: "?o + unat (sc_alignment c) \<le> h + unat (sc_slab_size c)"
    using room w(1) by (simp add: SLAB_HEADER_SIZE_def sizeof_slab_header_def algebra_simps)
  have rng: "?o \<le> slab_object_base c h \<and> slab_object_base c h \<le> ?o + unat (sc_alignment c)"
  proof (cases "sc_alignment c = 0")
    case False
    then obtain j where j: "j < 12" "sc_alignment c = 2 ^ j" using wf by (auto simp: cache_wf_def)
    then have u: "unat (sc_alignment c) = 2 ^ j" by (simp add: unat_power_lower_12)
    have "slab_object_base c h = (?o + (2 ^ j - 1)) div 2 ^ j * 2 ^ j"
      using align_object_eq [of j ?o] j o h u False by (simp add: slab_object_base_def n_def)
    then have "?o \<le> slab_object_base c h" "slab_object_base c h \<le> ?o + (2 ^ j - 1)"
      using aligned_range(1,2) [of "2 ^ j" ?o] by (simp_all only: zero_less_power zero_less_numeral)
    then show ?thesis using u by linarith
  qed (simp add: slab_object_base_def n_def)
  then show "?o \<le> slab_object_base c h" by simp
  show "slab_object_base c h + unat (sc_object_size c) * n \<le> h + unat (sc_slab_size c)"
    using rng room w(1) by (simp add: SLAB_HEADER_SIZE_def sizeof_slab_header_def algebra_simps, linarith)
qed

lemma slab_max_pos: "cache_wf c \<Longrightarrow> 8 \<le> unat (slab_max_object_num c)"
proof -
  assume wf: "cache_wf c"
  note w = cache_wf_sizes [OF wf]
  have "8 * (unat (sc_object_size c) + 4) \<le> unat (sc_slab_size c) - SLAB_HEADER_SIZE - unat (sc_alignment c)"
    using w(4,6) by (simp add: SLAB_HEADER_SIZE_def sizeof_slab_header_def)
  then show ?thesis unfolding slab_max_object_num_eq [OF wf] by (simp add: less_eq_div_iff_mult_less_eq)
qed

section \<open>What the page allocator leaves alone\<close>

definition same_rest :: "'a buddy_scheme \<Rightarrow> 'a buddy_scheme \<Rightarrow> bool" where
  "same_rest s s' \<longleftrightarrow> buddy.more s' = buddy.more s \<and> woken s' = woken s"

lemma same_rest_simps [simp]:
  "same_rest s s" "same_rest s (s\<lparr>pages := P\<rparr>)" "same_rest s (s\<lparr>free_lists := F\<rparr>)" "same_rest s (s\<lparr>held := H\<rparr>)"
  "same_rest s (upd_page p f s)" "same_rest s (set_head k v s)"
  by (simp_all add: same_rest_def upd_page_def set_head_def)

lemma same_rest_trans: "same_rest s t \<Longrightarrow> same_rest t u \<Longrightarrow> same_rest s u"
  by (simp add: same_rest_def)

lemma slab_frame:
  "same_rest s s' \<Longrightarrow> slabs s' = slabs s \<and> caches s' = caches s \<and> slab_size_limits s' = slab_size_limits s \<and>
     free_cache_head s' = free_cache_head s" for s s' :: "'a slab_scheme"
  by (cases s, cases s') (simp add: same_rest_def)

lemma k_lock_more: "k_acquire l s = Some s' \<Longrightarrow> same_rest s s'" "k_release l s = Some s' \<Longrightarrow> same_rest s s'"
  by (auto simp: k_acquire_def k_release_def split: if_splits)

lemma pop_more: "buddy_list_pop k s = (r, s') \<Longrightarrow> same_rest s s'"
  by (auto simp: buddy_list_pop_def upd_page_def set_head_def same_rest_def split: option.splits)

lemma pull_find_more: "pull_find i s = Some (j, p, s') \<Longrightarrow> same_rest s s'"
proof (induction i s rule: pull_find.induct)
  case (1 i s)
  show ?case
  proof (cases "buddy_list_pop i s")
    case (Pair r t)
    then show ?thesis
      using 1 pop_more [OF Pair] by (subst (asm) (2) pull_find.simps)
        (auto split: if_splits option.splits intro: same_rest_trans)
  qed
qed

lemma pull_split_more: "pull_split n from p s = (p', s') \<Longrightarrow> same_rest s s'"
  by (induction n arbitrary: p s) (fastforce simp: upd_page_def set_head_def Let_def same_rest_def)+

lemma pull_block_more: "buddy_pull_block k s = Some (p, s') \<Longrightarrow> same_rest s s'"
proof -
  assume a: "buddy_pull_block k s = Some (p, s')"
  then obtain i p0 s0 where f: "pull_find (k + 1) s = Some (i, p0, s0)"
    by (auto simp: buddy_pull_block_def simp del: pull_find.simps)
  obtain p1 s1 where sp: "pull_split (i - 1 + 1 - k) k p0 s0 = (p1, s1)" by fastforce
  show ?thesis
    using a f sp same_rest_trans [OF pull_find_more [OF f] pull_split_more [OF sp]]
    by (auto simp: buddy_pull_block_def Let_def intro: same_rest_trans simp del: pull_find.simps)
qed

lemma take_block_more:
  "(case buddy_list_pop k s of (Some p, s) \<Rightarrow> Some (p, s) | (None, s) \<Rightarrow> buddy_pull_block k s) = Some (p, s') \<Longrightarrow>
   same_rest s s'"
  using pop_more [of k s] pull_block_more [of k]
  by (auto split: prod.splits option.splits intro: same_rest_trans)

lemma buddy_alloc_more:
  assumes "buddy_alloc sz s = Some (p, s')"
  shows "same_rest s s'"
proof -
  obtain i t u v w where st: "k_acquire L_buddy s = Some t"
    "(case buddy_list_pop i t of (Some p, s) \<Rightarrow> Some (p, s) | (None, s) \<Rightarrow> buddy_pull_block i s) = Some (p, u)"
    "k_release L_buddy u = Some v" "k_acquire L_pages_ref (upd_page p (\<lambda>g. g\<lparr>pg_flags := pg_flags g OR PF_FIRST_PAGE\<rparr>) v) = Some w"
    "k_release L_pages_ref (upd_page p (\<lambda>g. g\<lparr>pg_refcnt := 1\<rparr>) w) = Some s'"
    using assms by (auto simp: buddy_alloc_def Let_def simp del: find_order.simps split: option.splits)
  note k_lock_more(1) [OF st(1)] take_block_more [OF st(2)] k_lock_more(2) [OF st(3)]
    k_lock_more(1) [OF st(4)] k_lock_more(2) [OF st(5)]
  then show ?thesis by (simp add: same_rest_def upd_page_def)
qed

section \<open>Creating a cache\<close>

lemma find_slab_size_Some:
  "find_slab_size n osz lim = Some v \<Longrightarrow> n \<le> PAGE_MAX_DEPTH \<Longrightarrow>
   \<exists>i < PAGE_MAX_DEPTH. osz \<le> lim i \<and> v = of_nat (PAGE_SIZE * 2 ^ i)"
proof (induction n)
  case (Suc n)
  then show ?case
    by (cases "osz \<le> lim (PAGE_MAX_DEPTH - Suc n)") (auto simp: Let_def intro!: exI [of _ "10 - n"])
qed simp

lemma unat_of_nat_32: "n < 2 ^ 32 \<Longrightarrow> unat (of_nat n :: u32) = n"
  by (rule unat_of_nat_less) simp

lemma slab_size_limit_bound:
  assumes "i < PAGE_MAX_DEPTH" "osz \<le> slab_size_limit i"
  shows "unat osz + 8 \<le> PAGE_SIZE * 2 ^ i div 9"
proof -
  have p: "(2::nat) ^ i \<le> 2 ^ 10" using assms(1) by (intro power_increasing) auto
  have "1 \<le> (2::nat) ^ i" by simp
  then have ge: "8 \<le> 4096 * (2::nat) ^ i div 9" by linarith
  have "slab_size_limit i = of_nat (4096 * 2 ^ i div 9 - 8)"
    using ge by (simp add: slab_size_limit_def PAGE_SIZE_def SLAB_HEADER_SIZE_def sizeof_slab_header_def of_nat_diff)
  moreover have "4096 * 2 ^ i div 9 - 8 < (2::nat) ^ 32" using p by simp
  ultimately have "unat (slab_size_limit i) = 4096 * 2 ^ i div 9 - 8" by (simp only: unat_of_nat_32)
  then show ?thesis using assms(2) ge by (simp add: word_le_nat_alt PAGE_SIZE_def)
qed

text \<open>Rounding the object size up to the alignment.\<close>

lemma round_up_size:
  assumes j: "j < 12" and sz: "sz \<noteq> 0" "unat sz \<le> 2 ^ 22"
  defines "r \<equiv> (sz + 2 ^ j - 1) AND NOT (2 ^ j - 1 :: u32)"
  shows "unat sz \<le> unat r" "2 ^ j dvd unat r" "2 ^ j \<le> unat r" "unat r < unat sz + 2 ^ j"
proof -
  have pj: "(2::nat) ^ j \<le> 2 ^ 11" using j by (intro power_increasing) auto
  have s0: "0 < unat sz" using sz(1) by (simp add: unat_gt_0)
  have "(of_nat (2 ^ j - 1) :: u32) = 2 ^ j - 1" by (simp add: of_nat_diff)
  then have "sz + 2 ^ j - 1 = of_nat (unat sz + (2 ^ j - 1))"
    unfolding of_nat_add [of "unat sz"] by simp
  moreover have "unat sz + (2 ^ j - 1) < 2 ^ 32" using sz(2) pj by simp
  ultimately have u: "unat (sz + 2 ^ j - 1) = unat sz + (2 ^ j - 1)" by (simp only: unat_of_nat_32)
  have "r = push_bit j (drop_bit j (sz + 2 ^ j - 1))"
    unfolding r_def mask_eq_exp_minus_1 [symmetric] by (intro bit_word_eqI) (auto simp: bit_simps)
  then have "unat r = take_bit 32 (push_bit j (unat (sz + 2 ^ j - 1) div 2 ^ j))"
    by (simp only: unsigned_push_bit_eq unat_drop_bit_eq drop_bit_eq_div [of _ "unat (sz + 2 ^ j - 1)"]) simp
  also have "\<dots> = (unat sz + (2 ^ j - 1)) div 2 ^ j * 2 ^ j"
  proof -
    have "(unat sz + (2 ^ j - 1)) div 2 ^ j * 2 ^ j \<le> unat sz + (2 ^ j - 1)" by simp
    also have "\<dots> < 2 ^ 32" by fact
    finally show ?thesis unfolding u by (simp add: take_bit_nat_eq_self push_bit_eq_mult)
  qed
  finally have r: "unat r = (unat sz + (2 ^ j - 1)) div 2 ^ j * 2 ^ j" .
  have "unat sz \<le> unat r" "unat r \<le> unat sz + (2 ^ j - 1)" "2 ^ j dvd unat r"
    unfolding r by (rule aligned_range, simp)+
  moreover have "1 \<le> (2::nat) ^ j" by simp
  ultimately show "unat sz \<le> unat r" "2 ^ j dvd unat r" "unat r < unat sz + 2 ^ j" by linarith+
  then show "2 ^ j \<le> unat r" using s0 by (intro dvd_imp_le) auto
qed

lemma slab_cache_new_free:
  assumes "slab_cache_new s = Some (c, s')" "\<forall>c. free_cache_head s = Some c \<longrightarrow> sc_slab_size (caches s c) = 0"
  shows "sc_slab_size (caches s' c) = 0" "slab_size_limits s' = slab_size_limits s"
proof -
  have first: "sc_slab_size (carve_caches a cs a) = 0" for a cs
  proof -
    have z: "sc_slab_size (fold (\<lambda>i cs. cs(f i := zero_cache\<lparr>sc_next := g i\<rparr>)) is cs x) = 0"
      if "sc_slab_size (cs x) = 0" for f g "is" cs and x :: nat
      using that by (induction "is" arbitrary: cs) (auto simp: zero_cache_def)
    have "PAGE_SIZE div sizeof_slab_cache = Suc 41" by (simp add: PAGE_SIZE_def sizeof_slab_cache_def)
    then show ?thesis
      unfolding carve_caches_def by (simp add: upt_conv_Cons z zero_cache_def del: upt_Suc)
  qed
  note lim = slab_frame [OF buddy_alloc_more]
  show "sc_slab_size (caches s' c) = 0"
    using assms first by (auto simp: slab_cache_new_def upd_cache_def Let_def split: option.splits)
  show "slab_size_limits s' = slab_size_limits s"
    using assms by (auto dest!: lim simp: slab_cache_new_def upd_cache_def Let_def split: option.splits)
qed

lemma slab_cache_create_wf:
  assumes cr: "slab_cache_create name sz al s = Some (Some c, s')"
    and fc: "\<forall>c. free_cache_head s = Some c \<longrightarrow> sc_slab_size (caches s c) = 0"
    and lim: "\<forall>i < PAGE_MAX_DEPTH. slab_size_limits s i = slab_size_limit i"
    and al: "al = 0 \<or> (\<exists>j < 12. al = 2 ^ j)" and sz: "unat sz \<le> 2 ^ 22"
  shows "cache_wf (caches s' c)" "unat sz \<le> unat (sc_object_size (caches s' c))"
proof -
  define align :: u32 where "align = (if al \<noteq> 0 then al else 4)"
  define osz where "osz = (sz + align - 1) AND NOT (align - 1)"
  obtain j where j: "j < 12" "align = 2 ^ j"
    using al by (cases "al = 0") (auto simp: align_def intro: that [of 2])
  have sz0: "sz \<noteq> 0" using cr by (auto simp: slab_cache_create_def)
  note r = round_up_size [OF j(1) sz0 sz, folded j(2), folded osz_def]
  obtain t u v where st: "k_acquire L_slab s = Some t" "slab_cache_new t = Some (c, u)" "k_release L_slab u = Some v"
    and fin: "sc_slab_size (caches s' c) \<noteq> 0" "sc_object_size (caches s' c) = osz" "sc_alignment (caches s' c) = al"
      "sc_slab_size (caches s' c) = (case find_slab_size PAGE_MAX_DEPTH osz (slab_size_limits v) of Some x \<Rightarrow> x
         | None \<Rightarrow> sc_slab_size (caches v c))"
    using cr by (auto simp: slab_cache_create_def Let_def upd_cache_def align_def [symmetric] osz_def [symmetric]
        split: if_splits option.splits)
  have "\<forall>c. free_cache_head t = Some c \<longrightarrow> sc_slab_size (caches t c) = 0" "slab_size_limits t = slab_size_limits s"
    using st(1) fc by (auto simp: k_acquire_def split: if_splits)
  note n = slab_cache_new_free [OF st(2) this(1)] this(2)
  have v: "caches v = caches u" "slab_size_limits v = slab_size_limits u"
    using st(3) by (auto simp: k_release_def split: if_splits)
  obtain x where x: "find_slab_size PAGE_MAX_DEPTH osz (slab_size_limits v) = Some x"
    using fin(1,4) n(1) v by (cases "find_slab_size PAGE_MAX_DEPTH osz (slab_size_limits v)") auto
  obtain i where i: "i < PAGE_MAX_DEPTH" "osz \<le> slab_size_limits v i" "x = of_nat (PAGE_SIZE * 2 ^ i)"
    using find_slab_size_Some [OF x] by auto
  then have b: "unat osz + 8 \<le> PAGE_SIZE * 2 ^ i div 9"
    using slab_size_limit_bound [of i osz] v n lim by simp
  have "(2::nat) ^ i \<le> 2 ^ 10" using i(1) by (intro power_increasing) auto
  then have "unat x = PAGE_SIZE * 2 ^ i"
    unfolding i(3) by (intro unat_of_nat_32) (simp add: PAGE_SIZE_def)
  moreover have "al \<le> osz" using r(3) j unat_power_lower_12 [of j] by (auto simp: align_def word_le_nat_alt split: if_splits)
  moreover have "0 < osz"
  proof -
    have "0 < (2::nat) ^ j" by simp
    then have "0 < unat osz" using r(3) by linarith
    then show ?thesis by (simp add: word_less_nat_alt)
  qed
  ultimately show "cache_wf (caches s' c)"
    using fin x i al b by (auto simp: cache_wf_def intro!: exI [of _ i])
  show "unat sz \<le> unat (sc_object_size (caches s' c))" using r(1) fin(2) by simp
qed

section \<open>Free lists\<close>

primrec free_chain :: "(nat \<Rightarrow> u32) \<Rightarrow> nat \<Rightarrow> nat \<Rightarrow> nat list \<Rightarrow> bool" where
  "free_chain L n i [] = (i = n)"
| "free_chain L n i (a # as) = (i = a \<and> a < n \<and> free_chain L n (unat (L a)) as)"

primrec hchain :: "(nat \<Rightarrow> slab_header) \<Rightarrow> nat option \<Rightarrow> nat list \<Rightarrow> bool" where
  "hchain S x [] = (x = None)"
| "hchain S x (a # as) = (x = Some a \<and> hchain S (sh_next (S a)) as)"

lemma free_chain_upd [simp]: "a \<notin> set xs \<Longrightarrow> free_chain (L(a := v)) n i xs = free_chain L n i xs"
  by (induction xs arbitrary: i) auto

lemma hchain_upd [simp]: "a \<notin> set xs \<Longrightarrow> hchain (S(a := v)) x xs = hchain S x xs"
  by (induction xs arbitrary: x) auto

lemma hchain_upd_next: "sh_next v = sh_next (S a) \<Longrightarrow> hchain (S(a := v)) x xs = hchain S x xs"
  by (induction xs arbitrary: x) auto

lemma free_chain_bound: "free_chain L n i xs \<Longrightarrow> i \<le> n \<and> (\<forall>x \<in> set xs. x < n \<and> unat (L x) \<le> n)"
  by (induction xs arbitrary: i) force+

lemma free_chain_init: "i \<le> n \<Longrightarrow> n < 2 ^ 32 \<Longrightarrow> (\<And>x. x < n \<Longrightarrow> L x = of_nat (x + 1)) \<Longrightarrow> free_chain L n i [i..<n]"
proof (induction "n - i" arbitrary: i)
  case (Suc m)
  have "unat (L i) = Suc i" using Suc.prems Suc.hyps(2) by (simp add: unat_of_nat_32 del: of_nat_Suc)
  moreover have "free_chain L n (Suc i) [Suc i..<n]" using Suc by auto
  ultimately show ?case using Suc.hyps(2) by (simp add: upt_conv_Cons)
qed simp

definition slab_ok :: "nat \<Rightarrow> slab_header \<Rightarrow> nat list \<Rightarrow> bool" where
  "slab_ok n sh fr \<longleftrightarrow> free_chain (sh_list sh) n (sh_free sh) fr \<and> distinct fr \<and> sh_list sh n = SLAB_FREE_END"

definition owns_block :: "'a slab_scheme \<Rightarrow> slab_cache \<Rightarrow> nat \<Rightarrow> bool" where
  "owns_block s C h \<longleftrightarrow> (\<exists>p k. (p, k) \<in> allocs (pages s) \<and> h = PAGE_START + PAGE_SIZE * p \<and>
     unat (sc_slab_size C) \<le> 2 ^ k * PAGE_SIZE)"

text \<open>
  The invariant of cache \<open>c\<close>, with its partial slabs \<open>ps\<close>, its full slabs \<open>fs\<close> and the free objects
  \<open>fr h\<close> of every slab \<open>h\<close>.
\<close>

definition cinv :: "nat \<Rightarrow> nat list \<Rightarrow> nat list \<Rightarrow> (nat \<Rightarrow> nat list) \<Rightarrow> 'a slab_scheme \<Rightarrow> bool" where
  "cinv c ps fs fr s \<longleftrightarrow> cache_wf (caches s c) \<and>
     hchain (slabs s) (slabs_partial (caches s c)) ps \<and> hchain (slabs s) (slabs_full (caches s c)) fs \<and>
     distinct (ps @ fs) \<and> (\<forall>h \<in> set ps. fr h \<noteq> []) \<and> (\<forall>h \<in> set fs. fr h = []) \<and>
     (\<forall>h \<in> set ps \<union> set fs. slab_ok (unat (slab_max_object_num (caches s c))) (slabs s h) (fr h) \<and>
        sh_object (slabs s h) = slab_object_base (caches s c) h \<and> owns_block s (caches s c) h)"

lemma cinv_held [simp]: "cinv c ps fs fr (s\<lparr>held := H\<rparr>) = cinv c ps fs fr s"
  by (simp only: cinv_def owns_block_def slab.simps buddy.simps kstate.simps slab.ext_inject buddy.ext_inject) simp

lemma buddy_inv_held [simp]: "buddy_inv (s\<lparr>held := H\<rparr>) = buddy_inv s"
  by (simp add: buddy_inv_def)

definition live_objects :: "nat \<Rightarrow> nat list \<Rightarrow> nat list \<Rightarrow> (nat \<Rightarrow> nat list) \<Rightarrow> 'a slab_scheme \<Rightarrow> (nat \<times> nat) set" where
  "live_objects c ps fs fr s = {(h, i). h \<in> set ps \<union> set fs \<and> i < unat (slab_max_object_num (caches s c)) \<and> i \<notin> set (fr h)}"

definition object_addr :: "slab_cache \<Rightarrow> nat \<times> nat \<Rightarrow> nat" where
  "object_addr C x = slab_object_base C (fst x) + unat (sc_object_size C) * snd x"

lemma FREE_END_big: "unat SLAB_FREE_END = 2 ^ 32 - 1"
  by (simp add: SLAB_FREE_END_def unsigned_minus_1_eq_mask mask_eq_exp_minus_1)

lemma slab_max_small: "cache_wf c \<Longrightarrow> unat (slab_max_object_num c) < 2 ^ 22"
proof -
  assume wf: "cache_wf c"
  note w = cache_wf_sizes [OF wf]
  have "unat (slab_max_object_num c) \<le> unat (sc_slab_size c) - SLAB_HEADER_SIZE"
    unfolding slab_max_object_num_eq [OF wf] by (meson div_le_dividend diff_le_self le_trans)
  then show ?thesis using w(1,2) by (simp add: SLAB_HEADER_SIZE_def)
qed

text \<open>Unlinking the head of a slab's free list.\<close>

lemma slab_ok_take:
  assumes ok: "slab_ok n sh (i # r)" and n: "n < 2 ^ 22"
  defines "nx \<equiv> unat (sh_list sh i)"
  defines "sh' \<equiv> sh\<lparr>sh_list := (sh_list sh)(i := SLAB_FREE_END), sh_free := nx\<rparr>"
  shows "sh_free sh = i" "i < n" "slab_ok n sh' r" "sh_list sh' nx = SLAB_FREE_END \<longleftrightarrow> r = []"
proof -
  have c: "sh_free sh = i" "i < n" "free_chain (sh_list sh) n nx r" "i \<notin> set r" "distinct r" "sh_list sh n = SLAB_FREE_END"
    using ok by (auto simp: slab_ok_def nx_def)
  then show "sh_free sh = i" "i < n" "slab_ok n sh' r" by (auto simp: slab_ok_def sh'_def)
  show "sh_list sh' nx = SLAB_FREE_END \<longleftrightarrow> r = []"
  proof (cases r)
    case (Cons a as)
    then have "nx = a" "a \<noteq> i" "unat (sh_list sh a) \<le> n"
      using c(3,4) free_chain_bound [OF c(3)] by auto
    then have "sh_list sh a \<noteq> SLAB_FREE_END" using FREE_END_big n by auto
    then show ?thesis using \<open>nx = a\<close> \<open>a \<noteq> i\<close> Cons by (simp add: sh'_def)
  qed (use c in \<open>simp add: sh'_def\<close>)
qed

lemma slab_take_ok:
  assumes inv: "cinv c (h # ps) fs fr s" and i: "fr h = i # r"
  shows "\<exists>S C ps' fs'. slab_take c h s = (i, s\<lparr>slabs := S, caches := C\<rparr>) \<and>
    cinv c ps' fs' (fr(h := r)) (s\<lparr>slabs := S, caches := C\<rparr>) \<and> set ps' \<union> set fs' = set (h # ps) \<union> set fs \<and>
    (\<exists>v w. C c = (caches s c)\<lparr>slabs_partial := v, slabs_full := w\<rparr>) \<and> (\<forall>b. b \<noteq> c \<longrightarrow> C b = caches s b) \<and>
    i < unat (slab_max_object_num (caches s c)) \<and> sh_object (S h) = slab_object_base (caches s c) h"
proof -
  define n where "n = unat (slab_max_object_num (caches s c))"
  note inv' = inv [unfolded cinv_def, folded n_def]
  have n: "n < 2 ^ 22" unfolding n_def using slab_max_small inv' by blast
  have ok: "slab_ok n (slabs s h) (i # r)" using inv' i by auto
  define sh' where "sh' = (slabs s h)\<lparr>sh_list := (sh_list (slabs s h))(i := SLAB_FREE_END),
     sh_free := unat (sh_list (slabs s h) i)\<rparr>"
  note tk = slab_ok_take [OF ok n, folded sh'_def]
  have numeq: "slab_max_object_num (C\<lparr>slabs_partial := v, slabs_full := w\<rparr>) = slab_max_object_num C"
    "slab_object_base (C\<lparr>slabs_partial := v, slabs_full := w\<rparr>) x = slab_object_base C x"
    "cache_wf (C\<lparr>slabs_partial := v, slabs_full := w\<rparr>) = cache_wf C" for C :: slab_cache and v w x
    by (simp_all add: slab_max_object_num_def slab_object_base_def cache_wf_def Let_def)
  have ob: "owns_block (s\<lparr>slabs := S, caches := K\<rparr>) C x = owns_block s C x" "owns_block (s\<lparr>slabs := S\<rparr>) C x = owns_block s C x"
    "owns_block s (C\<lparr>slabs_partial := v, slabs_full := w\<rparr>) x = owns_block s C x" for S K C x v w
    by (simp_all add: owns_block_def)
  have dist: "h \<notin> set ps" "h \<notin> set fs" using inv' by auto
  show ?thesis
  proof (cases "r = []")
    case True
    define S where "S = (slabs s)(h := sh'\<lparr>sh_next := slabs_full (caches s c)\<rparr>)"
    define C where "C = (caches s)(c := (caches s c)\<lparr>slabs_partial := sh_next (slabs s h), slabs_full := Some h\<rparr>)"
    have "slab_take c h s = (i, s\<lparr>slabs := S, caches := C\<rparr>)"
      using tk(1,4) True
      by (simp add: slab_take_def Let_def upd_slab_def upd_cache_def sh'_def S_def C_def split: option.split)
    moreover have "slab_ok n (S h) []" using tk(3) True by (simp add: S_def slab_ok_def)
    then have "cinv c ps (h # fs) (fr(h := r)) (s\<lparr>slabs := S, caches := C\<rparr>)"
      using inv' dist True by (auto simp: cinv_def S_def C_def numeq ob n_def sh'_def)
    moreover have "set ps \<union> set (h # fs) = set (h # ps) \<union> set fs" by simp
    moreover have "C c = (caches s c)\<lparr>slabs_partial := sh_next (slabs s h), slabs_full := Some h\<rparr>"
      "\<forall>b. b \<noteq> c \<longrightarrow> C b = caches s b" "sh_object (S h) = slab_object_base (caches s c) h"
      using inv' by (auto simp: C_def S_def sh'_def)
    ultimately show ?thesis using tk(2) unfolding n_def by blast
  next
    case False
    define S where "S = (slabs s)(h := sh')"
    have "slab_take c h s = (i, s\<lparr>slabs := S, caches := caches s\<rparr>)"
      using tk(1,4) False by (simp add: slab_take_def Let_def upd_slab_def sh'_def S_def)
    moreover have "cinv c (h # ps) fs (fr(h := r)) (s\<lparr>slabs := S, caches := caches s\<rparr>)"
      using inv' dist False tk(3) by (auto simp: cinv_def S_def ob n_def sh'_def)
    moreover have "caches s c = (caches s c)\<lparr>slabs_partial := slabs_partial (caches s c), slabs_full := slabs_full (caches s c)\<rparr>"
      by simp
    moreover have "sh_object (S h) = slab_object_base (caches s c) h" using inv' by (auto simp: S_def sh'_def)
    ultimately show ?thesis using tk(2) unfolding n_def by blast
  qed
qed

section \<open>Allocation\<close>

lemma object_offset:
  assumes "cache_wf C" "i < unat (slab_max_object_num C)"
  shows "unat (sc_object_size C * of_nat i) = unat (sc_object_size C) * i"
proof -
  note w = cache_wf_sizes [OF assms(1)]
  have "unat (slab_max_object_num C) * (unat (sc_object_size C) + 4) \<le> unat (sc_slab_size C) - SLAB_HEADER_SIZE - unat (sc_alignment C)"
    unfolding slab_max_object_num_eq [OF assms(1)] by simp
  then have "unat (sc_object_size C) * unat (slab_max_object_num C) \<le> 2 ^ 22"
    using w(2) by (simp add: algebra_simps)
  moreover have "unat (sc_object_size C) * i \<le> unat (sc_object_size C) * unat (slab_max_object_num C)"
    using assms(2) by simp
  ultimately have "unat (sc_object_size C) * i \<le> 2 ^ 22" by (rule order_trans [rotated])
  then have lt: "unat (sc_object_size C) * i < 2 ^ 32" by simp
  have "sc_object_size C * of_nat i = of_nat (unat (sc_object_size C) * i)" by simp
  then show ?thesis using unat_of_nat_32 [OF lt] by (simp only:)
qed

text \<open>The state after an allocation, relative to the ghost lists before it.\<close>

definition slab_alloc_post ::
    "nat \<Rightarrow> nat list \<Rightarrow> nat list \<Rightarrow> (nat \<Rightarrow> nat list) \<Rightarrow> 'a slab_scheme \<Rightarrow> nat \<Rightarrow> 'a slab_scheme \<Rightarrow> bool" where
  "slab_alloc_post c ps fs fr s a s' \<longleftrightarrow> (\<exists>h i ps' fs' fr'.
     cinv c ps' fs' fr' s' \<and> buddy_inv s' \<and> held s' = held s \<and> a = object_addr (caches s' c) (h, i) \<and>
     (h, i) \<notin> live_objects c ps fs fr s \<and>
     live_objects c ps' fs' fr' s' = insert (h, i) (live_objects c ps fs fr s))"

lemma live_take:
  assumes "h \<in> set ps \<union> set fs" "fr h = i # r" "i \<notin> set r" "i < n" "set ps' \<union> set fs' = set ps \<union> set fs"
    "n = unat (slab_max_object_num (caches s c))" "n = unat (slab_max_object_num (caches s' c))"
  shows "(h, i) \<notin> live_objects c ps fs fr s"
    "live_objects c ps' fs' (fr(h := r)) s' = insert (h, i) (live_objects c ps fs fr s)"
  using assms by (auto simp: live_objects_def set_eq_iff split: if_splits)

lemma slab_alloc_partial:
  assumes inv: "cinv c (h # ps) fs fr s" "buddy_inv s" and l: "L_cache c \<notin> held s"
  shows "\<exists>a s'. slab_cache_alloc c s = Some (a, s') \<and> slab_alloc_post c (h # ps) fs fr s a s'"
proof -
  obtain i r where fr: "fr h = i # r" using inv(1) by (cases "fr h") (auto simp: cinv_def)
  define s1 where "s1 = s\<lparr>held := insert (L_cache c) (held s)\<rparr>"
  have inv1: "cinv c (h # ps) fs fr s1" using inv(1) by (simp add: cinv_def s1_def owns_block_def)
  obtain S C ps' fs' v w where t: "slab_take c h s1 = (i, s1\<lparr>slabs := S, caches := C\<rparr>)"
    "cinv c ps' fs' (fr(h := r)) (s1\<lparr>slabs := S, caches := C\<rparr>)" "set ps' \<union> set fs' = set (h # ps) \<union> set fs"
    "C c = (caches s c)\<lparr>slabs_partial := v, slabs_full := w\<rparr>"
    "i < unat (slab_max_object_num (caches s c))" "sh_object (S h) = slab_object_base (caches s c) h"
    using slab_take_ok [OF inv1 fr] by (auto simp: s1_def)
  have C: "slab_max_object_num (C c) = slab_max_object_num (caches s c)" "slab_object_base (C c) h = slab_object_base (caches s c) h"
    "sc_object_size (C c) = sc_object_size (caches s c)"
    by (simp_all add: t(4) slab_max_object_num_def slab_object_base_def Let_def)
  have wf: "cache_wf (C c)" using t(2) by (simp add: cinv_def)
  define s' where "s' = s\<lparr>slabs := S, caches := C\<rparr>"
  define a where "a = slab_object_base (caches s c) h + unat (sc_object_size (caches s c)) * i"
  have "slabs_partial (caches s c) = Some h" using inv(1) by (auto simp: cinv_def)
  then have "slab_cache_alloc c s = Some (a, s')"
    using l t(1,6) object_offset [OF wf, of i] t(5) C
    by (simp add: slab_cache_alloc_def lock_simps s1_def a_def s'_def)
  moreover have "cinv c ps' fs' (fr(h := r)) s'"
    using t(2) by (simp add: cinv_def s'_def s1_def owns_block_def)
  moreover have "distinct (i # r)" using inv(1) fr by (auto simp: cinv_def slab_ok_def)
  then have "i \<notin> set r" by simp
  have num: "unat (slab_max_object_num (caches s c)) = unat (slab_max_object_num (caches s' c))"
    using C(1) by (simp add: s'_def)
  have hin: "h \<in> set (h # ps) \<union> set fs" by simp
  note live_take [of h "h # ps" fs fr i r _ ps' fs' s c s', OF hin fr \<open>i \<notin> set r\<close> t(5,3) refl num]
  moreover have "a = object_addr (caches s' c) (h, i)" "held s' = held s" "buddy_inv s'"
    using C inv(2) by (simp_all add: s'_def a_def object_addr_def buddy_inv_def)
  ultimately show ?thesis unfolding slab_alloc_post_def by blast
qed

text \<open>With no partial slab, a new one is made of a fresh block and the allocation continues with it.\<close>

lemma slab_new_ok:
  assumes inv: "cinv c [] fs fr s" "buddy_inv s" and l: "L_buddy \<notin> held s" "L_pages_ref \<notin> held s"
    and new: "slab_new (caches s c) s = Some (h, t)"
  defines "s1 \<equiv> upd_cache c (\<lambda>x. x\<lparr>slabs_partial := Some h\<rparr>) t"
  defines "n \<equiv> unat (slab_max_object_num (caches s c))"
  shows "cinv c [h] fs (fr(h := [0..<n])) s1" "buddy_inv s1" "held s1 = held s" "h \<notin> set fs"
    "slab_max_object_num (caches s1 c) = slab_max_object_num (caches s c)"
proof -
  let ?C = "caches s c"
  have wf: "cache_wf ?C" using inv(1) by (simp add: cinv_def)
  have n22: "n < 2 ^ 22" unfolding n_def by (rule slab_max_small [OF wf])
  obtain p u where al: "buddy_alloc (unat (sc_slab_size ?C)) s = Some (p, u)"
    and h: "h = page_address (pages u p)"
    and t: "t = upd_slab h (\<lambda>_. \<lparr>sh_next = None, sh_free = 0, sh_object = slab_object_base ?C h,
        sh_list = (\<lambda>i. if i < n then of_nat (i + 1) else if i = n then SLAB_FREE_END else sh_list (slabs u h) i)\<rparr>) u"
    using new unfolding slab_new_def Let_def slab_object_base_def n_def by auto
  obtain k where k: "find_order 0 (unat (sc_slab_size ?C)) = Some k"
    using al buddy_alloc_None [OF l(1), of "unat (sc_slab_size ?C)"] by fastforce
  have post: "alloc_post k s p u"
    using buddy_alloc_cases [OF inv(2) l k] al by (auto split: if_splits)
  note post' = post [unfolded alloc_post_def]
  have sz: "unat (sc_slab_size ?C) \<le> 2 ^ k * PAGE_SIZE"
    using k unfolding find_order_eq by (auto split: if_splits intro: LeastI2_ex)
  have hp: "h = PAGE_START + PAGE_SIZE * p" using post' h by (simp only: page_address_def)
  note fr0 = slab_frame [OF buddy_alloc_more [OF al]]
  have hu: "held u = held s" using post' buddy_upd_held by blast
  have oldblk: "owns_block u ?C x" if "owns_block s ?C x" for x
    using that post' unfolding owns_block_def by blast
  have newblk: "owns_block u ?C h" using post' hp sz unfolding owns_block_def by blast
  have own: "owns_block s1 = owns_block u" by (intro ext) (simp add: s1_def t owns_block_def upd_cache_def upd_slab_def)
  show hfs: "h \<notin> set fs"
  proof
    assume "h \<in> set fs"
    then obtain q j where q: "(q, j) \<in> allocs (pages s)" "h = PAGE_START + PAGE_SIZE * q"
      using inv(1) by (auto simp: cinv_def owns_block_def simp del: mem_allocs)
    then have "q = p" using hp by (simp add: PAGE_SIZE_def)
    then show False using alloc_post_new [OF post] q(1) by (force simp del: mem_allocs)
  qed
  have cs1: "caches s1 c = ?C\<lparr>slabs_partial := Some h\<rparr>" and ss1: "slabs s1 = (slabs s)(h := slabs t h)"
    using fr0 by (simp_all add: s1_def t upd_cache_def upd_slab_def)
  have eqs: "slab_max_object_num (caches s1 c) = slab_max_object_num ?C" "slab_object_base (caches s1 c) x = slab_object_base ?C x"
    "cache_wf (caches s1 c) = cache_wf ?C" "owns_block r (caches s1 c) x = owns_block r ?C x" for x r
    by (simp_all add: cs1 slab_max_object_num_def slab_object_base_def cache_wf_def owns_block_def Let_def)
  show "slab_max_object_num (caches s1 c) = slab_max_object_num ?C" by (rule eqs)
  have th: "slab_ok n (slabs t h) [0..<n]" "sh_next (slabs t h) = None" "sh_object (slabs t h) = slab_object_base ?C h"
    using n22 by (auto simp: t upd_slab_def slab_ok_def intro!: free_chain_init)
  have n0: "0 < n" using slab_max_pos [OF wf] by (simp add: n_def)
  show "cinv c [h] fs (fr(h := [0..<n])) s1"
    using inv(1) hfs th n0 oldblk newblk unfolding cinv_def eqs own
    by (auto simp: cs1 ss1 n_def)
  show "buddy_inv s1" using post' by (simp add: s1_def t upd_cache_def upd_slab_def buddy_inv_def)
  show "held s1 = held s" using hu by (simp add: s1_def t upd_cache_def upd_slab_def)
qed

lemma slab_alloc_fresh:
  assumes inv: "cinv c [] fs fr s" "buddy_inv s"
    and l: "L_cache c \<notin> held s" "L_buddy \<notin> held s" "L_pages_ref \<notin> held s"
  defines "s1 \<equiv> s\<lparr>held := insert (L_cache c) (held s)\<rparr>"
  assumes new: "slab_new (caches s1 c) s1 = Some (h, t)"
  shows "\<exists>a s'. slab_cache_alloc c s = Some (a, s') \<and> slab_alloc_post c [] fs fr s a s'"
proof -
  have pn: "slabs_partial (caches s1 c) = None" using inv(1) by (simp add: cinv_def s1_def)
  have inv1: "cinv c [] fs fr s1" "buddy_inv s1" using inv by (simp_all add: s1_def)
  have l1: "L_buddy \<notin> held s1" "L_pages_ref \<notin> held s1" using l by (auto simp: s1_def)
  note n = slab_new_ok [OF inv1 l1 new]
  define x where "x = upd_cache c (\<lambda>x. x\<lparr>slabs_partial := Some h\<rparr>) t"
  define y where "y = x\<lparr>held := held s\<rparr>"
  define fr' where "fr' = fr(h := [0..<unat (slab_max_object_num (caches s c))])"
  have x: "x = y\<lparr>held := insert (L_cache c) (held y)\<rparr>"
    using n(3) by (simp add: y_def x_def s1_def)
  have "slabs_partial (caches y c) = Some h" by (simp add: y_def x_def upd_cache_def)
  then have "slab_cache_alloc c s = slab_cache_alloc c y"
    using l pn new by (simp add: slab_cache_alloc_def lock_simps s1_def [symmetric] x_def [symmetric] x [symmetric])
      (simp add: y_def l(1) lock_simps x [unfolded y_def, simplified, symmetric])
  moreover have invy: "cinv c [h] fs fr' y" "buddy_inv y" "held y = held s"
    using n(1,2) by (simp_all add: y_def x_def fr'_def s1_def)
  ultimately obtain a s' where post: "slab_cache_alloc c s = Some (a, s')" "slab_alloc_post c [h] fs fr' y a s'"
    using slab_alloc_partial [OF invy(1,2)] l(1) by auto
  have "slab_max_object_num (caches y c) = slab_max_object_num (caches s c)"
    using n(5) by (simp add: y_def x_def s1_def)
  then have "live_objects c [h] fs fr' y = live_objects c [] fs fr s"
    using n(4) by (auto simp: live_objects_def fr'_def split: if_splits)
  then have "slab_alloc_post c [] fs fr s a s'" using post(2) invy(3) by (simp add: slab_alloc_post_def)
  then show ?thesis using post(1) by blast
qed

text \<open>The allocation as a whole, on every path.\<close>

lemma slab_alloc_spec:
  assumes inv: "cinv c ps fs fr s" "buddy_inv s"
    and l: "L_cache c \<notin> held s" "L_buddy \<notin> held s" "L_pages_ref \<notin> held s"
  shows "if ps \<noteq> [] \<or> (\<exists>q < PAGE_NUM. is_free (pages s q) \<and> unat (sc_slab_size (caches s c)) \<le> 2 ^ pg_order (pages s q) * PAGE_SIZE)
         then \<exists>a s'. slab_cache_alloc c s = Some (a, s') \<and> slab_alloc_post c ps fs fr s a s'
         else slab_cache_alloc c s = None"
proof (cases ps)
  case (Cons h hs)
  then show ?thesis using slab_alloc_partial [of c h hs fs fr s] inv l by simp
next
  case Nil
  define s1 where "s1 = s\<lparr>held := insert (L_cache c) (held s)\<rparr>"
  let ?big = "\<exists>q < PAGE_NUM. is_free (pages s q) \<and> unat (sc_slab_size (caches s c)) \<le> 2 ^ pg_order (pages s q) * PAGE_SIZE"
  have pn: "slabs_partial (caches s c) = None" using inv(1) Nil by (simp add: cinv_def)
  have l1: "buddy_inv s1" "L_buddy \<notin> held s1" "L_pages_ref \<notin> held s1" using inv(2) l by (auto simp: s1_def)
  note sp = buddy_alloc_spec [OF l1, of "unat (sc_slab_size (caches s c))"]
  show ?thesis
  proof (cases ?big)
    case True
    then obtain p t where al: "buddy_alloc (unat (sc_slab_size (caches s c))) s1 = Some (p, t)"
      using sp by (auto simp: s1_def split: if_splits)
    then obtain h t' where "slab_new (caches s1 c) s1 = Some (h, t')"
      by (simp add: slab_new_def Let_def s1_def)
    then show ?thesis using slab_alloc_fresh [of c fs fr s h t'] inv l Nil True by (simp add: s1_def)
  next
    case False
    then have al: "buddy_alloc (unat (sc_slab_size (caches s c))) s1 = None" using sp by (auto simp: s1_def split: if_splits)
    then have "slab_new (caches s c) s1 = None" by (simp add: slab_new_def Let_def)
    then have "slab_cache_alloc c s = None"
      using l pn by (simp add: slab_cache_alloc_def lock_simps s1_def)
    then show ?thesis using False Nil by simp
  qed
qed

section \<open>Freeing\<close>

lemma alloc_block_bound:
  assumes "buddy_inv s" "(p, k) \<in> allocs (pages s)"
  shows "p + 2 ^ k \<le> PAGE_NUM"
proof -
  have "(p, k) \<in> heads (pages s)" using assms(2) by auto
  then have "blk (p, k) \<subseteq> {..<PAGE_NUM}" using assms(1) unfolding buddy_inv_def binv_def buddy_partition_def by blast
  moreover have "p + 2 ^ k - 1 \<in> blk (p, k)"
  proof -
    have "1 \<le> (2::nat) ^ k" by simp
    then have "p \<le> p + 2 ^ k - 1" "p + 2 ^ k - 1 < p + 2 ^ k" by linarith+
    then show ?thesis by (simp add: blk_def)
  qed
  ultimately have "p + 2 ^ k - 1 < PAGE_NUM" by blast
  then show ?thesis by simp
qed

text \<open>Every object of a slab lies in the block that its header starts.\<close>

lemma object_in_block:
  assumes inv: "cinv c ps fs fr s" "buddy_inv s" and h: "h \<in> set ps \<union> set fs"
    and i: "i < unat (slab_max_object_num (caches s c))"
  obtains p k where "(p, k) \<in> allocs (pages s)" "h = PAGE_START + PAGE_SIZE * p"
    "h + sizeof_slab_header + 4 * (unat (slab_max_object_num (caches s c)) + 1) \<le> object_addr (caches s c) (h, i)"
    "object_addr (caches s c) (h, i) + unat (sc_object_size (caches s c)) \<le> PAGE_START + PAGE_SIZE * (p + 2 ^ k)"
    "PAGE_START + PAGE_SIZE * (p + 2 ^ k) \<le> PHYSTOP"
proof -
  let ?C = "caches s c" and ?n = "unat (slab_max_object_num (caches s c))"
  have wf: "cache_wf ?C" using inv(1) by (simp add: cinv_def)
  obtain p k where p: "(p, k) \<in> allocs (pages s)" "h = PAGE_START + PAGE_SIZE * p" "unat (sc_slab_size ?C) \<le> 2 ^ k * PAGE_SIZE"
    using inv(1) h unfolding cinv_def owns_block_def by blast
  have b: "p + 2 ^ k \<le> PAGE_NUM" by (rule alloc_block_bound [OF inv(2) p(1)])
  have top: "PAGE_START + PAGE_SIZE * (p + 2 ^ k) \<le> PHYSTOP"
    using b by (simp add: PAGE_NUM_def PHYSTOP_def PAGE_SIZE_def PAGE_START_def KERNBASE_def)
  have le: "h + unat (sc_slab_size ?C) \<le> PAGE_START + PAGE_SIZE * (p + 2 ^ k)"
    using p by (simp add: algebra_simps)
  then have "h + unat (sc_slab_size ?C) < 2 ^ 32"
    using top by (simp add: PHYSTOP_def KERNBASE_def)
  note fits = slab_layout_fits [OF wf this]
  have "unat (sc_object_size ?C) * (i + 1) \<le> unat (sc_object_size ?C) * ?n"
    using i by (intro mult_le_mono2) simp
  then have "object_addr ?C (h, i) + unat (sc_object_size ?C) \<le> h + unat (sc_slab_size ?C)"
    using fits(2) by (simp add: object_addr_def)
  then show thesis using that [OF p(1,2)] fits(1) le top by (simp add: object_addr_def)
qed

lemma slab_free_lookup:
  assumes inv: "cinv c ps fs fr s" "buddy_inv s" and x: "(h, i) \<in> live_objects c ps fs fr s"
  shows "\<exists>q p. page_find_by_address (object_addr (caches s c) (h, i)) = Some q \<and> page_find_head q s = Some p \<and>
    page_address (pages s p) = h"
proof -
  let ?a = "object_addr (caches s c) (h, i)"
  have hi: "h \<in> set ps \<union> set fs" "i < unat (slab_max_object_num (caches s c))" using x by (auto simp: live_objects_def)
  obtain p k where p: "(p, k) \<in> allocs (pages s)" "h = PAGE_START + PAGE_SIZE * p"
    and lo: "h + sizeof_slab_header + 4 * (unat (slab_max_object_num (caches s c)) + 1) \<le> ?a"
    and up: "?a + unat (sc_object_size (caches s c)) \<le> PAGE_START + PAGE_SIZE * (p + 2 ^ k)"
    using object_in_block [OF inv hi] .
  have "0 < unat (sc_object_size (caches s c))" using cache_wf_sizes(3) inv(1) by (simp add: cinv_def)
  then have up': "?a < PAGE_START + PAGE_SIZE * (p + 2 ^ k)" using up by linarith
  define q where "q = (?a - PAGE_START) div PAGE_SIZE"
  have st: "PAGE_START + PAGE_SIZE * p \<le> ?a" using lo p(2) by linarith
  have q: "p \<le> q" "q < p + 2 ^ k"
    using st up' unfolding q_def PAGE_SIZE_def by (simp_all add: less_eq_div_iff_mult_less_eq div_less_iff_less_mult)
  then have "q < PAGE_NUM" using alloc_block_bound [OF inv(2) p(1)] by linarith
  then have "page_find_by_address ?a = Some q"
    using st by (simp add: page_find_by_address_def q_def Let_def)
  moreover have "page_find_head q s = Some p"
    using page_find_head_block [OF inv(2) p(1)] q by (simp add: blk_def)
  moreover have "page_address (pages s p) = h"
  proof -
    have "p < PAGE_NUM" using p(1) by simp
    then have "page_ok (pages s p) p" using inv(2) by (auto simp: buddy_inv_def binv_def)
    then show ?thesis using p(2) by (simp add: page_address_def page_ok_def)
  qed
  ultimately show ?thesis by blast
qed

lemma set_hp_held [simp]: "held (set_hp hp v s) = held s"
  by (cases hp) (simp_all add: upd_slab_def upd_cache_def)

lemma slab_move_lock: "slab_move c header hp h s = Some s' \<Longrightarrow> L_slab \<in> held s"
  by (erule slab_move.raw_induct [rotated])
    (auto simp: Let_def upd_slab_def upd_cache_def k_release_def split: option.splits if_splits)

text \<open>Freeing an object of a slab that still has a free object.\<close>

lemma object_index_eq:
  assumes "cache_wf C" "i < unat (slab_max_object_num C)"
  shows "unat (object_index (object_addr C (h, i)) (slab_object_base C h) (sc_object_size C)) = i"
proof -
  have "i < 2 ^ 32" using assms(2) slab_max_small [OF assms(1)] by simp
  then show ?thesis
    using cache_wf_sizes(3) [OF assms(1)] by (simp add: object_index_def object_addr_def unat_of_nat_32)
qed

lemma slab_ok_put:
  assumes ok: "slab_ok n sh fr" and n: "n < 2 ^ 22" and i: "i < n" "i \<notin> set fr"
  shows "slab_ok n (sh\<lparr>sh_list := (sh_list sh)(i := of_nat (sh_free sh)), sh_free := i\<rparr>) (i # fr)"
    "fr \<noteq> [] \<Longrightarrow> sh_free sh \<noteq> i \<and> sh_list sh (sh_free sh) \<noteq> SLAB_FREE_END"
proof -
  have c: "free_chain (sh_list sh) n (sh_free sh) fr" "sh_list sh n = SLAB_FREE_END" "distinct fr"
    using ok by (auto simp: slab_ok_def)
  have "sh_free sh \<le> n" using free_chain_bound [OF c(1)] by simp
  then have u: "unat (of_nat (sh_free sh) :: u32) = sh_free sh" using n by (intro unat_of_nat_32) simp
  show "slab_ok n (sh\<lparr>sh_list := (sh_list sh)(i := of_nat (sh_free sh)), sh_free := i\<rparr>) (i # fr)"
    using c i u by (simp add: slab_ok_def)
  show "sh_free sh \<noteq> i \<and> sh_list sh (sh_free sh) \<noteq> SLAB_FREE_END" if "fr \<noteq> []"
  proof (cases fr)
    case (Cons a as)
    then have "sh_free sh = a" "a \<noteq> i" "unat (sh_list sh a) \<le> n" using c(1) i free_chain_bound [OF c(1)] by auto
    then show ?thesis using FREE_END_big n by auto
  qed (use that in simp)
qed

definition slab_free_post ::
    "nat \<Rightarrow> nat list \<Rightarrow> nat list \<Rightarrow> (nat \<Rightarrow> nat list) \<Rightarrow> 'a slab_scheme \<Rightarrow> nat \<times> nat \<Rightarrow> 'a slab_scheme \<Rightarrow> bool" where
  "slab_free_post c ps fs fr s x s' \<longleftrightarrow> (\<exists>fr'. cinv c ps fs fr' s' \<and> buddy_inv s' \<and> held s' = held s \<and>
     caches s' = caches s \<and> live_objects c ps fs fr' s' = live_objects c ps fs fr s - {x})"

lemma slab_free_partial:
  assumes inv: "cinv c ps fs fr s" "buddy_inv s" and x: "(h, i) \<in> live_objects c ps fs fr s" and h: "h \<in> set ps"
    and l: "L_cache c \<notin> held s"
  shows "\<exists>s'. slab_cache_free c (object_addr (caches s c) (h, i)) s = Some s' \<and> slab_free_post c ps fs fr s (h, i) s'"
proof -
  let ?C = "caches s c" and ?sh = "slabs s h"
  let ?n = "unat (slab_max_object_num ?C)"
  obtain q p where lk: "page_find_by_address (object_addr ?C (h, i)) = Some q" "page_find_head q s = Some p"
      "page_address (pages s p) = h" using slab_free_lookup [OF inv x] by blast
  have wf: "cache_wf ?C" and dist: "distinct (ps @ fs)" using inv(1) by (auto simp: cinv_def)
  have sh: "slab_ok ?n ?sh (fr h)" "sh_object ?sh = slab_object_base ?C h" "fr h \<noteq> []"
    using inv(1) h by (auto simp: cinv_def)
  have i: "i < ?n" "i \<notin> set (fr h)" using x by (auto simp: live_objects_def)
  note put = slab_ok_put [OF sh(1) slab_max_small [OF wf] i]
  define sh' where "sh' = ?sh\<lparr>sh_list := (sh_list ?sh)(i := of_nat (sh_free ?sh)), sh_free := i\<rparr>"
  define s' where "s' = s\<lparr>slabs := (slabs s)(h := sh')\<rparr>"
  have "slab_cache_free c (object_addr ?C (h, i)) s = Some s'"
    using lk l sh(2,3) put(2) object_index_eq [OF wf i(1), of h]
    by (simp add: slab_cache_free_def lock_simps Let_def upd_slab_def s'_def sh'_def)
  moreover have "cinv c ps fs (fr(h := i # fr h)) s'"
  proof -
    have nx: "hchain ((slabs s)(h := sh')) y xs = hchain (slabs s) y xs" for y xs
      by (rule hchain_upd_next) (simp add: sh'_def)
    have ob: "owns_block s' = owns_block s" by (intro ext) (simp add: owns_block_def s'_def)
    show ?thesis
      using inv(1) h dist put(1) unfolding cinv_def ob
      by (auto simp: nx s'_def sh'_def nx [unfolded sh'_def])
  qed
  moreover have "live_objects c ps fs (fr(h := i # fr h)) s' = live_objects c ps fs fr s - {(h, i)}"
    by (auto simp: live_objects_def s'_def split: if_splits)
  ultimately show ?thesis using inv(2) unfolding slab_free_post_def
    by (intro exI [of _ s'] conjI exI [of _ "fr(h := i # fr h)"]) (simp_all add: s'_def buddy_inv_def)
qed

lemma slab_free_full:
  assumes inv: "cinv c ps fs fr s" "buddy_inv s" and x: "(h, i) \<in> live_objects c ps fs fr s" and h: "h \<in> set fs"
    and l: "L_cache c \<notin> held s" "L_slab \<notin> held s"
  shows "slab_cache_free c (object_addr (caches s c) (h, i)) s = None"
proof -
  let ?C = "caches s c" and ?sh = "slabs s h"
  let ?n = "unat (slab_max_object_num ?C)"
  obtain q p where lk: "page_find_by_address (object_addr ?C (h, i)) = Some q" "page_find_head q s = Some p"
      "page_address (pages s p) = h" using slab_free_lookup [OF inv x] by blast
  have wf: "cache_wf ?C" using inv(1) by (simp add: cinv_def)
  have sh: "slab_ok ?n ?sh []" "sh_object ?sh = slab_object_base ?C h"
    using inv(1) h unfolding cinv_def by (metis UnI2)+
  have i: "i < ?n" using x by (simp add: live_objects_def)
  have put: "sh_free ?sh = ?n" "sh_list ?sh ?n = SLAB_FREE_END" using sh(1) by (auto simp: slab_ok_def)
  define s2 where "s2 = s\<lparr>held := insert (L_cache c) (held s), slabs := (slabs s)(h := ?sh\<lparr>sh_list :=
     (sh_list ?sh)(i := of_nat ?n), sh_free := i\<rparr>)\<rparr>"
  have "slab_cache_free c (object_addr ?C (h, i)) s = slab_move c h (FullOf c) (slabs_full ?C) s2"
    using lk l sh(2) put object_index_eq [OF wf i, of h] i
    by (simp add: slab_cache_free_def lock_simps Let_def upd_slab_def s2_def)
  moreover have "L_slab \<notin> held s2" using l by (simp add: s2_def)
  ultimately show ?thesis
    using slab_move_lock by (metis option.exhaust)
qed

section \<open>Objects do not overlap\<close>

lemma objects_disjoint:
  assumes inv: "cinv c ps fs fr s" "buddy_inv s"
    and x: "(h, i) \<in> live_objects c ps fs fr s" "(g, j) \<in> live_objects c ps fs fr s" "(h, i) \<noteq> (g, j)"
  shows "{object_addr (caches s c) (h, i)..<object_addr (caches s c) (h, i) + unat (sc_object_size (caches s c))} \<inter>
    {object_addr (caches s c) (g, j)..<object_addr (caches s c) (g, j) + unat (sc_object_size (caches s c))} = {}"
proof (cases "h = g")
  case True
  let ?o = "unat (sc_object_size (caches s c))"
  have "?o * i + ?o \<le> ?o * j \<or> ?o * j + ?o \<le> ?o * i"
  proof (cases "i < j")
    case True
    then have "?o * Suc i \<le> ?o * j" by (intro mult_le_mono2) simp
    then show ?thesis by simp
  next
    case False
    then have "j < i" using x(3) \<open>h = g\<close> by auto
    then have "?o * Suc j \<le> ?o * i" by (intro mult_le_mono2) simp
    then show ?thesis by simp
  qed
  then show ?thesis using True by (auto simp: object_addr_def)
next
  case False
  let ?a = "object_addr (caches s c) (h, i)" and ?b = "object_addr (caches s c) (g, j)" and ?o = "unat (sc_object_size (caches s c))"
  have m: "h \<in> set ps \<union> set fs" "i < unat (slab_max_object_num (caches s c))"
    "g \<in> set ps \<union> set fs" "j < unat (slab_max_object_num (caches s c))" using x by (auto simp: live_objects_def)
  obtain p k where p: "(p, k) \<in> allocs (pages s)" "h = PAGE_START + PAGE_SIZE * p"
      "h + sizeof_slab_header + 4 * (unat (slab_max_object_num (caches s c)) + 1) \<le> ?a"
      "?a + ?o \<le> PAGE_START + PAGE_SIZE * (p + 2 ^ k)"
    using object_in_block [OF inv m(1,2)] .
  obtain q l where q: "(q, l) \<in> allocs (pages s)" "g = PAGE_START + PAGE_SIZE * q"
      "g + sizeof_slab_header + 4 * (unat (slab_max_object_num (caches s c)) + 1) \<le> ?b"
      "?b + ?o \<le> PAGE_START + PAGE_SIZE * (q + 2 ^ l)"
    using object_in_block [OF inv m(3,4)] .
  have "p \<noteq> q" using False p(2) q(2) by auto
  then have ne: "(p, k) \<noteq> (q, l)" by simp
  have "(p, k) \<in> heads (pages s)" "(q, l) \<in> heads (pages s)" using p(1) q(1) by auto
  moreover have "buddy_partition (heads (pages s))" using inv(2) by (auto simp: buddy_inv_def binv_def)
  ultimately have "blk (p, k) \<inter> blk (q, l) = {}" using ne unfolding buddy_partition_def by blast
  then have "p + 2 ^ k \<le> q \<or> q + 2 ^ l \<le> p"
    using blk_nonempty [of p k] blk_nonempty [of q l] by (auto simp: blk_def not_less)
  then have "PAGE_SIZE * (p + 2 ^ k) \<le> PAGE_SIZE * q \<or> PAGE_SIZE * (q + 2 ^ l) \<le> PAGE_SIZE * p"
    by (meson mult_le_mono2)
  then have "?a + ?o \<le> ?b \<or> ?b + ?o \<le> ?a" using p(2-4) q(2-4) by linarith
  then show ?thesis by auto
qed

section \<open>Properties of the slab allocator\<close>

text \<open>A booted kernel with one empty cache of 64-byte objects, for the concrete instances.\<close>

definition cache64 :: slab_cache where
  "cache64 = zero_cache\<lparr>sc_slab_size := 4096, sc_object_size := 64\<rparr>"

definition slab_booted :: slab where
  "slab_booted = \<lparr>held = {}, woken = [], pages = pages booted, free_lists = free_lists booted,
     slabs = (\<lambda>_. \<lparr>sh_next = None, sh_free = 0, sh_object = 0, sh_list = (\<lambda>_. 0)\<rparr>),
     caches = (\<lambda>_. cache64), slab_size_limits = slab_size_limit, free_cache_head = None\<rparr>"

lemma cache64_wf: "cache_wf cache64"
  by (auto simp: cache_wf_def cache64_def zero_cache_def PAGE_SIZE_def intro!: exI [of _ 0])

lemma slab_booted_inv: "cinv c [] [] fr slab_booted" "buddy_inv slab_booted" "held slab_booted = {}"
  "is_free (pages slab_booted 0)" "pg_order (pages slab_booted 0) = 10"
  using cache64_wf booted_props
  by (simp_all add: cinv_def slab_booted_def buddy_inv_def cache64_def zero_cache_def)

text \<open>
  C20: On a consistent cache \<^verbatim>\<open>slab_cache_alloc\<close> returns exactly when the cache has a partial slab or the
  page allocator has a free block large enough for a new one; the object it returns was not live, it
  is the only new live object, and the cache and the page allocator stay consistent.
\<close>

theorem slab_cache_alloc_correct:
  assumes "cinv c ps fs fr s" "buddy_inv s" "L_cache c \<notin> held s" "L_buddy \<notin> held s" "L_pages_ref \<notin> held s"
  shows "if ps \<noteq> [] \<or> (\<exists>q < PAGE_NUM. is_free (pages s q) \<and> unat (sc_slab_size (caches s c)) \<le> 2 ^ pg_order (pages s q) * PAGE_SIZE)
         then \<exists>a s'. slab_cache_alloc c s = Some (a, s') \<and> slab_alloc_post c ps fs fr s a s'
         else slab_cache_alloc c s = None"
  using slab_alloc_spec [OF assms] .

lemma slab_booted_room:
  "\<exists>q < PAGE_NUM. is_free (pages slab_booted q) \<and>
     unat (sc_slab_size (caches slab_booted c)) \<le> 2 ^ pg_order (pages slab_booted q) * PAGE_SIZE"
  using slab_booted_inv(4,5)
  by (intro exI [of _ 0]) (simp add: PAGE_NUM_eq slab_booted_def cache64_def zero_cache_def PAGE_SIZE_def)

theorem slab_cache_alloc_correct_witness:
  "\<exists>a s'. slab_cache_alloc 0 slab_booted = Some (a, s') \<and> slab_alloc_post 0 [] [] (\<lambda>_. []) slab_booted a s'"
  using slab_cache_alloc_correct [OF slab_booted_inv(1,2), of 0 "\<lambda>_. []"] slab_booted_inv(3) slab_booted_room [of 0] by simp


text \<open>A slab whose header starts a freshly allocated page and all of whose objects are live.\<close>

lemma full_slab_state:
  obtains h and s :: slab where "cinv 0 [] [h] (\<lambda>_. []) s" "buddy_inv s" "held s = {}"
    "(h, 0) \<in> live_objects 0 [] [h] (\<lambda>_. []) s" "(h, 1) \<in> live_objects 0 [] [h] (\<lambda>_. []) s"
proof -
  obtain p t where t: "buddy_alloc 5000 booted = Some (p, t)" "alloc_post 1 booted p t" "held t = {}"
    using booted_alloc_5000 by blast
  define h where "h = PAGE_START + PAGE_SIZE * p"
  define n where "n = unat (slab_max_object_num cache64)"
  define C where "C = cache64\<lparr>slabs_full := Some h\<rparr>"
  define s :: slab where "s = \<lparr>held = {}, woken = [], pages = pages t, free_lists = free_lists t,
     slabs = (\<lambda>_. \<lparr>sh_next = None, sh_free = n, sh_object = slab_object_base cache64 h, sh_list = (\<lambda>_. SLAB_FREE_END)\<rparr>),
     caches = (\<lambda>_. C), slab_size_limits = slab_size_limit, free_cache_head = None\<rparr>"
  have C: "slab_max_object_num C = slab_max_object_num cache64" "slab_object_base C h = slab_object_base cache64 h"
    "cache_wf C" "unat (sc_slab_size C) = 4096" "slabs_full C = Some h" "slabs_partial C = None"
    using cache64_wf
    by (simp_all add: C_def slab_max_object_num_def slab_object_base_def cache_wf_def Let_def cache64_def zero_cache_def)
  have "(p, 1) \<in> allocs (pages t)" using t(2) by (auto simp: alloc_post_def simp del: mem_allocs)
  then have ob: "owns_block s C h"
    using C(4) unfolding owns_block_def by (intro exI [of _ p] exI [of _ 1]) (simp add: s_def h_def PAGE_SIZE_def)
  have "8 \<le> n" unfolding n_def by (rule slab_max_pos [OF cache64_wf])
  moreover have "cinv 0 [] [h] (\<lambda>_. []) s"
    using ob C by (simp add: cinv_def s_def slab_ok_def n_def)
  moreover have "buddy_inv s" "held s = {}" using t(2) by (simp_all add: s_def buddy_inv_def alloc_post_def)
  ultimately show thesis using that [of h s] C(1) by (simp add: live_objects_def s_def n_def)
qed


text \<open>
  Freeing a live object of a slab that has another free object returns; the object, and only it,
  stops being live, and the cache stays consistent.
\<close>

theorem slab_cache_free_correct:
  assumes "cinv c ps fs fr s" "buddy_inv s" "(h, i) \<in> live_objects c ps fs fr s" "h \<in> set ps" "L_cache c \<notin> held s"
  shows "\<exists>s'. slab_cache_free c (object_addr (caches s c) (h, i)) s = Some s' \<and> slab_free_post c ps fs fr s (h, i) s'"
  using slab_free_partial [OF assms] .

theorem slab_cache_free_correct_witness:
  "\<exists>a s s'. slab_cache_alloc 0 slab_booted = Some (a, s) \<and> slab_cache_free 0 a s = Some s'"
proof -
  obtain a s where s: "slab_cache_alloc 0 slab_booted = Some (a, s)" "slab_alloc_post 0 [] [] (\<lambda>_. []) slab_booted a s"
    using slab_alloc_spec [OF slab_booted_inv(1,2), of 0 "\<lambda>_. []"] slab_booted_inv(3) slab_booted_room [of 0] by auto
  then obtain h i ps fs fr where p: "cinv 0 ps fs fr s" "buddy_inv s" "held s = {}" "a = object_addr (caches s 0) (h, i)"
      "live_objects 0 ps fs fr s = insert (h, i) (live_objects 0 [] [] (\<lambda>_. []) slab_booted)"
    using slab_booted_inv(3) unfolding slab_alloc_post_def by auto
  have live: "live_objects 0 ps fs fr s = {(h, i)}" using p(5) by (simp add: live_objects_def)
  then have hi: "h \<in> set ps \<union> set fs" "i < unat (slab_max_object_num (caches s 0))" by (auto simp: live_objects_def)
  have n8: "8 \<le> unat (slab_max_object_num (caches s 0))" using p(1) by (intro slab_max_pos) (simp add: cinv_def)
  have "h \<notin> set fs"
  proof
    assume "h \<in> set fs"
    then have "fr h = []" using p(1) by (auto simp: cinv_def)
    then have "(h, 0) \<in> live_objects 0 ps fs fr s" "(h, 1) \<in> live_objects 0 ps fs fr s"
      using hi(1) n8 by (auto simp: live_objects_def)
    then show False using live by auto
  qed
  then show ?thesis using slab_cache_free_correct [OF p(1,2), of h i] live hi(1) p(3,4) s(1) by auto
qed

text \<open>
  C29: Freeing an object of a full slab never returns: after moving the slab to the partial list the
  code releases \<^verbatim>\<open>slab_lock\<close>, which it does not hold (it holds the cache's own lock), and
  \<^verbatim>\<open>release\<close> panics.
\<close>

theorem slab_cache_free_full_panics:
  assumes "cinv c ps fs fr s" "buddy_inv s" "(h, i) \<in> live_objects c ps fs fr s" "h \<in> set fs"
    and "L_cache c \<notin> held s" "L_slab \<notin> held s"
  shows "slab_cache_free c (object_addr (caches s c) (h, i)) s = None"
  using slab_free_full [OF assms] .

theorem slab_cache_free_full_panics_witness:
  "\<exists>a (s :: slab). held s = {} \<and> slab_cache_free 0 a s = None"
proof -
  obtain h and s :: slab where s: "cinv 0 [] [h] (\<lambda>_. []) s" "buddy_inv s" "held s = {}"
    "(h, 0) \<in> live_objects 0 [] [h] (\<lambda>_. []) s" using full_slab_state by metis
  then show ?thesis using slab_cache_free_full_panics [OF s(1,2,4)] by auto
qed

text \<open>
  A cache that \<^verbatim>\<open>slab_cache_create\<close> returns has a slab size of a power of two pages in which at
  least eight objects fit, and objects at least as large as asked for; its name has lost its last
  character.
\<close>

theorem slab_cache_create_correct:
  assumes "slab_cache_create name sz al s = Some (Some c, s')"
    and "\<forall>c. free_cache_head s = Some c \<longrightarrow> sc_slab_size (caches s c) = 0"
    and "\<forall>i < PAGE_MAX_DEPTH. slab_size_limits s i = slab_size_limit i"
    and "al = 0 \<or> (\<exists>j < 12. al = 2 ^ j)" "unat sz \<le> 2 ^ 22" "name \<noteq> []"
  shows "cache_wf (caches s' c) \<and> 8 \<le> unat (slab_max_object_num (caches s' c)) \<and>
    unat sz \<le> unat (sc_object_size (caches s' c)) \<and> sc_name (caches s' c) = butlast name"
proof -
  note w = slab_cache_create_wf [OF assms(1-5)]
  have "sc_name (caches s' c) = safestrcpy_str x name (length name)" for x
    using assms(1,6) by (auto simp: slab_cache_create_def upd_cache_def Let_def safestrcpy_str_def split: if_splits option.splits)
  then show ?thesis using w slab_max_pos assms(6) by (simp add: safestrcpy_str_def butlast_conv_take)
qed

theorem slab_cache_create_correct_witness:
  "\<exists>s'. slab_cache_create ''buf'' 64 0 (slab_booted\<lparr>caches := \<lambda>_. zero_cache, free_cache_head := Some 0\<rparr>) = Some (Some 0, s') \<and>
     8 \<le> unat (slab_max_object_num (caches s' 0)) \<and> sc_name (caches s' 0) = ''bu''"
proof -
  define s where "s = slab_booted\<lparr>caches := \<lambda>_. zero_cache, free_cache_head := Some 0\<rparr>"
  have "held s = {}" "free_cache_head s = Some 0" "caches s = (\<lambda>_. zero_cache)" "slab_size_limits s = slab_size_limit"
    by (simp_all add: s_def slab_booted_def)
  moreover have "find_slab_size 11 64 slab_size_limit = Some 4096"
    using find_slab_size.simps(2) [of 10 64 slab_size_limit]
    by (simp add: slab_size_limit_def PAGE_SIZE_def SLAB_HEADER_SIZE_def sizeof_slab_header_def)
  ultimately obtain s' where s': "slab_cache_create ''buf'' 64 0 s = Some (Some 0, s')"
    by (simp add: slab_cache_create_def MAX_SLAB_NAME_def lock_simps slab_cache_new_def upd_cache_def zero_cache_def Let_def)
  have "8 \<le> unat (slab_max_object_num (caches s' 0)) \<and> sc_name (caches s' 0) = butlast ''buf''"
    using slab_cache_create_correct [OF s'] by (simp add: s_def slab_booted_def zero_cache_def)
  then show ?thesis using s' by (simp add: s_def)
qed

end
