(* ===== verification/Ring.thy ===== *)
theory Ring
  imports Kernel_Prelude
begin

text \<open>
  Ring buffers indexed by free-running 32-bit counters, as the pipe and the console use them: the slot
  of counter value \<open>r\<close> is \<open>r mod size\<close>. The locale states what makes the scheme work, that the size
  divides \<open>2 ^ 32\<close>, and proves the queue laws once; the pipe and the console interpret it.
\<close>

definition ring_list :: "nat \<Rightarrow> (nat \<Rightarrow> 'b) \<Rightarrow> u32 \<Rightarrow> nat \<Rightarrow> 'b list" where
  "ring_list sz d r n = map (\<lambda>k. d (unat (r + of_nat k) mod sz)) [0..<n]"

lemma length_ring_list [simp]: "length (ring_list sz d r n) = n"
  by (simp add: ring_list_def)

lemma ring_list_0 [simp]: "ring_list sz d r 0 = []"
  by (simp add: ring_list_def)

lemma ring_list_Cons: "ring_list sz d r (Suc n) = d (unat r mod sz) # ring_list sz d (r + 1) n"
proof -
  have "[0..<Suc n] = 0 # map Suc [0..<n]" by (simp add: map_Suc_upt upt_conv_Cons)
  then show ?thesis by (simp add: ring_list_def comp_def algebra_simps)
qed

lemma ring_list_snoc: "ring_list sz d r (Suc n) = ring_list sz d r n @ [d (unat (r + of_nat n) mod sz)]"
  by (simp add: ring_list_def)

lemma ring_list_append: "ring_list sz d r (m + n) = ring_list sz d r m @ ring_list sz d (r + of_nat m) n"
  by (induction n) (simp_all add: ring_list_snoc add.assoc)

text \<open>Distances between counters.\<close>

lemma unat_succ_diff:
  assumes "unat (w - r :: u32) < 2 ^ 32 - 1"
  shows "unat (w + 1 - r) = Suc (unat (w - r))"
proof -
  have "w + 1 - r = of_nat (Suc (unat (w - r)))" by (simp add: algebra_simps)
  moreover have "unat (of_nat (Suc (unat (w - r))) :: u32) = Suc (unat (w - r))"
    using assms by (intro unat_of_nat_less) simp
  ultimately show ?thesis by (simp only:)
qed

lemma unat_diff_pred:
  assumes "r \<noteq> (w :: u32)"
  shows "unat (w - r) = Suc (unat (w - (r + 1)))"
proof -
  have "unat (w - r) \<noteq> 0" using assms by (simp add: unat_eq_0)
  then obtain m where m: "unat (w - r) = Suc m" by (cases "unat (w - r)") auto
  have "w - r = of_nat (unat (w - r))" by simp
  then have "w - (r + 1) = of_nat m" unfolding m by (simp add: algebra_simps)
  moreover have "m < 2 ^ 32" using m unsigned_less [of "w - r", where 'a = nat] by simp
  ultimately show ?thesis using m unat_of_nat_less [where 'a = 32, of m] by simp
qed

locale ring_buffer =
  fixes sz :: nat
  assumes pos: "0 < sz" and dvd: "sz dvd 2 ^ 32"
begin

lemma slot_eq: "unat (r + of_nat k :: u32) mod sz = (unat r + k) mod sz"
proof -
  have "unat (r + of_nat k) = (unat r + k) mod 2 ^ 32"
    by (simp add: unat_word_ariths unsigned_of_nat take_bit_eq_mod mod_simps)
  then show ?thesis using dvd by (simp only: mod_mod_cancel)
qed

lemma slot_distinct:
  assumes "k < l" "l < k + sz"
  shows "(r + k) mod sz \<noteq> (r + l) mod sz"
proof
  assume "(r + k) mod sz = (r + l) mod sz"
  then have "sz dvd (r + l) - (r + k)" using assms(1) mod_eq_dvd_iff_nat [of "r + k" "r + l" sz] by simp
  then have "sz dvd l - k" by simp
  then show False using assms by (auto dest: dvd_imp_le)
qed

text \<open>Storing behind the last element of a buffer that is not full appends to the queue.\<close>

lemma put:
  assumes "n < sz"
  shows "ring_list sz (d(unat (r + of_nat n) mod sz := x)) r (Suc n) = ring_list sz d r n @ [x]"
proof -
  have "(d(unat (r + of_nat n) mod sz := x)) (unat (r + of_nat k) mod sz) = d (unat (r + of_nat k) mod sz)" if "k < n" for k
    using slot_distinct [of k n "unat r"] that assms by (simp add: slot_eq)
  then have "ring_list sz (d(unat (r + of_nat n) mod sz := x)) r n = ring_list sz d r n"
    by (simp add: ring_list_def)
  then show ?thesis by (simp add: ring_list_snoc)
qed

end

end
