(* ===== verification/Pipe.thy ===== *)
theory Pipe
  imports Kernel_Lock Ring
begin

text \<open>
  Pipes, \<^verbatim>\<open>kernel/pipe.c\<close>: \<^verbatim>\<open>pipewrite\<close>, \<^verbatim>\<open>piperead\<close> and the state change of \<^verbatim>\<open>pipeclose\<close> on a
  \<^verbatim>\<open>struct pipe\<close>, with the 32-bit counters kept at their width. A call that sleeps gives the lock back
  and reports the channel and its progress; it goes on from there when it is woken, so that any
  interleaving of readers and writers is a sequence of such segments. The invariant is that
  the bytes written are the bytes read followed by the bytes in the ring buffer.
\<close>

record pipe =
  pdata :: "nat \<Rightarrow> u8"
  nread :: u32
  nwrite :: u32
  readopen :: bool
  writeopen :: bool

definition PIPESIZE :: nat where "PIPESIZE = 512"

text \<open>How a call segment ends: it returns to its caller, or it sleeps on a channel.\<close>

datatype outcome = Done int | Blocked chan

section \<open>Operations\<close>

text \<open>
  \<open>copyin i\<close> is the user byte at \<^verbatim>\<open>addr + i\<close>, \<^term>\<open>None\<close> when \<^verbatim>\<open>copyin\<close> fails; \<open>killed i\<close> is what
  \<^verbatim>\<open>killed(pr)\<close> yields in iteration \<open>i\<close>. The result carries the final value of the C variable \<open>i\<close>.
\<close>

function pipewrite_loop ::
    "nat \<Rightarrow> (nat \<Rightarrow> u8 option) \<Rightarrow> (nat \<Rightarrow> bool) \<Rightarrow> int \<Rightarrow> nat \<Rightarrow> pipe \<Rightarrow> 'a kstate_scheme
      \<Rightarrow> (outcome \<times> nat \<times> pipe \<times> 'a kstate_scheme) option" where
  "pipewrite_loop pi copyin killed n i p s =
     (let finish = do {
            let s = k_wakeup (Ch_nread pi) s;
            s \<leftarrow> k_release (L_pipe pi) s;
            Some (Done (int i), i, p, s)
          }
      in if int i < n then
           (if \<not> readopen p \<or> killed i then do {
              s \<leftarrow> k_release (L_pipe pi) s;
              Some (Done (-1), i, p, s)
            } else if nwrite p = nread p + of_nat PIPESIZE then do {
              let s = k_wakeup (Ch_nread pi) s;
              s \<leftarrow> k_release (L_pipe pi) s;
              Some (Blocked (Ch_nwrite pi), i, p, s)
            } else
              (case copyin i of
                 None \<Rightarrow> finish
               | Some ch \<Rightarrow>
                   pipewrite_loop pi copyin killed n (i + 1)
                     (p\<lparr>pdata := (pdata p)(unat (nwrite p) mod PIPESIZE := ch), nwrite := nwrite p + 1\<rparr>) s))
         else finish)"
  by pat_completeness auto
termination
  by (relation "measure (\<lambda>(pi, copyin, killed, n, i, p, s). nat (n - int i))") auto

text \<open>A write that starts (\<open>i = 0\<close>) or goes on after a sleep: it takes the lock and enters the loop.\<close>

definition pipewrite_from ::
    "nat \<Rightarrow> (nat \<Rightarrow> u8 option) \<Rightarrow> (nat \<Rightarrow> bool) \<Rightarrow> int \<Rightarrow> nat \<Rightarrow> pipe \<Rightarrow> 'a kstate_scheme
      \<Rightarrow> (outcome \<times> nat \<times> pipe \<times> 'a kstate_scheme) option" where
  "pipewrite_from pi copyin killed n i p s = do {
     s \<leftarrow> k_acquire (L_pipe pi) s;
     pipewrite_loop pi copyin killed n i p s
   }"

definition pipewrite ::
    "nat \<Rightarrow> (nat \<Rightarrow> u8 option) \<Rightarrow> (nat \<Rightarrow> bool) \<Rightarrow> int \<Rightarrow> pipe \<Rightarrow> 'a kstate_scheme
      \<Rightarrow> (outcome \<times> nat \<times> pipe \<times> 'a kstate_scheme) option" where
  "pipewrite pi copyin killed n p s = pipewrite_from pi copyin killed n 0 p s"

text \<open>
  The copy loop of \<^verbatim>\<open>piperead\<close>. It returns the final \<open>i\<close> and the bytes it took out of the ring buffer;
  when \<^verbatim>\<open>copyout\<close> fails the byte it took last was not delivered. \<open>copyout i ch\<close> is whether storing
  \<open>ch\<close> at \<^verbatim>\<open>addr + i\<close> succeeds.
\<close>

function piperead_loop ::
    "(nat \<Rightarrow> u8 \<Rightarrow> bool) \<Rightarrow> int \<Rightarrow> nat \<Rightarrow> pipe \<Rightarrow> nat \<times> u8 list \<times> pipe" where
  "piperead_loop copyout n i p =
     (if int i < n then
        (if nread p = nwrite p then (i, [], p)
         else
           (let ch = pdata p (unat (nread p) mod PIPESIZE);
                p = p\<lparr>nread := nread p + 1\<rparr>
            in if \<not> copyout i ch then (i, [ch], p)
               else (let (j, chs, p) = piperead_loop copyout n (i + 1) p in (j, ch # chs, p))))
      else (i, [], p))"
  by pat_completeness auto
termination
  by (relation "measure (\<lambda>(copyout, n, i, p). nat (n - int i))") auto

definition piperead ::
    "nat \<Rightarrow> (nat \<Rightarrow> u8 \<Rightarrow> bool) \<Rightarrow> bool \<Rightarrow> int \<Rightarrow> pipe \<Rightarrow> 'a kstate_scheme
      \<Rightarrow> (outcome \<times> u8 list \<times> pipe \<times> 'a kstate_scheme) option" where
  "piperead pi copyout killed n p s = do {
     s \<leftarrow> k_acquire (L_pipe pi) s;
     if nread p = nwrite p \<and> writeopen p then
       (if killed then do {
          s \<leftarrow> k_release (L_pipe pi) s;
          Some (Done (-1), [], p, s)
        } else do {
          s \<leftarrow> k_release (L_pipe pi) s;
          Some (Blocked (Ch_nread pi), [], p, s)
        })
     else do {
       let (i, chs, p) = piperead_loop copyout n 0 p;
       let s = k_wakeup (Ch_nwrite pi) s;
       s \<leftarrow> k_release (L_pipe pi) s;
       Some (Done (int i), chs, p, s)
     }
   }"

text \<open>
  \<^verbatim>\<open>pipeclose\<close> on the pipe itself; the flag of the result says that both ends are closed, in which
  case the caller's page is given back with \<^verbatim>\<open>kfree\<close> after the lock is released.
\<close>

definition pipeclose ::
    "nat \<Rightarrow> bool \<Rightarrow> pipe \<Rightarrow> 'a kstate_scheme \<Rightarrow> (bool \<times> pipe \<times> 'a kstate_scheme) option" where
  "pipeclose pi writable p s = do {
     s \<leftarrow> k_acquire (L_pipe pi) s;
     let (p, s) = (if writable then (p\<lparr>writeopen := False\<rparr>, k_wakeup (Ch_nread pi) s)
                   else (p\<lparr>readopen := False\<rparr>, k_wakeup (Ch_nwrite pi) s));
     s \<leftarrow> k_release (L_pipe pi) s;
     Some (\<not> readopen p \<and> \<not> writeopen p, p, s)
   }"

text \<open>The pipe \<^verbatim>\<open>pipealloc\<close> sets up on a fresh page whose old bytes are \<open>d\<close>.\<close>

definition pipe_init :: "(nat \<Rightarrow> u8) \<Rightarrow> pipe" where
  "pipe_init d = \<lparr>pdata = d, nread = 0, nwrite = 0, readopen = True, writeopen = True\<rparr>"

section \<open>The ring buffer as a queue\<close>

text \<open>Number of bytes in the buffer and the bytes themselves, oldest first; both counters may have wrapped.\<close>

definition pcount :: "pipe \<Rightarrow> nat" where
  "pcount p = unat (nwrite p - nread p)"

definition contents :: "pipe \<Rightarrow> u8 list" where
  "contents p = ring_list PIPESIZE (pdata p) (nread p) (pcount p)"

definition pipe_ok :: "pipe \<Rightarrow> bool" where
  "pipe_ok p \<longleftrightarrow> pcount p \<le> PIPESIZE"

lemma length_contents [simp]: "length (contents p) = pcount p"
  by (simp add: contents_def)

lemma pcount_0_iff: "pcount p = 0 \<longleftrightarrow> nread p = nwrite p"
  by (auto simp: pcount_def unat_eq_0)

lemma full_iff: "nwrite p = nread p + of_nat PIPESIZE \<longleftrightarrow> pcount p = PIPESIZE"
proof -
  have "nwrite p = nread p + of_nat PIPESIZE \<longleftrightarrow> nwrite p - nread p = of_nat PIPESIZE" by (auto simp: algebra_simps)
  also have "\<dots> \<longleftrightarrow> unat (nwrite p - nread p) = unat (of_nat PIPESIZE :: u32)" by (rule word_unat_eq_iff)
  also have "unat (of_nat PIPESIZE :: u32) = PIPESIZE" by (simp add: PIPESIZE_def)
  finally show ?thesis by (simp add: pcount_def)
qed

text \<open>Since the buffer size divides \<open>2 ^ 32\<close>, the ring laws apply to it.\<close>

interpretation pring: ring_buffer PIPESIZE
  by unfold_locales (simp_all add: PIPESIZE_def)

lemma contents_put:
  fixes ch :: u8
  assumes ok: "pipe_ok p" and room: "pcount p \<noteq> PIPESIZE"
  defines "p' \<equiv> p\<lparr>pdata := (pdata p)(unat (nwrite p) mod PIPESIZE := ch), nwrite := nwrite p + 1\<rparr>"
  shows "pipe_ok p'" "contents p' = contents p @ [ch]"
proof -
  have lt: "pcount p < PIPESIZE" using ok room by (simp add: pipe_ok_def)
  then have cnt: "pcount p' = Suc (pcount p)"
    using unat_succ_diff [of "nwrite p" "nread p"] by (simp add: pcount_def p'_def PIPESIZE_def)
  then show "pipe_ok p'" using lt by (simp add: pipe_ok_def)
  have "nwrite p = nread p + of_nat (pcount p)" by (simp add: pcount_def)
  then show "contents p' = contents p @ [ch]"
    using pring.put [OF lt, of "pdata p" "nread p" ch] by (simp add: contents_def cnt) (simp add: p'_def)
qed

lemma contents_get:
  assumes "nread p \<noteq> nwrite p"
  defines "p' \<equiv> p\<lparr>nread := nread p + 1\<rparr>"
  shows "contents p = pdata p (unat (nread p) mod PIPESIZE) # contents p'" "pcount p = Suc (pcount p')"
proof -
  show cnt: "pcount p = Suc (pcount p')" using unat_diff_pred [OF assms(1)] by (simp add: pcount_def p'_def)
  show "contents p = pdata p (unat (nread p) mod PIPESIZE) # contents p'"
    by (simp add: contents_def cnt ring_list_Cons p'_def)
qed

section \<open>What a segment does to the queue\<close>

lemmas pipewrite_loop_unfold = pipewrite_loop.simps
declare pipewrite_loop.simps [simp del] piperead_loop.simps [simp del]

lemma pipewrite_loop_queue:
  assumes "pipewrite_loop pi copyin killed n i p s = Some (r, j, p', s')" "pipe_ok p"
  shows "i \<le> j \<and> pipe_ok p' \<and> contents p' = contents p @ map (the \<circ> copyin) [i..<j] \<and>
    (\<forall>k. i \<le> k \<and> k < j \<longrightarrow> copyin k \<noteq> None) \<and> nread p' = nread p \<and> readopen p' = readopen p \<and> writeopen p' = writeopen p"
  using assms
proof (induction pi copyin killed n i p s arbitrary: r j p' s' rule: pipewrite_loop.induct)
  case (1 pi copyin killed n i p s)
  let ?stop = "\<not> (int i < n) \<or> \<not> readopen p \<or> killed i \<or> nwrite p = nread p + of_nat PIPESIZE \<or> copyin i = None"
  show ?case
  proof (cases ?stop)
    case True
    then have "j = i \<and> p' = p" using 1(2) by (subst (asm) pipewrite_loop_unfold) (auto simp: Let_def split: if_splits option.splits)
    then show ?thesis using 1(3) by auto
  next
    case False
    then obtain ch where ch: "copyin i = Some ch" by auto
    define q where "q = p\<lparr>pdata := (pdata p)(unat (nwrite p) mod PIPESIZE := ch), nwrite := nwrite p + 1\<rparr>"
    have "pcount p \<noteq> PIPESIZE" using False full_iff [of p] by simp
    note put = contents_put [OF 1(3) this, of ch, folded q_def]
    have loop: "pipewrite_loop pi copyin killed n (i + 1) q s = Some (r, j, p', s')"
      using 1(2) False ch by (subst (asm) pipewrite_loop_unfold) (simp add: Let_def q_def)
    have IH: "i + 1 \<le> j" "pipe_ok p'" "contents p' = contents q @ map (the \<circ> copyin) [i + 1..<j]"
      "\<forall>k. i + 1 \<le> k \<and> k < j \<longrightarrow> copyin k \<noteq> None" "nread p' = nread q" "readopen p' = readopen q" "writeopen p' = writeopen q"
      using 1(1) [OF refl _ _ _ ch] False loop put(1) by (auto simp: q_def)
    have "[i..<j] = i # [i + 1..<j]" using IH(1) by (simp add: upt_conv_Cons)
    moreover have "copyin k \<noteq> None" if "i \<le> k" "k < j" for k using IH(4) ch that by (cases "k = i") auto
    ultimately show ?thesis using IH put ch by (auto simp: q_def)
  qed
qed

lemma piperead_loop_queue:
  assumes "piperead_loop copyout n i p = (j, chs, p')"
  shows "contents p = chs @ contents p' \<and> pcount p' \<le> pcount p \<and> nwrite p' = nwrite p \<and> i \<le> j \<and>
    (length chs = j - i \<or> length chs = Suc (j - i) \<and> \<not> copyout j (last chs)) \<and>
    readopen p' = readopen p \<and> writeopen p' = writeopen p \<and>
    (length chs = j - i \<longrightarrow> \<not> int j < n \<or> contents p' = []) \<and> (int i \<le> n \<longrightarrow> int j \<le> n)"
  using assms
proof (induction copyout n i p arbitrary: j chs p' rule: piperead_loop.induct)
  case (1 copyout n i p)
  show ?case
  proof (cases "int i < n \<and> nread p \<noteq> nwrite p")
    case False
    then have "j = i \<and> chs = [] \<and> p' = p" using 1(2) by (subst (asm) piperead_loop.simps) (auto split: if_splits)
    moreover have "contents p = []" if "int i < n" using False that pcount_0_iff [of p] by (simp add: contents_def)
    ultimately show ?thesis by auto
  next
    case True
    define ch where "ch = pdata p (unat (nread p) mod PIPESIZE)"
    define q where "q = p\<lparr>nread := nread p + 1\<rparr>"
    have "nread p \<noteq> nwrite p" using True by simp
    note get = contents_get [OF this, folded q_def ch_def]
    show ?thesis
    proof (cases "copyout i ch")
      case False
      then have "j = i \<and> chs = [ch] \<and> p' = q"
        using 1(2) True by (subst (asm) piperead_loop.simps) (auto simp: Let_def ch_def q_def)
      then show ?thesis using get False True by (simp add: q_def)
    next
      case ok: True
      obtain l cs r where loop: "piperead_loop copyout n (i + 1) q = (l, cs, r)" by (metis prod_cases3)
      have "piperead_loop copyout n i p = (l, ch # cs, r)"
        using True ok loop by (subst piperead_loop.simps) (simp add: Let_def ch_def [symmetric] q_def [symmetric])
      then have res: "j = l" "chs = ch # cs" "p' = r" using 1(2) by simp_all
      have IH: "contents q = cs @ contents r" "pcount r \<le> pcount q" "nwrite r = nwrite q" "i + 1 \<le> l"
        "length cs = l - (i + 1) \<or> length cs = Suc (l - (i + 1)) \<and> \<not> copyout l (last cs)"
        "readopen r = readopen q" "writeopen r = writeopen q"
        "length cs = l - (i + 1) \<longrightarrow> \<not> int l < n \<or> contents r = []" "int (i + 1) \<le> n \<longrightarrow> int l \<le> n"
        using 1(1) [OF conjunct1 [OF True] conjunct2 [OF True] ch_def q_def _ loop] ok by blast+
      have "l - i = Suc (l - (i + 1))" using IH(4) by simp
      then have "length chs = l - i \<or> length chs = Suc (l - i) \<and> \<not> copyout l (last chs)"
        using IH(5) res(2) by (cases cs) auto
      moreover have "length chs = l - i \<longrightarrow> \<not> int l < n \<or> contents r = []"
        using IH(8) res(2) \<open>l - i = Suc (l - (i + 1))\<close> by simp
      ultimately show ?thesis using IH(1-4,6,7,9) get True unfolding res by (auto simp: q_def)
    qed
  qed
qed

text \<open>How a write segment ends.\<close>

definition write_end :: "nat \<Rightarrow> (nat \<Rightarrow> u8 option) \<Rightarrow> (nat \<Rightarrow> bool) \<Rightarrow> int \<Rightarrow> nat \<Rightarrow> outcome \<Rightarrow> pipe \<Rightarrow> bool" where
  "write_end pi copyin killed n j r p' \<longleftrightarrow>
     (case r of
        Done k \<Rightarrow> k = -1 \<and> (\<not> readopen p' \<or> killed j) \<or> k = int j \<and> (n \<le> int j \<or> copyin j = None)
      | Blocked ch \<Rightarrow> ch = Ch_nwrite pi \<and> pcount p' = PIPESIZE \<and> int j < n)"

lemma pipewrite_loop_ends:
  assumes "L_pipe pi \<in> held s"
  shows "\<exists>r j p' s'. pipewrite_loop pi copyin killed n i p s = Some (r, j, p', s') \<and>
    held s' = held s - {L_pipe pi} \<and> write_end pi copyin killed n j r p' \<and>
    (r = Done (-1) \<or> Ch_nread pi \<in> set (woken s'))"
  using assms
proof (induction pi copyin killed n i p s rule: pipewrite_loop.induct)
  case (1 pi copyin killed n i p s)
  show ?case
  proof (cases "int i < n \<and> readopen p \<and> \<not> killed i \<and> nwrite p \<noteq> nread p + of_nat PIPESIZE \<and> copyin i \<noteq> None")
    case False
    then show ?thesis
      using 1(2) by (subst pipewrite_loop_unfold)
        (auto simp: Let_def lock_simps k_wakeup_def write_end_def full_iff [symmetric] split: option.splits)
  next
    case True
    then obtain ch where ch: "copyin i = Some ch" by auto
    show ?thesis
      using 1(1) [OF refl _ _ _ ch] True ch 1(2) by (subst pipewrite_loop_unfold) (simp add: Let_def)
  qed
qed

lemma piperead_queue:
  assumes "piperead pi copyout killed n p s = Some (r, chs, p', s')"
  shows "contents p = chs @ contents p'" "pcount p' \<le> pcount p" "writeopen p' = writeopen p" "readopen p' = readopen p"
proof -
  obtain j cs q where l: "piperead_loop copyout n 0 p = (j, cs, q)" by (metis prod_cases3)
  note q = piperead_loop_queue [OF l]
  show "contents p = chs @ contents p'" "pcount p' \<le> pcount p" "writeopen p' = writeopen p" "readopen p' = readopen p"
    using assms q by (auto simp: piperead_def l Let_def split: if_splits)
qed

section \<open>Readers and writers together\<close>

text \<open>
  One step is a segment of some call: a write that starts or goes on, a read that starts or goes on
  after a sleep, or a close, each in any kernel state. \<open>W\<close> collects the bytes put into the buffer,
  \<open>R\<close> those taken out.
\<close>

inductive pipe_step :: "nat \<Rightarrow> pipe \<times> u8 list \<times> u8 list \<Rightarrow> pipe \<times> u8 list \<times> u8 list \<Rightarrow> bool" for pi :: nat where
  do_write: "pipewrite_from pi copyin killed n i p (s :: kstate) = Some (r, j, p', s') \<Longrightarrow>
     pipe_step pi (p, W, R) (p', W @ map (the \<circ> copyin) [i..<j], R)"
| do_read: "piperead pi copyout killed n p (s :: kstate) = Some (r, chs, p', s') \<Longrightarrow>
     pipe_step pi (p, W, R) (p', W, R @ chs)"
| do_close: "pipeclose pi w p (s :: kstate) = Some (b, p', s') \<Longrightarrow> pipe_step pi (p, W, R) (p', W, R)"

inductive_cases pipe_stepE: "pipe_step pi (p, W, R) c"

lemma pipe_step_fifo:
  assumes "pipe_step pi (p, W, R) (p', W', R')" "pipe_ok p" "W = R @ contents p"
  shows "pipe_ok p' \<and> W' = R' @ contents p'"
  using assms
proof (cases rule: pipe_step.cases)
  case (do_write copyin killed n i s r j s')
  have "pipewrite_loop pi copyin killed n i p (s\<lparr>held := insert (L_pipe pi) (held s)\<rparr>) = Some (r, j, p', s')"
    using do_write by (auto simp: pipewrite_from_def k_acquire_def split: if_splits)
  from pipewrite_loop_queue [OF this assms(2)] show ?thesis using do_write assms(3) by simp
next
  case (do_read copyout killed n s r chs s')
  note q = piperead_queue [OF do_read(3)]
  show ?thesis using q(1,2) do_read assms(2,3) by (simp add: pipe_ok_def)
next
  case (do_close w s b s')
  then have "pdata p' = pdata p" "nread p' = nread p" "nwrite p' = nwrite p"
    by (auto simp: pipeclose_def Let_def split: if_splits)
  then show ?thesis using do_close assms(2,3) by (simp add: pipe_ok_def pcount_def contents_def)
qed

lemma pipe_steps_fifo:
  assumes "(pipe_step pi)\<^sup>*\<^sup>* (p, W, R) (p', W', R')" "pipe_ok p" "W = R @ contents p"
  shows "pipe_ok p' \<and> W' = R' @ contents p'"
  using assms
proof (induction "(p, W, R)" arbitrary: p W R rule: converse_rtranclp_induct)
  case (step c)
  obtain q V S where c: "c = (q, V, S)" by (metis prod_cases3)
  show ?case using pipe_step_fifo [of pi p W R q V S] step c by blast
qed simp

section \<open>Properties\<close>

text \<open>
  C18: A pipe is a FIFO of at most 512 bytes: in every state reachable from a new pipe by any
  interleaving of read, write and close segments, the bytes written are the bytes taken out
  followed by the bytes in the buffer, also after the 32-bit counters have wrapped around.
\<close>

theorem pipe_fifo:
  assumes "(pipe_step pi)\<^sup>*\<^sup>* (pipe_init d, [], []) (p, W, R)"
  shows "W = R @ contents p \<and> length (contents p) \<le> PIPESIZE"
proof -
  have "pipe_ok (pipe_init d)" "contents (pipe_init d) = []"
    by (simp_all add: pipe_ok_def pcount_def pipe_init_def contents_def)
  then show ?thesis using pipe_steps_fifo [OF assms] by (simp add: pipe_ok_def)
qed

definition calm :: kstate where
  "calm = \<lparr>held = {}, woken = []\<rparr>"

theorem pipe_fifo_witness: "\<exists>p. contents p = [65, 66] \<and> length (contents p) \<le> PIPESIZE"
proof -
  let ?cp = "\<lambda>i. Some (of_nat (65 + i) :: u8)" and ?kl = "\<lambda>_ :: nat. False" and ?p = "pipe_init (\<lambda>_. 0)"
  have ex: "\<exists>r j p' s'. pipewrite_from 0 ?cp ?kl 2 0 ?p calm = Some (r, j, p', s') \<and> j = 2"
    by (simp add: pipewrite_from_def calm_def lock_simps pipewrite_loop_unfold Let_def PIPESIZE_def pipe_init_def
        k_wakeup_def)
  then obtain r p s where w: "pipewrite_from 0 ?cp ?kl 2 0 ?p calm = Some (r, 2, p, s)" by blast
  have "pipe_step 0 (?p, [], []) (p, [] @ map (the \<circ> ?cp) [0..<2], [])" by (rule pipe_step.do_write [OF w])
  then have "(pipe_step 0)\<^sup>*\<^sup>* (?p, [], []) (p, [65, 66], [])" by (simp add: upt_conv_Cons eval_nat_numeral)
  from pipe_fifo [OF this] show ?thesis by auto
qed

text \<open>
  A write segment on a pipe whose lock is free always returns the lock and ends in one of the ways
  the code has: with -1 when the read end is closed or the process was killed, with the number of
  bytes copied when all are in or a user address faults, or asleep on a full buffer, after
  waking the readers.
\<close>

theorem pipewrite_segment:
  assumes "L_pipe pi \<notin> held s"
  shows "\<exists>r j p' s'. pipewrite_from pi copyin killed n i p s = Some (r, j, p', s') \<and> held s' = held s \<and>
    write_end pi copyin killed n j r p' \<and> (r = Done (-1) \<or> Ch_nread pi \<in> set (woken s'))"
  using pipewrite_loop_ends [of pi "s\<lparr>held := insert (L_pipe pi) (held s)\<rparr>" copyin killed n i p] assms
  by (auto simp: pipewrite_from_def lock_simps)

theorem pipewrite_segment_witness:
  "\<exists>r j p' s'. pipewrite_from 0 (\<lambda>_. None) (\<lambda>_. False) 4 0 (pipe_init (\<lambda>_. 0)) calm = Some (r, j, p', s') \<and> held s' = {}"
  using pipewrite_segment [of 0 calm "\<lambda>_. None" "\<lambda>_. False" 4 0 "pipe_init (\<lambda>_. 0)"] by (auto simp: calm_def)

text \<open>
  A reader and a writer cannot block each other: on a pipe that left a writer asleep, a read of at
  least one byte with working user memory returns at least one byte and wakes the writers.
\<close>

theorem pipe_reader_unblocks_writer:
  assumes "pipewrite_from pi copyin killed m i p s = Some (Blocked ch, j, p', s')"
    and "L_pipe pi \<notin> held s''" "0 < n" "\<forall>k c. copyout k c"
  shows "\<exists>k q t. piperead pi copyout kl n p' s'' = Some (Done (int (length k)), k, q, t) \<and> k \<noteq> [] \<and>
    ch \<in> set (woken t) \<and> pcount q < PIPESIZE"
proof -
  have l: "L_pipe pi \<notin> held s" using assms(1) by (auto simp: pipewrite_from_def k_acquire_def split: if_splits)
  have "write_end pi copyin killed m j (Blocked ch) p'"
    using pipewrite_loop_ends [of pi "s\<lparr>held := insert (L_pipe pi) (held s)\<rparr>" copyin killed m i p] assms(1) l
    by (auto simp: pipewrite_from_def lock_simps)
  then have ch: "ch = Ch_nwrite pi" and full: "pcount p' = PIPESIZE" by (auto simp: write_end_def)
  then have ne: "nread p' \<noteq> nwrite p'" using pcount_0_iff [of p'] by (simp add: PIPESIZE_def)
  obtain l cs q where loop: "piperead_loop copyout n 0 p' = (l, cs, q)" by (metis prod_cases3)
  note pq = piperead_loop_queue [OF loop]
  have len: "length cs = l" using pq assms(4) by auto
  have "cs \<noteq> []"
    using loop ne assms(3,4) by (subst (asm) piperead_loop.simps) (auto simp: Let_def split: prod.splits)
  have "length (contents p') = length cs + length (contents q)" using pq by (metis length_append)
  then have "pcount q < PIPESIZE" using full \<open>cs \<noteq> []\<close> by (cases cs) auto
  moreover have "piperead pi copyout kl n p' s'' = Some (Done (int l), cs, q, k_wakeup (Ch_nwrite pi) s'')"
    using assms(2) ne loop by (simp add: piperead_def lock_simps k_wakeup_def)
  ultimately show ?thesis using len \<open>cs \<noteq> []\<close> ch by (simp add: k_wakeup_def)
qed

theorem pipe_reader_unblocks_writer_witness:
  "\<exists>ch j p s k q t. pipewrite_from 0 (\<lambda>_. Some 7) (\<lambda>_. False) 1 0 ((pipe_init (\<lambda>_. 0))\<lparr>nwrite := 512\<rparr>) calm =
       Some (Blocked ch, j, p, s) \<and>
     piperead 0 (\<lambda>_ _. True) False 1 p s = Some (Done (int (length k)), k, q, t) \<and> k \<noteq> [] \<and> ch \<in> set (woken t)"
proof -
  let ?full = "(pipe_init (\<lambda>_. 0))\<lparr>nwrite := 512\<rparr>"
  have w: "pipewrite_from 0 (\<lambda>_. Some 7) (\<lambda>_. False) 1 0 ?full calm =
      Some (Blocked (Ch_nwrite 0), 0, ?full, k_wakeup (Ch_nread 0) calm)"
    by (simp add: pipewrite_from_def calm_def lock_simps pipewrite_loop_unfold Let_def PIPESIZE_def pipe_init_def k_wakeup_def)
  have "L_pipe 0 \<notin> held (k_wakeup (Ch_nread 0) calm)" by (simp add: k_wakeup_def calm_def)
  from pipe_reader_unblocks_writer [OF w this, of 1 "\<lambda>_ _. True" False] w show ?thesis by auto
qed

end
