(* ===== verification/Console.thy ===== *)
theory Console
  imports Kernel_Lock Ring
begin

text \<open>
  The console, \<^verbatim>\<open>kernel/console.c\<close>: the input ring buffer with its read, write and edit indices, the
  interrupt handler that edits the current line, and reads that deliver at most one line. The
  abstract console is a queue of committed bytes and a line being edited; the lemmas
  show that the handler and the reader implement it.
\<close>

section \<open>Data\<close>

definition INPUT_BUF_SIZE :: nat where "INPUT_BUF_SIZE = 128"

text \<open>\<open>tx\<close> collects what \<^verbatim>\<open>uartputc\<close> and \<^verbatim>\<open>uartputc_sync\<close> were given, latest last.\<close>

record cons =
  cbuf :: "nat \<Rightarrow> u8"
  c_r :: u32
  c_w :: u32
  c_e :: u32
  tx :: "u8 list"

definition ctrl :: "u8 \<Rightarrow> u8" where "ctrl x = x - 64"

definition C_P :: u8 where "C_P = ctrl 80"
definition C_U :: u8 where "C_U = ctrl 85"
definition C_H :: u8 where "C_H = ctrl 72"
definition C_D :: u8 where "C_D = ctrl 68"
definition DEL :: u8 where "DEL = 127"
definition NL :: u8 where "NL = 10"
definition CR :: u8 where "CR = 13"

section \<open>Output\<close>

text \<open>\<^verbatim>\<open>BACKSPACE\<close> is 0x100, outside the range of a byte, so the argument is \<^term>\<open>None\<close> for it.\<close>

definition consputc :: "u8 option \<Rightarrow> cons \<Rightarrow> cons" where
  "consputc c k =
     (case c of
        None \<Rightarrow> k\<lparr>tx := tx k @ [8, 32, 8]\<rparr>
      | Some ch \<Rightarrow> if ch = NL then k\<lparr>tx := tx k @ [CR, ch]\<rparr> else k\<lparr>tx := tx k @ [ch]\<rparr>)"

text \<open>\<open>copyin i\<close> is the byte at \<^verbatim>\<open>src + i\<close>, \<^term>\<open>None\<close> when \<^verbatim>\<open>either_copyin\<close> fails.\<close>

function consolewrite_loop :: "(nat \<Rightarrow> u8 option) \<Rightarrow> int \<Rightarrow> nat \<Rightarrow> cons \<Rightarrow> int \<times> cons" where
  "consolewrite_loop copyin n i k =
     (if int i < n then
        (case copyin i of
           None \<Rightarrow> (int i, k)
         | Some c \<Rightarrow> consolewrite_loop copyin n (i + 1) (k\<lparr>tx := tx k @ [c]\<rparr>))
      else (int i, k))"
  by pat_completeness auto
termination
  by (relation "measure (\<lambda>(copyin, n, i, k). nat (n - int i))") auto

definition consolewrite :: "(nat \<Rightarrow> u8 option) \<Rightarrow> int \<Rightarrow> cons \<Rightarrow> int \<times> cons" where
  "consolewrite copyin n k = consolewrite_loop copyin n 0 k"

section \<open>Input\<close>

text \<open>The loop of the kill-line key; the edit index stays at or after the write index.\<close>

function kill_line :: "cons \<Rightarrow> cons" where
  "kill_line k =
     (if c_e k \<noteq> c_w k \<and> cbuf k (unat (c_e k - 1) mod INPUT_BUF_SIZE) \<noteq> NL
      then kill_line (consputc None (k\<lparr>c_e := c_e k - 1\<rparr>)) else k)"
  by pat_completeness auto
termination
proof (relation "measure (\<lambda>k. unat (c_e k - c_w k))")
  fix k :: cons
  assume "c_e k \<noteq> c_w k \<and> cbuf k (unat (c_e k - 1) mod INPUT_BUF_SIZE) \<noteq> NL"
  then show "(consputc None (k\<lparr>c_e := c_e k - 1\<rparr>), k) \<in> measure (\<lambda>k. unat (c_e k - c_w k))"
    using unat_diff_pred [of "c_w k" "c_e k"] by (auto simp: consputc_def algebra_simps)
qed simp

text \<open>
  The handler for one input byte. \<^verbatim>\<open>procdump\<close> only prints. The lock is taken and given back around
  it and \<open>wakeup\<close> is called when a line is complete, so the handler runs on the kernel state too.
\<close>

definition cons_store :: "u8 \<Rightarrow> cons \<Rightarrow> 'a kstate_scheme \<Rightarrow> cons \<times> 'a kstate_scheme" where
  "cons_store c k s =
     (if c \<noteq> 0 \<and> c_e k - c_r k < of_nat INPUT_BUF_SIZE then
        (let c = (if c = CR then NL else c);
             k = consputc (Some c) k;
             k = k\<lparr>cbuf := (cbuf k)(unat (c_e k) mod INPUT_BUF_SIZE := c), c_e := c_e k + 1\<rparr>
         in if c = NL \<or> c = C_D \<or> c_e k - c_r k = of_nat INPUT_BUF_SIZE
            then (k\<lparr>c_w := c_e k\<rparr>, k_wakeup Ch_cons_r s) else (k, s))
      else (k, s))"

definition consoleintr :: "u8 \<Rightarrow> cons \<Rightarrow> 'a kstate_scheme \<Rightarrow> (cons \<times> 'a kstate_scheme) option" where
  "consoleintr c k s = do {
     s \<leftarrow> k_acquire L_cons s;
     let (k, s) =
       (if c = C_P then (k, s)
        else if c = C_U then (kill_line k, s)
        else if c = C_H \<or> c = DEL then
          (if c_e k \<noteq> c_w k then (consputc None (k\<lparr>c_e := c_e k - 1\<rparr>), s) else (k, s))
        else cons_store c k s);
     s \<leftarrow> k_release L_cons s;
     Some (k, s)
   }"

text \<open>
  \<^verbatim>\<open>consoleread\<close> from the loop head on, with \<open>n\<close> bytes still wanted out of \<open>target\<close>. \<open>copyout c\<close> is
  whether delivering \<open>c\<close> succeeds. The result is the number of bytes delivered so far, \<^term>\<open>Inl\<close>
  of it when the reader sleeps, together with the bytes delivered in this segment.
\<close>

function consoleread_loop ::
    "(u8 \<Rightarrow> bool) \<Rightarrow> bool \<Rightarrow> int \<Rightarrow> int \<Rightarrow> cons \<Rightarrow> (int + int) \<times> u8 list \<times> cons" where
  "consoleread_loop copyout killed target n k =
     (if n > 0 then
        (if c_r k = c_w k then (if killed then Inr (-1) else Inl n, [], k)
         else
           (let c = cbuf k (unat (c_r k) mod INPUT_BUF_SIZE);
                k = k\<lparr>c_r := c_r k + 1\<rparr>
            in if c = C_D then (Inr (target - n), [], if n < target then k\<lparr>c_r := c_r k - 1\<rparr> else k)
               else if \<not> copyout c then (Inr (target - n), [], k)
               else if c = NL then (Inr (target - (n - 1)), [c], k)
               else (let (r, cs, k) = consoleread_loop copyout killed target (n - 1) k in (r, c # cs, k))))
      else (Inr (target - n), [], k))"
  by pat_completeness auto
termination
  by (relation "measure (\<lambda>(copyout, killed, target, n, k). nat n)") auto

text \<open>A read that starts (\<open>n = target\<close>) or goes on after a sleep.\<close>

definition consoleread_from ::
    "(u8 \<Rightarrow> bool) \<Rightarrow> bool \<Rightarrow> int \<Rightarrow> int \<Rightarrow> cons \<Rightarrow> 'a kstate_scheme
      \<Rightarrow> ((int + int) \<times> u8 list \<times> cons \<times> 'a kstate_scheme) option" where
  "consoleread_from copyout killed target n k s = do {
     s \<leftarrow> k_acquire L_cons s;
     let (r, cs, k) = consoleread_loop copyout killed target n k;
     s \<leftarrow> k_release L_cons s;
     Some (r, cs, k, s)
   }"

definition consoleread ::
    "(u8 \<Rightarrow> bool) \<Rightarrow> bool \<Rightarrow> int \<Rightarrow> cons \<Rightarrow> 'a kstate_scheme
      \<Rightarrow> ((int + int) \<times> u8 list \<times> cons \<times> 'a kstate_scheme) option" where
  "consoleread copyout killed n k s = consoleread_from copyout killed n n k s"

definition cons_init :: "(nat \<Rightarrow> u8) \<Rightarrow> cons" where
  "cons_init d = \<lparr>cbuf = d, c_r = 0, c_w = 0, c_e = 0, tx = []\<rparr>"

declare kill_line.simps [simp del] consoleread_loop.simps [simp del] consolewrite_loop.simps [simp del]

section \<open>The abstract console\<close>

text \<open>The bytes readers may have, and the line being edited.\<close>

definition committed :: "cons \<Rightarrow> u8 list" where
  "committed k = ring_list INPUT_BUF_SIZE (cbuf k) (c_r k) (unat (c_w k - c_r k))"

definition editing :: "cons \<Rightarrow> u8 list" where
  "editing k = ring_list INPUT_BUF_SIZE (cbuf k) (c_w k) (unat (c_e k - c_w k))"

definition cons_ok :: "cons \<Rightarrow> bool" where
  "cons_ok k \<longleftrightarrow> unat (c_e k - c_r k) = unat (c_w k - c_r k) + unat (c_e k - c_w k) \<and>
     unat (c_e k - c_r k) \<le> INPUT_BUF_SIZE \<and> NL \<notin> set (editing k)"

text \<open>What a key does to the two queues.\<close>

definition abs_key :: "u8 \<Rightarrow> u8 list \<times> u8 list \<Rightarrow> u8 list \<times> u8 list" where
  "abs_key c q =
     (if c = C_P then q
      else if c = C_U then (fst q, [])
      else if c = C_H \<or> c = DEL then (fst q, butlast (snd q))
      else if c = 0 \<or> INPUT_BUF_SIZE \<le> length (fst q) + length (snd q) then q
      else let c = (if c = CR then NL else c)
           in if c = NL \<or> c = C_D \<or> length (fst q) + length (snd q) + 1 = INPUT_BUF_SIZE
              then (fst q @ snd q @ [c], []) else (fst q, snd q @ [c]))"

interpretation cring: ring_buffer INPUT_BUF_SIZE
  by unfold_locales (simp_all add: INPUT_BUF_SIZE_def)

section \<open>The handler implements the abstract console\<close>

lemma consputc_simps [simp]:
  "cbuf (consputc c k) = cbuf k" "c_r (consputc c k) = c_r k" "c_w (consputc c k) = c_w k" "c_e (consputc c k) = c_e k"
  by (auto simp: consputc_def split: option.split)

lemma cons_cong:
  assumes "cbuf k' = cbuf k" "c_r k' = c_r k" "c_w k' = c_w k" "c_e k' = c_e k"
  shows "committed k' = committed k" "editing k' = editing k" "cons_ok k' = cons_ok k"
  using assms by (simp_all add: committed_def editing_def cons_ok_def)

lemma lengths [simp]:
  "length (committed k) = unat (c_w k - c_r k)" "length (editing k) = unat (c_e k - c_w k)"
  by (simp_all add: committed_def editing_def)

text \<open>Dropping the last byte of the edited line.\<close>

lemma edit_pop:
  assumes ok: "cons_ok k" and ne: "c_e k \<noteq> c_w k"
  defines "k' \<equiv> k\<lparr>c_e := c_e k - 1\<rparr>"
  shows "editing k = editing k' @ [cbuf k (unat (c_e k - 1) mod INPUT_BUF_SIZE)]" "committed k' = committed k" "cons_ok k'"
    "unat (c_e k - c_w k) = Suc (unat (c_e k' - c_w k'))"
proof -
  have n: "unat (c_e k - c_w k) = Suc (unat (c_e k - 1 - c_w k))"
    using unat_diff_pred [of "c_w k" "c_e k"] ne by (auto simp: algebra_simps)
  then show "unat (c_e k - c_w k) = Suc (unat (c_e k' - c_w k'))" by (simp add: k'_def)
  have "c_e k - 1 = c_w k + of_nat (unat (c_e k - 1 - c_w k))" by simp
  then show ed: "editing k = editing k' @ [cbuf k (unat (c_e k - 1) mod INPUT_BUF_SIZE)]"
    unfolding editing_def n ring_list_snoc by (simp add: k'_def)
  show "committed k' = committed k" by (simp add: committed_def k'_def)
  have "c_e k \<noteq> c_r k" using ok n by (auto simp: cons_ok_def)
  then have "unat (c_e k - c_r k) = Suc (unat (c_e k - 1 - c_r k))"
    using unat_diff_pred [of "c_r k" "c_e k"] by (auto simp: algebra_simps)
  then show "cons_ok k'" using ok n ed unfolding cons_ok_def by (simp add: k'_def)
qed

lemma kill_line_correct:
  assumes "cons_ok k"
  shows "committed (kill_line k) = committed k \<and> editing (kill_line k) = [] \<and> cons_ok (kill_line k)"
  using assms
proof (induction k rule: kill_line.induct)
  case (1 k)
  show ?case
  proof (cases "c_e k = c_w k")
    case True
    then have "kill_line k = k" by (simp add: kill_line.simps)
    then show ?thesis using 1(2) True by (simp add: editing_def)
  next
    case False
    let ?k = "consputc None (k\<lparr>c_e := c_e k - 1\<rparr>)"
    note pop = edit_pop [OF 1(2) False]
    have cond: "c_e k \<noteq> c_w k \<and> cbuf k (unat (c_e k - 1) mod INPUT_BUF_SIZE) \<noteq> NL"
      using False 1(2) pop(1) by (auto simp: cons_ok_def)
    have same: "committed ?k = committed k" "cons_ok ?k"
      using pop(2,3) cons_cong [of ?k "k\<lparr>c_e := c_e k - 1\<rparr>"] by simp_all
    have "kill_line k = kill_line ?k" using cond by (subst kill_line.simps) simp
    then show ?thesis using 1(1) [OF cond same(2)] same(1) by simp
  qed
qed

text \<open>Appending a byte to the edited line.\<close>

lemma edit_push:
  fixes c :: u8
  assumes ok: "cons_ok k" and room: "unat (c_e k - c_r k) < INPUT_BUF_SIZE"
  defines "k' \<equiv> k\<lparr>cbuf := (cbuf k)(unat (c_e k) mod INPUT_BUF_SIZE := c), c_e := c_e k + 1\<rparr>"
  shows "committed k' = committed k" "editing k' = editing k @ [c]"
    "unat (c_e k' - c_r k') = unat (c_e k - c_r k) + 1" "unat (c_e k' - c_w k') = unat (c_e k - c_w k) + 1"
proof -
  let ?a = "unat (c_w k - c_r k)" and ?b = "unat (c_e k - c_w k)" and ?t = "unat (c_e k - c_r k)"
  have t: "?t = ?a + ?b" using ok by (simp add: cons_ok_def)
  show er: "unat (c_e k' - c_r k') = ?t + 1"
    using unat_succ_diff [of "c_e k" "c_r k"] room by (simp add: k'_def INPUT_BUF_SIZE_def)
  show ew: "unat (c_e k' - c_w k') = ?b + 1"
    using unat_succ_diff [of "c_e k" "c_w k"] room t by (simp add: k'_def INPUT_BUF_SIZE_def)
  have w: "c_w k = c_r k + of_nat ?a" by simp
  have e: "c_e k = c_r k + of_nat ?t" by simp
  have old: "ring_list INPUT_BUF_SIZE (cbuf k) (c_r k) ?t = committed k @ editing k"
    unfolding t ring_list_append by (simp add: committed_def editing_def)
  have "ring_list INPUT_BUF_SIZE (cbuf k') (c_r k) (Suc ?t) = (committed k @ editing k) @ [c]"
    using cring.put [OF room, of "cbuf k" "c_r k" c] old e by (simp add: k'_def)
  moreover have "ring_list INPUT_BUF_SIZE (cbuf k') (c_r k) (Suc ?t) = committed k' @ editing k'"
    using ring_list_append [of INPUT_BUF_SIZE "cbuf k'" "c_r k" ?a "Suc ?b"] t ew
    by (simp add: committed_def editing_def) (simp add: k'_def)
  ultimately have "committed k' @ editing k' = committed k @ (editing k @ [c])" by simp
  moreover have "length (committed k') = length (committed k)" by (simp add: k'_def)
  ultimately show "committed k' = committed k" "editing k' = editing k @ [c]" by (simp_all add: append_eq_append_conv)
qed

lemma cons_store_correct:
  assumes ok: "cons_ok k" and st: "cons_store c k s = (k', s')" and nk: "c \<notin> {C_P, C_U, C_H, DEL}"
  shows "cons_ok k' \<and> (committed k', editing k') = abs_key c (committed k, editing k) \<and>
    (s' = (if committed k' = committed k then s else k_wakeup Ch_cons_r s))"
proof (cases "c \<noteq> 0 \<and> unat (c_e k - c_r k) < INPUT_BUF_SIZE")
  case False
  have "\<not> (c \<noteq> 0 \<and> c_e k - c_r k < of_nat INPUT_BUF_SIZE)"
    using False by (simp add: word_less_nat_alt INPUT_BUF_SIZE_def)
  then have "k' = k" "s' = s" using st by (auto simp: cons_store_def)
  then show ?thesis using False ok nk by (auto simp: abs_key_def cons_ok_def)
next
  case True
  define d where "d = (if c = CR then NL else c)"
  define j where "j = consputc (Some d) k"
  define m where "m = j\<lparr>cbuf := (cbuf j)(unat (c_e j) mod INPUT_BUF_SIZE := d), c_e := c_e j + 1\<rparr>"
  have okj: "cons_ok j" and rj: "unat (c_e j - c_r j) < INPUT_BUF_SIZE"
    using ok True cons_cong [of j k] by (simp_all add: j_def)
  note push = edit_push [OF okj rj, of d, folded m_def]
  have same: "committed j = committed k" "editing j = editing k" using cons_cong [of j k] by (simp_all add: j_def)
  let ?line = "d = NL \<or> d = C_D \<or> unat (c_e m - c_r m) = INPUT_BUF_SIZE"
  have lim: "c_e m - c_r m = of_nat INPUT_BUF_SIZE \<longleftrightarrow> unat (c_e m - c_r m) = INPUT_BUF_SIZE"
    by (simp add: word_unat_eq_iff INPUT_BUF_SIZE_def)
  have res: "(k', s') = (if ?line then (m\<lparr>c_w := c_e m\<rparr>, k_wakeup Ch_cons_r s) else (m, s))"
  proof -
    have g: "c \<noteq> 0 \<and> c_e k - c_r k < of_nat INPUT_BUF_SIZE" using True by (simp add: word_less_nat_alt INPUT_BUF_SIZE_def)
    show ?thesis
      using st unfolding cons_store_def if_P [OF g] Let_def d_def [symmetric] j_def [symmetric] m_def [symmetric] lim
      by (rule sym)
  qed
  have tot: "unat (c_e k - c_r k) = length (committed k) + length (editing k)" using ok by (simp add: cons_ok_def)
  have tm: "unat (c_e m - c_r m) = length (committed k) + length (editing k) + 1"
    using push(3) tot by (simp add: j_def)
  have ak: "abs_key c (committed k, editing k) = (if ?line then (committed k @ editing k @ [d], []) else (committed k, editing k @ [d]))"
    using nk True tot tm by (simp add: abs_key_def d_def Let_def)
  show ?thesis
  proof (cases ?line)
    case line: True
    have okm: "unat (c_e m - c_r m) = unat (c_w m - c_r m) + unat (c_e m - c_w m)"
      using push(3,4) okj by (simp add: cons_ok_def m_def)
    have "committed (m\<lparr>c_w := c_e m\<rparr>) = committed m @ editing m"
      using ring_list_append [of INPUT_BUF_SIZE "cbuf m" "c_r m" "unat (c_w m - c_r m)" "unat (c_e m - c_w m)"] okm
      by (simp add: committed_def editing_def)
    moreover have "editing (m\<lparr>c_w := c_e m\<rparr>) = []" by (simp add: editing_def)
    moreover have "cons_ok (m\<lparr>c_w := c_e m\<rparr>)"
      using rj push(3) by (simp add: cons_ok_def editing_def)
    ultimately show ?thesis using res line ak push(1,2) same by simp
  next
    case False
    have "cons_ok m"
      using push okj rj False by (simp add: cons_ok_def) (auto simp: m_def)
    then show ?thesis using res False ak push(1,2) same by simp
  qed
qed

lemma consoleintr_correct:
  assumes ok: "cons_ok k" and l: "L_cons \<notin> held s"
  shows "\<exists>k' s'. consoleintr c k s = Some (k', s') \<and> cons_ok k' \<and> held s' = held s \<and>
    (committed k', editing k') = abs_key c (committed k, editing k) \<and>
    woken s' = (if committed k' = committed k then woken s else Ch_cons_r # woken s)"
proof -
  define s1 where "s1 = s\<lparr>held := insert L_cons (held s)\<rparr>"
  have neq: "C_U \<noteq> C_P" "C_H \<noteq> C_P" "C_H \<noteq> C_U" "DEL \<noteq> C_P" "DEL \<noteq> C_U"
    by (simp_all add: C_U_def C_P_def C_H_def DEL_def ctrl_def)
  consider (p) "c = C_P" | (u) "c = C_U" | (h) "c = C_H \<or> c = DEL" | (d) "c \<notin> {C_P, C_U, C_H, DEL}" by blast
  then show ?thesis
  proof cases
    case p
    then show ?thesis using ok l by (simp add: consoleintr_def lock_simps abs_key_def)
  next
    case u
    then show ?thesis using kill_line_correct [OF ok] l neq by (simp add: consoleintr_def lock_simps abs_key_def)
  next
    case h
    show ?thesis
    proof (cases "c_e k = c_w k")
      case True
      then have "editing k = []" by (simp add: editing_def)
      then show ?thesis using h True ok l neq by (auto simp: consoleintr_def lock_simps abs_key_def)
    next
      case False
      note pop = edit_pop [OF ok False]
      let ?k = "consputc None (k\<lparr>c_e := c_e k - 1\<rparr>)"
      have "committed ?k = committed k" "editing ?k = butlast (editing k)" "cons_ok ?k"
        using pop cons_cong [of ?k "k\<lparr>c_e := c_e k - 1\<rparr>"] by simp_all
      then show ?thesis using h False l neq by (auto simp: consoleintr_def lock_simps abs_key_def)
    qed
  next
    case d
    obtain k' s' where st: "cons_store c k s1 = (k', s')" by fastforce
    note c = cons_store_correct [OF ok st d]
    have "L_cons \<in> held s'" "held s' - {L_cons} = held s" "woken s' = (if committed k' = committed k then woken s else Ch_cons_r # woken s)"
      using c l by (auto simp: s1_def k_wakeup_def)
    then show ?thesis using d l st c by (simp add: consoleintr_def lock_simps s1_def)
  qed
qed

section \<open>Reads\<close>

text \<open>
  What a read of \<open>n\<close> more bytes takes from the committed bytes: it stops after a newline, and at an
  end-of-file mark, which it leaves for the next read when it has delivered something already.
  The flag says that it ran out of input.
\<close>

fun abs_read :: "nat \<Rightarrow> bool \<Rightarrow> u8 list \<Rightarrow> u8 list \<times> u8 list \<times> bool" where
  "abs_read 0 started cs = ([], cs, False)"
| "abs_read (Suc n) started [] = ([], [], True)"
| "abs_read (Suc n) started (c # cs) =
     (if c = C_D then ([], if started then c # cs else cs, False)
      else if c = NL then ([c], cs, False)
      else let (d, r, b) = abs_read n True cs in (c # d, r, b))"

lemma read_pop:
  assumes ok: "cons_ok k" and ne: "c_r k \<noteq> c_w k"
  defines "k' \<equiv> k\<lparr>c_r := c_r k + 1\<rparr>"
  shows "committed k = cbuf k (unat (c_r k) mod INPUT_BUF_SIZE) # committed k'" "editing k' = editing k" "cons_ok k'"
proof -
  have n: "unat (c_w k - c_r k) = Suc (unat (c_w k - (c_r k + 1)))" by (rule unat_diff_pred [OF ne])
  then show "committed k = cbuf k (unat (c_r k) mod INPUT_BUF_SIZE) # committed k'"
    by (simp add: committed_def ring_list_Cons k'_def)
  show ed: "editing k' = editing k" by (simp add: editing_def k'_def)
  have "c_r k \<noteq> c_e k" using ok n by (auto simp: cons_ok_def)
  then have "unat (c_e k - c_r k) = Suc (unat (c_e k - (c_r k + 1)))" by (rule unat_diff_pred)
  then show "cons_ok k'" using ok n ed by (simp add: cons_ok_def k'_def)
qed

lemma consoleread_loop_correct:
  assumes "cons_ok k" "\<And>c. copyout c" "0 \<le> n" "n \<le> target"
  shows "\<exists>k' d b. consoleread_loop copyout False target n k =
      (if b then Inl (n - int (length d)) else Inr (target - n + int (length d)), d, k') \<and>
    abs_read (nat n) (n < target) (committed k) = (d, committed k', b) \<and> cons_ok k' \<and> editing k' = editing k"
  using assms
proof (induction copyout False target n k rule: consoleread_loop.induct)
  case (1 copyout target n k)
  show ?case
  proof (cases "n > 0")
    case False
    then show ?thesis using 1(2,4) by (subst consoleread_loop.simps) auto
  next
    case pos: True
    then obtain m where m: "nat n = Suc m" "int m = n - 1" by (cases "nat n") auto
    show ?thesis
    proof (cases "c_r k = c_w k")
      case True
      then have "committed k = []" by (simp add: committed_def)
      then show ?thesis using True pos m 1(2) by (subst consoleread_loop.simps) auto
    next
      case False
      define c where "c = cbuf k (unat (c_r k) mod INPUT_BUF_SIZE)"
      define q where "q = k\<lparr>c_r := c_r k + 1\<rparr>"
      note pop = read_pop [OF 1(2) False, folded c_def q_def]
      have unf: "consoleread_loop copyout False target n k =
        (if c = C_D then (Inr (target - n), [], if n < target then q\<lparr>c_r := c_r q - 1\<rparr> else q)
         else if c = NL then (Inr (target - (n - 1)), [c], q)
         else (let (r, cs, k) = consoleread_loop copyout False target (n - 1) q in (r, c # cs, k)))"
        using pos False 1(3) by (subst consoleread_loop.simps) (simp add: Let_def c_def q_def)
      have undo: "q\<lparr>c_r := c_r q - 1\<rparr> = k" by (simp add: q_def)
      show ?thesis
      proof (cases "c = C_D \<or> c = NL")
        case True
        then show ?thesis using unf undo pop 1(2) m by (auto simp: C_D_def NL_def ctrl_def)
      next
        case nd: False
        have "\<exists>k' d b. consoleread_loop copyout False target (n - 1) q =
            (if b then Inl (n - 1 - int (length d)) else Inr (target - (n - 1) + int (length d)), d, k') \<and>
          abs_read (nat (n - 1)) (n - 1 < target) (committed q) = (d, committed k', b) \<and> cons_ok k' \<and> editing k' = editing q"
          using 1(1) [OF pos False c_def q_def] nd 1(3,5) pop(3) pos by auto
        then obtain k' d b where IH: "consoleread_loop copyout False target (n - 1) q =
            (if b then Inl (n - 1 - int (length d)) else Inr (target - (n - 1) + int (length d)), d, k')"
          "abs_read (nat (n - 1)) (n - 1 < target) (committed q) = (d, committed k', b)" "cons_ok k'" "editing k' = editing q"
          by blast
        have "abs_read (nat n) (n < target) (committed k) = (c # d, committed k', b)"
          using IH(2) nd pop(1) m 1(5) by (simp add: nat_diff_distrib')
        then show ?thesis using unf nd IH pop(2) by (intro exI [of _ k'] exI [of _ "c # d"] exI [of _ b]) auto
      qed
    qed
  qed
qed

section \<open>Properties\<close>

text \<open>A burst of input bytes, one interrupt each.\<close>

fun type_keys :: "u8 list \<Rightarrow> cons \<Rightarrow> 'a kstate_scheme \<Rightarrow> (cons \<times> 'a kstate_scheme) option" where
  "type_keys [] k s = Some (k, s)"
| "type_keys (c # cs) k s = do { (k, s) \<leftarrow> consoleintr c k s; type_keys cs k s }"

text \<open>
  C19: The console input handler implements the two-queue console: after any sequence of input
  bytes the committed bytes and the edited line are those of the abstract console (erase, kill,
  carriage return, end of file and a full buffer included), the handler always returns and gives
  its lock back, and the ring indices stay within the buffer.
\<close>

theorem console_input_refines:
  assumes "cons_ok k" "L_cons \<notin> held s"
  shows "\<exists>k' s'. type_keys cs k s = Some (k', s') \<and> cons_ok k' \<and> held s' = held s \<and>
    (committed k', editing k') = fold abs_key cs (committed k, editing k)"
  using assms
proof (induction cs arbitrary: k s)
  case (Cons c cs)
  obtain k1 s1 where 1: "consoleintr c k s = Some (k1, s1)" "cons_ok k1" "held s1 = held s"
      "(committed k1, editing k1) = abs_key c (committed k, editing k)"
    using consoleintr_correct [OF Cons.prems, of c] by blast
  then show ?case using Cons.IH [of k1 s1] Cons.prems(2) by simp
qed simp

definition quiet :: kstate where
  "quiet = \<lparr>held = {}, woken = []\<rparr>"

lemma cons_init_ok: "cons_ok (cons_init d)" "committed (cons_init d) = []" "editing (cons_init d) = []"
  by (simp_all add: cons_ok_def cons_init_def committed_def editing_def)

theorem console_input_refines_witness:
  "\<exists>k s. type_keys [97, 98, 127, 99, 13, 100] (cons_init (\<lambda>_. 0)) quiet = Some (k, s) \<and>
     committed k = [97, 99, 10] \<and> editing k = [100]"
proof -
  have "fold abs_key [97, 98, 127, 99, 13, 100] ([], []) = ([97, 99, 10], [100 :: u8])"
    by (simp add: abs_key_def C_P_def C_U_def C_H_def C_D_def DEL_def NL_def CR_def ctrl_def INPUT_BUF_SIZE_def)
  then show ?thesis
    using console_input_refines [OF cons_init_ok(1), of quiet "[97, 98, 127, 99, 13, 100]" "\<lambda>_. 0"]
    by (auto simp: quiet_def cons_init_ok)
qed

text \<open>
  A console read with working user memory takes from the committed bytes exactly what the
  abstract read takes: up to \<open>n\<close> bytes, ending after a newline or before an end-of-file mark, which
  stays for the next read if bytes were delivered; it returns the number of bytes delivered, sleeps
  only when it ran out of input, and leaves the edited line alone.
\<close>

theorem consoleread_line:
  assumes "cons_ok k" "\<And>c. copyout c" "0 \<le> n" "L_cons \<notin> held s"
  shows "\<exists>k' d b s'. consoleread copyout False n k s =
      Some (if b then Inl (n - int (length d)) else Inr (int (length d)), d, k', s') \<and>
    abs_read (nat n) False (committed k) = (d, committed k', b) \<and> cons_ok k' \<and> editing k' = editing k \<and> held s' = held s"
proof -
  obtain k' d b where l: "consoleread_loop copyout False n n k =
      (if b then Inl (n - int (length d)) else Inr (n - n + int (length d)), d, k')"
    "abs_read (nat n) (n < n) (committed k) = (d, committed k', b)" "cons_ok k'" "editing k' = editing k"
    using consoleread_loop_correct [of k copyout n n, OF assms(1,2,3)] by blast
  have "consoleread copyout False n k s = Some (if b then Inl (n - int (length d)) else Inr (int (length d)), d, k', s)"
    using assms(4) l(1) by (simp add: consoleread_def consoleread_from_def lock_simps)
  then show ?thesis using l(2-4) by auto
qed

theorem consoleread_line_witness:
  "\<exists>k d s. consoleread (\<lambda>_. True) False 5 (cons_init (\<lambda>_. 10)\<lparr>c_w := 2, c_e := 2\<rparr>) quiet =
     Some (Inr (int (length d)), d, k, s) \<and> d = [10]"
proof -
  let ?k = "cons_init (\<lambda>_. 10)\<lparr>c_w := 2, c_e := 2\<rparr>"
  have "committed ?k = ring_list INPUT_BUF_SIZE (\<lambda>_. 10) 0 2" by (simp add: committed_def cons_init_def)
  also have "\<dots> = [10, 10]" unfolding numeral_2_eq_2 by (simp add: ring_list_Cons)
  finally have c: "committed ?k = [10, 10]" .
  have ok: "cons_ok ?k" by (simp add: cons_init_def cons_ok_def editing_def INPUT_BUF_SIZE_def)
  have a: "abs_read (nat 5) False (committed ?k) = ([10], [10], False)"
    unfolding c using abs_read.simps(3) [of 4 False 10 "[10]"] by (simp add: C_D_def NL_def ctrl_def)
  obtain k' d b s' where r: "consoleread (\<lambda>_. True) False 5 ?k quiet =
      Some (if b then Inl (5 - int (length d)) else Inr (int (length d)), d, k', s')"
    "abs_read (nat 5) False (committed ?k) = (d, committed k', b)"
    using consoleread_line [OF ok, of "\<lambda>_. True" 5 quiet] by (auto simp: quiet_def)
  have "d = [10]" "\<not> b" using r(2) unfolding a by auto
  then show ?thesis using r(1) by auto
qed

end
