(* ===== verification/Bio.thy ===== *)
theory Bio
  imports Slab_Correct Klist
begin

text \<open>
  The buffer cache, \<^verbatim>\<open>kernel/bio.c\<close>, on top of the request queue of \<^verbatim>\<open>kernel/sd.c\<close> and the slab
  allocator. The driver functions \<^verbatim>\<open>mmc_bread\<close> and \<^verbatim>\<open>mmc_bwrite\<close>, which \<^verbatim>\<open>include/mmc.h\<close> only
  declares, are a parameter \<open>M\<close> on a card state of any type; \<open>mmc_ok\<close> states what the kernel relies
  on: transfers inside the card succeed, a read yields the sectors, a write changes just them. A call
  that sleeps yields \<open>Inr\<close> of the wait channel, with the state it leaves.
\<close>

unbundle bit_operations_syntax

section \<open>Data\<close>

record buf =
  b_flags :: u32
  b_dev :: u32
  b_blockno :: u32
  b_refcnt :: u32
  b_data :: "nat option"

definition B_BUSY :: u32 where "B_BUSY = 0x1"
definition B_VALID :: u32 where "B_VALID = 0x2"
definition B_DIRTY :: u32 where "B_DIRTY = 0x4"
definition NBUF :: nat where "NBUF = 126"
definition BSIZE :: nat where "BSIZE = 4096"
definition SECTOR_SIZE :: nat where "SECTOR_SIZE = 512"
definition BLKSECT :: nat where "BLKSECT = BSIZE div SECTOR_SIZE"
definition FATMINOR :: u32 where "FATMINOR = 0"

text \<open>
  Node 0 of \<open>clinks\<close> is \<^verbatim>\<open>bcache.head\<close> and node \<open>i + 1\<close> is \<^verbatim>\<open>bcache.buf[i].clink\<close>; likewise \<open>dlinks\<close> with
  \<^verbatim>\<open>sdque\<close> and \<^verbatim>\<open>dlink\<close>. \<open>blkmem d\<close> are the bytes of the slab object at address \<open>d\<close>.
\<close>

record 'c bio = slab +
  bufs :: "nat \<Rightarrow> buf"
  clinks :: nodes
  dlinks :: nodes
  BUFDATA :: nat
  blkmem :: "nat \<Rightarrow> nat \<Rightarrow> u8"
  card :: 'c
  ptlba :: "u32 \<Rightarrow> u32"

text \<open>
  The driver: \<open>mmc_bread start n c\<close> is the number of sectors read, the bytes, and the card after the
  call; \<open>mmc_bwrite start n d c\<close> is the number of sectors written and the card.
\<close>

record 'c mmc_ops =
  mmc_bread :: "nat \<Rightarrow> nat \<Rightarrow> 'c \<Rightarrow> nat \<times> (nat \<Rightarrow> u8) \<times> 'c"
  mmc_bwrite :: "nat \<Rightarrow> nat \<Rightarrow> (nat \<Rightarrow> u8) \<Rightarrow> 'c \<Rightarrow> nat \<times> 'c"

definition mmc_ok :: "'c mmc_ops \<Rightarrow> ('c \<Rightarrow> nat \<Rightarrow> nat \<Rightarrow> u8) \<Rightarrow> nat \<Rightarrow> bool" where
  "mmc_ok M sector secs \<longleftrightarrow>
     (\<forall>st n c. st + n \<le> secs \<longrightarrow> (\<exists>d c'. mmc_bread M st n c = (n, d, c') \<and> sector c' = sector c \<and>
        (\<forall>k < n * SECTOR_SIZE. d k = sector c (st + k div SECTOR_SIZE) (k mod SECTOR_SIZE)))) \<and>
     (\<forall>st n d c. st + n \<le> secs \<longrightarrow> (\<exists>c'. mmc_bwrite M st n d c = (n, c') \<and>
        (\<forall>i k. k < SECTOR_SIZE \<longrightarrow> sector c' i k =
           (if st \<le> i \<and> i < st + n then d ((i - st) * SECTOR_SIZE + k) else sector c i k))))"

definition upd_buf :: "nat \<Rightarrow> (buf \<Rightarrow> buf) \<Rightarrow> ('c, 'a) bio_scheme \<Rightarrow> ('c, 'a) bio_scheme" where
  "upd_buf b f s = s\<lparr>bufs := (bufs s)(b := f (bufs s b))\<rparr>"

section \<open>\<^verbatim>\<open>kernel/sd.c\<close>\<close>

text \<open>\<^verbatim>\<open>fs_lba\<close> of \<^verbatim>\<open>include/sd.h\<close>: the first sector of a partition.\<close>

definition fs_lba :: "u32 \<Rightarrow> ('c, 'a) bio_scheme \<Rightarrow> u32" where
  "fs_lba dev s = ptlba s dev"

text \<open>One round of the loop of \<^verbatim>\<open>sd_start\<close>, for the buffer at the front of the queue.\<close>

definition sd_request :: "'c mmc_ops \<Rightarrow> nat \<Rightarrow> ('c, 'a) bio_scheme \<Rightarrow> ('c, 'a) bio_scheme option" where
  "sd_request M b s = do {
     let blks = (if b_dev (bufs s b) = FATMINOR then 1 else BLKSECT);
     d \<leftarrow> b_data (bufs s b);
     s \<leftarrow> (if b_flags (bufs s b) AND B_DIRTY \<noteq> 0
            then (let (n, c) = mmc_bwrite M (unat (b_blockno (bufs s b))) blks (blkmem s d) (card s)
                  in if n = blks then Some (s\<lparr>card := c\<rparr>) else None)
            else (let (n, bytes, c) = mmc_bread M (unat (b_blockno (bufs s b))) blks (card s)
                  in if n = blks then Some (s\<lparr>card := c, blkmem := (blkmem s)(d :=
                       (\<lambda>k. if k < blks * SECTOR_SIZE then bytes k else blkmem s d k))\<rparr>) else None));
     let s = upd_buf b (\<lambda>x. x\<lparr>b_flags := b_flags x OR B_VALID\<rparr>) s;
     let s = upd_buf b (\<lambda>x. x\<lparr>b_flags := b_flags x AND NOT B_DIRTY\<rparr>) s;
     let s = s\<lparr>dlinks := list_pop_front 0 (dlinks s)\<rparr>;
     Some (k_wakeup (Ch_buf b) s)
   }"

partial_function (option) sd_start :: "'c mmc_ops \<Rightarrow> ('c, 'a) bio_scheme \<Rightarrow> ('c, 'a) bio_scheme option" where
  "sd_start M s =
     (if list_empty 0 (dlinks s) then Some s
      else do { s \<leftarrow> sd_request M (list_front 0 (dlinks s) - 1) s; sd_start M s })"

definition sd_rw :: "'c mmc_ops \<Rightarrow> nat \<Rightarrow> ('c, 'a) bio_scheme \<Rightarrow> ((unit + chan) \<times> ('c, 'a) bio_scheme) option" where
  "sd_rw M b s = do {
     s \<leftarrow> k_acquire L_sd s;
     let s = s\<lparr>dlinks := list_push_back 0 (b + 1) (dlinks s)\<rparr>;
     s \<leftarrow> (if list_front 0 (dlinks s) = b + 1 then sd_start M s else Some s);
     if b_flags (bufs s b) AND (B_VALID OR B_DIRTY) \<noteq> B_VALID then do {
       s \<leftarrow> k_release L_sd s;
       Some (Inr (Ch_buf b), s)
     } else do {
       s \<leftarrow> k_release L_sd s;
       Some (Inl (), s)
     }
   }"

section \<open>\<^verbatim>\<open>kernel/bio.c\<close>\<close>

text \<open>\<open>align\<close> is \<^verbatim>\<open>ARCH_DMA_MINALIGN\<close>. A failed \<^verbatim>\<open>slab_cache_create\<close> leaves \<^verbatim>\<open>BUFDATA\<close> null.\<close>

definition binit :: "u32 \<Rightarrow> ('c, 'a) bio_scheme \<Rightarrow> ('c, 'a) bio_scheme option" where
  "binit align s = do {
     (c, s) \<leftarrow> slab_cache_create ''buf.data'' 4096 align s;
     let s = s\<lparr>BUFDATA := (case c of Some c \<Rightarrow> c | None \<Rightarrow> 0)\<rparr>;
     let s = s\<lparr>clinks := list_init 0 (clinks s)\<rparr>;
     Some (s\<lparr>clinks := fold (\<lambda>b N. list_push_back 0 (b + 1) N) [0..<NBUF] (clinks s)\<rparr>)
   }"

definition bget :: "u32 \<Rightarrow> u32 \<Rightarrow> ('c, 'a) bio_scheme \<Rightarrow> ((nat + chan) \<times> ('c, 'a) bio_scheme) option" where
  "bget dev bno s = do {
     let blockno = fs_lba dev s + bno * of_nat BLKSECT;
     s \<leftarrow> k_acquire L_bcache s;
     r \<leftarrow> list_foreach_find 0 (\<lambda>n. b_dev (bufs s (n - 1)) = dev \<and> b_blockno (bufs s (n - 1)) = blockno) (clinks s);
     case r of
       Some n \<Rightarrow>
         (let b = n - 1
          in if b_flags (bufs s b) AND B_BUSY = 0 then do {
               let s = upd_buf b (\<lambda>x. x\<lparr>b_flags := b_flags x OR B_BUSY\<rparr>) s;
               let s = upd_buf b (\<lambda>x. x\<lparr>b_refcnt := b_refcnt x + 1\<rparr>) s;
               s \<leftarrow> k_release L_bcache s;
               Some (Inl b, s)
             } else do {
               s \<leftarrow> k_release L_bcache s;
               Some (Inr (Ch_buf b), s)
             })
     | None \<Rightarrow> do {
         r \<leftarrow> list_foreach_reverse_find 0 (\<lambda>n. b_flags (bufs s (n - 1)) AND B_BUSY = 0 \<and>
                b_flags (bufs s (n - 1)) AND B_DIRTY = 0) (clinks s);
         n \<leftarrow> r;
         let b = n - 1;
         let s = upd_buf b (\<lambda>x. x\<lparr>b_dev := dev, b_blockno := blockno, b_flags := B_BUSY, b_refcnt := 1\<rparr>) s;
         s \<leftarrow> (case b_data (bufs s b) of
                 Some _ \<Rightarrow> Some s
               | None \<Rightarrow> do {
                   (d, s) \<leftarrow> slab_cache_alloc (BUFDATA s) s;
                   Some (upd_buf b (\<lambda>x. x\<lparr>b_data := Some d\<rparr>) s)
                 });
         s \<leftarrow> k_release L_bcache s;
         Some (Inl b, s)
       }
   }"

definition bread :: "'c mmc_ops \<Rightarrow> u32 \<Rightarrow> u32 \<Rightarrow> ('c, 'a) bio_scheme \<Rightarrow> ((nat + chan) \<times> ('c, 'a) bio_scheme) option" where
  "bread M dev bno s = do {
     (r, s) \<leftarrow> bget dev bno s;
     case r of
       Inr ch \<Rightarrow> Some (Inr ch, s)
     | Inl b \<Rightarrow>
         if b_flags (bufs s b) AND B_VALID = 0 then do {
           (r, s) \<leftarrow> sd_rw M b s;
           Some (case r of Inl _ \<Rightarrow> Inl b | Inr ch \<Rightarrow> Inr ch, s)
         } else Some (Inl b, s)
   }"

definition bwrite :: "'c mmc_ops \<Rightarrow> nat \<Rightarrow> ('c, 'a) bio_scheme \<Rightarrow> ((unit + chan) \<times> ('c, 'a) bio_scheme) option" where
  "bwrite M b s =
     (if b_flags (bufs s b) AND B_BUSY = 0 then None
      else sd_rw M b (upd_buf b (\<lambda>x. x\<lparr>b_flags := b_flags x OR B_DIRTY\<rparr>) s))"

definition brelse :: "nat \<Rightarrow> ('c, 'a) bio_scheme \<Rightarrow> ('c, 'a) bio_scheme option" where
  "brelse b s =
     (if b_flags (bufs s b) AND B_BUSY = 0 then None
      else do {
        s \<leftarrow> k_acquire L_bcache s;
        let s = s\<lparr>clinks := list_drop (b + 1) (clinks s)\<rparr>;
        let s = s\<lparr>clinks := list_push_back 0 (b + 1) (clinks s)\<rparr>;
        let s = upd_buf b (\<lambda>x. x\<lparr>b_refcnt := b_refcnt x - 1\<rparr>) s;
        let s = upd_buf b (\<lambda>x. x\<lparr>b_flags := b_flags x AND NOT B_BUSY\<rparr>) s;
        let s = k_wakeup (Ch_buf b) s;
        k_release L_bcache s
      })"

text \<open>\<^verbatim>\<open>kernel/log.c\<close> as it is compiled: the log is disabled and \<^verbatim>\<open>log_write\<close> writes through.\<close>

definition log_write :: "'c mmc_ops \<Rightarrow> nat \<Rightarrow> ('c, 'a) bio_scheme \<Rightarrow> ((unit + chan) \<times> ('c, 'a) bio_scheme) option" where
  "log_write M b s = bwrite M b s"

end
