(* ===== verification/Bio_Correct.thy ===== *)
theory Bio_Correct
  imports Bio
begin

text \<open>
  The buffer cache is coherent with the card. The invariant \<open>bio_inv\<close> has as ghost arguments the order
  of the cache list and the slabs behind the data pointers; it says that no block is cached twice and
  that every valid buffer nobody holds has the bytes of its block.
\<close>

unbundle bit_operations_syntax

section \<open>Flags\<close>

lemma bflag_bits:
  "(x AND B_BUSY = 0) = (\<not> bit x 0)" "(x AND B_VALID = 0) = (\<not> bit x (Suc 0))" "(x AND B_DIRTY = 0) = (\<not> bit x 2)"
proof -
  have e: "B_BUSY = push_bit 0 1" "B_VALID = push_bit (Suc 0) 1" "B_DIRTY = push_bit 2 1"
    by (simp_all add: B_BUSY_def B_VALID_def B_DIRTY_def push_bit_eq_mult)
  show "(x AND B_BUSY = 0) = (\<not> bit x 0)" "(x AND B_VALID = 0) = (\<not> bit x (Suc 0))" "(x AND B_DIRTY = 0) = (\<not> bit x 2)"
    unfolding e by (metis and_exp_eq_0_iff_not_bit push_bit_of_1)+
qed

lemma bflag_bit: "bit B_BUSY n \<longleftrightarrow> n = 0" "bit B_VALID n \<longleftrightarrow> n = Suc 0" "bit B_DIRTY n \<longleftrightarrow> n = 2"
proof -
  have e: "B_BUSY = push_bit 0 1" "B_VALID = push_bit (Suc 0) 1" "B_DIRTY = push_bit 2 1"
    by (simp_all add: B_BUSY_def B_VALID_def B_DIRTY_def push_bit_eq_mult)
  show "bit B_BUSY n \<longleftrightarrow> n = 0" "bit B_VALID n \<longleftrightarrow> n = Suc 0" "bit B_DIRTY n \<longleftrightarrow> n = 2"
    unfolding e bit_push_bit_iff bit_1_iff by (auto simp: possible_bit_word)
qed

lemma bflag_vd: "(x AND (B_VALID OR B_DIRTY) = B_VALID) = (bit x (Suc 0) \<and> \<not> bit x 2)"
proof -
  have b: "bit (x AND (B_VALID OR B_DIRTY)) n = (bit x n \<and> (n = Suc 0 \<or> n = 2))" for n
    unfolding bit_and_iff bit_or_iff bflag_bit by (rule refl)
  show ?thesis
  proof
    assume a: "x AND (B_VALID OR B_DIRTY) = B_VALID"
    show "bit x (Suc 0) \<and> \<not> bit x 2" using b [of "Suc 0"] b [of 2] by (simp add: a bflag_bit)
  next
    assume a: "bit x (Suc 0) \<and> \<not> bit x 2"
    show "x AND (B_VALID OR B_DIRTY) = B_VALID"
    proof (rule bit_eqI)
      fix n
      show "bit (x AND (B_VALID OR B_DIRTY)) n = bit B_VALID n" unfolding b bflag_bit using a by metis
    qed
  qed
qed

lemma bit_lt_32: "bit (x :: u32) n \<Longrightarrow> n < 32"
  by (rule ccontr) (simp add: bit_word.rep_eq not_less)

lemma bflag_upd:
  "bit (x OR B_BUSY) n = (bit x n \<or> n = 0)" "bit (x OR B_VALID) n = (bit x n \<or> n = Suc 0)" "bit (x OR B_DIRTY) n = (bit x n \<or> n = 2)"
  "bit (x AND NOT B_BUSY) n = (bit x n \<and> n \<noteq> 0)" "bit (x AND NOT B_DIRTY) n = (bit x n \<and> n \<noteq> 2)"
  unfolding bit_and_iff bit_or_iff bit_not_iff bflag_bit using bit_lt_32 [of x n] by (auto simp: possible_bit_word)

lemmas bflags = bflag_bits bflag_vd bflag_bit bflag_upd

section \<open>The pool of data blocks\<close>

text \<open>What \<^verbatim>\<open>slab_cache_alloc\<close> leaves alone: everything outside the allocators, and the sizes of the caches.\<close>

definition slab_rest :: "'a slab_scheme \<Rightarrow> 'a slab_scheme \<Rightarrow> bool" where
  "slab_rest s s' \<longleftrightarrow> slab.more s' = slab.more s \<and> woken s' = woken s \<and>
     (\<forall>b. sc_slab_size (caches s' b) = sc_slab_size (caches s b) \<and> sc_object_size (caches s' b) = sc_object_size (caches s b) \<and>
        sc_alignment (caches s' b) = sc_alignment (caches s b))"

lemma slab_rest_same: "same_rest s s' \<Longrightarrow> slab_rest s s'" for s s' :: "'a slab_scheme"
  by (cases s, cases s') (simp add: same_rest_def slab_rest_def)

lemma slab_rest_trans: "slab_rest s t \<Longrightarrow> slab_rest t u \<Longrightarrow> slab_rest s u"
  by (simp add: slab_rest_def)

lemma slab_rest_upd: "slab_rest s (upd_slab h f s)"
  "(\<And>x. sc_slab_size (g x) = sc_slab_size x) \<Longrightarrow> (\<And>x. sc_object_size (g x) = sc_object_size x) \<Longrightarrow>
   (\<And>x. sc_alignment (g x) = sc_alignment x) \<Longrightarrow> slab_rest s (upd_cache c g s)"
  by (simp_all add: slab_rest_def upd_slab_def upd_cache_def)

lemma slab_new_rest: "slab_new c s = Some (h, s') \<Longrightarrow> slab_rest s s'"
  unfolding slab_new_def Let_def
  by (auto dest!: buddy_alloc_more slab_rest_same simp: slab_rest_def upd_slab_def)

lemma slab_take_rest: "slab_take c h s = (i, s') \<Longrightarrow> slab_rest s s'"
  by (auto simp: slab_take_def Let_def slab_rest_def upd_slab_def upd_cache_def split: if_splits option.splits)

lemma slab_cache_alloc_rest:
  assumes "slab_cache_alloc c s = Some (a, s')"
  shows "slab_rest s s'"
proof -
  obtain t h u where st: "k_acquire (L_cache c) s = Some t"
    "(case slabs_partial (caches t c) of Some h \<Rightarrow> Some (h, t) | None \<Rightarrow> do {
        (h, s) \<leftarrow> slab_new (caches t c) t; Some (h, upd_cache c (\<lambda>x. x\<lparr>slabs_partial := Some h\<rparr>) s) }) = Some (h, u)"
    "(let (index, s) = slab_take c h u in do { s \<leftarrow> k_release (L_cache c) s;
        Some (sh_object (slabs s h) + unat (sc_object_size (caches s c) * of_nat index), s) }) = Some (a, s')"
    using assms unfolding slab_cache_alloc_def by auto
  obtain i v where tk: "slab_take c h u = (i, v)" by fastforce
  have rl: "k_release (L_cache c) v = Some s'" using st(3) by (auto simp: tk)
  have "slab_rest t u"
    using st(2) by (auto dest!: slab_new_rest split: option.splits simp: slab_rest_def upd_cache_def)
  then show ?thesis
    using slab_rest_same [OF k_lock_more(1) [OF st(1)]] slab_take_rest [OF tk] slab_rest_same [OF k_lock_more(2) [OF rl]]
      slab_rest_trans by blast
qed

text \<open>The cache \<open>c\<close> of block-sized objects has those at the addresses \<open>A\<close> handed out.\<close>

definition pool_inv :: "nat \<Rightarrow> nat set \<Rightarrow> 'a slab_scheme \<Rightarrow> bool" where
  "pool_inv c A s \<longleftrightarrow> buddy_inv s \<and> BSIZE \<le> unat (sc_object_size (caches s c)) \<and>
     (\<exists>ps fs fr. cinv c ps fs fr s \<and> A \<subseteq> object_addr (caches s c) ` live_objects c ps fs fr s)"

definition pool_room :: "nat \<Rightarrow> 'a slab_scheme \<Rightarrow> bool" where
  "pool_room c s \<longleftrightarrow> (\<exists>q < PAGE_NUM. is_free (pages s q) \<and> unat (sc_slab_size (caches s c)) \<le> 2 ^ pg_order (pages s q) * PAGE_SIZE)"

lemma pool_alloc:
  assumes inv: "pool_inv c A s" and room: "pool_room c s" and l: "L_cache c \<notin> held s" "L_buddy \<notin> held s" "L_pages_ref \<notin> held s"
  shows "\<exists>a s'. slab_cache_alloc c s = Some (a, s') \<and> pool_inv c (insert a A) s' \<and> a \<notin> A \<and> held s' = held s \<and> slab_rest s s'"
proof -
  obtain ps fs fr where ci: "buddy_inv s" "cinv c ps fs fr s" "A \<subseteq> object_addr (caches s c) ` live_objects c ps fs fr s"
    using inv unfolding pool_inv_def by blast
  obtain a s' where al: "slab_cache_alloc c s = Some (a, s')" "slab_alloc_post c ps fs fr s a s'"
    using slab_alloc_spec [OF ci(2,1) l] room unfolding pool_room_def by (auto split: if_splits)
  obtain h i ps' fs' fr' where po: "cinv c ps' fs' fr' s'" "buddy_inv s'" "held s' = held s" "a = object_addr (caches s' c) (h, i)"
    "(h, i) \<notin> live_objects c ps fs fr s" "live_objects c ps' fs' fr' s' = insert (h, i) (live_objects c ps fs fr s)"
    using al(2) unfolding slab_alloc_post_def by blast
  have r: "slab_rest s s'" using slab_cache_alloc_rest [OF al(1)] .
  have oa: "object_addr (caches s' c) = object_addr (caches s c)"
    using r by (auto simp: slab_rest_def object_addr_def slab_object_base_def slab_max_object_num_def Let_def)
  have pos: "0 < unat (sc_object_size (caches s' c))"
    using po(1) by (auto simp: cinv_def cache_wf_def word_less_nat_alt)
  have "a \<notin> A"
  proof
    assume "a \<in> A"
    then obtain g j where gj: "(g, j) \<in> live_objects c ps fs fr s" "a = object_addr (caches s' c) (g, j)"
      using ci(3) by (auto simp: oa)
    then have "(h, i) \<noteq> (g, j)" using po(5) by blast
    with objects_disjoint [OF po(1,2), of h i g j] gj po(4,6) pos show False by auto
  qed
  moreover have "pool_inv c (insert a A) s'"
  proof -
    have "insert a A \<subseteq> object_addr (caches s' c) ` live_objects c ps' fs' fr' s'"
      unfolding po(6) oa image_insert using po(4) ci(3) oa by auto
    then show ?thesis unfolding pool_inv_def using po(1,2) r inv by (auto simp: slab_rest_def pool_inv_def)
  qed
  ultimately show ?thesis using al(1) po(3) r by blast
qed

section \<open>The invariant\<close>

text \<open>Byte \<open>k\<close> of block \<open>j\<close> of the partition \<open>dv\<close>, as the card has it.\<close>

definition on_disk :: "('c \<Rightarrow> nat \<Rightarrow> nat \<Rightarrow> u8) \<Rightarrow> u32 \<Rightarrow> ('c, 'a) bio_scheme \<Rightarrow> nat \<Rightarrow> nat \<Rightarrow> u8" where
  "on_disk sector dv s j k = sector (card s) (unat (ptlba s dv) + BLKSECT * j + k div SECTOR_SIZE) (k mod SECTOR_SIZE)"

definition buf_bytes :: "('c, 'a) bio_scheme \<Rightarrow> nat \<Rightarrow> nat \<Rightarrow> u8" where
  "buf_bytes s b = blkmem s (the (b_data (bufs s b)))"

definition caches_blk :: "u32 \<Rightarrow> ('c, 'a) bio_scheme \<Rightarrow> nat \<Rightarrow> nat \<Rightarrow> bool" where
  "caches_blk dv s b j \<longleftrightarrow> b_dev (bufs s b) = dv \<and> b_blockno (bufs s b) = ptlba s dv + of_nat (BLKSECT * j)"

definition busy :: "('c, 'a) bio_scheme \<Rightarrow> nat set" where
  "busy s = {b. b < NBUF \<and> bit (b_flags (bufs s b)) 0}"

definition used :: "('c, 'a) bio_scheme \<Rightarrow> nat set" where
  "used s = {b. b < NBUF \<and> b_data (bufs s b) \<noteq> None}"

definition disk_ok :: "u32 \<Rightarrow> nat \<Rightarrow> nat \<Rightarrow> ('c, 'a) bio_scheme \<Rightarrow> bool" where
  "disk_ok dv nblk secs s \<longleftrightarrow> dv \<noteq> FATMINOR \<and> unat (ptlba s dv) + BLKSECT * nblk \<le> secs \<and> secs < 2 ^ 32"

definition buf_ok :: "('c \<Rightarrow> nat \<Rightarrow> nat \<Rightarrow> u8) \<Rightarrow> u32 \<Rightarrow> nat \<Rightarrow> ('c, 'a) bio_scheme \<Rightarrow> nat \<Rightarrow> bool" where
  "buf_ok sector dv nblk s b \<longleftrightarrow> \<not> bit (b_flags (bufs s b)) 2 \<and>
     (if b_data (bufs s b) = None then \<not> bit (b_flags (bufs s b)) 0 \<and> b_dev (bufs s b) = FATMINOR
      else \<exists>j < nblk. caches_blk dv s b j \<and>
        (bit (b_flags (bufs s b)) (Suc 0) \<and> \<not> bit (b_flags (bufs s b)) 0 \<longrightarrow> (\<forall>k < BSIZE. buf_bytes s b k = on_disk sector dv s j k)))"

definition bio_inv :: "('c \<Rightarrow> nat \<Rightarrow> nat \<Rightarrow> u8) \<Rightarrow> u32 \<Rightarrow> nat \<Rightarrow> nat \<Rightarrow> ('c, 'a) bio_scheme \<Rightarrow> bool" where
  "bio_inv sector dv nblk secs s \<longleftrightarrow> disk_ok dv nblk secs s \<and>
     (\<exists>xs. linked (clinks s) 0 (map Suc xs) \<and> set xs = {..<NBUF}) \<and> linked (dlinks s) 0 [] \<and>
     (\<forall>b < NBUF. buf_ok sector dv nblk s b) \<and>
     inj_on (\<lambda>b. b_data (bufs s b)) (used s) \<and> inj_on (\<lambda>b. b_blockno (bufs s b)) (used s) \<and>
     pool_inv (BUFDATA s) {d. \<exists>b < NBUF. b_data (bufs s b) = Some d} s"

definition bio_unlocked :: "('c, 'a) bio_scheme \<Rightarrow> bool" where
  "bio_unlocked s \<longleftrightarrow> L_bcache \<notin> held s \<and> L_sd \<notin> held s \<and> L_cache (BUFDATA s) \<notin> held s \<and> L_buddy \<notin> held s \<and> L_pages_ref \<notin> held s"

text \<open>What neither the request queue nor a change of a buffer touches.\<close>

definition bio_rest :: "('c, 'a) bio_scheme \<Rightarrow> ('c, 'a) bio_scheme \<Rightarrow> bool" where
  "bio_rest s s' \<longleftrightarrow> held s' = held s \<and> BUFDATA s' = BUFDATA s \<and> ptlba s' = ptlba s \<and> bio.more s' = bio.more s"

definition mem_rest :: "'a slab_scheme \<Rightarrow> 'b slab_scheme \<Rightarrow> bool" where
  "mem_rest s s' \<longleftrightarrow> pages s' = pages s \<and> free_lists s' = free_lists s \<and> slabs s' = slabs s \<and> caches s' = caches s"

lemma pool_inv_rest: "mem_rest s s' \<Longrightarrow> pool_inv c A s \<Longrightarrow> pool_inv c A s'"
  by (simp add: pool_inv_def mem_rest_def buddy_inv_def cinv_def live_objects_def owns_block_def)

lemma blockno_eq:
  assumes "disk_ok dv nblk secs s" "j < nblk"
  shows "unat (ptlba s dv + of_nat (BLKSECT * j)) = unat (ptlba s dv) + BLKSECT * j"
proof -
  have "BLKSECT * j \<le> BLKSECT * nblk" using assms(2) by simp
  then have lt: "unat (ptlba s dv) + BLKSECT * j < 2 ^ 32" using assms(1) unfolding disk_ok_def by linarith
  then show ?thesis
    unfolding unat_plus_if_size unat_of_nat by (simp add: take_bit_nat_eq_self word_size del: of_nat_mult)
qed

lemma caches_blk_inj:
  assumes "disk_ok dv nblk secs s" "j < nblk" "i < nblk" "caches_blk dv s b j" "caches_blk dv s b i"
  shows "i = j"
proof -
  have "unat (ptlba s dv) + BLKSECT * j = unat (ptlba s dv) + BLKSECT * i"
    using blockno_eq [OF assms(1,2)] blockno_eq [OF assms(1,3)] assms(4,5) unfolding caches_blk_def by metis
  then show ?thesis by (simp add: BLKSECT_def BSIZE_def SECTOR_SIZE_def)
qed

section \<open>The request queue\<close>

lemma sd_start_one:
  assumes "linked (dlinks s) 0 [Suc b]" "sd_request M b s = Some t" "linked (dlinks t) 0 []"
  shows "sd_start M s = Some t"
proof -
  have e: "\<not> list_empty 0 (dlinks s)" "list_front 0 (dlinks s) = Suc b"
    using assms(1) linked_empty [OF assms(1)] by (auto simp: list_front_def linked_def)
  have "sd_start M t = Some t" using linked_empty [OF assms(3)] by (subst sd_start.simps) simp
  then show ?thesis using e assms(2) by (subst sd_start.simps) simp
qed

text \<open>
  A request on an idle queue is served before \<^verbatim>\<open>sd_rw\<close> returns: \<open>m\<close> and \<open>c\<close> are the bytes of the buffer
  and the card after the transfer.
\<close>

definition transfers :: "'c mmc_ops \<Rightarrow> bool \<Rightarrow> nat \<Rightarrow> (nat \<Rightarrow> u8) \<Rightarrow> 'c \<Rightarrow> (nat \<Rightarrow> u8) \<Rightarrow> 'c \<Rightarrow> bool" where
  "transfers M dirty st m0 c0 m c \<longleftrightarrow>
     (if dirty then m = m0 \<and> mmc_bwrite M st BLKSECT m0 c0 = (BLKSECT, c)
      else \<exists>d. mmc_bread M st BLKSECT c0 = (BLKSECT, d, c) \<and> m = (\<lambda>k. if k < BSIZE then d k else m0 k))"

lemma BLKSECT_bytes: "BLKSECT * SECTOR_SIZE = BSIZE"
  by (simp add: BLKSECT_def BSIZE_def SECTOR_SIZE_def)

lemma sd_rw_served:
  assumes q: "linked (dlinks s) 0 []" and l: "L_sd \<notin> held s" and d: "b_data (bufs s b) = Some d" "b_dev (bufs s b) \<noteq> FATMINOR"
    and tr: "transfers M (bit (b_flags (bufs s b)) 2) (unat (b_blockno (bufs s b))) (blkmem s d) (card s) m c"
  shows "\<exists>s'. sd_rw M b s = Some (Inl (), s') \<and> linked (dlinks s') 0 [] \<and> bio_rest s s' \<and> mem_rest s s' \<and> clinks s' = clinks s \<and>
    card s' = c \<and> blkmem s' = (blkmem s)(d := m) \<and>
    bufs s' = (bufs s)(b := (bufs s b)\<lparr>b_flags := (b_flags (bufs s b) OR B_VALID) AND NOT B_DIRTY\<rparr>)"
proof -
  define D where "D = list_push_back 0 (b + 1) (dlinks s)"
  define s1 where "s1 = s\<lparr>held := insert L_sd (held s), dlinks := D\<rparr>"
  define t where "t = s1\<lparr>card := c, blkmem := (blkmem s)(d := m),
     bufs := (bufs s)(b := (bufs s b)\<lparr>b_flags := (b_flags (bufs s b) OR B_VALID) AND NOT B_DIRTY\<rparr>),
     dlinks := list_pop_front 0 D, woken := Ch_buf b # woken s\<rparr>"
  have D: "linked D 0 [Suc b]" using linked_push_back [OF q, of "Suc b"] by (simp add: D_def)
  have D': "linked (list_pop_front 0 D) 0 []" by (rule linked_pop_front [OF D])
  have rq: "sd_request M b s1 = Some t"
    using d tr by (simp add: sd_request_def s1_def t_def upd_buf_def k_wakeup_def Let_def bflags transfers_def BLKSECT_bytes
        cong: if_cong split: if_splits) auto
  have st: "sd_start M s1 = Some t" by (rule sd_start_one [OF _ rq]) (use D D' in \<open>simp_all add: s1_def t_def\<close>)
  have fr: "list_front 0 D = Suc b" using D by (auto simp: list_front_def linked_def)
  have vd: "b_flags (bufs t b) AND (B_VALID OR B_DIRTY) = B_VALID" by (simp add: t_def bflags)
  have rl: "k_release L_sd t = Some (t\<lparr>held := held s\<rparr>)" using l by (simp add: t_def s1_def lock_simps)
  have "sd_rw M b s = Some (Inl (), t\<lparr>held := held s\<rparr>)"
    using l fr st vd rl by (simp add: sd_rw_def lock_simps s1_def D_def Let_def del: bind_Some_iff)
  then show ?thesis using D' by (simp add: t_def s1_def bio_rest_def mem_rest_def)
qed

lemma transfers_read:
  assumes "mmc_ok M sector secs" "st + BLKSECT \<le> secs"
  shows "\<exists>m c. transfers M False st m0 c0 m c \<and> sector c = sector c0 \<and>
    (\<forall>k < BSIZE. m k = sector c0 (st + k div SECTOR_SIZE) (k mod SECTOR_SIZE))"
proof -
  obtain d c where "mmc_bread M st BLKSECT c0 = (BLKSECT, d, c)" "sector c = sector c0"
    "\<forall>k < BLKSECT * SECTOR_SIZE. d k = sector c0 (st + k div SECTOR_SIZE) (k mod SECTOR_SIZE)"
    using assms unfolding mmc_ok_def by metis
  then show ?thesis unfolding transfers_def BLKSECT_bytes by (intro exI [of _ "\<lambda>k. if k < BSIZE then d k else m0 k"] exI [of _ c]) auto
qed

lemma transfers_write:
  assumes "mmc_ok M sector secs" "st + BLKSECT \<le> secs"
  shows "\<exists>c. transfers M True st m0 c0 m0 c \<and>
    (\<forall>i k. k < SECTOR_SIZE \<longrightarrow> sector c i k =
       (if st \<le> i \<and> i < st + BLKSECT then m0 ((i - st) * SECTOR_SIZE + k) else sector c0 i k))"
  using assms unfolding mmc_ok_def transfers_def by simp

section \<open>Changing one buffer\<close>

lemma bio_invD:
  assumes "bio_inv sector dv nblk secs s"
  shows "disk_ok dv nblk secs s" "\<exists>xs. linked (clinks s) 0 (map Suc xs) \<and> set xs = {..<NBUF}" "linked (dlinks s) 0 []"
    "b < NBUF \<Longrightarrow> buf_ok sector dv nblk s b" "inj_on (\<lambda>b. b_data (bufs s b)) (used s)" "inj_on (\<lambda>b. b_blockno (bufs s b)) (used s)"
    "pool_inv (BUFDATA s) {d. \<exists>b < NBUF. b_data (bufs s b) = Some d} s"
  using assms by (simp_all add: bio_inv_def)

lemma pool_inv_mono: "pool_inv c A s \<Longrightarrow> B \<subseteq> A \<Longrightarrow> pool_inv c B s"
  unfolding pool_inv_def by blast

lemma inj_on_upd: "inj_on f (A - {b}) \<Longrightarrow> (\<And>x. x \<in> A - {b} \<Longrightarrow> f x \<noteq> v) \<Longrightarrow> inj_on (f(b := v)) A"
  unfolding inj_on_def by auto

lemma bio_inv_set:
  assumes inv: "bio_inv sector dv nblk secs s" and b: "b < NBUF" and B: "bufs s' = (bufs s)(b := B)" "\<not> bit (b_flags B) 2" "b_dev B = dv"
    and j: "j < nblk" "b_blockno B = ptlba s dv + of_nat (BLKSECT * j)" and d: "b_data B = Some d"
    and co: "bit (b_flags B) (Suc 0) \<and> \<not> bit (b_flags B) 0 \<Longrightarrow> \<forall>k < BSIZE. blkmem s' d k = on_disk sector dv s' j k"
    and ot: "\<And>x. x \<in> used s \<Longrightarrow> x \<noteq> b \<Longrightarrow> b_blockno (bufs s x) \<noteq> b_blockno B \<and> b_data (bufs s x) \<noteq> Some d"
    and fr: "ptlba s' = ptlba s" "BUFDATA s' = BUFDATA s"
    and li: "\<exists>xs. linked (clinks s') 0 (map Suc xs) \<and> set xs = {..<NBUF}" "linked (dlinks s') 0 []"
    and me: "\<And>d'. d' \<noteq> d \<Longrightarrow> blkmem s' d' = blkmem s d'"
    and di: "\<And>i k. i < nblk \<Longrightarrow> i \<noteq> j \<Longrightarrow> k < BSIZE \<Longrightarrow> on_disk sector dv s' i k = on_disk sector dv s i k"
    and po: "pool_inv (BUFDATA s) (insert d {d. \<exists>x < NBUF. b_data (bufs s x) = Some d}) s'"
  shows "bio_inv sector dv nblk secs s'"
proof -
  note D = bio_invD [OF inv]
  have us: "used s' - {b} = used s - {b}" by (auto simp: used_def B)
  have "buf_ok sector dv nblk s' x" if x: "x < NBUF" for x
  proof (cases "x = b")
    case True
    then show ?thesis using B d j co by (auto simp: buf_ok_def caches_blk_def fr buf_bytes_def intro!: exI [of _ j])
  next
    case False
    show ?thesis
    proof (cases "b_data (bufs s x)")
      case None
      then show ?thesis using D(4) [OF x] False by (auto simp: buf_ok_def B)
    next
      case (Some e)
      then have u: "x \<in> used s" using x by (simp add: used_def)
      obtain i where i: "i < nblk" "caches_blk dv s x i"
        "bit (b_flags (bufs s x)) (Suc 0) \<and> \<not> bit (b_flags (bufs s x)) 0 \<longrightarrow> (\<forall>k < BSIZE. buf_bytes s x k = on_disk sector dv s i k)"
        "\<not> bit (b_flags (bufs s x)) 2"
        using D(4) [OF x] Some by (auto simp: buf_ok_def)
      have "i \<noteq> j" using ot [OF u False] i(2) j(2) by (auto simp: caches_blk_def)
      moreover have "buf_bytes s' x = buf_bytes s x"
        using ot [OF u False] Some False me [of e] by (simp add: buf_bytes_def B)
      moreover have "caches_blk dv s' x i" using i(2) False by (simp add: caches_blk_def B fr)
      ultimately show ?thesis using i Some False di [OF i(1)] by (auto simp: buf_ok_def B)
    qed
  qed
  moreover have "inj_on (\<lambda>b. b_data (bufs s' b)) (used s')" "inj_on (\<lambda>b. b_blockno (bufs s' b)) (used s')"
  proof -
    have e: "(\<lambda>x. f (bufs s' x)) = (\<lambda>x. f (bufs s x))(b := f B)" for f :: "buf \<Rightarrow> 'z" by (auto simp: B)
    show "inj_on (\<lambda>b. b_data (bufs s' b)) (used s')" "inj_on (\<lambda>b. b_blockno (bufs s' b)) (used s')"
      unfolding e using D(5,6) ot us d by (auto intro!: inj_on_upd intro: inj_on_subset)
  qed
  moreover have "pool_inv (BUFDATA s') {d. \<exists>b < NBUF. b_data (bufs s' b) = Some d} s'"
    unfolding fr by (rule pool_inv_mono [OF po]) (auto simp: B d split: if_splits)
  ultimately show ?thesis using D(1) li fr unfolding bio_inv_def disk_ok_def by simp
qed

section \<open>Finding a buffer\<close>

text \<open>What an operation leaves of the kernel state and of the buffers \<open>B\<close>.\<close>

definition bio_kept :: "nat set \<Rightarrow> ('c, 'a) bio_scheme \<Rightarrow> ('c, 'a) bio_scheme \<Rightarrow> bool" where
  "bio_kept B s s' \<longleftrightarrow> bio_rest s s' \<and> used s \<subseteq> used s' \<and> (\<forall>x \<in> B. bufs s' x = bufs s x \<and> buf_bytes s' x = buf_bytes s x)"

definition bio_ready :: "('c, 'a) bio_scheme \<Rightarrow> bool" where
  "bio_ready s \<longleftrightarrow> bio_unlocked s \<and> busy s \<noteq> {..<NBUF} \<and> (used s = {..<NBUF} \<or> pool_room (BUFDATA s) s)"

lemma busy_used: "bio_inv sector dv nblk secs s \<Longrightarrow> b \<in> busy s \<Longrightarrow> b \<in> used s"
  using bio_invD(4) [of sector dv nblk secs s b] by (auto simp: busy_def used_def buf_ok_def split: if_splits)

lemma caches_used: "bio_inv sector dv nblk secs s \<Longrightarrow> b < NBUF \<Longrightarrow> caches_blk dv s b j \<Longrightarrow> b \<in> used s"
  using bio_invD(4) [of sector dv nblk secs s b] bio_invD(1) [of sector dv nblk secs s]
  by (auto simp: used_def buf_ok_def caches_blk_def disk_ok_def split: if_splits)

lemma caches_unique:
  assumes inv: "bio_inv sector dv nblk secs s" and "b < NBUF" "caches_blk dv s b j" "x < NBUF" "caches_blk dv s x j"
  shows "x = b"
proof -
  have "x \<in> used s" "b \<in> used s" using caches_used [OF inv] assms by blast+
  moreover have "b_blockno (bufs s x) = b_blockno (bufs s b)" using assms by (simp add: caches_blk_def)
  ultimately show ?thesis using bio_invD(6) [OF inv] by (meson inj_onD)
qed

lemma buf_data_used: "b \<in> used s \<Longrightarrow> b_data (bufs s b) = Some (the (b_data (bufs s b)))"
  by (auto simp: used_def)

lemma find_Suc_None: "set xs = {..<NBUF} \<Longrightarrow> find (\<lambda>n. P (n - Suc 0)) (map Suc xs) = None \<longleftrightarrow> (\<forall>b < NBUF. \<not> P b)"
  by (auto simp: find_None_iff)

lemma find_Suc_Some: "set xs = {..<NBUF} \<Longrightarrow> find (\<lambda>n. P (n - Suc 0)) (map Suc xs) = Some n \<Longrightarrow> \<exists>b < NBUF. n = Suc b \<and> P b"
  by (auto simp: find_Some_iff)

text \<open>The two searches of \<^verbatim>\<open>bget\<close>.\<close>

lemma bget_find:
  assumes inv: "bio_inv sector dv nblk secs s"
  shows "\<exists>r. list_foreach_find 0 (\<lambda>n. P (n - 1)) (clinks s) = Some r \<and> (r = None \<longleftrightarrow> (\<forall>b < NBUF. \<not> P b)) \<and>
      (\<forall>n. r = Some n \<longrightarrow> (\<exists>b < NBUF. n = Suc b \<and> P b))"
    "\<exists>r. list_foreach_reverse_find 0 (\<lambda>n. P (n - 1)) (clinks s) = Some r \<and> (r = None \<longleftrightarrow> (\<forall>b < NBUF. \<not> P b)) \<and>
      (\<forall>n. r = Some n \<longrightarrow> (\<exists>b < NBUF. n = Suc b \<and> P b))"
proof -
  obtain xs where xs: "linked (clinks s) 0 (map Suc xs)" "set xs = {..<NBUF}" using bio_invD(2) [OF inv] by blast
  have r: "set (rev xs) = {..<NBUF}" "rev (map Suc xs) = map Suc (rev xs)" using xs(2) by (simp_all add: rev_map)
  show "\<exists>r. list_foreach_find 0 (\<lambda>n. P (n - 1)) (clinks s) = Some r \<and> (r = None \<longleftrightarrow> (\<forall>b < NBUF. \<not> P b)) \<and>
      (\<forall>n. r = Some n \<longrightarrow> (\<exists>b < NBUF. n = Suc b \<and> P b))"
    using foreach_find_eq [OF xs(1)] find_Suc_None [OF xs(2)] find_Suc_Some [OF xs(2)] by simp
  show "\<exists>r. list_foreach_reverse_find 0 (\<lambda>n. P (n - 1)) (clinks s) = Some r \<and> (r = None \<longleftrightarrow> (\<forall>b < NBUF. \<not> P b)) \<and>
      (\<forall>n. r = Some n \<longrightarrow> (\<exists>b < NBUF. n = Suc b \<and> P b))"
    using foreach_reverse_find_eq [OF xs(1)] find_Suc_None [OF r(1)] find_Suc_Some [OF r(1)] unfolding r(2) by simp
qed

lemma bget_sleeps:
  assumes inv: "bio_inv sector dv nblk secs s" and l: "L_bcache \<notin> held s" and b: "b \<in> busy s" "caches_blk dv s b j"
  shows "bget dv (of_nat j) s = Some (Inr (Ch_buf b), s)"
proof -
  let ?P = "\<lambda>b. b_dev (bufs s b) = dv \<and> b_blockno (bufs s b) = ptlba s dv + of_nat (BLKSECT * j)"
  have bn: "of_nat j * of_nat BLKSECT = (of_nat (BLKSECT * j) :: u32)" by simp
  have b': "?P b" "b < NBUF" using b by (simp_all add: caches_blk_def busy_def)
  obtain n where "list_foreach_find 0 (\<lambda>n. ?P (n - 1)) (clinks s) = Some (Some n)" "\<exists>x < NBUF. n = Suc x \<and> ?P x"
    using bget_find(1) [OF inv, of ?P] b' by blast
  moreover have "x = b" if "x < NBUF" "?P x" for x
    by (rule caches_unique [OF inv b'(2) b(2) that(1)]) (simp add: caches_blk_def that(2) [simplified])
  ultimately have "list_foreach_find 0 (\<lambda>n. ?P (n - 1)) (clinks s) = Some (Some (Suc b))" by auto
  moreover have "b_flags (bufs s b) AND B_BUSY \<noteq> 0" using b(1) by (simp add: busy_def bflags)
  ultimately show ?thesis using l
    by (simp add: bget_def Let_def lock_simps fs_lba_def bn del: bind_Some_iff of_nat_mult)
qed

text \<open>A buffer in use changes its flags, its bytes and the block it holds, and nothing else.\<close>

lemma bio_inv_same:
  assumes inv: "bio_inv sector dv nblk secs s" and u: "b \<in> used s" and j: "caches_blk dv s b j" "j < nblk"
    and B: "bufs s' = (bufs s)(b := B)" "\<not> bit (b_flags B) 2" "b_dev B = b_dev (bufs s b)" "b_blockno B = b_blockno (bufs s b)"
      "b_data B = b_data (bufs s b)"
    and co: "bit (b_flags B) (Suc 0) \<and> \<not> bit (b_flags B) 0 \<Longrightarrow> \<forall>k < BSIZE. buf_bytes s' b k = on_disk sector dv s' j k"
    and fr: "ptlba s' = ptlba s" "BUFDATA s' = BUFDATA s" "mem_rest s s'"
    and li: "\<exists>xs. linked (clinks s') 0 (map Suc xs) \<and> set xs = {..<NBUF}" "linked (dlinks s') 0 []"
    and me: "\<And>d'. Some d' \<noteq> b_data (bufs s b) \<Longrightarrow> blkmem s' d' = blkmem s d'"
    and di: "\<And>i k. i < nblk \<Longrightarrow> i \<noteq> j \<Longrightarrow> k < BSIZE \<Longrightarrow> on_disk sector dv s' i k = on_disk sector dv s i k"
  shows "bio_inv sector dv nblk secs s'"
proof -
  obtain d where d: "b_data (bufs s b) = Some d" and b: "b < NBUF" using u by (auto simp: used_def)
  have ins: "insert d {d. \<exists>x < NBUF. b_data (bufs s x) = Some d} = {d. \<exists>x < NBUF. b_data (bufs s x) = Some d}"
    using d b by blast
  have ot: "b_blockno (bufs s x) \<noteq> b_blockno B \<and> b_data (bufs s x) \<noteq> Some d" if x: "x \<in> used s" "x \<noteq> b" for x
    using inj_onD [OF bio_invD(5) [OF inv] _ x(1) u] inj_onD [OF bio_invD(6) [OF inv] _ x(1) u] x(2) d B(4) by auto
  have po: "pool_inv (BUFDATA s) (insert d {d. \<exists>x < NBUF. b_data (bufs s x) = Some d}) s'"
    unfolding ins by (rule pool_inv_rest [OF fr(3) bio_invD(7) [OF inv]])
  show ?thesis
    by (rule bio_inv_set [OF inv b B(1,2) _ j(2) _ _ _ ot fr(1,2) li _ di po])
      (use j(1) d B co me in \<open>auto simp: caches_blk_def buf_bytes_def\<close>)
qed

definition got :: "('c \<Rightarrow> nat \<Rightarrow> nat \<Rightarrow> u8) \<Rightarrow> u32 \<Rightarrow> nat \<Rightarrow> nat \<Rightarrow> nat \<Rightarrow> nat \<Rightarrow> ('c, 'a) bio_scheme \<Rightarrow> ('c, 'a) bio_scheme \<Rightarrow> bool" where
  "got sector dv nblk secs j b s s' \<longleftrightarrow> b < NBUF \<and> b \<notin> busy s \<and> bio_inv sector dv nblk secs s' \<and> busy s' = insert b (busy s) \<and>
     caches_blk dv s' b j \<and> bio_kept (busy s) s s'"

lemma bget_hit:
  assumes inv: "bio_inv sector dv nblk secs s" and l: "L_bcache \<notin> held s" and b: "b < NBUF" "b \<notin> busy s" "caches_blk dv s b j" and j: "j < nblk"
  shows "\<exists>s'. bget dv (of_nat j) s = Some (Inl b, s') \<and> got sector dv nblk secs j b s s' \<and> card s' = card s \<and>
    bit (b_flags (bufs s' b)) (Suc 0) = bit (b_flags (bufs s b)) (Suc 0) \<and>
    (bit (b_flags (bufs s' b)) (Suc 0) \<longrightarrow> (\<forall>k < BSIZE. buf_bytes s' b k = on_disk sector dv s j k))"
proof -
  let ?P = "\<lambda>b. b_dev (bufs s b) = dv \<and> b_blockno (bufs s b) = ptlba s dv + of_nat (BLKSECT * j)"
  have bn: "of_nat j * of_nat BLKSECT = (of_nat (BLKSECT * j) :: u32)" by simp
  have P: "?P x \<longleftrightarrow> caches_blk dv s x j" for x by (simp add: caches_blk_def)
  obtain n where n: "list_foreach_find 0 (\<lambda>n. ?P (n - 1)) (clinks s) = Some (Some n)" "\<exists>x < NBUF. n = Suc x \<and> ?P x"
    using bget_find(1) [OF inv, of ?P] b P by blast
  then have n: "list_foreach_find 0 (\<lambda>n. ?P (n - 1)) (clinks s) = Some (Some (Suc b))"
    using caches_unique [OF inv b(1,3)] P by blast
  have fl: "b_flags (bufs s b) AND B_BUSY = 0" "\<not> bit (b_flags (bufs s b)) 0" using b(1,2) by (simp_all add: busy_def bflags)
  define B where "B = (bufs s b)\<lparr>b_flags := b_flags (bufs s b) OR B_BUSY, b_refcnt := b_refcnt (bufs s b) + 1\<rparr>"
  define s' where "s' = s\<lparr>bufs := (bufs s)(b := B)\<rparr>"
  have "bget dv (of_nat j) s = Some (Inl b, s')"
    using l n fl by (simp add: bget_def Let_def lock_simps fs_lba_def bn upd_buf_def s'_def B_def del: bind_Some_iff of_nat_mult)
  moreover
  have u: "b \<in> used s" using caches_used [OF inv b(1,3)] .
  obtain i where i: "i < nblk" "caches_blk dv s b i" "\<not> bit (b_flags (bufs s b)) 2"
      "bit (b_flags (bufs s b)) (Suc 0) \<longrightarrow> (\<forall>k < BSIZE. buf_bytes s b k = on_disk sector dv s i k)"
    using bio_invD(4) [OF inv b(1)] u fl by (auto simp: buf_ok_def used_def split: if_splits)
  have ij: "i = j" using caches_blk_inj [OF bio_invD(1) [OF inv] j i(1) b(3) i(2)] .
  have "bio_inv sector dv nblk secs s'"
    by (rule bio_inv_same [OF inv u b(3) j, of s' B])
      (use bio_invD [OF inv] i fl in \<open>simp_all add: s'_def B_def bflags on_disk_def mem_rest_def\<close>)
  then have "got sector dv nblk secs j b s s'"
    using b fl by (auto simp: got_def bio_kept_def bio_rest_def s'_def B_def busy_def used_def caches_blk_def bflags buf_bytes_def split: if_splits)
  moreover have "bit (b_flags (bufs s' b)) (Suc 0) \<longrightarrow> (\<forall>k < BSIZE. buf_bytes s' b k = on_disk sector dv s j k)"
    using i(4) ij by (auto simp: s'_def B_def bflags buf_bytes_def)
  moreover have "bit (b_flags (bufs s' b)) (Suc 0) = bit (b_flags (bufs s b)) (Suc 0)" by (simp add: s'_def B_def bflags)
  ultimately show ?thesis by (auto simp: s'_def)
qed

text \<open>The data block of a recycled buffer: the one it has, or a new one.\<close>

lemma bget_data:
  assumes inv: "bio_inv sector dv nblk secs s" and rdy: "bio_ready s" and b: "b < NBUF" "b \<notin> busy s"
    and s1: "s1 = s\<lparr>held := insert L_bcache (held s), bufs := (bufs s)(b := B)\<rparr>" and B: "b_data B = b_data (bufs s b)"
  shows "\<exists>t d. (case b_data (bufs s1 b) of Some _ \<Rightarrow> Some s1 | None \<Rightarrow> do {
        (d, s) \<leftarrow> slab_cache_alloc (BUFDATA s1) s1; Some (upd_buf b (\<lambda>x. x\<lparr>b_data := Some d\<rparr>) s) }) = Some t \<and>
      bio_rest s1 t \<and> bufs t = (bufs s)(b := B\<lparr>b_data := Some d\<rparr>) \<and> clinks t = clinks s \<and> dlinks t = dlinks s \<and> blkmem t = blkmem s \<and> card t = card s \<and>
      pool_inv (BUFDATA s) (insert d {d. \<exists>x < NBUF. b_data (bufs s x) = Some d}) t \<and>
      (\<forall>x \<in> used s. x \<noteq> b \<longrightarrow> b_data (bufs s x) \<noteq> Some d)"
proof (cases "b_data (bufs s b)")
  case (Some d)
  have u: "b \<in> used s" using Some b(1) by (simp add: used_def)
  have ins: "insert d {d. \<exists>x < NBUF. b_data (bufs s x) = Some d} = {d. \<exists>x < NBUF. b_data (bufs s x) = Some d}"
    using Some b by blast
  have "b_data (bufs s x) \<noteq> Some d" if x: "x \<in> used s" "x \<noteq> b" for x
    using inj_onD [OF bio_invD(5) [OF inv] _ x(1) u] x(2) Some by auto
  moreover have "pool_inv (BUFDATA s) {d. \<exists>x < NBUF. b_data (bufs s x) = Some d} s1"
    by (rule pool_inv_rest [OF _ bio_invD(7) [OF inv]]) (simp add: mem_rest_def s1)
  moreover have BB: "B\<lparr>b_data := Some d\<rparr> = B" using Some B by (cases B) simp
  have "b_data (bufs s1 b) = Some d" using Some B by (simp add: s1)
  moreover have "bufs s1 = (bufs s)(b := B\<lparr>b_data := Some d\<rparr>)" unfolding BB by (simp add: s1)
  ultimately show ?thesis
    by (intro exI [of _ s1] exI [of _ d]) (simp add: bio_rest_def ins, simp add: s1)
next
  case None
  let ?A = "{d. \<exists>x < NBUF. b_data (bufs s x) = Some d}"
  have "b \<notin> used s" using None by (simp add: used_def)
  then have room: "pool_room (BUFDATA s) s1" using rdy b(1) by (auto simp: bio_ready_def pool_room_def s1)
  have po: "pool_inv (BUFDATA s) ?A s1"
    by (rule pool_inv_rest [OF _ bio_invD(7) [OF inv]]) (simp add: mem_rest_def s1)
  obtain d t where t: "slab_cache_alloc (BUFDATA s) s1 = Some (d, t)" "pool_inv (BUFDATA s) (insert d ?A) t" "d \<notin> ?A"
    "held t = held s1" "slab_rest s1 t"
    using pool_alloc [OF po room] rdy by (auto simp: bio_ready_def bio_unlocked_def s1)
  have t': "bufs t = bufs s1" "clinks t = clinks s1" "dlinks t = dlinks s1" "BUFDATA t = BUFDATA s1" "blkmem t = blkmem s1" "card t = card s1"
    "ptlba t = ptlba s1" "bio.more t = bio.more s1"
    using t(5) by (cases s1, cases t, simp add: slab_rest_def)+
  have "pool_inv (BUFDATA s) (insert d ?A) (upd_buf b (\<lambda>x. x\<lparr>b_data := Some d\<rparr>) t)"
    by (rule pool_inv_rest [OF _ t(2)]) (simp add: mem_rest_def upd_buf_def)
  then show ?thesis using t t' None B
    by (intro exI [of _ "upd_buf b (\<lambda>x. x\<lparr>b_data := Some d\<rparr>) t"] exI [of _ d])
      (auto simp: s1 upd_buf_def bio_rest_def used_def)
qed

lemma bget_recycle:
  assumes inv: "bio_inv sector dv nblk secs s" and rdy: "bio_ready s" and no: "\<And>b. b < NBUF \<Longrightarrow> \<not> caches_blk dv s b j" and j: "j < nblk"
  shows "\<exists>b s'. bget dv (of_nat j) s = Some (Inl b, s') \<and> got sector dv nblk secs j b s s' \<and> card s' = card s \<and>
    \<not> bit (b_flags (bufs s' b)) (Suc 0)"
proof -
  let ?P = "\<lambda>b. b_dev (bufs s b) = dv \<and> b_blockno (bufs s b) = ptlba s dv + of_nat (BLKSECT * j)"
  let ?Q = "\<lambda>b. b_flags (bufs s b) AND B_BUSY = 0 \<and> b_flags (bufs s b) AND B_DIRTY = 0"
  have bn: "of_nat j * of_nat BLKSECT = (of_nat (BLKSECT * j) :: u32)" by simp
  have l: "L_bcache \<notin> held s" using rdy by (simp add: bio_ready_def bio_unlocked_def)
  have f1: "list_foreach_find 0 (\<lambda>n. ?P (n - 1)) (clinks s) = Some None"
    using bget_find(1) [OF inv, of ?P] no by (auto simp: caches_blk_def)
  obtain b0 where "b0 < NBUF" "b0 \<notin> busy s" using rdy by (auto simp: bio_ready_def busy_def)
  then have "?Q b0" using bio_invD(4) [OF inv] by (simp add: busy_def bflags buf_ok_def)
  then obtain b where f2: "list_foreach_reverse_find 0 (\<lambda>n. ?Q (n - 1)) (clinks s) = Some (Some (Suc b))" "b < NBUF" "?Q b"
    using bget_find(2) [OF inv, of ?Q] \<open>b0 < NBUF\<close> by blast
  have nb: "b \<notin> busy s" using f2(3) by (simp add: busy_def bflags)
  define B where "B = (bufs s b)\<lparr>b_dev := dv, b_blockno := ptlba s dv + of_nat (BLKSECT * j), b_flags := B_BUSY, b_refcnt := 1\<rparr>"
  define s1 where "s1 = s\<lparr>held := insert L_bcache (held s), bufs := (bufs s)(b := B)\<rparr>"
  have "b_data B = b_data (bufs s b)" by (simp add: B_def)
  then obtain t d where t: "(case b_data (bufs s1 b) of Some _ \<Rightarrow> Some s1 | None \<Rightarrow> do {
        (d, s) \<leftarrow> slab_cache_alloc (BUFDATA s1) s1; Some (upd_buf b (\<lambda>x. x\<lparr>b_data := Some d\<rparr>) s) }) = Some t"
    "bio_rest s1 t" "bufs t = (bufs s)(b := B\<lparr>b_data := Some d\<rparr>)" "clinks t = clinks s" "dlinks t = dlinks s" "blkmem t = blkmem s" "card t = card s"
    "pool_inv (BUFDATA s) (insert d {d. \<exists>x < NBUF. b_data (bufs s x) = Some d}) t" "\<And>x. x \<in> used s \<Longrightarrow> x \<noteq> b \<Longrightarrow> b_data (bufs s x) \<noteq> Some d"
    using bget_data [OF inv rdy f2(2) nb s1_def] by blast
  define s' where "s' = t\<lparr>held := held s\<rparr>"
  have r: "k_release L_bcache t = Some s'" using t(2) l by (simp add: lock_simps bio_rest_def s1_def s'_def)
  have "bget dv (of_nat j) s = Some (Inl b, s')"
    unfolding bget_def fs_lba_def bn Let_def k_acquire_free [OF l] Option.bind.bind_lunit
    using f1 f2(1) t(1) r by (simp add: upd_buf_def s1_def B_def del: bind_Some_iff of_nat_mult cong: option.case_cong)
  moreover have "bio_inv sector dv nblk secs s'"
  proof (rule bio_inv_set [OF inv f2(2), of s' "B\<lparr>b_data := Some d\<rparr>" j d])
    show "b_blockno (bufs s x) \<noteq> b_blockno (B\<lparr>b_data := Some d\<rparr>) \<and> b_data (bufs s x) \<noteq> Some d" if x: "x \<in> used s" "x \<noteq> b" for x
      using t(9) [OF x] no [of x] bio_invD(4) [OF inv, of x] x(1) by (auto simp: B_def used_def buf_ok_def caches_blk_def)
    show "pool_inv (BUFDATA s) (insert d {d. \<exists>x < NBUF. b_data (bufs s x) = Some d}) s'"
      by (rule pool_inv_rest [OF _ t(8)]) (simp add: mem_rest_def s'_def)
  qed (use bio_invD [OF inv] j t in \<open>simp_all add: s'_def B_def bflags on_disk_def bio_rest_def s1_def\<close>)
  then have "got sector dv nblk secs j b s s'" using f2(2) nb t
    by (auto simp: got_def bio_kept_def bio_rest_def s'_def s1_def B_def busy_def used_def caches_blk_def bflags buf_bytes_def split: if_splits)
  ultimately show ?thesis using t by (auto simp: s'_def B_def bflags)
qed

section \<open>Reading and writing blocks\<close>

lemma buf_range:
  assumes "disk_ok dv nblk secs s" "j < nblk" "caches_blk dv s b j"
  shows "unat (b_blockno (bufs s b)) = unat (ptlba s dv) + BLKSECT * j" "unat (b_blockno (bufs s b)) + BLKSECT \<le> secs"
    "b_dev (bufs s b) \<noteq> FATMINOR"
proof -
  show e: "unat (b_blockno (bufs s b)) = unat (ptlba s dv) + BLKSECT * j"
    using blockno_eq [OF assms(1,2)] assms(3) unfolding caches_blk_def by metis
  have "BLKSECT * Suc j \<le> BLKSECT * nblk" using assms(2) by (simp add: Suc_leI del: mult_Suc_right)
  then show "unat (b_blockno (bufs s b)) + BLKSECT \<le> secs" using assms(1) e unfolding disk_ok_def by simp
  show "b_dev (bufs s b) \<noteq> FATMINOR" using assms by (simp add: disk_ok_def caches_blk_def)
qed

lemma on_disk_cong: "sector (card s') = sector (card s) \<Longrightarrow> ptlba s' = ptlba s \<Longrightarrow> on_disk sector dv s' = on_disk sector dv s"
  by (simp add: on_disk_def fun_eq_iff)

lemma busy_other_data:
  assumes inv: "bio_inv sector dv nblk secs s" and x: "x \<in> busy s" "x \<noteq> b" and u: "b \<in> used s"
  shows "the (b_data (bufs s x)) \<noteq> the (b_data (bufs s b))"
proof -
  have ux: "x \<in> used s" using busy_used [OF inv x(1)] .
  then show ?thesis using inj_onD [OF bio_invD(5) [OF inv] _ ux u] x(2) buf_data_used [OF ux] buf_data_used [OF u] by metis
qed

lemma sd_rw_read:
  assumes ok: "mmc_ok M sector secs" and inv: "bio_inv sector dv nblk secs s" and b: "b \<in> busy s" "caches_blk dv s b j" and j: "j < nblk"
    and l: "L_sd \<notin> held s"
  shows "\<exists>s'. sd_rw M b s = Some (Inl (), s') \<and> bio_inv sector dv nblk secs s' \<and> busy s' = busy s \<and> caches_blk dv s' b j \<and>
    bio_kept (busy s - {b}) s s' \<and> on_disk sector dv s' = on_disk sector dv s \<and> (\<forall>k < BSIZE. buf_bytes s' b k = on_disk sector dv s j k) \<and>
    bit (b_flags (bufs s' b)) (Suc 0)"
proof -
  have u: "b \<in> used s" and bN: "b < NBUF" using busy_used [OF inv b(1)] by (simp_all add: used_def)
  obtain d where d: "b_data (bufs s b) = Some d" using u by (auto simp: used_def)
  note rg = buf_range [OF bio_invD(1) [OF inv] j b(2)]
  have nd: "\<not> bit (b_flags (bufs s b)) 2" using bio_invD(4) [OF inv bN] by (simp add: buf_ok_def)
  obtain m c where mc: "transfers M False (unat (b_blockno (bufs s b))) (blkmem s d) (card s) m c" "sector c = sector (card s)"
    "\<forall>k < BSIZE. m k = sector (card s) (unat (b_blockno (bufs s b)) + k div SECTOR_SIZE) (k mod SECTOR_SIZE)"
    using transfers_read [OF ok rg(2)] by blast
  obtain s' where s': "sd_rw M b s = Some (Inl (), s')" "linked (dlinks s') 0 []" "bio_rest s s'" "mem_rest s s'" "clinks s' = clinks s"
    "card s' = c" "blkmem s' = (blkmem s)(d := m)"
    "bufs s' = (bufs s)(b := (bufs s b)\<lparr>b_flags := (b_flags (bufs s b) OR B_VALID) AND NOT B_DIRTY\<rparr>)"
    using sd_rw_served [OF bio_invD(3) [OF inv] l d rg(3)] mc(1) nd by (metis (full_types))
  have od: "on_disk sector dv s' = on_disk sector dv s" using s'(3,6) mc(2) by (intro on_disk_cong) (simp_all add: bio_rest_def)
  have "bio_inv sector dv nblk secs s'"
    by (rule bio_inv_same [OF inv u b(2) j s'(8)])
      (use bio_invD [OF inv] b s' d od in \<open>simp_all add: bflags busy_def bio_rest_def\<close>)
  moreover have "bio_kept (busy s - {b}) s s'"
    using s'(3,7,8) busy_other_data [OF inv _ _ u] d by (auto simp: bio_kept_def buf_bytes_def used_def)
  moreover have "\<forall>k < BSIZE. buf_bytes s' b k = on_disk sector dv s j k"
    using mc(3) d by (simp add: buf_bytes_def s' on_disk_def rg(1))
  moreover have "busy s' = busy s" "caches_blk dv s' b j" "bit (b_flags (bufs s' b)) (Suc 0)"
    using s'(3,8) b(2) by (auto simp: busy_def caches_blk_def bflags bio_rest_def)
  ultimately show ?thesis using s'(1) od by blast
qed

text \<open>A buffer that \<^verbatim>\<open>bread\<close> returned: locked, valid, with the bytes of block \<open>j\<close>.\<close>

definition bread_post :: "('c \<Rightarrow> nat \<Rightarrow> nat \<Rightarrow> u8) \<Rightarrow> u32 \<Rightarrow> nat \<Rightarrow> nat \<Rightarrow> nat \<Rightarrow> nat \<Rightarrow> ('c, 'a) bio_scheme \<Rightarrow> ('c, 'a) bio_scheme \<Rightarrow> bool" where
  "bread_post sector dv nblk secs j b s s' \<longleftrightarrow> got sector dv nblk secs j b s s' \<and> bit (b_flags (bufs s' b)) (Suc 0) \<and>
     on_disk sector dv s' = on_disk sector dv s \<and> (\<forall>k < BSIZE. buf_bytes s' b k = on_disk sector dv s j k)"

lemma bget_gets:
  assumes inv: "bio_inv sector dv nblk secs s" and rdy: "bio_ready s" and no: "\<And>b. b \<in> busy s \<Longrightarrow> \<not> caches_blk dv s b j" and j: "j < nblk"
  shows "\<exists>b s'. bget dv (of_nat j) s = Some (Inl b, s') \<and> got sector dv nblk secs j b s s' \<and> card s' = card s \<and>
    (bit (b_flags (bufs s' b)) (Suc 0) \<longrightarrow> (\<forall>k < BSIZE. buf_bytes s' b k = on_disk sector dv s j k))"
proof (cases "\<exists>b < NBUF. caches_blk dv s b j")
  case True
  then obtain b where b: "b < NBUF" "caches_blk dv s b j" by blast
  then show ?thesis using bget_hit [OF inv _ b(1) _ b(2) j] no rdy unfolding bio_ready_def bio_unlocked_def by blast
next
  case False
  then show ?thesis using bget_recycle [OF inv rdy _ j] by blast
qed

lemma bread_spec:
  assumes ok: "mmc_ok M sector secs" and inv: "bio_inv sector dv nblk secs s" and rdy: "bio_ready s"
    and no: "\<And>b. b \<in> busy s \<Longrightarrow> \<not> caches_blk dv s b j" and j: "j < nblk"
  shows "\<exists>b s'. bread M dv (of_nat j) s = Some (Inl b, s') \<and> bread_post sector dv nblk secs j b s s'"
proof -
  obtain b t where t: "bget dv (of_nat j) s = Some (Inl b, t)" "got sector dv nblk secs j b s t" "card t = card s"
    "bit (b_flags (bufs t b)) (Suc 0) \<longrightarrow> (\<forall>k < BSIZE. buf_bytes t b k = on_disk sector dv s j k)"
    using bget_gets [OF inv rdy no j] by blast
  have od: "on_disk sector dv t = on_disk sector dv s"
    using t(2,3) by (intro on_disk_cong) (simp_all add: got_def bio_kept_def bio_rest_def)
  show ?thesis
  proof (cases "bit (b_flags (bufs t b)) (Suc 0)")
    case True
    then have "bread M dv (of_nat j) s = Some (Inl b, t)" using t(1) by (simp add: bread_def bflags)
    then show ?thesis using t od True by (auto simp: bread_post_def)
  next
    case False
    have g: "bio_inv sector dv nblk secs t" "b \<in> busy t" "caches_blk dv t b j" "busy t = insert b (busy s)" "b \<notin> busy s" "bio_kept (busy s) s t" "b < NBUF"
      using t(2) by (auto simp: got_def)
    have l: "L_sd \<notin> held t" using g(6) rdy by (simp add: bio_kept_def bio_rest_def bio_ready_def bio_unlocked_def)
    obtain s' where s': "sd_rw M b t = Some (Inl (), s')" "bio_inv sector dv nblk secs s'" "busy s' = busy t" "caches_blk dv s' b j"
      "bio_kept (busy t - {b}) t s'" "on_disk sector dv s' = on_disk sector dv t" "\<forall>k < BSIZE. buf_bytes s' b k = on_disk sector dv t j k"
      "bit (b_flags (bufs s' b)) (Suc 0)"
      using sd_rw_read [OF ok g(1-3) j l] by blast
    have "bread M dv (of_nat j) s = Some (Inl b, s')" using t(1) s'(1) False by (simp add: bread_def bflags)
    moreover have "bio_kept (busy s) s s'" using s'(5) g(4-6) by (auto simp: bio_kept_def bio_rest_def)
    ultimately show ?thesis using s' g od by (intro exI [of _ b] exI [of _ s']) (simp add: bread_post_def got_def)
  qed
qed

text \<open>A write replaces the bytes of its block and of no other block.\<close>

lemma write_disk:
  assumes "\<forall>i k. k < SECTOR_SIZE \<longrightarrow> sector (card s') i k =
       (if st \<le> i \<and> i < st + BLKSECT then m ((i - st) * SECTOR_SIZE + k) else sector (card s) i k)"
    and "st = unat (ptlba s dv) + BLKSECT * j" "ptlba s' = ptlba s" "k < BSIZE"
  shows "on_disk sector dv s' i k = (if i = j then m k else on_disk sector dv s i k)"
proof -
  have k: "k mod SECTOR_SIZE < SECTOR_SIZE" "k div SECTOR_SIZE < BLKSECT" "k div SECTOR_SIZE * SECTOR_SIZE + k mod SECTOR_SIZE = k"
    using assms(4) by (simp_all add: SECTOR_SIZE_def BLKSECT_def BSIZE_def less_mult_imp_div_less)
  have B: "BLKSECT = 8" by (simp add: BLKSECT_def BSIZE_def SECTOR_SIZE_def)
  have "(st \<le> st' \<and> st' < st + BLKSECT) = (i = j)" if "st' = unat (ptlba s dv) + BLKSECT * i + k div SECTOR_SIZE" for st'
    using k(2) unfolding that assms(2) B by linarith
  then show ?thesis using assms(1) k assms(2,3) by (simp add: on_disk_def)
qed

definition bwrite_post :: "('c \<Rightarrow> nat \<Rightarrow> nat \<Rightarrow> u8) \<Rightarrow> u32 \<Rightarrow> nat \<Rightarrow> nat \<Rightarrow> nat \<Rightarrow> nat \<Rightarrow> ('c, 'a) bio_scheme \<Rightarrow> ('c, 'a) bio_scheme \<Rightarrow> bool" where
  "bwrite_post sector dv nblk secs j b s s' \<longleftrightarrow> bio_inv sector dv nblk secs s' \<and> busy s' = busy s \<and> caches_blk dv s' b j \<and>
     bio_kept (busy s - {b}) s s' \<and> buf_bytes s' b = buf_bytes s b \<and> bit (b_flags (bufs s' b)) (Suc 0) \<and>
     (\<forall>i k. k < BSIZE \<longrightarrow> on_disk sector dv s' i k = (if i = j then buf_bytes s b k else on_disk sector dv s i k))"

lemma bwrite_spec:
  assumes ok: "mmc_ok M sector secs" and inv: "bio_inv sector dv nblk secs s" and b: "b \<in> busy s" "caches_blk dv s b j" and j: "j < nblk"
    and l: "L_sd \<notin> held s"
  shows "\<exists>s'. bwrite M b s = Some (Inl (), s') \<and> bwrite_post sector dv nblk secs j b s s'"
proof -
  have u: "b \<in> used s" and bN: "b < NBUF" using busy_used [OF inv b(1)] by (simp_all add: used_def)
  obtain d where d: "b_data (bufs s b) = Some d" using u by (auto simp: used_def)
  note rg = buf_range [OF bio_invD(1) [OF inv] j b(2)]
  define s1 where "s1 = upd_buf b (\<lambda>x. x\<lparr>b_flags := b_flags x OR B_DIRTY\<rparr>) s"
  have s1: "b_data (bufs s1 b) = Some d" "b_dev (bufs s1 b) = b_dev (bufs s b)" "b_blockno (bufs s1 b) = b_blockno (bufs s b)" "bit (b_flags (bufs s1 b)) 2"
    "blkmem s1 = blkmem s" "card s1 = card s" "dlinks s1 = dlinks s" "held s1 = held s" "clinks s1 = clinks s"
    using d by (simp_all add: s1_def upd_buf_def bflags)
  obtain c where c: "transfers M True (unat (b_blockno (bufs s b))) (blkmem s d) (card s) (blkmem s d) c"
    "\<forall>i k. k < SECTOR_SIZE \<longrightarrow> sector c i k = (if unat (b_blockno (bufs s b)) \<le> i \<and> i < unat (b_blockno (bufs s b)) + BLKSECT
       then blkmem s d ((i - unat (b_blockno (bufs s b))) * SECTOR_SIZE + k) else sector (card s) i k)"
    using transfers_write [OF ok rg(2)] by blast
  obtain s' where s': "sd_rw M b s1 = Some (Inl (), s')" "linked (dlinks s') 0 []" "bio_rest s1 s'" "mem_rest s1 s'" "clinks s' = clinks s"
    "card s' = c" "blkmem s' = (blkmem s)(d := blkmem s d)"
    "bufs s' = (bufs s1)(b := (bufs s1 b)\<lparr>b_flags := (b_flags (bufs s1 b) OR B_VALID) AND NOT B_DIRTY\<rparr>)"
    using sd_rw_served [of s1 b d M "blkmem s d" c] bio_invD(3) [OF inv] l rg(3) c(1) s1 by auto
  define B where "B = (bufs s1 b)\<lparr>b_flags := (b_flags (bufs s1 b) OR B_VALID) AND NOT B_DIRTY\<rparr>"
  have bu: "bufs s' = (bufs s)(b := B)" using s'(8) by (simp add: s1_def upd_buf_def B_def)
  have fr: "bio_rest s s'" "mem_rest s s'" using s'(3,4) by (simp_all add: bio_rest_def mem_rest_def s1_def upd_buf_def)
  have byt: "buf_bytes s' x = buf_bytes s x" for x using s'(7) by (simp add: buf_bytes_def bu B_def s1 d)
  have wr: "on_disk sector dv s' i k = (if i = j then buf_bytes s b k else on_disk sector dv s i k)" if "k < BSIZE" for i k
    using write_disk [of sector s' "unat (b_blockno (bufs s b))" "blkmem s d" s dv j k i] c(2) s'(6) rg(1) fr(1) that d
    by (simp add: buf_bytes_def bio_rest_def)
  have "bio_inv sector dv nblk secs s'"
    by (rule bio_inv_same [OF inv u b(2) j bu])
      (use bio_invD [OF inv] b s' d wr fr s1 in \<open>simp_all add: bflags busy_def bio_rest_def byt B_def\<close>)
  moreover have "busy s' = busy s" "caches_blk dv s' b j" "bit (b_flags (bufs s' b)) (Suc 0)" "bio_kept (busy s - {b}) s s'"
    using fr(1) b(2) bN by (auto simp: busy_def caches_blk_def bflags bio_rest_def bu B_def s1_def upd_buf_def bio_kept_def byt used_def split: if_splits)
  moreover have "bwrite M b s = Some (Inl (), s')" using s'(1) b(1) by (simp add: bwrite_def s1_def [symmetric] busy_def bflags)
  ultimately show ?thesis using byt wr by (auto simp: bwrite_post_def)
qed

section \<open>Releasing a buffer\<close>

definition brelse_post :: "('c \<Rightarrow> nat \<Rightarrow> nat \<Rightarrow> u8) \<Rightarrow> u32 \<Rightarrow> nat \<Rightarrow> nat \<Rightarrow> nat \<Rightarrow> ('c, 'a) bio_scheme \<Rightarrow> ('c, 'a) bio_scheme \<Rightarrow> bool" where
  "brelse_post sector dv nblk secs b s s' \<longleftrightarrow> bio_inv sector dv nblk secs s' \<and> busy s' = busy s - {b} \<and>
     bio_kept (busy s - {b}) s s' \<and> card s' = card s \<and> Ch_buf b \<in> set (woken s')"

lemma brelse_spec:
  assumes inv: "bio_inv sector dv nblk secs s" and b: "b \<in> busy s" "caches_blk dv s b j" and j: "j < nblk" and l: "L_bcache \<notin> held s"
    and co: "bit (b_flags (bufs s b)) (Suc 0) \<Longrightarrow> \<forall>k < BSIZE. buf_bytes s b k = on_disk sector dv s j k"
  shows "\<exists>s'. brelse b s = Some s' \<and> brelse_post sector dv nblk secs b s s'"
proof -
  have u: "b \<in> used s" and bN: "b < NBUF" using busy_used [OF inv b(1)] by (simp_all add: used_def)
  obtain xs where xs: "linked (clinks s) 0 (map Suc xs)" "set xs = {..<NBUF}" using bio_invD(2) [OF inv] by blast
  define N where "N = list_push_back 0 (b + 1) (list_drop (b + 1) (clinks s))"
  have ds: "distinct xs" using xs(1) by (simp add: linked_def distinct_map)
  have "map Suc (remove1 b xs) = remove1 (Suc b) (map Suc xs)" by (induction xs) auto
  then have "linked (list_drop (Suc b) (clinks s)) 0 (map Suc (remove1 b xs))"
    using linked_remove [OF xs(1), of "Suc b"] xs(2) bN by simp
  then have "linked N 0 (map Suc (remove1 b xs @ [b]))"
    unfolding N_def using linked_push_back [of _ 0 "map Suc (remove1 b xs)" "Suc b"] ds by auto
  moreover have "set (remove1 b xs @ [b]) = {..<NBUF}" using xs(2) ds bN by auto
  ultimately have li: "\<exists>xs. linked N 0 (map Suc xs) \<and> set xs = {..<NBUF}" by blast
  define B where "B = (bufs s b)\<lparr>b_refcnt := b_refcnt (bufs s b) - 1, b_flags := b_flags (bufs s b) AND NOT B_BUSY\<rparr>"
  define s' where "s' = s\<lparr>clinks := N, bufs := (bufs s)(b := B), woken := Ch_buf b # woken s\<rparr>"
  have "brelse b s = Some s'"
    using b(1) l by (simp add: brelse_def Let_def lock_simps upd_buf_def k_wakeup_def s'_def B_def N_def busy_def bflags)
  moreover have "bio_inv sector dv nblk secs s'"
    by (rule bio_inv_same [OF inv u b(2) j, of s' B])
      (use bio_invD [OF inv] b li co in \<open>simp_all add: s'_def B_def bflags on_disk_def buf_bytes_def mem_rest_def buf_ok_def busy_def\<close>)
  moreover have "busy s' = busy s - {b}" "bio_kept (busy s - {b}) s s'"
    by (auto simp: s'_def B_def busy_def bflags bio_kept_def bio_rest_def used_def buf_bytes_def split: if_splits)
  ultimately show ?thesis by (auto simp: brelse_post_def s'_def)
qed

text \<open>\<^verbatim>\<open>bwrite\<close> and \<^verbatim>\<open>brelse\<close> of a buffer nobody holds panic.\<close>

lemma unheld_panics: "b < NBUF \<Longrightarrow> b \<notin> busy s \<Longrightarrow> bwrite M b s = None \<and> brelse b s = None"
  by (simp add: bwrite_def brelse_def busy_def bflags)

section \<open>A consistent cache\<close>

text \<open>A cache whose only slab is a block of the largest order with every object handed out.\<close>

definition cache_blocks :: slab_cache where
  "cache_blocks = zero_cache\<lparr>sc_slab_size := 4194304, sc_object_size := 4096\<rparr>"

lemma cache_blocks_props: "cache_wf cache_blocks" "unat (slab_max_object_num cache_blocks) = 1022" "unat (sc_slab_size cache_blocks) = 4194304"
    "unat (sc_object_size cache_blocks) = 4096" "sc_alignment cache_blocks = 0"
proof -
  show w: "cache_wf cache_blocks"
    by (auto simp: cache_wf_def cache_blocks_def zero_cache_def PAGE_SIZE_def intro!: exI [of _ 10])
  show "unat (sc_slab_size cache_blocks) = 4194304" "unat (sc_object_size cache_blocks) = 4096" "sc_alignment cache_blocks = 0"
    by (simp_all add: cache_blocks_def zero_cache_def)
  then show "unat (slab_max_object_num cache_blocks) = 1022"
    using slab_max_object_num_eq [OF w] by (simp add: SLAB_HEADER_SIZE_def sizeof_slab_header_def)
qed

lemma full_blocks_state:
  obtains h and s :: slab where "cinv 0 [] [h] (\<lambda>_. []) s" "buddy_inv s" "held s = {}" "caches s 0 = cache_blocks\<lparr>slabs_full := Some h\<rparr>"
proof -
  have fo: "find_order 0 4194304 = Some 10" by (simp add: PAGE_SIZE_def)
  have "free_from 10 (pages booted)"
    using booted_props(5,6) by (auto simp: free_from_def PAGE_NUM_eq intro!: exI [of _ 0])
  then obtain p t where t: "buddy_alloc 4194304 booted = Some (p, t)" "alloc_post 10 booted p t"
    using buddy_alloc_cases [OF booted_props(2) _ _ fo] booted_props(4) by auto
  define h where "h = PAGE_START + PAGE_SIZE * p"
  define C where "C = cache_blocks\<lparr>slabs_full := Some h\<rparr>"
  define s :: slab where "s = \<lparr>held = {}, woken = [], pages = pages t, free_lists = free_lists t,
     slabs = (\<lambda>_. \<lparr>sh_next = None, sh_free = 1022, sh_object = slab_object_base cache_blocks h, sh_list = (\<lambda>_. SLAB_FREE_END)\<rparr>),
     caches = (\<lambda>_. C), slab_size_limits = slab_size_limit, free_cache_head = None\<rparr>"
  have C: "unat (slab_max_object_num C) = 1022" "slab_object_base C h = slab_object_base cache_blocks h"
    "cache_wf C" "unat (sc_slab_size C) = 4194304" "slabs_full C = Some h" "slabs_partial C = None"
    using cache_blocks_props
    by (simp_all add: C_def slab_max_object_num_def slab_object_base_def cache_wf_def Let_def cache_blocks_def zero_cache_def)
  have "(p, 10) \<in> allocs (pages t)" using t(2) by (auto simp: alloc_post_def simp del: mem_allocs)
  then have ob: "owns_block s C h"
    using C(4) unfolding owns_block_def by (intro exI [of _ p] exI [of _ 10]) (simp add: s_def h_def PAGE_SIZE_def)
  have "cinv 0 [] [h] (\<lambda>_. []) s" using ob C by (simp add: cinv_def s_def slab_ok_def)
  moreover have "buddy_inv s" "held s = {}" "caches s 0 = C" using t(2) by (simp_all add: s_def buddy_inv_def alloc_post_def)
  ultimately show thesis using that [of h s] C(1) by (simp add: C_def)
qed

lemma linked_fold_push: "linked (fold (\<lambda>b N. list_push_back 0 (b + 1) N) [0..<n] (list_init 0 N)) 0 (map Suc [0..<n])"
proof (induction n)
  case 0
  then show ?case by (simp add: linked_init)
next
  case (Suc n)
  then show ?case using linked_push_back [OF Suc, of "Suc n"] by auto
qed

text \<open>For every card and partition there is a consistent cache, with a data block in every buffer.\<close>

lemma warm_state:
  assumes "dv \<noteq> FATMINOR" "unat lba + BLKSECT * nblk \<le> secs" "secs < 2 ^ 32" "NBUF \<le> nblk"
  shows "\<exists>s :: ('c, 'a) bio_scheme. bio_inv sector dv nblk secs s \<and> bio_ready s \<and> used s = {..<NBUF} \<and> busy s = {} \<and> held s = {} \<and> card s = c \<and>
    ptlba s = (\<lambda>_. lba) \<and> bio.more s = m"
proof -
  obtain h and k :: slab where k: "cinv 0 [] [h] (\<lambda>_. []) k" "buddy_inv k" "held k = {}" "caches k 0 = cache_blocks\<lparr>slabs_full := Some h\<rparr>"
    by (rule full_blocks_state)
  define ad where "ad i = object_addr (caches k 0) (h, i)" for i
  define bf where "bf b = \<lparr>b_flags = 0, b_dev = dv, b_blockno = lba + of_nat (BLKSECT * b), b_refcnt = 0, b_data = Some (ad b)\<rparr>" for b
  define s :: "('c, 'a) bio_scheme" where "s = \<lparr>held = {}, woken = [], pages = pages k, free_lists = free_lists k, slabs = slabs k, caches = caches k,
    slab_size_limits = slab_size_limits k, free_cache_head = free_cache_head k, bufs = bf,
    clinks = fold (\<lambda>b N. list_push_back 0 (b + 1) N) [0..<NBUF] (list_init 0 \<lparr>l_next = (\<lambda>_. 0), l_prev = (\<lambda>_. 0)\<rparr>),
    dlinks = list_init 0 \<lparr>l_next = (\<lambda>_. 0), l_prev = (\<lambda>_. 0)\<rparr>, BUFDATA = 0, blkmem = (\<lambda>_ _. 0), card = c, ptlba = (\<lambda>_. lba), \<dots> = m\<rparr>"
  have C: "slab_max_object_num (caches k 0) = slab_max_object_num cache_blocks" "sc_object_size (caches k 0) = sc_object_size cache_blocks"
    by (simp_all add: k(4) slab_max_object_num_def)
  have live: "(h, i) \<in> live_objects 0 [] [h] (\<lambda>_. []) k" if "i < NBUF" for i
    using that C(1) cache_blocks_props(2) by (simp add: live_objects_def NBUF_def)
  have p0: "pool_inv 0 (ad ` {..<NBUF}) k"
    unfolding pool_inv_def using k(1,2) C(2) cache_blocks_props(4) live
    by (intro conjI exI [of _ "[]"] exI [of _ "[h]"] exI [of _ "\<lambda>_. []"]) (auto simp: ad_def BSIZE_def)
  have p1: "pool_inv (BUFDATA s) (ad ` {..<NBUF}) s" using pool_inv_rest [OF _ p0, of s] by (simp add: mem_rest_def s_def)
  have pool: "pool_inv (BUFDATA s) {d. \<exists>b < NBUF. b_data (bufs s b) = Some d} s"
    by (rule pool_inv_mono [OF p1]) (auto simp: s_def bf_def)
  have us: "used s = {..<NBUF}" by (auto simp: used_def s_def bf_def)
  have ok: "disk_ok dv nblk secs s" using assms by (simp add: disk_ok_def s_def)
  have cb: "caches_blk dv s b b" for b by (simp add: caches_blk_def s_def bf_def)
  have i1: "inj_on (\<lambda>b. b_data (bufs s b)) (used s)"
    using C(2) cache_blocks_props(4) by (auto simp: us inj_on_def s_def bf_def ad_def object_addr_def)
  have i2: "inj_on (\<lambda>b. b_blockno (bufs s b)) (used s)"
  proof (rule inj_onI)
    fix x y assume a: "x \<in> used s" "y \<in> used s" "b_blockno (bufs s x) = b_blockno (bufs s y)"
    have "caches_blk dv s x y" using a(3) cb [of x] cb [of y] by (simp add: caches_blk_def)
    then show "x = y" using caches_blk_inj [OF ok _ _ cb [of x], of y] a(1,2) assms(4) by (simp add: us)
  qed
  have "buf_ok sector dv nblk s b" if "b < NBUF" for b
    using cb [of b] that assms(4) by (auto simp: buf_ok_def s_def bf_def intro!: exI [of _ b])
  moreover have "\<exists>xs. linked (clinks s) 0 (map Suc xs) \<and> set xs = {..<NBUF}"
    by (rule exI [of _ "[0..<NBUF]"]) (use linked_fold_push [of NBUF] in \<open>simp add: s_def atLeast0LessThan\<close>)
  moreover have "linked (dlinks s) 0 []" by (simp add: s_def linked_init)
  ultimately have "bio_inv sector dv nblk secs s" unfolding bio_inv_def using ok i1 i2 pool by blast
  moreover have "busy s = {}" "held s = {}" "card s = c" "ptlba s = (\<lambda>_. lba)" "bio.more s = m" by (auto simp: busy_def s_def bf_def)
  moreover have "bio_ready s" unfolding bio_ready_def bio_unlocked_def us using \<open>busy s = {}\<close> \<open>held s = {}\<close> lessThan_iff [of 0 NBUF] by (auto simp: NBUF_def simp del: lessThan_iff)
  ultimately show ?thesis using us by blast
qed

section \<open>Properties\<close>

text \<open>
  C9: On a consistent buffer cache \<^verbatim>\<open>bread\<close> of a block inside the partition waits when another caller has
  the block's buffer locked. Otherwise, provided that some buffer is free (and, while buffers are
  still without a data block, that the allocator has room), it returns a locked buffer with exactly
  the bytes the card has for that block, whether they were cached or not; the card, the other locked
  buffers and the lock state are as before and the cache stays consistent.
\<close>

theorem bread_correct:
  assumes "mmc_ok M sector secs" "bio_inv sector dv nblk secs s" "bio_ready s" "j < nblk"
  shows "(\<exists>b. b \<in> busy s \<and> caches_blk dv s b j \<and> bread M dv (of_nat j) s = Some (Inr (Ch_buf b), s)) \<or>
    (\<exists>b s'. bread M dv (of_nat j) s = Some (Inl b, s') \<and> bread_post sector dv nblk secs j b s s')"
proof (cases "\<exists>b. b \<in> busy s \<and> caches_blk dv s b j")
  case True
  then obtain b where b: "b \<in> busy s" "caches_blk dv s b j" by blast
  have "L_bcache \<notin> held s" using assms(3) by (simp add: bio_ready_def bio_unlocked_def)
  from bget_sleeps [OF assms(2) this b] have "bread M dv (of_nat j) s = Some (Inr (Ch_buf b), s)" by (simp add: bread_def)
  then show ?thesis using b by blast
next
  case False
  then show ?thesis using bread_spec [OF assms(1-3) _ assms(4)] by blast
qed

text \<open>A card in memory, as an instance of the driver.\<close>

definition ram_mmc :: "(nat \<Rightarrow> nat \<Rightarrow> u8) mmc_ops" where
  "ram_mmc = \<lparr>mmc_bread = (\<lambda>st n c. (n, (\<lambda>k. c (st + k div SECTOR_SIZE) (k mod SECTOR_SIZE)), c)),
     mmc_bwrite = (\<lambda>st n d c. (n, (\<lambda>i k. if st \<le> i \<and> i < st + n then d ((i - st) * SECTOR_SIZE + k) else c i k)))\<rparr>"

lemma ram_mmc_ok: "mmc_ok ram_mmc (\<lambda>c. c) secs"
  by (simp add: mmc_ok_def ram_mmc_def)

definition counting_card :: "nat \<Rightarrow> nat \<Rightarrow> u8" where
  "counting_card i k = of_nat (i + k)"

lemma warm_counting:
  obtains s :: "(nat \<Rightarrow> nat \<Rightarrow> u8) bio" where "bio_inv (\<lambda>c. c) 1 200 4096 s" "bio_ready s" "busy s = {}" "held s = {}" "card s = counting_card" "ptlba s 1 = 2048"
proof -
  show thesis using warm_state [of 1 2048 200 4096 "\<lambda>c. c" counting_card "()"] that
    by (fastforce simp: FATMINOR_def BLKSECT_def BSIZE_def SECTOR_SIZE_def NBUF_def)
qed

theorem bread_correct_witness:
  "\<exists>(s :: (nat \<Rightarrow> nat \<Rightarrow> u8) bio) b s'. bread ram_mmc 1 (of_nat 5) s = Some (Inl b, s') \<and> buf_bytes s' b 700 = of_nat (2048 + 41 + 188)"
proof -
  obtain s :: "(nat \<Rightarrow> nat \<Rightarrow> u8) bio" where s: "bio_inv (\<lambda>c. c) 1 200 4096 s" "bio_ready s" "busy s = {}" "held s = {}" "card s = counting_card" "ptlba s 1 = 2048"
    by (rule warm_counting)
  obtain b s' where "bread ram_mmc 1 (of_nat 5) s = Some (Inl b, s')" "bread_post (\<lambda>c. c) 1 200 4096 5 b s s'"
    using bread_correct [OF ram_mmc_ok s(1,2), of 5] s(3) by auto
  then have "buf_bytes s' b 700 = on_disk (\<lambda>c. c) 1 s 5 700" by (simp add: bread_post_def BSIZE_def)
  also have "\<dots> = of_nat (2048 + 41 + 188)"
    by (simp add: on_disk_def s(5,6) counting_card_def BLKSECT_def BSIZE_def SECTOR_SIZE_def)
  finally show ?thesis using \<open>bread ram_mmc 1 (of_nat 5) s = Some (Inl b, s')\<close> by blast
qed

text \<open>
  C10: Blocks keep what is written to them. The holder of a buffer who fills it with any bytes, calls
  \<^verbatim>\<open>log_write\<close> and \<^verbatim>\<open>brelse\<close> gets both calls to return; the card then has the bytes in that block and every
  other block of the card as before, the buffer is unlocked, waiters for it are woken, and a later
  \<^verbatim>\<open>bread\<close> of the block returns the bytes.
\<close>

theorem block_write_read:
  assumes "mmc_ok M sector secs" "bio_inv sector dv nblk secs s" "bio_unlocked s" "b \<in> busy s" "caches_blk dv s b j" "j < nblk"
    and "s1 = s\<lparr>blkmem := (blkmem s)(the (b_data (bufs s b)) := f)\<rparr>"
  shows "\<exists>s2 s3. log_write M b s1 = Some (Inl (), s2) \<and> brelse b s2 = Some s3 \<and> bio_inv sector dv nblk secs s3 \<and>
    busy s3 = busy s - {b} \<and> held s3 = held s \<and> Ch_buf b \<in> set (woken s3) \<and>
    (\<forall>i k. k < BSIZE \<longrightarrow> on_disk sector dv s3 i k = (if i = j then f k else on_disk sector dv s i k)) \<and>
    (\<exists>s4. bread M dv (of_nat j) s3 = Some (Inl b, s4) \<and> (\<forall>k < BSIZE. buf_bytes s4 b k = f k))"
proof -
  have l: "L_bcache \<notin> held s" "L_sd \<notin> held s" using assms(3) by (simp_all add: bio_unlocked_def)
  have u: "b \<in> used s" using busy_used [OF assms(2,4)] .
  have nd: "\<not> bit (b_flags (bufs s b)) 2" "b < NBUF" using bio_invD(4) [OF assms(2)] u by (auto simp: buf_ok_def used_def)
  have inv1: "bio_inv sector dv nblk secs s1"
    by (rule bio_inv_same [OF assms(2) u assms(5,6), of s1 "bufs s b"])
      (use bio_invD [OF assms(2)] assms(4) nd buf_data_used [OF u] in \<open>auto simp: assms(7) mem_rest_def on_disk_def busy_def\<close>)
  have s1: "b \<in> busy s1" "caches_blk dv s1 b j" "L_sd \<notin> held s1" "busy s1 = busy s" "held s1 = held s" "buf_bytes s1 b = f" "on_disk sector dv s1 = on_disk sector dv s"
    using assms(4,5) l by (simp_all add: assms(7) busy_def caches_blk_def buf_bytes_def on_disk_def fun_eq_iff)
  obtain s2 where s2: "bwrite M b s1 = Some (Inl (), s2)" "bwrite_post sector dv nblk secs j b s1 s2"
    using bwrite_spec [OF assms(1) inv1 s1(1,2) assms(6) s1(3)] by blast
  have w: "bio_inv sector dv nblk secs s2" "b \<in> busy s2" "caches_blk dv s2 b j" "busy s2 = busy s" "buf_bytes s2 b = f" "held s2 = held s"
      "bit (b_flags (bufs s2 b)) (Suc 0)"
      "\<And>i k. k < BSIZE \<Longrightarrow> on_disk sector dv s2 i k = (if i = j then f k else on_disk sector dv s i k)"
    using s2(2) s1 by (auto simp: bwrite_post_def bio_kept_def bio_rest_def)
  obtain s3 where s3: "brelse b s2 = Some s3" "brelse_post sector dv nblk secs b s2 s3"
    using brelse_spec [OF w(1-3) assms(6)] l w by auto
  have r: "bio_inv sector dv nblk secs s3" "busy s3 = busy s - {b}" "held s3 = held s" "Ch_buf b \<in> set (woken s3)"
      "\<And>i k. k < BSIZE \<Longrightarrow> on_disk sector dv s3 i k = (if i = j then f k else on_disk sector dv s i k)"
    using s3(2) w by (auto simp: brelse_post_def bio_kept_def bio_rest_def on_disk_def)
  have c3: "caches_blk dv s3 b j" "bit (b_flags (bufs s3 b)) (Suc 0)"
    using s3(1) w(2,3,7) by (auto simp: brelse_def Let_def upd_buf_def k_acquire_def k_release_def k_wakeup_def caches_blk_def busy_def bflags split: if_splits)
  obtain s4 where s4: "bget dv (of_nat j) s3 = Some (Inl b, s4)" "bit (b_flags (bufs s4 b)) (Suc 0)" "\<forall>k < BSIZE. buf_bytes s4 b k = on_disk sector dv s3 j k"
    using bget_hit [OF r(1) _ nd(2) _ c3(1) assms(6)] r(2,3) l c3(2) by auto
  then have "bread M dv (of_nat j) s3 = Some (Inl b, s4) \<and> (\<forall>k < BSIZE. buf_bytes s4 b k = f k)"
    using s4 r(5) by (simp add: bread_def bflags)
  then show ?thesis using s2(1) s3(1) r unfolding log_write_def by blast
qed

theorem block_write_read_witness:
  "\<exists>(s :: (nat \<Rightarrow> nat \<Rightarrow> u8) bio) b s2 s3 s4. log_write ram_mmc b (s\<lparr>blkmem := (blkmem s)(the (b_data (bufs s b)) := (\<lambda>k. 7))\<rparr>) = Some (Inl (), s2) \<and>
     brelse b s2 = Some s3 \<and> bread ram_mmc 1 (of_nat 5) s3 = Some (Inl b, s4) \<and> buf_bytes s4 b 4095 = 7"
proof -
  obtain s0 :: "(nat \<Rightarrow> nat \<Rightarrow> u8) bio" where s: "bio_inv (\<lambda>c. c) 1 200 4096 s0" "bio_ready s0" "busy s0 = {}" "held s0 = {}"
    by (rule warm_counting) blast
  obtain b s where "bread_post (\<lambda>c. c) 1 200 4096 5 b s0 s"
    using bread_spec [OF ram_mmc_ok s(1,2), of 5] s(3) by auto
  then have p: "bio_inv (\<lambda>c. c) 1 200 4096 s" "b \<in> busy s" "caches_blk 1 s b 5" "bio_unlocked s"
    using s(4) by (auto simp: bread_post_def got_def bio_kept_def bio_rest_def bio_unlocked_def)
  have "(4095::nat) < BSIZE" "(5::nat) < 200" by (simp_all add: BSIZE_def)
  then show ?thesis using block_write_read [OF ram_mmc_ok p(1,4,2,3) _ refl, of "\<lambda>k. 7"] by blast
qed

end
