(* ===== verification/Kernel_Bytes.thy ===== *)
theory Kernel_Bytes
  imports Kernel_Prelude
begin

text \<open>
  Words in byte memory, little endian: the view that disk blocks and page tables share. A write
  followed by a read of the same field gives the value back, and fields that do not overlap do not
  disturb each other.
\<close>

section \<open>Little-endian fields\<close>

fun le_val :: "nat \<Rightarrow> (nat \<Rightarrow> u8) \<Rightarrow> nat \<Rightarrow> nat" where
  "le_val 0 f p = 0"
| "le_val (Suc n) f p = unat (f p) + 256 * le_val n f (Suc p)"

definition put_le :: "nat \<Rightarrow> nat \<Rightarrow> nat \<Rightarrow> (nat \<Rightarrow> u8) \<Rightarrow> nat \<Rightarrow> u8" where
  "put_le n v p f = (\<lambda>i. if p \<le> i \<and> i < p + n then of_nat (v div 256 ^ (i - p)) else f i)"

definition get16 :: "(nat \<Rightarrow> u8) \<Rightarrow> nat \<Rightarrow> u16" where "get16 f p = of_nat (le_val 2 f p)"
definition get32 :: "(nat \<Rightarrow> u8) \<Rightarrow> nat \<Rightarrow> u32" where "get32 f p = of_nat (le_val 4 f p)"
definition get64 :: "(nat \<Rightarrow> u8) \<Rightarrow> nat \<Rightarrow> u64" where "get64 f p = of_nat (le_val 8 f p)"
definition put16 :: "u16 \<Rightarrow> nat \<Rightarrow> (nat \<Rightarrow> u8) \<Rightarrow> nat \<Rightarrow> u8" where "put16 v = put_le 2 (unat v)"
definition put32 :: "u32 \<Rightarrow> nat \<Rightarrow> (nat \<Rightarrow> u8) \<Rightarrow> nat \<Rightarrow> u8" where "put32 v = put_le 4 (unat v)"
definition put64 :: "u64 \<Rightarrow> nat \<Rightarrow> (nat \<Rightarrow> u8) \<Rightarrow> nat \<Rightarrow> u8" where "put64 v = put_le 8 (unat v)"

lemma le_val_lt: "le_val n f p < 256 ^ n"
proof (induction n arbitrary: p)
  case (Suc n)
  have "unat (f p) < 256" using unsigned_less [of "f p"] by simp
  then show ?case using Suc [of "Suc p"] by simp
qed simp

lemma le_val_cong: "(\<And>k. p \<le> k \<Longrightarrow> k < p + n \<Longrightarrow> f k = g k) \<Longrightarrow> le_val n f p = le_val n g p"
  by (induction n arbitrary: p) auto

lemma le_val_div: "(\<And>k. k < n \<Longrightarrow> f (p + k) = of_nat (v div 256 ^ k)) \<Longrightarrow> le_val n f p = v mod 256 ^ n"
proof (induction n arbitrary: p v)
  case (Suc n)
  have "le_val n f (Suc p) = (v div 256) mod 256 ^ n"
  proof (rule Suc.IH)
    fix k assume "k < n"
    then show "f (Suc p + k) = of_nat (v div 256 div 256 ^ k)" using Suc.prems [of "Suc k"] by (simp add: div_mult2_eq)
  qed
  moreover have "unat (f p) = v mod 256" using Suc.prems [of 0] by (simp add: unat_of_nat take_bit_eq_mod)
  ultimately show ?case by (simp add: mod_mult2_eq)
qed simp

lemma le_put_same: "le_val n (put_le n v p f) p = v mod 256 ^ n"
  by (rule le_val_div) (simp add: put_le_def)

lemma le_put_other: "q + n \<le> p \<or> p + m \<le> q \<Longrightarrow> le_val n (put_le m v p f) q = le_val n f q"
  by (rule le_val_cong) (auto simp: put_le_def)

lemma get_put_same [simp]: "get16 (put16 v p f) p = v" "get32 (put32 w p f) p = w" "get64 (put64 x p f) p = x"
proof -
  have "unat v < 256 ^ 2" using unsigned_less [of v] by simp
  moreover have "unat w < 256 ^ 4" using unsigned_less [of w] by simp
  moreover have "unat x < 256 ^ 8" using unsigned_less [of x] by simp
  ultimately show "get16 (put16 v p f) p = v" "get32 (put32 w p f) p = w" "get64 (put64 x p f) p = x"
    by (simp_all only: get16_def put16_def get32_def put32_def get64_def put64_def le_put_same mod_less) simp_all
qed

lemma get_put_other:
  "q + 2 \<le> p \<or> p + 2 \<le> q \<Longrightarrow> get16 (put16 v p f) q = get16 f q"
  "q + 2 \<le> p \<or> p + 4 \<le> q \<Longrightarrow> get16 (put32 w p f) q = get16 f q"
  "q + 2 \<le> p \<or> p + 8 \<le> q \<Longrightarrow> get16 (put64 x p f) q = get16 f q"
  "q + 4 \<le> p \<or> p + 2 \<le> q \<Longrightarrow> get32 (put16 v p f) q = get32 f q"
  "q + 4 \<le> p \<or> p + 4 \<le> q \<Longrightarrow> get32 (put32 w p f) q = get32 f q"
  "q + 4 \<le> p \<or> p + 8 \<le> q \<Longrightarrow> get32 (put64 x p f) q = get32 f q"
  "q + 8 \<le> p \<or> p + 2 \<le> q \<Longrightarrow> get64 (put16 v p f) q = get64 f q"
  "q + 8 \<le> p \<or> p + 4 \<le> q \<Longrightarrow> get64 (put32 w p f) q = get64 f q"
  "q + 8 \<le> p \<or> p + 8 \<le> q \<Longrightarrow> get64 (put64 x p f) q = get64 f q"
  by (simp_all add: get16_def put16_def get32_def put32_def get64_def put64_def le_put_other)

lemma get_cong:
  "(\<And>k. p \<le> k \<Longrightarrow> k < p + 2 \<Longrightarrow> f k = g k) \<Longrightarrow> get16 f p = get16 g p"
  "(\<And>k. p \<le> k \<Longrightarrow> k < p + 4 \<Longrightarrow> f k = g k) \<Longrightarrow> get32 f p = get32 g p"
  "(\<And>k. p \<le> k \<Longrightarrow> k < p + 8 \<Longrightarrow> f k = g k) \<Longrightarrow> get64 f p = get64 g p"
  by (simp_all add: get16_def get32_def get64_def cong: le_val_cong)

lemma get32_zero [simp]: "get32 (\<lambda>_. 0) p = 0"
  by (simp add: get32_def numeral_eq_Suc)

lemma put_out: "k < p \<or> p + n \<le> k \<Longrightarrow> put_le n v p f k = f k"
  by (auto simp: put_le_def)

end
