(* ===== verification/Fs.thy ===== *)
theory Fs
  imports Bio_Correct Kernel_String Kernel_Bytes
begin

text \<open>
  The file system, \<^verbatim>\<open>kernel/fs.c\<close>: block allocation, the inode table, file contents, directories and
  path names, on the buffer cache. Structures on the card are laid out in bytes, little endian. A call
  that would wait for a buffer or an inode another process holds is \<open>None\<close> here, like a panic: the
  operations are followed as far as one process takes them without waiting, and the theorems show
  that they return.
\<close>

unbundle bit_operations_syntax

section \<open>Data\<close>

definition ROOTINO :: u32 where "ROOTINO = 1"
definition ROOTDEV :: u32 where "ROOTDEV = 1"
definition FSMAGIC :: u32 where "FSMAGIC = 0x10203040"
definition NDIRECT :: nat where "NDIRECT = 11"
definition NINDIRECT :: nat where "NINDIRECT = BSIZE div 4"
definition NINDIRECT2 :: nat where "NINDIRECT2 = NINDIRECT * NINDIRECT"
definition MAXFILE :: nat where "MAXFILE = NDIRECT + NINDIRECT + NINDIRECT2"
definition IPB :: nat where "IPB = BSIZE div 128"
definition BPB :: nat where "BPB = BSIZE * 8"
definition DIRSIZ :: nat where "DIRSIZ = 58"
definition NINODE :: nat where "NINODE = 1024"
definition MAY_EXEC :: u32 where "MAY_EXEC = 1"
definition MAY_WRITE :: u32 where "MAY_WRITE = 2"
definition MAY_READ :: u32 where "MAY_READ = 4"
definition S_IXUGO :: u32 where "S_IXUGO = 0x49"
definition T_DIR :: u16 where "T_DIR = 1"
definition T_FILE :: u16 where "T_FILE = 2"
definition T_DEVICE :: u16 where "T_DEVICE = 3"
definition T_MOUNT :: u16 where "T_MOUNT = 4"
definition T_SYMLINK :: u16 where "T_SYMLINK = 5"
definition CAP_DAC_OVERRIDE :: nat where "CAP_DAC_OVERRIDE = 1"

record superblock =
  sb_magic :: u32
  sb_size :: u32
  sb_nblocks :: u32
  sb_ninodes :: u32
  sb_nlog :: u32
  sb_logstart :: u32
  sb_inodestart :: u32
  sb_bmapstart :: u32

record timespec =
  tv_sec :: u64
  tv_nsec :: u64

record dinode =
  d_type :: u16
  d_major :: u16
  d_minor :: u16
  d_nlink :: u16
  d_size :: u32
  d_mode :: u32
  d_uid :: u32
  d_gid :: u32
  d_atime :: timespec
  d_mtime :: timespec
  d_ctime :: timespec
  d_addrs :: "nat \<Rightarrow> u32"

record inode = dinode +
  i_dev :: u32
  i_inum :: u32
  i_ref :: int
  i_lock :: sleeplock
  i_valid :: bool

text \<open>
  The file system state: the super block in memory, the inode table, the time \<^verbatim>\<open>clock_gettime\<close> reports,
  and of the current process its pid, its file system identity and capabilities, its working directory
  and the inodes of its open files.
\<close>

record 'c fs = "'c bio" +
  sb :: superblock
  itable :: "nat \<Rightarrow> inode"
  now :: timespec
  cur_pid :: int
  fsuid :: u32
  fsgid :: u32
  cap_effective :: u32
  cwd :: nat
  ofile_ip :: "int \<Rightarrow> nat"

definition upd_inode :: "nat \<Rightarrow> (inode \<Rightarrow> inode) \<Rightarrow> ('c, 'a) fs_scheme \<Rightarrow> ('c, 'a) fs_scheme" where
  "upd_inode i f s = s\<lparr>itable := (itable s)(i := f (itable s i))\<rparr>"

definition superblock_of :: "(nat \<Rightarrow> u8) \<Rightarrow> superblock" where
  "superblock_of f = \<lparr>sb_magic = get32 f 0, sb_size = get32 f 4, sb_nblocks = get32 f 8, sb_ninodes = get32 f 12,
     sb_nlog = get32 f 16, sb_logstart = get32 f 20, sb_inodestart = get32 f 24, sb_bmapstart = get32 f 28\<rparr>"

definition timespec_of :: "(nat \<Rightarrow> u8) \<Rightarrow> nat \<Rightarrow> timespec" where
  "timespec_of f p = \<lparr>tv_sec = get64 f p, tv_nsec = get64 f (p + 8)\<rparr>"

definition put_timespec :: "timespec \<Rightarrow> nat \<Rightarrow> (nat \<Rightarrow> u8) \<Rightarrow> nat \<Rightarrow> u8" where
  "put_timespec t p f = put64 (tv_nsec t) (p + 8) (put64 (tv_sec t) p f)"

text \<open>The 128 bytes of \<^verbatim>\<open>struct dinode\<close> at offset \<open>p\<close> of a block.\<close>

definition dinode_of :: "(nat \<Rightarrow> u8) \<Rightarrow> nat \<Rightarrow> dinode" where
  "dinode_of f p = \<lparr>d_type = get16 f p, d_major = get16 f (p + 2), d_minor = get16 f (p + 4), d_nlink = get16 f (p + 6),
     d_size = get32 f (p + 8), d_mode = get32 f (p + 12), d_uid = get32 f (p + 16), d_gid = get32 f (p + 20),
     d_atime = timespec_of f (p + 24), d_mtime = timespec_of f (p + 40), d_ctime = timespec_of f (p + 56),
     d_addrs = (\<lambda>k. if k < NDIRECT + 2 then get32 f (p + 72 + 4 * k) else 0)\<rparr>"

fun put_addrs :: "(nat \<Rightarrow> u32) \<Rightarrow> nat \<Rightarrow> nat \<Rightarrow> (nat \<Rightarrow> u8) \<Rightarrow> nat \<Rightarrow> u8" where
  "put_addrs a 0 p f = f"
| "put_addrs a (Suc n) p f = put32 (a n) (p + 4 * n) (put_addrs a n p f)"

definition put_dinode :: "('z dinode_scheme) \<Rightarrow> nat \<Rightarrow> (nat \<Rightarrow> u8) \<Rightarrow> nat \<Rightarrow> u8" where
  "put_dinode d p f =
     (let f = put16 (d_type d) p f; f = put16 (d_major d) (p + 2) f; f = put16 (d_minor d) (p + 4) f;
          f = put16 (d_nlink d) (p + 6) f; f = put32 (d_size d) (p + 8) f; f = put32 (d_uid d) (p + 16) f;
          f = put32 (d_gid d) (p + 20) f; f = put32 (d_mode d) (p + 12) f; f = put_timespec (d_atime d) (p + 24) f;
          f = put_timespec (d_mtime d) (p + 40) f; f = put_timespec (d_ctime d) (p + 56) f
      in put_addrs (d_addrs d) (NDIRECT + 2) (p + 72) f)"

section \<open>Buffers\<close>

text \<open>The calls of the buffer cache, followed while they do not wait.\<close>

definition bread_now :: "'c mmc_ops \<Rightarrow> u32 \<Rightarrow> u32 \<Rightarrow> ('c, 'a) bio_scheme \<Rightarrow> (nat \<times> ('c, 'a) bio_scheme) option" where
  "bread_now M dev bno s = (case bread M dev bno s of Some (Inl b, s) \<Rightarrow> Some (b, s) | _ \<Rightarrow> None)"

definition bwrite_now :: "'c mmc_ops \<Rightarrow> nat \<Rightarrow> ('c, 'a) bio_scheme \<Rightarrow> ('c, 'a) bio_scheme option" where
  "bwrite_now M b s = (case bwrite M b s of Some (Inl _, s) \<Rightarrow> Some s | _ \<Rightarrow> None)"

definition set_bytes :: "nat \<Rightarrow> (nat \<Rightarrow> u8) \<Rightarrow> ('c, 'a) bio_scheme \<Rightarrow> ('c, 'a) bio_scheme" where
  "set_bytes b f s = s\<lparr>blkmem := (blkmem s)(the (b_data (bufs s b)) := f)\<rparr>"

definition readsb :: "'c mmc_ops \<Rightarrow> u32 \<Rightarrow> ('c, 'a) fs_scheme \<Rightarrow> ('c, 'a) fs_scheme option" where
  "readsb M dev s = do {
     (b, s) \<leftarrow> bread_now M dev 1 s;
     let s = s\<lparr>sb := superblock_of (buf_bytes s b)\<rparr>;
     brelse b s
   }"

definition fsinit :: "'c mmc_ops \<Rightarrow> u32 \<Rightarrow> ('c, 'a) fs_scheme \<Rightarrow> ('c, 'a) fs_scheme option" where
  "fsinit M dev s = do {
     s \<leftarrow> readsb M dev s;
     if sb_magic (sb s) \<noteq> FSMAGIC then None else Some s
   }"

section \<open>Blocks\<close>

definition bzero :: "'c mmc_ops \<Rightarrow> u32 \<Rightarrow> u32 \<Rightarrow> ('c, 'a) fs_scheme \<Rightarrow> ('c, 'a) fs_scheme option" where
  "bzero M dev bno s = do {
     (b, s) \<leftarrow> bread_now M dev bno s;
     let s = set_bytes b (\<lambda>k. if k < BSIZE then 0 else buf_bytes s b k) s;
     s \<leftarrow> bwrite_now M b s;
     brelse b s
   }"

definition BBLOCK :: "u32 \<Rightarrow> ('c, 'a) fs_scheme \<Rightarrow> u32" where
  "BBLOCK b s = b div of_nat BPB + sb_bmapstart (sb s)"

text \<open>The loop over the bits of one bitmap block, from block number \<open>b\<close> on.\<close>

definition free_bit :: "(nat \<Rightarrow> u8) \<Rightarrow> nat \<Rightarrow> nat \<Rightarrow> nat option" where
  "free_bit f b sz = List.find (\<lambda>bi. f (bi div 8) AND push_bit (bi mod 8) 1 = 0) [0..<min BPB (sz - b)]"

primrec balloc_loop :: "'c mmc_ops \<Rightarrow> u32 \<Rightarrow> nat list \<Rightarrow> ('c, 'a) fs_scheme \<Rightarrow> (u32 \<times> ('c, 'a) fs_scheme) option" where
  "balloc_loop M dev [] s = Some (0, s)"
| "balloc_loop M dev (b # bs) s = do {
     (bp, s) \<leftarrow> bread_now M dev (BBLOCK (of_nat b) s) s;
     case free_bit (buf_bytes s bp) b (unat (sb_size (sb s))) of
       Some bi \<Rightarrow> do {
         let s = set_bytes bp ((buf_bytes s bp)(bi div 8 := buf_bytes s bp (bi div 8) OR push_bit (bi mod 8) 1)) s;
         s \<leftarrow> bwrite_now M bp s;
         s \<leftarrow> brelse bp s;
         s \<leftarrow> bzero M dev (of_nat (b + bi)) s;
         Some (of_nat (b + bi), s)
       }
     | None \<Rightarrow> do {
         s \<leftarrow> brelse bp s;
         balloc_loop M dev bs s
       }
   }"

definition balloc :: "'c mmc_ops \<Rightarrow> u32 \<Rightarrow> ('c, 'a) fs_scheme \<Rightarrow> (u32 \<times> ('c, 'a) fs_scheme) option" where
  "balloc M dev s = balloc_loop M dev (map (\<lambda>i. i * BPB) [0..<(unat (sb_size (sb s)) + BPB - 1) div BPB]) s"

definition bfree :: "'c mmc_ops \<Rightarrow> u32 \<Rightarrow> u32 \<Rightarrow> ('c, 'a) fs_scheme \<Rightarrow> ('c, 'a) fs_scheme option" where
  "bfree M dev b s = do {
     (bp, s) \<leftarrow> bread_now M dev (BBLOCK b s) s;
     let bi = unat b mod BPB;
     if buf_bytes s bp (bi div 8) AND push_bit (bi mod 8) 1 = 0 then None
     else do {
       let s = set_bytes bp ((buf_bytes s bp)(bi div 8 := buf_bytes s bp (bi div 8) AND NOT (push_bit (bi mod 8) 1))) s;
       s \<leftarrow> bwrite_now M bp s;
       brelse bp s
     }
   }"

section \<open>Inodes\<close>

definition IBLOCK :: "u32 \<Rightarrow> ('c, 'a) fs_scheme \<Rightarrow> u32" where
  "IBLOCK i s = i div of_nat IPB + sb_inodestart (sb s)"

definition inode_pos :: "u32 \<Rightarrow> nat" where
  "inode_pos inum = 128 * (unat inum mod IPB)"

definition iget :: "u32 \<Rightarrow> u32 \<Rightarrow> ('c, 'a) fs_scheme \<Rightarrow> (nat \<times> ('c, 'a) fs_scheme) option" where
  "iget dev inum s = do {
     s \<leftarrow> k_acquire L_itable s;
     case List.find (\<lambda>i. i_ref (itable s i) > 0 \<and> i_dev (itable s i) = dev \<and> i_inum (itable s i) = inum) [0..<NINODE] of
       Some i \<Rightarrow> do {
         let s = upd_inode i (\<lambda>ip. ip\<lparr>i_ref := i_ref ip + 1\<rparr>) s;
         s \<leftarrow> k_release L_itable s;
         Some (i, s)
       }
     | None \<Rightarrow> do {
         i \<leftarrow> List.find (\<lambda>i. i_ref (itable s i) = 0) [0..<NINODE];
         let s = upd_inode i (\<lambda>ip. ip\<lparr>i_dev := dev, i_inum := inum, i_ref := 1, i_valid := False\<rparr>) s;
         s \<leftarrow> k_release L_itable s;
         Some (i, s)
       }
   }"

definition idup :: "nat \<Rightarrow> ('c, 'a) fs_scheme \<Rightarrow> (nat \<times> ('c, 'a) fs_scheme) option" where
  "idup i s = do {
     s \<leftarrow> k_acquire L_itable s;
     let s = upd_inode i (\<lambda>ip. ip\<lparr>i_ref := i_ref ip + 1\<rparr>) s;
     s \<leftarrow> k_release L_itable s;
     Some (i, s)
   }"

primrec ialloc_loop :: "'c mmc_ops \<Rightarrow> u32 \<Rightarrow> u16 \<Rightarrow> nat list \<Rightarrow> ('c, 'a) fs_scheme \<Rightarrow> (nat option \<times> ('c, 'a) fs_scheme) option" where
  "ialloc_loop M dev type [] s = Some (None, s)"
| "ialloc_loop M dev type (inum # rest) s = do {
     (bp, s) \<leftarrow> bread_now M dev (IBLOCK (of_nat inum) s) s;
     let p = inode_pos (of_nat inum);
     if get16 (buf_bytes s bp) p = 0 then do {
       let s = set_bytes bp (put16 type p (\<lambda>k. if p \<le> k \<and> k < p + 128 then 0 else buf_bytes s bp k)) s;
       s \<leftarrow> bwrite_now M bp s;
       s \<leftarrow> brelse bp s;
       (i, s) \<leftarrow> iget dev (of_nat inum) s;
       let s = upd_inode i (\<lambda>ip. ip\<lparr>d_atime := now s, d_ctime := now s, d_mtime := now s\<rparr>) s;
       Some (Some i, s)
     } else do {
       s \<leftarrow> brelse bp s;
       ialloc_loop M dev type rest s
     }
   }"

definition ialloc :: "'c mmc_ops \<Rightarrow> u32 \<Rightarrow> u16 \<Rightarrow> ('c, 'a) fs_scheme \<Rightarrow> (nat option \<times> ('c, 'a) fs_scheme) option" where
  "ialloc M dev type s = ialloc_loop M dev type [1..<unat (sb_ninodes (sb s))] s"

definition iupdate :: "'c mmc_ops \<Rightarrow> nat \<Rightarrow> ('c, 'a) fs_scheme \<Rightarrow> ('c, 'a) fs_scheme option" where
  "iupdate M i s = do {
     (bp, s) \<leftarrow> bread_now M (i_dev (itable s i)) (IBLOCK (i_inum (itable s i)) s) s;
     let s = set_bytes bp (put_dinode (itable s i) (inode_pos (i_inum (itable s i))) (buf_bytes s bp)) s;
     s \<leftarrow> bwrite_now M bp s;
     brelse bp s
   }"

definition lock_inode :: "nat \<Rightarrow> ('c, 'a) fs_scheme \<Rightarrow> ('c, 'a) fs_scheme option" where
  "lock_inode i s = (case acquiresleep (L_inode i) (Ch_inode i) (cur_pid s) (i_lock (itable s i)) s of
     Some (Returns (sl, s)) \<Rightarrow> Some (upd_inode i (\<lambda>ip. ip\<lparr>i_lock := sl\<rparr>) s)
   | _ \<Rightarrow> None)"

definition unlock_inode :: "nat \<Rightarrow> ('c, 'a) fs_scheme \<Rightarrow> ('c, 'a) fs_scheme option" where
  "unlock_inode i s = do {
     (sl, s) \<leftarrow> releasesleep (L_inode i) (Ch_inode i) (i_lock (itable s i)) s;
     Some (upd_inode i (\<lambda>ip. ip\<lparr>i_lock := sl\<rparr>) s)
   }"

definition copy_dinode :: "dinode \<Rightarrow> inode \<Rightarrow> inode" where
  "copy_dinode d ip = ip\<lparr>d_type := d_type d, d_major := d_major d, d_minor := d_minor d, d_nlink := d_nlink d, d_size := d_size d,
     d_mode := d_mode d, d_uid := d_uid d, d_gid := d_gid d, d_atime := d_atime d, d_mtime := d_mtime d, d_ctime := d_ctime d,
     d_addrs := d_addrs d\<rparr>"

definition ilock :: "'c mmc_ops \<Rightarrow> nat \<Rightarrow> ('c, 'a) fs_scheme \<Rightarrow> ('c, 'a) fs_scheme option" where
  "ilock M i s =
     (if i_ref (itable s i) < 1 then None
      else do {
        s \<leftarrow> lock_inode i s;
        if \<not> i_valid (itable s i) then do {
          (bp, s) \<leftarrow> bread_now M (i_dev (itable s i)) (IBLOCK (i_inum (itable s i)) s) s;
          let s = upd_inode i (copy_dinode (dinode_of (buf_bytes s bp) (inode_pos (i_inum (itable s i))))) s;
          s \<leftarrow> brelse bp s;
          let s = upd_inode i (\<lambda>ip. ip\<lparr>i_valid := True\<rparr>) s;
          if d_type (itable s i) = 0 then None else Some s
        } else Some s
      })"

definition iunlock :: "nat \<Rightarrow> ('c, 'a) fs_scheme \<Rightarrow> ('c, 'a) fs_scheme option" where
  "iunlock i s = do {
     (h, s) \<leftarrow> holdingsleep (L_inode i) (cur_pid s) (i_lock (itable s i)) s;
     if \<not> h \<or> i_ref (itable s i) < 1 then None else unlock_inode i s
   }"

section \<open>File contents\<close>

definition data_ptr :: "nat \<Rightarrow> ('c, 'a) bio_scheme \<Rightarrow> nat" where
  "data_ptr b s = the (b_data (bufs s b))"

text \<open>
  Entry \<open>k\<close> of the block of addresses in buffer \<open>bp\<close>, filled by \<^verbatim>\<open>balloc\<close> when it is zero. When no block
  is left the code returns 0 and leaves the buffer locked.
\<close>

definition bmap_entry :: "'c mmc_ops \<Rightarrow> u32 \<Rightarrow> nat \<Rightarrow> nat \<Rightarrow> ('c, 'a) fs_scheme \<Rightarrow> (u32 \<times> ('c, 'a) fs_scheme) option" where
  "bmap_entry M dev bp k s =
     (let addr = get32 (buf_bytes s bp) (4 * k)
      in if addr = 0 then do {
           (addr, s) \<leftarrow> balloc M dev s;
           if addr = 0 then Some (0, s)
           else do {
             let s = set_bytes bp (put32 addr (4 * k) (buf_bytes s bp)) s;
             s \<leftarrow> bwrite_now M bp s;
             s \<leftarrow> brelse bp s;
             Some (addr, s)
           }
         } else do {
           s \<leftarrow> brelse bp s;
           Some (addr, s)
         })"

text \<open>The block of addresses whose number is in slot \<open>k\<close> of the inode, allocated if necessary.\<close>

definition bmap_root :: "'c mmc_ops \<Rightarrow> nat \<Rightarrow> nat \<Rightarrow> ('c, 'a) fs_scheme \<Rightarrow> (u32 \<times> ('c, 'a) fs_scheme) option" where
  "bmap_root M i k s =
     (if d_addrs (itable s i) k = 0 then do {
        (addr, s) \<leftarrow> balloc M (i_dev (itable s i)) s;
        if addr = 0 then Some (0, s)
        else Some (addr, upd_inode i (\<lambda>ip. ip\<lparr>d_addrs := (d_addrs ip)(k := addr)\<rparr>) s)
      } else Some (d_addrs (itable s i) k, s))"

definition bmap :: "'c mmc_ops \<Rightarrow> nat \<Rightarrow> nat \<Rightarrow> ('c, 'a) fs_scheme \<Rightarrow> (u32 \<times> ('c, 'a) fs_scheme) option" where
  "bmap M i bn s =
     (if bn < NDIRECT then
        if d_addrs (itable s i) bn = 0 then do {
          (addr, s) \<leftarrow> balloc M (i_dev (itable s i)) s;
          Some (addr, upd_inode i (\<lambda>ip. ip\<lparr>d_addrs := (d_addrs ip)(bn := addr)\<rparr>) s)
        } else Some (d_addrs (itable s i) bn, s)
      else if bn - NDIRECT < NINDIRECT then do {
        (addr, s) \<leftarrow> bmap_root M i NDIRECT s;
        if addr = 0 then Some (0, s)
        else do {
          (bp, s) \<leftarrow> bread_now M (i_dev (itable s i)) addr s;
          bmap_entry M (i_dev (itable s i)) bp (bn - NDIRECT) s
        }
      } else if bn - NDIRECT - NINDIRECT < NINDIRECT2 then do {
        let bn = bn - NDIRECT - NINDIRECT;
        (addr, s) \<leftarrow> bmap_root M i (NDIRECT + 1) s;
        if addr = 0 then Some (0, s)
        else do {
          (bp, s) \<leftarrow> bread_now M (i_dev (itable s i)) addr s;
          (addr, s) \<leftarrow> bmap_entry M (i_dev (itable s i)) bp (bn div NINDIRECT) s;
          if addr = 0 then Some (0, s)
          else do {
            (bp, s) \<leftarrow> bread_now M (i_dev (itable s i)) addr s;
            bmap_entry M (i_dev (itable s i)) bp (bn mod NINDIRECT) s
          }
        }
      } else None)"

text \<open>The loops of \<^verbatim>\<open>itrunc\<close>; \<open>a\<close> is the address of the data the code's pointer points to.\<close>

primrec free_direct :: "'c mmc_ops \<Rightarrow> nat \<Rightarrow> nat list \<Rightarrow> ('c, 'a) fs_scheme \<Rightarrow> ('c, 'a) fs_scheme option" where
  "free_direct M i [] s = Some s"
| "free_direct M i (k # ks) s =
     (if d_addrs (itable s i) k \<noteq> 0 then do {
        s \<leftarrow> bfree M (i_dev (itable s i)) (d_addrs (itable s i) k) s;
        free_direct M i ks (upd_inode i (\<lambda>ip. ip\<lparr>d_addrs := (d_addrs ip)(k := 0)\<rparr>) s)
      } else free_direct M i ks s)"

primrec free_entries :: "'c mmc_ops \<Rightarrow> u32 \<Rightarrow> nat \<Rightarrow> nat list \<Rightarrow> ('c, 'a) fs_scheme \<Rightarrow> ('c, 'a) fs_scheme option" where
  "free_entries M dev a [] s = Some s"
| "free_entries M dev a (j # js) s =
     (if get32 (blkmem s a) (4 * j) \<noteq> 0 then do {
        s \<leftarrow> bfree M dev (get32 (blkmem s a) (4 * j)) s;
        free_entries M dev a js (s\<lparr>blkmem := (blkmem s)(a := put32 0 (4 * j) (blkmem s a))\<rparr>)
      } else free_entries M dev a js s)"

primrec free_indirects :: "'c mmc_ops \<Rightarrow> u32 \<Rightarrow> nat \<Rightarrow> nat list \<Rightarrow> nat \<Rightarrow> ('c, 'a) fs_scheme \<Rightarrow> (nat \<times> ('c, 'a) fs_scheme) option" where
  "free_indirects M dev a [] bp s = Some (bp, s)"
| "free_indirects M dev a (j # js) bp s =
     (if get32 (blkmem s a) (4 * j) \<noteq> 0 then do {
        s \<leftarrow> brelse bp s;
        (bp, s) \<leftarrow> bread_now M dev (get32 (blkmem s a) (4 * j)) s;
        s \<leftarrow> free_entries M dev (data_ptr bp s) [0..<NINDIRECT] s;
        s \<leftarrow> bfree M dev (get32 (blkmem s a) (4 * j)) s;
        free_indirects M dev a js bp (s\<lparr>blkmem := (blkmem s)(a := put32 0 (4 * j) (blkmem s a))\<rparr>)
      } else free_indirects M dev a js bp s)"

definition itrunc :: "'c mmc_ops \<Rightarrow> nat \<Rightarrow> ('c, 'a) fs_scheme \<Rightarrow> ('c, 'a) fs_scheme option" where
  "itrunc M i s = do {
     s \<leftarrow> free_direct M i [0..<NDIRECT] s;
     s \<leftarrow> (if d_addrs (itable s i) NDIRECT \<noteq> 0 then do {
             (bp, s) \<leftarrow> bread_now M (i_dev (itable s i)) (d_addrs (itable s i) NDIRECT) s;
             s \<leftarrow> free_entries M (i_dev (itable s i)) (data_ptr bp s) [0..<NINDIRECT] s;
             s \<leftarrow> brelse bp s;
             s \<leftarrow> bfree M (i_dev (itable s i)) (d_addrs (itable s i) NDIRECT) s;
             Some (upd_inode i (\<lambda>ip. ip\<lparr>d_addrs := (d_addrs ip)(NDIRECT := 0)\<rparr>) s)
           } else Some s);
     s \<leftarrow> (if d_addrs (itable s i) (NDIRECT + 1) \<noteq> 0 then do {
             (bp, s) \<leftarrow> bread_now M (i_dev (itable s i)) (d_addrs (itable s i) (NDIRECT + 1)) s;
             (bp, s) \<leftarrow> free_indirects M (i_dev (itable s i)) (data_ptr bp s) [0..<NINDIRECT] bp s;
             s \<leftarrow> brelse bp s;
             s \<leftarrow> bfree M (i_dev (itable s i)) (d_addrs (itable s i) (NDIRECT + 1)) s;
             Some (upd_inode i (\<lambda>ip. ip\<lparr>d_addrs := (d_addrs ip)(NDIRECT + 1 := 0)\<rparr>) s)
           } else Some s);
     iupdate M i (upd_inode i (\<lambda>ip. ip\<lparr>d_size := 0\<rparr>) s)
   }"

definition iput :: "'c mmc_ops \<Rightarrow> nat \<Rightarrow> ('c, 'a) fs_scheme \<Rightarrow> ('c, 'a) fs_scheme option" where
  "iput M i s = do {
     s \<leftarrow> k_acquire L_itable s;
     s \<leftarrow> (if i_ref (itable s i) = 1 \<and> i_valid (itable s i) \<and> d_nlink (itable s i) = 0 then do {
             s \<leftarrow> lock_inode i s;
             s \<leftarrow> k_release L_itable s;
             s \<leftarrow> itrunc M i s;
             s \<leftarrow> iupdate M i (upd_inode i (\<lambda>ip. ip\<lparr>d_type := 0\<rparr>) s);
             s \<leftarrow> unlock_inode i (upd_inode i (\<lambda>ip. ip\<lparr>i_valid := False\<rparr>) s);
             k_acquire L_itable s
           } else Some s);
     k_release L_itable (upd_inode i (\<lambda>ip. ip\<lparr>i_ref := i_ref ip - 1\<rparr>) s)
   }"

definition iunlockput :: "'c mmc_ops \<Rightarrow> nat \<Rightarrow> ('c, 'a) fs_scheme \<Rightarrow> ('c, 'a) fs_scheme option" where
  "iunlockput M i s = do { s \<leftarrow> iunlock i s; iput M i s }"

record stat =
  st_dev :: u64
  st_ino :: u64
  st_nlink :: u32
  st_uid :: u32
  st_gid :: u32
  st_size :: u64
  st_blksize :: u32
  st_blocks :: u64
  st_atime :: timespec
  st_mtime :: timespec
  st_ctime :: timespec
  st_rdev :: u64
  st_mode :: u32

definition mkdev :: "u16 \<Rightarrow> u16 \<Rightarrow> u32" where
  "mkdev m n = push_bit 16 (scast m) OR scast n"

definition stati :: "nat \<Rightarrow> stat \<Rightarrow> ('c, 'a) fs_scheme \<Rightarrow> stat option" where
  "stati i st s =
     (let ip = itable s i;
          st = st\<lparr>st_dev := ucast (i_dev ip), st_ino := ucast (i_inum ip), st_nlink := scast (d_nlink ip), st_uid := d_uid ip,
            st_gid := d_gid ip, st_size := ucast (d_size ip), st_blksize := 1024,
            st_blocks := ucast (d_size ip div 1024 + 1), st_atime := d_atime ip, st_mtime := d_mtime ip, st_ctime := d_ctime ip\<rparr>;
          st = (if d_type ip = T_DEVICE then st\<lparr>st_rdev := ucast (mkdev (d_major ip) (d_minor ip))\<rparr> else st)
      in if d_type ip \<in> {T_FILE, T_DIR, T_DEVICE, T_MOUNT, T_SYMLINK} then Some (st\<lparr>st_mode := d_mode ip\<rparr>) else None)"

text \<open>
  The destination of \<^verbatim>\<open>readi\<close> is given by which of its bytes can be written, and the bytes delivered are
  part of the result; the source of \<^verbatim>\<open>writei\<close> by its bytes, \<open>None\<close> where reading faults. For a kernel
  address every byte is accessible. A count is returned as the 32-bit \<^verbatim>\<open>int\<close> it is.
\<close>

definition ret32 :: "nat \<Rightarrow> int" where
  "ret32 n = sint (of_nat n :: u32)"

lemma chunk_progress: "tot < n \<Longrightarrow> n - (tot + min (n - tot) (BSIZE - off mod BSIZE)) < n - tot"
proof -
  assume "tot < n"
  moreover have "off mod BSIZE < BSIZE" by (simp add: BSIZE_def)
  ultimately show ?thesis by (cases "n - tot \<le> BSIZE - off mod BSIZE") (auto simp: min_def)
qed

function readi_loop :: "'c mmc_ops \<Rightarrow> nat \<Rightarrow> (nat \<Rightarrow> bool) \<Rightarrow> nat \<Rightarrow> nat \<Rightarrow> nat \<Rightarrow> u8 list \<Rightarrow> ('c, 'a) fs_scheme \<Rightarrow>
    (int \<times> u8 list \<times> ('c, 'a) fs_scheme) option" where
  "readi_loop M i dst off n tot out s =
     (if tot < n then do {
        (addr, s) \<leftarrow> bmap M i (off div BSIZE) s;
        if addr = 0 then Some (ret32 tot, out, s)
        else do {
          (bp, s) \<leftarrow> bread_now M (i_dev (itable s i)) addr s;
          let m = min (n - tot) (BSIZE - off mod BSIZE);
          let chunk = map (buf_bytes s bp) [off mod BSIZE..<off mod BSIZE + m];
          if \<not> list_all dst [tot..<tot + m] then do {
            s \<leftarrow> brelse bp s;
            Some (-1, out @ take (length (takeWhile dst [tot..<tot + m])) chunk, s)
          } else do {
            s \<leftarrow> brelse bp s;
            readi_loop M i dst (off + m) n (tot + m) (out @ chunk) s
          }
        }
      } else Some (ret32 tot, out, s))"
  by pat_completeness auto
termination
  by (relation "measure (\<lambda>(M, i, dst, off, n, tot, out, s). n - tot)") (auto intro: chunk_progress)

declare readi_loop.simps [simp del]

definition readi :: "'c mmc_ops \<Rightarrow> nat \<Rightarrow> (nat \<Rightarrow> bool) \<Rightarrow> u32 \<Rightarrow> u32 \<Rightarrow> ('c, 'a) fs_scheme \<Rightarrow> (int \<times> u8 list \<times> ('c, 'a) fs_scheme) option" where
  "readi M i dst off n s =
     (if off > d_size (itable s i) \<or> off + n < off then Some (0, [], s)
      else (let n = (if off + n > d_size (itable s i) then d_size (itable s i) - off else n)
            in readi_loop M i dst (unat off) (unat n) 0 [] s))"

definition copyin_bytes :: "(nat \<Rightarrow> u8 option) \<Rightarrow> nat \<Rightarrow> nat \<Rightarrow> nat \<Rightarrow> (nat \<Rightarrow> u8) \<Rightarrow> nat \<Rightarrow> u8" where
  "copyin_bytes src tot p m f = (\<lambda>k. if p \<le> k \<and> k < p + m then the (src (tot + (k - p))) else f k)"

function writei_loop :: "'c mmc_ops \<Rightarrow> nat \<Rightarrow> (nat \<Rightarrow> u8 option) \<Rightarrow> nat \<Rightarrow> nat \<Rightarrow> nat \<Rightarrow> ('c, 'a) fs_scheme \<Rightarrow>
    (nat \<times> nat \<times> ('c, 'a) fs_scheme) option" where
  "writei_loop M i src off n tot s =
     (if tot < n then do {
        (addr, s) \<leftarrow> bmap M i (off div BSIZE) s;
        if addr = 0 then Some (off, tot, s)
        else do {
          (bp, s) \<leftarrow> bread_now M (i_dev (itable s i)) addr s;
          let m = min (n - tot) (BSIZE - off mod BSIZE);
          let ok = length (takeWhile (\<lambda>k. src k \<noteq> None) [tot..<tot + m]);
          let s = set_bytes bp (copyin_bytes src tot (off mod BSIZE) ok (buf_bytes s bp)) s;
          if ok < m then do {
            s \<leftarrow> brelse bp s;
            Some (off, tot, s)
          } else do {
            s \<leftarrow> bwrite_now M bp s;
            s \<leftarrow> brelse bp s;
            writei_loop M i src (off + m) n (tot + m) s
          }
        }
      } else Some (off, tot, s))"
  by pat_completeness auto
termination
  by (relation "measure (\<lambda>(M, i, src, off, n, tot, s). n - tot)") (auto intro: chunk_progress)

declare writei_loop.simps [simp del]

definition writei :: "'c mmc_ops \<Rightarrow> nat \<Rightarrow> (nat \<Rightarrow> u8 option) \<Rightarrow> u32 \<Rightarrow> u32 \<Rightarrow> ('c, 'a) fs_scheme \<Rightarrow> (int \<times> ('c, 'a) fs_scheme) option" where
  "writei M i src off n s =
     (if off > d_size (itable s i) \<or> off + n < off then Some (-1, s)
      else if unat (off + n) > MAXFILE * BSIZE then Some (-1, s)
      else do {
        (off, tot, s) \<leftarrow> writei_loop M i src (unat off) (unat n) 0 s;
        let s = (if off > unat (d_size (itable s i)) then upd_inode i (\<lambda>ip. ip\<lparr>d_size := of_nat off\<rparr>) s else s);
        s \<leftarrow> iupdate M i s;
        Some (ret32 tot, s)
      })"

text \<open>\<^verbatim>\<open>capable\<close> of \<^verbatim>\<open>include/linux/capability.h\<close>.\<close>

definition capable :: "nat \<Rightarrow> ('c, 'a) fs_scheme \<Rightarrow> bool" where
  "capable cap s \<longleftrightarrow> cap_effective s AND push_bit cap 1 \<noteq> 0"

definition permission :: "nat \<Rightarrow> u32 \<Rightarrow> ('c, 'a) fs_scheme \<Rightarrow> int" where
  "permission i msk s =
     (let ip = itable s i; mode = d_mode ip
      in if fsuid s = 0 then 0
         else let mode = (if fsuid s = d_uid ip then drop_bit 6 mode else if fsgid s = d_gid ip then drop_bit 3 mode else mode)
              in if mode AND msk AND (MAY_READ OR MAY_WRITE OR MAY_EXEC) = msk then 0
                 else if (msk AND (MAY_READ OR MAY_WRITE) \<noteq> 0 \<or> d_mode ip AND S_IXUGO \<noteq> 0) \<and> capable CAP_DAC_OVERRIDE s then 0
                      else - EACCES)"

section \<open>Directories\<close>

text \<open>A name is an array of \<^verbatim>\<open>DIRSIZ\<close> bytes, ended by a NUL when it is shorter.\<close>

record dirent =
  de_inum :: u32
  de_type :: u16
  de_name :: "nat \<Rightarrow> u8"

definition sizeof_dirent :: nat where "sizeof_dirent = 64"

definition dirent_of :: "u8 list \<Rightarrow> dirent" where
  "dirent_of bs = \<lparr>de_inum = get32 (\<lambda>k. bs ! k) 0, de_type = get16 (\<lambda>k. bs ! k) 4, de_name = (\<lambda>k. bs ! (6 + k))\<rparr>"

definition dirent_bytes :: "dirent \<Rightarrow> u8 list" where
  "dirent_bytes de = map (put32 (de_inum de) 0 (put16 (de_type de) 4 (\<lambda>k. de_name de (k - 6)))) [0..<sizeof_dirent]"

text \<open>The two arrays side by side, as \<^verbatim>\<open>strncmp\<close> and \<^verbatim>\<open>strncpy\<close> see them.\<close>

definition beside :: "(nat \<Rightarrow> u8) \<Rightarrow> (nat \<Rightarrow> u8) \<Rightarrow> memory" where
  "beside a b = (\<lambda>k. if k < DIRSIZ then a k else b (k - DIRSIZ))"

definition namecmp :: "(nat \<Rightarrow> u8) \<Rightarrow> (nat \<Rightarrow> u8) \<Rightarrow> int" where
  "namecmp a b = strncmp (beside a b) 0 DIRSIZ DIRSIZ"

definition dir_offsets :: "nat \<Rightarrow> ('c, 'a) fs_scheme \<Rightarrow> nat list" where
  "dir_offsets dp s = map (\<lambda>k. sizeof_dirent * k) [0..<(unat (d_size (itable s dp)) + sizeof_dirent - 1) div sizeof_dirent]"

definition read_dirent :: "'c mmc_ops \<Rightarrow> nat \<Rightarrow> nat \<Rightarrow> ('c, 'a) fs_scheme \<Rightarrow> (dirent \<times> ('c, 'a) fs_scheme) option" where
  "read_dirent M dp off s = do {
     (n, bs, s) \<leftarrow> readi M dp (\<lambda>_. True) (of_nat off) (of_nat sizeof_dirent) s;
     if n \<noteq> int sizeof_dirent then None else Some (dirent_of bs, s)
   }"

primrec dirlookup_loop :: "'c mmc_ops \<Rightarrow> nat \<Rightarrow> (nat \<Rightarrow> u8) \<Rightarrow> nat list \<Rightarrow> ('c, 'a) fs_scheme \<Rightarrow> ((nat \<times> nat) option \<times> ('c, 'a) fs_scheme) option" where
  "dirlookup_loop M dp name [] s = Some (None, s)"
| "dirlookup_loop M dp name (off # offs) s = do {
     (de, s) \<leftarrow> read_dirent M dp off s;
     if de_inum de = 0 then dirlookup_loop M dp name offs s
     else if namecmp name (de_name de) = 0 then do {
       (i, s) \<leftarrow> iget (i_dev (itable s dp)) (de_inum de) s;
       Some (Some (i, off), s)
     } else dirlookup_loop M dp name offs s
   }"

definition dirlookup :: "'c mmc_ops \<Rightarrow> nat \<Rightarrow> (nat \<Rightarrow> u8) \<Rightarrow> ('c, 'a) fs_scheme \<Rightarrow> ((nat \<times> nat) option \<times> ('c, 'a) fs_scheme) option" where
  "dirlookup M dp name s =
     (if d_type (itable s dp) \<noteq> T_DIR then None else dirlookup_loop M dp name (dir_offsets dp s) s)"

primrec free_slot :: "'c mmc_ops \<Rightarrow> nat \<Rightarrow> nat list \<Rightarrow> nat \<Rightarrow> dirent \<Rightarrow> ('c, 'a) fs_scheme \<Rightarrow> (nat \<times> dirent \<times> ('c, 'a) fs_scheme) option" where
  "free_slot M dp [] end de s = Some (end, de, s)"
| "free_slot M dp (off # offs) end _ s = do {
     (de, s) \<leftarrow> read_dirent M dp off s;
     if de_inum de = 0 then Some (off, de, s) else free_slot M dp offs end de s
   }"

definition dirlink :: "'c mmc_ops \<Rightarrow> nat \<Rightarrow> (nat \<Rightarrow> u8) \<Rightarrow> u32 \<Rightarrow> u16 \<Rightarrow> ('c, 'a) fs_scheme \<Rightarrow> (int \<times> ('c, 'a) fs_scheme) option" where
  "dirlink M dp name inum type s = do {
     (r, s) \<leftarrow> dirlookup M dp name s;
     case r of
       Some (i, _) \<Rightarrow> do { s \<leftarrow> iput M i s; Some (-1, s) }
     | None \<Rightarrow> do {
         (off, de, s) \<leftarrow> free_slot M dp (dir_offsets dp s) (sizeof_dirent * length (dir_offsets dp s))
            \<lparr>de_inum = 0, de_type = 0, de_name = (\<lambda>_. 0)\<rparr> s;
         let de = \<lparr>de_inum = inum, de_type = type, de_name = strncpy (beside (de_name de) name) 0 DIRSIZ (int DIRSIZ)\<rparr>;
         (n, s) \<leftarrow> writei M dp (\<lambda>k. Some (dirent_bytes de ! k)) (of_nat off) (of_nat sizeof_dirent) s;
         Some (if n \<noteq> int sizeof_dirent then -1 else 0, s)
       }
   }"

section \<open>Paths\<close>

definition SLASH :: u8 where "SLASH = 47"

text \<open>A path is the list of its bytes up to the NUL.\<close>

definition skipelem :: "u8 list \<Rightarrow> (nat \<Rightarrow> u8) \<Rightarrow> (u8 list \<times> (nat \<Rightarrow> u8)) option" where
  "skipelem path name =
     (let path = dropWhile (\<lambda>c. c = SLASH) path
      in if path = [] then None
         else let e = takeWhile (\<lambda>c. c \<noteq> SLASH) path;
                  path = dropWhile (\<lambda>c. c \<noteq> SLASH) path;
                  name = (if length e \<ge> DIRSIZ then (\<lambda>k. if k < DIRSIZ then e ! k else name k)
                          else (\<lambda>k. if k < length e then e ! k else if k = length e then 0 else name k))
              in Some (dropWhile (\<lambda>c. c = SLASH) path, name))"

lemma skipelem_shorter: "skipelem path name = Some (path', name') \<Longrightarrow> length path' < length path"
proof -
  assume a: "skipelem path name = Some (path', name')"
  define q where "q = dropWhile (\<lambda>c. c = SLASH) path"
  have q: "q \<noteq> []" "path' = dropWhile (\<lambda>c. c = SLASH) (dropWhile (\<lambda>c. c \<noteq> SLASH) q)"
    using a by (auto simp: skipelem_def Let_def q_def split: if_splits)
  have "hd q \<noteq> SLASH" using q(1) hd_dropWhile [of "\<lambda>c. c = SLASH" path] by (simp add: q_def)
  then have "length (dropWhile (\<lambda>c. c \<noteq> SLASH) q) < length q" using q(1) by (cases q) (auto simp: length_dropWhile_le less_Suc_eq_le)
  moreover have "length q \<le> length path" by (simp add: q_def length_dropWhile_le)
  ultimately show ?thesis unfolding q(2) using length_dropWhile_le [of "\<lambda>c. c = SLASH" "dropWhile (\<lambda>c. c \<noteq> SLASH) q"] by linarith
qed

text \<open>The loop of \<^verbatim>\<open>namex\<close>; the result is the inode, if any, with the name buffer.\<close>

function namex_loop :: "'c mmc_ops \<Rightarrow> bool \<Rightarrow> u8 list \<Rightarrow> (nat \<Rightarrow> u8) \<Rightarrow> nat \<Rightarrow> ('c, 'a) fs_scheme \<Rightarrow>
    (nat option \<times> (nat \<Rightarrow> u8) \<times> ('c, 'a) fs_scheme) option" where
  "namex_loop M parent path name ip s =
     (case skipelem path name of
        None \<Rightarrow> if parent then do { s \<leftarrow> iput M ip s; Some (None, name, s) } else Some (Some ip, name, s)
      | Some (path', name') \<Rightarrow> do {
          s \<leftarrow> ilock M ip s;
          if d_type (itable s ip) \<noteq> T_DIR then do { s \<leftarrow> iunlockput M ip s; Some (None, name', s) }
          else if parent \<and> path' = [] then do { s \<leftarrow> iunlock ip s; Some (Some ip, name', s) }
          else do {
            (r, s) \<leftarrow> dirlookup M ip name' s;
            case r of
              None \<Rightarrow> do { s \<leftarrow> iunlockput M ip s; Some (None, name', s) }
            | Some (next, _) \<Rightarrow> do { s \<leftarrow> iunlockput M ip s; namex_loop M parent path' name' next s }
          }
        })"
  by pat_completeness auto
termination
  by (relation "measure (\<lambda>(M, parent, path, name, ip, s). length path)") (auto dest: skipelem_shorter)

declare namex_loop.simps [simp del]

definition AT_FDCWD :: int where "AT_FDCWD = -100"

definition namex :: "'c mmc_ops \<Rightarrow> u8 list \<Rightarrow> bool \<Rightarrow> (nat \<Rightarrow> u8) \<Rightarrow> int \<Rightarrow> ('c, 'a) fs_scheme \<Rightarrow> (nat option \<times> (nat \<Rightarrow> u8) \<times> ('c, 'a) fs_scheme) option" where
  "namex M path parent name dirfd s = do {
     (ip, s) \<leftarrow> (if path \<noteq> [] \<and> hd path = SLASH then iget ROOTDEV ROOTINO s
                  else if dirfd = AT_FDCWD then idup (cwd s) s
                  else idup (ofile_ip s dirfd) s);
     namex_loop M parent path name ip s
   }"

definition namei :: "'c mmc_ops \<Rightarrow> u8 list \<Rightarrow> int \<Rightarrow> ('c, 'a) fs_scheme \<Rightarrow> (nat option \<times> ('c, 'a) fs_scheme) option" where
  "namei M path dirfd s = do {
     (r, _, s) \<leftarrow> namex M path False (\<lambda>_. 0) dirfd s;
     Some (r, s)
   }"

definition nameiparent :: "'c mmc_ops \<Rightarrow> u8 list \<Rightarrow> (nat \<Rightarrow> u8) \<Rightarrow> int \<Rightarrow> ('c, 'a) fs_scheme \<Rightarrow> (nat option \<times> (nat \<Rightarrow> u8) \<times> ('c, 'a) fs_scheme) option" where
  "nameiparent M path name dirfd s = namex M path True name dirfd s"

definition unlink :: "'c mmc_ops \<Rightarrow> nat \<Rightarrow> nat \<Rightarrow> ('c, 'a) fs_scheme \<Rightarrow> (int \<times> ('c, 'a) fs_scheme) option" where
  "unlink M dp off s = do {
     (n, s) \<leftarrow> writei M dp (\<lambda>_. Some 0) (of_nat off) (of_nat sizeof_dirent) s;
     Some (if n \<noteq> int sizeof_dirent then -1 else 0, s)
   }"

primrec direntlookup_loop :: "'c mmc_ops \<Rightarrow> nat \<Rightarrow> u32 \<Rightarrow> nat list \<Rightarrow> ('c, 'a) fs_scheme \<Rightarrow> ((dirent \<times> nat) option \<times> ('c, 'a) fs_scheme) option" where
  "direntlookup_loop M dp inum [] s = Some (None, s)"
| "direntlookup_loop M dp inum (off # offs) s = do {
     (de, s) \<leftarrow> read_dirent M dp off s;
     if de_inum de = inum then Some (Some (de, off), s) else direntlookup_loop M dp inum offs s
   }"

definition direntlookup :: "'c mmc_ops \<Rightarrow> nat \<Rightarrow> u32 \<Rightarrow> ('c, 'a) fs_scheme \<Rightarrow> ((dirent \<times> nat) option \<times> ('c, 'a) fs_scheme) option" where
  "direntlookup M dp inum s =
     (if d_type (itable s dp) \<noteq> T_DIR then None else direntlookup_loop M dp inum (dir_offsets dp s) s)"

end
