(* ===== verification/Fs_Block.thy ===== *)
theory Fs_Block
  imports Fs
begin

text \<open>
  What the file system relies on below: the blocks of the card as a function \<open>dsk G s\<close> from block
  numbers to bytes, and rules for \<^verbatim>\<open>bread\<close>, \<^verbatim>\<open>bwrite\<close> and \<^verbatim>\<open>brelse\<close> over it, with \<open>H\<close> the buffers the caller
  holds. On them, the correctness of the block allocator.
\<close>

unbundle bit_operations_syntax

section \<open>The card under the buffer cache\<close>

text \<open>A driver with the meaning of its card states, and the partition of the file system.\<close>

record 'c disk =
  dk_mmc :: "'c mmc_ops"
  dk_sector :: "'c \<Rightarrow> nat \<Rightarrow> nat \<Rightarrow> u8"
  dk_dev :: u32
  dk_nblk :: nat
  dk_secs :: nat

definition dsk :: "'c disk \<Rightarrow> ('c, 'a) bio_scheme \<Rightarrow> nat \<Rightarrow> nat \<Rightarrow> u8" where
  "dsk G s j = (\<lambda>k. if k < BSIZE then on_disk (dk_sector G) (dk_dev G) s j k else 0)"

text \<open>\<open>H b = Some j\<close>: the caller holds buffer \<open>b\<close> with block \<open>j\<close> in it.\<close>

definition bio_at :: "'c disk \<Rightarrow> (nat \<rightharpoonup> nat) \<Rightarrow> ('c, 'a) bio_scheme \<Rightarrow> bool" where
  "bio_at G H s \<longleftrightarrow> mmc_ok (dk_mmc G) (dk_sector G) (dk_secs G) \<and>
     bio_inv (dk_sector G) (dk_dev G) (dk_nblk G) (dk_secs G) s \<and> bio_unlocked s \<and> used s = {..<NBUF} \<and> busy s = dom H \<and>
     (\<forall>b j. H b = Some j \<longrightarrow> j < dk_nblk G \<and> caches_blk (dk_dev G) s b j \<and> bit (b_flags (bufs s b)) (Suc 0))"

text \<open>What buffer operations leave alone, and the bytes of the held buffers other than \<open>b\<close>.\<close>

definition bio_frame :: "nat set \<Rightarrow> ('c, 'a) bio_scheme \<Rightarrow> ('c, 'a) bio_scheme \<Rightarrow> bool" where
  "bio_frame B s s' \<longleftrightarrow> bio_rest s s' \<and> (\<forall>x \<in> B. buf_bytes s' x = buf_bytes s x)"

lemma bio_rest_fs:
  assumes "bio_rest s s'"
  shows "sb s' = sb s" "itable s' = itable s" "now s' = now s" "cur_pid s' = cur_pid s" "fsuid s' = fsuid s" "fsgid s' = fsgid s"
    "cap_effective s' = cap_effective s" "cwd s' = cwd s" "ofile_ip s' = ofile_ip s" "fs.more s' = fs.more s" "held s' = held s"
  using assms by (cases s, cases s', simp add: bio_rest_def)+

lemma bio_rest_trans: "bio_rest s t \<Longrightarrow> bio_rest t u \<Longrightarrow> bio_rest s u"
  by (simp add: bio_rest_def)

lemma bio_rest_refl [simp]: "bio_rest s s"
  by (simp add: bio_rest_def)

lemma bio_unlocked_rest: "bio_rest s s' \<Longrightarrow> bio_unlocked s' = bio_unlocked s"
  by (simp add: bio_rest_def bio_unlocked_def)

lemma used_ge: "bio_kept B s s' \<Longrightarrow> used s = {..<NBUF} \<Longrightarrow> used s' = {..<NBUF}"
  by (auto simp: bio_kept_def used_def)

lemma bio_at_step:
  assumes at: "bio_at G H s" and inv: "bio_inv (dk_sector G) (dk_dev G) (dk_nblk G) (dk_secs G) s'" and k: "bio_kept B s s'"
    and bu: "busy s' = dom H'"
    and H': "\<And>b j. H' b = Some j \<Longrightarrow> b \<in> B \<and> H b = Some j \<or>
      j < dk_nblk G \<and> caches_blk (dk_dev G) s' b j \<and> bit (b_flags (bufs s' b)) (Suc 0)"
  shows "bio_at G H' s'"
  unfolding bio_at_def
proof (intro conjI)
  have r: "bio_rest s s'" "\<And>x. x \<in> B \<Longrightarrow> bufs s' x = bufs s x" "ptlba s' = ptlba s" using k by (auto simp: bio_kept_def bio_rest_def)
  show "bio_unlocked s'" using at bio_unlocked_rest [OF r(1)] by (simp add: bio_at_def)
  show "used s' = {..<NBUF}" using at used_ge [OF k] by (simp add: bio_at_def)
  show "\<forall>b j. H' b = Some j \<longrightarrow> j < dk_nblk G \<and> caches_blk (dk_dev G) s' b j \<and> bit (b_flags (bufs s' b)) (Suc 0)"
  proof (intro allI impI)
    fix b j assume "H' b = Some j"
    from H' [OF this] show "j < dk_nblk G \<and> caches_blk (dk_dev G) s' b j \<and> bit (b_flags (bufs s' b)) (Suc 0)"
    proof
      assume b: "b \<in> B \<and> H b = Some j"
      then have "j < dk_nblk G" "caches_blk (dk_dev G) s b j" "bit (b_flags (bufs s b)) (Suc 0)" using at by (auto simp: bio_at_def)
      then show ?thesis using r(2) [of b] r(3) b unfolding caches_blk_def by simp
    qed
  qed
qed (use at inv bu in \<open>simp_all add: bio_at_def\<close>)

lemma at_read:
  assumes at: "bio_at G H s" and j: "j < dk_nblk G" "j \<notin> ran H" and room: "Finite_Set.card (dom H) < NBUF"
  shows "\<exists>b s'. bread_now (dk_mmc G) (dk_dev G) (of_nat j) s = Some (b, s') \<and> b \<notin> dom H \<and> bio_at G (H(b \<mapsto> j)) s' \<and>
    dsk G s' = dsk G s \<and> (\<forall>k < BSIZE. buf_bytes s' b k = dsk G s j k) \<and> bio_frame (dom H) s s'"
proof -
  let ?S = "dk_sector G" and ?d = "dk_dev G" and ?n = "dk_nblk G" and ?c = "dk_secs G"
  have a: "mmc_ok (dk_mmc G) ?S ?c" "bio_inv ?S ?d ?n ?c s" "bio_unlocked s" "used s = {..<NBUF}" "busy s = dom H"
    "\<And>b j. H b = Some j \<Longrightarrow> j < ?n \<and> caches_blk ?d s b j \<and> bit (b_flags (bufs s b)) (Suc 0)"
    using at by (simp_all add: bio_at_def)
  have no: "\<not> caches_blk ?d s b j" if b: "b \<in> busy s" for b
  proof
    assume c: "caches_blk ?d s b j"
    obtain i where i: "H b = Some i" using b a(5) by auto
    have "j = i" using caches_blk_inj [OF bio_invD(1) [OF a(2)], of i j b] a(6) [OF i] j(1) c by simp
    then show False using i j(2) by (auto simp: ran_def)
  qed
  have rdy: "bio_ready s" using a room by (auto simp: bio_ready_def)
  obtain b s' where r: "bread (dk_mmc G) ?d (of_nat j) s = Some (Inl b, s')" "bread_post ?S ?d ?n ?c j b s s'"
    using bread_spec [OF a(1,2) rdy no j(1)] by blast
  have p: "b \<notin> dom H" "bio_inv ?S ?d ?n ?c s'" "busy s' = insert b (dom H)" "caches_blk ?d s' b j" "bio_kept (dom H) s s'"
    "bit (b_flags (bufs s' b)) (Suc 0)" "on_disk ?S ?d s' = on_disk ?S ?d s" "\<forall>k < BSIZE. buf_bytes s' b k = on_disk ?S ?d s j k"
    using r(2) a(5) by (auto simp: bread_post_def got_def)
  have "bio_at G (H(b \<mapsto> j)) s'"
    by (rule bio_at_step [OF at p(2,5)]) (use p j(1) in \<open>auto split: if_splits\<close>)
  moreover have "dsk G s' = dsk G s" "\<forall>k < BSIZE. buf_bytes s' b k = dsk G s j k" "bio_frame (dom H) s s'"
    using p by (simp_all add: dsk_def bio_frame_def bio_kept_def fun_eq_iff)
  ultimately show ?thesis using r(1) p(1) by (intro exI [of _ b] exI [of _ s']) (simp add: bread_now_def)
qed

lemma at_set:
  assumes at: "bio_at G H s" and b: "H b = Some j"
  shows "bio_at G H (set_bytes b f s)" "buf_bytes (set_bytes b f s) b = f" "dsk G (set_bytes b f s) = dsk G s"
    "bio_frame (dom H - {b}) s (set_bytes b f s)"
proof -
  let ?S = "dk_sector G" and ?d = "dk_dev G" and ?n = "dk_nblk G" and ?c = "dk_secs G" and ?t = "set_bytes b f s"
  have a: "mmc_ok (dk_mmc G) ?S ?c" "bio_inv ?S ?d ?n ?c s" "bio_unlocked s" "used s = {..<NBUF}" "busy s = dom H"
    "j < ?n" "caches_blk ?d s b j"
    using at b by (auto simp: bio_at_def)
  have u: "b \<in> used s" "b \<in> busy s" using busy_used [OF a(2)] a(5) b by auto
  have inv: "bio_inv ?S ?d ?n ?c ?t"
    by (rule bio_inv_same [OF a(2) u(1) a(7,6), of ?t "bufs s b"])
      (use bio_invD [OF a(2)] u buf_data_used [OF u(1)] in \<open>auto simp: set_bytes_def mem_rest_def on_disk_def busy_def buf_ok_def\<close>)
  have e: "bufs ?t = bufs s" "busy ?t = busy s" "used ?t = used s" "bio_rest s ?t" "ptlba ?t = ptlba s" "card ?t = card s"
    by (simp_all add: set_bytes_def busy_def used_def bio_rest_def)
  show "bio_at G H ?t"
    using at inv e bio_unlocked_rest [OF e(4)] by (auto simp: bio_at_def caches_blk_def)
  show "buf_bytes ?t b = f" by (simp add: set_bytes_def buf_bytes_def)
  show "dsk G ?t = dsk G s" using e by (simp add: dsk_def on_disk_def fun_eq_iff)
  show "bio_frame (dom H - {b}) s ?t"
    using busy_other_data [OF a(2) _ _ u(1)] a(5) e(4) by (auto simp: bio_frame_def buf_bytes_def set_bytes_def)
qed

definition cut :: "(nat \<Rightarrow> u8) \<Rightarrow> nat \<Rightarrow> u8" where
  "cut f = (\<lambda>k. if k < BSIZE then f k else 0)"

lemma at_write:
  assumes at: "bio_at G H s" and b: "H b = Some j"
  shows "\<exists>s'. bwrite_now (dk_mmc G) b s = Some s' \<and> bio_at G H s' \<and> dsk G s' = (dsk G s)(j := cut (buf_bytes s b)) \<and>
    bio_frame (dom H) s s'"
proof -
  let ?S = "dk_sector G" and ?d = "dk_dev G" and ?n = "dk_nblk G" and ?c = "dk_secs G"
  have a: "mmc_ok (dk_mmc G) ?S ?c" "bio_inv ?S ?d ?n ?c s" "bio_unlocked s" "used s = {..<NBUF}" "busy s = dom H"
    "b \<in> busy s" "caches_blk ?d s b j" "j < ?n"
    using at b by (auto simp: bio_at_def)
  obtain s' where r: "bwrite (dk_mmc G) b s = Some (Inl (), s')" "bwrite_post ?S ?d ?n ?c j b s s'"
    using bwrite_spec [OF a(1,2,6,7,8)] a(3) by (auto simp: bio_unlocked_def)
  have p: "bio_inv ?S ?d ?n ?c s'" "busy s' = dom H" "caches_blk ?d s' b j" "bio_kept (dom H - {b}) s s'" "buf_bytes s' b = buf_bytes s b"
    "bit (b_flags (bufs s' b)) (Suc 0)"
    "\<And>i k. k < BSIZE \<Longrightarrow> on_disk ?S ?d s' i k = (if i = j then buf_bytes s b k else on_disk ?S ?d s i k)"
    using r(2) a(5) by (auto simp: bwrite_post_def)
  have "dsk G s' = (dsk G s)(j := cut (buf_bytes s b))" by (auto simp: dsk_def cut_def fun_eq_iff p(7))
  moreover have "bio_frame (dom H) s s'" using p(4,5) by (auto simp: bio_frame_def bio_kept_def)
  moreover have "bio_at G H s'"
    by (rule bio_at_step [OF at p(1,4)]) (use p a(8) b in auto)
  ultimately show ?thesis using r(1) by (intro exI [of _ s']) (simp add: bwrite_now_def)
qed

lemma at_release:
  assumes at: "bio_at G H s" and b: "H b = Some j" and co: "\<And>k. k < BSIZE \<Longrightarrow> buf_bytes s b k = dsk G s j k"
  shows "\<exists>s'. brelse b s = Some s' \<and> bio_at G (H(b := None)) s' \<and> dsk G s' = dsk G s \<and> bio_frame (dom H - {b}) s s'"
proof -
  let ?S = "dk_sector G" and ?d = "dk_dev G" and ?n = "dk_nblk G" and ?c = "dk_secs G"
  have a: "mmc_ok (dk_mmc G) ?S ?c" "bio_inv ?S ?d ?n ?c s" "bio_unlocked s" "used s = {..<NBUF}" "busy s = dom H"
    "b \<in> busy s" "caches_blk ?d s b j" "j < ?n"
    using at b by (auto simp: bio_at_def)
  obtain s' where r: "brelse b s = Some s'" "brelse_post ?S ?d ?n ?c b s s'"
    using brelse_spec [OF a(2,6,7,8)] a(3) co by (auto simp: bio_unlocked_def dsk_def)
  have p: "bio_inv ?S ?d ?n ?c s'" "busy s' = dom H - {b}" "bio_kept (dom H - {b}) s s'" "card s' = card s"
    using r(2) a(5) by (auto simp: brelse_post_def)
  have "dsk G s' = dsk G s" using p(3,4) by (simp add: dsk_def on_disk_def fun_eq_iff bio_kept_def bio_rest_def)
  moreover have "bio_frame (dom H - {b}) s s'" using p(3) by (auto simp: bio_frame_def bio_kept_def)
  moreover have "bio_at G (H(b := None)) s'"
    by (rule bio_at_step [OF at p(1,3)]) (use p in \<open>auto split: if_splits\<close>)
  ultimately show ?thesis using r(1) by blast
qed

lemma bio_frame_trans: "bio_frame B s t \<Longrightarrow> bio_frame B t u \<Longrightarrow> bio_frame B s u"
  by (auto simp: bio_frame_def intro: bio_rest_trans)

lemma bio_frame_mono: "bio_frame A s t \<Longrightarrow> B \<subseteq> A \<Longrightarrow> bio_frame B s t"
  by (auto simp: bio_frame_def)

lemma bio_frameD: "bio_frame B s t \<Longrightarrow> bio_rest s t" "bio_frame B s t \<Longrightarrow> x \<in> B \<Longrightarrow> buf_bytes t x = buf_bytes s x"
  by (auto simp: bio_frame_def)

lemma bio_frame_refl [simp]: "bio_frame B s s"
  by (simp add: bio_frame_def)

lemma dsk_small: "cut (dsk G s j) = dsk G s j" "(\<And>k. k < BSIZE \<Longrightarrow> f k = g k) \<Longrightarrow> cut f = cut g"
  by (auto simp: cut_def dsk_def)

lemma ran_upd_None: "ran (H(b := None)) \<subseteq> ran H" "b \<notin> dom H \<Longrightarrow> H(b \<mapsto> j, b := None) = H"
  by (auto simp: ran_def dom_def)

text \<open>The fields of the file system above the buffer cache do not matter to it.\<close>

lemma bio_at_cong:
  assumes "held s' = held s" "pages s' = pages s" "free_lists s' = free_lists s" "slabs s' = slabs s" "caches s' = caches s" "bufs s' = bufs s"
    "clinks s' = clinks s" "dlinks s' = dlinks s" "BUFDATA s' = BUFDATA s" "blkmem s' = blkmem s" "card s' = card s" "ptlba s' = ptlba s"
    and at: "bio_at G H s"
  shows "bio_at G H s'"
proof -
  have mr: "mem_rest s s'" using assms by (simp add: mem_rest_def)
  have e: "used s' = used s" "busy s' = busy s" "bio_unlocked s' = bio_unlocked s" "caches_blk d s' b j = caches_blk d s b j"
    "buf_ok sec d n s' b = buf_ok sec d n s b" "disk_ok d n m s' = disk_ok d n m s" for sec d n m b j
    by (simp_all add: used_def busy_def bio_unlocked_def caches_blk_def buf_ok_def disk_ok_def buf_bytes_def on_disk_def assms(1-12))
  have "bio_inv (dk_sector G) (dk_dev G) (dk_nblk G) (dk_secs G) s'"
    using at pool_inv_rest [OF mr] unfolding bio_at_def bio_inv_def e assms(1-12) by blast
  then show ?thesis using at by (simp add: bio_at_def e assms(1-12))
qed

lemma bio_at_upd [simp]: "bio_at G H s \<Longrightarrow> bio_at G H (upd_inode i f s)" "bio_at G H s \<Longrightarrow> bio_at G H (s\<lparr>woken := w\<rparr>)"
    "bio_at G H s \<Longrightarrow> bio_at G H (s\<lparr>sb := x\<rparr>)"
  by (rule bio_at_cong [of _ s]; simp add: upd_inode_def)+

text \<open>Read a block, and let go of it unchanged.\<close>

lemma at_peek:
  assumes at: "bio_at G H s" and j: "j < dk_nblk G" "j \<notin> ran H" and room: "Finite_Set.card (dom H) < NBUF"
  shows "\<exists>b s1 s2. bread_now (dk_mmc G) (dk_dev G) (of_nat j) s = Some (b, s1) \<and> (\<forall>k < BSIZE. buf_bytes s1 b k = dsk G s j k) \<and> bio_rest s s1 \<and>
    brelse b s1 = Some s2 \<and> bio_at G H s2 \<and> dsk G s2 = dsk G s \<and> bio_frame (dom H) s s2"
proof -
  obtain b s1 where r: "bread_now (dk_mmc G) (dk_dev G) (of_nat j) s = Some (b, s1)" "b \<notin> dom H" "bio_at G (H(b \<mapsto> j)) s1"
    "dsk G s1 = dsk G s" "\<forall>k < BSIZE. buf_bytes s1 b k = dsk G s j k" "bio_frame (dom H) s s1"
    using at_read [OF at j room] by blast
  obtain s2 where q: "brelse b s1 = Some s2" "bio_at G ((H(b \<mapsto> j))(b := None)) s2" "dsk G s2 = dsk G s1" "bio_frame (dom (H(b \<mapsto> j)) - {b}) s1 s2"
    using at_release [OF r(3), of b j] r(4,5) by auto
  have "bio_frame (dom H) s1 s2" using q(4) r(2) by (auto elim: bio_frame_mono)
  then show ?thesis using r q ran_upd_None(2) [OF r(2)] bio_frame_trans bio_frameD(1) by (metis (no_types, lifting))
qed

text \<open>Read a block, change its bytes by \<open>g\<close>, write it and let go of it.\<close>

lemma at_modify:
  assumes at: "bio_at G H s" and j: "j < dk_nblk G" "j \<notin> ran H" and room: "Finite_Set.card (dom H) < NBUF"
  shows "\<exists>b s1. bread_now (dk_mmc G) (dk_dev G) (of_nat j) s = Some (b, s1) \<and> (\<forall>k < BSIZE. buf_bytes s1 b k = dsk G s j k) \<and> bio_rest s s1 \<and>
    (\<forall>f. \<exists>s2 s3. bwrite_now (dk_mmc G) b (set_bytes b f s1) = Some s2 \<and> bio_rest s s2 \<and> brelse b s2 = Some s3 \<and> bio_at G H s3 \<and>
      dsk G s3 = (dsk G s)(j := cut f) \<and> bio_frame (dom H) s s3)"
proof -
  obtain b s1 where r: "bread_now (dk_mmc G) (dk_dev G) (of_nat j) s = Some (b, s1)" "b \<notin> dom H" "bio_at G (H(b \<mapsto> j)) s1"
    "dsk G s1 = dsk G s" "\<forall>k < BSIZE. buf_bytes s1 b k = dsk G s j k" "bio_frame (dom H) s s1"
    using at_read [OF at j room] by blast
  have "\<exists>s2 s3. bwrite_now (dk_mmc G) b (set_bytes b f s1) = Some s2 \<and> bio_rest s s2 \<and> brelse b s2 = Some s3 \<and> bio_at G H s3 \<and>
      dsk G s3 = (dsk G s)(j := cut f) \<and> bio_frame (dom H) s s3" for f
  proof -
    note t = at_set [OF r(3), of b j f]
    have d: "dom (H(b \<mapsto> j)) - {b} = dom H" using r(2) by auto
    obtain s2 where w: "bwrite_now (dk_mmc G) b (set_bytes b f s1) = Some s2" "bio_at G (H(b \<mapsto> j)) s2"
      "dsk G s2 = (dsk G s)(j := cut f)" "bio_frame (dom (H(b \<mapsto> j))) (set_bytes b f s1) s2"
      using at_write [OF t(1), of b j] t(2,3) r(4) by auto
    have by2: "buf_bytes s2 b k = dsk G s2 j k" if "k < BSIZE" for k
      using w(3) bio_frameD(2) [OF w(4), of b] t(2) that by (simp add: cut_def)
    obtain s3 where q: "brelse b s2 = Some s3" "bio_at G ((H(b \<mapsto> j))(b := None)) s3" "dsk G s3 = dsk G s2" "bio_frame (dom H) s2 s3"
      using at_release [OF w(2), of b j] by2 d by auto
    have f1: "bio_frame (dom H) s1 (set_bytes b f s1)" using t(4) d by simp
    have f2: "bio_frame (dom H) (set_bytes b f s1) s2" by (rule bio_frame_mono [OF w(4)]) auto
    have f02: "bio_frame (dom H) s s2" using r(6) f1 f2 bio_frame_trans by blast
    then have "bio_frame (dom H) s s3" using q(4) bio_frame_trans by blast
    then show ?thesis using w(1,3) q(1,2,3) ran_upd_None(2) [OF r(2)] bio_frameD(1) [OF f02] by metis
  qed
  then show ?thesis using r(1,5) bio_frameD(1) [OF r(6)] by blast
qed

section \<open>The block allocator\<close>

definition blk_used :: "'c disk \<Rightarrow> ('c, 'a) fs_scheme \<Rightarrow> nat \<Rightarrow> bool" where
  "blk_used G s b \<longleftrightarrow> bit (dsk G s (unat (sb_bmapstart (sb s)) + b div BPB) (b mod BPB div 8)) (b mod 8)"

definition data_start :: "('c, 'a) fs_scheme \<Rightarrow> nat" where
  "data_start s = unat (sb_bmapstart (sb s)) + unat (sb_size (sb s)) div BPB + 1"

text \<open>The layout of \<^verbatim>\<open>mkfs\<close>: inode blocks, bitmap, data; what is before the data is marked in use.\<close>

definition fs_layout :: "'c disk \<Rightarrow> ('c, 'a) fs_scheme \<Rightarrow> bool" where
  "fs_layout G s \<longleftrightarrow> unat (sb_size (sb s)) = dk_nblk G \<and> 0 < sb_inodestart (sb s) \<and>
     unat (sb_inodestart (sb s)) + unat (sb_ninodes (sb s)) div IPB + 1 \<le> unat (sb_bmapstart (sb s)) \<and> data_start s \<le> dk_nblk G"

definition meta_used :: "'c disk \<Rightarrow> ('c, 'a) fs_scheme \<Rightarrow> bool" where
  "meta_used G s \<longleftrightarrow> (\<forall>b < data_start s. blk_used G s b)"

lemma dsk_upd [simp]: "dsk G (upd_inode i f s) = dsk G s" "dsk G (s\<lparr>woken := w\<rparr>) = dsk G s" "dsk G (s\<lparr>sb := x\<rparr>) = dsk G s"
    "dsk G (s\<lparr>held := y\<rparr>) = dsk G s"
  by (simp_all add: dsk_def on_disk_def upd_inode_def fun_eq_iff)

lemma upd_inode_fields [simp]: "sb (upd_inode i f s) = sb s" "itable (upd_inode i f s) = (itable s)(i := f (itable s i))" "held (upd_inode i f s) = held s"
    "now (upd_inode i f s) = now s" "cur_pid (upd_inode i f s) = cur_pid s" "data_start (upd_inode i f s) = data_start s"
    "blk_used G (upd_inode i f s) = blk_used G s" "fs_layout G (upd_inode i f s) = fs_layout G s" "meta_used G (upd_inode i f s) = meta_used G s"
    "buf_bytes (upd_inode i f s) = buf_bytes s"
  by (simp_all add: upd_inode_def data_start_def blk_used_def fs_layout_def meta_used_def fun_eq_iff buf_bytes_def dsk_def on_disk_def)

lemma nblk_small: "bio_at G H s \<Longrightarrow> dk_nblk G < 2 ^ 29"
  by (auto simp: bio_at_def bio_inv_def disk_ok_def BLKSECT_def BSIZE_def SECTOR_SIZE_def)

lemma bmap_block:
  assumes at: "bio_at G H s" and lay: "fs_layout G s" and b: "b < dk_nblk G"
  shows "BBLOCK (of_nat b) s = of_nat (unat (sb_bmapstart (sb s)) + b div BPB)"
    "unat (sb_bmapstart (sb s)) + b div BPB < data_start s" "unat (sb_bmapstart (sb s)) + b div BPB < dk_nblk G"
proof -
  have u: "unat (of_nat b :: u32) = b" using nblk_small [OF at] b by (simp add: unat_of_nat take_bit_nat_eq_self)
  have "unat (of_nat b div of_nat BPB :: u32) = b div BPB"
    by (simp add: unat_div_distrib u BPB_def BSIZE_def)
  then have d: "of_nat b div of_nat BPB = (of_nat (b div BPB) :: u32)" by (metis of_nat_unat ucast_id)
  show "BBLOCK (of_nat b) s = of_nat (unat (sb_bmapstart (sb s)) + b div BPB)"
    by (simp add: BBLOCK_def d add.commute)
  have "b div BPB \<le> dk_nblk G div BPB" using b by (intro div_le_mono) simp
  then show "unat (sb_bmapstart (sb s)) + b div BPB < data_start s" using lay by (simp add: data_start_def fs_layout_def)
  then show "unat (sb_bmapstart (sb s)) + b div BPB < dk_nblk G" using lay by (simp add: fs_layout_def)
qed

lemma bit_test: "(x AND push_bit n 1 = 0) = (\<not> bit x n)" for x :: u8
  by (metis and_exp_eq_0_iff_not_bit push_bit_of_1)

lemma bzero_spec:
  assumes at: "bio_at G H s" and j: "j < dk_nblk G" "j \<notin> ran H" and room: "Finite_Set.card (dom H) < NBUF"
  shows "\<exists>s'. bzero (dk_mmc G) (dk_dev G) (of_nat j) s = Some s' \<and> bio_at G H s' \<and> dsk G s' = (dsk G s)(j := (\<lambda>_. 0)) \<and> bio_frame (dom H) s s'"
proof -
  obtain b s1 where r: "bread_now (dk_mmc G) (dk_dev G) (of_nat j) s = Some (b, s1)"
    "\<forall>f. \<exists>s2 s3. bwrite_now (dk_mmc G) b (set_bytes b f s1) = Some s2 \<and> bio_rest s s2 \<and> brelse b s2 = Some s3 \<and> bio_at G H s3 \<and>
      dsk G s3 = (dsk G s)(j := cut f) \<and> bio_frame (dom H) s s3"
    using at_modify [OF at j room] by blast
  have z: "cut (\<lambda>k. if k < BSIZE then 0 else buf_bytes s1 b k) = (\<lambda>_. 0)" by (auto simp: cut_def)
  obtain s2 s3 where "bwrite_now (dk_mmc G) b (set_bytes b (\<lambda>k. if k < BSIZE then 0 else buf_bytes s1 b k) s1) = Some s2" "brelse b s2 = Some s3"
    "bio_at G H s3" "dsk G s3 = (dsk G s)(j := (\<lambda>_. 0))" "bio_frame (dom H) s s3"
    using r(2) [THEN spec, of "\<lambda>k. if k < BSIZE then 0 else buf_bytes s1 b k"] unfolding z by blast
  then show ?thesis using r(1) by (simp add: bzero_def)
qed

definition mark :: "nat \<Rightarrow> (nat \<Rightarrow> u8) \<Rightarrow> nat \<Rightarrow> u8" where
  "mark b f = f(b mod BPB div 8 := f (b mod BPB div 8) OR push_bit (b mod 8) 1)"

definition unmark :: "nat \<Rightarrow> (nat \<Rightarrow> u8) \<Rightarrow> nat \<Rightarrow> u8" where
  "unmark b f = f(b mod BPB div 8 := f (b mod BPB div 8) AND NOT (push_bit (b mod 8) 1))"

lemma BPB_eq: "BPB = 32768" "b mod BPB mod 8 = b mod 8" "b mod BPB div 8 < BSIZE"
proof -
  show e: "BPB = 32768" by (simp add: BPB_def BSIZE_def)
  show "b mod BPB mod 8 = b mod 8" unfolding e by (simp add: mod_mod_cancel)
  have "b mod BPB < 8 * BSIZE" by (simp add: e BSIZE_def)
  then show "b mod BPB div 8 < BSIZE" by (simp add: less_mult_imp_div_less mult.commute)
qed

lemma free_bit_spec:
  assumes f: "\<And>k. k < BSIZE \<Longrightarrow> f k = dsk G s (unat (sb_bmapstart (sb s)) + k0) k"
  shows "case free_bit f (k0 * BPB) n of
      None \<Rightarrow> (\<forall>b. k0 * BPB \<le> b \<and> b < Suc k0 * BPB \<and> b < n \<longrightarrow> blk_used G s b)
    | Some bi \<Rightarrow> bi < BPB \<and> k0 * BPB + bi < n \<and> \<not> blk_used G s (k0 * BPB + bi) \<and>
        (\<forall>b. k0 * BPB \<le> b \<and> b < k0 * BPB + bi \<longrightarrow> blk_used G s b)"
proof -
  have P: "(f (bi div 8) AND push_bit (bi mod 8) 1 = 0) = (\<not> blk_used G s (k0 * BPB + bi))" if "bi < BPB" for bi
  proof -
    have "bi div 8 < BSIZE" using BPB_eq(3) [of bi] that by simp
    moreover have "(k0 * BPB + bi) div BPB = k0" "(k0 * BPB + bi) mod BPB = bi" "(k0 * BPB + bi) mod 8 = bi mod 8"
      using that by (simp_all add: BPB_eq(1) mod_mult_self2 mult.commute flip: mod_add_left_eq)
    ultimately show ?thesis unfolding bit_test blk_used_def using f by simp
  qed
  define L where "L = min BPB (n - k0 * BPB)"
  show ?thesis
  proof (cases "free_bit f (k0 * BPB) n")
    case None
    then have "\<forall>bi < L. blk_used G s (k0 * BPB + bi)"
      using P by (auto simp: free_bit_def L_def find_None_iff)
    then show ?thesis using None by (auto simp: L_def) (metis add_less_cancel_left le_Suc_ex less_diff_conv2 min_less_iff_conj add.commute less_diff_conv)
  next
    case (Some bi)
    then obtain i where i: "i < L" "bi = i" "\<not> blk_used G s (k0 * BPB + i)" "\<forall>j < i. blk_used G s (k0 * BPB + j)"
      using P by (auto simp: free_bit_def L_def find_Some_iff)
    moreover have "blk_used G s b" if "k0 * BPB \<le> b" "b < k0 * BPB + bi" for b
      using i(2,4) that by (metis add_less_cancel_left le_Suc_ex)
    ultimately show ?thesis using Some by (auto simp: L_def)
  qed
qed

definition balloc_post :: "'c disk \<Rightarrow> (nat \<rightharpoonup> nat) \<Rightarrow> ('c, 'a) fs_scheme \<Rightarrow> u32 \<Rightarrow> ('c, 'a) fs_scheme \<Rightarrow> bool" where
  "balloc_post G H s a s' \<longleftrightarrow> bio_at G H s' \<and> bio_frame (dom H) s s' \<and>
     (if \<forall>b < dk_nblk G. blk_used G s b then a = 0 \<and> dsk G s' = dsk G s
      else unat a < dk_nblk G \<and> \<not> blk_used G s (unat a) \<and> (\<forall>b < unat a. blk_used G s b) \<and>
        (let bb = unat (sb_bmapstart (sb s)) + unat a div BPB
         in dsk G s' = (dsk G s)(bb := mark (unat a) (dsk G s bb), unat a := (\<lambda>_. 0))))"

lemma balloc_loop_spec:
  assumes "bio_at G H s" "fs_layout G s" "meta_used G s" "Finite_Set.card (dom H) < NBUF"
    and "\<And>j. j \<in> ran H \<Longrightarrow> blk_used G s j \<and> data_start s \<le> j"
    and "k0 + n = (dk_nblk G + BPB - 1) div BPB" "\<And>b. b < k0 * BPB \<Longrightarrow> b < dk_nblk G \<Longrightarrow> blk_used G s b"
  shows "\<exists>a s'. balloc_loop (dk_mmc G) (dk_dev G) (map (\<lambda>i. i * BPB) [k0..<k0 + n]) s = Some (a, s') \<and> balloc_post G H s a s'"
  using assms
proof (induction n arbitrary: k0 s)
  case 0
  have "dk_nblk G \<le> k0 * BPB" using 0(6) by (simp add: BPB_eq(1))
  then show ?case using 0 by (auto simp: balloc_post_def)
next
  case (Suc n)
  note at = Suc.prems(1) and lay = Suc.prems(2)
  have k0: "k0 * BPB < dk_nblk G" using Suc.prems(6) by (simp add: BPB_eq(1))
  let ?bb = "unat (sb_bmapstart (sb s)) + k0"
  have kd: "k0 * BPB div BPB = k0" by (simp add: BPB_eq(1))
  note bb = bmap_block [OF at lay k0, unfolded kd]
  have nr: "?bb \<notin> ran H" using Suc.prems(5) bb(2) by fastforce
  have sz: "unat (sb_size (sb s)) = dk_nblk G" using lay by (simp add: fs_layout_def)
  obtain bp s1 where r: "bread_now (dk_mmc G) (dk_dev G) (of_nat ?bb) s = Some (bp, s1)" "\<forall>k < BSIZE. buf_bytes s1 bp k = dsk G s ?bb k" "bio_rest s s1"
    "\<forall>f. \<exists>s2 s3. bwrite_now (dk_mmc G) bp (set_bytes bp f s1) = Some s2 \<and> bio_rest s s2 \<and> brelse bp s2 = Some s3 \<and> bio_at G H s3 \<and>
      dsk G s3 = (dsk G s)(?bb := cut f) \<and> bio_frame (dom H) s s3"
    using at_modify [OF at bb(3) nr Suc.prems(4)] by blast
  have s1: "sb s1 = sb s" using bio_rest_fs [OF r(3)] by simp
  note fb = free_bit_spec [of "buf_bytes s1 bp" G s k0 "dk_nblk G"]
  show ?case
  proof (cases "free_bit (buf_bytes s1 bp) (k0 * BPB) (dk_nblk G)")
    case (Some bi)
    define b where "b = k0 * BPB + bi"
    have b: "bi < BPB" "b < dk_nblk G" "\<not> blk_used G s b" "\<And>b'. k0 * BPB \<le> b' \<Longrightarrow> b' < b \<Longrightarrow> blk_used G s b'"
      using fb r(2) Some by (auto simp: b_def)
    have low: "blk_used G s b'" if "b' < b" for b'
      using b(4) [of b'] Suc.prems(7) [of b'] that b(2) by (cases "k0 * BPB \<le> b'") auto
    have bd: "b div BPB = k0" "b mod BPB = bi" "b mod 8 = bi mod 8"
      using b(1) BPB_eq(2) [of b] by (simp_all add: b_def BPB_eq(1))
    have ds: "data_start s \<le> b" using Suc.prems(3) b(3) by (meson meta_used_def not_le)
    have nb: "b \<notin> ran H" using Suc.prems(5) b(3) by blast
    define f where "f = (buf_bytes s1 bp)(bi div 8 := buf_bytes s1 bp (bi div 8) OR push_bit (bi mod 8) 1)"
    have cf: "cut f = mark b (dsk G s ?bb)"
      using r(2) BPB_eq(3) [of b] by (auto simp: f_def cut_def mark_def bd dsk_def fun_eq_iff)
    obtain s2 s3 where w: "bwrite_now (dk_mmc G) bp (set_bytes bp f s1) = Some s2" "brelse bp s2 = Some s3" "bio_at G H s3"
      "dsk G s3 = (dsk G s)(?bb := cut f)" "bio_frame (dom H) s s3"
      using r(4) [THEN spec, of f] by blast
    obtain s4 where z: "bzero (dk_mmc G) (dk_dev G) (of_nat b) s3 = Some s4" "bio_at G H s4" "dsk G s4 = (dsk G s3)(b := (\<lambda>_. 0))" "bio_frame (dom H) s3 s4"
      using bzero_spec [OF w(3) b(2) nb Suc.prems(4)] by blast
    have ub: "unat (of_nat b :: u32) = b" using nblk_small [OF at] b(2) by (simp add: unat_of_nat take_bit_nat_eq_self)
    have "balloc_loop (dk_mmc G) (dk_dev G) (map (\<lambda>i. i * BPB) [k0..<k0 + Suc n]) s = Some (of_nat b, s4)"
      using r(1) w(1,2) z(1) Some
      by (simp add: upt_conv_Cons bb(1) s1 sz Let_def f_def b_def del: upt_Suc bind_Some_iff of_nat_mult of_nat_add)
    moreover have "balloc_post G H s (of_nat b) s4"
      using z b low w(4) cf bio_frame_trans [OF w(5) z(4)] ub bd(1) by (auto simp: balloc_post_def Let_def)
    ultimately show ?thesis by blast
  next
    case None
    have us: "\<And>b. k0 * BPB \<le> b \<Longrightarrow> b < Suc k0 * BPB \<Longrightarrow> b < dk_nblk G \<Longrightarrow> blk_used G s b"
      using fb r(2) None by auto
    obtain bp' t1 s2 where p: "bread_now (dk_mmc G) (dk_dev G) (of_nat ?bb) s = Some (bp', t1)" "brelse bp' t1 = Some s2" "bio_at G H s2"
      "dsk G s2 = dsk G s" "bio_frame (dom H) s s2"
      using at_peek [OF at bb(3) nr Suc.prems(4)] by blast
    then have p: "brelse bp s1 = Some s2" "bio_at G H s2" "dsk G s2 = dsk G s" "bio_frame (dom H) s s2" using r(1) by auto
    have s2: "sb s2 = sb s" using bio_rest_fs [OF bio_frameD(1) [OF p(4)]] by simp
    have same: "blk_used G s2 = blk_used G s" "data_start s2 = data_start s" by (simp_all add: blk_used_def fun_eq_iff p(3) s2 data_start_def)
    have lay2: "fs_layout G s2" "meta_used G s2" using lay Suc.prems(3) by (simp_all add: fs_layout_def meta_used_def s2 same)
    have K: "Suc k0 + n = (dk_nblk G + BPB - 1) div BPB" using Suc.prems(6) by simp
    have H2: "blk_used G s2 j \<and> data_start s2 \<le> j" if "j \<in> ran H" for j using Suc.prems(5) [OF that] by (simp add: same)
    have u2: "blk_used G s2 b" if "b < Suc k0 * BPB" "b < dk_nblk G" for b
      using us [of b] Suc.prems(7) [of b] that by (cases "k0 * BPB \<le> b") (simp_all add: same)
    obtain a s' where IH: "balloc_loop (dk_mmc G) (dk_dev G) (map (\<lambda>i. i * BPB) [Suc k0..<Suc k0 + n]) s2 = Some (a, s')" "balloc_post G H s2 a s'"
      using Suc.IH [OF p(2) lay2 Suc.prems(4) H2 K u2] by blast
    have "balloc_loop (dk_mmc G) (dk_dev G) (map (\<lambda>i. i * BPB) [k0..<k0 + Suc n]) s = Some (a, s')"
      using r(1) p(1) None IH(1)
      by (simp add: upt_conv_Cons bb(1) s1 sz del: upt_Suc bind_Some_iff of_nat_mult of_nat_add)
    moreover have "balloc_post G H s a s'"
      using IH(2) bio_frame_trans [OF p(4)] by (auto simp: balloc_post_def same p(3) s2 Let_def split: if_splits)
    ultimately show ?thesis by blast
  qed
qed

lemma balloc_spec:
  assumes "bio_at G H s" "fs_layout G s" "meta_used G s" "Finite_Set.card (dom H) < NBUF"
    and "\<And>j. j \<in> ran H \<Longrightarrow> blk_used G s j \<and> data_start s \<le> j"
  shows "\<exists>a s'. balloc (dk_mmc G) (dk_dev G) s = Some (a, s') \<and> balloc_post G H s a s'"
proof -
  have "unat (sb_size (sb s)) = dk_nblk G" using assms(2) by (simp add: fs_layout_def)
  then show ?thesis using balloc_loop_spec [OF assms, of 0 "(dk_nblk G + BPB - 1) div BPB"] by (simp add: balloc_def)
qed

text \<open>The bitmap after one bit of it has changed.\<close>

lemma blk_used_upd:
  assumes lay: "fs_layout G s" and b: "b < dk_nblk G" and x: "x < dk_nblk G"
    and D: "dsk G s' (unat (sb_bmapstart (sb s)) + x div BPB) =
      (if x div BPB = b div BPB then g b (dsk G s (unat (sb_bmapstart (sb s)) + b div BPB)) else dsk G s (unat (sb_bmapstart (sb s)) + x div BPB))"
    and sb: "sb s' = sb s"
  shows "g = mark \<Longrightarrow> blk_used G s' x = (x = b \<or> blk_used G s x)" "g = unmark \<Longrightarrow> blk_used G s' x = (x \<noteq> b \<and> blk_used G s x)"
proof -
  have eq: "x = b" if "x div BPB = b div BPB" "x mod BPB div 8 = b mod BPB div 8" "x mod 8 = b mod 8"
  proof -
    have "x mod BPB = b mod BPB" using that(2,3) BPB_eq(2) [of x] BPB_eq(2) [of b] by (metis div_mult_mod_eq)
    then show ?thesis using that(1) by (metis div_mult_mod_eq)
  qed
  have m8: "bit (push_bit (b mod 8) 1 :: u8) n = (n = b mod 8)" for n
    unfolding bit_push_bit_iff bit_1_iff by (auto simp: possible_bit_word)
  have m8': "bit (2 ^ (b mod 8) :: u8) n = (n = b mod 8)" for n using m8 [of n] by simp
  show "g = mark \<Longrightarrow> blk_used G s' x = (x = b \<or> blk_used G s x)"
    unfolding blk_used_def sb D using eq by (auto simp: mark_def bit_or_iff m8')
  show "g = unmark \<Longrightarrow> blk_used G s' x = (x \<noteq> b \<and> blk_used G s x)"
    unfolding blk_used_def sb D using eq by (auto simp: unmark_def bit_and_iff bit_not_iff m8' possible_bit_word)
qed

definition balloc_done :: "'c disk \<Rightarrow> (nat \<rightharpoonup> nat) \<Rightarrow> ('c, 'a) fs_scheme \<Rightarrow> nat \<Rightarrow> ('c, 'a) fs_scheme \<Rightarrow> bool" where
  "balloc_done G H s a s' \<longleftrightarrow> bio_at G H s' \<and> bio_frame (dom H) s s' \<and> fs_layout G s' \<and> meta_used G s' \<and>
     data_start s \<le> a \<and> a < dk_nblk G \<and> \<not> blk_used G s a \<and> (\<forall>x < dk_nblk G. blk_used G s' x = (x = a \<or> blk_used G s x)) \<and>
     dsk G s' a = (\<lambda>_. 0) \<and> (\<forall>j. j \<noteq> a \<and> (j < unat (sb_bmapstart (sb s)) \<or> data_start s \<le> j) \<longrightarrow> dsk G s' j = dsk G s j)"

text \<open>The two outcomes of \<^verbatim>\<open>balloc\<close>, over the bitmap and the blocks.\<close>

lemma balloc_cases:
  assumes at: "bio_at G H s" and lay: "fs_layout G s" and meta: "meta_used G s" and room: "Finite_Set.card (dom H) < NBUF"
    and H: "\<And>j. j \<in> ran H \<Longrightarrow> blk_used G s j \<and> data_start s \<le> j"
  shows "if \<forall>b < dk_nblk G. blk_used G s b
    then \<exists>s'. balloc (dk_mmc G) (dk_dev G) s = Some (0, s') \<and> bio_at G H s' \<and> bio_frame (dom H) s s' \<and> dsk G s' = dsk G s
    else \<exists>a s'. balloc (dk_mmc G) (dk_dev G) s = Some (of_nat a, s') \<and> balloc_done G H s a s' \<and> (\<forall>b < a. blk_used G s b)"
proof -
  obtain a s' where r: "balloc (dk_mmc G) (dk_dev G) s = Some (a, s')" "balloc_post G H s a s'"
    using balloc_spec [OF assms] by blast
  show ?thesis
  proof (cases "\<forall>b < dk_nblk G. blk_used G s b")
    case True
    then show ?thesis using r by (auto simp: balloc_post_def)
  next
    case False
    let ?a = "unat a" and ?st = "unat (sb_bmapstart (sb s))"
    have p: "bio_at G H s'" "bio_frame (dom H) s s'" "?a < dk_nblk G" "\<not> blk_used G s ?a" "\<forall>b < ?a. blk_used G s b"
      "dsk G s' = (dsk G s)(?st + ?a div BPB := mark ?a (dsk G s (?st + ?a div BPB)), ?a := (\<lambda>_. 0))"
      using r(2) unfolding balloc_post_def if_not_P [OF False] Let_def by blast+
    have sb: "sb s' = sb s" using bio_rest_fs [OF bio_frameD(1) [OF p(2)]] by simp
    have ds: "data_start s \<le> ?a" using meta p(4) by (meson meta_used_def not_le)
    have bl: "?st + x div BPB < data_start s" if "x < dk_nblk G" for x using bmap_block(2) [OF at lay that] .
    have us: "blk_used G s' x = (x = ?a \<or> blk_used G s x)" if x: "x < dk_nblk G" for x
      by (rule blk_used_upd(1) [OF lay p(3) x _ sb refl]) (use bl [OF x] ds in \<open>auto simp: p(6)\<close>)
    have dse: "data_start s' = data_start s" by (simp add: data_start_def sb)
    have "fs_layout G s'" using lay by (simp add: fs_layout_def sb dse)
    moreover have "meta_used G s'" using meta us lay by (auto simp: meta_used_def dse fs_layout_def)
    moreover have "dsk G s' j = dsk G s j" if "j \<noteq> ?a" "j < ?st \<or> data_start s \<le> j" for j
      using that bl [OF p(3)] by (auto simp: p(6))
    ultimately have "balloc_done G H s ?a s'" using p ds us by (simp add: balloc_done_def)
    moreover have "of_nat ?a = a" by simp
    ultimately show ?thesis using False r(1) p(5) by (metis (no_types, lifting))
  qed
qed

lemma bfree_cases:
  assumes at: "bio_at G H s" and lay: "fs_layout G s" and room: "Finite_Set.card (dom H) < NBUF"
    and H: "\<And>j. j \<in> ran H \<Longrightarrow> data_start s \<le> j" and b: "b < dk_nblk G"
  shows "if blk_used G s b
    then \<exists>s'. bfree (dk_mmc G) (dk_dev G) (of_nat b) s = Some s' \<and> bio_at G H s' \<and> bio_frame (dom H) s s' \<and>
      (\<forall>x < dk_nblk G. blk_used G s' x = (x \<noteq> b \<and> blk_used G s x)) \<and>
      (\<forall>j. j < unat (sb_bmapstart (sb s)) \<or> data_start s \<le> j \<longrightarrow> dsk G s' j = dsk G s j)
    else bfree (dk_mmc G) (dk_dev G) (of_nat b) s = None"
proof -
  let ?st = "unat (sb_bmapstart (sb s))"
  let ?bb = "?st + b div BPB"
  note bb = bmap_block [OF at lay b]
  have nr: "?bb \<notin> ran H" using H bb(2) by fastforce
  obtain bp s1 where r: "bread_now (dk_mmc G) (dk_dev G) (of_nat ?bb) s = Some (bp, s1)" "\<forall>k < BSIZE. buf_bytes s1 bp k = dsk G s ?bb k" "bio_rest s s1"
    "\<forall>f. \<exists>s2 s3. bwrite_now (dk_mmc G) bp (set_bytes bp f s1) = Some s2 \<and> bio_rest s s2 \<and> brelse bp s2 = Some s3 \<and> bio_at G H s3 \<and>
      dsk G s3 = (dsk G s)(?bb := cut f) \<and> bio_frame (dom H) s s3"
    using at_modify [OF at bb(3) nr room] by blast
  have ub: "unat (of_nat b :: u32) = b" using nblk_small [OF at] b by (simp add: unat_of_nat take_bit_nat_eq_self)
  have t: "(buf_bytes s1 bp (b mod BPB div 8) AND push_bit (b mod BPB mod 8) 1 = 0) = (\<not> blk_used G s b)"
    unfolding bit_test blk_used_def BPB_eq(2) using r(2) BPB_eq(3) by simp
  define f where "f = (buf_bytes s1 bp)(b mod BPB div 8 := buf_bytes s1 bp (b mod BPB div 8) AND NOT (push_bit (b mod BPB mod 8) 1))"
  have cf: "cut f = unmark b (dsk G s ?bb)"
    using r(2) BPB_eq(2,3) [of b] by (auto simp: f_def cut_def unmark_def dsk_def fun_eq_iff)
  obtain s2 s3 where w: "bwrite_now (dk_mmc G) bp (set_bytes bp f s1) = Some s2" "brelse bp s2 = Some s3" "bio_at G H s3"
    "dsk G s3 = (dsk G s)(?bb := unmark b (dsk G s ?bb))" "bio_frame (dom H) s s3"
    using r(4) [THEN spec, of f] unfolding cf by blast
  have e: "bfree (dk_mmc G) (dk_dev G) (of_nat b) s = (if blk_used G s b then Some s3 else None)"
    using r(1) t w(1,2) by (simp add: bfree_def bb(1) ub Let_def f_def del: bind_Some_iff of_nat_add)
  have sb: "sb s3 = sb s" using bio_rest_fs [OF bio_frameD(1) [OF w(5)]] by simp
  have "blk_used G s3 x = (x \<noteq> b \<and> blk_used G s x)" if x: "x < dk_nblk G" for x
    by (rule blk_used_upd(2) [OF lay b x _ sb refl]) (auto simp: w(4))
  moreover have "dsk G s3 j = dsk G s j" if "j < ?st \<or> data_start s \<le> j" for j using that bb(2) by (auto simp: w(4))
  ultimately show ?thesis using e w(3,5) by auto
qed

section \<open>A small file system\<close>

text \<open>A card with a partition of 200 blocks of which the first five are in use.\<close>

definition small_sb :: superblock where
  "small_sb = \<lparr>sb_magic = FSMAGIC, sb_size = 200, sb_nblocks = 195, sb_ninodes = 32, sb_nlog = 0, sb_logstart = 2,
     sb_inodestart = 2, sb_bmapstart = 4\<rparr>"

definition small_disk :: "(nat \<Rightarrow> nat \<Rightarrow> u8) disk" where
  "small_disk = \<lparr>dk_mmc = ram_mmc, dk_sector = (\<lambda>c. c), dk_dev = 1, dk_nblk = 200, dk_secs = 4096\<rparr>"

definition no_time :: timespec where
  "no_time = \<lparr>tv_sec = 0, tv_nsec = 0\<rparr>"

definition empty_inode :: inode where
  "empty_inode = \<lparr>d_type = 0, d_major = 0, d_minor = 0, d_nlink = 0, d_size = 0, d_mode = 0, d_uid = 0, d_gid = 0,
     d_atime = no_time, d_mtime = no_time, d_ctime = no_time, d_addrs = (\<lambda>_. 0), i_dev = 0, i_inum = 0, i_ref = 0,
     i_lock = initsleeplock, i_valid = False\<rparr>"

lemma small_fs:
  assumes c: "\<And>k. k < SECTOR_SIZE \<Longrightarrow> c 2080 k = (if k = 0 then 31 else 0)" "\<And>i k. 2080 < i \<Longrightarrow> i < 2088 \<Longrightarrow> k < SECTOR_SIZE \<Longrightarrow> c i k = 0"
  shows "\<exists>s :: (nat \<Rightarrow> nat \<Rightarrow> u8, 'a) fs_scheme. bio_at small_disk Map.empty s \<and> fs_layout small_disk s \<and> meta_used small_disk s \<and>
    (\<forall>b < 200. blk_used small_disk s b = (b < 5)) \<and> held s = {} \<and> sb s = small_sb \<and> itable s = it \<and> cur_pid s = 1 \<and> fsuid s = 0 \<and> card s = c \<and> fs.more s = x \<and>
    (\<forall>j k. k < BSIZE \<longrightarrow> dsk small_disk s j k = c (2048 + 8 * j + k div 512) (k mod 512))"
proof -
  define m where "m = fs_ext small_sb it no_time 1 0 0 0 0 (\<lambda>_. 0) x"
  have dv: "1 \<noteq> FATMINOR" "unat (2048 :: u32) + BLKSECT * 200 \<le> 4096" "(4096 :: nat) < 2 ^ 32" "NBUF \<le> 200"
    by (simp_all add: FATMINOR_def BLKSECT_def BSIZE_def SECTOR_SIZE_def NBUF_def)
  obtain s :: "(nat \<Rightarrow> nat \<Rightarrow> u8, 'a) fs_scheme" where s: "bio_inv (\<lambda>c. c) 1 200 4096 s" "bio_ready s" "used s = {..<NBUF}" "busy s = {}" "held s = {}" "card s = c"
    "ptlba s = (\<lambda>_. 2048)" "bio.more s = m"
    using warm_state [OF dv, of "\<lambda>c. c" c m] by metis
  have f: "sb s = small_sb" "itable s = it" "cur_pid s = 1" "fsuid s = 0" "fs.more s = x" using s(8) by (cases s, simp add: m_def)+
  have at: "bio_at small_disk Map.empty s" using s(1-4) ram_mmc_ok by (simp add: bio_at_def small_disk_def bio_ready_def)
  have B: "BLKSECT = 8" "BSIZE = 4096" "SECTOR_SIZE = 512" by (simp_all add: BLKSECT_def BSIZE_def SECTOR_SIZE_def)
  have d: "dsk small_disk s j k = c (2048 + 8 * j + k div 512) (k mod 512)" if "k < BSIZE" for j k
    using that by (simp add: dsk_def on_disk_def small_disk_def s(6,7) B)
  have b4: "dsk small_disk s 4 k = (if k = 0 then 31 else 0)" if k: "k < BSIZE" for k
  proof (cases "k < 512")
    case True
    then show ?thesis using d [OF k, of 4] c(1) [of k] by (simp add: B)
  next
    case False
    then have "1 \<le> k div 512" "k div 512 < 8" "k \<noteq> 0" using k by (auto simp: B)
    then show ?thesis using d [OF k, of 4] c(2) [of "2080 + k div 512" "k mod 512"] by (simp add: B)
  qed
  have us: "blk_used small_disk s b = (b < 5)" if b: "b < 200" for b
  proof -
    have "b div BPB = 0" "b mod BPB = b" "b div 8 < BSIZE" using b by (simp_all add: BPB_def B)
    then have e: "blk_used small_disk s b = bit (if b div 8 = 0 then 31 else 0 :: u8) (b mod 8)"
      using b4 by (simp add: blk_used_def f small_sb_def)
    have "bit (31 :: u8) n = (n < 5)" for n
    proof -
      have "(31 :: u8) = Bit_Operations.mask 5" by (simp add: mask_eq_exp_minus_1)
      moreover have "bit (Bit_Operations.mask 5 :: u8) n = (n < 5)" unfolding bit_mask_iff by (auto simp: possible_bit_word)
      ultimately show ?thesis by simp
    qed
    then show ?thesis unfolding e by (cases "b < 8") (auto simp: div_eq_0_iff)
  qed
  have ds: "data_start s = 5" by (simp add: data_start_def f small_sb_def BPB_def B)
  have "fs_layout small_disk s" by (simp add: fs_layout_def f small_sb_def small_disk_def ds IPB_def B)
  moreover have "meta_used small_disk s" using us by (simp add: meta_used_def ds)
  ultimately show ?thesis using at us s(5,6) f d by blast
qed

definition fresh_card :: "nat \<Rightarrow> nat \<Rightarrow> u8" where
  "fresh_card i k = (if i = 2080 \<and> k = 0 then 31 else 0)"

lemma fresh_fs:
  obtains s :: "(nat \<Rightarrow> nat \<Rightarrow> u8, 'a) fs_scheme" where "bio_at small_disk Map.empty s" "fs_layout small_disk s" "meta_used small_disk s"
    "\<And>b. b < 200 \<Longrightarrow> blk_used small_disk s b = (b < 5)" "held s = {}" "sb s = small_sb" "itable s = it" "cur_pid s = 1" "fs.more s = x"
  using small_fs [of fresh_card it x] by (auto simp: fresh_card_def)

section \<open>Properties\<close>



text \<open>
  \<^verbatim>\<open>bfree\<close> undoes \<^verbatim>\<open>balloc\<close>: freeing the block \<^verbatim>\<open>balloc\<close> returned gives back the bitmap of before and
  leaves every data block but that one alone; freeing a block that is not in use panics.
\<close>

theorem balloc_bfree_roundtrip:
  assumes "bio_at G Map.empty s" "fs_layout G s" "meta_used G s" "balloc (dk_mmc G) (dk_dev G) s = Some (of_nat a, s')" "balloc_done G Map.empty s a s'"
  shows "bfree (dk_mmc G) (dk_dev G) (of_nat a) s = None \<and>
    (\<exists>t. bfree (dk_mmc G) (dk_dev G) (of_nat a) s' = Some t \<and> bio_at G Map.empty t \<and> (\<forall>x < dk_nblk G. blk_used G t x = blk_used G s x) \<and>
      (\<forall>j \<ge> data_start s. j \<noteq> a \<longrightarrow> dsk G t j = dsk G s j))"
proof -
  have d: "bio_at G Map.empty s'" "fs_layout G s'" "a < dk_nblk G" "\<not> blk_used G s a" "bio_frame {} s s'"
    "\<And>x. x < dk_nblk G \<Longrightarrow> blk_used G s' x = (x = a \<or> blk_used G s x)" "\<And>j. j \<noteq> a \<Longrightarrow> data_start s \<le> j \<Longrightarrow> dsk G s' j = dsk G s j"
    using assms(5) by (simp_all add: balloc_done_def)
  have ds: "data_start s' = data_start s" using bio_rest_fs [OF bio_frameD(1) [OF d(5)]] by (simp add: data_start_def)
  have e: "Finite_Set.card (dom (Map.empty :: nat \<rightharpoonup> nat)) < NBUF" by (simp add: NBUF_def)
  have "bfree (dk_mmc G) (dk_dev G) (of_nat a) s = None" using bfree_cases [OF assms(1,2) e _ d(3)] d(4) by simp
  moreover obtain t where t: "bfree (dk_mmc G) (dk_dev G) (of_nat a) s' = Some t" "bio_at G Map.empty t"
    "\<forall>x < dk_nblk G. blk_used G t x = (x \<noteq> a \<and> blk_used G s' x)" "\<forall>j. data_start s' \<le> j \<longrightarrow> dsk G t j = dsk G s' j"
    using bfree_cases [OF d(1,2) e _ d(3)] d(6) [OF d(3)] by auto
  moreover have "\<forall>x < dk_nblk G. blk_used G t x = blk_used G s x" using t(3) d(4,6) by blast
  moreover have "\<forall>j \<ge> data_start s. j \<noteq> a \<longrightarrow> dsk G t j = dsk G s j" using t(4) d(7) by (simp add: ds)
  ultimately show ?thesis by blast
qed

theorem balloc_bfree_roundtrip_witness:
  "\<exists>(s :: (nat \<Rightarrow> nat \<Rightarrow> u8) fs) a s' t. balloc ram_mmc 1 s = Some (of_nat a, s') \<and> bfree ram_mmc 1 (of_nat a) s' = Some t \<and> \<not> blk_used small_disk t a"
proof -
  obtain s :: "(nat \<Rightarrow> nat \<Rightarrow> u8) fs" where s: "bio_at small_disk Map.empty s" "fs_layout small_disk s" "meta_used small_disk s"
    "\<And>b. b < 200 \<Longrightarrow> blk_used small_disk s b = (b < 5)"
    by (rule fresh_fs [of "\<lambda>_. empty_inode"]) blast
  have G: "dk_mmc small_disk = ram_mmc" "dk_dev small_disk = 1" "dk_nblk small_disk = 200" by (simp_all add: small_disk_def)
  have "\<not> (\<forall>b < dk_nblk small_disk. blk_used small_disk s b)" using s(4) [of 5] by (auto simp: G intro!: exI [of _ 5])
  then obtain a s' where a: "balloc ram_mmc 1 s = Some (of_nat a, s')" "balloc_done small_disk Map.empty s a s'"
    using balloc_cases [OF s(1-3)] unfolding G by (auto simp: NBUF_def split: if_splits)
  obtain t where "bfree ram_mmc 1 (of_nat a) s' = Some t" "\<forall>x < 200. blk_used small_disk t x = blk_used small_disk s x"
    using balloc_bfree_roundtrip [OF s(1-3), unfolded G, OF a] by blast
  moreover have "a < 200" "\<not> blk_used small_disk s a" using a(2) by (simp_all add: balloc_done_def G)
  ultimately show ?thesis using a(1) by blast
qed

end
