(* ===== verification/Fs_Inode.thy ===== *)
theory Fs_Inode
  imports Fs_Block
begin

text \<open>
  Inodes and file contents: the layout of inodes on the card is read back as written; the block map of
  an inode is a tree of slots with distinct blocks, which \<^verbatim>\<open>bmap\<close> fills in one block at a time.
\<close>

unbundle bit_operations_syntax

section \<open>Inodes on the card\<close>

lemma put_addrs_other: "q + 2 \<le> p \<Longrightarrow> get16 (put_addrs a n p f) q = get16 f q" "q + 4 \<le> p \<Longrightarrow> get32 (put_addrs a n p f) q = get32 f q"
    "q + 8 \<le> p \<Longrightarrow> get64 (put_addrs a n p f) q = get64 f q"
  by (induction n) (auto simp: get_put_other)

lemma put_addrs_get: "k < n \<Longrightarrow> get32 (put_addrs a n p f) (p + 4 * k) = a k"
proof (induction n)
  case (Suc n)
  then show ?case by (cases "k = n") (auto simp: get_put_other)
qed simp

lemma put_addrs_out: "k < p \<or> p + 4 * n \<le> k \<Longrightarrow> put_addrs a n p f k = f k"
  by (induction n) (auto simp: put32_def put_out)

definition dinode_part :: "'z dinode_scheme \<Rightarrow> dinode" where
  "dinode_part d = \<lparr>d_type = d_type d, d_major = d_major d, d_minor = d_minor d, d_nlink = d_nlink d, d_size = d_size d,
     d_mode = d_mode d, d_uid = d_uid d, d_gid = d_gid d, d_atime = d_atime d, d_mtime = d_mtime d, d_ctime = d_ctime d,
     d_addrs = (\<lambda>k. if k < NDIRECT + 2 then d_addrs d k else 0)\<rparr>"

lemma dinode_put_same: "dinode_of (put_dinode d p f) p = dinode_part d"
proof -
  define g where "g = put_timespec (d_ctime d) (p + 56) (put_timespec (d_mtime d) (p + 40) (put_timespec (d_atime d) (p + 24)
    (put32 (d_mode d) (p + 12) (put32 (d_gid d) (p + 20) (put32 (d_uid d) (p + 16) (put32 (d_size d) (p + 8) (put16 (d_nlink d) (p + 6)
    (put16 (d_minor d) (p + 4) (put16 (d_major d) (p + 2) (put16 (d_type d) p f))))))))))"
  have pd: "put_dinode d p f = put_addrs (d_addrs d) (NDIRECT + 2) (p + 72) g" by (simp add: put_dinode_def g_def Let_def)
  have "dinode_of g p = (dinode_part d)\<lparr>d_addrs := d_addrs (dinode_of g p)\<rparr>"
    by (simp add: dinode_of_def dinode_part_def g_def put_timespec_def timespec_of_def get_put_other)
  moreover define N where "N = NDIRECT + 2"
  ultimately show ?thesis
    unfolding pd dinode_of_def dinode_part_def timespec_of_def N_def [symmetric]
    by (simp add: put_addrs_other put_addrs_get fun_eq_iff)
qed

lemma dinode_cong:
  assumes "\<And>k. p \<le> k \<Longrightarrow> k < p + 124 \<Longrightarrow> f k = g k"
  shows "dinode_of f p = dinode_of g p"
proof -
  have a: "get16 f q = get16 g q" if "p \<le> q" "q + 2 \<le> p + 124" for q by (rule get_cong) (use that in \<open>auto intro!: assms\<close>)
  have b: "get32 f q = get32 g q" if "p \<le> q" "q + 4 \<le> p + 124" for q by (rule get_cong) (use that in \<open>auto intro!: assms\<close>)
  have c: "get64 f q = get64 g q" if "p \<le> q" "q + 8 \<le> p + 124" for q by (rule get_cong) (use that in \<open>auto intro!: assms\<close>)
  show ?thesis by (auto simp: dinode_of_def timespec_of_def NDIRECT_def a b c fun_eq_iff)
qed

lemma put_dinode_out: "k < p \<or> p + 124 \<le> k \<Longrightarrow> put_dinode d p f k = f k"
  by (auto simp: put_dinode_def Let_def put_addrs_out put_timespec_def put16_def put32_def put64_def put_out NDIRECT_def)

lemma put_dinode_cong:
  assumes "f k = g k"
  shows "put_dinode d p f k = put_dinode d p g k"
proof -
  have ad: "f k = g k \<Longrightarrow> put_addrs a n q f k = put_addrs a n q g k" for a n q and f g :: "nat \<Rightarrow> u8"
    by (induction n) (simp_all add: put32_def put_le_def)
  show ?thesis unfolding put_dinode_def Let_def put_timespec_def put16_def put32_def put64_def
    by (rule ad) (simp add: put_le_def assms)
qed

section \<open>Inode blocks\<close>

definition inode_blk :: "('c, 'a) fs_scheme \<Rightarrow> u32 \<Rightarrow> nat" where
  "inode_blk s inum = unat (sb_inodestart (sb s)) + unat inum div IPB"

lemma inode_block:
  assumes at: "bio_at G H s" and lay: "fs_layout G s" and n: "inum < sb_ninodes (sb s)"
  shows "IBLOCK inum s = of_nat (inode_blk s inum)" "0 < inode_blk s inum" "inode_blk s inum < unat (sb_bmapstart (sb s))"
    "inode_blk s inum < dk_nblk G" "inode_pos inum + 128 \<le> BSIZE"
proof -
  have I: "IPB = 32" by (simp add: IPB_def BSIZE_def)
  have "unat (inum div of_nat IPB) = unat inum div IPB" by (simp add: unat_div_distrib I)
  then have d: "inum div of_nat IPB = of_nat (unat inum div IPB)" by (metis of_nat_unat ucast_id)
  show "IBLOCK inum s = of_nat (inode_blk s inum)" by (simp add: IBLOCK_def inode_blk_def d add.commute)
  have "unat inum div IPB \<le> unat (sb_ninodes (sb s)) div IPB" using n by (intro div_le_mono) (simp add: word_less_nat_alt)
  then show lt: "inode_blk s inum < unat (sb_bmapstart (sb s))" using lay by (simp add: inode_blk_def fs_layout_def)
  show "0 < inode_blk s inum" using lay by (simp add: inode_blk_def fs_layout_def word_less_nat_alt)
  show "inode_blk s inum < dk_nblk G" using lt lay by (simp add: fs_layout_def data_start_def)
  have "unat inum mod 32 < 32" by simp
  then show "inode_pos inum + 128 \<le> BSIZE" by (simp add: inode_pos_def I BSIZE_def)
qed

lemma cut_put_dinode: "\<forall>k < BSIZE. f k = dsk G s j k \<Longrightarrow> p + 124 \<le> BSIZE \<Longrightarrow> cut (put_dinode d p f) = put_dinode d p (dsk G s j)"
proof (rule ext)
  fix k assume a: "\<forall>k < BSIZE. f k = dsk G s j k" "p + 124 \<le> BSIZE"
  show "cut (put_dinode d p f) k = put_dinode d p (dsk G s j) k"
  proof (cases "k < BSIZE")
    case True
    then show ?thesis using put_dinode_cong [of f k "dsk G s j"] a(1) by (simp add: cut_def)
  next
    case False
    then have "put_dinode d p (dsk G s j) k = dsk G s j k" using a(2) by (intro put_dinode_out) auto
    then show ?thesis using False by (simp add: cut_def dsk_def)
  qed
qed

lemma iupdate_spec:
  assumes at: "bio_at G H s" and lay: "fs_layout G s" and dv: "i_dev (itable s i) = dk_dev G" and n: "i_inum (itable s i) < sb_ninodes (sb s)"
    and H: "\<And>j. j \<in> ran H \<Longrightarrow> data_start s \<le> j" and room: "Finite_Set.card (dom H) < NBUF"
  shows "\<exists>s'. iupdate (dk_mmc G) i s = Some s' \<and> bio_at G H s' \<and> bio_frame (dom H) s s' \<and>
    (let j = inode_blk s (i_inum (itable s i)) in
     dsk G s' = (dsk G s)(j := put_dinode (itable s i) (inode_pos (i_inum (itable s i))) (dsk G s j)))"
proof -
  define j where "j = inode_blk s (i_inum (itable s i))"
  note ib = inode_block [OF at lay n]
  have jr: "j \<notin> ran H" using ib(3) H by (fastforce simp: j_def data_start_def)
  obtain b s1 where r: "bread_now (dk_mmc G) (dk_dev G) (of_nat j) s = Some (b, s1)" "\<forall>k < BSIZE. buf_bytes s1 b k = dsk G s j k" "bio_rest s s1"
    "\<forall>f. \<exists>s2 s3. bwrite_now (dk_mmc G) b (set_bytes b f s1) = Some s2 \<and> bio_rest s s2 \<and> brelse b s2 = Some s3 \<and> bio_at G H s3 \<and>
      dsk G s3 = (dsk G s)(j := cut f) \<and> bio_frame (dom H) s s3"
    using at_modify [OF at _ jr room] ib(4) unfolding j_def by blast
  let ?f = "put_dinode (itable s i) (inode_pos (i_inum (itable s i))) (buf_bytes s1 b)"
  have c: "cut ?f = put_dinode (itable s i) (inode_pos (i_inum (itable s i))) (dsk G s j)"
    by (rule cut_put_dinode [OF r(2)]) (use ib(5) in simp)
  obtain s2 s3 where w: "bwrite_now (dk_mmc G) b (set_bytes b ?f s1) = Some s2" "brelse b s2 = Some s3" "bio_at G H s3"
    "dsk G s3 = (dsk G s)(j := cut ?f)" "bio_frame (dom H) s s3"
    using r(4) [THEN spec, of ?f] by blast
  have it: "itable s1 = itable s" using bio_rest_fs [OF r(3)] by simp
  have "iupdate (dk_mmc G) i s = Some s3"
    using r(1) w(1,2) by (simp add: iupdate_def dv ib(1) j_def it del: bind_Some_iff)
  then show ?thesis using w c by (simp add: j_def Let_def)
qed

text \<open>Whatever inode table entry \<^verbatim>\<open>iupdate\<close> wrote is what \<^verbatim>\<open>ilock\<close> reads.\<close>

lemma ilock_reads:
  assumes at: "bio_at G Map.empty s" and lay: "fs_layout G s" and dv: "i_dev (itable s i) = dk_dev G" and n: "i_inum (itable s i) < sb_ninodes (sb s)"
    and l: "L_inode i \<notin> held s" "\<not> sl_locked (i_lock (itable s i))" "0 < i_ref (itable s i)" "\<not> i_valid (itable s i)"
    and d: "d = dinode_of (dsk G s (inode_blk s (i_inum (itable s i)))) (inode_pos (i_inum (itable s i)))" "d_type d \<noteq> 0"
  shows "\<exists>s'. ilock (dk_mmc G) i s = Some s' \<and> bio_at G Map.empty s' \<and> dsk G s' = dsk G s \<and> held s' = held s \<and>
    itable s' = (itable s)(i := (copy_dinode d (itable s i))\<lparr>i_lock := \<lparr>sl_locked = True, sl_pid = cur_pid s\<rparr>, i_valid := True\<rparr>) \<and>
    sb s' = sb s \<and> cur_pid s' = cur_pid s"
proof -
  define j where "j = inode_blk s (i_inum (itable s i))"
  define t where "t = upd_inode i (\<lambda>ip. ip\<lparr>i_lock := (i_lock ip)\<lparr>sl_locked := True, sl_pid := cur_pid s\<rparr>\<rparr>) s"
  have lk: "lock_inode i s = Some t"
    using l by (simp add: lock_inode_def acquiresleep_free t_def upd_inode_def)
  have at_t: "bio_at G Map.empty t" using at by (simp add: t_def)
  have lay_t: "fs_layout G t" "inode_blk t = inode_blk s" "dsk G t = dsk G s" "sb t = sb s" "held t = held s" "cur_pid t = cur_pid s"
    using lay by (simp_all add: t_def inode_blk_def fun_eq_iff)
  have it: "i_dev (itable t i) = dk_dev G" "i_inum (itable t i) = i_inum (itable s i)" "\<not> i_valid (itable t i)" using dv l by (simp_all add: t_def)
  note ib = inode_block [OF at_t lay_t(1), of "i_inum (itable t i)", unfolded lay_t(2,4) it(2), OF n]
  obtain b s1 s2 where r: "bread_now (dk_mmc G) (dk_dev G) (of_nat j) t = Some (b, s1)" "\<forall>k < BSIZE. buf_bytes s1 b k = dsk G s j k" "bio_rest t s1"
    "b \<notin> dom (Map.empty :: nat \<rightharpoonup> nat)" "bio_at G [b \<mapsto> j] s1" "dsk G s1 = dsk G s"
    using at_read [OF at_t, of j] ib(4) lay_t(3) by (auto simp: j_def NBUF_def bio_frame_def)
  have it1: "itable s1 = itable t" "sb s1 = sb t" "held s1 = held t" "cur_pid s1 = cur_pid t" using bio_rest_fs [OF r(3)] by simp_all
  have dd: "dinode_of (buf_bytes s1 b) (inode_pos (i_inum (itable s i))) = d"
    unfolding d(1) j_def [symmetric] by (rule dinode_cong) (use ib(5) r(2) in auto)
  define u where "u = upd_inode i (copy_dinode d) s1"
  have fu: "dsk G u = dsk G s" "buf_bytes u = buf_bytes s1" "bio_at G [b \<mapsto> j] u" using r(5,6) by (simp_all add: u_def)
  obtain v where v: "brelse b u = Some v" "bio_at G Map.empty v" "dsk G v = dsk G s" "bio_frame {} u v"
    using at_release [OF fu(3), of b j] r(2) fu(1,2) by auto
  note vr = bio_rest_fs [OF bio_frameD(1) [OF v(4)]]
  have "ilock (dk_mmc G) i s = Some (upd_inode i (\<lambda>ip. ip\<lparr>i_valid := True\<rparr>) v)"
    using lk l(3) it r(1) v(1) d(2)
    by (simp add: ilock_def j_def ib(1) it1 lay_t u_def dd vr IBLOCK_def [symmetric] copy_dinode_def del: bind_Some_iff)
  then show ?thesis using v by (simp add: vr u_def it1 lay_t) (auto simp: t_def copy_dinode_def)
qed

lemma dinode_put_other: "q + 124 \<le> p \<or> p + 124 \<le> q \<Longrightarrow> dinode_of (put_dinode d p f) q = dinode_of f q"
  by (rule dinode_cong) (auto intro!: put_dinode_out)

definition dinode_at :: "'c disk \<Rightarrow> ('c, 'a) fs_scheme \<Rightarrow> u32 \<Rightarrow> dinode" where
  "dinode_at G s n = dinode_of (dsk G s (inode_blk s n)) (inode_pos n)"

lemma inode_place_inj: "inode_blk s n = inode_blk s m \<Longrightarrow> n \<noteq> m \<Longrightarrow> inode_pos n + 124 \<le> inode_pos m \<or> inode_pos m + 124 \<le> inode_pos n"
proof -
  assume a: "inode_blk s n = inode_blk s m" "n \<noteq> m"
  have "unat n div IPB = unat m div IPB" using a(1) by (simp add: inode_blk_def)
  then have "unat n mod IPB \<noteq> unat m mod IPB" using a(2) by (metis div_mult_mod_eq unsigned_word_eqI)
  then show ?thesis unfolding inode_pos_def by linarith
qed

lemma dinode_at_put:
  assumes "dsk G s' = (dsk G s)(inode_blk s m := put_dinode d (inode_pos m) (dsk G s (inode_blk s m)))" "sb s' = sb s"
  shows "dinode_at G s' n = (if n = m then dinode_part d else dinode_at G s n)"
proof -
  have e: "inode_blk s' = inode_blk s" using assms(2) by (simp add: inode_blk_def fun_eq_iff)
  show ?thesis
    using inode_place_inj [of s n m] dinode_put_other [of "inode_pos n" "inode_pos m"]
    by (auto simp: dinode_at_def e assms(1) dinode_put_same)
qed

section \<open>The block map\<close>

text \<open>The places a block number of a file can be in: the inode, the blocks of addresses, and the data.\<close>

datatype slot = Data nat | Ind | Dbl | DInd nat

definition dind_of :: "(nat \<Rightarrow> nat \<Rightarrow> u8) \<Rightarrow> (nat \<Rightarrow> u32) \<Rightarrow> nat \<Rightarrow> u32" where
  "dind_of D a k = (if k < NINDIRECT \<and> a (NDIRECT + 1) \<noteq> 0 then get32 (D (unat (a (NDIRECT + 1)))) (4 * k) else 0)"

fun slot_of :: "(nat \<Rightarrow> nat \<Rightarrow> u8) \<Rightarrow> (nat \<Rightarrow> u32) \<Rightarrow> slot \<Rightarrow> u32" where
  "slot_of D a Ind = a NDIRECT"
| "slot_of D a Dbl = a (NDIRECT + 1)"
| "slot_of D a (DInd k) = dind_of D a k"
| "slot_of D a (Data n) =
     (if n < NDIRECT then a n
      else if n - NDIRECT < NINDIRECT then
        (if a NDIRECT = 0 then 0 else get32 (D (unat (a NDIRECT))) (4 * (n - NDIRECT)))
      else let k = n - NDIRECT - NINDIRECT; r = dind_of D a (k div NINDIRECT)
           in if r = 0 then 0 else get32 (D (unat r)) (4 * (k mod NINDIRECT)))"

definition fslot :: "'c disk \<Rightarrow> ('c, 'a) fs_scheme \<Rightarrow> nat \<Rightarrow> slot \<Rightarrow> u32" where
  "fslot G s i = slot_of (dsk G s) (d_addrs (itable s i))"

definition file_ok :: "'c disk \<Rightarrow> ('c, 'a) fs_scheme \<Rightarrow> nat \<Rightarrow> bool" where
  "file_ok G s i \<longleftrightarrow>
     (\<forall>p. fslot G s i p \<noteq> 0 \<longrightarrow> data_start s \<le> unat (fslot G s i p) \<and> unat (fslot G s i p) < dk_nblk G \<and> blk_used G s (unat (fslot G s i p))) \<and>
     (\<forall>p q. p \<noteq> q \<longrightarrow> fslot G s i p \<noteq> 0 \<longrightarrow> fslot G s i p \<noteq> fslot G s i q)"

definition inode_ok :: "'c disk \<Rightarrow> ('c, 'a) fs_scheme \<Rightarrow> nat \<Rightarrow> bool" where
  "inode_ok G s i \<longleftrightarrow> bio_at G Map.empty s \<and> fs_layout G s \<and> meta_used G s \<and> i_dev (itable s i) = dk_dev G \<and>
     i_inum (itable s i) < sb_ninodes (sb s) \<and> file_ok G s i"

text \<open>The block that holds the entry of a slot, if the entry is not in the inode itself.\<close>

fun parent_of :: "slot \<Rightarrow> slot option" where
  "parent_of Ind = None"
| "parent_of Dbl = None"
| "parent_of (DInd k) = Some Dbl"
| "parent_of (Data n) =
     (if n < NDIRECT then None else if n - NDIRECT < NINDIRECT then Some Ind else Some (DInd ((n - NDIRECT - NINDIRECT) div NINDIRECT)))"

fun entry_of :: "slot \<Rightarrow> nat" where
  "entry_of Ind = NDIRECT"
| "entry_of Dbl = NDIRECT + 1"
| "entry_of (DInd k) = k"
| "entry_of (Data n) = (if n < NDIRECT then n else if n - NDIRECT < NINDIRECT then n - NDIRECT else (n - NDIRECT - NINDIRECT) mod NINDIRECT)"

definition in_file :: "slot \<Rightarrow> bool" where
  "in_file p \<longleftrightarrow> (case p of Data n \<Rightarrow> n < MAXFILE | DInd k \<Rightarrow> k < NINDIRECT | _ \<Rightarrow> True)"

lemma slot_parent:
  assumes "in_file p"
  shows "slot_of D a p = (case parent_of p of None \<Rightarrow> a (entry_of p)
    | Some q \<Rightarrow> if slot_of D a q = 0 then 0 else get32 (D (unat (slot_of D a q))) (4 * entry_of p))"
  using assms by (cases p) (auto simp: in_file_def Let_def dind_of_def)

lemma N_eq: "NDIRECT = 11" "NINDIRECT = 1024" "NINDIRECT2 = 1024 * 1024" "MAXFILE = 1049611"
  by (simp_all add: NDIRECT_def NINDIRECT_def NINDIRECT2_def MAXFILE_def BSIZE_def)

lemma slot_entry_inj:
  assumes "in_file p" "in_file q" "parent_of p = parent_of q" "entry_of p = entry_of q"
  shows "p = q"
proof (cases p; cases q)
  fix n m assume e: "p = Data n" "q = Data m"
  show ?thesis
  proof (cases "n < NDIRECT + NINDIRECT")
    case True
    then show ?thesis using assms e by (auto simp: in_file_def N_eq split: if_splits)
  next
    case False
    then have m: "\<not> m < NDIRECT + NINDIRECT" "(n - NDIRECT - NINDIRECT) div NINDIRECT = (m - NDIRECT - NINDIRECT) div NINDIRECT"
      "(n - NDIRECT - NINDIRECT) mod NINDIRECT = (m - NDIRECT - NINDIRECT) mod NINDIRECT"
      using assms e by (auto simp: in_file_def split: if_splits)
    then have "n - NDIRECT - NINDIRECT = m - NDIRECT - NINDIRECT" by (metis div_mult_mod_eq)
    then show ?thesis using False m(1) e by auto
  qed
qed (use assms in \<open>auto simp: in_file_def N_eq split: if_splits\<close>)

lemma parent_in_file: "in_file p \<Longrightarrow> parent_of p = Some q \<Longrightarrow> in_file q \<and> (parent_of q = None \<or> parent_of q = Some Dbl)"
  by (cases p) (auto simp: in_file_def N_eq split: if_splits)

lemma entry_lt: "in_file p \<Longrightarrow> parent_of p \<noteq> None \<Longrightarrow> 4 * entry_of p + 4 \<le> BSIZE" "in_file p \<Longrightarrow> parent_of p = None \<Longrightarrow> entry_of p < NDIRECT + 2"
proof -
  have "x mod 1024 < 1024" for x :: nat by simp
  then show "in_file p \<Longrightarrow> parent_of p \<noteq> None \<Longrightarrow> 4 * entry_of p + 4 \<le> BSIZE"
    by (cases p) (auto simp: in_file_def N_eq BSIZE_def split: if_splits)
  show "in_file p \<Longrightarrow> parent_of p = None \<Longrightarrow> entry_of p < NDIRECT + 2"
    by (cases p) (auto simp: in_file_def N_eq split: if_splits)
qed

lemma slot_out: "\<not> in_file p \<Longrightarrow> slot_of D a p = 0"
proof (cases p)
  case (Data n)
  assume "\<not> in_file p"
  then have n: "1049611 \<le> n" by (simp add: in_file_def Data N_eq)
  then have "1024 \<le> (n - 11 - 1024) div 1024" by linarith
  moreover have "\<not> n - 11 < 1024" using n by linarith
  ultimately show ?thesis using n by (simp add: Data N_eq dind_of_def Let_def)
qed (auto simp: in_file_def dind_of_def)

text \<open>Filling an empty slot \<open>p\<close> with the number of a zeroed block changes just that slot.\<close>

lemma slot_fill:
  fixes D a
  defines "S \<equiv> slot_of D a"
  assumes inj: "\<And>p q. p \<noteq> q \<Longrightarrow> S p \<noteq> 0 \<Longrightarrow> S p \<noteq> S q"
    and p: "in_file p" "S p = 0" and b: "b \<noteq> 0" "\<And>q. S q \<noteq> b" "D' (unat b) = (\<lambda>_. 0)"
    and up: "case parent_of p of
        None \<Rightarrow> a' = a(entry_of p := b) \<and> (\<forall>r. S r \<noteq> 0 \<longrightarrow> D' (unat (S r)) = D (unat (S r)))
      | Some q \<Rightarrow> a' = a \<and> S q \<noteq> 0 \<and> D' (unat (S q)) = put32 b (4 * entry_of p) (D (unat (S q))) \<and>
          (\<forall>r. r \<noteq> q \<longrightarrow> S r \<noteq> 0 \<longrightarrow> D' (unat (S r)) = D (unat (S r)))"
  shows "slot_of D' a' = S(p := b)"
proof -
  let ?S' = "slot_of D' a'"
  have root: "?S' r = (S(p := b)) r" if r: "in_file r" "parent_of r = None" for r
    using slot_parent [OF r(1), of D' a'] slot_parent [OF r(1), of D a] slot_entry_inj [OF r(1) p(1)] slot_parent [OF p(1), of D a] r(2) up p(2) b(1)
    by (auto simp: S_def split: option.splits if_splits)
  have child: "?S' r = (S(p := b)) r" if r: "in_file r" "parent_of r = Some q'" and q': "?S' q' = (S(p := b)) q'" for r q'
  proof -
    have c': "?S' r = (if ?S' q' = 0 then 0 else get32 (D' (unat (?S' q'))) (4 * entry_of r))" using slot_parent [OF r(1), of D' a'] r(2) by simp
    have c: "S r = (if S q' = 0 then 0 else get32 (D (unat (S q'))) (4 * entry_of r))" using slot_parent [OF r(1), of D a] r(2) by (simp add: S_def)
    show ?thesis
    proof (cases "q' = p")
      case True
      then have "r \<noteq> p" using r(2) by (cases p) (auto split: if_splits)
      then show ?thesis using c c' q' True p(2) b(1,3) by simp
    next
      case False
      then have e: "?S' q' = S q'" using q' by simp
      show ?thesis
      proof (cases "S q' = 0")
        case True
        then have "r \<noteq> p" using up r(2) by auto
        then show ?thesis using c c' e True by simp
      next
        case nz: False
        show ?thesis
        proof (cases "parent_of p = Some q'")
          case True
          then have D': "D' (unat (S q')) = put32 b (4 * entry_of p) (D (unat (S q')))" using up by simp
          have "entry_of r \<noteq> entry_of p" if "r \<noteq> p" using slot_entry_inj [OF r(1) p(1)] r(2) True that by metis
          then have "r \<noteq> p \<Longrightarrow> 4 * entry_of r + 4 \<le> 4 * entry_of p \<or> 4 * entry_of p + 4 \<le> 4 * entry_of r" by linarith
          then show ?thesis using c c' e nz D' by (auto simp: get_put_other(5))
        next
          case False
          then have "r \<noteq> p" using r(2) by auto
          moreover have "D' (unat (S q')) = D (unat (S q'))"
            using up nz False by (cases "parent_of p") auto
          ultimately show ?thesis using c c' e nz by simp
        qed
      qed
    qed
  qed
  have "?S' r = (S(p := b)) r" for r
  proof (cases "in_file r")
    case True
    show ?thesis
    proof (cases "parent_of r")
      case None
      then show ?thesis by (rule root [OF True])
    next
      case (Some q')
      note pq = parent_in_file [OF True Some]
      have "?S' q' = (S(p := b)) q'"
      proof (cases "parent_of q'")
        case None
        then show ?thesis using root pq by blast
      next
        case (Some x)
        then show ?thesis using pq child [of q' Dbl] root [of Dbl] by (auto simp: in_file_def)
      qed
      then show ?thesis by (rule child [OF True Some])
    qed
  next
    case False
    then have "r \<noteq> p" using p(1) by blast
    then show ?thesis using slot_out [OF False] by (simp add: S_def)
  qed
  then show ?thesis by blast
qed

lemma inode_ok_cong:
  assumes ok: "inode_ok G s i" and s': "bio_at G Map.empty s'" "dsk G s' = dsk G s" "sb s' = sb s"
    and it: "d_addrs (itable s' i) = d_addrs (itable s i)" "i_dev (itable s' i) = i_dev (itable s i)" "i_inum (itable s' i) = i_inum (itable s i)"
  shows "inode_ok G s' i"
proof -
  have "data_start s' = data_start s" "blk_used G s' = blk_used G s" "fslot G s' i = fslot G s i"
    by (simp_all add: data_start_def blk_used_def fslot_def fun_eq_iff s' it)
  then show ?thesis using ok s' it by (simp add: inode_ok_def file_ok_def fs_layout_def meta_used_def)
qed

text \<open>What changes of the table entry of a file while it grows.\<close>

definition addr_frame :: "nat \<Rightarrow> ('c, 'a) fs_scheme \<Rightarrow> ('c, 'a) fs_scheme \<Rightarrow> bool" where
  "addr_frame i s s' \<longleftrightarrow> sb s' = sb s \<and> now s' = now s \<and> cur_pid s' = cur_pid s \<and> held s' = held s \<and>
     (\<exists>a. itable s' = (itable s)(i := (itable s i)\<lparr>d_addrs := a\<rparr>))"

lemma addr_frame_refl [simp]: "addr_frame i s s"
  unfolding addr_frame_def by (simp add: exI [of _ "d_addrs (itable s i)"])

lemma addr_frame_trans:
  assumes "addr_frame i s t" "addr_frame i t u"
  shows "addr_frame i s u"
proof -
  obtain a b where "itable t = (itable s)(i := (itable s i)\<lparr>d_addrs := a\<rparr>)" "itable u = (itable t)(i := (itable t i)\<lparr>d_addrs := b\<rparr>)"
    using assms by (auto simp: addr_frame_def)
  then have "itable u = (itable s)(i := (itable s i)\<lparr>d_addrs := b\<rparr>)" by simp
  then show ?thesis using assms by (auto simp: addr_frame_def)
qed

lemma addr_frame_rest: "bio_rest s s' \<Longrightarrow> addr_frame i s s'"
  unfolding addr_frame_def using bio_rest_fs [of s s'] by (simp add: exI [of _ "d_addrs (itable s i)"])

lemma addr_frameD:
  assumes "addr_frame i s s'"
  shows "sb s' = sb s" "held s' = held s" "data_start s' = data_start s" "i_dev (itable s' i) = i_dev (itable s i)"
    "i_inum (itable s' i) = i_inum (itable s i)" "d_size (itable s' i) = d_size (itable s i)" "d_type (itable s' i) = d_type (itable s i)"
    "x \<noteq> i \<Longrightarrow> itable s' x = itable s x" "now s' = now s" "cur_pid s' = cur_pid s"
  using assms by (auto simp: addr_frame_def data_start_def)

definition filled :: "'c disk \<Rightarrow> ('c, 'a) fs_scheme \<Rightarrow> nat \<Rightarrow> slot \<Rightarrow> nat \<Rightarrow> ('c, 'a) fs_scheme \<Rightarrow> bool" where
  "filled G s i p b s' \<longleftrightarrow> inode_ok G s' i \<and> fslot G s' i = (fslot G s i)(p := of_nat b) \<and>
     data_start s \<le> b \<and> b < dk_nblk G \<and> \<not> blk_used G s b \<and> (\<forall>x < dk_nblk G. blk_used G s' x = (x = b \<or> blk_used G s x)) \<and>
     dsk G s' b = (\<lambda>_. 0) \<and> addr_frame i s s' \<and>
     (\<forall>j. j \<noteq> b \<and> (j < unat (sb_bmapstart (sb s)) \<or> data_start s \<le> j) \<and>
        (\<forall>q. parent_of p = Some q \<longrightarrow> j \<noteq> unat (fslot G s i q)) \<longrightarrow> dsk G s' j = dsk G s j)"

lemma small_of_nat: "bio_at G H s \<Longrightarrow> b < dk_nblk G \<Longrightarrow> unat (of_nat b :: u32) = b"
  using nblk_small [of G H s] by (simp add: unat_of_nat take_bit_nat_eq_self)

lemma filledI:
  assumes ok: "inode_ok G s i" and p: "in_file p" "fslot G s i p = 0"
    and b: "data_start s \<le> b" "b < dk_nblk G" "\<not> blk_used G s b"
    and s': "bio_at G Map.empty s'" "fs_layout G s'" "meta_used G s'" "addr_frame i s s'"
    and us: "\<forall>x < dk_nblk G. blk_used G s' x = (x = b \<or> blk_used G s x)" and z: "dsk G s' b = (\<lambda>_. 0)"
    and up: "case parent_of p of
        None \<Rightarrow> d_addrs (itable s' i) = (d_addrs (itable s i))(entry_of p := of_nat b) \<and>
          (\<forall>j. j \<noteq> b \<and> (j < unat (sb_bmapstart (sb s)) \<or> data_start s \<le> j) \<longrightarrow> dsk G s' j = dsk G s j)
      | Some q \<Rightarrow> d_addrs (itable s' i) = d_addrs (itable s i) \<and> fslot G s i q \<noteq> 0 \<and>
          dsk G s' (unat (fslot G s i q)) = put32 (of_nat b) (4 * entry_of p) (dsk G s (unat (fslot G s i q))) \<and>
          (\<forall>j. j \<noteq> b \<and> j \<noteq> unat (fslot G s i q) \<and> (j < unat (sb_bmapstart (sb s)) \<or> data_start s \<le> j) \<longrightarrow> dsk G s' j = dsk G s j)"
  shows "filled G s i p b s'"
proof -
  let ?S = "fslot G s i"
  have at: "bio_at G Map.empty s" and fo: "file_ok G s i" and lay: "fs_layout G s" using ok by (simp_all add: inode_ok_def)
  have ub: "unat (of_nat b :: u32) = b" using small_of_nat [OF at b(2)] .
  have b0: "(of_nat b :: u32) \<noteq> 0" using b(1) ub by (auto simp: data_start_def)
  have rng: "data_start s \<le> unat (?S q)" "unat (?S q) < dk_nblk G" "blk_used G s (unat (?S q))" if "?S q \<noteq> 0" for q
    using fo that by (auto simp: file_ok_def)
  have bq: "?S q \<noteq> of_nat b" for q using rng(3) [of q] b(3) b0 ub by metis
  have inj: "p \<noteq> q \<Longrightarrow> ?S p \<noteq> 0 \<Longrightarrow> ?S p \<noteq> ?S q" for p q using fo by (auto simp: file_ok_def)
  have ne: "unat (?S r) \<noteq> b" "r \<noteq> q \<Longrightarrow> unat (?S r) \<noteq> unat (?S q)" if "?S r \<noteq> 0" for r q
    using bq [of r] ub that inj [of r q] by (auto simp: unsigned_word_eqI)
  have slots: "fslot G s' i = ?S(p := of_nat b)"
    unfolding fslot_def
  proof (rule slot_fill)
    show "case parent_of p of
        None \<Rightarrow> d_addrs (itable s' i) = (d_addrs (itable s i))(entry_of p := of_nat b) \<and>
          (\<forall>r. slot_of (dsk G s) (d_addrs (itable s i)) r \<noteq> 0 \<longrightarrow>
             dsk G s' (unat (slot_of (dsk G s) (d_addrs (itable s i)) r)) = dsk G s (unat (slot_of (dsk G s) (d_addrs (itable s i)) r)))
      | Some q \<Rightarrow> d_addrs (itable s' i) = d_addrs (itable s i) \<and> slot_of (dsk G s) (d_addrs (itable s i)) q \<noteq> 0 \<and>
          dsk G s' (unat (slot_of (dsk G s) (d_addrs (itable s i)) q)) =
            put32 (of_nat b) (4 * entry_of p) (dsk G s (unat (slot_of (dsk G s) (d_addrs (itable s i)) q))) \<and>
          (\<forall>r. r \<noteq> q \<longrightarrow> slot_of (dsk G s) (d_addrs (itable s i)) r \<noteq> 0 \<longrightarrow>
             dsk G s' (unat (slot_of (dsk G s) (d_addrs (itable s i)) r)) = dsk G s (unat (slot_of (dsk G s) (d_addrs (itable s i)) r)))"
      using up ne rng(1) unfolding fslot_def [symmetric] by (auto split: option.splits)
  qed (use inj p b0 bq z ub in \<open>simp_all add: fslot_def\<close>)
  have ds: "data_start s' = data_start s" using addr_frameD [OF s'(4)] by simp
  have "file_ok G s' i"
    unfolding file_ok_def slots
  proof (intro conjI allI impI)
    fix q r
    assume "(?S(p := of_nat b)) q \<noteq> 0"
    then show "data_start s' \<le> unat ((?S(p := of_nat b)) q)" "unat ((?S(p := of_nat b)) q) < dk_nblk G" "blk_used G s' (unat ((?S(p := of_nat b)) q))"
      using rng [of q] us b ub ds by (auto split: if_splits)
    assume "q \<noteq> r"
    then show "(?S(p := of_nat b)) q \<noteq> (?S(p := of_nat b)) r"
      using \<open>(?S(p := of_nat b)) q \<noteq> 0\<close> inj [of q r] bq [of q] bq [of r] by (auto split: if_splits)
  qed
  then have "inode_ok G s' i" using s' ok addr_frameD [OF s'(4)] by (simp add: inode_ok_def)
  then show ?thesis using slots b us z s'(4) up by (auto simp: filled_def split: option.splits)
qed

lemma NBUF_room: "Finite_Set.card (dom (Map.empty :: nat \<rightharpoonup> nat)) < NBUF" "Finite_Set.card (dom [b \<mapsto> (j :: nat)]) < NBUF"
  by (simp_all add: NBUF_def)

text \<open>An empty slot of the inode itself.\<close>

lemma root_fill:
  assumes ok: "inode_ok G s i" and p: "in_file p" "parent_of p = None" "fslot G s i p = 0" and fr: "\<exists>b < dk_nblk G. \<not> blk_used G s b"
  shows "\<exists>b s1. balloc (dk_mmc G) (dk_dev G) s = Some (of_nat b, s1) \<and>
    filled G s i p b (upd_inode i (\<lambda>ip. ip\<lparr>d_addrs := (d_addrs ip)(entry_of p := of_nat b)\<rparr>) s1)"
proof -
  have o: "bio_at G Map.empty s" "fs_layout G s" "meta_used G s" using ok by (simp_all add: inode_ok_def)
  obtain b s1 where r: "balloc (dk_mmc G) (dk_dev G) s = Some (of_nat b, s1)" "balloc_done G Map.empty s b s1"
    using balloc_cases [OF o NBUF_room(1)] fr by (auto split: if_splits)
  let ?s = "upd_inode i (\<lambda>ip. ip\<lparr>d_addrs := (d_addrs ip)(entry_of p := of_nat b)\<rparr>) s1"
  have d: "bio_at G Map.empty s1" "bio_rest s s1" "fs_layout G s1" "meta_used G s1" "data_start s \<le> b" "b < dk_nblk G" "\<not> blk_used G s b"
      "\<forall>x < dk_nblk G. blk_used G s1 x = (x = b \<or> blk_used G s x)" "dsk G s1 b = (\<lambda>_. 0)"
      "\<forall>j. j \<noteq> b \<and> (j < unat (sb_bmapstart (sb s)) \<or> data_start s \<le> j) \<longrightarrow> dsk G s1 j = dsk G s j"
    using r(2) by (auto simp: balloc_done_def bio_frame_def)
  note rs = bio_rest_fs [OF d(2)]
  have af: "addr_frame i s ?s" using rs unfolding addr_frame_def by auto
  have "filled G s i p b ?s"
    by (rule filledI [OF ok p(1,3) d(5-7) _ _ _ af]) (use d rs p(2) in simp_all)
  then show ?thesis using r(1) by blast
qed

text \<open>An empty slot in a block of addresses, while the caller holds the buffer of that block.\<close>

lemma cut_put32: "\<forall>k < BSIZE. f k = g k \<Longrightarrow> (\<And>k. \<not> k < BSIZE \<Longrightarrow> g k = 0) \<Longrightarrow> q + 4 \<le> BSIZE \<Longrightarrow> cut (put32 v q f) = put32 v q g"
  by (auto simp: cut_def put32_def put_le_def fun_eq_iff)

lemma entry_fill:
  assumes ok: "inode_ok G s i" and p: "in_file p" "parent_of p = Some q" "fslot G s i q \<noteq> 0"
    and fr: "fslot G s i p = 0 \<Longrightarrow> \<exists>b < dk_nblk G. \<not> blk_used G s b"
  shows "\<exists>bp s1 a s'. bread_now (dk_mmc G) (dk_dev G) (fslot G s i q) s = Some (bp, s1) \<and> bio_rest s s1 \<and>
    bmap_entry (dk_mmc G) (dk_dev G) bp (entry_of p) s1 = Some (a, s') \<and> a \<noteq> 0 \<and>
    (if fslot G s i p = 0 then filled G s i p (unat a) s'
     else a = fslot G s i p \<and> inode_ok G s' i \<and> dsk G s' = dsk G s \<and> bio_rest s s')"
proof -
  let ?S = "fslot G s i" and ?j = "unat (fslot G s i q)"
  have o: "bio_at G Map.empty s" "fs_layout G s" "meta_used G s" "file_ok G s i" using ok by (simp_all add: inode_ok_def)
  have j: "data_start s \<le> ?j" "?j < dk_nblk G" "blk_used G s ?j" using o(4) p(3) by (auto simp: file_ok_def)
  obtain bp s1 where r: "bread_now (dk_mmc G) (dk_dev G) (of_nat ?j) s = Some (bp, s1)" "bio_at G [bp \<mapsto> ?j] s1" "dsk G s1 = dsk G s"
    "\<forall>k < BSIZE. buf_bytes s1 bp k = dsk G s ?j k" "bio_rest s s1"
    using at_read [OF o(1) j(2)] NBUF_room(1) by (auto simp: bio_frame_def)
  note rs = bio_rest_fs [OF r(5)]
  have eb: "4 * entry_of p + 4 \<le> BSIZE" using entry_lt(1) [OF p(1)] p(2) by simp
  have g: "get32 (buf_bytes s1 bp) (4 * entry_of p) = ?S p"
  proof -
    have "?S p = get32 (dsk G s ?j) (4 * entry_of p)" using slot_parent [OF p(1), of "dsk G s" "d_addrs (itable s i)"] p(2,3) by (simp add: fslot_def)
    moreover have "get32 (buf_bytes s1 bp) (4 * entry_of p) = get32 (dsk G s ?j) (4 * entry_of p)"
      by (rule get_cong(2)) (use r(4) eb in auto)
    ultimately show ?thesis by simp
  qed
  have same: "blk_used G s1 = blk_used G s" "data_start s1 = data_start s" by (simp_all add: blk_used_def data_start_def fun_eq_iff r(3) rs)
  have lay1: "fs_layout G s1" "meta_used G s1" using o by (simp_all add: fs_layout_def meta_used_def same rs)
  show ?thesis
  proof (cases "?S p = 0")
    case False
    obtain s2 where s2: "brelse bp s1 = Some s2" "bio_at G Map.empty s2" "dsk G s2 = dsk G s" "bio_rest s s2"
      using at_release [OF r(2), of bp ?j] r(3,4,5) by (auto simp: bio_frame_def intro: bio_rest_trans)
    note rs2 = bio_rest_fs [OF s2(4)]
    have "inode_ok G s2 i" using s2(2,3) rs2 by (intro inode_ok_cong [OF ok]) simp_all
    then show ?thesis using r(1,5) g s2 False
      by (intro exI [of _ bp] exI [of _ s1] exI [of _ "?S p"] exI [of _ s2]) (simp add: bmap_entry_def Let_def)
  next
    case True
    have H1: "blk_used G s1 x \<and> data_start s1 \<le> x" if "x \<in> ran [bp \<mapsto> ?j]" for x using that j by (simp add: same)
    obtain b s2 where b: "balloc (dk_mmc G) (dk_dev G) s1 = Some (of_nat b, s2)" "balloc_done G [bp \<mapsto> ?j] s1 b s2"
      using balloc_cases [OF r(2) lay1 NBUF_room(2) H1] fr [OF True] by (auto simp: same split: if_splits)
    have d: "bio_at G [bp \<mapsto> ?j] s2" "bio_frame {bp} s1 s2" "fs_layout G s2" "meta_used G s2" "data_start s \<le> b" "b < dk_nblk G" "\<not> blk_used G s b"
      "\<forall>x < dk_nblk G. blk_used G s2 x = (x = b \<or> blk_used G s x)" "dsk G s2 b = (\<lambda>_. 0)"
      "\<forall>x. x \<noteq> b \<and> (x < unat (sb_bmapstart (sb s)) \<or> data_start s \<le> x) \<longrightarrow> dsk G s2 x = dsk G s x"
      using b(2) by (auto simp: balloc_done_def same r(3) rs)
    have ub: "unat (of_nat b :: u32) = b" using small_of_nat [OF o(1) d(6)] .
    have b0: "(of_nat b :: u32) \<noteq> 0" using d(5) ub by (auto simp: data_start_def)
    have bj: "b \<noteq> ?j" using d(7) j(3) by blast
    let ?f = "put32 (of_nat b) (4 * entry_of p) (buf_bytes s2 bp)"
    have by2: "buf_bytes s2 bp = buf_bytes s1 bp" using d(2) by (simp add: bio_frame_def)
    have cf: "cut ?f = put32 (of_nat b) (4 * entry_of p) (dsk G s ?j)"
      unfolding by2 by (rule cut_put32 [OF r(4) _ eb]) (simp add: dsk_def)
    note st = at_set [OF d(1), of bp ?j ?f]
    obtain s3 where s3: "bwrite_now (dk_mmc G) bp (set_bytes bp ?f s2) = Some s3" "bio_at G [bp \<mapsto> ?j] s3" "dsk G s3 = (dsk G s2)(?j := cut ?f)"
      "bio_frame {bp} (set_bytes bp ?f s2) s3"
      using at_write [OF st(1), of bp ?j] st(2,3) by auto
    have "buf_bytes s3 bp k = dsk G s3 ?j k" if "k < BSIZE" for k
      using s3(3) bio_frameD(2) [OF s3(4), of bp] st(2) that by (simp add: cut_def)
    then obtain s4 where s4: "brelse bp s3 = Some s4" "bio_at G Map.empty s4" "dsk G s4 = dsk G s3" "bio_frame {} s3 s4"
      using at_release [OF s3(2), of bp ?j] by auto
    have "bio_rest s1 s4"
    proof -
      have "bio_rest s2 (set_bytes bp ?f s2)" using st(4) by (simp add: bio_frame_def)
      then show ?thesis
        using bio_frameD(1) [OF d(2)] bio_frameD(1) [OF s3(4)] bio_frameD(1) [OF s4(4)] by (simp add: bio_rest_def)
    qed
    then have rr: "bio_rest s s4" using r(5) bio_rest_trans by blast
    note rs4 = bio_rest_fs [OF rr]
    have D: "dsk G s4 = (dsk G s2)(?j := put32 (of_nat b) (4 * entry_of p) (dsk G s ?j))" using s4(3) s3(3) cf by simp
    have rs2: "sb s2 = sb s" using bio_rest_fs [OF bio_frameD(1) [OF d(2)]] rs by simp
    have us: "blk_used G s4 x = blk_used G s2 x" if x: "x < dk_nblk G" for x
    proof -
      have "unat (sb_bmapstart (sb s)) + x div BPB \<noteq> ?j" using bmap_block(2) [OF o(1,2) x] j(1) by linarith
      then show ?thesis by (simp add: blk_used_def D rs4 rs2)
    qed
    have "meta_used G s4" "fs_layout G s4"
      using d(3,4) us o(2) by (auto simp: meta_used_def fs_layout_def rs4 rs2 data_start_def)
    then have "filled G s i p b s4"
      using p(3) d us bj by (intro filledI [OF ok p(1) True d(5-7) s4(2) _ _ addr_frame_rest [OF rr]]) (simp_all add: p(2) D rs4)
    moreover have "bmap_entry (dk_mmc G) (dk_dev G) bp (entry_of p) s1 = Some (of_nat b, s4)"
      using b(1) b0 g True s3(1) s4(1) by (simp add: bmap_entry_def Let_def del: bind_Some_iff)
    ultimately show ?thesis using r(1,5) True b0 ub
      by (intro exI [of _ bp] exI [of _ s1] exI [of _ "of_nat b"] exI [of _ s4]) simp
  qed
qed

section \<open>Growing a file\<close>

definition nfree :: "'c disk \<Rightarrow> ('c, 'a) fs_scheme \<Rightarrow> nat" where
  "nfree G s = Finite_Set.card {b. b < dk_nblk G \<and> \<not> blk_used G s b}"

definition is_data :: "slot \<Rightarrow> bool" where
  "is_data p \<longleftrightarrow> (\<exists>n. p = Data n)"

text \<open>
  The file only gets new slots, on blocks that were free; blocks in use keep their bytes, unless they
  are blocks of the file in slots of the kind \<open>P\<close>. With blocks of addresses as that kind:
\<close>

definition growing :: "(slot \<Rightarrow> bool) \<Rightarrow> 'c disk \<Rightarrow> nat \<Rightarrow> ('c, 'a) fs_scheme \<Rightarrow> ('c, 'a) fs_scheme \<Rightarrow> bool" where
  "growing P G i s s' \<longleftrightarrow> inode_ok G s' i \<and> addr_frame i s s' \<and>
     (\<forall>q. fslot G s i q \<noteq> 0 \<longrightarrow> fslot G s' i q = fslot G s i q) \<and>
     (\<forall>q. fslot G s' i q \<noteq> fslot G s i q \<longrightarrow> \<not> blk_used G s (unat (fslot G s' i q))) \<and>
     (\<forall>x < dk_nblk G. blk_used G s x \<longrightarrow> blk_used G s' x) \<and>
     (\<forall>j. (j < unat (sb_bmapstart (sb s)) \<or> data_start s \<le> j \<and> j < dk_nblk G \<and> blk_used G s j) \<and>
        (\<forall>q. P q \<and> fslot G s i q \<noteq> 0 \<longrightarrow> j \<noteq> unat (fslot G s i q)) \<longrightarrow> dsk G s' j = dsk G s j)"

abbreviation grow :: "'c disk \<Rightarrow> nat \<Rightarrow> ('c, 'a) fs_scheme \<Rightarrow> ('c, 'a) fs_scheme \<Rightarrow> bool" where
  "grow \<equiv> growing (\<lambda>q. \<not> is_data q)"

lemma grow_trans:
  assumes a: "growing P G i s t" and b: "growing P G i t u" and ok: "inode_ok G s i"
  shows "growing P G i s u"
proof -
  note A = a [unfolded growing_def] and B = b [unfolded growing_def]
  note fr = addr_frameD [of i s t]
  have sb: "sb t = sb s" "data_start t = data_start s" using A fr by auto
  have rng: "data_start s \<le> unat (fslot G t i q)" if "fslot G t i q \<noteq> 0" for q
    using A that by (auto simp: inode_ok_def file_ok_def sb)
  have lo: "unat (sb_bmapstart (sb s)) < data_start s" by (simp add: data_start_def)
  have kept: "dsk G u j = dsk G s j"
    if j: "j < unat (sb_bmapstart (sb s)) \<or> data_start s \<le> j \<and> j < dk_nblk G \<and> blk_used G s j"
      "\<forall>q. P q \<and> fslot G s i q \<noteq> 0 \<longrightarrow> j \<noteq> unat (fslot G s i q)" for j
  proof -
    have "j \<noteq> unat (fslot G t i q)" if q: "P q" "fslot G t i q \<noteq> 0" for q
    proof (cases "fslot G t i q = fslot G s i q")
      case True
      then show ?thesis using j(2) q by metis
    next
      case False
      then have "\<not> blk_used G s (unat (fslot G t i q))" using A by blast
      then show ?thesis using j(1) rng [OF q(2)] lo by auto
    qed
    moreover have "j < unat (sb_bmapstart (sb t)) \<or> data_start t \<le> j \<and> j < dk_nblk G \<and> blk_used G t j" using j(1) A sb by auto
    ultimately have "dsk G u j = dsk G t j" using B by blast
    then show ?thesis using A j by metis
  qed
  have new: "\<not> blk_used G s (unat (fslot G u i q))" if q: "fslot G u i q \<noteq> fslot G s i q" for q
  proof (cases "fslot G u i q = fslot G t i q")
    case True
    then show ?thesis using A q by metis
  next
    case False
    then have n: "\<not> blk_used G t (unat (fslot G u i q))" using B by blast
    have "fslot G u i q \<noteq> 0" using B False by (metis (mono_tags, lifting) A q)
    then have "unat (fslot G u i q) < dk_nblk G" using B by (auto simp: inode_ok_def file_ok_def)
    then show ?thesis using A n by blast
  qed
  have "addr_frame i s u" using A B addr_frame_trans by blast
  moreover have "\<forall>q. fslot G s i q \<noteq> 0 \<longrightarrow> fslot G u i q = fslot G s i q" using A B by metis
  moreover have "inode_ok G u i" "\<forall>x < dk_nblk G. blk_used G s x \<longrightarrow> blk_used G u x" using A B by blast+
  ultimately show ?thesis unfolding growing_def using kept new by blast
qed

lemma filled_grow:
  assumes f: "filled G s i p b s'" and ok: "inode_ok G s i" and z: "fslot G s i p = 0"
    and pq: "\<And>q. parent_of p = Some q \<Longrightarrow> fslot G s i q \<noteq> 0"
  shows "grow G i s s'" "fslot G s' i p = of_nat b" "q \<noteq> p \<Longrightarrow> fslot G s' i q = fslot G s i q" "nfree G s = Suc (nfree G s')" "unat (of_nat b :: u32) = b"
    "of_nat b \<noteq> (0 :: u32)"
proof -
  note F = f [unfolded filled_def]
  have at: "bio_at G Map.empty s" using ok by (simp add: inode_ok_def)
  show ub: "unat (of_nat b :: u32) = b" using small_of_nat [OF at] F by blast
  then show "of_nat b \<noteq> (0 :: u32)" using F by (auto simp: data_start_def)
  show "fslot G s' i p = of_nat b" "q \<noteq> p \<Longrightarrow> fslot G s' i q = fslot G s i q" using F by simp_all
  have nd: "\<not> is_data q" if "parent_of p = Some q" for q using that by (cases p) (auto simp: is_data_def split: if_splits)
  have kept: "dsk G s' j = dsk G s j"
    if j: "j < unat (sb_bmapstart (sb s)) \<or> data_start s \<le> j \<and> j < dk_nblk G \<and> blk_used G s j"
      "\<forall>q. \<not> is_data q \<and> fslot G s i q \<noteq> 0 \<longrightarrow> j \<noteq> unat (fslot G s i q)" for j
  proof -
    have "j \<noteq> b" using j(1) F by (auto simp: data_start_def)
    moreover have "\<forall>q. parent_of p = Some q \<longrightarrow> j \<noteq> unat (fslot G s i q)" using j(2) pq nd by blast
    ultimately show ?thesis using F j(1) by blast
  qed
  have new: "\<not> blk_used G s (unat (fslot G s' i q))" if "fslot G s' i q \<noteq> fslot G s i q" for q
    using F that ub by (auto split: if_splits)
  have old: "fslot G s' i q = fslot G s i q" if "fslot G s i q \<noteq> 0" for q using F that z by (auto split: if_splits)
  have "inode_ok G s' i" "addr_frame i s s'" "\<forall>x < dk_nblk G. blk_used G s x \<longrightarrow> blk_used G s' x" using F by blast+
  then show "grow G i s s'" unfolding growing_def using kept new old by blast
  have "{x. x < dk_nblk G \<and> \<not> blk_used G s x} = insert b {x. x < dk_nblk G \<and> \<not> blk_used G s' x}" using F by auto
  moreover have "b \<notin> {x. x < dk_nblk G \<and> \<not> blk_used G s' x}" using F by auto
  ultimately show "nfree G s = Suc (nfree G s')" by (simp add: nfree_def)
qed

lemma nfree_pos: "0 < nfree G s \<Longrightarrow> \<exists>b < dk_nblk G. \<not> blk_used G s b"
  unfolding nfree_def by (metis (mono_tags, lifting) card.empty empty_Collect_eq less_irrefl)

lemma grow_same: "inode_ok G s' i \<Longrightarrow> dsk G s' = dsk G s \<Longrightarrow> bio_rest s s' \<Longrightarrow> grow G i s s' \<and> fslot G s' i = fslot G s i \<and> nfree G s' = nfree G s"
proof -
  assume a: "inode_ok G s' i" "dsk G s' = dsk G s" "bio_rest s s'"
  note r = bio_rest_fs [OF a(3)]
  have "blk_used G s' = blk_used G s" "fslot G s' i = fslot G s i" by (simp_all add: blk_used_def fslot_def fun_eq_iff r a(2))
  then show ?thesis using a addr_frame_rest [OF a(3)] by (simp add: growing_def nfree_def)
qed

text \<open>One level of \<^verbatim>\<open>bmap\<close>: slot \<open>p\<close> is there afterwards, no other slot changed.\<close>

definition level :: "'c disk \<Rightarrow> nat \<Rightarrow> slot \<Rightarrow> ('c, 'a) fs_scheme \<Rightarrow> ('c, 'a) fs_scheme \<Rightarrow> bool" where
  "level G i p s s' \<longleftrightarrow> grow G i s s' \<and> fslot G s' i p \<noteq> 0 \<and> (\<forall>q. q \<noteq> p \<longrightarrow> fslot G s' i q = fslot G s i q) \<and> nfree G s \<le> Suc (nfree G s') \<and>
     (fslot G s i p = 0 \<longrightarrow> dsk G s' (unat (fslot G s' i p)) = (\<lambda>_. 0)) \<and>
     (fslot G s i p \<noteq> 0 \<longrightarrow> dsk G s' = dsk G s \<and> nfree G s' = nfree G s \<and> bio_rest s s')"

lemma level_filled:
  assumes "filled G s i p b s'" "inode_ok G s i" "fslot G s i p = 0" "\<And>q. parent_of p = Some q \<Longrightarrow> fslot G s i q \<noteq> 0"
  shows "level G i p s s' \<and> fslot G s' i p = of_nat b"
  using filled_grow [OF assms] assms(1,3) by (simp add: level_def filled_def)

lemma level_same: "inode_ok G s' i \<Longrightarrow> dsk G s' = dsk G s \<Longrightarrow> bio_rest s s' \<Longrightarrow> fslot G s i p \<noteq> 0 \<Longrightarrow> level G i p s s' \<and> fslot G s' i p = fslot G s i p"
  using grow_same [of G s' i s] by (simp add: level_def)

lemma root_level:
  assumes ok: "inode_ok G s i" and p: "p = Ind \<or> p = Dbl" and fr: "fslot G s i p = 0 \<Longrightarrow> 0 < nfree G s"
  shows "\<exists>s'. bmap_root (dk_mmc G) i (entry_of p) s = Some (fslot G s' i p, s') \<and> level G i p s s'"
proof -
  have pf: "in_file p" "parent_of p = None" using p by (auto simp: in_file_def)
  have e: "d_addrs (itable s i) (entry_of p) = fslot G s i p" using p by (auto simp: fslot_def)
  have dv: "i_dev (itable s i) = dk_dev G" using ok by (simp add: inode_ok_def)
  show ?thesis
  proof (cases "fslot G s i p = 0")
    case False
    then show ?thesis using level_same [OF ok refl bio_rest_refl False] e by (auto simp: bmap_root_def)
  next
    case True
    obtain b s1 where b: "balloc (dk_mmc G) (dk_dev G) s = Some (of_nat b, s1)"
      "filled G s i p b (upd_inode i (\<lambda>ip. ip\<lparr>d_addrs := (d_addrs ip)(entry_of p := of_nat b)\<rparr>) s1)"
      using root_fill [OF ok pf True nfree_pos [OF fr [OF True]]] by blast
    note l = level_filled [OF b(2) ok True] filled_grow(6) [OF b(2) ok True]
    show ?thesis using b(1) l pf(2) e True dv by (auto simp: bmap_root_def)
  qed
qed

lemma entry_level:
  assumes ok: "inode_ok G s i" and p: "in_file p" "parent_of p = Some q" "fslot G s i q \<noteq> 0"
    and fr: "fslot G s i p = 0 \<Longrightarrow> 0 < nfree G s"
  shows "\<exists>bp s1 s'. bread_now (dk_mmc G) (dk_dev G) (fslot G s i q) s = Some (bp, s1) \<and> itable s1 = itable s \<and>
    bmap_entry (dk_mmc G) (dk_dev G) bp (entry_of p) s1 = Some (fslot G s' i p, s') \<and> level G i p s s'"
proof -
  obtain bp s1 a s' where r: "bread_now (dk_mmc G) (dk_dev G) (fslot G s i q) s = Some (bp, s1)" "bio_rest s s1"
    "bmap_entry (dk_mmc G) (dk_dev G) bp (entry_of p) s1 = Some (a, s')" "a \<noteq> 0"
    "if fslot G s i p = 0 then filled G s i p (unat a) s' else a = fslot G s i p \<and> inode_ok G s' i \<and> dsk G s' = dsk G s \<and> bio_rest s s'"
    using entry_fill [OF ok p] nfree_pos fr by blast
  have "level G i p s s' \<and> fslot G s' i p = a"
  proof (cases "fslot G s i p = 0")
    case True
    then show ?thesis using level_filled [of G s i p "unat a" s'] ok p r(5) by simp
  next
    case False
    then show ?thesis using level_same [of G s' i s p] r(5) by simp
  qed
  then show ?thesis using r bio_rest_fs [OF r(2)] by (intro exI [of _ bp] exI [of _ s1] exI [of _ s']) simp
qed

definition bmap_post :: "'c disk \<Rightarrow> nat \<Rightarrow> nat \<Rightarrow> ('c, 'a) fs_scheme \<Rightarrow> ('c, 'a) fs_scheme \<Rightarrow> bool" where
  "bmap_post G i n s s' \<longleftrightarrow> grow G i s s' \<and> fslot G s' i (Data n) \<noteq> 0 \<and> (\<forall>m. m \<noteq> n \<longrightarrow> fslot G s' i (Data m) = fslot G s i (Data m)) \<and>
     nfree G s \<le> nfree G s' + 3 \<and>
     (fslot G s i (Data n) = 0 \<longrightarrow> dsk G s' (unat (fslot G s' i (Data n))) = (\<lambda>_. 0)) \<and>
     (fslot G s i (Data n) \<noteq> 0 \<longrightarrow> fslot G s' i = fslot G s i \<and> dsk G s' = dsk G s \<and> nfree G s' = nfree G s \<and> bio_rest s s')"

lemma levelD:
  assumes "level G i p s s'"
  shows "grow G i s s'" "inode_ok G s' i" "fslot G s' i p \<noteq> 0" "q \<noteq> p \<Longrightarrow> fslot G s' i q = fslot G s i q" "nfree G s \<le> Suc (nfree G s')"
    "i_dev (itable s' i) = i_dev (itable s i)" "fslot G s i p \<noteq> 0 \<Longrightarrow> fslot G s' i = fslot G s i \<and> dsk G s' = dsk G s \<and> nfree G s' = nfree G s \<and> bio_rest s s'"
    "fslot G s i p = 0 \<Longrightarrow> dsk G s' (unat (fslot G s' i p)) = (\<lambda>_. 0)"
proof -
  have g: "grow G i s s'" using assms by (simp add: level_def)
  show "i_dev (itable s' i) = i_dev (itable s i)" using g addr_frameD(4) by (auto simp: growing_def)
  show "fslot G s i p \<noteq> 0 \<Longrightarrow> fslot G s' i = fslot G s i \<and> dsk G s' = dsk G s \<and> nfree G s' = nfree G s \<and> bio_rest s s'"
    using assms bio_rest_fs [of s s'] by (auto simp: level_def fslot_def)
qed (use assms in \<open>auto simp: level_def growing_def\<close>)

lemma level_last:
  assumes l: "level G i (Data n) t s'" and g: "grow G i s t" and ok: "inode_ok G s i"
    and same: "\<And>m. fslot G t i (Data m) = fslot G s i (Data m)" and f: "nfree G s \<le> nfree G t + 2"
    and old: "fslot G s i (Data n) \<noteq> 0 \<Longrightarrow> fslot G t i = fslot G s i \<and> dsk G t = dsk G s \<and> nfree G t = nfree G s \<and> bio_rest s t"
  shows "bmap_post G i n s s'"
  unfolding bmap_post_def
proof (intro conjI allI impI)
  show "grow G i s s'" by (rule grow_trans [OF g levelD(1) [OF l] ok])
  show "fslot G s' i (Data n) \<noteq> 0" by (rule levelD(3) [OF l])
  show "fslot G s' i (Data m) = fslot G s i (Data m)" if "m \<noteq> n" for m using levelD(4) [OF l, of "Data m"] same that by simp
  show "nfree G s \<le> nfree G s' + 3" using f levelD(5) [OF l] by linarith
  show "dsk G s' (unat (fslot G s' i (Data n))) = (\<lambda>_. 0)" if "fslot G s i (Data n) = 0" using levelD(8) [OF l] same that by simp
  assume nz: "fslot G s i (Data n) \<noteq> 0"
  have e: "fslot G s' i = fslot G t i" "dsk G s' = dsk G t" "nfree G s' = nfree G t" "bio_rest t s'" using levelD(7) [OF l] same nz by auto
  show "fslot G s' i = fslot G s i" "dsk G s' = dsk G s" "nfree G s' = nfree G s" "bio_rest s s'"
    using e old [OF nz] bio_rest_trans by auto
qed

lemma bmap_spec:
  assumes ok: "inode_ok G s i" and n: "n < MAXFILE" and fr: "fslot G s i (Data n) = 0 \<Longrightarrow> 3 \<le> nfree G s"
  shows "\<exists>s'. bmap (dk_mmc G) i n s = Some (fslot G s' i (Data n), s') \<and> bmap_post G i n s s'"
proof -
  have dv: "i_dev (itable s i) = dk_dev G" using ok by (simp add: inode_ok_def)
  have pn: "in_file (Data n)" using n by (simp add: in_file_def)
  note sp = slot_parent [OF pn, of "dsk G s" "d_addrs (itable s i)", folded fslot_def]
  have gr: "grow G i s s" using ok by (simp add: growing_def)
  consider (direct) "n < NDIRECT" | (single) "\<not> n < NDIRECT" "n - NDIRECT < NINDIRECT" | (double) "\<not> n < NDIRECT" "\<not> n - NDIRECT < NINDIRECT" by blast
  then show ?thesis
  proof cases
    case direct
    have e: "d_addrs (itable s i) n = fslot G s i (Data n)" using direct by (simp add: fslot_def)
    have pa: "parent_of (Data n) = None" "entry_of (Data n) = n" using direct by simp_all
    show ?thesis
    proof (cases "fslot G s i (Data n) = 0")
      case False
      then have "level G i (Data n) s s" using level_same [OF ok refl bio_rest_refl] by blast
      then have "bmap_post G i n s s" by (rule level_last [OF _ gr ok]) simp_all
      then show ?thesis using e direct False by (auto simp: bmap_def)
    next
      case True
      obtain b s1 where b: "balloc (dk_mmc G) (dk_dev G) s = Some (of_nat b, s1)"
        "filled G s i (Data n) b (upd_inode i (\<lambda>ip. ip\<lparr>d_addrs := (d_addrs ip)(entry_of (Data n) := of_nat b)\<rparr>) s1)"
        using root_fill [OF ok pn pa(1) True nfree_pos] fr [OF True] by fastforce
      let ?s = "upd_inode i (\<lambda>ip. ip\<lparr>d_addrs := (d_addrs ip)(entry_of (Data n) := of_nat b)\<rparr>) s1"
      have l: "level G i (Data n) s ?s" "fslot G ?s i (Data n) = of_nat b" using level_filled [OF b(2) ok True] pa(1) by simp_all
      have "bmap_post G i n s ?s" by (rule level_last [OF l(1) gr ok]) (use True in simp_all)
      moreover have "bmap (dk_mmc G) i n s = Some (fslot G ?s i (Data n), ?s)"
        using b(1) e True dv direct unfolding l(2) by (simp add: bmap_def pa(2))
      ultimately show ?thesis by blast
    qed
  next
    case single
    have pa: "parent_of (Data n) = Some Ind" "entry_of (Data n) = n - NDIRECT" "entry_of Ind = NDIRECT" using single by simp_all
    have up: "fslot G s i (Data n) \<noteq> 0 \<Longrightarrow> fslot G s i Ind \<noteq> 0" using sp pa(1) by (auto split: if_splits)
    obtain t where t: "bmap_root (dk_mmc G) i NDIRECT s = Some (fslot G t i Ind, t)" "level G i Ind s t"
      using root_level [OF ok, of Ind] fr up by fastforce
    note T = levelD [OF t(2)]
    have f1: "fslot G t i (Data n) = fslot G s i (Data n)" using T(4) by simp
    have "fslot G t i (Data n) = 0 \<Longrightarrow> 0 < nfree G t" using f1 fr T(5) by force
    then obtain bp s1 s' where r: "bread_now (dk_mmc G) (dk_dev G) (fslot G t i Ind) t = Some (bp, s1)" "itable s1 = itable t"
      "bmap_entry (dk_mmc G) (dk_dev G) bp (entry_of (Data n)) s1 = Some (fslot G s' i (Data n), s')" "level G i (Data n) t s'"
      using entry_level [OF T(2) pn pa(1) T(3)] by blast
    have "bmap_post G i n s s'"
      by (rule level_last [OF r(4) T(1) ok]) (use T(4) T(5) T(7) up in auto)
    moreover have "bmap (dk_mmc G) i n s = Some (fslot G s' i (Data n), s')"
      using t(1) r T(3,6) dv single by (simp add: bmap_def pa(2) del: bind_Some_iff)
    ultimately show ?thesis by blast
  next
    case double
    define x where "x = n - NDIRECT - NINDIRECT"
    let ?k = "x div NINDIRECT"
    have kx: "?k < NINDIRECT" using n double unfolding x_def N_eq by linarith
    have x2: "x < NINDIRECT2" using n double unfolding x_def N_eq by linarith
    have pa: "parent_of (Data n) = Some (DInd ?k)" "entry_of (Data n) = x mod NINDIRECT" "entry_of Dbl = NDIRECT + 1"
      "parent_of (DInd ?k) = Some Dbl" "entry_of (DInd ?k) = ?k" "in_file (DInd ?k)"
      using double kx by (simp_all add: x_def in_file_def)
    have up1: "fslot G s i (Data n) \<noteq> 0 \<Longrightarrow> fslot G s i (DInd ?k) \<noteq> 0" using sp pa(1) by (auto split: if_splits)
    have up2: "fslot G s i (DInd ?k) \<noteq> 0 \<Longrightarrow> fslot G s i Dbl \<noteq> 0"
      using slot_parent [OF pa(6), of "dsk G s" "d_addrs (itable s i)", folded fslot_def] pa(4) by (auto split: if_splits)
    obtain t where t: "bmap_root (dk_mmc G) i (NDIRECT + 1) s = Some (fslot G t i Dbl, t)" "level G i Dbl s t"
      using root_level [OF ok, of Dbl] fr up1 up2 by fastforce
    note T = levelD [OF t(2)]
    have ft: "fslot G t i (Data n) = fslot G s i (Data n)" "fslot G t i (DInd ?k) = fslot G s i (DInd ?k)" using T(4) by simp_all
    have "fslot G t i (DInd ?k) = 0 \<Longrightarrow> 0 < nfree G t" using ft fr T(5) up1 by force
    then obtain bp s1 u where r: "bread_now (dk_mmc G) (dk_dev G) (fslot G t i Dbl) t = Some (bp, s1)" "itable s1 = itable t"
      "bmap_entry (dk_mmc G) (dk_dev G) bp (entry_of (DInd ?k)) s1 = Some (fslot G u i (DInd ?k), u)" "level G i (DInd ?k) t u"
      using entry_level [OF T(2) pa(6,4) T(3)] by blast
    note U = levelD [OF r(4)]
    have fu: "fslot G u i (Data m) = fslot G s i (Data m)" for m using U(4) [of "Data m"] T(4) [of "Data m"] by simp
    have "fslot G u i (Data n) = 0 \<Longrightarrow> 0 < nfree G u" using fu [of n] fr T(5) U(5) by force
    then obtain bq s2 s' where w: "bread_now (dk_mmc G) (dk_dev G) (fslot G u i (DInd ?k)) u = Some (bq, s2)" "itable s2 = itable u"
      "bmap_entry (dk_mmc G) (dk_dev G) bq (entry_of (Data n)) s2 = Some (fslot G s' i (Data n), s')" "level G i (Data n) u s'"
      using entry_level [OF U(2) pn pa(1) U(3)] by blast
    have "bmap_post G i n s s'"
    proof (rule level_last [OF w(4) grow_trans [OF T(1) U(1) ok] ok fu])
      show "nfree G s \<le> nfree G u + 2" using T(5) U(5) by linarith
      assume "fslot G s i (Data n) \<noteq> 0"
      then show "fslot G u i = fslot G s i \<and> dsk G u = dsk G s \<and> nfree G u = nfree G s \<and> bio_rest s u"
        using T(7) U(7) up1 up2 ft(2) bio_rest_trans by metis
    qed
    moreover have "bmap (dk_mmc G) i n s = Some (fslot G s' i (Data n), s')"
      unfolding bmap_def x_def [symmetric] Let_def
      using t(1) r(1,2) r(3) [unfolded pa(5)] w(1,2) w(3) [unfolded pa(2)] T(3,6) U(3,6) dv double x2 by (simp del: bind_Some_iff)
    ultimately show ?thesis by blast
  qed
qed

end
