(* ===== verification/Fs_File.thy ===== *)
theory Fs_File
  imports Fs_Inode
begin

text \<open>
  Reading and writing files: \<^verbatim>\<open>readi\<close> and \<^verbatim>\<open>writei\<close> against the file as a function \<open>fbyte G s i\<close> from
  offsets to bytes, in which a block that is not there reads as zeros.
\<close>

definition fbyte :: "'c disk \<Rightarrow> ('c, 'a) fs_scheme \<Rightarrow> nat \<Rightarrow> nat \<Rightarrow> u8" where
  "fbyte G s i p = (let a = fslot G s i (Data (p div BSIZE)) in if a = 0 then 0 else dsk G s (unat a) (p mod BSIZE))"

definition mapped :: "'c disk \<Rightarrow> ('c, 'a) fs_scheme \<Rightarrow> nat \<Rightarrow> nat \<Rightarrow> nat \<Rightarrow> bool" where
  "mapped G s i off n \<longleftrightarrow> (\<forall>p. off \<le> p \<and> p < off + n \<longrightarrow> fslot G s i (Data (p div BSIZE)) \<noteq> 0)"

section \<open>Reading\<close>

lemma chunk_in_block:
  fixes off m n :: nat
  defines "m \<equiv> min n (BSIZE - off mod BSIZE)"
  shows "off mod BSIZE + m \<le> BSIZE" "0 < n \<Longrightarrow> 0 < m" "m \<le> n" "p < m \<Longrightarrow> (off + p) div BSIZE = off div BSIZE"
    "p < m \<Longrightarrow> (off + p) mod BSIZE = off mod BSIZE + p" "m < n \<Longrightarrow> (off + m) div BSIZE = Suc (off div BSIZE)"
proof -
  have B: "0 < BSIZE" by (simp add: BSIZE_def)
  have lt: "off mod BSIZE < BSIZE" using B by simp
  show 1: "off mod BSIZE + m \<le> BSIZE" using lt by (simp add: m_def)
  show "0 < n \<Longrightarrow> 0 < m" "m \<le> n" using lt by (simp_all add: m_def)
  have e: "off + p = (off mod BSIZE + p) + off div BSIZE * BSIZE" for p by (metis add.assoc add.commute div_mult_mod_eq)
  show "p < m \<Longrightarrow> (off + p) div BSIZE = off div BSIZE" "p < m \<Longrightarrow> (off + p) mod BSIZE = off mod BSIZE + p"
    unfolding e [of p] div_mult_self1 [OF less_imp_neq [OF B, symmetric]] mod_mult_self1 using 1 by simp_all
  assume "m < n"
  then have "off mod BSIZE + m = BSIZE" using lt by (simp add: m_def)
  then show "(off + m) div BSIZE = Suc (off div BSIZE)"
    unfolding e [of m] div_mult_self1 [OF less_imp_neq [OF B, symmetric]] using B by simp
qed

lemma takeWhile_upt_append:
  "a \<le> b \<Longrightarrow> b \<le> c \<Longrightarrow> takeWhile P [a..<c] = (if list_all P [a..<b] then [a..<b] @ takeWhile P [b..<c] else takeWhile P [a..<b])"
proof -
  assume "a \<le> b" "b \<le> c"
  then have "[a..<c] = [a..<b] @ [b..<c]" using upt_add_eq_append [of a b "c - b"] by simp
  then show ?thesis by (simp only: takeWhile_append list_all_iff)
qed

lemma readi_loop_spec:
  assumes "inode_ok G s i" "mapped G s i off (n - tot)" "off + (n - tot) \<le> MAXFILE * BSIZE" "tot \<le> n"
  shows "\<exists>s'. readi_loop (dk_mmc G) i dst off n tot out s =
      Some (if list_all dst [tot..<n] then ret32 n else -1,
            out @ map (\<lambda>k. fbyte G s i (off + k)) [0..<length (takeWhile dst [tot..<n])], s') \<and>
    inode_ok G s' i \<and> dsk G s' = dsk G s \<and> bio_rest s s'"
  using assms
proof (induction "n - tot" arbitrary: tot off out s rule: less_induct)
  case less
  let ?M = "dk_mmc G"
  show ?case
  proof (cases "tot < n")
    case False
    then show ?thesis using less.prems by (subst readi_loop.simps) simp
  next
    case True
    define m where "m = min (n - tot) (BSIZE - off mod BSIZE)"
    note cb = chunk_in_block [where off = off and n = "n - tot", folded m_def]
    have m: "0 < m" "m \<le> n - tot" using cb(2,3) True by simp_all
    have nz: "fslot G s i (Data (off div BSIZE)) \<noteq> 0" using less.prems(2) True by (auto simp: mapped_def)
    have "off div BSIZE < MAXFILE" using less.prems(3) True by (simp add: div_less_iff_less_mult BSIZE_def)
    then obtain t where t: "bmap ?M i (off div BSIZE) s = Some (fslot G t i (Data (off div BSIZE)), t)" "bmap_post G i (off div BSIZE) s t"
      using bmap_spec [OF less.prems(1)] nz by blast
    have T: "fslot G t i = fslot G s i" "dsk G t = dsk G s" "bio_rest s t" "inode_ok G t i" using t(2) nz by (auto simp: bmap_post_def growing_def)
    define j where "j = unat (fslot G s i (Data (off div BSIZE)))"
    have j: "j < dk_nblk G" using less.prems(1) nz by (auto simp: inode_ok_def file_ok_def j_def)
    have oj: "of_nat j = fslot G s i (Data (off div BSIZE))" by (simp add: j_def)
    have at: "bio_at G Map.empty t" and dv: "i_dev (itable t i) = dk_dev G" using T(4) by (simp_all add: inode_ok_def)
    obtain bp s1 s2 where r: "bread_now ?M (dk_dev G) (of_nat j) t = Some (bp, s1)" "\<forall>k < BSIZE. buf_bytes s1 bp k = dsk G s j k" "bio_rest t s1"
      "brelse bp s1 = Some s2" "bio_at G Map.empty s2" "dsk G s2 = dsk G s" "bio_frame {} t s2"
      using at_peek [OF at j _ NBUF_room(1)] T(2) by auto
    have r2: "bio_rest s s2" using T(3) bio_frameD(1) [OF r(7)] bio_rest_trans by blast
    note rs2 = bio_rest_fs [OF r2]
    have ok2: "inode_ok G s2 i" using r(5,6) rs2 by (intro inode_ok_cong [OF less.prems(1)]) simp_all
    have fs2: "fslot G s2 i = fslot G s i" by (simp only: fslot_def r(6) rs2)
    have fb2: "fbyte G s2 i = fbyte G s i" by (rule ext) (simp only: fbyte_def fs2 r(6))
    have chunk: "map (buf_bytes s1 bp) [off mod BSIZE..<off mod BSIZE + m] = map (\<lambda>k. fbyte G s i (off + k)) [0..<m]"
    proof (rule nth_equalityI)
      fix k assume k: "k < length (map (buf_bytes s1 bp) [off mod BSIZE..<off mod BSIZE + m])"
      then have km: "k < m" by simp
      have "fbyte G s i (off + k) = dsk G s j (off mod BSIZE + k)"
        using cb(4,5) [OF km] nz by (simp add: fbyte_def j_def)
      then show "map (buf_bytes s1 bp) [off mod BSIZE..<off mod BSIZE + m] ! k = map (\<lambda>k. fbyte G s i (off + k)) [0..<m] ! k"
        using km r(2) cb(1) by simp
    qed simp
    have i1: "itable s1 = itable t" using bio_rest_fs [OF r(3)] by simp
    have step: "readi_loop ?M i dst off n tot out s =
      (if \<not> list_all dst [tot..<tot + m]
       then Some (-1, out @ take (length (takeWhile dst [tot..<tot + m])) (map (\<lambda>k. fbyte G s i (off + k)) [0..<m]), s2)
       else readi_loop ?M i dst (off + m) n (tot + m) (out @ map (\<lambda>k. fbyte G s i (off + k)) [0..<m]) s2)"
      using True t(1) T(1) nz r(1,4) dv oj chunk
      by (subst readi_loop.simps) (simp add: m_def [symmetric] Let_def del: bind_Some_iff)
    have tw: "takeWhile dst [tot..<n] = (if list_all dst [tot..<tot + m] then [tot..<tot + m] @ takeWhile dst [tot + m..<n] else takeWhile dst [tot..<tot + m])"
      by (rule takeWhile_upt_append) (use m in auto)
    have up: "[tot..<n] = [tot..<tot + m] @ [tot + m..<n]" using upt_add_eq_append [of tot "tot + m" "n - (tot + m)"] m True by simp
    show ?thesis
    proof (cases "list_all dst [tot..<tot + m]")
      case False
      have "length (takeWhile dst [tot..<tot + m]) \<le> m" using length_takeWhile_le [of dst "[tot..<tot + m]"] by simp
      then have "take (length (takeWhile dst [tot..<tot + m])) (map (\<lambda>k. fbyte G s i (off + k)) [0..<m]) =
        map (\<lambda>k. fbyte G s i (off + k)) [0..<length (takeWhile dst [tot..<tot + m])]" by (simp add: take_map)
      then show ?thesis using step False tw up ok2 r(6) r2 by simp
    next
      case all: True
      have "mapped G s2 i (off + m) (n - (tot + m))" using less.prems(2) m by (auto simp: mapped_def fs2)
      moreover have "off + m + (n - (tot + m)) \<le> MAXFILE * BSIZE" "tot + m \<le> n" "n - (tot + m) < n - tot" using less.prems(3) m True by auto
      ultimately obtain s' where IH: "readi_loop ?M i dst (off + m) n (tot + m) (out @ map (\<lambda>k. fbyte G s i (off + k)) [0..<m]) s2 =
          Some (if list_all dst [tot + m..<n] then ret32 n else -1,
            (out @ map (\<lambda>k. fbyte G s i (off + k)) [0..<m]) @ map (\<lambda>k. fbyte G s2 i (off + m + k)) [0..<length (takeWhile dst [tot + m..<n])], s')"
        "inode_ok G s' i" "dsk G s' = dsk G s2" "bio_rest s2 s'"
        using less.hyps [of "tot + m" s2 "off + m" "out @ map (\<lambda>k. fbyte G s i (off + k)) [0..<m]"] ok2 by blast
      have "map (\<lambda>k. fbyte G s i (off + k)) [0..<m] @ map (\<lambda>k. fbyte G s2 i (off + m + k)) [0..<l] = map (\<lambda>k. fbyte G s i (off + k)) [0..<m + l]" for l
        by (rule nth_equalityI) (auto simp: nth_append fb2)
      then show ?thesis using step all IH tw up r(6) bio_rest_trans [OF r2] by (simp add: list_all_append)
    qed
  qed
qed

section \<open>Writing\<close>

lemma grow_any: "grow G i s s' \<Longrightarrow> growing (\<lambda>_. True) G i s s'"
  unfolding growing_def by blast

lemma growing_nfree_refl: "inode_ok G s i \<Longrightarrow> growing P G i s s"
  by (simp add: growing_def)

lemma fslot_cong:
  assumes D: "\<And>q. \<not> is_data q \<Longrightarrow> fslot G s i q \<noteq> 0 \<Longrightarrow> dsk G s' (unat (fslot G s i q)) = dsk G s (unat (fslot G s i q))"
    and a: "d_addrs (itable s' i) = d_addrs (itable s i)"
  shows "fslot G s' i = fslot G s i"
proof (rule ext)
  fix r
  have up: "fslot G s' i r = fslot G s i r" if r: "in_file r" and q: "\<And>q. parent_of r = Some q \<Longrightarrow> fslot G s' i q = fslot G s i q" for r
  proof -
    have nd: "\<not> is_data q" if "parent_of r = Some q" for q using that by (cases r) (auto simp: is_data_def split: if_splits)
    show ?thesis
      using slot_parent [OF r, of "dsk G s'" "d_addrs (itable s' i)", folded fslot_def]
        slot_parent [OF r, of "dsk G s" "d_addrs (itable s i)", folded fslot_def] q D nd
      by (cases "parent_of r") (auto simp: a)
  qed
  have dbl: "fslot G s' i Dbl = fslot G s i Dbl" by (rule up) (simp_all add: in_file_def)
  show "fslot G s' i r = fslot G s i r"
  proof (cases "in_file r")
    case True
    show ?thesis
    proof (rule up [OF True])
      fix q assume q: "parent_of r = Some q"
      note pq = parent_in_file [OF True q]
      show "fslot G s' i q = fslot G s i q" by (rule up) (use pq dbl in auto)
    qed
  next
    case False
    then show ?thesis unfolding fslot_def by (simp add: slot_out)
  qed
qed

text \<open>Overwriting part of a data block of the file.\<close>

lemma write_data:
  assumes ok: "inode_ok G s i" and nz: "fslot G s i (Data n) \<noteq> 0" and s': "bio_at G Map.empty s'" "bio_rest s s'"
    and D: "dsk G s' = (dsk G s)(unat (fslot G s i (Data n)) := f)"
  shows "growing (\<lambda>_. True) G i s s'" "fslot G s' i = fslot G s i" "nfree G s' = nfree G s"
    "fbyte G s' i p = (if p div BSIZE = n then f (p mod BSIZE) else fbyte G s i p)"
proof -
  let ?j = "unat (fslot G s i (Data n))"
  note rs = bio_rest_fs [OF s'(2)]
  have o: "bio_at G Map.empty s" "fs_layout G s" "meta_used G s" "file_ok G s i" using ok by (simp_all add: inode_ok_def)
  have j: "data_start s \<le> ?j" "?j < dk_nblk G" "blk_used G s ?j" using o(4) nz by (auto simp: file_ok_def)
  have other: "dsk G s' (unat (fslot G s i q)) = dsk G s (unat (fslot G s i q))" if "q \<noteq> Data n" "fslot G s i q \<noteq> 0" for q
  proof -
    have "fslot G s i q \<noteq> fslot G s i (Data n)" using o(4) that unfolding file_ok_def by blast
    then have "unat (fslot G s i q) \<noteq> ?j" by (metis unsigned_word_eqI)
    then show ?thesis by (simp add: D)
  qed
  show sl: "fslot G s' i = fslot G s i" by (rule fslot_cong) (use other rs in \<open>auto simp: is_data_def\<close>)
  have us: "blk_used G s' x = blk_used G s x" if x: "x < dk_nblk G" for x
  proof -
    have "unat (sb_bmapstart (sb s)) + x div BPB \<noteq> ?j" using bmap_block(2) [OF o(1,2) x] j(1) by linarith
    then show ?thesis by (simp add: blk_used_def D rs)
  qed
  have ds: "data_start s' = data_start s" by (simp add: data_start_def rs)
  have fo: "file_ok G s' i" using o(4) us unfolding file_ok_def sl ds by blast
  have lay: "fs_layout G s'" "meta_used G s'" using o(2,3) us by (auto simp: fs_layout_def meta_used_def ds rs)
  have "inode_ok G s' i" using ok fo lay s'(1) by (simp add: inode_ok_def rs)
  moreover have "dsk G s' x = dsk G s x" if "\<forall>q. fslot G s i q \<noteq> 0 \<longrightarrow> x \<noteq> unat (fslot G s i q)" for x using that nz by (auto simp: D)
  ultimately show "growing (\<lambda>_. True) G i s s'" using us addr_frame_rest [OF s'(2)] by (auto simp: growing_def sl)
  show "nfree G s' = nfree G s" using us by (auto simp: nfree_def intro!: arg_cong [where f = Finite_Set.card])
  show "fbyte G s' i p = (if p div BSIZE = n then f (p mod BSIZE) else fbyte G s i p)"
    using nz other [of "Data (p div BSIZE)"] unfolding fbyte_def Let_def sl by (auto simp: D)
qed

lemma bmap_fbyte:
  assumes b: "bmap_post G i n s t" and ok: "inode_ok G s i"
  shows "fbyte G t i = fbyte G s i"
proof (rule ext)
  fix p
  let ?n = "p div BSIZE"
  have g: "grow G i s t" and o: "file_ok G s i" using b ok by (auto simp: bmap_post_def inode_ok_def)
  show "fbyte G t i p = fbyte G s i p"
  proof (cases "fslot G s i (Data ?n) = 0")
    case True
    then show ?thesis using b by (cases "?n = n") (auto simp: fbyte_def bmap_post_def Let_def)
  next
    case False
    have e: "fslot G t i (Data ?n) = fslot G s i (Data ?n)" using g False by (simp add: growing_def)
    have "dsk G t (unat (fslot G s i (Data ?n))) = dsk G s (unat (fslot G s i (Data ?n)))"
    proof -
      have "unat (fslot G s i (Data ?n)) \<noteq> unat (fslot G s i q)" if "\<not> is_data q" for q
        using o False that unfolding file_ok_def is_data_def by (metis unsigned_word_eqI)
      moreover have "data_start s \<le> unat (fslot G s i (Data ?n)) \<and> unat (fslot G s i (Data ?n)) < dk_nblk G \<and> blk_used G s (unat (fslot G s i (Data ?n)))"
        using o False by (simp add: file_ok_def)
      ultimately show ?thesis using g unfolding growing_def by blast
    qed
    then show ?thesis using e False by (simp add: fbyte_def)
  qed
qed

definition blocks_in :: "nat \<Rightarrow> nat \<Rightarrow> nat" where
  "blocks_in off n = (if n = 0 then 0 else Suc ((off + n - 1) div BSIZE) - off div BSIZE)"

lemma blocks_in_step:
  assumes m: "m = min n (BSIZE - off mod BSIZE)" and n: "0 < n"
  shows "blocks_in off n = Suc (blocks_in (off + m) (n - m))"
proof (cases "m < n")
  case True
  have d: "(off + m) div BSIZE = Suc (off div BSIZE)" using chunk_in_block(6) [where n = n and off = off] True unfolding m by simp
  have "off + m \<le> off + n - 1" using True by linarith
  then have "Suc (off div BSIZE) \<le> (off + n - 1) div BSIZE" using div_le_mono d by metis
  moreover have "off + m + (n - m) - 1 = off + n - 1" using True by simp
  ultimately show ?thesis using True d by (simp add: blocks_in_def)
next
  case False
  then have "m = n" using m by simp
  moreover have "(off + (n - 1)) div BSIZE = off div BSIZE"
    using chunk_in_block(4) [where n = n and off = off and p = "n - 1"] \<open>m = n\<close> n unfolding m by simp
  moreover have "off + n - 1 = off + (n - 1)" using n by simp
  ultimately show ?thesis using n by (simp add: blocks_in_def)
qed

lemma takeWhile_all_upt: "\<forall>k. a \<le> k \<and> k < b \<longrightarrow> P k \<Longrightarrow> takeWhile P [a..<b] = [a..<b]"
  by (simp add: takeWhile_eq_all_conv)

lemma cut_copyin: "\<forall>k < BSIZE. f k = g k \<Longrightarrow> (\<And>k. \<not> k < BSIZE \<Longrightarrow> g k = 0) \<Longrightarrow> p + m \<le> BSIZE \<Longrightarrow>
    cut (copyin_bytes src tot p m f) = copyin_bytes src tot p m g"
  by (auto simp: cut_def copyin_bytes_def fun_eq_iff)

lemma writei_loop_spec:
  assumes "inode_ok G s i" "off + (n - tot) \<le> MAXFILE * BSIZE" "tot \<le> n" "\<forall>k. tot \<le> k \<and> k < n \<longrightarrow> src k \<noteq> None"
    "3 * blocks_in off (n - tot) \<le> nfree G s"
  shows "\<exists>s'. writei_loop (dk_mmc G) i src off n tot s = Some (off + (n - tot), n, s') \<and> growing (\<lambda>_. True) G i s s' \<and> mapped G s' i off (n - tot) \<and>
    nfree G s \<le> nfree G s' + 3 * blocks_in off (n - tot) \<and>
    (\<forall>p. fbyte G s' i p = (if off \<le> p \<and> p < off + (n - tot) then the (src (tot + (p - off))) else fbyte G s i p))"
  using assms
proof (induction "n - tot" arbitrary: tot off s rule: less_induct)
  case less
  let ?M = "dk_mmc G"
  note ok = less.prems(1)
  show ?case
  proof (cases "tot < n")
    case False
    then show ?thesis using less.prems growing_nfree_refl [OF ok] by (subst writei_loop.simps) (auto simp: mapped_def intro!: exI [of _ s])
  next
    case True
    define m where "m = min (n - tot) (BSIZE - off mod BSIZE)"
    note cb = chunk_in_block [where off = off and n = "n - tot", folded m_def]
    have m: "0 < m" "m \<le> n - tot" using cb(2,3) True by simp_all
    have bi: "blocks_in off (n - tot) = Suc (blocks_in (off + m) (n - (tot + m)))"
      using blocks_in_step [OF m_def] True by simp
    have nf: "3 \<le> nfree G s" using less.prems(5) bi by simp
    have "off div BSIZE < MAXFILE" using less.prems(2) True by (simp add: div_less_iff_less_mult BSIZE_def)
    then obtain t where t: "bmap ?M i (off div BSIZE) s = Some (fslot G t i (Data (off div BSIZE)), t)" "bmap_post G i (off div BSIZE) s t"
      using bmap_spec [OF ok] nf by blast
    have T: "grow G i s t" "fslot G t i (Data (off div BSIZE)) \<noteq> 0" "nfree G s \<le> nfree G t + 3" "inode_ok G t i" "fbyte G t i = fbyte G s i"
      using t(2) bmap_fbyte [OF t(2) ok] by (auto simp: bmap_post_def growing_def)
    define j where "j = unat (fslot G t i (Data (off div BSIZE)))"
    have j: "j < dk_nblk G" using T(2,4) by (auto simp: inode_ok_def file_ok_def j_def)
    have oj: "of_nat j = fslot G t i (Data (off div BSIZE))" by (simp add: j_def)
    have at: "bio_at G Map.empty t" and dv: "i_dev (itable t i) = dk_dev G" using T(4) by (simp_all add: inode_ok_def)
    obtain bp s1 where r: "bread_now ?M (dk_dev G) (of_nat j) t = Some (bp, s1)" "\<forall>k < BSIZE. buf_bytes s1 bp k = dsk G t j k" "bio_rest t s1"
      "\<forall>f. \<exists>s2 s3. bwrite_now ?M bp (set_bytes bp f s1) = Some s2 \<and> bio_rest t s2 \<and> brelse bp s2 = Some s3 \<and> bio_at G Map.empty s3 \<and>
        dsk G s3 = (dsk G t)(j := cut f) \<and> bio_frame {} t s3"
      using at_modify [OF at j _ NBUF_room(1)] by auto
    have "takeWhile (\<lambda>k. src k \<noteq> None) [tot..<tot + m] = [tot..<tot + m]"
      by (rule takeWhile_all_upt) (use less.prems(4) m in auto)
    then have tw: "length (takeWhile (\<lambda>k. src k \<noteq> None) [tot..<tot + m]) = m" by (simp only: length_upt)
    let ?f = "copyin_bytes src tot (off mod BSIZE) m (buf_bytes s1 bp)"
    obtain s2 s3 where w: "bwrite_now ?M bp (set_bytes bp ?f s1) = Some s2" "brelse bp s2 = Some s3" "bio_at G Map.empty s3"
        "dsk G s3 = (dsk G t)(j := cut ?f)" "bio_rest t s3"
      using r(4) [THEN spec, of ?f] bio_frameD(1) by blast
    have cf: "cut ?f = copyin_bytes src tot (off mod BSIZE) m (dsk G t j)"
      by (rule cut_copyin [OF r(2) _ cb(1)]) (simp add: dsk_def)
    note W = write_data [OF T(4,2) w(3,5), of "cut ?f", folded j_def, OF w(4)]
    have ok3: "inode_ok G s3 i" using W(1) by (simp add: growing_def)
    have i1: "itable s1 = itable t" using bio_rest_fs [OF r(3)] by simp
    have step: "writei_loop ?M i src off n tot s = writei_loop ?M i src (off + m) n (tot + m) s3"
      using True t(1) T(2) r(1) w(1,2) dv oj tw
      by (subst writei_loop.simps) (simp add: m_def [symmetric] Let_def del: bind_Some_iff not_None_eq)
    have fb3: "fbyte G s3 i p = (if off \<le> p \<and> p < off + m then the (src (tot + (p - off))) else fbyte G s i p)" for p
    proof (cases "p div BSIZE = off div BSIZE")
      case True
      have fp: "fbyte G s i p = dsk G t j (p mod BSIZE)" using True T(2) unfolding T(5) [symmetric] by (simp add: fbyte_def j_def)
      have pm: "p = off div BSIZE * BSIZE + p mod BSIZE" "off = off div BSIZE * BSIZE + off mod BSIZE" using True by (metis div_mult_mod_eq)+
      then have e: "(off mod BSIZE \<le> p mod BSIZE \<and> p mod BSIZE < off mod BSIZE + m) = (off \<le> p \<and> p < off + m)" "p mod BSIZE - off mod BSIZE = p - off" by linarith+
      show ?thesis unfolding W(4) cf unfolding copyin_bytes_def using True fp e by simp
    next
      case False
      have "\<not> (off \<le> p \<and> p < off + m)" using cb(4) [of "p - off"] False less_diff_conv2 [of off p m] by (auto simp: add.commute)
      then show ?thesis unfolding W(4) using False T(5) by auto
    qed
    have "3 * blocks_in (off + m) (n - (tot + m)) \<le> nfree G s3" using less.prems(5) bi T(3) W(3) by simp
    moreover have "off + m + (n - (tot + m)) \<le> MAXFILE * BSIZE" "tot + m \<le> n" "n - (tot + m) < n - tot"
      "\<forall>k. tot + m \<le> k \<and> k < n \<longrightarrow> src k \<noteq> None" using less.prems m True by auto
    ultimately obtain s' where IH: "writei_loop ?M i src (off + m) n (tot + m) s3 = Some (off + m + (n - (tot + m)), n, s')"
      "growing (\<lambda>_. True) G i s3 s'" "mapped G s' i (off + m) (n - (tot + m))" "nfree G s3 \<le> nfree G s' + 3 * blocks_in (off + m) (n - (tot + m))"
      "\<And>p. fbyte G s' i p = (if off + m \<le> p \<and> p < off + m + (n - (tot + m)) then the (src (tot + m + (p - (off + m)))) else fbyte G s3 i p)"
      using less.hyps [of "tot + m" s3 "off + m"] ok3 by blast
    have "growing (\<lambda>_. True) G i s s'"
      using grow_trans [OF grow_trans [OF grow_any [OF T(1)] W(1) ok] IH(2) ok] .
    moreover have "fbyte G s' i p = (if off \<le> p \<and> p < off + (n - tot) then the (src (tot + (p - off))) else fbyte G s i p)" for p
      unfolding IH(5) fb3 using m True by auto
    moreover have "nfree G s \<le> nfree G s' + 3 * blocks_in off (n - tot)" using IH(4) bi T(3) W(3) by simp
    moreover have "mapped G s' i off (n - tot)"
      unfolding mapped_def
    proof (intro allI impI)
      fix p assume p: "off \<le> p \<and> p < off + (n - tot)"
      show "fslot G s' i (Data (p div BSIZE)) \<noteq> 0"
      proof (cases "p < off + m")
        case lt: True
        then have "p div BSIZE = off div BSIZE" using cb(4) [of "p - off"] p less_diff_conv2 [of off p m] by (simp add: add.commute)
        then show ?thesis using IH(2) W(2) T(2) by (auto simp: growing_def)
      next
        case False
        then show ?thesis using IH(3) p by (auto simp: mapped_def)
      qed
    qed
    moreover have "off + m + (n - (tot + m)) = off + (n - tot)" using m True by simp
    ultimately show ?thesis using step IH(1) by auto
  qed
qed

text \<open>A change of an inode block, with or without one of the fields of the table entry other than the addresses.\<close>

lemma inode_block_write:
  assumes ok: "inode_ok G s i" and s': "bio_at G Map.empty s'" "sb s' = sb s"
    and it: "d_addrs (itable s' i) = d_addrs (itable s i)" "i_dev (itable s' i) = i_dev (itable s i)" "i_inum (itable s' i) = i_inum (itable s i)"
    and D: "dsk G s' = (dsk G s)(j := f)" "j < unat (sb_bmapstart (sb s))"
  shows "inode_ok G s' i" "fslot G s' i = fslot G s i" "fbyte G s' i = fbyte G s i" "nfree G s' = nfree G s"
    "x < dk_nblk G \<Longrightarrow> blk_used G s' x = blk_used G s x"
proof -
  have o: "bio_at G Map.empty s" "fs_layout G s" "meta_used G s" "file_ok G s i" using ok by (simp_all add: inode_ok_def)
  have hi: "dsk G s' (unat (fslot G s i q)) = dsk G s (unat (fslot G s i q))" if "fslot G s i q \<noteq> 0" for q
  proof -
    have "data_start s \<le> unat (fslot G s i q)" using o(4) that by (simp add: file_ok_def)
    then show ?thesis using D by (auto simp: data_start_def)
  qed
  show sl: "fslot G s' i = fslot G s i" by (rule fslot_cong) (use hi it in auto)
  have us: "blk_used G s' = blk_used G s" using D by (auto simp: blk_used_def s' fun_eq_iff)
  then show "x < dk_nblk G \<Longrightarrow> blk_used G s' x = blk_used G s x" "nfree G s' = nfree G s" by (simp_all add: nfree_def)
  have ds: "data_start s' = data_start s" by (simp add: data_start_def s')
  show "inode_ok G s' i" using ok by (simp add: inode_ok_def file_ok_def fs_layout_def meta_used_def sl us ds s' it)
  show "fbyte G s' i = fbyte G s i" using hi by (auto simp: fbyte_def sl Let_def fun_eq_iff)
qed

section \<open>The whole calls\<close>

lemma unat_add_small: "unat x + unat y < 2 ^ 32 \<Longrightarrow> unat (x + y) = unat x + unat y" for x y :: u32
  by (simp add: unat_word_ariths)

lemma wraps_less: "2 ^ 32 \<le> unat x + unat y \<Longrightarrow> x + y < x" for x y :: u32
proof -
  assume a: "2 ^ 32 \<le> unat x + unat y"
  have lt: "unat x < 2 ^ 32" "unat y < 2 ^ 32" using unsigned_less [of x, where ?'a = nat] unsigned_less [of y, where ?'a = nat] by simp_all
  have "unat (x + y) = (unat x + unat y) mod 2 ^ 32" by (simp add: unat_word_ariths)
  also have "\<dots> = unat x + unat y - 2 ^ 32" using a lt by (simp add: mod_if)
  finally show ?thesis using a lt by (simp add: word_less_nat_alt)
qed

lemma file_limit: "unat (x :: u32) \<le> MAXFILE * BSIZE"
  using unsigned_less [of x, where ?'a = nat] by (simp add: N_eq BSIZE_def)

lemma readi_spec:
  assumes ok: "inode_ok G s i" and off: "off \<le> d_size (itable s i)" "unat off + unat n < 2 ^ 32"
    and m: "m = min (unat n) (unat (d_size (itable s i)) - unat off)" "mapped G s i (unat off) m" and dst: "\<forall>k < m. dst k"
  shows "\<exists>s'. readi (dk_mmc G) i dst off n s = Some (ret32 m, map (\<lambda>k. fbyte G s i (unat off + k)) [0..<m], s') \<and>
    inode_ok G s' i \<and> dsk G s' = dsk G s \<and> bio_rest s s'"
proof -
  let ?z = "d_size (itable s i)"
  define n' where "n' = (if off + n > ?z then ?z - off else n)"
  have sum: "unat (off + n) = unat off + unat n" by (rule unat_add_small [OF off(2)])
  have nw: "\<not> off + n < off" using sum by (simp add: word_less_nat_alt)
  have n': "unat n' = m" using off(1) sum m(1) by (auto simp: n'_def word_less_nat_alt word_le_nat_alt unat_sub)
  have "unat off + m \<le> unat ?z" using m(1) off(1) by (simp add: word_le_nat_alt)
  then have "unat off + (m - 0) \<le> MAXFILE * BSIZE" using file_limit [of ?z] by simp
  then obtain s' where "readi_loop (dk_mmc G) i dst (unat off) m 0 [] s =
      Some (if list_all dst [0..<m] then ret32 m else -1, [] @ map (\<lambda>k. fbyte G s i (unat off + k)) [0..<length (takeWhile dst [0..<m])], s')"
    "inode_ok G s' i" "dsk G s' = dsk G s" "bio_rest s s'"
    using readi_loop_spec [OF ok, of "unat off" m 0 dst "[]"] m(2) by auto
  moreover have "list_all dst [0..<m]" using dst by (simp add: list_all_iff)
  moreover have "takeWhile dst [0..<m] = [0..<m]" by (rule takeWhile_all_upt) (use dst in auto)
  then have "length (takeWhile dst [0..<m]) = m" by (simp only: length_upt)
  moreover have "readi (dk_mmc G) i dst off n s = readi_loop (dk_mmc G) i dst (unat off) m 0 [] s"
    using off(1) nw unfolding n' [symmetric] by (auto simp: readi_def n'_def Let_def)
  ultimately show ?thesis by auto
qed

text \<open>The table entry after a write up to offset \<open>e\<close>.\<close>

definition written :: "'c disk \<Rightarrow> ('c, 'a) fs_scheme \<Rightarrow> nat \<Rightarrow> nat \<Rightarrow> ('c, 'a) fs_scheme \<Rightarrow> bool" where
  "written G s i e s' \<longleftrightarrow> inode_ok G s' i \<and> unat (d_size (itable s' i)) = max (unat (d_size (itable s i))) e \<and>
     held s' = held s \<and> (\<exists>a z. itable s' i = (itable s i)\<lparr>d_addrs := a, d_size := z\<rparr>) \<and> (\<forall>q. fslot G s i q \<noteq> 0 \<longrightarrow> fslot G s' i q = fslot G s i q) \<and>
     (\<forall>x. x \<noteq> i \<longrightarrow> itable s' x = itable s x) \<and>
     (\<forall>m < sb_ninodes (sb s). dinode_at G s' m = (if m = i_inum (itable s i) then dinode_part (itable s' i) else dinode_at G s m)) \<and>
     (\<forall>j. data_start s \<le> j \<and> j < dk_nblk G \<and> blk_used G s j \<and> (\<forall>q. fslot G s i q \<noteq> 0 \<longrightarrow> j \<noteq> unat (fslot G s i q)) \<longrightarrow> dsk G s' j = dsk G s j)"

lemma writei_spec:
  assumes ok: "inode_ok G s i" and off: "off \<le> d_size (itable s i)" "unat off + unat n < 2 ^ 32" and src: "\<forall>k < unat n. src k \<noteq> None"
    and fr: "3 * blocks_in (unat off) (unat n) \<le> nfree G s"
  shows "\<exists>s'. writei (dk_mmc G) i src off n s = Some (ret32 (unat n), s') \<and> written G s i (unat off + unat n) s' \<and>
    mapped G s' i (unat off) (unat n) \<and> nfree G s \<le> nfree G s' + 3 * blocks_in (unat off) (unat n) \<and>
    (\<forall>p. fbyte G s' i p = (if unat off \<le> p \<and> p < unat off + unat n then the (src (p - unat off)) else fbyte G s i p))"
proof -
  let ?M = "dk_mmc G" and ?e = "unat off + unat n"
  have sum: "unat (off + n) = ?e" by (rule unat_add_small [OF off(2)])
  have lim: "?e \<le> MAXFILE * BSIZE" using file_limit [of "off + n"] sum by simp
  have eu: "unat (of_nat ?e :: u32) = ?e" by (rule unat_of_nat_less) (use off(2) in simp)
  obtain t where t: "writei_loop ?M i src (unat off) (unat n) 0 s = Some (?e, unat n, t)" "growing (\<lambda>_. True) G i s t"
    "mapped G t i (unat off) (unat n)" "nfree G s \<le> nfree G t + 3 * blocks_in (unat off) (unat n)" "\<And>p. fbyte G t i p = (if unat off \<le> p \<and> p < ?e then the (src (p - unat off)) else fbyte G s i p)"
    using writei_loop_spec [OF ok, of "unat off" "unat n" 0 src] lim src fr by auto
  have okt: "inode_ok G t i" and fr_t: "addr_frame i s t" using t(2) by (simp_all add: growing_def)
  note F = addr_frameD [OF fr_t]
  define u where "u = (if ?e > unat (d_size (itable t i)) then upd_inode i (\<lambda>ip. ip\<lparr>d_size := of_nat ?e\<rparr>) t else t)"
  have u: "bio_at G Map.empty u" "fs_layout G u" "sb u = sb t" "dsk G u = dsk G t" "d_addrs (itable u i) = d_addrs (itable t i)"
    "i_dev (itable u i) = dk_dev G" "i_inum (itable u i) = i_inum (itable s i)" "i_inum (itable u i) < sb_ninodes (sb u)"
    "unat (d_size (itable u i)) = max (unat (d_size (itable s i))) ?e" "held u = held s" "x \<noteq> i \<Longrightarrow> itable u x = itable s x" for x
    using okt F eu by (auto simp: u_def inode_ok_def)
  have ui: "\<exists>a z. itable u i = (itable s i)\<lparr>d_addrs := a, d_size := z\<rparr>"
  proof -
    obtain a where "itable t i = (itable s i)\<lparr>d_addrs := a\<rparr>" using fr_t by (auto simp: addr_frame_def)
    then have "itable u i = (itable s i)\<lparr>d_addrs := a, d_size := d_size (itable u i)\<rparr>" by (simp add: u_def)
    then show ?thesis by blast
  qed
  define j where "j = inode_blk u (i_inum (itable u i))"
  obtain s' where w: "iupdate ?M i u = Some s'" "bio_at G Map.empty s'" "bio_frame {} u s'"
    "dsk G s' = (dsk G u)(j := put_dinode (itable u i) (inode_pos (i_inum (itable u i))) (dsk G u j))"
    using iupdate_spec [OF u(1,2,6,8)] NBUF_room(1) by (auto simp: j_def Let_def)
  note R = bio_rest_fs [OF bio_frameD(1) [OF w(3)]]
  have jm: "j < unat (sb_bmapstart (sb t))" using inode_block(3) [OF u(1,2,8)] u(3) by (simp add: j_def)
  note I = inode_block_write [OF okt w(2), unfolded R, OF u(3) u(5), unfolded u(4) [symmetric], OF _ _ w(4) jm]
  have "writei ?M i src off n s = Some (ret32 (unat n), s')"
    using off(1) sum t(1) w(1) lim by (simp add: writei_def word_less_nat_alt word_le_nat_alt u_def [symmetric] Let_def del: bind_Some_iff)
  moreover have "inode_ok G s' i" "fbyte G s' i = fbyte G t i" "mapped G s' i = mapped G t i" "fslot G s' i = fslot G t i" "nfree G s' = nfree G t"
    using I okt u(6,7) F by (simp_all add: inode_ok_def mapped_def fun_eq_iff)
  moreover have "dinode_at G s' m = (if m = i_inum (itable s i) then dinode_part (itable s' i) else dinode_at G s m)" if m: "m < sb_ninodes (sb s)" for m
  proof -
    have "dinode_at G s' m = (if m = i_inum (itable u i) then dinode_part (itable u i) else dinode_at G u m)"
      by (rule dinode_at_put) (use w(4) R in \<open>simp_all add: j_def\<close>)
    moreover have "dinode_at G u m = dinode_at G s m"
    proof -
      have o: "bio_at G Map.empty s" "fs_layout G s" using ok by (simp_all add: inode_ok_def)
      have lt: "inode_blk s m < unat (sb_bmapstart (sb s))" using inode_block(3) [OF o m] .
      moreover have "inode_blk s m \<noteq> unat (fslot G s i q)" if "fslot G s i q \<noteq> 0" for q
        using ok that lt by (fastforce simp: inode_ok_def file_ok_def data_start_def)
      ultimately have "dsk G t (inode_blk s m) = dsk G s (inode_blk s m)" using t(2) by (auto simp: growing_def)
      then show ?thesis by (simp add: dinode_at_def u inode_blk_def F)
    qed
    ultimately show ?thesis by (simp add: u(7) R)
  qed
  moreover have "dsk G s' x = dsk G s x"
    if "data_start s \<le> x" "x < dk_nblk G" "blk_used G s x" "\<forall>q. fslot G s i q \<noteq> 0 \<longrightarrow> x \<noteq> unat (fslot G s i q)" for x
  proof -
    have "x \<noteq> j" using that(1) jm F by (simp add: data_start_def)
    moreover have "dsk G t x = dsk G s x" using t(2) that by (simp add: growing_def)
    ultimately show ?thesis by (simp add: w(4) u(4))
  qed
  moreover have "\<forall>q. fslot G s i q \<noteq> 0 \<longrightarrow> fslot G t i q = fslot G s i q" using t(2) by (simp add: growing_def)
  ultimately show ?thesis using u(9-11) ui t(3-5) by (simp add: written_def R)
qed

text \<open>A file system of 200 blocks with one empty file, in table entries 0 and 1.\<close>

definition new_file :: inode where
  "new_file = empty_inode\<lparr>d_type := T_FILE, i_dev := 1, i_inum := 1, i_ref := 1\<rparr>"

lemma file_fs_of:
  assumes ip: "d_addrs ip = (\<lambda>_. 0)" "i_dev ip = 1" "i_inum ip = 1"
  obtains s :: "(nat \<Rightarrow> nat \<Rightarrow> u8, 'a) fs_scheme" where "inode_ok small_disk s 0" "itable s = (\<lambda>_. ip)" "nfree small_disk s = 195"
    "held s = {}" "bio_at small_disk Map.empty s" "fs_layout small_disk s" "sb s = small_sb" "fslot small_disk s 0 = (\<lambda>_. 0)" "fs.more s = x"
proof -
  obtain s :: "(nat \<Rightarrow> nat \<Rightarrow> u8, 'a) fs_scheme" where s: "bio_at small_disk Map.empty s" "fs_layout small_disk s" "meta_used small_disk s"
    "\<And>b. b < 200 \<Longrightarrow> blk_used small_disk s b = (b < 5)" "held s = {}" "sb s = small_sb" "itable s = (\<lambda>_. ip)" "fs.more s = x"
    by (rule fresh_fs [of "\<lambda>_. ip" x]) blast
  have a: "d_addrs (itable s 0) = (\<lambda>_. 0)" by (simp add: s(7) ip)
  have f: "fslot small_disk s 0 = (\<lambda>_. 0)"
  proof
    fix p show "fslot small_disk s 0 p = 0" by (cases p) (simp_all add: fslot_def a dind_of_def Let_def)
  qed
  have "inode_ok small_disk s 0"
    using s(1-3) by (simp add: inode_ok_def file_ok_def f) (simp add: s(6,7) ip small_disk_def small_sb_def)
  moreover have "{b. b < dk_nblk small_disk \<and> \<not> blk_used small_disk s b} = {5..<200}" using s(4) by (auto simp: small_disk_def)
  then have "nfree small_disk s = 195" by (simp add: nfree_def)
  ultimately show ?thesis using that s f by blast
qed

lemma new_file_fields: "d_addrs new_file = (\<lambda>_. 0)" "i_dev new_file = 1" "i_inum new_file = 1"
  by (simp_all add: new_file_def empty_inode_def)

lemmas file_fs = file_fs_of [OF new_file_fields]

lemma small_names: "dk_mmc small_disk = ram_mmc" "dk_dev small_disk = 1" "dk_nblk small_disk = 200"
  by (simp_all add: small_disk_def)

lemma hello_fits: "3 * blocks_in 0 5 \<le> 195"
  by (simp add: blocks_in_def BSIZE_def)

section \<open>Properties\<close>





text \<open>
  What \<^verbatim>\<open>writei\<close> wrote is what \<^verbatim>\<open>readi\<close> at the same offset delivers, byte for byte.
\<close>

theorem writei_readi_roundtrip:
  assumes "inode_ok G s i" "off \<le> d_size (itable s i)" "unat off + unat n < 2 ^ 32" "\<forall>k < unat n. src k \<noteq> None"
    "3 * blocks_in (unat off) (unat n) \<le> nfree G s"
  shows "\<exists>s' t. writei (dk_mmc G) i src off n s = Some (ret32 (unat n), s') \<and>
    readi (dk_mmc G) i (\<lambda>_. True) off n s' = Some (ret32 (unat n), map (\<lambda>k. the (src k)) [0..<unat n], t) \<and> dsk G t = dsk G s'"
proof -
  obtain s' where w: "writei (dk_mmc G) i src off n s = Some (ret32 (unat n), s')" "written G s i (unat off + unat n) s'"
    "mapped G s' i (unat off) (unat n)" "\<And>p. fbyte G s' i p = (if unat off \<le> p \<and> p < unat off + unat n then the (src (p - unat off)) else fbyte G s i p)"
    using writei_spec [OF assms] by blast
  have ok: "inode_ok G s' i" and sz: "unat (d_size (itable s' i)) = max (unat (d_size (itable s i))) (unat off + unat n)"
    using w(2) by (simp_all add: written_def)
  have le: "off \<le> d_size (itable s' i)" using sz by (simp add: word_le_nat_alt)
  have m: "unat n = min (unat n) (unat (d_size (itable s' i)) - unat off)" using sz by simp
  obtain t where "readi (dk_mmc G) i (\<lambda>_. True) off n s' = Some (ret32 (unat n), map (\<lambda>k. fbyte G s' i (unat off + k)) [0..<unat n], t)" "dsk G t = dsk G s'"
    using readi_spec [OF ok le assms(3) m w(3), of "\<lambda>_. True"] by blast
  then show ?thesis using w(1) w(4) by (auto cong: map_cong)
qed

theorem writei_readi_roundtrip_witness:
  "\<exists>(s :: (nat \<Rightarrow> nat \<Rightarrow> u8) fs) s' t. writei ram_mmc 0 (\<lambda>k. Some (of_nat k + 65)) 0 5 s = Some (5, s') \<and>
    readi ram_mmc 0 (\<lambda>_. True) 0 5 s' = Some (5, [65, 66, 67, 68, 69], t)"
proof -
  obtain s :: "(nat \<Rightarrow> nat \<Rightarrow> u8) fs" where s: "inode_ok small_disk s 0" "nfree small_disk s = 195" by (rule file_fs) blast
  have "\<exists>s' t. writei ram_mmc 0 (\<lambda>k. Some (of_nat k + 65)) 0 5 s = Some (5, s') \<and> readi ram_mmc 0 (\<lambda>_. True) 0 5 s' = Some (5, [65, 66, 67, 68, 69], t)"
    using writei_readi_roundtrip [OF s(1), of 0 5 "\<lambda>k. Some (of_nat k + 65)"] hello_fits by (auto simp: small_names s(2) ret32_def upt_rec)
  then show ?thesis by blast
qed



end
