(* ===== verification/Fs_Frame.thy ===== *)
theory Fs_Frame
  imports Fs_File
begin

text \<open>
  What the file system leaves alone, without any assumption on the state: a call of the allocators, the
  buffer cache or \<^verbatim>\<open>kernel/fs.c\<close> that returns changes nothing beyond the state of its own layer. The components
  above rely on it to keep their own state across such calls. The proofs run over the code step by step with
  the postcondition rules of \<open>ensures\<close>.
\<close>

unbundle bit_operations_syntax

section \<open>Postconditions\<close>

text \<open>If the call returns, its result satisfies \<open>Q\<close>.\<close>

definition ensures :: "'r option \<Rightarrow> ('r \<Rightarrow> bool) \<Rightarrow> bool" where
  "ensures m Q \<longleftrightarrow> (\<forall>y. m = Some y \<longrightarrow> Q y)"

named_theorems wp "postconditions of calls, in the form of introduction rules"

lemma ensures_Some [simp]: "ensures (Some y) Q = Q y"
  by (simp add: ensures_def)

lemma ensures_None [simp]: "ensures None Q"
  by (simp add: ensures_def)

lemma ensures_bind [simp]: "ensures (Option.bind m f) Q = ensures m (\<lambda>z. ensures (f z) Q)"
  by (cases m) (auto simp: ensures_def)

lemma ensures_if [simp]: "ensures (if b then m else m') Q = ((b \<longrightarrow> ensures m Q) \<and> (\<not> b \<longrightarrow> ensures m' Q))"
  by simp

lemma ensures_mono: "ensures m P \<Longrightarrow> (\<And>y. P y \<Longrightarrow> Q y) \<Longrightarrow> ensures m Q"
  by (simp add: ensures_def)

lemma ensuresD: "ensures m Q \<Longrightarrow> m = Some y \<Longrightarrow> Q y"
  by (simp add: ensures_def)

lemma ensuresI: "(\<And>y. m = Some y \<Longrightarrow> Q y) \<Longrightarrow> ensures m Q"
  by (simp add: ensures_def)

lemma ensures_any: "(\<And>y. Q y) \<Longrightarrow> ensures m Q"
  by (simp add: ensures_def)

section \<open>Allocators\<close>

lemma kstate_buddy: "kstate.more s' = kstate.more s \<Longrightarrow> buddy.more s' = buddy.more s"
  by (cases s; cases s') simp

lemma buddy_slab: "buddy.more s' = buddy.more s \<Longrightarrow> slab.more s' = slab.more s"
  by (cases s; cases s') simp

lemma slab_bio: "slab.more s' = slab.more s \<Longrightarrow> bio.more s' = bio.more s"
  by (cases s; cases s') simp

lemmas kstate_slab = kstate_buddy [THEN buddy_slab]
lemmas to_slab = kstate_slab buddy_slab
lemmas to_bio = to_slab [THEN slab_bio] slab_bio

lemma k_acquire_frame [THEN ensures_mono, wp]: "ensures (k_acquire l s) (\<lambda>s'. kstate.more s' = kstate.more s)"
  by (auto simp: k_acquire_def)

lemma k_release_frame [THEN ensures_mono, wp]: "ensures (k_release l s) (\<lambda>s'. kstate.more s' = kstate.more s)"
  by (auto simp: k_release_def)

lemma upd_page_more [simp]: "buddy.more (upd_page p f s) = buddy.more s" "buddy.more (set_head k v s) = buddy.more s"
  by (simp_all add: upd_page_def set_head_def)

lemma pop_frame [simp]: "buddy.more (snd (buddy_list_pop k s)) = buddy.more s"
  by (auto simp: buddy_list_pop_def split: option.split)

lemma push_more [simp]: "buddy.more (buddy_list_push k p s) = buddy.more s"
  by (auto simp: buddy_list_push_def Let_def split: option.split)

lemma set_pp_more [simp]: "buddy.more (set_pp pp v s) = buddy.more s"
  by (cases pp) auto

lemma remove_from_frame [THEN ensures_mono, wp]: "ensures (buddy_list_remove_from pp page idx s) (\<lambda>(r, s'). buddy.more s' = buddy.more s)"
proof (rule ensuresI)
  fix y assume "buddy_list_remove_from pp page idx s = Some y"
  then show "case y of (r, s') \<Rightarrow> buddy.more s' = buddy.more s"
    by (rule buddy_list_remove_from.raw_induct [where P = "\<lambda>pp page idx s y. case y of (r, s') \<Rightarrow> buddy.more s' = buddy.more s", rotated])
      (auto simp: Let_def split: option.split_asm if_split_asm)
qed

lemma pull_find_frame [THEN ensures_mono, wp]: "ensures (pull_find i s) (\<lambda>(j, p, s'). buddy.more s' = buddy.more s)"
proof (induction i s rule: pull_find.induct)
  case (1 i s)
  obtain r t where t: "buddy_list_pop i s = (r, t)" by fastforce
  then have m: "buddy.more t = buddy.more s" using pop_frame [of i s] by simp
  show ?case using "1.IH" [OF _ t [symmetric]] t m by (subst pull_find.simps) (auto split: option.splits)
qed

lemma pull_split_frame [simp]: "buddy.more (snd (pull_split n k p s)) = buddy.more s"
  by (induction n k p s rule: pull_split.induct) (auto simp: Let_def)

lemma pull_block_frame [THEN ensures_mono, wp]: "ensures (buddy_pull_block k s) (\<lambda>(p, s'). buddy.more s' = buddy.more s)"
  by (auto simp: buddy_pull_block_def case_prod_beta Let_def simp del: pull_find.simps intro!: wp)

lemma buddy_alloc_frame [THEN ensures_mono, wp]: "ensures (buddy_alloc n s) (\<lambda>(p, s'). buddy.more s' = buddy.more s)"
  by (auto simp: buddy_alloc_def case_prod_beta simp del: find_order.simps split: option.split intro!: wp dest!: kstate_buddy)

lemma buddy_free_frame [THEN ensures_mono, wp]: "ensures (buddy_free p s) (\<lambda>s'. buddy.more s' = buddy.more s)"
proof (rule ensuresI, erule buddy_free.raw_induct [where P = "\<lambda>p s s'. buddy.more s' = buddy.more s", rotated])
  fix f :: "nat \<Rightarrow> 'a buddy_scheme \<Rightarrow> 'a buddy_scheme option" and p and s s' :: "'a buddy_scheme"
  assume "\<And>p s s'. f p s = Some s' \<Longrightarrow> buddy.more s' = buddy.more s"
  then have [THEN ensures_mono, wp]: "ensures (f p s) (\<lambda>s'. buddy.more s' = buddy.more s)" for p s by (simp add: ensures_def)
  let ?body = "do {
     s \<leftarrow> k_acquire L_pages_ref s;
     if pg_refcnt (pages s p) > 1 then do {
       let s = upd_page p (\<lambda>g. g\<lparr>pg_refcnt := pg_refcnt g - 1\<rparr>) s;
       k_release L_pages_ref s
     } else do {
       s \<leftarrow> k_release L_pages_ref s;
       s \<leftarrow> k_acquire L_buddy s;
       let k = pg_order (pages s p);
       let bi = buddy_find_buddy_index (pages s p);
       let s = upd_page p (\<lambda>g. g\<lparr>pg_flags := pg_flags g AND NOT PF_FIRST_PAGE\<rparr>) s;
       if k = PAGE_MAX_ORDER \<or> \<not> buddy_is_free_buddy (pages s p) (pages s bi) then do {
         let s = buddy_list_push k p s;
         k_release L_buddy s
       } else do {
         let s = upd_page p (\<lambda>g. g\<lparr>pg_flags := pg_flags g AND NOT PF_FREE_LIST, pg_next := None\<rparr>) s;
         (r, s) \<leftarrow> buddy_list_remove k bi s;
         q \<leftarrow> r;
         let (p, s) = (if odd (drop_bit (pg_order (pages s p)) bi)
                       then (p, upd_page q (\<lambda>g. g\<lparr>pg_order := 0\<rparr>) s)
                       else (q, upd_page p (\<lambda>g. g\<lparr>pg_order := 0\<rparr>) s));
         let s = upd_page p (\<lambda>g. g\<lparr>pg_order := pg_order g + 1\<rparr>) s;
         s \<leftarrow> k_release L_buddy s;
         f p s
       }
     }
   }"
  assume "?body = Some s'"
  moreover have "ensures ?body (\<lambda>s'. buddy.more s' = buddy.more s)"
    by (auto simp: Let_def buddy_list_remove_def intro!: wp dest!: kstate_buddy)
      (rule ensures_any, auto intro!: wp dest!: kstate_buddy)
  ultimately show "buddy.more s' = buddy.more s" by (rule ensuresD [rotated])
qed

lemma page_find_any [wp]: "(\<And>p. Q p) \<Longrightarrow> ensures (page_find_by_address a) Q"
  by (rule ensures_any)

lemma kalloc_frame [THEN ensures_mono, wp]: "ensures (kalloc s) (\<lambda>(p, s'). buddy.more s' = buddy.more s)"
  by (auto simp: kalloc_def intro!: wp)

lemma kfree_frame [THEN ensures_mono, wp]: "ensures (kfree p s) (\<lambda>s'. buddy.more s' = buddy.more s)"
  by (auto simp: kfree_def intro!: wp)

lemma upd_slab_more [simp]: "slab.more (upd_slab h f s) = slab.more s" "slab.more (upd_cache c g s) = slab.more s"
  by (simp_all add: upd_slab_def upd_cache_def)

lemma slab_take_more [simp]: "slab.more (snd (slab_take c h s)) = slab.more s"
  by (simp add: slab_take_def Let_def split: option.split)

lemma slab_new_frame [THEN ensures_mono, wp]: "ensures (slab_new c s) (\<lambda>(h, s'). slab.more s' = slab.more s)"
  by (auto simp: slab_new_def Let_def intro!: wp dest!: to_slab)

lemma slab_alloc_frame [THEN ensures_mono, wp]: "ensures (slab_cache_alloc c s) (\<lambda>(a, s'). slab.more s' = slab.more s)"
  by (auto simp: slab_cache_alloc_def case_prod_beta split: option.split intro!: wp dest!: to_slab)

section \<open>The buffer cache\<close>

lemma upd_buf_more [simp]: "bio.more (upd_buf b f s) = bio.more s" "bio.more (set_bytes b g s) = bio.more s" "bio.more (k_wakeup ch s) = bio.more s"
  by (simp_all add: upd_buf_def set_bytes_def k_wakeup_def)

lemma sd_request_frame [THEN ensures_mono, wp]: "ensures (sd_request M b s) (\<lambda>s'. bio.more s' = bio.more s)"
  by (cases "b_data (bufs s b)") (auto simp: sd_request_def Let_def case_prod_beta)

lemma sd_start_frame [THEN ensures_mono, wp]: "ensures (sd_start M s) (\<lambda>s'. bio.more s' = bio.more s)"
proof (rule ensuresI, erule sd_start.raw_induct [where P = "\<lambda>M s s'. bio.more s' = bio.more s", rotated])
  fix f :: "'a mmc_ops \<Rightarrow> ('a, 'b) bio_scheme \<Rightarrow> ('a, 'b) bio_scheme option" and M and s s' :: "('a, 'b) bio_scheme"
  assume "\<And>M s s'. f M s = Some s' \<Longrightarrow> bio.more s' = bio.more s"
  then have [THEN ensures_mono, wp]: "ensures (f M s) (\<lambda>s'. bio.more s' = bio.more s)" for M s by (simp add: ensures_def)
  let ?body = "if list_empty 0 (dlinks s) then Some s else do { s \<leftarrow> sd_request M (list_front 0 (dlinks s) - 1) s; f M s }"
  assume "?body = Some s'"
  moreover have "ensures ?body (\<lambda>s'. bio.more s' = bio.more s)" by (auto intro!: wp)
  ultimately show "bio.more s' = bio.more s" by (rule ensuresD [rotated])
qed

lemma sd_rw_frame [THEN ensures_mono, wp]: "ensures (sd_rw M b s) (\<lambda>(r, s'). bio.more s' = bio.more s)"
  by (auto simp: sd_rw_def Let_def intro!: wp dest!: to_bio)

lemma foreach_any [wp]:
  "(\<And>x. Q (Some x)) \<Longrightarrow> Q None \<Longrightarrow> ensures (list_foreach_find h f N) Q"
  "(\<And>x. Q (Some x)) \<Longrightarrow> Q None \<Longrightarrow> ensures (list_foreach_reverse_find h f N) Q"
  by (rule ensures_any, case_tac y, simp_all)+

lemma bget_frame [THEN ensures_mono, wp]: "ensures (bget dev bno s) (\<lambda>(r, s'). bio.more s' = bio.more s)"
  by (auto simp: bget_def Let_def split: option.split intro!: wp dest!: to_bio)

lemma bread_frame [THEN ensures_mono, wp]: "ensures (bread M dev bno s) (\<lambda>(r, s'). bio.more s' = bio.more s)"
  by (auto simp: bread_def split: sum.split intro!: wp)

lemma bwrite_frame [THEN ensures_mono, wp]: "ensures (bwrite M b s) (\<lambda>(r, s'). bio.more s' = bio.more s)"
  by (auto simp: bwrite_def intro!: wp)

lemma brelse_frame [THEN ensures_mono, wp]: "ensures (brelse b s) (\<lambda>s'. bio.more s' = bio.more s)"
  by (auto simp: brelse_def Let_def intro!: wp dest!: to_bio)

lemma bread_now_frame [THEN ensures_mono, wp]: "ensures (bread_now M dev bno s) (\<lambda>(b, s'). bio.more s' = bio.more s)"
proof (rule ensuresI)
  fix y assume "bread_now M dev bno s = Some y"
  then obtain b s' where "bread M dev bno s = Some (Inl b, s')" "y = (b, s')" by (auto simp: bread_now_def split: option.splits sum.splits)
  moreover have "ensures (bread M dev bno s) (\<lambda>(r, s'). bio.more s' = bio.more s)" by (rule bread_frame)
  ultimately show "case y of (b, s') \<Rightarrow> bio.more s' = bio.more s" by (auto dest: ensuresD)
qed

lemma bwrite_now_frame [THEN ensures_mono, wp]: "ensures (bwrite_now M b s) (\<lambda>s'. bio.more s' = bio.more s)"
proof (rule ensuresI)
  fix s' assume "bwrite_now M b s = Some s'"
  then obtain u where "bwrite M b s = Some (Inl u, s')" by (auto simp: bwrite_now_def split: option.splits sum.splits)
  moreover have "ensures (bwrite M b s) (\<lambda>(r, s'). bio.more s' = bio.more s)" by (rule bwrite_frame)
  ultimately show "bio.more s' = bio.more s" by (auto dest: ensuresD)
qed

section \<open>The file system\<close>

text \<open>What every operation of \<^verbatim>\<open>kernel/fs.c\<close> leaves alone: all but the layers below and the inode table.\<close>

definition fs_env :: "('c, 'a) fs_scheme \<Rightarrow> 'a \<times> superblock \<times> timespec \<times> int \<times> u32 \<times> u32 \<times> u32 \<times> nat \<times> (int \<Rightarrow> nat)" where
  "fs_env s = (fs.more s, sb s, now s, cur_pid s, fsuid s, fsgid s, cap_effective s, cwd s, ofile_ip s)"

lemma bio_fs: "bio.more s' = bio.more s \<Longrightarrow> fs_env s' = fs_env s"
  by (cases s; cases s') (simp add: fs_env_def)

lemmas to_fs = to_bio [THEN bio_fs] bio_fs

lemma fs_env_upd [simp]:
  "fs_env (upd_inode i f s) = fs_env s" "fs_env (set_bytes b g s) = fs_env s" "fs_env (s\<lparr>blkmem := m\<rparr>) = fs_env s"
  "fs_env (s\<lparr>woken := w\<rparr>) = fs_env s" "fs_env (s\<lparr>held := h\<rparr>) = fs_env s"
  by (simp_all add: fs_env_def upd_inode_def set_bytes_def)

lemma bzero_frame [THEN ensures_mono, wp]: "ensures (bzero M dev bno s) (\<lambda>s'. fs_env s' = fs_env s)"
  by (auto simp: bzero_def Let_def intro!: wp dest!: to_fs)

lemma balloc_loop_frame [THEN ensures_mono, wp]: "ensures (balloc_loop M dev bs s) (\<lambda>(b, s'). fs_env s' = fs_env s)"
proof (induction bs arbitrary: s)
  case (Cons b bs)
  show ?case by (auto simp: Let_def split: option.split intro!: wp Cons.IH [THEN ensures_mono] dest!: to_fs)
qed simp

lemma balloc_frame [THEN ensures_mono, wp]: "ensures (balloc M dev s) (\<lambda>(b, s'). fs_env s' = fs_env s)"
  by (auto simp: balloc_def intro!: wp)

lemma bfree_frame [THEN ensures_mono, wp]: "ensures (bfree M dev b s) (\<lambda>s'. fs_env s' = fs_env s)"
  by (auto simp: bfree_def Let_def intro!: wp dest!: to_fs)

lemma find_any [wp]: "(\<And>x. Q x) \<Longrightarrow> ensures (List.find P xs) Q"
  by (rule ensures_any)

lemma iget_frame [THEN ensures_mono, wp]: "ensures (iget dev inum s) (\<lambda>(i, s'). fs_env s' = fs_env s)"
  by (auto simp: iget_def Let_def split: option.split intro!: wp dest!: to_fs)

lemma idup_frame [THEN ensures_mono, wp]: "ensures (idup i s) (\<lambda>(j, s'). fs_env s' = fs_env s)"
  by (auto simp: idup_def Let_def intro!: wp dest!: to_fs)

lemma ialloc_loop_frame [THEN ensures_mono, wp]: "ensures (ialloc_loop M dev ty ns s) (\<lambda>(i, s'). fs_env s' = fs_env s)"
proof (induction ns arbitrary: s)
  case (Cons n ns)
  show ?case by (auto simp: Let_def intro!: wp Cons.IH [THEN ensures_mono] dest!: to_fs)
qed simp

lemma ialloc_frame [THEN ensures_mono, wp]: "ensures (ialloc M dev ty s) (\<lambda>(i, s'). fs_env s' = fs_env s)"
  by (auto simp: ialloc_def intro!: wp)

lemma iupdate_frame [THEN ensures_mono, wp]: "ensures (iupdate M i s) (\<lambda>s'. fs_env s' = fs_env s)"
  by (auto simp: iupdate_def Let_def intro!: wp dest!: to_fs)

lemma lock_inode_frame [THEN ensures_mono, wp]: "ensures (lock_inode i s) (\<lambda>s'. fs_env s' = fs_env s)"
proof -
  have "ensures (acquiresleep lk ch pid sl s) (\<lambda>r. \<forall>x s'. r = Returns (x, s') \<longrightarrow> fs_env s' = fs_env s)" for lk ch pid sl
    by (auto simp: acquiresleep_def intro!: wp dest!: to_fs)
  note this [of "L_inode i" "Ch_inode i" "cur_pid s" "i_lock (itable s i)"]
  then show ?thesis
    by (cases "acquiresleep (L_inode i) (Ch_inode i) (cur_pid s) (i_lock (itable s i)) s")
      (auto simp: lock_inode_def split: blocking.split)
qed

lemma unlock_inode_frame [THEN ensures_mono, wp]: "ensures (unlock_inode i s) (\<lambda>s'. fs_env s' = fs_env s)"
  by (auto simp: unlock_inode_def releasesleep_def Let_def k_wakeup_def intro!: wp dest!: to_fs)

lemma ilock_frame [THEN ensures_mono, wp]: "ensures (ilock M i s) (\<lambda>s'. fs_env s' = fs_env s)"
  by (auto simp: ilock_def Let_def intro!: wp dest!: to_fs)

lemma iunlock_frame [THEN ensures_mono, wp]: "ensures (iunlock i s) (\<lambda>s'. fs_env s' = fs_env s)"
  by (auto simp: iunlock_def holdingsleep_def Let_def intro!: wp dest!: to_fs)

lemma bmap_entry_frame [THEN ensures_mono, wp]: "ensures (bmap_entry M dev bp k s) (\<lambda>(a, s'). fs_env s' = fs_env s)"
  by (auto simp: bmap_entry_def Let_def intro!: wp dest!: to_fs)

lemma bmap_root_frame [THEN ensures_mono, wp]: "ensures (bmap_root M i k s) (\<lambda>(a, s'). fs_env s' = fs_env s)"
  by (auto simp: bmap_root_def intro!: wp)

lemma bmap_frame [THEN ensures_mono, wp]: "ensures (bmap M i bn s) (\<lambda>(a, s'). fs_env s' = fs_env s)"
  by (auto simp: bmap_def Let_def intro!: wp dest!: to_fs)

lemma free_direct_frame [THEN ensures_mono, wp]: "ensures (free_direct M i ks s) (\<lambda>s'. fs_env s' = fs_env s)"
proof (induction ks arbitrary: s)
  case (Cons k ks)
  show ?case by (auto intro!: wp Cons.IH [THEN ensures_mono])
qed simp

lemma free_entries_frame [THEN ensures_mono, wp]: "ensures (free_entries M dev a js s) (\<lambda>s'. fs_env s' = fs_env s)"
proof (induction js arbitrary: s)
  case (Cons j js)
  show ?case by (auto intro!: wp Cons.IH [THEN ensures_mono])
qed simp

lemma free_indirects_frame [THEN ensures_mono, wp]: "ensures (free_indirects M dev a js bp s) (\<lambda>(b, s'). fs_env s' = fs_env s)"
proof (induction js arbitrary: bp s)
  case (Cons j js)
  show ?case by (auto intro!: wp Cons.IH [THEN ensures_mono] dest!: to_fs)
qed simp

lemma itrunc_frame [THEN ensures_mono, wp]: "ensures (itrunc M i s) (\<lambda>s'. fs_env s' = fs_env s)"
  by (auto simp: itrunc_def intro!: wp dest!: to_fs)

lemma iput_frame [THEN ensures_mono, wp]: "ensures (iput M i s) (\<lambda>s'. fs_env s' = fs_env s)"
  by (auto simp: iput_def intro!: wp dest!: to_fs)

lemma iunlockput_frame [THEN ensures_mono, wp]: "ensures (iunlockput M i s) (\<lambda>s'. fs_env s' = fs_env s)"
  by (auto simp: iunlockput_def intro!: wp)

lemma readi_loop_frame [THEN ensures_mono, wp]: "ensures (readi_loop M i dst off n tot out s) (\<lambda>(r, bs, s'). fs_env s' = fs_env s)"
proof (induction "n - tot" arbitrary: off tot out s rule: less_induct)
  case less
  note ih = less [OF chunk_progress, THEN ensures_mono]
  show ?case
    by (subst readi_loop.simps) (auto simp: Let_def intro!: wp ih dest!: to_fs)
qed

lemma readi_frame [THEN ensures_mono, wp]: "ensures (readi M i dst off n s) (\<lambda>(r, bs, s'). fs_env s' = fs_env s)"
  by (auto simp: readi_def Let_def intro!: wp)

lemma writei_loop_frame [THEN ensures_mono, wp]: "ensures (writei_loop M i src off n tot s) (\<lambda>(o', t, s'). fs_env s' = fs_env s)"
proof (induction "n - tot" arbitrary: off tot s rule: less_induct)
  case less
  note ih = less [OF chunk_progress, THEN ensures_mono]
  show ?case
    by (subst writei_loop.simps) (auto simp: Let_def intro!: wp ih dest!: to_fs)
qed

lemma writei_frame [THEN ensures_mono, wp]: "ensures (writei M i src off n s) (\<lambda>(r, s'). fs_env s' = fs_env s)"
  by (auto simp: writei_def Let_def intro!: wp)

lemma read_dirent_frame [THEN ensures_mono, wp]: "ensures (read_dirent M dp off s) (\<lambda>(de, s'). fs_env s' = fs_env s)"
  by (auto simp: read_dirent_def intro!: wp)

lemma dirlookup_loop_frame [THEN ensures_mono, wp]: "ensures (dirlookup_loop M dp name offs s) (\<lambda>(r, s'). fs_env s' = fs_env s)"
proof (induction offs arbitrary: s)
  case (Cons o' offs)
  show ?case by (auto intro!: wp Cons.IH [THEN ensures_mono])
qed simp

lemma dirlookup_frame [THEN ensures_mono, wp]: "ensures (dirlookup M dp name s) (\<lambda>(r, s'). fs_env s' = fs_env s)"
  by (auto simp: dirlookup_def intro!: wp)

lemma free_slot_frame [THEN ensures_mono, wp]: "ensures (free_slot M dp offs e de s) (\<lambda>(o', d, s'). fs_env s' = fs_env s)"
proof (induction offs arbitrary: de s)
  case (Cons o' offs)
  show ?case by (auto intro!: wp Cons.IH [THEN ensures_mono])
qed simp

lemma dirlink_frame [THEN ensures_mono, wp]: "ensures (dirlink M dp name inum ty s) (\<lambda>(r, s'). fs_env s' = fs_env s)"
  by (auto simp: dirlink_def Let_def split: option.split intro!: wp)

lemma unlink_frame [THEN ensures_mono, wp]: "ensures (unlink M dp off s) (\<lambda>(r, s'). fs_env s' = fs_env s)"
  by (auto simp: unlink_def intro!: wp)

lemma direntlookup_loop_frame [THEN ensures_mono, wp]: "ensures (direntlookup_loop M dp inum offs s) (\<lambda>(r, s'). fs_env s' = fs_env s)"
proof (induction offs arbitrary: s)
  case (Cons o' offs)
  show ?case by (auto intro!: wp Cons.IH [THEN ensures_mono])
qed simp

lemma direntlookup_frame [THEN ensures_mono, wp]: "ensures (direntlookup M dp inum s) (\<lambda>(r, s'). fs_env s' = fs_env s)"
  by (auto simp: direntlookup_def intro!: wp)

lemma namex_loop_frame [THEN ensures_mono, wp]: "ensures (namex_loop M parent path name ip s) (\<lambda>(r, nm, s'). fs_env s' = fs_env s)"
proof (induction "length path" arbitrary: parent path name ip s rule: less_induct)
  case less
  note ih = less [OF skipelem_shorter, THEN ensures_mono]
  show ?case
    by (subst namex_loop.simps) (auto split: option.split intro!: wp; erule ih; auto)
qed

lemma namex_frame [THEN ensures_mono, wp]: "ensures (namex M path parent name dirfd s) (\<lambda>(r, nm, s'). fs_env s' = fs_env s)"
  by (auto simp: namex_def intro!: wp)

lemma namei_frame [THEN ensures_mono, wp]: "ensures (namei M path dirfd s) (\<lambda>(r, s'). fs_env s' = fs_env s)"
  by (auto simp: namei_def intro!: wp)

lemma nameiparent_frame [THEN ensures_mono, wp]: "ensures (nameiparent M path name dirfd s) (\<lambda>(r, nm, s'). fs_env s' = fs_env s)"
  by (auto simp: nameiparent_def intro!: wp)

end
