(* ===== verification/File.thy ===== *)
theory File
  imports Fs_File Pipe
begin

text \<open>
  Open files, \<^verbatim>\<open>kernel/file.c\<close>, with \<^verbatim>\<open>pipealloc\<close> of \<^verbatim>\<open>kernel/pipe.c\<close> and \<^verbatim>\<open>fdalloc\<close> of
  \<^verbatim>\<open>kernel/sysfile.c\<close>, on the file system, the pipes and a table of device functions. The state adds
  to the file system the file table, the pipes by the address of their page, and of the current process
  its descriptors, its identity and its memory as \<^verbatim>\<open>copyin\<close> and \<^verbatim>\<open>copyout\<close> see it. As in the theory of
  the file system, \<open>None\<close> is a panic, a wild pointer or a wait for another process; a symbolic link that
  leads back to itself makes the code loop for ever, which is \<open>None\<close> too. \<^verbatim>\<open>begin_op\<close> and \<^verbatim>\<open>end_op\<close> do nothing
  in this kernel.
\<close>

unbundle bit_operations_syntax

section \<open>Data\<close>

abbreviation (input) EIO :: int where "EIO \<equiv> 5"
abbreviation (input) EBADF :: int where "EBADF \<equiv> 9"
abbreviation (input) EEXIST :: int where "EEXIST \<equiv> 17"
abbreviation (input) EXDEV :: int where "EXDEV \<equiv> 18"
abbreviation (input) ENOTDIR :: int where "ENOTDIR \<equiv> 20"
abbreviation (input) EISDIR :: int where "EISDIR \<equiv> 21"
abbreviation (input) ENFILE :: int where "ENFILE \<equiv> 23"
abbreviation (input) EMFILE :: int where "EMFILE \<equiv> 24"
abbreviation (input) ENOTTY :: int where "ENOTTY \<equiv> 25"
abbreviation (input) ENOSPC :: int where "ENOSPC \<equiv> 28"
abbreviation (input) EDQUOT :: int where "EDQUOT \<equiv> 122"

datatype ftype = FD_NONE | FD_PIPE | FD_INODE | FD_DEVICE

record kfile =
  f_type :: ftype
  f_ref :: int
  f_pipe :: "nat option"
  f_ip :: "nat option"
  f_off :: u32
  f_flags :: u32
  f_major :: u16
  f_readable :: bool
  f_writable :: bool

definition NOFILE :: nat where "NOFILE = 16"
definition NFILE :: nat where "NFILE = 100"
definition NDEV :: nat where "NDEV = 10"
definition MAXOPBLOCKS :: nat where "MAXOPBLOCKS = 42"
definition MAXPATH :: nat where "MAXPATH = 128"
definition O_ACCMODE :: u32 where "O_ACCMODE = 0x200003"
definition O_RDONLY :: u32 where "O_RDONLY = 0"
definition O_WRONLY :: u32 where "O_WRONLY = 1"
definition O_RDWR :: u32 where "O_RDWR = 2"
definition O_CREAT :: u32 where "O_CREAT = 0x40"
definition O_EXCL :: u32 where "O_EXCL = 0x80"
definition O_APPEND :: u32 where "O_APPEND = 0x400"
definition O_NONBLOCK :: u32 where "O_NONBLOCK = 0x800"
definition O_DSYNC :: u32 where "O_DSYNC = 0x1000"
definition O_ASYNC :: u32 where "O_ASYNC = 0x2000"
definition O_DIRECT :: u32 where "O_DIRECT = 0x10000"
definition O_NOATIME :: u32 where "O_NOATIME = 0x40000"
definition O_CLOEXEC :: u32 where "O_CLOEXEC = 0x80000"
definition O_SYNC :: u32 where "O_SYNC = 0x101000"
definition PIPE2_FLAGS :: u32 where "PIPE2_FLAGS = O_CLOEXEC OR O_DIRECT OR O_NONBLOCK"
definition AT_SYMLINK_NOFOLLOW :: u32 where "AT_SYMLINK_NOFOLLOW = 0x100"
definition AT_REMOVEDIR :: u32 where "AT_REMOVEDIR = 0x200"
definition AT_EACCESS :: u32 where "AT_EACCESS = 0x200"
definition TCSBRK :: u64 where "TCSBRK = 0x5409"
definition TCFLSH :: u64 where "TCFLSH = 0x540B"
definition RENAME_NOREPLACE :: u32 where "RENAME_NOREPLACE = 1"
definition RENAME_EXCHANGE :: u32 where "RENAME_EXCHANGE = 2"
definition S_IFMT :: u32 where "S_IFMT = 0xF000"
definition S_IFLNK :: u32 where "S_IFLNK = 0xA000"
definition S_IFREG :: u32 where "S_IFREG = 0x8000"
definition S_IFBLK :: u32 where "S_IFBLK = 0x6000"
definition S_IFDIR :: u32 where "S_IFDIR = 0x4000"
definition S_IFCHR :: u32 where "S_IFCHR = 0x2000"
definition S_ISUID :: u32 where "S_ISUID = 0x800"
definition S_ISGID :: u32 where "S_ISGID = 0x400"
definition S_IRUSR :: u32 where "S_IRUSR = 0x100"
definition S_IWUSR :: u32 where "S_IWUSR = 0x80"
definition S_IXUSR :: u32 where "S_IXUSR = 0x40"
definition S_IRGRP :: u32 where "S_IRGRP = 0x20"
definition S_IWGRP :: u32 where "S_IWGRP = 0x10"
definition S_IROTH :: u32 where "S_IROTH = 4"
definition S_IWOTH :: u32 where "S_IWOTH = 2"
definition S_IXOTH :: u32 where "S_IXOTH = 1"
definition S_IRWXO :: u32 where "S_IRWXO = 7"
definition R_OK :: u32 where "R_OK = 4"
definition W_OK :: u32 where "W_OK = 2"
definition X_OK :: u32 where "X_OK = 1"
definition CAP_CHOWN :: nat where "CAP_CHOWN = 0"

definition FILE_READABLE :: "u32 \<Rightarrow> bool" where
  "FILE_READABLE flags \<longleftrightarrow> flags AND O_ACCMODE = O_RDWR \<or> flags AND O_ACCMODE = O_RDONLY"

definition FILE_WRITABLE :: "u32 \<Rightarrow> bool" where
  "FILE_WRITABLE flags \<longleftrightarrow> flags AND O_ACCMODE = O_RDWR \<or> flags AND O_ACCMODE = O_WRONLY"

text \<open>
  The state. \<open>umem a\<close> is the byte \<^verbatim>\<open>copyin\<close> finds at the user address \<open>a\<close> and \<open>uwr a\<close> whether \<^verbatim>\<open>copyout\<close>
  reaches it; \<open>targs\<close> are the argument registers of the trap frame and \<open>in_user\<close> the range test of
  \<^verbatim>\<open>kernel/syscall.c\<close>. The descriptor table has \<^verbatim>\<open>NOFILE\<close> entries; reading past it is a wild access.
\<close>

record 'c files = "'c fs" +
  ftable :: "nat \<Rightarrow> kfile"
  pipes :: "nat \<Rightarrow> pipe"
  ofile :: "nat \<Rightarrow> nat option"
  fdflag :: u32
  p_umask :: u32
  p_uid :: u32
  p_gid :: u32
  p_euid :: u32
  p_egid :: u32
  p_killed :: bool
  umem :: "u64 \<Rightarrow> u8 option"
  uwr :: "u64 \<Rightarrow> bool"
  targs :: "nat \<Rightarrow> u64"
  in_user :: "u64 \<Rightarrow> u64 \<Rightarrow> bool"

text \<open>\<^verbatim>\<open>struct devsw\<close>: the functions a driver has installed for a major number.\<close>

record 's devsw =
  d_read :: "(bool \<Rightarrow> u64 \<Rightarrow> int \<Rightarrow> 's \<Rightarrow> (int \<times> 's) option) option"
  d_write :: "(bool \<Rightarrow> u64 \<Rightarrow> int \<Rightarrow> 's \<Rightarrow> (int \<times> 's) option) option"
  d_ioctl :: "(bool \<Rightarrow> u64 \<Rightarrow> u64 \<Rightarrow> 's \<Rightarrow> (int \<times> 's) option) option"

type_synonym ('c, 'a) devtab = "nat \<Rightarrow> ('c, 'a) files_scheme devsw"

definition upd_file :: "nat \<Rightarrow> (kfile \<Rightarrow> kfile) \<Rightarrow> ('c, 'a) files_scheme \<Rightarrow> ('c, 'a) files_scheme" where
  "upd_file f g s = s\<lparr>ftable := (ftable s)(f := g (ftable s f))\<rparr>"

section \<open>User memory\<close>

definition store_user :: "u64 \<Rightarrow> u8 list \<Rightarrow> ('c, 'a) files_scheme \<Rightarrow> ('c, 'a) files_scheme" where
  "store_user addr bs s = s\<lparr>umem := (\<lambda>a. if unat (a - addr) < length bs then Some (bs ! unat (a - addr)) else umem s a)\<rparr>"

text \<open>\<^verbatim>\<open>copyout\<close> and \<^verbatim>\<open>copyin\<close> stop at the first byte they cannot reach, with the bytes before it copied.\<close>

definition copyout_user :: "u64 \<Rightarrow> u8 list \<Rightarrow> ('c, 'a) files_scheme \<Rightarrow> int \<times> ('c, 'a) files_scheme" where
  "copyout_user addr bs s =
     (let k = length (takeWhile (\<lambda>i. uwr s (addr + of_nat i)) [0..<length bs])
      in (if k < length bs then -1 else 0, store_user addr (take k bs) s))"

definition user_bytes :: "u64 \<Rightarrow> nat \<Rightarrow> ('c, 'a) files_scheme \<Rightarrow> u8 list" where
  "user_bytes addr n s = map the (takeWhile (\<lambda>x. x \<noteq> None) (map (\<lambda>i. umem s (addr + of_nat i)) [0..<n]))"

definition copyin_user :: "u64 \<Rightarrow> nat \<Rightarrow> ('c, 'a) files_scheme \<Rightarrow> u8 list option" where
  "copyin_user addr n s = (let bs = user_bytes addr n s in if length bs < n then None else Some bs)"

section \<open>The file table\<close>

definition filealloc :: "('c, 'a) files_scheme \<Rightarrow> (nat option \<times> ('c, 'a) files_scheme) option" where
  "filealloc s = do {
     s \<leftarrow> k_acquire L_ftable s;
     case List.find (\<lambda>f. f_ref (ftable s f) = 0) [0..<NFILE] of
       Some f \<Rightarrow> do {
         let s = upd_file f (\<lambda>x. x\<lparr>f_ref := 1\<rparr>) s;
         s \<leftarrow> k_release L_ftable s;
         Some (Some f, s)
       }
     | None \<Rightarrow> do {
         s \<leftarrow> k_release L_ftable s;
         Some (None, s)
       }
   }"

definition filedup :: "nat \<Rightarrow> ('c, 'a) files_scheme \<Rightarrow> ('c, 'a) files_scheme option" where
  "filedup f s = do {
     s \<leftarrow> k_acquire L_ftable s;
     if f_ref (ftable s f) < 1 then None
     else k_release L_ftable (upd_file f (\<lambda>x. x\<lparr>f_ref := f_ref x + 1\<rparr>) s)
   }"

text \<open>\<^verbatim>\<open>pipeclose\<close> with the page given back when both ends are closed.\<close>

definition pipe_drop :: "nat \<Rightarrow> bool \<Rightarrow> ('c, 'a) files_scheme \<Rightarrow> ('c, 'a) files_scheme option" where
  "pipe_drop pi writable s = do {
     (gone, p, s) \<leftarrow> pipeclose pi writable (pipes s pi) s;
     let s = s\<lparr>pipes := (pipes s)(pi := p)\<rparr>;
     if gone then kfree pi s else Some s
   }"

definition fileclose :: "'c mmc_ops \<Rightarrow> nat \<Rightarrow> ('c, 'a) files_scheme \<Rightarrow> ('c, 'a) files_scheme option" where
  "fileclose M f s = do {
     s \<leftarrow> k_acquire L_ftable s;
     if f_ref (ftable s f) < 1 then None
     else do {
       let s = upd_file f (\<lambda>x. x\<lparr>f_ref := f_ref x - 1\<rparr>) s;
       if f_ref (ftable s f) > 0 then k_release L_ftable s
       else do {
         let ff = ftable s f;
         let s = upd_file f (\<lambda>x. x\<lparr>f_ref := 0, f_type := FD_NONE\<rparr>) s;
         s \<leftarrow> k_release L_ftable s;
         case f_type ff of
           FD_PIPE \<Rightarrow> do { pi \<leftarrow> f_pipe ff; pipe_drop pi (f_writable ff) s }
         | FD_INODE \<Rightarrow> do { i \<leftarrow> f_ip ff; iput M i s }
         | FD_DEVICE \<Rightarrow> do { i \<leftarrow> f_ip ff; iput M i s }
         | FD_NONE \<Rightarrow> Some s
       }
     }
   }"

text \<open>\<^verbatim>\<open>fdalloc\<close>: the first free descriptor from \<open>from\<close> on; a negative \<open>from\<close> reads before the table.\<close>

definition fdalloc :: "nat \<Rightarrow> int \<Rightarrow> ('c, 'a) files_scheme \<Rightarrow> (int \<times> ('c, 'a) files_scheme) option" where
  "fdalloc f from s =
     (if from < 0 then None
      else case List.find (\<lambda>fd. ofile s fd = None) [nat from..<NOFILE] of
        Some fd \<Rightarrow> Some (int fd, s\<lparr>ofile := (ofile s)(fd := Some f)\<rparr>)
      | None \<Rightarrow> Some (- EBADF, s))"

definition pipealloc :: "'c mmc_ops \<Rightarrow> (nat \<Rightarrow> u8) \<Rightarrow> u32 \<Rightarrow> ('c, 'a) files_scheme \<Rightarrow>
    ((nat \<times> nat) option \<times> ('c, 'a) files_scheme) option" where
  "pipealloc M junk flags s = do {
     (f0, s) \<leftarrow> filealloc s;
     case f0 of
       None \<Rightarrow> Some (None, s)
     | Some f0 \<Rightarrow> do {
         (f1, s) \<leftarrow> filealloc s;
         case f1 of
           None \<Rightarrow> do { s \<leftarrow> fileclose M f0 s; Some (None, s) }
         | Some f1 \<Rightarrow> do {
             (pi, s) \<leftarrow> kalloc s;
             let s = s\<lparr>pipes := (pipes s)(pi := pipe_init junk)\<rparr>;
             let s = upd_file f0 (\<lambda>x. x\<lparr>f_type := FD_PIPE, f_readable := True, f_writable := False, f_pipe := Some pi,
                       f_flags := O_RDONLY OR (flags AND PIPE2_FLAGS), f_off := 0\<rparr>) s;
             let s = upd_file f1 (\<lambda>x. x\<lparr>f_type := FD_PIPE, f_readable := False, f_writable := True, f_pipe := Some pi,
                       f_flags := O_WRONLY OR O_APPEND OR (flags AND PIPE2_FLAGS), f_off := 0\<rparr>) s;
             Some (Some (f0, f1), s)
           }
       }
   }"

section \<open>Reading and writing\<close>

text \<open>
  The bytes of a read into a kernel buffer are part of the result; those of a read into user memory are
  stored there. A pipe and a device always copy to the user address, whatever \<open>user\<close> says.
\<close>

definition fileread :: "'c mmc_ops \<Rightarrow> ('c, 'a) devtab \<Rightarrow> nat \<Rightarrow> u64 \<Rightarrow> int \<Rightarrow> bool \<Rightarrow> ('c, 'a) files_scheme \<Rightarrow>
    (int \<times> u8 list \<times> ('c, 'a) files_scheme) option" where
  "fileread M D f addr n user s =
     (if \<not> f_readable (ftable s f) then Some (-1, [], s)
      else case f_type (ftable s f) of
        FD_PIPE \<Rightarrow> do {
          pi \<leftarrow> f_pipe (ftable s f);
          (r, chs, p, s) \<leftarrow> piperead pi (\<lambda>i _. uwr s (addr + of_nat i)) (p_killed s) n (pipes s pi) s;
          case r of
            Blocked _ \<Rightarrow> None
          | Done k \<Rightarrow> Some (k, [], store_user addr (take (nat k) chs) (s\<lparr>pipes := (pipes s)(pi := p)\<rparr>))
        }
      | FD_DEVICE \<Rightarrow>
          (let mj = sint (f_major (ftable s f))
           in if mj < 0 \<or> int NDEV \<le> mj then Some (- EINVAL, [], s)
              else case d_read (D (nat mj)) of
                None \<Rightarrow> Some (- EINVAL, [], s)
              | Some rd \<Rightarrow> do { (r, s) \<leftarrow> rd True addr n s; Some (r, [], s) })
      | FD_INODE \<Rightarrow> do {
          i \<leftarrow> f_ip (ftable s f);
          s \<leftarrow> ilock M i s;
          (r, bs, s) \<leftarrow> readi M i (if user then (\<lambda>k. uwr s (addr + of_nat k)) else (\<lambda>_. True)) (f_off (ftable s f)) (of_int n) s;
          let s = (if user then store_user addr bs s else s);
          let s = (if r > 0 then upd_file f (\<lambda>x. x\<lparr>f_off := f_off x + of_int r\<rparr>) s else s);
          let s = upd_inode i (\<lambda>ip. ip\<lparr>d_atime := now s\<rparr>) s;
          s \<leftarrow> iunlock i s;
          Some (r, if user then [] else bs, s)
        }
      | FD_NONE \<Rightarrow> None)"

definition max_write :: int where
  "max_write = int (((MAXOPBLOCKS - 1 - 2 - 2) div 2) * BSIZE)"

text \<open>The loop of \<^verbatim>\<open>filewrite\<close> on a file; the result is the final value of the C variable \<open>i\<close>.\<close>

function filewrite_loop :: "'c mmc_ops \<Rightarrow> nat \<Rightarrow> nat \<Rightarrow> (nat \<Rightarrow> u8 option) \<Rightarrow> int \<Rightarrow> int \<Rightarrow> ('c, 'a) files_scheme \<Rightarrow>
    (int \<times> ('c, 'a) files_scheme) option" where
  "filewrite_loop M f i src n k s =
     (if k < n then do {
        let n1 = min max_write (n - k);
        s \<leftarrow> ilock M i s;
        (r, s) \<leftarrow> writei M i (\<lambda>j. src (nat k + j)) (f_off (ftable s f)) (of_int n1) s;
        let s = (if r > 0 then upd_file f (\<lambda>x. x\<lparr>f_off := f_off x + of_int r\<rparr>) s else s);
        let s = upd_inode i (\<lambda>ip. ip\<lparr>d_mtime := now s, d_atime := now s\<rparr>) s;
        s \<leftarrow> iunlock i s;
        if r \<noteq> n1 then Some (k, s) else filewrite_loop M f i src n (k + r) s
      } else Some (k, s))"
  by pat_completeness auto
termination
  by (relation "measure (\<lambda>(M, f, i, src, n, k, s). nat (n - k))") (auto simp: max_write_def MAXOPBLOCKS_def BSIZE_def)

declare filewrite_loop.simps [simp del]

text \<open>For a kernel buffer \<open>kbuf\<close> are its bytes.\<close>

definition filewrite :: "'c mmc_ops \<Rightarrow> ('c, 'a) devtab \<Rightarrow> nat \<Rightarrow> u64 \<Rightarrow> (nat \<Rightarrow> u8) \<Rightarrow> int \<Rightarrow> bool \<Rightarrow> ('c, 'a) files_scheme \<Rightarrow>
    (int \<times> ('c, 'a) files_scheme) option" where
  "filewrite M D f addr kbuf n user s =
     (if \<not> f_writable (ftable s f) then Some (-1, s)
      else case f_type (ftable s f) of
        FD_PIPE \<Rightarrow> do {
          pi \<leftarrow> f_pipe (ftable s f);
          (r, _, p, s) \<leftarrow> pipewrite pi (\<lambda>i. umem s (addr + of_nat i)) (\<lambda>_. p_killed s) n (pipes s pi) s;
          case r of
            Blocked _ \<Rightarrow> None
          | Done k \<Rightarrow> Some (k, s\<lparr>pipes := (pipes s)(pi := p)\<rparr>)
        }
      | FD_DEVICE \<Rightarrow>
          (let mj = sint (f_major (ftable s f))
           in if mj < 0 \<or> int NDEV \<le> mj then Some (-1, s)
              else case d_write (D (nat mj)) of
                None \<Rightarrow> Some (-1, s)
              | Some wr \<Rightarrow> wr True addr n s)
      | FD_INODE \<Rightarrow> do {
          i \<leftarrow> f_ip (ftable s f);
          (k, s) \<leftarrow> filewrite_loop M f i (if user then (\<lambda>j. umem s (addr + of_nat j)) else (\<lambda>j. Some (kbuf j))) n 0 s;
          Some (if k = n then n else -1, s)
        }
      | FD_NONE \<Rightarrow> None)"

text \<open>
  \<^verbatim>\<open>sendfile\<close> copies the user's 64-bit offset over the 32-bit \<^verbatim>\<open>off\<close> of the file and the \<^verbatim>\<open>flags\<close> that
  follow it, and copies both back; \<open>off_bytes\<close> are these eight bytes. The kernel buffer is the page
  \<open>buf\<close>, whose old bytes are \<open>junk\<close>.
\<close>

definition off_bytes :: "kfile \<Rightarrow> nat \<Rightarrow> u8" where
  "off_bytes x = put32 (f_flags x) 4 (put32 (f_off x) 0 (\<lambda>_. 0))"

definition set_off_bytes :: "u8 list \<Rightarrow> kfile \<Rightarrow> kfile" where
  "set_off_bytes bs x =
     (let g = (\<lambda>k. if k < length bs then bs ! k else off_bytes x k) in x\<lparr>f_off := get32 g 0, f_flags := get32 g 4\<rparr>)"

function sendfile_loop :: "'c mmc_ops \<Rightarrow> ('c, 'a) devtab \<Rightarrow> nat \<Rightarrow> nat \<Rightarrow> u64 \<Rightarrow> (nat \<Rightarrow> u8) \<Rightarrow> nat \<Rightarrow> nat \<Rightarrow> ('c, 'a) files_scheme \<Rightarrow>
    (int \<times> ('c, 'a) files_scheme) option" where
  "sendfile_loop M D out_f in_f buf kbuf count bytes s = do {
     let n = (if count > PAGE_SIZE then PAGE_SIZE else count);
     (r, bs, s) \<leftarrow> fileread M D in_f buf (int n) False s;
     if r \<noteq> int n then Some (- EIO, s)
     else do {
       let kbuf = (\<lambda>k. if k < length bs then bs ! k else kbuf k);
       (r, s) \<leftarrow> filewrite M D out_f buf kbuf (int n) False s;
       if r \<noteq> int n then Some (- EIO, s)
       else if count - n = 0 then Some (int (bytes + n), s)
       else sendfile_loop M D out_f in_f buf kbuf (count - n) (bytes + n) s
     }
   }"
  by pat_completeness auto
termination
  by (relation "measure (\<lambda>(M, D, out_f, in_f, buf, kbuf, count, bytes, s). count)") (auto simp: PAGE_SIZE_def split: if_splits)

declare sendfile_loop.simps [simp del]

definition sendfile :: "'c mmc_ops \<Rightarrow> ('c, 'a) devtab \<Rightarrow> (nat \<Rightarrow> u8) \<Rightarrow> nat \<Rightarrow> nat \<Rightarrow> u64 \<Rightarrow> u64 \<Rightarrow> ('c, 'a) files_scheme \<Rightarrow>
    (int \<times> ('c, 'a) files_scheme) option" where
  "sendfile M D junk out_f in_f offsetp count s = do {
     (buf, s) \<leftarrow> kalloc s;
     let offset = f_off (ftable s in_f);
     let s = (if offsetp \<noteq> 0 then upd_file in_f (set_off_bytes (user_bytes offsetp 8 s)) s else s);
     (r, s) \<leftarrow> sendfile_loop M D out_f in_f (of_nat buf) junk (unat count) 0 s;
     let s = (if offsetp \<noteq> 0 \<and> 0 \<le> r
              then upd_file in_f (\<lambda>x. x\<lparr>f_off := offset\<rparr>) (snd (copyout_user offsetp (map (off_bytes (ftable s in_f)) [0..<8]) s))
              else s);
     s \<leftarrow> kfree buf s;
     Some (r, s)
   }"

definition writeback :: "'c mmc_ops \<Rightarrow> nat option \<Rightarrow> u64 \<Rightarrow> u64 \<Rightarrow> ('c, 'a) files_scheme \<Rightarrow> (int \<times> ('c, 'a) files_scheme) option" where
  "writeback M f off addr s =
     (case f of
        None \<Rightarrow> Some (0, s)
      | Some f \<Rightarrow>
          if \<not> f_writable (ftable s f) \<or> f_type (ftable s f) \<noteq> FD_INODE then Some (0, s)
          else do {
            i \<leftarrow> f_ip (ftable s f);
            let sz = ucast (d_size (itable s i));
            let n = (ucast (if sz <s off + of_nat PAGE_SIZE then sz - off else of_nat PAGE_SIZE :: u64) :: u32);
            s \<leftarrow> ilock M i s;
            (r, s) \<leftarrow> writei M i (\<lambda>j. umem s (addr + of_nat j)) (ucast off) n s;
            let s = upd_inode i (\<lambda>ip. ip\<lparr>d_mtime := now s, d_atime := now s\<rparr>) s;
            s \<leftarrow> iunlock i s;
            Some (if (of_int r :: u32) = n then r else -1, s)
          })"

definition fileioctl :: "('c, 'a) devtab \<Rightarrow> nat \<Rightarrow> u64 \<Rightarrow> u64 \<Rightarrow> ('c, 'a) files_scheme \<Rightarrow> (int \<times> ('c, 'a) files_scheme) option" where
  "fileioctl D f request argp s =
     (if f_type (ftable s f) = FD_INODE \<and> (request = TCSBRK \<or> request = TCFLSH) then Some (0, s)
      else if f_type (ftable s f) \<noteq> FD_DEVICE then Some (- EINVAL, s)
      else let mj = sint (f_major (ftable s f))
           in if mj < 0 \<or> int NDEV \<le> mj then Some (- EINVAL, s)
              else case d_ioctl (D (nat mj)) of
                None \<Rightarrow> Some (- EINVAL, s)
              | Some io \<Rightarrow> io True request argp s)"

definition SEEK_SET :: int where "SEEK_SET = 0"
definition SEEK_CUR :: int where "SEEK_CUR = 1"
definition SEEK_END :: int where "SEEK_END = 2"

text \<open>\<^verbatim>\<open>off_t\<close> is an unsigned 64-bit type, so none of the tests for a negative position holds.\<close>

definition filelseek :: "nat \<Rightarrow> u64 \<Rightarrow> int \<Rightarrow> ('c, 'a) files_scheme \<Rightarrow> (int \<times> ('c, 'a) files_scheme) option" where
  "filelseek f offset whence s = do {
     r \<leftarrow> (if whence = SEEK_SET then Some (Some (ucast offset))
            else if whence = SEEK_CUR then Some (Some (ucast (ucast (f_off (ftable s f)) + offset)))
            else if whence = SEEK_END then do { i \<leftarrow> f_ip (ftable s f); Some (Some (ucast (ucast (d_size (itable s i)) + offset))) }
            else Some None);
     Some (case r of
             None \<Rightarrow> (- EINVAL, s)
           | Some off \<Rightarrow> (uint off, upd_file f (\<lambda>x. x\<lparr>f_off := off\<rparr>) s))
   }"

section \<open>Status\<close>

definition stat_of :: "(nat \<Rightarrow> u8) \<Rightarrow> stat" where
  "stat_of g = \<lparr>st_dev = get64 g 0, st_ino = get64 g 8, st_nlink = get32 g 20, st_uid = get32 g 24, st_gid = get32 g 28,
     st_size = get64 g 48, st_blksize = get32 g 56, st_blocks = get64 g 64, st_atime = timespec_of g 72,
     st_mtime = timespec_of g 88, st_ctime = timespec_of g 104, st_rdev = get64 g 32, st_mode = get32 g 16\<rparr>"

definition put_stat :: "stat \<Rightarrow> (nat \<Rightarrow> u8) \<Rightarrow> nat \<Rightarrow> u8" where
  "put_stat st g =
     (let g = put64 (st_dev st) 0 g; g = put64 (st_ino st) 8 g; g = put32 (st_mode st) 16 g; g = put32 (st_nlink st) 20 g;
          g = put32 (st_uid st) 24 g; g = put32 (st_gid st) 28 g; g = put64 (st_rdev st) 32 g; g = put64 (st_size st) 48 g;
          g = put32 (st_blksize st) 56 g; g = put64 (st_blocks st) 64 g; g = put_timespec (st_atime st) 72 g;
          g = put_timespec (st_mtime st) 88 g
      in put_timespec (st_ctime st) 104 g)"

definition sizeof_stat :: nat where "sizeof_stat = 128"

text \<open>\<open>g\<close> are the bytes the local \<^verbatim>\<open>struct stat\<close> has on the kernel stack; what is not set is copied out as it is.\<close>

definition filestat :: "'c mmc_ops \<Rightarrow> (nat \<Rightarrow> u8) \<Rightarrow> nat \<Rightarrow> u64 \<Rightarrow> ('c, 'a) files_scheme \<Rightarrow> (int \<times> ('c, 'a) files_scheme) option" where
  "filestat M g f addr s =
     (let out = (\<lambda>st s. case copyout_user addr (map (put_stat st g) [0..<sizeof_stat]) s of
                          (r, s) \<Rightarrow> (if r < 0 then - EFAULT else 0, s))
      in case f_type (ftable s f) of
        FD_NONE \<Rightarrow> Some (- EFAULT, s)
      | FD_PIPE \<Rightarrow> Some (out ((stat_of g)\<lparr>st_mode := S_IFCHR OR S_IRUSR OR S_IWUSR, st_size := 0, st_nlink := 1, st_blocks := 0, st_blksize := 4096\<rparr>) s)
      | _ \<Rightarrow> do {
          i \<leftarrow> f_ip (ftable s f);
          s \<leftarrow> ilock M i s;
          st \<leftarrow> stati i (stat_of g) s;
          s \<leftarrow> iunlock i s;
          Some (out st s)
        })"

end
