(* ===== verification/File_Path.thy ===== *)
theory File_Path
  imports File
begin

text \<open>
  The operations of \<^verbatim>\<open>kernel/file.c\<close> that take path names: links, removal, creation, opening, permission
  and ownership, renaming. Every early return is followed with the locks and references the code has at
  that point, also where it forgets to give them back.
\<close>

unbundle bit_operations_syntax

section \<open>Paths relative to a descriptor\<close>

text \<open>
  \<^verbatim>\<open>namex\<close> starts at \<^verbatim>\<open>ofile[dirfd]->ip\<close> when the path is relative and \<^verbatim>\<open>dirfd\<close> is not \<^verbatim>\<open>AT_FDCWD\<close>; without such a
  file it follows a wild pointer.
\<close>

definition at_dirfd :: "u8 list \<Rightarrow> int \<Rightarrow> ('c, 'a) files_scheme \<Rightarrow> ('c, 'a) files_scheme option" where
  "at_dirfd path dirfd s =
     (if path \<noteq> [] \<and> hd path = SLASH \<or> dirfd = AT_FDCWD then Some s
      else if dirfd < 0 \<or> int NOFILE \<le> dirfd then None
      else do {
        f \<leftarrow> ofile s (nat dirfd);
        i \<leftarrow> f_ip (ftable s f);
        Some (s\<lparr>ofile_ip := (ofile_ip s)(dirfd := i)\<rparr>)
      })"

definition namei_at :: "'c mmc_ops \<Rightarrow> u8 list \<Rightarrow> int \<Rightarrow> ('c, 'a) files_scheme \<Rightarrow> (nat option \<times> ('c, 'a) files_scheme) option" where
  "namei_at M path dirfd s = do { s \<leftarrow> at_dirfd path dirfd s; namei M path dirfd s }"

definition nameiparent_at :: "'c mmc_ops \<Rightarrow> u8 list \<Rightarrow> (nat \<Rightarrow> u8) \<Rightarrow> int \<Rightarrow> ('c, 'a) files_scheme \<Rightarrow>
    (nat option \<times> (nat \<Rightarrow> u8) \<times> ('c, 'a) files_scheme) option" where
  "nameiparent_at M path name dirfd s = do { s \<leftarrow> at_dirfd path dirfd s; nameiparent M path name dirfd s }"

text \<open>A C string literal as a name, and the path a kernel buffer holds after reading \<open>bs\<close> into it.\<close>

definition cname :: "string \<Rightarrow> nat \<Rightarrow> u8" where
  "cname str k = (if k < length str then of_nat (of_char (str ! k)) else 0)"

definition cpath :: "u8 list \<Rightarrow> u8 list" where
  "cpath bs = takeWhile (\<lambda>c. c \<noteq> 0) bs"

section \<open>Links\<close>

definition filelink :: "'c mmc_ops \<Rightarrow> (nat \<Rightarrow> u8) \<Rightarrow> u8 list \<Rightarrow> int \<Rightarrow> u8 list \<Rightarrow> int \<Rightarrow> ('c, 'a) files_scheme \<Rightarrow>
    (int \<times> ('c, 'a) files_scheme) option" where
  "filelink M name oldpath olddirfd newpath newdirfd s = do {
     (r, s) \<leftarrow> namei_at M oldpath olddirfd s;
     case r of
       None \<Rightarrow> Some (- ENOENT, s)
     | Some ip \<Rightarrow> do {
         s \<leftarrow> ilock M ip s;
         if d_type (itable s ip) = T_DIR then do { s \<leftarrow> iunlockput M ip s; Some (- EPERM, s) }
         else do {
           s \<leftarrow> iupdate M ip (upd_inode ip (\<lambda>x. x\<lparr>d_nlink := d_nlink x + 1\<rparr>) s);
           s \<leftarrow> iunlock ip s;
           (r, name, s) \<leftarrow> nameiparent_at M newpath name newdirfd s;
           (err, s) \<leftarrow> (case r of
             None \<Rightarrow> Some (- ENOENT, s)
           | Some dp \<Rightarrow> do {
               s \<leftarrow> ilock M dp s;
               if i_dev (itable s dp) \<noteq> i_dev (itable s ip) then do { s \<leftarrow> iunlockput M dp s; Some (- EXDEV, s) }
               else do {
                 (e, s) \<leftarrow> dirlink M dp name (i_inum (itable s ip)) (d_type (itable s ip)) s;
                 s \<leftarrow> iunlockput M dp s;
                 Some (e, s)
               }
             });
           if err = 0 then do { s \<leftarrow> iput M ip s; Some (0, s) }
           else do {
             s \<leftarrow> ilock M ip s;
             s \<leftarrow> iupdate M ip (upd_inode ip (\<lambda>x. x\<lparr>d_nlink := d_nlink x - 1\<rparr>) s);
             s \<leftarrow> iunlockput M ip s;
             Some (err, s)
           }
         }
       }
   }"

definition filesymlink :: "'c mmc_ops \<Rightarrow> (nat \<Rightarrow> u8) \<Rightarrow> u8 list \<Rightarrow> u8 list \<Rightarrow> int \<Rightarrow> ('c, 'a) files_scheme \<Rightarrow>
    (int \<times> ('c, 'a) files_scheme) option" where
  "filesymlink M name target linkpath dirfd s = do {
     (r, name, s) \<leftarrow> nameiparent_at M linkpath name dirfd s;
     case r of
       None \<Rightarrow> Some (- ENOENT, s)
     | Some dp \<Rightarrow> do {
         s \<leftarrow> ilock M dp s;
         (r, s) \<leftarrow> ialloc M (i_dev (itable s dp)) T_SYMLINK s;
         case r of
           None \<Rightarrow> do { s \<leftarrow> iunlockput M dp s; Some (- ENOMEM, s) }
         | Some ip \<Rightarrow> do {
             s \<leftarrow> ilock M ip s;
             s \<leftarrow> iupdate M ip (upd_inode ip (\<lambda>x. x\<lparr>d_major := 0, d_minor := 0, d_nlink := 1, d_mode := S_IFLNK OR 0x1FF, d_type := T_SYMLINK,
                    d_atime := now s, d_mtime := now s, d_ctime := now s\<rparr>) s);
             (e, s) \<leftarrow> dirlink M dp name (i_inum (itable s ip)) (d_type (itable s ip)) s;
             if e \<noteq> 0 then do {
               s \<leftarrow> iunlockput M dp s;
               s \<leftarrow> iunlockput M ip s;
               Some (e, s)
             } else do {
               s \<leftarrow> iupdate M dp s;
               s \<leftarrow> iunlockput M dp s;
               (_, s) \<leftarrow> writei M ip (\<lambda>k. Some (if k < length target then target ! k else 0)) 0 (of_nat (length target)) s;
               s \<leftarrow> iupdate M ip s;
               s \<leftarrow> iunlockput M ip s;
               Some (0, s)
             }
           }
       }
   }"

definition filereadlink :: "'c mmc_ops \<Rightarrow> (nat \<Rightarrow> u8) \<Rightarrow> u8 list \<Rightarrow> int \<Rightarrow> u64 \<Rightarrow> u64 \<Rightarrow> ('c, 'a) files_scheme \<Rightarrow>
    (int \<times> ('c, 'a) files_scheme) option" where
  "filereadlink M name path dirfd buf bufsize s = do {
     (r, _, s) \<leftarrow> nameiparent_at M path name dirfd s;
     case r of
       None \<Rightarrow> Some (- ENOTDIR, s)
     | Some dp \<Rightarrow> do {
         s \<leftarrow> iput M dp s;
         (r, s) \<leftarrow> namei_at M path dirfd s;
         case r of
           None \<Rightarrow> Some (- ENOENT, s)
         | Some ip \<Rightarrow> do {
             s \<leftarrow> ilock M ip s;
             if d_type (itable s ip) \<noteq> T_SYMLINK then do { s \<leftarrow> iunlockput M ip s; Some (- EINVAL, s) }
             else do {
               (n, bs, s) \<leftarrow> readi M ip (\<lambda>k. uwr s (buf + of_nat k)) 0 (ucast bufsize) s;
               let s = store_user buf bs s;
               s \<leftarrow> iunlockput M ip s;
               Some (if n \<le> 0 then - EIO else n, s)
             }
           }
       }
   }"

section \<open>Removal\<close>

primrec dirempty_loop :: "'c mmc_ops \<Rightarrow> nat \<Rightarrow> nat list \<Rightarrow> ('c, 'a) files_scheme \<Rightarrow> (bool \<times> ('c, 'a) files_scheme) option" where
  "dirempty_loop M dp [] s = Some (True, s)"
| "dirempty_loop M dp (off # offs) s = do {
     (de, s) \<leftarrow> read_dirent M dp off s;
     if de_inum de \<noteq> 0 then Some (False, s) else dirempty_loop M dp offs s
   }"

definition isdirempty :: "'c mmc_ops \<Rightarrow> nat \<Rightarrow> ('c, 'a) files_scheme \<Rightarrow> (bool \<times> ('c, 'a) files_scheme) option" where
  "isdirempty M dp s = dirempty_loop M dp (drop 2 (dir_offsets dp s)) s"

text \<open>The error of \<^verbatim>\<open>fileunlink\<close> is kept in a \<^verbatim>\<open>uint32_t\<close> and returned as a \<^verbatim>\<open>long\<close>.\<close>

definition ret_u32 :: "int \<Rightarrow> int" where
  "ret_u32 e = uint (of_int e :: u32)"

definition fileunlink :: "'c mmc_ops \<Rightarrow> (nat \<Rightarrow> u8) \<Rightarrow> u8 list \<Rightarrow> int \<Rightarrow> u32 \<Rightarrow> ('c, 'a) files_scheme \<Rightarrow>
    (int \<times> ('c, 'a) files_scheme) option" where
  "fileunlink M name path dirfd flags s = do {
     (r, name, s) \<leftarrow> nameiparent_at M path name dirfd s;
     case r of
       None \<Rightarrow> Some (- ENOENT, s)
     | Some dp \<Rightarrow> do {
         s \<leftarrow> ilock M dp s;
         if namecmp name (cname ''.'') = 0 \<or> namecmp name (cname ''..'') = 0 then do {
           s \<leftarrow> iunlockput M dp s;
           Some (ret_u32 (- EPERM), s)
         } else do {
           (r, s) \<leftarrow> dirlookup M dp name s;
           case r of
             None \<Rightarrow> do { s \<leftarrow> iunlockput M dp s; Some (ret_u32 (- ENOENT), s) }
           | Some (ip, off) \<Rightarrow> do {
               s \<leftarrow> ilock M ip s;
               (err, s) \<leftarrow>
                 (if sint (d_nlink (itable s ip)) < 1 then Some (- EPERM, s)
                  else if flags AND AT_REMOVEDIR \<noteq> 0 then
                    if d_type (itable s ip) \<noteq> T_DIR then Some (- ENOTDIR, s)
                    else do {
                      (e, s) \<leftarrow> isdirempty M ip s;
                      Some (if e then 0 else - EPERM, s)
                    }
                  else if d_type (itable s ip) = T_DIR then Some (- EISDIR, s)
                  else Some (0, s));
               (err, s) \<leftarrow>
                 (if err \<noteq> 0 then Some (err, s)
                  else do { (r, s) \<leftarrow> unlink M dp off s; Some (if r < 0 then - EIO else 0, s) });
               if err \<noteq> 0 then do {
                 s \<leftarrow> iunlockput M ip s;
                 s \<leftarrow> iunlockput M dp s;
                 Some (ret_u32 err, s)
               } else do {
                 s \<leftarrow> (if d_type (itable s ip) = T_DIR then iupdate M dp (upd_inode dp (\<lambda>x. x\<lparr>d_nlink := d_nlink x - 1\<rparr>) s) else Some s);
                 s \<leftarrow> iunlockput M dp s;
                 s \<leftarrow> iupdate M ip (upd_inode ip (\<lambda>x. x\<lparr>d_nlink := d_nlink x - 1\<rparr>) s);
                 s \<leftarrow> iunlockput M ip s;
                 Some (0, s)
               }
             }
         }
       }
   }"

section \<open>Creation\<close>

text \<open>
  What \<^verbatim>\<open>create\<close> returns: a locked inode, an error number as a pointer, or the null pointer.
\<close>

datatype created = New nat | Bad int | Null

definition new_dots :: "'c mmc_ops \<Rightarrow> u16 \<Rightarrow> nat \<Rightarrow> nat \<Rightarrow> ('c, 'a) files_scheme \<Rightarrow> (bool \<times> ('c, 'a) files_scheme) option" where
  "new_dots M type ip dp s =
     (if type = T_DIR then do {
        (e, s) \<leftarrow> dirlink M ip (cname ''.'') (i_inum (itable s ip)) (d_type (itable s ip)) s;
        if e < 0 then Some (False, s)
        else do {
          (e, s) \<leftarrow> dirlink M ip (cname ''..'') (i_inum (itable s dp)) (d_type (itable s dp)) s;
          Some (0 \<le> e, s)
        }
      } else Some (True, s))"

definition create :: "'c mmc_ops \<Rightarrow> (nat \<Rightarrow> u8) \<Rightarrow> u8 list \<Rightarrow> int \<Rightarrow> u16 \<Rightarrow> u16 \<Rightarrow> u16 \<Rightarrow> u32 \<Rightarrow> ('c, 'a) files_scheme \<Rightarrow>
    (created \<times> ('c, 'a) files_scheme) option" where
  "create M name path dirfd type major minor mode s = do {
     (r, name, s) \<leftarrow> nameiparent_at M path name dirfd s;
     case r of
       None \<Rightarrow> Some (Bad (- ENOENT), s)
     | Some dp \<Rightarrow> do {
         s \<leftarrow> ilock M dp s;
         if permission dp MAY_EXEC s < 0 then do { s \<leftarrow> iunlockput M dp s; Some (Bad (- EACCES), s) }
         else do {
           (r, s) \<leftarrow> dirlookup M dp name s;
           case r of
             Some (ip, _) \<Rightarrow> do {
               s \<leftarrow> iunlockput M dp s;
               s \<leftarrow> ilock M ip s;
               if type = T_FILE \<and> (d_type (itable s ip) = T_FILE \<or> d_type (itable s ip) = T_DEVICE) then Some (New ip, s)
               else do { s \<leftarrow> iunlockput M ip s; Some (Bad (- EEXIST), s) }
             }
           | None \<Rightarrow> do {
               (r, s) \<leftarrow> ialloc M (i_dev (itable s dp)) type s;
               case r of
                 None \<Rightarrow> do { s \<leftarrow> iunlockput M dp s; Some (Bad (- ENOMEM), s) }
               | Some ip \<Rightarrow> do {
                   s \<leftarrow> ilock M ip s;
                   s \<leftarrow> iupdate M ip (upd_inode ip (\<lambda>x. x\<lparr>d_major := major, d_minor := minor, d_nlink := 1, d_mode := mode AND NOT (p_umask s),
                          d_type := type, d_atime := now s, d_mtime := now s, d_ctime := now s, d_uid := p_uid s, d_gid := p_gid s\<rparr>) s);
                   (ok, s) \<leftarrow> new_dots M type ip dp s;
                   (ok, s) \<leftarrow>
                     (if \<not> ok then Some (False, s)
                      else do {
                        (e, s) \<leftarrow> dirlink M dp name (i_inum (itable s ip)) (d_type (itable s ip)) s;
                        Some (0 \<le> e, s)
                      });
                   if ok then do {
                     s \<leftarrow> (if type = T_DIR then iupdate M dp (upd_inode dp (\<lambda>x. x\<lparr>d_nlink := d_nlink x + 1\<rparr>) s) else Some s);
                     s \<leftarrow> iunlockput M dp s;
                     Some (New ip, s)
                   } else do {
                     s \<leftarrow> iupdate M ip (upd_inode ip (\<lambda>x. x\<lparr>d_nlink := 0\<rparr>) s);
                     s \<leftarrow> iunlockput M ip s;
                     s \<leftarrow> iunlockput M dp s;
                     Some (Null, s)
                   }
                 }
             }
         }
       }
   }"

section \<open>Opening\<close>

text \<open>
  The loop of \<^verbatim>\<open>fileopen\<close> that follows symbolic links: the inode, locked, or the error. The path of a link is
  at most 511 bytes.
\<close>

partial_function (option) open_loop :: "'c mmc_ops \<Rightarrow> u8 list \<Rightarrow> int \<Rightarrow> u32 \<Rightarrow> ('c, 'a) files_scheme \<Rightarrow>
    ((int + nat) \<times> ('c, 'a) files_scheme) option" where
  "open_loop M path dirfd flags s = do {
     (r, s) \<leftarrow> namei_at M path dirfd s;
     case r of
       None \<Rightarrow> Some (Inl (- ENOENT), s)
     | Some ip \<Rightarrow> do {
         s \<leftarrow> ilock M ip s;
         if d_type (itable s ip) = T_DIR \<and> flags AND O_ACCMODE \<noteq> 0 then do {
           s \<leftarrow> iunlockput M ip s;
           Some (Inl (- EINVAL), s)
         } else if d_type (itable s ip) = T_SYMLINK then do {
           (n, bs, s) \<leftarrow> readi M ip (\<lambda>_. True) 0 511 s;
           s \<leftarrow> iunlockput M ip s;
           if n \<le> 0 then Some (Inl (- ENOENT), s) else open_loop M (cpath bs) dirfd flags s
         } else Some (Inr ip, s)
       }
   }"

text \<open>The inode \<^verbatim>\<open>fileopen\<close> opens, locked. An error pointer of \<^verbatim>\<open>create\<close> is taken for an inode and followed.\<close>

definition open_inode :: "'c mmc_ops \<Rightarrow> (nat \<Rightarrow> u8) \<Rightarrow> u8 list \<Rightarrow> int \<Rightarrow> u32 \<Rightarrow> u32 \<Rightarrow> ('c, 'a) files_scheme \<Rightarrow>
    ((int + nat) \<times> ('c, 'a) files_scheme) option" where
  "open_inode M name path dirfd flags mode s =
     (if flags AND O_CREAT \<noteq> 0 then do {
        (r, s) \<leftarrow> namei_at M path dirfd s;
        case r of
          Some ip \<Rightarrow>
            if flags AND O_EXCL \<noteq> 0 then do { s \<leftarrow> iput M ip s; Some (Inl (- EEXIST), s) }
            else do { s \<leftarrow> ilock M ip s; Some (Inr ip, s) }
        | None \<Rightarrow> do {
            (r, s) \<leftarrow> create M name path dirfd T_FILE 0 0 (mode OR S_IFREG) s;
            case r of New ip \<Rightarrow> Some (Inr ip, s) | Null \<Rightarrow> Some (Inl (- EDQUOT), s) | Bad _ \<Rightarrow> None
          }
      } else open_loop M path dirfd flags s)"

definition bit_add :: "u32 \<Rightarrow> nat \<Rightarrow> u32" where "bit_add p n = p OR push_bit n 1"
definition bit_remove :: "u32 \<Rightarrow> nat \<Rightarrow> u32" where "bit_remove p n = p AND NOT (push_bit n 1)"

text \<open>From the permission tests on. When no descriptor is left the reference to the inode is not given back.\<close>

definition open_file :: "'c mmc_ops \<Rightarrow> nat \<Rightarrow> u32 \<Rightarrow> ('c, 'a) files_scheme \<Rightarrow> (int \<times> ('c, 'a) files_scheme) option" where
  "open_file M ip flags s =
     (if FILE_READABLE flags \<and> permission ip MAY_READ s < 0 \<or> FILE_WRITABLE flags \<and> permission ip MAY_WRITE s < 0 then do {
        s \<leftarrow> iunlockput M ip s;
        Some (- EACCES, s)
      } else do {
        (r, s) \<leftarrow> filealloc s;
        case r of
          None \<Rightarrow> do { s \<leftarrow> iunlock ip s; Some (- ENOSPC, s) }
        | Some f \<Rightarrow> do {
            (fd, s) \<leftarrow> fdalloc f 0 s;
            if fd < 0 then do {
              s \<leftarrow> iunlock ip s;
              s \<leftarrow> fileclose M f s;
              Some (- ENOSPC, s)
            } else do {
              let s = upd_file f (\<lambda>x. if d_type (itable s ip) = T_DEVICE then x\<lparr>f_type := FD_DEVICE, f_major := d_major (itable s ip)\<rparr>
                        else x\<lparr>f_type := FD_INODE, f_off := (if flags AND O_APPEND \<noteq> 0 then d_size (itable s ip) else 0), f_major := 0\<rparr>) s;
              let s = upd_file f (\<lambda>x. x\<lparr>f_ip := Some ip, f_flags := flags, f_readable := FILE_READABLE flags, f_writable := FILE_WRITABLE flags\<rparr>) s;
              let s = s\<lparr>fdflag := (if flags AND O_CLOEXEC \<noteq> 0 then bit_add (fdflag s) (nat fd) else fdflag s)\<rparr>;
              s \<leftarrow> iunlock ip s;
              Some (fd, s)
            }
          }
      })"

definition fileopen :: "'c mmc_ops \<Rightarrow> (nat \<Rightarrow> u8) \<Rightarrow> u8 list \<Rightarrow> int \<Rightarrow> u32 \<Rightarrow> u32 \<Rightarrow> ('c, 'a) files_scheme \<Rightarrow>
    (int \<times> ('c, 'a) files_scheme) option" where
  "fileopen M name path dirfd flags mode s = do {
     (r, s) \<leftarrow> open_inode M name path dirfd flags mode s;
     case r of Inl e \<Rightarrow> Some (e, s) | Inr ip \<Rightarrow> open_file M ip flags s
   }"

partial_function (option) get_loop :: "'c mmc_ops \<Rightarrow> u8 list \<Rightarrow> ('c, 'a) files_scheme \<Rightarrow> ((int + nat) \<times> ('c, 'a) files_scheme) option" where
  "get_loop M path s = do {
     (r, s) \<leftarrow> namei_at M path AT_FDCWD s;
     case r of
       None \<Rightarrow> Some (Inl (- ENOENT), s)
     | Some ip \<Rightarrow> do {
         s \<leftarrow> ilock M ip s;
         if d_type (itable s ip) = T_SYMLINK then do {
           (n, bs, s) \<leftarrow> readi M ip (\<lambda>_. True) 0 511 s;
           s \<leftarrow> iunlockput M ip s;
           if n \<le> 0 then Some (Inl (- ENOENT), s) else get_loop M (cpath bs) s
         } else Some (Inr ip, s)
       }
   }"

text \<open>\<^verbatim>\<open>fileget\<close>; when reading is not permitted the file it allocated is lost.\<close>

definition fileget :: "'c mmc_ops \<Rightarrow> u8 list \<Rightarrow> ('c, 'a) files_scheme \<Rightarrow> ((int + nat) \<times> ('c, 'a) files_scheme) option" where
  "fileget M path s = do {
     (r, s) \<leftarrow> get_loop M path s;
     case r of
       Inl e \<Rightarrow> Some (Inl e, s)
     | Inr ip \<Rightarrow>
         if d_type (itable s ip) \<noteq> T_FILE then do { s \<leftarrow> iunlockput M ip s; Some (Inl (- EINVAL), s) }
         else do {
           (r, s) \<leftarrow> filealloc s;
           case r of
             None \<Rightarrow> do { s \<leftarrow> iunlockput M ip s; Some (Inl (- ENOSPC), s) }
           | Some f \<Rightarrow>
               if permission ip MAY_READ s < 0 then do {
                 let e = permission ip MAY_READ s;
                 s \<leftarrow> iunlockput M ip s;
                 Some (Inl e, s)
               }
               else do {
                 let s = upd_file f (\<lambda>x. x\<lparr>f_type := FD_INODE, f_ref := 1, f_ip := Some ip, f_off := 0, f_flags := O_RDONLY,
                           f_readable := True, f_writable := False\<rparr>) s;
                 s \<leftarrow> iunlock ip s;
                 Some (Inr f, s)
               }
         }
   }"

section \<open>Mode, ownership and access\<close>

definition filechmod :: "'c mmc_ops \<Rightarrow> u8 list \<Rightarrow> int \<Rightarrow> u32 \<Rightarrow> ('c, 'a) files_scheme \<Rightarrow> (int \<times> ('c, 'a) files_scheme) option" where
  "filechmod M path dirfd mode s = do {
     (r, s) \<leftarrow> namei_at M path dirfd s;
     case r of
       None \<Rightarrow> Some (- ENOENT, s)
     | Some ip \<Rightarrow> do {
         s \<leftarrow> ilock M ip s;
         s \<leftarrow> iupdate M ip (upd_inode ip (\<lambda>x. x\<lparr>d_mode := (d_mode x AND S_IFMT) OR mode\<rparr>) s);
         s \<leftarrow> iunlockput M ip s;
         Some (0, s)
       }
   }"

text \<open>
  The loop of \<^verbatim>\<open>filechown\<close>, \<^verbatim>\<open>faccess\<close> and \<^verbatim>\<open>sys_fstatat\<close>: the locked inode. The target of a link is read with
  \<^verbatim>\<open>sizeof(MAXPATH) - 1\<close>, three bytes.
\<close>

partial_function (option) follow :: "'c mmc_ops \<Rightarrow> u8 list \<Rightarrow> int \<Rightarrow> u32 \<Rightarrow> ('c, 'a) files_scheme \<Rightarrow>
    (nat option \<times> ('c, 'a) files_scheme) option" where
  "follow M path dirfd flags s = do {
     (r, s) \<leftarrow> namei_at M path dirfd s;
     case r of
       None \<Rightarrow> Some (None, s)
     | Some ip \<Rightarrow> do {
         s \<leftarrow> ilock M ip s;
         if flags AND AT_SYMLINK_NOFOLLOW = 0 \<and> d_type (itable s ip) = T_SYMLINK then do {
           (n, bs, s) \<leftarrow> readi M ip (\<lambda>_. True) 0 3 s;
           s \<leftarrow> iunlockput M ip s;
           if n \<le> 0 then Some (None, s) else follow M (cpath bs) dirfd flags s
         } else Some (Some ip, s)
       }
   }"

text \<open>The part of \<^verbatim>\<open>filechown\<close> that decides on the new owner: the error, and the inode.\<close>

definition chown_inode :: "u32 \<Rightarrow> u32 \<Rightarrow> bool \<Rightarrow> u32 \<Rightarrow> inode \<Rightarrow> bool \<times> inode" where
  "chown_inode owner grp cap euid x =
     (if owner \<noteq> - 1 \<and> \<not> cap then (False, x)
      else let x = (if owner \<noteq> - 1 then x\<lparr>d_uid := owner\<rparr> else x)
           in if grp \<noteq> - 1 \<and> \<not> cap \<and> d_uid x \<noteq> euid then (False, x)
              else let x = (if grp \<noteq> - 1 then x\<lparr>d_gid := grp\<rparr> else x)
                   in (True, if d_mode x AND S_IXUGO \<noteq> 0 \<and> \<not> cap then x\<lparr>d_mode := d_mode x AND NOT (S_ISUID OR S_ISGID)\<rparr> else x))"

definition filechown :: "'c mmc_ops \<Rightarrow> nat option \<Rightarrow> u8 list \<Rightarrow> int \<Rightarrow> u32 \<Rightarrow> u32 \<Rightarrow> u32 \<Rightarrow> ('c, 'a) files_scheme \<Rightarrow>
    (int \<times> ('c, 'a) files_scheme) option" where
  "filechown M f path dirfd owner grp flags s = do {
     (r, s) \<leftarrow> (case f of
       Some f \<Rightarrow> do { i \<leftarrow> f_ip (ftable s f); Some (Some i, s) }
     | None \<Rightarrow> follow M path dirfd flags s);
     case r of
       None \<Rightarrow> Some (- ENOENT, s)
     | Some ip \<Rightarrow> do {
         let (ok, x) = chown_inode owner grp (capable CAP_CHOWN s) (p_euid s) (itable s ip);
         let s = upd_inode ip (\<lambda>_. x) s;
         s \<leftarrow> (if ok then iupdate M ip s else Some s);
         s \<leftarrow> iunlockput M ip s;
         Some (if ok then 0 else - EPERM, s)
       }
   }"

text \<open>The tests of \<^verbatim>\<open>faccess\<close> for a caller that is not root, as they are joined in the code.\<close>

definition access_denied :: "u32 \<Rightarrow> u32 \<Rightarrow> u32 \<Rightarrow> u32 \<Rightarrow> u32 \<Rightarrow> u32 \<Rightarrow> bool" where
  "access_denied mode fmode fuid fgid uid gid \<longleftrightarrow>
     mode AND R_OK \<noteq> 0 \<and> (fuid = uid \<and> fmode AND S_IRUSR = 0) \<and> (fgid = gid \<and> fmode AND S_IRGRP = 0) \<and> fmode AND S_IROTH = 0 \<or>
     mode AND W_OK \<noteq> 0 \<and> (fuid = uid \<and> fmode AND S_IWUSR = 0) \<and> (fgid = gid \<and> fmode AND S_IWGRP = 0) \<and> fmode AND S_IWOTH = 0 \<or>
     mode AND X_OK \<noteq> 0 \<and> (fuid = uid \<and> fmode AND S_IXUSR = 0) \<and> (fgid = gid \<and> fmode AND S_IXOTH = 0) \<and> fmode AND S_IXOTH = 0"

definition faccess :: "'c mmc_ops \<Rightarrow> u8 list \<Rightarrow> int \<Rightarrow> u32 \<Rightarrow> u32 \<Rightarrow> ('c, 'a) files_scheme \<Rightarrow> (int \<times> ('c, 'a) files_scheme) option" where
  "faccess M path dirfd mode flags s =
     (if mode AND NOT S_IRWXO \<noteq> 0 then Some (- EINVAL, s)
      else do {
        (r, s) \<leftarrow> follow M path dirfd flags s;
        case r of
          None \<Rightarrow> Some (- ENOENT, s)
        | Some ip \<Rightarrow> do {
            let x = itable s ip;
            s \<leftarrow> iunlockput M ip s;
            let (uid, gid) = (if flags AND AT_EACCESS \<noteq> 0 then (p_euid s, p_egid s) else (p_uid s, p_gid s));
            Some (if mode = 0 then 0
                  else if p_uid s = 0 then if mode AND X_OK \<noteq> 0 \<and> d_mode x AND S_IXUGO = 0 then - EACCES else 0
                  else if access_denied mode (d_mode x) (d_uid x) (d_gid x) uid gid then - EACCES else 0, s)
          }
      })"

section \<open>Renaming\<close>

definition rename :: "'c mmc_ops \<Rightarrow> nat \<Rightarrow> (nat \<Rightarrow> u8) \<Rightarrow> (nat \<Rightarrow> u8) \<Rightarrow> ('c, 'a) files_scheme \<Rightarrow> (int \<times> ('c, 'a) files_scheme) option" where
  "rename M dp name1 name2 s = do {
     s \<leftarrow> ilock M dp s;
     (r, s) \<leftarrow> dirlookup M dp name1 s;
     case r of
       None \<Rightarrow> Some (- ENOENT, s)
     | Some (ip, off) \<Rightarrow> do {
         s \<leftarrow> ilock M ip s;
         let de = \<lparr>de_inum = i_inum (itable s ip), de_type = d_type (itable s ip), de_name = name2\<rparr>;
         (n, s) \<leftarrow> writei M dp (\<lambda>k. Some (dirent_bytes de ! k)) (of_nat off) (of_nat sizeof_dirent) s;
         if n \<noteq> int sizeof_dirent then Some (- ENOSPC, s)
         else do {
           s \<leftarrow> iupdate M dp s;
           s \<leftarrow> iupdate M ip (upd_inode ip (\<lambda>x. x\<lparr>d_ctime := now s\<rparr>) s);
           s \<leftarrow> iunlockput M ip s;
           s \<leftarrow> iunlockput M dp s;
           Some (0, s)
         }
       }
   }"

definition reinode :: "'c mmc_ops \<Rightarrow> nat \<Rightarrow> nat \<Rightarrow> nat \<Rightarrow> ('c, 'a) files_scheme \<Rightarrow> (int \<times> ('c, 'a) files_scheme) option" where
  "reinode M dp old_ip new_ip s = do {
     s \<leftarrow> ilock M dp s;
     s \<leftarrow> ilock M old_ip s;
     s \<leftarrow> ilock M new_ip s;
     (r, s) \<leftarrow> direntlookup M dp (i_inum (itable s old_ip)) s;
     case r of
       None \<Rightarrow> Some (- ENOENT, s)
     | Some (de, off) \<Rightarrow> do {
         let de = de\<lparr>de_inum := i_inum (itable s new_ip)\<rparr>;
         (n, s) \<leftarrow> writei M dp (\<lambda>k. Some (dirent_bytes de ! k)) (of_nat off) (of_nat sizeof_dirent) s;
         if n \<noteq> int sizeof_dirent then Some (- ENOSPC, s)
         else do {
           s \<leftarrow> iupdate M dp s;
           let s = upd_inode old_ip (\<lambda>x. x\<lparr>d_ctime := now s\<rparr>) s;
           let s = upd_inode new_ip (\<lambda>x. x\<lparr>d_ctime := now s\<rparr>) s;
           s \<leftarrow> iupdate M old_ip s;
           s \<leftarrow> iupdate M new_ip s;
           s \<leftarrow> iunlockput M old_ip s;
           s \<leftarrow> iunlockput M new_ip s;
           s \<leftarrow> iunlockput M dp s;
           Some (0, s)
         }
       }
   }"

definition rmdir_flag :: "nat \<Rightarrow> ('c, 'a) files_scheme \<Rightarrow> u32" where
  "rmdir_flag ip s = (if d_type (itable s ip) = T_DIR then AT_REMOVEDIR else 0)"

text \<open>A null pointer that is passed on is a wild access.\<close>

definition filerename :: "'c mmc_ops \<Rightarrow> (nat \<Rightarrow> u8) \<Rightarrow> u8 list \<Rightarrow> int \<Rightarrow> u8 list \<Rightarrow> int \<Rightarrow> u32 \<Rightarrow> ('c, 'a) files_scheme \<Rightarrow>
    (int \<times> ('c, 'a) files_scheme) option" where
  "filerename M name oldpath olddirfd newpath newdirfd flags s = do {
     (ex, s) \<leftarrow> (if flags AND RENAME_NOREPLACE \<noteq> 0 then namei_at M newpath newdirfd s else Some (None, s));
     case ex of
       Some ip2 \<Rightarrow> do { s \<leftarrow> iunlock ip2 s; Some (- EEXIST, s) }
     | None \<Rightarrow> do {
         (ip1, s) \<leftarrow> namei_at M oldpath olddirfd s;
         case ip1 of
           None \<Rightarrow> Some (- ENOENT, s)
         | Some ip1 \<Rightarrow> do {
             (dp1, name1, s) \<leftarrow> nameiparent_at M oldpath name olddirfd s;
             (ip2, s) \<leftarrow> namei_at M newpath newdirfd s;
             (dp2, name2, s) \<leftarrow> nameiparent_at M newpath name newdirfd s;
             if ip2 = Some ip1 then do {
               s \<leftarrow> iput M ip1 s;
               s \<leftarrow> iput M ip1 s;
               dp1 \<leftarrow> dp1;
               s \<leftarrow> iput M dp1 s;
               dp2 \<leftarrow> dp2;
               s \<leftarrow> iput M dp2 s;
               Some (0, s)
             } else if dp1 = dp2 then do {
               dp1 \<leftarrow> dp1;
               case ip2 of
                 None \<Rightarrow> do {
                   (e, s) \<leftarrow> rename M dp1 name1 name2 s;
                   if e < 0 then Some (e, s)
                   else do {
                     s \<leftarrow> iput M ip1 s;
                     s \<leftarrow> iput M dp1 s;
                     Some (0, s)
                   }
                 }
               | Some ip2 \<Rightarrow> do {
                   (e, s) \<leftarrow> reinode M dp1 ip2 ip1 s;
                   if e < 0 then Some (e, s)
                   else do {
                     s \<leftarrow> iput M dp1 s;
                     fileunlink M name newpath newdirfd (rmdir_flag ip2 s) s
                   }
                 }
             } else do {
               dp2 \<leftarrow> dp2;
               case ip2 of
                 None \<Rightarrow> do {
                   (e, s) \<leftarrow> dirlink M dp2 name2 (i_inum (itable s ip1)) (d_type (itable s ip1)) s;
                   if e < 0 then Some (e, s)
                   else do {
                     let flags = rmdir_flag ip1 s;
                     dp1 \<leftarrow> dp1;
                     s \<leftarrow> iput M dp1 s;
                     s \<leftarrow> iput M ip1 s;
                     fileunlink M name oldpath olddirfd flags s
                   }
                 }
               | Some ip2 \<Rightarrow> do {
                   (e, s) \<leftarrow> reinode M dp2 ip2 ip1 s;
                   if e < 0 then Some (e, s)
                   else do {
                     let flags = rmdir_flag ip2 s;
                     dp1 \<leftarrow> dp1;
                     s \<leftarrow> iput M dp1 s;
                     s \<leftarrow> iput M ip2 s;
                     fileunlink M name newpath newdirfd flags s
                   }
                 }
             }
           }
       }
   }"

end
