(* ===== verification/Sysfile.thy ===== *)
theory Sysfile
  imports File_Path
begin

text \<open>
  The file system calls, \<^verbatim>\<open>kernel/sysfile.c\<close>, with the argument fetching of \<^verbatim>\<open>kernel/syscall.c\<close> on the
  registers and memory of the current process, and \<^verbatim>\<open>getdents64\<close> of \<^verbatim>\<open>kernel/fs.c\<close>. Bytes the code takes from
  uninitialised local variables are parameters. \<^verbatim>\<open>sys_execve\<close> is not modelled here.
\<close>

unbundle bit_operations_syntax

section \<open>Arguments\<close>

definition argint :: "nat \<Rightarrow> ('c, 'a) files_scheme \<Rightarrow> int" where
  "argint n s = sint (ucast (targs s n) :: u32)"

definition arg32 :: "nat \<Rightarrow> ('c, 'a) files_scheme \<Rightarrow> u32" where
  "arg32 n s = ucast (targs s n)"

definition argstr :: "nat \<Rightarrow> ('c, 'a) files_scheme \<Rightarrow> u8 list option" where
  "argstr n s =
     (if targs s n = 0 then Some []
      else let bs = user_bytes (targs s n) MAXPATH s; str = takeWhile (\<lambda>c. c \<noteq> 0) bs
           in if length str < length bs then Some str else None)"

definition argfd :: "nat \<Rightarrow> ('c, 'a) files_scheme \<Rightarrow> (nat \<times> nat) option" where
  "argfd n s =
     (let fd = argint n s
      in if fd < 0 \<or> int NOFILE \<le> fd then None
         else case ofile s (nat fd) of None \<Rightarrow> None | Some f \<Rightarrow> Some (nat fd, f))"

text \<open>The code compares the type of the open file with \<^verbatim>\<open>T_DIR\<close>, which has the value of \<^verbatim>\<open>FD_PIPE\<close>.\<close>

definition check_fdcwd :: "u8 list \<Rightarrow> int \<Rightarrow> ('c, 'a) files_scheme \<Rightarrow> int option" where
  "check_fdcwd path dirfd s =
     (if (path = [] \<or> hd path \<noteq> SLASH) \<and> dirfd \<noteq> AT_FDCWD then
        if dirfd < 0 \<or> int NOFILE \<le> dirfd then None
        else case ofile s (nat dirfd) of
          None \<Rightarrow> Some (- EBADF)
        | Some f \<Rightarrow> Some (if f_type (ftable s f) \<noteq> FD_PIPE then - ENOTDIR else 0)
      else Some 0)"

text \<open>A call on a path: the string argument \<open>n\<close> and the check of the directory, then the rest.\<close>

definition with_path :: "nat \<Rightarrow> int \<Rightarrow> int \<Rightarrow> ('c, 'a) files_scheme \<Rightarrow> (u8 list \<Rightarrow> (int \<times> ('c, 'a) files_scheme) option) \<Rightarrow>
    (int \<times> ('c, 'a) files_scheme) option" where
  "with_path n dirfd err s rest =
     (case argstr n s of
        None \<Rightarrow> Some (err, s)
      | Some path \<Rightarrow> do {
          ret \<leftarrow> check_fdcwd path dirfd s;
          if ret < 0 then Some (ret, s) else rest path
        })"

section \<open>Descriptors\<close>

definition dupfd :: "int \<Rightarrow> int \<Rightarrow> ('c, 'a) files_scheme \<Rightarrow> (int \<times> ('c, 'a) files_scheme) option" where
  "dupfd fd from s =
     (if fd < 0 \<or> int NOFILE \<le> fd then None
      else case ofile s (nat fd) of
        None \<Rightarrow> Some (- EBADF, s)
      | Some f \<Rightarrow> do { s \<leftarrow> filedup f s; fdalloc f from s })"

definition sys_dup :: "('c, 'a) files_scheme \<Rightarrow> (int \<times> ('c, 'a) files_scheme) option" where
  "sys_dup s = dupfd (argint 0 s) 0 s"

definition sys_dup3 :: "'c mmc_ops \<Rightarrow> ('c, 'a) files_scheme \<Rightarrow> (int \<times> ('c, 'a) files_scheme) option" where
  "sys_dup3 M s =
     (let fd1 = argint 0 s; fd2 = argint 1 s; flags = arg32 2 s
      in if flags AND NOT O_CLOEXEC \<noteq> 0 then Some (- EINVAL, s)
         else if fd1 = fd2 then Some (- EINVAL, s)
         else if fd1 < 0 \<or> int NOFILE \<le> fd1 then Some (- EBADF, s)
         else if fd2 < 0 \<or> int NOFILE \<le> fd2 then Some (- EBADF, s)
         else do {
           let r = ofile s (nat fd1);
           s \<leftarrow> (case ofile s (nat fd2) of Some f2 \<Rightarrow> fileclose M f2 s | None \<Rightarrow> Some s);
           f \<leftarrow> r;
           s \<leftarrow> filedup f s;
           let s = s\<lparr>fdflag := (if flags AND O_CLOEXEC \<noteq> 0 then bit_add (fdflag s) (nat fd2) else fdflag s)\<rparr>;
           Some (fd2, s\<lparr>ofile := (ofile s)(nat fd2 := Some f)\<rparr>)
         })"

definition sys_close :: "'c mmc_ops \<Rightarrow> ('c, 'a) files_scheme \<Rightarrow> (int \<times> ('c, 'a) files_scheme) option" where
  "sys_close M s =
     (case argfd 0 s of
        None \<Rightarrow> Some (- EBADF, s)
      | Some (fd, f) \<Rightarrow> do {
          s \<leftarrow> fileclose M f (s\<lparr>ofile := (ofile s)(fd := None), fdflag := bit_remove (fdflag s) fd\<rparr>);
          Some (0, s)
        })"

definition fd_bytes :: "nat \<Rightarrow> u8 list" where
  "fd_bytes fd = map (put32 (of_nat fd) 0 (\<lambda>_. 0)) [0..<4]"

definition pipe2_undo :: "'c mmc_ops \<Rightarrow> nat \<Rightarrow> nat \<Rightarrow> int \<Rightarrow> ('c, 'a) files_scheme \<Rightarrow> (int \<times> ('c, 'a) files_scheme) option" where
  "pipe2_undo M rf wrf err s = do {
     s \<leftarrow> fileclose M rf s;
     s \<leftarrow> fileclose M wrf s;
     Some (err, s)
   }"

text \<open>The two descriptors, once both are allocated, are copied to the user.\<close>

definition pipe2_copy :: "'c mmc_ops \<Rightarrow> nat \<Rightarrow> nat \<Rightarrow> nat \<Rightarrow> nat \<Rightarrow> u32 \<Rightarrow> u64 \<Rightarrow> ('c, 'a) files_scheme \<Rightarrow> (int \<times> ('c, 'a) files_scheme) option" where
  "pipe2_copy M rf wrf fd0 fd1 flags fdarray s =
     (let (e, s) = copyout_user fdarray (fd_bytes fd0) s;
          (e, s) = (if e < 0 then (e, s) else copyout_user (fdarray + 4) (fd_bytes fd1) s)
      in if e < 0 then
           pipe2_undo M rf wrf (- EFAULT) (s\<lparr>ofile := (ofile s)(fd0 := None, fd1 := None), fdflag := bit_remove (bit_remove (fdflag s) fd0) fd1\<rparr>)
         else Some (0, s\<lparr>fdflag := (if flags AND O_CLOEXEC \<noteq> 0 then bit_add (bit_add (fdflag s) fd0) fd1 else fdflag s)\<rparr>))"

definition pipe2_fds :: "'c mmc_ops \<Rightarrow> nat \<Rightarrow> nat \<Rightarrow> u32 \<Rightarrow> u64 \<Rightarrow> ('c, 'a) files_scheme \<Rightarrow> (int \<times> ('c, 'a) files_scheme) option" where
  "pipe2_fds M rf wrf flags fdarray s = do {
     (fd0, s) \<leftarrow> fdalloc rf 0 s;
     if fd0 < 0 then pipe2_undo M rf wrf (- EMFILE) s
     else do {
       (fd1, s) \<leftarrow> fdalloc wrf 0 s;
       if fd1 < 0 then pipe2_undo M rf wrf (- EMFILE) (s\<lparr>ofile := (ofile s)(nat fd0 := None)\<rparr>)
       else pipe2_copy M rf wrf (nat fd0) (nat fd1) flags fdarray s
     }
   }"

text \<open>Invalid flags are refused only after the pipe has been made; its two files are then lost.\<close>

definition sys_pipe2 :: "'c mmc_ops \<Rightarrow> (nat \<Rightarrow> u8) \<Rightarrow> ('c, 'a) files_scheme \<Rightarrow> (int \<times> ('c, 'a) files_scheme) option" where
  "sys_pipe2 M junk s = do {
     (r, s') \<leftarrow> pipealloc M junk (arg32 1 s) s;
     case r of
       None \<Rightarrow> Some (- ENFILE, s')
     | Some (rf, wrf) \<Rightarrow>
         if arg32 1 s AND NOT PIPE2_FLAGS \<noteq> 0 then Some (- EINVAL, s')
         else pipe2_fds M rf wrf (arg32 1 s) (targs s 0) s'
   }"

definition FILE_STATUS_FLAGS :: u32 where
  "FILE_STATUS_FLAGS = O_APPEND OR O_ASYNC OR O_DIRECT OR O_DSYNC OR O_NOATIME OR O_NONBLOCK OR O_SYNC"

definition sys_fcntl :: "('c, 'a) files_scheme \<Rightarrow> (int \<times> ('c, 'a) files_scheme) option" where
  "sys_fcntl s =
     (case argfd 0 s of
        None \<Rightarrow> Some (- EINVAL, s)
      | Some (fd, f) \<Rightarrow>
          let cmd = argint 1 s
          in if cmd = 0 then dupfd (int fd) (argint 2 s) s
             else if cmd = 1 then Some (if bit (fdflag s) fd then 1 else 0, s)
             else if cmd = 2 then
               Some (0, s\<lparr>fdflag := (if arg32 2 s AND 1 \<noteq> 0 then bit_add (fdflag s) fd else bit_remove (fdflag s) fd)\<rparr>)
             else if cmd = 3 then Some (sint (f_flags (ftable s f) AND (FILE_STATUS_FLAGS OR O_ACCMODE)), s)
             else if cmd = 4 then
               Some (0, upd_file f (\<lambda>x. x\<lparr>f_flags := (arg32 2 s AND FILE_STATUS_FLAGS) OR (f_flags x AND O_ACCMODE)\<rparr>) s)
             else Some (- EINVAL, s))"

section \<open>Input and output\<close>

definition sys_read :: "'c mmc_ops \<Rightarrow> ('c, 'a) devtab \<Rightarrow> ('c, 'a) files_scheme \<Rightarrow> (int \<times> ('c, 'a) files_scheme) option" where
  "sys_read M D s =
     (case argfd 0 s of
        None \<Rightarrow> Some (- EBADF, s)
      | Some (fd, f) \<Rightarrow> do { (r, _, s) \<leftarrow> fileread M D f (targs s 1) (argint 2 s) True s; Some (r, s) })"

definition sys_write :: "'c mmc_ops \<Rightarrow> ('c, 'a) devtab \<Rightarrow> ('c, 'a) files_scheme \<Rightarrow> (int \<times> ('c, 'a) files_scheme) option" where
  "sys_write M D s =
     (case argfd 0 s of
        None \<Rightarrow> Some (- EBADF, s)
      | Some (fd, f) \<Rightarrow> filewrite M D f (targs s 1) (\<lambda>_. 0) (argint 2 s) True s)"

text \<open>An \<^verbatim>\<open>iovec\<close> is a base address and a length.\<close>

definition iovec_of :: "u8 list \<Rightarrow> u64 \<times> u64" where
  "iovec_of bs = (get64 (\<lambda>k. bs ! k) 0, get64 (\<lambda>k. bs ! k) 8)"

primrec readv_loop :: "'c mmc_ops \<Rightarrow> ('c, 'a) devtab \<Rightarrow> nat \<Rightarrow> (u64 \<times> u64) list \<Rightarrow> int \<Rightarrow> ('c, 'a) files_scheme \<Rightarrow>
    (int \<times> ('c, 'a) files_scheme) option" where
  "readv_loop M D f [] tot s = Some (tot, s)"
| "readv_loop M D f (v # vs) tot s = do {
     (bytes, _, s) \<leftarrow> fileread M D f (fst v) (sint (ucast (snd v) :: u32)) True s;
     if bytes < 0 then Some (bytes, s)
     else if bytes = 0 then Some (tot, s)
     else readv_loop M D f vs (tot + bytes) s
   }"

text \<open>The code reads one \<^verbatim>\<open>iovec\<close> from the user; the next ones are what follows it on the stack, \<open>past\<close>.\<close>

definition sys_readv :: "'c mmc_ops \<Rightarrow> ('c, 'a) devtab \<Rightarrow> (nat \<Rightarrow> u64 \<times> u64) \<Rightarrow> ('c, 'a) files_scheme \<Rightarrow>
    (int \<times> ('c, 'a) files_scheme) option" where
  "sys_readv M D past s =
     (let addr = targs s 1;
          iov = (if addr = 0 then Some (past 0) else if \<not> in_user s addr 16 then None
                 else map_option iovec_of (copyin_user addr 16 s))
      in case iov of
           None \<Rightarrow> Some (- EINVAL, s)
         | Some v \<Rightarrow>
             (case argfd 0 s of
                None \<Rightarrow> Some (- EBADF, s)
              | Some (fd, f) \<Rightarrow> readv_loop M D f (map (past(0 := v)) [0..<nat (argint 2 s)]) 0 s))"

primrec writev_loop :: "'c mmc_ops \<Rightarrow> ('c, 'a) devtab \<Rightarrow> nat \<Rightarrow> u64 \<Rightarrow> nat list \<Rightarrow> int \<Rightarrow> ('c, 'a) files_scheme \<Rightarrow>
    (int \<times> ('c, 'a) files_scheme) option" where
  "writev_loop M D f iov [] tot s = Some (tot, s)"
| "writev_loop M D f iov (k # ks) tot s =
     (case copyin_user (iov + 16 * of_nat k) 16 s of
        None \<Rightarrow> Some (- EIO, s)
      | Some bs \<Rightarrow> do {
          (r, s) \<leftarrow> filewrite M D f (fst (iovec_of bs)) (\<lambda>_. 0) (sint (ucast (snd (iovec_of bs)) :: u32)) True s;
          writev_loop M D f iov ks (tot + r) s
        })"

definition sys_writev :: "'c mmc_ops \<Rightarrow> ('c, 'a) devtab \<Rightarrow> ('c, 'a) files_scheme \<Rightarrow> (int \<times> ('c, 'a) files_scheme) option" where
  "sys_writev M D s =
     (if argint 2 s = 0 then Some (0, s)
      else case argfd 0 s of
        None \<Rightarrow> Some (- EBADF, s)
      | Some (fd, f) \<Rightarrow> writev_loop M D f (targs s 1) [0..<nat (argint 2 s)] 0 s)"

definition sys_lseek :: "('c, 'a) files_scheme \<Rightarrow> (int \<times> ('c, 'a) files_scheme) option" where
  "sys_lseek s =
     (case argfd 0 s of
        None \<Rightarrow> Some (- EINVAL, s)
      | Some (fd, f) \<Rightarrow>
          if arg32 2 s AND NOT 3 \<noteq> 0 then Some (- EINVAL, s)
          else if f_type (ftable s f) = FD_PIPE then Some (0, s)
          else filelseek f (targs s 1) (argint 2 s) s)"

definition sys_ioctl :: "('c, 'a) devtab \<Rightarrow> ('c, 'a) files_scheme \<Rightarrow> (int \<times> ('c, 'a) files_scheme) option" where
  "sys_ioctl D s =
     (case argfd 0 s of
        None \<Rightarrow> Some (- EINVAL, s)
      | Some (fd, f) \<Rightarrow>
          if f_type (ftable s f) \<noteq> FD_INODE then do {
            i \<leftarrow> f_ip (ftable s f);
            if d_type (itable s i) \<noteq> T_DEVICE then Some (- ENOTTY, s) else fileioctl D f (targs s 1) (targs s 2) s
          } else fileioctl D f (targs s 1) (targs s 2) s)"

definition sys_sendfile :: "'c mmc_ops \<Rightarrow> ('c, 'a) devtab \<Rightarrow> (nat \<Rightarrow> u8) \<Rightarrow> ('c, 'a) files_scheme \<Rightarrow> (int \<times> ('c, 'a) files_scheme) option" where
  "sys_sendfile M D junk s =
     (case (argfd 0 s, argfd 1 s) of
        (Some (_, out_f), Some (_, in_f)) \<Rightarrow> sendfile M D junk out_f in_f (targs s 2) (targs s 3) s
      | _ \<Rightarrow> Some (- EBADF, s))"

definition sys_fadvise64 :: "('c, 'a) files_scheme \<Rightarrow> (int \<times> ('c, 'a) files_scheme) option" where
  "sys_fadvise64 s =
     (case argfd 0 s of
        None \<Rightarrow> Some (- EINVAL, s)
      | Some _ \<Rightarrow> let advice = argint 3 s in Some (if advice < 0 \<and> advice > 5 then - EINVAL else 0, s))"

section \<open>Status and access\<close>

definition sys_fstat :: "'c mmc_ops \<Rightarrow> (nat \<Rightarrow> u8) \<Rightarrow> ('c, 'a) files_scheme \<Rightarrow> (int \<times> ('c, 'a) files_scheme) option" where
  "sys_fstat M g s =
     (case argfd 0 s of
        None \<Rightarrow> Some (- EBADF, s)
      | Some (fd, f) \<Rightarrow> filestat M g f (targs s 1) s)"

definition sys_fstatat :: "'c mmc_ops \<Rightarrow> (nat \<Rightarrow> u8) \<Rightarrow> ('c, 'a) files_scheme \<Rightarrow> (int \<times> ('c, 'a) files_scheme) option" where
  "sys_fstatat M g s =
     (let dirfd = argint 0 s; flags = arg32 3 s
      in case argstr 1 s of
           None \<Rightarrow> Some (- EFAULT, s)
         | Some path \<Rightarrow>
             if flags \<noteq> 0 \<and> flags AND NOT AT_SYMLINK_NOFOLLOW \<noteq> 0 then Some (- EINVAL, s)
             else do {
               ret \<leftarrow> check_fdcwd path dirfd s;
               if ret < 0 then Some (ret, s)
               else do {
                 (r, s) \<leftarrow> follow M path dirfd flags s;
                 case r of
                   None \<Rightarrow> Some (- ENOENT, s)
                 | Some ip \<Rightarrow> do {
                     st \<leftarrow> stati ip (stat_of g) s;
                     s \<leftarrow> iunlockput M ip s;
                     let (e, s) = copyout_user (targs s 2) (map (put_stat st g) [0..<sizeof_stat]) s;
                     Some (if e < 0 then - EFAULT else 0, s)
                   }
               }
             })"

definition sys_fchmodat :: "'c mmc_ops \<Rightarrow> ('c, 'a) files_scheme \<Rightarrow> (int \<times> ('c, 'a) files_scheme) option" where
  "sys_fchmodat M s = with_path 1 (argint 0 s) (- EINVAL) s (\<lambda>path. filechmod M path (argint 0 s) (arg32 2 s) s)"

definition sys_fchown :: "'c mmc_ops \<Rightarrow> ('c, 'a) files_scheme \<Rightarrow> (int \<times> ('c, 'a) files_scheme) option" where
  "sys_fchown M s =
     (case argfd 0 s of
        None \<Rightarrow> Some (- EINVAL, s)
      | Some (fd, f) \<Rightarrow> filechown M (Some f) [] AT_FDCWD (arg32 1 s) (arg32 2 s) 0 s)"

definition sys_fchownat :: "'c mmc_ops \<Rightarrow> ('c, 'a) files_scheme \<Rightarrow> (int \<times> ('c, 'a) files_scheme) option" where
  "sys_fchownat M s =
     with_path 1 (argint 0 s) (- EINVAL) s (\<lambda>path. filechown M None path (argint 0 s) (arg32 2 s) (arg32 3 s) (arg32 4 s) s)"

definition sys_faccessat2 :: "'c mmc_ops \<Rightarrow> ('c, 'a) files_scheme \<Rightarrow> (int \<times> ('c, 'a) files_scheme) option" where
  "sys_faccessat2 M s = with_path 1 (argint 0 s) (- EINVAL) s (\<lambda>path. faccess M path (argint 0 s) (arg32 2 s) (arg32 3 s) s)"

definition sys_llistxattr :: "('c, 'a) files_scheme \<Rightarrow> (int \<times> ('c, 'a) files_scheme) option" where
  "sys_llistxattr s = Some (if argstr 0 s = None then - EINVAL else 0, s)"

definition UTIME_NOW :: u64 where "UTIME_NOW = 0x3fffffff"
definition UTIME_OMIT :: u64 where "UTIME_OMIT = 0x3ffffffe"
definition AT_EMPTY_PATH :: u32 where "AT_EMPTY_PATH = 0x1000"

definition new_time :: "timespec \<Rightarrow> timespec \<Rightarrow> timespec \<Rightarrow> timespec" where
  "new_time t tnow told = (if tv_nsec t = UTIME_NOW then tnow else if tv_nsec t = UTIME_OMIT then told else t)"

text \<open>With an empty path the inode of an open file is put although no reference was taken for the call.\<close>

definition sys_utimensat :: "'c mmc_ops \<Rightarrow> (nat \<Rightarrow> u8) \<Rightarrow> (nat \<Rightarrow> u8) \<Rightarrow> ('c, 'a) files_scheme \<Rightarrow> (int \<times> ('c, 'a) files_scheme) option" where
  "sys_utimensat M junk name s =
     (let dirfd = argint 0 s; timesp = targs s 2; flags = arg32 3 s
      in case argstr 1 s of
           None \<Rightarrow> Some (- EINVAL, s)
         | Some path \<Rightarrow>
             (case (if timesp = 0 then Some (map (put64 UTIME_NOW 8 (put64 UTIME_NOW 24 junk)) [0..<32]) else copyin_user timesp 32 s) of
                None \<Rightarrow> Some (- EFAULT, s)
              | Some bs \<Rightarrow>
                  let t0 = timespec_of (\<lambda>k. bs ! k) 0; t1 = timespec_of (\<lambda>k. bs ! k) 16
                  in if flags AND NOT (AT_SYMLINK_NOFOLLOW OR AT_EMPTY_PATH) \<noteq> 0 then Some (- EINVAL, s)
                     else do {
                       (r, s) \<leftarrow>
                         (if path = [] then
                            (case argfd 0 s of
                               None \<Rightarrow> Some (Inl (- EINVAL), s)
                             | Some (_, f) \<Rightarrow> do { i \<leftarrow> f_ip (ftable s f); Some (Inr i, s) })
                          else do {
                            ret \<leftarrow> check_fdcwd path dirfd s;
                            if ret < 0 then Some (Inl ret, s)
                            else do {
                              (r, name, s) \<leftarrow> nameiparent_at M path name dirfd s;
                              case r of
                                None \<Rightarrow> Some (Inl (- ENOENT), s)
                              | Some dp \<Rightarrow> do {
                                  s \<leftarrow> ilock M dp s;
                                  (r, s) \<leftarrow> dirlookup M dp name s;
                                  s \<leftarrow> iunlockput M dp s;
                                  Some (case r of None \<Rightarrow> Inl (- ENOENT) | Some (ip, _) \<Rightarrow> Inr ip, s)
                                }
                            }
                          });
                       case r of
                         Inl e \<Rightarrow> Some (e, s)
                       | Inr ip \<Rightarrow> do {
                           s \<leftarrow> ilock M ip s;
                           s \<leftarrow> iupdate M ip (upd_inode ip (\<lambda>x. x\<lparr>d_atime := new_time t0 (now s) (d_atime x), d_mtime := new_time t1 (now s) (d_mtime x)\<rparr>) s);
                           s \<leftarrow> iunlockput M ip s;
                           Some (0, s)
                         }
                     }))"

section \<open>Names\<close>

definition AT_SYMLINK_FOLLOW :: u32 where "AT_SYMLINK_FOLLOW = 0x400"

definition sys_linkat :: "'c mmc_ops \<Rightarrow> (nat \<Rightarrow> u8) \<Rightarrow> ('c, 'a) files_scheme \<Rightarrow> (int \<times> ('c, 'a) files_scheme) option" where
  "sys_linkat M name s =
     (let olddirfd = argint 0 s; newdirfd = argint 2 s; flags = arg32 4 s
      in case (argstr 1 s, argstr 3 s) of
           (Some oldpath, Some newpath) \<Rightarrow> do {
             ret \<leftarrow> check_fdcwd oldpath olddirfd s;
             if ret < 0 then Some (ret, s)
             else do {
               ret \<leftarrow> check_fdcwd newpath newdirfd s;
               if ret < 0 then Some (ret, s)
               else if flags AND AT_SYMLINK_FOLLOW \<noteq> 0 then do {
                 (r, s) \<leftarrow> namei_at M oldpath olddirfd s;
                 case r of
                   None \<Rightarrow> Some (- ENOENT, s)
                 | Some ip \<Rightarrow> do {
                     s \<leftarrow> ilock M ip s;
                     if d_type (itable s ip) = T_SYMLINK then do {
                       (n, bs, s) \<leftarrow> readi M ip (\<lambda>_. True) 0 3 s;
                       s \<leftarrow> iunlockput M ip s;
                       if n \<le> 0 then Some (- ENOENT, s) else filelink M name (cpath bs) olddirfd newpath newdirfd s
                     } else do {
                       s \<leftarrow> iunlockput M ip s;
                       filelink M name oldpath olddirfd newpath newdirfd s
                     }
                   }
               } else if flags \<noteq> 0 then Some (- EINVAL, s)
               else filelink M name oldpath olddirfd newpath newdirfd s
             }
           }
         | _ \<Rightarrow> Some (- EINVAL, s))"

definition sys_symlinkat :: "'c mmc_ops \<Rightarrow> (nat \<Rightarrow> u8) \<Rightarrow> ('c, 'a) files_scheme \<Rightarrow> (int \<times> ('c, 'a) files_scheme) option" where
  "sys_symlinkat M name s =
     (case (argstr 0 s, argstr 2 s) of
        (Some target, Some linkpath) \<Rightarrow>
          if target = [] \<or> linkpath = [] then Some (- ENOENT, s)
          else do {
            ret \<leftarrow> check_fdcwd linkpath (argint 1 s) s;
            if ret < 0 then Some (ret, s) else filesymlink M name target linkpath (argint 1 s) s
          }
      | _ \<Rightarrow> Some (- EINVAL, s))"

definition sys_unlinkat :: "'c mmc_ops \<Rightarrow> (nat \<Rightarrow> u8) \<Rightarrow> ('c, 'a) files_scheme \<Rightarrow> (int \<times> ('c, 'a) files_scheme) option" where
  "sys_unlinkat M name s = with_path 1 (argint 0 s) (- EINVAL) s (\<lambda>path.
     if arg32 2 s AND NOT AT_REMOVEDIR \<noteq> 0 then Some (- EINVAL, s)
     else fileunlink M name path (argint 0 s) (arg32 2 s) s)"

text \<open>
  \<^verbatim>\<open>argptr\<close> is called with a null buffer: a mapped argument is copied to address 0 of the kernel. When the
  call goes on, its buffer is the user address 0.
\<close>

definition proc_fd :: "u8 list" where
  "proc_fd = map (\<lambda>c. of_nat (of_char c)) ''/proc/self/fd/''"

definition dev_tty :: "u8 list" where
  "dev_tty = map (\<lambda>c. of_nat (of_char c)) ''/dev/tty''"

definition sys_readlinkat :: "'c mmc_ops \<Rightarrow> (nat \<Rightarrow> u8) \<Rightarrow> ('c, 'a) files_scheme \<Rightarrow> (int \<times> ('c, 'a) files_scheme) option" where
  "sys_readlinkat M name s =
     (let dirfd = argint 0 s; addr = targs s 2; bufsiz = targs s 3
      in case argstr 1 s of
           None \<Rightarrow> Some (- EINVAL, s)
         | Some path \<Rightarrow>
             if addr \<noteq> 0 \<and> (\<not> in_user s addr bufsiz \<or> bufsiz \<noteq> 0 \<and> umem s addr = None) then Some (- EFAULT, s)
             else if addr \<noteq> 0 \<and> bufsiz \<noteq> 0 then None
             else if sint bufsiz \<le> 0 then Some (- EINVAL, s)
             else do {
               ret \<leftarrow> check_fdcwd path dirfd s;
               if ret < 0 then Some (ret, s)
               else if take 14 path = proc_fd \<and> (if length path > 14 then int (unat (path ! 14)) else 0) - 48 < 3
               then Some (9, snd (copyout_user 0 dev_tty s))
               else filereadlink M name path dirfd 0 bufsiz s
             })"

definition sys_openat :: "'c mmc_ops \<Rightarrow> (nat \<Rightarrow> u8) \<Rightarrow> ('c, 'a) files_scheme \<Rightarrow> (int \<times> ('c, 'a) files_scheme) option" where
  "sys_openat M name s =
     (case argstr 1 s of
        None \<Rightarrow> Some (- EINVAL, s)
      | Some path \<Rightarrow>
          if argint 0 s \<noteq> AT_FDCWD then Some (- EINVAL, s)
          else do {
            ret \<leftarrow> check_fdcwd path (argint 0 s) s;
            if ret < 0 then Some (ret, s) else fileopen M name path (argint 0 s) (arg32 2 s) (arg32 3 s) s
          })"

definition sys_mkdirat :: "'c mmc_ops \<Rightarrow> (nat \<Rightarrow> u8) \<Rightarrow> ('c, 'a) files_scheme \<Rightarrow> (int \<times> ('c, 'a) files_scheme) option" where
  "sys_mkdirat M name s = with_path 1 (argint 0 s) (- EINVAL) s (\<lambda>path. do {
     (r, s) \<leftarrow> create M name path (argint 0 s) T_DIR 0 0 (arg32 2 s OR S_IFDIR) s;
     case r of
       Null \<Rightarrow> Some (0, s)
     | Bad _ \<Rightarrow> None
     | New ip \<Rightarrow> do { s \<leftarrow> iunlockput M ip s; Some (0, s) }
   })"

definition node_type :: "u32 \<Rightarrow> u16 option" where
  "node_type mode =
     (let t = mode AND S_IFMT
      in if t = S_IFDIR then Some T_DIR else if t = S_IFREG then Some T_FILE
         else if t = S_IFCHR \<or> t = S_IFBLK then Some T_DEVICE else if t = S_IFLNK then Some T_SYMLINK else None)"

definition sys_mknodat :: "'c mmc_ops \<Rightarrow> (nat \<Rightarrow> u8) \<Rightarrow> ('c, 'a) files_scheme \<Rightarrow> (int \<times> ('c, 'a) files_scheme) option" where
  "sys_mknodat M name s = with_path 1 (argint 0 s) (- EINVAL) s (\<lambda>path.
     let mode = arg32 2 s; dev = targs s 3
     in case node_type mode of
          None \<Rightarrow> Some (- EINVAL, s)
        | Some type \<Rightarrow> do {
            let major = (if type = T_DEVICE then ucast (drop_bit 8 dev AND 0xFF) else 0);
            let minor = (if type = T_DEVICE then ucast (dev AND 0xFF) else 0);
            (r, s) \<leftarrow> create M name path (argint 0 s) type major minor mode s;
            case r of
              Bad e \<Rightarrow> Some (e, s)
            | Null \<Rightarrow> None
            | New ip \<Rightarrow> do { s \<leftarrow> iunlockput M ip s; Some (0, s) }
          })"

definition sys_chdir :: "'c mmc_ops \<Rightarrow> ('c, 'a) files_scheme \<Rightarrow> (int \<times> ('c, 'a) files_scheme) option" where
  "sys_chdir M s =
     (case argstr 0 s of
        None \<Rightarrow> Some (- EINVAL, s)
      | Some path \<Rightarrow> do {
          (r, s) \<leftarrow> namei_at M path AT_FDCWD s;
          case r of
            None \<Rightarrow> Some (- ENOENT, s)
          | Some ip \<Rightarrow> do {
              s \<leftarrow> ilock M ip s;
              if d_type (itable s ip) \<noteq> T_DIR then do { s \<leftarrow> iunlockput M ip s; Some (- ENOTDIR, s) }
              else do {
                s \<leftarrow> iunlock ip s;
                s \<leftarrow> iput M (cwd s) s;
                Some (0, s\<lparr>cwd := ip\<rparr>)
              }
            }
        })"

definition sys_renameat2 :: "'c mmc_ops \<Rightarrow> (nat \<Rightarrow> u8) \<Rightarrow> ('c, 'a) files_scheme \<Rightarrow> (int \<times> ('c, 'a) files_scheme) option" where
  "sys_renameat2 M name s =
     (let olddirfd = argint 0 s; newdirfd = argint 2 s; flags = arg32 4 s
      in case (argstr 1 s, argstr 3 s) of
           (Some oldpath, Some newpath) \<Rightarrow> do {
             ret \<leftarrow> check_fdcwd oldpath olddirfd s;
             if ret < 0 then Some (ret, s)
             else do {
               ret \<leftarrow> check_fdcwd newpath newdirfd s;
               if ret < 0 then Some (ret, s)
               else if flags AND RENAME_EXCHANGE \<noteq> 0 then Some (- EINVAL, s)
               else if take (length oldpath) newpath = oldpath then Some (0, s)
               else filerename M name oldpath olddirfd newpath newdirfd flags s
             }
           }
         | _ \<Rightarrow> Some (- EINVAL, s))"

section \<open>Directory listings\<close>

definition name_len :: "dirent \<Rightarrow> nat" where
  "name_len de = length (takeWhile (\<lambda>c. c \<noteq> 0) (map (de_name de) [0..<DIRSIZ]))"

definition dirent_dtype :: "u16 \<Rightarrow> u16 \<Rightarrow> u8" where
  "dirent_dtype type major =
     (if type = T_DEVICE then if major = 0 then 6 else 2
      else if type = T_DIR then 4 else if type = T_SYMLINK then 10 else if type = T_MOUNT then 4 else 8)"

text \<open>
  \<open>d64\<close> are the bytes of the local \<^verbatim>\<open>struct dirent64\<close>, which keep what earlier rounds left in them; \<open>past\<close> is the
  byte that follows a name of full length on the stack.
\<close>

partial_function (option) getdents_loop :: "'c mmc_ops \<Rightarrow> ('c, 'a) devtab \<Rightarrow> u8 \<Rightarrow> nat \<Rightarrow> u64 \<Rightarrow> nat \<Rightarrow> nat \<Rightarrow> u32 \<Rightarrow> (nat \<Rightarrow> u8) \<Rightarrow>
    ('c, 'a) files_scheme \<Rightarrow> (int \<times> ('c, 'a) files_scheme) option" where
  "getdents_loop M D past f data sz tlen off d64 s = do {
     (n, bs, s) \<leftarrow> fileread M D f 0 (int sizeof_dirent) False s;
     if n = 0 then Some (int tlen, s)
     else if n \<noteq> int sizeof_dirent then Some (if tlen \<noteq> 0 then int tlen else -1, s)
     else
       let de = dirent_of bs; namelen = name_len de + 1; reclen = ((19 + namelen + 7) div 8) * 8
       in if de_inum de = 0 then getdents_loop M D past f data sz tlen off d64 s
          else if tlen + reclen > sz then Some (int tlen, s)
          else do {
            ip \<leftarrow> f_ip (ftable s f);
            (di, s) \<leftarrow> iget (i_dev (itable s ip)) (de_inum de) s;
            s \<leftarrow> ilock M di s;
            let type = dirent_dtype (d_type (itable s di)) (f_major (ftable s f));
            s \<leftarrow> iunlockput M di s;
            let d64 = (put16 (of_nat reclen) 16 (put64 (ucast off) 8 (put64 (ucast (de_inum de)) 0 d64)))(18 := type);
            let d64 = (\<lambda>k. if 19 \<le> k \<and> k < 19 + namelen then if k - 19 < DIRSIZ then de_name de (k - 19) else past else d64 k);
            let (e, s) = copyout_user (data + of_nat tlen) (map d64 [0..<reclen]) s;
            if e < 0 then Some (- EFAULT, s)
            else getdents_loop M D past f data sz (tlen + reclen) (f_off (ftable s f)) d64 s
          }
   }"

definition getdents64 :: "'c mmc_ops \<Rightarrow> ('c, 'a) devtab \<Rightarrow> u8 \<Rightarrow> (nat \<Rightarrow> u8) \<Rightarrow> nat \<Rightarrow> u64 \<Rightarrow> u64 \<Rightarrow> ('c, 'a) files_scheme \<Rightarrow>
    (int \<times> ('c, 'a) files_scheme) option" where
  "getdents64 M D past junk f data sz s = getdents_loop M D past f data (unat sz) 0 0 junk s"

text \<open>\<open>stale\<close>: whether the uninitialised pointer \<^verbatim>\<open>f\<close> the code tests after a failed \<^verbatim>\<open>argfd\<close> is null.\<close>

definition sys_getdents64 :: "'c mmc_ops \<Rightarrow> ('c, 'a) devtab \<Rightarrow> bool \<Rightarrow> u8 \<Rightarrow> (nat \<Rightarrow> u8) \<Rightarrow> ('c, 'a) files_scheme \<Rightarrow>
    (int \<times> ('c, 'a) files_scheme) option" where
  "sys_getdents64 M D stale past junk s =
     (case argfd 0 s of
        None \<Rightarrow> Some (if stale then - ENOENT else - EINVAL, s)
      | Some (fd, f) \<Rightarrow> do {
          i \<leftarrow> f_ip (ftable s f);
          if d_type (itable s i) = T_DEVICE then Some (- EBADF, s)
          else if d_type (itable s i) \<noteq> T_DIR then Some (- ENOTDIR, s)
          else getdents64 M D past junk f (targs s 1) (targs s 2) s
        })"

text \<open>
  The loop of \<^verbatim>\<open>sys_getcwd\<close>, from the working directory up to the root; \<open>buf\<close> is the path so far in reverse. A name
  without a NUL and a path longer than the buffer run over the stack. The result is \<^term>\<open>None\<close> for the label
  \<^verbatim>\<open>bad\<close>.
\<close>

partial_function (option) getcwd_loop :: "'c mmc_ops \<Rightarrow> u64 \<Rightarrow> nat \<Rightarrow> u8 list \<Rightarrow> ('c, 'a) files_scheme \<Rightarrow>
    (u8 list option \<times> ('c, 'a) files_scheme) option" where
  "getcwd_loop M sz cw buf s = do {
     (r, s) \<leftarrow> dirlookup M cw (cname ''..'') s;
     (dp, _) \<leftarrow> r;
     s \<leftarrow> ilock M dp s;
     (r, s) \<leftarrow> direntlookup M dp (i_inum (itable s cw)) s;
     case r of
       None \<Rightarrow> do { s \<leftarrow> iput M cw s; s \<leftarrow> iunlockput M dp s; Some (None, s) }
     | Some (de, _) \<Rightarrow>
         if DIRSIZ \<le> name_len de then None
         else if name_len de + length buf + 2 > unat sz then do { s \<leftarrow> iput M cw s; s \<leftarrow> iunlockput M dp s; Some (None, s) }
         else if length buf + name_len de + 2 > MAXPATH then None
         else do {
           s \<leftarrow> iput M cw s;
           s \<leftarrow> iunlock dp s;
           let buf = buf @ rev (map (de_name de) [0..<name_len de]);
           if i_inum (itable s dp) = ROOTINO then do { s \<leftarrow> iput M dp s; Some (Some buf, s) }
           else do {
             (cw, s) \<leftarrow> idup dp s;
             s \<leftarrow> iput M dp s;
             getcwd_loop M sz cw (buf @ [SLASH]) s
           }
         }
   }"

definition sys_getcwd :: "'c mmc_ops \<Rightarrow> ('c, 'a) files_scheme \<Rightarrow> (int \<times> ('c, 'a) files_scheme) option" where
  "sys_getcwd M s = do {
     let bufp = targs s 0;
     let sz = targs s 1;
     (cw, s) \<leftarrow> idup (cwd s) s;
     (r, s) \<leftarrow> (if i_inum (itable s cw) = ROOTINO then Some (Some [], s) else getcwd_loop M sz cw [] s);
     case r of
       None \<Rightarrow> Some (0, s)
     | Some buf \<Rightarrow>
         Some (sint bufp, if bufp \<noteq> 0 then snd (copyout_user bufp (rev (buf @ [SLASH]) @ [0]) s) else s)
   }"

end
