(* ===== verification/File_Refs.thy ===== *)
theory File_Refs
  imports Fs_Frame Sysfile
begin

text \<open>
  Reference counts of open files. The count of every file is the number of descriptors that refer to it plus
  the references \<open>ext\<close> that are held elsewhere: by the code that is running, by other processes, by
  mappings. Every operation of the file table moves such references, and from its laws follows that no
  sequence of file system calls leaves a descriptor that refers to a free file.
\<close>

unbundle bit_operations_syntax

section \<open>The invariant\<close>

definition fd_refs :: "nat \<Rightarrow> (nat \<Rightarrow> nat option) \<Rightarrow> nat" where
  "fd_refs f tab = Finite_Set.card {fd. fd < NOFILE \<and> tab fd = Some f}"

lemma fd_refs_set: "fd < NOFILE \<Longrightarrow> tab fd = None \<Longrightarrow> fd_refs g (tab(fd := Some f)) = fd_refs g tab + (if g = f then 1 else 0)"
proof -
  assume fd: "fd < NOFILE" "tab fd = None"
  let ?S = "{k. k < NOFILE \<and> tab k = Some g}"
  have "{k. k < NOFILE \<and> (tab(fd := Some f)) k = Some g} = (if g = f then insert fd ?S else ?S)" using fd by auto
  moreover have "Finite_Set.card (insert fd ?S) = Suc (Finite_Set.card ?S)" by (rule card_insert_disjoint) (use fd in simp_all)
  ultimately show ?thesis unfolding fd_refs_def by (cases "g = f") (simp_all del: fun_upd_apply)
qed

lemma fd_refs_clear: "fd < NOFILE \<Longrightarrow> tab fd = Some f \<Longrightarrow> fd_refs g tab = fd_refs g (tab(fd := None)) + (if g = f then 1 else 0)"
  using fd_refs_set [of fd "tab(fd := None)" g f] by (simp add: fun_upd_idem)

text \<open>
  An entry that is in use as a pipe, file or device has the pointer that goes with its type, and a free entry
  has no type.
\<close>

definition entry_ok :: "kfile \<Rightarrow> bool" where
  "entry_ok x \<longleftrightarrow> (f_ref x = 0 \<longrightarrow> f_type x = FD_NONE) \<and> (f_type x = FD_PIPE \<longrightarrow> f_pipe x \<noteq> None) \<and>
     (f_type x = FD_INODE \<or> f_type x = FD_DEVICE \<longrightarrow> f_ip x \<noteq> None)"

definition tab_ok :: "(nat \<Rightarrow> nat) \<Rightarrow> (nat \<Rightarrow> kfile) \<Rightarrow> (nat \<Rightarrow> nat option) \<Rightarrow> bool" where
  "tab_ok ext F tab \<longleftrightarrow> (\<forall>f < NFILE. f_ref (F f) = int (fd_refs f tab + ext f) \<and> entry_ok (F f)) \<and>
     (\<forall>fd < NOFILE. \<forall>f. tab fd = Some f \<longrightarrow> f < NFILE)"

definition table_ok :: "(nat \<Rightarrow> nat) \<Rightarrow> ('c, 'a) files_scheme \<Rightarrow> bool" where
  "table_ok ext s = tab_ok ext (ftable s) (ofile s)"

lemma tab_alloc: "tab_ok ext F tab \<Longrightarrow> f < NFILE \<Longrightarrow> f_ref (F f) = 0 \<Longrightarrow> tab_ok (ext(f := Suc (ext f))) (F(f := (F f)\<lparr>f_ref := 1\<rparr>)) tab"
  by (auto simp: tab_ok_def entry_ok_def)

lemma tab_dup: "tab_ok ext F tab \<Longrightarrow> f < NFILE \<Longrightarrow> \<not> f_ref (F f) < 1 \<Longrightarrow>
    tab_ok (ext(f := Suc (ext f))) (F(f := (F f)\<lparr>f_ref := f_ref (F f) + 1\<rparr>)) tab"
  by (auto simp: tab_ok_def entry_ok_def)

text \<open>An entry after \<^verbatim>\<open>fileclose\<close>.\<close>

definition closed :: "kfile \<Rightarrow> kfile" where
  "closed x = (if 1 < f_ref x then x\<lparr>f_ref := f_ref x - 1\<rparr> else x\<lparr>f_ref := 0, f_type := FD_NONE\<rparr>)"

lemma tab_closed: "tab_ok ext F tab \<Longrightarrow> f < NFILE \<Longrightarrow> 0 < ext f \<Longrightarrow> tab_ok (ext(f := ext f - Suc 0)) (F(f := closed (F f))) tab"
  by (auto simp: tab_ok_def entry_ok_def closed_def)

lemma tab_install: "tab_ok ext F tab \<Longrightarrow> f < NFILE \<Longrightarrow> 0 < ext f \<Longrightarrow> fd < NOFILE \<Longrightarrow> tab fd = None \<Longrightarrow>
    tab_ok (ext(f := ext f - Suc 0)) F (tab(fd := Some f))"
  by (auto simp: tab_ok_def fd_refs_set)

lemma tab_remove: "tab_ok ext F tab \<Longrightarrow> fd < NOFILE \<Longrightarrow> tab fd = Some f \<Longrightarrow> tab_ok (ext(f := Suc (ext f))) F (tab(fd := None))"
  using fd_refs_clear [of fd tab f] by (auto simp: tab_ok_def)

text \<open>Changes of an entry that keep its count.\<close>

lemma tab_set: "tab_ok ext F tab \<Longrightarrow> f_ref x = f_ref (F f) \<Longrightarrow> entry_ok x \<Longrightarrow> tab_ok ext (F(f := x)) tab"
  by (auto simp: tab_ok_def)

lemma tab_live: "tab_ok ext F tab \<Longrightarrow> fd < NOFILE \<Longrightarrow> tab fd = Some f \<Longrightarrow> 0 < f_ref (F f)"
proof -
  assume t: "tab_ok ext F tab" "fd < NOFILE" "tab fd = Some f"
  then have "0 < fd_refs f tab" unfolding fd_refs_def by (subst card_gt_0_iff) auto
  then show ?thesis using t by (auto simp: tab_ok_def)
qed

lemma tab_fd: "tab_ok ext F tab \<Longrightarrow> fd < NOFILE \<Longrightarrow> tab fd = Some f \<Longrightarrow> f < NFILE"
  by (auto simp: tab_ok_def)

lemma more_files:
  fixes s s' :: "('c, 'a) files_scheme"
  assumes "fs.more s' = fs.more s"
  shows "ftable s' = ftable s \<and> ofile s' = ofile s \<and> pipes s' = pipes s \<and> umem s' = umem s \<and> uwr s' = uwr s \<and> targs s' = targs s \<and>
    fdflag s' = fdflag s \<and> p_killed s' = p_killed s \<and> in_user s' = in_user s \<and> p_umask s' = p_umask s \<and> p_uid s' = p_uid s \<and> p_gid s' = p_gid s \<and>
    p_euid s' = p_euid s \<and> p_egid s' = p_egid s"
  using assms by (cases s; cases s') simp

lemma env_files:
  fixes s s' :: "('c, 'a) files_scheme"
  assumes "fs_env s' = fs_env s"
  shows "ftable s' = ftable s" "ofile s' = ofile s" "pipes s' = pipes s" "umem s' = umem s" "uwr s' = uwr s" "targs s' = targs s"
    "fdflag s' = fdflag s" "p_killed s' = p_killed s" "in_user s' = in_user s" "p_umask s' = p_umask s" "p_uid s' = p_uid s" "p_gid s' = p_gid s"
    "p_euid s' = p_euid s" "p_egid s' = p_egid s" "now s' = now s" "cur_pid s' = cur_pid s" "cwd s' = cwd s" "sb s' = sb s"
  using assms more_files [of s' s] by (simp_all add: fs_env_def)

lemma env_tab: "fs_env s' = fs_env s \<Longrightarrow> ftable s' = ftable s \<and> ofile s' = ofile s" for s s' :: "('c, 'a) files_scheme"
  by (intro conjI env_files(1,2))

lemmas to_tab = to_fs [THEN env_tab] env_tab

lemma upd_file_fields [simp]: "ftable (upd_file f g s) = (ftable s)(f := g (ftable s f))" "ofile (upd_file f g s) = ofile s"
  "fs_env (upd_file f g s) = (fs.more (upd_file f g s), snd (fs_env s))"
  by (simp_all add: upd_file_def fs_env_def)

section \<open>The laws of the file table\<close>

text \<open>
  The interface the system calls rely on: a file that is allocated or duplicated comes with one reference for
  the caller, and closing a file uses up one that the caller has.
\<close>

locale file_refs =
  fixes alloc :: "'s \<Rightarrow> (nat option \<times> 's) option"
    and dup :: "nat \<Rightarrow> 's \<Rightarrow> 's option"
    and close :: "nat \<Rightarrow> 's \<Rightarrow> 's option"
    and inv :: "(nat \<Rightarrow> nat) \<Rightarrow> 's \<Rightarrow> bool"
    and limit :: nat
  assumes alloc_law: "inv ext s \<Longrightarrow>
      ensures (alloc s) (\<lambda>(r, s'). case r of None \<Rightarrow> inv ext s' | Some f \<Rightarrow> f < limit \<and> inv (ext(f := ext f + 1)) s')"
    and dup_law: "inv ext s \<Longrightarrow> f < limit \<Longrightarrow> ensures (dup f s) (inv (ext(f := ext f + 1)))"
    and close_law: "inv ext s \<Longrightarrow> f < limit \<Longrightarrow> 0 < ext f \<Longrightarrow> ensures (close f s) (inv (ext(f := ext f - 1)))"
begin

text \<open>A reference that is taken and dropped again leaves the counts as they were, whatever happens in between keeps them.\<close>

lemma dup_close: "inv ext s \<Longrightarrow> f < limit \<Longrightarrow> ensures (do { s \<leftarrow> dup f s; close f s }) (inv ext)"
  by (auto intro!: dup_law [THEN ensures_mono] close_law [THEN ensures_mono])

lemma alloc_close:
  assumes "inv ext s" and body: "\<And>f t. inv (ext(f := ext f + 1)) t \<Longrightarrow> ensures (body f t) (inv (ext(f := ext f + 1)))"
  shows "ensures (do { (r, s) \<leftarrow> alloc s; case r of None \<Rightarrow> Some s | Some f \<Rightarrow> do { s \<leftarrow> body f s; close f s } }) (inv ext)"
proof (simp, rule alloc_law [THEN ensures_mono, OF assms(1)], clarify)
  fix r s' assume r: "case r of None \<Rightarrow> inv ext s' | Some f \<Rightarrow> f < limit \<and> inv (ext(f := ext f + 1)) s'"
  show "ensures (case r of None \<Rightarrow> Some s' | Some f \<Rightarrow> body f s' \<bind> close f) (inv ext)"
  proof (cases r)
    case (Some f)
    with r have f: "f < limit" "inv (ext(f := ext f + 1)) s'" by simp_all
    have "ensures (body f s') (\<lambda>t. ensures (close f t) (inv ext))"
      using body [OF f(2)] by (rule ensures_mono) (use close_law [OF _ f(1)] in \<open>fastforce elim: ensures_mono\<close>)
    then show ?thesis by (simp add: Some)
  qed (use r in simp)
qed

end

lemma pointer_any [wp]: "(\<And>x. Q x) \<Longrightarrow> ensures (f_pipe y) Q" "(\<And>x. Q x) \<Longrightarrow> ensures (f_ip y) Q" "(\<And>x. ofile s fd = Some x \<Longrightarrow> Q x) \<Longrightarrow> ensures (ofile s fd) Q"
  by (simp_all add: ensures_def)

lemma filealloc_effect [THEN ensures_mono, wp]:
  "ensures (filealloc s) (\<lambda>(r, s'). ofile s' = ofile s \<and> (case r of None \<Rightarrow> ftable s' = ftable s
    | Some f \<Rightarrow> f < NFILE \<and> f_ref (ftable s f) = 0 \<and> ftable s' = (ftable s)(f := (ftable s f)\<lparr>f_ref := 1\<rparr>)))"
  by (auto simp: filealloc_def Let_def find_Some_iff split: option.split intro!: wp dest!: to_tab)

lemma filealloc_law:
  "table_ok ext s \<Longrightarrow> ensures (filealloc s) (\<lambda>(r, s'). case r of None \<Rightarrow> table_ok ext s' | Some f \<Rightarrow> f < NFILE \<and> table_ok (ext(f := ext f + 1)) s')"
  by (rule filealloc_effect) (auto simp: table_ok_def split: option.splits dest: tab_alloc)

lemma filedup_effect [THEN ensures_mono, wp]:
  "ensures (filedup f s) (\<lambda>s'. ofile s' = ofile s \<and> \<not> f_ref (ftable s f) < 1 \<and> ftable s' = (ftable s)(f := (ftable s f)\<lparr>f_ref := f_ref (ftable s f) + 1\<rparr>))"
  by (auto simp: filedup_def intro!: wp dest!: to_tab)

lemma filedup_law: "table_ok ext s \<Longrightarrow> f < NFILE \<Longrightarrow> ensures (filedup f s) (table_ok (ext(f := ext f + 1)))"
  by (rule filedup_effect) (auto simp: table_ok_def intro!: tab_dup)

lemma pipeclose_frame [THEN ensures_mono, wp]: "ensures (pipeclose pi w p s) (\<lambda>(g, q, s'). kstate.more s' = kstate.more s)"
  by (auto simp: pipeclose_def k_wakeup_def Let_def intro!: wp)

lemma pipe_drop_frame [THEN ensures_mono, wp]: "ensures (pipe_drop pi w s) (\<lambda>s'. ftable s' = ftable s \<and> ofile s' = ofile s)"
  by (auto simp: pipe_drop_def Let_def intro!: wp dest!: to_tab)

lemma fileclose_effect [THEN ensures_mono, wp]: "ensures (fileclose M f s) (\<lambda>s'. ofile s' = ofile s \<and> ftable s' = (ftable s)(f := closed (ftable s f)))"
  by (auto simp: fileclose_def closed_def Let_def split: ftype.split option.split intro!: wp dest!: to_tab)

lemma fileclose_law: "table_ok ext s \<Longrightarrow> f < NFILE \<Longrightarrow> 0 < ext f \<Longrightarrow> ensures (fileclose M f s) (table_ok (ext(f := ext f - 1)))"
  by (rule fileclose_effect) (auto simp: table_ok_def intro!: tab_closed)

interpretation ft: file_refs filealloc filedup "fileclose M" table_ok NFILE
  by unfold_locales (rule filealloc_law filedup_law fileclose_law; assumption)+

section \<open>Operations on paths leave the table alone\<close>

definition tabs :: "('c, 'a) files_scheme \<Rightarrow> (nat \<Rightarrow> kfile) \<times> (nat \<Rightarrow> nat option)" where
  "tabs s = (ftable s, ofile s)"

lemma tabsI: "ftable s' = ftable s \<and> ofile s' = ofile s \<Longrightarrow> tabs s' = tabs s"
  by (simp add: tabs_def)

lemmas to_tabs = to_tab [THEN tabsI]

lemma tabs_upd [simp]: "tabs (upd_inode i f s) = tabs s" "tabs (store_user a bs s) = tabs s" "tabs (s\<lparr>cwd := x\<rparr>) = tabs s" "tabs (s\<lparr>fdflag := y\<rparr>) = tabs s"
  "tabs (s\<lparr>umem := um\<rparr>) = tabs s" "tabs (s\<lparr>ofile_ip := z\<rparr>) = tabs s" "tabs (s\<lparr>pipes := pp\<rparr>) = tabs s"
  by (simp_all add: tabs_def upd_inode_def store_user_def)

lemma copyout_tabs [simp]: "copyout_user a bs s = (e, s') \<Longrightarrow> tabs s' = tabs s" "tabs (snd (copyout_user a bs s)) = tabs s"
  by (auto simp: copyout_user_def Let_def)

lemma table_ok_tabs: "tabs s' = tabs s \<Longrightarrow> table_ok ext s' = table_ok ext s"
  by (simp add: tabs_def table_ok_def)

lemma frame_step: "m = Some y \<Longrightarrow> ensures m (\<lambda>y. v (snd y) = x) \<Longrightarrow> v (snd y) = x"
  by (simp add: ensures_def)

lemma snd_frame: "(\<And>y. m = Some y \<Longrightarrow> v (snd y) = x) \<Longrightarrow> ensures m (\<lambda>(r, s'). v s' = x)"
  by (auto simp: ensures_def)

lemma at_dirfd_frame [THEN ensures_mono, wp]: "ensures (at_dirfd path dirfd s) (\<lambda>s'. tabs s' = tabs s)"
  by (auto simp: at_dirfd_def intro!: wp)

lemma namei_at_frame [THEN ensures_mono, wp]: "ensures (namei_at M path dirfd s) (\<lambda>(r, s'). tabs s' = tabs s)"
  by (auto simp: namei_at_def intro!: wp dest!: to_tabs)

lemma nameiparent_at_frame [THEN ensures_mono, wp]: "ensures (nameiparent_at M path name dirfd s) (\<lambda>(r, nm, s'). tabs s' = tabs s)"
  by (auto simp: nameiparent_at_def intro!: wp dest!: to_tabs)

lemma open_loop_frame [THEN ensures_mono, wp]: "ensures (open_loop M path dirfd flags s) (\<lambda>(r, s'). tabs s' = tabs s)"
  apply (rule snd_frame, erule open_loop.raw_induct [where P = "\<lambda>M path dirfd flags s y. tabs (snd y) = tabs s", rotated])
  subgoal premises p for y f
  proof -
    have [THEN ensures_mono, wp]: "ensures (f M path dirfd flags s) (\<lambda>(r, s'). tabs s' = tabs s)" for M path dirfd flags s
      by (rule snd_frame) (rule p(1))
    show ?thesis by (rule frame_step [OF p(2)]) (auto split: option.split intro!: wp dest!: to_tabs)
  qed
  done

lemma follow_frame [THEN ensures_mono, wp]: "ensures (follow M path dirfd flags s) (\<lambda>(r, s'). tabs s' = tabs s)"
  apply (rule snd_frame, erule follow.raw_induct [where P = "\<lambda>M path dirfd flags s y. tabs (snd y) = tabs s", rotated])
  subgoal premises p for y f
  proof -
    have [THEN ensures_mono, wp]: "ensures (f M path dirfd flags s) (\<lambda>(r, s'). tabs s' = tabs s)" for M path dirfd flags s
      by (rule snd_frame) (rule p(1))
    show ?thesis by (rule frame_step [OF p(2)]) (auto split: option.split intro!: wp dest!: to_tabs)
  qed
  done

lemma new_dots_frame [THEN ensures_mono, wp]: "ensures (new_dots M type ip dp s) (\<lambda>(r, s'). tabs s' = tabs s)"
  by (auto simp: new_dots_def intro!: wp dest!: to_tabs)

lemma create_frame [THEN ensures_mono, wp]: "ensures (create M name path dirfd type major minor mode s) (\<lambda>(r, s'). tabs s' = tabs s)"
  by (auto simp: create_def Let_def split: option.split intro!: wp dest!: to_tabs)

lemma open_inode_frame [THEN ensures_mono, wp]: "ensures (open_inode M name path dirfd flags mode s) (\<lambda>(r, s'). tabs s' = tabs s)"
  by (auto simp: open_inode_def split: option.split created.split intro!: wp dest!: to_tabs)

section \<open>The calls on descriptors\<close>

lemma fdalloc_effect [THEN ensures_mono, wp]:
  "ensures (fdalloc f from s) (\<lambda>(fd, s'). ftable s' = ftable s \<and> (if fd < 0 then ofile s' = ofile s
    else nat fd < NOFILE \<and> ofile s (nat fd) = None \<and> ofile s' = (ofile s)(nat fd := Some f)))"
  by (auto simp: fdalloc_def find_Some_iff split: option.split)

lemma tab_open: "tab_ok ext F tab \<Longrightarrow> f < NFILE \<Longrightarrow> f_ref (F f) = 0 \<Longrightarrow> fd < NOFILE \<Longrightarrow> tab fd = None \<Longrightarrow> f_ref x = 1 \<Longrightarrow> entry_ok x \<Longrightarrow>
    tab_ok ext (F(f := x)) (tab(fd := Some f))"
  by (auto simp: tab_ok_def fd_refs_set)

lemma closed_new [simp]: "closed (x\<lparr>f_ref := 1\<rparr>) = x\<lparr>f_ref := 0, f_type := FD_NONE\<rparr>"
  by (simp add: closed_def)

lemma open_file_law: "table_ok ext s \<Longrightarrow> ensures (open_file M ip flags s) (\<lambda>(fd, s'). table_ok ext s')"
  unfolding open_file_def
  by (auto simp: table_ok_def Let_def split: option.split split del: if_split intro!: wp dest!: to_tab;
    ((erule tab_open; simp add: entry_ok_def; fail) | (erule tab_set; simp add: entry_ok_def; fail)))

lemma tabsD: "tabs s' = tabs s \<Longrightarrow> ftable s' = ftable s \<and> ofile s' = ofile s"
  by (simp add: tabs_def)

lemma fileopen_law: "table_ok ext s \<Longrightarrow> ensures (fileopen M name path dirfd flags mode s) (\<lambda>(fd, s'). table_ok ext s')"
  unfolding fileopen_def
  by (auto simp: table_ok_def split: sum.split intro!: wp open_file_law [unfolded table_ok_def, THEN ensures_mono] dest!: tabsD)

lemma tab_dup_fd: "tab_ok ext F tab \<Longrightarrow> fd < NOFILE \<Longrightarrow> tab fd = Some f \<Longrightarrow>
    tab_ok (ext(f := Suc (ext f))) (F(f := (F f)\<lparr>f_ref := f_ref (F f) + 1\<rparr>)) tab"
  using tab_live [of ext F tab fd f] by (intro tab_dup) (auto dest: tab_fd)

lemma tab_dup_install: "tab_ok ext F tab \<Longrightarrow> fd < NOFILE \<Longrightarrow> tab fd = Some f \<Longrightarrow> fd' < NOFILE \<Longrightarrow> tab fd' = None \<Longrightarrow>
    tab_ok ext (F(f := (F f)\<lparr>f_ref := f_ref (F f) + 1\<rparr>)) (tab(fd' := Some f))"
  using tab_install [OF tab_dup_fd, of ext F tab fd f f fd'] tab_fd [of ext F tab fd f] by simp

lemma tab_close_fd: "tab_ok ext F tab \<Longrightarrow> fd < NOFILE \<Longrightarrow> tab fd = Some f \<Longrightarrow> tab_ok ext (F(f := closed (F f))) (tab(fd := None))"
  using tab_closed [OF tab_remove, of ext F tab fd f f] tab_fd [of ext F tab fd f] by simp

lemma tab_replace: "tab_ok ext F tab \<Longrightarrow> fd < NOFILE \<Longrightarrow> tab fd = Some f \<Longrightarrow> fd' < NOFILE \<Longrightarrow> tab fd' = Some f' \<Longrightarrow> fd \<noteq> fd' \<Longrightarrow> f \<noteq> f' \<Longrightarrow>
    tab_ok ext (F(f' := closed (F f'), f := (F f)\<lparr>f_ref := f_ref (F f) + 1\<rparr>)) (tab(fd' := Some f))"
  using tab_dup_install [OF tab_close_fd, of ext F tab fd' f' fd f fd'] by simp

lemma tab_replace_same: "tab_ok ext F tab \<Longrightarrow> fd < NOFILE \<Longrightarrow> tab fd = Some f \<Longrightarrow> fd' < NOFILE \<Longrightarrow> tab fd' = Some f \<Longrightarrow> fd \<noteq> fd' \<Longrightarrow>
    tab_ok ext (F(f := (closed (F f))\<lparr>f_ref := f_ref (closed (F f)) + 1\<rparr>)) (tab(fd' := Some f))"
  using tab_dup_install [OF tab_close_fd, of ext F tab fd' f fd f fd'] by simp

lemma nat_fd: "\<not> fd < 0 \<Longrightarrow> \<not> int NOFILE \<le> fd \<Longrightarrow> nat fd < NOFILE"
  by simp

lemma dupfd_law:
  "table_ok ext s \<Longrightarrow> ensures (dupfd fd from s) (\<lambda>(r, s'). table_ok (if r < 0 \<and> ofile s (nat fd) \<noteq> None then
      ext(the (ofile s (nat fd)) := ext (the (ofile s (nat fd))) + 1) else ext) s')"
  by (auto simp: dupfd_def table_ok_def split: option.split intro!: wp;
    (rule tab_dup_fd [where fd = "nat fd"] tab_dup_install [where fd = "nat fd"]; (assumption | erule (1) nat_fd)))

lemma sys_close_law: "table_ok ext s \<Longrightarrow> ensures (sys_close M s) (\<lambda>(r, s'). table_ok ext s')"
  by (auto simp: sys_close_def argfd_def Let_def table_ok_def split: option.split intro!: wp tab_close_fd)

lemma sys_dup3_law: "table_ok ext s \<Longrightarrow> ensures (sys_dup3 M s) (\<lambda>(r, s'). table_ok ext s')"
  by (auto simp: sys_dup3_def Let_def table_ok_def split: option.split intro!: wp;
    (rule tab_dup_install [where fd = "nat (argint 0 s)"] tab_replace [where fd = "nat (argint 0 s)"] tab_replace_same [where fd = "nat (argint 0 s)"];
     (assumption | erule (1) nat_fd | simp)))

lemma tab_two: "tab_ok ext F tab \<Longrightarrow> f < NFILE \<Longrightarrow> g < NFILE \<Longrightarrow> f \<noteq> g \<Longrightarrow> f_ref (F f) = 0 \<Longrightarrow> f_ref (F g) = 0 \<Longrightarrow>
    f_ref x = 1 \<Longrightarrow> f_ref y = 1 \<Longrightarrow> entry_ok x \<Longrightarrow> entry_ok y \<Longrightarrow> tab_ok (ext(f := Suc (ext f), g := Suc (ext g))) (F(f := x, g := y)) tab"
  by (auto simp: tab_ok_def)

lemma tab_close_two: "tab_ok (ext(f := Suc (ext f), g := Suc (ext g))) F tab \<Longrightarrow> f < NFILE \<Longrightarrow> g < NFILE \<Longrightarrow> f \<noteq> g \<Longrightarrow>
    tab_ok ext (F(f := closed (F f), g := closed (F g))) tab"
  using tab_closed [OF tab_closed, of "ext(f := Suc (ext f), g := Suc (ext g))" F tab f g] by (simp add: fun_upd_twist)

lemma tab_install_two: "tab_ok (ext(f := Suc (ext f), g := Suc (ext g))) F tab \<Longrightarrow> f < NFILE \<Longrightarrow> g < NFILE \<Longrightarrow> f \<noteq> g \<Longrightarrow>
    fd < NOFILE \<Longrightarrow> tab fd = None \<Longrightarrow> fd' < NOFILE \<Longrightarrow> tab fd' = None \<Longrightarrow> fd \<noteq> fd' \<Longrightarrow> tab_ok ext F (tab(fd := Some f, fd' := Some g))"
  using tab_install [OF tab_install, of "ext(f := Suc (ext f), g := Suc (ext g))" F tab f fd g fd'] by (simp add: fun_upd_twist)

lemma pipealloc_law:
  "table_ok ext s \<Longrightarrow> ensures (pipealloc M junk flags s) (\<lambda>(r, s'). case r of None \<Rightarrow> table_ok ext s'
    | Some (f, g) \<Rightarrow> f < NFILE \<and> g < NFILE \<and> f \<noteq> g \<and> table_ok (ext(f := Suc (ext f), g := Suc (ext g))) s')"
  unfolding pipealloc_def
  by (auto simp: Let_def table_ok_def split: option.split intro!: wp dest!: to_tab split del: if_split;
    ((erule tab_set; simp add: entry_ok_def; fail) | (simp split: if_split_asm; erule tab_two; simp add: entry_ok_def; fail)))

lemma inode_fields [simp]: "ftable (upd_inode i g s) = ftable s" "ofile (upd_inode i g s) = ofile s" "ftable (store_user a bs s) = ftable s"
  "ofile (store_user a bs s) = ofile s"
  by (simp_all add: upd_inode_def store_user_def)

lemma copyout_fields [simp]: "ftable (snd (copyout_user a bs s)) = ftable s" "ofile (snd (copyout_user a bs s)) = ofile s"
  using copyout_tabs(2) [of a bs s] by (simp_all add: tabs_def)

lemma pipe2_undo_effect [THEN ensures_mono, wp]:
  "f \<noteq> g \<Longrightarrow> ensures (pipe2_undo M f g e s) (\<lambda>(r, s'). ofile s' = ofile s \<and> ftable s' = (ftable s)(f := closed (ftable s f), g := closed (ftable s g)))"
  by (auto simp: pipe2_undo_def intro!: wp)

lemma pipe2_copy_law:
  assumes t: "tab_ok (ext(f := Suc (ext f), g := Suc (ext g))) F tab" "f < NFILE" "g < NFILE" "f \<noteq> g"
    and fd: "fd0 < NOFILE" "tab fd0 = None" "fd1 < NOFILE" "tab fd1 = None" "fd0 \<noteq> fd1"
    and s: "ftable s = F" "ofile s = tab(fd0 := Some f, fd1 := Some g)"
  shows "ensures (pipe2_copy M f g fd0 fd1 flags fdarray s) (\<lambda>(r, s'). table_ok ext s')"
proof -
  have u: "(tab(fd0 := Some f, fd1 := Some g))(fd0 := None, fd1 := None) = tab" using fd by auto
  define p where "p = copyout_user fdarray (fd_bytes fd0) s"
  define q where "q = (if fst p < 0 then p else copyout_user (fdarray + 4) (fd_bytes fd1) (snd p))"
  have P: "ofile (snd p) = tab(fd0 := Some f, fd1 := Some g)" by (simp add: p_def s)
  have q: "ftable (snd q) = F" "ofile (snd q) = tab(fd0 := Some f, fd1 := Some g)" by (simp_all add: q_def p_def s)
  have "pipe2_copy M f g fd0 fd1 flags fdarray s =
     (if fst q < 0 then pipe2_undo M f g (- EFAULT) ((snd q)\<lparr>ofile := tab, fdflag := bit_remove (bit_remove (fdflag (snd q)) fd0) fd1\<rparr>)
      else Some (0, (snd q)\<lparr>fdflag := (if flags AND O_CLOEXEC \<noteq> 0 then bit_add (bit_add (fdflag (snd q)) fd0) fd1 else fdflag (snd q))\<rparr>))"
    unfolding pipe2_copy_def p_def [symmetric] case_prod_beta Let_def using P u by (simp add: q_def case_prod_beta)
  then show ?thesis
    using tab_close_two [OF t] tab_install_two [OF t fd] t(4) by (auto simp: table_ok_def q intro!: wp)
qed

lemma pipe2_fds_law:
  assumes t: "table_ok (ext(f := Suc (ext f), g := Suc (ext g))) s" "f < NFILE" "g < NFILE" "f \<noteq> g"
  shows "ensures (pipe2_fds M f g flags fdarray s) (\<lambda>(r, s'). table_ok ext s')"
proof -
  note T = t [unfolded table_ok_def]
  show ?thesis using tab_close_two [OF T] t(4)
    by (auto simp: pipe2_fds_def table_ok_def fun_upd_idem split: if_split_asm intro!: wp pipe2_copy_law [OF T, unfolded table_ok_def])
qed

lemma sys_pipe2_law:
  assumes "table_ok ext s"
  shows "ensures (sys_pipe2 M junk s) (\<lambda>(r, s'). \<exists>ext'. ext \<le> ext' \<and> table_ok ext' s')"
proof -
  have up: "ext \<le> ext(f := Suc (ext f), g := Suc (ext g))" for f g by (simp add: le_fun_def)
  have "ensures (case r of None \<Rightarrow> Some (- ENFILE, s')
     | Some (f, g) \<Rightarrow> if arg32 1 s AND NOT PIPE2_FLAGS \<noteq> 0 then Some (- EINVAL, s') else pipe2_fds M f g (arg32 1 s) (targs s 0) s')
     (\<lambda>(r, s'). \<exists>ext'. ext \<le> ext' \<and> table_ok ext' s')"
    if "case r of None \<Rightarrow> table_ok ext s' | Some (f, g) \<Rightarrow> f < NFILE \<and> g < NFILE \<and> f \<noteq> g \<and> table_ok (ext(f := Suc (ext f), g := Suc (ext g))) s'" for r s'
    using that up by (auto split: option.splits intro!: pipe2_fds_law [THEN ensures_mono])
  then show ?thesis
    unfolding sys_pipe2_def ensures_bind by (intro pipealloc_law [OF assms, THEN ensures_mono]) auto
qed

section \<open>The other calls\<close>

text \<open>What is assumed of a driver: its functions do not touch the file table and the descriptors.\<close>

definition dev_ok :: "('c, 'a) devtab \<Rightarrow> bool" where
  "dev_ok D \<longleftrightarrow> (\<forall>mj s. (\<forall>rd u a n. d_read (D mj) = Some rd \<longrightarrow> ensures (rd u a n s) (\<lambda>(r, s'). tabs s' = tabs s)) \<and>
     (\<forall>wr u a n. d_write (D mj) = Some wr \<longrightarrow> ensures (wr u a n s) (\<lambda>(r, s'). tabs s' = tabs s)) \<and>
     (\<forall>io u q a. d_ioctl (D mj) = Some io \<longrightarrow> ensures (io u q a s) (\<lambda>(r, s'). tabs s' = tabs s)))"

lemma dev_read_frame: "dev_ok D \<Longrightarrow> d_read (D mj) = Some rd \<Longrightarrow> (\<And>r s'. tabs s' = tabs s \<Longrightarrow> Q (r, s')) \<Longrightarrow> ensures (rd u a n s) Q"
  by (rule ensures_mono [where P = "\<lambda>(r, s'). tabs s' = tabs s"]) (auto simp: dev_ok_def)

lemma dev_write_frame: "dev_ok D \<Longrightarrow> d_write (D mj) = Some wr \<Longrightarrow> (\<And>r s'. tabs s' = tabs s \<Longrightarrow> Q (r, s')) \<Longrightarrow> ensures (wr u a n s) Q"
  by (rule ensures_mono [where P = "\<lambda>(r, s'). tabs s' = tabs s"]) (auto simp: dev_ok_def)

lemma dev_ioctl_frame: "dev_ok D \<Longrightarrow> d_ioctl (D mj) = Some io \<Longrightarrow> (\<And>r s'. tabs s' = tabs s \<Longrightarrow> Q (r, s')) \<Longrightarrow> ensures (io u q a s) Q"
  by (rule ensures_mono [where P = "\<lambda>(r, s'). tabs s' = tabs s"]) (auto simp: dev_ok_def)

lemma piperead_frame [THEN ensures_mono, wp]: "ensures (piperead pi co kl n p s) (\<lambda>(r, cs, q, s'). kstate.more s' = kstate.more s)"
  by (auto simp: piperead_def case_prod_beta Let_def k_wakeup_def simp del: piperead_loop.simps intro!: wp)

lemma pipewrite_loop_frame [THEN ensures_mono, wp]: "ensures (pipewrite_loop pi ci kl n i p s) (\<lambda>(r, j, q, s'). kstate.more s' = kstate.more s)"
proof (induction "nat (n - int i)" arbitrary: i p s rule: less_induct)
  case less
  show ?case
    by (subst pipewrite_loop.simps) (auto simp: Let_def k_wakeup_def split: option.split intro!: wp less [THEN ensures_mono])
qed

lemma pipewrite_frame [THEN ensures_mono, wp]: "ensures (pipewrite pi ci kl n p s) (\<lambda>(r, j, q, s'). kstate.more s' = kstate.more s)"
  by (auto simp: pipewrite_def pipewrite_from_def simp del: pipewrite_loop.simps intro!: wp)

lemma tab_off: "tab_ok ext F tab \<Longrightarrow> tab_ok ext (F(f := (F f)\<lparr>f_off := x\<rparr>)) tab"
  by (auto simp: tab_ok_def entry_ok_def)

lemma table_off: "table_ok ext s \<Longrightarrow> table_ok ext (upd_file f (\<lambda>x. x\<lparr>f_off := g x\<rparr>) s)"
  by (simp add: table_ok_def tab_off)

lemma table_tabs: "table_ok ext s \<Longrightarrow> tabs s' = tabs s \<Longrightarrow> table_ok ext s'"
  by (simp add: table_ok_def tabs_def)

lemma fileread_law: "dev_ok D \<Longrightarrow> table_ok ext s \<Longrightarrow> ensures (fileread M D f addr n user s) (\<lambda>(r, bs, s'). table_ok ext s')"
  unfolding fileread_def
  by (auto simp: table_ok_def Let_def split: ftype.split option.split outcome.split intro!: wp tab_off dest!: to_tab tabsD elim!: dev_read_frame [rotated])

lemma filewrite_loop_law: "table_ok ext s \<Longrightarrow> ensures (filewrite_loop M f i src n k s) (\<lambda>(j, s'). table_ok ext s')"
proof (induction "nat (n - k)" arbitrary: k s rule: less_induct)
  case less
  note t = less.prems [unfolded table_ok_def]
  have p: "0 < max_write" by (simp add: max_write_def MAXOPBLOCKS_def BSIZE_def)
  show ?case using t p
    by (subst filewrite_loop.simps)
      (auto simp: table_ok_def Let_def intro!: wp less.hyps tab_off dest!: to_tab)
qed

lemma filewrite_law: "dev_ok D \<Longrightarrow> table_ok ext s \<Longrightarrow> ensures (filewrite M D f addr kbuf n user s) (\<lambda>(r, s'). table_ok ext s')"
  unfolding filewrite_def
  by (auto simp: table_ok_def Let_def split: ftype.split option.split outcome.split
    intro!: wp filewrite_loop_law [unfolded table_ok_def, THEN ensures_mono] dest!: to_tab tabsD elim!: dev_write_frame [rotated])

lemma fileioctl_frame: "dev_ok D \<Longrightarrow> ensures (fileioctl D f q a s) (\<lambda>(r, s'). tabs s' = tabs s)"
  by (auto simp: fileioctl_def Let_def split: option.split intro!: dev_ioctl_frame)

lemma filelseek_law: "table_ok ext s \<Longrightarrow> ensures (filelseek f off wh s) (\<lambda>(r, s'). table_ok ext s')"
  by (auto simp: filelseek_def table_ok_def intro!: wp tab_off)

lemma filestat_frame [THEN ensures_mono, wp]: "ensures (filestat M g f addr s) (\<lambda>(r, s'). tabs s' = tabs s)"
  by (auto simp: filestat_def Let_def case_prod_beta split: ftype.split intro!: wp ensures_any [where m = "stati _ _ _"] dest!: to_tabs)

lemma filelink_frame [THEN ensures_mono, wp]: "ensures (filelink M name p d q e s) (\<lambda>(r, s'). tabs s' = tabs s)"
  by (auto simp: filelink_def split: option.split intro!: wp dest!: to_tabs)

lemma filesymlink_frame [THEN ensures_mono, wp]: "ensures (filesymlink M name p q d s) (\<lambda>(r, s'). tabs s' = tabs s)"
  by (auto simp: filesymlink_def split: option.split intro!: wp dest!: to_tabs)

lemma filereadlink_frame [THEN ensures_mono, wp]: "ensures (filereadlink M name p d b n s) (\<lambda>(r, s'). tabs s' = tabs s)"
  by (auto simp: filereadlink_def Let_def split: option.split intro!: wp dest!: to_tabs)

lemma dirempty_loop_frame [THEN ensures_mono, wp]: "ensures (dirempty_loop M dp os s) (\<lambda>(r, s'). tabs s' = tabs s)"
proof (induction os arbitrary: s)
  case (Cons a os)
  show ?case by (auto intro!: wp Cons.IH [THEN ensures_mono] dest!: to_tabs)
qed simp

lemma fileunlink_frame [THEN ensures_mono, wp]: "ensures (fileunlink M name p d fl s) (\<lambda>(r, s'). tabs s' = tabs s)"
  by (auto simp: fileunlink_def isdirempty_def split: option.split intro!: wp dest!: to_tabs)

lemma filechmod_frame [THEN ensures_mono, wp]: "ensures (filechmod M p d m s) (\<lambda>(r, s'). tabs s' = tabs s)"
  by (auto simp: filechmod_def split: option.split intro!: wp dest!: to_tabs)

lemma filechown_frame [THEN ensures_mono, wp]: "ensures (filechown M f p d u g fl s) (\<lambda>(r, s'). tabs s' = tabs s)"
  by (auto simp: filechown_def Let_def case_prod_beta split: option.split intro!: wp dest!: to_tabs)

lemma faccess_frame [THEN ensures_mono, wp]: "ensures (faccess M p d m fl s) (\<lambda>(r, s'). tabs s' = tabs s)"
  by (auto simp: faccess_def Let_def case_prod_beta split: option.split intro!: wp dest!: to_tabs)

lemma rename_frame [THEN ensures_mono, wp]: "ensures (rename M dp a b s) (\<lambda>(r, s'). tabs s' = tabs s)"
  by (auto simp: rename_def Let_def split: option.split intro!: wp dest!: to_tabs)

lemma reinode_frame [THEN ensures_mono, wp]: "ensures (reinode M dp a b s) (\<lambda>(r, s'). tabs s' = tabs s)"
  by (auto simp: reinode_def Let_def split: option.split intro!: wp dest!: to_tabs)

lemma filerename_frame [THEN ensures_mono, wp]: "ensures (filerename M name p d q e fl s) (\<lambda>(r, s'). tabs s' = tabs s)"
  by (auto simp: filerename_def Let_def split: option.split intro!: wp ensures_any [where m = "_ :: nat option"] dest!: to_tabs)

lemma with_path_law: "table_ok ext s \<Longrightarrow> (\<And>path. ensures (rest path) (\<lambda>(r, s'). table_ok ext s')) \<Longrightarrow>
    ensures (with_path n d e s rest) (\<lambda>(r, s'). table_ok ext s')"
  by (auto simp: with_path_def split: option.split intro!: ensures_any [where m = "check_fdcwd _ _ _"])

lemma readv_loop_law: "dev_ok D \<Longrightarrow> table_ok ext s \<Longrightarrow> ensures (readv_loop M D f vs tot s) (\<lambda>(r, s'). table_ok ext s')"
proof (induction vs arbitrary: tot s)
  case (Cons v vs)
  show ?case using Cons.prems by (auto intro!: fileread_law [THEN ensures_mono] Cons.IH)
qed simp

lemma writev_loop_law: "dev_ok D \<Longrightarrow> table_ok ext s \<Longrightarrow> ensures (writev_loop M D f iov ks tot s) (\<lambda>(r, s'). table_ok ext s')"
proof (induction ks arbitrary: tot s)
  case (Cons k ks)
  show ?case using Cons.prems by (auto split: option.split intro!: filewrite_law [THEN ensures_mono] Cons.IH)
qed simp

lemma sendfile_loop_law: "dev_ok D \<Longrightarrow> table_ok ext s \<Longrightarrow> ensures (sendfile_loop M D g f b kb n t s) (\<lambda>(r, s'). table_ok ext s')"
proof (induction n arbitrary: kb t s rule: less_induct)
  case (less n)
  have p: "0 < PAGE_SIZE" by (simp add: PAGE_SIZE_def)
  show ?case using less.prems p
    by (subst sendfile_loop.simps) (auto simp: Let_def intro!: fileread_law [THEN ensures_mono] filewrite_law [THEN ensures_mono] less.IH)
qed

lemma tab_off_flags: "tab_ok ext F tab \<Longrightarrow> tab_ok ext (F(f := set_off_bytes bs (F f))) tab"
  by (auto simp: tab_ok_def entry_ok_def set_off_bytes_def Let_def)

lemma sendfile_law: "dev_ok D \<Longrightarrow> table_ok ext s \<Longrightarrow> ensures (sendfile M D junk g f o' n s) (\<lambda>(r, s'). table_ok ext s')"
  unfolding sendfile_def
  by (auto simp: table_ok_def Let_def intro!: wp sendfile_loop_law [unfolded table_ok_def, THEN ensures_mono] tab_off tab_off_flags dest!: to_tab)

lemma law_step: "m = Some y \<Longrightarrow> ensures m (\<lambda>(r, s'). P s') \<Longrightarrow> P (snd y)"
  by (auto simp: ensures_def)

lemma snd_law: "(\<And>y. m = Some y \<Longrightarrow> P (snd y)) \<Longrightarrow> ensures m (\<lambda>(r, s'). P s')"
  by (auto simp: ensures_def)

lemma getdents_loop_law: "dev_ok D \<Longrightarrow> table_ok ext s \<Longrightarrow> ensures (getdents_loop M D past f dat sz tlen off d64 s) (\<lambda>(r, s'). table_ok ext s')"
  apply (rule snd_law, erule getdents_loop.raw_induct [where P = "\<lambda>M D past f dat sz tlen off d64 s y. dev_ok D \<longrightarrow> table_ok ext s \<longrightarrow> table_ok ext (snd y)",
      rotated, THEN mp, THEN mp])
  subgoal premises p for y g M D past f dat sz tlen off d64 s z
  proof (intro impI)
    assume D: "dev_ok D" and t: "table_ok ext s"
    have ih: "table_ok ext s \<Longrightarrow> ensures (g M D past f dat sz tlen off d64 s) (\<lambda>(r, s'). table_ok ext s')" for M past f dat sz tlen off d64 s
      by (rule snd_law) (use p(3) D in blast)
    show "table_ok ext (snd z)"
      by (rule law_step [OF p(4)]) (auto simp: Let_def case_prod_beta intro!: fileread_law [OF D t, THEN ensures_mono] ih,
        auto simp: table_ok_def intro!: wp ih dest!: to_tab)
  qed
  apply assumption+
  done

lemma getcwd_loop_frame [THEN ensures_mono, wp]: "ensures (getcwd_loop M sz cw buf s) (\<lambda>(r, s'). tabs s' = tabs s)"
  apply (rule snd_frame, erule getcwd_loop.raw_induct [where P = "\<lambda>M sz cw buf s y. tabs (snd y) = tabs s", rotated])
  subgoal premises p for y f
  proof -
    have [THEN ensures_mono, wp]: "ensures (f M sz cw buf s) (\<lambda>(r, s'). tabs s' = tabs s)" for M sz cw buf s
      by (rule snd_frame) (rule p(1))
    show ?thesis by (rule frame_step [OF p(2)]) (auto simp: Let_def split: option.split intro!: wp ensures_any [where m = "_ :: (nat \<times> nat) option"] dest!: to_tabs)
  qed
  done

end
