(* ===== verification/File_Calls.thy ===== *)
theory File_Calls
  imports File_Refs
begin

text \<open>
  The file system calls as the steps of a process: a step is one call of \<^verbatim>\<open>kernel/sysfile.c\<close>, or the process
  changing its registers and memory. The laws of \<open>File_Refs\<close> give that no sequence of calls leaves a descriptor
  that refers to a free file, whatever the arguments and whatever the calls answer.
\<close>

unbundle bit_operations_syntax

section \<open>The calls\<close>

text \<open>The parameters are the bytes of uninitialised variables the calls read.\<close>

datatype fcall =
    Dup | Dup3 | Close | Pipe2 "nat \<Rightarrow> u8" | Fcntl | Openat "nat \<Rightarrow> u8"
  | Read | Write | Readv "nat \<Rightarrow> u64 \<times> u64" | Writev | Lseek | Ioctl | Sendfile "nat \<Rightarrow> u8" | Fadvise64
  | Fstat "nat \<Rightarrow> u8" | Fstatat "nat \<Rightarrow> u8" | Fchmodat | Fchown | Fchownat | Faccessat2 | Llistxattr
  | Utimensat "nat \<Rightarrow> u8" "nat \<Rightarrow> u8" | Linkat "nat \<Rightarrow> u8" | Symlinkat "nat \<Rightarrow> u8" | Unlinkat "nat \<Rightarrow> u8"
  | Readlinkat "nat \<Rightarrow> u8" | Mkdirat "nat \<Rightarrow> u8" | Mknodat "nat \<Rightarrow> u8" | Chdir | Renameat2 "nat \<Rightarrow> u8"
  | Getdents64 bool u8 "nat \<Rightarrow> u8" | Getcwd

fun do_fcall :: "'c mmc_ops \<Rightarrow> ('c, 'a) devtab \<Rightarrow> fcall \<Rightarrow> ('c, 'a) files_scheme \<Rightarrow> (int \<times> ('c, 'a) files_scheme) option" where
  "do_fcall M D Dup s = sys_dup s"
| "do_fcall M D Dup3 s = sys_dup3 M s"
| "do_fcall M D Close s = sys_close M s"
| "do_fcall M D (Pipe2 junk) s = sys_pipe2 M junk s"
| "do_fcall M D Fcntl s = sys_fcntl s"
| "do_fcall M D (Openat name) s = sys_openat M name s"
| "do_fcall M D Read s = sys_read M D s"
| "do_fcall M D Write s = sys_write M D s"
| "do_fcall M D (Readv past) s = sys_readv M D past s"
| "do_fcall M D Writev s = sys_writev M D s"
| "do_fcall M D Lseek s = sys_lseek s"
| "do_fcall M D Ioctl s = sys_ioctl D s"
| "do_fcall M D (Sendfile junk) s = sys_sendfile M D junk s"
| "do_fcall M D Fadvise64 s = sys_fadvise64 s"
| "do_fcall M D (Fstat g) s = sys_fstat M g s"
| "do_fcall M D (Fstatat g) s = sys_fstatat M g s"
| "do_fcall M D Fchmodat s = sys_fchmodat M s"
| "do_fcall M D Fchown s = sys_fchown M s"
| "do_fcall M D Fchownat s = sys_fchownat M s"
| "do_fcall M D Faccessat2 s = sys_faccessat2 M s"
| "do_fcall M D Llistxattr s = sys_llistxattr s"
| "do_fcall M D (Utimensat junk name) s = sys_utimensat M junk name s"
| "do_fcall M D (Linkat name) s = sys_linkat M name s"
| "do_fcall M D (Symlinkat name) s = sys_symlinkat M name s"
| "do_fcall M D (Unlinkat name) s = sys_unlinkat M name s"
| "do_fcall M D (Readlinkat name) s = sys_readlinkat M name s"
| "do_fcall M D (Mkdirat name) s = sys_mkdirat M name s"
| "do_fcall M D (Mknodat name) s = sys_mknodat M name s"
| "do_fcall M D Chdir s = sys_chdir M s"
| "do_fcall M D (Renameat2 name) s = sys_renameat2 M name s"
| "do_fcall M D (Getdents64 stale past junk) s = sys_getdents64 M D stale past junk s"
| "do_fcall M D Getcwd s = sys_getcwd M s"

inductive file_step :: "'c mmc_ops \<Rightarrow> ('c, 'a) devtab \<Rightarrow> ('c, 'a) files_scheme \<Rightarrow> ('c, 'a) files_scheme \<Rightarrow> bool" for M D where
  user: "file_step M D s (s\<lparr>targs := a, umem := m, uwr := w, in_user := u\<rparr>)"
| call: "do_fcall M D c s = Some (r, s') \<Longrightarrow> file_step M D s s'"

section \<open>Every call keeps the counts\<close>

text \<open>A call may lose references, it never takes one away that somebody holds.\<close>

definition keeps :: "(nat \<Rightarrow> nat) \<Rightarrow> (int \<times> ('c, 'a) files_scheme) option \<Rightarrow> bool" where
  "keeps ext m \<longleftrightarrow> ensures m (\<lambda>(r, s'). \<exists>ext'. ext \<le> ext' \<and> table_ok ext' s')"

lemma keepsI: "ensures m (\<lambda>(r, s'). table_ok ext s') \<Longrightarrow> keeps ext m"
  unfolding keeps_def by (erule ensures_mono) auto

lemma keeps_frame: "ensures m (\<lambda>(r, s'). tabs s' = tabs s) \<Longrightarrow> table_ok ext s \<Longrightarrow> keeps ext m"
  by (rule keepsI, erule ensures_mono) (auto dest: table_tabs)

lemma keeps_error [simp]: "table_ok ext s \<Longrightarrow> keeps ext (Some (e, s))"
  by (auto simp: keeps_def)

lemma dupfd_keeps: "table_ok ext s \<Longrightarrow> keeps ext (dupfd fd k s)"
  unfolding keeps_def
  by (drule dupfd_law [of ext s fd k], erule ensures_mono)
    (clarify, rule exI, rule conjI [rotated], assumption, simp add: le_fun_def)

lemma argfd_Some: "argfd n s = Some (fd, f) \<Longrightarrow> fd < NOFILE \<and> ofile s fd = Some f"
  by (auto simp: argfd_def Let_def split: if_splits option.splits)

lemma tab_flags: "tab_ok ext F tab \<Longrightarrow> tab_ok ext (F(f := (F f)\<lparr>f_flags := x\<rparr>)) tab"
  by (auto simp: tab_ok_def entry_ok_def)

lemma sys_fcntl_keeps: "table_ok ext s \<Longrightarrow> keeps ext (sys_fcntl s)"
  by (auto simp: sys_fcntl_def Let_def dupfd_keeps split: option.split; auto simp: keeps_def table_ok_def tab_flags)

lemma with_path_frame: "(\<And>path. ensures (rest path) (\<lambda>(r, s'). tabs s' = tabs s)) \<Longrightarrow> ensures (with_path n d e s rest) (\<lambda>(r, s'). tabs s' = tabs s)"
  by (auto simp: with_path_def split: option.split intro!: ensures_any [where m = "check_fdcwd _ _ _"])

lemmas check_any = ensures_any [where m = "check_fdcwd _ _ _"]

lemma sys_openat_law: "table_ok ext s \<Longrightarrow> ensures (sys_openat M name s) (\<lambda>(r, s'). table_ok ext s')"
  by (auto simp: sys_openat_def split: option.split intro!: check_any fileopen_law)

lemma sys_read_law: "dev_ok D \<Longrightarrow> table_ok ext s \<Longrightarrow> ensures (sys_read M D s) (\<lambda>(r, s'). table_ok ext s')"
  by (auto simp: sys_read_def split: option.split intro!: fileread_law [THEN ensures_mono])

lemma sys_readv_law: "dev_ok D \<Longrightarrow> table_ok ext s \<Longrightarrow> ensures (sys_readv M D past s) (\<lambda>(r, s'). table_ok ext s')"
  by (auto simp: sys_readv_def Let_def split: option.split intro!: readv_loop_law)

lemma sys_fstatat_frame: "ensures (sys_fstatat M g s) (\<lambda>(r, s'). tabs s' = tabs s)"
  by (auto simp: sys_fstatat_def Let_def case_prod_beta split: option.split intro!: wp check_any ensures_any [where m = "stati _ _ _"] dest!: to_tabs)

lemma sys_utimensat_frame: "ensures (sys_utimensat M junk name s) (\<lambda>(r, s'). tabs s' = tabs s)"
  by (auto simp: sys_utimensat_def Let_def split: option.split sum.splits intro!: wp check_any dest!: to_tabs)

lemma sys_linkat_frame: "ensures (sys_linkat M name s) (\<lambda>(r, s'). tabs s' = tabs s)"
  by (auto simp: sys_linkat_def Let_def split: option.split intro!: wp check_any dest!: to_tabs)

lemma sys_symlinkat_frame: "ensures (sys_symlinkat M name s) (\<lambda>(r, s'). tabs s' = tabs s)"
  by (auto simp: sys_symlinkat_def split: option.split intro!: wp check_any)

lemma sys_readlinkat_frame: "ensures (sys_readlinkat M name s) (\<lambda>(r, s'). tabs s' = tabs s)"
  by (auto simp: sys_readlinkat_def Let_def split: option.split intro!: wp check_any)

lemma sys_mkdirat_frame: "ensures (sys_mkdirat M name s) (\<lambda>(r, s'). tabs s' = tabs s)"
  unfolding sys_mkdirat_def
  by (rule with_path_frame) (auto split: created.split intro!: wp dest!: to_tabs)

lemma sys_mknodat_frame: "ensures (sys_mknodat M name s) (\<lambda>(r, s'). tabs s' = tabs s)"
  unfolding sys_mknodat_def
  by (rule with_path_frame) (auto simp: Let_def split: created.split option.split intro!: wp dest!: to_tabs)

lemma sys_chdir_frame: "ensures (sys_chdir M s) (\<lambda>(r, s'). tabs s' = tabs s)"
  by (auto simp: sys_chdir_def split: option.split intro!: wp dest!: to_tabs)

lemma sys_renameat2_frame: "ensures (sys_renameat2 M name s) (\<lambda>(r, s'). tabs s' = tabs s)"
  by (auto simp: sys_renameat2_def Let_def split: option.split intro!: wp check_any)

lemma sys_getcwd_frame: "ensures (sys_getcwd M s) (\<lambda>(r, s'). tabs s' = tabs s)"
  by (auto simp: sys_getcwd_def Let_def split: option.split intro!: wp dest!: to_tabs)

lemma sys_ioctl_frame: "dev_ok D \<Longrightarrow> ensures (sys_ioctl D s) (\<lambda>(r, s'). tabs s' = tabs s)"
  by (auto simp: sys_ioctl_def split: option.split intro!: wp fileioctl_frame)

lemma path_calls_frame:
  "ensures (sys_fchmodat M s) (\<lambda>(r, s'). tabs s' = tabs s)" "ensures (sys_fchown M s) (\<lambda>(r, s'). tabs s' = tabs s)"
  "ensures (sys_fchownat M s) (\<lambda>(r, s'). tabs s' = tabs s)" "ensures (sys_faccessat2 M s) (\<lambda>(r, s'). tabs s' = tabs s)"
  "ensures (sys_unlinkat M name s) (\<lambda>(r, s'). tabs s' = tabs s)" "ensures (sys_fstat M g s) (\<lambda>(r, s'). tabs s' = tabs s)"
  "ensures (sys_fadvise64 s) (\<lambda>(r, s'). tabs s' = tabs s)" "ensures (sys_llistxattr s) (\<lambda>(r, s'). tabs s' = tabs s)"
  by (auto simp: sys_fchmodat_def sys_fchown_def sys_fchownat_def sys_faccessat2_def sys_unlinkat_def sys_fstat_def sys_fadvise64_def
    sys_llistxattr_def Let_def split: option.split intro!: with_path_frame wp)

lemmas fcall_frames = sys_fstatat_frame sys_utimensat_frame sys_linkat_frame sys_symlinkat_frame sys_readlinkat_frame sys_mkdirat_frame
  sys_mknodat_frame sys_chdir_frame sys_renameat2_frame sys_getcwd_frame path_calls_frame

lemma sys_lseek_law: "table_ok ext s \<Longrightarrow> ensures (sys_lseek s) (\<lambda>(r, s'). table_ok ext s')"
  by (auto simp: sys_lseek_def split: option.split intro!: filelseek_law)

lemma sys_write_law: "dev_ok D \<Longrightarrow> table_ok ext s \<Longrightarrow> ensures (sys_write M D s) (\<lambda>(r, s'). table_ok ext s')"
  by (auto simp: sys_write_def split: option.split intro!: filewrite_law)

lemma sys_writev_law: "dev_ok D \<Longrightarrow> table_ok ext s \<Longrightarrow> ensures (sys_writev M D s) (\<lambda>(r, s'). table_ok ext s')"
  by (auto simp: sys_writev_def split: option.split intro!: writev_loop_law)

lemma sys_sendfile_law: "dev_ok D \<Longrightarrow> table_ok ext s \<Longrightarrow> ensures (sys_sendfile M D junk s) (\<lambda>(r, s'). table_ok ext s')"
  by (auto simp: sys_sendfile_def split: option.split intro!: sendfile_law)

lemma sys_getdents64_law: "dev_ok D \<Longrightarrow> table_ok ext s \<Longrightarrow> ensures (sys_getdents64 M D stale past junk s) (\<lambda>(r, s'). table_ok ext s')"
  by (auto simp: sys_getdents64_def getdents64_def split: option.split intro!: wp getdents_loop_law)

lemma do_fcall_keeps: "dev_ok D \<Longrightarrow> table_ok ext s \<Longrightarrow> keeps ext (do_fcall M D c s)"
  by (cases c; simp add: sys_fcntl_keeps dupfd_keeps sys_dup_def sys_pipe2_law [folded keeps_def];
    ((rule keeps_frame [where s = s], (rule fcall_frames | erule sys_ioctl_frame), assumption) |
    (rule keepsI, (erule sys_dup3_law sys_close_law sys_openat_law sys_lseek_law |
      erule (1) sys_read_law sys_readv_law sys_write_law sys_writev_law sys_sendfile_law sys_getdents64_law))))

lemma file_step_keeps: "file_step M D s s' \<Longrightarrow> dev_ok D \<Longrightarrow> table_ok ext s \<Longrightarrow> \<exists>ext'. ext \<le> ext' \<and> table_ok ext' s'"
proof (induction rule: file_step.induct)
  case (call c s r s')
  then show ?case using do_fcall_keeps [of D ext s M c] by (auto simp: keeps_def ensures_def)
qed (auto simp: table_ok_def)

lemma file_steps_keep: "(file_step M D)\<^sup>*\<^sup>* s s' \<Longrightarrow> dev_ok D \<Longrightarrow> table_ok ext s \<Longrightarrow> \<exists>ext'. ext \<le> ext' \<and> table_ok ext' s'"
proof (induction rule: rtranclp_induct)
  case (step s' s'')
  then obtain ext' where e: "ext \<le> ext'" "table_ok ext' s'" by blast
  obtain ext'' where "ext' \<le> ext''" "table_ok ext'' s''" using file_step_keeps [OF step.hyps(2) step.prems(1) e(2)] by blast
  with e(1) show ?case using order_trans by blast
qed blast

end
