(* ===== verification/File_Correct.thy ===== *)
theory File_Correct
  imports File_Calls
begin

text \<open>
  Reading and writing an open file, on top of \<^verbatim>\<open>readi\<close> and \<^verbatim>\<open>writei\<close>: the chunks \<^verbatim>\<open>filewrite\<close> cuts a write into
  put together, the offset, and what the user finds in memory.
\<close>

unbundle bit_operations_syntax

section \<open>What the contents depend on\<close>

lemma fs_view:
  assumes "bio_at G Map.empty s'" "sb s' = sb s" "dsk G s' = dsk G s"
    "d_addrs (itable s' i) = d_addrs (itable s i)" "i_dev (itable s' i) = i_dev (itable s i)" "i_inum (itable s' i) = i_inum (itable s i)"
  shows "inode_ok G s i \<Longrightarrow> inode_ok G s' i" "fslot G s' i = fslot G s i" "fbyte G s' i = fbyte G s i" "nfree G s' = nfree G s" "mapped G s' i = mapped G s i"
proof -
  have sl: "fslot G s' i = fslot G s i" by (simp add: fslot_def assms)
  have us: "blk_used G s' = blk_used G s" by (simp add: blk_used_def assms fun_eq_iff)
  have ds: "data_start s' = data_start s" by (simp add: data_start_def assms)
  show "inode_ok G s i \<Longrightarrow> inode_ok G s' i" by (simp add: inode_ok_def file_ok_def fs_layout_def meta_used_def sl us ds assms)
  show "fslot G s' i = fslot G s i" "fbyte G s' i = fbyte G s i" "nfree G s' = nfree G s" "mapped G s' i = mapped G s i"
    by (rule ext | simp add: sl fbyte_def Let_def nfree_def us mapped_def assms)+
qed

lemma bio_at_file [simp]: "bio_at G H s \<Longrightarrow> bio_at G H (upd_file f g s)" "bio_at G H s \<Longrightarrow> bio_at G H (store_user a bs s)"
  by (rule bio_at_cong [of _ s]; simp add: upd_file_def store_user_def)+

lemma dsk_file [simp]: "dsk G (upd_file f g s) = dsk G s" "dsk G (store_user a bs s) = dsk G s"
  by (simp_all add: dsk_def on_disk_def upd_file_def store_user_def fun_eq_iff)

lemma file_fields [simp]: "itable (upd_file f g s) = itable s" "sb (upd_file f g s) = sb s" "held (upd_file f g s) = held s" "cur_pid (upd_file f g s) = cur_pid s"
  "umem (upd_file f g s) = umem s" "uwr (upd_file f g s) = uwr s" "now (upd_file f g s) = now s"
  "itable (store_user a bs s) = itable s" "sb (store_user a bs s) = sb s" "held (store_user a bs s) = held s" "cur_pid (store_user a bs s) = cur_pid s"
  "now (store_user a bs s) = now s" "uwr (store_user a bs s) = uwr s"
  "umem (upd_inode i h s) = umem s" "uwr (upd_inode i h s) = uwr s"
  by (simp_all add: upd_file_def store_user_def upd_inode_def)

section \<open>The inode lock\<close>

text \<open>An inode that is in memory, referred to and not locked.\<close>

definition idle :: "('c, 'a) fs_scheme \<Rightarrow> nat \<Rightarrow> bool" where
  "idle s i \<longleftrightarrow> 0 < i_ref (itable s i) \<and> i_valid (itable s i) \<and> \<not> sl_locked (i_lock (itable s i)) \<and> L_inode i \<notin> held s"

lemma ilock_idle: "idle s i \<Longrightarrow> ilock M i s = Some (upd_inode i (\<lambda>ip. ip\<lparr>i_lock := \<lparr>sl_locked = True, sl_pid = cur_pid s\<rparr>\<rparr>) s)"
  by (cases "i_lock (itable s i)") (simp add: idle_def ilock_def lock_inode_def acquiresleep_free upd_inode_def)

lemma iunlock_own: "0 < i_ref (itable s i) \<Longrightarrow> i_lock (itable s i) = \<lparr>sl_locked = True, sl_pid = cur_pid s\<rparr> \<Longrightarrow> L_inode i \<notin> held s \<Longrightarrow>
    \<exists>w. iunlock i s = Some (upd_inode i (\<lambda>ip. ip\<lparr>i_lock := \<lparr>sl_locked = False, sl_pid = 0\<rparr>\<rparr>) (s\<lparr>woken := w\<rparr>))"
  by (simp add: iunlock_def holdingsleep_eq unlock_inode_def releasesleep_def k_wakeup_def lock_simps upd_inode_def Let_def) (rule exI, rule refl)

section \<open>One chunk of a write\<close>

text \<open>The state after \<open>m\<close> bytes have been written at offset \<open>off\<close> of the open file \<open>f\<close>.\<close>

definition wrote :: "'c disk \<Rightarrow> nat \<Rightarrow> nat \<Rightarrow> (nat \<Rightarrow> u8 option) \<Rightarrow> nat \<Rightarrow> nat \<Rightarrow> ('c, 'a) files_scheme \<Rightarrow> ('c, 'a) files_scheme \<Rightarrow> bool" where
  "wrote G f i src off m s s' \<longleftrightarrow> inode_ok G s' i \<and> idle s' i \<and> unat (d_size (itable s' i)) = max (unat (d_size (itable s i))) (off + m) \<and>
     (\<forall>p. fbyte G s' i p = (if off \<le> p \<and> p < off + m then the (src (p - off)) else fbyte G s i p)) \<and> mapped G s' i off m \<and>
     (\<forall>q. fslot G s i q \<noteq> 0 \<longrightarrow> fslot G s' i q = fslot G s i q) \<and> (\<forall>x. x \<noteq> i \<longrightarrow> itable s' x = itable s x) \<and>
     fs_env s' = fs_env (upd_file f (\<lambda>x. x\<lparr>f_off := of_nat (off + m)\<rparr>) s)"

lemma env_upd [simp]: "fs_env (upd_inode i h s) = fs_env s" "fs_env (s\<lparr>woken := w\<rparr>) = fs_env s"
  by (simp_all add: fs_env_def upd_inode_def)

lemma ret32_small: "n < 2 ^ 31 \<Longrightarrow> ret32 n = int n"
proof -
  assume "n < 2 ^ 31"
  then have "signed_take_bit 31 (int n) = int n" by (intro signed_take_bit_int_eq_self) auto
  moreover have "sint (of_nat n :: u32) = signed_take_bit 31 (int n)" using sint_sbintrunc' [of "int n", where 'a = 32] by simp
  ultimately show ?thesis by (simp add: ret32_def)
qed

lemma env_file: "fs_env s' = fs_env s \<Longrightarrow> g (ftable s f) = h (ftable s f) \<Longrightarrow> fs_env (upd_file f g s') = fs_env (upd_file f h s)" for s s' :: "('c, 'a) files_scheme"
  by (cases s; cases s') (simp add: fs_env_def upd_file_def)

lemma writei_keeps: "writei M i src off n s = Some (r, s') \<Longrightarrow> fs_env s' = fs_env s"
  using writei_frame [of s "\<lambda>(r, s'). fs_env s' = fs_env s" M i src off n] by (simp add: ensures_def)

lemma readi_keeps: "readi M i dst off n s = Some (r, bs, s') \<Longrightarrow> fs_env s' = fs_env s"
  using readi_frame [of s "\<lambda>(r, bs, s'). fs_env s' = fs_env s" M i dst off n] by (simp add: ensures_def)

lemma write_chunk:
  fixes s :: "('c, 'a) files_scheme"
  assumes ok: "inode_ok G s i" "idle s i" and off: "unat (f_off (ftable s f)) = off" "f_off (ftable s f) \<le> d_size (itable s i)" "off + m < 2 ^ 32"
    and m: "0 < m" "m < 2 ^ 31" and src: "\<forall>j < m. src j \<noteq> None" and fr: "3 * blocks_in off m \<le> nfree G s"
  shows "\<exists>s1 s2 s'. ilock (dk_mmc G) i s = Some s1 \<and> writei (dk_mmc G) i src (f_off (ftable s f)) (of_nat m) s1 = Some (int m, s2) \<and>
    ftable s1 = ftable s \<and> iunlock i (upd_inode i (\<lambda>ip. ip\<lparr>d_mtime := now s2, d_atime := now s2\<rparr>) (upd_file f (\<lambda>x. x\<lparr>f_off := f_off x + of_int (int m)\<rparr>) s2)) = Some s' \<and>
    wrote G f i src off m s s' \<and> nfree G s \<le> nfree G s' + 3 * blocks_in off m"
proof -
  let ?M = "dk_mmc G" and ?o = "f_off (ftable s f)"
  define s1 where "s1 = upd_inode i (\<lambda>ip. ip\<lparr>i_lock := \<lparr>sl_locked = True, sl_pid = cur_pid s\<rparr>\<rparr>) s"
  have at: "bio_at G Map.empty s" using ok(1) by (simp add: inode_ok_def)
  have v1: "inode_ok G s1 i" "fslot G s1 i = fslot G s i" "fbyte G s1 i = fbyte G s i" "nfree G s1 = nfree G s"
    using fs_view [of G s1 s i] ok(1) at by (simp_all add: s1_def)
  have um: "unat (of_nat m :: u32) = m" using m(2) by (simp add: unat_of_nat take_bit_nat_eq_self)
  obtain s2 where w: "writei ?M i src ?o (of_nat m) s1 = Some (int m, s2)" "written G s1 i (off + m) s2" "mapped G s2 i off m"
      "nfree G s1 \<le> nfree G s2 + 3 * blocks_in off m" "\<And>p. fbyte G s2 i p = (if off \<le> p \<and> p < off + m then the (src (p - off)) else fbyte G s1 i p)"
    using writei_spec [OF v1(1), of ?o "of_nat m" src] off fr v1(4) src by (auto simp: um ret32_small [OF m(2)] s1_def)
  have e2: "fs_env s2 = fs_env s" by (rule writei_keeps [OF w(1), unfolded s1_def env_upd])
  obtain a z where it: "itable s2 i = (itable s1 i)\<lparr>d_addrs := a, d_size := z\<rparr>" using w(2) by (auto simp: written_def)
  define t where "t = upd_inode i (\<lambda>ip. ip\<lparr>d_mtime := now s2, d_atime := now s2\<rparr>) (upd_file f (\<lambda>x. x\<lparr>f_off := f_off x + of_int (int m)\<rparr>) s2)"
  have h2: "held s2 = held s" using w(2) by (simp add: written_def s1_def)
  have lk: "0 < i_ref (itable t i)" "i_lock (itable t i) = \<lparr>sl_locked = True, sl_pid = cur_pid t\<rparr>" "L_inode i \<notin> held t"
    using ok(2) env_files(16) [OF e2] h2 by (simp_all add: t_def it s1_def idle_def)
  obtain wk where u: "iunlock i t = Some (upd_inode i (\<lambda>ip. ip\<lparr>i_lock := \<lparr>sl_locked = False, sl_pid = 0\<rparr>\<rparr>) (t\<lparr>woken := wk\<rparr>))"
    using iunlock_own [OF lk] by blast
  define s' where "s' = upd_inode i (\<lambda>ip. ip\<lparr>i_lock := \<lparr>sl_locked = False, sl_pid = 0\<rparr>\<rparr>) (t\<lparr>woken := wk\<rparr>)"
  have at2: "bio_at G Map.empty s2" using w(2) by (simp add: written_def inode_ok_def)
  have v3: "inode_ok G s' i" "fslot G s' i = fslot G s2 i" "fbyte G s' i = fbyte G s2 i" "nfree G s' = nfree G s2" "mapped G s' i = mapped G s2 i"
    using fs_view [of G s' s2 i] w(2) at2 by (simp_all add: s'_def t_def written_def)
  have "fs_env s' = fs_env (upd_file f (\<lambda>x. x\<lparr>f_off := of_nat (off + m)\<rparr>) s)"
    unfolding s'_def t_def env_upd by (rule env_file [OF e2]) (use off(1) in \<open>auto simp: kfile.defs\<close>)
  moreover have "idle s' i" using ok(2) h2 by (simp add: idle_def s'_def t_def it s1_def)
  moreover have "unat (d_size (itable s' i)) = max (unat (d_size (itable s i))) (off + m)" "\<forall>x. x \<noteq> i \<longrightarrow> itable s' x = itable s x"
    "\<forall>q. fslot G s i q \<noteq> 0 \<longrightarrow> fslot G s' i q = fslot G s i q"
    using w(2) v1(2) v3(2) by (simp_all add: written_def s'_def t_def s1_def)
  ultimately have "wrote G f i src off m s s'" using v3 w(3,5) v1(3) by (simp add: wrote_def)
  moreover have "ilock ?M i s = Some s1" "ftable s1 = ftable s" using ilock_idle [OF ok(2), of ?M] by (simp_all add: s1_def)
  moreover have "nfree G s \<le> nfree G s' + 3 * blocks_in off m" using w(4) v1(4) v3(4) by simp
  ultimately show ?thesis using w(1) u [folded s'_def, unfolded t_def] by blast
qed

section \<open>The whole write\<close>

lemma max_write_pos: "0 < max_write" "nat max_write < 2 ^ 31" "max_write = int (nat max_write)"
  by (simp_all add: max_write_def MAXOPBLOCKS_def BSIZE_def)

text \<open>Cutting a range in two counts at most one block twice.\<close>

lemma blocks_in_cut: "0 < a \<Longrightarrow> blocks_in off a + blocks_in (off + a) b \<le> Suc (blocks_in off (a + b))"
proof -
  assume a: "0 < a"
  have "off div BSIZE \<le> (off + a - 1) div BSIZE" "(off + a - 1) div BSIZE \<le> (off + a) div BSIZE"
    "(off + a) div BSIZE \<le> (off + a + b - 1) div BSIZE \<or> b = 0" using a by (auto intro!: div_le_mono)
  then show ?thesis using a by (cases "b = 0") (auto simp: blocks_in_def add.assoc)
qed

lemma budget: "a + b \<le> c \<Longrightarrow> 3 * c \<le> x \<Longrightarrow> x \<le> y + 3 * a \<Longrightarrow> 3 * b \<le> y" for a b c x y :: nat
  by linarith

lemma wroteD:
  assumes "wrote G f i src off m s s'"
  shows "inode_ok G s' i" "idle s' i" "f_off (ftable s' f) = of_nat (off + m)" "off + m \<le> unat (d_size (itable s' i))"
    "off + m < 2 ^ 32 \<Longrightarrow> unat (f_off (ftable s' f)) = off + m" "ftable s' = (ftable s)(f := (ftable s f)\<lparr>f_off := of_nat (off + m)\<rparr>)"
proof -
  have e: "fs_env s' = fs_env (upd_file f (\<lambda>x. x\<lparr>f_off := of_nat (off + m)\<rparr>) s)" using assms by (simp add: wrote_def del: upd_file_fields)
  show t: "ftable s' = (ftable s)(f := (ftable s f)\<lparr>f_off := of_nat (off + m)\<rparr>)" using env_files(1) [OF e] by simp
  then show "f_off (ftable s' f) = of_nat (off + m)" by simp
  then show "off + m < 2 ^ 32 \<Longrightarrow> unat (f_off (ftable s' f)) = off + m" by (simp only:, intro unat_of_nat_less) simp
  show "inode_ok G s' i" "idle s' i" "off + m \<le> unat (d_size (itable s' i))" using assms by (simp_all add: wrote_def del: upd_file_fields)
qed

lemma wrote_trans:
  assumes "wrote G f i src off m s t" "wrote G f i (\<lambda>j. src (m + j)) (off + m) n t s'"
  shows "wrote G f i src off (m + n) s s'"
proof -
  have "fs_env s' = fs_env (upd_file f (\<lambda>x. x\<lparr>f_off := of_nat (off + (m + n))\<rparr>) s)"
  proof -
    have e: "fs_env s' = fs_env (upd_file f (\<lambda>x. x\<lparr>f_off := of_nat (off + m + n)\<rparr>) t)" "fs_env t = fs_env (upd_file f (\<lambda>x. x\<lparr>f_off := of_nat (off + m)\<rparr>) s)"
      using assms by (simp_all add: wrote_def del: upd_file_fields)
    have "fs_env (upd_file f (\<lambda>x. x\<lparr>f_off := of_nat (off + m + n)\<rparr>) t) =
        fs_env (upd_file f (\<lambda>x. x\<lparr>f_off := of_nat (off + m + n)\<rparr>) (upd_file f (\<lambda>x. x\<lparr>f_off := of_nat (off + m)\<rparr>) s))"
      by (rule env_file [OF e(2)]) simp
    then show ?thesis using e(1) by (simp add: upd_file_def add.assoc del: upd_file_fields)
  qed
  moreover have "mapped G s' i off (m + n)"
    unfolding mapped_def
  proof (intro allI impI)
    fix p assume p: "off \<le> p \<and> p < off + (m + n)"
    show "fslot G s' i (Data (p div BSIZE)) \<noteq> 0"
      using assms p unfolding wrote_def mapped_def by (cases "p < off + m") (simp_all add: not_less)
  qed
  moreover have "fbyte G s' i p = (if off \<le> p \<and> p < off + (m + n) then the (src (p - off)) else fbyte G s i p)" for p
    using assms unfolding wrote_def by (auto simp: not_less)
  ultimately show ?thesis using assms unfolding wrote_def by (auto simp del: upd_file_fields)
qed

lemma filewrite_loop_spec:
  fixes s :: "('c, 'a) files_scheme"
  assumes "inode_ok G s i" "idle s i" "unat (f_off (ftable s f)) = off" "f_off (ftable s f) \<le> d_size (itable s i)" "off + n < 2 ^ 32"
    "\<forall>j < n. src (k + j) \<noteq> None" "3 * (blocks_in off n + n div nat max_write) \<le> nfree G s"
  shows "\<exists>s'. filewrite_loop (dk_mmc G) f i src (int (k + n)) (int k) s = Some (int (k + n), s') \<and>
    (if n = 0 then s' = s else wrote G f i (\<lambda>j. src (k + j)) off n s s')"
  using assms
proof (induction n arbitrary: off k s rule: less_induct)
  case (less n)
  show ?case
  proof (cases "n = 0")
    case True
    then show ?thesis by (subst filewrite_loop.simps) simp
  next
    case False
    define m where "m = min (nat max_write) n"
    have m: "0 < m" "m < 2 ^ 31" "m \<le> n" using max_write_pos False by (simp_all add: m_def min_less_iff_disj)
    have mi: "min max_write (int (k + n) - int k) = int m" using max_write_pos(1) by (simp add: m_def min_def nat_le_iff)
    have bl: "blocks_in off m + (blocks_in (off + m) (n - m) + (n - m) div nat max_write) \<le> blocks_in off n + n div nat max_write"
    proof (cases "m = n")
      case False
      then have e: "m = nat max_write" "m < n" using m by (auto simp: m_def)
      then have "n div nat max_write = Suc ((n - m) div nat max_write)" using m(1) by (simp add: le_div_geq)
      then show ?thesis using blocks_in_cut [OF m(1), of off "n - m"] e(2) by simp
    qed (simp add: blocks_in_def)
    obtain s1 s2 s3 where c: "ilock (dk_mmc G) i s = Some s1" "writei (dk_mmc G) i (\<lambda>j. src (k + j)) (f_off (ftable s f)) (of_nat m) s1 = Some (int m, s2)"
        "ftable s1 = ftable s"
        "iunlock i (upd_inode i (\<lambda>ip. ip\<lparr>d_mtime := now s2, d_atime := now s2\<rparr>) (upd_file f (\<lambda>x. x\<lparr>f_off := f_off x + of_int (int m)\<rparr>) s2)) = Some s3"
        "wrote G f i (\<lambda>j. src (k + j)) off m s s3" "nfree G s \<le> nfree G s3 + 3 * blocks_in off m"
      using write_chunk [OF less.prems(1-4), of m "\<lambda>j. src (k + j)"] less.prems m bl by auto
    have step: "filewrite_loop (dk_mmc G) f i src (int (k + n)) (int k) s = filewrite_loop (dk_mmc G) f i src (int (k + m + (n - m))) (int (k + m)) s3"
      using False m c(1-4) by (subst filewrite_loop.simps) (simp add: mi [simplified] Let_def del: bind_Some_iff)
    have t: "inode_ok G s3 i" "idle s3 i" "unat (f_off (ftable s3 f)) = off + m" "f_off (ftable s3 f) \<le> d_size (itable s3 i)"
      using wroteD [OF c(5)] less.prems(5) m(3) by (auto simp: word_le_nat_alt)
    have fr: "3 * (blocks_in (off + m) (n - m) + (n - m) div nat max_write) \<le> nfree G s3" by (rule budget [OF bl less.prems(7) c(6)])
    have sr: "\<forall>j < n - m. src (k + m + j) \<noteq> None" using less.prems(6) m(3) by (simp add: add.assoc less_diff_conv)
    have "off + m + (n - m) < 2 ^ 32" "n - m < n" using less.prems(5) m by simp_all
    then obtain s' where ih: "filewrite_loop (dk_mmc G) f i src (int (k + m + (n - m))) (int (k + m)) s3 = Some (int (k + m + (n - m)), s')"
        "if n - m = 0 then s' = s3 else wrote G f i (\<lambda>j. src (k + m + j)) (off + m) (n - m) s3 s'"
      using less.IH [OF _ t _ sr fr] by blast
    have "wrote G f i (\<lambda>j. src (k + j)) off n s s'"
      using ih(2) m(3) c(5) wrote_trans [OF c(5), of "n - m" s'] by (cases "n = m") (simp_all add: add.assoc)
    then show ?thesis using ih(1) False m(3) unfolding step by simp
  qed
qed

section \<open>Reading and seeking\<close>

lemma store_user_at: "k < length bs \<Longrightarrow> length bs < 2 ^ 64 \<Longrightarrow> umem (store_user a bs s) (a + of_nat k) = Some (bs ! k)"
proof -
  assume k: "k < length bs" "length bs < 2 ^ 64"
  then have "unat (of_nat k :: u64) = k" by (intro unat_of_nat_less) simp
  then show ?thesis using k by (simp add: store_user_def)
qed

lemma store_user_other: "length bs \<le> unat (x - a) \<Longrightarrow> umem (store_user a bs s) x = umem s x"
  by (simp add: store_user_def)

lemma off_there_and_back: "ucast (ucast x :: u64) = x" for x :: u32
  by (rule bit_word_eqI) (simp add: bit_simps)

text \<open>An open regular file.\<close>

definition open_file_on :: "('c, 'a) files_scheme \<Rightarrow> nat \<Rightarrow> nat \<Rightarrow> bool" where
  "open_file_on s f i \<longleftrightarrow> f_type (ftable s f) = FD_INODE \<and> f_ip (ftable s f) = Some i"

lemma filewrite_spec:
  fixes s :: "('c, 'a) files_scheme"
  assumes o: "open_file_on s f i" "f_writable (ftable s f)" and ok: "inode_ok G s i" "idle s i" "f_off (ftable s f) \<le> d_size (itable s i)"
    "unat (f_off (ftable s f)) + n < 2 ^ 32" and src: "\<forall>k < n. umem s (addr + of_nat k) \<noteq> None" "0 < n"
    and fr: "3 * (blocks_in (unat (f_off (ftable s f))) n + n div nat max_write) \<le> nfree G s"
  shows "\<exists>s'. filewrite (dk_mmc G) D f addr kbuf (int n) True s = Some (int n, s') \<and>
    wrote G f i (\<lambda>k. umem s (addr + of_nat k)) (unat (f_off (ftable s f))) n s s'"
  using filewrite_loop_spec [OF ok(1,2) refl ok(3,4), of "\<lambda>k. umem s (addr + of_nat k)" 0] src fr o
  by (auto simp: filewrite_def open_file_on_def)

lemma fileread_spec:
  fixes s :: "('c, 'a) files_scheme"
  assumes o: "open_file_on s f i" "f_readable (ftable s f)" and ok: "inode_ok G s i" "idle s i"
    and off: "unat (f_off (ftable s f)) = off" "off \<le> unat (d_size (itable s i))" "off + n < 2 ^ 32" "n < 2 ^ 31"
    and m: "m = min n (unat (d_size (itable s i)) - off)" "mapped G s i off m" and dst: "\<forall>k < m. uwr s (addr + of_nat k)"
  shows "\<exists>s'. fileread (dk_mmc G) D f addr (int n) True s = Some (int m, [], s') \<and> inode_ok G s' i \<and> idle s' i \<and> dsk G s' = dsk G s \<and>
    f_off (ftable s' f) = of_nat (off + m) \<and> (\<forall>k < m. umem s' (addr + of_nat k) = Some (fbyte G s i (off + k))) \<and>
    (\<forall>x. m \<le> unat (x - addr) \<longrightarrow> umem s' x = umem s x)"
proof -
  let ?M = "dk_mmc G" and ?o = "f_off (ftable s f)"
  define s1 where "s1 = upd_inode i (\<lambda>ip. ip\<lparr>i_lock := \<lparr>sl_locked = True, sl_pid = cur_pid s\<rparr>\<rparr>) s"
  have at: "bio_at G Map.empty s" using ok(1) by (simp add: inode_ok_def)
  have v1: "inode_ok G s1 i" "fbyte G s1 i = fbyte G s i" "mapped G s1 i = mapped G s i"
    using fs_view [of G s1 s i] ok(1) at by (simp_all add: s1_def)
  have un: "unat (of_nat n :: u32) = n" by (rule unat_of_nat_less) (use off(4) in simp)
  define bs where "bs = map (\<lambda>k. fbyte G s i (off + k)) [0..<m]"
  have mb: "m < 2 ^ 31" "length bs = m" using m(1) off(4) by (simp_all add: bs_def)
  have p: "?o \<le> d_size (itable s1 i)" "unat ?o + unat (of_nat n :: u32) < 2 ^ 32" "m = min (unat (of_nat n :: u32)) (unat (d_size (itable s1 i)) - unat ?o)"
    "mapped G s1 i (unat ?o) m" "\<forall>k < m. uwr s1 (addr + of_nat k)"
    using off m dst un v1(3) by (simp_all add: s1_def word_le_nat_alt)
  obtain s2 where r: "readi ?M i (\<lambda>k. uwr s1 (addr + of_nat k)) ?o (of_nat n) s1 = Some (int m, bs, s2)" "inode_ok G s2 i" "dsk G s2 = dsk G s1" "bio_rest s1 s2"
    using readi_spec [OF v1(1) p, unfolded ret32_small [OF mb(1)] off(1) v1(2), folded bs_def] by blast
  have e2: "fs_env s2 = fs_env s" by (rule readi_keeps [OF r(1), unfolded s1_def env_upd])
  have it: "itable s2 = itable s1" "held s2 = held s" using bio_rest_fs [OF r(4)] by (simp_all add: s1_def)
  define t where "t = upd_inode i (\<lambda>ip. ip\<lparr>d_atime := now s2\<rparr>) (if 0 < m then upd_file f (\<lambda>x. x\<lparr>f_off := f_off x + of_nat m\<rparr>) (store_user addr bs s2) else store_user addr bs s2)"
  have lk: "0 < i_ref (itable t i)" "i_lock (itable t i) = \<lparr>sl_locked = True, sl_pid = cur_pid t\<rparr>" "L_inode i \<notin> held t"
    using ok(2) env_files(16) [OF e2] it by (simp_all add: t_def it s1_def idle_def)
  obtain wk where u: "iunlock i t = Some (upd_inode i (\<lambda>ip. ip\<lparr>i_lock := \<lparr>sl_locked = False, sl_pid = 0\<rparr>\<rparr>) (t\<lparr>woken := wk\<rparr>))"
    using iunlock_own [OF lk] by blast
  define s' where "s' = upd_inode i (\<lambda>ip. ip\<lparr>i_lock := \<lparr>sl_locked = False, sl_pid = 0\<rparr>\<rparr>) (t\<lparr>woken := wk\<rparr>)"
  have at2: "bio_at G Map.empty s2" using r(2) by (simp add: inode_ok_def)
  have "inode_ok G s' i" by (rule fs_view(1) [OF _ _ _ _ _ _ r(2)]) (use at2 in \<open>simp_all add: s'_def t_def\<close>)
  moreover have "idle s' i" using ok(2) it by (simp add: idle_def s'_def t_def s1_def)
  moreover have "dsk G s' = dsk G s" using r(3) by (simp add: s'_def t_def s1_def)
  moreover have "f_off (ftable s' f) = of_nat (off + m)" using env_files(1) [OF e2] off(1) by (auto simp: s'_def t_def)
  moreover have "umem s' = umem (store_user addr bs s2)" "umem s2 = umem s" using env_files(4) [OF e2] by (simp_all add: s'_def t_def)
  then have "\<forall>k < m. umem s' (addr + of_nat k) = Some (fbyte G s i (off + k))" "\<forall>x. m \<le> unat (x - addr) \<longrightarrow> umem s' x = umem s x"
    using store_user_at [of _ bs addr s2] store_user_other [of bs _ addr s2] mb by (simp_all add: bs_def)
  moreover have "fileread ?M D f addr (int n) True s = Some (int m, [], s')"
    using o ilock_idle [OF ok(2), of ?M] r(1) u unfolding s1_def [symmetric] s'_def [symmetric]
    by (cases "0 < m") (simp_all add: fileread_def open_file_on_def t_def Let_def s1_def del: bind_Some_iff)
  ultimately show ?thesis by blast
qed

section \<open>A process with one open file\<close>

definition no_file :: kfile where
  "no_file = \<lparr>f_type = FD_NONE, f_ref = 0, f_pipe = None, f_ip = None, f_off = 0, f_flags = 0, f_major = 0, f_readable = False, f_writable = False\<rparr>"

definition one_file :: kfile where
  "one_file = no_file\<lparr>f_type := FD_INODE, f_ref := 1, f_ip := Some 0, f_flags := O_RDWR, f_readable := True, f_writable := True\<rparr>"

definition no_dev :: "('c, 'a) devtab" where
  "no_dev = (\<lambda>_. \<lparr>d_read = None, d_write = None, d_ioctl = None\<rparr>)"

lemma no_dev_ok: "dev_ok no_dev"
  by (simp add: dev_ok_def no_dev_def)

text \<open>Descriptors 0 to \<open>n - 1\<close> refer to the file, whose inode is in memory; user memory is all there.\<close>

lemma files_with:
  obtains s :: "(nat \<Rightarrow> nat \<Rightarrow> u8) files" where "inode_ok small_disk s 0" "idle s 0" "d_size (itable s 0) = 0" "nfree small_disk s = 195" "held s = {}"
    "ftable s = (\<lambda>_. no_file)(0 := one_file\<lparr>f_ref := int n\<rparr>)" "ofile s = (\<lambda>fd. if fd < n then Some 0 else None)" "umem s = (\<lambda>a. Some (ucast a))"
    "uwr s = (\<lambda>_. True)" "targs s = (\<lambda>_. 0)"
proof -
  let ?ip = "new_file\<lparr>i_valid := True\<rparr>"
  let ?x = "files_ext ((\<lambda>_. no_file)(0 := one_file\<lparr>f_ref := int n\<rparr>)) (\<lambda>_. undefined) (\<lambda>fd. if fd < n then Some (0 :: nat) else None) 0 0 0 0 0 0 False
    (\<lambda>a. Some (ucast a)) (\<lambda>_. True) (\<lambda>_. 0) (\<lambda>_ _. True) ()"
  obtain s :: "(nat \<Rightarrow> nat \<Rightarrow> u8) files" where s: "inode_ok small_disk s 0" "itable s = (\<lambda>_. ?ip)" "nfree small_disk s = 195" "held s = {}" "fs.more s = ?x"
    by (rule file_fs_of [of ?ip ?x]) (simp_all add: new_file_fields)
  have "idle s 0" "d_size (itable s 0) = 0" by (simp_all add: idle_def s(2,4) new_file_def empty_inode_def initsleeplock_def)
  moreover have "ftable s = (\<lambda>_. no_file)(0 := one_file\<lparr>f_ref := int n\<rparr>)" "ofile s = (\<lambda>fd. if fd < n then Some 0 else None)" "umem s = (\<lambda>a. Some (ucast a))"
    "uwr s = (\<lambda>_. True)" "targs s = (\<lambda>_. 0)" using s(5) by (cases s, simp)+
  ultimately show ?thesis using that s by blast
qed

section \<open>Properties\<close>






lemma one_file_table:
  assumes "ftable s = (\<lambda>_. no_file)(0 := one_file\<lparr>f_ref := int n\<rparr>)" "ofile s = (\<lambda>fd. if fd < n then Some 0 else None)" "0 < n" "n \<le> NOFILE"
  shows "table_ok (\<lambda>_. 0) s"
proof -
  have "{fd. fd < NOFILE \<and> ofile s fd = Some f} = (if f = 0 then {..<n} else {})" for f
    unfolding assms(2) using assms(4) by (cases "f = 0") (auto split: if_split_asm)
  then have "fd_refs f (ofile s) = (if f = 0 then n else 0)" for f by (simp add: fd_refs_def)
  moreover have "entry_ok no_file" "f_ref no_file = 0" "entry_ok (one_file\<lparr>f_ref := int n\<rparr>)" using assms(3) by (simp_all add: entry_ok_def no_file_def one_file_def)
  ultimately have "\<forall>f < NFILE. f_ref (ftable s f) = int (fd_refs f (ofile s) + 0) \<and> entry_ok (ftable s f)" by (simp add: assms(1))
  moreover have "\<forall>fd < NOFILE. \<forall>f. ofile s fd = Some f \<longrightarrow> f < NFILE" by (auto simp: assms(2) NFILE_def)
  ultimately show ?thesis by (simp add: table_ok_def tab_ok_def)
qed

lemma dup_one:
  assumes "ofile s = (\<lambda>fd. if fd < n then Some 0 else None)" "ftable s = (\<lambda>_. no_file)(0 := one_file\<lparr>f_ref := int n\<rparr>)" "targs s = (\<lambda>_. 0)" "held s = {}" "0 < n"
  shows "filedup 0 s = Some (upd_file 0 (\<lambda>x. x\<lparr>f_ref := int n + 1\<rparr>) s)" "argint 0 s = 0"
  using assms by (simp_all add: filedup_def k_acquire_def k_release_def upd_file_def argint_def)




text \<open>
  C25: \<^verbatim>\<open>dup\<close> of an open descriptor gives the lowest free descriptor, which refers to the same file, and raises the
  count of the file by one; no other descriptor and no other file changes.
\<close>

theorem dup_correct:
  assumes "table_ok ext s" "L_ftable \<notin> held s" "argint 0 s = int fd" "fd < NOFILE" "ofile s fd = Some f"
    "n < NOFILE" "ofile s n = None" "\<forall>k < n. ofile s k \<noteq> None"
  shows "\<exists>s'. sys_dup s = Some (int n, s') \<and> ofile s' = (ofile s)(n := Some f) \<and>
    ftable s' = (ftable s)(f := (ftable s f)\<lparr>f_ref := f_ref (ftable s f) + 1\<rparr>) \<and> table_ok ext s' \<and> held s' = held s"
proof -
  have live: "\<not> f_ref (ftable s f) < 1" using tab_live [of ext "ftable s" "ofile s" fd f] assms by (simp add: table_ok_def)
  let ?t = "upd_file f (\<lambda>x. x\<lparr>f_ref := f_ref x + 1\<rparr>) s"
  have d: "filedup f s = Some ?t" using assms(2) live by (simp add: filedup_def k_acquire_def k_release_def upd_file_def)
  have "List.find (\<lambda>k. ofile ?t k = None) [0..<NOFILE] = Some n" using assms(6-8) by (subst find_Some_iff, intro exI [of _ n]) auto
  then have "sys_dup s = Some (int n, ?t\<lparr>ofile := (ofile s)(n := Some f)\<rparr>)"
    using assms(3-5) d by (simp add: sys_dup_def dupfd_def fdalloc_def)
  then show ?thesis
    using tab_dup_install [OF assms(1) [unfolded table_ok_def] assms(4-7)] by (auto simp: table_ok_def)
qed

theorem dup_correct_witness:
  "\<exists>s s' :: (nat \<Rightarrow> nat \<Rightarrow> u8) files. sys_dup s = Some (1, s') \<and> ofile s' 1 = Some 0 \<and> f_ref (ftable s' 0) = 2"
proof -
  obtain s :: "(nat \<Rightarrow> nat \<Rightarrow> u8) files" where s: "held s = {}" "ftable s = (\<lambda>_. no_file)(0 := one_file\<lparr>f_ref := int 1\<rparr>)"
      "ofile s = (\<lambda>fd. if fd < 1 then Some 0 else None)" "targs s = (\<lambda>_. 0)" by (rule files_with [of 1]) blast
  have t: "table_ok (\<lambda>_. 0) s" by (rule one_file_table [OF s(2,3)]) (simp_all add: NOFILE_def)
  obtain s' where "sys_dup s = Some (1, s')" "ofile s' = (ofile s)(1 := Some 0)" "ftable s' = (ftable s)(0 := (ftable s 0)\<lparr>f_ref := f_ref (ftable s 0) + 1\<rparr>)"
    using dup_correct [OF t, of 0 0 1] dup_one(2) [OF s(3,2,4,1)] by (auto simp: s NOFILE_def)
  then show ?thesis by (intro exI [of _ s] exI [of _ s']) (simp add: s(2))
qed

text \<open>
  When all descriptors are in use \<^verbatim>\<open>dup\<close> answers \<^verbatim>\<open>-EBADF\<close>, but the reference it took is not given back: the count
  of the file stays one too high, so the file is never closed.
\<close>

theorem dup_full_leaks:
  assumes "table_ok ext s" "L_ftable \<notin> held s" "argint 0 s = int fd" "fd < NOFILE" "ofile s fd = Some f" "\<forall>k < NOFILE. ofile s k \<noteq> None"
  shows "\<exists>s'. sys_dup s = Some (- EBADF, s') \<and> ofile s' = ofile s \<and> f_ref (ftable s' f) = f_ref (ftable s f) + 1 \<and>
    table_ok (ext(f := ext f + 1)) s'"
proof -
  have live: "\<not> f_ref (ftable s f) < 1" using tab_live [of ext "ftable s" "ofile s" fd f] assms by (simp add: table_ok_def)
  let ?t = "upd_file f (\<lambda>x. x\<lparr>f_ref := f_ref x + 1\<rparr>) s"
  have d: "filedup f s = Some ?t" using assms(2) live by (simp add: filedup_def k_acquire_def k_release_def upd_file_def)
  have "List.find (\<lambda>k. ofile ?t k = None) [0..<NOFILE] = None" using assms(6) by (simp add: find_None_iff)
  then have "sys_dup s = Some (- EBADF, ?t)" using assms(3-5) d by (simp add: sys_dup_def dupfd_def fdalloc_def)
  then show ?thesis using tab_dup_fd [OF assms(1) [unfolded table_ok_def] assms(4,5)] by (auto simp: table_ok_def)
qed

theorem dup_full_leaks_witness:
  "\<exists>s s' :: (nat \<Rightarrow> nat \<Rightarrow> u8) files. sys_dup s = Some (- EBADF, s') \<and> f_ref (ftable s 0) = 16 \<and> f_ref (ftable s' 0) = 17"
proof -
  obtain s :: "(nat \<Rightarrow> nat \<Rightarrow> u8) files" where s: "held s = {}" "ftable s = (\<lambda>_. no_file)(0 := one_file\<lparr>f_ref := int NOFILE\<rparr>)"
      "ofile s = (\<lambda>fd. if fd < NOFILE then Some 0 else None)" "targs s = (\<lambda>_. 0)" by (rule files_with [of NOFILE]) blast
  have p: "0 < NOFILE" "NOFILE = 16" by (simp_all add: NOFILE_def)
  have t: "table_ok (\<lambda>_. 0) s" by (rule one_file_table [OF s(2,3) p(1)]) simp
  have c: "f_ref (ftable s 0) = 16" by (simp add: s(2) p(2))
  obtain s' where "sys_dup s = Some (- EBADF, s')" "f_ref (ftable s' 0) = f_ref (ftable s 0) + 1"
    using dup_full_leaks [OF t, of 0 0] dup_one(2) [OF s(3,2,4,1) p(1)] p(1) by (auto simp: s(1,3))
  then show ?thesis using c by auto
qed

end
