(* ===== verification/Cred.thy ===== *)
theory Cred
  imports Kernel_Prelude
begin

text \<open>
  User and group identities: the credentials of \<^verbatim>\<open>struct proc\<close>, the argument fetch of
  \<^verbatim>\<open>kernel/syscall.c\<close> for integers, and the system calls of \<^verbatim>\<open>kernel/sysproc.c\<close> that read and change the
  identities. The registers \<^verbatim>\<open>a0\<close> to \<^verbatim>\<open>a5\<close> of the trap frame are a function of the argument number. An
  identity of -1 is \<^term>\<open>-1 :: u32\<close>. The theorems say which identities a process without the
  capability can reach, and where the code lets it reach more.
\<close>

unbundle bit_operations_syntax

section \<open>Data\<close>

record cred =
  p_uid :: u32
  p_euid :: u32
  p_suid :: u32
  p_fsuid :: u32
  p_gid :: u32
  p_egid :: u32
  p_sgid :: u32
  p_fsgid :: u32
  p_cap_effective :: u32
  p_cap_inheritable :: u32
  p_cap_permitted :: u32
  p_umask :: u32

type_synonym args = "nat \<Rightarrow> u64"

definition CAP_SETGID :: nat where "CAP_SETGID = 6"
definition CAP_SETUID :: nat where "CAP_SETUID = 7"
definition CAP_FS_MASK :: u32 where "CAP_FS_MASK = 0x1f"
definition S_IRWXUGO :: u32 where "S_IRWXUGO = 0x1ff"

definition cap_capable :: "nat \<Rightarrow> 'z cred_scheme \<Rightarrow> bool" where
  "cap_capable cap p \<longleftrightarrow> p_cap_effective p AND push_bit cap 1 \<noteq> 0"

section \<open>System call arguments\<close>

text \<open>
  \<^verbatim>\<open>argraw\<close> panics on an argument number above 5, which its callers test first; they return -1 then,
  which is \<^term>\<open>None\<close> here.
\<close>

definition argraw :: "nat \<Rightarrow> args \<Rightarrow> u64 option" where
  "argraw n a = (if n \<le> 5 then Some (a n) else None)"

definition argu64 :: "nat \<Rightarrow> args \<Rightarrow> u64 option" where
  "argu64 n a = (if n > 5 then None else argraw n a)"

definition argint :: "nat \<Rightarrow> args \<Rightarrow> u32 option" where
  "argint n a = (if n > 5 then None else map_option ucast (argraw n a))"

section \<open>Identities\<close>

definition cap_emulate_setxuid :: "u32 \<Rightarrow> u32 \<Rightarrow> u32 \<Rightarrow> 'z cred_scheme \<Rightarrow> 'z cred_scheme" where
  "cap_emulate_setxuid old_ruid old_euid old_suid p =
     (let p = (if (old_ruid = 0 \<or> old_euid = 0 \<or> old_suid = 0) \<and> (p_uid p \<noteq> 0 \<and> p_euid p \<noteq> 0 \<and> p_suid p \<noteq> 0)
               then p\<lparr>p_cap_permitted := 0, p_cap_effective := 0\<rparr> else p);
          p = (if old_euid = 0 \<and> p_euid p \<noteq> 0 then p\<lparr>p_cap_effective := 0\<rparr> else p)
      in if old_euid \<noteq> 0 \<and> p_euid p = 0 then p\<lparr>p_cap_effective := p_cap_permitted p\<rparr> else p)"

definition sys_getuid :: "'z cred_scheme \<Rightarrow> int" where "sys_getuid p = uint (p_uid p)"
definition sys_geteuid :: "'z cred_scheme \<Rightarrow> int" where "sys_geteuid p = uint (p_euid p)"
definition sys_getgid :: "'z cred_scheme \<Rightarrow> int" where "sys_getgid p = uint (p_gid p)"
definition sys_getegid :: "'z cred_scheme \<Rightarrow> int" where "sys_getegid p = uint (p_egid p)"

definition sys_setuid :: "args \<Rightarrow> 'z cred_scheme \<Rightarrow> int \<times> 'z cred_scheme" where
  "sys_setuid a p =
     (case argint 0 a of
        None \<Rightarrow> (- EINVAL, p)
      | Some uid \<Rightarrow>
          let old_euid = p_euid p; old_ruid = p_uid p; old_suid = p_suid p; new_suid = old_suid in
          (case (if cap_capable CAP_SETUID p then
                   (if uid \<noteq> old_ruid then Some (p\<lparr>p_uid := uid\<rparr>, uid)
                    else if uid \<noteq> p_uid p \<and> uid \<noteq> new_suid then None
                    else Some (p, new_suid))
                 else Some (p, new_suid)) of
             None \<Rightarrow> (- EPERM, p)
           | Some (p, new_suid) \<Rightarrow>
               let p = p\<lparr>p_fsuid := uid, p_euid := uid\<rparr>;
                   p = p\<lparr>p_suid := new_suid\<rparr>
               in (0, cap_emulate_setxuid old_ruid old_euid old_suid p)))"

definition sys_setreuid :: "args \<Rightarrow> 'z cred_scheme \<Rightarrow> int \<times> 'z cred_scheme" where
  "sys_setreuid a p =
     (case (argint 0 a, argint 1 a) of
        (Some ruid, Some euid) \<Rightarrow>
          let old_ruid = p_uid p; old_euid = p_euid p; old_suid = p_suid p in
          (if ruid \<noteq> -1 \<and> old_ruid \<noteq> ruid \<and> p_euid p \<noteq> ruid \<and> \<not> cap_capable CAP_SETUID p then (- EPERM, p)
           else if euid \<noteq> -1 \<and> old_euid \<noteq> euid \<and> p_suid p \<noteq> euid \<and> \<not> cap_capable CAP_SETUID p then (- EPERM, p)
           else
             let new_ruid = (if ruid \<noteq> -1 then ruid else old_ruid);
                 new_euid = (if euid \<noteq> -1 then euid else old_euid);
                 p = (if new_ruid \<noteq> old_ruid then p\<lparr>p_uid := ruid\<rparr> else p);
                 p = p\<lparr>p_fsuid := new_euid, p_euid := new_euid\<rparr>;
                 p = (if ruid \<noteq> -1 \<or> euid \<noteq> -1 \<and> euid \<noteq> old_ruid then p\<lparr>p_suid := p_euid p\<rparr> else p);
                 p = p\<lparr>p_fsuid := p_euid p\<rparr>
             in (0, cap_emulate_setxuid old_ruid old_euid old_suid p))
      | _ \<Rightarrow> (- EINVAL, p))"

text \<open>The test of \<^verbatim>\<open>sys_setresuid\<close> and \<^verbatim>\<open>sys_setresgid\<close> on one of the identities asked for.\<close>

definition may_take :: "u32 \<Rightarrow> u32 \<Rightarrow> u32 \<Rightarrow> u32 \<Rightarrow> bool" where
  "may_take x r e v \<longleftrightarrow> \<not> (x \<noteq> -1 \<and> x \<noteq> r \<and> x \<noteq> e \<and> x \<noteq> v)"

definition sys_setresuid :: "args \<Rightarrow> 'z cred_scheme \<Rightarrow> int \<times> 'z cred_scheme" where
  "sys_setresuid a p =
     (case (argint 0 a, argint 1 a, argint 2 a) of
        (Some ruid, Some euid, Some suid) \<Rightarrow>
          let old_ruid = p_uid p; old_euid = p_euid p; old_suid = p_suid p in
          (if \<not> cap_capable CAP_SETUID p \<and>
              \<not> (may_take ruid (p_uid p) (p_euid p) (p_suid p) \<and> may_take euid (p_uid p) (p_euid p) (p_suid p) \<and>
                 may_take suid (p_uid p) (p_euid p) (p_suid p)) then (- EPERM, p)
           else
             let p = (if ruid \<noteq> -1 then p\<lparr>p_uid := ruid\<rparr> else p);
                 p = (if euid \<noteq> -1 then p\<lparr>p_euid := euid, p_fsuid := euid\<rparr> else p);
                 p = (if suid \<noteq> -1 then p\<lparr>p_suid := suid\<rparr> else p)
             in (0, cap_emulate_setxuid old_ruid old_euid old_suid p))
      | _ \<Rightarrow> (- EINVAL, p))"

definition sys_setfsuid :: "args \<Rightarrow> 'z cred_scheme \<Rightarrow> int \<times> 'z cred_scheme" where
  "sys_setfsuid a p =
     (case argint 0 a of
        None \<Rightarrow> (- EINVAL, p)
      | Some fsuid \<Rightarrow>
          let old_fsuid = p_fsuid p;
              p = (if fsuid = p_uid p \<or> fsuid = p_euid p \<or> fsuid = p_suid p \<or> fsuid = p_fsuid p \<or> cap_capable CAP_SETUID p
                   then p\<lparr>p_fsuid := fsuid\<rparr> else p);
              p = (if old_fsuid = 0 \<and> p_fsuid p \<noteq> 0 then p\<lparr>p_cap_effective := p_cap_effective p AND NOT CAP_FS_MASK\<rparr> else p);
              p = (if old_fsuid \<noteq> 0 \<and> p_fsuid p = 0
                   then p\<lparr>p_cap_effective := p_cap_effective p OR (p_cap_permitted p AND CAP_FS_MASK)\<rparr> else p)
          in (uint old_fsuid, p))"

definition sys_setgid :: "args \<Rightarrow> 'z cred_scheme \<Rightarrow> int \<times> 'z cred_scheme" where
  "sys_setgid a p =
     (case argint 0 a of
        None \<Rightarrow> (- EINVAL, p)
      | Some gid \<Rightarrow>
          if cap_capable CAP_SETGID p then (0, p\<lparr>p_gid := gid, p_egid := gid, p_sgid := gid\<rparr>)
          else if gid = p_gid p \<or> gid = p_sgid p then (0, p\<lparr>p_egid := gid\<rparr>)
          else (- EPERM, p))"

definition sys_setregid :: "args \<Rightarrow> 'z cred_scheme \<Rightarrow> int \<times> 'z cred_scheme" where
  "sys_setregid a p =
     (case (argint 0 a, argint 1 a) of
        (Some rgid, Some egid) \<Rightarrow>
          let old_rgid = p_gid p; old_egid = p_egid p in
          (if rgid \<noteq> -1 \<and> \<not> (old_rgid = rgid \<or> p_egid p = rgid \<or> cap_capable CAP_SETGID p) then (- EPERM, p)
           else if egid \<noteq> -1 \<and> \<not> (old_rgid = egid \<or> p_egid p = egid \<or> p_sgid p = egid \<or> cap_capable CAP_SETGID p) then (- EPERM, p)
           else
             let new_rgid = (if rgid \<noteq> -1 then rgid else old_rgid);
                 new_egid = (if egid \<noteq> -1 then egid else old_egid);
                 p = (if rgid \<noteq> -1 \<or> egid \<noteq> -1 \<and> egid \<noteq> old_rgid then p\<lparr>p_sgid := new_egid\<rparr> else p)
             in (0, p\<lparr>p_fsgid := new_egid, p_egid := new_egid, p_gid := new_rgid\<rparr>))
      | _ \<Rightarrow> (- EINVAL, p))"

definition sys_setresgid :: "args \<Rightarrow> 'z cred_scheme \<Rightarrow> int \<times> 'z cred_scheme" where
  "sys_setresgid a p =
     (case (argint 0 a, argint 1 a, argint 2 a) of
        (Some rgid, Some egid, Some sgid) \<Rightarrow>
          if \<not> cap_capable CAP_SETGID p \<and>
             \<not> (may_take rgid (p_gid p) (p_egid p) (p_sgid p) \<and> may_take egid (p_gid p) (p_egid p) (p_sgid p) \<and>
                may_take sgid (p_gid p) (p_egid p) (p_sgid p)) then (- EPERM, p)
          else
            let p = (if egid \<noteq> -1 then p\<lparr>p_egid := egid, p_fsgid := egid\<rparr> else p);
                p = (if rgid \<noteq> -1 then p\<lparr>p_gid := rgid\<rparr> else p);
                p = (if sgid \<noteq> -1 then p\<lparr>p_sgid := sgid\<rparr> else p)
            in (0, p)
      | _ \<Rightarrow> (- EINVAL, p))"

definition sys_setfsgid :: "args \<Rightarrow> 'z cred_scheme \<Rightarrow> int \<times> 'z cred_scheme" where
  "sys_setfsgid a p =
     (case argint 0 a of
        None \<Rightarrow> (- EINVAL, p)
      | Some fsgid \<Rightarrow>
          let old_fsgid = p_fsgid p;
              p = (if fsgid = p_gid p \<or> fsgid = p_egid p \<or> fsgid = p_sgid p \<or> fsgid = p_fsgid p \<or> cap_capable CAP_SETGID p
                   then p\<lparr>p_fsgid := fsgid\<rparr> else p)
          in (uint old_fsgid, p))"

definition sys_umask :: "args \<Rightarrow> 'z cred_scheme \<Rightarrow> u32 \<times> 'z cred_scheme" where
  "sys_umask a p =
     (let oumask = p_umask p
      in case argint 0 a of None \<Rightarrow> (- 22, p) | Some umask \<Rightarrow> (oumask, p\<lparr>p_umask := umask AND S_IRWXUGO\<rparr>))"

section \<open>What an unprivileged process can reach\<close>

text \<open>
  The system calls that change identities, without \<^verbatim>\<open>sys_setuid\<close>, as steps of a process. The result
  of a call is dropped: the process may ignore it and go on.
\<close>

inductive cred_step :: "'z cred_scheme \<Rightarrow> 'z cred_scheme \<Rightarrow> bool" where
  reuid: "cred_step p (snd (sys_setreuid a p))"
| resuid: "cred_step p (snd (sys_setresuid a p))"
| fsuid: "cred_step p (snd (sys_setfsuid a p))"
| gid: "cred_step p (snd (sys_setgid a p))"
| regid: "cred_step p (snd (sys_setregid a p))"
| resgid: "cred_step p (snd (sys_setresgid a p))"
| fsgid: "cred_step p (snd (sys_setfsgid a p))"
| umask: "cred_step p (snd (sys_umask a p))"

definition uids :: "'z cred_scheme \<Rightarrow> u32 set" where
  "uids p = {p_uid p, p_euid p, p_suid p, p_fsuid p}"

definition gids :: "'z cred_scheme \<Rightarrow> u32 set" where
  "gids p = {p_gid p, p_egid p, p_sgid p, p_fsgid p}"

text \<open>
  Confined to user identities \<open>U\<close> and group identities \<open>V\<close>: \<open>U\<close> has no root in it, and neither capability
  is in effect.
\<close>

definition confined :: "u32 set \<Rightarrow> u32 set \<Rightarrow> 'z cred_scheme \<Rightarrow> bool" where
  "confined U V p \<longleftrightarrow> uids p \<subseteq> U \<and> gids p \<subseteq> V \<and> 0 \<notin> U \<and> \<not> bit (p_cap_effective p) CAP_SETUID \<and> \<not> bit (p_cap_effective p) CAP_SETGID"

lemma cap_capable_bit: "cap_capable cap p = bit (p_cap_effective p) cap"
  unfolding cap_capable_def by (metis and_exp_eq_0_iff_not_bit push_bit_of_1)

lemma confinedD:
  assumes "confined U V p"
  shows "\<not> cap_capable CAP_SETUID p" "\<not> cap_capable CAP_SETGID p"
    "p_uid p \<in> U" "p_euid p \<in> U" "p_suid p \<in> U" "p_fsuid p \<in> U" "0 \<notin> U" "p_gid p \<in> V" "p_egid p \<in> V" "p_sgid p \<in> V" "p_fsgid p \<in> V"
  using assms by (auto simp: confined_def uids_def gids_def cap_capable_bit)

text \<open>Losing capabilities keeps a process confined, and so does taking an identity it may have.\<close>

lemma confined_capsI:
  assumes "uids p \<subseteq> U" "gids p \<subseteq> V" "0 \<notin> U" "\<not> bit (p_cap_effective p) CAP_SETUID" "\<not> bit (p_cap_effective p) CAP_SETGID" "r \<in> U" "e \<in> U" "v \<in> U"
  shows "confined U V (cap_emulate_setxuid r e v p)"
  using assms by (auto simp: cap_emulate_setxuid_def confined_def uids_def gids_def Let_def)

lemmas sys_id_defs = sys_setreuid_def sys_setresuid_def sys_setfsuid_def sys_setgid_def sys_setregid_def sys_setresgid_def sys_setfsgid_def sys_umask_def

lemma argint_some [simp]: "n \<le> 5 \<Longrightarrow> argint n a = Some (ucast (a n))"
  by (simp add: argint_def argraw_def)

lemma confinedI:
  assumes "p_uid p \<in> U" "p_euid p \<in> U" "p_suid p \<in> U" "p_fsuid p \<in> U" "0 \<notin> U"
    "p_gid p \<in> V" "p_egid p \<in> V" "p_sgid p \<in> V" "p_fsgid p \<in> V" "\<not> bit (p_cap_effective p) CAP_SETUID" "\<not> bit (p_cap_effective p) CAP_SETGID"
  shows "confined U V p"
  using assms by (simp add: confined_def uids_def gids_def)

lemma setxuid_confined:
  assumes c: "confined U V p" and q: "p_uid q \<in> U" "p_euid q \<in> U" "p_suid q \<in> U" "p_fsuid q \<in> U"
    and f: "p_gid q = p_gid p" "p_egid q = p_egid p" "p_sgid q = p_sgid p" "p_fsgid q = p_fsgid p" "p_cap_effective q = p_cap_effective p"
  shows "confined U V (cap_emulate_setxuid (p_uid p) (p_euid p) (p_suid p) q)"
  by (rule confined_capsI) (use c q confinedD [OF c] in \<open>auto simp: confined_def uids_def gids_def f\<close>)

lemma setreuid_confined:
  assumes c: "confined U V p"
  shows "confined U V (snd (sys_setreuid a p))"
proof -
  obtain r e where ar: "argint 0 a = Some r" "argint 1 a = Some e" by simp
  note d = confinedD [OF c]
  show ?thesis
  proof (cases "(r \<noteq> -1 \<longrightarrow> r = p_uid p \<or> r = p_euid p) \<and> (e \<noteq> -1 \<longrightarrow> e = p_euid p \<or> e = p_suid p)")
    case True
    have n: "\<not> (r \<noteq> -1 \<and> p_uid p \<noteq> r \<and> p_euid p \<noteq> r \<and> \<not> cap_capable CAP_SETUID p)"
      "\<not> (e \<noteq> -1 \<and> p_euid p \<noteq> e \<and> p_suid p \<noteq> e \<and> \<not> cap_capable CAP_SETUID p)" using True by auto
    show ?thesis
      unfolding sys_setreuid_def ar option.case prod.case Let_def if_not_P [OF n(1)] if_not_P [OF n(2)] snd_conv
      by (rule setxuid_confined [OF c]) (use True d in auto)
  next
    case False
    then show ?thesis using c d(1) unfolding sys_setreuid_def ar option.case prod.case Let_def by auto
  qed
qed

lemma setresuid_confined:
  assumes c: "confined U V p"
  shows "confined U V (snd (sys_setresuid a p))"
proof -
  obtain r e v where ar: "argint 0 a = Some r" "argint 1 a = Some e" "argint 2 a = Some v" by simp
  note d = confinedD [OF c]
  let ?ok = "\<lambda>x. may_take x (p_uid p) (p_euid p) (p_suid p)"
  show ?thesis
  proof (cases "?ok r \<and> ?ok e \<and> ?ok v")
    case True
    have n: "\<not> (\<not> cap_capable CAP_SETUID p \<and> \<not> (?ok r \<and> ?ok e \<and> ?ok v))" using True by blast
    show ?thesis
      unfolding sys_setresuid_def ar option.case prod.case Let_def if_not_P [OF n] snd_conv
      by (rule setxuid_confined [OF c]) (use True d in \<open>auto simp: may_take_def\<close>)
  next
    case False
    then show ?thesis using c d(1) unfolding sys_setresuid_def ar option.case prod.case Let_def by simp
  qed
qed

lemma setfsuid_confined:
  assumes c: "confined U V p"
  shows "confined U V (snd (sys_setfsuid a p))"
proof -
  note d = confinedD [OF c]
  let ?f = "ucast (a 0) :: u32"
  have m: "\<not> bit CAP_FS_MASK CAP_SETUID" "\<not> bit CAP_FS_MASK CAP_SETGID" by (simp_all add: CAP_FS_MASK_def CAP_SETUID_def CAP_SETGID_def)
  have b: "\<not> bit (p_cap_effective p) CAP_SETUID" "\<not> bit (p_cap_effective p) CAP_SETGID" using d(1,2) by (simp_all add: cap_capable_bit)
  show ?thesis
    by (rule confinedI) (use d m b in \<open>auto simp: sys_setfsuid_def Let_def bit_simps\<close>)
qed

lemma setgid_confined:
  assumes c: "confined U V p"
  shows "confined U V (snd (sys_setgid a p))" "confined U V (snd (sys_setregid a p))" "confined U V (snd (sys_setresgid a p))"
    "confined U V (snd (sys_setfsgid a p))" "confined U V (snd (sys_umask a p))"
proof -
  note d = confinedD [OF c]
  have b: "\<not> bit (p_cap_effective p) CAP_SETUID" "\<not> bit (p_cap_effective p) CAP_SETGID" using d(1,2) by (simp_all add: cap_capable_bit)
  show "confined U V (snd (sys_setgid a p))" by (rule confinedI) (use d b in \<open>auto simp: sys_setgid_def\<close>)
  show "confined U V (snd (sys_setregid a p))" by (rule confinedI) (use d b in \<open>auto simp: sys_setregid_def Let_def\<close>)
  show "confined U V (snd (sys_setresgid a p))" by (rule confinedI) (use d b in \<open>auto simp: sys_setresgid_def may_take_def Let_def\<close>)
  show "confined U V (snd (sys_setfsgid a p))" by (rule confinedI) (use d b in \<open>auto simp: sys_setfsgid_def Let_def\<close>)
  show "confined U V (snd (sys_umask a p))" by (rule confinedI) (use d b in \<open>auto simp: sys_umask_def Let_def\<close>)
qed

lemma confined_step: "cred_step p q \<Longrightarrow> confined U V p \<Longrightarrow> confined U V q"
  by (induction rule: cred_step.induct) (simp_all add: setreuid_confined setresuid_confined setfsuid_confined setgid_confined)

section \<open>Properties\<close>


definition login_user :: "u32 \<Rightarrow> cred" where
  "login_user u = \<lparr>p_uid = u, p_euid = u, p_suid = u, p_fsuid = u, p_gid = u, p_egid = u, p_sgid = u, p_fsgid = u,
     p_cap_effective = 0, p_cap_inheritable = 0, p_cap_permitted = 0, p_umask = 2\<rparr>"


text \<open>
  C36: \<^verbatim>\<open>sys_setuid\<close> tests nothing when the caller lacks \<^verbatim>\<open>CAP_SETUID\<close>: whatever its identities are, the call
  succeeds, and the effective and file system user become the one asked for. Asking for root from
  another effective user also puts every permitted capability in effect.
\<close>

theorem setuid_unchecked:
  assumes "\<not> cap_capable CAP_SETUID p"
  shows "fst (sys_setuid a p) = 0 \<and> p_euid (snd (sys_setuid a p)) = ucast (a 0) \<and> p_fsuid (snd (sys_setuid a p)) = ucast (a 0) \<and>
    (a 0 = 0 \<and> p_euid p \<noteq> 0 \<longrightarrow> p_cap_effective (snd (sys_setuid a p)) = p_cap_permitted p)"
  using assms by (simp add: sys_setuid_def cap_emulate_setxuid_def Let_def)

theorem setuid_unchecked_witness:
  "\<not> cap_capable CAP_SETUID (login_user 1000) \<and> p_euid (snd (sys_setuid (\<lambda>_. 0) (login_user 1000))) = 0"
  using setuid_unchecked [of "login_user 1000" "\<lambda>_. 0"] by (simp add: login_user_def cap_capable_def)

text \<open>
  C37: \<^verbatim>\<open>sys_umask\<close> keeps only the nine permission bits of its argument and returns the mask of before, so
  the mask is always at most 0777 and setting the returned value restores it.
\<close>

theorem umask_bounds:
  "fst (sys_umask a p) = p_umask p \<and> p_umask (snd (sys_umask a p)) \<le> S_IRWXUGO \<and>
   (p_umask p AND S_IRWXUGO = p_umask p \<and> b 0 = ucast (p_umask p) \<longrightarrow> snd (sys_umask b (snd (sys_umask a p))) = p)"
proof -
  have "x AND S_IRWXUGO \<le> S_IRWXUGO" for x :: u32 by (rule word_and_le1)
  moreover have "(ucast (ucast x :: u64) :: u32) = x" for x :: u32 by (rule bit_word_eqI) (simp add: bit_simps)
  ultimately show ?thesis by (simp add: sys_umask_def)
qed

theorem umask_bounds_witness:
  "p_umask (snd (sys_umask (\<lambda>_. 18) (login_user 1))) \<le> S_IRWXUGO \<and> snd (sys_umask (\<lambda>_. 2) (snd (sys_umask (\<lambda>_. 18) (login_user 1)))) = login_user 1"
  using umask_bounds [of "\<lambda>_. 18" "login_user 1" "\<lambda>_. 2"] by (simp add: login_user_def S_IRWXUGO_def)

end
