(* ===== verification/Signal.thy ===== *)
theory Signal
  imports Kernel_Prelude
begin

text \<open>
  Signal sets: \<^verbatim>\<open>kernel/signal.c\<close> and the data of \<^verbatim>\<open>include/linux/signal.h\<close>. A \<^verbatim>\<open>sigset_t\<close> is a 64-bit
  word; signal numbers are C \<^verbatim>\<open>int\<close> values. The shift \<^verbatim>\<open>1 << (signum - 1)\<close> is done on a 32-bit \<^verbatim>\<open>int\<close> and
  the result extended with its sign to 64 bits, which is written out here. Each operation that the code
  gives a pointer to a set returns the new set beside its result.
\<close>

unbundle bit_operations_syntax

type_synonym sigset = u64

definition NSIG :: int where "NSIG = 32"

definition SIG_DFL :: u64 where "SIG_DFL = 0"
definition SIG_IGN :: u64 where "SIG_IGN = 1"

definition SIGHUP :: int where "SIGHUP = 1"
definition SIGINT :: int where "SIGINT = 2"
definition SIGQUIT :: int where "SIGQUIT = 3"
definition SIGILL :: int where "SIGILL = 4"
definition SIGTRAP :: int where "SIGTRAP = 5"
definition SIGABRT :: int where "SIGABRT = 6"
definition SIGBUS :: int where "SIGBUS = 7"
definition SIGFPE :: int where "SIGFPE = 8"
definition SIGKILL :: int where "SIGKILL = 9"
definition SIGUSR1 :: int where "SIGUSR1 = 10"
definition SIGSEGV :: int where "SIGSEGV = 11"
definition SIGUSR2 :: int where "SIGUSR2 = 12"
definition SIGPIPE :: int where "SIGPIPE = 13"
definition SIGALRM :: int where "SIGALRM = 14"
definition SIGTERM :: int where "SIGTERM = 15"
definition SIGSTKFLT :: int where "SIGSTKFLT = 16"
definition SIGCHLD :: int where "SIGCHLD = 17"
definition SIGCONT :: int where "SIGCONT = 18"
definition SIGSTOP :: int where "SIGSTOP = 19"
definition SIGTSTP :: int where "SIGTSTP = 20"
definition SIGTTIN :: int where "SIGTTIN = 21"
definition SIGTTOU :: int where "SIGTTOU = 22"
definition SIGURG :: int where "SIGURG = 23"
definition SIGXCPU :: int where "SIGXCPU = 24"
definition SIGXFSZ :: int where "SIGXFSZ = 25"
definition SIGVTALRM :: int where "SIGVTALRM = 26"
definition SIGPROF :: int where "SIGPROF = 27"
definition SIGWINCH :: int where "SIGWINCH = 28"
definition SIGIO :: int where "SIGIO = 29"
definition SIGPWR :: int where "SIGPWR = 30"
definition SIGSYS :: int where "SIGSYS = 31"

lemmas signal_numbers = SIGHUP_def SIGINT_def SIGQUIT_def SIGILL_def SIGTRAP_def SIGABRT_def SIGBUS_def SIGFPE_def SIGKILL_def
  SIGUSR1_def SIGSEGV_def SIGUSR2_def SIGPIPE_def SIGALRM_def SIGTERM_def SIGSTKFLT_def SIGCHLD_def SIGCONT_def SIGSTOP_def
  SIGTSTP_def SIGTTIN_def SIGTTOU_def SIGURG_def SIGXCPU_def SIGXFSZ_def SIGVTALRM_def SIGPROF_def SIGWINCH_def SIGIO_def
  SIGPWR_def SIGSYS_def NSIG_def

definition SIG_BLOCK :: int where "SIG_BLOCK = 0"
definition SIG_UNBLOCK :: int where "SIG_UNBLOCK = 1"
definition SIG_SETMASK :: int where "SIG_SETMASK = 2"

record sigaction =
  sa_handler :: u64
  sa_mask :: sigset
  sa_flags :: u32
  sa_restorer :: u64

record signal =
  sg_mask :: sigset
  sg_pending :: sigset
  sg_actions :: "nat \<Rightarrow> sigaction"

section \<open>Operations\<close>

definition sigemptyset :: "sigset \<Rightarrow> int \<times> sigset" where
  "sigemptyset st = (0, 0)"

definition sigfillset :: "sigset \<Rightarrow> int \<times> sigset" where
  "sigfillset st = (0, 0xffffffffffffffff)"

text \<open>\<^verbatim>\<open>1 << (signum - 1)\<close> as an \<^verbatim>\<open>int\<close>.\<close>

definition sigbit :: "int \<Rightarrow> 32 word" where
  "sigbit signum = push_bit (nat (signum - 1)) 1"

definition sigaddset :: "int \<Rightarrow> sigset \<Rightarrow> int \<times> sigset" where
  "sigaddset signum st = (if signum < 1 \<or> signum \<ge> NSIG then (-1, st) else (0, st OR scast (sigbit signum)))"

definition sigdelset :: "int \<Rightarrow> sigset \<Rightarrow> int \<times> sigset" where
  "sigdelset signum st = (if signum < 1 \<or> signum \<ge> NSIG then (-1, st) else (0, st AND scast (NOT (sigbit signum))))"

definition sigismember :: "int \<Rightarrow> sigset \<Rightarrow> int" where
  "sigismember signum st = (if signum < 1 \<or> signum \<ge> NSIG then -1 else if st AND scast (sigbit signum) \<noteq> 0 then 1 else 0)"

definition sigisemptyset :: "sigset \<Rightarrow> int" where
  "sigisemptyset st = (if st = 0 then 1 else 0)"

definition signotset :: "sigset \<Rightarrow> sigset \<Rightarrow> int \<times> sigset" where
  "signotset dest src = (0, NOT src)"

definition sigorset :: "sigset \<Rightarrow> sigset \<Rightarrow> sigset \<Rightarrow> int \<times> sigset" where
  "sigorset dest left right = (0, left OR right)"

definition sigandset :: "sigset \<Rightarrow> sigset \<Rightarrow> sigset \<Rightarrow> int \<times> sigset" where
  "sigandset dest left right = (0, left AND right)"

definition siginitset :: "sigset \<Rightarrow> sigset \<Rightarrow> int \<times> sigset" where
  "siginitset dst src = (let dst = snd (sigemptyset dst); dst = snd (sigorset dst dst src) in (0, dst))"

section \<open>Signal sets as sets\<close>

definition sigs :: "sigset \<Rightarrow> int set" where
  "sigs st = {n. 1 \<le> n \<and> n < NSIG \<and> bit st (nat (n - 1))}"

text \<open>The bit of a legal signal is below the sign bit, so the extension to 64 bits adds nothing.\<close>

lemma sigbit_bits:
  assumes "1 \<le> n" "n < NSIG"
  shows "bit (scast (sigbit n) :: u64) k \<longleftrightarrow> k = nat (n - 1)" "k < 64 \<Longrightarrow> bit (scast (NOT (sigbit n)) :: u64) k \<longleftrightarrow> k \<noteq> nat (n - 1)"
proof -
  have n: "nat (n - 1) < 31" using assms by (auto simp: NSIG_def)
  have b: "bit (sigbit n) j \<longleftrightarrow> j = nat (n - 1)" for j
    unfolding sigbit_def push_bit_of_1 bit_exp_iff possible_bit_word using n by auto
  show "bit (scast (sigbit n) :: u64) k \<longleftrightarrow> k = nat (n - 1)"
    using n by (auto simp: bit_signed_iff possible_bit_word b min_def split: if_splits)
  show "k < 64 \<Longrightarrow> bit (scast (NOT (sigbit n)) :: u64) k \<longleftrightarrow> k \<noteq> nat (n - 1)"
    using n by (auto simp: bit_signed_iff bit_not_iff possible_bit_word b min_def split: if_splits)
qed

lemma sig_nat_inj: "1 \<le> m \<Longrightarrow> 1 \<le> n \<Longrightarrow> nat (m - 1) = nat (n - 1) \<longleftrightarrow> m = (n :: int)"
  by auto

lemma and_sigbit: "1 \<le> n \<Longrightarrow> n < NSIG \<Longrightarrow> st AND scast (sigbit n) \<noteq> 0 \<longleftrightarrow> bit (st :: u64) (nat (n - 1))"
proof -
  assume n: "1 \<le> n" "n < NSIG"
  have "st AND scast (sigbit n) = 0 \<longleftrightarrow> \<not> bit st (nat (n - 1))"
  proof
    assume "st AND scast (sigbit n) = 0"
    then have "\<not> bit (st AND scast (sigbit n)) (nat (n - 1))" by simp
    then show "\<not> bit st (nat (n - 1))" using sigbit_bits(1) [OF n] by (simp add: bit_and_iff)
  next
    assume "\<not> bit st (nat (n - 1))"
    then show "st AND scast (sigbit n) = 0" using sigbit_bits(1) [OF n] by (intro bit_word_eqI) (auto simp: bit_and_iff)
  qed
  then show ?thesis by blast
qed

lemma sigs_simps [simp]:
  "sigs (snd (sigaddset n st)) = (if 1 \<le> n \<and> n < NSIG then insert n (sigs st) else sigs st)"
  "sigs (snd (sigdelset n st)) = sigs st - {n}"
  "sigs 0 = {}"
  "sigs (a OR b) = sigs a \<union> sigs b"
  "sigs (a AND b) = sigs a \<inter> sigs b"
  "sigs (NOT a) = {1..<NSIG} - sigs a"
proof -
  show "sigs (snd (sigaddset n st)) = (if 1 \<le> n \<and> n < NSIG then insert n (sigs st) else sigs st)"
    using sigbit_bits(1) [of n] by (auto simp: sigaddset_def sigs_def bit_or_iff sig_nat_inj)
  have k: "nat (m - 1) < 64" if "m < NSIG" for m using that by (simp add: NSIG_def)
  show "sigs (snd (sigdelset n st)) = sigs st - {n}"
  proof (cases "1 \<le> n \<and> n < NSIG")
    case True
    have "m \<in> sigs (snd (sigdelset n st)) \<longleftrightarrow> m \<in> sigs st - {n}" for m
      using True k [of m] sigbit_bits(2) [of n "nat (m - 1)"] sig_nat_inj [of m n]
      by (auto simp: sigdelset_def sigs_def bit_and_iff)
    then show ?thesis by blast
  qed (auto simp: sigdelset_def sigs_def)
  show "sigs 0 = {}" "sigs (a OR b) = sigs a \<union> sigs b" "sigs (a AND b) = sigs a \<inter> sigs b"
    by (auto simp: sigs_def bit_or_iff bit_and_iff)
  show "sigs (NOT a) = {1..<NSIG} - sigs a" using k by (auto simp: sigs_def bit_not_iff possible_bit_word)
qed

lemma sigismember_iff: "sigismember n st = 1 \<longleftrightarrow> n \<in> sigs st"
  using and_sigbit [of n st] by (auto simp: sigismember_def sigs_def)

section \<open>The contract of a set of signals\<close>

text \<open>
  What the kernel relies on: a representation of subsets of a universe with insertion, deletion and a
  membership test, where elements outside the universe are ignored.
\<close>

locale set_impl =
  fixes elems :: "'s \<Rightarrow> 'a set"
    and univ :: "'a set"
    and ins :: "'a \<Rightarrow> 's \<Rightarrow> 's"
    and del :: "'a \<Rightarrow> 's \<Rightarrow> 's"
    and mem :: "'a \<Rightarrow> 's \<Rightarrow> bool"
  assumes elems_univ: "elems s \<subseteq> univ"
    and elems_ins: "elems (ins x s) = (if x \<in> univ then insert x (elems s) else elems s)"
    and elems_del: "elems (del x s) = elems s - {x}"
    and mem_iff: "mem x s \<longleftrightarrow> x \<in> elems s"
begin

lemma del_ins: "\<not> mem x s \<Longrightarrow> elems (del x (ins x s)) = elems s"
  by (auto simp: elems_del elems_ins mem_iff)

lemma single_ins: "elems s = {} \<Longrightarrow> x \<in> univ \<Longrightarrow> elems (ins x s) = {x}"
  by (simp add: elems_ins)

lemma mem_univ: "mem x s \<Longrightarrow> x \<in> univ"
  using elems_univ mem_iff by blast

end

interpretation sigset: set_impl sigs "{1..<NSIG}" "\<lambda>n st. snd (sigaddset n st)" "\<lambda>n st. snd (sigdelset n st)" "\<lambda>n st. sigismember n st = 1"
  by unfold_locales (auto simp: sigismember_iff, auto simp: sigs_def)

text \<open>
  C33: The signal set operations of the kernel are the operations on sets of signal numbers 1 to 31: adding
  and removing one signal touches no other (the 32-bit shift never reaches the sign bit), membership,
  union, intersection and complement are those of sets, and a number outside the range is refused with
  -1 and changes nothing.
\<close>

theorem sigset_ops_equal_set_ops:
  "(if n < 1 \<or> n \<ge> NSIG then sigaddset n st = (-1, st) \<and> sigdelset n st = (-1, st) \<and> sigismember n st = -1
    else fst (sigaddset n st) = 0 \<and> sigs (snd (sigaddset n st)) = insert n (sigs st) \<and>
         fst (sigdelset n st) = 0 \<and> sigs (snd (sigdelset n st)) = sigs st - {n} \<and>
         sigismember n st = (if n \<in> sigs st then 1 else 0)) \<and>
   sigs (snd (sigemptyset st)) = {} \<and> sigs (snd (sigfillset st)) = {1..<NSIG} \<and>
   sigs (snd (sigorset d st st')) = sigs st \<union> sigs st' \<and> sigs (snd (sigandset d st st')) = sigs st \<inter> sigs st' \<and>
   sigs (snd (signotset d st)) = {1..<NSIG} - sigs st \<and> snd (siginitset d st) = st"
proof (intro conjI)
  show "if n < 1 \<or> n \<ge> NSIG then sigaddset n st = (-1, st) \<and> sigdelset n st = (-1, st) \<and> sigismember n st = -1
    else fst (sigaddset n st) = 0 \<and> sigs (snd (sigaddset n st)) = insert n (sigs st) \<and>
         fst (sigdelset n st) = 0 \<and> sigs (snd (sigdelset n st)) = sigs st - {n} \<and>
         sigismember n st = (if n \<in> sigs st then 1 else 0)"
  proof (cases "n < 1 \<or> n \<ge> NSIG")
    case True
    then show ?thesis by (simp add: sigaddset_def sigdelset_def sigismember_def)
  next
    case False
    then have "fst (sigaddset n st) = 0" "fst (sigdelset n st) = 0" "sigismember n st = 1 \<or> sigismember n st = 0"
      by (auto simp: sigaddset_def sigdelset_def sigismember_def)
    then show ?thesis using False sigismember_iff [of n st] by auto
  qed
  have "sigs (NOT 0) = {1..<NSIG}" by (simp del: bit.compl_zero)
  moreover have "(0xffffffffffffffff :: u64) = NOT 0" by simp
  ultimately show "sigs (snd (sigfillset st)) = {1..<NSIG}" by (simp only: sigfillset_def snd_conv)
qed (simp_all add: sigemptyset_def sigorset_def sigandset_def signotset_def siginitset_def)

end
