(* ===== verification/Vm.thy ===== *)
theory Vm
  imports Buddy_Free Kernel_String Kernel_Bytes
begin

text \<open>
  Virtual memory, \<^verbatim>\<open>kernel/vm.c\<close>: Sv39 page tables in physical memory, their pages from the buddy
  allocator, and the copies between user and kernel space. Addresses are 64-bit words; the kernel
  maps physical memory at its own addresses, so the byte memory is indexed by their values. Fences and
  translation cache flushes have no effect here. A null page table entry pointer is address 0.
  \<^verbatim>\<open>kalloc\<close> dereferences a null pointer when memory is exhausted, so where the code tests its result
  the test is kept but cannot succeed.
\<close>

unbundle bit_operations_syntax

section \<open>Data: \<^verbatim>\<open>include/common/riscv.h\<close> and \<^verbatim>\<open>include/common/memlayout.h\<close>\<close>

record vm = buddy +
  ram :: memory

definition PGSIZE :: u64 where "PGSIZE = 4096"

definition PGROUNDUP :: "u64 \<Rightarrow> u64" where "PGROUNDUP sz = (sz + PGSIZE - 1) AND NOT (PGSIZE - 1)"
definition PGROUNDDOWN :: "u64 \<Rightarrow> u64" where "PGROUNDDOWN a = a AND NOT (PGSIZE - 1)"

definition PTE_V :: u64 where "PTE_V = push_bit 0 1"
definition PTE_R :: u64 where "PTE_R = push_bit 1 1"
definition PTE_W :: u64 where "PTE_W = push_bit 2 1"
definition PTE_X :: u64 where "PTE_X = push_bit 3 1"
definition PTE_U :: u64 where "PTE_U = push_bit 4 1"
definition PTE_A :: u64 where "PTE_A = push_bit 6 1"
definition PTE_D :: u64 where "PTE_D = push_bit 7 1"
definition PTE_COW :: u64 where "PTE_COW = push_bit 8 1"
definition PTE_S :: u64 where "PTE_S = push_bit 60 1"
definition PTE_B :: u64 where "PTE_B = push_bit 61 1"
definition PTE_C :: u64 where "PTE_C = push_bit 62 1"
definition PTE_SO :: u64 where "PTE_SO = push_bit 63 1"

text \<open>The attributes of the T-Head extension, which \<^verbatim>\<open>config.h\<close> selects.\<close>

definition PTE_THEAD_DEVICE :: u64 where "PTE_THEAD_DEVICE = PTE_SO OR PTE_S"
definition PTE_THEAD_NORMAL :: u64 where "PTE_THEAD_NORMAL = PTE_C OR PTE_B OR PTE_S"
definition PTE_THEAD_NORMAL_NC :: u64 where "PTE_THEAD_NORMAL_NC = PTE_B OR PTE_S"
definition PTE_DEVICE :: u64 where "PTE_DEVICE = PTE_R OR PTE_W OR PTE_THEAD_DEVICE"
definition PTE_EXEC :: u64 where "PTE_EXEC = PTE_R OR PTE_X OR PTE_THEAD_NORMAL"
definition PTE_RO :: u64 where "PTE_RO = PTE_R OR PTE_THEAD_NORMAL"
definition PTE_NORMAL :: u64 where "PTE_NORMAL = PTE_RO OR PTE_W"

definition PTE_HIGH :: u64 where "PTE_HIGH = push_bit 59 31"
definition PA2PTE :: "u64 \<Rightarrow> u64" where "PA2PTE pa = push_bit 10 (drop_bit 12 pa)"
definition PTE2PA :: "u64 \<Rightarrow> u64" where "PTE2PA pte = push_bit 12 (drop_bit 10 (pte AND NOT PTE_HIGH))"
definition PTE_FLAGS :: "u64 \<Rightarrow> u64" where "PTE_FLAGS pte = pte AND (0x3ff OR PTE_HIGH)"
definition PX :: "nat \<Rightarrow> u64 \<Rightarrow> u64" where "PX level va = drop_bit (12 + 9 * level) va AND 0x1ff"

definition MAXVA :: u64 where "MAXVA = push_bit 38 1"
definition TRAMPOLINE :: u64 where "TRAMPOLINE = MAXVA - PGSIZE"
definition TRAPFRAME :: u64 where "TRAPFRAME = TRAMPOLINE - PGSIZE"
definition USERTOP :: u64 where "USERTOP = TRAPFRAME - PGSIZE"
definition STACKPAGE :: u64 where "STACKPAGE = 16"
definition STACKBASE :: u64 where "STACKBASE = USERTOP - STACKPAGE * PGSIZE"
definition MMAPBASE :: u64 where "MMAPBASE = 0x2000000000"

text \<open>Loads and stores of a page table entry, and clearing a page.\<close>

definition ld64 :: "u64 \<Rightarrow> 'a vm_scheme \<Rightarrow> u64" where "ld64 a s = get64 (ram s) (unat a)"
definition st64 :: "u64 \<Rightarrow> u64 \<Rightarrow> 'a vm_scheme \<Rightarrow> 'a vm_scheme" where "st64 a v s = s\<lparr>ram := put64 v (unat a) (ram s)\<rparr>"
definition zero_at :: "u64 \<Rightarrow> 'a vm_scheme \<Rightarrow> 'a vm_scheme" where
  "zero_at a s = s\<lparr>ram := memset (ram s) (unat a) 0 (unat PGSIZE)\<rparr>"
definition move_at :: "u64 \<Rightarrow> u64 \<Rightarrow> u64 \<Rightarrow> 'a vm_scheme \<Rightarrow> 'a vm_scheme" where
  "move_at dst src n s = s\<lparr>ram := memmove (ram s) (unat dst) (unat src) (unat n)\<rparr>"

section \<open>Walking and mapping\<close>

primrec walk_levels :: "nat \<Rightarrow> u64 \<Rightarrow> u64 \<Rightarrow> bool \<Rightarrow> 'a vm_scheme \<Rightarrow> (u64 \<times> 'a vm_scheme) option" where
  "walk_levels 0 pt va alloc s = Some (pt + 8 * PX 0 va, s)"
| "walk_levels (Suc l) pt va alloc s =
     (let pte = pt + 8 * PX (Suc l) va in
      if ld64 pte s AND PTE_V \<noteq> 0 then walk_levels l (PTE2PA (ld64 pte s)) va alloc s
      else if \<not> alloc then Some (0, s)
      else do {
        (m, s) \<leftarrow> kalloc s;
        let new = of_nat m;
        if new = 0 then Some (0, s)
        else do {
          let s = zero_at new s;
          let s = st64 pte (PA2PTE new OR PTE_V) s;
          walk_levels l new va alloc s
        }
      })"

definition walk :: "u64 \<Rightarrow> u64 \<Rightarrow> bool \<Rightarrow> 'a vm_scheme \<Rightarrow> (u64 \<times> 'a vm_scheme) option" where
  "walk pt va alloc s = (if va \<ge> MAXVA then None else walk_levels 2 pt va alloc s)"

definition walkaddr :: "u64 \<Rightarrow> u64 \<Rightarrow> 'a vm_scheme \<Rightarrow> u64 option" where
  "walkaddr pt va s =
     (if va \<ge> MAXVA then Some 0
      else do {
        (pte, s) \<leftarrow> walk pt va False s;
        if pte = 0 then Some 0
        else if ld64 pte s AND PTE_V = 0 then Some 0
        else if ld64 pte s AND PTE_U = 0 then Some 0
        else Some (PTE2PA (ld64 pte s))
      })"

partial_function (option) mappages_loop :: "u64 \<Rightarrow> u64 \<Rightarrow> u64 \<Rightarrow> u64 \<Rightarrow> u64 \<Rightarrow> 'a vm_scheme \<Rightarrow> (int \<times> 'a vm_scheme) option" where
  "mappages_loop pt a lst pa perm s = do {
     (pte, s) \<leftarrow> walk pt a True s;
     if pte = 0 then Some (-1, s)
     else if ld64 pte s AND PTE_V \<noteq> 0 then None
     else do {
       let s = st64 pte (PA2PTE pa OR perm OR PTE_V OR PTE_A OR PTE_D) s;
       if a = lst then Some (0, s)
       else mappages_loop pt (a + PGSIZE) lst (pa + PGSIZE) perm s
     }
   }"

definition mappages :: "u64 \<Rightarrow> u64 \<Rightarrow> u64 \<Rightarrow> u64 \<Rightarrow> u64 \<Rightarrow> 'a vm_scheme \<Rightarrow> (int \<times> 'a vm_scheme) option" where
  "mappages pt va sz pa perm s =
     (if sz = 0 then None else mappages_loop pt (PGROUNDDOWN va) (PGROUNDDOWN (va + sz - 1)) pa perm s)"

definition kvmmap :: "u64 \<Rightarrow> u64 \<Rightarrow> u64 \<Rightarrow> u64 \<Rightarrow> u64 \<Rightarrow> 'a vm_scheme \<Rightarrow> 'a vm_scheme option" where
  "kvmmap kpt va pa sz perm s = do { (r, s) \<leftarrow> mappages kpt va sz pa perm s; if r \<noteq> 0 then None else Some s }"

partial_function (option) uvmunmap_loop :: "u64 \<Rightarrow> u64 \<Rightarrow> u64 \<Rightarrow> bool \<Rightarrow> 'a vm_scheme \<Rightarrow> 'a vm_scheme option" where
  "uvmunmap_loop pt a stop do_free s =
     (if a < stop then do {
        (pte, s) \<leftarrow> walk pt a False s;
        if pte = 0 then uvmunmap_loop pt (a + PGSIZE) stop do_free s
        else if ld64 pte s AND PTE_V = 0 then uvmunmap_loop pt (a + PGSIZE) stop do_free s
        else if PTE_FLAGS (ld64 pte s) AND 0x3ff = PTE_V then None
        else do {
          s \<leftarrow> (if do_free then kfree (unat (PTE2PA (ld64 pte s))) s else Some s);
          let s = st64 pte 0 s;
          uvmunmap_loop pt (a + PGSIZE) stop do_free s
        }
      } else Some s)"

definition uvmunmap :: "u64 \<Rightarrow> u64 \<Rightarrow> u64 \<Rightarrow> bool \<Rightarrow> 'a vm_scheme \<Rightarrow> 'a vm_scheme option" where
  "uvmunmap pt va npages do_free s =
     (if va mod PGSIZE \<noteq> 0 then None else uvmunmap_loop pt va (va + npages * PGSIZE) do_free s)"

section \<open>User memory\<close>

definition uvmcreate :: "'a vm_scheme \<Rightarrow> (u64 \<times> 'a vm_scheme) option" where
  "uvmcreate s = do {
     (m, s) \<leftarrow> kalloc s;
     let pt = of_nat m;
     if pt = 0 then Some (0, s) else Some (pt, zero_at pt s)
   }"

definition uvmfirst :: "u64 \<Rightarrow> u64 \<Rightarrow> u32 \<Rightarrow> 'a vm_scheme \<Rightarrow> 'a vm_scheme option" where
  "uvmfirst pt src sz s =
     (if ucast sz \<ge> PGSIZE then None
      else do {
        (m, s) \<leftarrow> kalloc s;
        let mem = of_nat m;
        let s = zero_at mem s;
        (_, s) \<leftarrow> mappages pt 0 PGSIZE mem (PTE_NORMAL OR PTE_X OR PTE_U) s;
        Some (move_at mem src (ucast sz) s)
      })"

text \<open>The number of pages passes through an \<^verbatim>\<open>int\<close>.\<close>

definition uvmdealloc :: "u64 \<Rightarrow> u64 \<Rightarrow> u64 \<Rightarrow> 'a vm_scheme \<Rightarrow> (u64 \<times> 'a vm_scheme) option" where
  "uvmdealloc pt oldsz newsz s =
     (if newsz \<ge> oldsz then Some (oldsz, s)
      else if PGROUNDUP newsz < PGROUNDUP oldsz then do {
        let npages = (ucast ((PGROUNDUP oldsz - PGROUNDUP newsz) div PGSIZE) :: u32);
        s \<leftarrow> uvmunmap pt (PGROUNDUP newsz) (scast npages) True s;
        Some (newsz, s)
      }
      else Some (newsz, s))"

partial_function (option) uvmalloc_loop :: "u64 \<Rightarrow> u64 \<Rightarrow> u64 \<Rightarrow> u64 \<Rightarrow> u64 \<Rightarrow> 'a vm_scheme \<Rightarrow> (u64 \<times> 'a vm_scheme) option" where
  "uvmalloc_loop pt a oldsz newsz xperm s =
     (if a < newsz then do {
        (m, s) \<leftarrow> kalloc s;
        let mem = of_nat m;
        if mem = 0 then do { (_, s) \<leftarrow> uvmdealloc pt a oldsz s; Some (0, s) }
        else do {
          let s = zero_at mem s;
          (r, s) \<leftarrow> mappages pt a PGSIZE mem (PTE_RO OR PTE_U OR xperm) s;
          if r \<noteq> 0 then do {
            s \<leftarrow> kfree (unat mem) s;
            (_, s) \<leftarrow> uvmdealloc pt a oldsz s;
            Some (0, s)
          }
          else uvmalloc_loop pt (a + PGSIZE) oldsz newsz xperm s
        }
      } else Some (newsz, s))"

definition uvmalloc :: "u64 \<Rightarrow> u64 \<Rightarrow> u64 \<Rightarrow> u64 \<Rightarrow> 'a vm_scheme \<Rightarrow> (u64 \<times> 'a vm_scheme) option" where
  "uvmalloc pt oldsz newsz xperm s =
     (if newsz < oldsz then Some (oldsz, s)
      else let oldsz = PGROUNDUP oldsz in uvmalloc_loop pt oldsz oldsz newsz xperm s)"

text \<open>\<^verbatim>\<open>freewalk\<close> from entry \<open>i\<close> of a table on: a table below is freed whole, then its entry cleared.\<close>

partial_function (option) freewalk_from :: "u64 \<Rightarrow> nat \<Rightarrow> 'a vm_scheme \<Rightarrow> 'a vm_scheme option" where
  "freewalk_from pt i s =
     (if i < 512 then
        (let pte = ld64 (pt + 8 * of_nat i) s in
         if pte AND PTE_V \<noteq> 0 \<and> pte AND (PTE_R OR PTE_W OR PTE_X) = 0 then do {
           s \<leftarrow> freewalk_from (PTE2PA pte) 0 s;
           freewalk_from pt (i + 1) (st64 (pt + 8 * of_nat i) 0 s)
         }
         else if pte AND PTE_V \<noteq> 0 then None
         else freewalk_from pt (i + 1) s)
      else kfree (unat pt) s)"

definition freewalk :: "u64 \<Rightarrow> 'a vm_scheme \<Rightarrow> 'a vm_scheme option" where
  "freewalk pt s = freewalk_from pt 0 s"

definition uvmfree :: "u64 \<Rightarrow> u64 \<Rightarrow> 'a vm_scheme \<Rightarrow> 'a vm_scheme option" where
  "uvmfree pt sz s = do {
     s \<leftarrow> (if sz > 0 then uvmunmap pt 0 (PGROUNDUP sz div PGSIZE) True s else Some s);
     freewalk pt s
   }"

definition uvmclear :: "u64 \<Rightarrow> u64 \<Rightarrow> 'a vm_scheme \<Rightarrow> 'a vm_scheme option" where
  "uvmclear pt va s = do {
     (pte, s) \<leftarrow> walk pt va False s;
     if pte = 0 then None else Some (st64 pte (ld64 pte s AND NOT PTE_U) s)
   }"

section \<open>Copy on write and copies between user and kernel\<close>

definition alloc_cow_page :: "u64 \<Rightarrow> u64 \<Rightarrow> 'a vm_scheme \<Rightarrow> (int \<times> 'a vm_scheme) option" where
  "alloc_cow_page pt va s =
     (if va \<ge> MAXVA then Some (-1, s)
      else do {
        (pte, s) \<leftarrow> walk pt va False s;
        if pte = 0 \<or> ld64 pte s AND PTE_V = 0 \<or> ld64 pte s AND PTE_U = 0 then Some (1, s)
        else if ld64 pte s AND PTE_COW = 0 \<and> ld64 pte s AND PTE_W = 0 then Some (-1, s)
        else if ld64 pte s AND PTE_W \<noteq> 0 \<or> ld64 pte s AND PTE_COW = 0 then Some (1, s)
        else do {
          let flags = PTE_FLAGS (ld64 pte s);
          let pa = PTE2PA (ld64 pte s);
          let va0 = PGROUNDDOWN va;
          refcnt \<leftarrow> page_refcnt_get (unat pa) s;
          if refcnt > 1 then do {
            (m, s) \<leftarrow> kalloc s;
            let mem = of_nat m;
            if mem = 0 then Some (-1, s)
            else do {
              let s = move_at mem pa PGSIZE s;
              s \<leftarrow> uvmunmap pt va0 1 True s;
              let flags = (flags AND NOT PTE_COW) OR PTE_W;
              (r, s) \<leftarrow> mappages pt va0 PGSIZE mem flags s;
              if r \<noteq> 0 then do { s \<leftarrow> kfree (unat mem) s; Some (-1, s) } else Some (0, s)
            }
          }
          else if refcnt = 1 then do {
            let s = st64 pte (ld64 pte s OR PTE_W) s;
            let s = st64 pte (ld64 pte s AND NOT PTE_C) s;
            Some (0, s)
          }
          else Some (-1, s)
        }
      })"

text \<open>The part of a transfer of \<open>len\<close> bytes at \<open>va\<close> that lies in the page of \<open>va\<close>.\<close>

definition page_part :: "u64 \<Rightarrow> u64 \<Rightarrow> u64" where
  "page_part va len = (let n = PGSIZE - (va - PGROUNDDOWN va) in if n > len then len else n)"

lemma PGROUNDDOWN_eq: "PGROUNDDOWN a = a - take_bit 12 a"
proof -
  have "PGSIZE - 1 = Bit_Operations.mask 12" by (simp add: PGSIZE_def mask_eq_exp_minus_1)
  moreover have "a AND NOT (Bit_Operations.mask 12) = a - take_bit 12 a"
  proof -
    have "NOT a AND take_bit 12 a = 0" by (rule bit_word_eqI) (simp add: bit_simps)
    then have "a - take_bit 12 a = a AND NOT (take_bit 12 a)" by (rule disjunctive_diff_eq_and_not)
    also have "\<dots> = a AND NOT (Bit_Operations.mask 12)" by (rule bit_word_eqI) (auto simp: bit_simps)
    finally show ?thesis by simp
  qed
  ultimately show ?thesis by (simp add: PGROUNDDOWN_def)
qed

lemma page_off: "a - PGROUNDDOWN a = take_bit 12 a" "unat (take_bit 12 a) = unat a mod 4096"
  by (simp_all add: PGROUNDDOWN_eq unsigned_take_bit_eq take_bit_nat_def flip: take_bit_eq_mod)

lemma page_part_pos: "0 < len \<Longrightarrow> 0 < page_part va len \<and> page_part va len \<le> len"
proof -
  have "unat (va - PGROUNDDOWN va) < 4096" by (simp add: page_off)
  then have "0 < PGSIZE - (va - PGROUNDDOWN va)" by (simp add: PGSIZE_def word_less_nat_alt unat_sub word_le_nat_alt)
  then show "0 < len \<Longrightarrow> 0 < page_part va len \<and> page_part va len \<le> len" by (auto simp: page_part_def Let_def not_less)
qed

function copyout :: "u64 \<Rightarrow> u64 \<Rightarrow> u64 \<Rightarrow> u64 \<Rightarrow> 'a vm_scheme \<Rightarrow> (int \<times> 'a vm_scheme) option" where
  "copyout pt dstva src len s =
     (if len > 0 then do {
        let va0 = PGROUNDDOWN dstva;
        (ret, s) \<leftarrow> alloc_cow_page pt va0 s;
        if ret < 0 then Some (-1, s)
        else do {
          pa0 \<leftarrow> walkaddr pt va0 s;
          if pa0 = 0 then Some (-1, s)
          else do {
            let n = page_part dstva len;
            let s = move_at (pa0 + (dstva - va0)) src n s;
            copyout pt (va0 + PGSIZE) (src + n) (len - n) s
          }
        }
      } else Some (0, s))"
  by pat_completeness auto
termination
  by (relation "measure (\<lambda>(pt, dstva, src, len, s). unat len)") (use page_part_pos in \<open>auto simp: word_less_nat_alt unat_sub word_le_nat_alt\<close>)

function copyin :: "u64 \<Rightarrow> u64 \<Rightarrow> u64 \<Rightarrow> u64 \<Rightarrow> 'a vm_scheme \<Rightarrow> (int \<times> 'a vm_scheme) option" where
  "copyin pt dst srcva len s =
     (if len > 0 then do {
        let va0 = PGROUNDDOWN srcva;
        pa0 \<leftarrow> walkaddr pt va0 s;
        if pa0 = 0 then Some (-1, s)
        else do {
          let n = page_part srcva len;
          let s = move_at dst (pa0 + (srcva - va0)) n s;
          copyin pt (dst + n) (va0 + PGSIZE) (len - n) s
        }
      } else Some (0, s))"
  by pat_completeness auto
termination
  by (relation "measure (\<lambda>(pt, dst, srcva, len, s). unat len)") (use page_part_pos in \<open>auto simp: word_less_nat_alt unat_sub word_le_nat_alt\<close>)

text \<open>The inner loop of \<^verbatim>\<open>copyinstr\<close>: at most \<open>n\<close> bytes, up to and with a NUL.\<close>

primrec copyinstr_page :: "nat \<Rightarrow> nat \<Rightarrow> nat \<Rightarrow> memory \<Rightarrow> bool \<times> memory" where
  "copyinstr_page 0 dst p m = (False, m)"
| "copyinstr_page (Suc n) dst p m = (if m p = 0 then (True, m(dst := 0)) else copyinstr_page n (dst + 1) (p + 1) (m(dst := m p)))"

function copyinstr_loop :: "u64 \<Rightarrow> u64 \<Rightarrow> u64 \<Rightarrow> u64 \<Rightarrow> 'a vm_scheme \<Rightarrow> (int \<times> 'a vm_scheme) option" where
  "copyinstr_loop pt dst srcva mx s =
     (if mx > 0 then do {
        let va0 = PGROUNDDOWN srcva;
        pa0 \<leftarrow> walkaddr pt va0 s;
        if pa0 = 0 then Some (-1, s)
        else do {
          let n = page_part srcva mx;
          let (got_null, m) = copyinstr_page (unat n) (unat dst) (unat (pa0 + (srcva - va0))) (ram s);
          let s = s\<lparr>ram := m\<rparr>;
          if got_null then Some (0, s)
          else copyinstr_loop pt (dst + n) (va0 + PGSIZE) (mx - n) s
        }
      } else Some (-1, s))"
  by pat_completeness auto
termination
  by (relation "measure (\<lambda>(pt, dst, srcva, mx, s). unat mx)") (use page_part_pos in \<open>auto simp: word_less_nat_alt unat_sub word_le_nat_alt\<close>)

declare copyout.simps [simp del] copyin.simps [simp del] copyinstr_loop.simps [simp del]

definition copyinstr :: "u64 \<Rightarrow> u64 \<Rightarrow> u64 \<Rightarrow> u64 \<Rightarrow> 'a vm_scheme \<Rightarrow> (int \<times> 'a vm_scheme) option" where
  "copyinstr pt dst srcva mx s =
     (if srcva = 0 then Some (0, s\<lparr>ram := (ram s)(unat dst := 0)\<rparr>) else copyinstr_loop pt dst srcva mx s)"

end
