(* ===== verification/Proc.thy ===== *)
theory Proc
  imports Signal Cred Vm
begin

text \<open>
  The process table of \<^verbatim>\<open>kernel/proc.c\<close>: scheduling, sleep and wakeup, signals and process groups, and the
  system calls of \<^verbatim>\<open>kernel/sysproc.c\<close> and \<^verbatim>\<open>kernel/syscall.c\<close> on top of them.

  A process is the record \<open>proc\<close>, an extension of the identities of \<^verbatim>\<open>Cred\<close>; a pointer to a process is its
  index in the table. \<open>curproc\<close> is \<^verbatim>\<open>mycpu()->proc\<close>: the kernel runs on one hart (\<^verbatim>\<open>cpuid\<close> returns 0).
  User memory, page tables and trap frames are in the memory \<open>ram\<close> of \<^verbatim>\<open>Vm\<close>. A pointer to an object of
  the kernel stack or to a field of the table that \<^verbatim>\<open>copyin\<close> or \<^verbatim>\<open>copyout\<close> gets is an argument of the
  definition: the address the object has.

  A process that calls \<^verbatim>\<open>sched\<close> gives the hart to the scheduler and continues where it was when it is
  chosen again. What it has left to do is the saved context, here the value \<open>p_kont\<close>. An operation that
  may switch returns \<open>Ret r s\<close> when it ran to its end with result \<open>r\<close>, and \<open>Away s\<close> when the process has
  switched away and the scheduler goes on in state \<open>s\<close>.
\<close>

unbundle bit_operations_syntax

section \<open>Data\<close>

datatype procstate = UNUSED | USED | SLEEPING | RUNNABLE | RUNNING | ZOMBIE

text \<open>The processes a signal goes to, and what is left of a call after a sleep.\<close>

datatype target = To_group u32 | To_others | To_pid u32

datatype kcont =
    C_caller
  | C_stop nat int "(target \<times> nat list) option"
  | C_suspend sigset
  | C_ppoll u64 u64 sigset

datatype kont = K_forkret | K_yield | K_sleep lockid kcont | K_exit

record mmap_region =
  mr_addr :: u64
  mr_length :: u64
  mr_offset :: u64
  mr_file :: "nat option"
  mr_prot :: u32
  mr_flags :: u32
  mr_obj :: nat

record proc = cred +
  p_state :: procstate
  p_chan :: "chan option"
  p_killed :: u32
  p_paused :: u32
  p_xstate :: u32
  p_pid :: u32
  p_pgid :: u32
  p_sid :: u32
  p_parent :: "nat option"
  p_sz :: u64
  p_pagetable :: u64
  p_trapframe :: u64
  p_oldtf :: u64
  p_kont :: kont
  p_regions :: "mmap_region list"
  p_signal :: signal

record kern = vm +
  procs :: "nat \<Rightarrow> proc"
  curproc :: "nat option"
  nextpid :: u32
  initproc :: nat

datatype 's run = Ret int 's | Away 's

definition NPROC :: nat where "NPROC = 64"

abbreviation (input) EINTR :: int where "EINTR \<equiv> 4"

definition upd_proc :: "nat \<Rightarrow> (proc \<Rightarrow> proc) \<Rightarrow> 'a kern_scheme \<Rightarrow> 'a kern_scheme" where
  "upd_proc p f s = s\<lparr>procs := (procs s)(p := f (procs s p))\<rparr>"

section \<open>Scheduling\<close>

definition allocpid :: "'a kern_scheme \<Rightarrow> (u32 \<times> 'a kern_scheme) option" where
  "allocpid s = do {
     s \<leftarrow> k_acquire L_pid s;
     let pid = nextpid s;
     let s = s\<lparr>nextpid := nextpid s + 1\<rparr>;
     s \<leftarrow> k_release L_pid s;
     Some (pid, s)
   }"

text \<open>
  \<^verbatim>\<open>sched\<close> up to its \<^verbatim>\<open>swtch\<close>. Every lock held counts once in \<^verbatim>\<open>noff\<close>, and interrupts are off while a lock
  is held.
\<close>

definition sched :: "kont \<Rightarrow> 'a kern_scheme \<Rightarrow> 'a kern_scheme option" where
  "sched k s = do {
     p \<leftarrow> curproc s;
     if L_proc p \<notin> held s then None
     else if held s \<noteq> {L_proc p} then None
     else if p_state (procs s p) = RUNNING then None
     else Some (upd_proc p (\<lambda>q. q\<lparr>p_kont := k\<rparr>) s)
   }"

text \<open>
  The scheduler: \<open>scheduler_scan\<close> is the loop over the table until a process is chosen, which then has
  the hart and holds its lock, and \<open>scheduler_back\<close> the rest of the loop body, when that process has
  switched back.
\<close>

primrec scheduler_scan :: "nat list \<Rightarrow> 'a kern_scheme \<Rightarrow> (nat option \<times> 'a kern_scheme) option" where
  "scheduler_scan [] s = Some (None, s)"
| "scheduler_scan (p # ps) s = do {
     s \<leftarrow> k_acquire (L_proc p) s;
     if p_state (procs s p) = RUNNABLE then Some (Some p, (upd_proc p (\<lambda>q. q\<lparr>p_state := RUNNING\<rparr>) s)\<lparr>curproc := Some p\<rparr>)
     else do { s \<leftarrow> k_release (L_proc p) s; scheduler_scan ps s }
   }"

definition scheduler_from :: "nat \<Rightarrow> 'a kern_scheme \<Rightarrow> (nat option \<times> 'a kern_scheme) option" where
  "scheduler_from i s = scheduler_scan [i..<NPROC] s"

definition scheduler_back :: "'a kern_scheme \<Rightarrow> 'a kern_scheme option" where
  "scheduler_back s = do {
     p \<leftarrow> curproc s;
     k_release (L_proc p) (s\<lparr>curproc := None\<rparr>)
   }"

definition yield :: "'a kern_scheme \<Rightarrow> 'a kern_scheme run option" where
  "yield s = do {
     p \<leftarrow> curproc s;
     s \<leftarrow> k_acquire (L_proc p) s;
     let s = upd_proc p (\<lambda>q. q\<lparr>p_state := RUNNABLE\<rparr>) s;
     s \<leftarrow> sched K_yield s;
     s \<leftarrow> scheduler_back s;
     Some (Away s)
   }"

definition sleep :: "chan \<Rightarrow> lockid \<Rightarrow> kcont \<Rightarrow> 'a kern_scheme \<Rightarrow> 'a kern_scheme run option" where
  "sleep ch lk c s = do {
     p \<leftarrow> curproc s;
     s \<leftarrow> k_acquire (L_proc p) s;
     s \<leftarrow> k_release lk s;
     let s = upd_proc p (\<lambda>q. q\<lparr>p_chan := Some ch\<rparr>) s;
     let s = upd_proc p (\<lambda>q. q\<lparr>p_state := SLEEPING\<rparr>) s;
     s \<leftarrow> sched (K_sleep lk c) s;
     s \<leftarrow> scheduler_back s;
     Some (Away s)
   }"

primrec wakeup_loop :: "chan \<Rightarrow> nat list \<Rightarrow> 'a kern_scheme \<Rightarrow> 'a kern_scheme option" where
  "wakeup_loop ch [] s = Some s"
| "wakeup_loop ch (p # ps) s = do {
     s \<leftarrow> (if curproc s \<noteq> Some p then do {
             s \<leftarrow> k_acquire (L_proc p) s;
             let s = (if p_state (procs s p) = SLEEPING \<and> p_chan (procs s p) = Some ch
                      then upd_proc p (\<lambda>q. q\<lparr>p_state := RUNNABLE\<rparr>) s else s);
             k_release (L_proc p) s
           } else Some s);
     wakeup_loop ch ps s
   }"

definition wakeup :: "chan \<Rightarrow> 'a kern_scheme \<Rightarrow> 'a kern_scheme option" where
  "wakeup ch s = wakeup_loop ch [0..<NPROC] s"

text \<open>Children of a process that exits.\<close>

primrec reparent_loop :: "nat \<Rightarrow> nat list \<Rightarrow> 'a kern_scheme \<Rightarrow> 'a kern_scheme option" where
  "reparent_loop p [] s = Some s"
| "reparent_loop p (pp # pps) s = do {
     s \<leftarrow> (if p_parent (procs s pp) = Some p then wakeup (Ch_proc (initproc s)) (upd_proc pp (\<lambda>q. q\<lparr>p_parent := Some (initproc s)\<rparr>) s) else Some s);
     reparent_loop p pps s
   }"

definition reparent :: "nat \<Rightarrow> 'a kern_scheme \<Rightarrow> 'a kern_scheme option" where
  "reparent p s = reparent_loop p [0..<NPROC] s"

definition setkilled :: "nat \<Rightarrow> 'a kern_scheme \<Rightarrow> 'a kern_scheme option" where
  "setkilled p s = do {
     s \<leftarrow> k_acquire (L_proc p) s;
     let s = upd_proc p (\<lambda>q. q\<lparr>p_killed := 1\<rparr>) s;
     k_release (L_proc p) s
   }"

definition killed :: "nat \<Rightarrow> 'a kern_scheme \<Rightarrow> (u32 \<times> 'a kern_scheme) option" where
  "killed p s = do {
     s \<leftarrow> k_acquire (L_proc p) s;
     let k = p_killed (procs s p);
     s \<leftarrow> k_release (L_proc p) s;
     Some (k, s)
   }"

section \<open>Signals\<close>

definition upd_signal :: "nat \<Rightarrow> (signal \<Rightarrow> signal) \<Rightarrow> 'a kern_scheme \<Rightarrow> 'a kern_scheme" where
  "upd_signal p f s = upd_proc p (\<lambda>q. q\<lparr>p_signal := f (p_signal q)\<rparr>) s"

definition term_handler :: "nat \<Rightarrow> 'a kern_scheme \<Rightarrow> 'a kern_scheme option" where
  "term_handler p s = do {
     s \<leftarrow> k_acquire (L_proc p) s;
     let s = upd_proc p (\<lambda>q. q\<lparr>p_killed := 1\<rparr>) s;
     let s = (if p_state (procs s p) = SLEEPING then upd_proc p (\<lambda>q. q\<lparr>p_state := RUNNABLE\<rparr>) s else s);
     k_release (L_proc p) s
   }"

definition cont_handler :: "nat \<Rightarrow> 'a kern_scheme \<Rightarrow> 'a kern_scheme option" where
  "cont_handler p s = wakeup (Ch_proc p) s"

text \<open>\<^verbatim>\<open>sleep\<close> puts the calling process to sleep, which need not be \<open>p\<close>.\<close>

definition stop_handler :: "nat \<Rightarrow> kcont \<Rightarrow> 'a kern_scheme \<Rightarrow> 'a kern_scheme run option" where
  "stop_handler p c s = do {
     s \<leftarrow> k_acquire L_q s;
     sleep (Ch_proc p) L_q c s
   }"

definition user_handler :: "nat \<Rightarrow> int \<Rightarrow> 'a kern_scheme \<Rightarrow> 'a kern_scheme" where
  "user_handler p sig s = st64 (p_trapframe (procs s p) + 24) (sa_handler (sg_actions (p_signal (procs s p)) (nat sig))) s"

text \<open>The end of \<^verbatim>\<open>handle_signal\<close>: the signal is no longer pending.\<close>

definition clear_pending :: "nat \<Rightarrow> int \<Rightarrow> 'a kern_scheme \<Rightarrow> 'a kern_scheme option" where
  "clear_pending p sig s = do {
     s \<leftarrow> k_acquire L_siglock s;
     let s = upd_signal p (\<lambda>g. g\<lparr>sg_pending := snd (sigdelset sig (sg_pending g))\<rparr>) s;
     k_release L_siglock s
   }"

definition stop_signals :: "int list" where
  "stop_signals = [SIGSTOP, SIGTSTP, SIGTTIN, SIGTTOU]"

definition term_signals :: "int list" where
  "term_signals = [SIGABRT, SIGBUS, SIGFPE, SIGILL, SIGQUIT, SIGSEGV, SIGSYS, SIGTRAP, SIGXCPU, SIGXFSZ,
     SIGALRM, SIGHUP, SIGINT, SIGIO, SIGKILL, SIGPIPE, SIGPROF, SIGPWR, SIGTERM, SIGSTKFLT, SIGUSR1, SIGUSR2, SIGVTALRM]"

definition handle_signal :: "nat \<Rightarrow> int \<Rightarrow> (target \<times> nat list) option \<Rightarrow> 'a kern_scheme \<Rightarrow> 'a kern_scheme run option" where
  "handle_signal p sig rest s =
     (if sig = 0 then Some (Ret 0 s)
      else let h = sa_handler (sg_actions (p_signal (procs s p)) (nat sig))
           in if h = SIG_DFL \<and> sig \<in> set stop_signals then stop_handler p (C_stop p sig rest) s
              else do {
                s \<leftarrow> (if h = SIG_IGN then Some s
                      else if h = SIG_DFL then
                        (if sig = SIGCONT then cont_handler p s
                         else if sig \<in> set term_signals then
                           term_handler p (upd_proc p (\<lambda>q. q\<lparr>p_xstate := word_of_int sig AND 0x7f\<rparr>) s)
                         else Some s)
                      else Some (user_handler p sig s));
                s \<leftarrow> clear_pending p sig s;
                Some (Ret 0 s)
              })"

definition send_signal :: "nat \<Rightarrow> int \<Rightarrow> (target \<times> nat list) option \<Rightarrow> 'a kern_scheme \<Rightarrow> 'a kern_scheme run option" where
  "send_signal p sig rest s =
     (let s = (if sig = SIGKILL then upd_proc p (\<lambda>q. q\<lparr>p_killed := 1\<rparr>) s
               else if sigismember sig (sg_pending (p_signal (procs s p))) = 0
               then upd_signal p (\<lambda>g. g\<lparr>sg_pending := snd (sigaddset sig (sg_pending g))\<rparr>) s else s)
      in if p_state (procs s p) = SLEEPING then
           (if p_paused (procs s p) = 1 \<and> (sig = SIGTERM \<or> sig = SIGINT \<or> sig = SIGKILL)
            then handle_signal p SIGCONT rest (upd_proc p (\<lambda>q. q\<lparr>p_paused := 0\<rparr>) s)
            else if p_paused (procs s p) = 0 \<and> p_killed (procs s p) \<noteq> 1 then handle_signal p sig rest s
            else Some (Ret 0 s))
         else Some (Ret 0 s))"

definition selects :: "target \<Rightarrow> nat \<Rightarrow> 'a kern_scheme \<Rightarrow> bool" where
  "selects t p s = (case t of
     To_group g \<Rightarrow> p_pgid (procs s p) = g
   | To_others \<Rightarrow> 1 <s p_pid (procs s p) \<and> curproc s \<noteq> Some p
   | To_pid n \<Rightarrow> p_pid (procs s p) = n)"

primrec kill_loop :: "target \<Rightarrow> int \<Rightarrow> nat list \<Rightarrow> int \<Rightarrow> 'a kern_scheme \<Rightarrow> 'a kern_scheme run option" where
  "kill_loop t sig [] err s = Some (Ret err s)"
| "kill_loop t sig (p # ps) err s =
     (if selects t p s then do {
        r \<leftarrow> send_signal p sig (Some (t, ps)) s;
        (case r of Ret _ s \<Rightarrow> kill_loop t sig ps 0 s | Away s \<Rightarrow> Some (Away s))
      } else kill_loop t sig ps err s)"

definition kill :: "u32 \<Rightarrow> int \<Rightarrow> 'a kern_scheme \<Rightarrow> 'a kern_scheme run option" where
  "kill pid sig s = do {
     cp \<leftarrow> curproc s;
     if pid = 0 \<or> pid <s -1 then
       (let pgid = (if pid = 0 then p_pgid (procs s cp) else - pid)
        in if 0 <s pgid then kill_loop (To_group pgid) sig [0..<NPROC] (- ESRCH) s else Some (Ret (- EINVAL) s))
     else if pid = -1 then kill_loop To_others sig [0..<NPROC] (- EINVAL) s
     else kill_loop (To_pid pid) sig [0..<NPROC] (- EINVAL) s
   }"

primrec first_pending :: "nat list \<Rightarrow> sigset \<Rightarrow> int option" where
  "first_pending [] st = None"
| "first_pending (i # is) st = (if sigismember (int i) st = 1 then Some (int i) else first_pending is st)"

definition check_pending_signal :: "'a kern_scheme \<Rightarrow> 'a kern_scheme run option" where
  "check_pending_signal s = do {
     p \<leftarrow> curproc s;
     (case first_pending [0..<nat NSIG] (sg_pending (p_signal (procs s p))) of
        None \<Rightarrow> Some (Ret 0 s)
      | Some sig \<Rightarrow> handle_signal p sig None s)
   }"

text \<open>\<^verbatim>\<open>ppoll\<close> fills in \<^verbatim>\<open>revents\<close> of every \<^verbatim>\<open>struct pollfd\<close>: 1 (POLLIN) for descriptor 0, 4 (POLLOUT) otherwise.\<close>

primrec poll_fds :: "nat list \<Rightarrow> nat \<Rightarrow> memory \<Rightarrow> memory" where
  "poll_fds [] fds m = m"
| "poll_fds (i # is) fds m = poll_fds is fds (put16 (if get32 m (fds + 8 * i) = 0 then 1 else 4) (fds + 8 * i + 6) m)"

definition ppoll_end :: "nat \<Rightarrow> u64 \<Rightarrow> u64 \<Rightarrow> sigset \<Rightarrow> 'a kern_scheme \<Rightarrow> 'a kern_scheme run option" where
  "ppoll_end p fds nfds origmask s =
     (if fds = 0 \<and> nfds > 0 then None
      else do {
        let s = s\<lparr>ram := poll_fds [0..<unat nfds] (unat fds) (ram s)\<rparr>;
        let s = upd_signal p (\<lambda>g. g\<lparr>sg_mask := snd (siginitset (sg_mask g) origmask)\<rparr>) s;
        s \<leftarrow> (if fds \<noteq> 0 then kfree (unat fds) s else Some s);
        Some (Ret (sint nfds) s)
      })"

definition ppoll :: "u64 \<Rightarrow> u64 \<Rightarrow> 'a kern_scheme \<Rightarrow> 'a kern_scheme run option" where
  "ppoll fds nfds s = do {
     p \<leftarrow> curproc s;
     let origmask = sg_mask (p_signal (procs s p));
     if fds = 0 then do {
       let s = upd_proc p (\<lambda>q. q\<lparr>p_paused := 1\<rparr>) s;
       s \<leftarrow> k_acquire L_q s;
       sleep (Ch_proc p) L_q (C_ppoll fds nfds origmask) s
     }
     else ppoll_end p fds nfds origmask s
   }"

definition sigsuspend :: "sigset \<Rightarrow> 'a kern_scheme \<Rightarrow> 'a kern_scheme run option" where
  "sigsuspend m s = do {
     p \<leftarrow> curproc s;
     s \<leftarrow> k_acquire L_siglock s;
     let s = upd_proc p (\<lambda>q. q\<lparr>p_paused := 1\<rparr>) s;
     let m = snd (sigdelset SIGKILL m);
     let m = snd (sigdelset SIGSTOP m);
     let oldmask = sg_mask (p_signal (procs s p));
     let s = upd_signal p (\<lambda>g. g\<lparr>sg_mask := snd (siginitset (sg_mask g) m)\<rparr>) s;
     s \<leftarrow> k_release L_siglock s;
     s \<leftarrow> k_acquire L_q s;
     sleep (Ch_proc p) L_q (C_suspend oldmask) s
   }"

text \<open>What a process does when the scheduler gives it the hart again.\<close>

definition continue :: "nat \<Rightarrow> kcont \<Rightarrow> 'a kern_scheme \<Rightarrow> 'a kern_scheme run option" where
  "continue p c s = (case c of
     C_caller \<Rightarrow> Some (Ret 0 s)
   | C_stop t sig rest \<Rightarrow> do {
       s \<leftarrow> k_release L_q s;
       s \<leftarrow> clear_pending t sig s;
       (case rest of None \<Rightarrow> Some (Ret 0 s) | Some (tg, ps) \<Rightarrow> kill_loop tg sig ps 0 s)
     }
   | C_suspend oldmask \<Rightarrow> do {
       s \<leftarrow> k_release L_q s;
       s \<leftarrow> k_acquire L_siglock s;
       let s = upd_signal p (\<lambda>g. g\<lparr>sg_mask := oldmask\<rparr>) s;
       s \<leftarrow> k_release L_siglock s;
       Some (Ret (- EINTR) s)
     }
   | C_ppoll fds nfds origmask \<Rightarrow> do { s \<leftarrow> k_release L_q s; ppoll_end p fds nfds origmask s })"

definition resume :: "'a kern_scheme \<Rightarrow> 'a kern_scheme run option" where
  "resume s = do {
     p \<leftarrow> curproc s;
     (case p_kont (procs s p) of
        K_forkret \<Rightarrow> do { s \<leftarrow> k_release (L_proc p) s; Some (Ret 0 s) }
      | K_yield \<Rightarrow> do { s \<leftarrow> k_release (L_proc p) s; Some (Ret 0 s) }
      | K_sleep lk c \<Rightarrow> do {
          let s = upd_proc p (\<lambda>q. q\<lparr>p_chan := None\<rparr>) s;
          s \<leftarrow> k_release (L_proc p) s;
          s \<leftarrow> k_acquire lk s;
          continue p c s
        }
      | K_exit \<Rightarrow> None)
   }"

end
