(* ===== verification/Proc_Call.thy ===== *)
theory Proc_Call
  imports Proc
begin

text \<open>
  The rest of \<^verbatim>\<open>kernel/proc.c\<close> that is modelled (signal actions and masks, process groups, user memory of a
  process), the region lookup of \<^verbatim>\<open>kernel/mmap.c\<close>, the fetching of system call arguments of
  \<^verbatim>\<open>kernel/syscall.c\<close> and the system calls of \<^verbatim>\<open>kernel/sysproc.c\<close> that use them.
\<close>

unbundle bit_operations_syntax

section \<open>Signal actions and masks\<close>

text \<open>
  A \<^verbatim>\<open>struct k_sigaction\<close> in memory has the handler at offset 0, the flags at 8 and the mask at 16, and is
  32 bytes long. \<open>act\<close> is the address of the new action, 0 for none, \<open>kact\<close> the address of the local
  variable \<^verbatim>\<open>kaction\<close>.
\<close>

definition get_action :: "nat \<Rightarrow> int \<Rightarrow> 'a kern_scheme \<Rightarrow> sigaction" where
  "get_action p sig s = sg_actions (p_signal (procs s p)) (nat sig)"

definition upd_action :: "nat \<Rightarrow> int \<Rightarrow> (sigaction \<Rightarrow> sigaction) \<Rightarrow> 'a kern_scheme \<Rightarrow> 'a kern_scheme" where
  "upd_action p sig f s = upd_signal p (\<lambda>g. g\<lparr>sg_actions := (sg_actions g)(nat sig := f (sg_actions g (nat sig)))\<rparr>) s"

definition sigaction_set :: "nat \<Rightarrow> int \<Rightarrow> u64 \<Rightarrow> 'a kern_scheme \<Rightarrow> 'a kern_scheme" where
  "sigaction_set p sig act s =
     (let s = upd_action p sig (\<lambda>a. a\<lparr>sa_handler := ld64 act s\<rparr>) s;
          s = upd_action p sig (\<lambda>a. a\<lparr>sa_flags := ucast (ld64 (act + 8) s)\<rparr>) s;
          s = upd_action p sig (\<lambda>a. a\<lparr>sa_mask := ld64 (act + 16) s\<rparr>) s;
          s = upd_signal p (\<lambda>g. g\<lparr>sg_mask := sa_mask (sg_actions g (nat sig))\<rparr>) s;
          s = upd_signal p (\<lambda>g. g\<lparr>sg_mask := snd (sigdelset SIGKILL (sg_mask g))\<rparr>) s
      in upd_signal p (\<lambda>g. g\<lparr>sg_mask := snd (sigdelset SIGSTOP (sg_mask g))\<rparr>) s)"

definition sigaction :: "int \<Rightarrow> u64 \<Rightarrow> u64 \<Rightarrow> u64 \<Rightarrow> 'a kern_scheme \<Rightarrow> (int \<times> 'a kern_scheme) option" where
  "sigaction sig act oldact kact s = do {
     s \<leftarrow> k_acquire L_siglock s;
     p \<leftarrow> curproc s;
     (r, s) \<leftarrow> (if oldact \<noteq> 0 then do {
         let a = get_action p sig s;
         let s = st64 kact (sa_handler a) s;
         let s = st64 (kact + 8) (scast (sa_flags a)) s;
         let s = st64 (kact + 16) (sa_mask a) s;
         copyout (p_pagetable (procs s p)) oldact kact 32 s
       } else Some (0, s));
     if r < 0 then Some (- EFAULT, s)
     else do {
       let s = (if act \<noteq> 0 then sigaction_set p sig act s else s);
       s \<leftarrow> k_release L_siglock s;
       Some (0, s)
     }
   }"

text \<open>\<open>pend\<close> and \<open>mk\<close> are the addresses of the fields \<^verbatim>\<open>pending\<close> and \<^verbatim>\<open>mask\<close> of the process.\<close>

definition sigpending :: "u64 \<Rightarrow> u64 \<Rightarrow> 'a kern_scheme \<Rightarrow> (int \<times> 'a kern_scheme) option" where
  "sigpending pending pend s = do {
     s \<leftarrow> k_acquire L_siglock s;
     p \<leftarrow> curproc s;
     let s = st64 pend (sg_pending (p_signal (procs s p))) s;
     (r, s) \<leftarrow> copyout (p_pagetable (procs s p)) pending pend 8 s;
     s \<leftarrow> k_release L_siglock s;
     Some (if r < 0 then - EFAULT else 0, s)
   }"

definition sigprocmask :: "int \<Rightarrow> sigset option \<Rightarrow> u64 \<Rightarrow> u64 \<Rightarrow> 'a kern_scheme \<Rightarrow> (int \<times> 'a kern_scheme) option" where
  "sigprocmask how st oldset mk s = do {
     s \<leftarrow> k_acquire L_siglock s;
     p \<leftarrow> curproc s;
     (r, s) \<leftarrow> (if oldset \<noteq> 0 then copyout (p_pagetable (procs s p)) oldset mk 8 (st64 mk (sg_mask (p_signal (procs s p))) s)
               else Some (0, s));
     if r < 0 then Some (- EFAULT, s)
     else do {
       let (ret, s) = (case st of None \<Rightarrow> (0, s)
         | Some w \<Rightarrow>
             if how = SIG_BLOCK then (0, upd_signal p (\<lambda>g. g\<lparr>sg_mask := snd (sigorset (sg_mask g) (sg_mask g) w)\<rparr>) s)
             else if how = SIG_UNBLOCK then
               (let w = snd (signotset w w) in (0, upd_signal p (\<lambda>g. g\<lparr>sg_mask := snd (sigandset (sg_mask g) (sg_mask g) w)\<rparr>) s))
             else if how = SIG_SETMASK then (0, upd_signal p (\<lambda>g. g\<lparr>sg_mask := snd (siginitset (sg_mask g) w)\<rparr>) s)
             else (- EINVAL, s));
       s \<leftarrow> k_release L_siglock s;
       Some (ret, s)
     }
   }"

definition sizeof_trapframe :: u64 where "sizeof_trapframe = 288"

definition sigreturn :: "'a kern_scheme \<Rightarrow> (int \<times> 'a kern_scheme) option" where
  "sigreturn s = do {
     p \<leftarrow> curproc s;
     Some (0, move_at (p_trapframe (procs s p)) (p_oldtf (procs s p)) sizeof_trapframe s)
   }"

definition flush_signal_handlers :: "nat \<Rightarrow> 'a kern_scheme \<Rightarrow> 'a kern_scheme option" where
  "flush_signal_handlers p s = do {
     let s = upd_signal p (\<lambda>g. g\<lparr>sg_actions := (\<lambda>i. let a = sg_actions g i in if i < nat NSIG
        then a\<lparr>sa_handler := (if sa_handler a \<noteq> SIG_IGN then SIG_DFL else sa_handler a), sa_flags := 0, sa_mask := snd (sigemptyset (sa_mask a))\<rparr>
        else a)\<rparr>) s;
     s \<leftarrow> k_acquire (L_proc p) s;
     let s = upd_proc p (\<lambda>q. q\<lparr>p_paused := 0\<rparr>) s;
     k_release (L_proc p) s
   }"

section \<open>Process groups\<close>

text \<open>A search of the table that takes and releases the lock of every process it looks at.\<close>

primrec scan_procs :: "(proc \<Rightarrow> bool) \<Rightarrow> nat list \<Rightarrow> 'a kern_scheme \<Rightarrow> (nat option \<times> 'a kern_scheme) option" where
  "scan_procs P [] s = Some (None, s)"
| "scan_procs P (p # ps) s = do {
     s \<leftarrow> k_acquire (L_proc p) s;
     if P (procs s p) then do { s \<leftarrow> k_release (L_proc p) s; Some (Some p, s) }
     else do { s \<leftarrow> k_release (L_proc p) s; scan_procs P ps s }
   }"

definition setpgid_end :: "nat \<Rightarrow> u32 \<Rightarrow> u32 \<Rightarrow> int \<Rightarrow> 'a kern_scheme \<Rightarrow> (int \<times> 'a kern_scheme) option" where
  "setpgid_end cp pid pgid err s = do {
     (ok, s) \<leftarrow> (if pgid \<noteq> pid then do {
         (pp, s) \<leftarrow> scan_procs (\<lambda>q. p_sid q = p_sid (procs s cp)) [0..<NPROC] s;
         Some (pp \<noteq> None, s)
       } else Some (True, s));
     if \<not> ok then Some (err, s)
     else do {
       let s = (if p_pgid (procs s cp) \<noteq> pgid then upd_proc cp (\<lambda>q. q\<lparr>p_pgid := pgid\<rparr>) s else s);
       Some (0, s)
     }
   }"

definition setpgid :: "u32 \<Rightarrow> u32 \<Rightarrow> 'a kern_scheme \<Rightarrow> (int \<times> 'a kern_scheme) option" where
  "setpgid pid pgid s = do {
     cp \<leftarrow> curproc s;
     let pid = (if pid = 0 then p_pid (procs s cp) else pid);
     let pgid = (if pgid = 0 then pid else pgid);
     if pgid <s 0 then Some (- EINVAL, s)
     else do {
       (found, s) \<leftarrow> (if pid \<noteq> p_pid (procs s cp) then scan_procs (\<lambda>q. p_pid q = pid) [0..<NPROC] s else Some (Some cp, s));
       (case found of None \<Rightarrow> Some (- ESRCH, s)
        | Some p \<Rightarrow>
            if p_parent (procs s p) = Some cp then
              (if p_sid (procs s p) \<noteq> p_sid (procs s cp) then Some (- EPERM, s) else setpgid_end cp pid pgid (- EPERM) s)
            else if p \<noteq> cp then Some (- ESRCH, s) else setpgid_end cp pid pgid (- ESRCH) s)
     }
   }"

definition getpgid :: "u32 \<Rightarrow> 'a kern_scheme \<Rightarrow> (int \<times> 'a kern_scheme) option" where
  "getpgid pid s =
     (if pid = 0 then do { cp \<leftarrow> curproc s; Some (sint (p_pgid (procs s cp)), s) }
      else do {
        (pp, s) \<leftarrow> scan_procs (\<lambda>q. p_pid q = pid) [0..<NPROC] s;
        (case pp of None \<Rightarrow> Some (- ESRCH, s) | Some p \<Rightarrow> Some (sint (p_pgid (procs s p)), s))
      })"

section \<open>User memory of a process\<close>

definition growproc :: "u32 \<Rightarrow> 'a kern_scheme \<Rightarrow> (int \<times> 'a kern_scheme) option" where
  "growproc n s = do {
     p \<leftarrow> curproc s;
     let sz = p_sz (procs s p);
     let pt = p_pagetable (procs s p);
     if 0 <s n then do {
       (r, s) \<leftarrow> uvmalloc pt sz (sz + scast n) PTE_W s;
       if r = 0 then Some (-1, s) else Some (0, upd_proc p (\<lambda>q. q\<lparr>p_sz := r\<rparr>) s)
     }
     else if n <s 0 then do {
       (r, s) \<leftarrow> uvmdealloc pt sz (sz + scast n) s;
       Some (0, upd_proc p (\<lambda>q. q\<lparr>p_sz := r\<rparr>) s)
     }
     else Some (0, upd_proc p (\<lambda>q. q\<lparr>p_sz := sz\<rparr>) s)
   }"

text \<open>\<open>tramp\<close> is the address of the code in \<^verbatim>\<open>trampoline.S\<close>.\<close>

definition proc_pagetable :: "u64 \<Rightarrow> nat \<Rightarrow> 'a kern_scheme \<Rightarrow> (u64 \<times> 'a kern_scheme) option" where
  "proc_pagetable tramp p s = do {
     (pt, s) \<leftarrow> uvmcreate s;
     if pt = 0 then Some (0, s)
     else do {
       (r, s) \<leftarrow> mappages pt TRAMPOLINE PGSIZE tramp PTE_EXEC s;
       if r < 0 then do { s \<leftarrow> uvmfree pt 0 s; Some (0, s) }
       else do {
         (r, s) \<leftarrow> mappages pt TRAPFRAME PGSIZE (p_trapframe (procs s p)) PTE_NORMAL s;
         if r < 0 then do { s \<leftarrow> uvmunmap pt TRAMPOLINE 1 False s; s \<leftarrow> uvmfree pt 0 s; Some (0, s) }
         else Some (pt, s)
       }
     }
   }"

definition proc_freepagetable :: "u64 \<Rightarrow> u64 \<Rightarrow> 'a kern_scheme \<Rightarrow> 'a kern_scheme option" where
  "proc_freepagetable pt sz s = do {
     s \<leftarrow> uvmunmap pt TRAMPOLINE 1 False s;
     s \<leftarrow> uvmunmap pt TRAPFRAME 1 False s;
     s \<leftarrow> uvmunmap pt STACKBASE STACKPAGE True s;
     uvmfree pt sz s
   }"

definition either_copyout :: "bool \<Rightarrow> u64 \<Rightarrow> u64 \<Rightarrow> u64 \<Rightarrow> 'a kern_scheme \<Rightarrow> (int \<times> 'a kern_scheme) option" where
  "either_copyout user_dst dst src len s = do {
     p \<leftarrow> curproc s;
     if user_dst then copyout (p_pagetable (procs s p)) dst src len s else Some (0, move_at dst src len s)
   }"

definition either_copyin :: "u64 \<Rightarrow> bool \<Rightarrow> u64 \<Rightarrow> u64 \<Rightarrow> 'a kern_scheme \<Rightarrow> (int \<times> 'a kern_scheme) option" where
  "either_copyin dst user_src src len s = do {
     p \<leftarrow> curproc s;
     if user_src then copyin (p_pagetable (procs s p)) dst src len s else Some (0, move_at dst src len s)
   }"

section \<open>Memory regions\<close>

definition ELF_ET_DYN_BASE :: u64 where "ELF_ET_DYN_BASE = 0x100000000"
definition STACKTOP :: u64 where "STACKTOP = USERTOP"
definition MAP_ANONYMOUS :: u32 where "MAP_ANONYMOUS = 0x20"
definition PROT_READ :: u32 where "PROT_READ = 1"
definition PROT_WRITE :: u32 where "PROT_WRITE = 2"
definition PROT_EXEC :: u32 where "PROT_EXEC = 4"
definition PROT_NONE :: u32 where "PROT_NONE = 0"

primrec find_region :: "mmap_region list \<Rightarrow> u64 \<Rightarrow> mmap_region option" where
  "find_region [] start = None"
| "find_region (r # rs) start = (if mr_addr r \<le> start \<and> start < mr_addr r + mr_length r then Some r else find_region rs start)"

definition find_mmap_region :: "nat \<Rightarrow> u64 \<Rightarrow> 'a kern_scheme \<Rightarrow> mmap_region option" where
  "find_mmap_region p start s = find_region (p_regions (procs s p)) start"

definition is_mmap_region :: "nat \<Rightarrow> u64 \<Rightarrow> u64 \<Rightarrow> 'a kern_scheme \<Rightarrow> bool" where
  "is_mmap_region p addr len s = (case find_mmap_region p addr s of None \<Rightarrow> False
     | Some r \<Rightarrow> addr + len \<le> mr_addr r + mr_length r)"

fun usable_in :: "mmap_region list \<Rightarrow> u64 \<Rightarrow> u64 \<Rightarrow> bool" where
  "usable_in [] addr len = False"
| "usable_in (r # rs) addr len =
     (if addr = mr_addr r then False
      else if addr + len \<le> mr_addr r then True
      else if mr_addr r + mr_length r \<le> addr \<and> (case rs of [] \<Rightarrow> True | r' # _ \<Rightarrow> addr + len \<le> mr_addr r') then True
      else usable_in rs addr len)"

definition is_usable :: "u64 \<Rightarrow> u64 \<Rightarrow> 'a kern_scheme \<Rightarrow> bool option" where
  "is_usable addr len s = do {
     p \<leftarrow> curproc s;
     if addr < ELF_ET_DYN_BASE \<or> addr > USERTOP then Some False
     else if p_regions (procs s p) = [] then Some True
     else Some (usable_in (p_regions (procs s p)) addr len)
   }"

definition get_perm :: "u32 \<Rightarrow> u32 \<Rightarrow> u64" where
  "get_perm prot flags =
     (let perm = (if flags AND MAP_ANONYMOUS \<noteq> 0 then PTE_THEAD_NORMAL_NC OR PTE_U else PTE_THEAD_NORMAL OR PTE_U);
          perm = (if prot AND PROT_READ \<noteq> 0 then perm OR PTE_R else perm);
          perm = (if prot AND PROT_WRITE \<noteq> 0 then perm OR PTE_W else perm);
          perm = (if prot AND PROT_EXEC \<noteq> 0 then perm OR PTE_X else perm)
      in if prot AND PROT_NONE \<noteq> 0 then perm AND NOT PTE_U else perm)"

definition anon_failed :: "nat \<Rightarrow> u64 \<Rightarrow> u64 \<Rightarrow> int \<Rightarrow> 'a kern_scheme \<Rightarrow> (int \<times> 'a kern_scheme) option" where
  "anon_failed p addr cur err s = do {
     s \<leftarrow> (if cur \<noteq> 0 then uvmunmap (p_pagetable (procs s p)) addr (cur div PGSIZE) True s else Some s);
     Some (err, s)
   }"

partial_function (option) map_anon_loop :: "nat \<Rightarrow> u64 \<Rightarrow> u64 \<Rightarrow> u64 \<Rightarrow> u64 \<Rightarrow> 'a kern_scheme \<Rightarrow> (int \<times> 'a kern_scheme) option" where
  "map_anon_loop p addr len perm cur s =
     (if cur < len then do {
        (m, s) \<leftarrow> kalloc s;
        let page = of_nat m;
        if page = 0 then anon_failed p addr cur (- ENOMEM) s
        else do {
          let s = zero_at page s;
          (r, s) \<leftarrow> mappages (p_pagetable (procs s p)) (addr + cur) PGSIZE page perm s;
          if r < 0 then do { s \<leftarrow> kfree (unat page) s; anon_failed p addr cur (- EINVAL) s }
          else map_anon_loop p addr len perm (cur + PGSIZE) s
        }
      } else Some (0, s))"

definition map_anon_pages :: "nat \<Rightarrow> u64 \<Rightarrow> u64 \<Rightarrow> u64 \<Rightarrow> 'a kern_scheme \<Rightarrow> (int \<times> 'a kern_scheme) option" where
  "map_anon_pages p addr len perm s = map_anon_loop p addr len perm 0 s"

section \<open>System call arguments\<close>

text \<open>The registers a0 to a5 are at offset 112 of the trap frame.\<close>

definition trap_args :: "nat \<Rightarrow> 'a kern_scheme \<Rightarrow> args" where
  "trap_args p s n = ld64 (p_trapframe (procs s p) + 112 + 8 * of_nat n) s"

definition in_user :: "nat \<Rightarrow> u64 \<Rightarrow> u64 \<Rightarrow> 'a kern_scheme \<Rightarrow> bool" where
  "in_user p addr n s =
     (if addr + n \<le> p_sz (procs s p) then True
      else if is_mmap_region p addr n s then True
      else addr \<ge> STACKBASE \<and> addr < STACKTOP)"

definition fetchaddr :: "u64 \<Rightarrow> u64 \<Rightarrow> 'a kern_scheme \<Rightarrow> (int \<times> 'a kern_scheme) option" where
  "fetchaddr addr ip s = do {
     p \<leftarrow> curproc s;
     if (addr \<ge> p_sz (procs s p) \<or> addr + 8 > p_sz (procs s p)) \<and> \<not> is_mmap_region p addr 8 s \<and> (addr < STACKBASE \<or> addr \<ge> STACKTOP)
     then Some (-1, s)
     else do {
       (r, s) \<leftarrow> copyin (p_pagetable (procs s p)) ip addr 8 s;
       Some (if r \<noteq> 0 then -1 else 0, s)
     }
   }"

definition fetchstr :: "u64 \<Rightarrow> u64 \<Rightarrow> u32 \<Rightarrow> 'a kern_scheme \<Rightarrow> (int \<times> 'a kern_scheme) option" where
  "fetchstr addr buf mx s = do {
     p \<leftarrow> curproc s;
     (r, s) \<leftarrow> copyinstr (p_pagetable (procs s p)) buf addr (scast mx) s;
     if r < 0 then Some (-1, s)
     else do { n \<leftarrow> strlen (ram s) (unat buf); Some (int n, s) }
   }"

definition argptr :: "nat \<Rightarrow> u64 \<Rightarrow> u64 \<Rightarrow> 'a kern_scheme \<Rightarrow> (int \<times> 'a kern_scheme) option" where
  "argptr n pp sz s = do {
     p \<leftarrow> curproc s;
     (case argu64 n (trap_args p s) of None \<Rightarrow> Some (-1, s)
      | Some addr \<Rightarrow>
          if addr = 0 then Some (0, s)
          else if in_user p addr sz s then do {
            (r, s) \<leftarrow> copyin (p_pagetable (procs s p)) pp addr sz s;
            Some (if r < 0 then -1 else 0, s)
          }
          else Some (-1, s))
   }"

definition argstr :: "nat \<Rightarrow> u64 \<Rightarrow> u32 \<Rightarrow> 'a kern_scheme \<Rightarrow> (int \<times> 'a kern_scheme) option" where
  "argstr n buf mx s = do {
     p \<leftarrow> curproc s;
     (case argu64 n (trap_args p s) of None \<Rightarrow> Some (-1, s) | Some addr \<Rightarrow> fetchstr addr buf mx s)
   }"

section \<open>System calls\<close>

definition sys_getpid :: "'a kern_scheme \<Rightarrow> int option" where
  "sys_getpid s = do { p \<leftarrow> curproc s; Some (sint (p_pid (procs s p))) }"

definition sys_getppid :: "'a kern_scheme \<Rightarrow> int option" where
  "sys_getppid s = do { p \<leftarrow> curproc s; pp \<leftarrow> p_parent (procs s p); Some (sint (p_pid (procs s pp))) }"

definition sys_gettid :: "'a kern_scheme \<Rightarrow> int option" where
  "sys_gettid s = do { p \<leftarrow> curproc s; Some (sint (p_pid (procs s p))) }"

definition sys_set_tid_address :: "'a kern_scheme \<Rightarrow> int option" where
  "sys_set_tid_address s = do { p \<leftarrow> curproc s; Some (sint (p_pid (procs s p))) }"

text \<open>The difference of the sizes is a \<^verbatim>\<open>long\<close> and the parameter of \<^verbatim>\<open>growproc\<close> an \<^verbatim>\<open>int\<close>.\<close>

definition sys_brk :: "'a kern_scheme \<Rightarrow> (u64 \<times> 'a kern_scheme) option" where
  "sys_brk s = do {
     p \<leftarrow> curproc s;
     let oldsz = p_sz (procs s p);
     (case argu64 0 (trap_args p s) of None \<Rightarrow> Some (word_of_int (- EINVAL), s)
      | Some newsz \<Rightarrow>
          if newsz <s 0 then Some (oldsz, s)
          else if newsz = 0 then Some (oldsz, s)
          else do {
            (r, s) \<leftarrow> growproc (ucast (newsz - oldsz)) s;
            Some (if r < 0 then oldsz else p_sz (procs s p), s)
          })
   }"

definition sys_kill :: "'a kern_scheme \<Rightarrow> 'a kern_scheme run option" where
  "sys_kill s = do {
     p \<leftarrow> curproc s;
     (case (argint 0 (trap_args p s), argint 1 (trap_args p s)) of
        (Some pid, Some sig) \<Rightarrow> if sig <s 1 \<or> sint sig \<ge> NSIG then Some (Ret (- EINVAL) s) else kill pid (sint sig) s
      | _ \<Rightarrow> Some (Ret (- EINVAL) s))
   }"

text \<open>In the following \<open>loc\<close> is the address of the local variable that an argument is copied to.\<close>

definition sys_rt_sigsuspend :: "u64 \<Rightarrow> 'a kern_scheme \<Rightarrow> 'a kern_scheme run option" where
  "sys_rt_sigsuspend loc s = do {
     (r, s) \<leftarrow> argptr 0 loc 8 s;
     if r < 0 then Some (Ret (- EINVAL) s) else sigsuspend (ld64 loc s) s
   }"

definition SA_SIGINFO :: u64 where "SA_SIGINFO = 4"

definition sys_rt_sigaction :: "u64 \<Rightarrow> u64 \<Rightarrow> 'a kern_scheme \<Rightarrow> (int \<times> 'a kern_scheme) option" where
  "sys_rt_sigaction loc kact s = do {
     p \<leftarrow> curproc s;
     (case (argint 0 (trap_args p s), argu64 1 (trap_args p s), argu64 2 (trap_args p s)) of
        (Some sig, Some actp, Some oldact) \<Rightarrow> do {
          (r, s) \<leftarrow> (if actp \<noteq> 0 then copyin (p_pagetable (procs s p)) loc actp 32 s else Some (0, s));
          if r < 0 then Some (- EFAULT, s)
          else if sig <s 1 \<or> sint sig \<ge> NSIG \<or> sint sig = SIGSTOP \<or> sint sig = SIGKILL then Some (- EINVAL, s)
          else if ld64 (loc + 8) s AND SA_SIGINFO \<noteq> 0 then Some (- EINVAL, s)
          else sigaction (sint sig) loc oldact kact s
        }
      | _ \<Rightarrow> Some (- EINVAL, s))
   }"

definition sys_rt_sigpending :: "u64 \<Rightarrow> 'a kern_scheme \<Rightarrow> (int \<times> 'a kern_scheme) option" where
  "sys_rt_sigpending pend s = do {
     p \<leftarrow> curproc s;
     (case argu64 0 (trap_args p s) of None \<Rightarrow> Some (- EINVAL, s) | Some pending \<Rightarrow> sigpending pending pend s)
   }"

definition sys_rt_sigprocmask :: "u64 \<Rightarrow> u64 \<Rightarrow> 'a kern_scheme \<Rightarrow> (int \<times> 'a kern_scheme) option" where
  "sys_rt_sigprocmask loc mk s = do {
     p \<leftarrow> curproc s;
     (case (argint 0 (trap_args p s), argu64 2 (trap_args p s), argu64 3 (trap_args p s)) of
        (Some how, Some oldset, Some sz) \<Rightarrow> do {
          (r, s) \<leftarrow> argptr 1 loc 8 s;
          if r < 0 then Some (- EFAULT, s)
          else if sz \<noteq> 0 \<and> sz \<noteq> 8 then Some (- EINVAL, s)
          else sigprocmask (sint how) (Some (ld64 loc s)) oldset mk s
        }
      | _ \<Rightarrow> Some (- EINVAL, s))
   }"

definition sys_rt_sigreturn :: "'a kern_scheme \<Rightarrow> (int \<times> 'a kern_scheme) option" where
  "sys_rt_sigreturn s = sigreturn s"

text \<open>\<open>tloc\<close> and \<open>mloc\<close> are the locals \<^verbatim>\<open>timeout_ts\<close> and \<^verbatim>\<open>sigmask\<close>, which \<^verbatim>\<open>ppoll\<close> does not use.\<close>

definition sys_ppoll :: "u64 \<Rightarrow> u64 \<Rightarrow> 'a kern_scheme \<Rightarrow> 'a kern_scheme run option" where
  "sys_ppoll tloc mloc s = do {
     p \<leftarrow> curproc s;
     (case argu64 1 (trap_args p s) of None \<Rightarrow> Some (Ret (- EINVAL) s)
      | Some nfds \<Rightarrow> do {
          (r, s) \<leftarrow> argptr 2 tloc 16 s;
          if r < 0 then Some (Ret (- EINVAL) s)
          else do {
            (r, s) \<leftarrow> argptr 3 mloc 8 s;
            if r < 0 then Some (Ret (- EINVAL) s)
            else if nfds > 0 then do {
              (m, s) \<leftarrow> kalloc s;
              let fds = of_nat m;
              if fds = 0 then Some (Ret (- ENOMEM) s)
              else do {
                (r, s) \<leftarrow> argptr 0 fds (nfds * 8) s;
                if r < 0 then Some (Ret (- EINVAL) s) else ppoll fds nfds s
              }
            }
            else ppoll 0 nfds s
          }
        })
   }"

definition sys_getpgid :: "'a kern_scheme \<Rightarrow> (int \<times> 'a kern_scheme) option" where
  "sys_getpgid s = do {
     p \<leftarrow> curproc s;
     (case argint 0 (trap_args p s) of None \<Rightarrow> Some (- EINVAL, s) | Some pid \<Rightarrow> getpgid pid s)
   }"

definition sys_setpgid :: "'a kern_scheme \<Rightarrow> (int \<times> 'a kern_scheme) option" where
  "sys_setpgid s = do {
     p \<leftarrow> curproc s;
     (case (argint 0 (trap_args p s), argint 1 (trap_args p s)) of
        (Some pid, Some pgid) \<Rightarrow> setpgid pid pgid s
      | _ \<Rightarrow> Some (- EINVAL, s))
   }"

end
