(* ===== verification/Mmap.thy ===== *)
theory Mmap
  imports Proc_Call
begin

text \<open>
  The list of mapped regions of a process (\<^verbatim>\<open>kernel/mmap.c\<close>): where \<^verbatim>\<open>mmap\<close> places a new region and how it
  links it into the list, with the lookup functions of \<^verbatim>\<open>Proc_Call\<close>. The list \<^verbatim>\<open>p->regions\<close> is an Isabelle
  list in the order of its \<^verbatim>\<open>next\<close> pointers.
\<close>

unbundle bit_operations_syntax

section \<open>Placement\<close>

text \<open>The address \<^verbatim>\<open>mmap\<close> starts from when \<^verbatim>\<open>MAP_FIXED\<close> is not given.\<close>

definition start_addr :: "u64 \<Rightarrow> mmap_region list \<Rightarrow> u64" where
  "start_addr addr rs = (if addr \<noteq> 0 then PGROUNDDOWN addr else case rs of r # _ \<Rightarrow> mr_addr r | [] \<Rightarrow> MMAPBASE)"

text \<open>The loop at the label \<^verbatim>\<open>select_addr\<close>; \<open>len\<close> is the length rounded up to pages.\<close>

fun select_addr :: "u64 \<Rightarrow> u64 \<Rightarrow> mmap_region list \<Rightarrow> u64" where
  "select_addr addr len [] = addr"
| "select_addr addr len (r # rs) =
     (if addr + len \<le> mr_addr r then addr
      else if mr_addr r + mr_length r \<le> addr \<and> (case rs of [] \<Rightarrow> True | r' # _ \<Rightarrow> addr + len \<le> mr_addr r') then addr
      else select_addr (if addr \<le> mr_addr r + mr_length r then mr_addr r + mr_length r else addr) len rs)"

text \<open>
  Linking the new region in. \<open>pre\<close> are the nodes the loop has passed; the first branch makes the new region the
  head of the list.
\<close>

fun insert_loop :: "mmap_region \<Rightarrow> mmap_region list \<Rightarrow> mmap_region list \<Rightarrow> mmap_region list" where
  "insert_loop r pre [] = pre"
| "insert_loop r pre (n # ns) =
     (if mr_addr r < mr_addr n then r # n # ns
      else if mr_addr r > mr_addr n \<and> ns \<noteq> [] \<and> mr_addr r < mr_addr (hd ns) then pre @ n # r # ns
      else if ns = [] then pre @ [n, r]
      else insert_loop r (pre @ [n]) ns)"

definition insert_region :: "mmap_region \<Rightarrow> mmap_region list \<Rightarrow> mmap_region list" where
  "insert_region r rs = (if rs = [] then [r] else insert_loop r [] rs)"

section \<open>Sorted lists of disjoint regions\<close>

definition r_start :: "mmap_region \<Rightarrow> nat" where "r_start r = unat (mr_addr r)"
definition r_end :: "mmap_region \<Rightarrow> nat" where "r_end r = unat (mr_addr r) + unat (mr_length r)"

text \<open>Every region has pages, ends at or below \<^verbatim>\<open>USERTOP\<close>, and lies below all that follow.\<close>

fun regions_ok :: "mmap_region list \<Rightarrow> bool" where
  "regions_ok [] = True"
| "regions_ok (r # rs) \<longleftrightarrow> 0 < unat (mr_length r) \<and> r_end r \<le> unat USERTOP \<and> (\<forall>r' \<in> set rs. r_end r \<le> r_start r') \<and> regions_ok rs"

definition apart :: "nat \<Rightarrow> nat \<Rightarrow> mmap_region \<Rightarrow> bool" where
  "apart a n r \<longleftrightarrow> a + n \<le> r_start r \<or> r_end r \<le> a"

lemma USERTOP_val: "unat USERTOP = 0x3fffffd000"
  by (simp add: USERTOP_def TRAPFRAME_def TRAMPOLINE_def MAXVA_def PGSIZE_def)

lemma region_end: "r_end r \<le> unat USERTOP \<Longrightarrow> unat (mr_addr r + mr_length r) = r_end r"
  unfolding r_end_def USERTOP_val by (subst unat_add_lem [THEN iffD1]) simp_all

lemma regions_ok_end: "regions_ok rs \<Longrightarrow> r \<in> set rs \<Longrightarrow> r_end r \<le> unat USERTOP \<and> 0 < unat (mr_length r)"
  by (induction rs) auto

text \<open>The chosen address is never below the start, and is apart from every region above the lower bound.\<close>

lemma select_addr_apart:
  assumes "regions_ok rs" "unat len < 2 ^ 63" "unat addr < 2 ^ 62"
  shows "unat addr \<le> unat (select_addr addr len rs)" "r \<in> set rs \<Longrightarrow> apart (unat (select_addr addr len rs)) (unat len) r"
proof -
  have "unat addr \<le> unat (select_addr addr len rs) \<and> (\<forall>r \<in> set rs. apart (unat (select_addr addr len rs)) (unat len) r)"
    using assms
  proof (induction rs arbitrary: addr)
    case (Cons r rs)
    have e: "unat (mr_addr r + mr_length r) = r_end r" "r_end r \<le> unat USERTOP" using Cons.prems(1) region_end by auto
    have al: "unat (addr + len) = unat addr + unat len" using Cons.prems(2,3) by (subst unat_add_lem [THEN iffD1]) simp_all
    have up: "\<forall>r' \<in> set rs. r_end r \<le> r_start r' \<and> r_start r' \<le> r_end r'" using Cons.prems(1) by (auto simp: r_start_def r_end_def)
    show ?case
    proof (cases "addr + len \<le> mr_addr r")
      case True
      then have "unat addr + unat len \<le> r_start r" by (simp add: word_le_nat_alt al r_start_def)
      moreover have "r_start r \<le> r_end r" by (simp add: r_start_def r_end_def)
      ultimately show ?thesis using True up by (fastforce simp: apart_def)
    next
      case False
      show ?thesis
      proof (cases "mr_addr r + mr_length r \<le> addr \<and> (case rs of [] \<Rightarrow> True | r' # _ \<Rightarrow> addr + len \<le> mr_addr r')")
        case True
        then have a: "r_end r \<le> unat addr" "rs \<noteq> [] \<Longrightarrow> unat addr + unat len \<le> r_start (hd rs)"
          by (auto simp: word_le_nat_alt e(1) al r_start_def split: list.splits)
        have "unat addr + unat len \<le> r_start r'" if r': "r' \<in> set rs" for r'
        proof (cases rs)
          case (Cons h hs)
          have "r_start h \<le> r_start r'" using r' Cons \<open>regions_ok (r # rs)\<close> by (auto simp: r_end_def r_start_def)
          then show ?thesis using a(2) Cons by simp
        qed (use r' in simp)
        then show ?thesis using False True a(1) by (auto simp: apart_def)
      next
        case no: False
        define b where "b = (if addr \<le> mr_addr r + mr_length r then mr_addr r + mr_length r else addr)"
        have b: "unat addr \<le> unat b" "r_end r \<le> unat b" "unat b < 2 ^ 62"
          using e Cons.prems(3) USERTOP_val by (auto simp: b_def word_le_nat_alt)
        have IH: "unat b \<le> unat (select_addr b len rs) \<and> (\<forall>r \<in> set rs. apart (unat (select_addr b len rs)) (unat len) r)"
          using Cons.IH [of b] Cons.prems b(3) by simp
        have "select_addr addr len (r # rs) = select_addr b len rs" unfolding select_addr.simps b_def if_not_P [OF False] if_not_P [OF no] ..
        then show ?thesis using IH b by (auto simp: apart_def)
      qed
    qed
  qed simp
  then show "unat addr \<le> unat (select_addr addr len rs)" "r \<in> set rs \<Longrightarrow> apart (unat (select_addr addr len rs)) (unat len) r" by blast+
qed

lemma regions_ok_append: "regions_ok (xs @ ys) \<longleftrightarrow> regions_ok xs \<and> regions_ok ys \<and> (\<forall>x \<in> set xs. \<forall>y \<in> set ys. r_end x \<le> r_start y)"
  by (induction xs) auto

lemma insert_loop_ok:
  assumes "regions_ok (pre @ ns)" "ns \<noteq> []" "0 < unat (mr_length r)" "r_end r \<le> unat USERTOP"
    and "\<And>x. x \<in> set (pre @ ns) \<Longrightarrow> apart (r_start r) (unat (mr_length r)) x" "\<And>x. x \<in> set pre \<Longrightarrow> r_end x \<le> r_start r"
    and "pre \<noteq> [] \<Longrightarrow> r_end (hd ns) \<le> r_start r"
  shows "regions_ok (insert_loop r pre ns) \<and> set (insert_loop r pre ns) = insert r (set (pre @ ns))"
  using assms
proof (induction ns arbitrary: pre)
  case (Cons n ns)
  have re: "r_end r = r_start r + unat (mr_length r)" by (simp add: r_start_def r_end_def)
  have le: "r_start x \<le> r_end x" for x by (simp add: r_start_def r_end_def)
  have lt: "mr_addr r < mr_addr x \<longleftrightarrow> r_start r < r_start x" for x by (simp add: word_less_nat_alt r_start_def)
  have lt': "mr_addr x < mr_addr r \<longleftrightarrow> r_start x < r_start r" for x by (simp add: word_less_nat_alt r_start_def)
  have n: "0 < unat (mr_length n)" using Cons.prems(1) by (simp add: regions_ok_append)
  have below: "r_end n \<le> r_start r" if "\<not> r_start r < r_start n" using Cons.prems(5) [of n] that re n Cons.prems(3) by (auto simp: apart_def)
  show ?case
  proof (cases "r_start r < r_start n")
    case True
    have "pre = []" using True Cons.prems(7) le [of n] by (cases pre) (auto dest: order_less_le_trans)
    have "r_end r \<le> r_start n" using Cons.prems(5) [of n] True le [of n] by (auto simp: apart_def re)
    moreover have "\<forall>x \<in> set ns. r_end n \<le> r_start x" using Cons.prems(1) by (simp add: regions_ok_append)
    ultimately show ?thesis using True Cons.prems(1,3,4) \<open>pre = []\<close> le [of n] by (auto simp: lt dest: order_trans)
  next
    case False
    note bn = below [OF False]
    have ab: "r_end r \<le> r_start x" if "r_start r < r_start x" "x \<in> set ns" for x
      using Cons.prems(5) [of x] that le [of x] by (auto simp: apart_def re)
    show ?thesis
    proof (cases ns)
      case Nil
      then show ?thesis using False Cons.prems(1,3,4,6) bn by (auto simp: lt regions_ok_append)
    next
      case (Cons m ms)
      show ?thesis
      proof (cases "mr_addr r < mr_addr m")
        case True
        have "r_start n < r_start r" using bn n by (simp add: r_end_def r_start_def)
        then have eq: "insert_loop r pre (n # ns) = pre @ n # r # ns" using False True Cons by (simp add: lt lt')
        have "r_end r \<le> r_start m" using ab [of m] True Cons by (simp add: lt)
        moreover have "\<forall>x \<in> set ms. r_end m \<le> r_start x" using Cons.prems(1) Cons by (simp add: regions_ok_append)
        ultimately have "\<forall>x \<in> set ns. r_end r \<le> r_start x" using Cons le [of m] by (auto dest: order_trans)
        then show ?thesis unfolding eq using Cons.prems(1,3,4,6) bn by (auto simp: regions_ok_append)
      next
        case no: False
        have "r_end m \<le> r_start r" using Cons.prems(5) [of m] no Cons re Cons.prems(3) by (auto simp: apart_def lt r_end_def r_start_def)
        then have "regions_ok (insert_loop r (pre @ [n]) ns) \<and> set (insert_loop r (pre @ [n]) ns) = insert r (set ((pre @ [n]) @ ns))"
          using Cons.prems Cons bn by (intro Cons.IH) auto
        moreover have "insert_loop r pre (n # ns) = insert_loop r (pre @ [n]) ns" using False no Cons by (simp add: lt)
        ultimately show ?thesis by simp
      qed
    qed
  qed
qed simp

lemma insert_region_ok:
  assumes "regions_ok rs" "0 < unat (mr_length r)" "r_end r \<le> unat USERTOP" "\<And>x. x \<in> set rs \<Longrightarrow> apart (r_start r) (unat (mr_length r)) x"
  shows "regions_ok (insert_region r rs) \<and> set (insert_region r rs) = insert r (set rs)"
  using insert_loop_ok [of "[]" rs r] assms by (auto simp: insert_region_def)

section \<open>Properties\<close>

text \<open>
  C34: Without \<^verbatim>\<open>MAP_FIXED\<close> a new region never overlaps an existing one. On a sorted list of disjoint regions the
  loop finds an address at or above its start whose range is apart from every region, and when the range
  ends below \<^verbatim>\<open>USERTOP\<close>, linking the region in keeps the list sorted and disjoint and adds exactly that region, so that a
  lookup of any of its addresses finds it.
\<close>

theorem mmap_placement:
  assumes "regions_ok rs" "0 < unat len" "unat len < 2 ^ 63" "unat (start_addr addr rs) < 2 ^ 62" "a = select_addr (start_addr addr rs) len rs"
    and "mr_addr r = a" "mr_length r = len" "unat a + unat len \<le> unat USERTOP"
  shows "start_addr addr rs \<le> a \<and> (\<forall>x \<in> set rs. apart (unat a) (unat len) x) \<and>
    regions_ok (insert_region r rs) \<and> set (insert_region r rs) = insert r (set rs) \<and>
    (\<forall>v. unat a \<le> unat v \<and> unat v < unat a + unat len \<longrightarrow> find_region (insert_region r rs) v = Some r)"
proof -
  note sel = select_addr_apart [OF assms(1,3,4), folded assms(5)]
  have ins: "regions_ok (insert_region r rs) \<and> set (insert_region r rs) = insert r (set rs)"
    by (rule insert_region_ok) (use assms sel in \<open>auto simp: r_start_def r_end_def\<close>)
  have find: "find_region xs v = Some y" if "regions_ok xs" "y \<in> set xs" "r_start y \<le> unat v" "unat v < r_end y" for xs y v
    using that
  proof (induction xs)
    case (Cons x xs)
    have "mr_addr x \<le> v \<and> v < mr_addr x + mr_length x \<longleftrightarrow> r_start x \<le> unat v \<and> unat v < r_end x"
      using region_end [of x] Cons.prems(1) by (simp add: word_le_nat_alt word_less_nat_alt r_start_def)
    moreover have "\<not> unat v < r_end x" if "y \<in> set xs" using Cons.prems(1,3) that by auto
    ultimately show ?case using Cons by auto
  qed simp
  have "find_region (insert_region r rs) v = Some r" if "unat a \<le> unat v" "unat v < unat a + unat len" for v
    by (rule find) (use ins that assms(6,7) in \<open>auto simp: r_start_def r_end_def\<close>)
  then show ?thesis using sel ins by (auto simp: word_le_nat_alt)
qed

theorem mmap_placement_witness:
  "select_addr (start_addr 0 [\<lparr>mr_addr = 0x2000000000, mr_length = 0x3000, mr_offset = 0, mr_file = None, mr_prot = 3, mr_flags = 0x22, mr_obj = 0x80600000\<rparr>]) 0x1000
     [\<lparr>mr_addr = 0x2000000000, mr_length = 0x3000, mr_offset = 0, mr_file = None, mr_prot = 3, mr_flags = 0x22, mr_obj = 0x80600000\<rparr>] = 0x2000003000 \<and>
   find_region (insert_region \<lparr>mr_addr = 0x2000003000, mr_length = 0x1000, mr_offset = 0, mr_file = None, mr_prot = 1, mr_flags = 0x22, mr_obj = 0x80600000\<rparr>
     [\<lparr>mr_addr = 0x2000000000, mr_length = 0x3000, mr_offset = 0, mr_file = None, mr_prot = 3, mr_flags = 0x22, mr_obj = 0x80600000\<rparr>]) 0x2000003010 =
     Some \<lparr>mr_addr = 0x2000003000, mr_length = 0x1000, mr_offset = 0, mr_file = None, mr_prot = 1, mr_flags = 0x22, mr_obj = 0x80600000\<rparr>"
proof -
  let ?q = "\<lparr>mr_addr = 0x2000000000, mr_length = 0x3000, mr_offset = 0, mr_file = None, mr_prot = 3, mr_flags = 0x22, mr_obj = 0x80600000\<rparr>"
  let ?r = "\<lparr>mr_addr = 0x2000003000, mr_length = 0x1000, mr_offset = 0, mr_file = None, mr_prot = 1, mr_flags = 0x22, mr_obj = 0x80600000\<rparr>"
  have ok: "regions_ok [?q]" by (simp add: r_end_def USERTOP_val)
  have st: "start_addr 0 [?q] = 0x2000000000" by (simp add: start_addr_def)
  have a: "select_addr (start_addr 0 [?q]) 0x1000 [?q] = 0x2000003000" unfolding st by simp
  have "0 < unat (0x1000 :: u64)" "unat (0x1000 :: u64) < 2 ^ 63" "unat (start_addr 0 [?q]) < 2 ^ 62" unfolding st by simp_all
  note P = mmap_placement [OF ok this a [symmetric], of ?r]
  have "find_region (insert_region ?r [?q]) 0x2000003010 = Some ?r" using P by (simp add: USERTOP_val)
  then show ?thesis using a by blast
qed

text \<open>
  The test for \<^verbatim>\<open>MAP_FIXED\<close> is wrong: with two or more regions, a range that ends at or below the second and
  does not start exactly at the first is accepted, also when it overlaps the first.
\<close>

theorem is_usable_overlap:
  assumes "curproc s = Some p" "p_regions (procs s p) = r # r' # rs" "ELF_ET_DYN_BASE \<le> addr" "addr \<le> USERTOP"
    and "addr \<noteq> mr_addr r" "addr \<noteq> mr_addr r'" "addr + len \<le> mr_addr r'"
  shows "is_usable addr len s = Some True"
  using assms by (auto simp: is_usable_def)

theorem is_usable_overlap_witness:
  "\<exists>s :: kern. regions_ok (p_regions (procs s 0)) \<and> \<not> apart 0x2000001000 0x1000 (hd (p_regions (procs s 0))) \<and> is_usable 0x2000001000 0x1000 s = Some True"
proof -
  let ?q = "\<lparr>mr_addr = 0x2000000000, mr_length = 0x3000, mr_offset = 0, mr_file = None, mr_prot = 3, mr_flags = 0x22, mr_obj = 0x80600000\<rparr>"
  let ?r = "\<lparr>mr_addr = 0x2000005000, mr_length = 0x1000, mr_offset = 0, mr_file = None, mr_prot = 1, mr_flags = 0x22, mr_obj = 0x80600000\<rparr>"
  obtain s :: kern where s: "curproc s = Some 0" "p_regions (procs s 0) = [?q, ?r]"
  proof
    fix t :: kern and x :: proc
    show "curproc (t\<lparr>curproc := Some 0, procs := \<lambda>_. x\<lparr>p_regions := [?q, ?r]\<rparr>\<rparr>) = Some 0" by simp
    show "p_regions (procs (t\<lparr>curproc := Some 0, procs := \<lambda>_. x\<lparr>p_regions := [?q, ?r]\<rparr>\<rparr>) 0) = [?q, ?r]" by simp
  qed
  have ok: "regions_ok [?q, ?r]" "\<not> apart 0x2000001000 0x1000 ?q" by (simp_all add: r_end_def r_start_def USERTOP_val apart_def)
  have "is_usable 0x2000001000 0x1000 s = Some True"
    by (rule is_usable_overlap [OF s]) (simp_all add: ELF_ET_DYN_BASE_def USERTOP_def TRAPFRAME_def TRAMPOLINE_def MAXVA_def PGSIZE_def)
  then show ?thesis using s(2) ok by (intro exI [of _ s]) simp
qed

end
