(* ===== verification/Vm_Correct.thy ===== *)
theory Vm_Correct
  imports Vm
begin

text \<open>
  Page tables as a map: \<open>vmap s r v\<close> is the page table entry of virtual page \<open>v\<close> under root \<open>r\<close>. A page
  table is well formed when its pages are distinct live pages of the allocator. \<^verbatim>\<open>walk\<close> keeps the map
  while it adds pages, \<^verbatim>\<open>mappages\<close> and \<^verbatim>\<open>uvmunmap\<close> update exactly the pages they are asked to, and
  \<^verbatim>\<open>copyin\<close> and \<^verbatim>\<open>copyout\<close> move the bytes that the map says.
\<close>

unbundle bit_operations_syntax

section \<open>Entries\<close>

lemma and_bit_iff: "(x AND push_bit n 1 = 0) = (\<not> bit x n)" for x :: u64
  by (metis and_exp_eq_0_iff_not_bit push_bit_of_1)

lemma pte_bits [simp]:
  "(x AND PTE_V = 0) = (\<not> bit x 0)" "(x AND PTE_U = 0) = (\<not> bit x 4)" "(x AND PTE_W = 0) = (\<not> bit x 2)" "(x AND PTE_COW = 0) = (\<not> bit x 8)"
  by (simp_all only: PTE_V_def PTE_U_def PTE_W_def PTE_COW_def and_bit_iff)

definition only_flags :: "u64 \<Rightarrow> bool" where
  "only_flags f \<longleftrightarrow> (\<forall>n. bit f n \<longrightarrow> n < 10 \<or> 59 \<le> n)"

lemma bit_PTE_HIGH: "bit PTE_HIGH n \<longleftrightarrow> 59 \<le> n \<and> n < 64"
proof -
  have e: "PTE_HIGH = push_bit 59 (Bit_Operations.mask 5)" unfolding PTE_HIGH_def by (simp add: mask_eq_exp_minus_1)
  show ?thesis unfolding e bit_push_bit_iff bit_mask_iff possible_bit_word by auto
qed

lemma PTE2PA_PA2PTE:
  assumes "only_flags f" "unat pa < 2 ^ 61" "unat pa mod 4096 = 0"
  shows "PTE2PA (PA2PTE pa OR f) = pa"
proof (rule bit_word_eqI)
  fix n assume n: "n < LENGTH(64)"
  have hi: "\<not> bit pa n" if "61 \<le> n" for n
  proof -
    have "unat pa < 2 ^ n" using assms(2) power_increasing [OF that, of "2 :: nat"] by linarith
    then have "\<not> bit (unat pa) n" by (simp add: bit_iff_odd)
    then show ?thesis by (simp add: bit_unsigned_iff)
  qed
  have lo: "\<not> bit pa n" if "n < 12" for n
  proof -
    have "take_bit 12 (unat pa) = 0" using assms(3) by (simp add: take_bit_eq_mod)
    then have "\<not> bit (unat pa) n" using that by (metis bit_0_eq bit_take_bit_iff bot_apply bot_bool_def)
    then show ?thesis by (simp add: bit_unsigned_iff)
  qed
  have "bit (PTE2PA (PA2PTE pa OR f)) n = (12 \<le> n \<and> bit (PA2PTE pa OR f) (n - 2) \<and> \<not> bit PTE_HIGH (n - 2))"
    using n unfolding PTE2PA_def
    by (auto simp: bit_push_bit_iff bit_drop_bit_eq bit_and_iff bit_or_iff bit_not_iff possible_bit_word)
  also have "\<dots> = (12 \<le> n \<and> n < 61 \<and> bit pa n)"
  proof (cases "12 \<le> n \<and> n < 61")
    case True
    then have "\<not> bit f (n - 2)" using assms(1) by (auto simp: only_flags_def)
    moreover have "bit (PA2PTE pa) (n - 2) = bit pa n" using True by (auto simp: PA2PTE_def bit_push_bit_iff bit_drop_bit_eq possible_bit_word)
    ultimately show ?thesis using True by (auto simp: bit_PTE_HIGH bit_or_iff)
  next
    case False
    then show ?thesis using n by (auto simp: bit_PTE_HIGH)
  qed
  finally show "bit (PTE2PA (PA2PTE pa OR f)) n = bit pa n" using hi [of n] lo [of n] by auto
qed

lemma only_flagsI: "only_flags f \<Longrightarrow> only_flags g \<Longrightarrow> only_flags (f OR g)" "n < 10 \<or> 59 \<le> n \<Longrightarrow> only_flags (push_bit n 1)"
  by (auto simp: only_flags_def bit_or_iff bit_exp_iff)

lemma only_flags_V: "only_flags PTE_V" "only_flags PTE_A" "only_flags PTE_D" "only_flags PTE_U" "only_flags PTE_R" "only_flags PTE_W" "only_flags PTE_X"
  unfolding PTE_V_def PTE_A_def PTE_D_def PTE_U_def PTE_R_def PTE_W_def PTE_X_def by (rule only_flagsI; simp)+

lemma bit_V: "bit (x OR PTE_V) 0" "bit PTE_V 0"
  by (simp_all add: PTE_V_def bit_or_iff)

section \<open>Memory\<close>

definition vm_ok :: "'a buddy_scheme \<Rightarrow> bool" where
  "vm_ok s \<longleftrightarrow> buddy_inv s \<and> L_buddy \<notin> held s \<and> L_pages_ref \<notin> held s"

definition mem_free :: "'a buddy_scheme \<Rightarrow> nat" where
  "mem_free s = Finite_Set.card ({..<PAGE_NUM} - (\<Union>b \<in> allocs (pages s). blk b))"

lemma live_page:
  assumes "a \<in> live_pages s"
  shows "a < 2 ^ 32" "PAGE_START \<le> a" "a mod 4096 = 0"
proof -
  obtain p k where p: "(p, k) \<in> allocs (pages s)" "a = PAGE_START + PAGE_SIZE * p" using assms by (auto simp: live_pages_def simp del: mem_allocs)
  have "p < PAGE_NUM" using p(1) by simp
  with p(2) show "a < 2 ^ 32" "PAGE_START \<le> a" "a mod 4096 = 0"
    by (auto simp: PAGE_START_def PAGE_SIZE_def PAGE_NUM_def PHYSTOP_def KERNBASE_def mod_simps)
qed

lemma live_apart:
  assumes "a \<in> live_pages s" "b \<in> live_pages t" "a \<noteq> b"
  shows "a + 4096 \<le> b \<or> b + 4096 \<le> a"
proof -
  obtain p q where "a = PAGE_START + PAGE_SIZE * p" "b = PAGE_START + PAGE_SIZE * q" using assms(1,2) unfolding live_pages_def by blast
  then show ?thesis using assms(3) by (auto simp: PAGE_SIZE_def)
qed

text \<open>\<^verbatim>\<open>kalloc\<close> with a free page left.\<close>

lemma mem_free_free:
  assumes "buddy_inv s" "0 < mem_free s"
  shows "free_from 0 (pages s)"
proof -
  obtain fl where "binv (pages s) (free_lists s) fl {}" using assms(1) by (auto simp: buddy_inv_def)
  then have part: "(\<Union>b \<in> heads (pages s). blk b) = {..<PAGE_NUM}" by (simp add: binv_def buddy_partition_def)
  have "{..<PAGE_NUM} - (\<Union>b \<in> allocs (pages s). blk b) \<noteq> {}" using assms(2) unfolding mem_free_def by (metis card.empty less_irrefl)
  then obtain q where q: "q < PAGE_NUM" "q \<notin> (\<Union>b \<in> allocs (pages s). blk b)" by blast
  then obtain b where b: "b \<in> heads (pages s)" "q \<in> blk b" using part by blast
  then have "b \<notin> allocs (pages s)" using q(2) by blast
  then have "fst b < PAGE_NUM \<and> is_free (pages s (fst b))" using b(1) by (cases b) simp
  then show ?thesis unfolding free_from_def by blast
qed

lemma kalloc_spec:
  assumes ok: "vm_ok s" and fr: "0 < mem_free s"
  shows "\<exists>a s'. kalloc s = Some (a, s') \<and> vm_ok s' \<and> a \<notin> live_pages s \<and> live_pages s' = insert a (live_pages s) \<and>
    Suc (mem_free s') = mem_free s \<and> s' = s\<lparr>pages := pages s', free_lists := free_lists s'\<rparr>"
proof -
  have "free_from 0 (pages s)" using mem_free_free ok fr by (auto simp: vm_ok_def)
  then obtain p s' where p: "buddy_alloc PAGE_SIZE s = Some (p, s')" "alloc_post 0 s p s'"
    using buddy_alloc_cases [OF _ _ _ find_order_0_page, of s] ok by (auto simp: vm_ok_def)
  note ap = p(2) [unfolded alloc_post_def] and new = alloc_post_new [OF p(2)]
  have hs: "held s' = held s" using ap buddy_upd_held by blast
  let ?a = "PAGE_START + PAGE_SIZE * p"
  have "kalloc s = Some (?a, s')" using p(1) ap by (simp add: kalloc_def page_address_def)
  moreover have "vm_ok s'" using ok ap hs by (simp add: vm_ok_def)
  moreover have "live_pages s' = insert ?a (live_pages s)" using ap by (auto simp only: live_pages_def image_insert fst_conv)
  moreover have "?a \<notin> live_pages s" unfolding live_pages_def using new inj_image_mem_iff [OF inj_page_number] by blast
  moreover have "Suc (mem_free s') = mem_free s"
  proof -
    let ?F = "\<lambda>t. {..<PAGE_NUM} - (\<Union>b \<in> allocs (pages t). blk b)"
    have b: "blk (p, 0) = {p}" by (auto simp: blk_def)
    have al: "allocs (pages s') = insert (p, 0) (allocs (pages s))" "\<forall>b \<in> allocs (pages s). blk b \<inter> blk (p, 0) = {}" "p < PAGE_NUM" using ap by blast+
    have "p \<in> ?F s" using al(2,3) b by blast
    moreover have "?F s' = ?F s - {p}" unfolding al(1) using b by auto
    ultimately show ?thesis unfolding mem_free_def by (metis card_Suc_Diff1 finite_Diff finite_lessThan)
  qed
  ultimately show ?thesis using ap by blast
qed

section \<open>The tree of tables\<close>

text \<open>The pages of a page table: the root, the tables below it, and the tables of leaf entries.\<close>

datatype node = Root | Mid nat | Low nat nat

definition child :: "memory \<Rightarrow> u64 \<Rightarrow> nat \<Rightarrow> u64 option" where
  "child m a k = (let e = get64 m (unat a + 8 * k) in if bit e 0 then Some (PTE2PA e) else None)"

fun node_adr :: "memory \<Rightarrow> u64 \<Rightarrow> node \<Rightarrow> u64 option" where
  "node_adr m r Root = Some r"
| "node_adr m r (Mid i) = (if i < 512 then child m r i else None)"
| "node_adr m r (Low i j) = (if i < 512 \<and> j < 512 then (case child m r i of None \<Rightarrow> None | Some a \<Rightarrow> child m a j) else None)"

definition leaf :: "memory \<Rightarrow> u64 \<Rightarrow> nat \<Rightarrow> nat \<Rightarrow> nat \<Rightarrow> u64" where
  "leaf m r i j k = (case node_adr m r (Low i j) of None \<Rightarrow> 0 | Some a \<Rightarrow> get64 m (unat a + 8 * k))"

definition tree_ok :: "nat set \<Rightarrow> memory \<Rightarrow> u64 \<Rightarrow> bool" where
  "tree_ok L m r \<longleftrightarrow> (\<forall>n a. node_adr m r n = Some a \<longrightarrow> unat a \<in> L) \<and>
     (\<forall>n n' a. node_adr m r n = Some a \<and> node_adr m r n' = Some a \<longrightarrow> n = n')"

fun kid :: "node \<Rightarrow> nat \<Rightarrow> node" where
  "kid Root k = Mid k"
| "kid (Mid i) k = Low i k"
| "kid (Low i j) k = Low i j"

definition inner :: "node \<Rightarrow> bool" where
  "inner n \<longleftrightarrow> (case n of Low i j \<Rightarrow> False | _ \<Rightarrow> True)"

lemma inner_simps [simp]: "inner Root" "inner (Mid i)" "\<not> inner (Low i j)"
  by (simp_all add: inner_def)

lemma child_cong: "(\<And>x. x < 8 \<Longrightarrow> m' (unat a + 8 * k + x) = m (unat a + 8 * k + x)) \<Longrightarrow> child m' a k = child m a k"
proof -
  assume e: "\<And>x. x < 8 \<Longrightarrow> m' (unat a + 8 * k + x) = m (unat a + 8 * k + x)"
  have "get64 m' (unat a + 8 * k) = get64 m (unat a + 8 * k)"
  proof (rule get_cong(3))
    fix y assume "unat a + 8 * k \<le> y" "y < unat a + 8 * k + 8"
    then show "m' y = m y" using e [of "y - (unat a + 8 * k)"] by simp
  qed
  then show ?thesis by (simp add: child_def)
qed

lemma page_child_cong: "(\<And>x. x < 4096 \<Longrightarrow> m' (unat a + x) = m (unat a + x)) \<Longrightarrow> k < 512 \<Longrightarrow> child m' a k = child m a k"
proof (rule child_cong)
  fix x :: nat assume e: "\<And>x. x < 4096 \<Longrightarrow> m' (unat a + x) = m (unat a + x)" and "k < 512" "x < 8"
  then show "m' (unat a + 8 * k + x) = m (unat a + 8 * k + x)" using e [of "8 * k + x"] by (simp add: add.assoc)
qed

text \<open>The tree depends on the bytes of its inner pages only.\<close>

lemma node_adr_cong:
  assumes "\<And>n a x. inner n \<Longrightarrow> node_adr m r n = Some a \<Longrightarrow> x < 4096 \<Longrightarrow> m' (unat a + x) = m (unat a + x)"
  shows "node_adr m' r = node_adr m r"
proof
  fix n
  have rt: "child m' r i = child m r i" if "i < 512" for i by (rule page_child_cong) (use assms [of Root r] that in auto)
  have md: "child m' a j = child m a j" if "i < 512" "j < 512" "child m r i = Some a" for i j a
    by (rule page_child_cong) (use assms [of "Mid i" a] that in auto)
  show "node_adr m' r n = node_adr m r n"
    using rt md by (cases n) (auto split: option.splits)
qed

lemma get64_outside: "p + 8 \<le> q \<or> q + 8 \<le> p \<Longrightarrow> get64 (put64 v q m) p = get64 m p"
  by (rule get_put_other(9))

text \<open>Storing a leaf entry.\<close>

lemma st_leaf:
  assumes ok: "tree_ok (live_pages s) m r" and a: "node_adr m r (Low i j) = Some a" and k: "k < 512"
    and m': "m' = put64 v (unat a + 8 * k) m"
  shows "node_adr m' r = node_adr m r" "k' < 512 \<Longrightarrow> leaf m' r i' j' k' = (if i' = i \<and> j' = j \<and> k' = k then v else leaf m r i' j' k')"
proof -
  have la: "unat a \<in> live_pages s" using ok a unfolding tree_ok_def by blast
  have apart: "unat b + 4096 \<le> unat a \<or> unat a + 4096 \<le> unat b" if "node_adr m r n = Some b" "n \<noteq> Low i j" for n b
  proof -
    have "unat b \<in> live_pages s" using ok that(1) unfolding tree_ok_def by blast
    moreover have "b \<noteq> a" using ok a that unfolding tree_ok_def by blast
    then have "unat b \<noteq> unat a" by (metis unsigned_word_eqI)
    ultimately show ?thesis using live_apart [OF _ la] by blast
  qed
  have out: "m' x = m x" if "x < unat a + 8 * k \<or> unat a + 8 * k + 8 \<le> x" for x
    using that unfolding m' put64_def by (rule put_out)
  show na: "node_adr m' r = node_adr m r"
  proof (rule node_adr_cong)
    fix n b x assume "inner n" "node_adr m r n = Some b" "x < (4096 :: nat)"
    then show "m' (unat b + x) = m (unat b + x)" using apart [of n b] k by (intro out) (cases n; auto)
  qed
  assume k': "k' < 512"
  show "leaf m' r i' j' k' = (if i' = i \<and> j' = j \<and> k' = k then v else leaf m r i' j' k')"
  proof (cases "node_adr m r (Low i' j')")
    case None
    then show ?thesis using a by (auto simp: leaf_def na)
  next
    case (Some b)
    have "get64 m' (unat b + 8 * k') = (if i' = i \<and> j' = j \<and> k' = k then v else get64 m (unat b + 8 * k'))"
    proof (cases "i' = i \<and> j' = j")
      case True
      then show ?thesis using Some a by (cases "k' < k") (auto simp: m' get64_outside simp del: node_adr.simps)
    next
      case False
      then show ?thesis using apart [OF Some] k k' by (auto simp: m' get64_outside)
    qed
    then show ?thesis using Some by (simp add: leaf_def na)
  qed
qed

text \<open>Adding a table: a fresh page is cleared and entered into an inner page.\<close>

lemma le_val_zero: "le_val n (\<lambda>_. 0) p = 0"
  by (induction n arbitrary: p) simp_all

lemma zeroed: "k < 512 \<Longrightarrow> get64 (memset m b 0 4096) (b + 8 * k) = 0"
proof -
  assume "k < 512"
  then have "get64 (memset m b 0 4096) (b + 8 * k) = get64 (\<lambda>_. 0) (b + 8 * k)" unfolding memset_eq by (intro get_cong(3)) auto
  then show ?thesis by (simp add: get64_def le_val_zero)
qed

lemma add_table:
  assumes ok: "tree_ok (live_pages s) m r" and a: "node_adr m r n = Some a" "inner n" and k: "k < 512" "node_adr m r (kid n k) = None"
    and b: "unat b \<notin> live_pages s" "unat b \<in> live_pages t"
    and m': "m' = put64 (PA2PTE b OR PTE_V) (unat a + 8 * k) (memset m (unat b) 0 4096)"
  shows "node_adr m' r x = (if x = kid n k then Some b else node_adr m r x)" "k' < 512 \<Longrightarrow> leaf m' r i' j' k' = leaf m r i' j' k'"
    "y < unat b \<or> unat b + 4096 \<le> y \<Longrightarrow> y < unat a \<or> unat a + 4096 \<le> y \<Longrightarrow> m' y = m y"
proof -
  have la: "unat c \<in> live_pages s" if "node_adr m r l = Some c" for l c using ok that unfolding tree_ok_def by blast
  have ab: "unat a + 4096 \<le> unat b \<or> unat b + 4096 \<le> unat a" using live_apart [OF la [OF a(1)] b(2)] b(1) la [OF a(1)] by metis
  have cb: "unat c + 4096 \<le> unat b \<or> unat b + 4096 \<le> unat c" if "node_adr m r l = Some c" for l c
    using live_apart [OF la [OF that] b(2)] b(1) la [OF that] by metis
  have ca: "unat c + 4096 \<le> unat a \<or> unat a + 4096 \<le> unat c" if "node_adr m r l = Some c" "l \<noteq> n" for l c
  proof -
    have "c \<noteq> a" using ok a(1) that unfolding tree_ok_def by blast
    then show ?thesis using live_apart [OF la [OF that(1)] la [OF a(1)]] by (metis unsigned_word_eqI)
  qed
  have out: "m' y = m y" if "y < unat b \<or> unat b + 4096 \<le> y" "y < unat a + 8 * k \<or> unat a + 8 * k + 8 \<le> y" for y
    using that unfolding m' put64_def memset_eq by (subst put_out) auto
  then show "y < unat b \<or> unat b + 4096 \<le> y \<Longrightarrow> y < unat a \<or> unat a + 4096 \<le> y \<Longrightarrow> m' y = m y" using k(1) by force
  have new: "child m' a k = Some b"
  proof -
    have "unat b < 2 ^ 32" "unat b mod 4096 = 0" using live_page [OF b(2)] by simp_all
    then have "PTE2PA (PA2PTE b OR PTE_V) = b" by (intro PTE2PA_PA2PTE only_flags_V) (auto intro: order_less_le_trans)
    then show ?thesis by (simp add: child_def m' bit_V)
  qed
  have zero: "child m' b k' = None" if "k' < 512" for k'
  proof -
    have "get64 m' (unat b + 8 * k') = get64 (memset m (unat b) 0 4096) (unat b + 8 * k')" unfolding m' using ab that k(1) by (intro get64_outside) auto
    also have "\<dots> = 0" using that by (rule zeroed)
    finally show ?thesis by (simp add: child_def)
  qed
  have old: "child m' c k' = child m c k'" if "node_adr m r l = Some c" "k' < 512" "l \<noteq> n \<or> k' \<noteq> k" for l c k'
  proof (rule child_cong)
    fix x :: nat assume x: "x < 8"
    show "m' (unat c + 8 * k' + x) = m (unat c + 8 * k' + x)"
    proof (rule out)
      show "unat c + 8 * k' + x < unat b \<or> unat b + 4096 \<le> unat c + 8 * k' + x" using cb [OF that(1)] that(2) x by auto
      show "unat c + 8 * k' + x < unat a + 8 * k \<or> unat a + 8 * k + 8 \<le> unat c + 8 * k' + x"
      proof (cases "l = n")
        case True
        then have "c = a" "k' \<noteq> k" using that a(1) by auto
        then show ?thesis using x by auto
      next
        case False
        then show ?thesis using ca [OF that(1)] that(2) k(1) x by auto
      qed
    qed
  qed
  show na: "node_adr m' r x = (if x = kid n k then Some b else node_adr m r x)" for x
  proof (cases n)
    case Root
    then have "a = r" using a by simp
    have rt: "child m' r i = (if i = k then Some b else child m r i)" if "i < 512" for i
      using old [of Root r i] new that Root \<open>a = r\<close> by auto
    have md: "child m' c j = child m c j" if "i < 512" "j < 512" "child m r i = Some c" for i j c
      using old [of "Mid i" c j] that Root by auto
    show ?thesis using rt md zero k Root by (cases x) (auto split: option.splits)
  next
    case (Mid i0)
    then have i0: "i0 < 512" "child m r i0 = Some a" using a by (auto split: if_splits)
    have rt: "child m' r i = child m r i" if "i < 512" for i using old [of Root r i] that Mid by auto
    have md: "child m' c j = (if i = i0 \<and> j = k then Some b else child m c j)" if "i < 512" "j < 512" "child m r i = Some c" for i j c
      using old [of "Mid i" c j] new that Mid i0 by auto
    show ?thesis using rt md k Mid i0 by (cases x) (auto split: option.splits)
  next
    case (Low i j)
    then show ?thesis using a(2) by simp
  qed
  assume k': "k' < 512"
  show "leaf m' r i' j' k' = leaf m r i' j' k'"
  proof (cases "Low i' j' = kid n k")
    case True
    then have "node_adr m r (Low i' j') = None" using k(2) by simp
    moreover have "get64 m' (unat b + 8 * k') = 0"
    proof -
      have "get64 m' (unat b + 8 * k') = get64 (memset m (unat b) 0 4096) (unat b + 8 * k')" unfolding m' using ab k' k(1) by (intro get64_outside) auto
      also have "\<dots> = 0" using k' by (rule zeroed)
      finally show ?thesis .
    qed
    ultimately show ?thesis using na [of "Low i' j'"] True by (simp add: leaf_def del: node_adr.simps)
  next
    case False
    have "get64 m' (unat c + 8 * k') = get64 m (unat c + 8 * k')" if c: "node_adr m r (Low i' j') = Some c" for c
    proof (rule get_cong(3))
      fix y assume y: "unat c + 8 * k' \<le> y" "y < unat c + 8 * k' + 8"
      have "Low i' j' \<noteq> n" using a(2) by (cases n) auto
      then show "m' y = m y" using cb [OF c] ca [OF c] y k' k(1) by (intro out) auto
    qed
    then show ?thesis using na [of "Low i' j'"] False by (auto simp: leaf_def simp del: node_adr.simps split: option.splits)
  qed
qed

section \<open>Walking\<close>

definition pt_ok :: "u64 \<Rightarrow> 'a vm_scheme \<Rightarrow> bool" where
  "pt_ok r s \<longleftrightarrow> vm_ok s \<and> tree_ok (live_pages s) (ram s) r"

text \<open>
  What every change of a page table keeps: memory changes in the pages of the table only, and the pages
  that join the table are fresh. At most \<open>c\<close> pages are taken.
\<close>

definition pt_frame :: "nat \<Rightarrow> u64 \<Rightarrow> 'a vm_scheme \<Rightarrow> 'a vm_scheme \<Rightarrow> bool" where
  "pt_frame c r s s' \<longleftrightarrow> pt_ok r s' \<and> s' = s\<lparr>pages := pages s', free_lists := free_lists s', ram := ram s'\<rparr> \<and>
     live_pages s \<subseteq> live_pages s' \<and> mem_free s \<le> mem_free s' + c \<and>
     (\<forall>n a. node_adr (ram s) r n = Some a \<longrightarrow> node_adr (ram s') r n = Some a) \<and>
     (\<forall>n a. node_adr (ram s') r n = Some a \<longrightarrow> node_adr (ram s) r n = Some a \<or> unat a \<notin> live_pages s) \<and>
     (\<forall>x. (\<forall>n a. node_adr (ram s') r n = Some a \<longrightarrow> x < unat a \<or> unat a + 4096 \<le> x) \<longrightarrow> ram s' x = ram s x)"

text \<open>New tables alone change no leaf entry.\<close>

definition pt_grow :: "nat \<Rightarrow> u64 \<Rightarrow> 'a vm_scheme \<Rightarrow> 'a vm_scheme \<Rightarrow> bool" where
  "pt_grow c r s s' \<longleftrightarrow> pt_frame c r s s' \<and> (\<forall>i j k. k < 512 \<longrightarrow> leaf (ram s') r i j k = leaf (ram s) r i j k)"

lemma pt_frameD:
  assumes "pt_frame c r s s'"
  shows "pt_ok r s'" "live_pages s \<subseteq> live_pages s'" "mem_free s \<le> mem_free s' + c"
    "node_adr (ram s) r n = Some a \<Longrightarrow> node_adr (ram s') r n = Some a" "held s' = held s"
    "node_adr (ram s') r n = Some a \<Longrightarrow> node_adr (ram s) r n = Some a \<or> unat a \<notin> live_pages s"
    "(\<And>n a. node_adr (ram s') r n = Some a \<Longrightarrow> x < unat a \<or> unat a + 4096 \<le> x) \<Longrightarrow> ram s' x = ram s x"
proof -
  note g = assms [unfolded pt_frame_def]
  show "pt_ok r s'" "live_pages s \<subseteq> live_pages s'" "mem_free s \<le> mem_free s' + c"
    "node_adr (ram s) r n = Some a \<Longrightarrow> node_adr (ram s') r n = Some a"
    "node_adr (ram s') r n = Some a \<Longrightarrow> node_adr (ram s) r n = Some a \<or> unat a \<notin> live_pages s"
    "(\<And>n a. node_adr (ram s') r n = Some a \<Longrightarrow> x < unat a \<or> unat a + 4096 \<le> x) \<Longrightarrow> ram s' x = ram s x" using g by blast+
  have "s' = s\<lparr>pages := pages s', free_lists := free_lists s', ram := ram s'\<rparr>" using g by blast
  then have "held s' = held (s\<lparr>pages := pages s', free_lists := free_lists s', ram := ram s'\<rparr>)" by (rule arg_cong)
  then show "held s' = held s" by simp
qed

lemma pt_frame_refl: "pt_ok r s \<Longrightarrow> pt_frame c r s s"
  by (simp add: pt_frame_def)

lemma pt_frame_trans:
  assumes a: "pt_frame c r s t" and b: "pt_frame d r t u"
  shows "pt_frame (c + d) r s u"
proof -
  note A = a [unfolded pt_frame_def] and B = b [unfolded pt_frame_def]
  have eq: "u = s\<lparr>pages := pages u, free_lists := free_lists u, ram := ram u\<rparr>"
  proof -
    have u: "u = t\<lparr>pages := pages u, free_lists := free_lists u, ram := ram u\<rparr>" using B by blast
    have t: "t = s\<lparr>pages := pages t, free_lists := free_lists t, ram := ram t\<rparr>" using A by blast
    show ?thesis using arg_cong [OF t, of "\<lambda>v. v\<lparr>pages := pages u, free_lists := free_lists u, ram := ram u\<rparr>"] u by simp
  qed
  have "ram u x = ram s x" if x: "\<forall>n a. node_adr (ram u) r n = Some a \<longrightarrow> x < unat a \<or> unat a + 4096 \<le> x" for x
  proof -
    have "ram u x = ram t x" using B x by blast
    moreover have "\<forall>n a. node_adr (ram t) r n = Some a \<longrightarrow> x < unat a \<or> unat a + 4096 \<le> x" using B x by blast
    then have "ram t x = ram s x" using A by blast
    ultimately show ?thesis by simp
  qed
  moreover have "mem_free s \<le> mem_free u + (c + d)" using A B by linarith
  moreover have "node_adr (ram s) r n = Some a \<or> unat a \<notin> live_pages s" if "node_adr (ram u) r n = Some a" for n a using A B that by blast
  ultimately show ?thesis using A B eq unfolding pt_frame_def by (meson subset_trans)
qed

lemma pt_growD:
  assumes "pt_grow c r s s'"
  shows "pt_frame c r s s'" "pt_ok r s'" "mem_free s \<le> mem_free s' + c" "k < 512 \<Longrightarrow> leaf (ram s') r i j k = leaf (ram s) r i j k"
  using assms pt_frameD by (auto simp: pt_grow_def)

lemma pt_grow_refl: "pt_ok r s \<Longrightarrow> pt_grow c r s s"
  by (simp add: pt_grow_def pt_frame_refl)

lemma pt_grow_trans: "pt_grow c r s t \<Longrightarrow> pt_grow d r t u \<Longrightarrow> pt_grow (c + d) r s u"
  using pt_frame_trans by (auto simp: pt_grow_def)

lemma PX_unat: "unat (PX l va) = unat va div 2 ^ (12 + 9 * l) mod 512" "unat (PX l va) < 512"
proof -
  have m: "(0x1ff :: u64) = Bit_Operations.mask 9" by (simp add: mask_eq_exp_minus_1)
  have "unat (PX l va) = take_bit 9 (drop_bit (12 + 9 * l) (unat va))"
    unfolding PX_def m take_bit_eq_mask [symmetric]
    using take_bit_nat_eq_self [of "unat va" 64] unsigned_less [of va, where ?'a = nat] by (simp add: unsigned_take_bit_eq unsigned_drop_bit_eq)
  then show "unat (PX l va) = unat va div 2 ^ (12 + 9 * l) mod 512" by (simp add: take_bit_eq_mod drop_bit_eq_div)
  then show "unat (PX l va) < 512" by simp
qed

lemma entry_addr:
  assumes "unat a \<in> live_pages s"
  shows "unat (a + 8 * PX l va) = unat a + 8 * unat (PX l va)" "a + 8 * PX l va \<noteq> 0"
proof -
  have "unat a < 2 ^ 32" "0 < unat a" using live_page [OF assms] by (simp_all add: PAGE_START_def)
  moreover have "unat (8 * PX l va) = 8 * unat (PX l va)" using PX_unat(2) [of l va] by (simp add: unat_word_ariths)
  ultimately show e: "unat (a + 8 * PX l va) = unat a + 8 * unat (PX l va)" using PX_unat(2) [of l va] by (simp add: unat_word_ariths)
  show "a + 8 * PX l va \<noteq> 0"
  proof
    assume "a + 8 * PX l va = 0"
    then show False using e \<open>0 < unat a\<close> by simp
  qed
qed

lemma pt_okD:
  assumes "pt_ok r s" "node_adr (ram s) r n = Some a"
  shows "unat a \<in> live_pages s"
  using assms unfolding pt_ok_def tree_ok_def by blast

lemma ld64_entry: "unat a \<in> live_pages s \<Longrightarrow> ld64 (a + 8 * PX l va) s = get64 (ram s) (unat a + 8 * unat (PX l va))"
  by (simp add: ld64_def entry_addr)

text \<open>One step down: the table of the entry is there, or \<^verbatim>\<open>kalloc\<close> provides it.\<close>

lemma walk_step:
  assumes ok: "pt_ok r s" and n: "node_adr (ram s) r n = Some a" "inner n" and fr: "alloc \<Longrightarrow> 0 < mem_free s"
    and c_def: "c = kid n (unat (PX (Suc l) va))" and nin: "node_adr (ram s) r c = child (ram s) a (unat (PX (Suc l) va))"
  shows "case node_adr (ram s) r c of Some b \<Rightarrow> walk_levels (Suc l) a va alloc s = walk_levels l b va alloc s
    | None \<Rightarrow> if alloc then \<exists>b s'. walk_levels (Suc l) a va alloc s = walk_levels l b va alloc s' \<and> pt_grow 1 r s s' \<and> node_adr (ram s') r c = Some b
              else walk_levels (Suc l) a va alloc s = Some (0, s)"
proof -
  let ?k = "unat (PX (Suc l) va)"
  have la: "unat a \<in> live_pages s" using pt_okD [OF ok n(1)] .
  note e = ld64_entry [OF la, of "Suc l" va]
  show ?thesis
  proof (cases "node_adr (ram s) r c")
    case (Some b)
    then have "bit (get64 (ram s) (unat a + 8 * ?k)) 0" "PTE2PA (get64 (ram s) (unat a + 8 * ?k)) = b"
      using nin by (auto simp: child_def Let_def split: if_splits)
    then show ?thesis using Some e by (simp add: Let_def)
  next
    case None
    then have nb: "\<not> bit (get64 (ram s) (unat a + 8 * ?k)) 0" using nin by (auto simp: child_def Let_def split: if_splits)
    show ?thesis
    proof (cases alloc)
      case False
      then show ?thesis using None nb e by (simp add: Let_def)
    next
      case True
      have vo: "vm_ok s" and tr: "tree_ok (live_pages s) (ram s) r" using ok by (simp_all add: pt_ok_def)
      obtain p t where k: "kalloc s = Some (p, t)" "vm_ok t" "p \<notin> live_pages s" "live_pages t = insert p (live_pages s)"
        "Suc (mem_free t) = mem_free s" "t = s\<lparr>pages := pages t, free_lists := free_lists t\<rparr>"
        using kalloc_spec [OF vo fr [OF True]] by (elim exE conjE) (rule that)
      define b where "b = (of_nat p :: u64)"
      have lp: "p \<in> live_pages t" using k(4) by simp
      have ub: "unat b = p" unfolding b_def using live_page(1) [OF lp] by (intro unat_of_nat_less) simp
      have b0: "b \<noteq> 0" using live_page(2) [OF lp] ub by (auto simp: PAGE_START_def)
      have rt: "ram t = ram s" using arg_cong [OF k(6), of ram] by simp
      define s' where "s' = st64 (a + 8 * PX (Suc l) va) (PA2PTE b OR PTE_V) (zero_at b t)"
      have r': "ram s' = put64 (PA2PTE b OR PTE_V) (unat a + 8 * ?k) (memset (ram s) (unat b) 0 4096)"
        by (simp add: s'_def st64_def zero_at_def rt entry_addr(1) [OF la] PGSIZE_def del: memset.simps)
      have f: "pages s' = pages t" "free_lists s' = free_lists t" "held s' = held t" by (simp_all add: s'_def st64_def zero_at_def)
      have lv: "live_pages s' = live_pages t" "mem_free s' = mem_free t" by (simp_all add: live_pages_def mem_free_def f)
      have nb': "unat b \<notin> live_pages s" "unat b \<in> live_pages s'" using k(3,4) ub lv by simp_all
      note A = add_table [OF tr n(1,2) PX_unat(2) None [unfolded c_def] nb' r', folded c_def]
      have "vm_ok s'" using k(2) by (simp add: vm_ok_def buddy_inv_def f)
      moreover have "tree_ok (live_pages s') (ram s') r"
        using tr nb' lv k(4) unfolding tree_ok_def A(1) by (auto split: if_splits)
      ultimately have ok': "pt_ok r s'" by (simp add: pt_ok_def)
      have out: "ram s' x = ram s x" if "\<forall>n a. node_adr (ram s') r n = Some a \<longrightarrow> x < unat a \<or> unat a + 4096 \<le> x" for x
      proof (rule A(3))
        show "x < unat b \<or> unat b + 4096 \<le> x" using that A(1) [of c] by auto
        have "n \<noteq> c" using n(1) None by auto
        then show "x < unat a \<or> unat a + 4096 \<le> x" using that A(1) [of n] n(1) by auto
      qed
      have eq: "s' = s\<lparr>pages := pages s', free_lists := free_lists s', ram := ram s'\<rparr>"
        using arg_cong [OF k(6), of "\<lambda>v. v\<lparr>ram := ram s'\<rparr>"] by (simp add: s'_def st64_def zero_at_def)
      have g: "pt_grow 1 r s s'"
        unfolding pt_grow_def pt_frame_def
        using ok' eq lv k(4,5) A(2) out nb' None unfolding A(1) by (auto split: if_splits simp del: node_adr.simps)
      have "walk_levels (Suc l) a va alloc s = walk_levels l b va alloc s'"
        using nb e True k(1) b0 by (simp add: Let_def b_def [symmetric] s'_def)
      then show ?thesis using None True g A(1) [of c] by auto
    qed
  qed
qed

text \<open>The page number of an address, and the table of leaf entries that page number \<open>v\<close> is in.\<close>

definition vpn :: "u64 \<Rightarrow> nat" where "vpn va = unat va div 4096"

abbreviation low_of :: "nat \<Rightarrow> node" where "low_of v \<equiv> Low (v div 262144) (v div 512 mod 512)"

definition vmap :: "memory \<Rightarrow> u64 \<Rightarrow> nat \<Rightarrow> u64" where
  "vmap m r v = leaf m r (v div 262144) (v div 512 mod 512) (v mod 512)"

lemma MAXVA_unat: "unat MAXVA = 2 ^ 38"
  by (simp add: MAXVA_def)

lemma PX_vpn:
  assumes "va < MAXVA"
  shows "unat (PX (Suc (Suc 0)) va) = vpn va div 262144" "unat (PX (Suc 0) va) = vpn va div 512 mod 512" "unat (PX 0 va) = vpn va mod 512" "vpn va < 2 ^ 26"
proof -
  have lt: "unat va < 2 ^ 38" using assms MAXVA_unat by (simp add: word_less_nat_alt)
  then show "vpn va < 2 ^ 26" by (simp add: vpn_def)
  have "unat va div 2 ^ 30 < 256" using lt by simp
  then show "unat (PX (Suc (Suc 0)) va) = vpn va div 262144" unfolding PX_unat by (simp add: vpn_def div_mult2_eq [symmetric])
  show "unat (PX (Suc 0) va) = vpn va div 512 mod 512" "unat (PX 0 va) = vpn va mod 512" unfolding PX_unat by (simp_all add: vpn_def div_mult2_eq [symmetric])
qed

lemma node_adr_Mid: "i < 512 \<Longrightarrow> node_adr m r (Mid i) = child m r i"
  by simp

lemma node_adr_Low: "i < 512 \<Longrightarrow> j < 512 \<Longrightarrow> node_adr m r (Mid i) = Some a \<Longrightarrow> node_adr m r (Low i j) = child m a j"
  by simp

lemma walk_alloc:
  assumes ok: "pt_ok r s" and va: "va < MAXVA" and fr: "2 \<le> mem_free s"
  shows "\<exists>a s'. walk r va True s = Some (a + 8 * PX 0 va, s') \<and> pt_grow 2 r s s' \<and> node_adr (ram s') r (low_of (vpn va)) = Some a"
proof -
  note px = PX_vpn [OF va]
  let ?i = "vpn va div 262144" and ?j = "vpn va div 512 mod 512"
  have i: "?i < 512" using px(4) by simp
  have "\<exists>b t. walk_levels (Suc (Suc 0)) r va True s = walk_levels (Suc 0) b va True t \<and> pt_grow 1 r s t \<and> node_adr (ram t) r (Mid ?i) = Some b"
  proof -
    have "case node_adr (ram s) r (Mid ?i) of Some b \<Rightarrow> walk_levels (Suc (Suc 0)) r va True s = walk_levels (Suc 0) b va True s
      | None \<Rightarrow> if True then \<exists>b s'. walk_levels (Suc (Suc 0)) r va True s = walk_levels (Suc 0) b va True s' \<and> pt_grow 1 r s s' \<and> node_adr (ram s') r (Mid ?i) = Some b
              else walk_levels (Suc (Suc 0)) r va True s = Some (0, s)"
      by (rule walk_step [OF ok, of Root]) (use fr i in \<open>simp_all add: px\<close>)
    then show ?thesis using pt_grow_refl [OF ok] by (cases "node_adr (ram s) r (Mid ?i)") (auto simp del: node_adr.simps walk_levels.simps)
  qed
  then obtain b t where b: "walk_levels (Suc (Suc 0)) r va True s = walk_levels (Suc 0) b va True t" "pt_grow 1 r s t" "node_adr (ram t) r (Mid ?i) = Some b"
    by blast
  have okt: "pt_ok r t" and frt: "0 < mem_free t" using pt_growD(2,3) [OF b(2)] fr by auto
  have "\<exists>a s'. walk_levels (Suc 0) b va True t = walk_levels 0 a va True s' \<and> pt_grow 1 r t s' \<and> node_adr (ram s') r (Low ?i ?j) = Some a"
  proof -
    have "case node_adr (ram t) r (Low ?i ?j) of Some a \<Rightarrow> walk_levels (Suc 0) b va True t = walk_levels 0 a va True t
      | None \<Rightarrow> if True then \<exists>a s'. walk_levels (Suc 0) b va True t = walk_levels 0 a va True s' \<and> pt_grow 1 r t s' \<and> node_adr (ram s') r (Low ?i ?j) = Some a
              else walk_levels (Suc 0) b va True t = Some (0, t)"
      by (rule walk_step [OF okt b(3)]) (use frt i node_adr_Low [OF i _ b(3)] in \<open>simp_all add: px del: node_adr.simps\<close>)
    then show ?thesis using pt_grow_refl [OF okt] by (cases "node_adr (ram t) r (Low ?i ?j)") (auto simp del: node_adr.simps walk_levels.simps)
  qed
  then obtain a s' where a: "walk_levels (Suc 0) b va True t = walk_levels 0 a va True s'" "pt_grow 1 r t s'" "node_adr (ram s') r (Low ?i ?j) = Some a"
    by blast
  have "walk r va True s = Some (a + 8 * PX 0 va, s')"
    using va b(1) a(1) by (simp add: walk_def numeral_2_eq_2 not_le [symmetric] del: walk_levels.simps(2))
  moreover have "pt_grow 2 r s s'" using pt_grow_trans [OF b(2) a(2)] by (simp add: numeral_2_eq_2)
  ultimately show ?thesis using a(3) by blast
qed

lemma walk_find:
  assumes ok: "pt_ok r s" and va: "va < MAXVA"
  shows "walk r va False s = Some (case node_adr (ram s) r (low_of (vpn va)) of None \<Rightarrow> 0 | Some a \<Rightarrow> a + 8 * PX 0 va, s)"
proof -
  note px = PX_vpn [OF va]
  let ?i = "vpn va div 262144" and ?j = "vpn va div 512 mod 512"
  have i: "?i < 512" using px(4) by simp
  have 1: "case node_adr (ram s) r (Mid ?i) of Some b \<Rightarrow> walk_levels (Suc (Suc 0)) r va False s = walk_levels (Suc 0) b va False s
      | None \<Rightarrow> if False then \<exists>b s'. walk_levels (Suc (Suc 0)) r va False s = walk_levels (Suc 0) b va False s' \<and> pt_grow 1 r s s' \<and> node_adr (ram s') r (Mid ?i) = Some b
              else walk_levels (Suc (Suc 0)) r va False s = Some (0, s)"
    by (rule walk_step [OF ok, of Root]) (use i in \<open>simp_all add: px\<close>)
  have w: "walk r va False s = walk_levels (Suc (Suc 0)) r va False s" using va by (simp add: walk_def numeral_2_eq_2 not_le [symmetric] del: walk_levels.simps)
  show ?thesis
  proof (cases "node_adr (ram s) r (Mid ?i)")
    case None
    then have "child (ram s) r ?i = None" using i by simp
    then have "node_adr (ram s) r (Low ?i ?j) = None" by simp
    then show ?thesis using 1 None w by (simp del: node_adr.simps walk_levels.simps)
  next
    case (Some b)
    have "case node_adr (ram s) r (Low ?i ?j) of Some a \<Rightarrow> walk_levels (Suc 0) b va False s = walk_levels 0 a va False s
      | None \<Rightarrow> if False then \<exists>a s'. walk_levels (Suc 0) b va False s = walk_levels 0 a va False s' \<and> pt_grow 1 r s s' \<and> node_adr (ram s') r (Low ?i ?j) = Some a
              else walk_levels (Suc 0) b va False s = Some (0, s)"
      by (rule walk_step [OF ok Some]) (use i node_adr_Low [OF i _ Some] in \<open>simp_all add: px del: node_adr.simps\<close>)
    then show ?thesis using 1 Some w by (cases "node_adr (ram s) r (Low ?i ?j)") (simp_all del: node_adr.simps walk_levels.simps(2))
  qed
qed

text \<open>The entry itself.\<close>

lemma walk_find_pte:
  assumes ok: "pt_ok r s" and va: "va < MAXVA"
  shows "\<exists>pte. walk r va False s = Some (pte, s) \<and> (pte = 0 \<longrightarrow> vmap (ram s) r (vpn va) = 0) \<and> (pte \<noteq> 0 \<longrightarrow> ld64 pte s = vmap (ram s) r (vpn va))"
proof (cases "node_adr (ram s) r (low_of (vpn va))")
  case None
  then show ?thesis using walk_find [OF assms] by (simp add: vmap_def leaf_def del: node_adr.simps)
next
  case (Some a)
  have la: "unat a \<in> live_pages s" using pt_okD [OF ok Some] .
  show ?thesis using walk_find [OF assms] Some entry_addr(2) [OF la, of 0 va] ld64_entry [OF la, of 0 va]
    by (simp add: vmap_def leaf_def PX_vpn [OF va] del: node_adr.simps)
qed

text \<open>Storing through the pointer \<^verbatim>\<open>walk\<close> returned.\<close>

lemma st_entry:
  assumes ok: "pt_ok r s" and va: "va < MAXVA" and a: "node_adr (ram s) r (low_of (vpn va)) = Some a"
    and s'_def: "s' = st64 (a + 8 * PX 0 va) v s"
  shows "pt_ok r s'" "w < 2 ^ 26 \<Longrightarrow> vmap (ram s') r w = (if w = vpn va then v else vmap (ram s) r w)"
    "node_adr (ram s') r = node_adr (ram s) r" "x < unat a \<or> unat a + 4096 \<le> x \<Longrightarrow> ram s' x = ram s x"
proof -
  have la: "unat a \<in> live_pages s" using pt_okD [OF ok a] .
  have r': "ram s' = put64 v (unat a + 8 * (vpn va mod 512)) (ram s)"
    by (simp add: s'_def st64_def entry_addr(1) [OF la] PX_vpn(3) [OF va])
  have tr: "tree_ok (live_pages s) (ram s) r" "vm_ok s" using ok by (simp_all add: pt_ok_def)
  note S = st_leaf [OF tr(1) a _ r']
  show na: "node_adr (ram s') r = node_adr (ram s) r" using S(1) by simp
  have f: "pages s' = pages s" "free_lists s' = free_lists s" "held s' = held s" by (simp_all add: s'_def st64_def)
  have "vm_ok s'" using tr(2) by (simp add: vm_ok_def buddy_inv_def f)
  then show "pt_ok r s'" using tr(1) by (simp add: pt_ok_def tree_ok_def na live_pages_def f)
  show "vmap (ram s') r w = (if w = vpn va then v else vmap (ram s) r w)" if "w < 2 ^ 26"
  proof -
    have "(w div 262144 = vpn va div 262144 \<and> w div 512 mod 512 = vpn va div 512 mod 512 \<and> w mod 512 = vpn va mod 512) = (w = vpn va)"
    proof -
      have "x = x div 262144 * 262144 + x div 512 mod 512 * 512 + x mod 512" for x :: nat
      proof -
        have "x div 512 = x div 262144 * 512 + x div 512 mod 512" using div_mult_mod_eq [of "x div 512" 512] by (simp add: div_mult2_eq [symmetric])
        then show ?thesis using div_mult_mod_eq [of x 512] by linarith
      qed
      then show ?thesis by metis
    qed
    then show ?thesis using S(2) [of "w mod 512"] by (simp add: vmap_def)
  qed
  show "x < unat a \<or> unat a + 4096 \<le> x \<Longrightarrow> ram s' x = ram s x" unfolding r' put64_def by (subst put_out) auto
qed

lemma st_frame:
  assumes ok: "pt_ok r s" and va: "va < MAXVA" and a: "node_adr (ram s) r (low_of (vpn va)) = Some a"
    and s': "s' = st64 (a + 8 * PX 0 va) v s"
  shows "pt_frame 0 r s s'"
proof -
  note S = st_entry [OF assms]
  have f: "pages s' = pages s" "free_lists s' = free_lists s" "s' = s\<lparr>ram := ram s'\<rparr>" by (simp_all add: s' st64_def)
  show ?thesis unfolding pt_frame_def S(3) using S(1,4) f a by (auto simp: live_pages_def mem_free_def simp del: node_adr.simps)
qed

section \<open>Mapping\<close>

lemma page_addr:
  assumes "v < 2 ^ 26"
  shows "(of_nat (4096 * v) :: u64) < MAXVA" "vpn (of_nat (4096 * v)) = v" "unat (of_nat (4096 * v) :: u64) = 4096 * v"
proof -
  show u: "unat (of_nat (4096 * v) :: u64) = 4096 * v" using assms by (intro unat_of_nat_less) simp
  then show "(of_nat (4096 * v) :: u64) < MAXVA" "vpn (of_nat (4096 * v)) = v" using assms by (simp_all add: word_less_nat_alt MAXVA_unat vpn_def)
qed

definition mapped_pte :: "u64 \<Rightarrow> u64 \<Rightarrow> u64" where
  "mapped_pte pa perm = (PA2PTE pa OR perm OR PTE_V OR PTE_A OR PTE_D)"

lemma mapped_pte_bits: "bit (mapped_pte pa perm) 0"
  by (simp add: mapped_pte_def bit_or_iff bit_V)

lemma mapped_pte_pa: "only_flags perm \<Longrightarrow> unat pa < 2 ^ 61 \<Longrightarrow> unat pa mod 4096 = 0 \<Longrightarrow> PTE2PA (mapped_pte pa perm) = pa"
  unfolding mapped_pte_def or.assoc by (intro PTE2PA_PA2PTE only_flagsI only_flags_V)

lemma map_step:
  assumes ok: "pt_ok r s" and v: "v < 2 ^ 26" "\<not> bit (vmap (ram s) r v) 0" and fr: "2 \<le> mem_free s"
  shows "\<exists>t. (\<forall>lst. mappages_loop r (of_nat (4096 * v)) lst pa perm s =
      (if of_nat (4096 * v) = lst then Some (0, t) else mappages_loop r (of_nat (4096 * v) + PGSIZE) lst (pa + PGSIZE) perm t)) \<and>
    pt_frame 2 r s t \<and> (\<forall>w < 2 ^ 26. vmap (ram t) r w = (if w = v then mapped_pte pa perm else vmap (ram s) r w))"
proof -
  note pa' = page_addr [OF v(1)]
  obtain a u where w: "walk r (of_nat (4096 * v)) True s = Some (a + 8 * PX 0 (of_nat (4096 * v)), u)" "pt_grow 2 r s u"
      "node_adr (ram u) r (low_of v) = Some a"
    using walk_alloc [OF ok pa'(1) fr] unfolding pa'(2) by blast
  let ?p = "a + 8 * PX 0 (of_nat (4096 * v) :: u64)"
  have oku: "pt_ok r u" using pt_growD(2) [OF w(2)] .
  have la: "unat a \<in> live_pages u" using pt_okD [OF oku w(3)] .
  have vm: "vmap (ram u) r x = vmap (ram s) r x" for x unfolding vmap_def by (rule pt_growD(4) [OF w(2)]) simp
  have ld: "ld64 ?p u = vmap (ram s) r v"
    using ld64_entry [OF la, of 0 "of_nat (4096 * v)"] w(3) unfolding vm [symmetric] by (simp add: vmap_def leaf_def PX_vpn [OF pa'(1)] pa'(2) del: node_adr.simps of_nat_mult)
  define t where "t = st64 ?p (mapped_pte pa perm) u"
  note S = st_entry [OF oku pa'(1), unfolded pa'(2), OF w(3) t_def] and F = st_frame [OF oku pa'(1), unfolded pa'(2), OF w(3) t_def]
  have "mappages_loop r (of_nat (4096 * v)) lst pa perm s =
      (if of_nat (4096 * v) = lst then Some (0, t) else mappages_loop r (of_nat (4096 * v) + PGSIZE) lst (pa + PGSIZE) perm t)" for lst
    using w(1) ld v(2) entry_addr(2) [OF la, of 0 "of_nat (4096 * v)"]
    by (subst mappages_loop.simps) (simp add: Let_def t_def mapped_pte_def del: of_nat_mult)
  moreover have "pt_frame 2 r s t" using pt_frame_trans [OF pt_growD(1) [OF w(2)] F] by simp
  ultimately show ?thesis using S(2) vm by auto
qed

lemma mappages_loop_spec:
  assumes "pt_ok r s" "v + n < 2 ^ 26" "\<forall>w. v \<le> w \<and> w \<le> v + n \<longrightarrow> \<not> bit (vmap (ram s) r w) 0" "2 * Suc n \<le> mem_free s"
  shows "\<exists>s'. mappages_loop r (of_nat (4096 * v)) (of_nat (4096 * (v + n))) pa perm s = Some (0, s') \<and> pt_frame (2 * Suc n) r s s' \<and>
    (\<forall>w < 2 ^ 26. vmap (ram s') r w = (if v \<le> w \<and> w \<le> v + n then mapped_pte (pa + of_nat (4096 * (w - v))) perm else vmap (ram s) r w))"
  using assms
proof (induction n arbitrary: v s pa)
  case 0
  obtain t where "\<And>lst. mappages_loop r (of_nat (4096 * v)) lst pa perm s =
      (if of_nat (4096 * v) = lst then Some (0, t) else mappages_loop r (of_nat (4096 * v) + PGSIZE) lst (pa + PGSIZE) perm t)"
    "pt_frame 2 r s t" "\<And>w. w < 2 ^ 26 \<Longrightarrow> vmap (ram t) r w = (if w = v then mapped_pte pa perm else vmap (ram s) r w)"
    using map_step [OF "0.prems"(1), of v pa perm] "0.prems" by auto
  then show ?case by (intro exI [of _ t]) auto
next
  case (Suc n)
  have v: "v < 2 ^ 26" "\<not> bit (vmap (ram s) r v) 0" "2 \<le> mem_free s" using Suc.prems by auto
  obtain t where t: "\<And>lst. mappages_loop r (of_nat (4096 * v)) lst pa perm s =
      (if of_nat (4096 * v) = lst then Some (0, t) else mappages_loop r (of_nat (4096 * v) + PGSIZE) lst (pa + PGSIZE) perm t)"
    "pt_frame 2 r s t" "\<And>w. w < 2 ^ 26 \<Longrightarrow> vmap (ram t) r w = (if w = v then mapped_pte pa perm else vmap (ram s) r w)"
    using map_step [OF Suc.prems(1) v, of pa perm] by auto
  have nx: "(of_nat (4096 * v) :: u64) + PGSIZE = of_nat (4096 * Suc v)" by (simp add: PGSIZE_def)
  have ne: "(of_nat (4096 * v) :: u64) \<noteq> of_nat (4096 * (v + Suc n))"
    using page_addr(3) [OF v(1)] page_addr(3) [OF Suc.prems(2)] by (metis add_eq_self_zero mult_cancel1 nat.distinct(1) zero_neq_numeral)
  obtain s' where s': "mappages_loop r (of_nat (4096 * Suc v)) (of_nat (4096 * (Suc v + n))) (pa + PGSIZE) perm t = Some (0, s')" "pt_frame (2 * Suc n) r t s'"
    "\<And>w. w < 2 ^ 26 \<Longrightarrow> vmap (ram s') r w = (if Suc v \<le> w \<and> w \<le> Suc v + n then mapped_pte (pa + PGSIZE + of_nat (4096 * (w - Suc v))) perm else vmap (ram t) r w)"
    using Suc.IH [OF pt_frameD(1) [OF t(2)], of "Suc v" "pa + PGSIZE"] Suc.prems t(3) pt_frameD(3) [OF t(2)] by (auto simp: not_le)
  have "mappages_loop r (of_nat (4096 * v)) (of_nat (4096 * (v + Suc n))) pa perm s = Some (0, s')"
    using t(1) ne nx s'(1) by (metis add_Suc_shift)
  moreover have "pt_frame (2 * Suc (Suc n)) r s s'" using pt_frame_trans [OF t(2) s'(2)] by simp
  moreover have "vmap (ram s') r w = (if v \<le> w \<and> w \<le> v + Suc n then mapped_pte (pa + of_nat (4096 * (w - v))) perm else vmap (ram s) r w)" if w: "w < 2 ^ 26" for w
  proof (cases "Suc v \<le> w \<and> w \<le> Suc v + n")
    case True
    have "4096 * (w - v) = 4096 + 4096 * (w - Suc v)" using True by (simp add: Suc_diff_Suc algebra_simps)
    then have e: "pa + of_nat (4096 * (w - v)) = pa + PGSIZE + of_nat (4096 * (w - Suc v))" by (simp add: PGSIZE_def)
    show ?thesis unfolding e s'(3) [OF w] using True by auto
  next
    case False
    then show ?thesis using s'(3) [OF w] t(3) [OF w] by (cases "w = v") auto
  qed
  ultimately show ?case by blast
qed

lemma PGROUNDDOWN_page: "PGROUNDDOWN a = of_nat (4096 * vpn a)"
proof -
  have "unat (PGROUNDDOWN a) = unat a - unat a mod 4096"
    unfolding PGROUNDDOWN_eq using page_off(2) [of a] by (simp add: unat_sub word_le_nat_alt)
  also have "\<dots> = 4096 * vpn a" by (simp add: vpn_def minus_mod_eq_mult_div)
  finally have u: "unat (PGROUNDDOWN a) = 4096 * vpn a" .
  have "4096 * vpn a < 2 ^ 64" using unsigned_less [of "PGROUNDDOWN a", where ?'a = nat] u by simp
  then have "unat (of_nat (4096 * vpn a) :: u64) = 4096 * vpn a" by (intro unat_of_nat_less) simp
  with u have "unat (PGROUNDDOWN a) = unat (of_nat (4096 * vpn a) :: u64)" by metis
  then show ?thesis by (rule unsigned_word_eqI)
qed

text \<open>\<^verbatim>\<open>mappages\<close> for any range of bytes below \<^verbatim>\<open>MAXVA\<close>.\<close>

lemma mappages_spec:
  assumes ok: "pt_ok r s" and sz: "0 < sz" "unat va + unat sz \<le> 2 ^ 38"
    and free: "\<forall>w. vpn va \<le> w \<and> w \<le> vpn (va + sz - 1) \<longrightarrow> \<not> bit (vmap (ram s) r w) 0"
    and mem: "2 * Suc (vpn (va + sz - 1) - vpn va) \<le> mem_free s"
  shows "\<exists>s'. mappages r va sz pa perm s = Some (0, s') \<and> pt_frame (2 * Suc (vpn (va + sz - 1) - vpn va)) r s s' \<and>
    (\<forall>w < 2 ^ 26. vmap (ram s') r w =
      (if vpn va \<le> w \<and> w \<le> vpn (va + sz - 1) then mapped_pte (pa + of_nat (4096 * (w - vpn va))) perm else vmap (ram s) r w))"
proof -
  have u: "unat (va + sz - 1) = unat va + unat sz - 1"
  proof -
    have "unat (va + sz) = unat va + unat sz" using sz(2) by (simp add: unat_word_ariths)
    moreover have "1 \<le> va + sz" using calculation sz(1) by (simp add: word_le_nat_alt word_less_nat_alt)
    ultimately show ?thesis by (simp add: unat_sub)
  qed
  have sz1: "1 \<le> unat sz" using sz(1) by (simp add: word_less_nat_alt)
  have le: "vpn va \<le> vpn (va + sz - 1)" unfolding vpn_def u using sz1 by (intro div_le_mono) linarith
  have lt: "vpn (va + sz - 1) < 2 ^ 26" unfolding vpn_def u using sz(2) sz1 by (simp add: div_less_iff_less_mult)
  have "\<exists>s'. mappages_loop r (of_nat (4096 * vpn va)) (of_nat (4096 * vpn (va + sz - 1))) pa perm s = Some (0, s') \<and>
      pt_frame (2 * Suc (vpn (va + sz - 1) - vpn va)) r s s' \<and>
      (\<forall>w < 2 ^ 26. vmap (ram s') r w = (if vpn va \<le> w \<and> w \<le> vpn (va + sz - 1) then mapped_pte (pa + of_nat (4096 * (w - vpn va))) perm else vmap (ram s) r w))"
    using mappages_loop_spec [OF ok, of "vpn va" "vpn (va + sz - 1) - vpn va" pa perm] lt le free mem by simp
  then show ?thesis using sz(1) unfolding mappages_def PGROUNDDOWN_page by auto
qed

section \<open>Unmapping\<close>

definition refcnt :: "nat \<Rightarrow> 'a buddy_scheme \<Rightarrow> u32" where
  "refcnt a s = pg_refcnt (pages s ((a - PAGE_START) div PAGE_SIZE))"

lemma refcnt_page: "refcnt (PAGE_START + PAGE_SIZE * p) s = pg_refcnt (pages s p)"
  by (simp add: refcnt_def PAGE_SIZE_def)

text \<open>\<^verbatim>\<open>kfree\<close> gives back a page with one reference and drops a reference of a shared one.\<close>

lemma kfree_spec:
  assumes ok: "vm_ok s" and a: "a \<in> live_pages s"
  shows "\<exists>s'. kfree a s = Some s' \<and> vm_ok s' \<and> s' = s\<lparr>pages := pages s', free_lists := free_lists s'\<rparr> \<and>
    live_pages s' = (if refcnt a s \<le> 1 then live_pages s - {a} else live_pages s) \<and> mem_free s \<le> mem_free s' \<and>
    (\<forall>b. b \<in> live_pages s \<and> b \<noteq> a \<longrightarrow> refcnt b s' = refcnt b s) \<and> (1 < refcnt a s \<longrightarrow> refcnt a s' = refcnt a s - 1)"
proof -
  obtain p k where p: "(p, k) \<in> allocs (pages s)" "a = PAGE_START + PAGE_SIZE * p" using a by (auto simp: live_pages_def simp del: mem_allocs)
  have b: "buddy_inv s" "L_buddy \<notin> held s" "L_pages_ref \<notin> held s" using ok by (simp_all add: vm_ok_def)
  have kf: "kfree a s = buddy_free p s" using kfree_address [of p s] p by simp
  have rc: "refcnt a s = pg_refcnt (pages s p)" unfolding p(2) by (rule refcnt_page)
  show ?thesis
  proof (cases "pg_refcnt (pages s p) \<le> 1")
    case True
    then obtain s' where s': "buddy_free p s = Some s'" "free_post (p, k) s s'" using buddy_free_last [OF b p(1)] by blast
    note fp = s'(2) [unfolded free_post_def]
    have "held s' = held s" using fp buddy_upd_held by blast
    then have "vm_ok s'" using ok fp by (simp add: vm_ok_def)
    moreover have "live_pages s' = live_pages s - {a}"
    proof -
      have "fst ` allocs (pages s') = fst ` allocs (pages s) - {p}" using fp fst_allocs_remove [OF p(1)] by metis
      then show ?thesis using p(2) image_set_diff [OF inj_page_number, of "fst ` allocs (pages s)" "{p}"]
        by (simp only: live_pages_def image_insert image_empty)
    qed
    moreover have "mem_free s \<le> mem_free s'" unfolding mem_free_def by (rule card_mono) (use fp in auto)
    moreover have "refcnt b s' = refcnt b s" for b using fp by (simp add: refcnt_def)
    ultimately show ?thesis using s'(1) kf rc True fp by auto
  next
    case False
    have "is_first (pages s p)" using p(1) by simp
    note r = buddy_inv_refcnt [OF b(1) this, of "pg_refcnt (pages s p) - 1"]
    define s' where "s' = upd_page p (\<lambda>g. g\<lparr>pg_refcnt := pg_refcnt (pages s p) - 1\<rparr>) s"
    have bf: "buddy_free p s = Some s'"
      using buddy_free_shared [OF b(3), of p] False by (simp add: upd_page_def s'_def)
    have al: "allocs (pages s') = allocs (pages s)" using r by (simp add: s'_def)
    have "vm_ok s'" using b r by (simp add: vm_ok_def s'_def upd_page_def)
    moreover have "live_pages s' = live_pages s" "mem_free s' = mem_free s" by (simp_all add: live_pages_def mem_free_def al)
    moreover have "refcnt b s' = refcnt b s" if b': "b \<in> live_pages s" "b \<noteq> a" for b
    proof -
      obtain q where "b = PAGE_START + PAGE_SIZE * q" using b'(1) unfolding live_pages_def by blast
      then show ?thesis using b'(2) p(2) by (auto simp: refcnt_page s'_def upd_page_def)
    qed
    moreover have "refcnt a s' = refcnt a s - 1" unfolding p(2) refcnt_page by (simp add: s'_def upd_page_def)
    moreover have "s' = s\<lparr>pages := pages s', free_lists := free_lists s'\<rparr>" by (simp add: s'_def upd_page_def)
    ultimately show ?thesis using bf kf rc False by auto
  qed
qed

text \<open>The physical page of an entry, and when an entry may be unmapped.\<close>

abbreviation pa_of :: "u64 \<Rightarrow> nat" where "pa_of e \<equiv> unat (PTE2PA e)"

definition is_leaf :: "u64 \<Rightarrow> bool" where
  "is_leaf e \<longleftrightarrow> PTE_FLAGS e AND 0x3ff \<noteq> PTE_V"

definition is_table :: "memory \<Rightarrow> u64 \<Rightarrow> nat \<Rightarrow> bool" where
  "is_table m r a \<longleftrightarrow> (\<exists>n b. node_adr m r n = Some b \<and> unat b = a)"

text \<open>Unmapping pages \<open>v\<close> to \<open>v + n - 1\<close>: with \<open>fr\<close>, a page with one reference is given back.\<close>

definition unmap_post :: "bool \<Rightarrow> u64 \<Rightarrow> nat \<Rightarrow> nat \<Rightarrow> 'a vm_scheme \<Rightarrow> 'a vm_scheme \<Rightarrow> bool" where
  "unmap_post fr r v n s s' \<longleftrightarrow> pt_ok r s' \<and> mem_free s \<le> mem_free s' \<and> node_adr (ram s') r = node_adr (ram s) r \<and>
     (\<forall>w < 2 ^ 26. vmap (ram s') r w = (if v \<le> w \<and> w < v + n \<and> bit (vmap (ram s) r w) 0 then 0 else vmap (ram s) r w)) \<and>
     live_pages s' = live_pages s - {a. fr \<and> refcnt a s \<le> 1 \<and> (\<exists>w. v \<le> w \<and> w < v + n \<and> bit (vmap (ram s) r w) 0 \<and> pa_of (vmap (ram s) r w) = a)} \<and>
     (\<forall>b. b \<in> live_pages s \<and> (\<forall>w. v \<le> w \<and> w < v + n \<and> bit (vmap (ram s) r w) 0 \<longrightarrow> pa_of (vmap (ram s) r w) \<noteq> b) \<longrightarrow> refcnt b s' = refcnt b s) \<and>
     (\<forall>x. (\<forall>n a. node_adr (ram s) r n = Some a \<longrightarrow> x < unat a \<or> unat a + 4096 \<le> x) \<longrightarrow> ram s' x = ram s x) \<and>
     held s' = held s"

lemma unmap_postD:
  assumes "unmap_post fr r v n s s'"
  shows "pt_ok r s'" "mem_free s \<le> mem_free s'" "node_adr (ram s') r = node_adr (ram s) r"
    "w < 2 ^ 26 \<Longrightarrow> vmap (ram s') r w = (if v \<le> w \<and> w < v + n \<and> bit (vmap (ram s) r w) 0 then 0 else vmap (ram s) r w)"
    "live_pages s' = live_pages s - {a. fr \<and> refcnt a s \<le> 1 \<and> (\<exists>w. v \<le> w \<and> w < v + n \<and> bit (vmap (ram s) r w) 0 \<and> pa_of (vmap (ram s) r w) = a)}"
    "b \<in> live_pages s \<Longrightarrow> (\<And>w. v \<le> w \<Longrightarrow> w < v + n \<Longrightarrow> bit (vmap (ram s) r w) 0 \<Longrightarrow> pa_of (vmap (ram s) r w) \<noteq> b) \<Longrightarrow> refcnt b s' = refcnt b s"
    "(\<And>n a. node_adr (ram s) r n = Some a \<Longrightarrow> x < unat a \<or> unat a + 4096 \<le> x) \<Longrightarrow> ram s' x = ram s x" "held s' = held s"
  using assms unfolding unmap_post_def by blast+

definition unmappable :: "bool \<Rightarrow> u64 \<Rightarrow> nat \<Rightarrow> nat \<Rightarrow> 'a vm_scheme \<Rightarrow> bool" where
  "unmappable fr r v n s \<longleftrightarrow>
     (\<forall>w. v \<le> w \<and> w < v + n \<and> bit (vmap (ram s) r w) 0 \<longrightarrow> is_leaf (vmap (ram s) r w) \<and>
        (fr \<longrightarrow> pa_of (vmap (ram s) r w) \<in> live_pages s \<and> \<not> is_table (ram s) r (pa_of (vmap (ram s) r w)))) \<and>
     (\<forall>w w'. fr \<and> v \<le> w \<and> w < w' \<and> w' < v + n \<and> bit (vmap (ram s) r w) 0 \<and> bit (vmap (ram s) r w') 0 \<longrightarrow>
        pa_of (vmap (ram s) r w) \<noteq> pa_of (vmap (ram s) r w'))"

lemma unmap_step:
  assumes ok: "pt_ok r s" and v: "v < 2 ^ 26" and um: "unmappable fr r v (Suc n) s" and lt: "of_nat (4096 * v) < stop"
  shows "\<exists>t. uvmunmap_loop r (of_nat (4096 * v)) stop fr s = uvmunmap_loop r (of_nat (4096 * v) + PGSIZE) stop fr t \<and> unmap_post fr r v 1 s t"
proof -
  let ?va = "of_nat (4096 * v) :: u64" and ?e = "vmap (ram s) r v"
  note pa' = page_addr [OF v]
  note w = walk_find [OF ok pa'(1), unfolded pa'(2)]
  show ?thesis
  proof (cases "bit ?e 0")
    case False
    obtain pte where p: "walk r ?va False s = Some (pte, s)" "pte \<noteq> 0 \<longrightarrow> ld64 pte s = ?e" using walk_find_pte [OF ok pa'(1)] unfolding pa'(2) by blast
    have "uvmunmap_loop r ?va stop fr s = uvmunmap_loop r (?va + PGSIZE) stop fr s"
      using p lt False by (subst uvmunmap_loop.simps) (auto simp del: of_nat_mult)
    moreover have "unmap_post fr r v 1 s s" using ok False by (auto simp: unmap_post_def less_Suc_eq)
    ultimately show ?thesis by blast
  next
    case True
    obtain a where a: "node_adr (ram s) r (low_of v) = Some a"
      using True by (auto simp: vmap_def leaf_def simp del: node_adr.simps split: option.splits)
    have la: "unat a \<in> live_pages s" using pt_okD [OF ok a] .
    let ?p = "a + 8 * PX 0 ?va"
    have wf: "walk r ?va False s = Some (?p, s)" using w a by (simp del: node_adr.simps)
    have p0: "?p \<noteq> 0" using entry_addr(2) [OF la] .
    have ld: "ld64 ?p s = ?e" using ld64_entry [OF la, of 0 ?va] a by (simp add: vmap_def leaf_def PX_vpn [OF pa'(1)] pa'(2) del: node_adr.simps of_nat_mult)
    have lf: "is_leaf ?e" "fr \<Longrightarrow> pa_of ?e \<in> live_pages s" "fr \<Longrightarrow> \<not> is_table (ram s) r (pa_of ?e)" using um True by (auto simp: unmappable_def)
    have vo: "vm_ok s" "tree_ok (live_pages s) (ram s) r" using ok by (simp_all add: pt_ok_def)
    obtain u where u: "(if fr then kfree (pa_of ?e) s else Some s) = Some u" "vm_ok u" "ram u = ram s" "mem_free s \<le> mem_free u" "held u = held s"
      "live_pages u = live_pages s - {b. fr \<and> refcnt b s \<le> 1 \<and> b = pa_of ?e}" "\<forall>b. b \<in> live_pages s \<and> b \<noteq> pa_of ?e \<longrightarrow> refcnt b u = refcnt b s"
    proof (cases fr)
      case True
      obtain u where k: "kfree (pa_of ?e) s = Some u" "vm_ok u" "u = s\<lparr>pages := pages u, free_lists := free_lists u\<rparr>"
        "live_pages u = (if refcnt (pa_of ?e) s \<le> 1 then live_pages s - {pa_of ?e} else live_pages s)" "mem_free s \<le> mem_free u"
        "\<forall>b. b \<in> live_pages s \<and> b \<noteq> pa_of ?e \<longrightarrow> refcnt b u = refcnt b s"
        using kfree_spec [OF vo(1) lf(2) [OF True]] by (elim exE conjE) (rule that)
      have "ram u = ram s" "held u = held s" using arg_cong [OF k(3), of ram] arg_cong [OF k(3), of held] by simp_all
      then show ?thesis using that k True by (auto split: if_splits)
    qed (use that vo in auto)
    have okt: "pt_ok r u"
      using vo(2) u(2) lf(3) u(6) unfolding pt_ok_def tree_ok_def u(3) is_table_def by blast
    have au: "node_adr (ram u) r (low_of (vpn ?va)) = Some a" unfolding pa'(2) u(3) by (rule a)
    define t where "t = st64 ?p 0 u"
    note S = st_entry [OF okt pa'(1) au t_def, unfolded pa'(2)] and F = st_frame [OF okt pa'(1) au t_def]
    have f: "live_pages t = live_pages u" "mem_free t = mem_free u" "refcnt b t = refcnt b u" "held t = held u" for b
      by (simp_all add: t_def st64_def live_pages_def mem_free_def refcnt_def)
    have "uvmunmap_loop r ?va stop fr s = uvmunmap_loop r (?va + PGSIZE) stop fr t"
      using wf lt True p0 ld lf(1) u(1) by (subst uvmunmap_loop.simps) (cases fr; simp add: is_leaf_def t_def Let_def del: of_nat_mult bind_Some_iff)
    moreover have "unmap_post fr r v 1 s t"
      unfolding unmap_post_def
    proof (intro conjI)
      show "pt_ok r t" "mem_free s \<le> mem_free t" "node_adr (ram t) r = node_adr (ram s) r" "held t = held s" using S(1,3) f u by simp_all
      show "\<forall>w < 2 ^ 26. vmap (ram t) r w = (if v \<le> w \<and> w < v + 1 \<and> bit (vmap (ram s) r w) 0 then 0 else vmap (ram s) r w)"
        using S(2) u(3) True by auto
      show "live_pages t = live_pages s - {a. fr \<and> refcnt a s \<le> 1 \<and> (\<exists>w. v \<le> w \<and> w < v + 1 \<and> bit (vmap (ram s) r w) 0 \<and> pa_of (vmap (ram s) r w) = a)}"
      proof -
        have "(\<exists>w. v \<le> w \<and> w < v + 1 \<and> bit (vmap (ram s) r w) 0 \<and> pa_of (vmap (ram s) r w) = b) = (b = pa_of ?e)" for b
          using True by (metis Suc_eq_plus1 le_antisym less_Suc_eq_le lessI order_refl)
        then show ?thesis unfolding f u(6) by simp
      qed
      show "\<forall>b. b \<in> live_pages s \<and> (\<forall>w. v \<le> w \<and> w < v + 1 \<and> bit (vmap (ram s) r w) 0 \<longrightarrow> pa_of (vmap (ram s) r w) \<noteq> b) \<longrightarrow> refcnt b t = refcnt b s"
        using u(7) True f(3) by auto
      show "\<forall>x. (\<forall>n a. node_adr (ram s) r n = Some a \<longrightarrow> x < unat a \<or> unat a + 4096 \<le> x) \<longrightarrow> ram t x = ram s x"
        using S(4) a u(3) by metis
    qed
    ultimately show ?thesis by blast
  qed
qed

lemma unmap_post_Suc:
  assumes a: "unmap_post fr r v 1 s t" and um: "unmappable fr r v (Suc n) s" and b: "unmap_post fr r (Suc v) n t u" and v: "v + Suc n \<le> 2 ^ 26"
  shows "unmap_post fr r v (Suc n) s u"
proof -
  note A = unmap_postD [OF a] and B = unmap_postD [OF b]
  let ?m = "\<lambda>w. bit (vmap (ram s) r w) 0" and ?p = "\<lambda>w. pa_of (vmap (ram s) r w)"
  have vt: "vmap (ram t) r w = vmap (ram s) r w" if "w < 2 ^ 26" "w \<noteq> v" for w using A(4) [OF that(1)] that(2) by auto
  have lt: "w < 2 ^ 26" if "w < v + Suc n" for w using that v by linarith
  have rf: "refcnt (?p w) t = refcnt (?p w) s" if "v < w" "w < v + Suc n" "?m w" "fr" for w
  proof -
    have "?p w \<in> live_pages s" using um that unfolding unmappable_def by (meson less_imp_le)
    moreover have "?p x \<noteq> ?p w" if x: "v \<le> x \<and> x < v + 1 \<and> ?m x" for x
    proof -
      have "x = v" using x by simp
      then show ?thesis using um \<open>v < w\<close> \<open>w < v + Suc n\<close> \<open>?m w\<close> \<open>fr\<close> x unfolding unmappable_def by blast
    qed
    ultimately show ?thesis using A(6) by blast
  qed
  have ex: "(\<exists>w. v \<le> w \<and> w < v + Suc n \<and> Q w) \<longleftrightarrow> (\<exists>w. v \<le> w \<and> w < v + 1 \<and> Q w) \<or> (\<exists>w. Suc v \<le> w \<and> w < Suc v + n \<and> Q w)" for Q
  proof -
    have "v \<le> w \<and> w < v + Suc n \<longleftrightarrow> v \<le> w \<and> w < v + 1 \<or> Suc v \<le> w \<and> w < Suc v + n" for w by auto
    then show ?thesis by blast
  qed
  show ?thesis
    unfolding unmap_post_def
  proof (intro conjI)
    show "pt_ok r u" "mem_free s \<le> mem_free u" "node_adr (ram u) r = node_adr (ram s) r" "held u = held s" using A(2) B(1,2) by (simp_all add: A(3,8) B(3,8))
    show "\<forall>w < 2 ^ 26. vmap (ram u) r w = (if v \<le> w \<and> w < v + Suc n \<and> ?m w then 0 else vmap (ram s) r w)"
    proof (intro allI impI)
      fix w :: nat assume w: "w < 2 ^ 26"
      show "vmap (ram u) r w = (if v \<le> w \<and> w < v + Suc n \<and> ?m w then 0 else vmap (ram s) r w)"
        using A(4) [OF w] B(4) [OF w] vt [OF w] by (cases "w = v") auto
    qed
    show "live_pages u = live_pages s - {a. fr \<and> refcnt a s \<le> 1 \<and> (\<exists>w. v \<le> w \<and> w < v + Suc n \<and> ?m w \<and> ?p w = a)}"
    proof -
      let ?A = "{a. fr \<and> refcnt a s \<le> 1 \<and> (\<exists>w. v \<le> w \<and> w < v + 1 \<and> ?m w \<and> ?p w = a)}"
      let ?B = "{a. fr \<and> refcnt a t \<le> 1 \<and> (\<exists>w. Suc v \<le> w \<and> w < Suc v + n \<and> bit (vmap (ram t) r w) 0 \<and> pa_of (vmap (ram t) r w) = a)}"
      have "live_pages t = live_pages s - ?A" by (rule A(5))
      moreover have "live_pages u = live_pages t - ?B" by (rule B(5))
      ultimately have "live_pages u = live_pages s - (?A \<union> ?B)" by (simp only: Diff_eq Compl_Un Int_assoc)
      moreover have "?B = {a. fr \<and> refcnt a s \<le> 1 \<and> (\<exists>w. Suc v \<le> w \<and> w < Suc v + n \<and> ?m w \<and> ?p w = a)}"
        using vt rf lt by (auto simp: Suc_le_eq)
      then have "?A \<union> ?B = {a. fr \<and> refcnt a s \<le> 1 \<and> (\<exists>w. v \<le> w \<and> w < v + Suc n \<and> ?m w \<and> ?p w = a)}"
        unfolding ex by blast
      ultimately show ?thesis by simp
    qed
    show "\<forall>b. b \<in> live_pages s \<and> (\<forall>w. v \<le> w \<and> w < v + Suc n \<and> ?m w \<longrightarrow> ?p w \<noteq> b) \<longrightarrow> refcnt b u = refcnt b s"
    proof (intro allI impI, elim conjE)
      fix b assume b: "b \<in> live_pages s" "\<forall>w. v \<le> w \<and> w < v + Suc n \<and> ?m w \<longrightarrow> ?p w \<noteq> b"
      have rt: "refcnt b t = refcnt b s" by (rule A(6)) (use b in auto)
      have "b \<in> live_pages t" unfolding A(5) using b by auto
      moreover have "pa_of (vmap (ram t) r w) \<noteq> b" if "Suc v \<le> w \<and> w < Suc v + n \<and> bit (vmap (ram t) r w) 0" for w
        using b(2) vt [of w] lt [of w] that by auto
      ultimately show "refcnt b u = refcnt b s" unfolding rt [symmetric] by (intro B(6)) auto
    qed
    show "\<forall>x. (\<forall>n a. node_adr (ram s) r n = Some a \<longrightarrow> x < unat a \<or> unat a + 4096 \<le> x) \<longrightarrow> ram u x = ram s x"
    proof (intro allI impI)
      fix x assume x: "\<forall>n a. node_adr (ram s) r n = Some a \<longrightarrow> x < unat a \<or> unat a + 4096 \<le> x"
      have "ram u x = ram t x" by (rule B(7)) (use x A(3) in auto)
      also have "\<dots> = ram s x" by (rule A(7)) (use x in auto)
      finally show "ram u x = ram s x" .
    qed
  qed
qed

lemma unmappable_Suc:
  assumes a: "unmap_post fr r v 1 s t" and um: "unmappable fr r v (Suc n) s" and v: "v + Suc n \<le> 2 ^ 26"
  shows "unmappable fr r (Suc v) n t"
proof -
  note A = unmap_postD [OF a]
  have vt: "vmap (ram t) r w = vmap (ram s) r w" if "Suc v \<le> w" "w < Suc v + n" for w using A(4) [of w] that v by auto
  have tb: "is_table (ram t) r = is_table (ram s) r" using A(3) by (simp add: is_table_def fun_eq_iff)
  have lv: "pa_of (vmap (ram s) r w) \<in> live_pages t"
    if "Suc v \<le> w" "w < Suc v + n" "bit (vmap (ram s) r w) 0" "fr" for w
  proof -
    have "pa_of (vmap (ram s) r w) \<in> live_pages s" using um that unfolding unmappable_def by auto
    moreover have "pa_of (vmap (ram s) r x) \<noteq> pa_of (vmap (ram s) r w)" if "v \<le> x" "x < v + 1" "bit (vmap (ram s) r x) 0" for x
      using um \<open>Suc v \<le> w\<close> \<open>w < Suc v + n\<close> \<open>fr\<close> \<open>bit (vmap (ram s) r w) 0\<close> that unfolding unmappable_def
      by (metis Suc_eq_plus1 Suc_le_lessD add_Suc_shift le_antisym less_Suc_eq_le)
    ultimately show ?thesis unfolding A(5) by auto
  qed
  show ?thesis
    unfolding unmappable_def tb
  proof (intro conjI allI impI)
    fix w assume w: "Suc v \<le> w \<and> w < Suc v + n \<and> bit (vmap (ram t) r w) 0"
    then have e: "vmap (ram t) r w = vmap (ram s) r w" using vt by blast
    have "v \<le> w \<and> w < v + Suc n \<and> bit (vmap (ram s) r w) 0" using w e by simp
    then have q: "is_leaf (vmap (ram s) r w)" "fr \<longrightarrow> \<not> is_table (ram s) r (pa_of (vmap (ram s) r w))" using um unfolding unmappable_def by blast+
    show "is_leaf (vmap (ram t) r w)" using q e by simp
    assume fr
    then show "pa_of (vmap (ram t) r w) \<in> live_pages t" "\<not> is_table (ram s) r (pa_of (vmap (ram t) r w))" using q e lv [of w] w by simp_all
  next
    fix w w' assume "fr \<and> Suc v \<le> w \<and> w < w' \<and> w' < Suc v + n \<and> bit (vmap (ram t) r w) 0 \<and> bit (vmap (ram t) r w') 0"
    then show "pa_of (vmap (ram t) r w) \<noteq> pa_of (vmap (ram t) r w')" using vt [of w] vt [of w'] um unfolding unmappable_def by auto
  qed
qed

lemma uvmunmap_loop_spec:
  assumes "pt_ok r s" "v + n \<le> 2 ^ 26" "unmappable fr r v n s"
  shows "\<exists>s'. uvmunmap_loop r (of_nat (4096 * v)) (of_nat (4096 * (v + n))) fr s = Some s' \<and> unmap_post fr r v n s s'"
  using assms
proof (induction n arbitrary: v s)
  case 0
  then show ?case by (subst uvmunmap_loop.simps) (auto simp: unmap_post_def)
next
  case (Suc n)
  have v: "v < 2 ^ 26" using Suc.prems(2) by simp
  have "4096 * (v + Suc n) < 2 ^ 64" using Suc.prems(2) by simp
  then have us: "unat (of_nat (4096 * (v + Suc n)) :: u64) = 4096 * (v + Suc n)" by (intro unat_of_nat_less) simp
  have lt: "(of_nat (4096 * v) :: u64) < of_nat (4096 * (v + Suc n))" unfolding word_less_nat_alt us page_addr(3) [OF v] by simp
  obtain t where t: "uvmunmap_loop r (of_nat (4096 * v)) (of_nat (4096 * (v + Suc n))) fr s =
      uvmunmap_loop r (of_nat (4096 * v) + PGSIZE) (of_nat (4096 * (v + Suc n))) fr t" "unmap_post fr r v 1 s t"
    using unmap_step [OF Suc.prems(1) v Suc.prems(3) lt] by blast
  have nx: "(of_nat (4096 * v) :: u64) + PGSIZE = of_nat (4096 * Suc v)" by (simp add: PGSIZE_def)
  have okt: "pt_ok r t" using t(2) by (simp add: unmap_post_def)
  obtain s' where s': "uvmunmap_loop r (of_nat (4096 * Suc v)) (of_nat (4096 * (Suc v + n))) fr t = Some s'" "unmap_post fr r (Suc v) n t s'"
    using Suc.IH [OF okt, of "Suc v"] Suc.prems(2) unmappable_Suc [OF t(2) Suc.prems(3,2)] by auto
  have "unmap_post fr r v (Suc n) s s'" by (rule unmap_post_Suc [OF t(2) Suc.prems(3) s'(2) Suc.prems(2)])
  moreover have "uvmunmap_loop r (of_nat (4096 * v)) (of_nat (4096 * (v + Suc n))) fr s = Some s'" using t(1) nx s'(1) by (metis add_Suc_shift)
  ultimately show ?case by blast
qed

end
