(* ===== verification/Vm_User.thy ===== *)
theory Vm_User
  imports Vm_Correct
begin

text \<open>
  User memory through a page table: \<^verbatim>\<open>walkaddr\<close>, \<^verbatim>\<open>copyin\<close>, \<^verbatim>\<open>copyout\<close> and the copy on write, and the
  properties of virtual memory.
\<close>

unbundle bit_operations_syntax

section \<open>User memory\<close>

lemma walkaddr_spec:
  assumes ok: "pt_ok r s"
  shows "walkaddr r va s = Some (if va < MAXVA \<and> bit (vmap (ram s) r (vpn va)) 0 \<and> bit (vmap (ram s) r (vpn va)) 4 then PTE2PA (vmap (ram s) r (vpn va)) else 0)"
proof (cases "va < MAXVA")
  case True
  obtain pte where "walk r va False s = Some (pte, s)" "pte = 0 \<longrightarrow> vmap (ram s) r (vpn va) = 0" "pte \<noteq> 0 \<longrightarrow> ld64 pte s = vmap (ram s) r (vpn va)"
    using walk_find_pte [OF ok True] by blast
  then show ?thesis using True by (auto simp: walkaddr_def not_le [symmetric])
next
  case False
  then show ?thesis by (auto simp: walkaddr_def not_less)
qed

text \<open>The physical address of a user address, and a page a user can read or write.\<close>

definition phys :: "memory \<Rightarrow> u64 \<Rightarrow> nat \<Rightarrow> nat" where
  "phys m r va = pa_of (vmap m r (va div 4096)) + va mod 4096"

definition readable :: "u64 \<Rightarrow> 'a vm_scheme \<Rightarrow> nat \<Rightarrow> bool" where
  "readable r s v \<longleftrightarrow> bit (vmap (ram s) r v) 0 \<and> bit (vmap (ram s) r v) 4 \<and> pa_of (vmap (ram s) r v) \<in> live_pages s \<and> \<not> is_table (ram s) r (pa_of (vmap (ram s) r v))"

text \<open>Bytes outside the pages of the table do not matter to the map.\<close>

lemma vmap_cong:
  assumes "\<And>n a x. node_adr m r n = Some a \<Longrightarrow> x < 4096 \<Longrightarrow> m' (unat a + x) = m (unat a + x)"
  shows "node_adr m' r = node_adr m r" "vmap m' r = vmap m r"
proof -
  show na: "node_adr m' r = node_adr m r" by (rule node_adr_cong) (rule assms)
  have "leaf m' r i j k = leaf m r i j k" if k: "k < 512" for i j k
  proof -
    have "get64 m' (unat a + 8 * k) = get64 m (unat a + 8 * k)" if a: "node_adr m r (Low i j) = Some a" for a
    proof (rule get_cong(3))
      fix y assume "unat a + 8 * k \<le> y" "y < unat a + 8 * k + 8"
      then show "m' y = m y" using assms [OF a, of "y - unat a"] k by simp
    qed
    then show ?thesis by (auto simp: leaf_def na simp del: node_adr.simps split: option.splits)
  qed
  then show "vmap m' r = vmap m r" by (simp add: vmap_def fun_eq_iff)
qed

text \<open>A range of kernel or physical memory that is clear of the pages of the table.\<close>

definition clear_of :: "u64 \<Rightarrow> 'a vm_scheme \<Rightarrow> nat \<Rightarrow> nat \<Rightarrow> bool" where
  "clear_of r s p n \<longleftrightarrow> (\<forall>l a x. node_adr (ram s) r l = Some a \<and> p \<le> x \<and> x < p + n \<longrightarrow> x < unat a \<or> unat a + 4096 \<le> x)"

lemma clear_write:
  assumes ok: "pt_ok r s" and c: "clear_of r s p n" and m: "\<And>x. \<not> (p \<le> x \<and> x < p + n) \<Longrightarrow> m' x = ram s x"
  shows "pt_ok r (s\<lparr>ram := m'\<rparr>)" "vmap m' r = vmap (ram s) r" "node_adr m' r = node_adr (ram s) r"
proof -
  have same: "m' (unat a + x) = ram s (unat a + x)" if "node_adr (ram s) r l = Some a" "x < 4096" for l a x
    using c that by (intro m) (fastforce simp: clear_of_def simp del: node_adr.simps)
  show v: "vmap m' r = vmap (ram s) r" and na: "node_adr m' r = node_adr (ram s) r" using vmap_cong [of "ram s" r m'] same by blast+
  show "pt_ok r (s\<lparr>ram := m'\<rparr>)" using ok by (simp add: pt_ok_def tree_ok_def na vm_ok_def buddy_inv_def live_pages_def)
qed

lemma clear_of_sub: "clear_of r s p n \<Longrightarrow> q \<ge> p \<Longrightarrow> q + k \<le> p + n \<Longrightarrow> clear_of r s q k"
  unfolding clear_of_def by (meson dual_order.trans order_less_le_trans)

text \<open>The page of a user address is clear of the table.\<close>

lemma frame_clear:
  assumes ok: "pt_ok r s" and v: "readable r s v"
  shows "clear_of r s (pa_of (vmap (ram s) r v)) 4096"
proof -
  have "pa_of (vmap (ram s) r v) + 4096 \<le> unat a \<or> unat a + 4096 \<le> pa_of (vmap (ram s) r v)" if a: "node_adr (ram s) r l = Some a" for l a
  proof (rule live_apart)
    show "pa_of (vmap (ram s) r v) \<in> live_pages s" "unat a \<in> live_pages s" using v pt_okD [OF ok a] by (simp_all add: readable_def)
    show "pa_of (vmap (ram s) r v) \<noteq> unat a" using v a unfolding readable_def is_table_def by metis
  qed
  then show ?thesis unfolding clear_of_def by (meson le_trans not_less order_less_le_trans)
qed

lemma page_part_unat: "unat (page_part va len) = min (unat len) (4096 - unat va mod 4096)"
proof -
  have m: "unat (va - PGROUNDDOWN va) = unat va mod 4096" by (simp add: page_off)
  have "unat va mod 4096 < 4096" by simp
  then have "unat (PGSIZE - (va - PGROUNDDOWN va)) = 4096 - unat va mod 4096" using m by (simp add: PGSIZE_def unat_sub word_le_nat_alt)
  then show ?thesis by (simp add: page_part_def Let_def word_less_nat_alt min_def not_less)
qed

lemma next_page:
  fixes a m n :: nat
  assumes "m = min n (4096 - a mod 4096)" "0 < n"
  shows "0 < m" "m \<le> n" "a mod 4096 + m \<le> 4096" "i < m \<Longrightarrow> (a + i) div 4096 = a div 4096" "i < m \<Longrightarrow> (a + i) mod 4096 = a mod 4096 + i"
    "m < n \<Longrightarrow> 4096 * (a div 4096) + 4096 = a + m"
proof -
  have lt: "a mod 4096 < 4096" for a :: nat by simp
  show "0 < m" "m \<le> n" "a mod 4096 + m \<le> 4096" using assms lt [of a] by auto
  then have le: "i < m \<Longrightarrow> a mod 4096 + i < 4096" by linarith
  have e: "a + i = (a mod 4096 + i) + a div 4096 * 4096" using div_mult_mod_eq [of a 4096] by linarith
  show "i < m \<Longrightarrow> (a + i) div 4096 = a div 4096" "i < m \<Longrightarrow> (a + i) mod 4096 = a mod 4096 + i"
    unfolding e div_mult_self1 [OF zero_neq_numeral [symmetric]] mod_mult_self1 using le by simp_all
  assume "m < n"
  then have "m = 4096 - a mod 4096" using assms(1) by simp
  then show "4096 * (a div 4096) + 4096 = a + m" using lt [of a] mult_div_mod_eq [of 4096 a] by linarith
qed

lemma copyin_spec:
  assumes "pt_ok r s" "unat srcva + unat len \<le> 2 ^ 38" "unat dst + unat len < 2 ^ 64" "clear_of r s (unat dst) (unat len)"
    "\<forall>i < unat len. readable r s ((unat srcva + i) div 4096)"
    "\<forall>i < unat len. \<forall>j < unat len. phys (ram s) r (unat srcva + i) \<noteq> unat dst + j"
  shows "copyin r dst srcva len s =
    Some (0, s\<lparr>ram := \<lambda>x. if unat dst \<le> x \<and> x < unat dst + unat len then ram s (phys (ram s) r (unat srcva + (x - unat dst))) else ram s x\<rparr>)"
  using assms
proof (induction "unat len" arbitrary: dst srcva len s rule: less_induct)
  case less
  show ?case
  proof (cases "len = 0")
    case True
    have "(\<lambda>x. if unat dst \<le> x \<and> x < unat dst + unat len then ram s (phys (ram s) r (unat srcva + (x - unat dst))) else ram s x) = ram s" using True by (auto simp: fun_eq_iff)
    then show ?thesis using True by (subst copyin.simps) simp
  next
    case False
    then have lp: "0 < len" "0 < unat len" by (simp_all add: word_gt_0 word_less_nat_alt unat_gt_0)
    define n where "n = page_part srcva len"
    have un: "unat n = min (unat len) (4096 - unat srcva mod 4096)" by (simp add: n_def page_part_unat)
    note np = next_page [OF un lp(2)]
    let ?v = "unat srcva div 4096" and ?va0 = "PGROUNDDOWN srcva"
    have va: "?va0 = of_nat (4096 * ?v)" by (simp only: PGROUNDDOWN_page vpn_def)
    have v: "?v < 2 ^ 26" using less.prems(2) lp(2) by (simp add: div_less_iff_less_mult)
    note pa = page_addr [OF v, folded va]
    have rd: "readable r s ?v" using less.prems(5) lp(2) by (metis add.right_neutral)
    let ?pa = "PTE2PA (vmap (ram s) r ?v)"
    have wa: "walkaddr r ?va0 s = Some ?pa" using walkaddr_spec [OF less.prems(1), of ?va0] rd pa(1,2) by (simp add: readable_def)
    have lpa: "unat ?pa \<in> live_pages s" using rd by (simp add: readable_def)
    have pa0: "?pa \<noteq> 0" using live_page(2) [OF lpa] by (auto simp: PAGE_START_def)
    have off: "unat (srcva - ?va0) = unat srcva mod 4096" by (simp add: page_off)
    have upa: "unat (?pa + (srcva - ?va0)) = phys (ram s) r (unat srcva)"
      using off live_page(1) [OF lpa] unfolding phys_def by (simp add: unat_word_ariths)
    define s1 where "s1 = move_at dst (?pa + (srcva - ?va0)) n s"
    have r1: "ram s1 = (\<lambda>x. if unat dst \<le> x \<and> x < unat dst + unat n then ram s (phys (ram s) r (unat srcva + (x - unat dst))) else ram s x)"
    proof
      fix x
      have "phys (ram s) r (unat srcva) + (x - unat dst) = phys (ram s) r (unat srcva + (x - unat dst))" if x: "unat dst \<le> x \<and> x < unat dst + unat n"
      proof -
        have i: "x - unat dst < unat n" using x by linarith
        show ?thesis unfolding phys_def np(4,5) [OF i] by simp
      qed
      then show "ram s1 x = (if unat dst \<le> x \<and> x < unat dst + unat n then ram s (phys (ram s) r (unat srcva + (x - unat dst))) else ram s x)"
        by (simp add: s1_def move_at_def memmove_eq upa)
    qed
    have e1: "s1 = s\<lparr>ram := ram s1\<rparr>" by (simp add: s1_def move_at_def)
    have cl: "clear_of r s (unat dst) (unat n)" using clear_of_sub [OF less.prems(4)] np(2) by simp
    note C = clear_write [OF less.prems(1) cl, of "ram s1", folded e1]
    have out1: "\<not> (unat dst \<le> x \<and> x < unat dst + unat n) \<Longrightarrow> ram s1 x = ram s x" for x by (auto simp: r1)
    have ok1: "pt_ok r s1" "vmap (ram s1) r = vmap (ram s) r" "node_adr (ram s1) r = node_adr (ram s) r" using C out1 by blast+
    have step: "copyin r dst srcva len s = copyin r (dst + n) (?va0 + PGSIZE) (len - n) s1"
      using lp wa pa0 by (subst copyin.simps) (simp add: Let_def n_def [symmetric] s1_def)
    have ul: "unat (len - n) = unat len - unat n" "unat (dst + n) = unat dst + unat n"
      using np(2) less.prems(3) by (simp_all add: unat_sub word_le_nat_alt unat_word_ariths)
    show ?thesis
    proof (cases "unat n < unat len")
      case False
      then have "len - n = 0" "unat n = unat len" using np(2) ul(1) by (auto simp: unat_eq_zero)
      then show ?thesis using step r1 e1 by (subst (asm) (2) copyin.simps) auto
    next
      case True
      have sva: "unat (?va0 + PGSIZE) = unat srcva + unat n"
        using np(6) [OF True] pa(3) v by (simp add: PGSIZE_def unat_word_ariths)
      have ph: "phys (ram s1) r = phys (ram s) r" by (simp add: phys_def fun_eq_iff ok1(2))
      have rd1: "readable r s1 w = readable r s w" for w
        unfolding readable_def ok1(2) is_table_def ok1(3) by (simp add: live_pages_def s1_def move_at_def)
      have IH: "copyin r (dst + n) (?va0 + PGSIZE) (len - n) s1 =
        Some (0, s1\<lparr>ram := \<lambda>x. if unat (dst + n) \<le> x \<and> x < unat (dst + n) + unat (len - n) then ram s1 (phys (ram s1) r (unat (?va0 + PGSIZE) + (x - unat (dst + n)))) else ram s1 x\<rparr>)"
      proof (rule less.hyps)
        show "unat (len - n) < unat len" "pt_ok r s1" using ul np(1) lp ok1 by simp_all
        show "unat (?va0 + PGSIZE) + unat (len - n) \<le> 2 ^ 38" "unat (dst + n) + unat (len - n) < 2 ^ 64" using sva ul less.prems(2,3) np(2) by simp_all
        show "clear_of r s1 (unat (dst + n)) (unat (len - n))"
          using clear_of_sub [OF less.prems(4), of "unat (dst + n)" "unat (len - n)"] ul np(2) unfolding clear_of_def ok1(3) by simp
        show "\<forall>i < unat (len - n). readable r s1 ((unat (?va0 + PGSIZE) + i) div 4096)"
          using less.prems(5) unfolding rd1 sva ul by (simp add: add.assoc)
        show "\<forall>i < unat (len - n). \<forall>j < unat (len - n). phys (ram s1) r (unat (?va0 + PGSIZE) + i) \<noteq> unat (dst + n) + j"
          using less.prems(6) unfolding ph sva ul by (simp add: add.assoc)
      qed
      have fin: "(if unat (dst + n) \<le> x \<and> x < unat (dst + n) + unat (len - n) then ram s1 (phys (ram s1) r (unat (?va0 + PGSIZE) + (x - unat (dst + n)))) else ram s1 x) =
          (if unat dst \<le> x \<and> x < unat dst + unat len then ram s (phys (ram s) r (unat srcva + (x - unat dst))) else ram s x)" for x
      proof (cases "unat (dst + n) \<le> x \<and> x < unat (dst + n) + unat (len - n)")
        case True
        then have x: "unat dst + unat n \<le> x" "x < unat dst + unat len" using ul np(2) by auto
        then have i: "unat srcva + unat n + (x - (unat dst + unat n)) = unat srcva + (x - unat dst)" by simp
        have "phys (ram s) r (unat srcva + (x - unat dst)) \<noteq> unat dst + j" if "j < unat len" for j
          using less.prems(6) x that by (metis add_diff_inverse_nat add_lessD1 leD le_add1 less_diff_conv2 nat_add_left_cancel_less)
        then have "\<not> (unat dst \<le> phys (ram s) r (unat srcva + (x - unat dst)) \<and> phys (ram s) r (unat srcva + (x - unat dst)) < unat dst + unat n)"
          using np(2) by (metis le_add_diff_inverse nat_add_left_cancel_less order_less_le_trans)
        then have "ram s1 (phys (ram s) r (unat srcva + (x - unat dst))) = ram s (phys (ram s) r (unat srcva + (x - unat dst)))" by (rule out1)
        then show ?thesis using True x i unfolding ph sva ul by simp
      next
        case False
        then show ?thesis using ul np(2) by (auto simp: r1)
      qed
      have es: "s1\<lparr>ram := m\<rparr> = s\<lparr>ram := m\<rparr>" for m using arg_cong [OF e1, of "\<lambda>v. v\<lparr>ram := m\<rparr>"] by simp
      show ?thesis using step IH unfolding fin es by simp
    qed
  qed
qed

text \<open>A page that may be written through: no copy is due.\<close>

definition writable :: "u64 \<Rightarrow> 'a vm_scheme \<Rightarrow> nat \<Rightarrow> bool" where
  "writable r s v \<longleftrightarrow> readable r s v \<and> bit (vmap (ram s) r v) 2"

lemma cow_writable:
  assumes ok: "pt_ok r s" and va: "va < MAXVA" and w: "writable r s (vpn va)"
  shows "alloc_cow_page r va s = Some (1, s)"
proof -
  obtain pte where "walk r va False s = Some (pte, s)" "pte \<noteq> 0 \<longrightarrow> ld64 pte s = vmap (ram s) r (vpn va)"
    using walk_find_pte [OF ok va] by blast
  then show ?thesis using va w by (auto simp: alloc_cow_page_def writable_def readable_def not_le [symmetric])
qed

lemma copyout_spec:
  assumes "pt_ok r s" "unat dstva + unat len \<le> 2 ^ 38" "unat src + unat len < 2 ^ 64"
    "\<forall>i < unat len. writable r s ((unat dstva + i) div 4096)"
    "\<forall>i < unat len. \<forall>j < unat len. phys (ram s) r (unat dstva + i) \<noteq> unat src + j"
    "\<forall>i < unat len. \<forall>j < unat len. i \<noteq> j \<longrightarrow> phys (ram s) r (unat dstva + i) \<noteq> phys (ram s) r (unat dstva + j)"
  shows "\<exists>m'. copyout r dstva src len s = Some (0, s\<lparr>ram := m'\<rparr>) \<and> pt_ok r (s\<lparr>ram := m'\<rparr>) \<and> vmap m' r = vmap (ram s) r \<and> node_adr m' r = node_adr (ram s) r \<and>
    (\<forall>i < unat len. m' (phys (ram s) r (unat dstva + i)) = ram s (unat src + i)) \<and>
    (\<forall>x. (\<forall>i < unat len. phys (ram s) r (unat dstva + i) \<noteq> x) \<longrightarrow> m' x = ram s x)"
  using assms
proof (induction "unat len" arbitrary: dstva src len s rule: less_induct)
  case less
  show ?case
  proof (cases "len = 0")
    case True
    then show ?thesis using less.prems(1) by (subst copyout.simps) (auto intro!: exI [of _ "ram s"])
  next
    case False
    then have lp: "0 < len" "0 < unat len" by (simp_all add: word_gt_0 word_less_nat_alt unat_gt_0)
    define n where "n = page_part dstva len"
    have un: "unat n = min (unat len) (4096 - unat dstva mod 4096)" by (simp add: n_def page_part_unat)
    note np = next_page [OF un lp(2)]
    let ?v = "unat dstva div 4096" and ?va0 = "PGROUNDDOWN dstva"
    have va: "?va0 = of_nat (4096 * ?v)" by (simp only: PGROUNDDOWN_page vpn_def)
    have v: "?v < 2 ^ 26" using less.prems(2) lp(2) by (simp add: div_less_iff_less_mult)
    note pa = page_addr [OF v, folded va]
    have wr: "writable r s ?v" using less.prems(4) lp(2) by (metis add.right_neutral)
    then have rd: "readable r s ?v" by (simp add: writable_def)
    let ?pa = "PTE2PA (vmap (ram s) r ?v)"
    have wa: "walkaddr r ?va0 s = Some ?pa" using walkaddr_spec [OF less.prems(1), of ?va0] rd pa(1,2) by (simp add: readable_def)
    have cow: "alloc_cow_page r ?va0 s = Some (1, s)" by (rule cow_writable [OF less.prems(1) pa(1)]) (use wr pa(2) in simp)
    have lpa: "unat ?pa \<in> live_pages s" using rd by (simp add: readable_def)
    have pa0: "?pa \<noteq> 0" using live_page(2) [OF lpa] by (auto simp: PAGE_START_def)
    have off: "unat (dstva - ?va0) = unat dstva mod 4096" by (simp add: page_off)
    let ?b = "phys (ram s) r (unat dstva)"
    have ub: "unat (?pa + (dstva - ?va0)) = ?b" using off live_page(1) [OF lpa] unfolding phys_def by (simp add: unat_word_ariths)
    have ph: "phys (ram s) r (unat dstva + i) = ?b + i" if "i < unat n" for i unfolding phys_def np(4,5) [OF that] by simp
    define s1 where "s1 = move_at (?pa + (dstva - ?va0)) src n s"
    have r1: "ram s1 = (\<lambda>x. if ?b \<le> x \<and> x < ?b + unat n then ram s (unat src + (x - ?b)) else ram s x)"
      by (simp add: s1_def move_at_def memmove_eq ub)
    have e1: "s1 = s\<lparr>ram := ram s1\<rparr>" by (simp add: s1_def move_at_def)
    have cl: "clear_of r s ?b (unat n)"
      by (rule clear_of_sub [OF frame_clear [OF less.prems(1) rd]]) (use np(3) in \<open>simp_all add: phys_def\<close>)
    have out1: "\<not> (?b \<le> x \<and> x < ?b + unat n) \<Longrightarrow> ram s1 x = ram s x" for x by (auto simp: r1)
    note C = clear_write [OF less.prems(1) cl, of "ram s1", folded e1]
    have ok1: "pt_ok r s1" "vmap (ram s1) r = vmap (ram s) r" "node_adr (ram s1) r = node_adr (ram s) r" using C out1 by blast+
    have step: "copyout r dstva src len s = copyout r (?va0 + PGSIZE) (src + n) (len - n) s1"
      using lp wa pa0 cow by (subst copyout.simps) (simp add: Let_def n_def [symmetric] s1_def)
    have ul: "unat (len - n) = unat len - unat n" "unat (src + n) = unat src + unat n"
      using np(2) less.prems(3) by (simp_all add: unat_sub word_le_nat_alt unat_word_ariths)
    have in1: "ram s1 (phys (ram s) r (unat dstva + i)) = ram s (unat src + i)" if "i < unat n" for i
      unfolding ph [OF that] using that by (simp add: r1)
    have hit: "x = phys (ram s) r (unat dstva + (x - ?b)) \<and> x - ?b < unat n" if "?b \<le> x \<and> x < ?b + unat n" for x
      using ph [of "x - ?b"] that by auto
    show ?thesis
    proof (cases "unat n < unat len")
      case False
      then have z: "len - n = 0" "unat n = unat len" using np(2) ul(1) by (auto simp: unat_eq_zero)
      have "copyout r dstva src len s = Some (0, s1)" using step z(1) by (subst (asm) (2) copyout.simps) simp
      moreover have "ram s1 x = ram s x" if "\<forall>i < unat len. phys (ram s) r (unat dstva + i) \<noteq> x" for x
        using out1 [of x] hit [of x] that z(2) by metis
      ultimately show ?thesis using ok1 in1 e1 z(2) by (intro exI [of _ "ram s1"]) auto
    next
      case True
      have sva: "unat (?va0 + PGSIZE) = unat dstva + unat n"
        using np(6) [OF True] pa(3) v by (simp add: PGSIZE_def unat_word_ariths)
      have ph1: "phys (ram s1) r = phys (ram s) r" by (simp add: phys_def fun_eq_iff ok1(2))
      have wr1: "writable r s1 w = writable r s w" for w
        unfolding writable_def readable_def ok1(2) is_table_def ok1(3) by (simp add: live_pages_def s1_def move_at_def)
      let ?q = "\<lambda>i. phys (ram s) r (unat dstva + i)"
      have "\<exists>m'. copyout r (?va0 + PGSIZE) (src + n) (len - n) s1 = Some (0, s1\<lparr>ram := m'\<rparr>) \<and> pt_ok r (s1\<lparr>ram := m'\<rparr>) \<and> vmap m' r = vmap (ram s1) r \<and>
        node_adr m' r = node_adr (ram s1) r \<and> (\<forall>i < unat (len - n). m' (phys (ram s1) r (unat (?va0 + PGSIZE) + i)) = ram s1 (unat (src + n) + i)) \<and>
        (\<forall>x. (\<forall>i < unat (len - n). phys (ram s1) r (unat (?va0 + PGSIZE) + i) \<noteq> x) \<longrightarrow> m' x = ram s1 x)"
      proof (rule less.hyps)
        show "unat (len - n) < unat len" "pt_ok r s1" using ul np(1) lp ok1 by simp_all
        show "unat (?va0 + PGSIZE) + unat (len - n) \<le> 2 ^ 38" "unat (src + n) + unat (len - n) < 2 ^ 64" using sva ul less.prems(2,3) np(2) by simp_all
        show "\<forall>i < unat (len - n). writable r s1 ((unat (?va0 + PGSIZE) + i) div 4096)"
          using less.prems(4) unfolding wr1 sva ul by (simp add: add.assoc)
        show "\<forall>i < unat (len - n). \<forall>j < unat (len - n). phys (ram s1) r (unat (?va0 + PGSIZE) + i) \<noteq> unat (src + n) + j"
          using less.prems(5) unfolding ph1 sva ul by (simp add: add.assoc)
        show "\<forall>i < unat (len - n). \<forall>j < unat (len - n). i \<noteq> j \<longrightarrow> phys (ram s1) r (unat (?va0 + PGSIZE) + i) \<noteq> phys (ram s1) r (unat (?va0 + PGSIZE) + j)"
          using less.prems(6) unfolding ph1 sva ul by (simp add: add.assoc)
      qed
      then obtain m' where m: "copyout r (?va0 + PGSIZE) (src + n) (len - n) s1 = Some (0, s1\<lparr>ram := m'\<rparr>)" "pt_ok r (s1\<lparr>ram := m'\<rparr>)" "vmap m' r = vmap (ram s1) r"
        "node_adr m' r = node_adr (ram s1) r" "\<And>i. i < unat len - unat n \<Longrightarrow> m' (?q (unat n + i)) = ram s1 (unat src + unat n + i)"
        "\<And>x. (\<And>i. i < unat len - unat n \<Longrightarrow> ?q (unat n + i) \<noteq> x) \<Longrightarrow> m' x = ram s1 x"
        unfolding ph1 sva ul by (auto simp: add.assoc)
      have es: "s1\<lparr>ram := m'\<rparr> = s\<lparr>ram := m'\<rparr>" using arg_cong [OF e1, of "\<lambda>v. v\<lparr>ram := m'\<rparr>"] by simp
      have src_kept: "ram s1 (unat src + i) = ram s (unat src + i)" if "i < unat len" for i
      proof (rule out1)
        show "\<not> (?b \<le> unat src + i \<and> unat src + i < ?b + unat n)"
        proof
          assume "?b \<le> unat src + i \<and> unat src + i < ?b + unat n"
          from hit [OF this] have "unat src + i = ?q (unat src + i - ?b)" "unat src + i - ?b < unat len" using np(2) by auto
          then show False using less.prems(5) that by metis
        qed
      qed
      have "m' (?q i) = ram s (unat src + i)" if i: "i < unat len" for i
      proof (cases "i < unat n")
        case True
        have "m' (?q i) = ram s1 (?q i)"
        proof (rule m(6))
          fix j assume "j < unat len - unat n"
          then have "unat n + j < unat len" "unat n + j \<noteq> i" using True by auto
          then show "?q (unat n + j) \<noteq> ?q i" using less.prems(6) i by blast
        qed
        then show ?thesis using in1 [OF True] by simp
      next
        case False
        then show ?thesis using m(5) [of "i - unat n"] src_kept [OF i] i by simp
      qed
      moreover have "m' x = ram s x" if x: "\<forall>i < unat len. ?q i \<noteq> x" for x
      proof -
        have "m' x = ram s1 x" by (rule m(6)) (use x in auto)
        also have "\<dots> = ram s x"
        proof (rule out1)
          show "\<not> (?b \<le> x \<and> x < ?b + unat n)" using hit [of x] x np(2) by (metis order_less_le_trans)
        qed
        finally show ?thesis .
      qed
      ultimately show ?thesis using step m(1,2,3,4) ok1 unfolding es by (intro exI [of _ m']) auto
    qed
  qed
qed

section \<open>One page\<close>

lemma map_one:
  assumes ok: "pt_ok r s" and va: "va < MAXVA" and nb: "\<not> bit (vmap (ram s) r (vpn va)) 0" and fr: "2 \<le> mem_free s"
  shows "\<exists>s'. mappages r (PGROUNDDOWN va) PGSIZE pa perm s = Some (0, s') \<and> pt_frame 2 r s s' \<and>
    (\<forall>w < 2 ^ 26. vmap (ram s') r w = (if w = vpn va then mapped_pte pa perm else vmap (ram s) r w))"
proof -
  let ?v = "vpn va" and ?a = "PGROUNDDOWN va"
  have v: "?v < 2 ^ 26" using PX_vpn(4) [OF va] .
  note pa = page_addr [OF v, folded PGROUNDDOWN_page]
  have lim: "unat ?a + unat PGSIZE \<le> 2 ^ 38" using pa(3) v by (simp add: PGSIZE_def)
  have pos: "0 < PGSIZE" by (simp add: PGSIZE_def)
  have "unat (?a + PGSIZE - 1) = 4096 * ?v + 4095" using pa(3) v by (simp add: PGSIZE_def unat_word_ariths)
  then have lst: "vpn (?a + PGSIZE - 1) = ?v" by (simp add: vpn_def)
  have un: "\<forall>w. vpn ?a \<le> w \<and> w \<le> vpn (?a + PGSIZE - 1) \<longrightarrow> \<not> bit (vmap (ram s) r w) 0" unfolding lst pa(2) using nb by auto
  have mem: "2 * Suc (vpn (?a + PGSIZE - 1) - vpn ?a) \<le> mem_free s" unfolding lst pa(2) using fr by simp
  obtain s' where s': "mappages r ?a PGSIZE pa perm s = Some (0, s')" "pt_frame (2 * Suc (?v - ?v)) r s s'"
    "\<forall>w < 2 ^ 26. vmap (ram s') r w = (if ?v \<le> w \<and> w \<le> ?v then mapped_pte (pa + of_nat (4096 * (w - ?v))) perm else vmap (ram s) r w)"
    using mappages_spec [OF ok pos lim un mem, of pa perm] unfolding lst pa(2) by blast
  have "vmap (ram s') r w = (if w = ?v then mapped_pte pa perm else vmap (ram s) r w)" if "w < 2 ^ 26" for w using s'(3) that by auto
  then show ?thesis using s'(1,2) by auto
qed

lemma unmap_one:
  assumes ok: "pt_ok r s" and va: "va < MAXVA" and um: "unmappable fr r (vpn va) 1 s"
  shows "\<exists>s'. uvmunmap r (PGROUNDDOWN va) 1 fr s = Some s' \<and> unmap_post fr r (vpn va) 1 s s'"
proof -
  let ?v = "vpn va" and ?a = "PGROUNDDOWN va"
  have v: "?v < 2 ^ 26" using PX_vpn(4) [OF va] .
  have "unat (?a mod PGSIZE) = 0" using page_addr(3) [OF v, folded PGROUNDDOWN_page] by (simp add: unat_mod_distrib PGSIZE_def)
  then have "?a mod PGSIZE = 0" by (simp only: unat_eq_zero)
  moreover have "?a + 1 * PGSIZE = of_nat (4096 * (?v + 1))" unfolding PGROUNDDOWN_page by (simp add: PGSIZE_def)
  ultimately show ?thesis using uvmunmap_loop_spec [OF ok _ um] v unfolding uvmunmap_def PGROUNDDOWN_page by (simp add: add.commute)
qed

section \<open>Copy on write\<close>

lemma page_refcnt_get_live:
  assumes "a \<in> live_pages s"
  shows "page_refcnt_get a s = Some (refcnt a s)"
proof -
  obtain p k where p: "(p, k) \<in> allocs (pages s)" "a = PAGE_START + PAGE_SIZE * p" using assms by (auto simp: live_pages_def simp del: mem_allocs)
  have "p < PAGE_NUM" using p(1) by simp
  then have "page_find_by_address a = Some p" using page_find_address [of "zero_page\<lparr>pg_index := p\<rparr>" 0] p(2) by (simp add: page_address_def PAGE_SIZE_def)
  then show ?thesis using refcnt_page [of p s] p(2) by (simp add: page_refcnt_get_def)
qed

lemma kalloc_refcnt:
  assumes "vm_ok s" "kalloc s = Some (a, s')" "b \<in> live_pages s"
  shows "refcnt b s' = refcnt b s"
proof -
  obtain p where p: "buddy_alloc PAGE_SIZE s = Some (p, s')" using assms(2) by (auto simp: kalloc_def)
  then have ap: "alloc_post 0 s p s'"
    using buddy_alloc_cases [OF _ _ _ find_order_0_page, of s] assms(1) by (auto simp: vm_ok_def split: if_splits)
  obtain q where q: "q \<in> fst ` allocs (pages s)" "b = PAGE_START + PAGE_SIZE * q" using assms(3) unfolding live_pages_def by blast
  have "q \<noteq> p" using alloc_post_new [OF ap] q(1) by blast
  then show ?thesis using ap unfolding q(2) refcnt_page alloc_post_def by blast
qed

text \<open>A page marked for copying: valid, for the user, not writable, in a live frame.\<close>

definition cow_page :: "u64 \<Rightarrow> 'a vm_scheme \<Rightarrow> nat \<Rightarrow> bool" where
  "cow_page r s v \<longleftrightarrow> readable r s v \<and> bit (vmap (ram s) r v) 8 \<and> \<not> bit (vmap (ram s) r v) 2"

definition cow_flags :: "u64 \<Rightarrow> u64" where
  "cow_flags e = (PTE_FLAGS e AND NOT PTE_COW) OR PTE_W"

lemma cow_flags_bits: "only_flags (cow_flags e)" "bit (cow_flags e) 2" "\<not> bit (cow_flags e) 8" "bit e 4 \<Longrightarrow> bit (cow_flags e) 4"
proof -
  have m: "(0x3ff :: u64) = Bit_Operations.mask 10" by (simp add: mask_eq_exp_minus_1)
  have b: "bit (cow_flags e) n \<longleftrightarrow> bit e n \<and> (n < 10 \<or> 59 \<le> n \<and> n < 64) \<and> n \<noteq> 8 \<or> n = 2" for n
    unfolding cow_flags_def PTE_FLAGS_def m bit_or_iff bit_and_iff bit_not_iff bit_mask_iff bit_PTE_HIGH PTE_COW_def PTE_W_def push_bit_of_1 bit_exp_iff possible_bit_word
    by (auto dest: bit_imp_le_length)
  show "only_flags (cow_flags e)" "bit (cow_flags e) 2" "\<not> bit (cow_flags e) 8" "bit e 4 \<Longrightarrow> bit (cow_flags e) 4" by (auto simp: only_flags_def b)
qed

lemma mapped_pte_low: "n < 10 \<Longrightarrow> bit (mapped_pte pa perm) n \<longleftrightarrow> bit perm n \<or> n = 0 \<or> n = 6 \<or> n = 7"
  unfolding mapped_pte_def bit_or_iff PA2PTE_def PTE_V_def PTE_A_def PTE_D_def push_bit_of_1 bit_exp_iff possible_bit_word by (auto simp: bit_push_bit_iff)

lemma only_flags_COW: "only_flags PTE_COW"
  unfolding PTE_COW_def by (rule only_flagsI) simp

lemma cow_leaf: "bit e 4 \<Longrightarrow> is_leaf e"
proof -
  assume b: "bit e 4"
  have m: "(0x3ff :: u64) = Bit_Operations.mask 10" by (simp add: mask_eq_exp_minus_1)
  have "bit (PTE_FLAGS e AND 0x3ff) 4" using b unfolding PTE_FLAGS_def m bit_and_iff bit_or_iff bit_mask_iff by simp
  moreover have "\<not> bit PTE_V 4" by (simp add: PTE_V_def)
  ultimately show ?thesis unfolding is_leaf_def by metis
qed

lemma cow_shared:
  assumes ok: "pt_ok r s" and va: "va < MAXVA" and c: "cow_page r s (vpn va)" and rc: "1 < refcnt (pa_of (vmap (ram s) r (vpn va))) s" and fr: "3 \<le> mem_free s"
  shows "\<exists>mem s'. alloc_cow_page r va s = Some (0, s') \<and> pt_ok r s' \<and> unat mem \<notin> live_pages s \<and> unat mem \<in> live_pages s' \<and> live_pages s \<subseteq> live_pages s' \<and>
    (\<forall>w < 2 ^ 26. vmap (ram s') r w = (if w = vpn va then mapped_pte mem (cow_flags (vmap (ram s) r w)) else vmap (ram s) r w)) \<and>
    (\<forall>x < 4096. ram s' (unat mem + x) = ram s (pa_of (vmap (ram s) r (vpn va)) + x)) \<and>
    (\<forall>x < 4096. ram s' (pa_of (vmap (ram s) r (vpn va)) + x) = ram s (pa_of (vmap (ram s) r (vpn va)) + x)) \<and>
    \<not> is_table (ram s') r (unat mem) \<and> PTE2PA (vmap (ram s') r (vpn va)) = mem"
proof -
  let ?v = "vpn va" and ?e = "vmap (ram s) r (vpn va)" and ?a = "PGROUNDDOWN va"
  have v: "?v < 2 ^ 26" using PX_vpn(4) [OF va] .
  have e: "bit ?e 0" "bit ?e 4" "bit ?e 8" "\<not> bit ?e 2" "pa_of ?e \<in> live_pages s" "\<not> is_table (ram s) r (pa_of ?e)" using c by (simp_all add: cow_page_def readable_def)
  obtain pte where w: "walk r va False s = Some (pte, s)" "pte = 0 \<longrightarrow> ?e = 0" "pte \<noteq> 0 \<longrightarrow> ld64 pte s = ?e" using walk_find_pte [OF ok va] by blast
  have p0: "pte \<noteq> 0" using w(2) e(1) by auto
  have ld: "ld64 pte s = ?e" using w(3) p0 by blast
  have vo: "vm_ok s" using ok by (simp add: pt_ok_def)
  have fr0: "0 < mem_free s" using fr by simp
  obtain p t where k: "kalloc s = Some (p, t)" "vm_ok t" "p \<notin> live_pages s" "live_pages t = insert p (live_pages s)"
    "Suc (mem_free t) = mem_free s" "t = s\<lparr>pages := pages t, free_lists := free_lists t\<rparr>"
    using kalloc_spec [OF vo fr0] by (elim exE conjE) (rule that)
  define mem where "mem = (of_nat p :: u64)"
  have lp: "p \<in> live_pages t" using k(4) by simp
  note pg = live_page [OF lp]
  have um: "unat mem = p" unfolding mem_def using pg(1) by (intro unat_of_nat_less) simp
  have m0: "mem \<noteq> 0" using pg(2) um by (auto simp: PAGE_START_def)
  have rt: "ram t = ram s" using arg_cong [OF k(6), of ram] by simp
  have okt: "pt_ok r t" using ok k(2,4) unfolding pt_ok_def tree_ok_def rt by auto
  have np: "p \<noteq> pa_of ?e" "\<not> is_table (ram t) r p" using k(3) e(5) pt_okD [OF ok] unfolding rt is_table_def by blast+
  have ap: "pa_of ?e + 4096 \<le> p \<or> p + 4096 \<le> pa_of ?e" using live_apart [OF e(5) lp] np(1) by metis
  define u where "u = move_at mem (PTE2PA ?e) PGSIZE t"
  have ru: "ram u = (\<lambda>x. if p \<le> x \<and> x < p + 4096 then ram s (pa_of ?e + (x - p)) else ram s x)" by (simp add: u_def move_at_def memmove_eq um rt PGSIZE_def)
  have eu: "u = t\<lparr>ram := ram u\<rparr>" by (simp add: u_def move_at_def)
  have cl: "clear_of r t p 4096"
  proof -
    have "p + 4096 \<le> unat a \<or> unat a + 4096 \<le> p" if "node_adr (ram t) r l = Some a" for l a
      using live_apart [OF lp pt_okD [OF okt that]] np(2) that unfolding is_table_def by metis
    then show ?thesis unfolding clear_of_def by (meson le_trans not_less order_less_le_trans)
  qed
  have out: "\<not> (p \<le> x \<and> x < p + 4096) \<Longrightarrow> ram u x = ram t x" for x by (auto simp: ru rt)
  note C = clear_write [OF okt cl, of "ram u", folded eu]
  have oku: "pt_ok r u" "vmap (ram u) r = vmap (ram s) r" "node_adr (ram u) r = node_adr (ram s) r" using C out rt by (metis, metis, metis)
  have fu: "live_pages u = live_pages t" "mem_free u = mem_free t" "refcnt x u = refcnt x t" for x
    by (simp_all add: live_pages_def mem_free_def refcnt_def u_def move_at_def)
  have "unmappable True r ?v 1 u"
    using e cow_leaf k(4) unfolding unmappable_def oku(2) fu(1) is_table_def oku(3) by (auto simp: less_Suc_eq_le le_antisym)
  then obtain u' where u': "uvmunmap r ?a 1 True u = Some u'" "unmap_post True r ?v 1 u u'" using unmap_one [OF oku(1) va] by blast
  note U = unmap_postD [OF u'(2)]
  have nb: "\<not> bit (vmap (ram u') r ?v) 0" using U(4) [OF v] e(1) unfolding oku(2) by simp
  have fr': "2 \<le> mem_free u'" using U(2) fu(2) k(5) fr by simp
  obtain s' where s': "mappages r ?a PGSIZE mem (cow_flags ?e) u' = Some (0, s')" "pt_frame 2 r u' s'"
    "\<And>w. w < 2 ^ 26 \<Longrightarrow> vmap (ram s') r w = (if w = ?v then mapped_pte mem (cow_flags ?e) else vmap (ram u') r w)"
    using map_one [OF U(1) va nb fr', of mem "cow_flags ?e"] by blast
  have lu: "live_pages u' = live_pages u"
  proof -
    have "refcnt (pa_of ?e) u = refcnt (pa_of ?e) s" unfolding fu(3) using kalloc_refcnt [OF vo k(1) e(5)] .
    then have "\<not> refcnt (pa_of ?e) u \<le> 1" using rc by simp
    then have none: "{a. True \<and> refcnt a u \<le> 1 \<and> (\<exists>w. ?v \<le> w \<and> w < ?v + 1 \<and> bit (vmap (ram u) r w) 0 \<and> pa_of (vmap (ram u) r w) = a)} = {}"
      unfolding oku(2) by (auto simp: less_Suc_eq_le dest: le_antisym)
    show ?thesis using U(5) unfolding none Diff_empty .
  qed
  have "page_refcnt_get (pa_of ?e) s = Some (refcnt (pa_of ?e) s)" by (rule page_refcnt_get_live [OF e(5)])
  then have run: "alloc_cow_page r va s = Some (0, s')"
    using va w(1) p0 e(1-4) rc k(1) m0 u'(1) s'(1)
    by (simp add: alloc_cow_page_def not_le [symmetric] ld Let_def mem_def [symmetric] u_def [symmetric] cow_flags_def [symmetric] del: bind_Some_iff)
  have kept: "ram s' (q + x) = ram u (q + x)" if q: "q \<in> live_pages u" "\<not> is_table (ram u) r q" and x: "x < 4096" for q x
  proof -
    have ap: "q + 4096 \<le> unat a \<or> unat a + 4096 \<le> q" if a: "node_adr (ram s') r n = Some a" for n a
    proof (rule live_apart)
      show "q \<in> live_pages s'" using q(1) lu pt_frameD(2) [OF s'(2)] by auto
      show "unat a \<in> live_pages s'" using pt_okD [OF pt_frameD(1) [OF s'(2)] a] .
      have "node_adr (ram u) r n = Some a \<or> unat a \<notin> live_pages u" using pt_frameD(6) [OF s'(2) a] U(3) lu by simp
      then show "q \<noteq> unat a" using q unfolding is_table_def by blast
    qed
    have "ram s' (q + x) = ram u' (q + x)" by (rule pt_frameD(7) [OF s'(2)]) (use ap x in force)
    also have "\<dots> = ram u (q + x)"
    proof (rule U(7))
      fix n a assume "node_adr (ram u) r n = Some a"
      then have "node_adr (ram s') r n = Some a" using U(3) pt_frameD(4) [OF s'(2)] by simp
      then show "q + x < unat a \<or> unat a + 4096 \<le> q + x" using ap x by force
    qed
    finally show ?thesis .
  qed
  have tb: "is_table (ram u) r = is_table (ram s) r" by (simp add: is_table_def oku(3) fun_eq_iff)
  have mt: "p \<in> live_pages u" "\<not> is_table (ram u) r p" using lp fu(1) np(2) tb rt by auto
  have new: "\<forall>x < 4096. ram s' (unat mem + x) = ram s (pa_of ?e + x)" using kept [OF mt] by (simp add: um ru)
  have old: "\<forall>x < 4096. ram s' (pa_of ?e + x) = ram s (pa_of ?e + x)"
  proof (intro allI impI)
    fix x :: nat assume x: "x < 4096"
    have "ram s' (pa_of ?e + x) = ram u (pa_of ?e + x)" by (rule kept) (use e(5,6) k(4) fu(1) tb x in auto)
    also have "\<dots> = ram s (pa_of ?e + x)" unfolding ru using ap x by auto
    finally show "ram s' (pa_of ?e + x) = ram s (pa_of ?e + x)" .
  qed
  have nt: "\<not> is_table (ram s') r (unat mem)"
  proof
    assume "is_table (ram s') r (unat mem)"
    then obtain n a where a: "node_adr (ram s') r n = Some a" "unat a = p" using um by (auto simp: is_table_def)
    then have "node_adr (ram u) r n = Some a" using pt_frameD(6) [OF s'(2) a(1)] U(3) lu mt(1) by auto
    then show False using mt(2) a(2) by (auto simp: is_table_def)
  qed
  have vm: "vmap (ram s') r w = (if w = ?v then mapped_pte mem (cow_flags (vmap (ram s) r w)) else vmap (ram s) r w)" if "w < 2 ^ 26" for w
    using s'(3) [OF that] U(4) [OF that] unfolding oku(2) by auto
  have "PTE2PA (vmap (ram s') r ?v) = mem" using vm [OF v] mapped_pte_pa [OF cow_flags_bits(1)] pg um by simp
  moreover have "live_pages s \<subseteq> live_pages s'" "unat mem \<in> live_pages s'" using pt_frameD(2) [OF s'(2)] lu fu(1) k(4) um by auto
  ultimately show ?thesis using run pt_frameD(1) [OF s'(2)] k(3) um vm new old nt by (intro exI [of _ mem] exI [of _ s']) simp
qed

section \<open>New page tables\<close>

lemma live_pages_inj: "unat a \<in> live_pages s \<Longrightarrow> a = of_nat (unat a)"
  by simp

lemma uvmcreate_spec:
  assumes ok: "vm_ok s" and fr: "0 < mem_free s"
  shows "\<exists>r s'. uvmcreate s = Some (r, s') \<and> pt_ok r s' \<and> unat r \<notin> live_pages s \<and> live_pages s' = insert (unat r) (live_pages s) \<and>
    Suc (mem_free s') = mem_free s \<and> (\<forall>v < 2 ^ 26. vmap (ram s') r v = 0) \<and> (\<forall>n. n \<noteq> Root \<longrightarrow> node_adr (ram s') r n = None) \<and> held s' = held s \<and>
    (\<forall>x. x < unat r \<or> unat r + 4096 \<le> x \<longrightarrow> ram s' x = ram s x)"
proof -
  obtain p t where k: "kalloc s = Some (p, t)" "vm_ok t" "p \<notin> live_pages s" "live_pages t = insert p (live_pages s)"
    "Suc (mem_free t) = mem_free s" "t = s\<lparr>pages := pages t, free_lists := free_lists t\<rparr>"
    using kalloc_spec [OF ok fr] by (elim exE conjE) (rule that)
  define r where "r = (of_nat p :: u64)"
  have lp: "p \<in> live_pages t" using k(4) by simp
  have ur: "unat r = p" unfolding r_def using live_page(1) [OF lp] by (intro unat_of_nat_less) simp
  have r0: "r \<noteq> 0" using live_page(2) [OF lp] ur by (auto simp: PAGE_START_def)
  define s' where "s' = zero_at r t"
  have m: "ram s' = memset (ram t) (unat r) 0 4096" by (simp add: s'_def zero_at_def PGSIZE_def del: memset.simps)
  have z: "child (ram s') r i = None" if "i < 512" for i using zeroed [OF that] by (simp add: child_def m del: memset.simps)
  have na: "node_adr (ram s') r n = None" if "n \<noteq> Root" for n using that z by (cases n) auto
  have "node_adr (ram s') r Root = Some r" by simp
  then have rt: "node_adr (ram s') r n = Some a \<longleftrightarrow> n = Root \<and> a = r" for n a using na [of n] by (cases "n = Root") auto
  have f: "pages s' = pages t" "free_lists s' = free_lists t" "held s' = held t" by (simp_all add: s'_def zero_at_def)
  have lv: "live_pages s' = live_pages t" "mem_free s' = mem_free t" by (simp_all add: live_pages_def mem_free_def f)
  have "vm_ok s'" using k(2) by (simp add: vm_ok_def buddy_inv_def f)
  then have "pt_ok r s'" using lp ur unfolding pt_ok_def tree_ok_def rt lv by simp
  moreover have "vmap (ram s') r v = 0" for v using na [of "low_of v"] by (simp add: vmap_def leaf_def del: node_adr.simps)
  moreover have "ram t = ram s" "held t = held s" using arg_cong [OF k(6), of ram] arg_cong [OF k(6), of held] by simp_all
  moreover have "ram s' x = ram t x" if "x < unat r \<or> unat r + 4096 \<le> x" for x using that unfolding m memset_eq by auto
  moreover have "uvmcreate s = Some (r, s')" using k(1) r0 by (simp add: uvmcreate_def r_def [symmetric] s'_def Let_def)
  ultimately show ?thesis using k(3-5) ur lv na f by (intro exI [of _ r] exI [of _ s']) auto
qed

text \<open>A machine after boot, for the concrete instances below.\<close>

lemma vm_boot:
  obtains s :: vm where "vm_ok s" "live_pages s = {}" "mem_free s = 63488" "held s = {}"
proof -
  let ?c = "\<lparr>held = {}, woken = [], pages = (\<lambda>_. zero_page), free_lists = (\<lambda>_. None), ram = (\<lambda>_. 0)\<rparr> :: vm"
  have "(0x80400000::nat) \<le> PAGE_START" by (simp add: PAGE_START_def)
  from buddy_init_inv [OF this, of ?c] obtain s where s: "buddy_inv s" "allocs (pages s) = {}" "s = ?c\<lparr>pages := pages s, free_lists := free_lists s\<rparr>" by blast
  have h: "held s = {}" using arg_cong [OF s(3), of held] by simp
  show ?thesis
    by (rule that [of s]) (use s(1,2) h in \<open>simp_all add: vm_ok_def live_pages_def mem_free_def PAGE_NUM_eq\<close>)
qed

lemma fresh_table:
  obtains r and s :: vm where "pt_ok r s" "mem_free s = 63487" "\<And>v. v < 2 ^ 26 \<Longrightarrow> vmap (ram s) r v = 0" "live_pages s = {unat r}"
    "\<And>n. n \<noteq> Root \<Longrightarrow> node_adr (ram s) r n = None"
proof -
  obtain s0 :: vm where s0: "vm_ok s0" "mem_free s0 = 63488" "live_pages s0 = {}" by (rule vm_boot) blast
  show ?thesis using uvmcreate_spec [OF s0(1)] s0(2,3) that by fastforce
qed

section \<open>Properties\<close>

text \<open>
  C4: \<^verbatim>\<open>mappages\<close> refines an update of a map from virtual pages to entries. For any range of bytes below
  \<^verbatim>\<open>MAXVA\<close> whose pages are not mapped, with enough free memory, it returns 0; the entry of each page of
  the range becomes the entry of the corresponding physical page with the permissions asked for, every
  other entry stays, and of memory only pages of the table change, the new ones being pages that were
  free.
\<close>

theorem mappages_refines_map:
  assumes "pt_ok r s" "0 < sz" "unat va + unat sz \<le> 2 ^ 38"
    "\<forall>w. vpn va \<le> w \<and> w \<le> vpn (va + sz - 1) \<longrightarrow> \<not> bit (vmap (ram s) r w) 0" "2 * Suc (vpn (va + sz - 1) - vpn va) \<le> mem_free s"
  shows "\<exists>s'. mappages r va sz pa perm s = Some (0, s') \<and> pt_frame (2 * Suc (vpn (va + sz - 1) - vpn va)) r s s' \<and>
    (\<forall>w < 2 ^ 26. vmap (ram s') r w =
      (if vpn va \<le> w \<and> w \<le> vpn (va + sz - 1) then mapped_pte (pa + of_nat (4096 * (w - vpn va))) perm else vmap (ram s) r w))"
  by (rule mappages_spec [OF assms])

theorem mappages_refines_map_witness:
  "\<exists>(s :: vm) r s'. pt_ok r s \<and> mappages r 0x1000 0x2000 0x80700000 PTE_NORMAL s = Some (0, s') \<and> vmap (ram s') r 2 = mapped_pte 0x80701000 PTE_NORMAL \<and> vmap (ram s') r 3 = 0"
proof -
  obtain r and s :: vm where s: "pt_ok r s" "mem_free s = 63487" "\<And>v. v < 2 ^ 26 \<Longrightarrow> vmap (ram s) r v = 0" by (rule fresh_table) blast
  have v: "vpn 0x1000 = 1" "vpn (0x1000 + 0x2000 - 1) = 2" by (simp_all add: vpn_def)
  have z: "\<forall>w. vpn 0x1000 \<le> w \<and> w \<le> vpn (0x1000 + 0x2000 - 1) \<longrightarrow> \<not> bit (vmap (ram s) r w) 0" unfolding v using s(3) by simp
  have e: "0 < (0x2000 :: u64)" "unat (0x1000 :: u64) + unat (0x2000 :: u64) \<le> 2 ^ 38" by simp_all
  have m: "2 * Suc (vpn (0x1000 + 0x2000 - 1) - vpn 0x1000) \<le> mem_free s" unfolding v using s(2) by simp
  obtain s' where s': "mappages r 0x1000 0x2000 0x80700000 PTE_NORMAL s = Some (0, s')"
    "\<forall>w < 2 ^ 26. vmap (ram s') r w = (if 1 \<le> w \<and> w \<le> 2 then mapped_pte (0x80700000 + of_nat (4096 * (w - 1))) PTE_NORMAL else vmap (ram s) r w)"
    using mappages_refines_map [OF s(1) e z m, of "0x80700000" PTE_NORMAL] unfolding v by blast
  have "vmap (ram s') r 2 = mapped_pte 0x80701000 PTE_NORMAL" "vmap (ram s') r 3 = 0" using s'(2) [rule_format, of 2] s'(2) [rule_format, of 3] s(3) by simp_all
  then show ?thesis using s(1) s'(1) by blast
qed

text \<open>
  An address mapped by \<^verbatim>\<open>mappages\<close> for user access is found by \<^verbatim>\<open>walkaddr\<close> at its physical page, an
  address that is not mapped, or not below \<^verbatim>\<open>MAXVA\<close>, gives 0, and \<^verbatim>\<open>uvmunmap\<close> makes the mapped address
  give 0 again and restores the map.
\<close>

theorem map_lookup_unmap:
  assumes "pt_ok r s" "va < MAXVA" "\<not> bit (vmap (ram s) r (vpn va)) 0" "2 \<le> mem_free s"
    "only_flags perm" "bit perm 4" "unat pa < 2 ^ 61" "unat pa mod 4096 = 0"
  shows "\<exists>s' s''. mappages r (PGROUNDDOWN va) PGSIZE pa perm s = Some (0, s') \<and> walkaddr r va s = Some 0 \<and> walkaddr r va s' = Some pa \<and>
    uvmunmap r (PGROUNDDOWN va) 1 False s' = Some s'' \<and> walkaddr r va s'' = Some 0 \<and>
    (\<forall>w < 2 ^ 26. w \<noteq> vpn va \<longrightarrow> vmap (ram s'') r w = vmap (ram s) r w) \<and> pt_ok r s''"
proof -
  let ?v = "vpn va" and ?a = "PGROUNDDOWN va"
  have v: "?v < 2 ^ 26" using PX_vpn(4) [OF assms(2)] .
  obtain s' where m: "mappages r ?a PGSIZE pa perm s = Some (0, s')" "pt_frame 2 r s s'"
    "\<And>w. w < 2 ^ 26 \<Longrightarrow> vmap (ram s') r w = (if w = ?v then mapped_pte pa perm else vmap (ram s) r w)"
    using map_one [OF assms(1-4)] by blast
  have ok': "pt_ok r s'" using pt_frameD(1) [OF m(2)] .
  have w1: "walkaddr r va s = Some 0" using walkaddr_spec [OF assms(1), of va] assms(3) by auto
  have b: "bit (mapped_pte pa perm) 0" "bit (mapped_pte pa perm) 4" "PTE2PA (mapped_pte pa perm) = pa"
    using mapped_pte_bits mapped_pte_pa [OF assms(5,7,8)] assms(6) by (auto simp: mapped_pte_def bit_or_iff)
  have w2: "walkaddr r va s' = Some pa" using walkaddr_spec [OF ok', of va] m(3) [OF v] b assms(2) by simp
  have lf: "is_leaf (mapped_pte pa perm)"
  proof -
    have m: "(0x3ff :: u64) = Bit_Operations.mask 10" by (simp add: mask_eq_exp_minus_1)
    have "bit (PTE_FLAGS (mapped_pte pa perm) AND 0x3ff) 4" using b(2) unfolding PTE_FLAGS_def m bit_and_iff bit_or_iff bit_mask_iff by simp
    moreover have "\<not> bit PTE_V 4" by (simp add: PTE_V_def)
    ultimately show ?thesis unfolding is_leaf_def by metis
  qed
  have um: "unmappable False r ?v 1 s'" using m(3) [OF v] lf by (auto simp: unmappable_def le_antisym less_Suc_eq_le)
  obtain s'' where u: "uvmunmap r ?a 1 False s' = Some s''" "unmap_post False r ?v 1 s' s''"
    using unmap_one [OF ok' assms(2) um] by blast
  note U = unmap_postD [OF u(2)]
  have "walkaddr r va s'' = Some 0" using walkaddr_spec [OF U(1), of va] U(4) [OF v] m(3) [OF v] b by simp
  moreover have "vmap (ram s'') r w = vmap (ram s) r w" if "w < 2 ^ 26" "w \<noteq> ?v" for w using U(4) [OF that(1)] m(3) [OF that(1)] that(2) by auto
  ultimately show ?thesis using m(1) w1 w2 u(1) U(1) by blast
qed

theorem map_lookup_unmap_witness:
  "\<exists>(s :: vm) r s'. mappages r 0x5000 PGSIZE 0x80700000 (PTE_R OR PTE_U) s = Some (0, s') \<and> walkaddr r 0x5123 s = Some 0 \<and> walkaddr r 0x5123 s' = Some 0x80700000"
proof -
  obtain r and s :: vm where s: "pt_ok r s" "mem_free s = 63487" "\<And>v. v < 2 ^ 26 \<Longrightarrow> vmap (ram s) r v = 0" by (rule fresh_table) blast
  have d: "PGROUNDDOWN 0x5123 = 0x5000" by (simp add: PGROUNDDOWN_def PGSIZE_def)
  have v: "vpn 0x5123 = 5" by (simp add: vpn_def)
  have f: "only_flags (PTE_R OR PTE_U)" by (intro only_flagsI only_flags_V)
  have b: "bit (PTE_R OR PTE_U) 4" by (simp add: PTE_U_def bit_or_iff)
  have "(0x5123 :: u64) < MAXVA" by (simp add: MAXVA_def)
  from map_lookup_unmap [OF s(1) this, of "PTE_R OR PTE_U" "0x80700000"] show ?thesis
    using s(2) s(3) [of 5] f b unfolding d v by auto
qed



text \<open>
  C22: Bytes copied out to user memory and copied in again are the same bytes: \<^verbatim>\<open>copyout\<close> to writable pages
  and then \<^verbatim>\<open>copyin\<close> from the same user addresses both return 0, and the destination of the second ends up
  with the source of the first, whatever page boundaries the range crosses.
\<close>

theorem copyout_copyin_roundtrip:
  assumes "pt_ok r s" "unat va + unat len \<le> 2 ^ 38" "unat src + unat len < 2 ^ 64" "unat dst + unat len < 2 ^ 64"
    "\<forall>i < unat len. writable r s ((unat va + i) div 4096)"
    "\<forall>i < unat len. \<forall>j < unat len. phys (ram s) r (unat va + i) \<noteq> unat src + j \<and> phys (ram s) r (unat va + i) \<noteq> unat dst + j \<and>
       (i \<noteq> j \<longrightarrow> phys (ram s) r (unat va + i) \<noteq> phys (ram s) r (unat va + j))"
    "clear_of r s (unat dst) (unat len)"
  shows "\<exists>s' s''. copyout r va src len s = Some (0, s') \<and> copyin r dst va len s' = Some (0, s'') \<and>
    (\<forall>i < unat len. ram s'' (unat dst + i) = ram s (unat src + i))"
proof -
  obtain m where m: "copyout r va src len s = Some (0, s\<lparr>ram := m\<rparr>)" "pt_ok r (s\<lparr>ram := m\<rparr>)" "vmap m r = vmap (ram s) r" "node_adr m r = node_adr (ram s) r"
    "\<And>i. i < unat len \<Longrightarrow> m (phys (ram s) r (unat va + i)) = ram s (unat src + i)"
    using copyout_spec [OF assms(1-3,5)] assms(6) by blast
  have ph: "phys m r = phys (ram s) r" by (simp add: phys_def fun_eq_iff m(3))
  let ?s = "s\<lparr>ram := m\<rparr>"
  have rd: "\<forall>i < unat len. readable r ?s ((unat va + i) div 4096)"
    using assms(5) unfolding writable_def readable_def is_table_def by (simp add: m(3,4) live_pages_def)
  have cl: "clear_of r ?s (unat dst) (unat len)" using assms(7) unfolding clear_of_def by (simp add: m(4))
  have ap: "\<forall>i < unat len. \<forall>j < unat len. phys (ram ?s) r (unat va + i) \<noteq> unat dst + j" using assms(6) by (simp add: ph)
  have "copyin r dst va len ?s =
    Some (0, ?s\<lparr>ram := \<lambda>x. if unat dst \<le> x \<and> x < unat dst + unat len then ram ?s (phys (ram ?s) r (unat va + (x - unat dst))) else ram ?s x\<rparr>)"
    by (rule copyin_spec [OF m(2) assms(2,4) cl rd ap])
  then show ?thesis using m(1,5) by (auto simp: ph)
qed

text \<open>A user page at address 0x3000 with a frame of its own.\<close>

lemma user_page:
  assumes f: "only_flags perm" and u: "bit perm 4"
  obtains r and s :: vm and p where "pt_ok r s" "readable r s 3" "vmap (ram s) r 3 = mapped_pte (of_nat p) perm"
    "pa_of (vmap (ram s) r 3) = p" "0x80600000 \<le> p" "p < 2 ^ 32" "60000 \<le> mem_free s" "\<And>v. v < 2 ^ 26 \<Longrightarrow> v \<noteq> 3 \<Longrightarrow> vmap (ram s) r v = 0"
proof -
  obtain s0 :: vm where s0: "vm_ok s0" "mem_free s0 = 63488" by (rule vm_boot) blast
  obtain p and s1 :: vm where k: "kalloc s0 = Some (p, s1)" "vm_ok s1" "live_pages s1 = insert p (live_pages s0)" "Suc (mem_free s1) = mem_free s0"
    using kalloc_spec [OF s0(1)] s0(2) by auto
  obtain r and s2 :: vm where c: "pt_ok r s2" "unat r \<notin> live_pages s1" "live_pages s2 = insert (unat r) (live_pages s1)" "Suc (mem_free s2) = mem_free s1"
    "\<forall>v < 2 ^ 26. vmap (ram s2) r v = 0" "\<forall>n. n \<noteq> Root \<longrightarrow> node_adr (ram s2) r n = None"
    using uvmcreate_spec [OF k(2)] k(4) s0(2) by auto
  have lp: "p \<in> live_pages s2" using k(3) c(3) by simp
  note pg = live_page [OF lp]
  have up: "unat (of_nat p :: u64) = p" using pg(1) by (intro unat_of_nat_less) simp
  have va: "(0x3000 :: u64) < MAXVA" "vpn 0x3000 = 3" "PGROUNDDOWN 0x3000 = 0x3000" by (simp_all add: MAXVA_def vpn_def PGROUNDDOWN_def PGSIZE_def)
  obtain s :: vm where s: "pt_frame 2 r s2 s" "vmap (ram s) r 3 = mapped_pte (of_nat p) perm" "\<And>v. v < 2 ^ 26 \<Longrightarrow> v \<noteq> 3 \<Longrightarrow> vmap (ram s) r v = 0"
    using map_one [OF c(1) va(1), of "of_nat p" perm] c(4,5) k(4) s0(2) unfolding va by auto
  have pa: "PTE2PA (mapped_pte (of_nat p) perm) = of_nat p" by (rule mapped_pte_pa [OF f]) (use up pg in auto)
  have b: "bit (mapped_pte (of_nat p) perm) 0" "bit (mapped_pte (of_nat p) perm) 4"
    using u by (simp_all add: mapped_pte_def bit_or_iff PTE_V_def)
  have nt: "\<not> is_table (ram s) r p"
  proof
    assume "is_table (ram s) r p"
    then obtain n a where a: "node_adr (ram s) r n = Some a" "unat a = p" by (auto simp: is_table_def)
    then have "node_adr (ram s2) r n = Some a" using pt_frameD(6) [OF s(1) a(1)] lp by auto
    then have "n = Root" using c(6) by (cases "n = Root") auto
    then have "a = r" using \<open>node_adr (ram s2) r n = Some a\<close> by simp
    then show False using a(2) c(2) k(3) by auto
  qed
  have "readable r s 3" unfolding readable_def s(2) pa up using b nt lp pt_frameD(2) [OF s(1)] by auto
  moreover have "pa_of (vmap (ram s) r 3) = p" unfolding s(2) pa by (rule up)
  moreover have "60000 \<le> mem_free s" using pt_frameD(3) [OF s(1)] c(4) k(4) s0(2) by simp
  ultimately show ?thesis using that pt_frameD(1) [OF s(1)] pg s(2,3) by (auto simp: PAGE_START_def)
qed

theorem copyout_copyin_roundtrip_witness:
  "\<exists>(s :: vm) r s' s''. copyout r 0x3010 0x80200000 8 s = Some (0, s') \<and> copyin r 0x80300000 0x3010 8 s' = Some (0, s'') \<and>
    ram s'' 0x80300003 = ram s 0x80200003"
proof -
  have f: "only_flags (PTE_R OR PTE_W OR PTE_U)" by (intro only_flagsI only_flags_V)
  have b: "bit (PTE_R OR PTE_W OR PTE_U) 4" "bit (PTE_R OR PTE_W OR PTE_U) 2" by (simp_all add: PTE_U_def PTE_W_def bit_or_iff)
  obtain r and s :: vm and p where s0: "pt_ok r s" "readable r s 3" "vmap (ram s) r 3 = mapped_pte (of_nat p) (PTE_R OR PTE_W OR PTE_U)"
    "pa_of (vmap (ram s) r 3) = p" "0x80600000 \<le> p" "p < 2 ^ 32" by (rule user_page [OF f b(1)]) blast
  have w: "writable r s 3" unfolding writable_def s0(3) using s0(2) b(2) by (simp add: mapped_pte_def bit_or_iff)
  note s = s0(1) w s0(4-6)
  have u: "unat (0x3010 :: u64) = 12304" "unat (8 :: u64) = 8" "unat (0x80200000 :: u64) = 2149580800" "unat (0x80300000 :: u64) = 2150629376" by simp_all
  have dm: "(12304 + i) div 4096 = 3 \<and> (12304 + i) mod 4096 = 16 + i" if "i < 8" for i :: nat
    using next_page(4,5) [of 8 8 12304 i] that by simp
  have ph: "phys (ram s) r (12304 + i) = p + (16 + i)" if "i < 8" for i unfolding phys_def using dm [OF that] s(3) by simp
  have "clear_of r s 2150629376 8"
  proof -
    have "PAGE_START \<le> unat a" if "node_adr (ram s) r n = Some a" for n a using live_page(2) [OF pt_okD [OF s(1) that]] .
    then show ?thesis unfolding clear_of_def by (fastforce simp: PAGE_START_def simp del: node_adr.simps)
  qed
  then have "\<exists>s' s''. copyout r 0x3010 0x80200000 8 s = Some (0, s') \<and> copyin r 0x80300000 0x3010 8 s' = Some (0, s'') \<and>
      (\<forall>i < 8. ram s'' (2150629376 + i) = ram s (2149580800 + i))"
    using copyout_copyin_roundtrip [OF s(1), of "0x3010" 8 "0x80200000" "0x80300000"] s(2,4) ph dm unfolding u by auto
  then obtain s' s'' where c: "copyout r 0x3010 0x80200000 8 s = Some (0, s')" "copyin r 0x80300000 0x3010 8 s' = Some (0, s'')"
    "\<forall>i < 8. ram s'' (2150629376 + i) = ram s (2149580800 + i)" by blast
  have "ram s'' 0x80300003 = ram s 0x80200003" using c(3) [rule_format, of 3] by simp
  then show ?thesis using c(1,2) by blast
qed

text \<open>
  C11: A write to a copy on write page that other processes still use gets a page of its own:
  \<^verbatim>\<open>alloc_cow_page\<close> returns 0, the address then maps to a page that was free before, writable and no longer
  marked, holding the bytes of the shared one. The shared page stays allocated with its bytes, and no
  other address of the process changes.
\<close>

theorem cow_shared_copy:
  assumes "pt_ok r s" "va < MAXVA" "cow_page r s (vpn va)" "1 < refcnt (pa_of (vmap (ram s) r (vpn va))) s" "3 \<le> mem_free s"
  shows "\<exists>mem s'. alloc_cow_page r va s = Some (0, s') \<and> pt_ok r s' \<and> unat mem \<notin> live_pages s \<and> live_pages s \<subseteq> live_pages s' \<and>
    walkaddr r va s' = Some mem \<and> writable r s' (vpn va) \<and> \<not> bit (vmap (ram s') r (vpn va)) 8 \<and>
    (\<forall>x < 4096. ram s' (unat mem + x) = ram s (pa_of (vmap (ram s) r (vpn va)) + x)) \<and>
    (\<forall>x < 4096. ram s' (pa_of (vmap (ram s) r (vpn va)) + x) = ram s (pa_of (vmap (ram s) r (vpn va)) + x)) \<and>
    (\<forall>w < 2 ^ 26. w \<noteq> vpn va \<longrightarrow> vmap (ram s') r w = vmap (ram s) r w)"
proof -
  let ?e = "vmap (ram s) r (vpn va)"
  obtain mem s' where m: "alloc_cow_page r va s = Some (0, s')" "pt_ok r s'" "unat mem \<notin> live_pages s" "unat mem \<in> live_pages s'" "live_pages s \<subseteq> live_pages s'"
    "\<forall>w < 2 ^ 26. vmap (ram s') r w = (if w = vpn va then mapped_pte mem (cow_flags (vmap (ram s) r w)) else vmap (ram s) r w)"
    "\<forall>x < 4096. ram s' (unat mem + x) = ram s (pa_of ?e + x)" "\<forall>x < 4096. ram s' (pa_of ?e + x) = ram s (pa_of ?e + x)"
    "\<not> is_table (ram s') r (unat mem)" "PTE2PA (vmap (ram s') r (vpn va)) = mem"
    using cow_shared [OF assms] by blast
  have e: "vmap (ram s') r (vpn va) = mapped_pte mem (cow_flags ?e)" using m(6) PX_vpn(4) [OF assms(2)] by simp
  have ml: "unat mem < 2 ^ 32" "unat mem mod 4096 = 0" using live_page(1,3) [OF m(4)] by auto
  have b: "bit (mapped_pte mem (cow_flags ?e)) 0" "bit (mapped_pte mem (cow_flags ?e)) 4" "bit (mapped_pte mem (cow_flags ?e)) 2"
    using cow_flags_bits [of ?e] assms(3) by (auto simp: cow_page_def readable_def mapped_pte_def bit_or_iff PTE_V_def)
  have n8: "\<not> bit (mapped_pte mem (cow_flags ?e)) 8"
    using cow_flags_bits(3) [of ?e] by (simp add: mapped_pte_low)
  have "walkaddr r va s' = Some mem" using walkaddr_spec [OF m(2), of va] assms(2) b m(10) unfolding e by simp
  moreover have "writable r s' (vpn va)" unfolding writable_def readable_def using b m(4,9,10) unfolding e by simp
  moreover have "\<not> bit (vmap (ram s') r (vpn va)) 8" unfolding e by (rule n8)
  ultimately show ?thesis using m(1-3,5-8) by (intro exI [of _ mem] exI [of _ s']) simp
qed

lemma share_page:
  fixes s :: vm
  assumes ok: "pt_ok r s" and a: "a \<in> live_pages s"
  obtains s' :: vm where "pt_ok r s'" "refcnt a s' = c" "live_pages s' = live_pages s" "ram s' = ram s" "mem_free s' = mem_free s"
proof -
  obtain p k where p: "(p, k) \<in> allocs (pages s)" "a = PAGE_START + PAGE_SIZE * p" using a by (auto simp: live_pages_def simp del: mem_allocs)
  define s' where "s' = upd_page p (\<lambda>g. g\<lparr>pg_refcnt := c\<rparr>) s"
  have vo: "vm_ok s" using ok by (simp add: pt_ok_def)
  have "is_first (pages s p)" using p(1) by simp
  note r = buddy_inv_refcnt [OF _ this, of c, folded s'_def]
  have f: "live_pages s' = live_pages s" "mem_free s' = mem_free s" using r(2) vo by (simp_all add: live_pages_def mem_free_def vm_ok_def)
  have "ram s' = ram s" "held s' = held s" by (simp_all add: s'_def upd_page_def)
  moreover have "vm_ok s'" using r(1) vo calculation(2) by (simp add: vm_ok_def)
  ultimately have "pt_ok r s'" using ok f(1) unfolding pt_ok_def tree_ok_def by simp
  moreover have "refcnt a s' = c" unfolding p(2) refcnt_page by (simp add: s'_def upd_page_def)
  ultimately show ?thesis using that f \<open>ram s' = ram s\<close> by blast
qed

theorem cow_shared_copy_witness:
  "\<exists>(s :: vm) r mem s'. cow_page r s 3 \<and> alloc_cow_page r 0x3008 s = Some (0, s') \<and> walkaddr r 0x3008 s' = Some mem \<and> unat mem \<notin> live_pages s"
proof -
  let ?p = "PTE_R OR PTE_U OR PTE_COW"
  have f: "only_flags ?p" by (intro only_flagsI only_flags_V only_flags_COW)
  have b: "bit ?p 4" "bit ?p 8" "\<not> bit ?p 2" by (simp_all add: PTE_U_def PTE_R_def PTE_COW_def bit_or_iff)
  obtain r and s0 :: vm and p where s0: "pt_ok r s0" "readable r s0 3" "vmap (ram s0) r 3 = mapped_pte (of_nat p) ?p"
    "pa_of (vmap (ram s0) r 3) = p" "60000 \<le> mem_free s0" by (rule user_page [OF f b(1)]) blast
  have lp: "p \<in> live_pages s0" using s0(2,4) by (simp add: readable_def)
  obtain s :: vm where s: "pt_ok r s" "refcnt p s = 2" "live_pages s = live_pages s0" "ram s = ram s0" "mem_free s = mem_free s0"
    using share_page [OF s0(1) lp, of 2] by blast
  have "\<not> bit (mapped_pte (of_nat p) ?p) 2" using b(3) by (simp add: mapped_pte_low)
  then have c: "cow_page r s 3" unfolding cow_page_def readable_def s(3,4) using s0(2,3) b(2) by (simp add: readable_def mapped_pte_def bit_or_iff)
  have v: "vpn 0x3008 = 3" "(0x3008 :: u64) < MAXVA" by (simp_all add: vpn_def MAXVA_def)
  have "\<exists>mem s'. alloc_cow_page r 0x3008 s = Some (0, s') \<and> walkaddr r 0x3008 s' = Some mem \<and> unat mem \<notin> live_pages s"
    using cow_shared_copy [OF s(1) v(2)] c s(2,5) s0(4,5) unfolding v(1) s(4) by auto
  then show ?thesis using c by blast
qed

end
