(* ===== verification/Vm_Copy.thy ===== *)
theory Vm_Copy
  imports Vm_User Proc_Call
begin

text \<open>
  \<^verbatim>\<open>uvmcopy\<close> of \<^verbatim>\<open>kernel/vm.c\<close>, which gives a forked process its memory: the three nested loops over the page table of
  the parent, the copy of a page, and the way back on failure. Pages of shared mappings are shared, all
  others copied. The proof follows the loops with the number of virtual pages passed.
\<close>

unbundle bit_operations_syntax

definition MAP_SHARED :: u32 where "MAP_SHARED = 1"

definition shared_page :: "mmap_region list \<Rightarrow> u64 \<Rightarrow> bool" where
  "shared_page rs va = (case find_region rs va of None \<Rightarrow> False | Some r \<Rightarrow> mr_flags r AND MAP_SHARED \<noteq> 0)"

text \<open>One mapped page: 0 when it has been mapped in the new table.\<close>

definition copy_page :: "mmap_region list \<Rightarrow> u64 \<Rightarrow> u64 \<Rightarrow> u64 \<Rightarrow> 'a vm_scheme \<Rightarrow> (int \<times> 'a vm_scheme) option" where
  "copy_page rs npt va pte s =
     (let pa = PTE2PA pte; flags = PTE_FLAGS pte
      in if shared_page rs va then do {
           s \<leftarrow> page_refcnt_inc (unat pa) s;
           mappages npt va PGSIZE pa flags s
         } else do {
           (m, s) \<leftarrow> kalloc s;
           let mem = of_nat m;
           if mem = 0 then Some (-1, s)
           else mappages npt va PGSIZE mem flags (move_at mem pa PGSIZE s)
         })"

text \<open>The loops; \<open>Some va\<close> is the address at which the copy failed.\<close>

primrec copy_low :: "mmap_region list \<Rightarrow> u64 \<Rightarrow> nat \<Rightarrow> nat \<Rightarrow> u64 \<Rightarrow> nat list \<Rightarrow> 'a vm_scheme \<Rightarrow> (u64 option \<times> 'a vm_scheme) option" where
  "copy_low rs npt i j pg0 [] s = Some (None, s)"
| "copy_low rs npt i j pg0 (k # ks) s =
     (if i = 255 \<and> j = 511 \<and> k \<ge> 509 then copy_low rs npt i j pg0 ks s
      else let pte = ld64 (pg0 + 8 * of_nat k) s
           in if pte AND PTE_V \<noteq> 0 then do {
                let va = push_bit 30 (of_nat i) OR push_bit 21 (of_nat j) OR push_bit 12 (of_nat k);
                (r, s) \<leftarrow> copy_page rs npt va pte s;
                if r \<noteq> 0 then Some (Some va, s) else copy_low rs npt i j pg0 ks s
              } else copy_low rs npt i j pg0 ks s)"

primrec copy_mid :: "mmap_region list \<Rightarrow> u64 \<Rightarrow> nat \<Rightarrow> u64 \<Rightarrow> nat list \<Rightarrow> 'a vm_scheme \<Rightarrow> (u64 option \<times> 'a vm_scheme) option" where
  "copy_mid rs npt i pg1 [] s = Some (None, s)"
| "copy_mid rs npt i pg1 (j # js) s =
     (let pte = ld64 (pg1 + 8 * of_nat j) s
      in if pte AND PTE_V \<noteq> 0 then do {
           (e, s) \<leftarrow> copy_low rs npt i j (PTE2PA pte) [0..<512] s;
           if e \<noteq> None then Some (e, s) else copy_mid rs npt i pg1 js s
         } else copy_mid rs npt i pg1 js s)"

primrec copy_top :: "mmap_region list \<Rightarrow> u64 \<Rightarrow> u64 \<Rightarrow> nat list \<Rightarrow> 'a vm_scheme \<Rightarrow> (u64 option \<times> 'a vm_scheme) option" where
  "copy_top rs npt pt [] s = Some (None, s)"
| "copy_top rs npt pt (i # is) s =
     (let pte = ld64 (pt + 8 * of_nat i) s
      in if pte AND PTE_V \<noteq> 0 then do {
           (e, s) \<leftarrow> copy_mid rs npt i (PTE2PA pte) [0..<512] s;
           if e \<noteq> None then Some (e, s) else copy_top rs npt pt is s
         } else copy_top rs npt pt is s)"

definition uvmcopy :: "nat \<Rightarrow> nat \<Rightarrow> 'a kern_scheme \<Rightarrow> (int \<times> 'a kern_scheme) option" where
  "uvmcopy old new s = do {
     let npt = p_pagetable (procs s new);
     (e, s) \<leftarrow> copy_top (p_regions (procs s old)) npt (p_pagetable (procs s old)) [0..<256] s;
     case e of
       None \<Rightarrow> Some (0, s)
     | Some va \<Rightarrow> do {
         s \<leftarrow> uvmunmap npt 0 ((if va < MMAPBASE then va else va - MMAPBASE) div PGSIZE) True s;
         Some (-1, s)
       }
   }"

section \<open>Two tables in one memory\<close>

definition apart_tables :: "u64 \<Rightarrow> u64 \<Rightarrow> 'a vm_scheme \<Rightarrow> bool" where
  "apart_tables r q s \<longleftrightarrow> (\<forall>n a. node_adr (ram s) r n = Some a \<longrightarrow> \<not> is_table (ram s) q (unat a))"

text \<open>A change of one table leaves the pages alone that were in use and are not part of it.\<close>

lemma frame_keeps_page:
  assumes f: "pt_frame c q s s'" and a: "a \<in> live_pages s" "\<not> is_table (ram s) q a"
  shows "x < 4096 \<Longrightarrow> ram s' (a + x) = ram s (a + x)" "\<not> is_table (ram s') q a" "a \<in> live_pages s'"
proof -
  show l: "a \<in> live_pages s'" using pt_frameD(2) [OF f] a(1) by blast
  show n: "\<not> is_table (ram s') q a"
    using pt_frameD(6) [OF f] a unfolding is_table_def by blast
  assume x: "x < 4096"
  show "ram s' (a + x) = ram s (a + x)"
  proof (rule pt_frameD(7) [OF f])
    fix m b assume b: "node_adr (ram s') q m = Some b"
    have "a + 4096 \<le> unat b \<or> unat b + 4096 \<le> a"
      by (rule live_apart [OF l pt_okD [OF pt_frameD(1) [OF f] b]]) (use n b in \<open>auto simp: is_table_def\<close>)
    then show "a + x < unat b \<or> unat b + 4096 \<le> a + x" using x by linarith
  qed
qed

lemma frame_other_table:
  assumes f: "pt_frame c q s s'" and ok: "pt_ok r s" and ap: "apart_tables r q s"
  shows "pt_ok r s'" "node_adr (ram s') r = node_adr (ram s) r" "vmap (ram s') r = vmap (ram s) r" "apart_tables r q s'"
proof -
  have k: "ram s' (unat a + x) = ram s (unat a + x)" if "node_adr (ram s) r n = Some a" "x < 4096" for n a x
    using frame_keeps_page(1) [OF f pt_okD [OF ok that(1)] _ that(2)] ap that(1) by (auto simp: apart_tables_def)
  show n: "node_adr (ram s') r = node_adr (ram s) r" and v: "vmap (ram s') r = vmap (ram s) r" using vmap_cong [of "ram s" r "ram s'"] k by blast+
  show "pt_ok r s'" using ok pt_frameD(1,2) [OF f] unfolding pt_ok_def tree_ok_def n by blast
  show "apart_tables r q s'"
    using ap frame_keeps_page(2) [OF f pt_okD [OF ok]] unfolding apart_tables_def n by blast
qed

section \<open>How far the copy has come\<close>

text \<open>The pages below the guard page, the trap frame and the trampoline.\<close>

definition USER_PAGES :: nat where "USER_PAGES = 2 ^ 26 - 3"

definition present :: "u64 \<Rightarrow> 'a vm_scheme \<Rightarrow> nat \<Rightarrow> bool" where
  "present r s v \<longleftrightarrow> v < USER_PAGES \<and> bit (vmap (ram s) r v) 0"

abbreviation shared_at :: "mmap_region list \<Rightarrow> nat \<Rightarrow> bool" where
  "shared_at rs v \<equiv> shared_page rs (of_nat (4096 * v))"

text \<open>Page \<open>v\<close> of the new table has the permissions of the old one, and is the same page if shared, else a fresh page with the same bytes.\<close>

definition page_copied :: "mmap_region list \<Rightarrow> u64 \<Rightarrow> u64 \<Rightarrow> 'a vm_scheme \<Rightarrow> nat \<Rightarrow> 'a vm_scheme \<Rightarrow> bool" where
  "page_copied rs r q s v s' \<longleftrightarrow> (let e = vmap (ram s) r v; e' = vmap (ram s') q v in
     e' = mapped_pte (PTE2PA e') (PTE_FLAGS e) \<and>
     (if shared_at rs v then PTE2PA e' = PTE2PA e
      else pa_of e' \<notin> live_pages s \<and> pa_of e' \<in> live_pages s' \<and> \<not> is_table (ram s') q (pa_of e') \<and> (\<forall>x < 4096. ram s' (pa_of e' + x) = ram s (pa_of e + x))))"

definition private_pages :: "mmap_region list \<Rightarrow> u64 \<Rightarrow> 'a vm_scheme \<Rightarrow> nat \<Rightarrow> nat set" where
  "private_pages rs r s n = {v. v < n \<and> present r s v \<and> \<not> shared_at rs v}"

text \<open>What holds from the start on, whatever has been copied.\<close>

definition fork_frame :: "u64 \<Rightarrow> u64 \<Rightarrow> 'a vm_scheme \<Rightarrow> 'a vm_scheme \<Rightarrow> bool" where
  "fork_frame r q s s' \<longleftrightarrow> pt_ok r s' \<and> pt_ok q s' \<and> apart_tables r q s' \<and> node_adr (ram s') r = node_adr (ram s) r \<and> vmap (ram s') r = vmap (ram s) r \<and>
     live_pages s \<subseteq> live_pages s' \<and> (\<forall>a \<in> live_pages s. \<not> is_table (ram s) q a \<longrightarrow> \<not> is_table (ram s') q a \<and> (\<forall>x < 4096. ram s' (a + x) = ram s (a + x))) \<and>
     s' = s\<lparr>pages := pages s', free_lists := free_lists s', ram := ram s'\<rparr>"

definition copied :: "mmap_region list \<Rightarrow> u64 \<Rightarrow> u64 \<Rightarrow> 'a vm_scheme \<Rightarrow> nat \<Rightarrow> 'a vm_scheme \<Rightarrow> bool" where
  "copied rs r q s n s' \<longleftrightarrow> fork_frame r q s s' \<and> mem_free s \<le> mem_free s' + 3 * Finite_Set.card {v. v < n \<and> present r s v} \<and>
     (\<forall>v < 2 ^ 26. \<not> (v < n \<and> present r s v) \<longrightarrow> vmap (ram s') q v = vmap (ram s) q v) \<and>
     (\<forall>v < n. present r s v \<longrightarrow> page_copied rs r q s v s') \<and> inj_on (\<lambda>v. pa_of (vmap (ram s') q v)) (private_pages rs r s n)"

text \<open>What \<^verbatim>\<open>fork\<close> starts from: the new table maps none of the pages yet, and there is memory for all of them.\<close>

definition forkable :: "u64 \<Rightarrow> u64 \<Rightarrow> 'a vm_scheme \<Rightarrow> bool" where
  "forkable r q s \<longleftrightarrow> pt_ok r s \<and> pt_ok q s \<and> apart_tables r q s \<and> 3 * Finite_Set.card {v. present r s v} \<le> mem_free s \<and>
     (\<forall>v. present r s v \<longrightarrow> pa_of (vmap (ram s) r v) \<in> live_pages s \<and> \<not> is_table (ram s) q (pa_of (vmap (ram s) r v)) \<and> \<not> bit (vmap (ram s) q v) 0)"

lemma finite_present [simp]: "finite {v. present r s v}" "finite {v. v < n \<and> present r s v}"
  by (rule finite_subset [of _ "{..<USER_PAGES}"]; auto simp: present_def)+

lemma copied_0: "forkable r q s \<Longrightarrow> copied rs r q s 0 s"
  by (simp add: copied_def forkable_def fork_frame_def private_pages_def)

lemma copied_skip: "copied rs r q s n s' \<Longrightarrow> n \<le> n' \<Longrightarrow> (\<And>v. n \<le> v \<Longrightarrow> v < n' \<Longrightarrow> \<not> present r s v) \<Longrightarrow> copied rs r q s n' s'"
proof -
  assume c: "copied rs r q s n s'" "n \<le> n'" "\<And>v. n \<le> v \<Longrightarrow> v < n' \<Longrightarrow> \<not> present r s v"
  then have e: "v < n' \<and> present r s v \<longleftrightarrow> v < n \<and> present r s v" for v by (meson not_le order_less_le_trans)
  then have "private_pages rs r s n' = private_pages rs r s n" unfolding private_pages_def by blast
  moreover have "(\<forall>v < n'. present r s v \<longrightarrow> P v) = (\<forall>v < n. present r s v \<longrightarrow> P v)" for P using e by blast
  ultimately show ?thesis using c(1) unfolding copied_def e by simp
qed

lemma fork_frame_step:
  assumes a: "fork_frame r q s t" and live: "live_pages t \<subseteq> live_pages u" and okr: "pt_ok r u" and okq: "pt_ok q u"
    and na: "node_adr (ram u) r = node_adr (ram t) r" "node_adr (ram u) q = node_adr (ram t) q" "vmap (ram u) r = vmap (ram t) r"
    and byt: "\<And>a x. a \<in> live_pages t \<Longrightarrow> x < 4096 \<Longrightarrow> ram u (a + x) = ram t (a + x)" and rec: "u = t\<lparr>pages := pages u, free_lists := free_lists u, ram := ram u\<rparr>"
    and f: "pt_frame 2 q u s'"
  shows "fork_frame r q s s'"
proof -
  note A = a [unfolded fork_frame_def]
  have ap: "apart_tables r q u" using A unfolding apart_tables_def is_table_def na by blast
  note O = frame_other_table [OF f okr ap]
  have "live_pages s \<subseteq> live_pages s'" using A live pt_frameD(2) [OF f] by blast
  moreover have "\<not> is_table (ram s') q b \<and> (\<forall>x < 4096. ram s' (b + x) = ram s (b + x))" if b: "b \<in> live_pages s" "\<not> is_table (ram s) q b" for b
  proof -
    have t: "b \<in> live_pages t" "\<not> is_table (ram t) q b" "\<And>x. x < 4096 \<Longrightarrow> ram t (b + x) = ram s (b + x)" using A b by blast+
    have u: "b \<in> live_pages u" "\<not> is_table (ram u) q b" using t live unfolding is_table_def na by blast+
    show ?thesis using frame_keeps_page [OF f u] byt [OF t(1)] t(3) by simp
  qed
  moreover have "s' = s\<lparr>pages := pages s', free_lists := free_lists s', ram := ram s'\<rparr>"
  proof -
    have "s' = u\<lparr>pages := pages s', free_lists := free_lists s', ram := ram s'\<rparr>" using f by (simp add: pt_frame_def)
    also have "\<dots> = t\<lparr>pages := pages s', free_lists := free_lists s', ram := ram s'\<rparr>" by (subst rec) simp
    also have "\<dots> = s\<lparr>pages := pages s', free_lists := free_lists s', ram := ram s'\<rparr>"
    proof -
      have "t = s\<lparr>pages := pages t, free_lists := free_lists t, ram := ram t\<rparr>" using A by blast
      then have "t\<lparr>pages := pages s', free_lists := free_lists s', ram := ram s'\<rparr> =
        s\<lparr>pages := pages t, free_lists := free_lists t, ram := ram t\<rparr>\<lparr>pages := pages s', free_lists := free_lists s', ram := ram s'\<rparr>" by (rule arg_cong)
      then show ?thesis by simp
    qed
    finally show ?thesis .
  qed
  ultimately show ?thesis using O pt_frameD(1) [OF f] A na unfolding fork_frame_def by simp
qed

lemma PTE_FLAGS_only: "only_flags (PTE_FLAGS e)"
proof -
  have m: "(0x3ff :: u64) = Bit_Operations.mask 10" by (simp add: mask_eq_exp_minus_1)
  show ?thesis unfolding only_flags_def PTE_FLAGS_def m bit_and_iff bit_or_iff bit_mask_iff bit_PTE_HIGH by auto
qed

lemma fork_frameD:
  assumes "fork_frame r q s t"
  shows "pt_ok r t" "pt_ok q t" "apart_tables r q t" "node_adr (ram t) r = node_adr (ram s) r" "vmap (ram t) r = vmap (ram s) r" "live_pages s \<subseteq> live_pages t"
    "a \<in> live_pages s \<Longrightarrow> \<not> is_table (ram s) q a \<Longrightarrow> \<not> is_table (ram t) q a"
    "a \<in> live_pages s \<Longrightarrow> \<not> is_table (ram s) q a \<Longrightarrow> x < 4096 \<Longrightarrow> ram t (a + x) = ram s (a + x)"
  using assms unfolding fork_frame_def by blast+

text \<open>A page copied earlier stays copied.\<close>

lemma page_copied_mono:
  assumes c: "page_copied rs r q s v t" and e: "vmap (ram s') q v = vmap (ram t) q v" and l: "live_pages t \<subseteq> live_pages s'"
    and k: "\<And>a x. a \<in> live_pages t \<Longrightarrow> \<not> is_table (ram t) q a \<Longrightarrow> \<not> is_table (ram s') q a \<and> (x < 4096 \<longrightarrow> ram s' (a + x) = ram t (a + x))"
  shows "page_copied rs r q s v s'"
  using c l k unfolding page_copied_def Let_def e by (auto split: if_splits)

lemma copied_step:
  assumes c: "copied rs r q s n t" and fk: "forkable r q s" and pv: "present r s n"
    and live: "live_pages t \<subseteq> live_pages u" and okr: "pt_ok r u" and okq: "pt_ok q u"
    and na: "node_adr (ram u) r = node_adr (ram t) r" "node_adr (ram u) q = node_adr (ram t) q" "vmap (ram u) r = vmap (ram t) r" "vmap (ram u) q = vmap (ram t) q"
    and byt: "\<And>a x. a \<in> live_pages t \<Longrightarrow> x < 4096 \<Longrightarrow> ram u (a + x) = ram t (a + x)" and rec: "u = t\<lparr>pages := pages u, free_lists := free_lists u, ram := ram u\<rparr>"
    and mf: "mem_free t \<le> Suc (mem_free u)" and f: "pt_frame 2 q u s'"
    and vm: "\<And>w. w < 2 ^ 26 \<Longrightarrow> vmap (ram s') q w = (if w = n then mapped_pte mem (PTE_FLAGS (vmap (ram s) r n)) else vmap (ram u) q w)"
    and mem: "unat mem \<in> live_pages u"
    and how: "if shared_at rs n then mem = PTE2PA (vmap (ram s) r n)
      else unat mem \<notin> live_pages t \<and> (\<forall>x < 4096. ram u (unat mem + x) = ram s (pa_of (vmap (ram s) r n) + x))"
  shows "copied rs r q s (Suc n) s'"
proof -
  note C = c [unfolded copied_def]
  have ff: "fork_frame r q s t" using C by blast
  have ff': "fork_frame r q s s'" by (rule fork_frame_step [OF ff live okr okq na(1-3) byt rec f])
  note F = fork_frameD [OF ff]
  have n26: "n < 2 ^ 26" using pv by (simp add: present_def USER_PAGES_def)
  have pn: "v < 2 ^ 26" if "present r s v" for v using that by (simp add: present_def USER_PAGES_def)
  have ins: "{v. v < Suc n \<and> present r s v} = insert n {v. v < n \<and> present r s v}" using pv by (auto simp: less_Suc_eq)
  have bud: "mem_free s \<le> mem_free s' + 3 * Finite_Set.card {v. v < Suc n \<and> present r s v}"
    unfolding ins using C mf pt_frameD(3) [OF f] by simp
  have k: "\<not> is_table (ram s') q a \<and> (x < 4096 \<longrightarrow> ram s' (a + x) = ram t (a + x))" if "a \<in> live_pages t" "\<not> is_table (ram t) q a" for a x
    using frame_keeps_page [OF f, of a] that live byt [OF that(1)] unfolding is_table_def na(2) by auto
  have lt: "live_pages t \<subseteq> live_pages s'" using live pt_frameD(2) [OF f] by blast
  have old: "vmap (ram s') q v = vmap (ram t) q v" if "v < 2 ^ 26" "v \<noteq> n" for v using vm [OF that(1)] that(2) na(4) by simp
  let ?e = "vmap (ram s) r n"
  have ml: "unat mem < 2 ^ 61" "unat mem mod 4096 = 0" using live_page(1,3) [OF mem] by auto
  have new: "vmap (ram s') q n = mapped_pte mem (PTE_FLAGS ?e)" using vm [OF n26] by simp
  have pm: "PTE2PA (vmap (ram s') q n) = mem" unfolding new by (rule mapped_pte_pa [OF PTE_FLAGS_only ml])
  have nt: "\<not> is_table (ram u) q (unat mem)" if "\<not> shared_at rs n"
  proof
    assume "is_table (ram u) q (unat mem)"
    then obtain m b where "node_adr (ram t) q m = Some b" "unat b = unat mem" by (auto simp: is_table_def na(2) simp del: node_adr.simps)
    then show False using pt_okD [OF F(2)] that how by (metis (no_types))
  qed
  have "page_copied rs r q s n s'"
    using how new frame_keeps_page [OF f mem nt] F(6) unfolding page_copied_def Let_def pm by (auto split: if_splits)
  then have pc: "\<forall>v < Suc n. present r s v \<longrightarrow> page_copied rs r q s v s'"
    using C page_copied_mono [OF _ old lt k] pn by (auto simp: less_Suc_eq)
  have inj: "inj_on (\<lambda>v. pa_of (vmap (ram s') q v)) (private_pages rs r s (Suc n))"
  proof (rule inj_onI)
    have lv: "pa_of (vmap (ram s') q v) \<in> live_pages t \<and> vmap (ram s') q v = vmap (ram t) q v" if "v \<in> private_pages rs r s (Suc n)" "v \<noteq> n" for v
      using that C old [OF pn] unfolding private_pages_def page_copied_def Let_def by (auto simp: less_Suc_eq split: if_splits)
    have ln: "pa_of (vmap (ram s') q n) \<notin> live_pages t" if "n \<in> private_pages rs r s (Suc n)" using that how pm by (simp add: private_pages_def)
    fix v w assume vw: "v \<in> private_pages rs r s (Suc n)" "w \<in> private_pages rs r s (Suc n)" "pa_of (vmap (ram s') q v) = pa_of (vmap (ram s') q w)"
    show "v = w"
    proof (cases "v = n \<or> w = n")
      case True
      then show ?thesis using lv ln vw by metis
    next
      case False
      then have "v \<in> private_pages rs r s n" "w \<in> private_pages rs r s n" using vw(1,2) by (auto simp: private_pages_def)
      moreover have "pa_of (vmap (ram t) q v) = pa_of (vmap (ram t) q w)" using lv vw False by metis
      ultimately show ?thesis using C unfolding inj_on_def by blast
    qed
  qed
  have "\<forall>v < 2 ^ 26. \<not> (v < Suc n \<and> present r s v) \<longrightarrow> vmap (ram s') q v = vmap (ram s) q v"
  proof (intro allI impI)
    fix v :: nat assume v: "v < 2 ^ 26" "\<not> (v < Suc n \<and> present r s v)"
    then have "v \<noteq> n" "\<not> (v < n \<and> present r s v)" using pv by auto
    then show "vmap (ram s') q v = vmap (ram s) q v" using C old [OF v(1)] v(1) by simp
  qed
  then show ?thesis unfolding copied_def using ff' bud pc inj by blast
qed

text \<open>The page a copy starts from, at each point of the loop.\<close>

lemma copied_source:
  assumes c: "copied rs r q s n t" and fk: "forkable r q s" and pv: "present r s n"
  shows "vmap (ram t) r n = vmap (ram s) r n" "pa_of (vmap (ram s) r n) \<in> live_pages t" "x < 4096 \<Longrightarrow> ram t (pa_of (vmap (ram s) r n) + x) = ram s (pa_of (vmap (ram s) r n) + x)"
    "\<not> bit (vmap (ram t) q n) 0" "3 \<le> mem_free t" "n < 2 ^ 26"
proof -
  note F = fork_frameD [OF c [unfolded copied_def, THEN conjunct1]]
  have l: "pa_of (vmap (ram s) r n) \<in> live_pages s" "\<not> is_table (ram s) q (pa_of (vmap (ram s) r n))" "\<not> bit (vmap (ram s) q n) 0" using fk pv unfolding forkable_def by blast+
  show n: "n < 2 ^ 26" using pv by (simp add: present_def USER_PAGES_def)
  show "vmap (ram t) r n = vmap (ram s) r n" "pa_of (vmap (ram s) r n) \<in> live_pages t" using F(5,6) l(1) by auto
  show "x < 4096 \<Longrightarrow> ram t (pa_of (vmap (ram s) r n) + x) = ram s (pa_of (vmap (ram s) r n) + x)" by (rule F(8) [OF l(1,2)])
  show "\<not> bit (vmap (ram t) q n) 0" using c l(3) n unfolding copied_def by simp
  have "{v. v < n \<and> present r s v} \<subseteq> {v. present r s v} - {n}" by auto
  then have "Finite_Set.card {v. v < n \<and> present r s v} \<le> Finite_Set.card ({v. present r s v} - {n})" by (intro card_mono) auto
  moreover have "Suc (Finite_Set.card ({v. present r s v} - {n})) = Finite_Set.card {v. present r s v}" using pv by (intro card_Suc_Diff1) auto
  moreover have "mem_free s \<le> mem_free t + 3 * Finite_Set.card {v. v < n \<and> present r s v}" "3 * Finite_Set.card {v. present r s v} \<le> mem_free s"
    using c fk unfolding copied_def forkable_def by blast+
  ultimately show "3 \<le> mem_free t" by linarith
qed

text \<open>Another reference to a page in use.\<close>

lemma refcnt_inc_spec:
  assumes vo: "vm_ok s" and a: "a \<in> live_pages s"
  shows "\<exists>u. page_refcnt_inc a s = Some u \<and> vm_ok u \<and> live_pages u = live_pages s \<and> mem_free u = mem_free s \<and> u = s\<lparr>pages := pages u\<rparr>"
proof -
  obtain p k where p: "(p, k) \<in> allocs (pages s)" "a = PAGE_START + PAGE_SIZE * p" using a by (auto simp: live_pages_def simp del: mem_allocs)
  let ?u = "upd_page p (\<lambda>g. g\<lparr>pg_refcnt := pg_refcnt g + 1\<rparr>) s" and ?w = "upd_page p (\<lambda>g. g\<lparr>pg_refcnt := pg_refcnt (pages s p) + 1\<rparr>) s"
  have pn: "p < PAGE_NUM" "is_first (pages s p)" using p(1) by simp_all
  have "page_find_by_address a = Some p" using page_find_address [of "zero_page\<lparr>pg_index := p\<rparr>" 0] p(2) pn(1) by (simp add: page_address_def PAGE_SIZE_def)
  then have run: "page_refcnt_inc a s = Some ?w" by (simp add: page_refcnt_inc_def upd_page_def)
  note r = buddy_inv_refcnt [OF _ pn(2)]
  have "buddy_inv ?w" "allocs (pages ?w) = allocs (pages s)" using r vo by (simp_all add: vm_ok_def)
  moreover have "?w = s\<lparr>pages := pages ?w\<rparr>" by (simp add: upd_page_def)
  moreover have "held ?w = held s" by (simp add: upd_page_def)
  ultimately show ?thesis using run vo by (intro exI [of _ ?w]) (simp add: vm_ok_def live_pages_def mem_free_def)
qed

lemma pt_ok_same: "pt_ok r s \<Longrightarrow> vm_ok u \<Longrightarrow> live_pages s \<subseteq> live_pages u \<Longrightarrow> ram u = ram s \<Longrightarrow> pt_ok r u"
  unfolding pt_ok_def tree_ok_def by auto

lemma fresh_clear:
  assumes ok: "pt_ok r t" and p: "p \<in> live_pages t" "\<not> is_table (ram t) r p"
  shows "clear_of r t p 4096"
proof -
  have "p + 4096 \<le> unat a \<or> unat a + 4096 \<le> p" if "node_adr (ram t) r l = Some a" for l a
    using live_apart [OF p(1) pt_okD [OF ok that]] p(2) that unfolding is_table_def by metis
  then show ?thesis unfolding clear_of_def by (meson le_trans not_less order_less_le_trans)
qed

lemma copied_map:
  assumes c: "copied rs r q s n t" and fk: "forkable r q s" and pv: "present r s n"
    and live: "live_pages t \<subseteq> live_pages u" and ok: "pt_ok r u" "pt_ok q u"
    and na: "node_adr (ram u) r = node_adr (ram t) r" "node_adr (ram u) q = node_adr (ram t) q" "vmap (ram u) r = vmap (ram t) r" "vmap (ram u) q = vmap (ram t) q"
    and byt: "\<And>a x. a \<in> live_pages t \<Longrightarrow> x < 4096 \<Longrightarrow> ram u (a + x) = ram t (a + x)" and rec: "u = t\<lparr>pages := pages u, free_lists := free_lists u, ram := ram u\<rparr>"
    and mf: "mem_free t \<le> Suc (mem_free u)" and mem: "unat mem \<in> live_pages u"
    and how: "if shared_at rs n then mem = PTE2PA (vmap (ram s) r n)
      else unat mem \<notin> live_pages t \<and> (\<forall>x < 4096. ram u (unat mem + x) = ram s (pa_of (vmap (ram s) r n) + x))"
  shows "\<exists>s'. mappages q (of_nat (4096 * n)) PGSIZE mem (PTE_FLAGS (vmap (ram s) r n)) u = Some (0, s') \<and> copied rs r q s (Suc n) s'"
proof -
  note S = copied_source [OF c fk pv]
  note pa = page_addr [OF S(6)]
  have nb: "\<not> bit (vmap (ram u) q (vpn (of_nat (4096 * n)))) 0" unfolding pa(2) na(4) by (rule S(4))
  have fr: "2 \<le> mem_free u" using mf S(5) by linarith
  obtain s' where s': "mappages q (of_nat (4096 * n)) PGSIZE mem (PTE_FLAGS (vmap (ram s) r n)) u = Some (0, s')" "pt_frame 2 q u s'"
    "\<And>w. w < 2 ^ 26 \<Longrightarrow> vmap (ram s') q w = (if w = n then mapped_pte mem (PTE_FLAGS (vmap (ram s) r n)) else vmap (ram u) q w)"
    using map_one [OF ok(2) pa(1) nb fr, of mem "PTE_FLAGS (vmap (ram s) r n)"] unfolding PGROUNDDOWN_page pa(2) by blast
  show ?thesis using copied_step [OF c fk pv live ok na byt rec mf s'(2,3) mem how] s'(1) by blast
qed

lemma copy_page_step:
  assumes c: "copied rs r q s n t" and fk: "forkable r q s" and pv: "present r s n"
  shows "\<exists>s'. copy_page rs q (of_nat (4096 * n)) (vmap (ram t) r n) t = Some (0, s') \<and> copied rs r q s (Suc n) s'"
proof -
  note F = fork_frameD [OF c [unfolded copied_def, THEN conjunct1]] and S = copied_source [OF c fk pv]
  have vo: "vm_ok t" using F(1) by (simp add: pt_ok_def)
  let ?e = "vmap (ram s) r n"
  show ?thesis
  proof (cases "shared_at rs n")
    case True
    obtain u where u: "page_refcnt_inc (pa_of ?e) t = Some u" "vm_ok u" "live_pages u = live_pages t" "mem_free u = mem_free t" "u = t\<lparr>pages := pages u\<rparr>"
      using refcnt_inc_spec [OF vo S(2)] by blast
    have ru: "ram u = ram t" "free_lists u = free_lists t" by (subst u(5); simp)+
    have ok: "pt_ok r u" "pt_ok q u" using pt_ok_same [OF F(1)] pt_ok_same [OF F(2)] u(2,3) ru by auto
    have rec: "u = t\<lparr>pages := pages u, free_lists := free_lists u, ram := ram u\<rparr>" unfolding ru by (rule trans [OF u(5)]) simp
    have "\<exists>s'. mappages q (of_nat (4096 * n)) PGSIZE (PTE2PA ?e) (PTE_FLAGS ?e) u = Some (0, s') \<and> copied rs r q s (Suc n) s'"
      by (rule copied_map [OF c fk pv _ ok _ _ _ _ _ rec]) (use True u(3,4) ru(1) S(2) in auto)
    then show ?thesis using True u(1) S(1) unfolding copy_page_def Let_def by (simp del: of_nat_mult)
  next
    case False
    have fr0: "0 < mem_free t" using S(5) by simp
    obtain p k where k: "kalloc t = Some (p, k)" "vm_ok k" "p \<notin> live_pages t" "live_pages k = insert p (live_pages t)"
      "Suc (mem_free k) = mem_free t" "k = t\<lparr>pages := pages k, free_lists := free_lists k\<rparr>"
      using kalloc_spec [OF vo fr0] by (elim exE conjE) (rule that)
    define mem where "mem = (of_nat p :: u64)"
    have lp: "p \<in> live_pages k" using k(4) by simp
    note pg = live_page [OF lp]
    have um: "unat mem = p" unfolding mem_def using pg(1) by (intro unat_of_nat_less) simp
    have m0: "mem \<noteq> 0" using pg(2) um by (auto simp: PAGE_START_def)
    have rk: "ram k = ram t" by (subst k(6)) simp
    have okk: "pt_ok r k" "pt_ok q k" using pt_ok_same [OF F(1)] pt_ok_same [OF F(2)] k(2,4) rk by auto
    define u where "u = move_at mem (PTE2PA ?e) PGSIZE k"
    have ru: "ram u = (\<lambda>x. if p \<le> x \<and> x < p + 4096 then ram t (pa_of ?e + (x - p)) else ram t x)" by (simp add: u_def move_at_def memmove_eq um rk PGSIZE_def)
    have eu: "u = k\<lparr>ram := ram u\<rparr>" by (simp add: u_def move_at_def)
    have fu: "live_pages u = live_pages k" "mem_free u = mem_free k" "pages u = pages k" "free_lists u = free_lists k" by (simp_all add: live_pages_def mem_free_def u_def move_at_def)
    have nt: "\<not> is_table (ram k) r p" "\<not> is_table (ram k) q p" using k(3) pt_okD [OF F(1)] pt_okD [OF F(2)] unfolding rk is_table_def by blast+
    have out: "\<not> (p \<le> x \<and> x < p + 4096) \<Longrightarrow> ram u x = ram k x" for x by (auto simp: ru rk)
    note R = clear_write [OF okk(1) fresh_clear [OF okk(1) lp nt(1)] out, folded eu, unfolded rk]
      and Q = clear_write [OF okk(2) fresh_clear [OF okk(2) lp nt(2)] out, folded eu, unfolded rk]
    have rec: "u = t\<lparr>pages := pages u, free_lists := free_lists u, ram := ram u\<rparr>"
      unfolding fu(3,4) using eu k(6) by (metis vm.update_convs(1))
    have byt: "ram u (a + x) = ram t (a + x)" if "a \<in> live_pages t" "x < 4096" for a x
    proof -
      have "a + 4096 \<le> p \<or> p + 4096 \<le> a" using live_apart [OF that(1) lp] that(1) k(3) by metis
      then show ?thesis using that(2) by (auto simp: ru)
    qed
    have "\<exists>s'. mappages q (of_nat (4096 * n)) PGSIZE mem (PTE_FLAGS ?e) u = Some (0, s') \<and> copied rs r q s (Suc n) s'"
      by (rule copied_map [OF c fk pv _ R(1) Q(1) R(3) Q(3) R(2) Q(2) byt rec]) (use False um k(3-5) fu S(3) ru in auto)
    then show ?thesis using False k(1) S(1) m0 unfolding copy_page_def Let_def mem_def [symmetric] by (simp del: of_nat_mult add: mem_def [symmetric] u_def)
  qed
qed

section \<open>The loops\<close>

lemma bit_small: "bit (of_nat k :: u64) n \<Longrightarrow> k < 2 ^ m \<Longrightarrow> n < m"
proof -
  assume b: "bit (of_nat k :: u64) n" and k: "k < 2 ^ m"
  have "take_bit m k = k" using k by (simp add: take_bit_nat_eq_self)
  then have "take_bit m (of_nat k :: u64) = of_nat k" using k by (metis of_nat_take_bit)
  then have "bit (take_bit m (of_nat k :: u64)) n" using b by simp
  then show ?thesis by (simp add: bit_take_bit_iff)
qed

text \<open>The address built from the three indices.\<close>

lemma va_of_indices:
  assumes "i < 256" "j < 512" "k < 512"
  shows "push_bit 30 (of_nat i) OR push_bit 21 (of_nat j) OR push_bit 12 (of_nat k) = (of_nat (4096 * (262144 * i + 512 * j + k)) :: u64)"
proof -
  have a: "push_bit 21 (of_nat j) AND push_bit 12 (of_nat k) = (0 :: u64)"
    using bit_small [of k _ 9] assms(3) by (intro bit_eqI) (fastforce simp: bit_and_iff bit_push_bit_iff)
  have "push_bit 30 (of_nat i) AND (push_bit 21 (of_nat j) OR push_bit 12 (of_nat k)) = (0 :: u64)"
    using bit_small [of k _ 9] bit_small [of j _ 9] assms(2,3) by (intro bit_eqI) (fastforce simp: bit_and_iff bit_or_iff bit_push_bit_iff)
  then have "push_bit 30 (of_nat i) OR push_bit 21 (of_nat j) OR push_bit 12 (of_nat k) = push_bit 30 (of_nat i :: u64) + (push_bit 21 (of_nat j) + push_bit 12 (of_nat k))"
    using a by (simp add: disjunctive_add_eq_or)
  then show ?thesis by (simp add: push_bit_eq_mult algebra_simps)
qed

lemma page_index:
  fixes i j k :: nat
  assumes "j < 512" "k < 512"
  shows "(262144 * i + 512 * j + k) div 262144 = i" "(262144 * i + 512 * j + k) div 512 mod 512 = j" "(262144 * i + 512 * j + k) mod 512 = k"
proof -
  have h: "262144 * i + 512 * j + k = (512 * j + k) + i * 262144" and l: "262144 * i + 512 * j + k = k + (512 * i + j) * 512" by simp_all
  have "512 * j + k < 262144" using assms by simp
  then show "(262144 * i + 512 * j + k) div 262144 = i" unfolding h by (simp add: div_mult_self1)
  show "(262144 * i + 512 * j + k) mod 512 = k" unfolding l mod_mult_self1 using assms(2) by simp
  have "(262144 * i + 512 * j + k) div 512 = j + i * 512" unfolding l using assms(2) by (simp add: div_mult_self1)
  then show "(262144 * i + 512 * j + k) div 512 mod 512 = j" using assms(1) by (simp add: mod_mult_self1)
qed

lemma ld64_index: "unat a \<in> live_pages s \<Longrightarrow> k < 512 \<Longrightarrow> ld64 (a + 8 * of_nat k) s = get64 (ram s) (unat a + 8 * k)"
proof -
  assume a: "unat a \<in> live_pages s" and k: "k < 512"
  have "unat (of_nat k :: u64) = k" using k by (intro unat_of_nat_less) simp
  then have "unat (a + 8 * of_nat k) = unat a + 8 * k" using live_page(1) [OF a] k by (simp add: unat_word_ariths)
  then show ?thesis by (simp add: ld64_def)
qed

lemma copy_low_spec:
  assumes fk: "forkable r q s" and ij: "i < 256" "j < 512" and pg: "node_adr (ram s) r (Low i j) = Some pg0"
  shows "k \<le> 512 \<Longrightarrow> copied rs r q s (262144 * i + 512 * j + k) t \<Longrightarrow>
    \<exists>s'. copy_low rs q i j pg0 [k..<512] t = Some (None, s') \<and> copied rs r q s (262144 * i + 512 * j + 512) s'"
proof (induction "512 - k" arbitrary: k t)
  case 0
  then show ?case by simp
next
  case (Suc d)
  then have k: "k < 512" by simp
  let ?v = "262144 * i + 512 * j + k"
  note F = fork_frameD [OF Suc.prems(2) [unfolded copied_def, THEN conjunct1]]
  have l: "ld64 (pg0 + 8 * of_nat k) t = vmap (ram t) r ?v"
  proof -
    have n: "node_adr (ram t) r (Low i j) = Some pg0" using F(4) pg by simp
    show ?thesis unfolding vmap_def page_index [OF ij(2) k] leaf_def n using ld64_index [OF pt_okD [OF F(1) n] k] by simp
  qed
  have up: "[k..<512] = k # [Suc k..<512]" using k by (rule upt_conv_Cons)
  have IH: "copied rs r q s (Suc ?v) t' \<Longrightarrow> \<exists>s'. copy_low rs q i j pg0 [Suc k..<512] t' = Some (None, s') \<and> copied rs r q s (262144 * i + 512 * j + 512) s'" for t'
    using Suc.hyps(1) [of "Suc k" t'] Suc.hyps(2) k by simp
  have lim: "?v < USER_PAGES \<longleftrightarrow> \<not> (i = 255 \<and> j = 511 \<and> k \<ge> 509)" using ij k by (auto simp: USER_PAGES_def)
  show ?case
  proof (cases "present r s ?v")
    case True
    obtain s1 where s1: "copy_page rs q (of_nat (4096 * ?v)) (vmap (ram t) r ?v) t = Some (0, s1)" "copied rs r q s (Suc ?v) s1"
      using copy_page_step [OF Suc.prems(2) fk True] by blast
    have b: "\<not> (i = 255 \<and> j = 511 \<and> k \<ge> 509)" "bit (vmap (ram t) r ?v) 0" using True lim F(5) by (auto simp: present_def)
    show ?thesis unfolding up using IH [OF s1(2)] b(2) s1(1)
      by (simp add: Let_def l b(1) va_of_indices [OF ij k] del: of_nat_mult of_nat_add)
  next
    case False
    have "copied rs r q s (Suc ?v) t" by (rule copied_skip [OF Suc.prems(2)]) (use False in \<open>auto simp: less_Suc_eq_le dest: le_antisym\<close>)
    moreover have "copy_low rs q i j pg0 (k # [Suc k..<512]) t = copy_low rs q i j pg0 [Suc k..<512] t"
      using False lim F(5) by (auto simp: present_def Let_def l)
    ultimately show ?thesis unfolding up using IH by simp
  qed
qed

text \<open>Where a table is missing, none of its pages is present.\<close>

lemma absent_low: "j < 512 \<Longrightarrow> node_adr (ram s) r (Low i j) = None \<Longrightarrow> 262144 * i + 512 * j \<le> v \<Longrightarrow> v < 262144 * i + 512 * j + 512 \<Longrightarrow> \<not> present r s v"
proof -
  assume j: "j < 512" and n: "node_adr (ram s) r (Low i j) = None" and v: "262144 * i + 512 * j \<le> v" "v < 262144 * i + 512 * j + 512"
  define k where "k = v - (262144 * i + 512 * j)"
  have k: "k < 512" "v = 262144 * i + 512 * j + k" using v by (simp_all add: k_def)
  show ?thesis unfolding present_def vmap_def k(2) page_index [OF j k(1)] leaf_def n by simp
qed

lemma table_entry:
  assumes ff: "fork_frame r q s t" and i: "i < 512" and a: "node_adr (ram s) r n = Some a" and n: "inner n"
    and nd: "node_adr (ram s) r (kid n i) = child (ram s) a i" "node_adr (ram t) r (kid n i) = child (ram t) a i"
  shows "node_adr (ram s) r (kid n i) = (if bit (ld64 (a + 8 * of_nat i) t) 0 then Some (PTE2PA (ld64 (a + 8 * of_nat i) t)) else None)"
proof -
  note F = fork_frameD [OF ff]
  have "node_adr (ram t) r n = Some a" using a F(4) by simp
  then have l: "ld64 (a + 8 * of_nat i) t = get64 (ram t) (unat a + 8 * i)" using ld64_index [OF pt_okD [OF F(1)] i] by blast
  have "node_adr (ram s) r (kid n i) = child (ram t) a i" using nd(2) F(4) by simp
  then show ?thesis unfolding l child_def Let_def .
qed

lemma copy_mid_spec:
  assumes fk: "forkable r q s" and i: "i < 256" and pg: "node_adr (ram s) r (Mid i) = Some pg1"
  shows "j \<le> 512 \<Longrightarrow> copied rs r q s (262144 * i + 512 * j) t \<Longrightarrow>
    \<exists>s'. copy_mid rs q i pg1 [j..<512] t = Some (None, s') \<and> copied rs r q s (262144 * i + 262144) s'"
proof (induction "512 - j" arbitrary: j t)
  case 0
  then show ?case by simp
next
  case (Suc d)
  then have j: "j < 512" by simp
  have up: "[j..<512] = j # [Suc j..<512]" using j by (rule upt_conv_Cons)
  have ff: "fork_frame r q s t" using Suc.prems(2) by (simp add: copied_def)
  have "node_adr (ram t) r (Mid i) = Some pg1" using fork_frameD(4) [OF ff] pg by simp
  then have e: "node_adr (ram s) r (Low i j) = (if bit (ld64 (pg1 + 8 * of_nat j) t) 0 then Some (PTE2PA (ld64 (pg1 + 8 * of_nat j) t)) else None)"
    using table_entry [OF ff j pg] node_adr_Low [OF _ j] i pg by simp
  have IH: "copied rs r q s (262144 * i + 512 * j + 512) t' \<Longrightarrow> \<exists>s'. copy_mid rs q i pg1 [Suc j..<512] t' = Some (None, s') \<and> copied rs r q s (262144 * i + 262144) s'" for t'
    using Suc.hyps(1) [of "Suc j" t'] Suc.hyps(2) j by (simp add: algebra_simps)
  show ?case
  proof (cases "bit (ld64 (pg1 + 8 * of_nat j) t) 0")
    case True
    then obtain s1 where s1: "copy_low rs q i j (PTE2PA (ld64 (pg1 + 8 * of_nat j) t)) [0..<512] t = Some (None, s1)" "copied rs r q s (262144 * i + 512 * j + 512) s1"
      using copy_low_spec [OF fk i j, of "PTE2PA (ld64 (pg1 + 8 * of_nat j) t)" 0 rs t] e Suc.prems(2) by auto
    show ?thesis unfolding up using IH [OF s1(2)] True s1(1) by (simp add: Let_def del: upt_conv_Cons)
  next
    case False
    have "copied rs r q s (262144 * i + 512 * j + 512) t" by (rule copied_skip [OF Suc.prems(2)]) (use absent_low [OF j, of s r i] e False in auto)
    then show ?thesis unfolding up using IH False by (simp add: Let_def)
  qed
qed

lemma copy_top_spec:
  assumes fk: "forkable r q s"
  shows "i \<le> 256 \<Longrightarrow> copied rs r q s (262144 * i) t \<Longrightarrow> \<exists>s'. copy_top rs q r [i..<256] t = Some (None, s') \<and> copied rs r q s (2 ^ 26) s'"
proof (induction "256 - i" arbitrary: i t)
  case 0
  then show ?case by simp
next
  case (Suc d)
  then have i: "i < 256" "i < 512" by simp_all
  have up: "[i..<256] = i # [Suc i..<256]" using i(1) by (rule upt_conv_Cons)
  have ff: "fork_frame r q s t" using Suc.prems(2) by (simp add: copied_def)
  have e: "node_adr (ram s) r (Mid i) = (if bit (ld64 (r + 8 * of_nat i) t) 0 then Some (PTE2PA (ld64 (r + 8 * of_nat i) t)) else None)"
    using table_entry [OF ff i(2), of Root r] node_adr_Mid [OF i(2)] by simp
  have IH: "copied rs r q s (262144 * i + 262144) t' \<Longrightarrow> \<exists>s'. copy_top rs q r [Suc i..<256] t' = Some (None, s') \<and> copied rs r q s (2 ^ 26) s'" for t'
    using Suc.hyps(1) [of "Suc i" t'] Suc.hyps(2) i by (simp add: algebra_simps)
  show ?case
  proof (cases "bit (ld64 (r + 8 * of_nat i) t) 0")
    case True
    then obtain s1 where s1: "copy_mid rs q i (PTE2PA (ld64 (r + 8 * of_nat i) t)) [0..<512] t = Some (None, s1)" "copied rs r q s (262144 * i + 262144) s1"
      using copy_mid_spec [OF fk i(1), of "PTE2PA (ld64 (r + 8 * of_nat i) t)" 0 rs t] e Suc.prems(2) by auto
    show ?thesis unfolding up using IH [OF s1(2)] True s1(1) by (simp add: Let_def)
  next
    case False
    have low: "node_adr (ram s) r (Low i j) = None" for j using e False i(2) by (simp split: option.splits)
    have "\<not> present r s v" if "262144 * i \<le> v" "v < 262144 * i + 262144" for v
    proof (rule absent_low [OF _ low])
      show "(v - 262144 * i) div 512 < 512" using that by (simp add: div_less_iff_less_mult)
      show "262144 * i + 512 * ((v - 262144 * i) div 512) \<le> v" "v < 262144 * i + 512 * ((v - 262144 * i) div 512) + 512"
        using that mult_div_mod_eq [of 512 "v - 262144 * i"] mod_less_divisor [of 512 "v - 262144 * i"] by linarith+
    qed
    then have "copied rs r q s (262144 * i + 262144) t" by (intro copied_skip [OF Suc.prems(2)]) auto
    then show ?thesis unfolding up using IH False by (simp add: Let_def)
  qed
qed

lemma copy_top_copies:
  assumes "forkable r q s"
  shows "\<exists>s'. copy_top rs q r [0..<256] s = Some (None, s') \<and> copied rs r q s (2 ^ 26) s'"
  using copy_top_spec [OF assms, of 0 rs s] copied_0 [OF assms, of rs] by simp

section \<open>Property\<close>

text \<open>
  C12: \<^verbatim>\<open>uvmcopy\<close> gives the child the memory of the parent. When memory suffices it returns 0; each page of the
  parent below the guard page is mapped in the child with the same permissions and reads the same
  bytes. A page of a shared mapping is the same physical page; every other is a page that was free
  before, no two of them the same, so neither process sees what the other writes later. The entries of
  the parent, and all other entries of the child, stay.
\<close>

theorem uvmcopy_correct:
  fixes s :: "'a kern_scheme"
  assumes "forkable r q s" "p_pagetable (procs s old) = r" "p_pagetable (procs s new) = q" "p_regions (procs s old) = rs"
  shows "\<exists>s'. uvmcopy old new s = Some (0, s') \<and> pt_ok r s' \<and> pt_ok q s' \<and> vmap (ram s') r = vmap (ram s) r \<and>
    (\<forall>v. present r s v \<longrightarrow> (let e = vmap (ram s) r v; e' = vmap (ram s') q v in
       e' = mapped_pte (PTE2PA e') (PTE_FLAGS e) \<and> (\<forall>x < 4096. ram s' (pa_of e' + x) = ram s (pa_of e + x) \<and> ram s' (pa_of e + x) = ram s (pa_of e + x)) \<and>
       (if shared_at rs v then PTE2PA e' = PTE2PA e else pa_of e' \<notin> live_pages s \<and> pa_of e' \<in> live_pages s'))) \<and>
    inj_on (\<lambda>v. pa_of (vmap (ram s') q v)) {v. present r s v \<and> \<not> shared_at rs v} \<and>
    (\<forall>v < 2 ^ 26. \<not> present r s v \<longrightarrow> vmap (ram s') q v = vmap (ram s) q v)"
proof -
  obtain s' where s': "copy_top rs q r [0..<256] s = Some (None, s')" "copied rs r q s (2 ^ 26) s'" using copy_top_copies [OF assms(1), of rs] by blast
  have run: "uvmcopy old new s = Some (0, s')" using s'(1) by (simp add: uvmcopy_def assms(2-4) Let_def)
  note C = s'(2) [unfolded copied_def]
  note F = fork_frameD [OF C [THEN conjunct1]]
  have lt: "v < 2 ^ 26" if "present r s v" for v using that by (simp add: present_def USER_PAGES_def)
  have keep: "ram s' (pa_of (vmap (ram s) r v) + x) = ram s (pa_of (vmap (ram s) r v) + x)" if "present r s v" "x < 4096" for v x
    using F(8) that assms(1) unfolding forkable_def by blast
  have pc: "page_copied rs r q s v s'" if "present r s v" for v using C lt [OF that] that by blast
  have "private_pages rs r s (2 ^ 26) = {v. present r s v \<and> \<not> shared_at rs v}" using lt by (auto simp: private_pages_def)
  then have inj: "inj_on (\<lambda>v. pa_of (vmap (ram s') q v)) {v. present r s v \<and> \<not> shared_at rs v}" using C by simp
  have pages: "\<forall>v. present r s v \<longrightarrow> (let e = vmap (ram s) r v; e' = vmap (ram s') q v in
       e' = mapped_pte (PTE2PA e') (PTE_FLAGS e) \<and> (\<forall>x < 4096. ram s' (pa_of e' + x) = ram s (pa_of e + x) \<and> ram s' (pa_of e + x) = ram s (pa_of e + x)) \<and>
       (if shared_at rs v then PTE2PA e' = PTE2PA e else pa_of e' \<notin> live_pages s \<and> pa_of e' \<in> live_pages s'))"
  proof (intro allI impI)
    fix v assume v: "present r s v"
    show "let e = vmap (ram s) r v; e' = vmap (ram s') q v in
       e' = mapped_pte (PTE2PA e') (PTE_FLAGS e) \<and> (\<forall>x < 4096. ram s' (pa_of e' + x) = ram s (pa_of e + x) \<and> ram s' (pa_of e + x) = ram s (pa_of e + x)) \<and>
       (if shared_at rs v then PTE2PA e' = PTE2PA e else pa_of e' \<notin> live_pages s \<and> pa_of e' \<in> live_pages s')"
      using pc [OF v] keep [OF v] unfolding page_copied_def Let_def by (cases "shared_at rs v") (simp only: if_True simp_thms, auto)
  qed
  have rest: "\<forall>v < 2 ^ 26. \<not> present r s v \<longrightarrow> vmap (ram s') q v = vmap (ram s) q v" using C by blast
  show ?thesis by (intro exI [of _ s'] conjI) (use run F(1,2,5) pages inj rest in blast)+
qed

text \<open>A parent with one page and a child with an empty table.\<close>

lemma forkable_fields:
  "forkable r q s \<Longrightarrow> held u = held s \<Longrightarrow> pages u = pages s \<Longrightarrow> free_lists u = free_lists s \<Longrightarrow> ram u = ram s \<Longrightarrow> forkable r q u"
  by (simp add: forkable_def pt_ok_def apart_tables_def present_def vm_ok_def buddy_inv_def live_pages_def mem_free_def)

lemma one_page_forkable:
  obtains r q and s :: vm where "forkable r q s" "present r s 3"
proof -
  have f: "only_flags (PTE_R OR PTE_U)" by (intro only_flagsI only_flags_V)
  have b: "bit (PTE_R OR PTE_U) 4" by (simp add: PTE_U_def bit_or_iff)
  obtain r and s :: vm and p where s: "pt_ok r s" "readable r s 3" "60000 \<le> mem_free s" "\<And>v. v < 2 ^ 26 \<Longrightarrow> v \<noteq> 3 \<Longrightarrow> vmap (ram s) r v = 0"
    by (rule user_page [OF f b]) blast
  have "vm_ok s" "0 < mem_free s" using s(1,3) by (simp_all add: pt_ok_def)
  then obtain q and u :: vm where u: "pt_ok q u" "unat q \<notin> live_pages s" "live_pages u = insert (unat q) (live_pages s)" "Suc (mem_free u) = mem_free s"
    "\<forall>v < 2 ^ 26. vmap (ram u) q v = 0" "\<forall>n. n \<noteq> Root \<longrightarrow> node_adr (ram u) q n = None" "\<forall>x. x < unat q \<or> unat q + 4096 \<le> x \<longrightarrow> ram u x = ram s x"
    using uvmcreate_spec [of s] by blast
  have lq: "unat q \<in> live_pages u" using u(3) by simp
  have same: "ram u (a + x) = ram s (a + x)" if "a \<in> live_pages s" "x < 4096" for a x
  proof -
    have "a + 4096 \<le> unat q \<or> unat q + 4096 \<le> a" using live_apart [OF that(1) lq] that(1) u(2) by metis
    then show ?thesis using u(7) that(2) by auto
  qed
  have na: "node_adr (ram u) r = node_adr (ram s) r" and vm: "vmap (ram u) r = vmap (ram s) r" using vmap_cong [of "ram s" r "ram u"] same pt_okD [OF s(1)] by blast+
  have okr: "pt_ok r u" using s(1) u(1,3) unfolding pt_ok_def tree_ok_def na by blast
  have tab: "is_table (ram u) q a \<longleftrightarrow> a = unat q" for a
  proof -
    have "node_adr (ram u) q n = Some c \<longleftrightarrow> n = Root \<and> c = q" for n c using u(6) by (cases "n = Root") auto
    then show ?thesis unfolding is_table_def by auto
  qed
  have pr: "present r u v \<longleftrightarrow> v = 3" for v
  proof
    show "v = 3 \<Longrightarrow> present r u v" using s(2) by (simp add: present_def USER_PAGES_def vm readable_def)
    show "present r u v \<Longrightarrow> v = 3" using s(4) [of v] by (cases "v = 3") (auto simp: present_def USER_PAGES_def vm)
  qed
  have l3: "pa_of (vmap (ram s) r 3) \<in> live_pages s" using s(2) by (simp add: readable_def)
  have nq: "unat a \<noteq> unat q" if "node_adr (ram s) r n = Some a" for n a using pt_okD [OF s(1) that] u(2) by auto
  have "forkable r q u" unfolding forkable_def pr apart_tables_def tab na vm
  proof (intro conjI)
    show "pt_ok r u" "pt_ok q u" by (fact okr, fact u(1))
    show "\<forall>n a. node_adr (ram s) r n = Some a \<longrightarrow> unat a \<noteq> unat q" using nq by blast
    show "3 * Finite_Set.card {v. v = (3 :: nat)} \<le> mem_free u" using s(3) u(4) by simp
    have "pa_of (vmap (ram s) r 3) \<noteq> unat q" using l3 u(2) by metis
    then show "\<forall>v. v = 3 \<longrightarrow> pa_of (vmap (ram s) r v) \<in> live_pages u \<and> pa_of (vmap (ram s) r v) \<noteq> unat q \<and> \<not> bit (vmap (ram u) q v) 0"
      using l3 u(3,5) by simp
  qed
  then show ?thesis using that pr by blast
qed

theorem uvmcopy_correct_witness:
  "\<exists>(s :: kern) s' r q. present r s 3 \<and> uvmcopy 0 1 s = Some (0, s') \<and> pa_of (vmap (ram s') q 3) \<notin> live_pages s \<and>
    ram s' (pa_of (vmap (ram s') q 3) + 5) = ram s (pa_of (vmap (ram s) r 3) + 5)"
proof -
  obtain r q and v :: vm where v: "forkable r q v" "present r v 3" by (rule one_page_forkable)
  obtain s :: kern where s: "held s = held v" "pages s = pages v" "free_lists s = free_lists v" "ram s = ram v"
    "p_pagetable (procs s 0) = r" "p_pagetable (procs s 1) = q" "p_regions (procs s 0) = []"
  proof
    fix t :: kern and x :: proc
    let ?t = "t\<lparr>held := held v, pages := pages v, free_lists := free_lists v, ram := ram v, procs := \<lambda>i. x\<lparr>p_pagetable := if i = 0 then r else q, p_regions := []\<rparr>\<rparr>"
    show "held ?t = held v" "pages ?t = pages v" "free_lists ?t = free_lists v" "ram ?t = ram v"
      "p_pagetable (procs ?t 0) = r" "p_pagetable (procs ?t 1) = q" "p_regions (procs ?t 0) = []" by simp_all
  qed
  have p3: "present r s 3" using v(2) by (simp add: present_def s(4))
  have ns: "\<not> shared_page [] a" for a by (simp add: shared_page_def)
  show ?thesis using uvmcopy_correct [OF forkable_fields [OF v(1) s(1-4)] s(5-7)] p3 ns
    by (elim exE conjE) (rule exI [of _ s], fastforce simp: Let_def)
qed

end
