(* ===== verification/System.thy ===== *)
theory System
  imports Mmap Vm_Copy File_Path
begin

text \<open>
  The whole kernel state: the process table and memory of \<^verbatim>\<open>Proc\<close>, and the files of \<^verbatim>\<open>File\<close>. Both have the
  locks and the page allocator; here the ones of the process side are the real ones, and a call into the
  file system gets them in its view of the state and gives them back with its result.
\<close>

unbundle bit_operations_syntax

section \<open>State\<close>

text \<open>
  \<open>fsys\<close> is the state of files and file system, a record of its own in a box; per process there are its descriptors and their close on
  exec bits, its working directory (\<open>None\<close> is the null pointer) and its name.
\<close>

datatype 'c fbox = Box (unbox: "'c files")

record 'c sys = kern +
  fsbox :: "'c fbox"
  ofiles :: "nat \<Rightarrow> nat \<Rightarrow> nat option"
  fdflags :: "nat \<Rightarrow> u32"
  cwds :: "nat \<Rightarrow> nat option"
  names :: "nat \<Rightarrow> nat \<Rightarrow> u8"
  MMAPREGIONS :: nat

abbreviation fsys :: "'c sys \<Rightarrow> 'c files" where
  "fsys s \<equiv> unbox (fsbox s)"

text \<open>A byte of user memory, through the page table.\<close>

definition user_byte :: "u64 \<Rightarrow> 'a vm_scheme \<Rightarrow> u64 \<Rightarrow> u8 option" where
  "user_byte pt s a = (case walkaddr pt (PGROUNDDOWN a) s of
     None \<Rightarrow> None
   | Some pa \<Rightarrow> if pa = 0 then None else Some (ram s (unat (pa + (a - PGROUNDDOWN a)))))"

text \<open>What the file system sees when process \<open>p\<close> calls it, and what the call leaves behind.\<close>

definition file_view :: "nat \<Rightarrow> 'c sys \<Rightarrow> 'c files" where
  "file_view p s = (let q = procs s p in (fsys s)\<lparr>held := held s, woken := [], pages := pages s, free_lists := free_lists s,
     cur_pid := sint (p_pid q), fsuid := p_fsuid q, fsgid := p_fsgid q, cap_effective := p_cap_effective q,
     cwd := (case cwds s p of None \<Rightarrow> cwd (fsys s) | Some i \<Rightarrow> i), ofile := ofiles s p, fdflag := fdflags s p,
     files.p_umask := cred.p_umask q, files.p_uid := cred.p_uid q, files.p_gid := cred.p_gid q,
     files.p_euid := cred.p_euid q, files.p_egid := cred.p_egid q, files.p_killed := (proc.p_killed q \<noteq> 0),
     umem := user_byte (p_pagetable q) s, uwr := (\<lambda>a. user_byte (p_pagetable q) s a \<noteq> None),
     targs := trap_args p s, files.in_user := (\<lambda>a n. Proc_Call.in_user p a n s)\<rparr>)"

definition file_back :: "nat \<Rightarrow> 'c files \<Rightarrow> 'c sys \<Rightarrow> 'c sys" where
  "file_back p F s = s\<lparr>held := held F, pages := pages F, free_lists := free_lists F, fsbox := Box F,
     ofiles := (ofiles s)(p := ofile F), fdflags := (fdflags s)(p := fdflag F),
     cwds := (case cwds s p of None \<Rightarrow> cwds s | Some _ \<Rightarrow> (cwds s)(p := Some (cwd F)))\<rparr>"

text \<open>The channels a call has woken, in their order.\<close>

primrec wake_all :: "chan list \<Rightarrow> 'a kern_scheme \<Rightarrow> 'a kern_scheme option" where
  "wake_all [] s = Some s"
| "wake_all (c # cs) s = do { s \<leftarrow> wakeup c s; wake_all cs s }"

text \<open>
  A call that neither blocks nor writes user memory: all the calls below are of this kind, so the view of
  user memory is not copied back.
\<close>

definition on_files :: "nat \<Rightarrow> ('c files \<Rightarrow> ('r \<times> 'c files) option) \<Rightarrow> 'c sys \<Rightarrow> ('r \<times> 'c sys) option" where
  "on_files p f s = do {
     (r, F) \<leftarrow> f (file_view p s);
     s \<leftarrow> wake_all (rev (woken F)) (file_back p F s);
     Some (r, s)
   }"

definition do_files :: "nat \<Rightarrow> ('c files \<Rightarrow> 'c files option) \<Rightarrow> 'c sys \<Rightarrow> 'c sys option" where
  "do_files p f s = do {
     (_, s) \<leftarrow> on_files p (\<lambda>F. do { F \<leftarrow> f F; Some ((), F) }) s;
     Some s
   }"

definition the_file :: "'c sys \<Rightarrow> nat \<Rightarrow> kfile" where
  "the_file s f = ftable (fsys s) f"

definition the_inode :: "'c sys \<Rightarrow> nat \<Rightarrow> inode" where
  "the_inode s i = itable (fsys s) i"

end
