(* ===== verification/Mmap_Call.thy ===== *)
theory Mmap_Call
  imports System
begin

text \<open>
  The rest of \<^verbatim>\<open>kernel/mmap.c\<close>: loading the pages of a mapping, \<^verbatim>\<open>mmap\<close>, \<^verbatim>\<open>munmap\<close>, \<^verbatim>\<open>mremap\<close>, \<^verbatim>\<open>mprotect\<close> and \<^verbatim>\<open>msync\<close>, the
  copy of the list for a new process and the page fault handler, with the system calls of
  \<^verbatim>\<open>kernel/sysproc.c\<close> on top of them. A node of the list is a \<open>mmap_region\<close>, \<open>mr_obj\<close> is the address of the
  slab object. An object that was given back keeps its bytes until the slab hands it out again, so the
  code that reads a node after \<^verbatim>\<open>slab_cache_free\<close> finds what was there.
\<close>

unbundle bit_operations_syntax

definition MAP_PRIVATE :: u32 where "MAP_PRIVATE = 2"
definition MAP_FIXED :: u32 where "MAP_FIXED = 0x10"
definition MS_ASYNC :: u32 where "MS_ASYNC = 1"
definition MS_SYNC :: u32 where "MS_SYNC = 4"
definition MREMAP_MAYMOVE :: u32 where "MREMAP_MAYMOVE = 1"
definition MREMAP_FIXED :: u32 where "MREMAP_FIXED = 2"
definition SCAUSE_PAGE_STORE :: u64 where "SCAUSE_PAGE_STORE = 15"

definition NOT_PAGEALIGN :: "u64 \<Rightarrow> bool" where "NOT_PAGEALIGN a \<longleftrightarrow> a AND (PGSIZE - 1) \<noteq> 0"
definition IS_ERR :: "u64 \<Rightarrow> bool" where "IS_ERR x \<longleftrightarrow> x \<ge> - 4095"

section \<open>The list of regions\<close>

primrec delete_region :: "u64 \<Rightarrow> mmap_region list \<Rightarrow> mmap_region list" where
  "delete_region a [] = []"
| "delete_region a (r # rs) = (if mr_addr r = a then rs else r # delete_region a rs)"

definition delete_mmap_node :: "nat \<Rightarrow> mmap_region \<Rightarrow> 'c sys \<Rightarrow> 'c sys option" where
  "delete_mmap_node p node s =
     (if p_regions (procs s p) = [] then Some s
      else do {
        let s = upd_proc p (\<lambda>q. q\<lparr>p_regions := delete_region (mr_addr node) (p_regions q)\<rparr>) s;
        s \<leftarrow> uvmunmap (p_pagetable (procs s p)) (mr_addr node) ((mr_length node + PGSIZE - 1) div PGSIZE) True s;
        do_files p (slab_cache_free (MMAPREGIONS s) (mr_obj node)) s
      })"

definition close_file :: "'c mmc_ops \<Rightarrow> nat \<Rightarrow> nat option \<Rightarrow> 'c sys \<Rightarrow> 'c sys option" where
  "close_file M p f s = (case f of None \<Rightarrow> Some s | Some f \<Rightarrow> do_files p (fileclose M f) s)"

primrec free_regions :: "'c mmc_ops \<Rightarrow> nat \<Rightarrow> mmap_region list \<Rightarrow> 'c sys \<Rightarrow> 'c sys option" where
  "free_regions M p [] s = Some s"
| "free_regions M p (r # rs) s = do {
     s \<leftarrow> close_file M p (mr_file r) s;
     s \<leftarrow> delete_mmap_node p r s;
     free_regions M p rs s
   }"

definition free_mmap_list :: "'c mmc_ops \<Rightarrow> nat \<Rightarrow> 'c sys \<Rightarrow> 'c sys option" where
  "free_mmap_list M p s = free_regions M p (p_regions (procs s p)) s"

text \<open>\<open>obj\<close> is the object the copy is written to; \<open>p\<close> is the process that runs.\<close>

definition copy_mmap_region :: "nat \<Rightarrow> nat \<Rightarrow> mmap_region \<Rightarrow> 'c sys \<Rightarrow> (mmap_region \<times> 'c sys) option" where
  "copy_mmap_region p obj src s =
     (case mr_file src of
        Some f \<Rightarrow>
          if mr_flags src AND MAP_ANONYMOUS = 0 then do {
            s \<leftarrow> do_files p (filedup f) s;
            Some (src\<lparr>mr_obj := obj\<rparr>, s)
          } else Some (src\<lparr>mr_obj := obj, mr_file := None\<rparr>, s)
      | None \<Rightarrow> Some (src\<lparr>mr_obj := obj\<rparr>, s))"

primrec copy_regions :: "nat \<Rightarrow> mmap_region list \<Rightarrow> mmap_region list \<Rightarrow> 'c sys \<Rightarrow> (mmap_region list option \<times> 'c sys) option" where
  "copy_regions p acc [] s = Some (Some acc, s)"
| "copy_regions p acc (r # rs) s = do {
     (obj, s) \<leftarrow> on_files p (slab_cache_alloc (MMAPREGIONS s)) s;
     if obj = 0 then Some (None, s)
     else do {
       (c, s) \<leftarrow> copy_mmap_region p obj r s;
       copy_regions p (acc @ [c]) rs s
     }
   }"

definition copy_mmap_regions :: "nat \<Rightarrow> nat \<Rightarrow> 'c sys \<Rightarrow> (int \<times> 'c sys) option" where
  "copy_mmap_regions p np s = do {
     (rs, s) \<leftarrow> copy_regions p [] (p_regions (procs s p)) s;
     case rs of
       None \<Rightarrow> Some (- ENOMEM, s)
     | Some rs \<Rightarrow> Some (0, upd_proc np (\<lambda>q. q\<lparr>p_regions := rs\<rparr>) s)
   }"

section \<open>Pages of a mapping\<close>

primrec put_bytes :: "u8 list \<Rightarrow> nat \<Rightarrow> memory \<Rightarrow> memory" where
  "put_bytes [] a m = m"
| "put_bytes (b # bs) a m = put_bytes bs (Suc a) (m(a := b))"

text \<open>
  \<^verbatim>\<open>fileread\<close> into a page of the kernel. The file of a mapping is a file on the disk: a pipe has no inode, and a device
  would copy to the same address in user memory, which is not followed.
\<close>

definition read_page :: "'c mmc_ops \<Rightarrow> nat \<Rightarrow> nat \<Rightarrow> u64 \<Rightarrow> int \<Rightarrow> 'c sys \<Rightarrow> (int \<times> 'c sys) option" where
  "read_page M p f mem n s =
     (if f_type (the_file s f) \<noteq> FD_INODE then None
      else do {
        ((r, bs), s) \<leftarrow> on_files p (\<lambda>F. do { (r, bs, F) \<leftarrow> fileread M (\<lambda>_. \<lparr>d_read = None, d_write = None, d_ioctl = None\<rparr>) f mem n False F; Some ((r, bs), F) }) s;
        Some (r, s\<lparr>ram := put_bytes bs (unat mem) (ram s)\<rparr>)
      })"

definition set_off :: "nat \<Rightarrow> u64 \<Rightarrow> 'c sys \<Rightarrow> 'c sys" where
  "set_off f offset s = s\<lparr>fsbox := Box (upd_file f (\<lambda>x. x\<lparr>f_off := ucast offset\<rparr>) (fsys s))\<rparr>"

definition file_part :: "nat \<Rightarrow> nat \<Rightarrow> 'c sys \<Rightarrow> u32" where
  "file_part f i s = (let d = d_size (the_inode s i) - f_off (the_file s f) in if d > 4096 then 4096 else d)"

partial_function (option) map_file_loop :: "'c mmc_ops \<Rightarrow> nat \<Rightarrow> u64 \<Rightarrow> u64 \<Rightarrow> u64 \<Rightarrow> nat \<Rightarrow> u64 \<Rightarrow> u64 \<Rightarrow> 'c sys \<Rightarrow> (int \<times> 'c sys) option" where
  "map_file_loop M p addr len perm f offset cur s =
     (if cur < len then do {
        let s = set_off f offset s;
        i \<leftarrow> f_ip (the_file s f);
        let n = file_part f i s;
        if n = 0 then Some (0, s)
        else do {
          (m, s) \<leftarrow> kalloc s;
          let mem = of_nat m;
          if mem = 0 then anon_failed p addr cur (- ENOMEM) s
          else do {
            (r, s) \<leftarrow> read_page M p f mem (sint n) (zero_at mem s);
            if r < 0 then do { s \<leftarrow> kfree (unat mem) s; anon_failed p addr cur r s }
            else do {
              (r, s) \<leftarrow> mappages (p_pagetable (procs s p)) (addr + cur) (ucast n) mem perm s;
              if r < 0 then do { s \<leftarrow> kfree (unat mem) s; Some (r, s) }
              else map_file_loop M p addr len perm f (offset + ucast n) (cur + PGSIZE) s
            }
          }
        }
      } else Some (0, s))"

definition map_file_pages :: "'c mmc_ops \<Rightarrow> nat \<Rightarrow> u64 \<Rightarrow> u64 \<Rightarrow> u64 \<Rightarrow> nat \<Rightarrow> u64 \<Rightarrow> 'c sys \<Rightarrow> (int \<times> 'c sys) option" where
  "map_file_pages M p addr len perm f offset s = map_file_loop M p addr len perm f offset 0 s"

definition mmap_load_pages :: "'c mmc_ops \<Rightarrow> u64 \<Rightarrow> u64 \<Rightarrow> u32 \<Rightarrow> u32 \<Rightarrow> nat option \<Rightarrow> u64 \<Rightarrow> 'c sys \<Rightarrow> (int \<times> 'c sys) option" where
  "mmap_load_pages M addr len prot flags f offset s = do {
     p \<leftarrow> curproc s;
     let perm = get_perm prot flags;
     if flags AND MAP_ANONYMOUS \<noteq> 0 then map_anon_pages p addr len perm s
     else do { f \<leftarrow> f; map_file_pages M p addr len perm f offset s }
   }"

definition upd_region :: "nat \<Rightarrow> nat \<Rightarrow> (mmap_region \<Rightarrow> mmap_region) \<Rightarrow> 'a kern_scheme \<Rightarrow> 'a kern_scheme" where
  "upd_region p obj g s = upd_proc p (\<lambda>q. q\<lparr>p_regions := map (\<lambda>r. if mr_obj r = obj then g r else r) (p_regions q)\<rparr>) s"

text \<open>The number of pages to release is computed from the length and the address of the end of the region.\<close>

definition scale_mmap_region :: "'c mmc_ops \<Rightarrow> nat \<Rightarrow> mmap_region \<Rightarrow> u64 \<Rightarrow> 'c sys \<Rightarrow> (int \<times> 'c sys) option" where
  "scale_mmap_region M p r sz s =
     (if mr_length r = sz then Some (0, s)
      else do {
        (e, s) \<leftarrow>
          (if mr_length r < sz then mmap_load_pages M (mr_addr r + mr_length r) (sz - mr_length r) (mr_prot r) (mr_flags r) (mr_file r) (mr_offset r) s
           else let dstart = PGROUNDDOWN (mr_addr r + mr_length r); dpages = (mr_length r - dstart + PGSIZE - 1) div PGSIZE
                in if mr_addr r + sz \<le> dstart \<and> dpages > 0 then do { s \<leftarrow> uvmunmap (p_pagetable (procs s p)) dstart dpages True s; Some (0, s) }
                   else Some (0, s));
        if e < 0 then Some (e, s) else Some (0, upd_region p (mr_obj r) (\<lambda>x. x\<lparr>mr_length := sz\<rparr>) s)
      })"

text \<open>The page fault handler.\<close>

definition alloc_mmap_page :: "'c mmc_ops \<Rightarrow> nat \<Rightarrow> u64 \<Rightarrow> u64 \<Rightarrow> 'c sys \<Rightarrow> (int \<times> 'c sys) option" where
  "alloc_mmap_page M p addr scause s =
     (let rd = PGROUNDDOWN addr
      in case find_mmap_region p rd s of
           None \<Rightarrow> Some (-1, s)
         | Some r \<Rightarrow>
             if scause = SCAUSE_PAGE_STORE \<and> mr_prot r AND PROT_WRITE = 0 then Some (-1, s)
             else do {
               let offset = (if mr_file r \<noteq> None then mr_offset r + ((rd - mr_addr r) div PGSIZE) * PGSIZE else 0);
               (e, s) \<leftarrow> mmap_load_pages M rd PGSIZE (mr_prot r) (mr_flags r) (mr_file r) offset s;
               Some (if e < 0 then -1 else 0, s)
             })"

section \<open>mmap\<close>

text \<open>
  \<^verbatim>\<open>MAP_FIXED\<close> with \<^verbatim>\<open>PROT_NONE\<close> takes the user bit from the entries of the range. The product of the \<^verbatim>\<open>int\<close> counter and the page
  size must not overflow.
\<close>

primrec protect_none :: "u64 \<Rightarrow> u64 \<Rightarrow> nat list \<Rightarrow> 'a vm_scheme \<Rightarrow> (int \<times> 'a vm_scheme) option" where
  "protect_none pt addr [] s = Some (0, s)"
| "protect_none pt addr (i # is) s =
     (if i \<ge> 2 ^ 19 then None
      else do {
        (pte, s) \<leftarrow> walk pt (addr + of_nat i * PGSIZE) True s;
        if pte = 0 then Some (- EINVAL, s)
        else protect_none pt addr is (st64 pte (ld64 pte s AND NOT PTE_U) s)
      })"

text \<open>The end of \<^verbatim>\<open>mmap\<close> on failure; the node may be in the list already, and stays there.\<close>

definition mmap_out :: "'c mmc_ops \<Rightarrow> nat \<Rightarrow> nat option \<Rightarrow> nat \<Rightarrow> int \<Rightarrow> 'c sys \<Rightarrow> (int \<times> 'c sys) option" where
  "mmap_out M p f obj e s = do {
     s \<leftarrow> close_file M p f s;
     s \<leftarrow> do_files p (slab_cache_free (MMAPREGIONS s) obj) s;
     Some (e, s)
   }"

text \<open>The part after the address is chosen.\<close>

definition mmap_at :: "'c mmc_ops \<Rightarrow> nat \<Rightarrow> u64 \<Rightarrow> u64 \<Rightarrow> u32 \<Rightarrow> u32 \<Rightarrow> nat option \<Rightarrow> u64 \<Rightarrow> 'c sys \<Rightarrow> (int \<times> 'c sys) option" where
  "mmap_at M p addr len prot flags f offset s =
     (if addr + PGROUNDUP len > USERTOP then Some (- ENOMEM, s)
      else do {
        (obj, s) \<leftarrow> on_files p (slab_cache_alloc (MMAPREGIONS s)) s;
        if obj = 0 then Some (- ENOMEM, s)
        else do {
          s \<leftarrow> (case f of None \<Rightarrow> Some s
                 | Some x \<Rightarrow> do {
                     s \<leftarrow> do_files p (filedup x) s;
                     if flags AND MAP_ANONYMOUS = 0 then do_files p (filedup x) s else Some s
                   });
          if f \<noteq> None \<and> flags AND MAP_ANONYMOUS \<noteq> 0 then mmap_out M p f obj (- EINVAL) s
          else do {
            let r = \<lparr>mr_addr = addr, mr_length = len, mr_offset = offset, mr_file = f, mr_prot = prot, mr_flags = flags, mr_obj = obj\<rparr>;
            let s = upd_proc p (\<lambda>q. q\<lparr>p_regions := insert_region r (p_regions q)\<rparr>) s;
            (e, s) \<leftarrow> mmap_load_pages M addr len prot flags f offset s;
            if e < 0 then mmap_out M p f obj e s
            else Some (sint addr, upd_region p obj (\<lambda>x. x\<lparr>mr_addr := addr, mr_length := PGROUNDUP len\<rparr>) s)
          }
        }
      })"

definition mmap :: "'c mmc_ops \<Rightarrow> u64 \<Rightarrow> u64 \<Rightarrow> u32 \<Rightarrow> u32 \<Rightarrow> nat option \<Rightarrow> u64 \<Rightarrow> 'c sys \<Rightarrow> (int \<times> 'c sys) option" where
  "mmap M addr len prot flags f offset s = do {
     p \<leftarrow> curproc s;
     let rs = p_regions (procs s p);
     if addr \<noteq> 0 \<and> PGROUNDUP (PGROUNDUP addr + len) > USERTOP then Some (- EINVAL, s)
     else if addr \<noteq> 0 \<and> flags AND MAP_FIXED \<noteq> 0 then
       (if NOT_PAGEALIGN addr then Some (- EINVAL, s)
        else if prot = PROT_NONE then do {
          (e, s) \<leftarrow> protect_none (p_pagetable (procs s p)) addr [0..<unat (PGROUNDUP len div PGSIZE)] s;
          Some (if e < 0 then e else sint addr, s)
        }
        else do {
          ok \<leftarrow> is_usable addr len s;
          if \<not> ok then Some (- EINVAL, s) else mmap_at M p addr len prot flags f offset s
        })
     else mmap_at M p (select_addr (start_addr addr rs) (PGROUNDUP len) rs) len prot flags f offset s
   }"

section \<open>munmap and msync\<close>

text \<open>Dirty pages of a shared mapping go back to the file, up to the page in which the file ends.\<close>

partial_function (option) writeback_loop :: "'c mmc_ops \<Rightarrow> nat \<Rightarrow> mmap_region \<Rightarrow> u64 \<Rightarrow> u64 \<Rightarrow> 'c sys \<Rightarrow> (int \<times> 'c sys) option" where
  "writeback_loop M p r lim ra s =
     (if ra < lim then do {
        (pte, s) \<leftarrow> walk (p_pagetable (procs s p)) ra False s;
        if pte = 0 then None
        else do {
          let offset = mr_offset r + ra - mr_addr r;
          (w, s) \<leftarrow> (if PTE_FLAGS (ld64 pte s) AND PTE_D \<noteq> 0 then on_files p (writeback M (mr_file r) offset ra) s else Some (0, s));
          if w < 0 then Some (- EACCES, s)
          else do {
            f \<leftarrow> mr_file r;
            i \<leftarrow> f_ip (the_file s f);
            if ucast (d_size (the_inode s i)) \<le>s offset + PGSIZE then Some (0, s)
            else writeback_loop M p r lim (ra + PGSIZE) s
          }
        }
      } else Some (0, s))"

definition writeback_region :: "'c mmc_ops \<Rightarrow> nat \<Rightarrow> mmap_region \<Rightarrow> u64 \<Rightarrow> u64 \<Rightarrow> 'c sys \<Rightarrow> (int \<times> 'c sys) option" where
  "writeback_region M p r addr len s =
     (if mr_flags r AND MAP_ANONYMOUS = 0 \<and> mr_flags r AND MAP_SHARED \<noteq> 0 \<and> mr_prot r AND PROT_WRITE \<noteq> 0
      then writeback_loop M p r (addr + len) addr s else Some (0, s))"

definition munmap :: "'c mmc_ops \<Rightarrow> u64 \<Rightarrow> u64 \<Rightarrow> 'c sys \<Rightarrow> (int \<times> 'c sys) option" where
  "munmap M addr n s = do {
     p \<leftarrow> curproc s;
     if addr AND (PGSIZE - 1) \<noteq> 0 then Some (- EINVAL, s)
     else let len = PGROUNDUP n
          in case find_mmap_region p addr s of
               None \<Rightarrow> Some (0, s)
             | Some r \<Rightarrow> do {
                 let len = (if mr_length r < len then mr_length r else len);
                 (e, s) \<leftarrow> writeback_region M p r addr len s;
                 if e < 0 then Some (e, s)
                 else if mr_length r = len then do {
                   s \<leftarrow> close_file M p (mr_file r) s;
                   s \<leftarrow> delete_mmap_node p r s;
                   Some (0, s)
                 } else do {
                   s \<leftarrow> uvmunmap (p_pagetable (procs s p)) addr (len div PGSIZE) True s;
                   Some (0, upd_region p (mr_obj r) (\<lambda>x. (if mr_addr x = addr then x\<lparr>mr_addr := mr_addr x + len, mr_offset := mr_offset x + len\<rparr> else x)
                     \<lparr>mr_length := mr_length x - len\<rparr>) s)
                 }
               }
   }"

definition msync :: "'c mmc_ops \<Rightarrow> u64 \<Rightarrow> u64 \<Rightarrow> u32 \<Rightarrow> 'c sys \<Rightarrow> (int \<times> 'c sys) option" where
  "msync M addr n flags s = do {
     p \<leftarrow> curproc s;
     let flags = (if flags AND MS_ASYNC = 0 \<and> flags AND MS_SYNC = 0 then flags OR MS_ASYNC else flags);
     if flags AND MS_ASYNC \<noteq> 0 then Some (0, s)
     else if NOT_PAGEALIGN addr then Some (- EINVAL, s)
     else case find_mmap_region p addr s of
            None \<Rightarrow> Some (0, s)
          | Some r \<Rightarrow> writeback_region M p r addr (if mr_length r < n then mr_length r else n) s
   }"

section \<open>mremap and mprotect\<close>

primrec next_region :: "nat \<Rightarrow> mmap_region list \<Rightarrow> mmap_region option" where
  "next_region obj [] = None"
| "next_region obj (r # rs) = (if mr_obj r = obj then (case rs of [] \<Rightarrow> None | x # _ \<Rightarrow> Some x) else next_region obj rs)"

text \<open>
  To move a region \<^verbatim>\<open>mremap\<close> calls \<^verbatim>\<open>memmove\<close> on user addresses while the page table of the kernel is in force; \<open>kmove\<close> is what that
  does. The condition around the second \<^verbatim>\<open>mmap\<close> is the constant \<^verbatim>\<open>MREMAP_FIXED\<close>.
\<close>

definition mremap :: "'c mmc_ops \<Rightarrow> (u64 \<Rightarrow> u64 \<Rightarrow> u64 \<Rightarrow> 'c sys \<Rightarrow> 'c sys option) \<Rightarrow> u64 \<Rightarrow> u64 \<Rightarrow> u64 \<Rightarrow> u32 \<Rightarrow> u64 \<Rightarrow> 'c sys \<Rightarrow> (int \<times> 'c sys) option" where
  "mremap M kmove old_addr old_length new_length flags new_addr s = do {
     p \<leftarrow> curproc s;
     case find_mmap_region p old_addr s of
       None \<Rightarrow> Some (- EINVAL, s)
     | Some r \<Rightarrow>
         if mr_length r \<noteq> old_length then Some (- EINVAL, s)
         else let new_length = PGROUNDUP new_length
         in if (case next_region (mr_obj r) (p_regions (procs s p)) of None \<Rightarrow> True | Some x \<Rightarrow> mr_addr r + new_length \<le> mr_addr x) then
           (if flags AND MREMAP_FIXED \<noteq> 0 then do {
              (e, s) \<leftarrow> munmap M old_addr old_length s;
              if e < 0 then Some (e, s)
              else mmap M new_addr new_length (mr_prot r) (mr_flags r OR MAP_FIXED) (mr_file r) (mr_offset r) s
            } else do {
              (e, s) \<leftarrow> scale_mmap_region M p r new_length s;
              if e < 0 then Some (e, s) else Some (sint (mr_addr r), s)
            })
         else if flags AND MREMAP_MAYMOVE = 0 then Some (- EINVAL, s)
         else do {
           (mapped, s) \<leftarrow> mmap M new_addr new_length (mr_prot r) (mr_flags r OR MAP_FIXED) (mr_file r) (mr_offset r) s;
           if IS_ERR (of_int mapped) then Some (mapped, s)
           else do {
             s \<leftarrow> kmove new_addr (mr_addr r) (mr_length r) s;
             (e, s) \<leftarrow> msync M (of_int mapped) new_length MS_SYNC s;
             if e < 0 then Some (e, s)
             else do {
               (e, s) \<leftarrow> munmap M (mr_addr r) (mr_length r) s;
               Some (if e < 0 then e else mapped, s)
             }
           }
         }
   }"

partial_function (option) protect_loop :: "u64 \<Rightarrow> u64 \<Rightarrow> u32 \<Rightarrow> u64 \<Rightarrow> 'a vm_scheme \<Rightarrow> (int \<times> 'a vm_scheme) option" where
  "protect_loop pt lim prot a s =
     (if a < lim then do {
        (pte, s) \<leftarrow> walk pt a False s;
        if pte = 0 then Some (- ENOMEM, s)
        else if ld64 pte s AND PTE_RO \<noteq> 0 \<and> prot = PROT_WRITE then Some (- EACCES, s)
        else do {
          let s = (if prot = PROT_NONE then st64 pte (ld64 pte s AND NOT PTE_U) s
                   else let s = (if prot = PROT_READ then st64 pte (ld64 pte s OR PTE_R) s else s);
                            s = (if prot = PROT_WRITE then st64 pte (ld64 pte s OR PTE_W) s else s);
                            s = (if prot = PROT_EXEC then st64 pte (ld64 pte s OR PTE_X) s else s)
                        in st64 pte (ld64 pte s OR PTE_U) s);
          protect_loop pt lim prot (a + PGSIZE) s
        }
      } else Some (0, s))"

text \<open>
  A part of a region gets other permissions: the whole region is removed and its parts are mapped again,
  each given by address, length, permission and offset. The flags and the file are read from the removed
  node; when the first call has got the same object again it has put the same values there.
\<close>

primrec remap_parts :: "'c mmc_ops \<Rightarrow> mmap_region \<Rightarrow> (u64 \<times> u64 \<times> u32 \<times> u64) list \<Rightarrow> 'c sys \<Rightarrow> 'c sys option" where
  "remap_parts M r [] s = Some s"
| "remap_parts M r (x # xs) s = (case x of (addr, len, prot, offset) \<Rightarrow> do {
     (_, s) \<leftarrow> mmap M addr len prot (mr_flags r OR MAP_FIXED) (mr_file r) offset s;
     remap_parts M r xs s
   })"

definition split_region :: "mmap_region \<Rightarrow> u64 \<Rightarrow> u64 \<Rightarrow> u32 \<Rightarrow> (u64 \<times> u64 \<times> u32 \<times> u64) list" where
  "split_region r addr len prot =
     (let off = (\<lambda>x. if mr_file r \<noteq> None then x else 0)
      in if mr_addr r = addr then
           [(mr_addr r, len, prot, mr_offset r), (mr_addr r + len, mr_length r - len, mr_prot r, off (mr_offset r + len))]
         else if addr + len = mr_addr r + mr_length r then
           [(mr_addr r, mr_length r - len, mr_prot r, mr_offset r), (addr, len, prot, off (mr_offset r + (mr_length r - len)))]
         else
           let l1 = addr - mr_addr r; o2 = off (mr_offset r + l1)
           in [(mr_addr r, l1, mr_prot r, mr_offset r), (addr, len, prot, o2),
               (addr + len, mr_length r - l1 - len, mr_prot r, off (o2 + len))])"

definition mprotect :: "'c mmc_ops \<Rightarrow> u64 \<Rightarrow> u64 \<Rightarrow> u32 \<Rightarrow> 'c sys \<Rightarrow> (int \<times> 'c sys) option" where
  "mprotect M addr n prot s = do {
     p \<leftarrow> curproc s;
     if addr \<le> p_sz (procs s p) then protect_loop (p_pagetable (procs s p)) (addr + n) prot addr s
     else let len = PGROUNDUP n
     in if \<not> is_mmap_region p addr len s then Some (- ENOMEM, s)
     else do {
       r \<leftarrow> find_mmap_region p addr s;
       if mr_prot r AND (PROT_READ OR PROT_WRITE) = PROT_READ \<and> prot AND PROT_WRITE \<noteq> 0 then Some (- EACCES, s)
       else if mr_addr r = addr \<and> mr_length r = len \<and> mr_prot r = prot then Some (0, s)
       else if mr_addr r = addr \<and> mr_length r = len then Some (0, upd_region p (mr_obj r) (\<lambda>x. x\<lparr>mr_prot := prot\<rparr>) s)
       else do {
         (e, s) \<leftarrow> munmap M (mr_addr r) (mr_length r) s;
         if e < 0 then Some (e, s)
         else do { s \<leftarrow> remap_parts M r (split_region r addr len prot) s; Some (0, s) }
       }
     }
   }"

section \<open>System calls\<close>

definition sys_mmap :: "'c mmc_ops \<Rightarrow> 'c sys \<Rightarrow> (int \<times> 'c sys) option" where
  "sys_mmap M s = do {
     p \<leftarrow> curproc s;
     let a = trap_args p s;
     let addr = a 0;
     let len = a 1;
     let prot = (ucast (a 2) :: u32);
     let flags = (ucast (a 3) :: u32);
     let fd = sint (ucast (a 4) :: u32);
     let off = a 5;
     let f = (if flags AND MAP_ANONYMOUS \<noteq> 0 then None else if fd < 0 \<or> int NOFILE \<le> fd then None else ofiles s p (nat fd));
     if flags AND MAP_ANONYMOUS \<noteq> 0 \<and> fd \<noteq> -1 then Some (- EINVAL, s)
     else if flags AND MAP_ANONYMOUS = 0 \<and> f = None then Some (- EBADF, s)
     else if flags AND (MAP_PRIVATE OR MAP_SHARED) = 0 then Some (- EINVAL, s)
     else if len \<le>s 0 \<or> off <s 0 then Some (- EINVAL, s)
     else if flags AND MAP_FIXED \<noteq> 0 \<and> addr = 0 then Some (- EINVAL, s)
     else if (case f of None \<Rightarrow> False | Some x \<Rightarrow> \<not> f_readable (the_file s x)) then Some (- EACCES, s)
     else if (case f of None \<Rightarrow> False | Some x \<Rightarrow> flags AND MAP_SHARED \<noteq> 0 \<and> prot AND PROT_WRITE \<noteq> 0 \<and> \<not> f_writable (the_file s x)) then Some (- EACCES, s)
     else mmap M addr len prot flags f off s
   }"

definition sys_munmap :: "'c mmc_ops \<Rightarrow> 'c sys \<Rightarrow> (int \<times> 'c sys) option" where
  "sys_munmap M s = do { p \<leftarrow> curproc s; let a = trap_args p s; munmap M (a 0) (a 1) s }"

definition sys_mprotect :: "'c mmc_ops \<Rightarrow> 'c sys \<Rightarrow> (int \<times> 'c sys) option" where
  "sys_mprotect M s = do {
     p \<leftarrow> curproc s;
     let a = trap_args p s;
     let prot = (ucast (a 2) :: u32);
     if a 0 AND (PGSIZE - 1) \<noteq> 0 then Some (- EINVAL, s)
     else if prot AND PROT_NONE \<noteq> 0 \<and> prot AND (PROT_READ OR PROT_WRITE OR PROT_EXEC) = 0 then Some (- EINVAL, s)
     else mprotect M (a 0) (a 1) prot s
   }"

definition sys_msync :: "'c mmc_ops \<Rightarrow> 'c sys \<Rightarrow> (int \<times> 'c sys) option" where
  "sys_msync M s = do { p \<leftarrow> curproc s; let a = trap_args p s; msync M (a 0) (a 1) (ucast (a 2)) s }"

end
