(* ===== verification/Proc_Correct.thy ===== *)
theory Proc_Correct
  imports Proc_Call
begin

text \<open>
  Scheduling and signals are correct: at most one process runs and it is the one the hart names, no
  operation of a running process panics in the scheduler, wakeups are not lost, every runnable process
  is chosen within one round of the table, and what signals do to their targets.
\<close>

unbundle bit_operations_syntax

section \<open>The invariant\<close>

abbreviation state_of :: "'a kern_scheme \<Rightarrow> nat \<Rightarrow> procstate" where
  "state_of s p \<equiv> p_state (procs s p)"

definition cont_ok :: "lockid \<Rightarrow> kcont \<Rightarrow> bool" where
  "cont_ok lk c = (case c of C_caller \<Rightarrow> lk \<notin> range L_proc | C_ppoll fds nfds m \<Rightarrow> lk = L_q \<and> fds = 0 \<and> nfds = 0 | _ \<Rightarrow> lk = L_q)"

text \<open>Between two operations of the running process, or two steps of the scheduler.\<close>

definition kinv :: "'a kern_scheme \<Rightarrow> bool" where
  "kinv s \<longleftrightarrow> (\<forall>p. state_of s p = RUNNING \<longleftrightarrow> curproc s = Some p) \<and> (\<forall>p. L_proc p \<notin> held s) \<and>
     (\<forall>p. curproc s = Some p \<longrightarrow> p < NPROC) \<and> (curproc s = None \<longrightarrow> held s = {}) \<and>
     (\<forall>p lk c. p_kont (procs s p) = K_sleep lk c \<longrightarrow> cont_ok lk c) \<and> (\<forall>p. state_of s p = RUNNABLE \<longrightarrow> p_kont (procs s p) \<noteq> K_exit) \<and>
     (\<forall>p. state_of s p = SLEEPING \<longrightarrow> p_chan (procs s p) \<noteq> None \<and> (\<exists>lk c. p_kont (procs s p) = K_sleep lk c))"

text \<open>What the operations of the running process do to the others: they may wake a sleeper.\<close>

definition nudge :: "'a kern_scheme \<Rightarrow> 'a kern_scheme \<Rightarrow> bool" where
  "nudge s t \<longleftrightarrow> held t = held s \<and> curproc t = curproc s \<and>
     (\<forall>p. p_kont (procs t p) = p_kont (procs s p) \<and> p_chan (procs t p) = p_chan (procs s p) \<and>
        (state_of t p = state_of s p \<or> state_of s p = SLEEPING \<and> state_of t p = RUNNABLE))"

lemma nudge_refl [simp]: "nudge s s"
  by (simp add: nudge_def)

lemma nudgeD:
  assumes "nudge s t"
  shows "held t = held s" "curproc t = curproc s" "p_kont (procs t p) = p_kont (procs s p)" "p_chan (procs t p) = p_chan (procs s p)"
    "state_of t p = state_of s p \<or> state_of s p = SLEEPING \<and> state_of t p = RUNNABLE"
  using assms unfolding nudge_def by blast+

lemma nudge_trans:
  assumes "nudge s t" "nudge t u"
  shows "nudge s u"
proof -
  have "state_of u p = state_of s p \<or> state_of s p = SLEEPING \<and> state_of u p = RUNNABLE" for p
    using nudgeD(5) [OF assms(1), of p] nudgeD(5) [OF assms(2), of p] by auto
  then show ?thesis using nudgeD(1-4) [OF assms(1)] nudgeD(1-4) [OF assms(2)] unfolding nudge_def by metis
qed

lemma nudge_states:
  assumes "nudge s t"
  shows "state_of t p = RUNNING \<longleftrightarrow> state_of s p = RUNNING" "state_of t p = SLEEPING \<Longrightarrow> state_of s p = SLEEPING"
    "state_of s p = RUNNABLE \<Longrightarrow> state_of t p = RUNNABLE"
  using nudgeD(5) [OF assms, of p] by auto

lemma nudge_kinv: "kinv s \<Longrightarrow> nudge s t \<Longrightarrow> kinv t"
proof -
  assume k: "kinv s" and n: "nudge s t"
  have "p_kont (procs s p) \<noteq> K_exit" if "state_of t p = RUNNABLE" for p
    using nudgeD(5) [OF n, of p] that k unfolding kinv_def by fastforce
  then show ?thesis using k unfolding kinv_def using nudgeD(1-4) [OF n] nudge_states(1,2) [OF n] by auto
qed

lemmas nudge_runnable = nudge_states(3)

text \<open>Updates of fields the scheduler does not look at.\<close>

lemma nudge_upd [intro]:
  "(\<And>x. p_kont (f x) = p_kont x) \<Longrightarrow> (\<And>x. p_chan (f x) = p_chan x) \<Longrightarrow> (\<And>x. p_state (f x) = p_state x) \<Longrightarrow> nudge s (upd_proc p f s)"
  by (simp add: nudge_def upd_proc_def)

lemma nudge_signal [intro]: "nudge s (upd_signal p f s)"
  unfolding upd_signal_def by (rule nudge_upd) simp_all

lemma nudge_ram [intro]: "nudge s (s\<lparr>ram := m\<rparr>)"
  by (simp add: nudge_def)

lemma upd_proc_simps [simp]:
  "held (upd_proc p f s) = held s" "curproc (upd_proc p f s) = curproc s" "procs (upd_proc p f s) = (procs s)(p := f (procs s p))"
  "ram (upd_proc p f s) = ram s" "initproc (upd_proc p f s) = initproc s"
  by (simp_all add: upd_proc_def)

lemma held_self [simp]: "held x = H \<Longrightarrow> x\<lparr>held := H\<rparr> = x"
  by auto

lemma upd_proc_held: "upd_proc p f (s\<lparr>held := H\<rparr>) = (upd_proc p f s)\<lparr>held := H\<rparr>" "upd_signal p g (s\<lparr>held := H\<rparr>) = (upd_signal p g s)\<lparr>held := H\<rparr>"
  by (simp_all add: upd_proc_def upd_signal_def)

lemma upd_signal_simps [simp]:
  "held (upd_signal p g s) = held s" "curproc (upd_signal p g s) = curproc s"
  by (simp_all add: upd_signal_def)

section \<open>Wakeup\<close>

definition woken_by :: "chan \<Rightarrow> nat list \<Rightarrow> 'a kern_scheme \<Rightarrow> nat \<Rightarrow> proc" where
  "woken_by ch ps s p = (if p \<in> set ps \<and> curproc s \<noteq> Some p \<and> state_of s p = SLEEPING \<and> p_chan (procs s p) = Some ch
     then (procs s p)\<lparr>p_state := RUNNABLE\<rparr> else procs s p)"

lemma wakeup_loop_eq:
  assumes "distinct ps" "\<And>p. L_proc p \<notin> held s"
  shows "wakeup_loop ch ps s = Some (s\<lparr>procs := woken_by ch ps s\<rparr>)"
  using assms
proof (induction ps arbitrary: s)
  case Nil
  then show ?case by (simp add: woken_by_def [abs_def])
next
  case (Cons p ps)
  define t where "t = (if curproc s \<noteq> Some p \<and> state_of s p = SLEEPING \<and> p_chan (procs s p) = Some ch
    then upd_proc p (\<lambda>q. q\<lparr>p_state := RUNNABLE\<rparr>) s else s)"
  have "wakeup_loop ch (p # ps) s = wakeup_loop ch ps t"
    using Cons.prems(2) [of p] by (auto simp: t_def lock_simps upd_proc_held Let_def)
  also have "\<dots> = Some (t\<lparr>procs := woken_by ch ps t\<rparr>)" using Cons by (intro Cons.IH) (auto simp: t_def)
  also have "t\<lparr>procs := woken_by ch ps t\<rparr> = s\<lparr>procs := woken_by ch (p # ps) s\<rparr>"
  proof -
    have "woken_by ch ps t = woken_by ch (p # ps) s" using Cons.prems(1) by (auto simp: fun_eq_iff woken_by_def t_def)
    moreover have "t\<lparr>procs := X\<rparr> = s\<lparr>procs := X\<rparr>" for X by (simp add: t_def upd_proc_def)
    ultimately show ?thesis by simp
  qed
  finally show ?case .
qed

lemma wakeup_eq:
  assumes "\<And>p. L_proc p \<notin> held s"
  shows "wakeup ch s = Some (s\<lparr>procs := woken_by ch [0..<NPROC] s\<rparr>)"
  unfolding wakeup_def by (rule wakeup_loop_eq [OF distinct_upt assms])

lemma wakeup_nudge: "(\<And>p. L_proc p \<notin> held s) \<Longrightarrow> \<exists>t. wakeup ch s = Some t \<and> nudge s t"
  by (auto simp: wakeup_eq nudge_def woken_by_def)

section \<open>Switching away\<close>

text \<open>The state after a process gave up the hart.\<close>

definition away :: "'a kern_scheme \<Rightarrow> 'a kern_scheme \<Rightarrow> bool" where
  "away s t \<longleftrightarrow> kinv t \<and> curproc t = None \<and> (\<forall>q. curproc s \<noteq> Some q \<and> state_of s q = RUNNABLE \<longrightarrow> state_of t q = RUNNABLE)"

definition good :: "'a kern_scheme \<Rightarrow> 'a kern_scheme run \<Rightarrow> bool" where
  "good s r = (case r of Ret _ t \<Rightarrow> nudge s t | Away t \<Rightarrow> away s t)"

lemma good_simps [simp]: "good s (Ret v t) \<longleftrightarrow> nudge s t" "good s (Away t) \<longleftrightarrow> away s t"
  by (simp_all add: good_def)

lemma good_nudge: "nudge s t \<Longrightarrow> good t r \<Longrightarrow> good s r"
  by (cases r) (auto intro: nudge_trans simp: away_def nudgeD(2) nudge_runnable)

lemma yield_eq:
  assumes "curproc s = Some p" "held s = {}"
  shows "yield s = Some (Away ((upd_proc p (\<lambda>q. q\<lparr>p_state := RUNNABLE, p_kont := K_yield\<rparr>) s)\<lparr>curproc := None\<rparr>))"
  using assms by (simp add: yield_def sched_def scheduler_back_def lock_simps upd_proc_def)

lemma sleep_eq:
  assumes "curproc s = Some p" "held s = {lk}" "lk \<noteq> L_proc p"
  shows "sleep ch lk c s =
    Some (Away ((upd_proc p (\<lambda>q. q\<lparr>p_chan := Some ch, p_state := SLEEPING, p_kont := K_sleep lk c\<rparr>) s)\<lparr>held := {}, curproc := None\<rparr>))"
  using assms by (simp add: sleep_def sched_def scheduler_back_def lock_simps upd_proc_def insert_Diff_if)

lemma switch_away:
  assumes "kinv s" "curproc s = Some p" "p_state (f (procs s p)) \<noteq> RUNNING"
    and "p_state (f (procs s p)) = SLEEPING \<Longrightarrow> p_chan (f (procs s p)) \<noteq> None \<and> (\<exists>lk c. p_kont (f (procs s p)) = K_sleep lk c)"
    and "\<And>lk c. p_kont (f (procs s p)) = K_sleep lk c \<Longrightarrow> cont_ok lk c" and "p_state (f (procs s p)) = RUNNABLE \<Longrightarrow> p_kont (f (procs s p)) \<noteq> K_exit"
  shows "away s ((upd_proc p f s)\<lparr>held := {}, curproc := None\<rparr>)"
  using assms unfolding away_def kinv_def by auto

lemma yield_good:
  assumes "kinv s" "curproc s = Some p" "held s = {}"
  shows "\<exists>r. yield s = Some r \<and> good s r"
proof -
  have "away s ((upd_proc p (\<lambda>q. q\<lparr>p_state := RUNNABLE, p_kont := K_yield\<rparr>) s)\<lparr>held := {}, curproc := None\<rparr>)"
    by (rule switch_away [OF assms(1,2)]) simp_all
  then show ?thesis unfolding yield_eq [OF assms(2,3)] using assms(3) by simp
qed

lemma away_held [simp]: "away (s\<lparr>held := H\<rparr>) t \<longleftrightarrow> away s t"
  by (simp add: away_def)

lemma sleep_away:
  assumes "kinv s" "curproc s = Some p" "held s = {lk}" "cont_ok lk c"
  shows "\<exists>t. sleep ch lk c s = Some (Away t) \<and> away s t"
proof -
  have "lk \<noteq> L_proc p" using assms(1,3) by (auto simp: kinv_def)
  then show ?thesis unfolding sleep_eq [OF assms(2,3) \<open>lk \<noteq> L_proc p\<close>]
    using assms(4) by (auto intro!: switch_away [OF assms(1,2)])
qed

lemma kinv_lock: "kinv s \<Longrightarrow> curproc s = Some p \<Longrightarrow> l \<notin> range L_proc \<Longrightarrow> kinv (s\<lparr>held := insert l (held s)\<rparr>)"
  unfolding kinv_def by auto

section \<open>Signals\<close>

lemma clear_pending_nudge: "L_siglock \<notin> held s \<Longrightarrow> \<exists>t. clear_pending p sig s = Some t \<and> nudge s t"
  by (auto simp: clear_pending_def lock_simps upd_proc_held Let_def)

lemma term_handler_nudge: "L_proc p \<notin> held s \<Longrightarrow> \<exists>t. term_handler p s = Some t \<and> nudge s t"
  by (auto simp: term_handler_def lock_simps nudge_def upd_proc_def Let_def)

lemma sleep_q:
  assumes "kinv s" "curproc s = Some p" "held s = {}" "cont_ok L_q c"
  shows "\<exists>t. sleep ch L_q c (s\<lparr>held := {L_q}\<rparr>) = Some (Away t) \<and> away s t"
  using sleep_away [of "s\<lparr>held := {L_q}\<rparr>" p L_q c ch] kinv_lock [OF assms(1,2), of L_q] assms(2-4) by auto

lemma handle_signal_good:
  assumes k: "kinv s" and c: "curproc s = Some cp" and h: "held s = {}"
  shows "\<exists>r. handle_signal p sig rest s = Some r \<and> good s r"
proof -
  let ?h = "sa_handler (sg_actions (p_signal (procs s p)) (nat sig))"
  consider "sig = 0" | "sig \<noteq> 0" "?h = SIG_DFL" "sig \<in> set stop_signals" | "sig \<noteq> 0" "\<not> (?h = SIG_DFL \<and> sig \<in> set stop_signals)" by blast
  then show ?thesis
  proof cases
    case 1
    then show ?thesis by (simp add: handle_signal_def)
  next
    case 2
    have "cont_ok L_q (C_stop p sig rest)" by (simp add: cont_ok_def)
    from sleep_q [OF k c h this, of "Ch_proc p"] show ?thesis using 2 h by (auto simp: handle_signal_def stop_handler_def lock_simps)
  next
    case 3
    have "\<exists>t. (if ?h = SIG_IGN then Some s else if ?h = SIG_DFL then
        (if sig = SIGCONT then cont_handler p s
         else if sig \<in> set term_signals then term_handler p (upd_proc p (\<lambda>q. q\<lparr>p_xstate := word_of_int sig AND 0x7f\<rparr>) s) else Some s)
        else Some (user_handler p sig s)) = Some t \<and> nudge s t" (is "\<exists>t. ?m = Some t \<and> _")
    proof -
      have w: "\<exists>t. cont_handler p s = Some t \<and> nudge s t" unfolding cont_handler_def using h by (intro wakeup_nudge) simp
      have "\<exists>t. term_handler p (upd_proc p (\<lambda>q. q\<lparr>p_xstate := word_of_int sig AND 0x7f\<rparr>) s) = Some t \<and>
          nudge (upd_proc p (\<lambda>q. q\<lparr>p_xstate := word_of_int sig AND 0x7f\<rparr>) s) t"
        using h by (intro term_handler_nudge) simp
      then have tm: "\<exists>t. term_handler p (upd_proc p (\<lambda>q. q\<lparr>p_xstate := word_of_int sig AND 0x7f\<rparr>) s) = Some t \<and> nudge s t"
        using nudge_trans [OF nudge_upd, of "\<lambda>q. q\<lparr>p_xstate := word_of_int sig AND 0x7f\<rparr>"] by fastforce
      have u: "nudge s (user_handler p sig s)" by (auto simp: user_handler_def st64_def)
      show ?thesis using w tm u by auto
    qed
    then obtain t where t: "?m = Some t" "nudge s t" by blast
    obtain u where u: "clear_pending p sig t = Some u" "nudge t u" using clear_pending_nudge [of t p sig] nudgeD(1) [OF t(2)] h by auto
    have "handle_signal p sig rest s = Some (Ret 0 u)" unfolding handle_signal_def Let_def if_not_P [OF 3(1)] if_not_P [OF 3(2)] t(1) using u(1) by simp
    then show ?thesis using nudge_trans [OF t(2) u(2)] by simp
  qed
qed

lemma send_signal_good:
  assumes k: "kinv s" and c: "curproc s = Some cp" and h: "held s = {}"
  shows "\<exists>r. send_signal p sig rest s = Some r \<and> good s r"
proof -
  define t where "t = (if sig = SIGKILL then upd_proc p (\<lambda>q. q\<lparr>p_killed := 1\<rparr>) s
               else if sigismember sig (sg_pending (p_signal (procs s p))) = 0
               then upd_signal p (\<lambda>g. g\<lparr>sg_pending := snd (sigaddset sig (sg_pending g))\<rparr>) s else s)"
  have n: "nudge s t" by (auto simp: t_def)
  define u where "u = upd_proc p (\<lambda>q. q\<lparr>p_paused := 0\<rparr>) t"
  have n': "nudge t u" by (auto simp: u_def)
  have hs: "\<exists>r. handle_signal p g rest v = Some r \<and> good s r" if v: "nudge s v" for g v
  proof -
    have "\<exists>r. handle_signal p g rest v = Some r \<and> good v r"
      by (rule handle_signal_good [OF nudge_kinv [OF k v]]) (use nudgeD(1,2) [OF v] c h in auto)
    then show ?thesis using good_nudge [OF v] by blast
  qed
  show ?thesis unfolding send_signal_def t_def [symmetric] Let_def u_def [symmetric]
    using hs [OF n] hs [OF nudge_trans [OF n n']] n by auto
qed

lemma kill_loop_good:
  assumes "kinv s" "curproc s = Some cp" "held s = {}"
  shows "\<exists>r. kill_loop tg sig ps err s = Some r \<and> good s r"
  using assms
proof (induction ps arbitrary: s err)
  case (Cons p ps)
  obtain r where r: "send_signal p sig (Some (tg, ps)) s = Some r" "good s r" using send_signal_good [OF Cons.prems] by blast
  show ?case
  proof (cases r)
    case (Ret v t)
    then have n: "nudge s t" using r(2) by simp
    have "\<exists>r. kill_loop tg sig ps 0 t = Some r \<and> good t r"
      by (rule Cons.IH [OF nudge_kinv [OF Cons.prems(1) n]]) (use nudgeD(1,2) [OF n] Cons.prems in auto)
    then show ?thesis using Cons.IH [OF Cons.prems] r(1) Ret good_nudge [OF n] by auto
  next
    case (Away t)
    then show ?thesis using Cons.IH [OF Cons.prems] r by auto
  qed
qed simp

lemma kill_good:
  assumes "kinv s" "curproc s = Some cp" "held s = {}"
  shows "\<exists>r. kill pid sig s = Some r \<and> good s r"
  unfolding kill_def assms(2) Let_def using kill_loop_good [OF assms] by auto

lemma check_pending_signal_good:
  assumes "kinv s" "curproc s = Some cp" "held s = {}"
  shows "\<exists>r. check_pending_signal s = Some r \<and> good s r"
  unfolding check_pending_signal_def assms(2) using handle_signal_good [OF assms] by (auto split: option.splits)

lemma sigsuspend_good:
  assumes k: "kinv s" and c: "curproc s = Some p" and h: "held s = {}"
  shows "\<exists>r. sigsuspend m s = Some r \<and> good s r"
proof -
  define t where "t = upd_signal p (\<lambda>g. g\<lparr>sg_mask := snd (siginitset (sg_mask g) (snd (sigdelset SIGSTOP (snd (sigdelset SIGKILL m)))))\<rparr>)
    (upd_proc p (\<lambda>q. q\<lparr>p_paused := 1\<rparr>) s)"
  have n: "nudge s t" unfolding t_def by (rule nudge_trans [OF nudge_upd nudge_signal]) simp_all
  have "sigsuspend m s = sleep (Ch_proc p) L_q (C_suspend (sg_mask (p_signal (procs s p)))) (t\<lparr>held := {L_q}\<rparr>)"
    using c h by (simp add: sigsuspend_def lock_simps upd_proc_held t_def Let_def)
  moreover have "\<exists>x. sleep (Ch_proc p) L_q (C_suspend (sg_mask (p_signal (procs s p)))) (t\<lparr>held := {L_q}\<rparr>) = Some (Away x) \<and> away t x"
    by (rule sleep_q [OF nudge_kinv [OF k n]]) (use nudgeD(1,2) [OF n] c h in \<open>auto simp: cont_ok_def\<close>)
  ultimately show ?thesis using good_nudge [OF n, of "Away _"] by auto
qed

lemma ppoll_good:
  assumes k: "kinv s" and c: "curproc s = Some p" and h: "held s = {}"
  shows "\<exists>r. ppoll 0 0 s = Some r \<and> good s r"
proof -
  define t where "t = upd_proc p (\<lambda>q. q\<lparr>p_paused := 1\<rparr>) s"
  have n: "nudge s t" by (auto simp: t_def)
  have "ppoll 0 0 s = sleep (Ch_proc p) L_q (C_ppoll 0 0 (sg_mask (p_signal (procs s p)))) (t\<lparr>held := {L_q}\<rparr>)"
    using c h by (simp add: ppoll_def lock_simps t_def)
  moreover have "\<exists>x. sleep (Ch_proc p) L_q (C_ppoll 0 0 (sg_mask (p_signal (procs s p)))) (t\<lparr>held := {L_q}\<rparr>) = Some (Away x) \<and> away t x"
    by (rule sleep_q [OF nudge_kinv [OF k n]]) (use nudgeD(1,2) [OF n] c h in \<open>auto simp: cont_ok_def\<close>)
  ultimately show ?thesis using good_nudge [OF n, of "Away _"] by auto
qed

section \<open>The scheduler\<close>

text \<open>The first runnable process of a list of slots.\<close>

lemma scheduler_scan_eq:
  assumes "held s = {}" "curproc s = None"
  shows "scheduler_scan ps s = Some (case find (\<lambda>p. state_of s p = RUNNABLE) ps of None \<Rightarrow> (None, s)
    | Some p \<Rightarrow> (Some p, (upd_proc p (\<lambda>q. q\<lparr>p_state := RUNNING\<rparr>) s)\<lparr>held := {L_proc p}, curproc := Some p\<rparr>))"
proof (induction ps)
  case (Cons p ps)
  then show ?case using assms by (auto simp: lock_simps upd_proc_held)
qed (use assms in simp)

definition dispatched :: "nat \<Rightarrow> 'a kern_scheme \<Rightarrow> 'a kern_scheme \<Rightarrow> bool" where
  "dispatched p s t \<longleftrightarrow> kinv t \<and> (\<forall>q. q \<noteq> p \<and> state_of s q = RUNNABLE \<longrightarrow> state_of t q = RUNNABLE)"

primrec run_state :: "'s run \<Rightarrow> 's" where
  "run_state (Ret v s) = s"
| "run_state (Away s) = s"

lemma good_dispatched:
  assumes "kinv s" "good s r" "\<And>q. q \<noteq> p \<Longrightarrow> curproc s \<noteq> Some q"
  shows "dispatched p s (run_state r)"
  using assms(2) by (cases r) (use assms(1,3) nudge_kinv [OF assms(1)] in \<open>auto simp: dispatched_def away_def nudge_runnable\<close>)

lemma dispatched_trans: "dispatched p t u \<Longrightarrow> (\<And>q. q \<noteq> p \<Longrightarrow> state_of s q = RUNNABLE \<Longrightarrow> state_of t q = RUNNABLE) \<Longrightarrow> dispatched p s u"
  unfolding dispatched_def by blast

lemma continue_dispatched:
  assumes k: "kinv s" and c: "curproc s = Some p" and h: "held s = {}" and ok: "cont_ok lk k"
  shows "\<exists>r. continue p k (s\<lparr>held := {lk}\<rparr>) = Some r \<and> dispatched p s (run_state r)"
proof (cases k)
  case C_caller
  then have "kinv (s\<lparr>held := {lk}\<rparr>)" using kinv_lock [OF k c] ok h by (simp add: cont_ok_def)
  then show ?thesis using C_caller by (simp add: continue_def dispatched_def)
next
  case (C_stop t sig rest)
  then have lk: "lk = L_q" using ok by (simp add: cont_ok_def)
  obtain u where u: "clear_pending t sig s = Some u" "nudge s u" using clear_pending_nudge [of s t sig] h by auto
  have "\<exists>r. (case rest of None \<Rightarrow> Some (Ret 0 u) | Some (tg, ps) \<Rightarrow> kill_loop tg sig ps 0 u) = Some r \<and> good u r"
  proof (cases rest)
    case (Some x)
    have "\<exists>r. kill_loop (fst x) sig (snd x) 0 u = Some r \<and> good u r"
      by (rule kill_loop_good [OF nudge_kinv [OF k u(2)]]) (use nudgeD(1,2) [OF u(2)] c h in auto)
    then show ?thesis using Some by (simp add: case_prod_beta)
  qed simp
  then obtain r where r: "(case rest of None \<Rightarrow> Some (Ret 0 u) | Some (tg, ps) \<Rightarrow> kill_loop tg sig ps 0 u) = Some r" "good u r" by blast
  have "continue p k (s\<lparr>held := {lk}\<rparr>) = Some r" using C_stop lk h u(1) r(1) by (simp add: continue_def lock_simps)
  then show ?thesis using good_dispatched [OF k good_nudge [OF u(2) r(2)]] c by auto
next
  case (C_suspend m)
  then have lk: "lk = L_q" using ok by (simp add: cont_ok_def)
  have "continue p k (s\<lparr>held := {lk}\<rparr>) = Some (Ret (- EINTR) (upd_signal p (\<lambda>g. g\<lparr>sg_mask := m\<rparr>) s))"
    using C_suspend lk h by (simp add: continue_def lock_simps upd_proc_held Let_def)
  then show ?thesis using good_dispatched [OF k, of "Ret (- EINTR) (upd_signal p (\<lambda>g. g\<lparr>sg_mask := m\<rparr>) s)" p] c by auto
next
  case (C_ppoll fds nfds m)
  then have lk: "lk = L_q" "fds = 0" "nfds = 0" using ok by (simp_all add: cont_ok_def)
  let ?t = "upd_signal p (\<lambda>g. g\<lparr>sg_mask := snd (siginitset (sg_mask g) m)\<rparr>) s"
  have "continue p k (s\<lparr>held := {lk}\<rparr>) = Some (Ret 0 ?t)"
    using C_ppoll lk h by (simp add: continue_def lock_simps ppoll_end_def Let_def)
  then show ?thesis using good_dispatched [OF k, of "Ret 0 ?t" p] c by auto
qed

lemma resume_dispatched:
  assumes k: "kinv s" and c: "curproc s = None" and p: "state_of s p = RUNNABLE" "p < NPROC"
  shows "\<exists>r. resume ((upd_proc p (\<lambda>q. q\<lparr>p_state := RUNNING\<rparr>) s)\<lparr>held := {L_proc p}, curproc := Some p\<rparr>) = Some r \<and> dispatched p s (run_state r)"
proof -
  let ?run = "\<lambda>f. (upd_proc p f s)\<lparr>curproc := Some p, held := {}\<rparr>"
  have inv: "kinv (?run f)" if "p_state (f (procs s p)) = RUNNING" "p_kont (f (procs s p)) = p_kont (procs s p)" for f
    using k c p that unfolding kinv_def by auto
  show ?thesis
  proof (cases "p_kont (procs s p)")
    case (K_sleep lk cc)
    let ?f = "\<lambda>q. q\<lparr>p_state := RUNNING, p_chan := None\<rparr>"
    have swap: "s\<lparr>curproc := a, procs := b, held := d\<rparr> = s\<lparr>procs := b, curproc := a, held := d\<rparr>" for a b d by simp
    have ok: "cont_ok lk cc" using k K_sleep unfolding kinv_def by blast
    have "\<exists>r. continue p cc ((?run ?f)\<lparr>held := {lk}\<rparr>) = Some r \<and> dispatched p (?run ?f) (run_state r)"
      by (rule continue_dispatched [OF inv _ _ ok]) simp_all
    then obtain r where r: "continue p cc ((?run ?f)\<lparr>held := {lk}\<rparr>) = Some r" "dispatched p (?run ?f) (run_state r)" by blast
    have "resume ((upd_proc p (\<lambda>q. q\<lparr>p_state := RUNNING\<rparr>) s)\<lparr>held := {L_proc p}, curproc := Some p\<rparr>) = Some r"
      using K_sleep r(1) by (simp add: resume_def lock_simps upd_proc_def swap)
    then show ?thesis using dispatched_trans [OF r(2), of s] by auto
  next
    case K_exit
    then show ?thesis using k p(1) unfolding kinv_def by blast
  qed (use inv [of "\<lambda>q. q\<lparr>p_state := RUNNING\<rparr>"] in \<open>auto simp: resume_def lock_simps upd_proc_def dispatched_def\<close>)
qed

section \<open>Runs of the system\<close>

text \<open>
  A state of the machine is the position of the scheduler in the table and the kernel state. The
  scheduler chooses the next runnable process from its position on, which then resumes, or starts the
  table over; the running process takes and releases locks and calls the operations below; a device
  interrupt may wake processes at any time no process runs. The label of a step is the process that was
  chosen.
\<close>

inductive sys_step :: "nat \<times> kern \<Rightarrow> nat option \<Rightarrow> nat \<times> kern \<Rightarrow> bool" where
  sys_dispatch: "curproc s = None \<Longrightarrow> scheduler_from i s = Some (Some p, t) \<Longrightarrow> resume t = Some r \<Longrightarrow> sys_step (i, s) (Some p) (Suc p, run_state r)"
| sys_round: "curproc s = None \<Longrightarrow> scheduler_from i s = Some (None, t) \<Longrightarrow> sys_step (i, s) None (0, t)"
| sys_interrupt: "curproc s = None \<Longrightarrow> wakeup ch s = Some t \<Longrightarrow> sys_step (i, s) None (i, t)"
| sys_lock: "curproc s = Some p \<Longrightarrow> l \<notin> range L_proc \<Longrightarrow> k_acquire l s = Some t \<Longrightarrow> sys_step (i, s) None (i, t)"
| sys_unlock: "curproc s = Some p \<Longrightarrow> k_release l s = Some t \<Longrightarrow> sys_step (i, s) None (i, t)"
| sys_wakeup: "curproc s = Some p \<Longrightarrow> wakeup ch s = Some t \<Longrightarrow> sys_step (i, s) None (i, t)"
| sys_yield: "curproc s = Some p \<Longrightarrow> held s = {} \<Longrightarrow> yield s = Some r \<Longrightarrow> sys_step (i, s) None (i, run_state r)"
| sys_sleep: "curproc s = Some p \<Longrightarrow> held s = {lk} \<Longrightarrow> sleep ch lk C_caller s = Some r \<Longrightarrow> sys_step (i, s) None (i, run_state r)"
| sys_kill: "curproc s = Some p \<Longrightarrow> held s = {} \<Longrightarrow> kill pid sig s = Some r \<Longrightarrow> sys_step (i, s) None (i, run_state r)"
| sys_pending: "curproc s = Some p \<Longrightarrow> held s = {} \<Longrightarrow> check_pending_signal s = Some r \<Longrightarrow> sys_step (i, s) None (i, run_state r)"
| sys_suspend: "curproc s = Some p \<Longrightarrow> held s = {} \<Longrightarrow> sigsuspend m s = Some r \<Longrightarrow> sys_step (i, s) None (i, run_state r)"
| sys_poll: "curproc s = Some p \<Longrightarrow> held s = {} \<Longrightarrow> ppoll 0 0 s = Some r \<Longrightarrow> sys_step (i, s) None (i, run_state r)"

inductive sys_run :: "nat \<times> kern \<Rightarrow> nat list \<Rightarrow> nat \<times> kern \<Rightarrow> bool" where
  run_nil: "sys_run c [] c"
| run_step: "sys_step c None d \<Longrightarrow> sys_run d ps e \<Longrightarrow> sys_run c ps e"
| run_dispatch: "sys_step c (Some p) d \<Longrightarrow> sys_run d ps e \<Longrightarrow> sys_run c (p # ps) e"

lemma scheduler_from_eq:
  assumes "kinv s" "curproc s = None"
  shows "scheduler_from i s = Some (case find (\<lambda>p. state_of s p = RUNNABLE) [i..<NPROC] of None \<Rightarrow> (None, s)
    | Some p \<Rightarrow> (Some p, (upd_proc p (\<lambda>q. q\<lparr>p_state := RUNNING\<rparr>) s)\<lparr>held := {L_proc p}, curproc := Some p\<rparr>))"
proof -
  have "held s = {}" using assms by (simp add: kinv_def)
  then show ?thesis unfolding scheduler_from_def by (rule scheduler_scan_eq [OF _ assms(2)])
qed

lemma find_upt:
  "find P [i..<n] = Some p \<longleftrightarrow> i \<le> p \<and> p < n \<and> P p \<and> (\<forall>q. i \<le> q \<and> q < p \<longrightarrow> \<not> P q)" "find P [i..<n] = None \<longleftrightarrow> (\<forall>q. i \<le> q \<and> q < n \<longrightarrow> \<not> P q)"
proof -
  show "find P [i..<n] = None \<longleftrightarrow> (\<forall>q. i \<le> q \<and> q < n \<longrightarrow> \<not> P q)" by (auto simp: find_None_iff)
  show "find P [i..<n] = Some p \<longleftrightarrow> i \<le> p \<and> p < n \<and> P p \<and> (\<forall>q. i \<le> q \<and> q < p \<longrightarrow> \<not> P q)"
  proof
    assume "find P [i..<n] = Some p"
    then obtain k where "k < length [i..<n]" "P ([i..<n] ! k)" "p = [i..<n] ! k" "\<forall>j < k. \<not> P ([i..<n] ! j)" unfolding find_Some_iff by blast
    then have k: "k < n - i" "p = i + k" "P p" "\<forall>j < k. \<not> P (i + j)" by auto
    have "\<not> P q" if "i \<le> q" "q < p" for q using k(4) [rule_format, of "q - i"] k(2) that by simp
    then show "i \<le> p \<and> p < n \<and> P p \<and> (\<forall>q. i \<le> q \<and> q < p \<longrightarrow> \<not> P q)" using k by auto
  next
    assume "i \<le> p \<and> p < n \<and> P p \<and> (\<forall>q. i \<le> q \<and> q < p \<longrightarrow> \<not> P q)"
    then show "find P [i..<n] = Some p" unfolding find_Some_iff by (intro exI [of _ "p - i"]) auto
  qed
qed

lemma kinv_unlock: "kinv s \<Longrightarrow> curproc s = Some p \<Longrightarrow> kinv (s\<lparr>held := held s - {l}\<rparr>)"
  unfolding kinv_def by auto

text \<open>Every step keeps the invariant, and keeps every runnable process runnable but the one it chooses.\<close>

lemma sys_step_keeps:
  assumes "sys_step c ev d" "kinv (snd c)"
  shows "kinv (snd d) \<and> (\<forall>q. ev \<noteq> Some q \<and> state_of (snd c) q = RUNNABLE \<longrightarrow> state_of (snd d) q = RUNNABLE)"
proof -
  have good: "kinv (run_state r) \<and> (\<forall>q. state_of s q = RUNNABLE \<longrightarrow> state_of (run_state r) q = RUNNABLE)"
    if "\<exists>r'. x = Some r' \<and> good s r'" "x = Some r" "kinv s" "curproc s = Some p" for x r p and s :: kern
  proof -
    have "dispatched p s (run_state r)" using that by (intro good_dispatched) auto
    moreover have "state_of s p \<noteq> RUNNABLE" using that(3,4) unfolding kinv_def by (metis procstate.distinct(25))
    ultimately show ?thesis unfolding dispatched_def by metis
  qed
  have free: "L_proc q \<notin> held (snd c)" for q using assms(2) by (simp add: kinv_def)
  show ?thesis using assms
  proof (induction rule: sys_step.cases)
    case (sys_dispatch s i p t r)
    then have k: "kinv s" by simp
    have t: "t = (upd_proc p (\<lambda>q. q\<lparr>p_state := RUNNING\<rparr>) s)\<lparr>held := {L_proc p}, curproc := Some p\<rparr>" "state_of s p = RUNNABLE" "p < NPROC"
      using sys_dispatch(5) unfolding scheduler_from_eq [OF k sys_dispatch(4)] by (auto split: option.splits simp: find_upt)
    have "dispatched p s (run_state r)" using resume_dispatched [OF k sys_dispatch(4) t(2,3)] sys_dispatch(6) unfolding t(1) by auto
    then show ?thesis using sys_dispatch(1-3) unfolding dispatched_def by auto
  next
    case (sys_round s i t)
    then show ?thesis using scheduler_from_eq [of s i] by (auto split: option.splits)
  next
    case (sys_interrupt s ch t i)
    then show ?thesis using wakeup_nudge [of s ch] free nudge_kinv [of s t] nudge_runnable [of s t] by auto
  next
    case (sys_wakeup s p ch t i)
    then show ?thesis using wakeup_nudge [of s ch] free nudge_kinv [of s t] nudge_runnable [of s t] by auto
  next
    case (sys_lock s p l t i)
    then show ?thesis using kinv_lock [of s p l] by (auto simp: k_acquire_def split: if_splits)
  next
    case (sys_unlock s p l t i)
    then show ?thesis using kinv_unlock [of s p l] by (auto simp: k_release_def split: if_splits)
  next
    case (sys_yield s p r i)
    then show ?thesis using good [OF yield_good, of s p] by auto
  next
    case (sys_sleep s p lk ch r i)
    have "cont_ok lk C_caller" using free sys_sleep by (auto simp: cont_ok_def)
    then have "\<exists>r'. sleep ch lk C_caller s = Some r' \<and> good s r'" using sleep_away [of s p lk C_caller ch] sys_sleep by auto
    then show ?thesis using good [of "sleep ch lk C_caller s" s r p] sys_sleep by auto
  next
    case (sys_kill s p pid sig r i)
    then show ?thesis using good [OF kill_good, of s p] by auto
  next
    case (sys_pending s p r i)
    then show ?thesis using good [OF check_pending_signal_good, of s p] by auto
  next
    case (sys_suspend s p m r i)
    then show ?thesis using good [OF sigsuspend_good, of s p] by auto
  next
    case (sys_poll s p r i)
    then show ?thesis using good [OF ppoll_good, of s p] by auto
  qed
qed

lemma sys_run_kinv: "sys_run c ps d \<Longrightarrow> kinv (snd c) \<Longrightarrow> kinv (snd d)"
  by (induction rule: sys_run.induct) (use sys_step_keeps in blast)+

section \<open>Properties\<close>

text \<open>A kernel with \<open>n\<close> new processes in the first slots.\<close>

definition no_signal :: signal where
  "no_signal = \<lparr>sg_mask = 0, sg_pending = 0, sg_actions = (\<lambda>_. \<lparr>sa_handler = 0, sa_mask = 0, sa_flags = 0, sa_restorer = 0\<rparr>)\<rparr>"

definition a_proc :: "procstate \<Rightarrow> u32 \<Rightarrow> proc" where
  "a_proc st pid = \<lparr>p_uid = 0, p_euid = 0, p_suid = 0, p_fsuid = 0, p_gid = 0, p_egid = 0, p_sgid = 0, p_fsgid = 0,
     p_cap_effective = 0, p_cap_inheritable = 0, p_cap_permitted = 0, p_umask = 0, p_state = st, p_chan = None, p_killed = 0, p_paused = 0,
     p_xstate = 0, p_pid = pid, p_pgid = pid, p_sid = pid, p_parent = None, p_sz = 0, p_pagetable = 0, p_trapframe = 0, p_oldtf = 0,
     p_kont = K_forkret, p_regions = [], p_signal = no_signal\<rparr>"

definition fresh_kern :: "nat \<Rightarrow> kern" where
  "fresh_kern n = \<lparr>held = {}, woken = [], pages = (\<lambda>_. zero_page), free_lists = (\<lambda>_. None), ram = (\<lambda>_. 0),
     procs = (\<lambda>p. if p < n then a_proc RUNNABLE (of_nat p + 1) else a_proc UNUSED 0), curproc = None, nextpid = of_nat n + 1, initproc = 0\<rparr>"

lemma fresh_kinv: "kinv (fresh_kern n)"
  by (auto simp: kinv_def fresh_kern_def a_proc_def)

text \<open>
  C5: However the scheduler, the running process and interrupts interleave: at most one process is in state
  RUNNING and it is the one the hart names, no process lock is held between operations and no lock at all
  while the hart is idle, and nothing panics: an idle hart always finds the next process and that process
  always resumes, and the running process can always yield, send signals and take its own.
\<close>

theorem one_process_runs:
  assumes "sys_run c ps d" "kinv (snd c)"
  shows "(\<forall>p. state_of (snd d) p = RUNNING \<longleftrightarrow> curproc (snd d) = Some p) \<and> (\<forall>p. L_proc p \<notin> held (snd d)) \<and>
    (curproc (snd d) = None \<longrightarrow> held (snd d) = {} \<and>
       (\<forall>i. \<exists>p t. scheduler_from i (snd d) = Some (p, t) \<and> (p \<noteq> None \<longrightarrow> resume t \<noteq> None) \<and>
          (p = None \<longrightarrow> t = snd d \<and> (\<forall>q. i \<le> q \<and> q < NPROC \<longrightarrow> state_of (snd d) q \<noteq> RUNNABLE)))) \<and>
    (curproc (snd d) \<noteq> None \<and> held (snd d) = {} \<longrightarrow>
       yield (snd d) \<noteq> None \<and> (\<forall>pid sig. kill pid sig (snd d) \<noteq> None) \<and> check_pending_signal (snd d) \<noteq> None)"
proof -
  let ?s = "snd d"
  have k: "kinv ?s" using sys_run_kinv [OF assms] .
  have "(\<forall>p. state_of ?s p = RUNNING \<longleftrightarrow> curproc ?s = Some p) \<and> (\<forall>p. L_proc p \<notin> held ?s) \<and> (curproc ?s = None \<longrightarrow> held ?s = {})"
    using k unfolding kinv_def by blast
  moreover have "\<exists>p t. scheduler_from i ?s = Some (p, t) \<and> (p \<noteq> None \<longrightarrow> resume t \<noteq> None) \<and>
      (p = None \<longrightarrow> t = ?s \<and> (\<forall>q. i \<le> q \<and> q < NPROC \<longrightarrow> state_of ?s q \<noteq> RUNNABLE))" if c: "curproc ?s = None" for i
  proof (cases "find (\<lambda>p. state_of ?s p = RUNNABLE) [i..<NPROC]")
    case None
    then have "\<forall>q. i \<le> q \<and> q < NPROC \<longrightarrow> state_of ?s q \<noteq> RUNNABLE" by (simp only: find_upt)
    then show ?thesis unfolding scheduler_from_eq [OF k c] None by simp
  next
    case (Some p)
    then have "state_of ?s p = RUNNABLE" "p < NPROC" by (auto simp: find_upt)
    then show ?thesis unfolding scheduler_from_eq [OF k c] using resume_dispatched [OF k c] Some by auto
  qed
  moreover have "yield ?s \<noteq> None \<and> (\<forall>pid sig. kill pid sig ?s \<noteq> None) \<and> check_pending_signal ?s \<noteq> None" if "curproc ?s \<noteq> None" "held ?s = {}"
    using yield_good [OF k _ that(2)] kill_good [OF k _ that(2)] check_pending_signal_good [OF k _ that(2)] that(1) by fastforce
  ultimately show ?thesis by blast
qed

definition running_first :: "nat \<Rightarrow> kern" where
  "running_first n = (upd_proc 0 (\<lambda>q. q\<lparr>p_state := RUNNING\<rparr>) (fresh_kern n))\<lparr>curproc := Some 0, held := {}\<rparr>"

lemma fresh_dispatch:
  assumes "0 < n"
  shows "sys_step (0, fresh_kern n) (Some 0) (1, running_first n)"
proof -
  have "find (\<lambda>p. state_of (fresh_kern n) p = RUNNABLE) [0..<NPROC] = Some 0" using assms by (simp add: find_upt fresh_kern_def a_proc_def NPROC_def)
  then have f: "scheduler_from 0 (fresh_kern n) = Some (Some 0, (upd_proc 0 (\<lambda>q. q\<lparr>p_state := RUNNING\<rparr>) (fresh_kern n))\<lparr>held := {L_proc 0}, curproc := Some 0\<rparr>)"
    using scheduler_from_eq [OF fresh_kinv, of n 0] by (simp add: fresh_kern_def)
  have "p_kont (procs (fresh_kern n) 0) = K_forkret" by (simp add: fresh_kern_def a_proc_def)
  then have "resume ((upd_proc 0 (\<lambda>q. q\<lparr>p_state := RUNNING\<rparr>) (fresh_kern n))\<lparr>held := {L_proc 0}, curproc := Some 0\<rparr>) = Some (Ret 0 (running_first n))"
    by (simp add: resume_def lock_simps running_first_def)
  then show ?thesis using sys_dispatch [OF _ f] by (auto simp: fresh_kern_def)
qed

lemma running_first_kinv: "0 < n \<Longrightarrow> kinv (running_first n)"
  using sys_step_keeps [OF fresh_dispatch] fresh_kinv by auto

theorem one_process_runs_witness:
  "sys_run (0, fresh_kern 2) [0] (1, running_first 2) \<and> state_of (running_first 2) 1 \<noteq> RUNNING \<and> yield (running_first 2) \<noteq> None"
proof -
  have r: "sys_run (0, fresh_kern 2) [0] (1, running_first 2)" by (rule run_dispatch [OF fresh_dispatch run_nil]) simp
  show ?thesis using one_process_runs [OF r] fresh_kinv r by (auto simp: running_first_def)
qed

text \<open>
  C16: No runnable process is starved: whatever processes do and however they are woken, a runnable process
  is chosen after the scheduler has chosen others at most 63 times, the distance of the scheduler's position to its slot
  going around the table.
\<close>

theorem scheduler_fair:
  assumes "sys_run c ps d" "kinv (snd c)" "fst c \<le> NPROC" "q < NPROC" "state_of (snd c) q = RUNNABLE" "q \<notin> set ps"
  shows "length ps \<le> (if fst c \<le> q then q - fst c else NPROC - fst c + q) \<and> length ps < NPROC"
proof -
  let ?b = "\<lambda>c. if fst c \<le> q then q - fst c else NPROC - fst c + q"
  have "length ps \<le> ?b c" using assms
  proof (induction rule: sys_run.induct)
    case (run_nil c)
    then show ?case by simp
  next
    case (run_step c d ps e)
    have k: "kinv (snd d)" "state_of (snd d) q = RUNNABLE" using sys_step_keeps [OF run_step(1)] run_step.prems by auto
    have "fst d = fst c \<or> fst d = 0 \<and> \<not> fst c \<le> q" using run_step(1)
    proof cases
      case (sys_round s i t)
      have "kinv s" using sys_round(1) run_step.prems(1) by simp
      from scheduler_from_eq [OF this sys_round(3), of i] sys_round(4) have "\<forall>q. i \<le> q \<and> q < NPROC \<longrightarrow> state_of s q \<noteq> RUNNABLE"
        by (auto split: option.splits simp: find_upt)
      then show ?thesis using sys_round(1,2) run_step.prems by auto
    qed auto
    then show ?case using run_step.IH [OF k(1) _ _ k(2)] run_step.prems by (auto split: if_splits)
  next
    case (run_dispatch c p d ps e)
    from run_dispatch(1) obtain s i t r where st: "c = (i, s)" "d = (Suc p, run_state r)" "curproc s = None" "scheduler_from i s = Some (Some p, t)"
      by (cases rule: sys_step.cases) auto
    have "kinv s" using st(1) run_dispatch.prems(1) by simp
    from scheduler_from_eq [OF this st(3), of i] st(4) have p: "i \<le> p" "p < NPROC" "\<And>q. i \<le> q \<Longrightarrow> q < p \<Longrightarrow> state_of s q \<noteq> RUNNABLE"
      by (auto split: option.splits simp: find_upt)
    have k: "kinv (snd d)" "state_of (snd d) q = RUNNABLE" using sys_step_keeps [OF run_dispatch(1)] run_dispatch.prems by auto
    have "length ps \<le> ?b d" using run_dispatch.IH [OF k(1) _ _ k(2)] run_dispatch.prems p(2) st(2) by simp
    moreover have "p \<noteq> q" using run_dispatch.prems by auto
    moreover have "i \<le> q \<Longrightarrow> p < q" using p(3) [of q] run_dispatch.prems st(1) \<open>p \<noteq> q\<close> by force
    ultimately show ?case using p(1,2) st(1,2) by (auto split: if_splits)
  qed
  then show ?thesis using assms(3,4) by (auto split: if_splits)
qed

theorem scheduler_fair_witness:
  "sys_run (0, fresh_kern 3) [0] (1, running_first 3) \<and> state_of (fresh_kern 3) 2 = RUNNABLE \<and> length [0 :: nat] \<le> 2 - 0"
proof -
  have r: "sys_run (0, fresh_kern 3) [0] (1, running_first 3)" by (rule run_dispatch [OF fresh_dispatch run_nil]) simp
  have q: "state_of (fresh_kern 3) 2 = RUNNABLE" by (simp add: fresh_kern_def a_proc_def)
  have "length [0 :: nat] \<le> 2 - 0" using scheduler_fair [OF r, of 2] fresh_kinv q by (simp add: NPROC_def)
  then show ?thesis using r q by blast
qed

text \<open>
  C17: A wakeup is not lost. A process that sleeps on a channel gives up its lock and is asleep, with no
  step between in which a wakeup could come too early. Whatever happens to the rest of the kernel
  meanwhile, the next wakeup of the channel makes it runnable, and when it is chosen it returns from
  \<^verbatim>\<open>sleep\<close> as the running process, holding the lock again and with its channel cleared. A wakeup of another channel leaves it asleep.
\<close>

theorem wakeup_not_lost:
  assumes "kinv s" "curproc s = Some p" "held s = {lk}"
  shows "\<exists>t. sleep ch lk C_caller s = Some (Away t) \<and> state_of t p = SLEEPING \<and> held t = {} \<and> curproc t = None \<and>
    (\<forall>u :: 'a kern_scheme. kinv u \<and> procs u p = procs t p \<longrightarrow>
       (\<exists>v. wakeup ch u = Some v \<and> state_of v p = RUNNABLE) \<and>
       (\<forall>ch'. ch' \<noteq> ch \<longrightarrow> (\<exists>v. wakeup ch' u = Some v \<and> procs v p = procs t p))) \<and>
    (\<forall>w :: 'a kern_scheme. kinv w \<and> curproc w = None \<and> procs w p = (procs t p)\<lparr>p_state := RUNNABLE\<rparr> \<longrightarrow>
       (\<exists>x y. scheduler_from p w = Some (Some p, x) \<and> resume x = Some (Ret 0 y) \<and> curproc y = Some p \<and> state_of y p = RUNNING \<and>
          held y = {lk} \<and> p_chan (procs y p) = None))"
proof -
  have lk: "lk \<notin> range L_proc" "p < NPROC" using assms by (auto simp: kinv_def)
  define t where "t = (upd_proc p (\<lambda>q. q\<lparr>p_chan := Some ch, p_state := SLEEPING, p_kont := K_sleep lk C_caller\<rparr>) s)\<lparr>held := {}, curproc := None\<rparr>"
  have t: "sleep ch lk C_caller s = Some (Away t)" unfolding t_def using lk by (intro sleep_eq [OF assms(2,3)]) auto
  have tp: "procs t p = (procs s p)\<lparr>p_chan := Some ch, p_state := SLEEPING, p_kont := K_sleep lk C_caller\<rparr>" by (simp add: t_def)
  have wk: "\<exists>v. wakeup c u = Some v \<and> procs v p = (if c = ch then (procs t p)\<lparr>p_state := RUNNABLE\<rparr> else procs t p)"
    if u: "kinv u" "procs u p = procs t p" for c and u :: "'a kern_scheme"
  proof -
    have "curproc u \<noteq> Some p" using u tp unfolding kinv_def by (auto dest!: spec [of _ p])
    then have "woken_by c [0..<NPROC] u p = (if c = ch then (procs t p)\<lparr>p_state := RUNNABLE\<rparr> else procs t p)"
      using u(2) tp lk(2) by (simp add: woken_by_def)
    moreover have "\<And>q. L_proc q \<notin> held u" using u(1) by (simp add: kinv_def)
    ultimately show ?thesis using wakeup_eq [of u c] by simp
  qed
  have "\<exists>x y. scheduler_from p w = Some (Some p, x) \<and> resume x = Some (Ret 0 y) \<and> curproc y = Some p \<and> state_of y p = RUNNING \<and>
      held y = {lk} \<and> p_chan (procs y p) = None"
    if w: "kinv w" "curproc w = None" "procs w p = (procs t p)\<lparr>p_state := RUNNABLE\<rparr>" for w :: "'a kern_scheme"
  proof -
    have "find (\<lambda>p. state_of w p = RUNNABLE) [p..<NPROC] = Some p" using w(3) lk(2) by (auto simp: find_upt)
    then have "scheduler_from p w = Some (Some p, (upd_proc p (\<lambda>q. q\<lparr>p_state := RUNNING\<rparr>) w)\<lparr>held := {L_proc p}, curproc := Some p\<rparr>)"
      using scheduler_from_eq [OF w(1,2), of p] by simp
    moreover have "p_kont (procs w p) = K_sleep lk C_caller" using w(3) tp by simp
    ultimately show ?thesis using lk(1) by (auto simp: resume_def lock_simps continue_def)
  qed
  moreover have "state_of t p = SLEEPING" "held t = {}" "curproc t = None" by (simp_all add: t_def)
  moreover have "\<exists>v. wakeup ch u = Some v \<and> state_of v p = RUNNABLE" if "kinv u" "procs u p = procs t p" for u :: "'a kern_scheme" using wk [OF that, of ch] by auto
  moreover have "\<exists>v. wakeup c u = Some v \<and> procs v p = procs t p" if "kinv u" "procs u p = procs t p" "c \<noteq> ch" for u :: "'a kern_scheme" and c
    using wk [OF that(1,2), of c] that(3) by auto
  ultimately show ?thesis using t by (intro exI [of _ t]) blast
qed

theorem wakeup_not_lost_witness:
  "\<exists>t. sleep Ch_cons_r L_cons C_caller ((running_first 2)\<lparr>held := {L_cons}\<rparr>) = Some (Away t) \<and> state_of t 0 = SLEEPING \<and>
     (\<exists>v. wakeup Ch_cons_r t = Some v \<and> state_of v 0 = RUNNABLE)"
proof -
  have c: "curproc (running_first 2) = Some 0" by (simp add: running_first_def)
  have k: "kinv ((running_first 2)\<lparr>held := {L_cons}\<rparr>)" using kinv_lock [OF running_first_kinv c, of L_cons] by (auto simp: running_first_def)
  obtain t where t: "sleep Ch_cons_r L_cons C_caller ((running_first 2)\<lparr>held := {L_cons}\<rparr>) = Some (Away t)" "state_of t 0 = SLEEPING"
    "\<forall>u :: kern. kinv u \<and> procs u 0 = procs t 0 \<longrightarrow> (\<exists>v. wakeup Ch_cons_r u = Some v \<and> state_of v 0 = RUNNABLE)"
    using wakeup_not_lost [OF k, of 0 L_cons Ch_cons_r] c by auto
  have "away ((running_first 2)\<lparr>held := {L_cons}\<rparr>) t" using sleep_away [OF k, of 0 L_cons C_caller Ch_cons_r] c t(1) by (auto simp: cont_ok_def)
  then have "\<exists>v. wakeup Ch_cons_r t = Some v \<and> state_of v 0 = RUNNABLE" using t(3) [rule_format, of t] by (simp add: away_def)
  then show ?thesis using t by blast
qed

lemma kill_loop_one:
  assumes "distinct ps" "q \<in> set ps" "\<And>p. p \<in> set ps \<Longrightarrow> selects tg p s \<longleftrightarrow> p = q"
    and "\<And>rest. send_signal q sig rest s = Some (Ret 0 t)" "\<And>p. p \<in> set ps \<Longrightarrow> selects tg p t \<longleftrightarrow> p = q"
  shows "kill_loop tg sig ps err s = Some (Ret 0 t)"
proof -
  define S where "S = set ps"
  have none: "kill_loop tg sig qs e t = Some (Ret e t)" if "set qs \<subseteq> S" "q \<notin> set qs" for qs e
    using that by (induction qs) (auto simp: assms(5) S_def)
  have sel: "p \<in> S \<Longrightarrow> selects tg p s \<longleftrightarrow> p = q" for p using assms(3) by (simp add: S_def)
  have "set ps \<subseteq> S" by (simp add: S_def)
  then show ?thesis using assms(1,2)
  proof (induction ps)
    case (Cons p ps)
    show ?case
    proof (cases "p = q")
      case True
      then have "kill_loop tg sig ps 0 t = Some (Ret 0 t)" using Cons.prems by (intro none) auto
      then show ?thesis using True sel [of p] Cons.prems assms(4) by simp
    next
      case False
      then show ?thesis using Cons sel [of p] by auto
    qed
  qed simp
qed

lemma kill_pid:
  assumes "curproc s = Some cp" "0 <s pid" "q < NPROC" "\<And>p. p < NPROC \<Longrightarrow> p_pid (procs s p) = pid \<longleftrightarrow> p = q"
    and "\<And>rest. send_signal q sig rest s = Some (Ret 0 t)" "\<And>p. p < NPROC \<Longrightarrow> p_pid (procs t p) = p_pid (procs s p)"
  shows "kill pid sig s = Some (Ret 0 t)"
proof -
  have "sint pid > 0" using assms(2) by (simp add: word_sless_alt)
  then have "\<not> (pid = 0 \<or> pid <s -1)" "pid \<noteq> -1" by (auto simp: word_sless_alt)
  moreover have "kill_loop (To_pid pid) sig [0..<NPROC] (- EINVAL) s = Some (Ret 0 t)"
    by (rule kill_loop_one [where q = q]) (use assms in \<open>auto simp: selects_def\<close>)
  ultimately show ?thesis using assms(1) by (simp add: kill_def)
qed

lemma first_pending_single: "sigs st = {n} \<Longrightarrow> n \<in> int ` set is \<Longrightarrow> first_pending is st = Some n"
  by (induction "is") (auto simp: sigismember_iff)



lemma kill_loop_away:
  assumes "distinct ps" "q \<in> set ps" "\<And>p. p \<in> set ps \<Longrightarrow> selects tg p s \<longleftrightarrow> p = q" "\<And>rest. \<exists>t. send_signal q sig rest s = Some (Away t) \<and> P t"
  shows "\<exists>t. kill_loop tg sig ps err s = Some (Away t) \<and> P t"
  using assms
proof (induction ps)
  case (Cons p ps)
  show ?case
  proof (cases "p = q")
    case True
    then show ?thesis using Cons.prems(3) [of p] Cons.prems(4) [of "Some (tg, ps)"] by auto
  next
    case False
    then show ?thesis using Cons by auto
  qed
qed simp

text \<open>
  A stop signal sent to a sleeping process stops the sender instead. The handler calls \<^verbatim>\<open>sleep\<close>, which puts
  the calling process to sleep: the sender ends up asleep on the channel of the target, and the target
  is left asleep on the channel it was waiting for.
\<close>

theorem stop_signal_stops_sender:
  assumes "kinv s" "curproc s = Some cp" "held s = {}" "0 <s pid" "q < NPROC" "\<forall>p < NPROC. p_pid (procs s p) = pid \<longleftrightarrow> p = q"
    and "state_of s q = SLEEPING" "p_paused (procs s q) = 0" "p_killed (procs s q) = 0"
    and "sa_handler (sg_actions (p_signal (procs s q)) (nat SIGSTOP)) = SIG_DFL"
  shows "\<exists>t. kill pid SIGSTOP s = Some (Away t) \<and> state_of t cp = SLEEPING \<and> p_chan (procs t cp) = Some (Ch_proc q) \<and>
    state_of t q = SLEEPING \<and> p_chan (procs t q) = p_chan (procs s q)"
proof -
  define t where "t = (if sigismember SIGSTOP (sg_pending (p_signal (procs s q))) = 0
     then upd_signal q (\<lambda>g. g\<lparr>sg_pending := snd (sigaddset SIGSTOP (sg_pending g))\<rparr>) s else s)"
  have tq: "state_of t q = SLEEPING" "p_paused (procs t q) = 0" "p_killed (procs t q) = 0" "p_chan (procs t q) = p_chan (procs s q)"
    "sa_handler (sg_actions (p_signal (procs t q)) (nat SIGSTOP)) = SIG_DFL" "curproc t = Some cp" "held t = {}"
    using assms by (auto simp: t_def upd_signal_def)
  have ne: "q \<noteq> cp" using assms(1,2,7) unfolding kinv_def by (metis procstate.distinct(21))
  have snd: "\<exists>u. send_signal q SIGSTOP rest s = Some (Away u) \<and> state_of u cp = SLEEPING \<and> p_chan (procs u cp) = Some (Ch_proc q) \<and>
      state_of u q = SLEEPING \<and> p_chan (procs u q) = p_chan (procs s q)" for rest
  proof -
    have "SIGSTOP \<noteq> SIGKILL" "SIGSTOP \<noteq> 0" "SIGSTOP \<in> set stop_signals" "\<not> (SIGSTOP = SIGTERM \<or> SIGSTOP = SIGINT)" by (simp_all add: signal_numbers stop_signals_def)
    then have "send_signal q SIGSTOP rest s = sleep (Ch_proc q) L_q (C_stop q SIGSTOP rest) (t\<lparr>held := {L_q}\<rparr>)"
      using tq by (simp add: send_signal_def t_def [symmetric] handle_signal_def stop_handler_def lock_simps Let_def)
    then show ?thesis using sleep_eq [of "t\<lparr>held := {L_q}\<rparr>" cp L_q "Ch_proc q" "C_stop q SIGSTOP rest"] tq ne by auto
  qed
  have "sint pid > 0" using assms(4) by (simp add: word_sless_alt)
  then have "\<not> (pid = 0 \<or> pid <s -1)" "pid \<noteq> -1" by (auto simp: word_sless_alt)
  moreover have "\<exists>t. kill_loop (To_pid pid) SIGSTOP [0..<NPROC] (- EINVAL) s = Some (Away t) \<and> state_of t cp = SLEEPING \<and> p_chan (procs t cp) = Some (Ch_proc q) \<and>
      state_of t q = SLEEPING \<and> p_chan (procs t q) = p_chan (procs s q)"
    by (rule kill_loop_away [OF _ _ _ snd]) (use assms(5,6) in \<open>auto simp: selects_def\<close>)
  ultimately show ?thesis using assms(2) by (simp add: kill_def)
qed

theorem stop_signal_stops_sender_witness:
  "\<exists>t. kill 2 SIGSTOP (upd_proc 1 (\<lambda>q. q\<lparr>p_state := SLEEPING, p_chan := Some Ch_cons_r, p_kont := K_sleep L_cons C_caller\<rparr>) (running_first 2)) = Some (Away t) \<and>
     state_of t 0 = SLEEPING"
proof -
  let ?s = "upd_proc 1 (\<lambda>q. q\<lparr>p_state := SLEEPING, p_chan := Some Ch_cons_r, p_kont := K_sleep L_cons C_caller\<rparr>) (running_first 2)"
  have k: "kinv ?s" using running_first_kinv [of 2] by (auto simp: kinv_def running_first_def cont_ok_def)
  have a: "curproc ?s = Some 0" "held ?s = {}" "0 <s (2 :: u32)" "1 < NPROC" "\<forall>p < NPROC. p_pid (procs ?s p) = 2 \<longleftrightarrow> p = 1"
    "state_of ?s 1 = SLEEPING" "p_paused (procs ?s 1) = 0" "p_killed (procs ?s 1) = 0"
    "sa_handler (sg_actions (p_signal (procs ?s 1)) (nat SIGSTOP)) = SIG_DFL"
    by (auto simp: running_first_def fresh_kern_def a_proc_def no_signal_def NPROC_def word_sless_alt SIG_DFL_def less_2_cases_iff)
  show ?thesis using stop_signal_stops_sender [OF k a] by blast
qed

section \<open>Process groups\<close>

lemma scan_procs_eq: "(\<And>p. L_proc p \<notin> held s) \<Longrightarrow> scan_procs P ps s = Some (find (\<lambda>p. P (procs s p)) ps, s)"
  by (induction ps) (auto simp: lock_simps)

text \<open>
  \<^verbatim>\<open>setpgid\<close> of a child changes the process group of the caller: a process that moves a child of its session
  into a new group gets 0, but its own group has become that of the child's pid and the child is
  unchanged. For the caller itself the call does what it should.
\<close>

theorem setpgid_changes_caller:
  assumes "\<forall>p. L_proc p \<notin> held s" "curproc s = Some cp" "cp < NPROC" "q < NPROC" "0 <s pid" "\<forall>p < NPROC. p_pid (procs s p) = pid \<longleftrightarrow> p = q"
    and "q = cp \<or> p_parent (procs s q) = Some cp \<and> p_sid (procs s q) = p_sid (procs s cp)"
  shows "\<exists>t. setpgid pid 0 s = Some (0, t) \<and> p_pgid (procs t cp) = pid \<and> (\<forall>p. p \<noteq> cp \<longrightarrow> procs t p = procs s p)"
proof -
  have pid: "pid \<noteq> 0" "\<not> pid <s 0" using assms(5) by (auto simp: word_sless_alt)
  have "find (\<lambda>p. p_pid (procs s p) = pid) [0..<NPROC] = Some q" using assms(4,6) by (auto simp: find_upt)
  then have "(if pid \<noteq> p_pid (procs s cp) then scan_procs (\<lambda>q. p_pid q = pid) [0..<NPROC] s else Some (Some cp, s)) = Some (Some q, s)"
    using scan_procs_eq [of s "\<lambda>q. p_pid q = pid"] assms(1,3,6) by auto
  moreover have "setpgid_end cp pid pid e s = Some (0, if p_pgid (procs s cp) \<noteq> pid then upd_proc cp (\<lambda>q. q\<lparr>p_pgid := pid\<rparr>) s else s)" for e
    by (simp add: setpgid_end_def)
  moreover have "p_parent (procs s q) = Some cp \<Longrightarrow> p_sid (procs s q) = p_sid (procs s cp)" using assms(7) by auto
  ultimately have "setpgid pid 0 s = Some (0, if p_pgid (procs s cp) \<noteq> pid then upd_proc cp (\<lambda>q. q\<lparr>p_pgid := pid\<rparr>) s else s)"
    using assms(2,7) pid by (simp add: setpgid_def del: bind_Some_iff) auto
  then show ?thesis by auto
qed

theorem setpgid_changes_caller_witness:
  "\<exists>t. setpgid 2 0 (upd_proc 1 (\<lambda>q. q\<lparr>p_parent := Some 0, p_sid := 1\<rparr>) (running_first 2)) = Some (0, t) \<and>
     p_pgid (procs t 0) = 2 \<and> p_pgid (procs (running_first 2) 0) = 1"
proof -
  let ?s = "upd_proc 1 (\<lambda>q. q\<lparr>p_parent := Some 0, p_sid := 1\<rparr>) (running_first 2)"
  have a: "\<forall>p. L_proc p \<notin> held ?s" "curproc ?s = Some 0" "0 < NPROC" "1 < NPROC" "0 <s (2 :: u32)" "\<forall>p < NPROC. p_pid (procs ?s p) = 2 \<longleftrightarrow> p = 1"
    "1 = (0::nat) \<or> p_parent (procs ?s 1) = Some 0 \<and> p_sid (procs ?s 1) = p_sid (procs ?s 0)"
    by (auto simp: running_first_def fresh_kern_def a_proc_def NPROC_def word_sless_alt less_2_cases_iff)
  have "p_pgid (procs (running_first 2) 0) = 1" by (simp add: running_first_def fresh_kern_def a_proc_def)
  then show ?thesis using setpgid_changes_caller [OF a] by blast
qed

end
