(* ===== verification/Process.thy ===== *)
theory Process
  imports Mmap_Call Proc_Correct
begin

text \<open>
  The life of a process (\<^verbatim>\<open>kernel/proc.c\<close>): \<^verbatim>\<open>allocproc\<close>, \<^verbatim>\<open>freeproc\<close>, \<^verbatim>\<open>userinit\<close>, \<^verbatim>\<open>fork\<close>, \<^verbatim>\<open>exit\<close> and \<^verbatim>\<open>wait4\<close>, on the
  whole kernel state. \<open>M\<close> is the card driver and \<open>tramp\<close> the address of the trampoline code. The frame of the
  code in \<^verbatim>\<open>trampoline.S\<close> and \<^verbatim>\<open>struct trapframe\<close> is at \<open>p_trapframe\<close> in memory: \<^verbatim>\<open>epc\<close> at offset 24, \<^verbatim>\<open>sp\<close> at
  48 and \<^verbatim>\<open>a0\<close> at 112.
\<close>

unbundle bit_operations_syntax

definition WNOHANG :: u32 where "WNOHANG = 1"
definition WUNTRACED :: u32 where "WUNTRACED = 2"
definition CAP_INIT_EFF_SET :: u32 where "CAP_INIT_EFF_SET = NOT 0 AND NOT (push_bit 8 1)"
definition PNAME :: nat where "PNAME = 16"

definition copy_name :: "(nat \<Rightarrow> u8) \<Rightarrow> (nat \<Rightarrow> u8) \<Rightarrow> nat \<Rightarrow> u8" where
  "copy_name dst src = (\<lambda>k. safestrcpy (\<lambda>a. if a < PNAME then dst a else src (a - PNAME)) 0 PNAME (int PNAME) k)"

definition set_name :: "nat \<Rightarrow> (nat \<Rightarrow> u8) \<Rightarrow> 'c sys \<Rightarrow> 'c sys" where
  "set_name p src s = s\<lparr>names := (names s)(p := copy_name (names s p) src)\<rparr>"

section \<open>Allocation and release\<close>

definition free_tables :: "nat \<Rightarrow> 'c sys \<Rightarrow> 'c sys option" where
  "free_tables p s = (let q = procs s p in if p_pagetable q \<noteq> 0 then proc_freepagetable (p_pagetable q) (p_sz q) s else Some s)"

text \<open>The fields \<^verbatim>\<open>freeproc\<close> clears after the memory is gone.\<close>

definition clear_proc :: "proc \<Rightarrow> proc" where
  "clear_proc q = q\<lparr>p_pagetable := 0, p_sz := 0, p_pid := 0, p_pgid := 0, p_sid := 0,
     cred.p_uid := -1, cred.p_euid := -1, p_suid := -1, p_fsuid := -1, cred.p_gid := -1, cred.p_egid := -1, p_sgid := -1, p_fsgid := -1,
     p_cap_effective := 0, p_cap_inheritable := 0, p_cap_permitted := 0, cred.p_umask := 0, p_parent := None, p_chan := None,
     proc.p_killed := 0, p_xstate := 0, p_regions := [], p_signal := no_signal, p_state := UNUSED\<rparr>"

definition freeproc :: "'c mmc_ops \<Rightarrow> nat \<Rightarrow> 'c sys \<Rightarrow> 'c sys option" where
  "freeproc M p s = do {
     s \<leftarrow> (if p_trapframe (procs s p) \<noteq> 0 then kfree (unat (p_trapframe (procs s p))) s else Some s);
     let s = upd_proc p (\<lambda>q. q\<lparr>p_trapframe := 0\<rparr>) s;
     s \<leftarrow> free_mmap_list M p s;
     let s = upd_proc p (\<lambda>q. q\<lparr>p_regions := []\<rparr>) s;
     s \<leftarrow> free_tables p s;
     Some ((upd_proc p clear_proc s)\<lparr>fdflags := (fdflags s)(p := 0), names := (names s)(p := (names s p)(0 := 0))\<rparr>)
   }"

text \<open>The search for a free entry returns with its lock held.\<close>

primrec find_unused :: "nat list \<Rightarrow> 'a kern_scheme \<Rightarrow> (nat option \<times> 'a kern_scheme) option" where
  "find_unused [] s = Some (None, s)"
| "find_unused (p # ps) s = do {
     s \<leftarrow> k_acquire (L_proc p) s;
     if p_state (procs s p) = UNUSED then Some (Some p, s)
     else do { s \<leftarrow> k_release (L_proc p) s; find_unused ps s }
   }"

definition alloc_failed :: "'c mmc_ops \<Rightarrow> nat \<Rightarrow> 'c sys \<Rightarrow> (nat option \<times> 'c sys) option" where
  "alloc_failed M p s = do { s \<leftarrow> freeproc M p s; s \<leftarrow> k_release (L_proc p) s; Some (None, s) }"

definition allocproc :: "'c mmc_ops \<Rightarrow> u64 \<Rightarrow> 'c sys \<Rightarrow> (nat option \<times> 'c sys) option" where
  "allocproc M tramp s = do {
     (p, s) \<leftarrow> find_unused [0..<NPROC] s;
     case p of
       None \<Rightarrow> Some (None, s)
     | Some p \<Rightarrow> do {
         (pid, s) \<leftarrow> allocpid s;
         let s = upd_proc p (\<lambda>q. q\<lparr>p_pid := pid, p_pgid := pid, p_sid := pid, p_state := USED, p_regions := [], cred.p_umask := 2\<rparr>) s;
         (m, s) \<leftarrow> kalloc s;
         let s = upd_proc p (\<lambda>q. q\<lparr>p_trapframe := of_nat m\<rparr>) s;
         if (of_nat m :: u64) = 0 then alloc_failed M p s
         else do {
           (pt, s) \<leftarrow> proc_pagetable tramp p s;
           let s = upd_proc p (\<lambda>q. q\<lparr>p_pagetable := pt\<rparr>) s;
           if pt = 0 then alloc_failed M p s
           else Some (Some p, upd_proc p (\<lambda>q. q\<lparr>p_kont := K_forkret\<rparr>) s)
         }
       }
   }"

text \<open>
  The first process; \<open>initcode\<close> is the address of the array of that name, which has 68 bytes.
\<close>

definition userinit :: "'c mmc_ops \<Rightarrow> u64 \<Rightarrow> u64 \<Rightarrow> 'c sys \<Rightarrow> 'c sys option" where
  "userinit M tramp initcode s = do {
     (p, s) \<leftarrow> allocproc M tramp s;
     p \<leftarrow> p;
     let s = s\<lparr>initproc := p\<rparr>;
     s \<leftarrow> uvmfirst (p_pagetable (procs s p)) initcode 68 s;
     let s = upd_proc p (\<lambda>q. q\<lparr>p_sz := PGSIZE\<rparr>) s;
     let s = st64 (p_trapframe (procs s p) + 24) 0 s;
     let s = st64 (p_trapframe (procs s p) + 48) PGSIZE s;
     let s = set_name p (cname ''initcode'') s;
     (r, s) \<leftarrow> on_files p (namei M [SLASH] AT_FDCWD) s;
     let s = s\<lparr>cwds := (cwds s)(p := r)\<rparr>;
     let s = upd_proc p (\<lambda>q. q\<lparr>cred.p_uid := 0, cred.p_euid := 0, p_suid := 0, p_fsuid := 0, cred.p_gid := 0, cred.p_egid := 0, p_sgid := 0, p_fsgid := 0,
               p_cap_effective := CAP_INIT_EFF_SET, p_cap_inheritable := CAP_INIT_EFF_SET, p_cap_permitted := CAP_INIT_EFF_SET, p_state := RUNNABLE\<rparr>) s;
     k_release (L_proc p) s
   }"

section \<open>fork\<close>

definition inherit :: "proc \<Rightarrow> proc \<Rightarrow> proc" where
  "inherit q np = np\<lparr>p_sz := p_sz q, p_pgid := p_pgid q, p_sid := p_sid q,
     cred.p_uid := cred.p_uid q, cred.p_euid := cred.p_euid q, p_suid := p_suid q, p_fsuid := p_fsuid q,
     cred.p_gid := cred.p_gid q, cred.p_egid := cred.p_egid q, p_sgid := p_sgid q, p_fsgid := p_fsgid q,
     p_cap_effective := p_cap_effective q, p_cap_inheritable := p_cap_inheritable q, p_cap_permitted := p_cap_permitted q\<rparr>"

primrec dup_files :: "nat \<Rightarrow> nat \<Rightarrow> nat list \<Rightarrow> 'c sys \<Rightarrow> 'c sys option" where
  "dup_files p np [] s = Some s"
| "dup_files p np (i # is) s = do {
     s \<leftarrow> (case ofiles s p i of
             None \<Rightarrow> Some s
           | Some f \<Rightarrow> do {
               s \<leftarrow> do_files p (filedup f) s;
               Some (s\<lparr>ofiles := (ofiles s)(np := (ofiles s np)(i := Some f))\<rparr>)
             });
     dup_files p np is s
   }"

definition fork_failed :: "'c mmc_ops \<Rightarrow> nat \<Rightarrow> int \<Rightarrow> 'c sys \<Rightarrow> (int \<times> 'c sys) option" where
  "fork_failed M np e s = do { s \<leftarrow> freeproc M np s; s \<leftarrow> k_release (L_proc np) s; Some (e, s) }"

text \<open>The rest of \<^verbatim>\<open>fork\<close>, once the child has its memory.\<close>

definition fork_finish :: "nat \<Rightarrow> nat \<Rightarrow> 'c sys \<Rightarrow> (int \<times> 'c sys) option" where
  "fork_finish p np s = do {
     let s = upd_proc np (inherit (procs s p)) s;
     let s = move_at (p_trapframe (procs s np)) (p_trapframe (procs s p)) sizeof_trapframe s;
     let s = st64 (p_trapframe (procs s np) + 112) 0 s;
     s \<leftarrow> dup_files p np [0..<NOFILE] s;
     let s = s\<lparr>fdflags := (fdflags s)(np := fdflags s p)\<rparr>;
     i \<leftarrow> cwds s p;
     (i, s) \<leftarrow> on_files p (idup i) s;
     let s = s\<lparr>cwds := (cwds s)(np := Some i)\<rparr>;
     let s = upd_proc np (\<lambda>q. q\<lparr>p_signal := p_signal (procs s p)\<rparr>) s;
     let s = set_name np (names s p) s;
     let pid = p_pid (procs s np);
     s \<leftarrow> k_release (L_proc np) s;
     s \<leftarrow> k_acquire L_wait s;
     let s = upd_proc np (\<lambda>q. q\<lparr>p_parent := Some p\<rparr>) s;
     s \<leftarrow> k_release L_wait s;
     s \<leftarrow> k_acquire (L_proc np) s;
     let s = upd_proc np (\<lambda>q. q\<lparr>p_state := RUNNABLE\<rparr>) s;
     s \<leftarrow> k_release (L_proc np) s;
     Some (sint pid, s)
   }"

definition fork :: "'c mmc_ops \<Rightarrow> u64 \<Rightarrow> 'c sys \<Rightarrow> (int \<times> 'c sys) option" where
  "fork M tramp s = do {
     p \<leftarrow> curproc s;
     (np, s) \<leftarrow> allocproc M tramp s;
     case np of
       None \<Rightarrow> Some (- ENOMEM, s)
     | Some np \<Rightarrow> do {
         (r, s) \<leftarrow> copy_mmap_regions p np s;
         if r < 0 then fork_failed M np r s
         else do {
           (r, s) \<leftarrow> uvmcopy p np s;
           if r < 0 then fork_failed M np (- ENOMEM) s else fork_finish p np s
         }
       }
   }"

section \<open>exit\<close>

primrec exit_unmap :: "'c mmc_ops \<Rightarrow> mmap_region list \<Rightarrow> 'c sys \<Rightarrow> 'c sys option" where
  "exit_unmap M [] s = Some s"
| "exit_unmap M (r # rs) s = do { (_, s) \<leftarrow> munmap M (mr_addr r) (mr_length r) s; exit_unmap M rs s }"

primrec close_files :: "'c mmc_ops \<Rightarrow> nat \<Rightarrow> nat list \<Rightarrow> 'c sys \<Rightarrow> 'c sys option" where
  "close_files M p [] s = Some s"
| "close_files M p (fd # fds) s = do {
     s \<leftarrow> (case ofiles s p fd of
             None \<Rightarrow> Some s
           | Some f \<Rightarrow> do {
               s \<leftarrow> do_files p (fileclose M f) s;
               Some (s\<lparr>ofiles := (ofiles s)(p := (ofiles s p)(fd := None))\<rparr>)
             });
     close_files M p fds s
   }"

definition exit_status :: "nat \<Rightarrow> u32 \<Rightarrow> 'c sys \<Rightarrow> 'c sys run option" where
  "exit_status p status s = do {
     s \<leftarrow> k_acquire L_wait s;
     s \<leftarrow> reparent p s;
     s \<leftarrow> (case p_parent (procs s p) of None \<Rightarrow> Some s | Some pp \<Rightarrow> wakeup (Ch_proc pp) s);
     s \<leftarrow> k_acquire (L_proc p) s;
     let s = upd_proc p (\<lambda>q. q\<lparr>p_xstate := status, p_state := ZOMBIE\<rparr>) s;
     s \<leftarrow> k_release L_wait s;
     s \<leftarrow> sched K_exit s;
     s \<leftarrow> scheduler_back s;
     Some (Away s)
   }"

definition exit :: "'c mmc_ops \<Rightarrow> u32 \<Rightarrow> 'c sys \<Rightarrow> 'c sys run option" where
  "exit M status s = do {
     p \<leftarrow> curproc s;
     if p = initproc s then None
     else do {
       s \<leftarrow> exit_unmap M (p_regions (procs s p)) s;
       let s = upd_proc p (\<lambda>q. q\<lparr>p_regions := []\<rparr>) s;
       s \<leftarrow> close_files M p [0..<NOFILE] s;
       let s = s\<lparr>fdflags := (fdflags s)(p := 0)\<rparr>;
       i \<leftarrow> cwds s p;
       s \<leftarrow> do_files p (iput M i) s;
       let s = s\<lparr>cwds := (cwds s)(p := None)\<rparr>;
       exit_status p status s
     }
   }"

section \<open>wait4\<close>

text \<open>The children a call waits for.\<close>

definition waits_for :: "nat \<Rightarrow> u32 \<Rightarrow> nat \<Rightarrow> 'a kern_scheme \<Rightarrow> bool" where
  "waits_for p pid pp s \<longleftrightarrow> p_parent (procs s pp) = Some p \<and>
     (if 0 <s pid then p_pid (procs s pp) = pid
      else if pid = 0 then p_pgid (procs s pp) = p_pgid (procs s p)
      else if pid \<noteq> -1 then p_pgid (procs s pp) = - pid
      else True)"

definition reapable :: "u32 \<Rightarrow> proc \<Rightarrow> bool" where
  "reapable options q \<longleftrightarrow> p_state q = ZOMBIE \<or> options AND WUNTRACED \<noteq> 0 \<and> p_state q = SLEEPING \<or> options AND WNOHANG \<noteq> 0"

text \<open>\<open>xa\<close> and \<open>ra\<close> are the addresses of the local variables \<^verbatim>\<open>xstate\<close> and \<^verbatim>\<open>rusage\<close>, the latter of 272 bytes.\<close>

definition give_status :: "nat \<Rightarrow> nat \<Rightarrow> u64 \<Rightarrow> u64 \<Rightarrow> u64 \<Rightarrow> u64 \<Rightarrow> 'a kern_scheme \<Rightarrow> (bool \<times> 'a kern_scheme) option" where
  "give_status p pp status ru xa ra s = do {
     let pt = p_pagetable (procs s p);
     (r, s) \<leftarrow> (if status \<noteq> 0
       then copyout pt status xa 4 (s\<lparr>ram := put32 (push_bit 8 (p_xstate (procs s pp) AND 0xff)) (unat xa) (ram s)\<rparr>)
       else Some (0, s));
     if r < 0 then Some (False, s)
     else do {
       (r, s) \<leftarrow> (if ru \<noteq> 0 then copyout pt ru ra 272 s else Some (0, s));
       Some (\<not> r < 0, s)
     }
   }"

text \<open>One pass over the table: a result, or whether there are such children.\<close>

primrec wait_scan :: "'c mmc_ops \<Rightarrow> nat \<Rightarrow> u32 \<Rightarrow> u64 \<Rightarrow> u32 \<Rightarrow> u64 \<Rightarrow> u64 \<Rightarrow> u64 \<Rightarrow> nat list \<Rightarrow> bool \<Rightarrow> 'c sys \<Rightarrow> (int option \<times> bool \<times> 'c sys) option" where
  "wait_scan M p pid status options ru xa ra [] kids s = Some (None, kids, s)"
| "wait_scan M p pid status options ru xa ra (pp # pps) kids s =
     (if \<not> waits_for p pid pp s then wait_scan M p pid status options ru xa ra pps kids s
      else do {
        s \<leftarrow> k_acquire (L_proc pp) s;
        if reapable options (procs s pp) then do {
          (ok, s) \<leftarrow> give_status p pp status ru xa ra s;
          if \<not> ok then do {
            s \<leftarrow> k_release (L_proc pp) s;
            s \<leftarrow> k_release L_wait s;
            Some (Some (- EFAULT), True, s)
          } else do {
            let rpid = p_pid (procs s pp);
            s \<leftarrow> freeproc M pp s;
            s \<leftarrow> k_release (L_proc pp) s;
            s \<leftarrow> k_release L_wait s;
            Some (Some (sint rpid), True, s)
          }
        } else do {
          s \<leftarrow> k_release (L_proc pp) s;
          wait_scan M p pid status options ru xa ra pps True s
        }
      })"

text \<open>
  One turn of the loop, which begins with \<^verbatim>\<open>wait_lock\<close> held. A process that sleeps here takes another turn when it
  runs again; then \<open>kids\<close> is set.
\<close>

definition wait4_turn :: "'c mmc_ops \<Rightarrow> u32 \<Rightarrow> u64 \<Rightarrow> u32 \<Rightarrow> u64 \<Rightarrow> u64 \<Rightarrow> u64 \<Rightarrow> bool \<Rightarrow> 'c sys \<Rightarrow> 'c sys run option" where
  "wait4_turn M pid status options ru xa ra kids s = do {
     p \<leftarrow> curproc s;
     (r, kids, s) \<leftarrow> wait_scan M p pid status options ru xa ra [0..<NPROC] kids s;
     case r of
       Some r \<Rightarrow> Some (Ret r s)
     | None \<Rightarrow> do {
         (k, s) \<leftarrow> (if \<not> kids then Some (0, s) else killed p s);
         if \<not> kids \<or> k \<noteq> 0 then do { s \<leftarrow> k_release L_wait s; Some (Ret (- ECHILD) s) }
         else sleep (Ch_proc p) L_wait C_caller s
       }
   }"

definition wait4 :: "'c mmc_ops \<Rightarrow> u32 \<Rightarrow> u64 \<Rightarrow> u32 \<Rightarrow> u64 \<Rightarrow> u64 \<Rightarrow> u64 \<Rightarrow> 'c sys \<Rightarrow> 'c sys run option" where
  "wait4 M pid status options ru xa ra s = do {
     s \<leftarrow> k_acquire L_wait s;
     wait4_turn M pid status options ru xa ra False s
   }"

section \<open>System calls\<close>

definition sys_exit :: "'c mmc_ops \<Rightarrow> 'c sys \<Rightarrow> 'c sys run option" where
  "sys_exit M s = do { p \<leftarrow> curproc s; exit M (ucast (trap_args p s 0)) s }"

definition sys_exit_group :: "'c mmc_ops \<Rightarrow> 'c sys \<Rightarrow> 'c sys run option" where
  "sys_exit_group M s = do { p \<leftarrow> curproc s; exit M (ucast (trap_args p s 0)) s }"

definition sys_clone :: "'c mmc_ops \<Rightarrow> u64 \<Rightarrow> 'c sys \<Rightarrow> (int \<times> 'c sys) option" where
  "sys_clone M tramp s = do {
     p \<leftarrow> curproc s;
     if trap_args p s 0 AND 0xff \<noteq> of_int SIGCHLD then Some (-1, s) else fork M tramp s
   }"

definition sys_wait4 :: "'c mmc_ops \<Rightarrow> u64 \<Rightarrow> u64 \<Rightarrow> 'c sys \<Rightarrow> 'c sys run option" where
  "sys_wait4 M xa ra s = do {
     p \<leftarrow> curproc s;
     let a = trap_args p s;
     if a 3 \<noteq> 0 then Some (Ret (- EINVAL) s) else wait4 M (ucast (a 0)) (a 1) (ucast (a 2)) (a 3) xa ra s
   }"

end
