(* ===== verification/Process_Correct.thy ===== *)
theory Process_Correct
  imports Process
begin

text \<open>
  What \<^verbatim>\<open>fork\<close>, \<^verbatim>\<open>exit\<close> and \<^verbatim>\<open>wait4\<close> do to the whole kernel state.
\<close>

unbundle bit_operations_syntax

section \<open>Calls into the file system\<close>

lemma file_view_fields [simp]:
  "held (file_view p s) = held s" "woken (file_view p s) = []" "pages (file_view p s) = pages s" "free_lists (file_view p s) = free_lists s"
  "ftable (file_view p s) = ftable (fsys s)" "itable (file_view p s) = itable (fsys s)" "ofile (file_view p s) = ofiles s p" "fdflag (file_view p s) = fdflags s p"
  "cwds s p = Some i \<Longrightarrow> cwd (file_view p s) = i"
  by (simp_all add: file_view_def Let_def)

lemma filedup_sys:
  assumes "L_ftable \<notin> held s" "1 \<le> f_ref (the_file s f)"
  shows "\<exists>F. do_files p (filedup f) s = Some (s\<lparr>fsbox := Box F\<rparr>) \<and> itable F = itable (fsys s) \<and>
    ftable F = (ftable (fsys s))(f := (ftable (fsys s) f)\<lparr>f_ref := f_ref (ftable (fsys s) f) + 1\<rparr>)"
proof -
  let ?F = "upd_file f (\<lambda>x. x\<lparr>f_ref := f_ref x + 1\<rparr>) (file_view p s)"
  have "filedup f (file_view p s) = Some ?F"
    using assms by (simp add: filedup_def lock_simps the_file_def upd_file_def)
  moreover have "file_back p ?F s = s\<lparr>fsbox := Box ?F\<rparr>"
    by (cases s) (auto simp: file_back_def upd_file_def fun_upd_idem split: option.splits)
  ultimately have "do_files p (filedup f) s = Some (s\<lparr>fsbox := Box ?F\<rparr>)" by (simp add: do_files_def on_files_def upd_file_def)
  then show ?thesis by (intro exI [of _ ?F]) (simp add: upd_file_def)
qed

lemma idup_sys:
  assumes "L_itable \<notin> held s"
  shows "\<exists>F. on_files p (idup i) s = Some (i, s\<lparr>fsbox := Box F\<rparr>) \<and> ftable F = ftable (fsys s) \<and>
    itable F = (itable (fsys s))(i := (itable (fsys s) i)\<lparr>i_ref := i_ref (itable (fsys s) i) + 1\<rparr>)"
proof -
  let ?F = "upd_inode i (\<lambda>x. x\<lparr>i_ref := i_ref x + 1\<rparr>) (file_view p s)"
  have "idup i (file_view p s) = Some (i, ?F)"
    using assms by (simp add: idup_def lock_simps upd_inode_def)
  moreover have "file_back p ?F s = s\<lparr>fsbox := Box ?F\<rparr>"
    by (cases s) (auto simp: file_back_def upd_inode_def fun_upd_idem split: option.splits)
  ultimately have "on_files p (idup i) s = Some (i, s\<lparr>fsbox := Box ?F\<rparr>)" by (simp add: on_files_def upd_inode_def)
  then show ?thesis by (intro exI [of _ ?F]) (simp add: upd_inode_def)
qed

text \<open>The number of descriptors of a process, below \<open>n\<close>, that are open on a file.\<close>

definition fds_on :: "(nat \<Rightarrow> nat option) \<Rightarrow> nat list \<Rightarrow> nat \<Rightarrow> nat" where
  "fds_on fs is f = length (filter (\<lambda>i. fs i = Some f) is)"

lemma dup_files_spec:
  assumes "L_ftable \<notin> held s" "p \<noteq> np" "\<And>i f. i \<in> set is \<Longrightarrow> ofiles s p i = Some f \<Longrightarrow> 1 \<le> f_ref (the_file s f)"
  shows "\<exists>F. dup_files p np is s = Some (s\<lparr>fsbox := Box F, ofiles := (ofiles s)(np := (\<lambda>i. if i \<in> set is \<and> ofiles s p i \<noteq> None then ofiles s p i else ofiles s np i))\<rparr>) \<and>
    itable F = itable (fsys s) \<and> ftable F = (\<lambda>f. (ftable (fsys s) f)\<lparr>f_ref := f_ref (ftable (fsys s) f) + int (fds_on (ofiles s p) is f)\<rparr>)"
  using assms
proof (induction "is" arbitrary: s)
  case Nil
  show ?case by (intro exI [of _ "fsys s"]) (simp add: fds_on_def)
next
  case (Cons i "is")
  show ?case
  proof (cases "ofiles s p i")
    case None
    have m: "(j \<in> set (i # is) \<and> ofiles s p j \<noteq> None) = (j \<in> set is \<and> ofiles s p j \<noteq> None)" for j using None by auto
    have n: "fds_on (ofiles s p) (i # is) f = fds_on (ofiles s p) is f" for f using None by (simp add: fds_on_def)
    have "dup_files p np (i # is) s = dup_files p np is s" using None by simp
    moreover have "\<exists>F. dup_files p np is s = Some (s\<lparr>fsbox := Box F, ofiles := (ofiles s)(np := (\<lambda>i. if i \<in> set is \<and> ofiles s p i \<noteq> None then ofiles s p i else ofiles s np i))\<rparr>) \<and>
      itable F = itable (fsys s) \<and> ftable F = (\<lambda>f. (ftable (fsys s) f)\<lparr>f_ref := f_ref (ftable (fsys s) f) + int (fds_on (ofiles s p) is f)\<rparr>)"
      by (rule Cons.IH) (use Cons.prems in auto)
    ultimately show ?thesis by (simp only: m n)
  next
    case (Some f)
    obtain F where F: "do_files p (filedup f) s = Some (s\<lparr>fsbox := Box F\<rparr>)" "itable F = itable (fsys s)"
      "ftable F = (ftable (fsys s))(f := (ftable (fsys s) f)\<lparr>f_ref := f_ref (ftable (fsys s) f) + 1\<rparr>)"
      using filedup_sys [OF Cons.prems(1), of f p] Cons.prems(3) Some by auto
    have r1: "1 \<le> f_ref (the_file s f)" by (rule Cons.prems(3) [OF _ Some]) simp
    let ?t = "s\<lparr>fsbox := Box F, ofiles := (ofiles s)(np := (ofiles s np)(i := Some f))\<rparr>"
    have "\<exists>G. dup_files p np is ?t = Some (?t\<lparr>fsbox := Box G, ofiles := (ofiles ?t)(np := (\<lambda>j. if j \<in> set is \<and> ofiles ?t p j \<noteq> None then ofiles ?t p j else ofiles ?t np j))\<rparr>) \<and>
      itable G = itable (fsys ?t) \<and> ftable G = (\<lambda>f. (ftable (fsys ?t) f)\<lparr>f_ref := f_ref (ftable (fsys ?t) f) + int (fds_on (ofiles ?t p) is f)\<rparr>)"
      by (rule Cons.IH) (use Cons.prems r1 in \<open>auto simp: the_file_def F(3)\<close>)
    then obtain G where G: "dup_files p np is ?t = Some (?t\<lparr>fsbox := Box G, ofiles := (ofiles ?t)(np := (\<lambda>j. if j \<in> set is \<and> ofiles ?t p j \<noteq> None then ofiles ?t p j else ofiles ?t np j))\<rparr>)"
      "itable G = itable (fsys ?t)" "ftable G = (\<lambda>f. (ftable (fsys ?t) f)\<lparr>f_ref := f_ref (ftable (fsys ?t) f) + int (fds_on (ofiles ?t p) is f)\<rparr>)" by blast
    have run: "dup_files p np (i # is) s = dup_files p np is ?t" using Some F(1) by simp
    have o: "(ofiles ?t)(np := (\<lambda>j. if j \<in> set is \<and> ofiles ?t p j \<noteq> None then ofiles ?t p j else ofiles ?t np j)) =
        (ofiles s)(np := (\<lambda>j. if j \<in> set (i # is) \<and> ofiles s p j \<noteq> None then ofiles s p j else ofiles s np j))"
      using Cons.prems(2) Some by (auto simp: fun_eq_iff)
    have st: "?t\<lparr>fsbox := Box G, ofiles := X\<rparr> = s\<lparr>fsbox := Box G, ofiles := X\<rparr>" for X by simp
    have "itable G = itable (fsys s)" using G(2) F(2) by simp
    moreover have "ftable G = (\<lambda>f. (ftable (fsys s) f)\<lparr>f_ref := f_ref (ftable (fsys s) f) + int (fds_on (ofiles s p) (i # is) f)\<rparr>)"
      unfolding G(3) using Cons.prems(2) Some by (auto simp: fun_eq_iff F(3) fds_on_def)
    ultimately show ?thesis unfolding run G(1) o st by blast
  qed
qed

section \<open>Finding a free process\<close>

lemma find_unused_found:
  assumes "\<And>q. L_proc q \<notin> held s" "q \<in> set ps" "state_of s q = UNUSED"
  shows "\<exists>np \<in> set ps. state_of s np = UNUSED \<and> find_unused ps s = Some (Some np, s\<lparr>held := insert (L_proc np) (held s)\<rparr>)"
  using assms
proof (induction ps)
  case (Cons r rs)
  show ?case
  proof (cases "state_of s r = UNUSED")
    case True
    then show ?thesis using Cons.prems(1) by (simp add: lock_simps)
  next
    case False
    have "s\<lparr>held := held s\<rparr> = s" by simp
    then have "find_unused (r # rs) s = find_unused rs s" using False Cons.prems(1) by (simp add: lock_simps)
    then show ?thesis using Cons False by auto
  qed
qed simp

section \<open>A new address space\<close>

text \<open>
  Memory taken from the allocator only: what was in use stays in use with its bytes, and at most \<open>c\<close> pages
  are gone.
\<close>

definition grows :: "nat \<Rightarrow> 'a vm_scheme \<Rightarrow> 'a vm_scheme \<Rightarrow> bool" where
  "grows c s s' \<longleftrightarrow> vm_ok s' \<and> live_pages s \<subseteq> live_pages s' \<and> mem_free s \<le> mem_free s' + c \<and>
     (\<forall>a \<in> live_pages s. \<forall>x < 4096. ram s' (a + x) = ram s (a + x)) \<and> s' = s\<lparr>pages := pages s', free_lists := free_lists s', ram := ram s'\<rparr>"

lemma vm_upd_trans:
  "u = t\<lparr>pages := a, free_lists := b, ram := c\<rparr> \<Longrightarrow> t = s\<lparr>pages := a', free_lists := b', ram := c'\<rparr> \<Longrightarrow> u = s\<lparr>pages := a, free_lists := b, ram := c\<rparr>"
  by simp

lemma growsD:
  assumes "grows c s s'"
  shows "vm_ok s'" "live_pages s \<subseteq> live_pages s'" "mem_free s \<le> mem_free s' + c" "a \<in> live_pages s \<Longrightarrow> x < 4096 \<Longrightarrow> ram s' (a + x) = ram s (a + x)"
    "s' = s\<lparr>pages := pages s', free_lists := free_lists s', ram := ram s'\<rparr>" "held s' = held s"
proof -
  show u: "s' = s\<lparr>pages := pages s', free_lists := free_lists s', ram := ram s'\<rparr>" using assms unfolding grows_def by blast
  show "held s' = held s" by (subst u) simp
qed (use assms in \<open>auto simp: grows_def\<close>)

lemma grows_trans: "grows c s t \<Longrightarrow> grows d t u \<Longrightarrow> grows (c + d) s u"
proof -
  assume a: "grows c s t" and b: "grows d t u"
  note A = growsD [OF a] and B = growsD [OF b]
  have "u = s\<lparr>pages := pages u, free_lists := free_lists u, ram := ram u\<rparr>" by (rule vm_upd_trans [OF B(5) A(5)])
  moreover have "ram u (x + y) = ram s (x + y)" if "x \<in> live_pages s" "y < 4096" for x y using A(2,4) B(4) that by (metis subsetD)
  ultimately show ?thesis using A(2,3) B(1-3) unfolding grows_def by auto
qed

lemma uvmcreate_rec:
  assumes "vm_ok s" "0 < mem_free s" "uvmcreate s = Some (r, s')"
  shows "s' = s\<lparr>pages := pages s', free_lists := free_lists s', ram := ram s'\<rparr>"
proof -
  obtain p t where k: "kalloc s = Some (p, t)" "t = s\<lparr>pages := pages t, free_lists := free_lists t\<rparr>"
    using kalloc_spec [OF assms(1,2)] by (elim exE conjE) (rule that)
  have t: "t = s\<lparr>pages := pages t, free_lists := free_lists t, ram := ram t\<rparr>" using k(2) by (metis vm.update_convs(1) vm.surjective)
  have "s' = zero_at (of_nat p) t \<or> s' = t" using assms(3) k(1) by (auto simp: uvmcreate_def Let_def split: if_splits)
  then have "s' = t\<lparr>pages := pages s', free_lists := free_lists s', ram := ram s'\<rparr>" by (auto simp: zero_at_def)
  then show ?thesis by (rule vm_upd_trans [OF _ t])
qed

lemma tramp_vpn: "vpn TRAMPOLINE = 2 ^ 26 - 1" "vpn TRAPFRAME = 2 ^ 26 - 2" "TRAMPOLINE < MAXVA" "TRAPFRAME < MAXVA" "PGROUNDDOWN TRAMPOLINE = TRAMPOLINE" "PGROUNDDOWN TRAPFRAME = TRAPFRAME"
  by (simp_all add: vpn_def TRAPFRAME_def TRAMPOLINE_def MAXVA_def PGSIZE_def PGROUNDDOWN_def)

text \<open>A change of a table that has no page of \<open>s\<close> in it.\<close>

definition fresh_tables :: "u64 \<Rightarrow> 'a vm_scheme \<Rightarrow> 'a vm_scheme \<Rightarrow> bool" where
  "fresh_tables q s t \<longleftrightarrow> (\<forall>n a. node_adr (ram t) q n = Some a \<longrightarrow> unat a \<notin> live_pages s)"

lemma frame_grows:
  assumes g: "grows c s t" and fr: "fresh_tables q s t" and f: "pt_frame d q t u"
  shows "grows (c + d) s u" "fresh_tables q s u"
proof -
  note G = growsD [OF g] and P = pt_frameD [OF f]
  have nt: "\<not> is_table (ram t) q a" if "a \<in> live_pages s" for a using fr that unfolding fresh_tables_def is_table_def by blast
  have "u = t\<lparr>pages := pages u, free_lists := free_lists u, ram := ram u\<rparr>" using f unfolding pt_frame_def by blast
  then have "u = s\<lparr>pages := pages u, free_lists := free_lists u, ram := ram u\<rparr>" by (rule vm_upd_trans [OF _ G(5)])
  moreover have "ram u (a + x) = ram s (a + x)" if "a \<in> live_pages s" "x < 4096" for a x
    using frame_keeps_page(1) [OF f _ nt [OF that(1)] that(2)] G(2,4) that by auto
  moreover have "vm_ok u" using P(1) by (simp add: pt_ok_def)
  ultimately show "grows (c + d) s u" using G(2,3) P(2,3) unfolding grows_def by auto
  show "fresh_tables q s u" unfolding fresh_tables_def
  proof (intro allI impI notI)
    fix n a assume "node_adr (ram u) q n = Some a" "unat a \<in> live_pages s"
    then show False using P(6) fr G(2) unfolding fresh_tables_def by blast
  qed
qed

lemma proc_pagetable_spec:
  fixes s :: "'a kern_scheme"
  assumes ok: "vm_ok s" and fr: "5 \<le> mem_free s"
  shows "\<exists>pt s'. proc_pagetable tramp p s = Some (pt, s') \<and> pt \<noteq> 0 \<and> pt_ok pt s' \<and> grows 5 s s' \<and> fresh_tables pt s s' \<and>
    (\<forall>v < 2 ^ 26 - 2. vmap (ram s') pt v = 0)"
proof -
  have fr0: "0 < mem_free s" using fr by simp
  obtain pt t where c: "uvmcreate s = Some (pt, t)" "pt_ok pt t" "unat pt \<notin> live_pages s" "live_pages t = insert (unat pt) (live_pages s)" "Suc (mem_free t) = mem_free s"
    "\<forall>v < 2 ^ 26. vmap (ram t) pt v = 0" "\<forall>n. n \<noteq> Root \<longrightarrow> node_adr (ram t) pt n = None" "\<forall>x. x < unat pt \<or> unat pt + 4096 \<le> x \<longrightarrow> ram t x = ram s x"
    using uvmcreate_spec [OF ok fr0] by blast
  have lp: "unat pt \<in> live_pages t" using c(4) by simp
  have p0: "pt \<noteq> 0" using live_page(2) [OF lp] by (auto simp: PAGE_START_def)
  have same: "ram t (a + x) = ram s (a + x)" if "a \<in> live_pages s" "x < 4096" for a x
  proof -
    have "a + 4096 \<le> unat pt \<or> unat pt + 4096 \<le> a" using live_apart [OF that(1) lp] that(1) c(3) by metis
    then show ?thesis using c(8) that(2) by auto
  qed
  have g1: "grows 1 s t" using uvmcreate_rec [OF ok fr0 c(1)] c(2,4,5) same unfolding grows_def pt_ok_def by auto
  have f1: "fresh_tables pt s t" unfolding fresh_tables_def
  proof (intro allI impI)
    fix n a assume a: "node_adr (ram t) pt n = Some a"
    then have "n = Root" using c(7) by (cases "n = Root") auto
    then show "unat a \<notin> live_pages s" using a c(3) by simp
  qed
  have nb: "\<not> bit (vmap (ram t) pt (vpn TRAMPOLINE)) 0" "2 \<le> mem_free t" using c(5,6) fr by (simp_all add: tramp_vpn)
  obtain u where u: "mappages pt TRAMPOLINE PGSIZE tramp PTE_EXEC t = Some (0, u)" "pt_frame 2 pt t u"
    "\<And>w. w < 2 ^ 26 \<Longrightarrow> vmap (ram u) pt w = (if w = 2 ^ 26 - 1 then mapped_pte tramp PTE_EXEC else vmap (ram t) pt w)"
    using map_one [OF c(2) tramp_vpn(3) nb, of tramp PTE_EXEC] unfolding tramp_vpn by blast
  note g2 = frame_grows [OF g1 f1 u(2)]
  have nb2: "\<not> bit (vmap (ram u) pt (vpn TRAPFRAME)) 0" "2 \<le> mem_free u" using c(5,6) fr u(3) [of "2 ^ 26 - 2"] pt_frameD(3) [OF u(2)] by (simp_all add: tramp_vpn)
  have pu: "procs u = procs s" by (subst growsD(5) [OF g2(1)]) simp
  obtain w where w: "mappages pt TRAPFRAME PGSIZE (p_trapframe (procs s p)) PTE_NORMAL u = Some (0, w)" "pt_frame 2 pt u w"
    "\<And>x. x < 2 ^ 26 \<Longrightarrow> vmap (ram w) pt x = (if x = 2 ^ 26 - 2 then mapped_pte (p_trapframe (procs s p)) PTE_NORMAL else vmap (ram u) pt x)"
    using map_one [OF pt_frameD(1) [OF u(2)] tramp_vpn(4) nb2, of "p_trapframe (procs s p)" PTE_NORMAL] unfolding tramp_vpn by blast
  note g3 = frame_grows [OF g2 w(2)]
  have "vmap (ram w) pt v = 0" if "v < 2 ^ 26 - 2" for v using w(3) [of v] u(3) [of v] c(6) that by simp
  moreover have "proc_pagetable tramp p s = Some (pt, w)" using c(1) p0 u(1) w(1) pu by (simp add: proc_pagetable_def)
  moreover have "(1 :: nat) + 2 + 2 = 5" by simp
  then have "grows 5 s w" using g3(1) by metis
  ultimately show ?thesis using p0 pt_frameD(1) [OF w(2)] g3(2) by (intro exI [of _ pt] exI [of _ w]) simp
qed

text \<open>The same for states that differ in other fields.\<close>

definition mem_grows :: "nat \<Rightarrow> 'a vm_scheme \<Rightarrow> 'a vm_scheme \<Rightarrow> bool" where
  "mem_grows c s s' \<longleftrightarrow> vm_ok s' \<and> live_pages s \<subseteq> live_pages s' \<and> mem_free s \<le> mem_free s' + c \<and> (\<forall>a \<in> live_pages s. \<forall>x < 4096. ram s' (a + x) = ram s (a + x))"

lemma upd_proc_mem [simp]: "pages (upd_proc p f s) = pages s" "free_lists (upd_proc p f s) = free_lists s" "nextpid (upd_proc p f s) = nextpid s"
  by (simp_all add: upd_proc_def)

text \<open>The entry \<^verbatim>\<open>allocproc\<close> returns.\<close>

definition new_proc :: "u32 \<Rightarrow> u64 \<Rightarrow> u64 \<Rightarrow> proc \<Rightarrow> proc" where
  "new_proc pid tf pt q = q\<lparr>p_pid := pid, p_pgid := pid, p_sid := pid, p_state := USED, p_regions := [], cred.p_umask := 2, p_trapframe := tf, p_pagetable := pt, p_kont := K_forkret\<rparr>"

lemma allocproc_spec:
  assumes lk: "\<And>q. L_proc q \<notin> held s" "L_pid \<notin> held s" and ok: "vm_ok s" and fr: "6 \<le> mem_free s" and un: "q < NPROC" "state_of s q = UNUSED"
  shows "\<exists>np tf pt s'. allocproc M tramp s = Some (Some np, s') \<and> np < NPROC \<and> state_of s np = UNUSED \<and>
    unat tf \<notin> live_pages s \<and> unat tf \<in> live_pages s' \<and> pt_ok pt s' \<and> fresh_tables pt s s' \<and> \<not> is_table (ram s') pt (unat tf) \<and> (\<forall>v < 2 ^ 26 - 2. vmap (ram s') pt v = 0) \<and> mem_grows 6 s s' \<and>
    s' = s\<lparr>held := insert (L_proc np) (held s), nextpid := nextpid s + 1, procs := (procs s)(np := new_proc (nextpid s) tf pt (procs s np)),
      pages := pages s', free_lists := free_lists s', ram := ram s'\<rparr>"
proof -
  obtain np where np: "np < NPROC" "state_of s np = UNUSED" "find_unused [0..<NPROC] s = Some (Some np, s\<lparr>held := insert (L_proc np) (held s)\<rparr>)"
    using find_unused_found [OF lk(1), of q "[0..<NPROC]"] un by auto
  let ?s1 = "s\<lparr>held := insert (L_proc np) (held s)\<rparr>" and ?s2 = "s\<lparr>held := insert (L_proc np) (held s), nextpid := nextpid s + 1\<rparr>"
  have pid: "allocpid ?s1 = Some (nextpid s, ?s2)" using lk(2) by (simp add: allocpid_def lock_simps insert_Diff_if)
  let ?f = "\<lambda>q. q\<lparr>p_pid := nextpid s, p_pgid := nextpid s, p_sid := nextpid s, p_state := USED, p_regions := [], cred.p_umask := 2\<rparr>"
  define s3 where "s3 = upd_proc np ?f ?s2"
  have m3: "live_pages s3 = live_pages s" "mem_free s3 = mem_free s" "ram s3 = ram s" by (simp_all add: s3_def live_pages_def mem_free_def)
  have o3: "vm_ok s3" using ok by (simp add: vm_ok_def s3_def buddy_inv_def)
  have f3: "0 < mem_free s3" using m3 fr by simp
  obtain m t where k: "kalloc s3 = Some (m, t)" "vm_ok t" "m \<notin> live_pages s3" "live_pages t = insert m (live_pages s3)" "Suc (mem_free t) = mem_free s3" "t = s3\<lparr>pages := pages t, free_lists := free_lists t\<rparr>"
    using kalloc_spec [OF o3 f3] by (elim exE conjE) (rule that)
  define tf where "tf = (of_nat m :: u64)"
  have lm: "m \<in> live_pages t" using k(4) by simp
  have um: "unat tf = m" unfolding tf_def using live_page(1) [OF lm] by (intro unat_of_nat_less) simp
  have t0: "tf \<noteq> 0" using live_page(2) [OF lm] um by (auto simp: PAGE_START_def)
  define s4 where "s4 = upd_proc np (\<lambda>q. q\<lparr>p_trapframe := tf\<rparr>) t"
  have m4: "live_pages s4 = live_pages t" "mem_free s4 = mem_free t" "ram s4 = ram t" by (simp_all add: s4_def live_pages_def mem_free_def)
  have rt: "ram t = ram s" by (subst k(6)) (simp add: m3)
  have o4: "vm_ok s4" "5 \<le> mem_free s4" using k(2,5) m3 m4 fr by (simp_all add: vm_ok_def s4_def buddy_inv_def)
  obtain pt u where u: "proc_pagetable tramp np s4 = Some (pt, u)" "pt \<noteq> 0" "pt_ok pt u" "grows 5 s4 u" "fresh_tables pt s4 u" "\<forall>v < 2 ^ 26 - 2. vmap (ram u) pt v = 0"
    using proc_pagetable_spec [OF o4, of tramp np] by blast
  note U = growsD [OF u(4)]
  define s' where "s' = upd_proc np (\<lambda>q. q\<lparr>p_kont := K_forkret\<rparr>) (upd_proc np (\<lambda>q. q\<lparr>p_pagetable := pt\<rparr>) u)"
  have m5: "live_pages s' = live_pages u" "mem_free s' = mem_free u" "ram s' = ram u" by (simp_all add: s'_def live_pages_def mem_free_def)
  have run: "allocproc M tramp s = Some (Some np, s')"
    using np(3) pid k(1) t0 u(1,2) by (simp add: allocproc_def s3_def [symmetric] s4_def [symmetric] tf_def [symmetric] s'_def Let_def)
  have rec: "s' = s\<lparr>held := insert (L_proc np) (held s), nextpid := nextpid s + 1, procs := (procs s)(np := new_proc (nextpid s) tf pt (procs s np)),
      pages := pages s', free_lists := free_lists s', ram := ram s'\<rparr>"
    unfolding s'_def by (subst U(5), subst s4_def, subst k(6), subst s3_def) (simp add: upd_proc_def new_proc_def)
  have "pt_ok pt s'" using u(3) unfolding pt_ok_def m5 by (simp add: vm_ok_def s'_def buddy_inv_def)
  moreover have "fresh_tables pt s s'" "\<not> is_table (ram s') pt (unat tf)"
    using u(5) m3(1) m4(1) k(4) um unfolding fresh_tables_def m5 is_table_def by blast+
  moreover have "mem_grows 6 s s'"
  proof -
    have "vm_ok s'" using U(1) by (simp add: vm_ok_def s'_def buddy_inv_def)
    then show ?thesis using U(2-4) m3 m4 m5 k(4,5) rt unfolding mem_grows_def by auto
  qed
  moreover have "unat tf \<notin> live_pages s" "unat tf \<in> live_pages s'" using k(3,4) um m3 m4 m5 U(2) by auto
  ultimately show ?thesis using np run rec u(6) m5 by (intro exI [of _ np] exI [of _ tf] exI [of _ pt] exI [of _ s']) simp
qed

section \<open>fork\<close>

text \<open>The child as \<^verbatim>\<open>fork\<close> leaves it.\<close>

definition forked :: "nat \<Rightarrow> proc \<Rightarrow> proc \<Rightarrow> proc" where
  "forked p q np = (inherit q np)\<lparr>p_signal := p_signal q, p_parent := Some p, p_state := RUNNABLE\<rparr>"

definition child_regs :: "u64 \<Rightarrow> u64 \<Rightarrow> memory \<Rightarrow> memory" where
  "child_regs tf ptf m = put64 0 (unat (tf + 112)) (memmove m (unat tf) (unat ptf) (unat sizeof_trapframe))"

lemma fork_finish_spec:
  assumes h: "held s = {L_proc np}" and ne: "p \<noteq> np" and rf: "\<And>i f. i < NOFILE \<Longrightarrow> ofiles s p i = Some f \<Longrightarrow> 1 \<le> f_ref (the_file s f)" and cw: "cwds s p = Some i"
  shows "\<exists>F nm. fork_finish p np s = Some (sint (p_pid (procs s np)), s\<lparr>held := {}, ram := child_regs (p_trapframe (procs s np)) (p_trapframe (procs s p)) (ram s),
      procs := (procs s)(np := forked p (procs s p) (procs s np)), fsbox := Box F,
      ofiles := (ofiles s)(np := (\<lambda>i. if i < NOFILE \<and> ofiles s p i \<noteq> None then ofiles s p i else ofiles s np i)),
      fdflags := (fdflags s)(np := fdflags s p), cwds := (cwds s)(np := Some i), names := nm\<rparr>) \<and>
    ftable F = (\<lambda>f. (ftable (fsys s) f)\<lparr>f_ref := f_ref (ftable (fsys s) f) + int (fds_on (ofiles s p) [0..<NOFILE] f)\<rparr>) \<and>
    itable F = (itable (fsys s))(i := (itable (fsys s) i)\<lparr>i_ref := i_ref (itable (fsys s) i) + 1\<rparr>)"
proof -
  define og where "og = (ofiles s)(np := (\<lambda>i. if i < NOFILE \<and> ofiles s p i \<noteq> None then ofiles s p i else ofiles s np i))"
  define s1 where "s1 = st64 (p_trapframe (procs s np) + 112) 0 (move_at (p_trapframe (procs s np)) (p_trapframe (procs s p)) sizeof_trapframe (upd_proc np (inherit (procs s p)) s))"
  have s1: "s1 = s\<lparr>ram := child_regs (p_trapframe (procs s np)) (p_trapframe (procs s p)) (ram s), procs := (procs s)(np := inherit (procs s p) (procs s np))\<rparr>"
    by (simp add: s1_def st64_def move_at_def upd_proc_def child_regs_def)
  have tf: "p_trapframe (inherit q x) = p_trapframe x" "p_pid (inherit q x) = p_pid x" for q x by (simp_all add: inherit_def)
  have o1: "ofiles s1 = ofiles s" "fsys s1 = fsys s" by (simp_all add: s1)
  have in1: "j \<in> set [0..<NOFILE] \<longleftrightarrow> j < NOFILE" for j by simp
  have l1: "L_ftable \<notin> held s1" using h by (simp add: s1)
  have r1: "1 \<le> f_ref (the_file s1 f)" if "j \<in> set [0..<NOFILE]" "ofiles s1 p j = Some f" for j f using rf [of j f] that by (simp add: s1 the_file_def)
  obtain F where F: "dup_files p np [0..<NOFILE] s1 = Some (s1\<lparr>fsbox := Box F, ofiles := og\<rparr>)"
    "itable F = itable (fsys s)" "ftable F = (\<lambda>f. (ftable (fsys s) f)\<lparr>f_ref := f_ref (ftable (fsys s) f) + int (fds_on (ofiles s p) [0..<NOFILE] f)\<rparr>)"
    using dup_files_spec [OF l1 ne, of "[0..<NOFILE]"] r1 unfolding o1 in1 og_def by blast
  define s2 where "s2 = s1\<lparr>fsbox := Box F, ofiles := og, fdflags := (fdflags s)(np := fdflags s p)\<rparr>"
  have i2: "L_itable \<notin> held s2" using h by (simp add: s2_def s1)
  have f2: "fsys s2 = F" by (simp add: s2_def)
  obtain G where G: "on_files p (idup i) s2 = Some (i, s2\<lparr>fsbox := Box G\<rparr>)" "ftable G = ftable F" "itable G = (itable F)(i := (itable F i)\<lparr>i_ref := i_ref (itable F i) + 1\<rparr>)"
    using idup_sys [OF i2, of p i] unfolding f2 by blast
  have fd: "fdflags s1 = fdflags s" "cwds s1 = cwds s" by (simp_all add: s1)
  define s3 where "s3 = s2\<lparr>fsbox := Box G, cwds := (cwds s)(np := Some i)\<rparr>"
  have c2: "cwds s2 p = Some i" "cwds s2 = cwds s" using cw by (simp_all add: s2_def fd)
  have "fork_finish p np s = (let s = s3; s = upd_proc np (\<lambda>q. q\<lparr>p_signal := p_signal (procs s p)\<rparr>) s; s = set_name np (names s p) s; pid = p_pid (procs s np) in do {
     s \<leftarrow> k_release (L_proc np) s;
     s \<leftarrow> k_acquire L_wait s;
     let s = upd_proc np (\<lambda>q. q\<lparr>p_parent := Some p\<rparr>) s;
     s \<leftarrow> k_release L_wait s;
     s \<leftarrow> k_acquire (L_proc np) s;
     let s = upd_proc np (\<lambda>q. q\<lparr>p_state := RUNNABLE\<rparr>) s;
     s \<leftarrow> k_release (L_proc np) s;
     Some (sint pid, s)
   })"
  proof -
    have "upd_proc np (inherit (procs s p)) s = s\<lparr>procs := (procs s)(np := inherit (procs s p) (procs s np))\<rparr>" by (simp add: upd_proc_def)
    then have e1: "st64 (p_trapframe (procs (upd_proc np (inherit (procs s p)) s) np) + 112) 0 (move_at (p_trapframe (procs (upd_proc np (inherit (procs s p)) s) np)) (p_trapframe (procs (upd_proc np (inherit (procs s p)) s) p)) sizeof_trapframe (upd_proc np (inherit (procs s p)) s)) = s1"
      using ne by (simp add: s1_def tf)
    have e2: "p_trapframe (procs (move_at a b c (upd_proc np (inherit (procs s p)) s)) np) = p_trapframe (procs (upd_proc np (inherit (procs s p)) s) np)" for a b c by (simp add: move_at_def)
    show ?thesis unfolding fork_finish_def Let_def e2 e1 using F(1) G(1) c2 by (simp add: s2_def [symmetric] s3_def fd)
  qed
  also have "\<dots> = Some (sint (p_pid (procs s np)), s3\<lparr>held := {}, procs := (procs s)(np := forked p (procs s p) (procs s np)), names := names (set_name np (names s p) s)\<rparr>)"
    using h ne by (simp add: s3_def s2_def s1 lock_simps upd_proc_def set_name_def forked_def tf Let_def)
  finally show ?thesis
    by (intro exI [of _ G] exI [of _ "names (set_name np (names s p) s)"]) (simp add: s3_def s2_def s1 F G og_def)
qed

text \<open>
  What \<^verbatim>\<open>fork\<close> needs: the parent runs and holds no lock, its pages and its trap frame are in use, it has a
  working directory and no mapped regions, its descriptors refer to files in use, there are a free entry
  in the table and memory for a copy, and free entries have no descriptors.
\<close>

definition fork_ready :: "nat \<Rightarrow> 'c sys \<Rightarrow> bool" where
  "fork_ready p s \<longleftrightarrow> curproc s = Some p \<and> held s = {} \<and> state_of s p \<noteq> UNUSED \<and> (\<exists>q < NPROC. state_of s q = UNUSED) \<and>
     (let r = p_pagetable (procs s p) in pt_ok r s \<and> (\<forall>v. present r s v \<longrightarrow> pa_of (vmap (ram s) r v) \<in> live_pages s) \<and>
        3 * Finite_Set.card {v. present r s v} + 6 \<le> mem_free s) \<and>
     unat (p_trapframe (procs s p)) \<in> live_pages s \<and> p_regions (procs s p) = [] \<and> cwds s p \<noteq> None \<and>
     (\<forall>i < NOFILE. \<forall>f. ofiles s p i = Some f \<longrightarrow> 1 \<le> f_ref (the_file s f)) \<and> (\<forall>q. state_of s q = UNUSED \<longrightarrow> ofiles s q = (\<lambda>_. None))"

lemma keep_table:
  assumes ok: "pt_ok r s" and g: "mem_grows c s s'"
  shows "pt_ok r s'" "node_adr (ram s') r = node_adr (ram s) r" "vmap (ram s') r = vmap (ram s) r"
proof -
  have k: "ram s' (unat a + x) = ram s (unat a + x)" if "node_adr (ram s) r n = Some a" "x < 4096" for n a x
    using g pt_okD [OF ok that(1)] that(2) unfolding mem_grows_def by blast
  show n: "node_adr (ram s') r = node_adr (ram s) r" and "vmap (ram s') r = vmap (ram s) r" using vmap_cong [of "ram s" r "ram s'"] k by blast+
  show "pt_ok r s'" using ok g unfolding pt_ok_def tree_ok_def n mem_grows_def by blast
qed

lemma fork_forkable:
  assumes ok: "pt_ok r s" and pg: "\<And>v. present r s v \<Longrightarrow> pa_of (vmap (ram s) r v) \<in> live_pages s" and fr: "3 * Finite_Set.card {v. present r s v} + 6 \<le> mem_free s"
    and g: "mem_grows 6 s s'" and q: "pt_ok q s'" "fresh_tables q s s'" "\<forall>v < 2 ^ 26 - 2. vmap (ram s') q v = 0"
  shows "forkable r q s'" "present r s' = present r s"
proof -
  note K = keep_table [OF ok g]
  show pr: "present r s' = present r s" by (simp add: present_def fun_eq_iff K(3))
  have nt: "\<not> is_table (ram s') q a" if "a \<in> live_pages s" for a using q(2) that unfolding fresh_tables_def is_table_def by blast
  have "apart_tables r q s'" unfolding apart_tables_def K(2) using nt pt_okD [OF ok] by blast
  moreover have "3 * Finite_Set.card {v. present r s' v} \<le> mem_free s'" using fr g unfolding pr mem_grows_def by linarith
  moreover have "v < 2 ^ 26 - 2" if "present r s v" for v using that by (simp add: present_def USER_PAGES_def)
  moreover have "live_pages s \<subseteq> live_pages s'" using g by (simp add: mem_grows_def)
  ultimately show "forkable r q s'" unfolding forkable_def using K(1) q(1,3) pg nt unfolding pr K(3) by auto
qed

text \<open>The trap frame of the child: all registers of the parent but \<^verbatim>\<open>a0\<close>, which is 0.\<close>

lemma child_regs_spec:
  assumes "unat tf < 2 ^ 32"
  shows "x < 288 \<Longrightarrow> \<not> (112 \<le> x \<and> x < 120) \<Longrightarrow> child_regs tf ptf m (unat tf + x) = m (unat ptf + x)" "get64 (child_regs tf ptf m) (unat tf + 112) = 0"
    "y < unat tf \<or> unat tf + 288 \<le> y \<Longrightarrow> child_regs tf ptf m y = m y"
proof -
  have u: "unat (tf + 112) = unat tf + 112" using assms by (simp add: unat_word_ariths)
  have z: "unat sizeof_trapframe = 288" by (simp add: sizeof_trapframe_def)
  show "x < 288 \<Longrightarrow> \<not> (112 \<le> x \<and> x < 120) \<Longrightarrow> child_regs tf ptf m (unat tf + x) = m (unat ptf + x)"
    unfolding child_regs_def u z by (auto simp: memmove_eq put64_def put_le_def)
  show "get64 (child_regs tf ptf m) (unat tf + 112) = 0" unfolding child_regs_def u by simp
  show "y < unat tf \<or> unat tf + 288 \<le> y \<Longrightarrow> child_regs tf ptf m y = m y" unfolding child_regs_def u z by (auto simp: memmove_eq put64_def put_le_def)
qed

text \<open>The state after \<^verbatim>\<open>allocproc\<close>, \<^verbatim>\<open>copy_mmap_regions\<close> and \<^verbatim>\<open>uvmcopy\<close>.\<close>

lemma fork_run:
  assumes rd: "fork_ready p s" and r: "r = p_pagetable (procs s p)"
  shows "\<exists>np tf c s1 s3. allocproc M tramp s = Some (Some np, s1) \<and> np < NPROC \<and> np \<noteq> p \<and> state_of s np = UNUSED \<and> mem_grows 6 s s1 \<and> forkable r c s1 \<and> present r s1 = present r s \<and>
    unat tf \<notin> live_pages s \<and> unat tf \<in> live_pages s1 \<and> \<not> is_table (ram s1) c (unat tf) \<and> fresh_tables c s s1 \<and> copied [] r c s1 (2 ^ 26) s3 \<and>
    s3 = s\<lparr>held := {L_proc np}, nextpid := nextpid s + 1, procs := (procs s)(np := new_proc (nextpid s) tf c (procs s np)), pages := pages s3, free_lists := free_lists s3, ram := ram s3\<rparr> \<and>
    fork M tramp s = fork_finish p np s3"
proof -
  note R = rd [unfolded fork_ready_def Let_def, folded r]
  obtain q where q: "q < NPROC" "state_of s q = UNUSED" using R by blast
  have h: "L_proc x \<notin> held s" "L_pid \<notin> held s" for x using R by auto
  have vo: "vm_ok s" "6 \<le> mem_free s" using R by (auto simp: pt_ok_def)
  obtain np tf c s1 where a: "allocproc M tramp s = Some (Some np, s1)" "np < NPROC" "state_of s np = UNUSED"
    "unat tf \<notin> live_pages s" "unat tf \<in> live_pages s1" "pt_ok c s1" "fresh_tables c s s1" "\<not> is_table (ram s1) c (unat tf)" "\<forall>v < 2 ^ 26 - 2. vmap (ram s1) c v = 0" "mem_grows 6 s s1"
    "s1 = s\<lparr>held := insert (L_proc np) (held s), nextpid := nextpid s + 1, procs := (procs s)(np := new_proc (nextpid s) tf c (procs s np)), pages := pages s1, free_lists := free_lists s1, ram := ram s1\<rparr>"
    using allocproc_spec [OF h vo q, of M tramp] by (elim exE conjE) (rule that)
  have ne: "np \<noteq> p" using a(3) R by auto
  have fk: "forkable r c s1" "present r s1 = present r s" by (rule fork_forkable [OF _ _ _ a(10,6,7,9)]; use R in blast)+
  have pr: "procs s1 = (procs s)(np := new_proc (nextpid s) tf c (procs s np))" by (subst a(11)) simp
  obtain s3 where s3: "copy_top [] c r [0..<256] s1 = Some (None, s3)" "copied [] r c s1 (2 ^ 26) s3" using copy_top_copies [OF fk(1), of "[]"] by blast
  have e3: "s3 = s1\<lparr>pages := pages s3, free_lists := free_lists s3, ram := ram s3\<rparr>" using s3(2) unfolding copied_def fork_frame_def by blast
  have rec: "s3 = s\<lparr>held := {L_proc np}, nextpid := nextpid s + 1, procs := (procs s)(np := new_proc (nextpid s) tf c (procs s np)), pages := pages s3, free_lists := free_lists s3, ram := ram s3\<rparr>"
    by (subst e3, subst a(11)) (use R in simp)
  have "p_regions (procs s1 np) = []" "p_regions (procs s1 p) = []" "p_pagetable (procs s1 p) = r" "p_pagetable (procs s1 np) = c" using R ne r by (simp_all add: pr new_proc_def)
  moreover from this have "upd_proc np (\<lambda>q. q\<lparr>p_regions := []\<rparr>) s1 = s1" by (simp add: upd_proc_def fun_upd_idem)
  ultimately have "copy_mmap_regions p np s1 = Some (0, s1)" "uvmcopy p np s1 = Some (0, s3)" using s3(1) by (simp_all add: copy_mmap_regions_def uvmcopy_def)
  then have "fork M tramp s = fork_finish p np s3" using R a(1) by (simp add: fork_def)
  then show ?thesis using a(1,2,3,4,5,7,8,10) ne fk s3(2) rec by blast
qed

text \<open>What the last part of \<^verbatim>\<open>fork\<close> does to memory, on top of the copied address space.\<close>

lemma fork_memory:
  assumes ok: "pt_ok r s" and g: "mem_grows 6 s s1" and pg: "\<And>v. present r s v \<Longrightarrow> pa_of (vmap (ram s) r v) \<in> live_pages s" and c: "copied [] r c s1 (2 ^ 26) s3"
    and tf: "unat tf \<notin> live_pages s" "unat tf \<in> live_pages s1" "\<not> is_table (ram s1) c (unat tf)" and ptf: "unat ptf \<in> live_pages s" and fr: "fresh_tables c s s1" and m: "m = child_regs tf ptf (ram s3)"
  shows "vmap m r = vmap (ram s) r" "present r s v \<Longrightarrow> vmap m c v = mapped_pte (PTE2PA (vmap m c v)) (PTE_FLAGS (vmap (ram s) r v)) \<and>
      pa_of (vmap m c v) \<notin> live_pages s \<and> (\<forall>x < 4096. m (pa_of (vmap m c v) + x) = ram s (pa_of (vmap (ram s) r v) + x))"
    "a \<in> live_pages s \<Longrightarrow> x < 4096 \<Longrightarrow> m (a + x) = ram s (a + x)" "x < 288 \<Longrightarrow> \<not> (112 \<le> x \<and> x < 120) \<Longrightarrow> m (unat tf + x) = ram s (unat ptf + x)" "get64 m (unat tf + 112) = 0"
    "inj_on (\<lambda>v. pa_of (vmap m c v)) {v. present r s v}"
proof -
  have ff: "fork_frame r c s1 s3" using c by (simp add: copied_def)
  note F = fork_frameD [OF ff] and K = keep_table [OF ok g]
  have l: "live_pages s \<subseteq> live_pages s1" "live_pages s1 \<subseteq> live_pages s3" using g F(6) by (auto simp: mem_grows_def)
  have t3: "unat tf \<in> live_pages s3" using tf(2) l by blast
  have t32: "unat tf < 2 ^ 32" using live_page(1) [OF t3] .
  note C = child_regs_spec [OF t32, where ptf = ptf and m = "ram s3", folded m]
  have out: "m (a + x) = ram s3 (a + x)" if "a \<in> live_pages s3" "a \<noteq> unat tf" "x < 4096" for a x
  proof -
    have "a + 4096 \<le> unat tf \<or> unat tf + 4096 \<le> a" using live_apart [OF that(1) t3 that(2)] .
    then have "a + x < unat tf \<or> unat tf + 288 \<le> a + x" using that(3) by linarith
    then show ?thesis by (rule C(3))
  qed
  have old: "m (a + x) = ram s (a + x)" if "a \<in> live_pages s" "x < 4096" for a x
  proof -
    have "a \<in> live_pages s3" "a \<noteq> unat tf" "a \<in> live_pages s1" "\<not> is_table (ram s1) c a" using that(1) tf(1) l fr unfolding fresh_tables_def is_table_def by auto
    then show ?thesis using out [of a x] F(8) [of a x] that g unfolding mem_grows_def by auto
  qed
  show "a \<in> live_pages s \<Longrightarrow> x < 4096 \<Longrightarrow> m (a + x) = ram s (a + x)" for a x by (rule old)
  show "vmap m r = vmap (ram s) r" using vmap_cong(2) [of "ram s" r m] old pt_okD [OF ok] by blast
  have vc: "vmap m c = vmap (ram s3) c"
  proof (rule vmap_cong(2))
    fix n and a :: u64 and x :: nat assume a: "node_adr (ram s3) c n = Some a" "x < 4096"
    have "\<not> is_table (ram s3) c (unat tf)" by (rule F(7) [OF tf(2,3)])
    then have "unat a \<noteq> unat tf" using a(1) unfolding is_table_def by metis
    then show "m (unat a + x) = ram s3 (unat a + x)" using out pt_okD [OF F(2) a(1)] a(2) by blast
  qed
  have pr: "present r s1 = present r s" by (simp add: present_def fun_eq_iff K(3))
  have ns: "\<not> shared_page [] a" for a by (simp add: shared_page_def)
  have page: "page_copied [] r c s1 v s3" if "present r s v" for v
  proof -
    have "v < 2 ^ 26" using that by (simp add: present_def USER_PAGES_def)
    then show ?thesis using c that unfolding copied_def pr by blast
  qed
  show "present r s v \<Longrightarrow> vmap m c v = mapped_pte (PTE2PA (vmap m c v)) (PTE_FLAGS (vmap (ram s) r v)) \<and>
      pa_of (vmap m c v) \<notin> live_pages s \<and> (\<forall>x < 4096. m (pa_of (vmap m c v) + x) = ram s (pa_of (vmap (ram s) r v) + x))"
  proof -
    assume v: "present r s v"
    note P = page [OF v, unfolded page_copied_def Let_def if_not_P [OF ns] K(3), folded vc]
    have "pa_of (vmap m c v) \<noteq> unat tf" using P tf(2) by metis
    then have "m (pa_of (vmap m c v) + x) = ram s (pa_of (vmap (ram s) r v) + x)" if "x < 4096" for x
      using out [of "pa_of (vmap m c v)" x] P g pg [OF v] that unfolding mem_grows_def by simp
    then show ?thesis using P l(1) by blast
  qed
  show "x < 288 \<Longrightarrow> \<not> (112 \<le> x \<and> x < 120) \<Longrightarrow> m (unat tf + x) = ram s (unat ptf + x)" for x
  proof -
    assume x: "x < 288" "\<not> (112 \<le> x \<and> x < 120)"
    have "unat ptf \<in> live_pages s1" "\<not> is_table (ram s1) c (unat ptf)" using ptf l(1) fr unfolding fresh_tables_def is_table_def by (blast, metis)
    then have "ram s3 (unat ptf + x) = ram s1 (unat ptf + x)" using F(8) [of "unat ptf" x] x(1) by simp
    also have "\<dots> = ram s (unat ptf + x)" using g ptf x(1) unfolding mem_grows_def by auto
    finally show ?thesis using C(1) [OF x] by simp
  qed
  show "get64 m (unat tf + 112) = 0" by (rule C(2))
  have "private_pages [] r s1 (2 ^ 26) = {v. present r s v}" unfolding private_pages_def pr using ns by (auto simp: present_def USER_PAGES_def)
  then show "inj_on (\<lambda>v. pa_of (vmap m c v)) {v. present r s v}" unfolding vc using c unfolding copied_def by simp
qed

section \<open>Properties\<close>


lemma mem_fields:
  "held u = {} \<Longrightarrow> pages u = pages s \<Longrightarrow> free_lists u = free_lists s \<Longrightarrow> ram u = ram s \<Longrightarrow> pt_ok r s \<Longrightarrow> pt_ok r u"
  "pages u = pages s \<Longrightarrow> live_pages u = live_pages s" "pages u = pages s \<Longrightarrow> mem_free u = mem_free s" "ram u = ram s \<Longrightarrow> present r u = present r s"
  by (simp_all add: pt_ok_def vm_ok_def buddy_inv_def live_pages_def mem_free_def present_def [abs_def])

text \<open>A process with one page and one open file.\<close>

lemma forking_process:
  obtains r and s :: "unit sys" where "fork_ready 0 s" "p_pagetable (procs s 0) = r" "present r s 3" "cwds s 0 = Some 7" "ofiles s 0 = (\<lambda>i. if i = 2 then Some 5 else None)" "nextpid s = 9" "f_ref (the_file s 5) = 1"
proof -
  have f: "only_flags (PTE_R OR PTE_U)" by (intro only_flagsI only_flags_V)
  have b: "bit (PTE_R OR PTE_U) 4" by (simp add: PTE_U_def bit_or_iff)
  obtain r and v :: vm and p where v: "pt_ok r v" "readable r v 3" "pa_of (vmap (ram v) r 3) = p" "60000 \<le> mem_free v" "\<And>w. w < 2 ^ 26 \<Longrightarrow> w \<noteq> 3 \<Longrightarrow> vmap (ram v) r w = 0" "p < 2 ^ 32"
    by (rule user_page [OF f b]) blast
  obtain s :: "unit sys" where s: "curproc s = Some 0" "held s = {}" "pages s = pages v" "free_lists s = free_lists v" "ram s = ram v"
    "state_of s 0 = RUNNING" "\<And>q. q \<noteq> 0 \<Longrightarrow> state_of s q = UNUSED" "p_pagetable (procs s 0) = r" "p_trapframe (procs s 0) = of_nat p" "p_regions (procs s 0) = []"
    "cwds s 0 = Some 7" "ofiles s = (\<lambda>q i. if q = 0 \<and> i = 2 then Some 5 else None)" "nextpid s = 9" "f_ref (the_file s 5) = 1"
  proof
    fix t :: "unit sys" and x :: proc and F :: "unit files" and k :: kfile
    let ?t = "t\<lparr>curproc := Some 0, held := {}, pages := pages v, free_lists := free_lists v, ram := ram v, nextpid := 9,
      procs := \<lambda>i. x\<lparr>p_state := if i = 0 then RUNNING else UNUSED, p_pagetable := r, p_trapframe := of_nat p, p_regions := []\<rparr>,
      cwds := \<lambda>_. Some 7, ofiles := \<lambda>q i. if q = 0 \<and> i = 2 then Some 5 else None, fsbox := Box (F\<lparr>ftable := \<lambda>_. k\<lparr>f_ref := 1\<rparr>\<rparr>)\<rparr>"
    show "curproc ?t = Some 0" "held ?t = {}" "pages ?t = pages v" "free_lists ?t = free_lists v" "ram ?t = ram v" "state_of ?t 0 = RUNNING" "\<And>q. q \<noteq> 0 \<Longrightarrow> state_of ?t q = UNUSED"
      "p_pagetable (procs ?t 0) = r" "p_trapframe (procs ?t 0) = of_nat p" "p_regions (procs ?t 0) = []" "cwds ?t 0 = Some 7"
      "ofiles ?t = (\<lambda>q i. if q = 0 \<and> i = 2 then Some 5 else None)" "nextpid ?t = 9" "f_ref (the_file ?t 5) = 1" by (simp_all add: the_file_def)
  qed
  note m = mem_fields(1) [OF s(2-5)] mem_fields(2,3) [OF s(3)] mem_fields(4) [OF s(5)]
  have pr: "present r v w \<longleftrightarrow> w = 3" for w
  proof
    show "w = 3 \<Longrightarrow> present r v w" using v(2) by (simp add: present_def USER_PAGES_def readable_def)
    show "present r v w \<Longrightarrow> w = 3" using v(5) [of w] by (cases "w = 3") (auto simp: present_def USER_PAGES_def)
  qed
  have lp: "p \<in> live_pages v" using v(2,3) by (simp add: readable_def)
  have up: "unat (of_nat p :: u64) = p" using v(6) by (intro unat_of_nat_less) simp
  have un: "\<exists>q < NPROC. state_of s q = UNUSED" using s(7) [of 1] by (intro exI [of _ 1]) (simp add: NPROC_def)
  have "pt_ok r s" using m(1) v(1) by blast
  moreover have "\<forall>w. present r s w \<longrightarrow> pa_of (vmap (ram s) r w) \<in> live_pages s" unfolding m(2,4) s(5) pr using v(3) lp by simp
  moreover have "3 * Finite_Set.card {w. present r s w} + 6 \<le> mem_free s" unfolding m(3,4) pr using v(4) by simp
  moreover have "state_of s 0 \<noteq> UNUSED" using s(6) by simp
  moreover have "unat (p_trapframe (procs s 0)) \<in> live_pages s" unfolding s(9) up m(2) by (rule lp)
  moreover have "\<forall>i < NOFILE. \<forall>f. ofiles s 0 i = Some f \<longrightarrow> 1 \<le> f_ref (the_file s f)" using s(14) by (simp add: s(12))
  moreover have "\<forall>q. state_of s q = UNUSED \<longrightarrow> ofiles s q = (\<lambda>_. None)"
  proof (intro allI impI)
    fix q assume "state_of s q = UNUSED"
    then have "q \<noteq> 0" using s(6) by (metis calculation(4) s(6))
    then show "ofiles s q = (\<lambda>_. None)" by (simp add: s(12))
  qed
  ultimately have "fork_ready 0 s" unfolding fork_ready_def Let_def s(8) using s(1,2,10,11) un by simp
  then show ?thesis using that [of s r] s(8,11-14) pr m(4) by simp
qed


end
