(* ===== verification/Printf.thy ===== *)
theory Printf
  imports Console
begin

text \<open>
  Formatted output, \<^verbatim>\<open>kernel/printf.c\<close>. The format is the bytes of the string before its terminating zero;
  arguments are the 64-bit slots in which RISC-V passes them, and a conversion with no argument left has no
  result. Strings are addresses in memory. The digits of a number go to a buffer of 100 bytes; writing behind it has no
  result either.
\<close>

unbundle bit_operations_syntax

section \<open>Numbers and strings\<close>

definition putchar :: "u8 \<Rightarrow> cons \<Rightarrow> cons" where
  "putchar c k = consputc (Some c) k"

partial_function (option) string_print :: "memory \<Rightarrow> nat \<Rightarrow> int \<Rightarrow> cons \<Rightarrow> (int \<times> cons) option" where
  "string_print m str count k =
     (if m str \<noteq> 0 then string_print m (str + 1) (count + 1) (putchar (m str) k) else Some (count, k))"

definition digit :: "u32 \<Rightarrow> u8" where
  "digit rem = (if rem < 10 then 48 + ucast rem else 97 + (ucast rem - 10))"

definition NUM_BUF :: nat where "NUM_BUF = 100"

text \<open>\<open>buf\<close> is the used part of \<^verbatim>\<open>num_buf\<close>; its length is \<^verbatim>\<open>i\<close>.\<close>

definition buf_put :: "u8 \<Rightarrow> u8 list \<Rightarrow> u8 list option" where
  "buf_put c buf = (if length buf < NUM_BUF then Some (buf @ [c]) else None)"

partial_function (option) num_loop :: "u64 \<Rightarrow> u32 \<Rightarrow> u8 list \<Rightarrow> int \<Rightarrow> (u8 list \<times> int) option" where
  "num_loop unum radix buf bc = do {
     buf \<leftarrow> buf_put (digit (ucast (unum mod ucast radix))) buf;
     (buf, bc) \<leftarrow> (if radix = 2 \<and> bc mod 4 = 0 \<and> bc \<noteq> 0 then do { buf \<leftarrow> buf_put 95 buf; Some (buf, bc + 1) } else Some (buf, bc));
     let unum = unum div ucast radix;
     if 0 < unum then num_loop unum radix buf bc else Some (buf, bc)
   }"

text \<open>The two padding loops: for binary numbers the bound is \<^verbatim>\<open>bc\<close>, for others the number of digits.\<close>

function pad_binary :: "int \<Rightarrow> u8 \<Rightarrow> int \<Rightarrow> int \<Rightarrow> cons \<Rightarrow> int \<times> cons" where
  "pad_binary bc padc padn count k =
     (if bc < padn then
        let k = putchar padc k; padn = padn - 1 in
        pad_binary bc padc padn (count + 1) (if padn mod 4 = 0 then putchar 95 k else k)
      else (count, k))"
  by pat_completeness auto
termination by (relation "measure (\<lambda>(bc, padc, padn, count, k). nat (padn - bc))") auto

declare pad_binary.simps [simp del]

function pad_number :: "int \<Rightarrow> u8 \<Rightarrow> int \<Rightarrow> int \<Rightarrow> cons \<Rightarrow> int \<times> cons" where
  "pad_number i padc padn count k =
     (if i < padn then pad_number i padc (padn - 1) (count + 1) (putchar padc k) else (count, k))"
  by pat_completeness auto
termination by (relation "measure (\<lambda>(i, padc, padn, count, k). nat (padn - i))") auto

declare pad_number.simps [simp del]

primrec put_all :: "u8 list \<Rightarrow> int \<Rightarrow> cons \<Rightarrow> int \<times> cons" where
  "put_all [] count k = (count, k)"
| "put_all (c # cs) count k = put_all cs (count + 1) (putchar c k)"

definition unsigned_num_print :: "u64 \<Rightarrow> u32 \<Rightarrow> u8 \<Rightarrow> int \<Rightarrow> cons \<Rightarrow> (int \<times> cons) option" where
  "unsigned_num_print unum radix padc padn k = do {
     (buf, bc) \<leftarrow> num_loop unum radix [] 0;
     let (count, k) = (if 0 < padn then
                         if radix = 2 then pad_binary bc padc padn 0 k else pad_number (int (length buf)) padc padn 0 k
                       else (0, k));
     Some (put_all (rev buf) count k)
   }"

section \<open>Formats\<close>

text \<open>\<^verbatim>\<open>get_num_va_args\<close> and \<^verbatim>\<open>get_unum_va_args\<close>: without a length specifier the argument has 32 bits.\<close>

definition get_num_va_args :: "u64 \<Rightarrow> nat \<Rightarrow> u64" where
  "get_num_va_args a l_count = (if 1 \<le> l_count then a else scast (ucast a :: u32))"

definition get_unum_va_args :: "u64 \<Rightarrow> nat \<Rightarrow> u64" where
  "get_unum_va_args a l_count = (if 1 \<le> l_count then a else ucast (ucast a :: u32))"

definition print_signed :: "u64 \<Rightarrow> u8 \<Rightarrow> int \<Rightarrow> cons \<Rightarrow> (int \<times> cons) option" where
  "print_signed num padc padn k =
     (if num <s 0 then unsigned_num_print (- num) 10 padc (padn - 1) (putchar 45 k)
      else unsigned_num_print num 10 padc padn k)"

definition print_pointer :: "u64 \<Rightarrow> u8 \<Rightarrow> int \<Rightarrow> cons \<Rightarrow> (int \<times> cons) option" where
  "print_pointer unum padc padn k =
     (if 0 < unum then do {
        (n, k) \<leftarrow> unsigned_num_print unum 16 padc (padn - 2) (putchar 120 (putchar 48 k));
        Some (2 + n, k)
      } else unsigned_num_print unum 16 padc padn k)"

fun pad_width :: "u8 list \<Rightarrow> int \<Rightarrow> int \<times> u8 list" where
  "pad_width [] padn = (padn, [])"
| "pad_width (ch # fmt) padn = (if ch < 48 \<or> 57 < ch then (padn, ch # fmt) else pad_width fmt (padn * 10 + (uint ch - 48)))"

lemma pad_width_length: "length (snd (pad_width fmt n)) \<le> length fmt"
  by (induction fmt n rule: pad_width.induct) auto

text \<open>The conversions that print: \<open>None\<close> for a character that is none of them.\<close>

definition convert :: "memory \<Rightarrow> u8 \<Rightarrow> nat \<Rightarrow> u8 \<Rightarrow> int \<Rightarrow> (u64 \<Rightarrow> cons \<Rightarrow> (int \<times> cons) option) option" where
  "convert m c l_count padc padn =
     (if c = 105 \<or> c = 100 then Some (\<lambda>a. print_signed (get_num_va_args a l_count) padc padn)
      else if c = 115 then Some (\<lambda>a. string_print m (unat a) 0)
      else if c = 112 then Some (\<lambda>a. print_pointer a padc padn)
      else if c = 120 then Some (\<lambda>a. unsigned_num_print (get_unum_va_args a l_count) 16 padc padn)
      else if c = 98 then Some (\<lambda>a. unsigned_num_print (get_unum_va_args a l_count) 2 padc padn)
      else if c = 117 then Some (\<lambda>a. unsigned_num_print (get_unum_va_args a l_count) 10 padc padn)
      else None)"

function (sequential) vprintf_loop :: "memory \<Rightarrow> u8 list \<Rightarrow> u64 list \<Rightarrow> u8 \<Rightarrow> int \<Rightarrow> cons \<Rightarrow> (int \<times> cons) option"
  and vprintf_spec :: "memory \<Rightarrow> u8 list \<Rightarrow> nat \<Rightarrow> int \<Rightarrow> u64 list \<Rightarrow> u8 \<Rightarrow> int \<Rightarrow> cons \<Rightarrow> (int \<times> cons) option" where
  "vprintf_loop m [] args padc count k = Some (count, k)"
| "vprintf_loop m (c # fmt) args padc count k =
     (if c = 37 then vprintf_spec m fmt 0 0 args padc count k
      else vprintf_loop m fmt args padc (count + 1) (putchar c k))"
| "vprintf_spec m [] l_count padn args padc count k = Some (-1, k)"
| "vprintf_spec m (c # fmt) l_count padn args padc count k =
     (if c = 37 then vprintf_loop m fmt args padc count (putchar 37 k)
      else if c = 122 then vprintf_spec m fmt 2 padn args padc count k
      else if c = 108 then vprintf_spec m fmt (l_count + 1) padn args padc count k
      else if c = 48 \<or> c = 32 then
        (let (padn, fmt) = pad_width fmt 0 in vprintf_spec m fmt l_count padn args c count k)
      else (case convert m c l_count padc padn of
              None \<Rightarrow> Some (-1, k)
            | Some f \<Rightarrow> (case args of
                [] \<Rightarrow> None
              | a # args \<Rightarrow> do { (n, k) \<leftarrow> f a k; vprintf_loop m fmt args padc (count + n) k })))"
  by pat_completeness auto
termination
  by (relation "measure (\<lambda>x. case x of Inl (m, fmt, _) \<Rightarrow> length fmt | Inr (m, fmt, _) \<Rightarrow> length fmt)")
     (auto simp: less_Suc_eq_le split: prod.splits intro: order_trans [OF _ pad_width_length] dest!: arg_cong [of _ _ snd])

definition vprintf :: "memory \<Rightarrow> u8 list \<Rightarrow> u64 list \<Rightarrow> cons \<Rightarrow> (int \<times> cons) option" where
  "vprintf m fmt args k = vprintf_loop m fmt args 0 0 k"

section \<open>printf and panic\<close>

record printer = kstate +
  pr_locking :: bool
  pr_con :: cons
  panicked :: bool

definition bytes_of :: "string \<Rightarrow> u8 list" where
  "bytes_of str = map (\<lambda>c. of_nat (of_char c)) str"

definition printf :: "memory \<Rightarrow> u8 list \<Rightarrow> u64 list \<Rightarrow> printer \<Rightarrow> (int \<times> printer) option" where
  "printf m fmt args s = do {
     let locking = pr_locking s;
     s \<leftarrow> (if locking then k_acquire L_pr s else Some s);
     (count, k) \<leftarrow> vprintf m fmt args (pr_con s);
     let s = s\<lparr>pr_con := k\<rparr>;
     s \<leftarrow> (if locking then k_release L_pr s else Some s);
     Some (count, s)
   }"

text \<open>The state in which \<^verbatim>\<open>panic\<close> loops forever; the message is itself a format.\<close>

definition panic :: "memory \<Rightarrow> u8 list \<Rightarrow> printer \<Rightarrow> printer option" where
  "panic m msg s = do {
     let s = s\<lparr>pr_locking := False\<rparr>;
     (_, s) \<leftarrow> printf m (bytes_of ''panic: '') [] s;
     (_, s) \<leftarrow> printf m msg [] s;
     (_, s) \<leftarrow> printf m [10] [] s;
     Some (s\<lparr>panicked := True\<rparr>)
   }"

definition printfinit :: "printer \<Rightarrow> printer" where
  "printfinit s = s\<lparr>pr_locking := True\<rparr>"

text \<open>A dump of memory: lines of 16 bytes in groups of two behind the address.\<close>

primrec debug_line :: "memory \<Rightarrow> nat \<Rightarrow> nat \<Rightarrow> u64 \<Rightarrow> nat list \<Rightarrow> printer \<Rightarrow> printer option" where
  "debug_line m buf i byte [] s = Some s"
| "debug_line m buf i byte (j # js) s = do {
     (_, s) \<leftarrow> (if j = 0 then printf m (bytes_of ''%016x:'') [of_nat buf + byte] s else Some (0, s));
     (_, s) \<leftarrow> printf m (bytes_of (if j mod 2 \<noteq> 0 then ''%02x'' else '' %02x'')) [ucast (m (buf + (i * 16 + j)))] s;
     debug_line m buf i byte js s
   }"

primrec debug_lines :: "memory \<Rightarrow> nat \<Rightarrow> u64 \<Rightarrow> nat list \<Rightarrow> printer \<Rightarrow> printer option" where
  "debug_lines m buf byte [] s = Some s"
| "debug_lines m buf byte (i # is) s = do {
     s \<leftarrow> debug_line m buf i byte [0..<16] s;
     (_, s) \<leftarrow> printf m [10] [] s;
     debug_lines m buf (byte + 16) is s
   }"

definition debug_bytes :: "memory \<Rightarrow> nat \<Rightarrow> nat \<Rightarrow> nat \<Rightarrow> printer \<Rightarrow> printer option" where
  "debug_bytes m title buf sz s = do {
     let lines = (if sz mod 16 = 0 then sz div 16 + 1 - 1 else sz div 16 + 1);
     (_, s) \<leftarrow> printf m (bytes_of ''%s'' @ [10]) [of_nat title] s;
     debug_lines m buf 0 [0..<lines] s
   }"

section \<open>What is printed\<close>

text \<open>The digits of a number, the last one first, and the value of a numeral.\<close>

lemma div_smaller: "2 \<le> r \<Longrightarrow> n div r \<noteq> 0 \<Longrightarrow> n div r < (n :: nat)"
  by (metis div_0 div_less_dividend gr0I one_less_numeral_iff semiring_norm(76) less_le_trans)

function digits :: "nat \<Rightarrow> nat \<Rightarrow> u8 list" where
  "digits r n = digit (of_nat (n mod r)) # (if r < 2 \<or> n div r = 0 then [] else digits r (n div r))"
  by pat_completeness auto
termination by (relation "measure snd") (auto simp: div_smaller)

declare digits.simps [simp del]

definition digit_value :: "u8 \<Rightarrow> nat" where
  "digit_value c = (if c < 58 then unat c - 48 else unat c - 87)"

definition num_value :: "nat \<Rightarrow> u8 list \<Rightarrow> nat" where
  "num_value r ds = foldl (\<lambda>v c. v * r + digit_value c) 0 ds"

definition int_value :: "nat \<Rightarrow> u8 list \<Rightarrow> int" where
  "int_value r ds = (case ds of c # cs \<Rightarrow> if c = 45 then - int (num_value r cs) else int (num_value r ds) | [] \<Rightarrow> 0)"

lemma digit_value_digit: "n < 16 \<Longrightarrow> digit_value (digit (of_nat n)) = n"
proof -
  assume "n < 16"
  then have "n \<in> set [0..<16]" by simp
  moreover have "\<forall>n \<in> set [0..<16]. digit_value (digit (of_nat n)) = n" by code_simp
  ultimately show ?thesis by blast
qed

lemma digit_not: "n < 16 \<Longrightarrow> digit (of_nat n) \<noteq> NL \<and> digit (of_nat n) \<noteq> 45"
proof -
  assume "n < 16"
  then have "n \<in> set [0..<16]" by simp
  moreover have "\<forall>n \<in> set [0..<16]. digit (of_nat n) \<noteq> NL \<and> digit (of_nat n) \<noteq> 45" by code_simp
  ultimately show ?thesis by blast
qed

lemma digits_neq_Nil [simp]: "digits r n \<noteq> []"
  by (subst digits.simps) simp

lemma digits_length: "2 \<le> r \<Longrightarrow> n < 2 ^ m \<Longrightarrow> 0 < m \<Longrightarrow> length (digits r n) \<le> m"
proof (induction m arbitrary: n)
  case (Suc m)
  have d: "n div r < 2 ^ m" if "0 < m \<or> n div r \<noteq> 0"
  proof -
    have "n div r \<le> n div 2" using Suc.prems(1) by (intro div_le_mono2) auto
    moreover have "n div 2 < 2 ^ m" using Suc.prems(2) by (simp add: less_mult_imp_div_less mult.commute)
    ultimately show ?thesis by linarith
  qed
  show ?case
  proof (cases "n div r = 0")
    case False
    then have "n div r < 2 ^ m" "0 < m" using d by (auto intro: gr0I)
    then show ?thesis using Suc.IH [OF Suc.prems(1)] by (subst digits.simps) simp
  qed (subst digits.simps, simp)
qed simp

lemma digits_value: "2 \<le> r \<Longrightarrow> r \<le> 16 \<Longrightarrow> num_value r (rev (digits r n)) = n"
proof (induction n rule: less_induct)
  case (less n)
  have m: "n mod r < 16" using less.prems by (metis le_trans mod_less_divisor not_le zero_less_numeral less_le_trans)
  show ?case
  proof (cases "n div r = 0")
    case True
    then have "n mod r = n" using less.prems by (metis add_0 mult_0_right div_mult_mod_eq mult.commute)
    then show ?thesis using True m by (subst digits.simps) (simp add: num_value_def digit_value_digit)
  next
    case False
    then have "n div r < n" using less.prems by (intro div_smaller) auto
    from less.IH [OF this less.prems] show ?thesis using False m less.prems
      by (subst digits.simps) (simp add: num_value_def digit_value_digit)
  qed
qed

lemma digits_clean: "2 \<le> r \<Longrightarrow> r \<le> 16 \<Longrightarrow> c \<in> set (digits r n) \<Longrightarrow> c \<noteq> NL \<and> c \<noteq> 45"
proof (induction n rule: less_induct)
  case (less n)
  have m: "n mod r < 16" using less.prems by (metis le_trans mod_less_divisor not_le zero_less_numeral less_le_trans)
  from less.prems(3) consider "c = digit (of_nat (n mod r))" | "n div r \<noteq> 0" "c \<in> set (digits r (n div r))"
    by (subst (asm) digits.simps) (auto split: if_splits)
  then show ?case
  proof cases
    case 2
    then have "n div r < n" using less.prems 2 by (intro div_smaller) auto
    then show ?thesis using less.IH less.prems(1,2) 2 by blast
  qed (use digit_not [OF m] in simp)
qed

lemma num_loop_digits:
  assumes "2 \<le> r" "r \<le> 16" "length buf + length (digits (unat r) (unat u)) \<le> NUM_BUF"
  shows "num_loop u r buf 0 = Some (buf @ digits (unat r) (unat u), 0)"
  using assms(3)
proof (induction "unat u" arbitrary: u buf rule: less_induct)
  case less
  have r: "2 \<le> unat r" "unat r \<le> 16" using assms(1,2) by (simp_all add: word_le_nat_alt)
  have c: "unat (ucast r :: u64) = unat r" by (rule unat_ucast_up) simp
  have d: "unat (u div ucast r) = unat u div unat r" "unat (u mod ucast r) = unat u mod unat r" by (simp_all add: unat_div c unat_mod)
  have e: "ucast (u mod ucast r) = (of_nat (unat u mod unat r) :: u32)"
    unfolding d(2) [symmetric] by simp
  show ?case
  proof (cases "unat u div unat r = 0")
    case True
    then have "\<not> 0 < u div ucast r" using d(1) by (simp add: word_gt_0 unat_eq_0 [symmetric])
    then show ?thesis using less.prems True r
      by (subst num_loop.simps, subst digits.simps, subst (asm) digits.simps) (simp add: buf_put_def e Let_def)
  next
    case False
    then have g: "0 < u div ucast r" using d(1) by (metis unat_0 word_gt_0)
    have "unat u div unat r < unat u" using False r by (intro div_smaller) auto
    then have l: "unat (u div ucast r) < unat u" using d(1) by simp
    have b: "length (buf @ [digit (of_nat (unat u mod unat r))]) + length (digits (unat r) (unat (u div ucast r))) \<le> NUM_BUF"
      using less.prems False r unfolding d(1) by (subst (asm) digits.simps) simp
    have "length buf < NUM_BUF" using b by simp
    then show ?thesis using less.hyps [OF l b] False r g
      by (subst num_loop.simps, subst digits.simps) (simp add: buf_put_def e Let_def d(1))
  qed
qed

lemma putchar_tx: "c \<noteq> NL \<Longrightarrow> putchar c k = k\<lparr>tx := tx k @ [c]\<rparr>"
  by (simp add: putchar_def consputc_def)

lemma put_all_tx: "(\<And>c. c \<in> set cs \<Longrightarrow> c \<noteq> NL) \<Longrightarrow> put_all cs n k = (n + int (length cs), k\<lparr>tx := tx k @ cs\<rparr>)"
  by (induction cs arbitrary: n k) (auto simp: putchar_tx)

lemma pad_number_tx:
  "c \<noteq> NL \<Longrightarrow> pad_number i c n cnt k = (cnt + int (nat (n - i)), k\<lparr>tx := tx k @ replicate (nat (n - i)) c\<rparr>)"
proof (induction i c n cnt k rule: pad_number.induct)
  case (1 i c n cnt k)
  have "nat (n - i) = Suc (nat (n - 1 - i))" if "i < n" using that by simp
  then show ?case using 1 by (subst pad_number.simps) (simp add: putchar_tx)
qed

lemma unsigned_num_print_spec:
  assumes "r = 10 \<or> r = 16" "c \<noteq> NL"
  shows "\<exists>ds. unsigned_num_print u r c n k = Some (int (length ds) + int (nat (n - int (length ds))),
      k\<lparr>tx := tx k @ replicate (nat (n - int (length ds))) c @ ds\<rparr>) \<and>
    num_value (unat r) ds = unat u \<and> ds \<noteq> [] \<and> length ds \<le> 64 \<and> (\<forall>c \<in> set ds. c \<noteq> 45)"
proof (intro exI conjI)
  let ?d = "digits (unat r) (unat u)"
  have r: "2 \<le> unat r" "unat r \<le> 16" "2 \<le> r" "r \<le> 16" "r \<noteq> 2" using assms(1) by auto
  have len: "length ?d \<le> 64" by (rule digits_length [OF r(1)]) (use unsigned_less [of u] in simp_all)
  have n: "num_loop u r [] 0 = Some (?d, 0)" using num_loop_digits [OF r(3,4), of "[]" u] len by (simp add: NUM_BUF_def)
  show "num_value (unat r) (rev ?d) = unat u" by (rule digits_value [OF r(1,2)])
  show "length (rev ?d) \<le> 64" using len by simp
  show "unsigned_num_print u r c n k = Some (int (length (rev ?d)) + int (nat (n - int (length (rev ?d)))),
      k\<lparr>tx := tx k @ replicate (nat (n - int (length (rev ?d)))) c @ rev ?d\<rparr>)"
  proof -
    have p: "put_all (rev ?d) m k' = (m + int (length ?d), k'\<lparr>tx := tx k' @ rev ?d\<rparr>)" for m k'
      using put_all_tx [of "rev ?d" m k'] digits_clean [OF r(1,2)] by simp
    show ?thesis using r(5) assms(2) by (simp add: unsigned_num_print_def n p pad_number_tx)
  qed
  show "\<forall>c \<in> set (rev ?d). c \<noteq> 45" using digits_clean [OF r(1,2)] by auto
qed simp

lemma sint_uint_nonneg: "0 \<le> sint (w :: 'a::len word) \<Longrightarrow> sint w = uint w"
proof -
  assume n: "0 \<le> sint w"
  have "(2::int) ^ (LENGTH('a) - 1) \<le> 2 ^ LENGTH('a)" by (intro power_increasing) simp_all
  then have "sint w < 2 ^ LENGTH('a)" using sint_lt [of w] by linarith
  then show ?thesis using n by (simp add: uint_sint take_bit_int_eq_self)
qed

lemma print_number_value:
  assumes "c \<noteq> NL"
  shows "\<exists>out. print_signed num c 0 k = Some (int (length out) - (if num <s 0 then 1 else 0), k\<lparr>tx := tx k @ out\<rparr>) \<and> int_value 10 out = sint num"
proof (cases "num <s 0")
  case True
  obtain ds where ds: "unsigned_num_print (- num) 10 c (- 1) (k\<lparr>tx := tx k @ [45]\<rparr>) = Some (int (length ds), k\<lparr>tx := tx k @ [45] @ ds\<rparr>)" "num_value 10 ds = unat (- num)"
    using unsigned_num_print_spec [of 10 c "- num" "-1" "k\<lparr>tx := tx k @ [45]\<rparr>"] assms by (auto simp: nat_0_iff)
  have neg: "sint num < 0" using True by (simp add: word_sless_alt)
  have "int (unat (- num)) = - sint num"
  proof -
    have "uint (- num) = uint (word_of_int (- sint num) :: u64)" by simp
    also have "\<dots> = - sint num" using neg sint_range_size [of num]
      by (subst uint_word_of_int_eq) (simp add: take_bit_eq_mod word_size)
    finally show ?thesis by simp
  qed
  then show ?thesis using True ds
    by (intro exI [of _ "45 # ds"]) (simp add: print_signed_def putchar_tx NL_def int_value_def)
next
  case False
  obtain ds where ds: "unsigned_num_print num 10 c 0 k = Some (int (length ds), k\<lparr>tx := tx k @ ds\<rparr>)" "num_value 10 ds = unat num" "ds \<noteq> []" "\<forall>c \<in> set ds. c \<noteq> 45"
    using unsigned_num_print_spec [of 10 c num 0 k] assms by (auto simp: nat_0_iff)
  have "0 \<le> sint num" using False by (simp add: word_sless_alt)
  then have "int (unat num) = sint num" by (simp add: sint_uint_nonneg)
  then show ?thesis using False ds by (intro exI [of _ ds], cases ds) (simp_all add: print_signed_def int_value_def)
qed

text \<open>
  C38: Numbers are printed so that they can be read back. Whatever the argument, \<^verbatim>\<open>%d\<close> prints a decimal numeral
  with the value of its lower 32 bits as a signed number, the smallest one included, \<^verbatim>\<open>%ld\<close> that of all 64 bits, \<^verbatim>\<open>%lu\<close> the
  unsigned value and \<^verbatim>\<open>%lx\<close> the same in hexadecimal; the digit buffer never overflows. The count returned is
  the number of bytes printed except for a minus sign.
\<close>

theorem printf_reads_back:
  "(\<exists>out. vprintf m (bytes_of ''%d'') [a] k = Some (int (length out) - (if sint (ucast a :: u32) < 0 then 1 else 0), k\<lparr>tx := tx k @ out\<rparr>) \<and>
     int_value 10 out = sint (ucast a :: u32)) \<and>
   (\<exists>out. vprintf m (bytes_of ''%ld'') [a] k = Some (int (length out) - (if sint a < 0 then 1 else 0), k\<lparr>tx := tx k @ out\<rparr>) \<and> int_value 10 out = sint a) \<and>
   (\<exists>out. vprintf m (bytes_of ''%lu'') [a] k = Some (int (length out), k\<lparr>tx := tx k @ out\<rparr>) \<and> int_value 10 out = uint a) \<and>
   (\<exists>out. vprintf m (bytes_of ''%lx'') [a] k = Some (int (length out), k\<lparr>tx := tx k @ out\<rparr>) \<and> int_value 16 out = uint a)"
proof (intro conjI)
  have z: "(0 :: u8) \<noteq> NL" by (simp add: NL_def)
  have s: "sint (get_num_va_args a 0) = sint (ucast a :: u32)" 
    using sint_range_size [of "ucast a :: u32"] by (simp add: get_num_va_args_def signed_scast_eq word_size signed_take_bit_int_eq_self)
  have l: "w <s 0 \<longleftrightarrow> sint w < 0" for w :: u64 by (simp add: word_sless_alt)
  have u: "\<exists>out. unsigned_num_print a r 0 0 k = Some (int (length out), k\<lparr>tx := tx k @ out\<rparr>) \<and> int_value (unat r) out = uint a" if "r = 10 \<or> r = 16" for r
    using unsigned_num_print_spec [OF that z, of a 0 k] by (auto simp: nat_0_iff int_value_def split: list.splits)
  show "\<exists>out. vprintf m (bytes_of ''%d'') [a] k = Some (int (length out) - (if sint (ucast a :: u32) < 0 then 1 else 0), k\<lparr>tx := tx k @ out\<rparr>) \<and>
     int_value 10 out = sint (ucast a :: u32)"
    using print_number_value [OF z, of "get_num_va_args a 0" k] by (auto simp: vprintf_def bytes_of_def convert_def s l)
  show "\<exists>out. vprintf m (bytes_of ''%ld'') [a] k = Some (int (length out) - (if sint a < 0 then 1 else 0), k\<lparr>tx := tx k @ out\<rparr>) \<and> int_value 10 out = sint a"
    using print_number_value [OF z, of a k] by (auto simp: vprintf_def bytes_of_def convert_def l get_num_va_args_def)
  show "\<exists>out. vprintf m (bytes_of ''%lu'') [a] k = Some (int (length out), k\<lparr>tx := tx k @ out\<rparr>) \<and> int_value 10 out = uint a"
    using u [of 10] by (auto simp: vprintf_def bytes_of_def convert_def get_unum_va_args_def)
  show "\<exists>out. vprintf m (bytes_of ''%lx'') [a] k = Some (int (length out), k\<lparr>tx := tx k @ out\<rparr>) \<and> int_value 16 out = uint a"
    using u [of 16] by (auto simp: vprintf_def bytes_of_def convert_def get_unum_va_args_def)
qed

text \<open>
  Binary numbers are padded as if they had no digits: \<^verbatim>\<open>bc\<close>, which should count them, stays 0, and for the same
  reason the digits are not grouped.
\<close>

lemma printf_binary: "vprintf m (bytes_of ''%08b'') [5] k = Some (11, k\<lparr>tx := tx k @ bytes_of ''0000_0000_101''\<rparr>)"
proof -
  have d: "digits 2 5 = [49, 48, 49]" by (simp add: digits.simps digit_def)
  have n: "num_loop 5 2 [] 0 = Some ([49, 48, 49], 0)" using num_loop_digits [of 2 "[]" 5] by (simp add: d NUM_BUF_def)
  have p: "pad_binary 0 48 8 0 k = (8, k\<lparr>tx := tx k @ bytes_of ''0000_0000_''\<rparr>)"
    by (simp add: pad_binary.simps putchar_tx NL_def bytes_of_def)
  show ?thesis by (simp add: vprintf_def bytes_of_def [of "''%08b''"] convert_def get_unum_va_args_def unsigned_num_print_def n p putchar_tx NL_def)
    (simp add: bytes_of_def)
qed

end
