(* ===== verification/Clock.thy ===== *)
theory Clock
  imports Proc_Correct "HOL-Library.Signed_Division"
begin

text \<open>
  Time: the clock interrupt and the wall clock of \<^verbatim>\<open>kernel/clock.c\<close>, the calendar of \<^verbatim>\<open>kernel/rtc.c\<close> and the clock
  system calls. The registers of the real time clock are the parameter \<open>rtc_ops\<close>. C's \<^verbatim>\<open>int\<close> and
  \<^verbatim>\<open>unsigned int\<close> are integers here, with the conversions \<open>s32\<close> and \<open>w32\<close> where the code converts.
\<close>

unbundle bit_operations_syntax

section \<open>The real time clock\<close>

record 'd rtc_ops =
  mmio_read_32 :: "u64 \<Rightarrow> 'd \<Rightarrow> u32 \<times> 'd"
  mmio_write_32 :: "u64 \<Rightarrow> u32 \<Rightarrow> 'd \<Rightarrow> 'd"

definition RTC_SET_SEC_CNTR_VALUE :: u64 where "RTC_SET_SEC_CNTR_VALUE = 0x5026010"
definition RTC_SET_SEC_CNTR_TRIG :: u64 where "RTC_SET_SEC_CNTR_TRIG = 0x5026014"
definition RTC_SEC_CNTR_VALUE :: u64 where "RTC_SEC_CNTR_VALUE = 0x5026018"

text \<open>The value the counter is set to is taken over some time later; the code waits for that.\<close>

partial_function (option) wait_second :: "'d rtc_ops \<Rightarrow> u32 \<Rightarrow> 'd \<Rightarrow> 'd option" where
  "wait_second R t d = (let (v, d) = mmio_read_32 R RTC_SEC_CNTR_VALUE d in if v < t then wait_second R t d else Some d)"

record clock =
  jiffies :: u64
  wall_jiffies :: u64
  tv_sec :: u64
  tv_nsec :: u64

definition set_second_clock :: "'d rtc_ops \<Rightarrow> u32 \<Rightarrow> clock \<Rightarrow> 'd \<Rightarrow> (clock \<times> 'd) option" where
  "set_second_clock R t c d = do {
     let d = mmio_write_32 R RTC_SET_SEC_CNTR_VALUE t d;
     let d = mmio_write_32 R RTC_SET_SEC_CNTR_TRIG 1 d;
     d \<leftarrow> wait_second R t d;
     Some (c\<lparr>tv_sec := ucast t, tv_nsec := 0\<rparr>, d)
   }"

definition get_second_clock :: "'d rtc_ops \<Rightarrow> 'd \<Rightarrow> u64 \<times> 'd" where
  "get_second_clock R d = (let (v, d) = mmio_read_32 R RTC_SEC_CNTR_VALUE d in (ucast v, d))"

definition rtc_time :: "'d rtc_ops \<Rightarrow> 'd \<Rightarrow> u64 \<times> 'd" where
  "rtc_time R d = get_second_clock R d"

definition rtc_gettime :: "'d rtc_ops \<Rightarrow> clock \<Rightarrow> 'd \<Rightarrow> int \<times> clock \<times> 'd" where
  "rtc_gettime R c d = (let (v, d) = get_second_clock R d in (0, c\<lparr>tv_sec := v, tv_nsec := 0\<rparr>, d))"

definition rtc_settime :: "'d rtc_ops \<Rightarrow> u64 \<Rightarrow> clock \<Rightarrow> 'd \<Rightarrow> (int \<times> clock \<times> 'd) option" where
  "rtc_settime R t c d = do { (c, d) \<leftarrow> set_second_clock R (ucast t) c d; Some (0, c, d) }"

section \<open>The calendar\<close>

definition s32 :: "int \<Rightarrow> int" where "s32 x = (x + 2 ^ 31) mod 2 ^ 32 - 2 ^ 31"
definition w32 :: "int \<Rightarrow> int" where "w32 x = x mod 2 ^ 32"

record tm =
  tm_sec :: int
  tm_min :: int
  tm_hour :: int
  tm_mday :: int
  tm_mon :: int
  tm_year :: int
  tm_wday :: int
  tm_yday :: int
  tm_isdst :: int

definition days_in_month :: "int list" where
  "days_in_month = [31, 28, 31, 30, 31, 30, 31, 31, 30, 31, 30, 31]"

definition LEAPS_THRU_END_OF :: "int \<Rightarrow> int" where
  "LEAPS_THRU_END_OF y = y div 4 - y div 100 + y div 400"

definition is_leap_year :: "int \<Rightarrow> bool" where
  "is_leap_year year \<longleftrightarrow> year smod 4 = 0 \<and> year smod 100 \<noteq> 0 \<or> year smod 400 = 0"

definition month_days :: "nat \<Rightarrow> int \<Rightarrow> int" where
  "month_days month year = days_in_month ! month + (if is_leap_year year \<and> month = 1 then 1 else 0)"

definition rtc_valid_tm :: "tm \<Rightarrow> int" where
  "rtc_valid_tm t =
     (if tm_year t > 199 \<or> w32 (tm_mon t) \<ge> 12 \<or> tm_mday t < 1 \<or>
         tm_mday t > month_days (nat (tm_mon t)) (s32 (tm_year t + 1900)) \<or>
         w32 (tm_hour t) \<ge> 24 \<or> w32 (tm_min t) \<ge> 60 \<or> w32 (tm_sec t) \<ge> 60
      then - EINVAL else 0)"

text \<open>All arguments are \<^verbatim>\<open>unsigned int\<close>; the sum of days is one too, before it is widened.\<close>

definition tm_to_time :: "int \<Rightarrow> int \<Rightarrow> int \<Rightarrow> int \<Rightarrow> int \<Rightarrow> int \<Rightarrow> int" where
  "tm_to_time year0 mon0 day hour minute sec =
     (let mon = w32 (w32 (mon0 + 1) - 2); year = w32 (year0 + 1900);
          (mon, year) = (if 0 \<ge> s32 mon then (w32 (mon + 12), w32 (year - 1)) else (mon, year))
      in (((w32 (year div 4 - year div 100 + year div 400 + w32 (367 * mon) div 12 + day) + w32 (year * 365) - 719499) * 24
           + hour) * 60 + minute) * 60 + sec)"

function month_loop :: "nat \<Rightarrow> int \<Rightarrow> int \<Rightarrow> nat \<times> int" where
  "month_loop month days year =
     (if month < 11 then
        let newdays = s32 (days - month_days month year)
        in if newdays < 0 then (month, days) else month_loop (month + 1) newdays year
      else (month, days))"
  by pat_completeness auto
termination by (relation "measure (\<lambda>(month, days, year). 11 - month)") auto

declare month_loop.simps [simp del]

definition rtc_time_to_tm :: "int \<Rightarrow> tm" where
  "rtc_time_to_tm time =
     (let days = s32 (time sdiv 86400);
          secs = (time - w32 (w32 days * 86400)) mod 2 ^ 64;
          wday = s32 (days + 4) smod 7;
          year = w32 (1970 + days sdiv 365);
          days = s32 (w32 days - w32 (w32 (w32 (year - 1970) * 365) + LEAPS_THRU_END_OF (w32 (year - 1)) - LEAPS_THRU_END_OF (1970 - 1)));
          (year, days) = (if days < 0 then (w32 (year - 1), s32 (days + (365 + (if is_leap_year (s32 (w32 (year - 1))) then 1 else 0)))) else (year, days));
          yday = s32 (days + 1);
          (month, days) = month_loop 0 days (s32 year);
          hour = s32 (secs div 3600);
          secs = (secs - s32 (hour * 3600)) mod 2 ^ 64;
          minute = s32 (secs div 60)
      in \<lparr>tm_sec = s32 (secs - s32 (minute * 60)), tm_min = minute, tm_hour = hour, tm_mday = s32 (days + 1), tm_mon = int month,
          tm_year = s32 (year - 1900), tm_wday = wday, tm_yday = yday, tm_isdst = 0\<rparr>)"

section \<open>The wall clock\<close>

definition TICK_NSEC :: u64 where "TICK_NSEC = 10000000"
definition HZ :: u64 where "HZ = 100"

function update_wall_time :: "u64 \<Rightarrow> clock \<Rightarrow> clock" where
  "update_wall_time ticks c =
     (let ticks = ticks - 1;
          c = c\<lparr>tv_nsec := tv_nsec c + TICK_NSEC\<rparr>;
          c = (if 1000000000 \<le>s tv_nsec c then c\<lparr>tv_nsec := tv_nsec c - 1000000000, tv_sec := tv_sec c + 1\<rparr> else c)
      in if ticks \<noteq> 0 then update_wall_time ticks c else c)"
  by pat_completeness auto
termination
proof (relation "measure (\<lambda>(ticks, c). unat (ticks - 1))")
  fix ticks t' :: u64 and c x y :: clock
  assume "t' = ticks - 1" "t' \<noteq> 0"
  then show "((t', y), ticks, c) \<in> measure (\<lambda>(ticks, c). unat (ticks - 1))" using measure_unat [of t'] by simp
qed simp

declare update_wall_time.simps [simp del]

definition update_times :: "clock \<Rightarrow> clock" where
  "update_times c =
     (let ticks = jiffies c - wall_jiffies c
      in if ticks \<noteq> 0 then update_wall_time ticks (c\<lparr>wall_jiffies := wall_jiffies c + ticks\<rparr>) else c)"

definition clockinit :: "'d rtc_ops \<Rightarrow> clock \<Rightarrow> 'd \<Rightarrow> clock \<times> 'd" where
  "clockinit R c d = (let (r, c, d) = rtc_gettime R c d in (if r < 0 then c\<lparr>tv_nsec := 0, tv_sec := 1744166080\<rparr> else c, d))"

definition clockintr :: "clock \<Rightarrow> 'a kern_scheme \<Rightarrow> (clock \<times> 'a kern_scheme) option" where
  "clockintr c s = do {
     s \<leftarrow> k_acquire L_clock s;
     let c = update_times (c\<lparr>jiffies := jiffies c + 1\<rparr>);
     s \<leftarrow> wakeup Ch_jiffies s;
     s \<leftarrow> k_release L_clock s;
     Some (c, s)
   }"

text \<open>The time a clock shows: seconds and nanoseconds.\<close>

definition read_clock :: "u32 \<Rightarrow> clock \<Rightarrow> (u64 \<times> u64) option" where
  "read_clock clk_id c = (if clk_id = 0 then Some (tv_sec c, tv_nsec c) else if clk_id = 2 then Some (0, 0) else None)"

text \<open>\<^verbatim>\<open>clock_gettime\<close>; \<open>ta\<close> is the address of its local variable \<^verbatim>\<open>tp\<close>.\<close>

definition clock_gettime :: "bool \<Rightarrow> u32 \<Rightarrow> u64 \<Rightarrow> u64 \<Rightarrow> clock \<Rightarrow> 'a kern_scheme \<Rightarrow> (int \<times> 'a kern_scheme) option" where
  "clock_gettime userout clk_id tp ta c s = do {
     p \<leftarrow> curproc s;
     case read_clock clk_id c of
       None \<Rightarrow> Some (- EINVAL, s)
     | Some (sec, nsec) \<Rightarrow> do {
         let s = st64 (ta + 8) nsec (st64 ta sec s);
         if userout then do {
           (r, s) \<leftarrow> copyout (p_pagetable (procs s p)) tp ta 16 s;
           Some (if r < 0 then - EFAULT else 0, s)
         } else Some (0, s\<lparr>ram := memcpy (ram s) (unat tp) (unat ta) 16\<rparr>)
       }
   }"

definition CAP_SYS_TIME :: nat where "CAP_SYS_TIME = 25"

definition clock_settime :: "'d rtc_ops \<Rightarrow> u32 \<Rightarrow> u64 \<Rightarrow> clock \<Rightarrow> 'd \<Rightarrow> 'a kern_scheme \<Rightarrow> (int \<times> clock \<times> 'd) option" where
  "clock_settime R clk_id sec c d s = do {
     p \<leftarrow> curproc s;
     if clk_id \<noteq> 0 then Some (- EINVAL, c, d)
     else if cap_capable CAP_SYS_TIME (procs s p) then do { (c, d) \<leftarrow> set_second_clock R (ucast sec) c d; Some (0, c, d) }
     else Some (- EPERM, c, d)
   }"

definition get_uptime :: "clock \<Rightarrow> u64" where "get_uptime c = jiffies c * HZ"
definition get_ticks :: "clock \<Rightarrow> u64" where "get_ticks c = jiffies c"

definition sys_clock_gettime :: "u64 \<Rightarrow> clock \<Rightarrow> 'a kern_scheme \<Rightarrow> (int \<times> 'a kern_scheme) option" where
  "sys_clock_gettime ta c s = do {
     p \<leftarrow> curproc s;
     clk_id \<leftarrow> argint 0 (trap_args p s);
     tp \<leftarrow> argu64 1 (trap_args p s);
     clock_gettime True clk_id tp ta c s
   }"

definition sys_clock_settime :: "'d rtc_ops \<Rightarrow> u64 \<Rightarrow> clock \<Rightarrow> 'd \<Rightarrow> 'a kern_scheme \<Rightarrow> (int \<times> clock \<times> 'd \<times> 'a kern_scheme) option" where
  "sys_clock_settime R ta c d s = do {
     p \<leftarrow> curproc s;
     clk_id \<leftarrow> argint 0 (trap_args p s);
     (r, s) \<leftarrow> argptr 1 ta 16 s;
     if r < 0 then Some (- EINVAL, c, d, s)
     else do { (r, c, d) \<leftarrow> clock_settime R clk_id (get64 (ram s) (unat ta)) c d s; Some (r, c, d, s) }
   }"

section \<open>Waiting\<close>

text \<open>\<open>T i\<close> is what the \<open>i\<close>-th reading of the time register gives; the result is the number of readings.\<close>

definition US_INTERVAL :: u64 where "US_INTERVAL = 25"
definition INTERVAL :: u64 where "INTERVAL = 250000"

partial_function (option) delay_loop :: "(nat \<Rightarrow> u64) \<Rightarrow> u64 \<Rightarrow> u64 \<Rightarrow> nat \<Rightarrow> nat option" where
  "delay_loop T t0 n i = (if T i - t0 < n then delay_loop T t0 n (i + 1) else Some (i + 1))"

definition kdelay :: "(nat \<Rightarrow> u64) \<Rightarrow> u64 \<Rightarrow> nat option" where
  "kdelay T n = delay_loop T (T 0) (n * INTERVAL) 1"

definition delayus :: "(nat \<Rightarrow> u64) \<Rightarrow> u64 \<Rightarrow> nat option" where
  "delayus T n = delay_loop T (T 0) (n * US_INTERVAL) 1"

definition delayms :: "(nat \<Rightarrow> u64) \<Rightarrow> u64 \<Rightarrow> nat option" where
  "delayms T n = delayus T (n * 1000)"

definition get_timer :: "u64 \<Rightarrow> u64 \<Rightarrow> u64" where
  "get_timer now start = now div US_INTERVAL div 1000 - start"

text \<open>\<open>ra\<close> and \<open>ta\<close> are the addresses of the local variables \<^verbatim>\<open>req\<close> and \<^verbatim>\<open>t\<close>.\<close>

definition sys_nanosleep :: "(nat \<Rightarrow> u64) \<Rightarrow> u64 \<Rightarrow> u64 \<Rightarrow> 'a kern_scheme \<Rightarrow> (int \<times> 'a kern_scheme) option" where
  "sys_nanosleep T ra ta s = do {
     p \<leftarrow> curproc s;
     let s = st64 (ta + 8) 0 (st64 ta 0 s);
     rem \<leftarrow> argu64 1 (trap_args p s);
     (r, s) \<leftarrow> argptr 0 ra 16 s;
     if r < 0 then Some (- EINVAL, s)
     else do {
       let sec = get64 (ram s) (unat ra);
       let nsec = get64 (ram s) (unat ra + 8);
       if 1000000000 \<le>s nsec \<or> nsec <s 0 \<or> sec <s 0 then Some (- EINVAL, s)
       else do {
         _ \<leftarrow> delayus T (sec * 1000000 + (nsec + 999) div 1000);
         if rem \<noteq> 0 then do {
           (r, s) \<leftarrow> copyout (p_pagetable (procs s p)) rem ta 16 s;
           Some (if r < 0 then - EFAULT else 0, s)
         } else Some (0, s)
       }
     }
   }"

section \<open>The calendar is right\<close>

lemma s32_id: "- (2 ^ 31) \<le> x \<Longrightarrow> x < 2 ^ 31 \<Longrightarrow> s32 x = x"
  by (simp add: s32_def mod_pos_pos_trivial)

lemma w32_id: "0 \<le> x \<Longrightarrow> x < 2 ^ 32 \<Longrightarrow> w32 x = x"
  by (simp add: w32_def mod_pos_pos_trivial)

definition leap :: "int \<Rightarrow> int" where "leap y = (if is_leap_year y then 1 else 0)"

lemma div_step: "0 < k \<Longrightarrow> (y :: int) div k = (y - 1) div k + (if y mod k = 0 then 1 else 0)"
proof -
  assume k: "0 < k"
  show ?thesis
  proof (cases "y mod k = 0")
    case True
    then obtain q where y: "y = k * q" by (auto elim: dvdE)
    have "(y - 1) div k = q - 1" unfolding y using k by (intro int_div_pos_eq [of _ _ _ "k - 1"]) (simp_all add: algebra_simps)
    then show ?thesis using k y by simp
  next
    case False
    have "y - 1 = k * (y div k) + (y mod k - 1)" by simp
    moreover have "0 \<le> y mod k - 1" "y mod k - 1 < k" using False k pos_mod_sign [of k y] pos_mod_bound [of k y] by linarith+
    ultimately have "(y - 1) div k = y div k" by (metis int_div_pos_eq)
    then show ?thesis using False by simp
  qed
qed

lemma sum_step: "a = a' + x \<Longrightarrow> b = b' + y \<Longrightarrow> c = c' + z \<Longrightarrow> a - b + c = a' - b' + c' + (x - y + z :: int)"
  by simp

lemma leaps_step: "0 \<le> y \<Longrightarrow> LEAPS_THRU_END_OF y = LEAPS_THRU_END_OF (y - 1) + leap y"
proof -
  assume y: "0 \<le> y"
  have m: "y mod 400 = 0 \<Longrightarrow> y mod 100 = 0" "y mod 100 = 0 \<Longrightarrow> y mod 4 = 0"
    using dvd_trans [of 100 "400 :: int" y] dvd_trans [of 4 "100 :: int" y] by (simp_all add: dvd_eq_mod_eq_0)
  have s: "y smod k = y mod k" if "0 < k" for k using y that by (simp add: signed_modulo_int_def sgn_if)
  have "leap y = (if y mod 4 = 0 then 1 else 0) - (if y mod 100 = 0 then 1 else 0) + (if y mod 400 = 0 then 1 else 0)"
    using m by (auto simp: leap_def is_leap_year_def s)
  then show ?thesis unfolding LEAPS_THRU_END_OF_def by (simp only:) (rule sum_step; rule div_step; simp)
qed

lemma leaps_mono: "x \<le> y \<Longrightarrow> 0 \<le> x \<Longrightarrow> LEAPS_THRU_END_OF x \<le> LEAPS_THRU_END_OF y"
proof (induction y rule: int_ge_induct)
  case (step y)
  then show ?case using leaps_step [of "y + 1"] by (simp add: leap_def split: if_splits)
qed simp

lemma leaps_bound: "1969 \<le> y \<Longrightarrow> y < 2110 \<Longrightarrow> 477 \<le> LEAPS_THRU_END_OF y \<and> LEAPS_THRU_END_OF y \<le> 530"
proof -
  assume y: "1969 \<le> y" "y < 2110"
  have "LEAPS_THRU_END_OF 1969 = 477" by (simp add: LEAPS_THRU_END_OF_def)
  then have "477 \<le> LEAPS_THRU_END_OF y" using leaps_mono [of 1969 y] y by simp
  moreover have "y div 4 \<le> 527" "19 \<le> y div 100" "y div 400 \<le> 5" using y by linarith+
  ultimately show ?thesis by (simp add: LEAPS_THRU_END_OF_def)
qed

text \<open>A fact about the months is a fact about each of them.\<close>

lemma each_month: "n < 12 \<Longrightarrow> list_all P (upt 0 12) \<Longrightarrow> P n"
  by (simp add: list_all_iff)

lemma month_days_pos: "m < 12 \<Longrightarrow> 28 \<le> month_days m y \<and> month_days m y \<le> 31"
  by (rule each_month [of m "\<lambda>m. 28 \<le> month_days m y \<and> month_days m y \<le> 31"])
    (simp_all add: eval_nat_numeral month_days_def days_in_month_def)

lemma days_before_month:
  "2 \<le> n \<Longrightarrow> n < 12 \<Longrightarrow> (\<Sum>i = 0..<n. month_days i y) = 367 * (int n - 1) div 12 + 29 + leap y"
  using each_month [of n "\<lambda>n. 2 \<le> n \<longrightarrow> (\<Sum>i = 0..<n. month_days i y) = 367 * (int n - 1) div 12 + 29 + leap y"]
  by (simp add: month_days_def days_in_month_def leap_def eval_nat_numeral)

lemma month_loop_spec:
  "0 \<le> d \<Longrightarrow> d < 400 \<Longrightarrow> m \<le> 11 \<Longrightarrow> \<exists>n r. month_loop m d y = (n, r) \<and> m \<le> n \<and> n \<le> 11 \<and> 0 \<le> r \<and>
     d = (\<Sum>i = m..<n. month_days i y) + r \<and> (n < 11 \<longrightarrow> r < month_days n y)"
proof (induction m d y rule: month_loop.induct)
  case (1 m d y)
  have s: "s32 (d - month_days m y) = d - month_days m y" if "m < 11" using 1(2,3) month_days_pos [of m y] that by (intro s32_id) auto
  consider "m = 11" | "m < 11" "d < month_days m y" | "m < 11" "month_days m y \<le> d" using 1(4) by linarith
  then show ?case
  proof cases
    case 3
    have p: "0 \<le> d - month_days m y" "d - month_days m y < 400" using 3 1(3) month_days_pos [of m y] by auto
    obtain n r where n: "month_loop (m + 1) (d - month_days m y) y = (n, r)" "m + 1 \<le> n" "n \<le> 11" "0 \<le> r"
      "d - month_days m y = (\<Sum>i = m + 1..<n. month_days i y) + r" "n < 11 \<longrightarrow> r < month_days n y"
      using 1(1) [OF 3(1) refl, unfolded s [OF 3(1)]] p 3(1) by auto
    have "(\<Sum>i = m..<n. month_days i y) = month_days m y + (\<Sum>i = m + 1..<n. month_days i y)" using n(2) by (simp add: sum.atLeast_Suc_lessThan)
    moreover have "month_loop m d y = (n, r)" using 3(1) n(1) p(1) by (subst month_loop.simps) (simp add: s Let_def)
    ultimately show ?thesis using n(2-6) by auto
  qed (use 1 in \<open>subst month_loop.simps, simp add: s Let_def\<close>)+
qed

text \<open>The year and the day in it, as \<^verbatim>\<open>rtc_time_to_tm\<close> finds them from the day since the epoch.\<close>

lemma year_of_day:
  assumes "0 \<le> d" "d < 50000" "y = 1970 + d div 365" "e = d - ((y - 1970) * 365 + LEAPS_THRU_END_OF (y - 1) - 477)"
    "(z, f) = (if e < 0 then (y - 1, e + (365 + leap (y - 1))) else (y, e))"
  shows "1970 \<le> z" "z < 2107" "0 \<le> f" "f < 365 + leap z" "f = d - ((z - 1970) * 365 + LEAPS_THRU_END_OF (z - 1) - 477)"
    "0 \<le> (y - 1970) * 365 + LEAPS_THRU_END_OF (y - 1) - 477" "(y - 1970) * 365 + LEAPS_THRU_END_OF (y - 1) - 477 < 2 ^ 32" "1970 \<le> y" "y < 2107" "- 60 \<le> e" "e < 365"
proof -
  have y: "1970 \<le> y" "y < 2107" using assms(1-3) by auto
  have b: "477 \<le> LEAPS_THRU_END_OF (y - 1)" "LEAPS_THRU_END_OF (y - 1) \<le> 530" using leaps_bound [of "y - 1"] y by auto
  have l: "0 \<le> leap x" "leap x \<le> 1" for x by (simp_all add: leap_def)
  have "d - (y - 1970) * 365 = d mod 365" using assms(3) by (simp add: minus_div_mult_eq_mod)
  then have e: "e = d mod 365 - (LEAPS_THRU_END_OF (y - 1) - 477)" unfolding assms(4) by simp
  have r: "0 \<le> d mod 365" "d mod 365 < 365" by simp_all
  have n: "y \<noteq> 1970" if "e < 0"
  proof
    assume "y = 1970"
    then have "LEAPS_THRU_END_OF (y - 1) = 477" by (simp add: LEAPS_THRU_END_OF_def)
    then show False using that e r by linarith
  qed
  have s: "LEAPS_THRU_END_OF (y - 1) = LEAPS_THRU_END_OF (y - 2) + leap (y - 1)" using leaps_step [of "y - 1"] y by simp
  have "1970 \<le> z \<and> z < 2107 \<and> 0 \<le> f \<and> f < 365 + leap z \<and> f = d - ((z - 1970) * 365 + LEAPS_THRU_END_OF (z - 1) - 477)"
  proof (cases "e < 0")
    case True
    then have z: "z = y - 1" "f = e + (365 + leap (y - 1))" using assms(5) by simp_all
    obtain M where M: "d mod 365 = M" by blast
    show ?thesis using True n [OF True] y b l [of "y - 1"] e r s assms(4) unfolding M z by (intro conjI) (simp_all add: algebra_simps)
  next
    case False
    then have "z = y" "f = e" using assms(5) by simp_all
    then show ?thesis using False y b l [of y] e r assms(4) by simp
  qed
  then show "1970 \<le> z" "z < 2107" "0 \<le> f" "f < 365 + leap z" "f = d - ((z - 1970) * 365 + LEAPS_THRU_END_OF (z - 1) - 477)" by blast+
  show "0 \<le> (y - 1970) * 365 + LEAPS_THRU_END_OF (y - 1) - 477" "(y - 1970) * 365 + LEAPS_THRU_END_OF (y - 1) - 477 < 2 ^ 32" using y b by simp_all
  show "- 60 \<le> e" "e < 365" unfolding e using b r by linarith+
  show "1970 \<le> y" "y < 2107" by fact+
qed

text \<open>A month and a day of it give back the day of the year.\<close>

lemma tm_to_time_day:
  assumes "1970 \<le> y" "y < 2107" "n \<le> 11" "0 \<le> r" "r < 31"
  shows "tm_to_time (y - 1900) (int n) (r + 1) h m s =
    ((((\<Sum>i = 0..<n. month_days i y) + r + ((y - 1970) * 365 + LEAPS_THRU_END_OF (y - 1) - 477)) * 24 + h) * 60 + m) * 60 + s"
proof -
  have b: "477 \<le> LEAPS_THRU_END_OF (y - 1)" "LEAPS_THRU_END_OF (y - 1) \<le> 530" "477 \<le> LEAPS_THRU_END_OF y" "LEAPS_THRU_END_OF y \<le> 530"
    using leaps_bound [of "y - 1"] leaps_bound [of y] assms by auto
  have st: "LEAPS_THRU_END_OF y = LEAPS_THRU_END_OF (y - 1) + leap y" using leaps_step [of y] assms by simp
  have w: "w32 (y - 1900 + 1900) = y" "w32 (y - 1) = y - 1" "w32 (y * 365) = y * 365" "w32 ((y - 1) * 365) = (y - 1) * 365"
    using assms by (simp_all add: w32_id)
  have t: "tm_to_time (y - 1900) (int n) (r + 1) h m s =
      (((w32 (LEAPS_THRU_END_OF Y + w32 (367 * M) div 12 + (r + 1)) + w32 (Y * 365) - 719499) * 24 + h) * 60 + m) * 60 + s"
    if "(if 0 \<ge> s32 (w32 (w32 (int n + 1) - 2)) then (w32 (w32 (w32 (int n + 1) - 2) + 12), w32 (y - 1)) else (w32 (w32 (int n + 1) - 2), y)) = (M, Y)" for M Y
    unfolding tm_to_time_def Let_def w(1) that LEAPS_THRU_END_OF_def prod.case by (rule refl)
  show ?thesis
  proof (cases "n < 2")
    case True
    define M where "M = (if n = 0 then 11 else 12 :: int)"
    have n: "n = 0 \<or> n = 1" using True by arith
    have M: "w32 (367 * M) div 12 = (if n = 0 then 336 else 367)" by (simp add: M_def w32_def)
    have k: "(\<Sum>i = 0..<n. month_days i y) = (if n = 0 then 0 else 31)" using n by (auto simp: month_days_def days_in_month_def)
    have "(if 0 \<ge> s32 (w32 (w32 (int n + 1) - 2)) then (w32 (w32 (w32 (int n + 1) - 2) + 12), w32 (y - 1)) else (w32 (w32 (int n + 1) - 2), y)) = (M, y - 1)"
      unfolding w(2) using n by (auto simp: w32_def s32_def M_def)
    note t = t [OF this, unfolded M w(4)]
    moreover have "w32 (LEAPS_THRU_END_OF (y - 1) + (if n = 0 then 336 else 367) + (r + 1)) = LEAPS_THRU_END_OF (y - 1) + (if n = 0 then 336 else 367) + (r + 1)"
      using b assms(4,5) by (intro w32_id) auto
    ultimately show ?thesis unfolding k using n by (auto simp: algebra_simps)
  next
    case False
    have e: "w32 (w32 (int n + 1) - 2) = int n - 1" "s32 (int n - 1) = int n - 1" "w32 (367 * (int n - 1)) = 367 * (int n - 1)"
      using False assms(3) by (simp_all add: w32_id s32_id)
    have q: "0 \<le> 367 * (int n - 1) div 12" "367 * (int n - 1) div 12 \<le> 367" 
      using False assms(3) zdiv_mono1 [of "367 * (int n - 1)" 3670 12] by (simp_all add: pos_imp_zdiv_nonneg_iff)
    have "w32 (LEAPS_THRU_END_OF y + 367 * (int n - 1) div 12 + (r + 1)) = LEAPS_THRU_END_OF y + 367 * (int n - 1) div 12 + (r + 1)"
      using b q assms(4,5) by (intro w32_id) simp_all
    moreover have "(if 0 \<ge> s32 (w32 (w32 (int n + 1) - 2)) then (w32 (w32 (w32 (int n + 1) - 2) + 12), w32 (y - 1)) else (w32 (w32 (int n + 1) - 2), y)) = (int n - 1, y)"
      unfolding e(1,2) using False by simp
    note t = t [OF this, unfolded e(3) w(3)]
    moreover have "(\<Sum>i = 0..<n. month_days i y) = 367 * (int n - 1) div 12 + 29 + leap y"
      using False assms(3) by (intro days_before_month) simp_all
    ultimately show ?thesis unfolding t st by (simp add: algebra_simps)
  qed
qed

text \<open>The time of day.\<close>

lemma clock_of_secs:
  assumes "0 \<le> (x :: int)" "x < 86400"
  shows "0 \<le> x div 3600" "x div 3600 < 24" "0 \<le> (x - x div 3600 * 3600) div 60" "(x - x div 3600 * 3600) div 60 < 60"
    "0 \<le> x - x div 3600 * 3600 - (x - x div 3600 * 3600) div 60 * 60" "x - x div 3600 * 3600 - (x - x div 3600 * 3600) div 60 * 60 < 60"
  unfolding minus_div_mult_eq_mod using assms by (simp_all add: div_less_iff_less_mult)

lemma date_of_day:
  assumes "1970 \<le> z" "z < 2107" "0 \<le> f" "f < 365 + leap z"
  obtains n r where "month_loop 0 f z = (n, r)" "n \<le> 11" "0 \<le> r" "f = (\<Sum>i = 0..<n. month_days i z) + r" "r < month_days n z" "r < 31"
proof -
  have l: "0 \<le> leap z" "leap z \<le> 1" by (simp_all add: leap_def)
  obtain n r where n: "month_loop 0 f z = (n, r)" "n \<le> 11" "0 \<le> r" "f = (\<Sum>i = 0..<n. month_days i z) + r" "n < 11 \<longrightarrow> r < month_days n z"
    using month_loop_spec [of f 0 z] assms l by auto
  have yr: "(\<Sum>i = 0..<11. month_days i z) = 334 + leap z" by (simp add: month_days_def days_in_month_def leap_def eval_nat_numeral)
  have r: "r < month_days n z"
  proof (cases "n = 11")
    case True
    then have "r < 31" using n(4) assms(4) yr by simp
    then show ?thesis using True by (simp add: month_days_def days_in_month_def)
  qed (use n(2,5) in simp)
  have "r < 31" using r month_days_pos [of n z] n(2) by simp
  then show ?thesis using that n r by blast
qed

text \<open>The conversions in \<^verbatim>\<open>rtc_time_to_tm\<close> change nothing.\<close>

lemma rtc_time_to_tm_eq:
  assumes "0 \<le> t" "t < 2 ^ 32" and d_def: "d = t div 86400" and x_def: "x = t - d * 86400" and d: "0 \<le> d" "d < 49711" and x: "0 \<le> x" "x < 86400"
    and y_def: "y = 1970 + d div 365" and e_def: "e = d - ((y - 1970) * 365 + LEAPS_THRU_END_OF (y - 1) - 477)"
    and zf: "(z, f) = (if e < 0 then (y - 1, e + (365 + leap (y - 1))) else (y, e))"
    and n: "month_loop 0 f z = (n, r)" "0 \<le> r" "r < 31" and h_def: "h = x div 3600" and g_def: "g = x - h * 3600" and mi_def: "mi = g div 60"
    and C: "0 \<le> h" "h < 24" "0 \<le> mi" "mi < 60" "0 \<le> g - mi * 60" "g - mi * 60 < 60"
  shows "rtc_time_to_tm t = \<lparr>tm_sec = g - mi * 60, tm_min = mi, tm_hour = h,
     tm_mday = r + 1, tm_mon = int n, tm_year = z - 1900, tm_wday = (d + 4) smod 7, tm_yday = f + 1, tm_isdst = 0\<rparr>"
proof -
  have d5: "d < 50000" using d(2) by simp
  note Y = year_of_day [OF d(1) d5 y_def e_def zf]
  have l: "0 \<le> leap z" "leap z \<le> 1" by (simp_all add: leap_def)
  have K: "0 \<le> (y - 1970) * 365 + LEAPS_THRU_END_OF (y - 1) - 477" "(y - 1970) * 365 + LEAPS_THRU_END_OF (y - 1) - 477 < 2 ^ 32" "1970 \<le> y" "y < 2107"
    "- 60 \<le> e" "e < 365"
    using Y(6-) .
  have dv: "t sdiv 86400 = d" "d sdiv 365 = y - 1970" using assms(1) d(1) by (simp_all add: signed_divide_int_def sgn_if d_def y_def)
  have "d * 86400 \<le> t" using x(1) by (simp add: x_def)
  then have "w32 (d * 86400) = d * 86400" using d(1) assms(2) by (intro w32_id) simp_all
  moreover have "(t - d * 86400) mod 2 ^ 64 = x" using x unfolding x_def [symmetric] by (intro mod_pos_pos_trivial) simp_all
  ultimately have a: "s32 (t sdiv 86400) = d" "w32 d = d" "w32 (d * 86400) = d * 86400" "(t - d * 86400) mod 2 ^ 64 = x" "s32 (d + 4) = d + 4" "w32 (1970 + d sdiv 365) = y"
    using d K(3,4) unfolding dv by (simp_all add: s32_id w32_id)
  have b: "w32 (y - 1970) = y - 1970" "w32 ((y - 1970) * 365) = (y - 1970) * 365" "w32 (y - 1) = y - 1" "LEAPS_THRU_END_OF (1970 - 1) = 477"
    "w32 ((y - 1970) * 365 + LEAPS_THRU_END_OF (y - 1) - 477) = (y - 1970) * 365 + LEAPS_THRU_END_OF (y - 1) - 477" "s32 e = e" "s32 (y - 1) = y - 1"
    "s32 (e + (365 + leap (y - 1))) = e + (365 + leap (y - 1))" "s32 (f + 1) = f + 1" "s32 z = z" "s32 (z - 1900) = z - 1900"
    using K Y(1-5) l by (simp_all add: s32_id w32_id LEAPS_THRU_END_OF_def [of 1969] leap_def)
  have c: "s32 h = h" "s32 (h * 3600) = h * 3600" "g mod 2 ^ 64 = g"
    "s32 mi = mi" "s32 (mi * 60) = mi * 60"
    "s32 (g - mi * 60) = g - mi * 60"
    "s32 (r + 1) = r + 1"
    using C n(2,3) by (simp_all add: s32_id mod_pos_pos_trivial)
  show ?thesis unfolding rtc_time_to_tm_def Let_def a b(1-5) e_def [symmetric] leap_def [symmetric] b(6-8) zf [symmetric] prod.case b(9-) n(1) h_def [symmetric] c(1,2) g_def [symmetric] c(3) mi_def [symmetric] c(4-) ..
qed

text \<open>
  C39: The calendar is exact for every time the 32-bit counter of the clock can show: \<^verbatim>\<open>rtc_time_to_tm\<close> gives a month, a day of
  that month (29 February in leap years only) and a time of day in their ranges, \<^verbatim>\<open>tm_to_time\<close> maps them back to the
  same second, and \<^verbatim>\<open>rtc_valid_tm\<close> accepts them up to the year 2099.
\<close>

theorem rtc_time_roundtrip:
  assumes "0 \<le> t" "t < 2 ^ 32"
  shows "let x = rtc_time_to_tm t in
    tm_to_time (tm_year x) (tm_mon x) (tm_mday x) (tm_hour x) (tm_min x) (tm_sec x) = t \<and>
    0 \<le> tm_mon x \<and> tm_mon x < 12 \<and> 1 \<le> tm_mday x \<and> tm_mday x \<le> month_days (nat (tm_mon x)) (tm_year x + 1900) \<and>
    0 \<le> tm_hour x \<and> tm_hour x < 24 \<and> 0 \<le> tm_min x \<and> tm_min x < 60 \<and> 0 \<le> tm_sec x \<and> tm_sec x < 60 \<and>
    (tm_year x \<le> 199 \<longrightarrow> rtc_valid_tm x = 0)"
proof -
  define d where "d = t div 86400"
  define x where "x = t - d * 86400"
  define y where "y = 1970 + d div 365"
  define e where "e = d - ((y - 1970) * 365 + LEAPS_THRU_END_OF (y - 1) - 477)"
  define z where "z = (if e < 0 then y - 1 else y)"
  define f where "f = (if e < 0 then e + (365 + leap (y - 1)) else e)"
  have d: "0 \<le> d" "d < 49711" "d < 50000" using assms by (simp_all add: d_def div_less_iff_less_mult)
  have x: "0 \<le> x" "x < 86400" unfolding x_def d_def minus_div_mult_eq_mod by simp_all
  have zf: "(z, f) = (if e < 0 then (y - 1, e + (365 + leap (y - 1))) else (y, e))" by (simp add: z_def f_def)
  note z = year_of_day [OF d(1,3) y_def e_def zf]
  obtain n r where n: "month_loop 0 f z = (n, r)" "n \<le> 11" "0 \<le> r" "f = (\<Sum>i = 0..<n. month_days i z) + r" "r < month_days n z" "r < 31"
    by (rule date_of_day [OF z(1-4)])
  define h where "h = x div 3600"
  define g where "g = x - h * 3600"
  define mi where "mi = g div 60"
  have C: "0 \<le> h" "h < 24" "0 \<le> mi" "mi < 60" "0 \<le> g - mi * 60" "g - mi * 60 < 60" unfolding mi_def g_def h_def by (fact clock_of_secs [OF x])+
  note tm = rtc_time_to_tm_eq [OF assms d_def x_def d(1,2) x y_def e_def zf n(1,3,6) h_def g_def mi_def C]
  show ?thesis unfolding tm Let_def tm.select_convs
  proof (intro conjI)
    have "(\<Sum>i = 0..<n. month_days i z) + r + ((z - 1970) * 365 + LEAPS_THRU_END_OF (z - 1) - 477) = d" using n(4) z(5) by simp
    then show "tm_to_time (z - 1900) (int n) (r + 1) h mi (g - mi * 60) = t"
      unfolding tm_to_time_day [OF z(1,2) n(2,3,6)] using x_def g_def by simp
    show "z - 1900 \<le> 199 \<longrightarrow> rtc_valid_tm \<lparr>tm_sec = g - mi * 60, tm_min = mi, tm_hour = h,
     tm_mday = r + 1, tm_mon = int n, tm_year = z - 1900, tm_wday = (d + 4) smod 7, tm_yday = f + 1, tm_isdst = 0\<rparr> = 0"
      unfolding rtc_valid_tm_def using C n(2,3,5) z(1,2) by (simp add: w32_id s32_id)
  qed (use C n(2,3,5) in simp_all)
qed

theorem rtc_time_roundtrip_witness:
  "tm_to_time (tm_year (rtc_time_to_tm 1709164800)) (tm_mon (rtc_time_to_tm 1709164800)) (tm_mday (rtc_time_to_tm 1709164800))
     (tm_hour (rtc_time_to_tm 1709164800)) (tm_min (rtc_time_to_tm 1709164800)) (tm_sec (rtc_time_to_tm 1709164800)) = 1709164800"
  using rtc_time_roundtrip [of 1709164800] by (simp add: Let_def)

section \<open>The wall clock is right\<close>

definition wall_time :: "clock \<Rightarrow> int" where
  "wall_time c = sint (tv_sec c) * 1000000000 + sint (tv_nsec c)"

definition clock_ok :: "clock \<Rightarrow> bool" where
  "clock_ok c \<longleftrightarrow> wall_jiffies c = jiffies c \<and> 0 \<le> sint (tv_nsec c) \<and> sint (tv_nsec c) < 1000000000"

lemma sint_add_ok: "- (2 ^ 63) \<le> sint a + sint b \<Longrightarrow> sint a + sint b < 2 ^ 63 \<Longrightarrow> sint (a + b :: u64) = sint a + sint b"
  by (simp add: sint_word_ariths signed_take_bit_int_eq_self)

lemma sint_sub_ok: "- (2 ^ 63) \<le> sint a - sint b \<Longrightarrow> sint a - sint b < 2 ^ 63 \<Longrightarrow> sint (a - b :: u64) = sint a - sint b"
  by (simp add: sint_word_ariths signed_take_bit_int_eq_self)

lemma update_wall_time_spec:
  assumes "ticks \<noteq> 0" "0 \<le> sint (tv_nsec c)" "sint (tv_nsec c) < 1000000000" "sint (tv_sec c) + uint ticks < 2 ^ 63" "c' = update_wall_time ticks c"
  shows "wall_time c' = wall_time c + uint ticks * 10000000 \<and> 0 \<le> sint (tv_nsec c') \<and> sint (tv_nsec c') < 1000000000 \<and>
    jiffies c' = jiffies c \<and> wall_jiffies c' = wall_jiffies c"
  using assms
proof (induction ticks c arbitrary: c' rule: update_wall_time.induct)
  case (1 ticks c)
  define u where "u = c\<lparr>tv_nsec := tv_nsec c + TICK_NSEC\<rparr>"
  define v where "v = (if 1000000000 \<le>s tv_nsec u then u\<lparr>tv_nsec := tv_nsec u - 1000000000, tv_sec := tv_sec u + 1\<rparr> else u)"
  have "0 < uint ticks" using 1(2) by (metis uint_0_iff uint_nonnegative order_le_less)
  then have t: "uint (ticks - 1) = uint ticks - 1" by (simp add: uint_minus_simple_alt [symmetric] word_le_def uint_sub_if')
  have n: "sint (tv_nsec u) = sint (tv_nsec c) + 10000000" using 1(3,4) sint_add_ok [of "tv_nsec c" TICK_NSEC] by (simp add: u_def TICK_NSEC_def)
  have m: "- (2 ^ 63) \<le> sint (tv_sec c)" using sint_ge [of "tv_sec c"] by simp
  have le: "1000000000 \<le>s tv_nsec u \<longleftrightarrow> 1000000000 \<le> sint (tv_nsec u)" by (simp add: word_sle_eq)
  have s: "sint (tv_sec c + 1) = sint (tv_sec c) + 1" using 1(5) \<open>0 < uint ticks\<close> m sint_add_ok [of "tv_sec c" 1] by simp
  have k: "sint (tv_nsec u - 1000000000) = sint (tv_nsec u) - 1000000000" using n 1(3,4) sint_sub_ok [of "tv_nsec u" 1000000000] by simp
  have v: "wall_time v = wall_time c + 10000000" "0 \<le> sint (tv_nsec v)" "sint (tv_nsec v) < 1000000000" "sint (tv_sec v) \<le> sint (tv_sec c) + 1"
    "jiffies v = jiffies c" "wall_jiffies v = wall_jiffies c"
    using n k s le 1(3,4) by (auto simp: v_def wall_time_def u_def)
  have r: "update_wall_time ticks c = (if ticks - 1 \<noteq> 0 then update_wall_time (ticks - 1) v else v)"
    by (subst update_wall_time.simps) (simp add: Let_def v_def u_def)
  show ?case
  proof (cases "ticks - 1 = 0")
    case True
    then have "uint ticks = 1" using t by simp
    then show ?thesis using v True r 1(6) by simp
  next
    case False
    have "sint (tv_sec v) + uint (ticks - 1) < 2 ^ 63" using v(4) 1(5) t by linarith
    note ih = 1(1) [OF refl u_def v_def False False v(2,3) this]
    then show ?thesis using r 1(6) False v t by (simp add: algebra_simps)
  qed
qed

lemma woken_by_stable:
  "woken_by ch ps (s\<lparr>held := H\<rparr>) = woken_by ch ps s" "woken_by ch ps (s\<lparr>procs := woken_by ch ps s\<rparr>) = woken_by ch ps s"
  by (auto simp: fun_eq_iff woken_by_def)

lemma clockintr_step:
  assumes "clock_ok c" "sint (tv_sec c) + 1 < 2 ^ 63" "L_clock \<notin> held s" "\<And>q. L_proc q \<notin> held s"
  shows "\<exists>c'. clockintr c s = Some (c', s\<lparr>procs := woken_by Ch_jiffies [0..<NPROC] s\<rparr>) \<and> clock_ok c' \<and>
    jiffies c' = jiffies c + 1 \<and> wall_time c' = wall_time c + 10000000"
proof -
  let ?b = "c\<lparr>jiffies := jiffies c + 1\<rparr>"
  have o: "wall_jiffies c = jiffies c" "0 \<le> sint (tv_nsec c)" "sint (tv_nsec c) < 1000000000" using assms(1) by (simp_all add: clock_ok_def)
  define c' where "c' = update_wall_time 1 (?b\<lparr>wall_jiffies := jiffies c + 1\<rparr>)"
  have u: "update_times ?b = c'" by (simp add: update_times_def o(1) c'_def)
  have w: "wall_time c' = wall_time c + 10000000 \<and> 0 \<le> sint (tv_nsec c') \<and> sint (tv_nsec c') < 1000000000 \<and> jiffies c' = jiffies c + 1 \<and> wall_jiffies c' = jiffies c + 1"
    using update_wall_time_spec [OF _ _ _ _ c'_def] o assms(2) by (simp add: wall_time_def)
  have "clockintr c s = Some (c', s\<lparr>procs := woken_by Ch_jiffies [0..<NPROC] s\<rparr>)"
    using assms(3,4) wakeup_eq [of "s\<lparr>held := insert L_clock (held s)\<rparr>" Ch_jiffies] by (simp add: clockintr_def lock_simps u woken_by_stable)
  then show ?thesis using w by (auto simp: clock_ok_def)
qed

primrec clock_interrupts :: "nat \<Rightarrow> clock \<Rightarrow> 'a kern_scheme \<Rightarrow> (clock \<times> 'a kern_scheme) option" where
  "clock_interrupts 0 c s = Some (c, s)"
| "clock_interrupts (Suc n) c s = do { (c, s) \<leftarrow> clockintr c s; clock_interrupts n c s }"

text \<open>
  C40: The wall clock keeps step with the timer. Any number of clock interrupts, none of which comes while the clock or a process is
  locked, returns; each adds a tick and 10 milliseconds to the time, the nanoseconds stay below a second, and the first of
  them makes every process that sleeps until the next tick runnable.
\<close>

theorem clock_keeps_time:
  assumes "clock_ok c" "sint (tv_sec c) + int n < 2 ^ 63" "L_clock \<notin> held s" "\<And>q. L_proc q \<notin> held s"
  shows "\<exists>c' s'. clock_interrupts n c s = Some (c', s') \<and> clock_ok c' \<and> jiffies c' = jiffies c + of_nat n \<and> wall_time c' = wall_time c + int n * 10000000 \<and>
    held s' = held s \<and> (\<forall>q < NPROC. 0 < n \<and> state_of s q = SLEEPING \<and> p_chan (procs s q) = Some Ch_jiffies \<and> curproc s \<noteq> Some q \<longrightarrow> state_of s' q = RUNNABLE)"
proof -
  have "\<exists>c'. clock_interrupts n c s = Some (c', if n = 0 then s else s\<lparr>procs := woken_by Ch_jiffies [0..<NPROC] s\<rparr>) \<and> clock_ok c' \<and>
      jiffies c' = jiffies c + of_nat n \<and> wall_time c' = wall_time c + int n * 10000000"
    using assms
  proof (induction n arbitrary: c s)
    case (Suc n)
    let ?s = "s\<lparr>procs := woken_by Ch_jiffies [0..<NPROC] s\<rparr>"
    obtain c1 where c1: "clockintr c s = Some (c1, ?s)" "clock_ok c1" "jiffies c1 = jiffies c + 1" "wall_time c1 = wall_time c + 10000000"
      using clockintr_step [OF Suc.prems(1) _ Suc.prems(3,4)] Suc.prems(2) by auto
    have "sint (tv_sec c1) + int n < 2 ^ 63" using Suc.prems(1,2) c1(2,4) by (simp add: wall_time_def clock_ok_def)
    then obtain c' where "clock_interrupts n c1 ?s = Some (c', if n = 0 then ?s else ?s\<lparr>procs := woken_by Ch_jiffies [0..<NPROC] ?s\<rparr>)" "clock_ok c'"
        "jiffies c' = jiffies c1 + of_nat n" "wall_time c' = wall_time c1 + int n * 10000000"
      using Suc.IH [OF c1(2), of ?s] Suc.prems(3,4) by auto
    then show ?case using c1 by (intro exI [of _ c']) (simp add: woken_by_stable algebra_simps)
  qed simp
  then show ?thesis by (elim exE, rule_tac x = c' in exI) (auto simp: woken_by_def)
qed

text \<open>A clock about to begin a new second.\<close>

theorem clock_keeps_time_witness:
  "\<exists>c' (s :: kern) s'. clock_interrupts 3 \<lparr>jiffies = 5, wall_jiffies = 5, tv_sec = 1744166080, tv_nsec = 970000000\<rparr> s = Some (c', s') \<and>
     wall_time c' = 1744166081000000000 \<and> jiffies c' = 8"
proof -
  let ?c = "\<lparr>jiffies = 5, wall_jiffies = 5, tv_sec = 1744166080, tv_nsec = 970000000\<rparr>"
  obtain s :: kern where s: "held s = {}" by (metis kstate.select_convs(1) kstate.surjective kstate.update_convs(1))
  have "clock_ok ?c" "wall_time ?c = 1744166080970000000" by (simp_all add: clock_ok_def wall_time_def)
  then show ?thesis using clock_keeps_time [of ?c 3 s] s by auto
qed

end
