(* ===== verification/Kmalloc_Correct.thy ===== *)
theory Kmalloc_Correct
  imports Kmalloc Vm_User
begin

text \<open>
  Correctness of \<^verbatim>\<open>Kmalloc\<close>. Free and live blocks are sets of addresses with a size function; the circle of free
  blocks in memory is described by the relation \<open>is_next\<close>. Freeing and allocating keep the invariant \<open>kml_ok\<close>, end their searches,
  and satisfy the contract \<open>allocator\<close>.
\<close>

unbundle bit_operations_syntax

section \<open>The circle of free blocks\<close>

text \<open>\<open>is_next A a n\<close>: in the circle through \<open>A\<close> in ascending order \<open>n\<close> comes after \<open>a\<close>.\<close>

definition is_next :: "nat set \<Rightarrow> nat \<Rightarrow> nat \<Rightarrow> bool" where
  "is_next A a n \<longleftrightarrow> n \<in> A \<and> (a < n \<and> (\<forall>c \<in> A. c \<le> a \<or> n \<le> c) \<or> (\<forall>c \<in> A. n \<le> c \<and> c \<le> a))"

lemma is_next_unique: "is_next A a n \<Longrightarrow> is_next A a m \<Longrightarrow> a \<in> A \<Longrightarrow> n = m"
  unfolding is_next_def by (metis le_antisym not_le)

lemma is_next_insert:
  assumes "is_next A k n" "k \<in> A" "k < b" "\<forall>c \<in> A. c \<le> k \<or> b < c"
  shows "is_next (insert b A) k b" "is_next (insert b A) b n" "a \<in> A \<Longrightarrow> a \<noteq> k \<Longrightarrow> is_next A a m \<Longrightarrow> is_next (insert b A) a m"
proof -
  show "is_next (insert b A) k b" using assms unfolding is_next_def by (metis insert_iff less_imp_le order_refl)
  show "is_next (insert b A) b n" using assms unfolding is_next_def by (metis insert_iff less_imp_le order_refl not_less le_less_trans)
  show "is_next (insert b A) a m" if "a \<in> A" "a \<noteq> k" "is_next A a m"
    using assms that unfolding is_next_def by (metis insert_iff less_imp_le le_less_trans le_antisym not_less)
qed

lemma is_next_delete:
  assumes "is_next A k b" "is_next A b n" "k \<in> A" "b \<in> A" "z \<in> A" "z < b" "\<forall>c \<in> A. z \<le> c"
  shows "is_next (A - {b}) k n" "a \<in> A \<Longrightarrow> a \<noteq> k \<Longrightarrow> a \<noteq> b \<Longrightarrow> is_next A a m \<Longrightarrow> is_next (A - {b}) a m" "k < b"
proof -
  show kb: "k < b" using assms unfolding is_next_def by (metis not_le)
  have n: "n \<noteq> b" using assms unfolding is_next_def by (metis not_le less_irrefl)
  have k: "\<forall>c \<in> A. c \<le> k \<or> b \<le> c" using assms(1,3) kb unfolding is_next_def by (metis not_le)
  have "n \<in> A" using assms(2) by (simp add: is_next_def)
  from assms(2) consider "b < n" "\<forall>c \<in> A. c \<le> b \<or> n \<le> c" | "\<forall>c \<in> A. n \<le> c \<and> c \<le> b" unfolding is_next_def by blast
  then show "is_next (A - {b}) k n"
  proof cases
    case 1
    have "c \<le> k \<or> n \<le> c" if "c \<in> A - {b}" for c using that k 1 by (metis DiffE le_antisym singletonI)
    then show ?thesis using \<open>n \<in> A\<close> 1(1) kb n unfolding is_next_def by auto
  next
    case 2
    have "n \<le> c \<and> c \<le> k" if "c \<in> A - {b}" for c using that k 2 by (metis DiffE le_antisym singletonI)
    then show ?thesis using \<open>n \<in> A\<close> n unfolding is_next_def by auto
  qed
  show "is_next (A - {b}) a m" if "a \<in> A" "a \<noteq> k" "a \<noteq> b" "is_next A a m"
  proof -
    have "m \<noteq> b" using assms(1,3) that kb unfolding is_next_def by (metis le_antisym not_le)
    then show ?thesis using that assms unfolding is_next_def by blast
  qed
qed

text \<open>The elements from \<open>p\<close> up to but without \<open>k\<close> around the circle.\<close>

definition on_way :: "nat set \<Rightarrow> nat \<Rightarrow> nat \<Rightarrow> nat set" where
  "on_way A k p = (if p \<le> k then {c \<in> A. p \<le> c \<and> c < k} else {c \<in> A. p \<le> c \<or> c < k})"

lemma on_way_next:
  assumes "is_next A p n" "p \<in> A" "k \<in> A" "p \<noteq> k"
  shows "on_way A k p = insert p (on_way A k n)" "p \<notin> on_way A k n"
proof -
  have "on_way A k p = insert p (on_way A k n) \<and> p \<notin> on_way A k n"
  proof (cases "p < k")
    case True
    then have "p < n" "n \<le> k" "\<forall>c \<in> A. c \<le> p \<or> n \<le> c" using assms unfolding is_next_def by (metis not_le)+
    then show ?thesis using True assms(2) unfolding on_way_def by (auto simp: order_le_less)
  next
    case False
    then have k: "k < p" using assms(4) by simp
    show ?thesis
    proof (cases "p < n")
      case True
      then have "\<forall>c \<in> A. c \<le> p \<or> n \<le> c" using assms(1) unfolding is_next_def by (metis not_le)
      then show ?thesis using True k assms(2) unfolding on_way_def by (auto simp: order_le_less)
    next
      case False
      then have "\<forall>c \<in> A. n \<le> c \<and> c \<le> p" using assms(1) unfolding is_next_def by blast
      then show ?thesis using k assms(2,3) unfolding on_way_def by (auto simp: order_le_less)
    qed
  qed
  then show "on_way A k p = insert p (on_way A k n)" "p \<notin> on_way A k n" by blast+
qed

lemma on_way_all: "is_next A k p \<Longrightarrow> k \<in> A \<Longrightarrow> insert k (on_way A k p) = A"
  unfolding is_next_def on_way_def by (auto simp: order_le_less)

section \<open>Free and live blocks\<close>

text \<open>
  \<open>A\<close> are the addresses of the free blocks, the empty block \<^verbatim>\<open>base\<close> among them, \<open>L\<close> those of the blocks handed
  out, and \<open>sz\<close> gives their sizes in units.
\<close>

definition ext :: "(nat \<Rightarrow> nat) \<Rightarrow> nat \<Rightarrow> nat" where
  "ext sz a = 16 * max 1 (sz a)"

definition blocks_in :: "nat \<Rightarrow> nat \<Rightarrow> nat set \<Rightarrow> nat set \<Rightarrow> (nat \<Rightarrow> nat) \<Rightarrow> bool" where
  "blocks_in z v A L sz \<longleftrightarrow> finite A \<and> z \<in> A \<and> A \<inter> L = {} \<and> sz z = 0 \<and>
     (\<forall>a \<in> A \<union> L. z \<le> a \<and> a + ext sz a \<le> 2 ^ 40 \<and> (a \<noteq> z \<longrightarrow> 1 \<le> sz a) \<and> (v + 8 \<le> a \<or> a + ext sz a \<le> v)) \<and>
     (\<forall>a \<in> A \<union> L. \<forall>b \<in> A \<union> L. a < b \<longrightarrow> a + ext sz a \<le> b)"

text \<open>No two free blocks touch.\<close>

definition blocks_ok :: "nat \<Rightarrow> nat \<Rightarrow> nat set \<Rightarrow> nat set \<Rightarrow> (nat \<Rightarrow> nat) \<Rightarrow> bool" where
  "blocks_ok z v A L sz \<longleftrightarrow> blocks_in z v A L sz \<and> (\<forall>a \<in> A. a \<noteq> z \<longrightarrow> a + 16 * sz a \<notin> A)"

definition area :: "nat set \<Rightarrow> (nat \<Rightarrow> nat) \<Rightarrow> nat set" where
  "area A sz = (\<Union>a \<in> A. {a..<a + 16 * sz a})"

definition headers_ok :: "nat \<Rightarrow> nat set \<Rightarrow> nat set \<Rightarrow> (nat \<Rightarrow> nat) \<Rightarrow> memory \<Rightarrow> bool" where
  "headers_ok v A L sz m \<longleftrightarrow> (\<forall>a \<in> A \<union> L. get64 m (a + 8) = of_nat (sz a)) \<and>
     (\<forall>a \<in> A. \<forall>n. is_next A a n \<longrightarrow> get64 m a = of_nat n) \<and> (\<exists>q \<in> A. get64 m v = of_nat q)"

lemma next_exists: "finite A \<Longrightarrow> a \<in> A \<Longrightarrow> \<exists>n. is_next A a n"
proof -
  assume A: "finite A" "a \<in> A"
  show ?thesis
  proof (cases "\<exists>c \<in> A. a < c")
    case True
    then have "Min {c \<in> A. a < c} \<in> {c \<in> A. a < c}" using A by (intro Min_in) auto
    moreover have "Min {c \<in> A. a < c} \<le> c" if "c \<in> A" "a < c" for c using A that by (intro Min_le) auto
    ultimately have "is_next A a (Min {c \<in> A. a < c})" unfolding is_next_def by (metis (no_types, lifting) mem_Collect_eq not_less)
    then show ?thesis by blast
  next
    case False
    moreover have "Min A \<in> A" using A by (intro Min_in) auto
    ultimately have "is_next A a (Min A)" using A by (auto simp: is_next_def not_less)
    then show ?thesis by blast
  qed
qed

lemma adr_simps:
  assumes "a \<le> 2 ^ 40" "b \<le> 2 ^ 40"
  shows "(of_nat a :: u64) < of_nat b \<longleftrightarrow> a < b" "(of_nat a :: u64) \<le> of_nat b \<longleftrightarrow> a \<le> b" "(of_nat a :: u64) = of_nat b \<longleftrightarrow> a = b" "unat (of_nat a :: u64) = a"
proof -
  have u: "unat (of_nat a :: u64) = a" "unat (of_nat b :: u64) = b" using assms by (auto intro: unat_of_nat_less)
  then show "(of_nat a :: u64) < of_nat b \<longleftrightarrow> a < b" "(of_nat a :: u64) \<le> of_nat b \<longleftrightarrow> a \<le> b" "unat (of_nat a :: u64) = a"
    by (simp_all add: word_less_nat_alt word_le_nat_alt)
  show "(of_nat a :: u64) = of_nat b \<longleftrightarrow> a = b" using u by metis
qed

lemma header_simps:
  assumes "a + 16 \<le> 2 ^ 40"
  shows "h_ptr (of_nat a) s = get64 (ram s) a" "h_size (of_nat a) s = get64 (ram s) (a + 8)"
    "set_ptr (of_nat a) w s = s\<lparr>ram := put64 w a (ram s)\<rparr>" "set_size (of_nat a) w s = s\<lparr>ram := put64 w (a + 8) (ram s)\<rparr>"
proof -
  have "unat (of_nat a :: u64) = a" using adr_simps(4) [of a a] assms by simp
  moreover have "unat (of_nat a + 8 :: u64) = a + 8" using adr_simps(4) [of "a + 8" a] assms by simp
  ultimately show "h_ptr (of_nat a) s = get64 (ram s) a" "h_size (of_nat a) s = get64 (ram s) (a + 8)"
    "set_ptr (of_nat a) w s = s\<lparr>ram := put64 w a (ram s)\<rparr>" "set_size (of_nat a) w s = s\<lparr>ram := put64 w (a + 8) (ram s)\<rparr>"
    by (simp_all add: h_ptr_def h_size_def set_ptr_def set_size_def ld64_def st64_def)
qed

lemma blocks_inD:
  assumes "blocks_in z v A L sz" "a \<in> A \<union> L"
  shows "z \<le> a" "a + 16 \<le> 2 ^ 40" "a + 16 * sz a \<le> 2 ^ 40" "a \<noteq> z \<Longrightarrow> 1 \<le> sz a" "v + 8 \<le> a \<or> a + 16 \<le> v" "b \<in> A \<union> L \<Longrightarrow> a < b \<Longrightarrow> a + 16 \<le> b \<and> a + 16 * sz a \<le> b"
proof -
  have e: "16 \<le> ext sz a" "16 * sz a \<le> ext sz a" by (simp_all add: ext_def)
  have B: "z \<le> a" "a + ext sz a \<le> 2 ^ 40" "a \<noteq> z \<Longrightarrow> 1 \<le> sz a" "v + 8 \<le> a \<or> a + ext sz a \<le> v" "b \<in> A \<union> L \<Longrightarrow> a < b \<Longrightarrow> a + ext sz a \<le> b"
    using assms unfolding blocks_in_def by blast+
  show "z \<le> a" "a \<noteq> z \<Longrightarrow> 1 \<le> sz a" by (fact B)+
  show "a + 16 \<le> 2 ^ 40" "a + 16 * sz a \<le> 2 ^ 40" "v + 8 \<le> a \<or> a + 16 \<le> v" using B(2,4) e by linarith+
  show "b \<in> A \<union> L \<Longrightarrow> a < b \<Longrightarrow> a + 16 \<le> b \<and> a + 16 * sz a \<le> b" using B(5) e by fastforce
qed

lemmas blocks_okD = blocks_inD [OF blocks_ok_def [THEN iffD1, THEN conjunct1]]

lemma blocks_apart: "blocks_in z v A L sz \<Longrightarrow> a \<in> A \<union> L \<Longrightarrow> b \<in> A \<union> L \<Longrightarrow> a \<noteq> b \<Longrightarrow> a + 16 \<le> b \<or> b + 16 \<le> a"
  using blocks_inD(6) [of z v A L sz a b] blocks_inD(6) [of z v A L sz b a] by linarith

lemma area_insert: "area (insert a A) sz = {a..<a + 16 * sz a} \<union> area A sz"
  by (auto simp: area_def)

lemma area_Un: "area (A \<union> B) sz = area A sz \<union> area B sz"
  by (auto simp: area_def)

text \<open>Two touching free blocks become one.\<close>

lemma blocks_merge:
  assumes "blocks_in z v A L sz" "c \<in> A" "n \<in> A" "c \<noteq> z" "c + 16 * sz c = n"
  shows "blocks_in z v (A - {n}) L (sz(c := sz c + sz n))" "area (A - {n}) (sz(c := sz c + sz n)) = area A sz" "c < n" "n \<noteq> z"
proof -
  let ?sz = "sz(c := sz c + sz n)"
  have c: "z \<le> c" "1 \<le> sz c" using blocks_inD(1,4) [OF assms(1), of c] assms(2,4) by auto
  show cn: "c < n" using assms(5) c by linarith
  then show nz: "n \<noteq> z" using c by linarith
  have n: "1 \<le> sz n" using blocks_inD(4) [OF assms(1), of n] assms(3) nz by auto
  have e: "c + ext ?sz c = n + ext sz n" "\<And>a. a \<noteq> c \<Longrightarrow> ext ?sz a = ext sz a" using assms(5) c n by (simp_all add: ext_def max_def)
  have cv: "v + 8 \<le> c \<or> c + ext sz c \<le> v" "v + 8 \<le> n \<or> n + ext sz n \<le> v" "n + ext sz n \<le> 2 ^ 40" using assms(1-3) unfolding blocks_in_def by blast+
  have cx: "c + ext sz c = n" using assms(5) c by (simp add: ext_def max_def)
  have p: "a + ext ?sz a \<le> b" if "a \<in> A - {n} \<union> L" "b \<in> A - {n} \<union> L" "a < b" for a b
  proof (cases "a = c")
    case True
    have "c + ext sz c \<le> b" using assms(1,2) that True unfolding blocks_in_def by blast
    then have "n < b" using cx that(2) assms(1,3) unfolding blocks_in_def by (metis Diff_iff IntI Un_iff empty_iff insertI1 le_neq_implies_less)
    then have "n + ext sz n \<le> b" using assms(1,3) that unfolding blocks_in_def by blast
    then show ?thesis using True e(1) by simp
  next
    case False
    then show ?thesis using assms(1) that e(2) unfolding blocks_in_def by auto
  qed
  have q: "z \<le> a \<and> a + ext ?sz a \<le> 2 ^ 40 \<and> (a \<noteq> z \<longrightarrow> 1 \<le> ?sz a) \<and> (v + 8 \<le> a \<or> a + ext ?sz a \<le> v)" if "a \<in> A - {n} \<union> L" for a
  proof (cases "a = c")
    case True
    then show ?thesis using e(1) cv cx c n by (auto simp: fun_upd_def)
  next
    case False
    then show ?thesis using assms(1) that e(2) [OF False] unfolding blocks_in_def by auto
  qed
  show "blocks_in z v (A - {n}) L ?sz" unfolding blocks_in_def using p q assms(1,4) nz by (auto simp: blocks_in_def)
  have "{c..<c + 16 * sz c} \<union> {n..<n + 16 * sz n} = {c..<c + 16 * (sz c + sz n)}" using assms(5) c by auto
  moreover have "A = insert c (insert n (A - {c, n}))" "A - {n} = insert c (A - {c, n})" using assms(2,3) cn by auto
  moreover have "area (A - {c, n}) ?sz = area (A - {c, n}) sz" by (simp add: area_def)
  ultimately show "area (A - {n}) ?sz = area A sz" by (metis (no_types, lifting) area_insert fun_upd_same sup_assoc)
qed

text \<open>The block before a given address, and the search for it.\<close>

definition below :: "nat set \<Rightarrow> nat \<Rightarrow> nat \<Rightarrow> bool" where
  "below A b k \<longleftrightarrow> k \<in> A \<and> k < b \<and> (\<forall>c \<in> A. c \<le> k \<or> b < c)"

lemma below_exists: "finite A \<Longrightarrow> z \<in> A \<Longrightarrow> z < b \<Longrightarrow> b \<notin> A \<Longrightarrow> \<exists>k. below A b k"
proof -
  assume A: "finite A" "z \<in> A" "z < b" "b \<notin> A"
  let ?B = "{c \<in> A. c < b}"
  have "Max ?B \<in> ?B" using A by (intro Max_in) auto
  moreover have "c \<le> Max ?B" if "c \<in> A" "c < b" for c using A that by (intro Max_ge) auto
  ultimately have "below A b (Max ?B)" unfolding below_def using A(4) by (metis (no_types, lifting) mem_Collect_eq not_less_iff_gr_or_eq)
  then show ?thesis by blast
qed

lemma kmfree_find_spec:
  assumes "blocks_ok z v A L sz" "headers_ok v A L sz (ram s)" "below A b k" "b \<le> 2 ^ 40" "p \<in> A"
  shows "kmfree_find (of_nat b) (of_nat p) s = Some (of_nat k)"
  using assms(5)
proof (induction "Finite_Set.card (on_way A k p)" arbitrary: p rule: less_induct)
  case less
  have A: "finite A" "z \<in> A" using assms(1) by (auto simp: blocks_ok_def blocks_in_def)
  have bd: "a + 16 \<le> 2 ^ 40" "z \<le> a" if "a \<in> A" for a using blocks_okD [OF assms(1), of a] that by auto
  have k: "k \<in> A" "k < b" "\<And>c. c \<in> A \<Longrightarrow> c \<le> k \<or> b < c" using assms(3) by (auto simp: below_def)
  obtain n where n: "is_next A p n" using next_exists [OF A(1) less.prems] by blast
  have "n \<in> A" using n by (simp add: is_next_def)
  have h: "h_ptr (of_nat p) s = of_nat n" using assms(2) n less.prems bd(1) [OF less.prems] by (simp add: headers_ok_def header_simps)
  have c: "p \<le> 2 ^ 40" "n \<le> 2 ^ 40" using bd(1) less.prems \<open>n \<in> A\<close> by fastforce+
  note w = adr_simps [OF c(1) c(2)] adr_simps [OF c(2) c(1)] adr_simps [OF c(1) assms(4)] adr_simps [OF assms(4) c(1)] adr_simps [OF assms(4) c(2)]
  have st: "kmfree_find (of_nat b) (of_nat p) s = (if p < b \<and> b < n then Some (of_nat p) else if n \<le> p \<and> (p < b \<or> b < n) then Some (of_nat p)
      else kmfree_find (of_nat b) (of_nat n) s)" by (subst kmfree_find.simps) (simp only: h w)
  show ?case
  proof (cases "p = k")
    case True
    have "p < b \<and> b < n \<or> n \<le> p \<and> p < b" using n k True \<open>n \<in> A\<close> unfolding is_next_def by (metis not_le)
    then show ?thesis using True st by auto
  next
    case False
    have "\<not> (p < b \<and> b < n)" "\<not> (n \<le> p \<and> (p < b \<or> b < n))"
      using n k False less.prems A(2) bd(2) unfolding is_next_def by (metis le_antisym not_le less_le_trans le_less_trans less_imp_le)+
    then have "kmfree_find (of_nat b) (of_nat p) s = kmfree_find (of_nat b) (of_nat n) s" using st by auto
    moreover have "Finite_Set.card (on_way A k n) < Finite_Set.card (on_way A k p)"
      using on_way_next [OF n less.prems k(1) False] A(1) by (simp add: on_way_def card_insert_disjoint)
    ultimately show ?thesis using less.hyps \<open>n \<in> A\<close> by simp
  qed
qed

section \<open>Freeing\<close>

text \<open>
  The memory in the middle of an operation: the blocks of \<open>X\<close> may not point to the next one yet, and
  only the blocks of \<open>T\<close> may touch the next one.
\<close>

definition linked :: "nat \<Rightarrow> nat \<Rightarrow> nat set \<Rightarrow> nat set \<Rightarrow> (nat \<Rightarrow> nat) \<Rightarrow> nat set \<Rightarrow> memory \<Rightarrow> bool" where
  "linked z v A L sz X m \<longleftrightarrow> blocks_in z v A L sz \<and> (\<forall>a \<in> A \<union> L. get64 m (a + 8) = of_nat (sz a)) \<and>
     (\<forall>a \<in> A - X. \<forall>n. is_next A a n \<longrightarrow> get64 m a = of_nat n)"

definition no_touch :: "nat \<Rightarrow> nat set \<Rightarrow> (nat \<Rightarrow> nat) \<Rightarrow> nat set \<Rightarrow> bool" where
  "no_touch z A sz T \<longleftrightarrow> (\<forall>a \<in> A - T. a \<noteq> z \<longrightarrow> a + 16 * sz a \<notin> A)"

lemma linked_ok: "blocks_ok z v A L sz \<and> headers_ok v A L sz m \<longleftrightarrow> linked z v A L sz {} m \<and> no_touch z A sz {} \<and> (\<exists>q \<in> A. get64 m v = of_nat q)"
  by (auto simp: blocks_ok_def headers_ok_def linked_def no_touch_def)

lemma linkedD:
  assumes "linked z v A L sz X m"
  shows "blocks_in z v A L sz" "finite A" "z \<in> A" "a \<in> A \<union> L \<Longrightarrow> get64 m (a + 8) = of_nat (sz a)" "a \<in> A - X \<Longrightarrow> is_next A a n \<Longrightarrow> get64 m a = of_nat n"
proof -
  show b: "blocks_in z v A L sz" using assms by (simp add: linked_def)
  then show "finite A" "z \<in> A" unfolding blocks_in_def by blast+
  show "a \<in> A \<union> L \<Longrightarrow> get64 m (a + 8) = of_nat (sz a)" "a \<in> A - X \<Longrightarrow> is_next A a n \<Longrightarrow> get64 m a = of_nat n"
    using assms unfolding linked_def by blast+
qed

lemma next_exists': "linked z v A L sz X m \<Longrightarrow> a \<in> A \<Longrightarrow> \<exists>n. is_next A a n"
  by (rule next_exists [OF linkedD(2)])

text \<open>A block moves from the live to the free ones.\<close>

lemma circle_insert:
  assumes "linked z v A (insert b L) sz {} m" "b \<notin> A" "b \<notin> L" "below A b k" "is_next A k n"
  shows "linked z v (insert b A) L sz {k, b} m" "is_next (insert b A) k b" "is_next (insert b A) b n"
proof -
  have kA: "k \<in> A" "k < b" "\<forall>c \<in> A. c \<le> k \<or> b < c" using assms(4) by (auto simp: below_def)
  note N = is_next_insert [OF assms(5) kA]
  show "is_next (insert b A) k b" "is_next (insert b A) b n" by (fact N)+
  have "get64 m a = of_nat x" if a: "a \<in> A" "a \<noteq> k" "is_next (insert b A) a x" for a x
  proof -
    obtain y where y: "is_next A a y" using next_exists' [OF assms(1) a(1)] by blast
    then have "x = y" using is_next_unique [OF N(3) [OF a(1,2) y] a(3)] a(1) by simp
    then show ?thesis using linkedD(5) [OF assms(1), of a] y a(1) by simp
  qed
  moreover have "blocks_in z v (insert b A) L sz" using linkedD(1) [OF assms(1)] assms(2,3) unfolding blocks_in_def by auto
  ultimately show "linked z v (insert b A) L sz {k, b} m" using linkedD(4) [OF assms(1)] by (auto simp: linked_def)
qed

lemma linked_set:
  assumes "linked z v A L sz X m" "c \<in> A" "is_next A c d"
  shows "linked z v A L sz (X - {c}) (put64 (of_nat d) c m)"
proof -
  have "get64 (put64 (of_nat d) c m) (a + 8) = get64 m (a + 8)" if "a \<in> A \<union> L" for a
    using blocks_apart [OF linkedD(1) [OF assms(1)], of a c] that assms(2) by (cases "a = c") (auto intro: get64_outside)
  moreover have "get64 (put64 (of_nat d) c m) a = get64 m a" if "a \<in> A" "a \<noteq> c" for a
    using blocks_apart [OF linkedD(1) [OF assms(1)], of a c] that assms(2) by (auto intro: get64_outside)
  moreover have "get64 (put64 (of_nat d) c m) c = of_nat x" if "is_next A c x" for x using is_next_unique [OF assms(3) that assms(2)] by simp
  ultimately show ?thesis using assms(1) unfolding linked_def by (metis DiffE DiffI singletonD)
qed

lemma linked_join:
  assumes "linked z v A L sz X m" "c \<in> A" "d \<in> A" "d \<notin> X" "c \<noteq> z" "c + 16 * sz c = d" "is_next A c d"
  shows "linked z v (A - {d}) L (sz(c := sz c + sz d)) (X - {c}) (put64 (get64 m d) c (put64 (of_nat (sz c + sz d)) (c + 8) m))"
proof -
  let ?m = "put64 (get64 m d) c (put64 (of_nat (sz c + sz d)) (c + 8) m)"
  note B = linkedD(1) [OF assms(1)] and M = blocks_merge [OF linkedD(1) [OF assms(1)] assms(2,3,5,6)]
  have ap: "a + 16 \<le> c \<or> c + 16 \<le> a" if "a \<in> A \<union> L" "a \<noteq> c" for a using blocks_apart [OF B] that assms(2) by blast
  have g: "get64 ?m (a + 8) = (if a = c then of_nat (sz c + sz d) else get64 m (a + 8))" if "a \<in> A \<union> L" for a
  proof (cases "a = c")
    case False
    then show ?thesis using ap [OF that] by (auto simp: get64_outside)
  qed (simp add: get64_outside)
  have g2: "get64 ?m a = (if a = c then get64 m d else get64 m a)" if "a \<in> A" for a
  proof (cases "a = c")
    case False
    then show ?thesis using ap [of a] that by (auto simp: get64_outside)
  qed simp
  obtain e where e: "is_next A d e" using next_exists' [OF assms(1,3)] by blast
  have z: "z \<in> A" "z < d" "\<forall>c \<in> A. z \<le> c" using linkedD(3) [OF assms(1)] M(3) blocks_inD(1) [OF B] assms(2) by (auto intro: le_less_trans)
  note D = is_next_delete [OF assms(7) e assms(2,3) z]
  have "get64 ?m a = of_nat x" if "a \<in> A - {d} - (X - {c})" "is_next (A - {d}) a x" for a x
  proof (cases "a = c")
    case True
    then have "x = e" using is_next_unique [OF D(1)] that by simp
    then show ?thesis using True g2 [OF assms(2)] linkedD(5) [OF assms(1), of d e] e assms(3,4) by simp
  next
    case False
    then have a: "a \<in> A" "a \<noteq> d" "a \<notin> X" using that by auto
    obtain y where y: "is_next A a y" using next_exists' [OF assms(1) a(1)] by blast
    then have "x = y" using is_next_unique [OF D(2) [OF a(1) False a(2) y] that(2)] a by simp
    then show ?thesis using False g2 [OF a(1)] linkedD(5) [OF assms(1), of a y] y a by simp
  qed
  moreover have "get64 ?m (a + 8) = of_nat ((sz(c := sz c + sz d)) a)" if "a \<in> A - {d} \<union> L" for a
    using g [of a] that linkedD(4) [OF assms(1), of a] by auto
  ultimately show ?thesis unfolding linked_def using M(1) by blast
qed

lemma insert_touch:
  assumes B: "blocks_in z v (insert b A) L sz" and b: "b \<notin> A" "b \<noteq> z" and k: "below A b k" "is_next A k n"
  shows "a \<in> A \<Longrightarrow> a \<noteq> z \<Longrightarrow> a \<noteq> k \<Longrightarrow> a + 16 * sz a \<noteq> b" "b + 16 * sz b \<in> A \<Longrightarrow> b + 16 * sz b = n"
proof -
  have kA: "k \<in> A" "k < b" "\<forall>c \<in> A. c \<le> k \<or> b < c" using k(1) by (auto simp: below_def)
  show "a + 16 * sz a \<noteq> b" if "a \<in> A" "a \<noteq> z" "a \<noteq> k"
  proof
    assume t: "a + 16 * sz a = b"
    have "1 \<le> sz a" using blocks_inD(4) [OF B, of a] that by simp
    then have "a < k" using t kA(2,3) that by (metis le_neq_implies_less not_le le_add1 order.strict_trans2)
    then have "a + 16 * sz a \<le> k" using blocks_inD(6) [OF B, of a k] that kA(1) by simp
    then show False using t kA(2) by simp
  qed
  assume t: "b + 16 * sz b \<in> A"
  have "1 \<le> sz b" using blocks_inD(4) [OF B, of b] b(2) by simp
  then have kt: "k < b + 16 * sz b" "b < b + 16 * sz b" using kA(2) by linarith+
  then have n: "n \<in> A" "k < n" "n \<le> b + 16 * sz b" using k(2) t unfolding is_next_def by (metis not_le)+
  then have "b < n" using kA(3) by (metis not_le)
  then have "b + 16 * sz b \<le> n" using blocks_inD(6) [OF B, of b n] n(1) by simp
  then show "b + 16 * sz b = n" using n(3) by simp
qed

definition hdr_frame :: "nat set \<Rightarrow> memory \<Rightarrow> memory \<Rightarrow> bool" where
  "hdr_frame A m m' \<longleftrightarrow> (\<forall>x. (\<forall>a \<in> A. x < a \<or> a + 16 \<le> x) \<longrightarrow> m' x = m x)"

lemma hdr_frame_trans: "hdr_frame A m m1 \<Longrightarrow> hdr_frame A m1 m2 \<Longrightarrow> hdr_frame A m m2"
  by (simp add: hdr_frame_def)

lemma hdr_frame_put: "a \<in> A \<Longrightarrow> hdr_frame A m (put64 w a m)" "a \<in> A \<Longrightarrow> hdr_frame A m (put64 w (a + 8) m)"
  by (force simp: hdr_frame_def put64_def intro: put_out)+

text \<open>The first half of \<^verbatim>\<open>kmfree\<close>: the block points to the next one, or takes it in.\<close>

lemma free_first:
  assumes "linked z v A (insert b L) sz {} m" "no_touch z A sz {}" "b \<notin> A" "b \<notin> L" "b \<noteq> z" "below A b k" "is_next A k n"
    and m1: "m1 = (if b + 16 * sz b = n then put64 (get64 m n) b (put64 (of_nat (sz b + sz n)) (b + 8) m) else put64 (of_nat n) b m)"
  shows "\<exists>A1 sz1. linked z v A1 L sz1 {k} m1 \<and> no_touch z A1 sz1 {k} \<and> k \<in> A1 \<and> b \<in> A1 \<and> is_next A1 k b \<and> A1 \<subseteq> insert b A \<and>
    area A1 sz1 = area A sz \<union> {b..<b + 16 * sz b} \<and> (\<forall>a. a \<noteq> b \<longrightarrow> sz1 a = sz a) \<and> sz1 b = (if b + 16 * sz b = n then sz b + sz n else sz b)"
proof -
  note I = circle_insert [OF assms(1,3,4,6,7)]
  note B = linkedD(1) [OF I(1)]
  note T = insert_touch [OF B assms(3,5-7)]
  have k: "k \<in> A" "k < b" using assms(6) by (auto simp: below_def)
  have nA: "n \<in> A" using assms(7) by (simp add: is_next_def)
  have nt: "a + 16 * sz a \<notin> A" if "a \<in> A" "a \<noteq> z" for a using assms(2) that by (simp add: no_touch_def)
  show ?thesis
  proof (cases "b + 16 * sz b = n")
    case False
    have t2: "b + 16 * sz b \<notin> insert b A" using T(2) False blocks_inD(4) [OF B, of b] assms(5) by auto
    then have "no_touch z (insert b A) sz {k}" unfolding no_touch_def using nt T(1) by auto
    moreover have "linked z v (insert b A) L sz ({k, b} - {b}) (put64 (of_nat n) b m)" by (rule linked_set [OF I(1) _ I(3)]) simp
    moreover have "{k, b} - {b} = {k}" using k by auto
    ultimately show ?thesis using False k I(2) by (intro exI [of _ "insert b A"] exI [of _ sz]) (simp add: m1 area_insert Un_commute)
  next
    case True
    let ?s = "sz(b := sz b + sz n)"
    note M = blocks_merge [OF B _ _ assms(5) True]
    have bn: "b < n" "n \<noteq> z" using M(3,4) nA by simp_all
    have "linked z v (insert b A - {n}) L ?s ({k, b} - {b}) m1"
      using linked_join [OF I(1) _ _ _ assms(5) True I(3)] nA bn k True m1 by simp
    moreover have kb: "{k, b} - {b} = {k}" using k by auto
    moreover have "is_next (insert b A - {n}) k b"
    proof -
      obtain e where e: "is_next (insert b A) n e" using next_exists' [OF I(1)] nA by blast
      have "z \<le> b" "\<forall>c \<in> insert b A. z \<le> c" using blocks_inD(1) [OF B] by auto
      then show ?thesis using is_next_delete(2) [OF I(3) e, of z k b] linkedD(3) [OF I(1)] I(2) nA bn k by auto
    qed
    moreover have "no_touch z (insert b A - {n}) ?s {k}"
      unfolding no_touch_def
    proof (intro ballI impI)
      fix a assume a: "a \<in> insert b A - {n} - {k}" "a \<noteq> z"
      show "a + 16 * ?s a \<notin> insert b A - {n}"
      proof (cases "a = b")
        case True
        have e: "b + 16 * ?s b = n + 16 * sz n" using \<open>b + 16 * sz b = n\<close> by simp
        show ?thesis unfolding True e using nt [OF nA bn(2)] bn by simp
      next
        case False
        then show ?thesis using a nt [of a] T(1) [of a] by auto
      qed
    qed
    moreover have "area (insert b A - {n}) ?s = area A sz \<union> {b..<b + 16 * sz b}" using M(2) nA by (simp add: area_insert Un_commute)
    ultimately show ?thesis using k bn True by (intro exI [of _ "insert b A - {n}"] exI [of _ ?s]) auto
  qed
qed

text \<open>The second half: the block before points to the new one, or takes it in.\<close>

lemma free_second:
  assumes "linked z v A L sz {k} m" "no_touch z A sz {k}" "k \<in> A" "b \<in> A" "is_next A k b" "b \<noteq> z" "k < b"
    and m2: "m2 = (if k + 16 * sz k = b then put64 (get64 m b) k (put64 (of_nat (sz k + sz b)) (k + 8) m) else put64 (of_nat b) k m)"
  shows "\<exists>A2 sz2. linked z v A2 L sz2 {} m2 \<and> no_touch z A2 sz2 {} \<and> k \<in> A2 \<and> A2 \<subseteq> A \<and> area A2 sz2 = area A sz \<and> (\<forall>a. a \<noteq> k \<longrightarrow> sz2 a = sz a) \<and>
    (\<exists>c \<in> A2. sz b \<le> sz2 c)"
proof (cases "k + 16 * sz k = b")
  case False
  have "k + 16 * sz k \<notin> A" if "k \<noteq> z"
  proof
    assume t: "k + 16 * sz k \<in> A"
    have B: "blocks_in z v A L sz" by (rule linkedD(1) [OF assms(1)])
    have "1 \<le> sz k" using blocks_inD(4) [OF B, of k] assms(3) that by simp
    then have "b \<le> k + 16 * sz k" using assms(5,7) t unfolding is_next_def by (metis add_le_same_cancel1 le_zero_eq mult_is_0 not_one_le_zero zero_neq_numeral not_le)
    moreover have "k + 16 * sz k \<le> b" using blocks_inD(6) [OF B, of k b] assms(3,4,7) by simp
    ultimately show False using False by simp
  qed
  then have "no_touch z A sz {}" using assms(2) unfolding no_touch_def by auto
  moreover have "linked z v A L sz ({k} - {k}) m2" using linked_set [OF assms(1,3,5)] m2 False by simp
  ultimately show ?thesis using assms(3,4) by (intro exI [of _ A] exI [of _ sz]) auto
next
  case True
  let ?s = "sz(k := sz k + sz b)"
  have B: "blocks_in z v A L sz" by (rule linkedD(1) [OF assms(1)])
  have kz: "k \<noteq> z" using True assms(7) B by (auto simp: blocks_in_def)
  note M = blocks_merge [OF B assms(3,4) kz True]
  have "linked z v (A - {b}) L ?s ({k} - {k}) m2" using linked_join [OF assms(1,3,4) _ kz True assms(5)] m2 True assms(7) by simp
  moreover have "no_touch z (A - {b}) ?s {}"
    unfolding no_touch_def
  proof (intro ballI impI)
    fix a assume a: "a \<in> A - {b} - {}" "a \<noteq> z"
    show "a + 16 * ?s a \<notin> A - {b}"
    proof (cases "a = k")
      case True
      have e: "k + 16 * ?s k = b + 16 * sz b" using \<open>k + 16 * sz k = b\<close> by simp
      show ?thesis unfolding True e using assms(2,4,6,7) by (simp add: no_touch_def)
    next
      case False
      then show ?thesis using a assms(2) by (simp add: no_touch_def)
    qed
  qed
  ultimately show ?thesis using M(2) assms(3,7) by (intro exI [of _ "A - {b}"] exI [of _ ?s]) (auto intro!: bexI [of _ k])
qed

lemma kmfree_spec:
  assumes "blocks_ok z v A (insert b L) sz" "headers_ok v A (insert b L) sz (ram s)" "b \<notin> A" "b \<notin> L" "b \<noteq> z" "k_freep K = of_nat v" "v + 8 \<le> 2 ^ 40"
  shows "\<exists>A' sz' m'. kmfree K (of_nat b + 16) s = Some (s\<lparr>ram := m'\<rparr>) \<and> blocks_ok z v A' L sz' \<and> headers_ok v A' L sz' m' \<and>
    area A' sz' = area A sz \<union> {b..<b + 16 * sz b} \<and> (\<forall>a \<in> L. sz' a = sz a) \<and> A' \<subseteq> insert b A \<and> (\<exists>c \<in> A'. sz b \<le> sz' c) \<and>
    (\<forall>x. (\<forall>a \<in> insert b A. x < a \<or> a + 16 \<le> x) \<and> (x < v \<or> v + 8 \<le> x) \<longrightarrow> m' x = ram s x)"
proof -
  define m where "m = ram s"
  have "blocks_ok z v A (insert b L) sz \<and> headers_ok v A (insert b L) sz m" using assms(1,2) by (simp add: m_def)
  then have LK: "linked z v A (insert b L) sz {} m" "no_touch z A sz {}" "\<exists>q \<in> A. get64 m v = of_nat q" unfolding linked_ok by blast+
  note B = linkedD(1) [OF LK(1)]
  have zb: "z < b" using blocks_inD(1) [OF B, of b] assms(5) by simp
  obtain k where k: "below A b k" using below_exists [OF linkedD(2,3) [OF LK(1)] zb assms(3)] by blast
  have kA: "k \<in> A" "k < b" using k by (auto simp: below_def)
  obtain n where n: "is_next A k n" using next_exists' [OF LK(1) kA(1)] by blast
  have nA: "n \<in> A" using n by (simp add: is_next_def)
  obtain q where q: "q \<in> A" "get64 m v = of_nat q" using LK(3) by blast
  have bd: "a + 16 \<le> 2 ^ 40" "a + 16 * sz a \<le> 2 ^ 40" if "a \<in> insert b A" for a using blocks_inD(2,3) [OF B, of a] that by auto
  have b40: "b + 16 \<le> 2 ^ 40" "k + 16 \<le> 2 ^ 40" "n + 16 \<le> 2 ^ 40" using bd kA nA by auto
  have vv: "unat (of_nat v :: u64) = v" using adr_simps(4) [of v v] assms(7) by simp
  have fp: "freep K s = of_nat q" using q(2) assms(6) by (simp add: freep_def ld64_def m_def vv)
  have find: "kmfree_find (of_nat b) (freep K s) s = Some (of_nat k)"
    unfolding fp using kmfree_find_spec [OF assms(1,2) k _ q(1)] b40 by simp
  define m1 where "m1 = (if b + 16 * sz b = n then put64 (get64 m n) b (put64 (of_nat (sz b + sz n)) (b + 8) m) else put64 (of_nat n) b m)"
  obtain A1 sz1 where F: "linked z v A1 L sz1 {k} m1" "no_touch z A1 sz1 {k}" "k \<in> A1" "b \<in> A1" "is_next A1 k b" "A1 \<subseteq> insert b A"
      "area A1 sz1 = area A sz \<union> {b..<b + 16 * sz b}" "\<forall>a. a \<noteq> b \<longrightarrow> sz1 a = sz a" "sz1 b = (if b + 16 * sz b = n then sz b + sz n else sz b)"
    using free_first [OF LK(1,2) assms(3-5) k n m1_def] by (elim exE conjE) (rule that)
  define m2 where "m2 = (if k + 16 * sz1 k = b then put64 (get64 m1 b) k (put64 (of_nat (sz1 k + sz1 b)) (k + 8) m1) else put64 (of_nat b) k m1)"
  obtain A2 sz2 where S: "linked z v A2 L sz2 {} m2" "no_touch z A2 sz2 {}" "k \<in> A2" "A2 \<subseteq> A1" "area A2 sz2 = area A1 sz1" "\<forall>a. a \<noteq> k \<longrightarrow> sz2 a = sz1 a"
      "\<exists>c \<in> A2. sz1 b \<le> sz2 c"
    using free_second [OF F(1-5) assms(5) kA(2) m2_def] by (elim exE conjE) (rule that)
  define m3 where "m3 = put64 (of_nat k) v m2"
  have sep: "v + 8 \<le> a \<or> a + 16 \<le> v" if "a \<in> A2 \<union> L" for a using blocks_inD(5) [OF linkedD(1) [OF S(1)], of a] that by auto
  have g3: "get64 m3 a = get64 m2 a" "get64 m3 (a + 8) = get64 m2 (a + 8)" if "a \<in> A2 \<union> L" for a
    unfolding m3_def using sep [OF that] by (auto intro: get64_outside)
  have "linked z v A2 L sz2 {} m3" using S(1) g3 unfolding linked_def by auto
  moreover have "get64 m3 v = of_nat k" by (simp add: m3_def)
  ultimately have ok: "blocks_ok z v A2 L sz2 \<and> headers_ok v A2 L sz2 m3" unfolding linked_ok using S(2,3) by blast
  have link: "kmfree_link K (of_nat b) (of_nat k) s = s\<lparr>ram := m3\<rparr>"
  proof -
    have kb: "k + 16 \<le> b" using blocks_inD(6) [OF B, of k b] kA by simp
    have nb: "n + 16 \<le> b \<or> b + 16 \<le> n" using blocks_apart [OF B, of n b] nA assms(3) by blast
    have h: "h_size (of_nat b) s = of_nat (sz b)" "h_ptr (of_nat k) s = of_nat n" "h_size (of_nat n) s = of_nat (sz n)"
      using linkedD(4) [OF LK(1)] linkedD(5) [OF LK(1), of k n] kA nA n b40 by (simp_all add: header_simps m_def)
    have c1: "of_nat b + 16 * (of_nat (sz b) :: u64) = of_nat n \<longleftrightarrow> b + 16 * sz b = n"
      using adr_simps(3) [of "b + 16 * sz b" n] bd(2) [of b] b40 by simp
    have s1: "(if of_nat b + 16 * h_size (of_nat b) s = h_ptr (of_nat k) s
               then let s = set_size (of_nat b) (h_size (of_nat b) s + h_size (h_ptr (of_nat k) s) s) s in set_ptr (of_nat b) (h_ptr (h_ptr (of_nat k) s) s) s
               else set_ptr (of_nat b) (h_ptr (of_nat k) s) s) = s\<lparr>ram := m1\<rparr>"
    proof (cases "b + 16 * sz b = n")
      case True
      have e: "h_ptr (of_nat k) (s\<lparr>ram := put64 w (b + 8) (ram s)\<rparr>) = of_nat n" "h_ptr (of_nat n) (s\<lparr>ram := put64 w (b + 8) (ram s)\<rparr>) = get64 m n" for w
        using kb nb h(2) b40 by (auto simp: header_simps get64_outside m_def)
      show ?thesis using True h b40 by (simp add: c1 Let_def header_simps(3,4) e m1_def m_def)
    qed (use h b40 in \<open>simp add: c1 header_simps(3) m1_def m_def\<close>)
    let ?s = "s\<lparr>ram := m1\<rparr>"
    have h1: "h_size (of_nat k) ?s = of_nat (sz1 k)" "h_size (of_nat b) ?s = of_nat (sz1 b)"
      using linkedD(4) [OF F(1)] F(3,4) b40 by (simp_all add: header_simps)
    have "k + 16 * sz1 k \<le> 2 ^ 40" using bd(2) [of k] F(8) kA by simp
    then have c2: "of_nat k + 16 * (of_nat (sz1 k) :: u64) = of_nat b \<longleftrightarrow> k + 16 * sz1 k = b"
      using adr_simps(3) [of "k + 16 * sz1 k" b] b40 by simp
    have s2: "(if of_nat k + 16 * h_size (of_nat k) ?s = of_nat b
               then let s = set_size (of_nat k) (h_size (of_nat k) ?s + h_size (of_nat b) ?s) ?s in set_ptr (of_nat k) (h_ptr (of_nat b) s) s
               else set_ptr (of_nat k) (of_nat b) ?s) = s\<lparr>ram := m2\<rparr>"
    proof (cases "k + 16 * sz1 k = b")
      case True
      have e: "h_ptr (of_nat b) (s\<lparr>ram := put64 w (k + 8) m1\<rparr>) = get64 m1 b" for w using kb b40 by (auto simp: header_simps get64_outside)
      show ?thesis using True b40 by (simp add: h1 c2 Let_def header_simps(3,4) e m2_def)
    qed (use b40 in \<open>simp add: h1 c2 header_simps(3) m2_def\<close>)
    show ?thesis unfolding kmfree_link_def s1 Let_def [of "s\<lparr>ram := m1\<rparr>"] s2 Let_def [of "s\<lparr>ram := m2\<rparr>"]
      by (simp add: set_freep_def st64_def assms(6) vv m3_def)
  qed
  have fr: "m3 x = m x" if "\<forall>a \<in> insert b A. x < a \<or> a + 16 \<le> x" "x < v \<or> v + 8 \<le> x" for x
  proof -
    have "hdr_frame (insert b A) m m1" unfolding m1_def by (auto intro!: hdr_frame_put intro: hdr_frame_trans [OF hdr_frame_put(2) hdr_frame_put(1)])
    moreover have "hdr_frame (insert b A) m1 m2" unfolding m2_def using kA(1)
      by (auto intro!: hdr_frame_put intro: hdr_frame_trans [OF hdr_frame_put(2) hdr_frame_put(1)])
    ultimately have "m2 x = m x" using that(1) hdr_frame_trans unfolding hdr_frame_def by metis
    then show ?thesis unfolding m3_def put64_def using that(2) by (simp add: put_out)
  qed
  have "kmfree K (of_nat b + 16) s = Some (s\<lparr>ram := m3\<rparr>)" by (simp add: kmfree_def find link)
  moreover have "\<forall>a \<in> L. sz2 a = sz a"
  proof
    fix a assume "a \<in> L"
    moreover have "A \<inter> L = {}" using B unfolding blocks_in_def by blast
    ultimately have "a \<noteq> k" "a \<noteq> b" using kA(1) assms(4) by blast+
    then show "sz2 a = sz a" using S(6) F(8) by simp
  qed
  moreover have "sz b \<le> sz1 b" using F(9) by simp
  then have "\<exists>c \<in> A2. sz b \<le> sz2 c" using S(7) le_trans by blast
  ultimately show ?thesis using ok S(4,5) F(6,7) fr by (intro exI [of _ A2] exI [of _ sz2] exI [of _ m3]) (auto simp: m_def)
qed

section \<open>Allocating\<close>

lemma blocks_split:
  assumes "blocks_in z v A L sz" "p \<in> A" "1 \<le> nu" "nu < sz p" and b: "b = p + 16 * (sz p - nu)" and sz': "sz' = sz(p := sz p - nu, b := nu)"
  shows "blocks_in z v A (insert b L) sz'" "b \<notin> A \<union> L" "b \<noteq> z" "b + 16 * nu = p + 16 * sz p" "p + 16 \<le> b"
proof -
  have pz: "p \<noteq> z" "z \<le> p" using assms(1,2,4) by (auto simp: blocks_in_def)
  have e: "b + 16 * nu = p + 16 * sz p" "p + 16 \<le> b" using assms(3,4) b by auto
  show "b + 16 * nu = p + 16 * sz p" "p + 16 \<le> b" by (fact e)+
  show "b \<noteq> z" using pz e by simp
  have P: "p + ext sz p = p + 16 * sz p" using assms(3,4) by (simp add: ext_def max_def)
  have "p + ext sz p \<le> 2 ^ 40" "v + 8 \<le> p \<or> p + ext sz p \<le> v" using assms(1,2) unfolding blocks_in_def by blast+
  note P = P this
  have ap: "a + ext sz a \<le> p \<or> p + 16 * sz p \<le> a" if "a \<in> A \<union> L" "a \<noteq> p" for a
    using that assms(1,2) P(1) unfolding blocks_in_def by (metis UnI1 linorder_neqE_nat)
  have e0: "16 \<le> ext sz a" for a by (simp add: ext_def)
  show n: "b \<notin> A \<union> L"
  proof
    assume "b \<in> A \<union> L"
    moreover have "b \<noteq> p" using e by simp
    ultimately show False using ap [of b] e e0 [of b] assms(3) by fastforce
  qed
  have x: "ext sz' p = 16 * (sz p - nu)" "ext sz' b = 16 * nu" "\<And>a. a \<noteq> p \<Longrightarrow> a \<noteq> b \<Longrightarrow> ext sz' a = ext sz a"
    using e assms(3,4) by (simp_all add: sz' ext_def)
  have pe: "p + ext sz' p = b" "b + ext sz' b = p + 16 * sz p" using x e b by simp_all
  have o: "a + ext sz' a \<le> c" if ac: "a \<in> A \<union> insert b L" "c \<in> A \<union> insert b L" "a < c" for a c
  proof -
    consider "a = p" "c = b" | "a = p" "c \<noteq> b" | "a = b" | "a \<noteq> p" "a \<noteq> b" "c = b" | "a \<noteq> p" "a \<noteq> b" "c \<noteq> b" by blast
    then show ?thesis
    proof cases
      case 2
      then show ?thesis using ap [of c] ac pe e e0 [of c] by fastforce
    next
      case 3
      then show ?thesis using ap [of c] ac pe e e0 [of c] by fastforce
    next
      case 4
      then have "a + ext sz a \<le> p \<or> p + 16 * sz p \<le> a" using ap ac(1) by blast
      then show ?thesis using 4 x(3) [OF 4(1,2)] ac(3) e assms(3) by auto
    next
      case 5
      then show ?thesis using assms(1) ac x(3) unfolding blocks_in_def by auto
    qed (use pe in simp)
  qed
  have i: "z \<le> a \<and> a + ext sz' a \<le> 2 ^ 40 \<and> (a \<noteq> z \<longrightarrow> 1 \<le> sz' a) \<and> (v + 8 \<le> a \<or> a + ext sz' a \<le> v)" if "a \<in> A \<union> insert b L" for a
  proof -
    consider "a = p" | "a = b" | "a \<noteq> p" "a \<noteq> b" by blast
    then show ?thesis
    proof cases
      case 1
      then show ?thesis using pe(1) e P pz assms(3,4) by (auto simp: sz')
    next
      case 2
      then show ?thesis using pe(2) e P pz assms(3,4) by (auto simp: sz')
    next
      case 3
      then show ?thesis using assms(1) that x(3) unfolding blocks_in_def by (auto simp: sz')
    qed
  qed
  have "finite A" "z \<in> A" "A \<inter> insert b L = {}" "sz' z = 0" using assms(1) n pz \<open>b \<noteq> z\<close> unfolding blocks_in_def by (auto simp: sz')
  then show "blocks_in z v A (insert b L) sz'" unfolding blocks_in_def using o i by blast
qed

lemma circle_remove:
  assumes "linked z v A L sz {} m" "p \<in> A" "p \<noteq> z" "r \<in> A" "is_next A r p"
  shows "linked z v (A - {p}) (insert p L) sz {} (put64 (get64 m p) r m)"
proof -
  note B = linkedD(1) [OF assms(1)]
  obtain n where n: "is_next A p n" using next_exists' [OF assms(1,2)] by blast
  have z: "z \<in> A" "\<forall>c \<in> A. z \<le> c" "z < p" using linkedD(3) [OF assms(1)] blocks_inD(1) [OF B] assms(2,3) by (auto simp: order_le_less)
  note D = is_next_delete [OF assms(5) n assms(4,2) z(1,3,2)]
  have "blocks_in z v (A - {p}) (insert p L) sz" using B assms(2,3) unfolding blocks_in_def by auto
  moreover have "get64 (put64 (get64 m p) r m) (a + 8) = of_nat (sz a)" if "a \<in> A - {p} \<union> insert p L" for a
  proof -
    have a: "a \<in> A \<union> L" using that assms(2) by auto
    then have "get64 (put64 (get64 m p) r m) (a + 8) = get64 m (a + 8)"
      using blocks_apart [OF B a, of r] assms(4) by (cases "a = r") (auto intro: get64_outside)
    then show ?thesis using linkedD(4) [OF assms(1) a] by simp
  qed
  moreover have "get64 (put64 (get64 m p) r m) a = of_nat x" if "a \<in> A - {p}" "is_next (A - {p}) a x" for a x
  proof (cases "a = r")
    case True
    then have "x = n" using is_next_unique [OF D(1)] that D(3) assms(4) by auto
    then show ?thesis using True linkedD(5) [OF assms(1), of p n] n assms(2) by simp
  next
    case False
    then have a: "a \<in> A" "a \<noteq> p" using that by auto
    obtain y where y: "is_next A a y" using next_exists' [OF assms(1) a(1)] by blast
    then have "x = y" using is_next_unique [OF D(2) [OF a(1) False a(2) y] that(2)] a by simp
    moreover have "get64 (put64 (get64 m p) r m) a = get64 m a" using blocks_apart [OF B, of a r] a assms(4) False by (auto intro: get64_outside)
    ultimately show ?thesis using linkedD(5) [OF assms(1), of a y] y a by simp
  qed
  ultimately show ?thesis unfolding linked_def by blast
qed

lemma linked_split:
  assumes "linked z v A L sz {} m" "p \<in> A" "1 \<le> nu" "nu < sz p" and b: "b = p + 16 * (sz p - nu)" and sz': "sz' = sz(p := sz p - nu, b := nu)"
  shows "linked z v A (insert b L) sz' {} (put64 (of_nat nu) (b + 8) (put64 (of_nat (sz p - nu)) (p + 8) m))"
proof -
  let ?m = "put64 (of_nat nu) (b + 8) (put64 (of_nat (sz p - nu)) (p + 8) m)"
  note B = linkedD(1) [OF assms(1)] and S = blocks_split [OF linkedD(1) [OF assms(1)] assms(2-4) b sz']
  have ap: "a + 16 \<le> p \<or> p + 16 \<le> a" if "a \<in> A \<union> L" "a \<noteq> p" for a using blocks_apart [OF B that(1), of p] assms(2) that by blast
  have ab: "a + 16 \<le> b \<or> b + 16 \<le> a" if "a \<in> A \<union> L" for a using blocks_apart [OF S(1), of a b] S(2) that by blast
  have "get64 ?m (a + 8) = of_nat (sz' a)" if "a \<in> A \<union> insert b L" for a
  proof -
    consider "a = b" | "a = p" "a \<noteq> b" | "a \<noteq> p" "a \<noteq> b" by blast
    then show ?thesis
    proof cases
      case 2
      then show ?thesis using S(5) by (simp add: get64_outside sz')
    next
      case 3
      then have a: "a \<in> A \<union> L" using that by auto
      then show ?thesis using 3 ap [OF a] ab [OF a] linkedD(4) [OF assms(1) a] by (auto simp: get64_outside sz')
    qed (simp add: sz')
  qed
  moreover have "get64 ?m a = get64 m a" if "a \<in> A" for a
    using ab [of a] ap [of a] that by (cases "a = p") (auto simp: get64_outside)
  ultimately show ?thesis using S(1) assms(1) unfolding linked_def by auto
qed

lemma area_remove:
  assumes "blocks_in z v A L sz" "p \<in> A" "c \<le> 16 * sz p"
  shows "area A sz - {p + c..<p + 16 * sz p} = area (A - {p}) sz \<union> {p..<p + c}"
proof -
  have d: "{a..<a + 16 * sz a} \<inter> {p..<p + 16 * sz p} = {}" if "a \<in> A" "a \<noteq> p" for a
    using blocks_inD(6) [OF assms(1), of a p] blocks_inD(6) [OF assms(1), of p a] that assms(2) by (cases a p rule: linorder_cases) auto
  then have "area (A - {p}) sz \<inter> {p..<p + 16 * sz p} = {}" unfolding area_def by blast
  moreover have "area A sz = {p..<p + 16 * sz p} \<union> area (A - {p}) sz" using area_insert [of p "A - {p}" sz] assms(2) by (simp add: insert_absorb)
  ultimately show ?thesis using assms(3) by auto
qed

lemma take_block_spec:
  assumes "blocks_ok z v A L sz" "headers_ok v A L sz (ram s)" "r \<in> A" "p \<in> A" "is_next A r p" "1 \<le> nu" "nu \<le> sz p" "k_freep K = of_nat v" "v + 8 \<le> 2 ^ 40"
  shows "\<exists>A' sz' b m'. take_block K (of_nat nu) (of_nat r) (of_nat p) s = (of_nat (b + 16), s\<lparr>ram := m'\<rparr>) \<and>
    blocks_ok z v A' (insert b L) sz' \<and> headers_ok v A' (insert b L) sz' m' \<and> b \<notin> A' \<and> b \<notin> L \<and> b \<noteq> z \<and> sz' b = nu \<and> (\<forall>a \<in> L. sz' a = sz a) \<and>
    {b..<b + 16 * nu} \<subseteq> area A sz \<and> area A' sz' = area A sz - {b..<b + 16 * nu} \<and>
    (\<forall>x. (\<forall>a \<in> insert b A. x < a \<or> a + 16 \<le> x) \<and> (x < v \<or> v + 8 \<le> x) \<longrightarrow> m' x = ram s x)"
proof -
  define m where "m = ram s"
  have "blocks_ok z v A L sz \<and> headers_ok v A L sz m" using assms(1,2) by (simp add: m_def)
  then have LK: "linked z v A L sz {} m" "no_touch z A sz {}" unfolding linked_ok by blast+
  note B = linkedD(1) [OF LK(1)]
  have pz: "p \<noteq> z" using assms(6,7) B by (auto simp: blocks_in_def)
  have bd: "p + 16 \<le> 2 ^ 40" "r + 16 \<le> 2 ^ 40" "p + 16 * sz p \<le> 2 ^ 40" using blocks_inD(2,3) [OF B] assms(3,4) by auto
  have vv: "unat (of_nat v :: u64) = v" using adr_simps(4) [of v v] assms(9) by simp
  have hs: "h_size (of_nat p) s = of_nat (sz p)" using linkedD(4) [OF LK(1), of p] assms(4) bd(1) by (simp add: header_simps m_def)
  have n40: "sz p \<le> 2 ^ 40" "nu \<le> 2 ^ 40" using bd(3) assms(7) by linarith+
  have c: "(of_nat (sz p) :: u64) = of_nat nu \<longleftrightarrow> sz p = nu" by (rule adr_simps(3) [OF n40])
  have sep: "\<exists>m3. m3 = put64 (of_nat r) v m2 \<and> blocks_ok z v A' L' sz' \<and> headers_ok v A' L' sz' m3 \<and> (\<forall>x. (\<forall>a \<in> C. x < a \<or> a + 16 \<le> x) \<and> (x < v \<or> v + 8 \<le> x) \<longrightarrow> m3 x = m x)"
    if lk: "linked z v A' L' sz' {} m2" "no_touch z A' sz' {}" "r \<in> A'" "hdr_frame C m m2" for A' L' sz' m2 C
  proof -
    have se: "v + 8 \<le> a \<or> a + 16 \<le> v" if "a \<in> A' \<union> L'" for a using blocks_inD(5) [OF linkedD(1) [OF lk(1)], of a] that by auto
    have "get64 (put64 (of_nat r) v m2) a = get64 m2 a" "get64 (put64 (of_nat r) v m2) (a + 8) = get64 m2 (a + 8)" if "a \<in> A' \<union> L'" for a
      using se [OF that] by (auto intro: get64_outside)
    then have "linked z v A' L' sz' {} (put64 (of_nat r) v m2)" using lk(1) unfolding linked_def by auto
    then have "blocks_ok z v A' L' sz' \<and> headers_ok v A' L' sz' (put64 (of_nat r) v m2)" unfolding linked_ok using lk(2,3) by auto
    then show ?thesis using lk(4) by (auto simp: hdr_frame_def put64_def put_out)
  qed
  show ?thesis
  proof (cases "sz p = nu")
    case True
    have rp: "r \<noteq> p" using is_next_delete(3) [OF assms(5) _ assms(3,4)] next_exists' [OF LK(1) assms(4)] linkedD(3) [OF LK(1)] blocks_inD(1) [OF B] pz assms(4)
      by (metis UnI1 less_irrefl order_le_less)
    have "no_touch z (A - {p}) sz {}" using LK(2) by (auto simp: no_touch_def)
    moreover have "hdr_frame (insert p A) m (put64 (get64 m p) r m)" using assms(3) by (intro hdr_frame_put) simp
    ultimately obtain m3 where m3: "m3 = put64 (of_nat r) v (put64 (get64 m p) r m)" "blocks_ok z v (A - {p}) (insert p L) sz" "headers_ok v (A - {p}) (insert p L) sz m3"
        "\<forall>x. (\<forall>a \<in> insert p A. x < a \<or> a + 16 \<le> x) \<and> (x < v \<or> v + 8 \<le> x) \<longrightarrow> m3 x = m x"
      using sep [OF circle_remove [OF LK(1) assms(4) pz assms(3,5)]] assms(3) rp by blast
    have "take_block K (of_nat nu) (of_nat r) (of_nat p) s = (of_nat (p + 16), s\<lparr>ram := m3\<rparr>)"
      using True bd by (simp add: take_block_def hs header_simps set_freep_def st64_def assms(8) vv m3(1) m_def add.commute)
    moreover have "p \<notin> L" using B assms(4) by (auto simp: blocks_in_def)
    moreover have "area A sz - {p..<p + 16 * nu} = area (A - {p}) sz" using area_remove [OF B assms(4), of 0] True by simp
    moreover have "{p..<p + 16 * nu} \<subseteq> area A sz" using True assms(4) by (auto simp: area_def)
    ultimately show ?thesis using m3 pz True unfolding m_def by (intro exI [of _ "A - {p}"] exI [of _ sz] exI [of _ p] exI [of _ m3]) simp
  next
    case False
    define b where "b = p + 16 * (sz p - nu)"
    define sz' where "sz' = sz(p := sz p - nu, b := nu)"
    let ?m = "put64 (of_nat nu) (b + 8) (put64 (of_nat (sz p - nu)) (p + 8) m)"
    have lt: "nu < sz p" using False assms(7) by simp
    note S = blocks_split [OF B assms(4,6) lt b_def sz'_def]
    have b40: "b + 16 \<le> 2 ^ 40" using S(4) bd(3) assms(6) by linarith
    have "no_touch z A sz' {}"
      unfolding no_touch_def
    proof (intro ballI impI)
      fix a assume a: "a \<in> A - {}" "a \<noteq> z"
      then have "a \<noteq> b" using S(2) by blast
      then show "a + 16 * sz' a \<notin> A" using a LK(2) S(2) by (cases "a = p") (auto simp: no_touch_def sz'_def b_def)
    qed
    moreover have "hdr_frame (insert b A) m ?m" by (rule hdr_frame_trans [OF hdr_frame_put(2) hdr_frame_put(2)]) (simp_all add: assms(4))
    ultimately obtain m3 where m3: "m3 = put64 (of_nat r) v ?m" "blocks_ok z v A (insert b L) sz'" "headers_ok v A (insert b L) sz' m3"
        "\<forall>x. (\<forall>a \<in> insert b A. x < a \<or> a + 16 \<le> x) \<and> (x < v \<or> v + 8 \<le> x) \<longrightarrow> m3 x = m x"
      using sep [OF linked_split [OF LK(1) assms(4,6) lt b_def sz'_def]] assms(3) by blast
    have "(of_nat (sz p) :: u64) - of_nat nu = of_nat (sz p - nu)" using lt by (simp add: of_nat_diff)
    moreover have pb: "of_nat p + 16 * (of_nat (sz p - nu) :: u64) = of_nat b" by (simp add: b_def)
    ultimately have "take_block K (of_nat nu) (of_nat r) (of_nat p) s = (of_nat (b + 16), s\<lparr>ram := m3\<rparr>)"
      using False bd b40 by (simp add: take_block_def Let_def hs c header_simps set_freep_def st64_def assms(8) vv m3(1) m_def add.commute)
    moreover have "area A sz' = area A sz - {b..<b + 16 * nu}"
    proof -
      have "area A sz - {p + 16 * (sz p - nu)..<p + 16 * sz p} = area (A - {p}) sz \<union> {p..<p + 16 * (sz p - nu)}" by (rule area_remove [OF B assms(4)]) simp
      moreover have "sz' a = sz a" if "a \<in> A - {p}" for a using that S(2) by (auto simp: sz'_def)
      then have "area (A - {p}) sz' = area (A - {p}) sz" by (simp add: area_def)
      moreover have "area A sz' = {p..<p + 16 * sz' p} \<union> area (A - {p}) sz'" using area_insert [of p "A - {p}" sz'] assms(4) by (simp add: insert_absorb)
      moreover have "sz' p = sz p - nu" using S(5) by (simp add: sz'_def)
      ultimately show ?thesis using S(4) by (simp add: b_def [symmetric] Un_commute)
    qed
    moreover have "{b..<b + 16 * nu} \<subseteq> {p..<p + 16 * sz p}" unfolding S(4) using S(5) by auto
    then have "{b..<b + 16 * nu} \<subseteq> area A sz" using assms(4) unfolding area_def by blast
    moreover have "\<forall>a \<in> L. sz' a = sz a" using S(2) B assms(4) by (auto simp: sz'_def blocks_in_def)
    ultimately show ?thesis using m3 S(2,3) unfolding m_def by (intro exI [of _ A] exI [of _ sz'] exI [of _ b] exI [of _ m3]) (simp add: sz'_def)
  qed
qed

text \<open>One round of the search: a block that fits, or none does.\<close>

lemma kmalloc_scan:
  assumes "blocks_ok z v A L sz" "headers_ok v A L sz (ram s)" "k_freep K = of_nat v" "v + 8 \<le> 2 ^ 40" "nu \<le> 2 ^ 40" "q \<in> A" "get64 (ram s) v = of_nat q"
    "r \<in> A" "is_next A r p"
  shows "(\<exists>r' p'. r' \<in> A \<and> p' \<in> A \<and> is_next A r' p' \<and> nu \<le> sz p' \<and>
      kmalloc_loop K (of_nat nu) (of_nat r) (of_nat p) s = Some (take_block K (of_nat nu) (of_nat r') (of_nat p') s)) \<or>
    (\<forall>c \<in> insert q (on_way A q p). sz c < nu) \<and>
      kmalloc_loop K (of_nat nu) (of_nat r) (of_nat p) s = do {
        (p, s) \<leftarrow> morecore K s;
        if p = 0 then Some (0, s) else kmalloc_loop K (of_nat nu) p (h_ptr p s) s
      }"
  using assms(8,9)
proof (induction "Finite_Set.card (on_way A q p)" arbitrary: r p rule: less_induct)
  case less
  have A: "finite A" using assms(1) by (simp add: blocks_ok_def blocks_in_def)
  have pA: "p \<in> A" using less.prems(2) by (simp add: is_next_def)
  obtain n where n: "is_next A p n" using next_exists [OF A pA] by blast
  have bd: "p + 16 \<le> 2 ^ 40" "p + 16 * sz p \<le> 2 ^ 40" "q + 16 \<le> 2 ^ 40" using blocks_okD(2,3) [OF assms(1)] pA assms(6) by auto
  have h: "h_ptr (of_nat p) s = of_nat n" "h_size (of_nat p) s = of_nat (sz p)" using assms(2) n pA bd(1) by (simp_all add: headers_ok_def header_simps)
  have vv: "unat (of_nat v :: u64) = v" using adr_simps(4) [of v v] assms(4) by simp
  have fp: "freep K s = of_nat q" using assms(3,7) by (simp add: freep_def ld64_def vv)
  have c: "(of_nat nu :: u64) \<le> of_nat (sz p) \<longleftrightarrow> nu \<le> sz p" "(of_nat p :: u64) = of_nat q \<longleftrightarrow> p = q"
    using adr_simps(2) [of nu "sz p"] adr_simps(3) [of p q] bd assms(5) by simp_all
  note st = kmalloc_loop.simps [of K "of_nat nu" "of_nat r" "of_nat p" s, unfolded h fp c]
  consider "nu \<le> sz p" | "sz p < nu" "p = q" | "sz p < nu" "p \<noteq> q" by linarith
  then show ?case
  proof cases
    case 1
    then show ?thesis using st less.prems pA by auto
  next
    case 2
    then have "on_way A q p = {}" by (auto simp: on_way_def)
    then show ?thesis using 2 st by simp
  next
    case 3
    note W = on_way_next [OF n pA assms(6) 3(2)]
    have "Finite_Set.card (on_way A q n) < Finite_Set.card (on_way A q p)" unfolding W(1) using W(2) A by (simp add: on_way_def card_insert_disjoint)
    then have ih: "(\<exists>r' p'. r' \<in> A \<and> p' \<in> A \<and> is_next A r' p' \<and> nu \<le> sz p' \<and>
        kmalloc_loop K (of_nat nu) (of_nat p) (of_nat n) s = Some (take_block K (of_nat nu) (of_nat r') (of_nat p') s)) \<or>
      (\<forall>c \<in> insert q (on_way A q n). sz c < nu) \<and>
        kmalloc_loop K (of_nat nu) (of_nat p) (of_nat n) s = do { (p, s) \<leftarrow> morecore K s; if p = 0 then Some (0, s) else kmalloc_loop K (of_nat nu) p (h_ptr p s) s }"
      using less.hyps pA n by blast
    have eq: "kmalloc_loop K (of_nat nu) (of_nat r) (of_nat p) s = kmalloc_loop K (of_nat nu) (of_nat p) (of_nat n) s" using st 3 by simp
    show ?thesis unfolding eq W(1) using ih 3(1) by blast
  qed
qed

section \<open>The heap\<close>

text \<open>
  The invariant: free and live blocks are disjoint and lie in pages taken from the page allocator, and the
  circle is intact, or the allocator was never called.
\<close>

definition kml_ok :: "kml \<Rightarrow> nat set \<Rightarrow> nat set \<Rightarrow> (nat \<Rightarrow> nat) \<Rightarrow> 'a vm_scheme \<Rightarrow> bool" where
  "kml_ok K A L sz s \<longleftrightarrow> (let z = unat (k_base K); v = unat (k_freep K) in
     0 < z \<and> z + 16 \<le> PAGE_START \<and> v + 8 \<le> PAGE_START \<and> vm_ok s \<and> blocks_ok z v A L sz \<and>
     (headers_ok v A L sz (ram s) \<or> get64 (ram s) v = 0 \<and> A = {z} \<and> L = {}) \<and>
     (\<forall>x \<in> area (A \<union> L) sz. \<exists>p \<in> live_pages s. p \<le> x \<and> x < p + 4096))"

lemma kalloc_post:
  assumes ok: "vm_ok s" and k: "kalloc s = Some (a, s')"
  shows "vm_ok s'" "a \<notin> live_pages s" "live_pages s' = insert a (live_pages s)" "s' = s\<lparr>pages := pages s', free_lists := free_lists s'\<rparr>"
proof -
  obtain p where b: "buddy_alloc PAGE_SIZE s = Some (p, s')" using k by (auto simp: kalloc_def)
  then have p: "alloc_post 0 s p s'" using buddy_alloc_cases [OF _ _ _ find_order_0_page, of s] ok by (auto simp: vm_ok_def split: if_splits)
  note ap = p [unfolded alloc_post_def]
  have hs: "held s' = held s" using ap buddy_upd_held by blast
  then show "vm_ok s'" using ok ap by (simp add: vm_ok_def)
  have a: "a = PAGE_START + PAGE_SIZE * p" using k b ap by (simp add: kalloc_def page_address_def)
  show "live_pages s' = insert a (live_pages s)" using ap unfolding a by (auto simp only: live_pages_def image_insert fst_conv)
  show "a \<notin> live_pages s" unfolding a live_pages_def using alloc_post_new [OF p] inj_image_mem_iff [OF inj_page_number] by blast
  show "s' = s\<lparr>pages := pages s', free_lists := free_lists s'\<rparr>" using ap by blast
qed

lemma PAGE_START_bound: "PAGE_START \<le> 2 ^ 40"
  by (simp add: PAGE_START_def PHYSTOP_def KERNBASE_def PAGE_SIZE_def PAGE_NUM_def)

text \<open>A new page becomes a live block of 256 units.\<close>

lemma new_page_block:
  assumes "kml_ok K A L sz s" "headers_ok (unat (k_freep K)) A L sz (ram s)" "pg \<notin> live_pages s" "pg \<in> live_pages s'" "ram s' = ram s"
    and m: "m = put64 256 (pg + 8) (memset (ram s) pg 0 4096)"
  shows "blocks_ok (unat (k_base K)) (unat (k_freep K)) A (insert pg L) (sz(pg := 256))" "headers_ok (unat (k_freep K)) A (insert pg L) (sz(pg := 256)) m" "pg \<notin> A \<union> L"
    "\<And>x. x < pg \<or> pg + 4096 \<le> x \<Longrightarrow> m x = ram s x"
proof -
  define z where "z = unat (k_base K)"
  define v where "v = unat (k_freep K)"
  have K: "0 < z" "z + 16 \<le> PAGE_START" "v + 8 \<le> PAGE_START" "blocks_ok z v A L sz" "\<forall>x \<in> area (A \<union> L) sz. \<exists>p \<in> live_pages s. p \<le> x \<and> x < p + 4096"
    using assms(1) by (simp_all add: kml_ok_def Let_def z_def v_def)
  have B: "blocks_in z v A L sz" "\<forall>a \<in> A. a \<noteq> z \<longrightarrow> a + 16 * sz a \<notin> A" using K(4) by (auto simp: blocks_ok_def)
  have pg: "PAGE_START \<le> pg" "pg < 2 ^ 32" using live_page [OF assms(4)] by simp_all
  have sep: "a + ext sz a \<le> pg \<or> pg + 4096 \<le> a" if a: "a \<in> A \<union> L" for a
  proof (cases "a = z")
    case True
    then show ?thesis using K(2) pg(1) B(1) by (auto simp: ext_def blocks_in_def)
  next
    case False
    have n: "1 \<le> sz a" using blocks_inD(4) [OF B(1) a False] .
    have ov: "\<not> (pg \<le> x \<and> x < pg + 4096)" if "a \<le> x" "x < a + 16 * sz a" for x
    proof
      assume x: "pg \<le> x \<and> x < pg + 4096"
      have "x \<in> area (A \<union> L) sz" using a that by (auto simp: area_def)
      then obtain p where p: "p \<in> live_pages s" "p \<le> x" "x < p + 4096" using K(5) by blast
      then have "p \<noteq> pg" using assms(3) by blast
      then show False using live_apart [OF p(1) assms(4)] p x by linarith
    qed
    have "ext sz a = 16 * sz a" using n by (simp add: ext_def)
    moreover have "a + 16 * sz a \<le> pg \<or> pg + 4096 \<le> a"
    proof (rule ccontr)
      assume "\<not> (a + 16 * sz a \<le> pg \<or> pg + 4096 \<le> a)"
      then show False using ov [of a] ov [of pg] n by (cases "a \<le> pg") auto
    qed
    ultimately show ?thesis by simp
  qed
  have e: "ext (sz(pg := 256)) pg = 4096" "\<And>a. a \<noteq> pg \<Longrightarrow> ext (sz(pg := 256)) a = ext sz a" by (simp_all add: ext_def)
  show nAL: "pg \<notin> A \<union> L" using sep [of pg] by (auto simp: ext_def)
  have "blocks_in z v A (insert pg L) (sz(pg := 256))"
    unfolding blocks_in_def
  proof (intro conjI ballI impI)
    show "finite A" "z \<in> A" using B(1) by (auto simp: blocks_in_def)
    show "A \<inter> insert pg L = {}" using B(1) nAL by (auto simp: blocks_in_def)
    show "(sz(pg := 256)) z = 0" using B(1) K(2) pg(1) by (auto simp: blocks_in_def)
    fix a assume a: "a \<in> A \<union> insert pg L"
    show "z \<le> a" "a + ext (sz(pg := 256)) a \<le> 2 ^ 40" "v + 8 \<le> a \<or> a + ext (sz(pg := 256)) a \<le> v"
      using a B(1) e K(2,3) pg unfolding blocks_in_def by (cases "a = pg"; force)+
    show "a \<noteq> z \<Longrightarrow> 1 \<le> (sz(pg := 256)) a" using a B(1) unfolding blocks_in_def by (cases "a = pg") auto
    fix b assume b: "b \<in> A \<union> insert pg L" "a < b"
    show "a + ext (sz(pg := 256)) a \<le> b"
    proof (cases "a = pg \<or> b = pg")
      case True
      then show ?thesis using a b e sep [of a] sep [of b] by (auto simp: ext_def)
    next
      case False
      then show ?thesis using a b e B(1) unfolding blocks_in_def by auto
    qed
  qed
  moreover have "\<forall>a \<in> A. a \<noteq> z \<longrightarrow> a + 16 * (sz(pg := 256)) a \<notin> A" using B(2) nAL by auto
  ultimately show "blocks_ok (unat (k_base K)) (unat (k_freep K)) A (insert pg L) (sz(pg := 256))" unfolding blocks_ok_def z_def v_def by blast
  show mo: "m x = ram s x" if "x < pg \<or> pg + 4096 \<le> x" for x using that unfolding m put64_def memset_eq by (subst put_out) auto
  have g: "get64 m c = get64 (ram s) c" if "c + 8 \<le> pg \<or> pg + 4096 \<le> c" for c using that mo by (intro get_cong) auto
  have "get64 m (a + 8) = get64 (ram s) (a + 8)" "get64 m a = get64 (ram s) a" if "a \<in> A \<union> L" for a
    using sep [OF that] by (auto intro!: g simp: ext_def)
  moreover have "get64 m v = get64 (ram s) v" using K(3) pg(1) by (intro g) simp
  moreover have "get64 m (pg + 8) = 256" by (simp add: m)
  ultimately show "headers_ok (unat (k_freep K)) A (insert pg L) (sz(pg := 256)) m"
    using assms(2) nAL unfolding headers_ok_def v_def [symmetric] by auto
qed

text \<open>What an operation leaves alone: live blocks, other allocated pages, and memory below the pages but the two variables.\<close>

definition heap_frame :: "kml \<Rightarrow> nat set \<Rightarrow> (nat \<Rightarrow> nat) \<Rightarrow> 'a vm_scheme \<Rightarrow> 'a vm_scheme \<Rightarrow> bool" where
  "heap_frame K A sz s s' \<longleftrightarrow> (\<forall>x. x \<notin> area A sz \<and> (x < unat (k_base K) \<or> unat (k_base K) + 16 \<le> x) \<and> (x < unat (k_freep K) \<or> unat (k_freep K) + 8 \<le> x) \<and>
     (x < PAGE_START \<or> (\<exists>p \<in> live_pages s. p \<le> x \<and> x < p + 4096)) \<longrightarrow> ram s' x = ram s x)"

lemma heap_frameI:
  assumes "kml_ok K A L sz s" "B \<subseteq> A" "\<And>x. (\<forall>a \<in> B. x < a \<or> a + 16 \<le> x) \<and> (x < unat (k_freep K) \<or> unat (k_freep K) + 8 \<le> x) \<and> x \<notin> P \<Longrightarrow> ram s' x = ram s x"
    "\<And>x. x \<in> P \<Longrightarrow> x \<in> area A sz \<or> PAGE_START \<le> x \<and> (\<forall>p \<in> live_pages s. \<not> (p \<le> x \<and> x < p + 4096))"
  shows "heap_frame K A sz s s'"
  unfolding heap_frame_def
proof (intro allI impI)
  fix x assume x: "x \<notin> area A sz \<and> (x < unat (k_base K) \<or> unat (k_base K) + 16 \<le> x) \<and> (x < unat (k_freep K) \<or> unat (k_freep K) + 8 \<le> x) \<and>
     (x < PAGE_START \<or> (\<exists>p \<in> live_pages s. p \<le> x \<and> x < p + 4096))"
  have "x < a \<or> a + 16 \<le> x" if "a \<in> B" for a
  proof (cases "a = unat (k_base K)")
    case False
    then have "1 \<le> sz a" using assms(1,2) that blocks_okD(4) [of "unat (k_base K)" "unat (k_freep K)" A L sz a] unfolding kml_ok_def Let_def by auto
    moreover have "x \<notin> {a..<a + 16 * sz a}" using x that assms(2) unfolding area_def by blast
    ultimately show ?thesis by auto
  qed (use x in simp)
  moreover have "x \<notin> P" using assms(4) [of x] x by (metis not_le)
  ultimately show "ram s' x = ram s x" using assms(3) [of x] x by blast
qed

lemma morecore_spec:
  assumes ok: "kml_ok K A L sz s" "headers_ok (unat (k_freep K)) A L sz (ram s)" and ka: "kalloc s \<noteq> None"
  shows "\<exists>A' sz' s' q. morecore K s = Some (of_nat q, s') \<and> kml_ok K A' L sz' s' \<and> headers_ok (unat (k_freep K)) A' L sz' (ram s') \<and>
    q \<in> A' \<and> get64 (ram s') (unat (k_freep K)) = of_nat q \<and> (\<exists>c \<in> A'. 256 \<le> sz' c) \<and> (\<forall>a \<in> L. sz' a = sz a) \<and> heap_frame K A sz s s' \<and>
    live_pages s \<subseteq> live_pages s' \<and> (\<forall>x \<in> area A' sz' - area A sz. PAGE_START \<le> x \<and> (\<forall>p \<in> live_pages s. \<not> (p \<le> x \<and> x < p + 4096)))"
proof -
  define z where "z = unat (k_base K)"
  define v where "v = unat (k_freep K)"
  obtain pg t where k: "kalloc s = Some (pg, t)" using ka by auto
  have K: "0 < z" "z + 16 \<le> PAGE_START" "v + 8 \<le> PAGE_START" "vm_ok s" "\<forall>x \<in> area (A \<union> L) sz. \<exists>p \<in> live_pages s. p \<le> x \<and> x < p + 4096" "blocks_ok z v A L sz"
    using ok(1) by (simp_all add: kml_ok_def Let_def z_def v_def)
  note P = kalloc_post [OF K(4) k]
  have rt: "ram t = ram s" by (subst P(4)) simp
  have pt: "pg \<in> live_pages t" using P(3) by simp
  have pg: "PAGE_START \<le> pg" "pg < 2 ^ 32" using live_page [OF pt] by simp_all
  have up: "unat (of_nat pg :: u64) = pg" "(of_nat pg :: u64) \<noteq> 0" "unat (of_nat pg + 8 :: u64) = pg + 8"
    using adr_simps(4) [of pg pg] adr_simps(3) [of pg 0] adr_simps(4) [of "pg + 8" pg] pg K(1,2) by auto
  define m where "m = put64 256 (pg + 8) (memset (ram s) pg 0 4096)"
  note N = new_page_block [OF ok P(2) pt rt m_def, folded z_def v_def]
  have fv: "k_freep K = of_nat v" by (simp add: v_def)
  have v40: "v + 8 \<le> 2 ^ 40" using K(3) PAGE_START_bound by linarith
  have pz: "pg \<noteq> z" "pg \<notin> A" "pg \<notin> L" using K(2) pg N(3) by auto
  have hm: "headers_ok v A (insert pg L) (sz(pg := 256)) (ram (t\<lparr>ram := m\<rparr>))" using N(2) by simp
  obtain A' sz' m' where F: "kmfree K (of_nat pg + 16) (t\<lparr>ram := m\<rparr>) = Some (t\<lparr>ram := m, ram := m'\<rparr>)" "blocks_ok z v A' L sz'" "headers_ok v A' L sz' m'"
      "area A' sz' = area A (sz(pg := 256)) \<union> {pg..<pg + 16 * (sz(pg := 256)) pg}" "\<forall>a \<in> L. sz' a = (sz(pg := 256)) a" "A' \<subseteq> insert pg A"
      "\<exists>c \<in> A'. (sz(pg := 256)) pg \<le> sz' c" "\<forall>x. (\<forall>a \<in> insert pg A. x < a \<or> a + 16 \<le> x) \<and> (x < v \<or> v + 8 \<le> x) \<longrightarrow> m' x = ram (t\<lparr>ram := m\<rparr>) x"
    using kmfree_spec [OF N(1) hm pz(2,3,1) fv v40] by (elim exE conjE) (rule that)
  have "area A (sz(pg := 256)) = area A sz" using pz(2) by (auto simp: area_def split: if_splits)
  then have ar: "area A' sz' = area A sz \<union> {pg..<pg + 4096}" using F(4) by simp
  let ?s = "t\<lparr>ram := m'\<rparr>"
  obtain q where q: "q \<in> A'" "get64 m' v = of_nat q" using F(3) by (auto simp: headers_ok_def)
  have "set_size (of_nat pg) (PGSIZE div 16) (zero_at (of_nat pg) t) = t\<lparr>ram := m\<rparr>"
    by (simp add: set_size_def zero_at_def st64_def up m_def rt PGSIZE_def)
  then have mc: "morecore K s = Some (of_nat q, ?s)" using up(2) F(1) q(2) by (simp add: morecore_def k Let_def freep_def ld64_def v_def [symmetric])
  have lp: "live_pages ?s = insert pg (live_pages s)" using P(3) by (simp add: live_pages_def)
  have cov: "\<exists>p \<in> live_pages ?s. p \<le> x \<and> x < p + 4096" if "x \<in> area (A' \<union> L) sz'" for x
  proof -
    have "\<forall>a \<in> L. sz' a = sz a" using F(5) pz(3) by auto
    then have "area L sz' = area L sz" by (simp add: area_def)
    then have "x \<in> area (A \<union> L) sz \<or> pg \<le> x \<and> x < pg + 4096" using that ar by (auto simp: area_Un)
    then show ?thesis unfolding lp using K(5) by blast
  qed
  have "vm_ok ?s" using P(1) by (simp add: vm_ok_def buddy_inv_def)
  then have kok: "kml_ok K A' L sz' ?s" unfolding kml_ok_def Let_def using K(1-3) F(2,3) cov by (simp add: z_def v_def)
  have out: "PAGE_START \<le> x \<and> (\<forall>p \<in> live_pages s. \<not> (p \<le> x \<and> x < p + 4096))" if "x \<in> {pg..<pg + 4096}" for x
    using that pg(1) live_apart [OF _ pt, of _ s] P(2) by fastforce
  have "heap_frame K A sz s ?s"
  proof (rule heap_frameI [OF ok(1) subset_refl, of "{pg..<pg + 4096}"])
    show "ram ?s x = ram s x" if "(\<forall>a \<in> A. x < a \<or> a + 16 \<le> x) \<and> (x < unat (k_freep K) \<or> unat (k_freep K) + 8 \<le> x) \<and> x \<notin> {pg..<pg + 4096}" for x
      using that F(8) N(4) [of x] by (auto simp: v_def)
  qed (use out in blast)
  then show ?thesis using mc kok F(3,5,7) q pz(3) lp out ar
    by (intro exI [of _ A'] exI [of _ sz'] exI [of _ ?s] exI [of _ q]) (auto simp: v_def)
qed

lemma kml_frame_trans:
  assumes "heap_frame K A sz s t" "heap_frame K A' sz' t u" "live_pages s \<subseteq> live_pages t"
    "\<forall>x \<in> area A' sz' - area A sz. PAGE_START \<le> x \<and> (\<forall>p \<in> live_pages s. \<not> (p \<le> x \<and> x < p + 4096))"
  shows "heap_frame K A sz s u"
  using assms unfolding heap_frame_def by (smt (verit) DiffI not_le subsetD)

text \<open>A block that fits is taken.\<close>

lemma kmalloc_take:
  assumes ok: "kml_ok K A L sz s" "headers_ok (unat (k_freep K)) A L sz (ram s)" and nu: "1 \<le> nu" "nu \<le> sz p" and p: "r \<in> A" "p \<in> A" "is_next A r p"
  shows "\<exists>A' sz' b s'. take_block K (of_nat nu) (of_nat r) (of_nat p) s = (of_nat (b + 16), s') \<and> kml_ok K A' (insert b L) sz' s' \<and> b \<notin> L \<and> sz' b = nu \<and>
    (\<forall>a \<in> L. sz' a = sz a) \<and> heap_frame K A sz s s' \<and> b + 16 \<le> 2 ^ 40 \<and> live_pages s' = live_pages s"
proof -
  define z where "z = unat (k_base K)"
  define v where "v = unat (k_freep K)"
  have K: "0 < z" "z + 16 \<le> PAGE_START" "v + 8 \<le> PAGE_START" "vm_ok s" "\<forall>x \<in> area (A \<union> L) sz. \<exists>p \<in> live_pages s. p \<le> x \<and> x < p + 4096" "blocks_ok z v A L sz"
    using ok(1) by (simp_all add: kml_ok_def Let_def z_def v_def)
  have fv: "k_freep K = of_nat v" by (simp add: v_def)
  have v40: "v + 8 \<le> 2 ^ 40" using K(3) PAGE_START_bound by linarith
  obtain A' sz' b m' where T: "take_block K (of_nat nu) (of_nat r) (of_nat p) s = (of_nat (b + 16), s\<lparr>ram := m'\<rparr>)" "blocks_ok z v A' (insert b L) sz'" "headers_ok v A' (insert b L) sz' m'"
      "b \<notin> A'" "b \<notin> L" "b \<noteq> z" "sz' b = nu" "\<forall>a \<in> L. sz' a = sz a" "{b..<b + 16 * nu} \<subseteq> area A sz" "area A' sz' = area A sz - {b..<b + 16 * nu}"
      "\<forall>x. (\<forall>a \<in> insert b A. x < a \<or> a + 16 \<le> x) \<and> (x < v \<or> v + 8 \<le> x) \<longrightarrow> m' x = ram s x"
    using take_block_spec [OF K(6) ok(2) [folded v_def] p nu fv v40] by (elim exE conjE) (rule that)
  let ?s = "s\<lparr>ram := m'\<rparr>"
  have lp: "live_pages ?s = live_pages s" by (simp add: live_pages_def)
  have "area (A' \<union> insert b L) sz' \<subseteq> area (A \<union> L) sz"
  proof
    fix x assume "x \<in> area (A' \<union> insert b L) sz'"
    then have "x \<in> area A' sz' \<or> x \<in> {b..<b + 16 * nu} \<or> x \<in> area L sz'" using T(7) by (auto simp: area_def)
    moreover have "area L sz' = area L sz" using T(8) by (simp add: area_def)
    ultimately have "x \<in> area A sz \<or> x \<in> area L sz" using T(9,10) by auto
    then show "x \<in> area (A \<union> L) sz" by (auto simp: area_def)
  qed
  then have "\<forall>x \<in> area (A' \<union> insert b L) sz'. \<exists>p \<in> live_pages ?s. p \<le> x \<and> x < p + 4096" unfolding lp using K(5) by blast
  moreover have "vm_ok ?s" using K(4) by (simp add: vm_ok_def buddy_inv_def)
  ultimately have "kml_ok K A' (insert b L) sz' ?s" unfolding kml_ok_def Let_def using K(1-3) T(2,3) by (simp add: z_def v_def)
  moreover have "heap_frame K A sz s ?s"
  proof (rule heap_frameI [OF ok(1) subset_refl, of "{b..<b + 16 * nu}"])
    show "ram ?s x = ram s x" if x: "(\<forall>a \<in> A. x < a \<or> a + 16 \<le> x) \<and> (x < unat (k_freep K) \<or> unat (k_freep K) + 8 \<le> x) \<and> x \<notin> {b..<b + 16 * nu}" for x
    proof -
      have "x < b \<or> b + 16 \<le> x" using x nu(1) by auto
      then show ?thesis using x T(11) by (auto simp: v_def)
    qed
  qed (use T(9) in blast)
  moreover have "b + 16 \<le> 2 ^ 40" using blocks_okD(2) [OF T(2), of b] by simp
  ultimately show ?thesis using T(1,5,7,8) lp by blast
qed

lemma kml_init:
  assumes ok: "kml_ok K A L sz s"
    and t: "t = (if freep K s = 0 then set_size (k_base K) 0 (set_freep K (k_base K) (set_ptr (k_base K) (k_base K) s)) else s)"
  shows "kml_ok K A L sz t" "headers_ok (unat (k_freep K)) A L sz (ram t)" "heap_frame K A sz s t" "live_pages t = live_pages s" "mem_free t = mem_free s"
proof -
  define z where "z = unat (k_base K)"
  define v where "v = unat (k_freep K)"
  have K: "0 < z" "z + 16 \<le> PAGE_START" "v + 8 \<le> PAGE_START" "vm_ok s" "\<forall>x \<in> area (A \<union> L) sz. \<exists>p \<in> live_pages s. p \<le> x \<and> x < p + 4096" "blocks_ok z v A L sz"
      "headers_ok v A L sz (ram s) \<or> get64 (ram s) v = 0 \<and> A = {z} \<and> L = {}"
    using ok(1) by (simp_all add: kml_ok_def Let_def z_def v_def)
  have fr: "freep K s = get64 (ram s) v" by (simp add: freep_def ld64_def v_def)
  have "kml_ok K A L sz t \<and> headers_ok v A L sz (ram t) \<and> heap_frame K A sz s t \<and> live_pages t = live_pages s \<and> mem_free t = mem_free s"
  proof (cases "get64 (ram s) v = 0")
    case False
    then have "t = s" using t fr by simp
    then show ?thesis using ok K(7) False by (simp add: heap_frame_def)
  next
    case True
    have c: "A = {z}" "L = {}"
    proof -
      have "\<not> headers_ok v A L sz (ram s)"
      proof
        assume "headers_ok v A L sz (ram s)"
        then obtain q where q: "q \<in> A" "(of_nat q :: u64) = 0" using True by (auto simp: headers_ok_def)
        have "z \<le> q" "q \<le> 2 ^ 40" using blocks_okD(1,2) [OF K(6), of q] q(1) by auto
        then show False using adr_simps(3) [of q 0] q(2) K(1) by simp
      qed
      then show "A = {z}" "L = {}" using K(7) by auto
    qed
    have sz: "sz z = 0" "v + 8 \<le> z \<or> z + 16 \<le> v" using K(6) blocks_okD(5) [OF K(6), of z] by (auto simp: c blocks_ok_def blocks_in_def)
    have z8: "unat (k_base K + 8) = z + 8"
    proof -
      have "k_base K + 8 = of_nat (z + 8)" by (simp add: z_def)
      then show ?thesis using adr_simps(4) [of "z + 8" z] K(2) PAGE_START_bound by simp
    qed
    have rt: "t = s\<lparr>ram := put64 0 (z + 8) (put64 (k_base K) v (put64 (k_base K) z (ram s)))\<rparr>"
      using t True z8 by (simp add: fr set_size_def set_freep_def set_ptr_def st64_def z_def v_def)
    have kb: "k_base K = of_nat z" by (simp add: z_def)
    have "headers_ok v A L sz (ram t)" using sz unfolding c headers_ok_def rt kb by (auto simp: get64_outside is_next_def)
    moreover have lp: "live_pages t = live_pages s" "mem_free t = mem_free s" by (simp_all add: rt live_pages_def mem_free_def)
    moreover have "vm_ok t" using K(4) by (simp add: rt vm_ok_def buddy_inv_def)
    moreover have "heap_frame K A sz s t" unfolding heap_frame_def rt z_def [symmetric] v_def [symmetric] by (auto simp: put64_def put_out)
    ultimately show ?thesis using K by (simp add: kml_ok_def Let_def z_def [symmetric] v_def [symmetric])
  qed
  then show "kml_ok K A L sz t" "headers_ok (unat (k_freep K)) A L sz (ram t)" "heap_frame K A sz s t" "live_pages t = live_pages s" "mem_free t = mem_free s"
    unfolding v_def by blast+
qed

definition units :: "u64 \<Rightarrow> nat" where
  "units nbytes = (unat nbytes + 15) div 16 + 1"

lemma units_word:
  assumes "nbytes \<le> PGSIZE - 16"
  shows "(nbytes + 16 - 1) div 16 + 1 = of_nat (units nbytes)" "1 \<le> units nbytes" "units nbytes \<le> 256"
proof -
  have n: "unat nbytes \<le> 4080" using assms by (simp add: PGSIZE_def word_le_nat_alt)
  have "(nbytes + 16 - 1) = of_nat (unat nbytes + 15)" by simp
  moreover have "unat (of_nat (unat nbytes + 15) :: u64) = unat nbytes + 15" using n by (intro unat_of_nat_less) simp
  ultimately have "unat (nbytes + 16 - 1) = unat nbytes + 15" by metis
  then have "unat ((nbytes + 16 - 1) div 16) = (unat nbytes + 15) div 16" by (simp only: unat_div) simp
  moreover have "(nbytes + 16 - 1) div 16 = of_nat (unat ((nbytes + 16 - 1) div 16))" by simp
  ultimately have "(nbytes + 16 - 1) div 16 = of_nat ((unat nbytes + 15) div 16)" by metis
  then show "(nbytes + 16 - 1) div 16 + 1 = of_nat (units nbytes)" by (simp add: units_def)
  show "1 \<le> units nbytes" "units nbytes \<le> 256" using n by (auto simp: units_def)
qed

lemma kmalloc_run:
  assumes "kml_ok K A L sz s" "nbytes \<le> PGSIZE - 16"
  shows "kmalloc K nbytes s = None \<and> (\<forall>a \<in> A. sz a < units nbytes) \<and> mem_free s = 0 \<or>
    (\<exists>A' sz' b s'. kmalloc K nbytes s = Some (of_nat (b + 16), s') \<and> kml_ok K A' (insert b L) sz' s' \<and> b \<notin> L \<and> unat nbytes + 16 \<le> 16 * sz' b \<and>
      (\<forall>a \<in> L. sz' a = sz a) \<and> heap_frame K A sz s s' \<and> b + 16 \<le> 2 ^ 40)"
proof -
  define t where "t = (if freep K s = 0 then set_size (k_base K) 0 (set_freep K (k_base K) (set_ptr (k_base K) (k_base K) s)) else s)"
  let ?n = "units nbytes"
  let ?v = "unat (k_freep K)"
  note I = kml_init [OF assms(1) t_def] and U = units_word [OF assms(2)]
  have n40: "?n \<le> 2 ^ 40" using U(3) by simp
  have en: "unat nbytes + 16 \<le> 16 * ?n" by (simp add: units_def)
  have start: "\<exists>r p. r \<in> A \<and> is_next A r p \<and> get64 (ram u) ?v = of_nat r \<and> h_ptr (of_nat r) u = of_nat p"
    if u: "kml_ok K A L sz u" "headers_ok ?v A L sz (ram u)" for A sz and u :: "'a vm_scheme"
  proof -
    obtain r where r: "r \<in> A" "get64 (ram u) ?v = of_nat r" using u(2) by (auto simp: headers_ok_def)
    have B: "blocks_ok (unat (k_base K)) ?v A L sz" using u(1) by (simp add: kml_ok_def Let_def)
    then have "finite A" by (simp add: blocks_ok_def blocks_in_def)
    then obtain p where p: "is_next A r p" using next_exists [OF _ r(1)] by blast
    then have "h_ptr (of_nat r) u = of_nat p" using r(1) u(2) blocks_okD(2) [OF B, of r] by (simp add: headers_ok_def header_simps)
    then show ?thesis using r p by blast
  qed
  have scan: "(\<exists>r' p'. r' \<in> A \<and> p' \<in> A \<and> is_next A r' p' \<and> ?n \<le> sz p' \<and>
        kmalloc_loop K (of_nat ?n) (of_nat r) (of_nat p) u = Some (take_block K (of_nat ?n) (of_nat r') (of_nat p') u)) \<or>
      (\<forall>c \<in> A. sz c < ?n) \<and>
        kmalloc_loop K (of_nat ?n) (of_nat r) (of_nat p) u = do { (p, s) \<leftarrow> morecore K u; if p = 0 then Some (0, s) else kmalloc_loop K (of_nat ?n) p (h_ptr p s) s }"
    if u: "kml_ok K A L sz u" "headers_ok ?v A L sz (ram u)" "r \<in> A" "is_next A r p" "get64 (ram u) ?v = of_nat r" for A sz r p and u :: "'a vm_scheme"
  proof -
    have "?v + 8 \<le> PAGE_START" using u(1) by (simp add: kml_ok_def Let_def)
    then have v: "?v + 8 \<le> 2 ^ 40" using PAGE_START_bound by linarith
    have B: "blocks_ok (unat (k_base K)) ?v A L sz" using u(1) by (simp add: kml_ok_def Let_def)
    show ?thesis using kmalloc_scan [OF B u(2) _ v n40 u(3,5,3,4), of K] on_way_all [OF u(4,3)] by simp
  qed
  obtain r p where r: "r \<in> A" "is_next A r p" "get64 (ram t) ?v = of_nat r" "h_ptr (of_nat r) t = of_nat p" using start [OF I(1,2)] by blast
  have km: "kmalloc K nbytes s = kmalloc_loop K (of_nat ?n) (of_nat r) (of_nat p) t"
    unfolding kmalloc_def U(1) t_def [symmetric] Let_def using leD [OF assms(2)] r(3,4) by (simp add: freep_def [of K t] ld64_def)
  have I3: "heap_frame K A sz s u" if "heap_frame K A sz t u" for u
    using I(3,4) that by (simp add: heap_frame_def)
  from scan [OF I(1,2) r(1-3)] show ?thesis
  proof (elim disjE exE conjE)
    fix r' p' assume f: "r' \<in> A" "p' \<in> A" "is_next A r' p'" "?n \<le> sz p'"
      "kmalloc_loop K (of_nat ?n) (of_nat r) (of_nat p) t = Some (take_block K (of_nat ?n) (of_nat r') (of_nat p') t)"
    obtain A' sz' b s' where T: "take_block K (of_nat ?n) (of_nat r') (of_nat p') t = (of_nat (b + 16), s')" "kml_ok K A' (insert b L) sz' s'" "b \<notin> L" "sz' b = ?n"
        "\<forall>a \<in> L. sz' a = sz a" "heap_frame K A sz t s'" "b + 16 \<le> 2 ^ 40"
      using kmalloc_take [OF I(1,2) U(2) f(4,1-3)] by (elim exE conjE) (rule that)
    then show ?thesis using km f(5) en I3 [OF T(6)] by (intro disjI2 exI [of _ A'] exI [of _ sz'] exI [of _ b] exI [of _ s']) simp
  next
    assume f: "\<forall>c \<in> A. sz c < ?n"
      "kmalloc_loop K (of_nat ?n) (of_nat r) (of_nat p) t = do { (p, s) \<leftarrow> morecore K t; if p = 0 then Some (0, s) else kmalloc_loop K (of_nat ?n) p (h_ptr p s) s }"
    show ?thesis
    proof (cases "kalloc t = None")
      case True
      have "vm_ok t" using I(1) by (simp add: kml_ok_def Let_def)
      then have "mem_free t = 0" using kalloc_spec True by fastforce
      moreover have "morecore K t = None" using True by (simp add: morecore_def)
      ultimately show ?thesis using f km I(5) by simp
    next
      case False
      obtain A1 sz1 s1 q where M: "morecore K t = Some (of_nat q, s1)" "kml_ok K A1 L sz1 s1" "headers_ok ?v A1 L sz1 (ram s1)" "q \<in> A1" "get64 (ram s1) ?v = of_nat q"
          "\<exists>c \<in> A1. 256 \<le> sz1 c" "\<forall>a \<in> L. sz1 a = sz a" "heap_frame K A sz t s1" "live_pages t \<subseteq> live_pages s1"
          "\<forall>x \<in> area A1 sz1 - area A sz. PAGE_START \<le> x \<and> (\<forall>p \<in> live_pages t. \<not> (p \<le> x \<and> x < p + 4096))"
        using morecore_spec [OF I(1,2) False] by (elim exE conjE) (rule that)
      obtain r1 p1 where r1: "r1 \<in> A1" "is_next A1 r1 p1" "get64 (ram s1) ?v = of_nat r1" "h_ptr (of_nat r1) s1 = of_nat p1" using start [OF M(2,3)] by blast
      have "unat (k_base K) \<le> q" "q + 16 \<le> 2 ^ 40" "0 < unat (k_base K)" using M(2,4) blocks_okD(1,2) [of "unat (k_base K)" ?v A1 L sz1 q] by (auto simp: kml_ok_def Let_def)
      then have "(of_nat q :: u64) \<noteq> 0" using adr_simps(3) [of q 0] by simp
      then have lp: "kmalloc_loop K (of_nat ?n) (of_nat r) (of_nat p) t = kmalloc_loop K (of_nat ?n) (of_nat r1) (of_nat p1) s1"
        using f(2) M(1,5) r1(3,4) by simp
      have "\<not> (\<forall>c \<in> A1. sz1 c < ?n)" using M(6) U(3) by fastforce
      then obtain r' p' where f1: "r' \<in> A1" "p' \<in> A1" "is_next A1 r' p'" "?n \<le> sz1 p'"
          "kmalloc_loop K (of_nat ?n) (of_nat r1) (of_nat p1) s1 = Some (take_block K (of_nat ?n) (of_nat r') (of_nat p') s1)"
        using scan [OF M(2,3) r1(1-3)] by blast
      obtain A' sz' b s' where T: "take_block K (of_nat ?n) (of_nat r') (of_nat p') s1 = (of_nat (b + 16), s')" "kml_ok K A' (insert b L) sz' s'" "b \<notin> L" "sz' b = ?n"
          "\<forall>a \<in> L. sz' a = sz1 a" "heap_frame K A1 sz1 s1 s'" "b + 16 \<le> 2 ^ 40"
        using kmalloc_take [OF M(2,3) U(2) f1(4,1-3)] by (elim exE conjE) (rule that)
      have "heap_frame K A sz t s'" by (rule kml_frame_trans [OF M(8) T(6) M(9,10)])
      then show ?thesis using km lp f1(5) T(1-5,7) M(7) en I3 by (intro disjI2 exI [of _ A'] exI [of _ sz'] exI [of _ b] exI [of _ s']) simp
    qed
  qed
qed

text \<open>
  C14: A call of \<^verbatim>\<open>kmalloc\<close> for at most 4080 bytes on a consistent heap returns, whatever the state of the circle (the search ends), if a free
  block is large enough or the page allocator has a page left. The block has room for the bytes asked for behind its
  header and is disjoint from all free and live blocks; sizes and contents of the live blocks, and all other memory, stay as they are.
\<close>

theorem kmalloc_correct:
  assumes "kml_ok K A L sz s" "nbytes \<le> PGSIZE - 16" "(\<exists>a \<in> A. units nbytes \<le> sz a) \<or> 0 < mem_free s"
  shows "\<exists>A' sz' b s'. kmalloc K nbytes s = Some (of_nat (b + 16), s') \<and> kml_ok K A' (insert b L) sz' s' \<and> b \<notin> L \<and> unat nbytes + 16 \<le> 16 * sz' b \<and>
    (\<forall>a \<in> L. sz' a = sz a) \<and> heap_frame K A sz s s'"
  using kmalloc_run [OF assms(1,2)] assms(3) by (smt (verit) not_le less_irrefl)

text \<open>A heap that was never used.\<close>

lemma fresh_heap:
  obtains s :: vm where "kml_ok \<lparr>k_base = 0x80300000, k_freep = 0x80300100\<rparr> {0x80300000} {} (\<lambda>_. 0) s" "0 < mem_free s"
proof -
  obtain s0 :: vm where s0: "vm_ok s0" "mem_free s0 = 63488" by (rule vm_boot) blast
  let ?s = "s0\<lparr>ram := \<lambda>_. 0\<rparr>"
  have "get64 (\<lambda>_. 0) n = 0" for n by (simp add: get64_def le_val_zero)
  then have "kml_ok \<lparr>k_base = 0x80300000, k_freep = 0x80300100\<rparr> {0x80300000} {} (\<lambda>_. 0) ?s"
    using s0(1) by (simp add: kml_ok_def vm_ok_def buddy_inv_def blocks_ok_def blocks_in_def ext_def area_def PAGE_START_def PHYSTOP_def KERNBASE_def PAGE_SIZE_def PAGE_NUM_def)
  moreover have "0 < mem_free ?s" using s0(2) by (simp add: mem_free_def)
  ultimately show ?thesis by (rule that)
qed

theorem kmalloc_correct_witness:
  "\<exists>(s :: vm) b s'. kmalloc \<lparr>k_base = 0x80300000, k_freep = 0x80300100\<rparr> 100 s = Some (of_nat (b + 16), s') \<and>
     (\<exists>A sz. kml_ok \<lparr>k_base = 0x80300000, k_freep = 0x80300100\<rparr> A {b} sz s' \<and> 116 \<le> 16 * sz b)"
proof -
  obtain s :: vm where s: "kml_ok \<lparr>k_base = 0x80300000, k_freep = 0x80300100\<rparr> {0x80300000} {} (\<lambda>_. 0) s" "0 < mem_free s" by (rule fresh_heap)
  have "(100 :: u64) \<le> PGSIZE - 16" by (simp add: PGSIZE_def)
  then obtain A' sz' b s' where "kmalloc \<lparr>k_base = 0x80300000, k_freep = 0x80300100\<rparr> 100 s = Some (of_nat (b + 16), s')"
      "kml_ok \<lparr>k_base = 0x80300000, k_freep = 0x80300100\<rparr> A' {b} sz' s'" "unat (100 :: u64) + 16 \<le> 16 * sz' b"
    using kmalloc_correct [OF s(1), of 100] s(2) by blast
  moreover from this(3) have "116 \<le> 16 * sz' b" by simp
  ultimately show ?thesis by blast
qed

lemma kmfree_run:
  assumes "kml_ok K A (insert b L) sz s" "b \<notin> L"
  shows "\<exists>A' sz' s'. kmfree K (of_nat (b + 16)) s = Some s' \<and> kml_ok K A' L sz' s' \<and> area A' sz' = area A sz \<union> {b..<b + 16 * sz b} \<and>
    (\<forall>a \<in> A'. a \<noteq> unat (k_base K) \<longrightarrow> a + 16 * sz' a \<notin> A') \<and> (\<forall>a \<in> L. sz' a = sz a) \<and> heap_frame K (insert b A) sz s s'"
proof -
  define z where "z = unat (k_base K)"
  define v where "v = unat (k_freep K)"
  have K: "0 < z" "z + 16 \<le> PAGE_START" "v + 8 \<le> PAGE_START" "vm_ok s" "\<forall>x \<in> area (A \<union> insert b L) sz. \<exists>p \<in> live_pages s. p \<le> x \<and> x < p + 4096"
      "blocks_ok z v A (insert b L) sz" "headers_ok v A (insert b L) sz (ram s)"
    using assms(1) by (simp_all add: kml_ok_def Let_def z_def v_def)
  have b: "b \<notin> A" "b \<noteq> z" using K(6) by (auto simp: blocks_ok_def blocks_in_def)
  have fv: "k_freep K = of_nat v" by (simp add: v_def)
  have v40: "v + 8 \<le> 2 ^ 40" using K(3) PAGE_START_bound by linarith
  obtain A' sz' m' where F: "kmfree K (of_nat b + 16) s = Some (s\<lparr>ram := m'\<rparr>)" "blocks_ok z v A' L sz'" "headers_ok v A' L sz' m'"
      "area A' sz' = area A sz \<union> {b..<b + 16 * sz b}" "\<forall>a \<in> L. sz' a = sz a" "A' \<subseteq> insert b A"
      "\<forall>x. (\<forall>a \<in> insert b A. x < a \<or> a + 16 \<le> x) \<and> (x < v \<or> v + 8 \<le> x) \<longrightarrow> m' x = ram s x"
    using kmfree_spec [OF K(6,7) b(1) assms(2) b(2) fv v40] by (elim exE conjE) (rule that)
  let ?s = "s\<lparr>ram := m'\<rparr>"
  have "area L sz' = area L sz" using F(5) by (simp add: area_def)
  then have "area (A' \<union> L) sz' = area (A \<union> insert b L) sz" using F(4) by (auto simp: area_Un area_insert)
  then have "\<forall>x \<in> area (A' \<union> L) sz'. \<exists>p \<in> live_pages ?s. p \<le> x \<and> x < p + 4096" using K(5) by (simp add: live_pages_def)
  moreover have "vm_ok ?s" using K(4) by (simp add: vm_ok_def buddy_inv_def)
  ultimately have ok: "kml_ok K A' L sz' ?s" unfolding kml_ok_def Let_def using K(1-3) F(2,3) by (simp add: z_def v_def)
  have "heap_frame K (insert b A) sz s ?s" unfolding heap_frame_def
  proof (intro allI impI)
    fix x assume x: "x \<notin> area (insert b A) sz \<and> (x < unat (k_base K) \<or> unat (k_base K) + 16 \<le> x) \<and> (x < unat (k_freep K) \<or> unat (k_freep K) + 8 \<le> x) \<and>
       (x < PAGE_START \<or> (\<exists>p \<in> live_pages s. p \<le> x \<and> x < p + 4096))"
    have "x < a \<or> a + 16 \<le> x" if "a \<in> insert b A" for a
    proof (cases "a = z")
      case False
      then have "1 \<le> sz a" using blocks_okD(4) [OF K(6), of a] that by auto
      moreover have "x \<notin> {a..<a + 16 * sz a}" using x that unfolding area_def by blast
      ultimately show ?thesis by auto
    qed (use x in \<open>simp add: z_def\<close>)
    then show "ram ?s x = ram s x" using F(7) x by (simp add: v_def)
  qed
  moreover have "\<forall>a \<in> A'. a \<noteq> unat (k_base K) \<longrightarrow> a + 16 * sz' a \<notin> A'" using F(2) by (simp add: blocks_ok_def z_def)
  moreover have "kmfree K (of_nat (b + 16)) s = Some ?s" using F(1) by (simp add: add.commute)
  ultimately show ?thesis using ok F(4,5) by blast
qed

text \<open>
  C15: Freeing a live block of a consistent heap returns: the place in the circle is found from wherever the last operation
  left off, the block joins the free ones before and behind it if they touch, no two free blocks touch afterwards, exactly the
  bytes of the block are added to the free memory, and the other live blocks and all other memory stay as they are.
\<close>

theorem kmfree_correct:
  assumes "kml_ok K A (insert b L) sz s" "b \<notin> L"
  shows "\<exists>A' sz' s'. kmfree K (of_nat (b + 16)) s = Some s' \<and> kml_ok K A' L sz' s' \<and> area A' sz' = area A sz \<union> {b..<b + 16 * sz b} \<and>
    (\<forall>a \<in> A'. a \<noteq> unat (k_base K) \<longrightarrow> a + 16 * sz' a \<notin> A') \<and> (\<forall>a \<in> L. sz' a = sz a) \<and> heap_frame K (insert b A) sz s s'"
  by (rule kmfree_run [OF assms])

theorem kmfree_correct_witness:
  "\<exists>b (s :: vm) s'. kmfree \<lparr>k_base = 0x80300000, k_freep = 0x80300100\<rparr> (of_nat (b + 16)) s = Some s' \<and>
     (\<exists>A sz. kml_ok \<lparr>k_base = 0x80300000, k_freep = 0x80300100\<rparr> A {} sz s' \<and> b \<in> area A sz)"
proof -
  obtain s :: vm where s: "kml_ok \<lparr>k_base = 0x80300000, k_freep = 0x80300100\<rparr> {0x80300000} {} (\<lambda>_. 0) s" "0 < mem_free s" by (rule fresh_heap)
  have "(100 :: u64) \<le> PGSIZE - 16" by (simp add: PGSIZE_def)
  moreover have nz: "mem_free s \<noteq> 0" using s(2) by simp
  ultimately obtain A sz b and t :: vm where t: "kml_ok \<lparr>k_base = 0x80300000, k_freep = 0x80300100\<rparr> A {b} sz t" "unat (100 :: u64) + 16 \<le> 16 * sz b"
    using kmalloc_run [OF s(1), of 100] nz by blast
  obtain A' sz' s' where "kmfree \<lparr>k_base = 0x80300000, k_freep = 0x80300100\<rparr> (of_nat (b + 16)) t = Some s'"
      "kml_ok \<lparr>k_base = 0x80300000, k_freep = 0x80300100\<rparr> A' {} sz' s'" "area A' sz' = area A sz \<union> {b..<b + 16 * sz b}"
    using kmfree_correct [OF t(1)] by blast
  moreover from this(3) have "b \<in> area A' sz'" using t(2) by auto
  ultimately show ?thesis by blast
qed

section \<open>The contract of an allocator\<close>

text \<open>With the live blocks beside the state, the heap satisfies the contract of the page and slab allocators.\<close>

definition heap_alloc :: "kml \<Rightarrow> u64 \<Rightarrow> nat set \<times> 'a vm_scheme \<Rightarrow> (nat \<times> nat set \<times> 'a vm_scheme) option" where
  "heap_alloc K n H = (case kmalloc K n (snd H) of
     None \<Rightarrow> None
   | Some (a, s) \<Rightarrow> if a = 0 then None else Some (unat a - 16, insert (unat a - 16) (fst H), s))"

definition heap_free :: "kml \<Rightarrow> nat \<Rightarrow> nat set \<times> 'a vm_scheme \<Rightarrow> (nat set \<times> 'a vm_scheme) option" where
  "heap_free K b H = map_option (\<lambda>s. (fst H - {b}, s)) (kmfree K (of_nat (b + 16)) (snd H))"

definition heap_inv :: "kml \<Rightarrow> nat set \<times> 'a vm_scheme \<Rightarrow> bool" where
  "heap_inv K H \<longleftrightarrow> (\<exists>A sz. kml_ok K A (fst H) sz (snd H))"

interpretation heap: allocator "heap_inv K" fst "heap_alloc K n" "heap_free K" for K n
proof
  fix H H' :: "nat set \<times> 'a vm_scheme" and p
  assume inv: "heap_inv K H" and al: "heap_alloc K n H = Some (p, H')"
  obtain A sz where ok: "kml_ok K A (fst H) sz (snd H)" using inv by (auto simp: heap_inv_def)
  obtain a s where a: "kmalloc K n (snd H) = Some (a, s)" "a \<noteq> 0" "p = unat a - 16" "H' = (insert p (fst H), s)"
    using al by (auto simp: heap_alloc_def split: option.splits prod.splits if_splits)
  have "n \<le> PGSIZE - 16" using a(1) by (auto simp: kmalloc_def not_less split: if_splits)
  then obtain A' sz' b where b: "a = of_nat (b + 16)" "kml_ok K A' (insert b (fst H)) sz' s" "b \<notin> fst H" "b + 16 \<le> 2 ^ 40"
    using kmalloc_run [OF ok] a(1) by (metis (no_types, lifting) option.distinct(1) option.inject prod.inject)
  have "unat a = b + 16" unfolding b(1) by (rule adr_simps(4) [OF b(4,4)])
  then have "p = b" using a(3) by simp
  then show "heap_inv K H' \<and> p \<notin> fst H \<and> fst H' = insert p (fst H)" using a(4) b(2,3) by (auto simp: heap_inv_def)
next
  fix H :: "nat set \<times> 'a vm_scheme" and b
  assume inv: "heap_inv K H" and b: "b \<in> fst H"
  obtain A sz where ok: "kml_ok K A (insert b (fst H - {b})) sz (snd H)" using inv b by (auto simp: heap_inv_def insert_absorb)
  show "\<exists>H'. heap_free K b H = Some H' \<and> heap_inv K H' \<and> fst H' = fst H - {b}"
    using kmfree_run [OF ok] by (auto simp: heap_free_def heap_inv_def)
qed

end
