(* ===== verification/Spec2Isabelle.thy ===== *)
theory Spec2Isabelle
  imports Kernel_String Klist Buddy_Free Slab_Correct Pipe Console Bio_Correct File_Correct Cred Process_Correct Printf Clock Kmalloc_Correct
begin

text \<open>
  A verification library for the xv6 kernel of the Milk-V Duo (\<^verbatim>\<open>kernel/\<close> and \<^verbatim>\<open>include/\<close>): a RISC-V teaching kernel
  on one hart with a buddy and a slab allocator, a buffer cache over an SD card, a file system with two
  levels of indirect blocks, demand paged memory with copy on write, signals and process groups.

  \<^bold>\<open>Conventions.\<close> C integers are words of their width (\<^verbatim>\<open>Kernel_Prelude\<close>). A function that panics, spins
  forever or follows a null pointer has result \<^term>\<open>None\<close>, so a theorem that a call returns says that none of
  this happens. Components are records that extend the record of the component below, so that every
  operation applies to the larger states unchanged. Spinlocks are a set of held locks in which taking a
  held lock and releasing a free one panic; \<^verbatim>\<open>Kernel_Lock\<close> shows that \<^verbatim>\<open>kernel/spinlock.c\<close> on one hart has this
  behaviour (locale \<open>lock_contract\<close>, interpreted for both).

  \<^bold>\<open>Memory.\<close> \<^verbatim>\<open>Kernel_String\<close> models \<^verbatim>\<open>kernel/string.c\<close> on byte memory, \<^verbatim>\<open>Kernel_Bytes\<close> little-endian integers in it. \<^verbatim>\<open>Buddy\<close>,
  \<^verbatim>\<open>Buddy_Correct\<close> and \<^verbatim>\<open>Buddy_Free\<close> model \<^verbatim>\<open>kernel/buddy.c\<close>, \<^verbatim>\<open>kernel/page.c\<close> and \<^verbatim>\<open>kernel/kalloc.c\<close> with the free lists as links
  between page structures and show that allocation and freeing keep the partition into blocks, coalesce
  completely, and satisfy the contract of the locale \<open>allocator\<close>. \<^verbatim>\<open>Slab\<close> and \<^verbatim>\<open>Slab_Correct\<close> model \<^verbatim>\<open>kernel/slab.c\<close> on top
  of it: objects are handed out once, never overlap, and come back. \<^verbatim>\<open>Kmalloc\<close> models the block lists of \<^verbatim>\<open>kernel/kmalloc.c\<close>;
  \<^verbatim>\<open>Kmalloc_Correct\<close> shows that its blocks tile the pages taken, that allocation and freeing keep this, and interprets
  the contract of the allocator for it (\<open>heap\<close>). \<^verbatim>\<open>Klist\<close> models the intrusive lists of
  \<^verbatim>\<open>include/list.h\<close>.

  \<^bold>\<open>Virtual memory.\<close> \<^verbatim>\<open>Vm\<close> models \<^verbatim>\<open>kernel/vm.c\<close> with page tables as bytes of memory. \<^verbatim>\<open>Vm_Correct\<close> reads a table as a map
  from the \<open>2 ^ 26\<close> virtual pages below \<^verbatim>\<open>MAXVA\<close> to entries (\<open>vmap\<close>) under the invariant \<open>pt_ok\<close>, that its
  pages form a tree of distinct allocated pages; \<^verbatim>\<open>Vm_User\<close> shows that mapping and unmapping are updates of
  this map, that copies between kernel and user memory are faithful, and that a copy on write fault gives
  a private copy. \<^verbatim>\<open>Vm_Copy\<close> models \<^verbatim>\<open>uvmcopy\<close> and shows that a child gets every page of its parent.

  \<^bold>\<open>Storage.\<close> \<^verbatim>\<open>Bio\<close> and \<^verbatim>\<open>Bio_Correct\<close> model \<^verbatim>\<open>kernel/bio.c\<close>, \<^verbatim>\<open>kernel/sd.c\<close> and \<^verbatim>\<open>log_write\<close> of \<^verbatim>\<open>kernel/log.c\<close>. The driver below
  is the parameter \<open>mmc_ops\<close>, with the hypothesis \<open>mmc_ok\<close> that it reads and writes the sectors asked for.
  \<^verbatim>\<open>Fs\<close> models \<^verbatim>\<open>kernel/fs.c\<close>; \<^verbatim>\<open>Fs_Block\<close> shows block allocation correct, \<^verbatim>\<open>Fs_Inode\<close> block mapping and the inode table,
  \<^verbatim>\<open>Fs_File\<close> reading, writing and inode updates.

  \<^bold>\<open>Open files.\<close> \<^verbatim>\<open>File\<close> models the file table, reading, writing, seeking and status of \<^verbatim>\<open>kernel/file.c\<close>, \<^verbatim>\<open>File_Path\<close> its operations
  on paths (creating, opening, linking, renaming, permissions), \<^verbatim>\<open>Sysfile\<close> the calls of \<^verbatim>\<open>kernel/sysfile.c\<close>. The state
  extends that of the file system with the file table, the pipes, the descriptors and the user memory of the current process as
  \<^verbatim>\<open>copyin\<close> and \<^verbatim>\<open>copyout\<close> see it; drivers are the parameter \<open>devtab\<close>, with the hypothesis \<open>dev_ok\<close> that they leave the
  file table alone. \<^verbatim>\<open>Fs_Frame\<close> gives, for every operation of the layers below, what it leaves alone; on it rest the laws of
  \<^verbatim>\<open>File_Refs\<close> (locale \<open>file_refs\<close>, interpreted on the file table) and \<^verbatim>\<open>File_Calls\<close>, which makes the calls steps of a process. \<^verbatim>\<open>File_Correct\<close>
  shows that descriptors never dangle and entries stay well typed through any sequence of calls, and that what is written to a
  file is read back.

  \<^bold>\<open>Processes.\<close> \<^verbatim>\<open>Cred\<close> models the identity system calls of \<^verbatim>\<open>kernel/sysproc.c\<close>; \<^verbatim>\<open>Signal\<close> models \<^verbatim>\<open>kernel/signal.c\<close> (locale
  \<open>set_impl\<close>, interpreted on 64-bit words); \<^verbatim>\<open>Proc\<close> and \<^verbatim>\<open>Proc_Call\<close> model scheduling, sleep and wakeup, signals and
  groups of \<^verbatim>\<open>kernel/proc.c\<close>, argument fetching of \<^verbatim>\<open>kernel/syscall.c\<close> and the calls above them. What a process that gave
  up the hart has left to do is a value of its record. \<^verbatim>\<open>Proc_Correct\<close> shows by induction over runs of the
  system that one process runs at a time, that nothing panics in the scheduler, that wakeups are not
  lost and that the scheduler is fair. \<^verbatim>\<open>Mmap\<close> models the region list of \<^verbatim>\<open>kernel/mmap.c\<close>.

  \<^bold>\<open>The whole kernel.\<close> \<^verbatim>\<open>System\<close> joins the state of the processes with that of the file system: an operation on files
  runs on the view that one process has of them (\<open>file_view\<close>) and its result is put back (\<open>file_back\<close>). On it
  \<^verbatim>\<open>Mmap_Call\<close> models the rest of \<^verbatim>\<open>kernel/mmap.c\<close> (mapping, unmapping, remapping, protecting, page faults and copying of
  regions), \<^verbatim>\<open>Process\<close> the creation, exit and reaping of processes of \<^verbatim>\<open>kernel/proc.c\<close>. \<^verbatim>\<open>Process_Correct\<close> shows that \<^verbatim>\<open>fork\<close> makes
  a runnable copy of the caller that shares no page with it.

  \<^bold>\<open>Input and output.\<close> \<^verbatim>\<open>Ring\<close> is the ring buffer contract of \<^verbatim>\<open>Pipe\<close> (\<^verbatim>\<open>kernel/pipe.c\<close>) and \<^verbatim>\<open>Console\<close> (\<^verbatim>\<open>kernel/console.c\<close>).
  \<^verbatim>\<open>Printf\<close> models the formatted output of \<^verbatim>\<open>kernel/printf.c\<close>: the digits printed read back as the number.
  \<^verbatim>\<open>Clock\<close> models the tick, the wall clock and its system calls (\<^verbatim>\<open>kernel/clock.c\<close>) and the calendar of \<^verbatim>\<open>kernel/rtc.c\<close>, shown
  to turn seconds into a date and back.

  \<^bold>\<open>Loops.\<close> Loops with a bound in the code are structural or well-founded recursion; the page table loops,
  whose bound wraps around, \<^verbatim>\<open>strlen\<close>, following symbolic links and walking directories are \<^verbatim>\<open>partial_function (option)\<close>, and the theorems about them state
  that they return. No fuel is used. Sleeping in the storage layer ends the modelled segment: the
  results \<open>Sleeps\<close> and \<open>Away\<close> say that the caller waits.

  \<^bold>\<open>Not modelled.\<close> \<^verbatim>\<open>kernel/exec.c\<close>, traps and the dispatch of system calls. Left out for good: assembly, the drivers of the
  SD host controller, the timer registers and the other devices, \<^verbatim>\<open>mkfs\<close>, and the user programs.
\<close>

end
